(* ===== verification/Lilac_Prelude.thy ===== *)
theory Lilac_Prelude
  imports Main "HOL-Library.Word"
begin

unbundle bit_operations_syntax

text \<open>
  What the theories of the kernel share: the machine integers of \<^verbatim>\<open>kernel/types.h\<close>, the
  byte-addressed memory with its little-endian accesses, the result type for code that can
  panic, run into undefined behaviour or fail to return, and the aligned power-of-two
  blocks in which the allocator, the page tables and the page frames are measured.
\<close>

section \<open>Machine integers\<close>

type_synonym u8 = "8 word"
type_synonym u16 = "16 word"
type_synonym u32 = "32 word"
type_synonym u64 = "64 word"

text \<open>\<^verbatim>\<open>usize\<close> is \<^verbatim>\<open>uint64\<close> on RV64, and so is every address.\<close>

type_synonym usize = u64
type_synonym addr = u64

section \<open>Results of code that may not return normally\<close>

text \<open>
  \<open>Panic\<close> is a call of \<^verbatim>\<open>panic\<close>, which never returns; \<open>Undefined\<close> is an access outside an
  array or through a null pointer; \<open>Diverges\<close> is a loop that never ends.
\<close>

datatype fault = Panic string | Undefined | Diverges

type_synonym 'a outcome = "fault + 'a"

definition bindE :: "'e + 'a \<Rightarrow> ('a \<Rightarrow> 'e + 'b) \<Rightarrow> 'e + 'b" where
  "bindE r f = (case r of Inl e \<Rightarrow> Inl e | Inr x \<Rightarrow> f x)"

definition returns :: "'a option \<Rightarrow> 'a outcome" where
  "returns r = (case r of None \<Rightarrow> Inl Diverges | Some x \<Rightarrow> Inr x)"

lemma bindE_simps [simp]:
  "bindE (Inl e) f = Inl e"
  "bindE (Inr x) f = f x"
  by (simp_all add: bindE_def)

lemma bindE_cong [fundef_cong]:
  "r = r' \<Longrightarrow> (\<And>x. r' = Inr x \<Longrightarrow> f x = f' x) \<Longrightarrow> bindE r f = bindE r' f'"
  by (cases r') simp_all

lemma bindE_Inr_iff: "bindE r f = Inr y \<longleftrightarrow> (\<exists>x. r = Inr x \<and> f x = Inr y)"
  by (cases r) auto

lemma bindE_InrE:
  assumes "bindE r f = Inr y"
  obtains x where "r = Inr x" and "f x = Inr y"
  using assms by (auto simp: bindE_Inr_iff)

lemma bindE_assoc: "bindE (bindE r f) g = bindE r (\<lambda>x. bindE (f x) g)"
  by (cases r) simp_all

lemma returns_simps [simp]:
  "returns None = Inl Diverges"
  "returns (Some x) = Inr x"
  by (simp_all add: returns_def)

lemma returns_Inr_iff [simp]: "returns r = Inr x \<longleftrightarrow> r = Some x"
  by (cases r) simp_all

section \<open>Memory\<close>

type_synonym mem = "addr \<Rightarrow> u8"

text \<open>
  The \<open>k\<close> bytes at an address, wrapping around at the end of the address space, and the
  little-endian load and store of a value of \<open>k\<close> bytes.
\<close>

definition bytes_at :: "addr \<Rightarrow> nat \<Rightarrow> addr set" where
  "bytes_at a k = {x. unat (x - a) < k}"

definition load_bytes :: "nat \<Rightarrow> mem \<Rightarrow> addr \<Rightarrow> 'a::len word" where
  "load_bytes k m a = word_of_int (horner_sum uint 256 (map (\<lambda>i. m (a + of_nat i)) [0..<k]))"

definition store_bytes :: "nat \<Rightarrow> mem \<Rightarrow> addr \<Rightarrow> 'a::len word \<Rightarrow> mem" where
  "store_bytes k m a v =
     (\<lambda>x. if unat (x - a) < k then ucast (drop_bit (8 * unat (x - a)) v) else m x)"

abbreviation load16 :: "mem \<Rightarrow> addr \<Rightarrow> u16" where
  "load16 m a \<equiv> load_bytes 2 m a"

abbreviation load32 :: "mem \<Rightarrow> addr \<Rightarrow> u32" where
  "load32 m a \<equiv> load_bytes 4 m a"

abbreviation load64 :: "mem \<Rightarrow> addr \<Rightarrow> u64" where
  "load64 m a \<equiv> load_bytes 8 m a"

abbreviation store16 :: "mem \<Rightarrow> addr \<Rightarrow> u16 \<Rightarrow> mem" where
  "store16 m a v \<equiv> store_bytes 2 m a v"

abbreviation store32 :: "mem \<Rightarrow> addr \<Rightarrow> u32 \<Rightarrow> mem" where
  "store32 m a v \<equiv> store_bytes 4 m a v"

abbreviation store64 :: "mem \<Rightarrow> addr \<Rightarrow> u64 \<Rightarrow> mem" where
  "store64 m a v \<equiv> store_bytes 8 m a v"

text \<open>Two memories that agree outside a set of addresses: the frame of an operation.\<close>

definition same_outside :: "addr set \<Rightarrow> mem \<Rightarrow> mem \<Rightarrow> bool" where
  "same_outside S m m' \<longleftrightarrow> (\<forall>x. x \<notin> S \<longrightarrow> m' x = m x)"

lemma bit_load_bytes:
  "bit (load_bytes k m a :: 'a::len word) n \<longleftrightarrow>
     n < LENGTH('a) \<and> n < 8 * k \<and> bit (m (a + of_nat (n div 8))) (n mod 8)"
proof -
  have "bit (horner_sum uint (2 ^ 8) (map (\<lambda>i. m (a + of_nat i)) [0..<k])) n \<longleftrightarrow>
      n div 8 < k \<and> bit (m (a + of_nat (n div 8))) (n mod 8)"
    using bit_horner_sum_uint_exp_iff [of "map (\<lambda>i. m (a + of_nat i)) [0..<k]" n] by auto
  then show ?thesis
    by (auto simp: load_bytes_def bit_simps)
qed

lemma same_outside_refl [simp, intro]: "same_outside S m m"
  by (simp add: same_outside_def)

lemma same_outside_trans [trans]:
  "same_outside S m m' \<Longrightarrow> same_outside S m' m'' \<Longrightarrow> same_outside S m m''"
  by (simp add: same_outside_def)

lemma same_outside_mono: "same_outside S m m' \<Longrightarrow> S \<subseteq> T \<Longrightarrow> same_outside T m m'"
  by (auto simp: same_outside_def)

lemma same_outside_store: "same_outside (bytes_at a k) m (store_bytes k m a v)"
  by (simp add: same_outside_def bytes_at_def store_bytes_def)

lemma unat_offset: "i < k \<Longrightarrow> k \<le> 2 ^ 64 \<Longrightarrow> unat ((a :: u64) + of_nat i - a) = i"
  by (simp add: unat_of_nat)

lemma load_bytes_cong:
  assumes "\<And>x. x \<in> bytes_at a k \<Longrightarrow> m' x = m x" and "k \<le> 2 ^ 64"
  shows "load_bytes k m' a = load_bytes k m a"
proof -
  have "m' (a + of_nat i) = m (a + of_nat i)" if "i < k" for i
    using that assms(2) by (intro assms(1)) (simp add: bytes_at_def unat_of_nat)
  then have "map (\<lambda>i. m' (a + of_nat i)) [0..<k] = map (\<lambda>i. m (a + of_nat i)) [0..<k]"
    by simp
  then show ?thesis
    by (simp only: load_bytes_def)
qed

lemma load_bytes_frame:
  "same_outside S m m' \<Longrightarrow> bytes_at a k \<inter> S = {} \<Longrightarrow> k \<le> 2 ^ 64 \<Longrightarrow>
     load_bytes k m' a = load_bytes k m a"
  by (rule load_bytes_cong) (auto simp: same_outside_def)

lemma load_store_same:
  assumes "8 * k = LENGTH('a)" and "k \<le> 2 ^ 64"
  shows "load_bytes k (store_bytes k m a (v :: 'a::len word)) a = v"
proof (rule bit_word_eqI)
  fix n assume n: "n < LENGTH('a)"
  then have "n div 8 < k" using assms(1) by auto
  then have "unat (of_nat (n div 8) :: u64) = n div 8"
    using assms(2) by (simp add: unat_of_nat)
  with n assms(1) \<open>n div 8 < k\<close>
  show "bit (load_bytes k (store_bytes k m a v) a :: 'a word) n \<longleftrightarrow> bit v n"
    by (simp add: bit_load_bytes store_bytes_def bit_simps)
qed

lemma load_store_apart:
  assumes "bytes_at a k \<inter> bytes_at b l = {}" and "l \<le> 2 ^ 64"
  shows "load_bytes l (store_bytes k m a v) b = load_bytes l m b"
  using assms by (intro load_bytes_frame [OF same_outside_store]) auto

lemmas load_store64 [simp] = load_store_same [where k = 8 and 'a = 64, simplified]
lemmas load_store32 [simp] = load_store_same [where k = 4 and 'a = 32, simplified]
lemmas load_store16 [simp] = load_store_same [where k = 2 and 'a = 16, simplified]

section \<open>Aligned blocks\<close>

text \<open>
  The block of order \<open>k\<close> at an aligned address is the set of addresses that agree with it
  above bit \<open>k\<close>: two such blocks are equal, nested or disjoint.
\<close>

definition aligned :: "nat \<Rightarrow> addr \<Rightarrow> bool" where
  "aligned k a \<longleftrightarrow> take_bit k a = 0"

definition blk :: "nat \<Rightarrow> addr \<Rightarrow> addr set" where
  "blk k a = {x. drop_bit k x = drop_bit k a}"

lemma self_in_blk [simp]: "a \<in> blk k a"
  by (simp add: blk_def)

lemma aligned_bit: "aligned k a \<longleftrightarrow> (\<forall>n < k. \<not> bit a n)"
proof
  assume "aligned k a"
  then have "\<not> bit (take_bit k a) n" for n by (simp add: aligned_def)
  then show "\<forall>n < k. \<not> bit a n" by (auto simp: bit_take_bit_iff)
next
  assume "\<forall>n < k. \<not> bit a n"
  then show "aligned k a"
    by (auto simp: aligned_def bit_take_bit_iff intro!: bit_word_eqI)
qed

lemma aligned_mono: "aligned k a \<Longrightarrow> j \<le> k \<Longrightarrow> aligned j a"
  by (auto simp: aligned_bit)

lemma blk_bit: "x \<in> blk k a \<longleftrightarrow> (\<forall>n \<ge> k. bit x n = bit a n)"
proof
  assume "x \<in> blk k a"
  then have "bit (drop_bit k x) n = bit (drop_bit k a) n" for n by (simp add: blk_def)
  then have "bit x (k + n) = bit a (k + n)" for n by (simp add: bit_drop_bit_eq)
  then show "\<forall>n \<ge> k. bit x n = bit a n" by (metis le_add_diff_inverse)
next
  assume "\<forall>n \<ge> k. bit x n = bit a n"
  then show "x \<in> blk k a"
    by (auto simp: blk_def bit_simps intro!: bit_word_eqI)
qed

lemma blk_mono: "j \<le> k \<Longrightarrow> blk j a \<subseteq> blk k a"
  by (auto simp: blk_bit)

lemma blk_eq: "x \<in> blk k a \<Longrightarrow> blk k x = blk k a"
  by (auto simp: blk_def)

lemma blk_sym: "x \<in> blk k a \<longleftrightarrow> a \<in> blk k x"
  by (auto simp: blk_def)

lemma blk_disjoint_iff: "j \<le> k \<Longrightarrow> blk j a \<inter> blk k b = {} \<longleftrightarrow> a \<notin> blk k b"
proof -
  assume jk: "j \<le> k"
  have "x \<in> blk j a \<Longrightarrow> x \<in> blk k b \<longleftrightarrow> a \<in> blk k b" for x
    using blk_mono [OF jk, of a] by (auto simp: blk_def)
  with self_in_blk [of a j] show ?thesis by blast
qed

lemma aligned_blk_unique: "aligned k a \<Longrightarrow> aligned k b \<Longrightarrow> a \<in> blk k b \<Longrightarrow> a = b"
  by (rule bit_word_eqI) (metis aligned_bit blk_bit linorder_not_le)

lemma aligned_blk_disjoint:
  "aligned k a \<Longrightarrow> aligned k b \<Longrightarrow> a \<noteq> b \<Longrightarrow> blk k a \<inter> blk k b = {}"
  by (auto simp: blk_disjoint_iff dest: aligned_blk_unique)

lemma aligned_plus_or: "aligned k a \<Longrightarrow> \<forall>n \<ge> k. \<not> bit d n \<Longrightarrow> a + d = a OR d"
  by (rule disjunctive_add) (meson aligned_bit linorder_not_le)

lemma unat_less_pow2: "unat (d :: u64) < 2 ^ k \<longleftrightarrow> (\<forall>n \<ge> k. \<not> bit d n)"
proof -
  have "unat d < 2 ^ k \<longleftrightarrow> take_bit k (unat d) = unat d"
    by (simp add: take_bit_nat_eq_self_iff)
  also have "\<dots> \<longleftrightarrow> take_bit k d = d"
    by (simp add: word_unat_eq_iff unsigned_take_bit_eq)
  also have "\<dots> \<longleftrightarrow> (\<forall>n \<ge> k. \<not> bit d n)"
    by (metis (mono_tags, lifting) bit_take_bit_iff bit_word_eqI linorder_not_le)
  finally show ?thesis .
qed

lemma bytes_at_blk:
  assumes "aligned k a"
  shows "bytes_at a (2 ^ k) = blk k a"
proof (rule set_eqI, rule iffI)
  fix x assume "x \<in> bytes_at a (2 ^ k)"
  then have no: "\<forall>n \<ge> k. \<not> bit (x - a) n"
    by (simp add: bytes_at_def unat_less_pow2)
  have "x = a OR (x - a)"
    using aligned_plus_or [OF assms no] by simp
  with no show "x \<in> blk k a"
    by (metis blk_bit bit_or_iff)
next
  fix x assume "x \<in> blk k a"
  then have "x = a OR take_bit k x"
    using assms
    by (intro bit_word_eqI) (metis aligned_bit bit_or_iff bit_take_bit_iff blk_bit linorder_not_le)
  also have "\<dots> = a + take_bit k x"
    by (rule aligned_plus_or [OF assms, symmetric]) (simp add: bit_take_bit_iff)
  finally have "x - a = take_bit k x" by (simp add: algebra_simps)
  then show "x \<in> bytes_at a (2 ^ k)"
    by (simp add: bytes_at_def unat_less_pow2 bit_take_bit_iff)
qed

lemma bytes8_blk: "aligned 3 a \<Longrightarrow> bytes_at a 8 = blk 3 a"
  using bytes_at_blk [of 3 a] by simp

lemma load64_frame:
  "same_outside S m m' \<Longrightarrow> aligned 3 a \<Longrightarrow> blk 3 a \<inter> S = {} \<Longrightarrow> load64 m' a = load64 m a"
  by (rule load_bytes_frame) (auto simp: bytes8_blk)

lemma load64_store64_other [simp]:
  "aligned 3 a \<Longrightarrow> aligned 3 b \<Longrightarrow> a \<noteq> b \<Longrightarrow> load64 (store64 m a v) b = load64 m b"
  by (rule load_store_apart) (auto simp: bytes8_blk dest: aligned_blk_disjoint)

section \<open>Alignment and powers of two\<close>

lemma unat_pow2: "k < 64 \<Longrightarrow> unat (2 ^ k :: u64) = 2 ^ k"
proof -
  assume "k < 64"
  then have "(2 :: nat) ^ k < 2 ^ 64" by (rule power_strict_increasing) simp
  then have "unat (of_nat (2 ^ k) :: u64) = 2 ^ k"
    by (simp only: unat_of_nat) simp
  then show ?thesis by simp
qed

lemma aligned_nat_dvd: "aligned k a \<longleftrightarrow> 2 ^ k dvd unat a"
proof -
  have "aligned k a \<longleftrightarrow> unat (take_bit k a) = 0"
    by (simp add: aligned_def unat_eq_0 del: take_bit_eq_0_iff)
  then show ?thesis
    by (simp only: unsigned_take_bit_eq) (simp add: take_bit_eq_mod dvd_eq_mod_eq_0)
qed

lemma push_drop_aligned: "aligned k w \<Longrightarrow> push_bit k (drop_bit k w) = w"
proof (rule bit_word_eqI)
  fix n assume "aligned k w"
  then show "bit (push_bit k (drop_bit k w)) n \<longleftrightarrow> bit w n"
    by (cases "n < k") (auto simp: aligned_bit bit_push_bit_iff bit_drop_bit_eq dest: bit_imp_le_length)
qed

lemma aligned_push [simp]: "aligned k (push_bit k w)"
  by (simp add: aligned_bit bit_push_bit_iff)

lemma aligned_iff_ex: "aligned k a \<longleftrightarrow> (\<exists>x. a = 2 ^ k * x)"
proof
  assume "aligned k a"
  then have "a = 2 ^ k * drop_bit k a"
    using push_drop_aligned [of k a] by (simp only: push_bit_eq_mult mult.commute)
  then show "\<exists>x. a = 2 ^ k * x" ..
next
  assume "\<exists>x. a = 2 ^ k * x"
  then obtain x where "a = push_bit k x" by (auto simp: push_bit_eq_mult mult.commute)
  then show "aligned k a" by simp
qed

lemma aligned_add: "aligned k a \<Longrightarrow> aligned k b \<Longrightarrow> aligned k (a + b)"
  unfolding aligned_iff_ex by (metis distrib_left)

lemma aligned_minus: "aligned k a \<Longrightarrow> aligned k b \<Longrightarrow> aligned k (a - b)"
  unfolding aligned_iff_ex by (metis right_diff_distrib)

lemma less_pow2_bit:
  assumes "w < 2 ^ k" and "k < 64" and "k \<le> n"
  shows "\<not> bit (w :: u64) n"
proof -
  have "unat w < 2 ^ k" using assms(1) by (simp add: word_less_nat_alt unat_pow2 [OF assms(2)])
  with assms(3) show ?thesis by (simp add: unat_less_pow2)
qed

end
