(* ===== verification/Buddy_Arith.thy ===== *)
theory Buddy_Arith
  imports Lilac_Prelude
begin

text \<open>
  The arithmetic of \<^verbatim>\<open>kernel/buddy_system_allocator.c\<close>: rounding a size up or down to a
  power of two by bit smearing, the base-2 logarithm by repeated shifting, and the sz and
  order the allocator rounds a request to.
\<close>

section \<open>The helper functions\<close>

definition next_power_of_two :: "u64 \<Rightarrow> u64" where
  "next_power_of_two sz =
     (let n = sz - 1;
          n = n OR drop_bit 1 n;
          n = n OR drop_bit 2 n;
          n = n OR drop_bit 4 n;
          n = n OR drop_bit 8 n;
          n = n OR drop_bit 16 n;
          n = n OR drop_bit 32 n
      in n + 1)"

definition prev_power_of_two :: "u64 \<Rightarrow> u64" where
  "prev_power_of_two sz =
     (let nxt = next_power_of_two sz
      in if sz = nxt then sz else drop_bit 1 nxt)"

lemma unat_drop1: "unat (drop_bit (Suc 0) (sz :: u64)) = unat sz div 2"
  by (simp only: unat_drop_bit_eq) (simp add: drop_bit_Suc)

function get_order_loop :: "u64 \<Rightarrow> nat \<Rightarrow> nat" where
  "get_order_loop sz order =
     (if sz > 1 then get_order_loop (drop_bit 1 sz) (order + 1) else order)"
  by pat_completeness auto
termination
  by (relation "measure (\<lambda>(sz, order). unat sz)")
    (auto simp: word_less_nat_alt unat_drop1)

definition get_order :: "u64 \<Rightarrow> nat" where
  "get_order sz = get_order_loop sz 0"

declare get_order_loop.simps [simp del]

text \<open>The size and the order to which \<^verbatim>\<open>buddy_alloc\<close> and \<^verbatim>\<open>buddy_dealloc\<close> round a request.\<close>

definition adjust_size :: "u64 \<Rightarrow> u64" where
  "adjust_size sz = max (next_power_of_two sz) 8"

definition size_order :: "u64 \<Rightarrow> nat" where
  "size_order sz = get_order (adjust_size sz)"

section \<open>Bit length\<close>

definition blen :: "u64 \<Rightarrow> nat" where
  "blen n = (LEAST w. unat n < 2 ^ w)"

lemma blen_exists: "unat (n :: u64) < 2 ^ 64"
  using unsigned_less [of n, where ?'a = nat] by simp

lemma less_blen: "i < blen n \<longleftrightarrow> 2 ^ i \<le> unat n"
proof
  assume "i < blen n"
  then have "\<not> unat n < 2 ^ i" unfolding blen_def by (rule not_less_Least)
  then show "2 ^ i \<le> unat n" by simp
next
  assume le: "2 ^ i \<le> unat n"
  have "unat n < 2 ^ blen n"
    unfolding blen_def by (rule LeastI [where P = "\<lambda>w. unat n < 2 ^ w", OF blen_exists])
  with le have "(2::nat) ^ i < 2 ^ blen n" by (rule le_less_trans)
  then show "i < blen n" by (simp only: power_strict_increasing_iff)
qed

lemma blen_le_iff: "blen n \<le> i \<longleftrightarrow> unat n < 2 ^ i"
  using less_blen [of i n] by (simp add: linorder_not_less [symmetric])

lemma blen_le_64: "blen n \<le> 64"
  by (simp only: blen_le_iff blen_exists)

text \<open>Each line \<^verbatim>\<open>n |= n >> d\<close> doubles the width over which the bits have been smeared.\<close>

lemma ex_interval_split:
  "(\<exists>j. i \<le> j \<and> j < i + 2 * d \<and> P j) \<longleftrightarrow>
     (\<exists>j. i \<le> j \<and> j < i + d \<and> P j) \<or> (\<exists>j. i + d \<le> j \<and> j < i + d + d \<and> P j)" for i d :: nat
proof (rule iffI)
  assume "\<exists>j. i \<le> j \<and> j < i + 2 * d \<and> P j"
  then obtain j where "i \<le> j" "j < i + 2 * d" "P j" by blast
  then show "(\<exists>j. i \<le> j \<and> j < i + d \<and> P j) \<or> (\<exists>j. i + d \<le> j \<and> j < i + d + d \<and> P j)"
    by (cases "j < i + d") auto
next
  assume "(\<exists>j. i \<le> j \<and> j < i + d \<and> P j) \<or> (\<exists>j. i + d \<le> j \<and> j < i + d + d \<and> P j)"
  then have "\<exists>j. i \<le> j \<and> j < i + 2 * d \<and> P j"
  proof
    assume "\<exists>j. i \<le> j \<and> j < i + d \<and> P j"
    then show ?thesis by force
  next
    assume "\<exists>j. i + d \<le> j \<and> j < i + d + d \<and> P j"
    then obtain j where "i + d \<le> j" "j < i + d + d" "P j" by blast
    then show ?thesis by (intro exI [of _ j]) simp
  qed
  then show "\<exists>j. i \<le> j \<and> j < i + 2 * d \<and> P j" .
qed

lemma smear:
  assumes "\<And>i. bit (n :: u64) i \<longleftrightarrow> (\<exists>j. i \<le> j \<and> j < i + d \<and> bit (m :: u64) j)"
  shows "bit (n OR drop_bit d n) i \<longleftrightarrow> (\<exists>j. i \<le> j \<and> j < i + 2 * d \<and> bit m j)"
  unfolding ex_interval_split by (simp add: bit_or_iff bit_drop_bit_eq assms add.commute)

lemma next_power_of_two_blen: "next_power_of_two sz = 2 ^ blen (sz - 1)"
proof -
  define m :: u64 where "m = sz - 1"
  define n1 where "n1 = m OR drop_bit 1 m"
  define n2 where "n2 = n1 OR drop_bit 2 n1"
  define n3 where "n3 = n2 OR drop_bit 4 n2"
  define n4 where "n4 = n3 OR drop_bit 8 n3"
  define n5 where "n5 = n4 OR drop_bit 16 n4"
  define n6 where "n6 = n5 OR drop_bit 32 n5"
  have s0: "bit m i \<longleftrightarrow> (\<exists>j. i \<le> j \<and> j < i + 1 \<and> bit m j)" for i
    by (metis Suc_eq_plus1 le_antisym less_Suc_eq_le order_refl)
  have s1: "bit n1 i \<longleftrightarrow> (\<exists>j. i \<le> j \<and> j < i + 2 \<and> bit m j)" for i
    unfolding n1_def using smear [OF s0] by simp
  have s2: "bit n2 i \<longleftrightarrow> (\<exists>j. i \<le> j \<and> j < i + 4 \<and> bit m j)" for i
    unfolding n2_def using smear [OF s1] by simp
  have s3: "bit n3 i \<longleftrightarrow> (\<exists>j. i \<le> j \<and> j < i + 8 \<and> bit m j)" for i
    unfolding n3_def using smear [OF s2] by simp
  have s4: "bit n4 i \<longleftrightarrow> (\<exists>j. i \<le> j \<and> j < i + 16 \<and> bit m j)" for i
    unfolding n4_def using smear [OF s3] by simp
  have s5: "bit n5 i \<longleftrightarrow> (\<exists>j. i \<le> j \<and> j < i + 32 \<and> bit m j)" for i
    unfolding n5_def using smear [OF s4] by simp
  have s6: "bit n6 i \<longleftrightarrow> (\<exists>j. i \<le> j \<and> j < i + 64 \<and> bit m j)" for i
    unfolding n6_def using smear [OF s5] by simp
  have "bit n6 i \<longleftrightarrow> i < blen m" for i
  proof -
    have "bit n6 i \<longleftrightarrow> (\<exists>j \<ge> i. bit m j)"
      unfolding s6 using bit_imp_le_length [of m] by fastforce
    also have "\<dots> \<longleftrightarrow> i < blen m"
      using unat_less_pow2 [of m i] less_blen [of i m] by auto
    finally show ?thesis .
  qed
  then have "n6 = mask (blen m)"
    by (intro bit_word_eqI) (simp add: bit_mask_iff)
  moreover have "next_power_of_two sz = n6 + 1"
    unfolding next_power_of_two_def Let_def n6_def n5_def n4_def n3_def n2_def n1_def m_def
    by (rule refl)
  ultimately show ?thesis
    by (simp add: m_def mask_eq_exp_minus_1)
qed

lemma pow2_le_iff: "j < 64 \<Longrightarrow> k < 64 \<Longrightarrow> (2 ^ j :: u64) \<le> 2 ^ k \<longleftrightarrow> j \<le> k"
  by (simp add: word_le_nat_alt unat_pow2)

lemma unat_pred: "0 < unat (w :: u64) \<Longrightarrow> unat (w - 1) = unat w - 1"
  by (metis unat_minus_one unat_gt_0)

lemma blen_pred:
  assumes "0 < unat sz" and "unat sz \<le> 2 ^ k"
  shows "blen (sz - 1) \<le> k"
proof -
  have "unat (sz - 1) = unat sz - 1"
    using assms(1) by (metis unat_minus_one unat_gt_0)
  with assms show ?thesis by (simp add: blen_le_iff)
qed

section \<open>Logarithm\<close>

lemma blen_drop1:
  assumes "sz > (1 :: u64)"
  shows "blen sz = Suc (blen (drop_bit 1 sz))"
proof -
  have "i < blen sz \<longleftrightarrow> i < Suc (blen (drop_bit 1 sz))" for i
  proof (cases i)
    case 0
    then show ?thesis using assms by (simp add: less_blen word_less_nat_alt)
  next
    case (Suc j)
    then show ?thesis by (simp add: less_blen unat_drop1 less_eq_div_iff_mult_less_eq mult.commute)
  qed
  then show ?thesis by (metis linorder_neqE_nat nat_less_le)
qed

lemma get_order_loop_blen: "0 < sz \<Longrightarrow> Suc (get_order_loop sz order) = blen sz + order"
proof (induction sz order rule: get_order_loop.induct)
  case (1 sz order)
  show ?case
  proof (cases "sz > 1")
    case True
    then have "0 < drop_bit 1 sz"
      by (simp add: word_less_nat_alt unat_drop1)
    with 1 True have "Suc (get_order_loop (drop_bit 1 sz) (order + 1))
        = blen (drop_bit 1 sz) + (order + 1)" by simp
    with True show ?thesis by (simp add: get_order_loop.simps [of sz] blen_drop1)
  next
    case False
    with "1.prems" have "sz = 1" by (simp add: word_less_nat_alt word_unat_eq_iff)
    moreover have "blen 1 = 1"
      by (rule antisym) (simp_all add: blen_le_iff less_blen Suc_le_eq)
    ultimately show ?thesis by (simp add: get_order_loop.simps)
  qed
qed

lemma get_order_blen: "0 < sz \<Longrightarrow> Suc (get_order sz) = blen sz"
  using get_order_loop_blen [of sz 0] by (simp add: get_order_def)

lemma get_order_less_64: "get_order sz < 64"
proof (cases "sz = 0")
  case True
  then show ?thesis by (simp add: get_order_def get_order_loop.simps)
next
  case False
  then have "Suc (get_order sz) \<le> 64"
    using get_order_blen [of sz] blen_le_64 [of sz] by (simp add: word_neq_0_conv)
  then show ?thesis by simp
qed

lemma get_order_bounds:
  assumes "0 < sz"
  shows "2 ^ get_order sz \<le> unat sz" and "unat sz < 2 ^ Suc (get_order sz)"
  using get_order_blen [OF assms] less_blen [of "get_order sz" sz] blen_le_iff [of sz "blen sz"]
  by auto

lemma get_order_pow2: "k < 64 \<Longrightarrow> get_order (2 ^ k) = k"
proof -
  assume k: "k < 64"
  have "blen (2 ^ k) = Suc k"
    by (rule antisym) (simp_all add: blen_le_iff Suc_le_eq less_blen unat_pow2 [OF k])
  moreover have "(0 :: u64) < 2 ^ k"
    using unat_pow2 [OF k] by (simp add: word_less_nat_alt)
  ultimately show ?thesis using get_order_blen [of "2 ^ k"] by simp
qed

section \<open>The order of a request\<close>

text \<open>
  The least order that holds a request of \<open>n\<close> bytes, and at least 3: a free block must hold
  the link word.
\<close>

definition req_order :: "nat \<Rightarrow> nat" where
  "req_order n = (LEAST k. 3 \<le> k \<and> n \<le> 2 ^ k)"

lemma req_order_props: "3 \<le> req_order n \<and> n \<le> 2 ^ req_order n"
proof -
  have "3 \<le> max 3 n \<and> n \<le> 2 ^ max 3 n"
    using less_exp [of "max 3 n"] by (simp add: max_def le_less)
  then show ?thesis
    unfolding req_order_def by (rule LeastI)
qed

lemma req_order_least: "3 \<le> k \<Longrightarrow> n \<le> 2 ^ k \<Longrightarrow> req_order n \<le> k"
  unfolding req_order_def by (rule Least_le) simp

text \<open>
  Every request is rounded to a power of two; a request of 0 or of more than \<open>2 ^ 63\<close> bytes
  smears to 0 and is rounded to the minimum of 8 bytes.
\<close>

lemma max_pow2: "b < 64 \<Longrightarrow> max (2 ^ b) 8 = (2 ^ max b 3 :: u64)"
  using pow2_le_iff [of b 3] by (simp add: max_def)

lemma adjust_size_blen:
  "adjust_size sz = 2 ^ (if blen (sz - 1) < 64 then max (blen (sz - 1)) 3 else 3)"
proof (cases "blen (sz - 1) < 64")
  case True
  then show ?thesis
    by (simp add: adjust_size_def next_power_of_two_blen max_pow2)
next
  case False
  then have "blen (sz - 1) = 64" using blen_le_64 [of "sz - 1"] by simp
  then have "next_power_of_two sz = 0"
    by (simp add: next_power_of_two_blen)
  with False show ?thesis by (simp add: adjust_size_def)
qed

lemma adjust_size_eq: "adjust_size sz = 2 ^ size_order sz"
proof -
  define k where "k = (if blen (sz - 1) < 64 then max (blen (sz - 1)) 3 else 3)"
  have "adjust_size sz = 2 ^ k" and "k < 64"
    by (simp_all add: adjust_size_blen k_def)
  then show ?thesis by (simp add: size_order_def get_order_pow2)
qed

lemma size_order_less_64: "size_order sz < 64"
  by (simp add: size_order_def get_order_less_64)

lemma size_order_req:
  assumes "0 < unat sz" and "unat sz \<le> 2 ^ 63"
  shows "size_order sz = req_order (unat sz)"
proof -
  define b where "b = blen (sz - 1)"
  have b63: "b \<le> 63"
    unfolding b_def by (rule blen_pred) (use assms in auto)
  have le_iff: "b \<le> k \<longleftrightarrow> unat sz \<le> 2 ^ k" for k
    using assms(1) by (auto simp: b_def blen_le_iff unat_pred)
  have "req_order (unat sz) = max b 3"
  proof (rule antisym)
    show "req_order (unat sz) \<le> max b 3"
      using le_iff [of "max b 3"] by (intro req_order_least) auto
    show "max b 3 \<le> req_order (unat sz)"
      using req_order_props [of "unat sz"] by (simp add: le_iff)
  qed
  moreover have "size_order sz = max b 3"
    using b63 by (simp add: size_order_def adjust_size_blen b_def [symmetric] get_order_pow2)
  ultimately show ?thesis by simp
qed

lemma size_order_ge3: "3 \<le> size_order sz"
proof -
  have pos: "0 < adjust_size sz"
    by (simp add: adjust_size_def less_max_iff_disj)
  have "2 ^ 3 \<le> unat (adjust_size sz)"
    by (simp add: adjust_size_def word_le_nat_alt max_def)
  then have "3 < blen (adjust_size sz)" by (simp only: less_blen)
  then show ?thesis
    using get_order_blen [OF pos] by (simp add: size_order_def)
qed

lemma prev_power_of_two_pow2:
  assumes "0 < unat sz" and "unat sz \<le> 2 ^ 63"
  shows "prev_power_of_two sz = 2 ^ get_order sz"
proof -
  define b where "b = blen (sz - 1)"
  define o' where "o' = get_order sz"
  have pos: "0 < sz" using assms(1) by (simp add: word_less_nat_alt)
  have lo: "2 ^ o' \<le> unat sz" and hi: "unat sz < 2 ^ Suc o'"
    using get_order_bounds [OF pos] by (simp_all add: o'_def)
  have le_iff: "b \<le> k \<longleftrightarrow> unat sz \<le> 2 ^ k" for k
    using assms(1) by (auto simp: b_def blen_le_iff unat_pred)
  have b63: "b \<le> 63" using assms(2) by (simp add: le_iff)
  have nxt: "next_power_of_two sz = 2 ^ b"
    by (simp add: next_power_of_two_blen b_def)
  show ?thesis
  proof (cases "sz = 2 ^ b")
    case True
    then have "prev_power_of_two sz = sz"
      using nxt by (simp add: prev_power_of_two_def)
    then show ?thesis
      using b63 True get_order_pow2 [of b] by simp
  next
    case False
    have "b \<le> Suc o'" using hi by (simp only: le_iff less_imp_le)
    moreover have "\<not> b \<le> o'"
    proof
      assume "b \<le> o'"
      then have "unat sz = 2 ^ o'" using lo by (simp add: le_iff)
      moreover have "o' \<le> b"
        using \<open>unat sz = 2 ^ o'\<close> le_iff [of b] by (simp add: power_increasing_iff)
      ultimately have "unat sz = unat (2 ^ b :: u64)"
        using \<open>b \<le> o'\<close> b63 by (simp add: unat_pow2)
      with False show False by (simp add: word_unat_eq_iff)
    qed
    ultimately have b: "b = Suc o'" by simp
    have "drop_bit 1 (2 ^ Suc o' :: u64) = 2 ^ o'"
      using b b63 by (auto simp: bit_simps intro!: bit_word_eqI)
    with False b show ?thesis
      by (simp add: prev_power_of_two_def nxt Let_def o'_def)
  qed
qed

end
