(* ===== verification/Buddy.thy ===== *)
theory Buddy
  imports Buddy_Arith
begin

text \<open>
  The buddy allocator of \<^verbatim>\<open>kernel/buddy_system_allocator.c\<close> as the code has it: thirty heads
  of singly linked lists, whose links are the first words of the free blocks themselves, in
  byte-addressed memory. An operation takes and returns the memory and the \<^verbatim>\<open>struct Buddy\<close>.
  An index past \<^verbatim>\<open>free_list\<close> or a null pointer that is followed is \<open>Inl Undefined\<close>, a walk
  along a list that never ends is \<open>Inl Diverges\<close>.
\<close>

section \<open>State\<close>

definition MAX_ORDER :: nat where
  "MAX_ORDER = 30"

record buddy =
  free_list :: "addr list"
  total :: u64
  allocated :: u64

type_synonym bstate = "mem \<times> buddy"

definition init_buddy :: "buddy \<Rightarrow> buddy" where
  "init_buddy b = b\<lparr>free_list := replicate MAX_ORDER 0, allocated := 0, total := 0\<rparr>"

section \<open>The list macros\<close>

definition PUSH :: "bstate \<Rightarrow> addr \<Rightarrow> nat \<Rightarrow> bstate outcome" where
  "PUSH s block order =
     (let (m, b) = s in
      if block = 0 \<or> MAX_ORDER \<le> order then Inl Undefined
      else Inr (store64 m block (free_list b ! order),
                b\<lparr>free_list := (free_list b)[order := block]\<rparr>))"

definition POP :: "bstate \<Rightarrow> nat \<Rightarrow> (addr \<times> bstate) outcome" where
  "POP s order =
     (let (m, b) = s in
      if MAX_ORDER \<le> order then Inl Undefined
      else let tmp = free_list b ! order in
           if tmp = 0 then Inl Undefined
           else Inr (tmp, m, b\<lparr>free_list := (free_list b)[order := load64 m tmp]\<rparr>))"

section \<open>Adding a region\<close>

definition chunk_size :: "addr \<Rightarrow> addr \<Rightarrow> u64" where
  "chunk_size current end =
     (let lowbit = current AND (NOT current + 1)
      in min lowbit (min (prev_power_of_two (end - current)) (2 ^ MAX_ORDER)))"

partial_function (option) add_loop :: "bstate \<Rightarrow> addr \<Rightarrow> addr \<Rightarrow> bstate outcome option" where
  "add_loop s current end =
     (if current < end then
        (let sz = chunk_size current end; order = get_order sz in
         case PUSH s current order of
           Inl e \<Rightarrow> Some (Inl e)
         | Inr (m, b) \<Rightarrow> add_loop (m, b\<lparr>total := total b + sz\<rparr>) (current + sz) end)
      else Some (Inr s))"

declare add_loop.simps [code]

definition add_to_buddy :: "bstate \<Rightarrow> addr \<Rightarrow> addr \<Rightarrow> bstate outcome" where
  "add_to_buddy s start end = bindE (returns (add_loop s start end)) id"

section \<open>Allocation\<close>

text \<open>The inner loop: halve the block of order \<open>j\<close> until its order is \<open>order\<close>.\<close>

fun split_down :: "bstate \<Rightarrow> nat \<Rightarrow> nat \<Rightarrow> bstate outcome" where
  "split_down s j order =
     (if order < j then
        bindE (POP s j) (\<lambda>(block, s1).
        bindE (PUSH s1 (block + 2 ^ (j - 1)) (j - 1)) (\<lambda>s2.
        bindE (PUSH s2 block (j - 1)) (\<lambda>s3.
        split_down s3 (j - 1) order)))
      else Inr s)"

declare split_down.simps [simp del]

text \<open>The outer loop: the first non-empty list at or above \<open>order\<close>.\<close>

function alloc_scan :: "bstate \<Rightarrow> u64 \<Rightarrow> nat \<Rightarrow> nat \<Rightarrow> (addr \<times> bstate) outcome" where
  "alloc_scan s asize order i =
     (if i < MAX_ORDER then
        (if free_list (snd s) ! i \<noteq> 0 then
           bindE (split_down s i order) (\<lambda>(m, b).
           POP (m, b\<lparr>allocated := allocated b + asize\<rparr>) order)
         else alloc_scan s asize order (i + 1))
      else Inr (0, s))"
  by pat_completeness auto
termination
  by (relation "measure (\<lambda>(s, asize, order, i). MAX_ORDER - i)") auto

declare alloc_scan.simps [simp del]

definition buddy_alloc :: "bstate \<Rightarrow> u64 \<Rightarrow> (addr \<times> bstate) outcome" where
  "buddy_alloc s sz =
     (let asize = adjust_size sz; order = get_order asize
      in alloc_scan s asize order order)"

section \<open>Release\<close>

text \<open>
  The walk for the buddy of a block: from \<open>prev\<close>, whose link is \<open>nxt\<close>, to the node that
  links to \<open>target\<close>, which it takes out of the list.
\<close>

partial_function (option) unlink_scan :: "mem \<Rightarrow> addr \<Rightarrow> addr \<Rightarrow> addr \<Rightarrow> (mem \<times> bool) option" where
  "unlink_scan m prev nxt target =
     (if nxt \<noteq> 0 then
        (if nxt = target then Some (store64 m prev (load64 m nxt), True)
         else unlink_scan m nxt (load64 m nxt) target)
      else Some (m, False))"

declare unlink_scan.simps [code]

function merge_loop :: "bstate \<Rightarrow> addr \<Rightarrow> nat \<Rightarrow> bstate outcome" where
  "merge_loop s current_block current_order =
     (if current_order < MAX_ORDER then
        (let buddy_block = current_block XOR 2 ^ current_order;
             prev = free_list (snd s) ! current_order in
         if prev = 0 then Inl Undefined
         else bindE (returns (unlink_scan (fst s) prev (load64 (fst s) prev) buddy_block)) (\<lambda>(m1, flag).
           if flag then
             bindE (POP (m1, snd s) current_order) (\<lambda>(_, s2).
             let lower = min current_block buddy_block in
             bindE (PUSH s2 lower (current_order + 1)) (\<lambda>s3.
             merge_loop s3 lower (current_order + 1)))
           else Inr (m1, snd s)))
      else Inr s)"
  by pat_completeness auto
termination
  by (relation "measure (\<lambda>(s, a, k). MAX_ORDER - k)") auto

declare merge_loop.simps [simp del]

definition buddy_dealloc :: "bstate \<Rightarrow> addr \<Rightarrow> u64 \<Rightarrow> bstate outcome" where
  "buddy_dealloc s block sz =
     (let asize = adjust_size sz; order = get_order asize in
      bindE (PUSH s block order) (\<lambda>s1.
      bindE (merge_loop s1 block order) (\<lambda>(m, b).
      Inr (m, b\<lparr>allocated := allocated b - asize\<rparr>))))"

end
