(* ===== verification/Buddy_Lists.thy ===== *)
theory Buddy_Lists
  imports Buddy
begin

text \<open>
  The allocator one level up: its thirty free lists as lists of block addresses, with the
  same splitting and merging done on lists. \<open>reps\<close> ties them to the chains of links in memory,
  and \<open>wf_lists\<close> is the invariant the code keeps: every free block is aligned to its size,
  holds at least a link word, and no two free blocks overlap.
\<close>

type_synonym lists = "nat \<Rightarrow> addr list"

section \<open>Blocks split and merge\<close>

lemma bit_pow2_word: "bit (2 ^ k :: u64) n \<longleftrightarrow> n = k \<and> k < 64"
  by (auto simp: bit_simps)

lemma aligned_add_half: "aligned (Suc k) a \<Longrightarrow> a + 2 ^ k = a XOR 2 ^ k"
proof -
  assume "aligned (Suc k) a"
  then have no: "\<not> bit a k" by (simp add: aligned_bit)
  have "a + 2 ^ k = a OR 2 ^ k"
    by (rule disjunctive_add) (use no in \<open>auto simp: bit_pow2_word\<close>)
  also have "\<dots> = a XOR 2 ^ k"
    using no by (intro bit_word_eqI) (auto simp: bit_or_iff bit_xor_iff bit_pow2_word)
  finally show ?thesis .
qed

lemma aligned_xor: "aligned k a \<Longrightarrow> aligned k (a XOR 2 ^ k)"
  by (auto simp: aligned_bit bit_xor_iff bit_pow2_word)

lemma blk_xor_disjoint: "k < 64 \<Longrightarrow> blk k a \<inter> blk k (a XOR 2 ^ k) = {}"
  by (subst blk_disjoint_iff) (auto simp: blk_bit bit_xor_iff bit_pow2_word)

lemma xor_pow2_neq: "k < 64 \<Longrightarrow> a XOR 2 ^ k \<noteq> (a :: u64)"
  by (metis bit_pow2_word bit_xor_iff)

lemma blk_Suc: "k < 64 \<Longrightarrow> blk (Suc k) a = blk k a \<union> blk k (a XOR 2 ^ k)"
proof (rule set_eqI)
  fix x assume k: "k < 64"
  show "x \<in> blk (Suc k) a \<longleftrightarrow> x \<in> blk k a \<union> blk k (a XOR 2 ^ k)"
    by (auto simp: blk_bit bit_xor_iff bit_pow2_word k Suc_le_eq)
      (metis le_neq_implies_less)+
qed

lemma lower_half:
  assumes "aligned k a" and k: "k < 64"
  shows "aligned (Suc k) (min a (a XOR 2 ^ k))"
    and "blk (Suc k) (min a (a XOR 2 ^ k)) = blk k a \<union> blk k (a XOR 2 ^ k)"
proof -
  have le: "b \<le> b XOR 2 ^ k" if "\<not> bit b k" for b :: u64
  proof -
    have "b XOR 2 ^ k = b OR 2 ^ k"
      using that by (intro bit_word_eqI) (auto simp: bit_or_iff bit_xor_iff bit_pow2_word)
    moreover have "uint b \<le> uint (b OR 2 ^ k)"
      by (simp add: unsigned_or_eq or_greater_eq)
    ultimately show ?thesis by (simp add: word_le_def)
  qed
  have min: "min a (a XOR 2 ^ k) = (if bit a k then a XOR 2 ^ k else a)"
  proof (cases "bit a k")
    case True
    have "a XOR 2 ^ k \<le> (a XOR 2 ^ k) XOR 2 ^ k"
      by (rule le) (simp add: True k bit_xor_iff bit_pow2_word)
    then have "a XOR 2 ^ k \<le> a" by (simp add: xor.assoc)
    with True show ?thesis by (simp add: min_def)
  next
    case False
    with le show ?thesis by (simp add: min_def)
  qed
  show "aligned (Suc k) (min a (a XOR 2 ^ k))"
    using assms by (auto simp: min aligned_bit bit_xor_iff bit_pow2_word less_Suc_eq)
  have "blk (Suc k) (min a (a XOR 2 ^ k)) = blk (Suc k) a"
    by (rule blk_eq) (auto simp: min blk_bit bit_xor_iff bit_pow2_word)
  then show "blk (Suc k) (min a (a XOR 2 ^ k)) = blk k a \<union> blk k (a XOR 2 ^ k)"
    by (simp add: blk_Suc k)
qed

section \<open>The invariant on the lists\<close>

definition entries :: "lists \<Rightarrow> (nat \<times> addr) set" where
  "entries fs = {(k, a). k < MAX_ORDER \<and> a \<in> set (fs k)}"

definition free_set :: "lists \<Rightarrow> addr set" where
  "free_set fs = (\<Union>(k, a) \<in> entries fs. blk k a)"

definition block_ok :: "nat \<times> addr \<Rightarrow> bool" where
  "block_ok = (\<lambda>(k, a). 3 \<le> k \<and> aligned k a \<and> a \<noteq> 0)"

definition wf_lists :: "lists \<Rightarrow> bool" where
  "wf_lists fs \<longleftrightarrow>
     (\<forall>k < MAX_ORDER. distinct (fs k)) \<and>
     (\<forall>e \<in> entries fs. block_ok e) \<and>
     pairwise (\<lambda>(k, a) (l, b). blk k a \<inter> blk l b = {}) (entries fs)"

lemma wf_listsD:
  assumes "wf_lists fs" and "k < MAX_ORDER" and "a \<in> set (fs k)"
  shows "3 \<le> k" and "aligned k a" and "a \<noteq> 0" and "aligned 3 a"
proof -
  have "block_ok (k, a)"
    using assms by (auto simp: wf_lists_def entries_def)
  then show "3 \<le> k" "aligned k a" "a \<noteq> 0" by (simp_all add: block_ok_def)
  then show "aligned 3 a" by (blast intro: aligned_mono)
qed

lemma wf_lists_disjoint:
  assumes "wf_lists fs" and "k < MAX_ORDER" "a \<in> set (fs k)" "l < MAX_ORDER" "b \<in> set (fs l)"
    and "(k, a) \<noteq> (l, b)"
  shows "blk k a \<inter> blk l b = {}"
proof -
  have "pairwise (\<lambda>(k, a) (l, b). blk k a \<inter> blk l b = {}) (entries fs)"
    using assms(1) by (simp add: wf_lists_def)
  from pairwiseD [OF this, of "(k, a)" "(l, b)"] assms show ?thesis
    by (auto simp: entries_def)
qed

lemma blk_free_set: "k < MAX_ORDER \<Longrightarrow> a \<in> set (fs k) \<Longrightarrow> blk k a \<subseteq> free_set fs"
  by (auto simp: free_set_def entries_def)

lemma free_setI: "k < MAX_ORDER \<Longrightarrow> a \<in> set (fs k) \<Longrightarrow> a \<in> free_set fs"
  using blk_free_set [of k a fs] self_in_blk by blast

lemma entries_upd:
  "k < MAX_ORDER \<Longrightarrow> entries (fs(k := xs)) = {e \<in> entries fs. fst e \<noteq> k} \<union> {k} \<times> set xs"
  by (auto simp: entries_def split: if_splits)

lemma entries_push:
  "k < MAX_ORDER \<Longrightarrow> entries (fs(k := a # fs k)) = insert (k, a) (entries fs)"
  by (auto simp: entries_def split: if_splits)

lemma wf_push:
  assumes "wf_lists fs" and "k < MAX_ORDER" and "3 \<le> k" and "aligned k a" and "a \<noteq> 0"
    and "blk k a \<inter> free_set fs = {}"
  shows "wf_lists (fs(k := a # fs k))" and "free_set (fs(k := a # fs k)) = free_set fs \<union> blk k a"
proof -
  have "a \<notin> set (fs k)"
    using assms(2,6) free_setI [of k a fs] self_in_blk [of a k] by blast
  moreover have "pairwise (\<lambda>(k, a) (l, b). blk k a \<inter> blk l b = {}) (insert (k, a) (entries fs))"
    using assms(1,6) by (fastforce simp: wf_lists_def pairwise_insert free_set_def)
  ultimately show "wf_lists (fs(k := a # fs k))"
    using assms(1-5) by (auto simp: wf_lists_def entries_push block_ok_def)
  show "free_set (fs(k := a # fs k)) = free_set fs \<union> blk k a"
    using assms(2) by (auto simp: free_set_def entries_push)
qed

lemma wf_remove:
  assumes wf: "wf_lists fs" and k: "k < MAX_ORDER" and a: "a \<in> set (fs k)"
  shows "wf_lists (fs(k := remove1 a (fs k)))"
    and "free_set (fs(k := remove1 a (fs k))) = free_set fs - blk k a"
proof -
  have "distinct (fs k)" using wf k by (simp add: wf_lists_def)
  then have ent: "entries (fs(k := remove1 a (fs k))) = entries fs - {(k, a)}"
    using k by (auto simp: entries_def split: if_splits)
  show "wf_lists (fs(k := remove1 a (fs k)))"
    using wf unfolding wf_lists_def ent by (auto intro: pairwise_subset)
  have "blk l b \<inter> blk k a = {}" if "(l, b) \<in> entries fs - {(k, a)}" for l b
    using wf_lists_disjoint [OF wf _ _ k a, of l b] that by (auto simp: entries_def)
  then have "(\<Union>(l, b) \<in> entries fs - {(k, a)}. blk l b) \<inter> blk k a = {}" by fast
  moreover have "free_set fs = (\<Union>(l, b) \<in> entries fs - {(k, a)}. blk l b) \<union> blk k a"
    using k a by (auto simp: free_set_def entries_def)
  ultimately show "free_set (fs(k := remove1 a (fs k))) = free_set fs - blk k a"
    unfolding free_set_def ent by blast
qed

lemma wf_pop:
  assumes "wf_lists fs" and "k < MAX_ORDER" and "fs k = a # as"
  shows "wf_lists (fs(k := as))" and "free_set (fs(k := as)) = free_set fs - blk k a"
    and "blk k a \<subseteq> free_set fs"
  using wf_remove [of fs k a] blk_free_set [of k a fs] assms by simp_all

section \<open>Splitting\<close>

fun lsplit :: "lists \<Rightarrow> nat \<Rightarrow> nat \<Rightarrow> lists" where
  "lsplit fs j order =
     (if order < j then
        (case fs j of
           [] \<Rightarrow> fs
         | a # as \<Rightarrow> lsplit (fs(j := as, j - 1 := a # (a + 2 ^ (j - 1)) # fs (j - 1))) (j - 1) order)
      else fs)"

declare lsplit.simps [simp del]

lemma lsplit_step:
  assumes wf: "wf_lists fs" and j: "Suc j < MAX_ORDER" "3 \<le> j" and a: "fs (Suc j) = a # as"
  defines "fs' \<equiv> fs(Suc j := as, j := a # (a + 2 ^ j) # fs j)"
  shows "wf_lists fs'" and "free_set fs' = free_set fs"
proof -
  have j64: "j < 64" using j by (simp add: MAX_ORDER_def)
  have al: "aligned (Suc j) a" and "a \<noteq> 0"
    using wf_listsD [OF wf j(1)] a by auto
  then have al': "aligned j a" by (blast intro: aligned_mono le_SucI)
  define u where "u = a + 2 ^ j"
  have u: "u = a XOR 2 ^ j" by (simp add: u_def aligned_add_half al)
  have alu: "aligned j u" using al' by (simp add: u aligned_xor)
  have "bit u j"
    using al j64 by (simp add: u bit_xor_iff bit_pow2_word aligned_bit)
  then have "u \<noteq> 0" by auto
  have whole: "blk (Suc j) a = blk j a \<union> blk j u" and dis: "blk j a \<inter> blk j u = {}"
    using j64 by (simp_all add: u blk_Suc blk_xor_disjoint)
  define f1 where "f1 = fs(Suc j := as)"
  have f1: "wf_lists f1" "free_set f1 = free_set fs - blk (Suc j) a" "blk (Suc j) a \<subseteq> free_set fs"
    using wf_pop [OF wf j(1) a] by (simp_all add: f1_def)
  define f2 where "f2 = f1(j := u # f1 j)"
  have f2: "wf_lists f2" "free_set f2 = free_set f1 \<union> blk j u"
    using wf_push [of f1 j u] f1 j alu \<open>u \<noteq> 0\<close> whole by (auto simp: f2_def)
  define f3 where "f3 = f2(j := a # f2 j)"
  have "blk j a \<inter> free_set f2 = {}"
    using f1(2) f2(2) whole dis by blast
  then have f3: "wf_lists f3" "free_set f3 = free_set f2 \<union> blk j a"
    using wf_push [of f2 j a] f2(1) j al' \<open>a \<noteq> 0\<close> by (simp_all add: f3_def)
  have "fs' = f3"
    by (auto simp: fs'_def f3_def f2_def f1_def u_def fun_eq_iff)
  then show "wf_lists fs'" and "free_set fs' = free_set fs"
    using f1 f2 f3 whole by auto
qed

lemma lsplit_wf:
  assumes "wf_lists fs" and "j < MAX_ORDER" and "3 \<le> order" and "order \<le> j" and "fs j = a # as"
  shows "wf_lists (lsplit fs j order) \<and> free_set (lsplit fs j order) = free_set fs \<and>
    (\<exists>as'. lsplit fs j order order = a # as')"
  using assms
proof (induction fs j order arbitrary: as rule: lsplit.induct)
  case (1 fs j order)
  show ?case
  proof (cases "order < j")
    case True
    then obtain i where i: "j = Suc i" by (cases j) auto
    define fs' where "fs' = fs(Suc i := as, i := a # (a + 2 ^ i) # fs i)"
    have "wf_lists fs'" "free_set fs' = free_set fs"
      using lsplit_step [of fs i a as] "1.prems" True i by (simp_all add: fs'_def)
    moreover have "lsplit fs j order = lsplit fs' i order"
      using True "1.prems" i by (subst lsplit.simps) (simp add: fs'_def)
    moreover have "fs' i = a # (a + 2 ^ i) # fs i" by (simp add: fs'_def)
    moreover note "1.IH" [OF True "1.prems"(5), of "(a + 2 ^ i) # fs i", unfolded i diff_Suc_1,
        folded fs'_def]
    ultimately show ?thesis
      using "1.prems" True i by auto
  next
    case False
    with "1.prems" show ?thesis by (simp add: lsplit.simps [of fs])
  qed
qed

text \<open>When the lists in between are empty, each of them is left with one upper half.\<close>

lemma lsplit_explicit:
  assumes "fs j = a # as" and "order \<le> j" and "\<forall>l. order \<le> l \<and> l < j \<longrightarrow> fs l = []"
  shows "(lsplit fs j order)(order := tl (lsplit fs j order order)) =
    (\<lambda>l. if l = j then as else if order \<le> l \<and> l < j then [a + 2 ^ l] else fs l)"
  using assms
proof (induction fs j order arbitrary: as rule: lsplit.induct)
  case (1 fs j order)
  show ?case
  proof (cases "order < j")
    case True
    then obtain i where i: "j = Suc i" by (cases j) auto
    define fs' where "fs' = fs(Suc i := as, i := a # (a + 2 ^ i) # fs i)"
    have "lsplit fs j order = lsplit fs' i order"
      using True "1.prems" i by (subst lsplit.simps) (simp add: fs'_def)
    moreover have "(lsplit fs' i order)(order := tl (lsplit fs' i order order)) =
        (\<lambda>l. if l = i then (a + 2 ^ i) # fs i
             else if order \<le> l \<and> l < i then [a + 2 ^ l] else fs' l)"
    proof (rule "1.IH" [OF True "1.prems"(1), of "(a + 2 ^ i) # fs i", unfolded i diff_Suc_1,
          folded fs'_def])
      show "fs' i = a # (a + 2 ^ i) # fs i" by (simp add: fs'_def)
      show "order \<le> i" using True i by simp
      show "\<forall>l. order \<le> l \<and> l < i \<longrightarrow> fs' l = []" using "1.prems" i by (simp add: fs'_def)
    qed
    ultimately show ?thesis
      using "1.prems" True i by (auto simp: fs'_def fun_eq_iff)
  next
    case False
    with "1.prems" show ?thesis by (auto simp: lsplit.simps [of fs] fun_eq_iff)
  qed
qed

section \<open>Allocation\<close>

definition lalloc :: "lists \<Rightarrow> nat \<Rightarrow> (addr \<times> lists) option" where
  "lalloc fs order =
     (case find (\<lambda>i. fs i \<noteq> []) [order..<MAX_ORDER] of
        None \<Rightarrow> None
      | Some i \<Rightarrow>
          (let fs' = lsplit fs i order in Some (hd (fs' order), fs'(order := tl (fs' order)))))"

lemma find_upt_Some:
  assumes "find P [m..<n] = Some i"
  shows "m \<le> i" and "i < n" and "P i" and "\<forall>l. m \<le> l \<and> l < i \<longrightarrow> \<not> P l"
proof -
  from assms obtain k where k: "k < length [m..<n]" "P ([m..<n] ! k)" "i = [m..<n] ! k"
    "\<forall>j < k. \<not> P ([m..<n] ! j)"
    unfolding find_Some_iff by blast
  then show "m \<le> i" "i < n" "P i" by auto
  show "\<forall>l. m \<le> l \<and> l < i \<longrightarrow> \<not> P l"
  proof (intro allI impI)
    fix l assume "m \<le> l \<and> l < i"
    with k have "l - m < k" "[m..<n] ! (l - m) = l" by auto
    with k(4) show "\<not> P l" by metis
  qed
qed

text \<open>Free buddies that could be merged; the code leaves none behind.\<close>

definition buddies :: "lists \<Rightarrow> (nat \<times> addr) set" where
  "buddies fs = {(k, a). (k, a) \<in> entries fs \<and> (k, a XOR 2 ^ k) \<in> entries fs}"

definition coalesced :: "lists \<Rightarrow> bool" where
  "coalesced fs \<longleftrightarrow> buddies fs = {}"

lemma lalloc_None: "lalloc fs order = None \<longleftrightarrow> (\<forall>i. order \<le> i \<and> i < MAX_ORDER \<longrightarrow> fs i = [])"
proof -
  have "find (\<lambda>i. fs i \<noteq> []) [order..<MAX_ORDER] = None \<longleftrightarrow>
      (\<forall>i. order \<le> i \<and> i < MAX_ORDER \<longrightarrow> fs i = [])"
    by (auto simp: find_None_iff)
  then show ?thesis by (auto simp: lalloc_def Let_def split: option.splits)
qed

lemma lalloc_Some:
  assumes wf: "wf_lists fs" and ord: "3 \<le> order" and some: "lalloc fs order = Some (a, fs')"
  shows "wf_lists fs'" and "aligned order a" and "a \<noteq> 0" and "order < MAX_ORDER"
    and "blk order a \<subseteq> free_set fs" and "free_set fs' = free_set fs - blk order a"
    and "coalesced fs \<Longrightarrow> coalesced fs'"
proof -
  obtain i where i: "find (\<lambda>i. fs i \<noteq> []) [order..<MAX_ORDER] = Some i"
    and a: "a = hd (lsplit fs i order order)"
    and fs': "fs' = (lsplit fs i order)(order := tl (lsplit fs i order order))"
    using some by (auto simp: lalloc_def Let_def split: option.splits)
  note upt = find_upt_Some [OF i]
  then obtain b as where b: "fs i = b # as" by (cases "fs i") auto
  note sp = lsplit_wf [OF wf upt(2) ord upt(1) b]
  then obtain as' where as': "lsplit fs i order order = a # as'" using a by auto
  show lt: "order < MAX_ORDER" using upt by simp
  show "wf_lists fs'" "blk order a \<subseteq> free_set fs" "free_set fs' = free_set fs - blk order a"
    using wf_pop [of "lsplit fs i order" order a as'] sp lt as' fs' by simp_all
  show "aligned order a" "a \<noteq> 0"
    using wf_listsD [of "lsplit fs i order" order a] sp lt as' by simp_all
  have ab: "a = b" using sp as' by auto
  have expl: "fs' = (\<lambda>l. if l = i then as else if order \<le> l \<and> l < i then [b + 2 ^ l] else fs l)"
    unfolding fs' by (rule lsplit_explicit) (use b upt in auto)
  assume "coalesced fs"
  then have no: "(k, c XOR 2 ^ k) \<notin> entries fs" if "(k, c) \<in> entries fs" for k c
    using that by (auto simp: coalesced_def buddies_def)
  have "(k, c XOR 2 ^ k) \<notin> entries fs'" if "(k, c) \<in> entries fs'" for k c
  proof (cases "order \<le> k \<and> k < i")
    case True
    with that show ?thesis
      using xor_pow2_neq [of k c] by (auto simp: entries_def expl MAX_ORDER_def)
  next
    case False
    then have "set (fs' k) \<subseteq> set (fs k)" by (auto simp: expl b)
    with that no [of k c] show ?thesis by (auto simp: entries_def)
  qed
  then show "coalesced fs'" by (auto simp: coalesced_def buddies_def)
qed

section \<open>Merging and release\<close>

function lmerge :: "lists \<Rightarrow> addr \<Rightarrow> nat \<Rightarrow> lists" where
  "lmerge fs cur k =
     (if k < MAX_ORDER \<and> cur XOR 2 ^ k \<in> set (tl (fs k)) then
        (let bud = cur XOR 2 ^ k; lower = min cur bud in
         lmerge (fs(k := remove1 bud (tl (fs k)), Suc k := lower # fs (Suc k))) lower (Suc k))
      else fs)"
  by pat_completeness auto
termination
  by (relation "measure (\<lambda>(fs, cur, k). MAX_ORDER - k)") auto

declare lmerge.simps [simp del]

definition ldealloc :: "lists \<Rightarrow> addr \<Rightarrow> nat \<Rightarrow> lists" where
  "ldealloc fs a order = lmerge (fs(order := a # fs order)) a order"

text \<open>
  A set of addresses that contains no block of order \<open>MAX_ORDER\<close>: what keeps merging inside
  the array of lists.
\<close>

definition fits :: "addr set \<Rightarrow> bool" where
  "fits R \<longleftrightarrow> (\<forall>a. \<not> blk MAX_ORDER a \<subseteq> R)"

lemma lmerge_step:
  assumes wf: "wf_lists fs" and k: "k < MAX_ORDER" and cur: "fs k = cur # as"
    and bud: "cur XOR 2 ^ k \<in> set as" and R: "free_set fs \<subseteq> R" "fits R"
  defines "lower \<equiv> min cur (cur XOR 2 ^ k)"
  defines "fs' \<equiv> fs(k := remove1 (cur XOR 2 ^ k) as, Suc k := lower # fs (Suc k))"
  shows "wf_lists fs'" and "free_set fs' = free_set fs" and "Suc k < MAX_ORDER"
    and "buddies fs \<subseteq> {(k, cur), (k, cur XOR 2 ^ k)} \<Longrightarrow>
      buddies fs' \<subseteq> {(Suc k, lower), (Suc k, lower XOR 2 ^ Suc k)}"
proof -
  define b where "b = cur XOR 2 ^ k"
  have k64: "k < 64" using k by (simp add: MAX_ORDER_def)
  have c: "3 \<le> k" "aligned k cur" "cur \<noteq> 0" and "b \<noteq> 0"
    using wf_listsD [OF wf k] cur bud by (auto simp: b_def)
  have low: "aligned (Suc k) lower" "blk (Suc k) lower = blk k cur \<union> blk k b" "lower \<noteq> 0"
    using lower_half [OF c(2) k64] c(3) \<open>b \<noteq> 0\<close> by (auto simp: lower_def b_def min_def)
  have sub: "blk k cur \<subseteq> free_set fs" "blk k b \<subseteq> free_set fs"
    using blk_free_set [of k _ fs] k cur bud by (auto simp: b_def)
  show less: "Suc k < MAX_ORDER"
  proof (rule ccontr)
    assume "\<not> Suc k < MAX_ORDER"
    with k have "Suc k = MAX_ORDER" by simp
    with R low(2) sub show False by (metis (no_types) fits_def Un_least subset_trans)
  qed
  define f1 where "f1 = fs(k := as)"
  have f1: "wf_lists f1" "free_set f1 = free_set fs - blk k cur"
    using wf_pop [OF wf k cur] by (simp_all add: f1_def)
  define f2 where "f2 = f1(k := remove1 b (f1 k))"
  have f2: "wf_lists f2" "free_set f2 = free_set f1 - blk k b"
    using wf_remove [OF f1(1) k, of b] bud by (simp_all add: f2_def f1_def b_def)
  have fs': "fs' = f2(Suc k := lower # f2 (Suc k))"
    by (auto simp: fs'_def f2_def f1_def b_def fun_eq_iff)
  have "wf_lists fs' \<and> free_set fs' = free_set f2 \<union> blk (Suc k) lower"
    unfolding fs' using wf_push [OF f2(1) less _ low(1,3)] low(2) f1 f2 c(1) by auto
  then show "wf_lists fs'" "free_set fs' = free_set fs"
    using f1 f2 low(2) sub by auto
  have "distinct (cur # as)" using wf k cur by (auto simp: wf_lists_def)
  then have ent: "entries fs' = insert (Suc k, lower) (entries fs - {(k, cur), (k, b)})"
    using k less cur bud by (auto simp: fs' f2_def f1_def b_def entries_def split: if_splits)
  assume sub: "buddies fs \<subseteq> {(k, cur), (k, cur XOR 2 ^ k)}"
  show "buddies fs' \<subseteq> {(Suc k, lower), (Suc k, lower XOR 2 ^ Suc k)}"
  proof
    fix e assume e: "e \<in> buddies fs'"
    obtain l d where ld: "e = (l, d)" by (cases e)
    have "(l, d) = (Suc k, lower) \<or> (l, d XOR 2 ^ l) = (Suc k, lower)"
    proof (rule ccontr)
      assume not: "\<not> ?thesis"
      then have "(l, d) \<in> buddies fs" and "(l, d) \<notin> {(k, cur), (k, b)}"
        using e by (auto simp: ld buddies_def ent)
      with sub show False unfolding b_def by blast
    qed
    then show "e \<in> {(Suc k, lower), (Suc k, lower XOR 2 ^ Suc k)}"
      by (auto simp: ld xor.assoc)
  qed
qed

lemma lmerge_wf:
  assumes "wf_lists fs" and "k < MAX_ORDER" and "fs k = cur # as"
    and "free_set fs \<subseteq> R" and "fits R"
  shows "wf_lists (lmerge fs cur k) \<and> free_set (lmerge fs cur k) = free_set fs \<and>
    (buddies fs \<subseteq> {(k, cur), (k, cur XOR 2 ^ k)} \<longrightarrow> coalesced (lmerge fs cur k))"
  using assms
proof (induction fs cur k arbitrary: as rule: lmerge.induct)
  case (1 fs cur k)
  define b where "b = cur XOR 2 ^ k"
  show ?case
  proof (cases "b \<in> set as")
    case True
    define lower where "lower = min cur b"
    define fs' where "fs' = fs(k := remove1 b as, Suc k := lower # fs (Suc k))"
    note step = lmerge_step [OF "1.prems"(1-3) _ "1.prems"(4,5), folded b_def,
        OF True, folded lower_def, folded fs'_def]
    have "lmerge fs cur k = lmerge fs' lower (Suc k)"
      using True "1.prems" by (subst lmerge.simps) (simp add: Let_def b_def fs'_def lower_def)
    then show ?thesis
      using "1.IH" [OF _ b_def lower_def, of "fs (Suc k)"] True "1.prems" step
      by (simp add: fs'_def [symmetric] b_def [symmetric] lower_def [symmetric])
        (simp add: fs'_def)
  next
    case False
    then have eq: "lmerge fs cur k = fs"
      using "1.prems" by (subst lmerge.simps) (simp add: b_def)
    have "cur XOR 2 ^ k \<noteq> cur"
      using "1.prems"(2) by (simp add: xor_pow2_neq MAX_ORDER_def)
    with False have "b \<notin> set (fs k)" using "1.prems"(3) by (auto simp: b_def)
    then have "(k, cur) \<notin> buddies fs" "(k, b) \<notin> buddies fs"
      by (auto simp: buddies_def entries_def b_def)
    then have "coalesced fs" if "buddies fs \<subseteq> {(k, cur), (k, b)}"
      using that by (auto simp: coalesced_def)
    with eq "1.prems"(1) show ?thesis by (simp add: b_def)
  qed
qed

lemma ldealloc_wf:
  assumes wf: "wf_lists fs" and order: "3 \<le> order" "order < MAX_ORDER"
    and a: "aligned order a" "a \<noteq> 0" "blk order a \<inter> free_set fs = {}"
    and R: "free_set fs \<union> blk order a \<subseteq> R" "fits R"
  shows "wf_lists (ldealloc fs a order)"
    and "free_set (ldealloc fs a order) = free_set fs \<union> blk order a"
    and "coalesced fs \<Longrightarrow> coalesced (ldealloc fs a order)"
proof -
  define fs' where "fs' = fs(order := a # fs order)"
  have push: "wf_lists fs'" "free_set fs' = free_set fs \<union> blk order a"
    using wf_push [OF wf order(2,1) a] by (simp_all add: fs'_def)
  have "buddies fs' \<subseteq> {(order, a), (order, a XOR 2 ^ order)}" if "coalesced fs"
    using that order(2)
    by (auto simp: coalesced_def buddies_def fs'_def entries_push xor.assoc)
  moreover have "wf_lists (lmerge fs' a order) \<and> free_set (lmerge fs' a order) = free_set fs' \<and>
    (buddies fs' \<subseteq> {(order, a), (order, a XOR 2 ^ order)} \<longrightarrow> coalesced (lmerge fs' a order))"
    by (rule lmerge_wf [OF push(1) order(2) _ _ R(2)]) (use push(2) R(1) in \<open>simp_all add: fs'_def\<close>)
  ultimately show "wf_lists (ldealloc fs a order)"
    "free_set (ldealloc fs a order) = free_set fs \<union> blk order a"
    "coalesced fs \<Longrightarrow> coalesced (ldealloc fs a order)"
    using push by (simp_all add: ldealloc_def fs'_def)
qed

end
