(* ===== verification/Buddy_Refine.thy ===== *)
theory Buddy_Refine
  imports Buddy_Lists
begin

text \<open>
  The code's allocator implements the allocator on lists: each operation on memory and
  \<^verbatim>\<open>struct Buddy\<close> has the result of the list operation, returns, and writes only to memory
  that is free (or being freed).
\<close>

section \<open>Chains of links\<close>

primrec chain :: "mem \<Rightarrow> addr \<Rightarrow> addr list \<Rightarrow> bool" where
  "chain m p [] = (p = 0)"
| "chain m p (a # as) = (p = a \<and> a \<noteq> 0 \<and> chain m (load64 m a) as)"

lemma chain_0 [simp]: "chain m 0 xs \<longleftrightarrow> xs = []"
  by (cases xs) auto

lemma chain_nonzero: "p \<noteq> 0 \<Longrightarrow> chain m p xs \<longleftrightarrow> (\<exists>as. xs = p # as \<and> chain m (load64 m p) as)"
  by (cases xs) auto

lemma chain_frame:
  assumes "same_outside S m m'" and "\<forall>a \<in> set xs. aligned 3 a \<and> blk 3 a \<inter> S = {}"
  shows "chain m' p xs = chain m p xs"
  using assms(2)
proof (induction xs arbitrary: p)
  case Nil
  then show ?case by simp
next
  case (Cons a as)
  then show ?case using load64_frame [OF assms(1), of a] by auto
qed

lemma chain_store:
  assumes "aligned 3 a" and "a \<notin> set xs" and "\<forall>x \<in> set xs. aligned 3 x"
  shows "chain (store64 m a v) p xs = chain m p xs"
proof (rule chain_frame [OF same_outside_store])
  show "\<forall>x \<in> set xs. aligned 3 x \<and> blk 3 x \<inter> bytes_at a 8 = {}"
    using assms aligned_blk_disjoint [of 3 _ a] by (auto simp: bytes8_blk)
qed

definition reps :: "bstate \<Rightarrow> lists \<Rightarrow> bool" where
  "reps s fs \<longleftrightarrow> length (free_list (snd s)) = MAX_ORDER \<and>
     (\<forall>k < MAX_ORDER. chain (fst s) (free_list (snd s) ! k) (fs k))"

definition nodes :: "lists \<Rightarrow> addr set" where
  "nodes fs = snd ` entries fs"

definition counters :: "bstate \<Rightarrow> u64 \<times> u64" where
  "counters s = (total (snd s), allocated (snd s))"

lemma in_nodes: "k < MAX_ORDER \<Longrightarrow> a \<in> set (fs k) \<Longrightarrow> a \<in> nodes fs"
  by (force simp: nodes_def entries_def)

lemma nodes_free_set: "nodes fs \<subseteq> free_set fs"
  by (auto simp: nodes_def entries_def intro: free_setI)

lemma not_node: "a \<notin> free_set fs \<Longrightarrow> a \<notin> nodes fs"
  using nodes_free_set by blast

lemma nodes_unique:
  assumes "wf_lists fs" "k < MAX_ORDER" "l < MAX_ORDER" "a \<in> set (fs k)" "a \<in> set (fs l)"
  shows "k = l"
  using wf_lists_disjoint [OF assms(1,2,4,3,5)] self_in_blk by blast

lemma reps_hd: "reps s fs \<Longrightarrow> k < MAX_ORDER \<Longrightarrow> free_list (snd s) ! k = 0 \<longleftrightarrow> fs k = []"
  by (cases "fs k") (auto simp: reps_def)

lemma PUSH_reps:
  assumes "reps s fs" and "wf_lists fs" and "k < MAX_ORDER" and "a \<noteq> 0" and "aligned 3 a"
    and "a \<notin> nodes fs"
  shows "\<exists>s'. PUSH s a k = Inr s' \<and> reps s' (fs(k := a # fs k)) \<and>
    same_outside (blk 3 a) (fst s) (fst s') \<and> counters s' = counters s"
proof -
  obtain m b where s: "s = (m, b)" by (cases s)
  define s' where "s' = (store64 m a (free_list b ! k), b\<lparr>free_list := (free_list b)[k := a]\<rparr>)"
  have "PUSH s a k = Inr s'" using assms by (simp add: PUSH_def s s'_def)
  moreover have "reps s' (fs(k := a # fs k))"
  proof -
    have "chain (store64 m a v) p (fs l) = chain m p (fs l)" if "l < MAX_ORDER" for l v p
      by (rule chain_store)
        (use assms that in \<open>auto intro: wf_listsD(4) dest: in_nodes\<close>)
    with assms show ?thesis
      by (auto simp: reps_def s s'_def nth_list_update)
  qed
  moreover have "same_outside (blk 3 a) (fst s) (fst s')"
    using same_outside_store [of a 8 m "free_list b ! k"] assms(5) by (simp add: s s'_def bytes8_blk)
  moreover have "counters s' = counters s" by (simp add: counters_def s s'_def)
  ultimately show ?thesis by blast
qed

lemma POP_reps:
  assumes "reps s fs" and "k < MAX_ORDER" and "fs k = a # as"
  shows "\<exists>s'. POP s k = Inr (a, s') \<and> reps s' (fs(k := as)) \<and> fst s' = fst s \<and>
    counters s' = counters s"
proof -
  obtain m b where s: "s = (m, b)" by (cases s)
  have c: "chain m (free_list b ! k) (a # as)"
    using assms by (auto simp: reps_def s simp flip: assms(3))
  define s' where "s' = (m, b\<lparr>free_list := (free_list b)[k := load64 m a]\<rparr>)"
  have "POP s k = Inr (a, s')" using assms c by (simp add: POP_def s s'_def Let_def)
  moreover have "reps s' (fs(k := as))"
    using assms c by (auto simp: reps_def s s'_def nth_list_update)
  ultimately show ?thesis by (auto simp: s s'_def counters_def)
qed

section \<open>Splitting and allocation\<close>

lemma split_down_reps:
  assumes "reps s fs" and "wf_lists fs" and "j < MAX_ORDER" and "3 \<le> order" and "order \<le> j"
    and "fs j = a # as"
  shows "\<exists>s'. split_down s j order = Inr s' \<and> reps s' (lsplit fs j order) \<and>
    same_outside (blk j a) (fst s) (fst s') \<and> counters s' = counters s"
  using assms
proof (induction fs j order arbitrary: s as rule: lsplit.induct)
  case (1 fs j order)
  show ?case
  proof (cases "order < j")
    case True
    then obtain i where i: "j = Suc i" by (cases j) auto
    define u where "u = a + 2 ^ i"
    define fs' where "fs' = fs(Suc i := as, i := a # u # fs i)"
    have i3: "3 \<le> i" "i < MAX_ORDER" "i < 64"
      using True "1.prems" i by (auto simp: MAX_ORDER_def)
    note prems = "1.prems" [unfolded i]
    have al: "aligned (Suc i) a" "a \<noteq> 0" "aligned 3 a"
      using wf_listsD [OF prems(2,3), of a] prems(6) by auto
    have u: "u = a XOR 2 ^ i" by (simp add: u_def aligned_add_half al)
    have "bit u i" using al(1) i3 by (simp add: u bit_xor_iff bit_pow2_word aligned_bit)
    then have u0: "u \<noteq> 0" by auto
    have u3: "aligned 3 u"
      using aligned_xor [of i a] aligned_mono [OF al(1), of i] i3 aligned_mono [of i u 3]
      by (auto simp: u)
    have sub: "blk i a \<union> blk i u = blk (Suc i) a" using i3 by (simp add: u blk_Suc)
    have b3: "blk 3 a \<subseteq> blk (Suc i) a" "blk 3 u \<subseteq> blk (Suc i) a"
      using sub blk_mono [OF i3(1)] by blast+
    define f1 where "f1 = fs(Suc i := as)"
    have f1: "wf_lists f1" "free_set f1 = free_set fs - blk (Suc i) a"
      using wf_pop [OF prems(2,3,6)] by (simp_all add: f1_def)
    have un: "u \<notin> free_set f1" "a \<notin> free_set f1"
      using f1(2) sub self_in_blk [of u i] self_in_blk [of a i] by blast+
    obtain s1 where s1: "POP s (Suc i) = Inr (a, s1)" "reps s1 f1" "fst s1 = fst s"
      "counters s1 = counters s"
      using POP_reps [OF prems(1,3,6)] by (auto simp: f1_def)
    define f2 where "f2 = f1(i := u # f1 i)"
    obtain s2 where s2: "PUSH s1 u i = Inr s2" "reps s2 f2" "same_outside (blk 3 u) (fst s1) (fst s2)"
      "counters s2 = counters s1"
      using PUSH_reps [OF s1(2) f1(1) i3(2) u0 u3 not_node [OF un(1)]] by (auto simp: f2_def)
    have "blk i u \<inter> free_set f1 = {}" using f1(2) sub by blast
    moreover have "aligned i u" using aligned_xor [of i a] aligned_mono [OF al(1), of i] by (simp add: u)
    ultimately have f2: "wf_lists f2" "free_set f2 = free_set f1 \<union> blk i u"
      using wf_push [OF f1(1) i3(2,1) _ u0] by (simp_all add: f2_def)
    have an: "a \<notin> free_set f2"
      using f2(2) un(2) blk_xor_disjoint [OF i3(3), of a] self_in_blk [of a i] unfolding u by blast
    obtain s3 where s3: "PUSH s2 a i = Inr s3" "reps s3 fs'"
      "same_outside (blk 3 a) (fst s2) (fst s3)" "counters s3 = counters s2"
      using PUSH_reps [OF s2(2) f2(1) i3(2) al(2,3) not_node [OF an]]
      by (auto simp: f2_def f1_def fs'_def)
    have "wf_lists fs'"
      using lsplit_step [OF prems(2,3) i3(1) prems(6)] by (simp add: fs'_def u_def)
    moreover have "fs' i = a # u # fs i" by (simp add: fs'_def)
    moreover note "1.IH" [OF True prems(6) [folded i], where s = s3, unfolded i diff_Suc_1,
        folded u_def, folded fs'_def]
    ultimately obtain s4 where s4: "split_down s3 i order = Inr s4" "reps s4 (lsplit fs' i order)"
      "same_outside (blk i a) (fst s3) (fst s4)" "counters s4 = counters s3"
      using s3 i3 True prems i by auto
    have "lsplit fs j order = lsplit fs' i order"
      using True prems i by (subst lsplit.simps) (simp add: fs'_def u_def)
    moreover have "split_down s j order = Inr s4"
      using True i s1 s2 s3 s4 by (subst split_down.simps) (simp add: u_def)
    moreover have "same_outside (blk j a) (fst s) (fst s4)"
    proof -
      have "blk i a \<subseteq> blk (Suc i) a" using sub by blast
      then show ?thesis
        unfolding i s1(3) [symmetric]
        by (intro same_outside_trans [OF same_outside_mono [OF s2(3) b3(2)]]
            same_outside_trans [OF same_outside_mono [OF s3(3) b3(1)]]
            same_outside_mono [OF s4(3)])
    qed
    ultimately show ?thesis using s1 s2 s3 s4 by auto
  next
    case False
    with "1.prems" show ?thesis
      by (auto simp: lsplit.simps [of fs] split_down.simps)
  qed
qed

lemma alloc_scan_eq:
  assumes "reps s fs"
  shows "alloc_scan s asize order i =
    (case find (\<lambda>k. fs k \<noteq> []) [i..<MAX_ORDER] of
       None \<Rightarrow> Inr (0, s)
     | Some k \<Rightarrow> bindE (split_down s k order) (\<lambda>(m, b).
         POP (m, b\<lparr>allocated := allocated b + asize\<rparr>) order))"
proof (induction "MAX_ORDER - i" arbitrary: i)
  case 0
  then show ?case by (simp add: alloc_scan.simps)
next
  case (Suc d)
  then show ?case
    using reps_hd [OF assms, of i]
    by (subst alloc_scan.simps) (auto simp: upt_conv_Cons)
qed

lemma buddy_alloc_refines:
  assumes reps: "reps s fs" and wf: "wf_lists fs"
  shows "\<exists>a s'. buddy_alloc s sz = Inr (a, s') \<and>
    (case lalloc fs (size_order sz) of
       None \<Rightarrow> a = 0 \<and> s' = s
     | Some (a', fs') \<Rightarrow> a = a' \<and> reps s' fs' \<and> same_outside (free_set fs) (fst s) (fst s') \<and>
         total (snd s') = total (snd s) \<and>
         allocated (snd s') = allocated (snd s) + adjust_size sz \<and>
         load64 (fst s') a = free_list (snd s') ! size_order sz)"
proof -
  define order where "order = size_order sz"
  have ord: "3 \<le> order" by (simp add: order_def size_order_ge3)
  have eq: "buddy_alloc s sz = alloc_scan s (adjust_size sz) order order"
    by (simp add: buddy_alloc_def Let_def order_def size_order_def)
  show ?thesis
  proof (cases "find (\<lambda>k. fs k \<noteq> []) [order..<MAX_ORDER]")
    case None
    then show ?thesis
      by (simp add: eq alloc_scan_eq [OF reps] lalloc_def order_def)
  next
    case (Some i)
    note upt = find_upt_Some [OF Some]
    then obtain a as where a: "fs i = a # as" by (cases "fs i") auto
    define fs1 where "fs1 = lsplit fs i order"
    obtain as' where as': "fs1 order = a # as'" and wf1: "wf_lists fs1"
      using lsplit_wf [OF wf upt(2) ord upt(1) a] by (auto simp: fs1_def)
    obtain m1 b1 where s1: "split_down s i order = Inr (m1, b1)" "reps (m1, b1) fs1"
      "same_outside (blk i a) (fst s) m1" "counters (m1, b1) = counters s"
      using split_down_reps [OF reps wf upt(2) ord upt(1) a] by (auto simp: fs1_def)
    define b2 where "b2 = b1\<lparr>allocated := allocated b1 + adjust_size sz\<rparr>"
    have "reps (m1, b2) fs1" using s1(2) by (simp add: reps_def b2_def)
    then obtain s2 where s2: "POP (m1, b2) order = Inr (a, s2)" "reps s2 (fs1(order := as'))"
      "fst s2 = m1" "counters s2 = counters (m1, b2)"
      using POP_reps [of "(m1, b2)" fs1 order a as'] as' upt by auto
    have "buddy_alloc s sz = Inr (a, s2)"
      by (simp add: eq alloc_scan_eq [OF reps] Some s1(1) b2_def [symmetric] s2(1))
    moreover have "lalloc fs order = Some (a, fs1(order := as'))"
      by (simp add: lalloc_def Some Let_def fs1_def [symmetric] as')
    moreover have "same_outside (free_set fs) (fst s) (fst s2)"
      using s1(3) s2(3) blk_free_set [of i a fs] upt(2) a by (auto elim: same_outside_mono)
    moreover have "load64 m1 a = free_list (snd s2) ! order"
      using s2(1) \<open>reps (m1, b2) fs1\<close> upt
      by (auto simp: POP_def Let_def reps_def split: if_splits)
    ultimately show ?thesis
      using s1(4) s2 by (auto simp: order_def counters_def b2_def)
  qed
qed

section \<open>Merging and release\<close>

lemma unlink_scan_chain:
  assumes "chain m p xs" and "load64 m pv = p" and "distinct (pv # xs)"
    and "\<forall>a \<in> set (pv # xs). aligned 3 a"
  shows "\<exists>m'. unlink_scan m pv p t = Some (m', t \<in> set xs) \<and>
    chain m' (load64 m' pv) (remove1 t xs) \<and>
    same_outside (\<Union>a \<in> set (pv # xs). blk 3 a) m m' \<and> (t \<notin> set xs \<longrightarrow> m' = m)"
  using assms
proof (induction xs arbitrary: pv p)
  case Nil
  then show ?case by (auto simp: unlink_scan.simps)
next
  case (Cons a as)
  show ?case
  proof (cases "a = t")
    case True
    define m' where "m' = store64 m pv (load64 m a)"
    have "unlink_scan m pv p t = Some (m', True)"
      using Cons.prems True by (subst unlink_scan.simps) (simp add: m'_def)
    moreover have "chain m' (load64 m' pv) as"
      using Cons.prems by (simp add: m'_def chain_store)
    moreover have "same_outside (blk 3 pv) m m'"
      using same_outside_store [of pv 8 m "load64 m a"] Cons.prems by (simp add: m'_def bytes8_blk)
    then have "same_outside (\<Union>a \<in> set (pv # a # as). blk 3 a) m m'"
      by (rule same_outside_mono) auto
    ultimately show ?thesis using True by auto
  next
    case False
    have "unlink_scan m pv p t = unlink_scan m a (load64 m a) t"
      using Cons.prems False by (subst unlink_scan.simps) simp
    moreover obtain m' where m': "unlink_scan m a (load64 m a) t = Some (m', t \<in> set as)"
      "chain m' (load64 m' a) (remove1 t as)"
      "same_outside (\<Union>a \<in> set (a # as). blk 3 a) m m'" "t \<notin> set as \<longrightarrow> m' = m"
      using Cons.IH [of "load64 m a" a] Cons.prems by auto
    moreover have "load64 m' pv = load64 m pv"
    proof (rule load64_frame [OF m'(3)])
      show "aligned 3 pv" using Cons.prems by simp
      have "blk 3 pv \<inter> blk 3 x = {}" if "x \<in> set (a # as)" for x
        using that Cons.prems(3,4) by (intro aligned_blk_disjoint) auto
      then show "blk 3 pv \<inter> (\<Union>a \<in> set (a # as). blk 3 a) = {}" by blast
    qed
    moreover have "same_outside (\<Union>a \<in> set (pv # a # as). blk 3 a) m m'"
      using m'(3) by (rule same_outside_mono) auto
    ultimately show ?thesis using Cons.prems False by (intro exI [of _ m']) auto
  qed
qed

lemma free_list_blk3:
  "wf_lists fs \<Longrightarrow> k < MAX_ORDER \<Longrightarrow> (\<Union>a \<in> set (fs k). blk 3 a) \<subseteq> free_set fs"
proof (rule UN_least)
  fix a assume "wf_lists fs" "k < MAX_ORDER" "a \<in> set (fs k)"
  then have "blk 3 a \<subseteq> blk k a" by (intro blk_mono wf_listsD(1))
  also have "\<dots> \<subseteq> free_set fs" by (rule blk_free_set) fact+
  finally show "blk 3 a \<subseteq> free_set fs" .
qed

lemma unlink_reps:
  assumes reps: "reps s fs" and wf: "wf_lists fs" and k: "k < MAX_ORDER" and cur: "fs k = cur # as"
  shows "\<exists>m'. unlink_scan (fst s) cur (load64 (fst s) cur) t = Some (m', t \<in> set as) \<and>
    reps (m', snd s) (fs(k := cur # remove1 t as)) \<and> same_outside (free_set fs) (fst s) m' \<and>
    (t \<notin> set as \<longrightarrow> m' = fst s)"
proof -
  obtain m b where s: "s = (m, b)" by (cases s)
  have ch: "chain m (free_list b ! k) (cur # as)"
    using reps k by (auto simp: reps_def s simp flip: cur)
  have dist: "distinct (cur # as)" using wf k cur by (auto simp: wf_lists_def)
  have al: "\<forall>a \<in> set (cur # as). aligned 3 a" using wf_listsD(4) [OF wf k] cur by auto
  obtain m' where m': "unlink_scan m cur (load64 m cur) t = Some (m', t \<in> set as)"
    "chain m' (load64 m' cur) (remove1 t as)"
    "same_outside (\<Union>a \<in> set (cur # as). blk 3 a) m m'" "t \<notin> set as \<longrightarrow> m' = m"
    using unlink_scan_chain [OF _ refl dist al, of m t] ch by auto
  have "chain m' (free_list b ! l) (fs l) = chain m (free_list b ! l) (fs l)"
    if l: "l < MAX_ORDER" "l \<noteq> k" for l
  proof (rule chain_frame [OF m'(3)], intro ballI conjI)
    fix x assume x: "x \<in> set (fs l)"
    show x3: "aligned 3 x" using wf_listsD(4) [OF wf l(1) x] .
    have "blk 3 x \<inter> blk 3 a = {}" if "a \<in> set (cur # as)" for a
      using al that x3 x nodes_unique [OF wf l(1) k x] l(2) cur
      by (intro aligned_blk_disjoint) auto
    then show "blk 3 x \<inter> (\<Union>a \<in> set (cur # as). blk 3 a) = {}" by blast
  qed
  note other = this
  have "reps (m', b) (fs(k := cur # remove1 t as))"
    unfolding reps_def
  proof (intro conjI allI impI)
    show "length (free_list (snd (m', b))) = MAX_ORDER" using reps by (simp add: reps_def s)
    fix l assume "l < MAX_ORDER"
    then show "chain (fst (m', b)) (free_list (snd (m', b)) ! l) ((fs(k := cur # remove1 t as)) l)"
      using reps ch m'(2) other [of l]
      by (cases "l = k") (simp_all add: reps_def s)
  qed
  moreover have "same_outside (free_set fs) m m'"
    using same_outside_mono [OF m'(3)] free_list_blk3 [OF wf k] cur by simp
  ultimately show ?thesis using m' by (auto simp: s)
qed

lemma merge_loop_reps:
  assumes "reps s fs" and "wf_lists fs" and "k < MAX_ORDER" and "fs k = cur # as"
    and "free_set fs \<subseteq> R" and "fits R"
  shows "\<exists>s'. merge_loop s cur k = Inr s' \<and> reps s' (lmerge fs cur k) \<and>
    same_outside (free_set fs) (fst s) (fst s') \<and> counters s' = counters s"
  using assms
proof (induction fs cur k arbitrary: s as rule: lmerge.induct)
  case (1 fs cur k)
  define b where "b = cur XOR 2 ^ k"
  note prems = "1.prems"
  have hd: "free_list (snd s) ! k = cur" "cur \<noteq> 0"
    using prems(1,3) prems(4) by (auto simp: reps_def dest!: spec [of _ k])
  obtain m1 where m1: "unlink_scan (fst s) cur (load64 (fst s) cur) b = Some (m1, b \<in> set as)"
    "reps (m1, snd s) (fs(k := cur # remove1 b as))" "same_outside (free_set fs) (fst s) m1"
    "b \<notin> set as \<longrightarrow> m1 = fst s"
    using unlink_reps [OF prems(1-4)] by blast
  show ?case
  proof (cases "b \<in> set as")
    case True
    define lower where "lower = min cur b"
    define f2 where "f2 = fs(k := remove1 b as)"
    define fs' where "fs' = fs(k := remove1 b as, Suc k := lower # fs (Suc k))"
    note step = lmerge_step [OF prems(2-4) _ prems(5,6), folded b_def, OF True,
        folded lower_def, folded fs'_def]
    have cb: "cur \<noteq> b" "b \<noteq> 0" "aligned 3 cur" "aligned 3 b"
      using wf_listsD [OF prems(2,3)] prems(2-4) True by (auto simp: wf_lists_def)
    have f1: "wf_lists (fs(k := as))" "free_set (fs(k := as)) = free_set fs - blk k cur"
      using wf_pop [OF prems(2-4)] by simp_all
    have f2: "wf_lists f2" "free_set f2 = free_set (fs(k := as)) - blk k b"
      using wf_remove [OF f1(1) prems(3), of b] True by (simp_all add: f2_def)
    obtain s2 where s2: "POP (m1, snd s) k = Inr (cur, s2)" "reps s2 f2" "fst s2 = m1"
      "counters s2 = counters s"
      using POP_reps [OF m1(2) prems(3), of cur "remove1 b as"] by (auto simp: f2_def counters_def)
    have low: "lower \<noteq> 0" "aligned 3 lower"
      using hd(2) cb by (auto simp: lower_def min_def)
    have "lower \<in> blk k cur \<union> blk k b" by (auto simp: lower_def min_def)
    then have nl: "lower \<notin> free_set f2" using f1(2) f2(2) by blast
    obtain s3 where s3: "PUSH s2 lower (Suc k) = Inr s3" "reps s3 fs'"
      "same_outside (blk 3 lower) (fst s2) (fst s3)" "counters s3 = counters s2"
      using PUSH_reps [OF s2(2) f2(1) step(3) low not_node [OF nl]]
      by (auto simp: fs'_def f2_def)
    note IH = "1.IH" [OF _ b_def lower_def, unfolded prems(4) list.sel, folded fs'_def b_def,
        where s = s3 and as = "fs (Suc k)"]
    have "fs' (Suc k) = lower # fs (Suc k)" by (simp add: fs'_def)
    then obtain s4 where s4: "merge_loop s3 lower (Suc k) = Inr s4"
      "reps s4 (lmerge fs' lower (Suc k))" "same_outside (free_set fs') (fst s3) (fst s4)"
      "counters s4 = counters s3"
      using IH step s3(2) prems True by auto
    have "merge_loop s cur k = Inr s4"
      using prems(3) hd m1(1) True s2(1) s3(1) s4(1)
      by (subst merge_loop.simps) (simp add: b_def [symmetric] lower_def [symmetric] Let_def)
    moreover have "lmerge fs cur k = lmerge fs' lower (Suc k)"
      using True prems by (subst lmerge.simps) (simp add: Let_def b_def fs'_def lower_def)
    moreover have "same_outside (free_set fs) (fst s) (fst s4)"
    proof -
      have "blk 3 lower \<subseteq> free_set fs"
      proof -
        have "lower \<in> set (fs k)" using prems(4) True by (auto simp: lower_def min_def)
        then show ?thesis using free_list_blk3 [OF prems(2,3)] by blast
      qed
      then show ?thesis
        using m1(3) same_outside_mono [OF s3(3)] s4(3) step(2) s2(3)
        by (metis same_outside_trans)
    qed
    ultimately show ?thesis using s2 s3 s4 by auto
  next
    case False
    have "lmerge fs cur k = fs"
      using False prems(4) by (subst lmerge.simps) (simp add: b_def)
    moreover have "merge_loop s cur k = Inr s"
      using prems(3) hd m1 False by (subst merge_loop.simps) (simp add: b_def [symmetric])
    ultimately show ?thesis using prems(1) by auto
  qed
qed

lemma buddy_dealloc_refines:
  assumes reps: "reps s fs" and wf: "wf_lists fs"
    and order: "size_order sz < MAX_ORDER"
    and a: "aligned (size_order sz) a" "a \<noteq> 0" "blk (size_order sz) a \<inter> free_set fs = {}"
    and R: "free_set fs \<union> blk (size_order sz) a \<subseteq> R" "fits R"
  shows "\<exists>s'. buddy_dealloc s a sz = Inr s' \<and> reps s' (ldealloc fs a (size_order sz)) \<and>
    same_outside (free_set fs \<union> blk (size_order sz) a) (fst s) (fst s') \<and>
    total (snd s') = total (snd s) \<and>
    allocated (snd s') = allocated (snd s) - adjust_size sz"
proof -
  define k where "k = size_order sz"
  have k3: "3 \<le> k" by (simp add: k_def size_order_ge3)
  note asm = order a R [folded k_def] note asm = asm [folded k_def]
  have a3: "aligned 3 a" using asm(2) k3 by (rule aligned_mono)
  have "a \<notin> free_set fs" using asm(4) self_in_blk [of a k] by blast
  then obtain s1 where s1: "PUSH s a k = Inr s1" "reps s1 (fs(k := a # fs k))"
    "same_outside (blk 3 a) (fst s) (fst s1)" "counters s1 = counters s"
    using PUSH_reps [OF reps wf asm(1,3) a3 not_node] by blast
  have push: "wf_lists (fs(k := a # fs k))"
    "free_set (fs(k := a # fs k)) = free_set fs \<union> blk k a"
    using wf_push [OF wf asm(1) k3 asm(2-4)] by simp_all
  obtain m2 b2 where s2: "merge_loop s1 a k = Inr (m2, b2)" "reps (m2, b2) (ldealloc fs a k)"
    "same_outside (free_set fs \<union> blk k a) (fst s1) m2" "counters (m2, b2) = counters s1"
    using merge_loop_reps [OF s1(2) push(1) asm(1), of a "fs k" R] asm push
    by (auto simp: ldealloc_def)
  have "buddy_dealloc s a sz = Inr (m2, b2\<lparr>allocated := allocated b2 - adjust_size sz\<rparr>)"
    using s1(1) s2(1) by (simp add: buddy_dealloc_def Let_def size_order_def [symmetric] k_def)
  moreover have "reps (m2, b2\<lparr>allocated := allocated b2 - adjust_size sz\<rparr>) (ldealloc fs a k)"
    using s2(2) by (simp add: reps_def)
  moreover have "same_outside (free_set fs \<union> blk k a) (fst s) m2"
    using same_outside_mono [OF s1(3)] s2(3) blk_mono [OF k3, of a]
    by (meson le_supI2 same_outside_trans)
  ultimately show ?thesis using s1(4) s2(4) by (auto simp: counters_def k_def)
qed

end
