(* ===== verification/Buddy_Region.thy ===== *)
theory Buddy_Region
  imports Buddy_Refine
begin

text \<open>
  Adding a region to the allocator: the loop of \<^verbatim>\<open>add_to_buddy\<close> ends, cuts the region into
  aligned blocks that cover it exactly, and leaves no two buddies that could be merged.
\<close>

section \<open>The lowest set bit\<close>

definition low_index :: "u64 \<Rightarrow> nat" where
  "low_index w = (LEAST n. bit w n)"

lemma low_index_props:
  assumes "w \<noteq> 0"
  shows "bit w (low_index w)" and "aligned (low_index w) w" and "low_index w < 64"
    and "k \<le> low_index w \<longleftrightarrow> aligned k w"
proof -
  obtain n where "bit w n" using assms by (metis bit_eq_iff bit_0_eq bot_apply bot_bool_def)
  then show b: "bit w (low_index w)" unfolding low_index_def by (rule LeastI)
  then show "low_index w < 64" using bit_imp_le_length [of w "low_index w"] by simp
  show a: "aligned (low_index w) w"
    unfolding aligned_bit low_index_def using not_less_Least by blast
  show "k \<le> low_index w \<longleftrightarrow> aligned k w"
    using a b aligned_mono [of "low_index w" w k] by (auto simp: aligned_bit not_le intro: leI)
qed

lemma lowbit_eq:
  assumes "w \<noteq> 0"
  shows "w AND (NOT w + 1) = 2 ^ low_index w"
proof -
  define c where "c = low_index w"
  have b: "bit w c" "aligned c w" "c < 64"
    using low_index_props [OF assms] by (simp_all add: c_def)
  define v where "v = w XOR 2 ^ c"
  have v: "bit v n \<longleftrightarrow> bit w n \<and> n \<noteq> c" for n
    using b(1,3) by (auto simp: v_def bit_xor_iff bit_pow2_word)
  have "v OR 2 ^ c = w"
    using b(1,3) by (intro bit_word_eqI) (auto simp: bit_or_iff v bit_pow2_word)
  moreover have "v + 2 ^ c = v OR 2 ^ c"
    by (rule disjunctive_add) (auto simp: v bit_pow2_word)
  ultimately have "w - 1 = v + mask c"
    by (simp add: mask_eq_exp_minus_1 algebra_simps)
  also have "\<dots> = v OR mask c"
    by (rule disjunctive_add) (use b(2) in \<open>auto simp: v bit_mask_iff aligned_bit\<close>)
  finally have pred: "w - 1 = v OR mask c" .
  have "NOT w + 1 = NOT (w - 1)"
    by (simp add: not_eq_complement)
  with pred have "w AND (NOT w + 1) = w AND NOT (v OR mask c)" by simp
  also have "\<dots> = 2 ^ c"
    using b by (intro bit_word_eqI)
      (auto simp: bit_and_iff bit_not_iff bit_or_iff v bit_mask_iff bit_pow2_word aligned_bit)
  finally show ?thesis by (simp add: c_def)
qed

section \<open>One chunk\<close>

lemma chunk_size_pow2:
  assumes "cur < end" and "cur \<noteq> 0" and "unat end - unat cur < 2 ^ MAX_ORDER"
  shows "chunk_size cur end = 2 ^ min (low_index cur) (get_order (end - cur))"
    and "get_order (end - cur) < MAX_ORDER"
proof -
  define c g where "c = low_index cur" and "g = get_order (end - cur)"
  have diff: "unat (end - cur) = unat end - unat cur"
    using assms(1) by (simp add: unat_sub word_le_nat_alt word_less_nat_alt)
  have pos: "0 < unat (end - cur)" using assms(1) by (simp add: diff word_less_nat_alt)
  then have "2 ^ g \<le> unat (end - cur)"
    using get_order_bounds(1) [of "end - cur"] by (simp add: g_def word_less_nat_alt)
  with assms(3) diff have "(2::nat) ^ g < 2 ^ MAX_ORDER" by linarith
  then show g: "get_order (end - cur) < MAX_ORDER" by (simp add: g_def)
  have "unat (end - cur) \<le> 2 ^ 63"
    using assms(3) diff by (simp add: MAX_ORDER_def)
  with pos have prev: "prev_power_of_two (end - cur) = 2 ^ g"
    by (simp add: prev_power_of_two_pow2 g_def)
  have mn: "min (2 ^ i) (2 ^ j) = (2 ^ min i j :: u64)" if "i < 64" "j < 64" for i j
    using pow2_le_iff [OF that] by (simp add: min_def)
  have "c < 64" using low_index_props(3) [OF assms(2)] by (simp add: c_def)
  moreover have "g < 64" "min g MAX_ORDER = g" "MAX_ORDER < 64"
    using g by (simp_all add: MAX_ORDER_def g_def)
  ultimately show "chunk_size cur end = 2 ^ min (low_index cur) (get_order (end - cur))"
    by (simp add: chunk_size_def Let_def lowbit_eq [OF assms(2)] prev mn c_def [symmetric]
        g_def [symmetric])
qed

lemma blk_interval:
  assumes "aligned k a" and "unat a + 2 ^ k \<le> unat (e :: u64)"
  shows "blk k a = {a..<a + 2 ^ k}" and "unat (a + 2 ^ k) = unat a + 2 ^ k"
proof -
  have "unat e < 2 ^ 64" using unsigned_less [of e, where ?'a = nat] by simp
  with assms(2) have "unat a + 2 ^ k < 2 ^ 64" by (rule le_less_trans)
  then have "(2::nat) ^ k < 2 ^ 64" by linarith
  then have k: "k < 64" by (simp only: power_strict_increasing_iff)
  show u: "unat (a + 2 ^ k) = unat a + 2 ^ k"
    using \<open>unat a + 2 ^ k < 2 ^ 64\<close> by (simp add: unat_plus_if' unat_pow2 [OF k])
  have iff: "unat (x - a) < 2 ^ k \<longleftrightarrow> a \<le> x \<and> x < a + 2 ^ k" for x
  proof (cases "a \<le> x")
    case True
    then show ?thesis by (auto simp: unat_sub word_le_nat_alt word_less_nat_alt u)
  next
    case False
    then have "unat (x - a) = unat x + 2 ^ 64 - unat a"
      by (simp add: unat_sub_if' word_le_nat_alt)
    moreover have "unat x + 2 ^ 64 - unat a \<ge> 2 ^ k"
      using \<open>unat a + 2 ^ k < 2 ^ 64\<close> by linarith
    ultimately show ?thesis using False by simp
  qed
  have "blk k a = {x. unat (x - a) < 2 ^ k}"
    by (simp add: bytes_at_blk [OF assms(1), symmetric] bytes_at_def)
  also have "\<dots> = {a..<a + 2 ^ k}"
    by (simp only: iff) (simp add: set_eq_iff)
  finally show "blk k a = {a..<a + 2 ^ k}" .
qed

lemma chunk:
  assumes "cur < end" and "cur \<noteq> 0" and "unat end - unat cur < 2 ^ MAX_ORDER"
    and al: "aligned 3 cur" "aligned 3 end"
  defines "k \<equiv> get_order (chunk_size cur end)"
  shows "chunk_size cur end = 2 ^ k" and "3 \<le> k" and "k < MAX_ORDER" and "aligned k cur"
    and "unat cur + 2 ^ k \<le> unat end"
    and "\<not> aligned (Suc k) cur \<or> unat end < unat cur + 2 ^ Suc k"
proof -
  define c g where "c = low_index cur" and "g = get_order (end - cur)"
  note cs = chunk_size_pow2 [OF assms(1-3), folded c_def g_def]
  have c64: "c < 64" and c_iff: "\<And>j. j \<le> c \<longleftrightarrow> aligned j cur"
    using low_index_props [OF assms(2)] by (simp_all add: c_def)
  have "min c g < 64" using c64 by simp
  then have k: "k = min c g" by (simp add: k_def cs(1) get_order_pow2)
  show "chunk_size cur end = 2 ^ k" by (simp add: cs(1) k)
  show "k < MAX_ORDER" using cs(2) k by simp
  show "aligned k cur" using c_iff [of k] k by simp
  have diff: "unat (end - cur) = unat end - unat cur"
    using assms(1) by (simp add: unat_sub word_le_nat_alt word_less_nat_alt)
  have pos: "0 < end - cur"
    using assms(1) by (simp add: word_less_nat_alt diff)
  have g: "2 ^ g \<le> unat end - unat cur" "unat end - unat cur < 2 ^ Suc g"
    using get_order_bounds [OF pos] by (simp_all only: g_def diff)
  have "(2::nat) ^ k \<le> 2 ^ g" using k by (simp add: power_increasing_iff)
  moreover have "unat cur < unat end" using assms(1) by (simp add: word_less_nat_alt)
  ultimately show "unat cur + 2 ^ k \<le> unat end" using g(1) by linarith
  have "8 dvd unat end - unat cur"
    using al by (simp add: aligned_nat_dvd dvd_diff_nat)
  moreover have "0 < unat end - unat cur" using pos by (simp add: word_less_nat_alt diff)
  ultimately have "8 \<le> unat end - unat cur" by (rule dvd_imp_le)
  then have "(2::nat) ^ 3 < 2 ^ Suc g" using g(2) by simp
  then have "3 < Suc g" by (simp only: power_strict_increasing_iff)
  moreover have "3 \<le> c" using c_iff al by simp
  ultimately show "3 \<le> k" using k by simp
  show "\<not> aligned (Suc k) cur \<or> unat end < unat cur + 2 ^ Suc k"
  proof (cases "c \<le> g")
    case True
    then show ?thesis using k c_iff [of "Suc k"] by simp
  next
    case False
    then show ?thesis using k g(2) by auto
  qed
qed

section \<open>The loop\<close>

text \<open>
  What the greedy cut maintains about the blocks below \<open>cur\<close>: each was the largest that fits.
\<close>

definition greedy :: "lists \<Rightarrow> addr \<Rightarrow> addr \<Rightarrow> bool" where
  "greedy fs cur end \<longleftrightarrow> (\<forall>(k, a) \<in> entries fs. unat a + 2 ^ k \<le> unat cur \<and>
     (\<not> aligned (Suc k) a \<or> unat end < unat a + 2 ^ Suc k))"

lemma greedy_coalesced:
  assumes "greedy fs end end" and "wf_lists fs"
  shows "coalesced fs"
proof -
  have no: "a XOR 2 ^ k \<notin> set (fs k)" if k: "k < MAX_ORDER" and a: "a \<in> set (fs k)" for k a
  proof
    assume b: "a XOR 2 ^ k \<in> set (fs k)"
    have k64: "k < 64" using k by (simp add: MAX_ORDER_def)
    define l where "l = min a (a XOR 2 ^ k)"
    define u where "u = l XOR 2 ^ k"
    have l: "aligned (Suc k) l"
      unfolding l_def using lower_half(1) [OF wf_listsD(2) [OF assms(2) k a] k64] .
    have lu: "l \<in> set (fs k)" "u \<in> set (fs k)"
      using a b by (auto simp: l_def u_def min_def xor.assoc)
    then have ent: "(k, l) \<in> entries fs" "(k, u) \<in> entries fs"
      using k by (auto simp: entries_def)
    have g1: "unat l + 2 ^ k \<le> unat end" "unat end < unat l + 2 ^ Suc k"
      using assms(1) ent(1) l by (auto simp: greedy_def)
    have "u = l + 2 ^ k" by (simp add: u_def aligned_add_half [OF l])
    then have "unat u = unat l + 2 ^ k"
      using blk_interval(2) [OF aligned_mono [OF l] g1(1)] by simp
    moreover have "unat u + 2 ^ k \<le> unat end"
      using assms(1) ent(2) by (auto simp: greedy_def)
    ultimately show False using g1(2) by simp
  qed
  then show ?thesis by (auto simp: coalesced_def buddies_def entries_def)
qed

lemma add_loop_reps:
  assumes "reps s fs" and "wf_lists fs" and "cur \<le> end" and "cur \<noteq> 0"
    and "unat end - unat cur < 2 ^ MAX_ORDER" and "aligned 3 cur" and "aligned 3 end"
    and "free_set fs \<inter> {cur..<end} = {}"
  shows "\<exists>s' fs'. add_loop s cur end = Some (Inr s') \<and> reps s' fs' \<and> wf_lists fs' \<and>
    free_set fs' = free_set fs \<union> {cur..<end} \<and> same_outside {cur..<end} (fst s) (fst s') \<and>
    total (snd s') = total (snd s) + (end - cur) \<and> allocated (snd s') = allocated (snd s) \<and>
    (greedy fs cur end \<longrightarrow> greedy fs' end end)"
  using assms
proof (induction "unat end - unat cur" arbitrary: s fs cur rule: less_induct)
  case less
  note prems = less.prems
  show ?case
  proof (cases "cur < end")
    case False
    with prems(3) have "cur = end" by simp
    with False prems show ?thesis
      by (intro exI [of _ s] exI [of _ fs]) (simp add: add_loop.simps)
  next
    case True
    define k where "k = get_order (chunk_size cur end)"
    note ch = chunk [OF True prems(4-7), folded k_def]
    note int = blk_interval [OF ch(4,5)]
    define nxt where "nxt = cur + 2 ^ k"
    have nxt: "unat nxt = unat cur + 2 ^ k" using int(2) by (simp add: nxt_def)
    have le: "nxt \<le> end" using ch(5) by (simp add: word_le_nat_alt nxt)
    have lt: "cur < nxt" by (simp add: word_less_nat_alt nxt)
    have un: "{cur..<end} = blk k cur \<union> {nxt..<end}" and dis: "blk k cur \<inter> {nxt..<end} = {}"
      using lt le by (auto simp: int(1) nxt_def [symmetric])
    have bd: "blk k cur \<inter> free_set fs = {}" using prems(8) un by blast
    have "cur \<notin> free_set fs" using bd self_in_blk [of cur k] by blast
    then obtain m1 b1 where s1: "PUSH s cur k = Inr (m1, b1)" "reps (m1, b1) (fs(k := cur # fs k))"
      "same_outside (blk 3 cur) (fst s) m1" "counters (m1, b1) = counters s"
      using PUSH_reps [OF prems(1,2) ch(3) prems(4,6) not_node] by auto
    define fs1 where "fs1 = fs(k := cur # fs k)"
    have wf1: "wf_lists fs1" "free_set fs1 = free_set fs \<union> blk k cur"
      using wf_push [OF prems(2) ch(3,2,4) prems(4) bd] by (simp_all add: fs1_def)
    define s2 where "s2 = (m1, b1\<lparr>total := total b1 + chunk_size cur end\<rparr>)"
    have s2: "reps s2 fs1" using s1(2) by (simp add: reps_def s2_def fs1_def)
    have a3: "aligned 3 nxt"
      using prems(6) ch(2) le_imp_power_dvd [of 3 k "2::nat"]
      by (simp add: aligned_nat_dvd nxt)
    have n0: "nxt \<noteq> 0" using lt by auto
    have lt': "unat end - unat nxt < unat end - unat cur"
      using nxt True by (simp add: word_less_nat_alt diff_less_mono2)
    have bnd: "unat end - unat nxt < 2 ^ MAX_ORDER" using lt' prems(5) by simp
    have dis': "free_set fs1 \<inter> {nxt..<end} = {}" using wf1(2) un dis prems(8) by blast
    obtain s' fs' where s': "add_loop s2 nxt end = Some (Inr s')" "reps s' fs'" "wf_lists fs'"
      "free_set fs' = free_set fs1 \<union> {nxt..<end}" "same_outside {nxt..<end} (fst s2) (fst s')"
      "total (snd s') = total (snd s2) + (end - nxt)"
      "allocated (snd s') = allocated (snd s2)"
      "greedy fs1 nxt end \<longrightarrow> greedy fs' end end"
      using less.hyps [OF lt' s2 wf1(1) le n0 bnd a3 prems(7) dis'] by blast
    have "add_loop s cur end = Some (Inr s')"
    proof -
      have "get_order (2 ^ k) = k" using ch(3) by (simp add: get_order_pow2 MAX_ORDER_def)
      then show ?thesis
        using True s1(1) s'(1) ch(1) by (subst add_loop.simps) (simp add: Let_def s2_def nxt_def)
    qed
    moreover have "free_set fs' = free_set fs \<union> {cur..<end}"
      using s'(4) wf1(2) un by blast
    moreover have "same_outside {cur..<end} (fst s) (fst s')"
    proof -
      have "blk 3 cur \<subseteq> {cur..<end}" using un blk_mono [OF ch(2), of cur] by blast
      moreover have "{nxt..<end} \<subseteq> {cur..<end}" using un by blast
      ultimately have "same_outside {cur..<end} (fst s) m1" "same_outside {cur..<end} m1 (fst s')"
        using same_outside_mono [OF s1(3)] same_outside_mono [OF s'(5)] by (simp_all add: s2_def)
      then show ?thesis by (rule same_outside_trans)
    qed
    moreover have "total (snd s') = total (snd s) + (end - cur)"
      using s'(6) s1(4) ch(1) by (simp add: s2_def counters_def nxt_def)
    moreover have "allocated (snd s') = allocated (snd s)"
      using s'(7) s1(4) by (simp add: s2_def counters_def)
    moreover have "greedy fs1 nxt end" if "greedy fs cur end"
      using that ch(3,5,6) by (auto simp: greedy_def fs1_def entries_push nxt)
    ultimately show ?thesis using s' by (intro exI [of _ s'] exI [of _ fs']) simp
  qed
qed

lemma init_buddy_reps: "reps (m, init_buddy b) (\<lambda>_. [])"
  by (simp add: reps_def init_buddy_def)

lemma empty_lists [simp]: "wf_lists (\<lambda>_. [])" "free_set (\<lambda>_. []) = {}" "entries (\<lambda>_. []) = {}"
  by (simp_all add: wf_lists_def entries_def free_set_def)

end
