(* ===== verification/Buddy_Spec.thy ===== *)
theory Buddy_Spec
  imports Buddy_Region
begin

text \<open>
  What the rest of the kernel may rely on: an allocator of aligned blocks over a set of free
  addresses. The locale states that contract; the interpretation proves it of the code's
  allocator. The completeness law (a request is refused only when no aligned block of its
  size is free) rests on the free buddies always having been merged.
\<close>

section \<open>The contract\<close>

locale block_allocator =
  fixes alloc_op :: "'s \<Rightarrow> u64 \<Rightarrow> (addr \<times> 's) outcome"
    and dealloc_op :: "'s \<Rightarrow> addr \<Rightarrow> u64 \<Rightarrow> 's outcome"
    and memory :: "'s \<Rightarrow> mem"
    and inv :: "'s \<Rightarrow> addr set \<Rightarrow> bool"
    and region :: "addr set"
  assumes inv_region: "inv s F \<Longrightarrow> F \<subseteq> region"
    and inv_nonnull: "inv s F \<Longrightarrow> 0 \<notin> F"
    and alloc_returns: "inv s F \<Longrightarrow> \<exists>a s'. alloc_op s sz = Inr (a, s')"
    and alloc_block: "inv s F \<Longrightarrow> alloc_op s sz = Inr (a, s') \<Longrightarrow> a \<noteq> 0 \<Longrightarrow>
      aligned (size_order sz) a \<and> blk (size_order sz) a \<subseteq> F \<and>
      inv s' (F - blk (size_order sz) a) \<and> same_outside F (memory s) (memory s')"
    and alloc_null: "inv s F \<Longrightarrow> alloc_op s sz = Inr (0, s') \<Longrightarrow>
      s' = s \<and> (\<forall>a. \<not> blk (size_order sz) a \<subseteq> F)"
    and dealloc_block: "inv s F \<Longrightarrow> aligned (size_order sz) a \<Longrightarrow> a \<noteq> 0 \<Longrightarrow>
      blk (size_order sz) a \<subseteq> region - F \<Longrightarrow>
      \<exists>s'. dealloc_op s a sz = Inr s' \<and> inv s' (F \<union> blk (size_order sz) a) \<and>
        same_outside (F \<union> blk (size_order sz) a) (memory s) (memory s')"
begin

text \<open>A request succeeds exactly when an aligned block of its order is free.\<close>

lemma alloc_iff:
  assumes "inv s F" and "alloc_op s sz = Inr (a, s')"
  shows "a \<noteq> 0 \<longleftrightarrow> (\<exists>b. blk (size_order sz) b \<subseteq> F)"
  using alloc_block [OF assms] alloc_null [OF assms(1)] assms(2) by metis

lemma alloc_then_dealloc:
  assumes "inv s F" and "alloc_op s sz = Inr (a, s')" and "a \<noteq> 0"
  shows "\<exists>s''. dealloc_op s' a sz = Inr s'' \<and> inv s'' F \<and> same_outside F (memory s) (memory s'')"
proof -
  let ?B = "blk (size_order sz) a"
  note al = alloc_block [OF assms]
  then have "?B \<subseteq> region - (F - ?B)" using inv_region [OF assms(1)] by blast
  then obtain s'' where s'': "dealloc_op s' a sz = Inr s''" "inv s'' (F - ?B \<union> ?B)"
    "same_outside (F - ?B \<union> ?B) (memory s') (memory s'')"
    using dealloc_block [of s' "F - ?B" sz a] al assms(3) by blast
  have "F - ?B \<union> ?B = F" using al by blast
  with s'' al show ?thesis by (metis same_outside_trans)
qed

text \<open>Two blocks allocated one after the other do not overlap, and neither is written to by the other's allocation.\<close>

lemma alloc_twice_disjoint:
  assumes "inv s F" and "alloc_op s sz = Inr (a, s1)" and "a \<noteq> 0"
    and "alloc_op s1 sz' = Inr (b, s2)" and "b \<noteq> 0"
  shows "blk (size_order sz) a \<inter> blk (size_order sz') b = {}"
    and "x \<in> blk (size_order sz) a \<Longrightarrow> memory s2 x = memory s1 x"
proof -
  note al = alloc_block [OF assms(1-3)]
  note al' = alloc_block [OF conjunct1 [OF conjunct2 [OF conjunct2 [OF al]]] assms(4,5)]
  show "blk (size_order sz) a \<inter> blk (size_order sz') b = {}" using al' by blast
  show "x \<in> blk (size_order sz) a \<Longrightarrow> memory s2 x = memory s1 x"
    using al' by (auto simp: same_outside_def)
qed

end

section \<open>Merged free lists are canonical\<close>

lemma free_block_covered:
  assumes wf: "wf_lists fs" and co: "coalesced fs" and F: "blk k a \<subseteq> free_set fs"
  shows "\<exists>l b. (l, b) \<in> entries fs \<and> k \<le> l \<and> a \<in> blk l b"
proof (rule ccontr)
  assume "\<not> ?thesis"
  then have no: "l < k" if "(l, b) \<in> entries fs" "a \<in> blk l b" for l b
    using that by (meson not_le)
  define E where "E = {(l, b). (l, b) \<in> entries fs \<and> b \<in> blk k a}"
  have dis: "(l, b) = (l', c)" if "(l, b) \<in> entries fs" "(l', c) \<in> entries fs"
    "x \<in> blk l b" "x \<in> blk l' c" for l b l' c x
    using wf_lists_disjoint [OF wf, of l b l' c] that by (auto simp: entries_def)
  have "a \<in> free_set fs" using F self_in_blk by blast
  then obtain l0 b0 where "(l0, b0) \<in> entries fs" "a \<in> blk l0 b0" by (auto simp: free_set_def)
  then have "(l0, b0) \<in> E"
    using no [of l0 b0] blk_mono [of l0 k b0] blk_sym by (fastforce simp: E_def)
  then have "l0 \<in> fst ` E" by force
  define l where "l = (LEAST l. l \<in> fst ` E)"
  have "l \<in> fst ` E" unfolding l_def by (rule LeastI) fact
  then obtain b where b: "(l, b) \<in> entries fs" "b \<in> blk k a" by (auto simp: E_def)
  have least: "l \<le> l'" if "(l', c) \<in> E" for l' c
    unfolding l_def using that by (intro Least_le) force
  have lM: "l < MAX_ORDER" "l < 64" "aligned l b"
    using b wf_listsD(2) [OF wf, of l b] by (auto simp: entries_def MAX_ORDER_def)
  have lk: "l < k"
  proof (rule ccontr)
    assume "\<not> l < k"
    then have "a \<in> blk l b" using b(2) blk_mono [of k l b] blk_sym by (auto simp: not_less)
    with no b(1) \<open>\<not> l < k\<close> show False by blast
  qed
  define b' where "b' = b XOR 2 ^ l"
  have "b' \<in> blk (Suc l) b" by (simp add: blk_Suc lM b'_def)
  then have b'k: "b' \<in> blk k a"
    using blk_mono [of "Suc l" k b] lk blk_eq [OF b(2)] by auto
  then have "b' \<in> free_set fs" using F by blast
  then obtain l' c where c: "(l', c) \<in> entries fs" "b' \<in> blk l' c" by (auto simp: free_set_def)
  have l'k: "l' < k"
  proof (rule ccontr)
    assume "\<not> l' < k"
    then have "a \<in> blk l' c"
      using c(2) b'k blk_mono [of k l' b'] blk_eq [OF b'k] blk_eq [OF c(2)] by (auto simp: not_less)
    with no c(1) \<open>\<not> l' < k\<close> show False by blast
  qed
  then have "c \<in> blk k a"
    using c(2) b'k blk_mono [of l' k c] blk_eq [of b' k a] blk_eq [of b' k c] self_in_blk [of c k]
    by auto
  with c(1) have "l \<le> l'" by (intro least) (simp add: E_def)
  show False
  proof (cases "l = l'")
    case True
    have "aligned l' c" using c wf_listsD(2) [OF wf, of l' c] by (auto simp: entries_def)
    with True c(2) have "b' = c"
      using aligned_xor [OF lM(3)] by (auto simp: b'_def intro: aligned_blk_unique)
    with c(1) b(1) True have "(l, b) \<in> buddies fs" by (simp add: buddies_def b'_def)
    with co show False by (simp add: coalesced_def)
  next
    case False
    with \<open>l \<le> l'\<close> have "Suc l \<le> l'" by simp
    then have "b \<in> blk l' c"
      using blk_mono [of "Suc l" l' b'] blk_eq [OF c(2)] \<open>b' \<in> blk (Suc l) b\<close>
      by (auto simp: blk_sym)
    with dis [OF b(1) c(1) self_in_blk] False show False by simp
  qed
qed

text \<open>The blocks in the lists are the maximal aligned blocks of the free set.\<close>

definition max_blocks :: "addr set \<Rightarrow> (nat \<times> addr) set" where
  "max_blocks F = {(k, a). k < MAX_ORDER \<and> aligned k a \<and> blk k a \<subseteq> F \<and> \<not> blk (Suc k) a \<subseteq> F}"

lemma entries_max_blocks:
  assumes wf: "wf_lists fs" and co: "coalesced fs"
  shows "entries fs = max_blocks (free_set fs)"
proof (rule set_eqI, clarify, rule iffI)
  fix k a assume e: "(k, a) \<in> entries fs"
  have "\<not> blk (Suc k) a \<subseteq> free_set fs"
  proof
    assume "blk (Suc k) a \<subseteq> free_set fs"
    from free_block_covered [OF wf co this] obtain l b
      where "(l, b) \<in> entries fs" "Suc k \<le> l" "a \<in> blk l b" by blast
    with e wf_lists_disjoint [OF wf, of k a l b] self_in_blk [of a k] show False
      unfolding entries_def by (metis (mono_tags, lifting) Suc_n_not_le_n case_prodD disjoint_iff
          mem_Collect_eq prod.inject)
  qed
  with e show "(k, a) \<in> max_blocks (free_set fs)"
    using wf_listsD(2) [OF wf] blk_free_set by (auto simp: max_blocks_def entries_def)
next
  fix k a assume "(k, a) \<in> max_blocks (free_set fs)"
  then have k: "k < MAX_ORDER" "aligned k a" "blk k a \<subseteq> free_set fs"
    "\<not> blk (Suc k) a \<subseteq> free_set fs" by (auto simp: max_blocks_def)
  from free_block_covered [OF wf co k(3)] obtain l b
    where lb: "(l, b) \<in> entries fs" "k \<le> l" "a \<in> blk l b" by blast
  have "\<not> Suc k \<le> l"
  proof
    assume "Suc k \<le> l"
    then have "blk (Suc k) a \<subseteq> blk l b" using blk_mono [of "Suc k" l a] blk_eq [OF lb(3)] by simp
    with lb(1) k(4) show False by (auto simp: free_set_def)
  qed
  with lb(2) have "l = k" by simp
  with lb k(2) have "a = b"
    using wf_listsD(2) [OF wf, of l b] by (auto simp: entries_def intro: aligned_blk_unique)
  with \<open>l = k\<close> lb(1) show "(k, a) \<in> entries fs" by simp
qed

section \<open>The code's allocator meets the contract\<close>

definition buddy_inv :: "addr set \<Rightarrow> bstate \<Rightarrow> addr set \<Rightarrow> bool" where
  "buddy_inv R s F \<longleftrightarrow> F \<subseteq> R \<and> fits R \<and>
     (\<exists>fs. reps s fs \<and> wf_lists fs \<and> coalesced fs \<and> free_set fs = F) \<and>
     total (snd s) - allocated (snd s) = of_nat (card F)"

lemma card_blk: "aligned k a \<Longrightarrow> k < 64 \<Longrightarrow> card (blk k a) = 2 ^ k"
proof -
  assume al: "aligned k a" and k: "k < 64"
  have lt: "(2::nat) ^ k < 2 ^ 64" using k by (rule power_strict_increasing) simp
  have "blk k a = (\<lambda>i. a + of_nat i) ` {..<2 ^ k}"
  proof (rule set_eqI, rule iffI)
    fix x assume "x \<in> blk k a"
    then have "unat (x - a) < 2 ^ k" using bytes_at_blk [OF al] by (auto simp: bytes_at_def)
    then show "x \<in> (\<lambda>i. a + of_nat i) ` {..<2 ^ k}"
      by (intro image_eqI [of _ _ "unat (x - a)"]) simp_all
  next
    fix x assume "x \<in> (\<lambda>i. a + of_nat i) ` {..<2 ^ k}"
    then obtain i where "x = a + of_nat i" "i < 2 ^ k" by blast
    then show "x \<in> blk k a"
      using bytes_at_blk [OF al] unat_offset [of i "2 ^ k" a] lt by (auto simp: bytes_at_def)
  qed
  moreover have "inj_on (\<lambda>i. a + of_nat i) {..<2 ^ k}"
  proof (rule inj_onI)
    fix i j :: nat
    assume "i \<in> {..<2 ^ k}" "j \<in> {..<2 ^ k}" and eq: "a + of_nat i = a + of_nat j"
    then have "unat (a + of_nat i - a) = i" "unat (a + of_nat j - a) = j"
      using lt unat_offset [of i "2 ^ k" a] unat_offset [of j "2 ^ k" a] by simp_all
    with eq show "i = j" by simp
  qed
  ultimately show ?thesis by (simp add: card_image)
qed

lemma finite_addr [simp]: "finite (F :: addr set)"
  by (rule finite)

lemma zero_not_free: "wf_lists fs \<Longrightarrow> 0 \<notin> free_set fs"
proof
  assume wf: "wf_lists fs" and "0 \<in> free_set fs"
  then obtain k a where ka: "k < MAX_ORDER" "a \<in> set (fs k)" "0 \<in> blk k a"
    by (auto simp: free_set_def entries_def)
  then have "a = 0"
    using wf_listsD(2) [OF wf ka(1,2)] by (intro aligned_blk_unique [of k]) (auto simp: blk_sym aligned_bit)
  with wf_listsD(3) [OF wf ka(1,2)] show False by simp
qed

lemma buddy_alloc_spec:
  assumes inv: "buddy_inv R s F"
  shows "\<exists>a s'. buddy_alloc s sz = Inr (a, s') \<and>
    (if a = 0 then s' = s \<and> (\<forall>b. \<not> blk (size_order sz) b \<subseteq> F)
     else aligned (size_order sz) a \<and> size_order sz < MAX_ORDER \<and> blk (size_order sz) a \<subseteq> F \<and>
       buddy_inv R s' (F - blk (size_order sz) a) \<and> same_outside F (fst s) (fst s') \<and>
       allocated (snd s') = allocated (snd s) + adjust_size sz \<and>
       load64 (fst s') a = free_list (snd s') ! size_order sz)"
proof -
  let ?k = "size_order sz"
  obtain fs where fs: "reps s fs" "wf_lists fs" "coalesced fs" "free_set fs = F"
    and R: "F \<subseteq> R" "fits R" and cnt: "total (snd s) - allocated (snd s) = of_nat (card F)"
    using inv by (auto simp: buddy_inv_def)
  from buddy_alloc_refines [OF fs(1,2), of sz]
  obtain a s' where ret: "buddy_alloc s sz = Inr (a, s')" and
    res: "case lalloc fs ?k of None \<Rightarrow> a = 0 \<and> s' = s
     | Some (a', fs') \<Rightarrow> a = a' \<and> reps s' fs' \<and> same_outside (free_set fs) (fst s) (fst s') \<and>
         total (snd s') = total (snd s) \<and> allocated (snd s') = allocated (snd s) + adjust_size sz \<and>
         load64 (fst s') a = free_list (snd s') ! ?k" by blast
  show ?thesis
  proof (cases "lalloc fs ?k")
    case None
    have "\<not> blk ?k b \<subseteq> F" for b
    proof
      assume "blk ?k b \<subseteq> F"
      then obtain l c where "(l, c) \<in> entries fs" "?k \<le> l"
        using free_block_covered [OF fs(2,3)] fs(4) by blast
      with None show False by (auto simp: lalloc_None entries_def)
    qed
    with None ret res show ?thesis by auto
  next
    case (Some p)
    then obtain fs' where p: "lalloc fs ?k = Some (a, fs')" using res by (cases p) auto
    note al = lalloc_Some [OF fs(2) size_order_ge3 p]
    have "buddy_inv R s' (F - blk ?k a)"
      unfolding buddy_inv_def
    proof (intro conjI exI)
      show "F - blk ?k a \<subseteq> R" "fits R" using R by auto
      show "reps s' fs'" using res p by simp
      show "wf_lists fs'" "coalesced fs'" "free_set fs' = F - blk ?k a" using al fs by auto
      have "card (F - blk ?k a) = card F - 2 ^ ?k"
        using al(2,5) fs(4) size_order_less_64 [of sz] by (subst card_Diff_subset) (auto simp: card_blk)
      moreover have "2 ^ ?k \<le> card F"
        using card_mono [of F "blk ?k a"] al(2,5) fs(4) size_order_less_64 [of sz] by (simp add: card_blk)
      ultimately have "(of_nat (card (F - blk ?k a)) :: u64) = of_nat (card F) - 2 ^ ?k"
        by (simp add: of_nat_diff)
      then show "total (snd s') - allocated (snd s') = of_nat (card (F - blk ?k a))"
        using res p cnt by (simp add: adjust_size_eq algebra_simps)
    qed
    with al res p ret fs(4) show ?thesis by (intro exI [of _ a] exI [of _ s']) auto
  qed
qed

lemma buddy_dealloc_spec:
  assumes inv: "buddy_inv R s F" and a: "aligned (size_order sz) a" "a \<noteq> 0"
    and B: "blk (size_order sz) a \<subseteq> R - F"
  shows "\<exists>s'. buddy_dealloc s a sz = Inr s' \<and> buddy_inv R s' (F \<union> blk (size_order sz) a) \<and>
    same_outside (F \<union> blk (size_order sz) a) (fst s) (fst s') \<and>
    allocated (snd s') = allocated (snd s) - adjust_size sz"
proof -
  let ?k = "size_order sz"
  obtain fs where fs: "reps s fs" "wf_lists fs" "coalesced fs" "free_set fs = F"
    and R: "F \<subseteq> R" "fits R" and cnt: "total (snd s) - allocated (snd s) = of_nat (card F)"
    using inv by (auto simp: buddy_inv_def)
  have k: "?k < MAX_ORDER"
  proof (rule ccontr)
    assume "\<not> ?k < MAX_ORDER"
    then have "blk MAX_ORDER a \<subseteq> blk ?k a" by (intro blk_mono) simp
    with B R(2) show False by (auto simp: fits_def)
  qed
  have sub: "F \<union> blk ?k a \<subseteq> R" and dis: "blk ?k a \<inter> F = {}" using B R(1) by auto
  obtain s' where s': "buddy_dealloc s a sz = Inr s'" "reps s' (ldealloc fs a ?k)"
    "same_outside (F \<union> blk ?k a) (fst s) (fst s')" "total (snd s') = total (snd s)"
    "allocated (snd s') = allocated (snd s) - adjust_size sz"
    using buddy_dealloc_refines [OF fs(1,2) k a, of R] dis sub R(2) fs(4) by auto
  have ld: "wf_lists (ldealloc fs a ?k)" "free_set (ldealloc fs a ?k) = F \<union> blk ?k a"
    "coalesced (ldealloc fs a ?k)"
    using ldealloc_wf [OF fs(2) size_order_ge3 k a, of R] dis sub R(2) fs(3,4) by auto
  have "card (F \<union> blk ?k a) = card F + 2 ^ ?k"
    using dis a(1) size_order_less_64 [of sz] by (subst card_Un_disjoint) (auto simp: card_blk)
  then have "buddy_inv R s' (F \<union> blk ?k a)"
    using s' ld sub R(2) cnt by (auto simp: buddy_inv_def adjust_size_eq algebra_simps)
  with s' show ?thesis by blast
qed

interpretation buddy: block_allocator buddy_alloc buddy_dealloc fst "buddy_inv R" R for R
proof unfold_locales
  fix s F sz a s'
  assume inv: "buddy_inv R s F"
  show "F \<subseteq> R" using inv by (simp add: buddy_inv_def)
  show "0 \<notin> F" using inv zero_not_free by (auto simp: buddy_inv_def)
  show "\<exists>a s'. buddy_alloc s sz = Inr (a, s')" using buddy_alloc_spec [OF inv] by blast
  show "aligned (size_order sz) a \<and> blk (size_order sz) a \<subseteq> F \<and>
      buddy_inv R s' (F - blk (size_order sz) a) \<and> same_outside F (fst s) (fst s')"
    if "buddy_alloc s sz = Inr (a, s')" "a \<noteq> 0"
    using buddy_alloc_spec [OF inv, of sz] that by auto
  show "s' = s \<and> (\<forall>a. \<not> blk (size_order sz) a \<subseteq> F)" if "buddy_alloc s sz = Inr (0, s')"
    using buddy_alloc_spec [OF inv, of sz] that by auto
  show "\<exists>s'. buddy_dealloc s a sz = Inr s' \<and> buddy_inv R s' (F \<union> blk (size_order sz) a) \<and>
      same_outside (F \<union> blk (size_order sz) a) (fst s) (fst s')"
    if "aligned (size_order sz) a" "a \<noteq> 0" "blk (size_order sz) a \<subseteq> R - F"
    using buddy_dealloc_spec [OF inv that] by blast
qed

text \<open>A freshly built allocator: the region is free and all accounted for.\<close>

lemma fits_interval: "unat b - unat a < 2 ^ MAX_ORDER \<Longrightarrow> fits {a..<b}"
  unfolding fits_def
proof (intro allI notI)
  fix c assume lt: "unat b - unat a < 2 ^ MAX_ORDER" and sub: "blk MAX_ORDER c \<subseteq> {a..<b}"
  define d where "d = c AND NOT (mask MAX_ORDER)"
  have d: "aligned MAX_ORDER d" by (auto simp: d_def aligned_bit bit_and_iff bit_not_iff bit_mask_iff)
  have "d \<in> blk MAX_ORDER c"
    by (auto simp: d_def blk_bit bit_and_iff bit_not_iff bit_mask_iff dest: bit_imp_le_length)
  then have blk: "blk MAX_ORDER d \<subseteq> {a..<b}" using sub blk_eq by blast
  have "card (blk MAX_ORDER d) \<le> card {a..<b}" using blk by (intro card_mono) auto
  moreover have "card {a..<b} \<le> unat b - unat a"
  proof -
    have "card {a..<b} = card (unat ` {a..<b})"
      by (rule card_image [symmetric]) (simp add: inj_on_def word_unat_eq_iff)
    also have "\<dots> \<le> card {unat a..<unat b}"
      by (rule card_mono) (auto simp: word_le_nat_alt word_less_nat_alt)
    finally show ?thesis by simp
  qed
  ultimately show False using lt card_blk [OF d] by (simp add: MAX_ORDER_def)
qed

lemma card_interval: "a \<le> b \<Longrightarrow> card {a..<b :: addr} = unat b - unat a"
proof -
  assume "a \<le> b"
  have "unat ` {a..<b} = {unat a..<unat b}"
  proof (rule set_eqI, rule iffI)
    fix n assume "n \<in> {unat a..<unat b}"
    then have "n < 2 ^ 64" using unsigned_less [of b, where ?'a = nat] by simp
    then have "unat (of_nat n :: u64) = n" by (simp add: unat_of_nat)
    with \<open>n \<in> _\<close> show "n \<in> unat ` {a..<b}"
      by (intro image_eqI [of _ _ "of_nat n"]) (auto simp: word_le_nat_alt word_less_nat_alt)
  qed (auto simp: word_le_nat_alt word_less_nat_alt)
  moreover have "card (unat ` {a..<b}) = card {a..<b}"
    by (rule card_image) (simp add: inj_on_def word_unat_eq_iff)
  ultimately show ?thesis by simp
qed

lemma init_region_spec:
  assumes "start \<le> end" and "start \<noteq> 0" and "unat end - unat start < 2 ^ MAX_ORDER"
    and "aligned 3 start" and "aligned 3 end"
  shows "\<exists>s'. add_to_buddy (m, init_buddy b) start end = Inr s' \<and>
    buddy_inv {start..<end} s' {start..<end} \<and> total (snd s') = end - start \<and>
    allocated (snd s') = 0 \<and> same_outside {start..<end} m (fst s')"
proof -
  obtain s' fs' where s': "add_loop (m, init_buddy b) start end = Some (Inr s')" "reps s' fs'"
    "wf_lists fs'" "free_set fs' = {start..<end}" "same_outside {start..<end} m (fst s')"
    "total (snd s') = total (init_buddy b) + (end - start)"
    "allocated (snd s') = allocated (init_buddy b)" "greedy fs' end end"
    using add_loop_reps [OF init_buddy_reps empty_lists(1) assms, of m b]
    by (auto simp: greedy_def)
  have "coalesced fs'" by (rule greedy_coalesced) fact+
  moreover have "(of_nat (card {start..<end}) :: u64) = end - start"
    using assms(1) by (simp add: card_interval of_nat_diff word_le_nat_alt)
  ultimately have "buddy_inv {start..<end} s' {start..<end}"
    using s' fits_interval [OF assms(3)] by (auto simp: buddy_inv_def init_buddy_def)
  with s' show ?thesis
    by (intro exI [of _ s']) (simp add: add_to_buddy_def init_buddy_def)
qed

end
