(* ===== verification/Addr.thy ===== *)
theory Addr
  imports Lilac_Prelude
begin

text \<open>
  The constants of \<^verbatim>\<open>kernel/consts.h\<close> and the address and page-table-entry macros of
  \<^verbatim>\<open>kernel/mapping.h\<close>, with the facts that make them inverse to each other.
\<close>

section \<open>Constants and macros\<close>

definition PAGE_SIZE :: u64 where
  "PAGE_SIZE = 4096"

definition MEMORY_END :: u64 where
  "MEMORY_END = 0x88000000"

definition KERNEL_MAP_OFFSET :: u64 where
  "KERNEL_MAP_OFFSET = 0xffffffff00000000"

definition KERNEL_PAGE_OFFSET :: u64 where
  "KERNEL_PAGE_OFFSET = 0xffffffff00000"

definition KERNEL_STACK_SIZE :: u64 where
  "KERNEL_STACK_SIZE = PAGE_SIZE * 2"

definition USER_STACK_SIZE :: u64 where
  "USER_STACK_SIZE = PAGE_SIZE * 4"

definition USER_STACK :: u64 where
  "USER_STACK = 0xffffffff00000000"

definition va_of :: "u64 \<Rightarrow> u64" where
  "va_of pa = pa + KERNEL_MAP_OFFSET"

definition pa_of :: "u64 \<Rightarrow> u64" where
  "pa_of va = va - KERNEL_MAP_OFFSET"

definition vpn_of :: "u64 \<Rightarrow> u64" where
  "vpn_of ppn = ppn + KERNEL_PAGE_OFFSET"

definition ppn_of :: "u64 \<Rightarrow> u64" where
  "ppn_of vpn = vpn - KERNEL_PAGE_OFFSET"

definition satp_of :: "u64 \<Rightarrow> u64" where
  "satp_of ppn = ppn OR push_bit 60 8"

definition PTE2PA :: "u64 \<Rightarrow> u64" where
  "PTE2PA pte = push_bit 2 (pte AND 0x003ffffffffffC00)"

definition PTE2PPN :: "u64 \<Rightarrow> u64" where
  "PTE2PPN pte = drop_bit 10 (pte AND 0x003ffffffffffC00)"

definition PPN2PTE :: "u64 \<Rightarrow> u64 \<Rightarrow> u64" where
  "PPN2PTE ppn flags = push_bit 10 ppn OR flags"

definition PA2PTE :: "u64 \<Rightarrow> u64 \<Rightarrow> u64" where
  "PA2PTE pa flags = push_bit 10 (drop_bit 12 pa) OR flags"

definition PAGE_VALID :: u64 where "PAGE_VALID = 1"
definition PAGE_READ :: u64 where "PAGE_READ = 2"
definition PAGE_WRITE :: u64 where "PAGE_WRITE = 4"
definition PAGE_EXEC :: u64 where "PAGE_EXEC = 8"
definition PAGE_USER :: u64 where "PAGE_USER = 16"
definition PAGE_GLOBAL :: u64 where "PAGE_GLOBAL = 32"
definition PAGE_ACCESS :: u64 where "PAGE_ACCESS = 64"
definition PAGE_DIRTY :: u64 where "PAGE_DIRTY = 128"

section \<open>Addresses\<close>

lemma pa_va [simp]: "pa_of (va_of pa) = pa" and va_pa [simp]: "va_of (pa_of va) = va"
  by (simp_all add: pa_of_def va_of_def)

lemma ppn_vpn [simp]: "ppn_of (vpn_of p) = p" and vpn_ppn [simp]: "vpn_of (ppn_of v) = v"
  by (simp_all add: ppn_of_def vpn_of_def)

lemma aligned_map_offset: "k \<le> 32 \<Longrightarrow> aligned k KERNEL_MAP_OFFSET"
proof (rule aligned_mono [of 32])
  show "aligned 32 KERNEL_MAP_OFFSET"
    unfolding aligned_iff_ex KERNEL_MAP_OFFSET_def by (intro exI [where x = "0xffffffff"]) simp
qed

lemma aligned_va_of: "k \<le> 32 \<Longrightarrow> aligned k (va_of p) \<longleftrightarrow> aligned k p"
  by (metis aligned_add aligned_map_offset aligned_minus add_diff_cancel va_of_def)

lemma aligned_pa_of: "k \<le> 32 \<Longrightarrow> aligned k (pa_of p) \<longleftrightarrow> aligned k p"
  using aligned_va_of [of k "pa_of p"] by simp

text \<open>The address in the kernel's linear mapping of the page with a physical page number.\<close>

abbreviation page_va :: "u64 \<Rightarrow> addr" where
  "page_va ppn \<equiv> va_of (push_bit 12 ppn)"

lemma aligned_page_va [simp]: "aligned 12 (page_va ppn)"
  by (simp add: aligned_va_of aligned_push)

lemma page_va_pa: "aligned 12 p \<Longrightarrow> page_va (drop_bit 12 (pa_of p)) = p"
  by (simp add: push_drop_aligned aligned_pa_of)

section \<open>Page table entries\<close>

lemma bit_pte_mask: "bit (0x003ffffffffffC00 :: u64) n \<longleftrightarrow> 10 \<le> n \<and> n < 54"
proof -
  have "(0x003ffffffffffC00 :: u64) = push_bit 10 (mask 44)"
    by (simp add: mask_eq_exp_minus_1 push_bit_eq_mult)
  moreover have "bit (push_bit 10 (mask 44) :: u64) n \<longleftrightarrow> 10 \<le> n \<and> n < 54"
    by (auto simp: bit_push_bit_iff bit_mask_iff)
  ultimately show ?thesis by (simp only:)
qed

lemma bit_PTE2PPN: "bit (PTE2PPN pte) n \<longleftrightarrow> n < 44 \<and> bit pte (10 + n)"
  by (auto simp only: PTE2PPN_def bit_drop_bit_eq bit_and_iff bit_pte_mask comp_apply)

lemma bit_PTE2PA: "bit (PTE2PA pte) n \<longleftrightarrow> 12 \<le> n \<and> n < 56 \<and> bit pte (n - 2)"
  by (auto simp only: PTE2PA_def bit_push_bit_iff bit_and_iff bit_pte_mask) auto

lemma bit_PPN2PTE: "bit (PPN2PTE ppn flags) n \<longleftrightarrow>
    (10 \<le> n \<and> n < 64 \<and> bit ppn (n - 10)) \<or> bit flags n"
  by (auto simp: PPN2PTE_def bit_or_iff bit_push_bit_iff)

lemma PTE2PPN_PPN2PTE:
  assumes "ppn < 2 ^ 44" and "flags < 2 ^ 10"
  shows "PTE2PPN (PPN2PTE ppn flags) = ppn"
proof (rule bit_word_eqI)
  fix n
  show "bit (PTE2PPN (PPN2PTE ppn flags)) n \<longleftrightarrow> bit ppn n"
    using less_pow2_bit [OF assms(1), of n] less_pow2_bit [OF assms(2), of "10 + n"]
    by (cases "n < 44") (simp_all add: bit_PTE2PPN bit_PPN2PTE)
qed

lemma PTE2PA_eq: "PTE2PA pte = push_bit 12 (PTE2PPN pte)"
  by (rule bit_word_eqI) (auto simp: bit_PTE2PPN bit_PTE2PA bit_push_bit_iff)

lemma PTE2PA_PPN2PTE:
  "ppn < 2 ^ 44 \<Longrightarrow> flags < 2 ^ 10 \<Longrightarrow> PTE2PA (PPN2PTE ppn flags) = push_bit 12 ppn"
  by (simp only: PTE2PA_eq PTE2PPN_PPN2PTE)

end
