(* ===== verification/Kmem.thy ===== *)
theory Kmem
  imports Buddy_Spec Addr
begin

text \<open>
  \<^verbatim>\<open>kernel/memory.c\<close>: the kernel's allocator over the memory between the end of the kernel
  image and \<^verbatim>\<open>MEMORY_END\<close>, with panics, and zeroed page frames named by physical page number.
  The static \<^verbatim>\<open>allocator\<close> is the \<^verbatim>\<open>struct Buddy\<close> of the state; the linker's symbol \<open>ekernel\<close>
  is a parameter. \<^verbatim>\<open>init_memory\<close> is in \<^verbatim>\<open>Boot\<close>.
\<close>

definition init_allocator :: "addr \<Rightarrow> bstate \<Rightarrow> bstate outcome" where
  "init_allocator ekernel s =
     (let (m, b) = s in add_to_buddy (m, init_buddy b) ekernel (va_of MEMORY_END))"

definition alloc :: "bstate \<Rightarrow> usize \<Rightarrow> (addr \<times> bstate) outcome" where
  "alloc s sz =
     bindE (buddy_alloc s sz) (\<lambda>(block, s').
     if block = 0 then Inl (Panic ''Not enough memory!'') else Inr (block, s'))"

definition dealloc :: "bstate \<Rightarrow> addr \<Rightarrow> usize \<Rightarrow> bstate outcome" where
  "dealloc s block sz = buddy_dealloc s block sz"

text \<open>The loop that clears a page, byte by byte.\<close>

definition clear_bytes :: "nat \<Rightarrow> mem \<Rightarrow> addr \<Rightarrow> mem" where
  "clear_bytes n m page = fold (\<lambda>i m. m(page + of_nat i := 0)) [0..<n] m"

definition alloc_frame :: "bstate \<Rightarrow> (usize \<times> bstate) outcome" where
  "alloc_frame s =
     bindE (alloc s PAGE_SIZE) (\<lambda>(page, (m, b)).
     Inr (drop_bit 12 (pa_of page), (clear_bytes 4096 m page, b)))"

definition dealloc_frame :: "bstate \<Rightarrow> usize \<Rightarrow> bstate outcome" where
  "dealloc_frame s ppn = dealloc s (va_of (push_bit 12 ppn)) PAGE_SIZE"

section \<open>Facts\<close>

lemma clear_bytes_apply:
  "n \<le> 2 ^ 64 \<Longrightarrow> clear_bytes n m page x = (if x \<in> bytes_at page n then 0 else m x)"
proof (induction n)
  case 0
  then show ?case by (simp add: clear_bytes_def bytes_at_def)
next
  case (Suc n)
  have "x = page + of_nat n \<longleftrightarrow> unat (x - page) = n"
  proof
    assume "x = page + of_nat n"
    then show "unat (x - page) = n" using Suc.prems unat_offset [of n "Suc n" page] by simp
  next
    assume "unat (x - page) = n"
    then have "of_nat n = x - page" by (metis word_unat_eq_iff of_nat_inverse unsigned_less)
    then show "x = page + of_nat n" by simp
  qed
  with Suc show ?case
    by (auto simp: clear_bytes_def bytes_at_def less_Suc_eq)
qed

lemma size_order_page [simp]: "size_order PAGE_SIZE = 12"
proof -
  have "req_order 4096 = 12"
  proof (rule antisym)
    show "req_order 4096 \<le> 12" by (rule req_order_least) simp_all
    have "(2::nat) ^ 11 < 2 ^ req_order 4096"
      using req_order_props [of 4096] by simp
    then have "11 < req_order 4096" by (simp only: power_strict_increasing_iff)
    then show "12 \<le> req_order 4096" by simp
  qed
  then show ?thesis by (simp add: size_order_req PAGE_SIZE_def)
qed

lemma alloc_spec:
  assumes "buddy_inv R s F"
  shows "case alloc s sz of
      Inr (a, s') \<Rightarrow> aligned (size_order sz) a \<and> a \<noteq> 0 \<and> blk (size_order sz) a \<subseteq> F \<and>
        buddy_inv R s' (F - blk (size_order sz) a) \<and> same_outside F (fst s) (fst s')
    | Inl e \<Rightarrow> e = Panic ''Not enough memory!'' \<and> (\<forall>b. \<not> blk (size_order sz) b \<subseteq> F)"
proof -
  obtain a s' where "buddy_alloc s sz = Inr (a, s')"
    using buddy.alloc_returns [OF assms] by blast
  with buddy.alloc_block [OF assms this] buddy.alloc_null [OF assms, of sz s'] show ?thesis
    by (auto simp: alloc_def)
qed

lemma buddy_inv_same_free:
  "buddy_inv R (m, b) F \<Longrightarrow> same_outside (- F) m m' \<Longrightarrow> buddy_inv R (m', b) F"
proof -
  assume inv: "buddy_inv R (m, b) F" and same: "same_outside (- F) m m'"
  obtain fs where fs: "reps (m, b) fs" "wf_lists fs" "coalesced fs" "free_set fs = F"
    using inv by (auto simp: buddy_inv_def)
  have "chain m' p (fs k) = chain m p (fs k)" if k: "k < MAX_ORDER" for p k
  proof (rule chain_frame [OF same], intro ballI conjI)
    fix a assume a: "a \<in> set (fs k)"
    then show "aligned 3 a" using wf_listsD(4) [OF fs(2) k] by simp
    show "blk 3 a \<inter> - F = {}" using free_list_blk3 [OF fs(2) k] a fs(4) by blast
  qed
  with fs have "reps (m', b) fs" by (simp add: reps_def)
  with inv fs show ?thesis by (auto simp: buddy_inv_def)
qed

lemma alloc_frame_spec:
  assumes "buddy_inv R s F"
  shows "case alloc_frame s of
      Inr (ppn, s') \<Rightarrow> page_va ppn \<noteq> 0 \<and> blk 12 (page_va ppn) \<subseteq> F \<and>
        buddy_inv R s' (F - blk 12 (page_va ppn)) \<and>
        (\<forall>x \<in> blk 12 (page_va ppn). fst s' x = 0) \<and> same_outside F (fst s) (fst s')
    | Inl e \<Rightarrow> e = Panic ''Not enough memory!'' \<and> (\<forall>b. \<not> blk 12 b \<subseteq> F)"
proof (cases "alloc s PAGE_SIZE")
  case (Inl e)
  then show ?thesis using alloc_spec [OF assms, of PAGE_SIZE] by (simp add: alloc_frame_def)
next
  case (Inr r)
  then obtain page m b where r: "alloc s PAGE_SIZE = Inr (page, m, b)" by (cases r) auto
  then have al: "aligned 12 page" "page \<noteq> 0" "blk 12 page \<subseteq> F"
    "buddy_inv R (m, b) (F - blk 12 page)" "same_outside F (fst s) m"
    using alloc_spec [OF assms, of PAGE_SIZE] by auto
  have pg: "page_va (drop_bit 12 (pa_of page)) = page" by (rule page_va_pa [OF al(1)])
  have clr: "clear_bytes 4096 m page x = (if x \<in> blk 12 page then 0 else m x)" for x
    using clear_bytes_apply [of 4096 m page x] bytes_at_blk [OF al(1)] by simp
  have "buddy_inv R (clear_bytes 4096 m page, b) (F - blk 12 page)"
    by (rule buddy_inv_same_free [OF al(4)]) (auto simp: same_outside_def clr)
  moreover have "same_outside F (fst s) (clear_bytes 4096 m page)"
    using al(3,5) by (auto simp: same_outside_def clr)
  ultimately show ?thesis using al pg by (simp add: alloc_frame_def r clr)
qed

lemma dealloc_frame_spec:
  assumes "buddy_inv R s F" and "page_va ppn \<noteq> 0" and "blk 12 (page_va ppn) \<subseteq> R - F"
  shows "\<exists>s'. dealloc_frame s ppn = Inr s' \<and> buddy_inv R s' (F \<union> blk 12 (page_va ppn)) \<and>
    same_outside (F \<union> blk 12 (page_va ppn)) (fst s) (fst s')"
  using buddy.dealloc_block [OF assms(1), of PAGE_SIZE "page_va ppn"] assms
  by (simp add: dealloc_frame_def dealloc_def)

section \<open>The contract of page frames\<close>

locale frame_allocator =
  fixes alloc_op :: "'s \<Rightarrow> (usize \<times> 's) outcome"
    and dealloc_op :: "'s \<Rightarrow> usize \<Rightarrow> 's outcome"
    and memory :: "'s \<Rightarrow> mem"
    and inv :: "'s \<Rightarrow> addr set \<Rightarrow> bool"
    and region :: "addr set"
  assumes frame_region: "inv s F \<Longrightarrow> F \<subseteq> region"
    and frame_fresh: "inv s F \<Longrightarrow> alloc_op s = Inr (p, s') \<Longrightarrow>
      page_va p \<noteq> 0 \<and> blk 12 (page_va p) \<subseteq> F \<and> inv s' (F - blk 12 (page_va p)) \<and>
      (\<forall>x \<in> blk 12 (page_va p). memory s' x = 0) \<and> same_outside F (memory s) (memory s')"
    and frame_available: "inv s F \<Longrightarrow> blk 12 b \<subseteq> F \<Longrightarrow> \<exists>p s'. alloc_op s = Inr (p, s')"
    and frame_freed: "inv s F \<Longrightarrow> page_va p \<noteq> 0 \<Longrightarrow> blk 12 (page_va p) \<subseteq> region - F \<Longrightarrow>
      \<exists>s'. dealloc_op s p = Inr s' \<and> inv s' (F \<union> blk 12 (page_va p)) \<and>
        same_outside (F \<union> blk 12 (page_va p)) (memory s) (memory s')"
begin

lemma frame_roundtrip:
  assumes "inv s F" and "alloc_op s = Inr (p, s')"
  shows "\<exists>s''. dealloc_op s' p = Inr s'' \<and> inv s'' F \<and> same_outside F (memory s) (memory s'')"
proof -
  let ?P = "blk 12 (page_va p)"
  note al = frame_fresh [OF assms]
  then have "?P \<subseteq> region - (F - ?P)" using frame_region [OF assms(1)] by blast
  then obtain s'' where s'': "dealloc_op s' p = Inr s''" "inv s'' (F - ?P \<union> ?P)"
    "same_outside (F - ?P \<union> ?P) (memory s') (memory s'')"
    using frame_freed [of s' "F - ?P" p] al by blast
  have "F - ?P \<union> ?P = F" using al by blast
  with s'' al show ?thesis by (metis same_outside_trans)
qed

lemma frame_twice:
  assumes "inv s F" and "alloc_op s = Inr (p, s1)" and "alloc_op s1 = Inr (q, s2)"
  shows "blk 12 (page_va p) \<inter> blk 12 (page_va q) = {}"
    and "\<forall>x \<in> blk 12 (page_va p) \<union> blk 12 (page_va q). memory s2 x = 0"
proof -
  note al = frame_fresh [OF assms(1,2)]
  note al' = frame_fresh [OF conjunct1 [OF conjunct2 [OF conjunct2 [OF al]]] assms(3)]
  show "blk 12 (page_va p) \<inter> blk 12 (page_va q) = {}" using al' by blast
  show "\<forall>x \<in> blk 12 (page_va p) \<union> blk 12 (page_va q). memory s2 x = 0"
    using al al' by (auto simp: same_outside_def)
qed

end

interpretation frames: frame_allocator alloc_frame dealloc_frame fst "buddy_inv R" R for R
proof unfold_locales
  fix s F p s' b
  assume inv: "buddy_inv R s F"
  show "F \<subseteq> R" by (rule buddy.inv_region [OF inv])
  show "page_va p \<noteq> 0 \<and> blk 12 (page_va p) \<subseteq> F \<and> buddy_inv R s' (F - blk 12 (page_va p)) \<and>
      (\<forall>x \<in> blk 12 (page_va p). fst s' x = 0) \<and> same_outside F (fst s) (fst s')"
    if "alloc_frame s = Inr (p, s')"
    using alloc_frame_spec [OF inv] that by simp
  show "\<exists>p s'. alloc_frame s = Inr (p, s')" if "blk 12 b \<subseteq> F"
    using alloc_frame_spec [OF inv] that by (cases "alloc_frame s") auto
  show "\<exists>s'. dealloc_frame s p = Inr s' \<and> buddy_inv R s' (F \<union> blk 12 (page_va p)) \<and>
      same_outside (F \<union> blk 12 (page_va p)) (fst s) (fst s')"
    if "page_va p \<noteq> 0" "blk 12 (page_va p) \<subseteq> R - F"
    by (rule dealloc_frame_spec [OF inv that])
qed

end
