(* ===== verification/Memory_Properties.thy ===== *)
theory Memory_Properties
  imports Kmem
begin

text \<open>
  The properties of the memory manager: \<^verbatim>\<open>kernel/buddy_system_allocator.c\<close> and
  \<^verbatim>\<open>kernel/memory.c\<close>, each with an instance on a small heap of four pages at the end of the
  memory.
\<close>

section \<open>A small heap\<close>

definition heap_start :: addr where
  "heap_start = 0xffffffff87ffc000"

definition heap_end :: addr where
  "heap_end = 0xffffffff88000000"

definition small_heap :: bstate where
  "small_heap = projr (init_allocator heap_start (\<lambda>_. 0, \<lparr>free_list = [], total = 7, allocated = 7\<rparr>))"

abbreviation heap :: "addr set" where
  "heap \<equiv> {heap_start..<heap_end}"

lemma heap_bounds:
  "heap_start \<le> heap_end" "heap_start \<noteq> 0" "unat heap_end - unat heap_start < 2 ^ MAX_ORDER"
  "aligned 3 heap_start" "aligned 3 heap_end" "va_of MEMORY_END = heap_end"
  by (simp_all add: heap_start_def heap_end_def MAX_ORDER_def va_of_def MEMORY_END_def
      KERNEL_MAP_OFFSET_def aligned_nat_dvd)

lemma small_heap_inv: "buddy_inv heap small_heap heap"
  using init_region_spec [OF heap_bounds(1-5), of "\<lambda>_. 0" "\<lparr>free_list = [], total = 7, allocated = 7\<rparr>"]
  by (auto simp: small_heap_def init_allocator_def heap_bounds(6))

lemma heap_page: "blk 12 (heap_start + 0x1000) \<subseteq> heap" "aligned 12 (heap_start + 0x1000)"
proof -
  show al: "aligned 12 (heap_start + 0x1000)" by (simp add: heap_start_def aligned_nat_dvd)
  show "blk 12 (heap_start + 0x1000) \<subseteq> heap"
    using blk_interval(1) [OF al, of heap_end] by (auto simp: heap_start_def heap_end_def)
qed

text \<open>The block the small heap hands out for a page, and the heap that is left.\<close>

lemma small_heap_page:
  "\<exists>a s. alloc small_heap PAGE_SIZE = Inr (a, s) \<and> aligned 12 a \<and> a \<noteq> 0 \<and> blk 12 a \<subseteq> heap \<and>
     buddy_inv heap s (heap - blk 12 a)"
  using alloc_spec [OF small_heap_inv, of PAGE_SIZE] heap_page
  by (cases "alloc small_heap PAGE_SIZE") auto

section \<open>Allocation\<close>

text \<open>
  C8: \<^verbatim>\<open>alloc\<close> returns, and either yields a block that is large enough for the request,
  aligned to its rounded size and free before, writing only to free memory and leaving a
  well-formed heap without the block, or panics, and then no aligned block of that size is
  free. The panic is never spurious: fragmentation cannot hide a free block.
\<close>

theorem alloc_correct:
  assumes "buddy_inv R s F" and "0 < unat sz" and "unat sz \<le> 2 ^ 63"
  shows "case alloc s sz of
      Inr (a, s') \<Rightarrow> a \<noteq> 0 \<and> aligned (req_order (unat sz)) a \<and>
        unat sz \<le> 2 ^ req_order (unat sz) \<and> blk (req_order (unat sz)) a \<subseteq> F \<and>
        buddy_inv R s' (F - blk (req_order (unat sz)) a) \<and> same_outside F (fst s) (fst s')
    | Inl e \<Rightarrow> e = Panic ''Not enough memory!'' \<and> (\<forall>b. \<not> blk (req_order (unat sz)) b \<subseteq> F)"
  using alloc_spec [OF assms(1), of sz] size_order_req [OF assms(2,3)] req_order_props [of "unat sz"]
  by (auto split: sum.splits)

theorem alloc_correct_witness:
  "case alloc small_heap 4096 of
      Inr (a, s') \<Rightarrow> a \<noteq> 0 \<and> aligned (req_order 4096) a \<and>
        4096 \<le> (2::nat) ^ req_order 4096 \<and> blk (req_order 4096) a \<subseteq> heap \<and>
        buddy_inv heap s' (heap - blk (req_order 4096) a) \<and> same_outside heap (fst small_heap) (fst s')
    | Inl e \<Rightarrow> e = Panic ''Not enough memory!'' \<and> (\<forall>b. \<not> blk (req_order 4096) b \<subseteq> heap)"
  using alloc_correct [OF small_heap_inv, of 4096] by (auto split: sum.splits)

text \<open>
  C9: \<^verbatim>\<open>dealloc\<close> of an allocated block always returns, puts exactly the block back into the
  free memory, keeps the heap well formed (aligned, disjoint, fully merged blocks, counters in
  step) and writes only to free memory and the block itself.
\<close>

theorem dealloc_correct:
  assumes "buddy_inv R s F" and "aligned (size_order sz) a" and "a \<noteq> 0"
    and "blk (size_order sz) a \<subseteq> R - F"
  shows "\<exists>s'. dealloc s a sz = Inr s' \<and> buddy_inv R s' (F \<union> blk (size_order sz) a) \<and>
    same_outside (F \<union> blk (size_order sz) a) (fst s) (fst s') \<and>
    allocated (snd s') = allocated (snd s) - adjust_size sz"
  using buddy_dealloc_spec [OF assms] by (simp add: dealloc_def)

theorem dealloc_correct_witness:
  "\<exists>a s s'. alloc small_heap PAGE_SIZE = Inr (a, s) \<and> dealloc s a PAGE_SIZE = Inr s' \<and>
     buddy_inv heap s' heap"
proof -
  obtain a s where s: "alloc small_heap PAGE_SIZE = Inr (a, s)" "aligned 12 a" "a \<noteq> 0"
    "blk 12 a \<subseteq> heap" "buddy_inv heap s (heap - blk 12 a)"
    using small_heap_page by blast
  have "blk (size_order PAGE_SIZE) a \<subseteq> heap - (heap - blk 12 a)" using s(4) by auto
  from dealloc_correct [OF s(5) _ s(3) this] s(2)
  obtain s' where "dealloc s a PAGE_SIZE = Inr s'" "buddy_inv heap s' (heap - blk 12 a \<union> blk 12 a)"
    by fastforce
  moreover have "heap - blk 12 a \<union> blk 12 a = heap" using s(4) by blast
  ultimately show ?thesis using s(1) by metis
qed

text \<open>
  C33: freeing what was just allocated gives the heap back: the same memory is free, every one
  of the thirty free lists holds the same blocks as before, and no byte outside the free memory
  has changed. Splitting and merging are inverse.
\<close>

theorem alloc_dealloc_roundtrip:
  assumes "buddy_inv R s F" and "alloc s sz = Inr (a, s')"
  shows "\<exists>s'' fs fs''. dealloc s' a sz = Inr s'' \<and> buddy_inv R s'' F \<and>
    reps s fs \<and> reps s'' fs'' \<and> entries fs'' = entries fs \<and> same_outside F (fst s) (fst s'')"
proof -
  have al: "buddy_alloc s sz = Inr (a, s')" "a \<noteq> 0"
    using assms(2) by (auto simp: alloc_def bindE_Inr_iff split: if_splits)
  obtain s'' where s'': "buddy_dealloc s' a sz = Inr s''" "buddy_inv R s'' F"
    "same_outside F (fst s) (fst s'')"
    using buddy.alloc_then_dealloc [OF assms(1) al] by blast
  obtain fs where fs: "reps s fs" "wf_lists fs" "coalesced fs" "free_set fs = F"
    using assms(1) by (auto simp: buddy_inv_def)
  obtain fs'' where fs'': "reps s'' fs''" "wf_lists fs''" "coalesced fs''" "free_set fs'' = F"
    using s''(2) by (auto simp: buddy_inv_def)
  have "entries fs'' = entries fs"
    using entries_max_blocks fs fs'' by simp
  with s'' fs(1) fs''(1) show ?thesis unfolding dealloc_def by blast
qed

theorem alloc_dealloc_roundtrip_witness:
  "\<exists>a s s'' fs fs''. alloc small_heap PAGE_SIZE = Inr (a, s) \<and> dealloc s a PAGE_SIZE = Inr s'' \<and>
     reps small_heap fs \<and> reps s'' fs'' \<and> entries fs'' = entries fs"
  using small_heap_page alloc_dealloc_roundtrip [OF small_heap_inv] by fastforce

text \<open>
  C16: two blocks that are allocated one after the other never overlap, and allocating the
  second changes no byte of the first.
\<close>

theorem live_blocks_disjoint:
  assumes "buddy_inv R s F" and "alloc s sz = Inr (a, s1)" and "alloc s1 sz' = Inr (b, s2)"
  shows "blk (size_order sz) a \<inter> blk (size_order sz') b = {} \<and>
    (\<forall>x \<in> blk (size_order sz) a. fst s2 x = fst s1 x)"
  using buddy.alloc_twice_disjoint [OF assms(1)] assms(2,3)
  by (auto simp: alloc_def bindE_Inr_iff split: if_splits)

text \<open>The heap that is left after one page still holds a page.\<close>

lemma small_heap_two_pages:
  "\<exists>a s b s'. alloc small_heap PAGE_SIZE = Inr (a, s) \<and> alloc s PAGE_SIZE = Inr (b, s')"
proof -
  obtain a s where s: "alloc small_heap PAGE_SIZE = Inr (a, s)" "aligned 12 a" "a \<noteq> 0"
    "blk 12 a \<subseteq> heap" "buddy_inv heap s (heap - blk 12 a)"
    using small_heap_page by blast
  have "\<exists>p. aligned 12 p \<and> p \<noteq> a \<and> blk 12 p \<subseteq> heap"
  proof (cases "a = heap_start + 0x1000")
    case True
    have al: "aligned 12 (heap_start + 0x2000)" by (simp add: heap_start_def aligned_nat_dvd)
    have "blk 12 (heap_start + 0x2000) \<subseteq> heap"
      using blk_interval(1) [OF al, of heap_end] by (auto simp: heap_start_def heap_end_def)
    with al True show ?thesis by (intro exI [of _ "heap_start + 0x2000"]) (simp add: heap_start_def)
  qed (use heap_page in blast)
  then obtain p where "blk 12 p \<subseteq> heap - blk 12 a"
    using aligned_blk_disjoint [OF _ s(2)] by blast
  then have "\<exists>b s'. alloc s PAGE_SIZE = Inr (b, s')"
    using alloc_spec [OF s(5), of PAGE_SIZE] by (cases "alloc s PAGE_SIZE") auto
  with s(1) show ?thesis by blast
qed

theorem live_blocks_disjoint_witness:
  "\<exists>a s b s'. alloc small_heap PAGE_SIZE = Inr (a, s) \<and> alloc s PAGE_SIZE = Inr (b, s') \<and>
     blk 12 a \<inter> blk 12 b = {}"
  using small_heap_two_pages live_blocks_disjoint [OF small_heap_inv, of PAGE_SIZE _ _ PAGE_SIZE]
  by fastforce

text \<open>
  In a well-formed heap the free list of each order holds, once each, exactly the aligned
  blocks of that order that are free and whose enclosing block is not: the lists are the
  unique maximal decomposition of the free memory.
\<close>

theorem free_lists_maximal:
  assumes "buddy_inv R s F" and "k < MAX_ORDER"
  shows "\<exists>xs. chain (fst s) (free_list (snd s) ! k) xs \<and> distinct xs \<and>
    set xs = {a. (k, a) \<in> max_blocks F}"
proof -
  obtain fs where fs: "reps s fs" "wf_lists fs" "coalesced fs" "free_set fs = F"
    using assms(1) by (auto simp: buddy_inv_def)
  have "set (fs k) = {a. (k, a) \<in> entries fs}" using assms(2) by (simp add: entries_def)
  with fs entries_max_blocks [OF fs(2,3)] assms(2) show ?thesis
    by (intro exI [of _ "fs k"]) (auto simp: reps_def wf_lists_def)
qed

theorem free_lists_maximal_witness:
  "\<exists>xs. chain (fst small_heap) (free_list (snd small_heap) ! 12) xs \<and> distinct xs \<and>
    set xs = {a. (12, a) \<in> max_blocks heap}"
  using free_lists_maximal [OF small_heap_inv, of 12] by (simp add: MAX_ORDER_def)

section \<open>Building the heap\<close>

text \<open>
  C36: \<^verbatim>\<open>init_allocator\<close> terminates for every region below one GiB between 8-byte aligned ends
  and makes the whole region, and nothing else, free: the greedy decomposition loses no byte
  and produces no two buddies that should have been one block.
\<close>

theorem init_allocator_correct:
  assumes "ekernel \<le> va_of MEMORY_END" and "ekernel \<noteq> 0"
    and "unat (va_of MEMORY_END) - unat ekernel < 2 ^ MAX_ORDER" and "aligned 3 ekernel"
  shows "\<exists>s'. init_allocator ekernel s = Inr s' \<and>
    buddy_inv {ekernel..<va_of MEMORY_END} s' {ekernel..<va_of MEMORY_END} \<and>
    total (snd s') = va_of MEMORY_END - ekernel \<and> allocated (snd s') = 0 \<and>
    same_outside {ekernel..<va_of MEMORY_END} (fst s) (fst s')"
  using init_region_spec [OF assms, of "fst s" "snd s"] heap_bounds(5,6)
  by (simp add: init_allocator_def split_beta)

theorem init_allocator_correct_witness:
  "\<exists>s'. init_allocator 0xffffffff80227008 (\<lambda>_. 255, \<lparr>free_list = [], total = 0, allocated = 0\<rparr>) = Inr s' \<and>
    total (snd s') = 0x7dd8ff8"
  using init_allocator_correct [of "0xffffffff80227008" "(\<lambda>_. 255, \<lparr>free_list = [], total = 0, allocated = 0\<rparr>)"]
  by (auto simp: va_of_def MEMORY_END_def KERNEL_MAP_OFFSET_def MAX_ORDER_def aligned_nat_dvd)

section \<open>Sizes\<close>

text \<open>
  \<^verbatim>\<open>next_power_of_two\<close> rounds every size from 1 to \<open>2 ^ 63\<close> up to the least power of two
  that is not smaller.
\<close>

theorem next_power_of_two_least:
  assumes "0 < unat sz" and "unat sz \<le> 2 ^ 63"
  shows "\<exists>k < 64. next_power_of_two sz = 2 ^ k \<and> unat sz \<le> 2 ^ k \<and> (\<forall>j. unat sz \<le> 2 ^ j \<longrightarrow> k \<le> j)"
proof -
  have le_iff: "blen (sz - 1) \<le> k \<longleftrightarrow> unat sz \<le> 2 ^ k" for k
    using assms(1) by (auto simp: blen_le_iff unat_pred)
  have "blen (sz - 1) < 64" using le_iff [of 63] assms(2) by simp
  with le_iff show ?thesis
    by (intro exI [of _ "blen (sz - 1)"]) (auto simp: next_power_of_two_blen)
qed

theorem next_power_of_two_least_witness:
  "\<exists>k < 64. next_power_of_two 100 = 2 ^ k \<and> (100 :: nat) \<le> 2 ^ k \<and> (\<forall>j. (100 :: nat) \<le> 2 ^ j \<longrightarrow> k \<le> j)"
  using next_power_of_two_least [of 100] by simp

text \<open>
  \<^verbatim>\<open>get_order\<close> is the base-2 logarithm rounded down, and \<^verbatim>\<open>prev_power_of_two\<close> the power of
  two at that exponent, the greatest that is not larger than its argument.
\<close>

theorem prev_power_of_two_greatest:
  assumes "0 < unat sz" and "unat sz \<le> 2 ^ 63"
  shows "prev_power_of_two sz = 2 ^ get_order sz \<and> 2 ^ get_order sz \<le> unat sz \<and>
    unat sz < 2 ^ Suc (get_order sz)"
  using prev_power_of_two_pow2 [OF assms] get_order_bounds [of sz] assms(1)
  by (simp add: word_less_nat_alt)

theorem prev_power_of_two_greatest_witness:
  "prev_power_of_two 100 = 2 ^ get_order 100 \<and> 2 ^ get_order 100 \<le> (100 :: nat) \<and>
    (100 :: nat) < 2 ^ Suc (get_order 100)"
  using prev_power_of_two_greatest [of 100] by simp

text \<open>
  C40: a request of zero bytes, or of more than \<open>2 ^ 63\<close>, is not refused: the rounding wraps to
  zero and the allocator treats it as a request for eight bytes, so \<^verbatim>\<open>alloc\<close> of any such size
  has the result and the effect of \<^verbatim>\<open>alloc(8)\<close>.
\<close>

theorem oversized_alloc:
  assumes "sz = 0 \<or> 2 ^ 63 < unat sz"
  shows "alloc s sz = alloc s 8"
proof -
  have "\<not> blen (sz - 1) < 64"
  proof (cases "sz = 0")
    case True
    moreover have "unat (- 1 :: u64) = 2 ^ 64 - 1" by (simp only: unsigned_minus_1_eq_mask mask_eq_exp_minus_1) simp
    ultimately show ?thesis using less_blen [of 63 "-1"] by simp
  next
    case False
    then have "2 ^ 63 \<le> unat (sz - 1)" using assms False by (auto simp: unat_pred unat_gt_0)
    then show ?thesis using less_blen [of 63 "sz - 1"] by simp
  qed
  moreover have "adjust_size 8 = 8" by (simp add: adjust_size_def next_power_of_two_def max_def)
  ultimately have "adjust_size sz = adjust_size 8" by (simp add: adjust_size_blen)
  then show ?thesis by (simp add: alloc_def buddy_alloc_def)
qed

theorem oversized_alloc_witness:
  "alloc small_heap 0x8000000000000001 = alloc small_heap 8"
  by (rule oversized_alloc) simp

section \<open>Refinement\<close>

text \<open>
  C21: the allocator on memory implements the allocator on lists: \<^verbatim>\<open>buddy_alloc\<close> returns what
  \<open>lalloc\<close> computes from the represented lists and its heap represents the resulting lists.
\<close>

theorem buddy_alloc_refinement:
  assumes "reps s fs" and "wf_lists fs"
  shows "case lalloc fs (size_order sz) of
      None \<Rightarrow> buddy_alloc s sz = Inr (0, s)
    | Some (a, fs') \<Rightarrow> \<exists>s'. buddy_alloc s sz = Inr (a, s') \<and> reps s' fs' \<and> wf_lists fs' \<and>
        same_outside (free_set fs) (fst s) (fst s')"
proof (cases "lalloc fs (size_order sz)")
  case None
  then show ?thesis using buddy_alloc_refines [OF assms, of sz] by auto
next
  case (Some p)
  obtain a fs' where p: "p = (a, fs')" by (cases p)
  have "wf_lists fs'" using lalloc_Some(1) [OF assms(2) size_order_ge3] Some p by blast
  then show ?thesis using buddy_alloc_refines [OF assms, of sz] Some p by auto
qed

theorem buddy_alloc_refinement_witness:
  "\<exists>fs. reps small_heap fs \<and> (case lalloc fs (size_order 8) of
      None \<Rightarrow> buddy_alloc small_heap 8 = Inr (0, small_heap)
    | Some (a, fs') \<Rightarrow> \<exists>s'. buddy_alloc small_heap 8 = Inr (a, s') \<and> reps s' fs' \<and> wf_lists fs' \<and>
        same_outside (free_set fs) (fst small_heap) (fst s'))"
proof -
  obtain fs where fs: "reps small_heap fs" "wf_lists fs"
    using small_heap_inv by (auto simp: buddy_inv_def)
  with buddy_alloc_refinement [OF fs, of 8] show ?thesis by blast
qed

section \<open>Page frames\<close>

text \<open>
  \<^verbatim>\<open>alloc_frame\<close> yields the number of a page that was free, every byte of which is now
  zero, and \<^verbatim>\<open>dealloc_frame\<close> of that number takes the heap back to the free memory it had.
\<close>

theorem frame_correct:
  assumes "buddy_inv R s F" and "alloc_frame s = Inr (ppn, s')"
  shows "blk 12 (page_va ppn) \<subseteq> F \<and> (\<forall>x \<in> blk 12 (page_va ppn). fst s' x = 0) \<and>
    buddy_inv R s' (F - blk 12 (page_va ppn)) \<and> same_outside F (fst s) (fst s') \<and>
    (\<exists>s''. dealloc_frame s' ppn = Inr s'' \<and> buddy_inv R s'' F)"
  using frames.frame_fresh [OF assms] frames.frame_roundtrip [OF assms] by blast

theorem frame_correct_witness:
  "\<exists>ppn s' s''. alloc_frame small_heap = Inr (ppn, s') \<and> dealloc_frame s' ppn = Inr s'' \<and>
     buddy_inv heap s'' heap"
  using frames.frame_available [OF small_heap_inv heap_page(1)] frame_correct [OF small_heap_inv]
  by blast

end
