(* ===== verification/Page_Table.thy ===== *)
theory Page_Table
  imports Kmem
begin

text \<open>
  The page-table walk of \<^verbatim>\<open>kernel/mapping.c\<close> over byte-addressed memory: \<^verbatim>\<open>find_entry\<close> descends
  two levels and returns the address of the entry of a virtual page, building the missing
  tables on the way. A tree of table pages (a map from paths of indices to page numbers) says
  what the tables mean: to each virtual page number the value of its entry.
\<close>

section \<open>The walk\<close>

definition get_vpn_levels :: "u64 \<Rightarrow> u64 list" where
  "get_vpn_levels vpn =
     [vpn AND 0x1ff, drop_bit 9 vpn AND 0x1ff, drop_bit 18 vpn AND 0x1ff]"

text \<open>The address of entry \<open>i\<close> of the table in a page.\<close>

definition entry_addr :: "addr \<Rightarrow> u64 \<Rightarrow> addr" where
  "entry_addr table i = table + 8 * i"

text \<open>The loop over the two upper levels, with the indices of the levels below still to visit.\<close>

fun walk :: "bstate \<Rightarrow> addr \<Rightarrow> u64 list \<Rightarrow> bool \<Rightarrow> (addr \<times> bstate) outcome" where
  "walk s pte [] flag = Inr (pte, s)"
| "walk s pte (l # ls) flag =
     (if load64 (fst s) pte = 0 then
        if flag then
          bindE (alloc_frame s) (\<lambda>(new_ppn, m, b).
            let m' = store64 m pte (PPN2PTE new_ppn PAGE_VALID)
            in walk (m', b) (entry_addr (va_of (PTE2PA (load64 m' pte))) l) ls flag)
        else Inr (0, s)
      else walk s (entry_addr (va_of (PTE2PA (load64 (fst s) pte))) l) ls flag)"

declare walk.simps(2) [simp del]

definition find_entry :: "bstate \<Rightarrow> usize \<Rightarrow> usize \<Rightarrow> bool \<Rightarrow> (addr \<times> bstate) outcome" where
  "find_entry s root_ppn vpn flag =
     (let levels = get_vpn_levels vpn
      in walk s (entry_addr (page_va root_ppn) (levels ! 2)) [levels ! 1, levels ! 0] flag)"

section \<open>Trees of tables\<close>

type_synonym tree = "u64 list \<Rightarrow> u64 option"

definition pte_of :: "u64 option \<Rightarrow> u64" where
  "pte_of t = (case t of None \<Rightarrow> 0 | Some ppn \<Rightarrow> PPN2PTE ppn PAGE_VALID)"

definition page_set :: "u64 set \<Rightarrow> addr set" where
  "page_set P = (\<Union>p \<in> P. blk 12 (page_va p))"

definition tree_ok :: "mem \<Rightarrow> tree \<Rightarrow> bool" where
  "tree_ok m tab \<longleftrightarrow>
     (\<forall>p q. tab p = Some q \<longrightarrow> length p \<le> 2 \<and> q < 2 ^ 44) \<and>
     (\<forall>p i. tab (p @ [i]) \<noteq> None \<longrightarrow> tab p \<noteq> None \<and> i < 512) \<and>
     inj_on tab (dom tab) \<and>
     (\<forall>p q i. tab p = Some q \<longrightarrow> length p < 2 \<longrightarrow> i < 512 \<longrightarrow>
        load64 m (entry_addr (page_va q) i) = pte_of (tab (p @ [i])))"

definition levels_path :: "u64 \<Rightarrow> u64 list" where
  "levels_path vpn = [get_vpn_levels vpn ! 2, get_vpn_levels vpn ! 1]"

text \<open>The entry of a virtual page number, 0 where a table is missing.\<close>

definition leaf :: "mem \<Rightarrow> tree \<Rightarrow> u64 \<Rightarrow> u64" where
  "leaf m tab vpn =
     (case tab (levels_path vpn) of
        None \<Rightarrow> 0
      | Some q \<Rightarrow> load64 m (entry_addr (page_va q) (get_vpn_levels vpn ! 0)))"

text \<open>Memory without the null address whose pages have page numbers that fit into an entry.\<close>

definition in_window :: "addr set \<Rightarrow> bool" where
  "in_window R \<longleftrightarrow> (\<forall>a \<in> R. a \<noteq> 0 \<and> pa_of a < 2 ^ 56)"

section \<open>Addresses of entries\<close>

lemma level_less: "i < 3 \<Longrightarrow> get_vpn_levels vpn ! i < 512"
proof -
  assume i: "i < 3"
  have "w AND 0x1ff < (512 :: u64)" for w
  proof -
    have "w AND 0x1ff = take_bit 9 w" by (simp add: take_bit_eq_mask mask_eq_exp_minus_1)
    moreover have "uint (take_bit 9 w) < 512"
      using take_bit_int_less_exp [of 9 "uint w"] by (simp add: unsigned_take_bit_eq)
    ultimately show ?thesis by (simp add: word_less_def)
  qed
  with i show ?thesis by (simp add: get_vpn_levels_def nth_Cons' )
qed

lemma length_levels_path [simp]: "length (levels_path vpn) = 2"
  by (simp add: levels_path_def)

lemma entry_addr_blk:
  assumes "aligned 12 t" and "i < 512"
  shows "entry_addr t i \<in> blk 12 t" and "aligned 3 (entry_addr t i)"
    and "blk 3 (entry_addr t i) \<subseteq> blk 12 t"
proof -
  have i: "unat i < 512" using assms(2) by (simp add: word_less_nat_alt)
  then have "unat (8 * i) = 8 * unat i" by (simp add: unat_word_ariths)
  with i have "unat (8 * i) < 2 ^ 12" by simp
  then have "entry_addr t i \<in> bytes_at t (2 ^ 12)"
    by (simp add: bytes_at_def entry_addr_def)
  then show e: "entry_addr t i \<in> blk 12 t" by (simp only: bytes_at_blk [OF assms(1)])
  have "aligned 3 (8 * i)" by (auto simp: aligned_iff_ex)
  then show "aligned 3 (entry_addr t i)"
    unfolding entry_addr_def by (intro aligned_add aligned_mono [OF assms(1)]) simp_all
  show "blk 3 (entry_addr t i) \<subseteq> blk 12 t"
    using blk_mono [of 3 12 "entry_addr t i"] blk_eq [OF e] by simp
qed

lemma entry_addr_inj: "i < 512 \<Longrightarrow> j < 512 \<Longrightarrow> entry_addr t i = entry_addr t j \<longleftrightarrow> i = j"
proof -
  assume ij: "i < 512" "j < 512"
  have "8 * i = 8 * j \<Longrightarrow> i = j"
  proof -
    assume "8 * i = 8 * j"
    moreover have "unat (8 * i) = 8 * unat i" "unat (8 * j) = 8 * unat j"
      using ij by (simp_all add: unat_word_ariths word_less_nat_alt)
    ultimately show "i = j" by (metis mult_left_cancel numeral_eq_Suc word_unat_eq_iff zero_neq_numeral)
  qed
  then show ?thesis by (auto simp: entry_addr_def)
qed

lemma page_va_inj:
  assumes "p < 2 ^ 44" and "q < 2 ^ 44" and "page_va p = page_va q"
  shows "p = q"
proof (rule bit_word_eqI)
  fix n
  have "push_bit 12 p = push_bit 12 q" using assms(3) by (metis pa_va)
  then have eq: "bit (push_bit 12 p) (n + 12) = bit (push_bit 12 q) (n + 12)" by simp
  show "bit p n = bit q n"
  proof (cases "n < 44")
    case True
    with eq show ?thesis by (simp add: bit_push_bit_iff)
  next
    case False
    then show ?thesis using less_pow2_bit [OF assms(1), of n] less_pow2_bit [OF assms(2), of n] by simp
  qed
qed

lemma pages_disjoint:
  "p < 2 ^ 44 \<Longrightarrow> q < 2 ^ 44 \<Longrightarrow> p \<noteq> q \<Longrightarrow> blk 12 (page_va p) \<inter> blk 12 (page_va q) = {}"
  by (rule aligned_blk_disjoint [OF aligned_page_va aligned_page_va]) (blast dest: page_va_inj)

lemma page_number_less:
  assumes "pa_of (page_va p) < 2 ^ 56" and "p = drop_bit 12 (pa_of a)"
  shows "p < 2 ^ 44"
proof -
  have "p < 2 ^ 52"
  proof -
    have "unat p < 2 ^ 52"
      unfolding unat_less_pow2 assms(2) by (auto simp: bit_drop_bit_eq dest: bit_imp_le_length)
    then show ?thesis by (simp add: word_less_nat_alt)
  qed
  have "unat p < 2 ^ 44"
    unfolding unat_less_pow2
  proof (intro allI impI)
    fix n :: nat assume n: "44 \<le> n"
    have "\<not> bit (push_bit 12 p) (n + 12)"
      by (rule less_pow2_bit [OF assms(1) [unfolded pa_va]]) (use n in simp_all)
    moreover have "\<not> bit p n" if "52 \<le> n"
      using less_pow2_bit [OF \<open>p < 2 ^ 52\<close>] that by simp
    ultimately show "\<not> bit p n"
      by (cases "52 \<le> n") (auto simp: bit_push_bit_iff)
  qed
  then show ?thesis by (simp add: word_less_nat_alt)
qed

lemma alloc_frame_number:
  assumes "buddy_inv R s F" and "in_window R" and "alloc_frame s = Inr (p, s')"
  shows "p < 2 ^ 44"
proof -
  note fr = frames.frame_fresh [OF assms(1,3)]
  then have "page_va p \<in> R" using frames.frame_region [OF assms(1)] self_in_blk by blast
  then have "pa_of (page_va p) < 2 ^ 56" using assms(2) unfolding in_window_def by blast
  moreover obtain a where "p = drop_bit 12 (pa_of a)"
    using assms(3) by (auto simp: alloc_frame_def bindE_Inr_iff)
  ultimately show ?thesis by (rule page_number_less)
qed

lemma pte_of_None [simp]: "pte_of None = 0"
  by (simp add: pte_of_def)

lemma PPN2PTE_valid_nonzero: "PPN2PTE p PAGE_VALID \<noteq> 0"
proof -
  have "bit (PPN2PTE p PAGE_VALID) 0" by (simp add: bit_PPN2PTE PAGE_VALID_def)
  then show ?thesis by auto
qed

lemma pte_of_Some [simp]: "pte_of (Some p) = PPN2PTE p PAGE_VALID" "pte_of (Some p) \<noteq> 0"
  by (simp_all add: pte_of_def PPN2PTE_valid_nonzero)

lemma PTE2PA_valid: "p < 2 ^ 44 \<Longrightarrow> va_of (PTE2PA (PPN2PTE p PAGE_VALID)) = page_va p"
  by (simp add: PTE2PA_PPN2PTE PAGE_VALID_def)

lemma page_set_insert [simp]: "page_set (insert p P) = blk 12 (page_va p) \<union> page_set P"
  by (auto simp: page_set_def)

lemma page_set_empty [simp]: "page_set {} = {}"
  by (simp add: page_set_def)

lemma page_set_mono: "P \<subseteq> Q \<Longrightarrow> page_set P \<subseteq> page_set Q"
  by (auto simp: page_set_def)

lemma page_set_Un: "page_set (P \<union> Q) = page_set P \<union> page_set Q"
  by (auto simp: page_set_def)

lemma page_in_set: "p \<in> P \<Longrightarrow> blk 12 (page_va p) \<subseteq> page_set P"
  by (auto simp: page_set_def)

text \<open>Entries of distinct tables, and of one table, do not overlap.\<close>

lemma entry_other:
  assumes "p < 2 ^ 44" and "q < 2 ^ 44" and "i < 512" and "j < 512" and "(p, i) \<noteq> (q, j)"
  shows "load64 (store64 m (entry_addr (page_va p) i) v) (entry_addr (page_va q) j) =
    load64 m (entry_addr (page_va q) j)"
proof (rule load64_store64_other)
  show "aligned 3 (entry_addr (page_va p) i)" "aligned 3 (entry_addr (page_va q) j)"
    using assms entry_addr_blk(2) by simp_all
  show "entry_addr (page_va p) i \<noteq> entry_addr (page_va q) j"
  proof (cases "p = q")
    case True
    with assms show ?thesis by (simp add: entry_addr_inj)
  next
    case False
    with pages_disjoint [OF assms(1,2)] entry_addr_blk(1) assms(3,4) show ?thesis
      by (metis aligned_page_va disjoint_iff)
  qed
qed

lemma entry_frame:
  assumes "same_outside S m m'" and "blk 12 (page_va q) \<inter> S = {}" and "i < 512"
  shows "load64 m' (entry_addr (page_va q) i) = load64 m (entry_addr (page_va q) i)"
  using entry_addr_blk [of "page_va q" i] assms by (intro load64_frame) auto

lemma tree_frame:
  assumes "tree_ok m tab" and "same_outside S m m'" and "page_set (ran tab) \<inter> S = {}"
  shows "tree_ok m' tab" and "leaf m' tab vpn = leaf m tab vpn"
proof -
  have fr: "load64 m' (entry_addr (page_va q) i) = load64 m (entry_addr (page_va q) i)"
    if "tab p = Some q" "i < 512" for p q i
  proof (rule entry_frame [OF assms(2) _ that(2)])
    have "q \<in> ran tab" using that(1) by (rule ranI)
    from page_in_set [OF this] assms(3) show "blk 12 (page_va q) \<inter> S = {}" by blast
  qed
  with assms(1) show "tree_ok m' tab" by (simp add: tree_ok_def)
  show "leaf m' tab vpn = leaf m tab vpn"
    by (auto simp: leaf_def fr level_less split: option.splits)
qed

section \<open>The walk without allocation\<close>

lemma walk_entry:
  assumes ok: "tree_ok (fst s) tab" and p: "tab p = Some q" and len: "length p + length ls = 2"
    and l: "l < 512" and ls: "\<forall>i \<in> set ls. i < 512"
  shows "walk s (entry_addr (page_va q) l) ls False =
    Inr (case tab (p @ butlast (l # ls)) of
           None \<Rightarrow> 0 | Some q' \<Rightarrow> entry_addr (page_va q') (last (l # ls)), s)"
  using p len l ls
proof (induction ls arbitrary: p q l)
  case Nil
  then show ?case by simp
next
  case (Cons l' ls)
  have ld: "load64 (fst s) (entry_addr (page_va q) l) = pte_of (tab (p @ [l]))"
    using ok Cons.prems by (auto simp: tree_ok_def)
  show ?case
  proof (cases "tab (p @ [l])")
    case None
    have closed: "tab (r @ [i]) \<noteq> None \<Longrightarrow> tab r \<noteq> None" for r i
      using ok by (auto simp: tree_ok_def)
    have none: "tab (p @ [l] @ zs) = None" for zs
    proof (induction zs rule: rev_induct)
      case Nil
      with None show ?case by simp
    next
      case (snoc z zs)
      then show ?case using closed [of "p @ [l] @ zs" z] by (metis append.assoc)
    qed
    show ?thesis using none [of "butlast (l' # ls)"] ld None by (simp add: walk.simps(2))
  next
    case (Some q')
    then have "q' < 2 ^ 44" using ok by (auto simp: tree_ok_def)
    then have "walk s (entry_addr (page_va q) l) (l' # ls) False =
        walk s (entry_addr (page_va q') l') ls False"
      using ld Some by (simp add: walk.simps(2) PTE2PA_valid PPN2PTE_valid_nonzero)
    also have "\<dots> = Inr (case tab ((p @ [l]) @ butlast (l' # ls)) of
           None \<Rightarrow> 0 | Some q' \<Rightarrow> entry_addr (page_va q') (last (l' # ls)), s)"
      by (rule Cons.IH) (use Some Cons.prems in auto)
    finally show ?thesis by (simp cong: option.case_cong)
  qed
qed

lemma find_entry_lookup:
  assumes "tree_ok (fst s) tab" and "tab [] = Some root"
  shows "find_entry s root vpn False =
    Inr (case tab (levels_path vpn) of
           None \<Rightarrow> 0 | Some q \<Rightarrow> entry_addr (page_va q) (get_vpn_levels vpn ! 0), s)"
proof -
  have "walk s (entry_addr (page_va root) (get_vpn_levels vpn ! 2))
      [get_vpn_levels vpn ! 1, get_vpn_levels vpn ! 0] False =
    Inr (case tab ([] @ butlast [get_vpn_levels vpn ! 2, get_vpn_levels vpn ! 1, get_vpn_levels vpn ! 0]) of
           None \<Rightarrow> 0
         | Some q' \<Rightarrow> entry_addr (page_va q')
             (last [get_vpn_levels vpn ! 2, get_vpn_levels vpn ! 1, get_vpn_levels vpn ! 0]), s)"
    using assms by (rule walk_entry) (simp_all add: level_less)
  then show ?thesis
    by (simp only: find_entry_def Let_def levels_path_def) (simp cong: option.case_cong)
qed

section \<open>The walk that builds tables\<close>

text \<open>
  The tables of an address space live in pages of the region that are not free.
\<close>

definition pt_inv :: "addr set \<Rightarrow> bstate \<Rightarrow> addr set \<Rightarrow> tree \<Rightarrow> bool" where
  "pt_inv R s F tab \<longleftrightarrow> buddy_inv R s F \<and> in_window R \<and> tree_ok (fst s) tab \<and>
     page_set (ran tab) \<subseteq> R - F"

lemma entry_in_pages:
  "tab p = Some q \<Longrightarrow> i < 512 \<Longrightarrow> blk 3 (entry_addr (page_va q) i) \<subseteq> page_set (ran tab)"
  using entry_addr_blk(3) [of "page_va q" i] page_in_set [of q "ran tab"] by (auto intro: ranI)

lemma store_entry_same:
  "tab p = Some q \<Longrightarrow> i < 512 \<Longrightarrow>
     same_outside (page_set (ran tab)) m (store64 m (entry_addr (page_va q) i) v)"
  using entry_in_pages [of tab p q i] entry_addr_blk(2) [of "page_va q" i]
  by (intro same_outside_mono [OF same_outside_store]) (simp_all add: bytes8_blk)

lemma levels_path_in_tree:
  "tree_ok m tab \<Longrightarrow> tab p = Some q \<Longrightarrow> q < 2 ^ 44"
  unfolding tree_ok_def by blast

lemma tree_ok_inj: "tree_ok m tab \<Longrightarrow> tab p = Some q \<Longrightarrow> tab p' = Some q \<Longrightarrow> p = p'"
  unfolding tree_ok_def inj_on_def by (metis domI)

text \<open>A new table below an existing one.\<close>

lemma grow:
  assumes inv: "pt_inv R s F tab" and al: "alloc_frame s = Inr (n, m, b)"
    and p: "tab p = Some q" "length p < 2" "l < 512" "tab (p @ [l]) = None"
  defines "m' \<equiv> store64 m (entry_addr (page_va q) l) (PPN2PTE n PAGE_VALID)"
    and "tab' \<equiv> tab(p @ [l] \<mapsto> n)" and "F' \<equiv> F - blk 12 (page_va n)"
  shows "pt_inv R (m', b) F' tab'" and "leaf m' tab' v = leaf (fst s) tab v"
    and "same_outside (F \<union> page_set (ran tab)) (fst s) m'" and "blk 12 (page_va n) \<subseteq> F"
    and "ran tab' = insert n (ran tab)" and "n < 2 ^ 44"
proof -
  have binv: "buddy_inv R s F" and win: "in_window R" and ok: "tree_ok (fst s) tab"
    and pages: "page_set (ran tab) \<subseteq> R - F"
    using inv by (auto simp: pt_inv_def)
  have fr: "blk 12 (page_va n) \<subseteq> F" "buddy_inv R (m, b) F'" "same_outside F (fst s) m"
    "\<forall>x \<in> blk 12 (page_va n). m x = 0"
    using frames.frame_fresh [OF binv al] by (auto simp: F'_def)
  show n44: "n < 2 ^ 44" by (rule alloc_frame_number [OF binv win al])
  show "blk 12 (page_va n) \<subseteq> F" by fact
  have st: "same_outside (page_set (ran tab)) m m'"
    unfolding m'_def by (rule store_entry_same [where p = p]) fact+
  then show so: "same_outside (F \<union> page_set (ran tab)) (fst s) m'"
    using fr(3) by (auto simp: same_outside_def)
  show ran': "ran tab' = insert n (ran tab)" using p(4) by (simp add: tab'_def)
  have "n \<notin> ran tab"
  proof
    assume "n \<in> ran tab"
    then have "page_va n \<in> page_set (ran tab)" using page_in_set self_in_blk by blast
    with pages fr(1) self_in_blk [of "page_va n" 12] show False by blast
  qed
  have F'm': "buddy_inv R (m', b) F'"
    by (rule buddy_inv_same_free [OF fr(2)], rule same_outside_mono [OF st])
      (use pages in \<open>auto simp: F'_def\<close>)
  have ok1: "tree_ok m tab" and leaf1: "leaf m tab v = leaf (fst s) tab v" for v
    using tree_frame [OF ok fr(3)] pages by blast+
  have zero: "load64 m' (entry_addr (page_va n) i) = 0" if "i < 512" for i
  proof -
    have "load64 m (entry_addr (page_va n) i) = load64 (\<lambda>_. 0) (entry_addr (page_va n) i)"
    proof (rule load_bytes_cong)
      fix x assume "x \<in> bytes_at (entry_addr (page_va n) i) 8"
      then have "x \<in> blk 12 (page_va n)"
        using entry_addr_blk [of "page_va n" i] that by (auto simp: bytes8_blk)
      then show "m x = 0" using fr(4) by blast
    qed simp
    moreover have "load64 (\<lambda>_. 0) a = 0" for a
      by (rule bit_word_eqI) (simp add: bit_load_bytes)
    moreover have "blk 12 (page_va n) \<inter> page_set (ran tab) = {}" using pages fr(1) by blast
    then have "load64 m' (entry_addr (page_va n) i) = load64 m (entry_addr (page_va n) i)"
      using that by (intro entry_frame [OF st])
    ultimately show ?thesis by simp
  qed
  have q44: "\<And>p q. tab p = Some q \<Longrightarrow> q < 2 ^ 44" using ok levels_path_in_tree by blast
  have old: "load64 m' (entry_addr (page_va q') i) = load64 m (entry_addr (page_va q') i)"
    if "tab p' = Some q'" "i < 512" "(p', i) \<noteq> (p, l)" for p' q' i
    unfolding m'_def
    by (rule entry_other) (use that p q44 tree_ok_inj [OF ok] in auto)
  have new: "load64 m' (entry_addr (page_va q) l) = PPN2PTE n PAGE_VALID" by (simp add: m'_def)
  have no_child: "tab (p @ [l] @ zs) = None" for zs
  proof (induction zs rule: rev_induct)
    case Nil
    with p show ?case by simp
  next
    case (snoc z zs)
    have "tab (r @ [i]) \<noteq> None \<Longrightarrow> tab r \<noteq> None" for r i using ok by (auto simp: tree_ok_def)
    from this [of "p @ [l] @ zs" z] snoc show ?case by (metis append.assoc)
  qed
  have "tree_ok m' tab'"
    unfolding tree_ok_def
  proof (intro conjI allI impI)
    fix p' q' assume "tab' p' = Some q'"
    then show "length p' \<le> 2" using ok p by (auto simp: tab'_def tree_ok_def split: if_splits)
  next
    fix p' q' assume "tab' p' = Some q'"
    then show "q' < 2 ^ 44" using q44 n44 by (auto simp: tab'_def split: if_splits)
  next
    fix p' i assume "tab' (p' @ [i]) \<noteq> None"
    then show "tab' p' \<noteq> None" and "i < 512"
      using ok p by (auto simp: tab'_def tree_ok_def split: if_splits)
  next
    show "inj_on tab' (dom tab')"
      using \<open>n \<notin> ran tab\<close> tree_ok_inj [OF ok]
      by (auto simp: tab'_def inj_on_def ran_def dom_def split: if_splits)
  next
    fix p' q' and i :: u64
    assume t: "tab' p' = Some q'" and len: "length p' < 2" and i: "i < 512"
    show "load64 m' (entry_addr (page_va q') i) = pte_of (tab' (p' @ [i]))"
    proof (cases "p' = p @ [l]")
      case True
      with t have "q' = n" by (simp add: tab'_def)
      moreover have "tab' (p' @ [i]) = None"
        using no_child [of "[i]"] True by (simp add: tab'_def)
      ultimately show ?thesis using zero [OF i] by simp
    next
      case False
      with t have t': "tab p' = Some q'" by (simp add: tab'_def)
      show ?thesis
      proof (cases "(p', i) = (p, l)")
        case True
        with t' p new show ?thesis by (simp add: tab'_def)
      next
        case False
        then have "tab' (p' @ [i]) = tab (p' @ [i])" by (auto simp: tab'_def)
        with old [OF t' i False] ok1 t' len i show ?thesis by (auto simp: tree_ok_def)
      qed
    qed
  qed
  with F'm' win fr(1) pages ran' binv show "pt_inv R (m', b) F' tab'"
    using frames.frame_region [OF binv] by (auto simp: pt_inv_def F'_def)
  have "leaf m' tab' v = leaf m tab v"
  proof (cases "levels_path v = p @ [l]")
    case True
    then show ?thesis using p zero level_less [of 0] by (simp add: leaf_def tab'_def)
  next
    case False
    then have "tab' (levels_path v) = tab (levels_path v)" by (simp add: tab'_def)
    moreover have "load64 m' (entry_addr (page_va q') (get_vpn_levels v ! 0)) =
        load64 m (entry_addr (page_va q') (get_vpn_levels v ! 0))"
      if "tab (levels_path v) = Some q'" for q'
    proof (rule old [OF that])
      show "get_vpn_levels v ! 0 < 512" by (simp add: level_less)
      show "(levels_path v, get_vpn_levels v ! 0) \<noteq> (p, l)" using p(2) by auto
    qed
    ultimately show ?thesis by (auto simp: leaf_def split: option.splits)
  qed
  with leaf1 show "leaf m' tab' v = leaf (fst s) tab v" by simp
qed


text \<open>At least \<open>n\<close> whole pages are free.\<close>

definition pages_free :: "addr set \<Rightarrow> nat \<Rightarrow> bool" where
  "pages_free F n \<longleftrightarrow>
     (\<exists>P. finite P \<and> card P = n \<and> (\<forall>p \<in> P. p < 2 ^ 44) \<and> page_set P \<subseteq> F)"

lemma pages_free_less: "pages_free F n \<Longrightarrow> k \<le> n \<Longrightarrow> pages_free F k"
proof -
  assume "pages_free F n" and k: "k \<le> n"
  then obtain P where P: "finite P" "card P = n" "\<forall>p \<in> P. p < 2 ^ 44" "page_set P \<subseteq> F"
    by (auto simp: pages_free_def)
  then obtain Q where "Q \<subseteq> P" "card Q = k" using obtain_subset_with_card_n [of k P] k by auto
  then show ?thesis
    using P page_set_mono [of Q P] finite_subset [of Q P] unfolding pages_free_def by blast
qed

lemma pages_free_take:
  assumes "pages_free F (Suc n)" and "p < 2 ^ 44"
  shows "pages_free (F - blk 12 (page_va p)) n"
proof -
  obtain P where P: "finite P" "card P = Suc n" "\<forall>q \<in> P. q < 2 ^ 44" "page_set P \<subseteq> F"
    using assms(1) by (auto simp: pages_free_def)
  have "page_set (P - {p}) \<inter> blk 12 (page_va p) = {}"
    using pages_disjoint [OF _ assms(2)] P(3) by (fastforce simp: page_set_def)
  moreover have "page_set (P - {p}) \<subseteq> F" using P(4) page_set_mono [of "P - {p}" P] by blast
  moreover have "n \<le> card (P - {p})" using P(1,2) by (cases "p \<in> P") simp_all
  ultimately have "pages_free (F - blk 12 (page_va p)) (card (P - {p}))"
    using P(1,3) unfolding pages_free_def by (intro exI [of _ "P - {p}"]) auto
  then show ?thesis by (rule pages_free_less) fact
qed

lemma pages_free_alloc:
  assumes "buddy_inv R s F" and "pages_free F (Suc n)"
  shows "\<exists>p s'. alloc_frame s = Inr (p, s')"
proof -
  obtain P where P: "finite P" "card P = Suc n" "page_set P \<subseteq> F"
    using assms(2) by (auto simp: pages_free_def)
  then obtain q where "q \<in> P" by fastforce
  then have "blk 12 (page_va q) \<subseteq> F" using page_in_set P(3) by blast
  then show ?thesis by (rule frames.frame_available [OF assms(1)])
qed

text \<open>The outcome of a walk that may build tables below path \<open>p\<close>.\<close>

definition grown :: "addr set \<Rightarrow> bstate \<Rightarrow> addr set \<Rightarrow> tree \<Rightarrow> bstate \<Rightarrow> addr set \<Rightarrow> tree \<Rightarrow> bool" where
  "grown R s F tab s' F' tab' \<longleftrightarrow> pt_inv R s' F' tab' \<and> tab \<subseteq>\<^sub>m tab' \<and> F' = F - page_set (ran tab') \<and>
     page_set (ran tab') \<subseteq> page_set (ran tab) \<union> F \<and>
     same_outside (F \<union> page_set (ran tab)) (fst s) (fst s') \<and>
     (\<forall>v. leaf (fst s') tab' v = leaf (fst s) tab v)"

lemma grown_refl: "pt_inv R s F tab \<Longrightarrow> grown R s F tab s F tab"
  by (auto simp: grown_def pt_inv_def)

lemma grown_trans:
  assumes "grown R s F tab s1 F1 tab1" and "grown R s1 F1 tab1 s2 F2 tab2"
  shows "grown R s F tab s2 F2 tab2"
proof -
  have "same_outside (F1 \<union> page_set (ran tab1)) (fst s1) (fst s2)" using assms(2) by (simp add: grown_def)
  then have "same_outside (F \<union> page_set (ran tab)) (fst s1) (fst s2)"
    by (rule same_outside_mono) (use assms(1) in \<open>auto simp: grown_def\<close>)
  moreover have "ran tab1 \<subseteq> ran tab2"
    using assms(2) by (auto simp: grown_def map_le_def ran_def dom_def) (metis option.simps(3))
  then have "page_set (ran tab1) \<subseteq> page_set (ran tab2)" by (rule page_set_mono)
  ultimately show ?thesis
    using assms unfolding grown_def by (auto intro: same_outside_trans map_le_trans)
qed

lemma walk_build:
  assumes "pt_inv R s F tab" and "tab p = Some q" and "length p + length ls = 2"
    and "l < 512" and "\<forall>i \<in> set ls. i < 512"
  shows "case walk s (entry_addr (page_va q) l) ls True of
      Inl e \<Rightarrow> e = Panic ''Not enough memory!'' \<and> \<not> pages_free F (length ls)
    | Inr (a, s') \<Rightarrow> \<exists>F' tab' q'. grown R s F tab s' F' tab' \<and>
        tab' (p @ butlast (l # ls)) = Some q' \<and> a = entry_addr (page_va q') (last (l # ls)) \<and>
        (\<forall>n. pages_free F (length ls + n) \<longrightarrow> pages_free F' n)"
  using assms
proof (induction ls arbitrary: s F tab p q l)
  case Nil
  then show ?case using grown_refl [of R s F tab] by auto
next
  case (Cons l' ls)
  note inv = Cons.prems(1) and p = Cons.prems(2)
  have ok: "tree_ok (fst s) tab" using inv by (simp add: pt_inv_def)
  have ld: "load64 (fst s) (entry_addr (page_va q) l) = pte_of (tab (p @ [l]))"
    using ok Cons.prems by (auto simp: tree_ok_def)
  show ?case
  proof (cases "tab (p @ [l])")
    case (Some q')
    then have "q' < 2 ^ 44" using ok levels_path_in_tree by blast
    then have eq: "walk s (entry_addr (page_va q) l) (l' # ls) True =
        walk s (entry_addr (page_va q') l') ls True"
      using ld Some by (simp add: walk.simps(2) PTE2PA_valid PPN2PTE_valid_nonzero)
    have "case walk s (entry_addr (page_va q') l') ls True of
        Inl e \<Rightarrow> e = Panic ''Not enough memory!'' \<and> \<not> pages_free F (length ls)
      | Inr (a, s') \<Rightarrow> \<exists>F' tab' q'. grown R s F tab s' F' tab' \<and>
          tab' ((p @ [l]) @ butlast (l' # ls)) = Some q' \<and> a = entry_addr (page_va q') (last (l' # ls)) \<and>
          (\<forall>n. pages_free F (length ls + n) \<longrightarrow> pages_free F' n)"
      by (rule Cons.IH [OF inv Some]) (use Cons.prems in auto)
    moreover have "pages_free F (length ls + n)" if "pages_free F (length (l' # ls) + n)" for n
      using that by (rule pages_free_less) simp
    ultimately show ?thesis
      unfolding eq using pages_free_less [of F "length (l' # ls)" "length ls"]
      by (fastforce split: sum.splits)
  next
    case None
    have binv: "buddy_inv R s F" using inv by (simp add: pt_inv_def)
    show ?thesis
    proof (cases "alloc_frame s")
      case (Inl e)
      then have "\<not> pages_free F (length (l' # ls))"
        using pages_free_alloc [OF binv, of "length ls"] by auto
      with Inl show ?thesis using ld None alloc_frame_spec [OF binv] by (simp add: walk.simps(2))
    next
      case (Inr r)
      obtain n m b where r: "alloc_frame s = Inr (n, m, b)" using Inr by (cases r) auto
      define m' where "m' = store64 m (entry_addr (page_va q) l) (PPN2PTE n PAGE_VALID)"
      define tab1 where "tab1 = tab(p @ [l] \<mapsto> n)"
      have len: "length p < 2" and l: "l < 512" using Cons.prems by auto
      note gr = grow [OF inv r p len l None, folded m'_def tab1_def]
      have eq: "walk s (entry_addr (page_va q) l) (l' # ls) True =
          walk (m', b) (entry_addr (page_va n) l') ls True"
        using ld None gr(6) by (simp add: walk.simps(2) r m'_def PTE2PA_valid)
      have g1: "grown R s F tab (m', b) (F - blk 12 (page_va n)) tab1"
        unfolding grown_def
      proof (intro conjI allI)
        show "pt_inv R (m', b) (F - blk 12 (page_va n)) tab1" by (rule gr(1))
        show "tab \<subseteq>\<^sub>m tab1" using None by (auto simp: tab1_def map_le_def)
        show "F - blk 12 (page_va n) = F - page_set (ran tab1)"
          using inv by (auto simp: gr(5) pt_inv_def)
        show "page_set (ran tab1) \<subseteq> page_set (ran tab) \<union> F" using gr(4) by (auto simp: gr(5))
        show "same_outside (F \<union> page_set (ran tab)) (fst s) (fst (m', b))" using gr(3) by simp
        show "leaf (fst (m', b)) tab1 v = leaf (fst s) tab v" for v using gr(2) by simp
      qed
      have "case walk (m', b) (entry_addr (page_va n) l') ls True of
          Inl e \<Rightarrow> e = Panic ''Not enough memory!'' \<and>
            \<not> pages_free (F - blk 12 (page_va n)) (length ls)
        | Inr (a, s') \<Rightarrow> \<exists>F' tab' q'. grown R (m', b) (F - blk 12 (page_va n)) tab1 s' F' tab' \<and>
            tab' ((p @ [l]) @ butlast (l' # ls)) = Some q' \<and> a = entry_addr (page_va q') (last (l' # ls)) \<and>
            (\<forall>k. pages_free (F - blk 12 (page_va n)) (length ls + k) \<longrightarrow> pages_free F' k)"
        by (rule Cons.IH [OF gr(1)]) (use Cons.prems in \<open>auto simp: tab1_def\<close>)
      note IH = this
      have pf: "pages_free (F - blk 12 (page_va n)) (length ls + k)"
        if "pages_free F (length (l' # ls) + k)" for k
        using pages_free_take [OF _ gr(6), of F "length ls + k"] that by simp
      show ?thesis
      proof (cases "walk (m', b) (entry_addr (page_va n) l') ls True")
        case (Inl e)
        then show ?thesis using IH pf [of 0] unfolding eq by auto
      next
        case (Inr r)
        obtain a s' where r: "r = (a, s')" by (cases r)
        obtain F' tab' q' where res: "grown R (m', b) (F - blk 12 (page_va n)) tab1 s' F' tab'"
          "tab' ((p @ [l]) @ butlast (l' # ls)) = Some q'" "a = entry_addr (page_va q') (last (l' # ls))"
          "\<forall>k. pages_free (F - blk 12 (page_va n)) (length ls + k) \<longrightarrow> pages_free F' k"
          using IH unfolding Inr r sum.case prod.case by blast
        have "tab' (p @ butlast (l # l' # ls)) = Some q'" "a = entry_addr (page_va q') (last (l # l' # ls))"
          using res(2,3) by simp_all
        then show ?thesis
          unfolding eq Inr r sum.case prod.case using grown_trans [OF g1 res(1)] pf res(4) by blast
      qed
    qed
  qed
qed

lemma find_entry_build:
  assumes "pt_inv R s F tab" and "tab [] = Some root"
  shows "case find_entry s root vpn True of
      Inl e \<Rightarrow> e = Panic ''Not enough memory!'' \<and> \<not> pages_free F 2
    | Inr (a, s') \<Rightarrow> \<exists>F' tab' q. grown R s F tab s' F' tab' \<and> tab' (levels_path vpn) = Some q \<and>
        a = entry_addr (page_va q) (get_vpn_levels vpn ! 0) \<and>
        (\<forall>n. pages_free F (2 + n) \<longrightarrow> pages_free F' n)"
proof -
  have "case walk s (entry_addr (page_va root) (get_vpn_levels vpn ! 2))
      [get_vpn_levels vpn ! 1, get_vpn_levels vpn ! 0] True of
      Inl e \<Rightarrow> e = Panic ''Not enough memory!'' \<and>
        \<not> pages_free F (length [get_vpn_levels vpn ! 1, get_vpn_levels vpn ! 0])
    | Inr (a, s') \<Rightarrow> \<exists>F' tab' q'. grown R s F tab s' F' tab' \<and>
        tab' ([] @ butlast [get_vpn_levels vpn ! 2, get_vpn_levels vpn ! 1, get_vpn_levels vpn ! 0]) = Some q' \<and>
        a = entry_addr (page_va q')
          (last [get_vpn_levels vpn ! 2, get_vpn_levels vpn ! 1, get_vpn_levels vpn ! 0]) \<and>
        (\<forall>n. pages_free F (length [get_vpn_levels vpn ! 1, get_vpn_levels vpn ! 0] + n) \<longrightarrow> pages_free F' n)"
    using assms by (rule walk_build) (simp_all add: level_less)
  then show ?thesis
    by (simp only: find_entry_def Let_def levels_path_def) (simp add: numeral_2_eq_2 cong: sum.case_cong)
qed

section \<open>Writing an entry\<close>

text \<open>Two page numbers have the same entry when they agree in the 27 bits the walk looks at.\<close>

lemma levels_eq_iff:
  "levels_path v = levels_path w \<and> get_vpn_levels v ! 0 = get_vpn_levels w ! 0 \<longleftrightarrow>
     take_bit 27 v = take_bit 27 w"
proof -
  have m: "x AND 0x1ff = take_bit 9 x" for x :: u64
    by (simp add: take_bit_eq_mask mask_eq_exp_minus_1)
  have b: "take_bit k x = take_bit k y \<longleftrightarrow> (\<forall>n < k. bit x n = bit y n)" for k and x y :: u64
  proof -
    have "take_bit k x = take_bit k y \<longleftrightarrow> (\<forall>n. bit (take_bit k x) n = bit (take_bit k y) n)"
      by (auto intro: bit_word_eqI)
    then show ?thesis by (auto simp: bit_take_bit_iff)
  qed
  have "(\<forall>n < 27. bit v n = bit w n) \<longleftrightarrow> (\<forall>n < 9. bit v n = bit w n) \<and>
      (\<forall>n < 9. bit v (9 + n) = bit w (9 + n)) \<and> (\<forall>n < 9. bit v (18 + n) = bit w (18 + n))"
  proof (rule iffI)
    assume a: "(\<forall>n < 9. bit v n = bit w n) \<and>
      (\<forall>n < 9. bit v (9 + n) = bit w (9 + n)) \<and> (\<forall>n < 9. bit v (18 + n) = bit w (18 + n))"
    show "\<forall>n < 27. bit v n = bit w n"
    proof (intro allI impI)
    fix n :: nat
    assume n: "n < 27"
    consider "n < 9" | "9 \<le> n" "n < 18" | "18 \<le> n" by linarith
    then show "bit v n = bit w n"
    proof cases
      case 2
      then have "n = 9 + (n - 9)" "n - 9 < 9" by simp_all
      with a show ?thesis by metis
    next
      case 3
      then have "n = 18 + (n - 18)" "n - 18 < 9" using n by simp_all
      with a show ?thesis by metis
    qed (use a in simp)
    qed
  qed simp_all
  then show ?thesis
    by (auto simp: levels_path_def get_vpn_levels_def m b bit_drop_bit_eq)
qed

lemma write_entry:
  fixes pte :: u64
  assumes inv: "pt_inv R (m, b) F tab" and q: "tab (levels_path vpn) = Some q"
  defines "m' \<equiv> store64 m (entry_addr (page_va q) (get_vpn_levels vpn ! 0)) pte"
  shows "pt_inv R (m', b) F tab"
    and "leaf m' tab v = (if take_bit 27 v = take_bit 27 vpn then pte else leaf m tab v)"
    and "same_outside (page_set (ran tab)) m m'"
proof -
  have ok: "tree_ok m tab" using inv by (simp add: pt_inv_def)
  have l: "get_vpn_levels vpn ! 0 < 512" by (simp add: level_less)
  show st: "same_outside (page_set (ran tab)) m m'"
    unfolding m'_def by (rule store_entry_same [where p = "levels_path vpn"]) (rule q, rule l)
  have other: "load64 m' (entry_addr (page_va q') i) = load64 m (entry_addr (page_va q') i)"
    if "tab p = Some q'" "i < 512" "(p, i) \<noteq> (levels_path vpn, get_vpn_levels vpn ! 0)" for p q' i
    unfolding m'_def
    by (rule entry_other)
      (use that q l levels_path_in_tree [OF ok] tree_ok_inj [OF ok] in auto)
  have "load64 m' (entry_addr (page_va q') i) = pte_of (tab (p @ [i]))"
    if "tab p = Some q'" "length p < 2" "i < 512" for p q' i
  proof -
    have "p \<noteq> levels_path vpn" using that(2) by auto
    then show ?thesis using other [OF that(1,3)] that ok by (auto simp: tree_ok_def)
  qed
  with ok have "tree_ok m' tab" by (auto simp: tree_ok_def)
  moreover have "buddy_inv R (m', b) F"
    by (rule buddy_inv_same_free [of R m b F], use inv in \<open>simp add: pt_inv_def\<close>,
        rule same_outside_mono [OF st]) (use inv in \<open>auto simp: pt_inv_def\<close>)
  ultimately show "pt_inv R (m', b) F tab" using inv by (simp add: pt_inv_def)
  show "leaf m' tab v = (if take_bit 27 v = take_bit 27 vpn then pte else leaf m tab v)"
  proof (cases "take_bit 27 v = take_bit 27 vpn")
    case True
    then show ?thesis
      using levels_eq_iff [of v vpn] q by (simp add: leaf_def m'_def)
  next
    case False
    then have "(levels_path v, get_vpn_levels v ! 0) \<noteq> (levels_path vpn, get_vpn_levels vpn ! 0)"
      using levels_eq_iff [of v vpn] by simp
    then show ?thesis
      using False other level_less [of 0] by (auto simp: leaf_def split: option.splits)
  qed
qed

end
