(* ===== verification/Page_Map.thy ===== *)
theory Page_Map
  imports Page_Table
begin

text \<open>
  Mapping and unmapping ranges of virtual pages: \<^verbatim>\<open>map_pages\<close>, \<^verbatim>\<open>map_segment\<close> and
  \<^verbatim>\<open>unmap_segment\<close> of \<^verbatim>\<open>kernel/mapping.c\<close>, with their effect on the entries of the address space,
  on the free memory and on the bytes of the mapped pages. The model is of the build without
  \<^verbatim>\<open>D1\<close>.
\<close>

section \<open>Segments and ranges\<close>

datatype segment_type = Linear | Framed

record segment =
  start_va :: usize
  end_va :: usize
  seg_flags :: usize
  seg_type :: segment_type

text \<open>The page numbers that \<^verbatim>\<open>list_for_va_range\<close> runs through.\<close>

definition va_range :: "usize \<Rightarrow> usize \<Rightarrow> u64 list" where
  "va_range start end =
     map of_nat [unat (drop_bit 12 start) ..< unat (drop_bit 12 (end - 1) + 1)]"

text \<open>The loops that copy \<open>n\<close> bytes, lowest address first.\<close>

definition copy_bytes :: "nat \<Rightarrow> mem \<Rightarrow> addr \<Rightarrow> addr \<Rightarrow> mem" where
  "copy_bytes n m dst src =
     fold (\<lambda>i m. m(dst + of_nat i := m (src + of_nat i))) [0..<n] m"

section \<open>The operations\<close>

fun map_pages_loop :: "bstate \<Rightarrow> usize \<Rightarrow> u64 list \<Rightarrow> usize \<Rightarrow> usize \<Rightarrow> bstate outcome" where
  "map_pages_loop s root_ppn [] start_ppn flags = Inr s"
| "map_pages_loop s root_ppn (vpn # vpns) start_ppn flags =
     bindE (find_entry s root_ppn vpn True) (\<lambda>(entry, m, b).
     map_pages_loop (store64 m entry (PPN2PTE start_ppn flags), b) root_ppn vpns (start_ppn + 1) flags)"

definition map_pages :: "bstate \<Rightarrow> usize \<Rightarrow> usize \<Rightarrow> usize \<Rightarrow> 32 word \<Rightarrow> usize \<Rightarrow> bstate outcome" where
  "map_pages s root_ppn start start_pa sz flags =
     map_pages_loop s root_ppn (va_range start (start + scast sz)) (drop_bit 12 start_pa) flags"

definition already_mapped :: fault where
  "already_mapped = Panic (''[map_segment] Virtual address already mapped!'' @ [CHR 0x0A])"

fun map_segment_loop ::
  "bstate \<Rightarrow> usize \<Rightarrow> segment \<Rightarrow> u64 list \<Rightarrow> addr \<Rightarrow> usize \<Rightarrow> bstate outcome" where
  "map_segment_loop s root_ppn seg [] data len = Inr s"
| "map_segment_loop s root_ppn seg (vpn # vpns) data len =
     bindE (find_entry s root_ppn vpn True) (\<lambda>(entry, s1).
     if load64 (fst s1) entry \<noteq> 0 then Inl already_mapped
     else bindE (if seg_type seg = Linear then Inr (ppn_of vpn, s1) else alloc_frame s1) (\<lambda>(ppn, m, b).
       let m1 = store64 m entry (PPN2PTE ppn (seg_flags seg)) in
       if data \<noteq> 0 then
         (let dst = page_va ppn;
              sz = (if PAGE_SIZE \<le> len then PAGE_SIZE else len)
          in map_segment_loop (copy_bytes (unat sz) m1 dst data, b) root_ppn seg vpns
               (data + sz) (len - sz))
       else map_segment_loop (m1, b) root_ppn seg vpns data len))"

definition map_segment :: "bstate \<Rightarrow> usize \<Rightarrow> segment \<Rightarrow> addr \<Rightarrow> usize \<Rightarrow> bstate outcome" where
  "map_segment s root_ppn seg data len =
     map_segment_loop s root_ppn seg (va_range (start_va seg) (end_va seg)) data len"

definition no_pte :: fault where
  "no_pte = Panic (''[unmap_segment] Can't find pte'' @ [CHR 0x0A])"

fun unmap_segment_loop :: "bstate \<Rightarrow> usize \<Rightarrow> u64 list \<Rightarrow> bstate outcome" where
  "unmap_segment_loop s root_ppn [] = Inr s"
| "unmap_segment_loop s root_ppn (vpn # vpns) =
     bindE (find_entry s root_ppn vpn False) (\<lambda>(entry, s1).
     if entry = 0 then Inl no_pte
     else bindE (dealloc_frame s1 (PTE2PPN (load64 (fst s1) entry))) (\<lambda>s2.
       unmap_segment_loop s2 root_ppn vpns))"

definition unmap_segment :: "bstate \<Rightarrow> usize \<Rightarrow> segment \<Rightarrow> bstate outcome" where
  "unmap_segment s root_ppn seg =
     (if seg_type seg = Linear then Inr s
      else unmap_segment_loop s root_ppn (va_range (start_va seg) (end_va seg)))"

section \<open>Ranges and copies\<close>

lemma unat_drop12: "unat (drop_bit 12 (w :: u64)) = unat w div 4096"
  by (simp only: unat_drop_bit_eq) (simp add: drop_bit_eq_div)

lemma va_range_bound: "unat (drop_bit 12 (e - 1) + 1 :: u64) \<le> 2 ^ 52"
proof -
  have "unat (drop_bit 12 (e - 1) :: u64) < 2 ^ 52"
    using unsigned_less [of "e - 1", where ?'a = nat] by (simp add: unat_drop12)
  then show ?thesis by (simp add: unat_plus_if')
qed

lemma va_range_nth:
  assumes "i < length (va_range a e)"
  shows "va_range a e ! i = drop_bit 12 a + of_nat i"
    and "unat (va_range a e ! i) = unat a div 4096 + i"
proof -
  have i: "unat (drop_bit 12 a) + i < unat (drop_bit 12 (e - 1) + 1)"
    using assms by (simp add: va_range_def)
  then show "va_range a e ! i = drop_bit 12 a + of_nat i"
    by (simp add: va_range_def)
  have "unat (drop_bit 12 a) + i < 2 ^ 64" using i va_range_bound [of e] by simp
  then have "unat (of_nat (unat (drop_bit 12 a) + i) :: u64) = unat a div 4096 + i"
    by (simp only: unat_of_nat unat_drop12) simp
  then show "unat (va_range a e ! i) = unat a div 4096 + i"
    using i by (simp add: va_range_def del: of_nat_add)
qed

lemma mod_injective:
  fixes i j n c :: nat
  assumes "i < n" and "j < n" and "i \<noteq> j"
  shows "(c + i) mod n \<noteq> (c + j) mod n"
proof -
  have *: "(c + i) mod n \<noteq> (c + j) mod n" if "i < j" "j < n" for i j
  proof
    assume "(c + i) mod n = (c + j) mod n"
    then have "n dvd (c + j) - (c + i)" using that by (metis add_le_cancel_left less_imp_le mod_eq_dvd_iff_nat)
    then have "n dvd j - i" by simp
    with that show False by (auto dest: dvd_imp_le)
  qed
  show ?thesis
    using *[of i j] *[of j i] assms by (cases "i < j") (auto simp: linorder_neq_iff)
qed

text \<open>Page numbers less than 2 ^ 27 apart have different entries.\<close>

lemma va_range_distinct:
  assumes "length (va_range a e) \<le> 2 ^ 27"
  shows "distinct (map (take_bit 27) (va_range a e))"
  unfolding distinct_conv_nth
proof (intro allI impI)
  fix i j assume "i < length (map (take_bit 27) (va_range a e))"
    "j < length (map (take_bit 27) (va_range a e))" and "i \<noteq> j"
  then have ij: "i < length (va_range a e)" "j < length (va_range a e)" by simp_all
  have lt: "i < 134217728" "j < 134217728" using ij assms by simp_all
  have "(unat a div 4096 + i) mod 2 ^ 27 \<noteq> (unat a div 4096 + j) mod 2 ^ 27"
    using mod_injective [OF lt \<open>i \<noteq> j\<close>] by simp
  moreover have "unat (take_bit 27 w) = unat w mod 2 ^ 27" for w :: u64
    by (simp only: unsigned_take_bit_eq) (simp add: take_bit_eq_mod)
  ultimately show "map (take_bit 27) (va_range a e) ! i \<noteq> map (take_bit 27) (va_range a e) ! j"
    using ij by (metis nth_map va_range_nth(2))
qed

lemma copy_bytes_apply:
  assumes "n \<le> 2 ^ 64" and "bytes_at src n \<inter> bytes_at dst n = {}"
  shows "copy_bytes n m dst src x = (if x \<in> bytes_at dst n then m (src + (x - dst)) else m x)"
  using assms
proof (induction n arbitrary: x)
  case 0
  then show ?case by (simp add: copy_bytes_def bytes_at_def)
next
  case (Suc n)
  have sub: "bytes_at a n \<subseteq> bytes_at a (Suc n)" for a by (auto simp: bytes_at_def)
  have IH: "copy_bytes n m dst src y = (if y \<in> bytes_at dst n then m (src + (y - dst)) else m y)" for y
    using Suc.prems sub [of src] sub [of dst] by (intro Suc.IH) auto
  have eq: "copy_bytes (Suc n) m dst src =
      (copy_bytes n m dst src)(dst + of_nat n := copy_bytes n m dst src (src + of_nat n))"
    by (simp add: copy_bytes_def)
  have lt: "unat (of_nat n :: u64) = n" using Suc.prems(1) by (simp add: unat_of_nat)
  have "src + of_nat n \<in> bytes_at src (Suc n)" using lt by (simp add: bytes_at_def)
  then have "src + of_nat n \<notin> bytes_at dst n" using Suc.prems(2) sub by blast
  then have v: "copy_bytes n m dst src (src + of_nat n) = m (src + of_nat n)" by (simp add: IH)
  have iff: "x = dst + of_nat n \<longleftrightarrow> unat (x - dst) = n"
    using lt by (metis add.commute add_diff_cancel_right' diff_add_cancel word_unat_eq_iff)
  show ?case
  proof (cases "x = dst + of_nat n")
    case True
    then show ?thesis using lt by (simp add: eq v bytes_at_def)
  next
    case False
    then have "x \<in> bytes_at dst (Suc n) \<longleftrightarrow> x \<in> bytes_at dst n"
      using iff by (auto simp: bytes_at_def)
    with False IH show ?thesis by (simp add: eq)
  qed
qed

lemma copy_bytes_same:
  "n \<le> 2 ^ 64 \<Longrightarrow> same_outside (bytes_at dst n) m (copy_bytes n m dst src)"
proof (induction n)
  case (Suc n)
  have "unat (of_nat n :: u64) = n" using Suc.prems by (simp add: unat_of_nat)
  with Suc show ?case
    by (auto simp: copy_bytes_def same_outside_def bytes_at_def)
qed (simp add: copy_bytes_def)

section \<open>How an address space evolves\<close>

text \<open>
  From \<open>s\<close> to \<open>s'\<close> new tables and the pages in \<open>N\<close> have been taken from the free memory, and
  nothing but free memory and tables has been written.
\<close>

definition evolved ::
  "addr set \<Rightarrow> bstate \<Rightarrow> addr set \<Rightarrow> tree \<Rightarrow> bstate \<Rightarrow> addr set \<Rightarrow> tree \<Rightarrow> u64 set \<Rightarrow> bool" where
  "evolved R s F tab s' F' tab' N \<longleftrightarrow> pt_inv R s' F' tab' \<and> tab \<subseteq>\<^sub>m tab' \<and>
     F' = F - page_set (ran tab') - page_set N \<and>
     page_set (ran tab') \<subseteq> page_set (ran tab) \<union> F \<and> page_set N \<subseteq> F \<and>
     page_set N \<inter> page_set (ran tab') = {} \<and> (\<forall>p \<in> N. p < 2 ^ 44) \<and>
     same_outside (F \<union> page_set (ran tab)) (fst s) (fst s')"

lemma evolvedD:
  assumes "evolved R s F tab s' F' tab' N"
  shows "pt_inv R s' F' tab'" and "tab \<subseteq>\<^sub>m tab'" and "F' = F - page_set (ran tab') - page_set N"
    and "page_set (ran tab') \<subseteq> page_set (ran tab) \<union> F" and "page_set N \<subseteq> F"
    and "page_set N \<inter> page_set (ran tab') = {}" and "\<forall>p \<in> N. p < 2 ^ 44"
    and "same_outside (F \<union> page_set (ran tab)) (fst s) (fst s')"
  using assms unfolding evolved_def by blast+

lemma evolved_refl: "pt_inv R s F tab \<Longrightarrow> evolved R s F tab s F tab {}"
  by (auto simp: evolved_def pt_inv_def)

lemma map_le_page_set: "tab \<subseteq>\<^sub>m tab' \<Longrightarrow> page_set (ran tab) \<subseteq> page_set (ran tab')"
proof (rule page_set_mono)
  assume le: "tab \<subseteq>\<^sub>m tab'"
  show "ran tab \<subseteq> ran tab'"
  proof
    fix q assume "q \<in> ran tab"
    then obtain p where "tab p = Some q" by (auto simp: ran_def)
    with le have "tab' p = Some q" by (auto simp: map_le_def dom_def)
    then show "q \<in> ran tab'" by (rule ranI)
  qed
qed

lemma evolved_trans:
  assumes "evolved R s F tab s1 F1 tab1 N1" and "evolved R s1 F1 tab1 s2 F2 tab2 N2"
  shows "evolved R s F tab s2 F2 tab2 (N1 \<union> N2)"
proof -
  note e1 = evolvedD [OF assms(1)] and e2 = evolvedD [OF assms(2)]
  note le = map_le_page_set [OF e2(2)]
  have "same_outside (F \<union> page_set (ran tab)) (fst s1) (fst s2)"
    by (rule same_outside_mono [OF e2(8)]) (use e1(3,4) in auto)
  with e1(8) have "same_outside (F \<union> page_set (ran tab)) (fst s) (fst s2)"
    by (rule same_outside_trans)
  moreover have "page_set N1 \<inter> page_set (ran tab2) = {}" using e1(3,5,6) e2(4) by blast
  moreover have "F2 = F - page_set (ran tab2) - (page_set N1 \<union> page_set N2)"
    using e1(3) e2(3) le by blast
  moreover have "page_set (ran tab2) \<subseteq> page_set (ran tab) \<union> F" using e1(3,4) e2(4) by blast
  moreover have "page_set N2 \<subseteq> F" using e1(3) e2(5) by blast
  ultimately show ?thesis
    using e1 e2 map_le_trans [OF e1(2) e2(2)] unfolding evolved_def page_set_Un by blast
qed

text \<open>Writing to the new pages changes nothing of the address space.\<close>

lemma evolved_write:
  assumes ev: "evolved R s F tab (m, b) F' tab' N" and same: "same_outside (page_set N) m m'"
  shows "evolved R s F tab (m', b) F' tab' N" and "leaf m' tab' v = leaf m tab' v"
proof -
  note e = evolvedD [OF ev]
  have "buddy_inv R (m, b) F'" "tree_ok m tab'" using e(1) by (simp_all add: pt_inv_def)
  have "buddy_inv R (m', b) F'"
    by (rule buddy_inv_same_free [of R m b F'], fact, rule same_outside_mono [OF same])
      (use e(3) in blast)
  moreover have "tree_ok m' tab'"
    by (rule tree_frame [OF \<open>tree_ok m tab'\<close> same]) (use e(6) in blast)
  moreover have "same_outside (F \<union> page_set (ran tab)) m m'"
    by (rule same_outside_mono [OF same]) (use e(5) in blast)
  ultimately show "evolved R s F tab (m', b) F' tab' N"
    using ev by (auto simp: evolved_def pt_inv_def intro: same_outside_trans)
  show "leaf m' tab' v = leaf m tab' v"
    by (rule tree_frame [OF \<open>tree_ok m tab'\<close> same]) (use e(6) in blast)
qed

lemma grown_evolved: "grown R s F tab s' F' tab' \<Longrightarrow> evolved R s F tab s' F' tab' {}"
  unfolding grown_def evolved_def by (intro conjI) (elim conjE, assumption | simp)+

lemma pt_root: "tab [] = Some root \<Longrightarrow> tab \<subseteq>\<^sub>m tab' \<Longrightarrow> tab' [] = Some root"
  by (metis domI map_le_def)

section \<open>Mapping one page\<close>

lemma map_entry:
  assumes inv: "pt_inv R s F tab" and root: "tab [] = Some root"
  shows "case find_entry s root vpn True of
      Inl e \<Rightarrow> e = Panic ''Not enough memory!'' \<and> \<not> pages_free F 2
    | Inr (a, m, b) \<Rightarrow> load64 m a = leaf (fst s) tab vpn \<and>
        (\<exists>F' tab'. evolved R s F tab (store64 m a pte, b) F' tab' {} \<and>
          (\<forall>v. leaf (store64 m a pte) tab' v =
             (if take_bit 27 v = take_bit 27 vpn then pte else leaf (fst s) tab v)) \<and>
          (\<forall>n. pages_free F (2 + n) \<longrightarrow> pages_free F' n))"
proof (cases "find_entry s root vpn True")
  case (Inl e)
  then show ?thesis using find_entry_build [OF inv root, of vpn] by simp
next
  case (Inr r)
  obtain a m b where r: "find_entry s root vpn True = Inr (a, m, b)" using Inr by (cases r) auto
  then obtain F' tab' q where g: "grown R s F tab (m, b) F' tab'" "tab' (levels_path vpn) = Some q"
    "a = entry_addr (page_va q) (get_vpn_levels vpn ! 0)"
    "\<forall>n. pages_free F (2 + n) \<longrightarrow> pages_free F' n"
    using find_entry_build [OF inv root, of vpn] by auto
  have pt: "pt_inv R (m, b) F' tab'" and lf: "\<And>v. leaf m tab' v = leaf (fst s) tab v"
    using g(1) unfolding grown_def by (blast, simp)
  note w = write_entry [OF pt g(2), of pte, folded g(3)]
  have "evolved R (m, b) F' tab' (store64 m a pte, b) F' tab' {}"
    using w(1) same_outside_mono [OF w(3)] pt by (auto simp: evolved_def pt_inv_def)
  with grown_evolved [OF g(1)] have "evolved R s F tab (store64 m a pte, b) F' tab' ({} \<union> {})"
    by (rule evolved_trans)
  moreover have "load64 m a = leaf (fst s) tab vpn"
    using lf [of vpn] g(2,3) by (simp add: leaf_def)
  moreover have "\<forall>v. leaf (store64 m a pte) tab' v =
      (if take_bit 27 v = take_bit 27 vpn then pte else leaf (fst s) tab v)"
    by (simp add: w(2) lf)
  ultimately show ?thesis unfolding r sum.case prod.case Un_empty_left using g(4) by blast
qed

text \<open>
  The effect of a range: the \<open>i\<close>-th page has the \<open>i\<close>-th entry, all others are as before.
\<close>

definition mapped :: "(u64 \<Rightarrow> u64) \<Rightarrow> u64 list \<Rightarrow> u64 list \<Rightarrow> (u64 \<Rightarrow> u64) \<Rightarrow> bool" where
  "mapped l vpns ptes l' \<longleftrightarrow> length ptes = length vpns \<and>
     (\<forall>v. l' v = (case map_of (zip (map (take_bit 27) vpns) ptes) (take_bit 27 v) of
                    None \<Rightarrow> l v | Some pte \<Rightarrow> pte))"

lemma mapped_Nil: "mapped l [] [] l"
  by (simp add: mapped_def)

lemma mapped_Cons:
  assumes "\<forall>v. l1 v = (if take_bit 27 v = take_bit 27 vpn then pte else l v)"
    and "mapped l1 vpns ptes l'" and "take_bit 27 vpn \<notin> take_bit 27 ` set vpns"
  shows "mapped l (vpn # vpns) (pte # ptes) l'"
proof -
  have "map_of (zip (map (take_bit 27) vpns) ptes) (take_bit 27 vpn) = None"
    using assms(2,3) by (subst map_of_zip_is_None) (simp_all add: mapped_def)
  with assms(1,2) show ?thesis
    by (auto simp: mapped_def simp del: map_of_zip_is_None split: option.splits)
qed

lemma mapped_nth:
  assumes "mapped l vpns ptes l'" and "distinct (map (take_bit 27) vpns)" and "i < length vpns"
  shows "l' (vpns ! i) = ptes ! i"
  using assms map_of_zip_nth [of "map (take_bit 27) vpns" ptes i] by (simp add: mapped_def)

lemma mapped_other:
  assumes "mapped l vpns ptes l'" and "take_bit 27 v \<notin> take_bit 27 ` set vpns"
  shows "l' v = l v"
proof -
  have "map_of (zip (map (take_bit 27) vpns) ptes) (take_bit 27 v) = None"
    using assms by (subst map_of_zip_is_None) (simp_all add: mapped_def)
  with assms(1) show ?thesis by (simp add: mapped_def del: map_of_zip_is_None)
qed

section \<open>map_pages\<close>

lemma map_pages_loop_spec:
  assumes "pt_inv R s F tab" and "tab [] = Some root" and "distinct (map (take_bit 27) vpns)"
  shows "case map_pages_loop s root vpns ppn flags of
      Inl e \<Rightarrow> e = Panic ''Not enough memory!'' \<and> \<not> pages_free F (2 * length vpns)
    | Inr s' \<Rightarrow> \<exists>F' tab'. evolved R s F tab s' F' tab' {} \<and>
        mapped (leaf (fst s) tab) vpns
          (map (\<lambda>i. PPN2PTE (ppn + of_nat i) flags) [0..<length vpns]) (leaf (fst s') tab') \<and>
        (\<forall>n. pages_free F (2 * length vpns + n) \<longrightarrow> pages_free F' n)"
  using assms
proof (induction vpns arbitrary: s F tab ppn)
  case Nil
  then show ?case using evolved_refl mapped_Nil by fastforce
next
  case (Cons vpn vpns)
  have two: "pages_free F 2" if "pages_free F (2 * length (vpn # vpns))"
    using that by (rule pages_free_less) simp
  note me = map_entry [OF Cons.prems(1,2), of vpn "PPN2PTE ppn flags"]
  show ?case
  proof (cases "find_entry s root vpn True")
    case (Inl e)
    then show ?thesis using me two by auto
  next
    case (Inr r)
    obtain a m b where r: "r = (a, m, b)" by (cases r)
    define m1 where "m1 = store64 m a (PPN2PTE ppn flags)"
    obtain F1 tab1 where e1: "evolved R s F tab (m1, b) F1 tab1 {}"
      and l1: "\<forall>v. leaf m1 tab1 v =
         (if take_bit 27 v = take_bit 27 vpn then PPN2PTE ppn flags else leaf (fst s) tab v)"
      and pf: "\<forall>n. pages_free F (2 + n) \<longrightarrow> pages_free F1 n"
      using me Inr r by (auto simp: m1_def)
    note IH = Cons.IH [OF evolvedD(1) [OF e1] pt_root [OF Cons.prems(2) evolvedD(2) [OF e1]],
        of "ppn + 1"]
    have eq: "map_pages_loop s root (vpn # vpns) ppn flags =
        map_pages_loop (m1, b) root vpns (ppn + 1) flags"
      by (simp add: Inr r m1_def)
    have ptes: "map (\<lambda>i. PPN2PTE (ppn + of_nat i) flags) [0..<length (vpn # vpns)] =
        PPN2PTE ppn flags # map (\<lambda>i. PPN2PTE (ppn + 1 + of_nat i) flags) [0..<length vpns]"
      by (simp add: upt_conv_Cons map_Suc_upt [symmetric] add.commute add.left_commute del: upt_Suc)
    have dist: "distinct (map (take_bit 27) vpns)" "take_bit 27 vpn \<notin> take_bit 27 ` set vpns"
      using Cons.prems(3) by simp_all
    show ?thesis
    proof (cases "map_pages_loop (m1, b) root vpns (ppn + 1) flags")
      case (Inl e)
      then show ?thesis using IH dist(1) pf by (simp only: eq) auto
    next
      case (Inr s')
      then obtain F' tab' where e2: "evolved R (m1, b) F1 tab1 s' F' tab' {}"
        and mp: "mapped (leaf m1 tab1) vpns
          (map (\<lambda>i. PPN2PTE (ppn + 1 + of_nat i) flags) [0..<length vpns]) (leaf (fst s') tab')"
        and pf2: "\<forall>n. pages_free F1 (2 * length vpns + n) \<longrightarrow> pages_free F' n"
        using IH dist(1) by auto
      have "evolved R s F tab s' F' tab' {}" using evolved_trans [OF e1 e2] by simp
      moreover note mapped_Cons [OF l1 mp dist(2), folded ptes]
      moreover have "pages_free F' n" if "pages_free F (2 * length (vpn # vpns) + n)" for n
        using pf2 pf that by simp
      ultimately show ?thesis unfolding eq Inr sum.case by blast
    qed
  qed
qed


section \<open>map_segment\<close>

text \<open>The byte at offset \<open>k\<close> of a mapped segment: its data, followed by zeros.\<close>

definition seg_byte :: "mem \<Rightarrow> addr \<Rightarrow> usize \<Rightarrow> nat \<Rightarrow> u8" where
  "seg_byte m data len k = (if data \<noteq> 0 \<and> k < unat len then m (data + of_nat k) else 0)"

definition data_ok :: "addr \<Rightarrow> usize \<Rightarrow> addr set \<Rightarrow> bool" where
  "data_ok data len S \<longleftrightarrow>
     data = 0 \<or> unat data + unat len \<le> 2 ^ 64 \<and> bytes_at data (unat len) \<inter> S = {}"

definition pages_hold :: "mem \<Rightarrow> u64 list \<Rightarrow> (nat \<Rightarrow> u8) \<Rightarrow> bool" where
  "pages_hold m ps f \<longleftrightarrow>
     (\<forall>i < length ps. \<forall>x \<in> blk 12 (page_va (ps ! i)).
        m x = f (4096 * i + unat (x - page_va (ps ! i))))"

lemma page_offset_less: "x \<in> blk 12 (page_va p) \<Longrightarrow> unat (x - page_va p) < 4096"
  using bytes_at_blk [of 12 "page_va p"] by (auto simp: bytes_at_def)

lemma pages_hold_Cons:
  assumes "\<forall>x \<in> blk 12 (page_va p). m x = f (unat (x - page_va p))"
    and "pages_hold m ps (\<lambda>k. f (4096 + k))"
  shows "pages_hold m (p # ps) f"
  unfolding pages_hold_def
proof (intro allI impI ballI)
  fix i x assume "i < length (p # ps)" "x \<in> blk 12 (page_va ((p # ps) ! i))"
  then show "m x = f (4096 * i + unat (x - page_va ((p # ps) ! i)))"
    using assms by (cases i) (auto simp: pages_hold_def algebra_simps)
qed

lemma pages_hold_cong:
  assumes "pages_hold m ps f" and "\<And>x. x \<in> page_set (set ps) \<Longrightarrow> m' x = m x"
  shows "pages_hold m' ps f"
  using assms page_in_set [of _ "set ps"] by (force simp: pages_hold_def)

text \<open>One page of a framed segment: a fresh zeroed page with the next piece of the data.\<close>

lemma framed_page:
  assumes inv: "pt_inv R s F tab" and root: "tab [] = Some root"
    and new: "leaf (fst s) tab vpn = 0" and data: "data_ok data len (F \<union> page_set (ran tab))"
  shows "case find_entry s root vpn True of
      Inl e \<Rightarrow> e = Panic ''Not enough memory!'' \<and> \<not> pages_free F 3
    | Inr (a, s1) \<Rightarrow> load64 (fst s1) a = 0 \<and>
        (case alloc_frame s1 of
           Inl e \<Rightarrow> e = Panic ''Not enough memory!'' \<and> \<not> pages_free F 3
         | Inr (p, m, b) \<Rightarrow>
             (let m1 = store64 m a (PPN2PTE p flags);
                  sz = (if PAGE_SIZE \<le> len then PAGE_SIZE else len);
                  m2 = (if data \<noteq> 0 then copy_bytes (unat sz) m1 (page_va p) data else m1)
              in \<exists>F' tab'. evolved R s F tab (m2, b) F' tab' {p} \<and>
                   (\<forall>v. leaf m2 tab' v = (if take_bit 27 v = take_bit 27 vpn then PPN2PTE p flags
                                       else leaf (fst s) tab v)) \<and>
                   (\<forall>x \<in> blk 12 (page_va p). m2 x = seg_byte (fst s) data len (unat (x - page_va p))) \<and>
                   (\<forall>n. pages_free F (3 + n) \<longrightarrow> pages_free F' n)))"
proof (cases "find_entry s root vpn True")
  case (Inl e)
  then show ?thesis
    using find_entry_build [OF inv root, of vpn] pages_free_less [of F 3 2] by auto
next
  case (Inr r)
  obtain a s1 where r: "find_entry s root vpn True = Inr (a, s1)" using Inr by (cases r) auto
  then obtain F1 tab1 q where g: "grown R s F tab s1 F1 tab1" "tab1 (levels_path vpn) = Some q"
    "a = entry_addr (page_va q) (get_vpn_levels vpn ! 0)"
    and pf1: "\<And>n. pages_free F (2 + n) \<Longrightarrow> pages_free F1 n"
    using find_entry_build [OF inv root, of vpn] by auto
  have pt1: "pt_inv R s1 F1 tab1" and l1: "\<And>v. leaf (fst s1) tab1 v = leaf (fst s) tab v"
    using g(1) unfolding grown_def by (blast, simp)
  note e1 = grown_evolved [OF g(1)]
  have zero: "load64 (fst s1) a = 0" using l1 [of vpn] g(2,3) new by (simp add: leaf_def)
  have binv: "buddy_inv R s1 F1" and win: "in_window R" using pt1 by (simp_all add: pt_inv_def)
  show ?thesis
  proof (cases "alloc_frame s1")
    case (Inl e)
    moreover have "\<not> pages_free F 3"
      using pages_free_alloc [OF binv, of 0] pf1 [of 1] Inl by auto
    ultimately show ?thesis using alloc_frame_spec [OF binv] zero r by simp
  next
    case (Inr t)
    obtain p m b where t: "alloc_frame s1 = Inr (p, m, b)" using Inr by (cases t) auto
    note fr = frames.frame_fresh [OF binv t, simplified]
    note p44 = alloc_frame_number [OF binv win t]
    define B where "B = blk 12 (page_va p)"
    have BF: "B \<subseteq> F1" and B0: "\<forall>x \<in> B. m x = 0" and sm: "same_outside F1 (fst s1) m"
      and bm: "buddy_inv R (m, b) (F1 - B)"
      using fr by (simp_all add: B_def)
    have tF1: "page_set (ran tab1) \<inter> F1 = {}" and tR: "page_set (ran tab1) \<subseteq> R"
      using pt1 by (auto simp: pt_inv_def)
    have okm: "tree_ok m tab1" and lm: "leaf m tab1 v = leaf (fst s) tab v" for v
      using tree_frame(1) [OF _ sm tF1] tree_frame(2) [OF _ sm tF1, where vpn = v] pt1 l1 [of v]
      by (simp_all add: pt_inv_def)
    have ptm: "pt_inv R (m, b) (F1 - B) tab1"
      using bm win okm tF1 tR by (auto simp: pt_inv_def)
    define m1 where "m1 = store64 m a (PPN2PTE p flags)"
    note w = write_entry [OF ptm g(2), of "PPN2PTE p flags", folded g(3) m1_def]
    have same1: "same_outside (F1 \<union> page_set (ran tab1)) (fst s1) m1"
      using sm w(3) by (auto simp: same_outside_def)
    have eB: "evolved R s1 F1 tab1 (m1, b) (F1 - B) tab1 {p}"
      using w(1) BF tF1 p44 same1 by (auto simp: evolved_def B_def)
    have ev: "evolved R s F tab (m1, b) (F1 - B) tab1 {p}"
      using evolved_trans [OF e1 eB] by simp
    define sz where "sz = (if PAGE_SIZE \<le> len then PAGE_SIZE else len)"
    define m2 where "m2 = (if data \<noteq> 0 then copy_bytes (unat sz) m1 (page_va p) data else m1)"
    have sz: "unat sz = min 4096 (unat len)"
      by (simp add: sz_def PAGE_SIZE_def word_le_nat_alt min_def)
    have subB: "bytes_at (page_va p) (unat sz) \<subseteq> B"
      using bytes_at_blk [of 12 "page_va p"] by (auto simp: B_def sz bytes_at_def)
    have same2: "same_outside (page_set {p}) m1 m2"
      using same_outside_mono [OF copy_bytes_same subB] sz by (auto simp: m2_def B_def)
    note ew = evolved_write [OF ev same2]
    have "\<forall>v. leaf m2 tab1 v =
        (if take_bit 27 v = take_bit 27 vpn then PPN2PTE p flags else leaf (fst s) tab v)"
      by (simp add: ew(2) w(2) lm)
    moreover have "m2 x = seg_byte (fst s) data len (unat (x - page_va p))" if x: "x \<in> B" for x
    proof -
      have "x \<notin> page_set (ran tab1)" using x BF tF1 by blast
      then have m1x: "m1 x = 0" using w(3) B0 x by (auto simp: same_outside_def)
      show ?thesis
      proof (cases "data = 0")
        case True
        then show ?thesis using m1x by (simp add: m2_def seg_byte_def)
      next
        case False
        then have dis: "bytes_at data (unat len) \<inter> (F \<union> page_set (ran tab)) = {}"
          using data by (simp add: data_ok_def)
        have "F1 \<subseteq> F" using g(1) by (auto simp: grown_def)
        have subd: "bytes_at data (unat sz) \<subseteq> bytes_at data (unat len)"
          by (auto simp: bytes_at_def sz)
        have "bytes_at data (unat sz) \<inter> bytes_at (page_va p) (unat sz) = {}"
          using dis subd subB BF \<open>F1 \<subseteq> F\<close> by blast
        then have m2x: "m2 x = (if x \<in> bytes_at (page_va p) (unat sz)
            then m1 (data + (x - page_va p)) else m1 x)"
          using False sz by (simp add: m2_def copy_bytes_apply)
        have "m1 (data + (x - page_va p)) = fst s (data + (x - page_va p))"
          if "unat (x - page_va p) < unat len"
        proof -
          have "data + (x - page_va p) \<in> bytes_at data (unat len)"
            using that by (simp add: bytes_at_def)
          then have "data + (x - page_va p) \<notin> F \<union> page_set (ran tab)" using dis by blast
          then show ?thesis using evolvedD(8) [OF ev] by (auto simp: same_outside_def)
        qed
        moreover have "unat (x - page_va p) < 4096" using x by (auto simp: B_def dest: page_offset_less)
        moreover have "of_nat (unat (x - page_va p)) = x - page_va p" by simp
        ultimately show ?thesis using False m1x
          by (auto simp: m2x seg_byte_def bytes_at_def sz simp del: of_nat_unat)
      qed
    qed
    moreover have "pages_free (F1 - B) n" if "pages_free F (3 + n)" for n
      using pages_free_take [OF pf1 [of "Suc n"] p44] that by (simp add: B_def numeral_3_eq_3)
    ultimately have "\<exists>F' tab'. evolved R s F tab (m2, b) F' tab' {p} \<and>
        (\<forall>v. leaf m2 tab' v = (if take_bit 27 v = take_bit 27 vpn then PPN2PTE p flags
           else leaf (fst s) tab v)) \<and>
        (\<forall>x \<in> blk 12 (page_va p). m2 x = seg_byte (fst s) data len (unat (x - page_va p))) \<and>
        (\<forall>n. pages_free F (3 + n) \<longrightarrow> pages_free F' n)"
      using ew(1) unfolding B_def by blast
    with zero show ?thesis
      unfolding r sum.case prod.case t Let_def m1_def [symmetric] sz_def [symmetric] m2_def [symmetric]
      by blast
  qed
qed


lemma seg_byte_next:
  assumes "data \<noteq> 0" and "unat data + unat len \<le> 2 ^ 64"
    and "\<And>x. x \<in> bytes_at data (unat len) \<Longrightarrow> m' x = m x"
  defines "sz \<equiv> if PAGE_SIZE \<le> len then PAGE_SIZE else len"
  shows "seg_byte m' (data + sz) (len - sz) k = seg_byte m data len (4096 + k)"
proof (cases "PAGE_SIZE \<le> len \<and> 4096 + k < unat len")
  case True
  then have sz: "sz = 4096" and len: "4096 + k < unat len" by (auto simp: sz_def PAGE_SIZE_def)
  have l: "unat (len - sz) = unat len - 4096" using True by (simp add: sz unat_sub PAGE_SIZE_def)
  have "unat (data + sz) = unat data + 4096" using assms(2) len by (simp add: sz unat_plus_if')
  then have nz: "data + sz \<noteq> 0" by auto
  have k: "unat (of_nat (4096 + k) :: u64) = 4096 + k"
    using len unsigned_less [of len, where ?'a = nat] by (simp only: unat_of_nat) simp
  have eq: "data + sz + of_nat k = data + of_nat (4096 + k)" by (simp add: sz)
  have "data + of_nat (4096 + k) \<in> bytes_at data (unat len)"
    using len k by (simp add: bytes_at_def del: of_nat_add)
  then have "m' (data + sz + of_nat k) = m (data + of_nat (4096 + k))"
    unfolding eq by (rule assms(3))
  moreover have "k < unat (len - sz)" using l len by simp
  ultimately show ?thesis using nz assms(1) len by (simp only: seg_byte_def simp_thms if_True)
next
  case False
  have "\<not> k < unat (len - sz)"
  proof (cases "PAGE_SIZE \<le> len")
    case True
    then show ?thesis using False by (simp add: sz_def unat_sub PAGE_SIZE_def)
  qed (simp add: sz_def)
  moreover have "\<not> 4096 + k < unat len"
    using False by (auto simp: PAGE_SIZE_def word_le_nat_alt)
  ultimately show ?thesis by (simp add: seg_byte_def)
qed

lemma data_ok_next:
  assumes "data \<noteq> 0" and "data_ok data len S" and "S' \<subseteq> S"
  defines "sz \<equiv> if PAGE_SIZE \<le> len then PAGE_SIZE else len"
  shows "data_ok (data + sz) (len - sz) S'"
proof (cases "data + sz = 0")
  case False
  have le: "sz \<le> len" by (simp add: sz_def)
  have d: "unat data + unat len \<le> 2 ^ 64" "bytes_at data (unat len) \<inter> S = {}"
    using assms(1,2) by (simp_all add: data_ok_def)
  have l: "unat (len - sz) = unat len - unat sz" "unat sz \<le> unat len"
    using le by (simp_all add: unat_sub word_le_nat_alt)
  have "unat data + unat sz < 2 ^ 64"
  proof (rule ccontr)
    assume "\<not> ?thesis"
    then have "unat data + unat sz = 2 ^ 64" using d(1) l(2) by simp
    then have "data + sz = 0" by (simp add: word_unat_eq_iff unat_plus_if')
    with False show False by simp
  qed
  then have u: "unat (data + sz) = unat data + unat sz" by (simp add: unat_plus_if')
  have "bytes_at (data + sz) (unat (len - sz)) \<subseteq> bytes_at data (unat len)"
  proof
    fix x assume "x \<in> bytes_at (data + sz) (unat (len - sz))"
    then have a: "unat (x - (data + sz)) < unat len - unat sz" by (simp add: bytes_at_def l)
    then have "unat (x - (data + sz)) + unat sz < 2 ^ 64"
      using unsigned_less [of len, where ?'a = nat] by simp
    then have "unat (x - (data + sz) + sz) = unat (x - (data + sz)) + unat sz"
      by (simp only: unat_plus_if') simp
    moreover have "x - (data + sz) + sz = x - data" by simp
    ultimately show "x \<in> bytes_at data (unat len)" using a by (simp add: bytes_at_def)
  qed
  then show ?thesis using d assms(3) u l by (auto simp: data_ok_def)
qed (simp add: data_ok_def)

lemma page_in_pages_ne: "p \<in> P \<Longrightarrow> page_set P \<inter> blk 12 (page_va p) \<noteq> {}"
  using page_in_set [of p P] self_in_blk [of "page_va p" 12] by blast

lemma map_segment_loop_framed:
  assumes "seg_type seg = Framed" and "pt_inv R s F tab" and "tab [] = Some root"
    and "distinct (map (take_bit 27) vpns)" and "data_ok data len (F \<union> page_set (ran tab))"
  shows "case map_segment_loop s root seg vpns data len of
      Inl e \<Rightarrow> e = Panic ''Not enough memory!'' \<and> \<not> pages_free F (3 * length vpns) \<or>
        e = already_mapped \<and> (\<exists>v \<in> set vpns. leaf (fst s) tab v \<noteq> 0)
    | Inr s' \<Rightarrow> (\<forall>v \<in> set vpns. leaf (fst s) tab v = 0) \<and>
        (\<exists>F' tab' ps. distinct ps \<and> evolved R s F tab s' F' tab' (set ps) \<and>
          mapped (leaf (fst s) tab) vpns (map (\<lambda>p. PPN2PTE p (seg_flags seg)) ps) (leaf (fst s') tab') \<and>
          pages_hold (fst s') ps (seg_byte (fst s) data len) \<and>
          (\<forall>n. pages_free F (3 * length vpns + n) \<longrightarrow> pages_free F' n))"
  using assms(2-5)
proof (induction vpns arbitrary: s F tab data len)
  case Nil
  have "mapped (leaf (fst s) tab) [] (map (\<lambda>p. PPN2PTE p (seg_flags seg)) []) (leaf (fst s) tab)"
    by (simp add: mapped_Nil)
  moreover have "pages_hold (fst s) [] (seg_byte (fst s) data len)" by (simp add: pages_hold_def)
  moreover have "evolved R s F tab s F tab (set [])" using evolved_refl [OF Nil(1)] by simp
  ultimately show ?case
    unfolding map_segment_loop.simps sum.case
    by (intro conjI exI [of _ F] exI [of _ tab] exI [of _ "[]"]) simp_all
next
  case (Cons vpn vpns)
  have three: "pages_free F 3" if "pages_free F (3 * length (vpn # vpns))"
    using that by (rule pages_free_less) simp
  note inv = Cons.prems(1) and root = Cons.prems(2) and data = Cons.prems(4)
  have dist: "distinct (map (take_bit 27) vpns)" "take_bit 27 vpn \<notin> take_bit 27 ` set vpns"
    using Cons.prems(3) by simp_all
  show ?case
  proof (cases "find_entry s root vpn True")
    case (Inl e)
    then show ?thesis
      using find_entry_build [OF inv root, of vpn] three pages_free_less [of F 3 2] by auto
  next
    case (Inr r)
    obtain a s1 where r: "find_entry s root vpn True = Inr (a, s1)" using Inr by (cases r) auto
    have lda: "load64 (fst s1) a = leaf (fst s) tab vpn"
      using map_entry [OF inv root, of vpn] r by (cases s1) auto
    show ?thesis
    proof (cases "leaf (fst s) tab vpn = 0")
      case False
      then show ?thesis using lda by (simp add: r)
    next
      case True
      note fp = framed_page [OF inv root True data, of "seg_flags seg", unfolded r sum.case prod.case]
      show ?thesis
      proof (cases "alloc_frame s1")
        case (Inl e)
        then show ?thesis using fp assms(1) lda True three by (auto simp: r)
      next
        case (Inr t)
        obtain p m b where t: "alloc_frame s1 = Inr (p, m, b)" using Inr by (cases t) auto
        define sz where "sz = (if PAGE_SIZE \<le> len then PAGE_SIZE else len)"
        define m1 where "m1 = store64 m a (PPN2PTE p (seg_flags seg))"
        define m2 where "m2 = (if data \<noteq> 0 then copy_bytes (unat sz) m1 (page_va p) data else m1)"
        define data' where "data' = (if data \<noteq> 0 then data + sz else data)"
        define len' where "len' = (if data \<noteq> 0 then len - sz else len)"
        obtain F1 tab1 where ev1: "evolved R s F tab (m2, b) F1 tab1 {p}"
          and l1: "\<forall>v. leaf m2 tab1 v = (if take_bit 27 v = take_bit 27 vpn
                    then PPN2PTE p (seg_flags seg) else leaf (fst s) tab v)"
          and pg: "\<forall>x \<in> blk 12 (page_va p). m2 x = seg_byte (fst s) data len (unat (x - page_va p))"
          and pf: "\<forall>n. pages_free F (3 + n) \<longrightarrow> pages_free F1 n"
          using fp unfolding t sum.case prod.case Let_def m1_def [symmetric] sz_def [symmetric]
            m2_def [symmetric] by blast
        have eq: "map_segment_loop s root seg (vpn # vpns) data len =
            map_segment_loop (m2, b) root seg vpns data' len'"
          using lda True assms(1)
          by (simp add: r t Let_def m1_def m2_def data'_def len'_def sz_def)
        note e1 = evolvedD [OF ev1]
        have sub: "F1 \<union> page_set (ran tab1) \<subseteq> F \<union> page_set (ran tab)" using e1(3,4) by blast
        have data1: "data_ok data' len' (F1 \<union> page_set (ran tab1))"
          using data_ok_next [OF _ data sub] by (auto simp: data'_def len'_def sz_def data_ok_def)
        have m2s: "m2 x = fst s x" if "data \<noteq> 0" "x \<in> bytes_at data (unat len)" for x
        proof -
          have "x \<notin> F \<union> page_set (ran tab)" using data that by (auto simp: data_ok_def)
          with e1(8) show ?thesis by (auto simp: same_outside_def)
        qed
        have bytes: "seg_byte m2 data' len' k = seg_byte (fst s) data len (4096 + k)" for k
          using seg_byte_next [of data len m2 "fst s" k] m2s data
          by (auto simp: data'_def len'_def sz_def data_ok_def seg_byte_def)
        note IH = Cons.IH [OF e1(1) pt_root [OF root e1(2)] dist(1) data1]
        have lv: "leaf m2 tab1 v = leaf (fst s) tab v" if "v \<in> set vpns" for v
          using l1 dist(2) that by (metis imageI)
        show ?thesis
        proof (cases "map_segment_loop (m2, b) root seg vpns data' len'")
          case (Inl e)
          have "pages_free F1 (3 * length vpns)" if "pages_free F (3 * length (vpn # vpns))"
            using pf that by simp
          with Inl show ?thesis using IH lv by (auto simp only: eq sum.case fst_conv list.set)
        next
          case (Inr s')
          obtain F' tab' ps where ps: "distinct ps" "evolved R (m2, b) F1 tab1 s' F' tab' (set ps)"
            "mapped (leaf m2 tab1) vpns (map (\<lambda>p. PPN2PTE p (seg_flags seg)) ps) (leaf (fst s') tab')"
            "pages_hold (fst s') ps (seg_byte m2 data' len')"
            "\<forall>n. pages_free F1 (3 * length vpns + n) \<longrightarrow> pages_free F' n"
            and z: "\<forall>v \<in> set vpns. leaf m2 tab1 v = 0"
            using IH unfolding Inr sum.case fst_conv by blast
          note e2 = evolvedD [OF ps(2)]
          have pF1: "blk 12 (page_va p) \<inter> (F1 \<union> page_set (ran tab1)) = {}"
            using e1(3,6) by auto
          have "distinct (p # ps)"
            using ps(1) e2(5) pF1 page_in_pages_ne [of p "set ps"] by auto
          moreover have "evolved R s F tab s' F' tab' (set (p # ps))"
            using evolved_trans [OF ev1 ps(2)] by simp
          moreover have "mapped (leaf (fst s) tab) (vpn # vpns)
              (map (\<lambda>p. PPN2PTE p (seg_flags seg)) (p # ps)) (leaf (fst s') tab')"
            using mapped_Cons [OF l1 ps(3) dist(2)] by simp
          moreover have "pages_hold (fst s') (p # ps) (seg_byte (fst s) data len)"
          proof (rule pages_hold_Cons)
            show "\<forall>x \<in> blk 12 (page_va p).
                fst s' x = seg_byte (fst s) data len (unat (x - page_va p))"
              using pg e2(8) pF1 by (auto simp: same_outside_def)
            show "pages_hold (fst s') ps (\<lambda>k. seg_byte (fst s) data len (4096 + k))"
              using ps(4) by (simp only: bytes [abs_def])
          qed
          moreover have "\<forall>v \<in> set (vpn # vpns). leaf (fst s) tab v = 0"
            using z lv True by simp
          moreover have "pages_free F' n" if "pages_free F (3 * length (vpn # vpns) + n)" for n
            using pf [rule_format, of "3 * length vpns + n"] ps(5) that by (simp add: algebra_simps)
          ultimately show ?thesis unfolding eq Inr sum.case by blast
        qed
      qed
    qed
  qed
qed

lemma map_segment_loop_linear:
  assumes "seg_type seg = Linear" and "pt_inv R s F tab" and "tab [] = Some root"
    and "distinct (map (take_bit 27) vpns)"
  shows "case map_segment_loop s root seg vpns 0 len of
      Inl e \<Rightarrow> e = Panic ''Not enough memory!'' \<and> \<not> pages_free F (2 * length vpns) \<or>
        e = already_mapped \<and> (\<exists>v \<in> set vpns. leaf (fst s) tab v \<noteq> 0)
    | Inr s' \<Rightarrow> (\<forall>v \<in> set vpns. leaf (fst s) tab v = 0) \<and>
        (\<exists>F' tab'. evolved R s F tab s' F' tab' {} \<and>
          mapped (leaf (fst s) tab) vpns (map (\<lambda>v. PPN2PTE (ppn_of v) (seg_flags seg)) vpns)
            (leaf (fst s') tab') \<and>
          (\<forall>n. pages_free F (2 * length vpns + n) \<longrightarrow> pages_free F' n))"
  using assms(2-4)
proof (induction vpns arbitrary: s F tab)
  case Nil
  then show ?case using evolved_refl mapped_Nil by fastforce
next
  case (Cons vpn vpns)
  have two: "pages_free F 2" if "pages_free F (2 * length (vpn # vpns))"
    using that by (rule pages_free_less) simp
  note inv = Cons.prems(1) and root = Cons.prems(2)
  have dist: "distinct (map (take_bit 27) vpns)" "take_bit 27 vpn \<notin> take_bit 27 ` set vpns"
    using Cons.prems(3) by simp_all
  define pte where "pte = PPN2PTE (ppn_of vpn) (seg_flags seg)"
  note me = map_entry [OF inv root, of vpn pte]
  show ?case
  proof (cases "find_entry s root vpn True")
    case (Inl e)
    then show ?thesis using me two by auto
  next
    case (Inr r)
    obtain a m b where r: "find_entry s root vpn True = Inr (a, m, b)" using Inr by (cases r) auto
    have lda: "load64 m a = leaf (fst s) tab vpn" using me r by simp
    show ?thesis
    proof (cases "leaf (fst s) tab vpn = 0")
      case False
      then show ?thesis using lda by (simp add: r)
    next
      case True
      define m1 where "m1 = store64 m a pte"
      obtain F1 tab1 where ev1: "evolved R s F tab (m1, b) F1 tab1 {}"
        and l1: "\<forall>v. leaf m1 tab1 v = (if take_bit 27 v = take_bit 27 vpn then pte else leaf (fst s) tab v)"
        and pf: "\<forall>n. pages_free F (2 + n) \<longrightarrow> pages_free F1 n"
        using me r by (auto simp: m1_def)
      have eq: "map_segment_loop s root seg (vpn # vpns) 0 len = map_segment_loop (m1, b) root seg vpns 0 len"
        using lda True assms(1) by (simp add: r m1_def pte_def Let_def)
      note IH = Cons.IH [OF evolvedD(1) [OF ev1] pt_root [OF root evolvedD(2) [OF ev1]] dist(1)]
      have lv: "leaf m1 tab1 v = leaf (fst s) tab v" if "v \<in> set vpns" for v
        using l1 dist(2) that by (metis imageI)
      show ?thesis
      proof (cases "map_segment_loop (m1, b) root seg vpns 0 len")
        case (Inl e)
        have "pages_free F1 (2 * length vpns)" if "pages_free F (2 * length (vpn # vpns))"
          using pf that by simp
        with Inl show ?thesis using IH lv by (auto simp only: eq sum.case fst_conv list.set)
      next
        case (Inr s')
        obtain F' tab' where ps: "evolved R (m1, b) F1 tab1 s' F' tab' {}"
          "mapped (leaf m1 tab1) vpns (map (\<lambda>v. PPN2PTE (ppn_of v) (seg_flags seg)) vpns) (leaf (fst s') tab')"
          "\<forall>n. pages_free F1 (2 * length vpns + n) \<longrightarrow> pages_free F' n"
          and z: "\<forall>v \<in> set vpns. leaf m1 tab1 v = 0"
          using IH unfolding Inr sum.case fst_conv by blast
        have "evolved R s F tab s' F' tab' {}" using evolved_trans [OF ev1 ps(1)] by simp
        moreover have "mapped (leaf (fst s) tab) (vpn # vpns)
            (map (\<lambda>v. PPN2PTE (ppn_of v) (seg_flags seg)) (vpn # vpns)) (leaf (fst s') tab')"
          using mapped_Cons [OF l1 ps(2) dist(2)] by (simp add: pte_def)
        moreover have "\<forall>v \<in> set (vpn # vpns). leaf (fst s) tab v = 0" using z lv True by simp
        moreover have "pages_free F' n" if "pages_free F (2 * length (vpn # vpns) + n)" for n
          using pf [rule_format, of "2 * length vpns + n"] ps(3) that by (simp add: algebra_simps)
        ultimately show ?thesis unfolding eq Inr sum.case by blast
      qed
    qed
  qed
qed


section \<open>unmap_segment\<close>

lemma nonnull_page:
  assumes "in_window R" and "blk 12 (page_va p) \<subseteq> R"
  shows "page_va p \<noteq> 0" and "i < 512 \<Longrightarrow> entry_addr (page_va p) i \<noteq> 0"
proof -
  have "x \<noteq> 0" if "x \<in> blk 12 (page_va p)" for x
    using assms that by (auto simp: in_window_def)
  then show "page_va p \<noteq> 0" and "i < 512 \<Longrightarrow> entry_addr (page_va p) i \<noteq> 0"
    using entry_addr_blk(1) [of "page_va p" i] by (simp, blast intro: aligned_page_va)
qed

text \<open>Giving a page back that is neither free nor a table.\<close>

lemma pt_dealloc_frame:
  assumes inv: "pt_inv R s F tab" and p: "blk 12 (page_va p) \<subseteq> R - F - page_set (ran tab)"
  shows "\<exists>s'. dealloc_frame s p = Inr s' \<and> pt_inv R s' (F \<union> blk 12 (page_va p)) tab \<and>
    same_outside (F \<union> blk 12 (page_va p)) (fst s) (fst s') \<and>
    (\<forall>v. leaf (fst s') tab v = leaf (fst s) tab v)"
proof -
  have b: "buddy_inv R s F" and win: "in_window R" and ok: "tree_ok (fst s) tab"
    and tab: "page_set (ran tab) \<subseteq> R - F"
    using inv by (simp_all add: pt_inv_def)
  have "page_va p \<noteq> 0" using nonnull_page(1) [OF win] p by blast
  then obtain s' where s': "dealloc_frame s p = Inr s'" "buddy_inv R s' (F \<union> blk 12 (page_va p))"
    "same_outside (F \<union> blk 12 (page_va p)) (fst s) (fst s')"
    using frames.frame_freed [OF b] p by blast
  have dis: "page_set (ran tab) \<inter> (F \<union> blk 12 (page_va p)) = {}" using tab p by blast
  note fr = tree_frame [OF ok s'(3) dis]
  show ?thesis
    using s' fr win tab dis by (intro exI [of _ s']) (auto simp: pt_inv_def)
qed

lemma unmap_segment_loop_spec:
  assumes "pt_inv R s F tab" and "tab [] = Some root"
    and "list_all2 (\<lambda>v p. PTE2PPN (leaf (fst s) tab v) = p \<and> leaf (fst s) tab v \<noteq> 0) vpns ps"
    and "distinct ps" and "\<forall>p \<in> set ps. p < 2 ^ 44"
    and "page_set (set ps) \<subseteq> R - F - page_set (ran tab)"
  shows "\<exists>s'. unmap_segment_loop s root vpns = Inr s' \<and> pt_inv R s' (F \<union> page_set (set ps)) tab \<and>
    same_outside (F \<union> page_set (set ps)) (fst s) (fst s') \<and>
    (\<forall>v. leaf (fst s') tab v = leaf (fst s) tab v)"
  using assms
proof (induction vpns arbitrary: s F ps)
  case Nil
  then show ?case by auto
next
  case (Cons vpn vpns)
  from Cons.prems(3) obtain p ps' where ps: "ps = p # ps'"
    and p: "PTE2PPN (leaf (fst s) tab vpn) = p" "leaf (fst s) tab vpn \<noteq> 0"
    and rest: "list_all2 (\<lambda>v p. PTE2PPN (leaf (fst s) tab v) = p \<and> leaf (fst s) tab v \<noteq> 0) vpns ps'"
    by (auto simp: list_all2_Cons1)
  note inv = Cons.prems(1) and root = Cons.prems(2)
  have ok: "tree_ok (fst s) tab" and win: "in_window R" and tabR: "page_set (ran tab) \<subseteq> R"
    using inv by (auto simp: pt_inv_def)
  obtain q where q: "tab (levels_path vpn) = Some q" using p(2) by (auto simp: leaf_def split: option.splits)
  define e where "e = entry_addr (page_va q) (get_vpn_levels vpn ! 0)"
  have fe: "find_entry s root vpn False = Inr (e, s)" using find_entry_lookup [OF ok root] q by (simp add: e_def)
  have ld: "load64 (fst s) e = leaf (fst s) tab vpn" using q by (simp add: leaf_def e_def)
  have "blk 12 (page_va q) \<subseteq> R" using page_in_set [of q "ran tab"] q tabR by (auto intro: ranI)
  then have "e \<noteq> 0" unfolding e_def using nonnull_page(2) [OF win] level_less [of 0] by simp
  obtain s1 where s1: "dealloc_frame s p = Inr s1" "pt_inv R s1 (F \<union> blk 12 (page_va p)) tab"
    "same_outside (F \<union> blk 12 (page_va p)) (fst s) (fst s1)"
    "\<forall>v. leaf (fst s1) tab v = leaf (fst s) tab v"
    using pt_dealloc_frame [OF inv, of p] Cons.prems(6) ps by auto
  have eq: "unmap_segment_loop s root (vpn # vpns) = unmap_segment_loop s1 root vpns"
    using \<open>e \<noteq> 0\<close> by (simp add: fe ld p(1) s1(1))
  have "blk 12 (page_va p) \<inter> page_set (set ps') = {}"
    using pages_disjoint [of p] Cons.prems(4,5) ps by (auto simp: page_set_def)
  then have sub: "page_set (set ps') \<subseteq> R - (F \<union> blk 12 (page_va p)) - page_set (ran tab)"
    using Cons.prems(6) ps by auto
  have rest1: "list_all2 (\<lambda>v p. PTE2PPN (leaf (fst s1) tab v) = p \<and> leaf (fst s1) tab v \<noteq> 0) vpns ps'"
    using rest s1(4) by simp
  have "distinct ps'" "\<forall>p \<in> set ps'. p < 2 ^ 44" using Cons.prems(4,5) ps by simp_all
  from Cons.IH [OF s1(2) root rest1 this sub] obtain s' where
    "unmap_segment_loop s1 root vpns = Inr s'"
    "pt_inv R s' (F \<union> blk 12 (page_va p) \<union> page_set (set ps')) tab"
    "same_outside (F \<union> blk 12 (page_va p) \<union> page_set (set ps')) (fst s1) (fst s')"
    "\<forall>v. leaf (fst s') tab v = leaf (fst s1) tab v" by blast
  moreover have "F \<union> page_set (set ps) = F \<union> blk 12 (page_va p) \<union> page_set (set ps')"
    using ps by auto
  ultimately show ?case
    unfolding eq using s1(3,4) by (auto simp: same_outside_def)
qed

end
