(* ===== verification/Page_Free.thy ===== *)
theory Page_Free
  imports Page_Map "HOL-Library.Sublist"
begin

text \<open>
  \<^verbatim>\<open>dealloc_pagetable\<close> of \<^verbatim>\<open>kernel/mapping.c\<close>: the recursion over the tables of an address space
  that gives every table page back. How deep it goes depends on the entries it reads, so the
  code as such need not return; on a tree of tables it does, and frees exactly the tree.
\<close>

section \<open>The operation\<close>

definition is_table :: "u64 \<Rightarrow> bool" where
  "is_table pte \<longleftrightarrow> pte AND PAGE_VALID \<noteq> 0 \<and> pte AND (PAGE_READ OR PAGE_WRITE OR PAGE_EXEC) = 0"

partial_function (option) dealloc_table :: "bstate \<Rightarrow> usize \<Rightarrow> nat \<Rightarrow> bstate outcome option" where
  "dealloc_table s ppn i =
     (if i < 512 then
        (let entry = entry_addr (page_va ppn) (of_nat i);
             pte = load64 (fst s) entry in
         if is_table pte then
           Option.bind (dealloc_table s (PTE2PPN pte) 0) (\<lambda>r. case r of
               Inl e \<Rightarrow> Some (Inl e)
             | Inr (m, b) \<Rightarrow> dealloc_table (store64 m entry 0, b) ppn (i + 1))
         else dealloc_table s ppn (i + 1))
      else Some (dealloc_frame s ppn))"

declare dealloc_table.simps [code]

definition dealloc_pagetable :: "bstate \<Rightarrow> usize \<Rightarrow> bstate outcome" where
  "dealloc_pagetable s ppn = bindE (returns (dealloc_table s ppn 0)) id"

section \<open>Entries that are tables\<close>

lemma is_table_0 [simp]: "\<not> is_table 0"
  by (simp add: is_table_def)

lemma bit_rwx: "bit (PAGE_READ OR PAGE_WRITE OR PAGE_EXEC) n \<longleftrightarrow> n = 1 \<or> n = 2 \<or> n = 3"
proof -
  have "bit PAGE_READ n \<longleftrightarrow> n = 1" "bit PAGE_WRITE n \<longleftrightarrow> n = 2" "bit PAGE_EXEC n \<longleftrightarrow> n = 3"
    using bit_pow2_word [of 1 n] bit_pow2_word [of 2 n] bit_pow2_word [of 3 n]
    by (simp_all add: PAGE_READ_def PAGE_WRITE_def PAGE_EXEC_def)
  then show ?thesis by (simp only: bit_or_iff disj_assoc)
qed

lemma is_table_bit: "is_table pte \<longleftrightarrow> bit pte 0 \<and> \<not> bit pte 1 \<and> \<not> bit pte 2 \<and> \<not> bit pte 3"
proof -
  have "pte AND PAGE_VALID \<noteq> 0 \<longleftrightarrow> bit pte 0"
    by (auto simp: PAGE_VALID_def bit_0 and_one_eq odd_iff_mod_2_eq_one)
  moreover have "pte AND (PAGE_READ OR PAGE_WRITE OR PAGE_EXEC) = 0 \<longleftrightarrow>
      \<not> bit pte 1 \<and> \<not> bit pte 2 \<and> \<not> bit pte 3"
  proof
    assume "pte AND (PAGE_READ OR PAGE_WRITE OR PAGE_EXEC) = 0"
    then have "\<not> bit (pte AND (PAGE_READ OR PAGE_WRITE OR PAGE_EXEC)) n" for n by simp
    then show "\<not> bit pte 1 \<and> \<not> bit pte 2 \<and> \<not> bit pte 3"
      unfolding bit_and_iff bit_rwx by blast
  next
    assume "\<not> bit pte 1 \<and> \<not> bit pte 2 \<and> \<not> bit pte 3"
    then show "pte AND (PAGE_READ OR PAGE_WRITE OR PAGE_EXEC) = 0"
      by (intro bit_word_eqI) (auto simp only: bit_and_iff bit_rwx bit_0_eq bot_fun_def bot_bool_def)
  qed
  ultimately show ?thesis by (simp only: is_table_def)
qed

lemma is_table_PPN2PTE_valid: "is_table (PPN2PTE p PAGE_VALID)"
  by (simp add: is_table_bit bit_PPN2PTE PAGE_VALID_def bit_1_iff)

text \<open>A leaf is told from a table by any of the three permission bits.\<close>

lemma leaf_not_table:
  "flags AND (PAGE_READ OR PAGE_WRITE OR PAGE_EXEC) \<noteq> 0 \<Longrightarrow> \<not> is_table (PPN2PTE p flags)"
proof
  assume rwx: "flags AND (PAGE_READ OR PAGE_WRITE OR PAGE_EXEC) \<noteq> 0" and "is_table (PPN2PTE p flags)"
  then have "\<not> bit flags 1 \<and> \<not> bit flags 2 \<and> \<not> bit flags 3" by (simp add: is_table_bit bit_PPN2PTE)
  then have "flags AND (PAGE_READ OR PAGE_WRITE OR PAGE_EXEC) = 0"
    by (intro bit_word_eqI) (auto simp only: bit_and_iff bit_rwx bit_0_eq bot_fun_def bot_bool_def)
  with rwx show False by simp
qed

text \<open>Every entry of a lowest-level table is the entry of some virtual page.\<close>

lemma entry_of_vpn:
  assumes "a < 512" and "b < 512" and "c < 512"
  shows "\<exists>v. levels_path v = [a, b] \<and> get_vpn_levels v ! 0 = c"
proof (intro exI conjI)
  define v where "v = push_bit 18 a OR push_bit 9 b OR c"
  have m: "x AND 0x1ff = take_bit 9 x" for x :: u64
    by (simp add: take_bit_eq_mask mask_eq_exp_minus_1)
  have small: "\<not> bit w n" if "w < 512" "9 \<le> n" for w :: u64 and n
    using less_pow2_bit [of w 9 n] that by simp
  have bv: "bit v n \<longleftrightarrow> 18 \<le> n \<and> n < 64 \<and> bit a (n - 18) \<or> 9 \<le> n \<and> n < 64 \<and> bit b (n - 9) \<or> bit c n" for n
    by (auto simp: v_def bit_or_iff bit_push_bit_iff)
  note sm = small [OF assms(1)] small [OF assms(2)] small [OF assms(3)]
  have "drop_bit 18 v AND 0x1ff = a"
    by (rule bit_word_eqI, case_tac "n < 9") (simp_all add: m bit_take_bit_iff bit_drop_bit_eq bv sm)
  moreover have "drop_bit 9 v AND 0x1ff = b"
    by (rule bit_word_eqI, case_tac "n < 9") (simp_all add: m bit_take_bit_iff bit_drop_bit_eq bv sm)
  moreover have "v AND 0x1ff = c"
    by (rule bit_word_eqI, case_tac "n < 9") (simp_all add: m bit_take_bit_iff bv sm)
  ultimately show "levels_path v = [a, b]" "get_vpn_levels v ! 0 = c"
    by (simp_all add: levels_path_def get_vpn_levels_def)
qed

definition leaves_ok :: "mem \<Rightarrow> tree \<Rightarrow> bool" where
  "leaves_ok m tab \<longleftrightarrow> (\<forall>p q i. tab p = Some q \<longrightarrow> length p = 2 \<longrightarrow> i < 512 \<longrightarrow>
     \<not> is_table (load64 m (entry_addr (page_va q) i)))"

lemma tree_closed: "tree_ok m tab \<Longrightarrow> tab (p @ zs) \<noteq> None \<Longrightarrow> tab p \<noteq> None \<and> (\<forall>z \<in> set zs. z < 512)"
proof (induction zs rule: rev_induct)
  case (snoc z zs)
  have "tab (p @ zs) \<noteq> None \<and> z < 512"
    using snoc.prems unfolding tree_ok_def by (metis append.assoc)
  with snoc show ?case by auto
qed simp

lemma tree_path: "tree_ok m tab \<Longrightarrow> tab p = Some q \<Longrightarrow> length p \<le> 2 \<and> (\<forall>z \<in> set p. z < 512)"
proof
  assume ok: "tree_ok m tab" and p: "tab p = Some q"
  show "length p \<le> 2" using ok p unfolding tree_ok_def by blast
  have "tab ([] @ p) \<noteq> None" using p by simp
  from tree_closed [OF ok this] show "\<forall>z \<in> set p. z < 512" by blast
qed

lemma leaves_okI:
  assumes "tree_ok m tab" and "\<And>v. \<not> is_table (leaf m tab v)"
  shows "leaves_ok m tab"
  unfolding leaves_ok_def
proof (intro allI impI)
  fix p q and i :: u64 assume p: "tab p = Some q" "length p = 2" "i < 512"
  then obtain a b where ab: "p = [a, b]" by (auto simp: length_Suc_conv numeral_2_eq_2)
  then have "a < 512" "b < 512" using tree_path [OF assms(1) p(1)] by simp_all
  then obtain v where "levels_path v = p" "get_vpn_levels v ! 0 = i"
    using entry_of_vpn [of a b i] p(3) ab by blast
  with p(1) assms(2) [of v] show "\<not> is_table (load64 m (entry_addr (page_va q) i))"
    by (simp add: leaf_def)
qed

section \<open>Cutting a subtree\<close>

definition subtree :: "tree \<Rightarrow> u64 list \<Rightarrow> u64 set" where
  "subtree tab p = {q. \<exists>zs. tab (p @ zs) = Some q}"

definition cut :: "tree \<Rightarrow> u64 list \<Rightarrow> tree" where
  "cut tab p = tab |` {p'. \<not> prefix p p'}"

lemma cut_apply: "cut tab p p' = (if prefix p p' then None else tab p')"
  by (simp add: cut_def restrict_map_def)

lemma subtree_pages_disjoint:
  assumes ok: "tree_ok m tab"
  shows "page_set (ran (cut tab p)) \<inter> page_set (subtree tab p) = {}"
proof -
  have "blk 12 (page_va q) \<inter> blk 12 (page_va q') = {}"
    if "q \<in> ran (cut tab p)" "q' \<in> subtree tab p" for q q'
  proof (rule pages_disjoint)
    from that obtain r zs where r: "cut tab p r = Some q" "tab (p @ zs) = Some q'"
      by (auto simp: ran_def subtree_def)
    then have "tab r = Some q" "\<not> prefix p r" by (auto simp: cut_apply split: if_splits)
    with r show "q < 2 ^ 44" "q' < 2 ^ 44" "q \<noteq> q'"
      using levels_path_in_tree [OF ok] tree_ok_inj [OF ok, of r q "p @ zs"] by auto
  qed
  then show ?thesis by (fastforce simp: page_set_def)
qed

lemma cut_child:
  assumes inv: "pt_inv R s F tab" and lv: "leaves_ok (fst s) tab"
    and p: "tab p = Some q" "length p < 2" "l < 512"
    and s1: "buddy_inv R (m, b) (F \<union> page_set (subtree tab (p @ [l])))"
    and same: "same_outside (F \<union> page_set (subtree tab (p @ [l]))) (fst s) m"
  defines "tab' \<equiv> cut tab (p @ [l])" and "m' \<equiv> store64 m (entry_addr (page_va q) l) 0"
    and "F' \<equiv> F \<union> page_set (subtree tab (p @ [l]))"
  shows "pt_inv R (m', b) F' tab'" and "leaves_ok m' tab'" and "tab' p = Some q"
    and "same_outside (F' \<union> blk 12 (page_va q)) (fst s) m'"
proof -
  let ?S = "page_set (subtree tab (p @ [l]))"
  have ok: "tree_ok (fst s) tab" and win: "in_window R" and tR: "page_set (ran tab) \<subseteq> R - F"
    using inv by (simp_all add: pt_inv_def)
  have ran': "ran tab' \<subseteq> ran tab"
    by (auto simp: ran_def tab'_def cut_apply split: if_splits)
  have subS: "?S \<subseteq> page_set (ran tab)"
    by (rule page_set_mono) (auto simp: subtree_def ran_def)
  have dS: "page_set (ran tab') \<inter> ?S = {}"
    unfolding tab'_def by (rule subtree_pages_disjoint [OF ok])
  have dF: "page_set (ran tab') \<inter> F' = {}"
    using dS tR page_set_mono [OF ran'] by (auto simp: F'_def)
  show tp: "tab' p = Some q" using p by (simp add: tab'_def cut_apply)
  have q44: "\<And>p q. tab p = Some q \<Longrightarrow> q < 2 ^ 44" using levels_path_in_tree [OF ok] .
  have st: "same_outside (page_set (ran tab')) m m'"
    unfolding m'_def by (rule store_entry_same [where p = p]) (rule tp, rule p(3))
  have stq: "same_outside (blk 12 (page_va q)) m m'"
    unfolding m'_def using entry_addr_blk [of "page_va q" l] p(3)
    by (intro same_outside_mono [OF same_outside_store]) (simp_all add: bytes8_blk)
  have keep: "load64 m' (entry_addr (page_va q') i) = load64 (fst s) (entry_addr (page_va q') i)"
    if "tab' p' = Some q'" "i < 512" "(p', i) \<noteq> (p, l)" for p' q' i
  proof -
    have t: "tab p' = Some q'" using that(1) by (auto simp: tab'_def cut_apply split: if_splits)
    have "load64 m' (entry_addr (page_va q') i) = load64 m (entry_addr (page_va q') i)"
      unfolding m'_def by (rule entry_other) (use that t p q44 tree_ok_inj [OF ok] in auto)
    also have "\<dots> = load64 (fst s) (entry_addr (page_va q') i)"
    proof (rule entry_frame [OF same [folded F'_def] _ that(2)])
      show "blk 12 (page_va q') \<inter> F' = {}"
        using dF page_in_set [of q' "ran tab'"] that(1) by (auto intro: ranI)
    qed
    finally show ?thesis .
  qed
  have "tree_ok m' tab'"
    unfolding tree_ok_def
  proof (intro conjI allI impI)
    fix p' q' assume "tab' p' = Some q'"
    then have t: "tab p' = Some q'" by (auto simp: tab'_def cut_apply split: if_splits)
    show "length p' \<le> 2" using tree_path [OF ok t] by simp
    show "q' < 2 ^ 44" using q44 [OF t] .
  next
    fix p' i assume a: "tab' (p' @ [i]) \<noteq> None"
    then have "\<not> prefix (p @ [l]) (p' @ [i])" "tab (p' @ [i]) \<noteq> None"
      by (auto simp: tab'_def cut_apply split: if_splits)
    moreover have "\<not> prefix (p @ [l]) p'" using calculation(1) prefix_prefix by blast
    ultimately show "tab' p' \<noteq> None" "i < 512"
      using ok unfolding tree_ok_def by (auto simp: tab'_def cut_apply)
  next
    show "inj_on tab' (dom tab')"
      using tree_ok_inj [OF ok] by (auto simp: inj_on_def tab'_def cut_apply split: if_splits)
  next
    fix p' q' and i :: u64
    assume t': "tab' p' = Some q'" and len: "length p' < 2" and i: "i < 512"
    then have t: "tab p' = Some q'" "\<not> prefix (p @ [l]) p'"
      by (auto simp: tab'_def cut_apply split: if_splits)
    show "load64 m' (entry_addr (page_va q') i) = pte_of (tab' (p' @ [i]))"
    proof (cases "(p', i) = (p, l)")
      case True
      with t p(1) show ?thesis by (simp add: m'_def tab'_def cut_apply)
    next
      case False
      then have "tab' (p' @ [i]) = tab (p' @ [i])"
        using t(2) by (auto simp: tab'_def cut_apply prefix_snoc)
      moreover have "load64 (fst s) (entry_addr (page_va q') i) = pte_of (tab (p' @ [i]))"
        using ok t(1) len i by (simp add: tree_ok_def)
      ultimately show ?thesis using keep [OF t' i False] by simp
    qed
  qed
  moreover have "buddy_inv R (m', b) F'"
    by (rule buddy_inv_same_free [of R m b F'], rule s1 [folded F'_def],
        rule same_outside_mono [OF st]) (use dF in blast)
  ultimately show "pt_inv R (m', b) F' tab'"
    using win tR dF page_set_mono [OF ran'] subS by (auto simp: pt_inv_def)
  show "leaves_ok m' tab'"
    unfolding leaves_ok_def
  proof (intro allI impI)
    fix p' q' and i :: u64 assume t: "tab' p' = Some q'" "length p' = 2" "i < 512"
    then have "tab p' = Some q'" "(p', i) \<noteq> (p, l)"
      using p(2) by (auto simp: tab'_def cut_apply split: if_splits)
    with keep [OF t(1,3)] lv t show "\<not> is_table (load64 m' (entry_addr (page_va q') i))"
      by (simp add: leaves_ok_def)
  qed
  show "same_outside (F' \<union> blk 12 (page_va q)) (fst s) m'"
    using same stq by (auto simp: same_outside_def F'_def)
qed

section \<open>The recursion frees the tree\<close>

lemma dealloc_table_spec:
  assumes "pt_inv R s F tab" and "leaves_ok (fst s) tab" and "tab p = Some q" and "i \<le> 512"
    and "\<And>j zs. tab (p @ j # zs) \<noteq> None \<Longrightarrow> i \<le> unat j"
  shows "\<exists>s'. dealloc_table s q i = Some (Inr s') \<and> buddy_inv R s' (F \<union> page_set (subtree tab p)) \<and>
    same_outside (F \<union> page_set (subtree tab p)) (fst s) (fst s')"
  using assms
proof (induction "(3 - length p) * 513 + (512 - i)" arbitrary: s F tab p q i rule: less_induct)
  case less
  note inv = less.prems(1) and lv = less.prems(2) and p = less.prems(3)
  have ok: "tree_ok (fst s) tab" and win: "in_window R" and tR: "page_set (ran tab) \<subseteq> R - F"
    and binv: "buddy_inv R s F"
    using inv by (simp_all add: pt_inv_def)
  have len: "length p \<le> 2" using tree_path [OF ok p] by simp
  show ?case
  proof (cases "i < 512")
    case False
    with less.prems(4) have i: "i = 512" by simp
    have "tab (p @ j # zs) = None" for j zs
    proof (rule ccontr)
      assume a: "tab (p @ j # zs) \<noteq> None"
      then have "512 \<le> unat j" using less.prems(5) i by blast
      moreover have "j < 512" using tree_closed [OF ok a] by simp
      ultimately show False by (simp add: word_less_nat_alt)
    qed
    then have sub: "subtree tab p = {q}"
    proof -
      have "tab (p @ zs) = Some x \<longleftrightarrow> zs = [] \<and> x = q" for zs x
        using p \<open>\<And>j zs. tab (p @ j # zs) = None\<close> by (cases zs) auto
      then show ?thesis by (auto simp: subtree_def)
    qed
    have "q \<in> ran tab" using p by (rule ranI)
    then have "blk 12 (page_va q) \<subseteq> R - F" using page_in_set tR by blast
    moreover have "page_va q \<noteq> 0" using nonnull_page(1) [OF win] calculation by blast
    ultimately obtain s' where "dealloc_frame s q = Inr s'" "buddy_inv R s' (F \<union> blk 12 (page_va q))"
      "same_outside (F \<union> blk 12 (page_va q)) (fst s) (fst s')"
      using frames.frame_freed [OF binv] by blast
    then show ?thesis using False by (subst dealloc_table.simps) (simp add: sub)
  next
    case True
    define l where "l = (of_nat i :: u64)"
    define e where "e = entry_addr (page_va q) l"
    have ul: "unat l = i" using True by (simp add: l_def unat_of_nat)
    have l: "l < 512" using True ul by (simp add: word_less_nat_alt)
    have unfold: "dealloc_table s q i =
        (if is_table (load64 (fst s) e) then
           Option.bind (dealloc_table s (PTE2PPN (load64 (fst s) e)) 0) (\<lambda>r. case r of
               Inl x \<Rightarrow> Some (Inl x)
             | Inr (m, b) \<Rightarrow> dealloc_table (store64 m e 0, b) q (i + 1))
         else dealloc_table s q (i + 1))"
      using True by (subst dealloc_table.simps) (simp add: Let_def e_def l_def)
    show ?thesis
    proof (cases "length p < 2 \<and> tab (p @ [l]) \<noteq> None")
      case False
      have "\<not> is_table (load64 (fst s) e)"
      proof (cases "length p < 2")
        case True
        with False have "load64 (fst s) e = 0"
          using ok p l by (simp add: tree_ok_def e_def)
        then show ?thesis by simp
      next
        case False
        with len lv p l show ?thesis by (simp add: leaves_ok_def e_def)
      qed
      then have eq: "dealloc_table s q i = dealloc_table s q (i + 1)" using unfold by simp
      have "i + 1 \<le> unat j" if "tab (p @ j # zs) \<noteq> None" for j zs
      proof -
        have "j \<noteq> l"
        proof
          assume "j = l"
          have "tab (p @ [j]) \<noteq> None" using tree_closed [OF ok, of "p @ [j]" zs] that by simp
          moreover have "length (p @ j # zs) \<le> 2" using tree_path [OF ok] that by fastforce
          ultimately show False using False \<open>j = l\<close> by simp
        qed
        then have "unat j \<noteq> i" using ul by (auto simp: word_unat_eq_iff)
        with less.prems(5) [OF that] show ?thesis by simp
      qed
      with less.hyps [of p "i + 1" s F tab q] less.prems True show ?thesis
        unfolding eq by simp
    next
      case child: True
      then obtain q' where q': "tab (p @ [l]) = Some q'" by blast
      then have "load64 (fst s) e = PPN2PTE q' PAGE_VALID"
        using ok p l child by (simp add: tree_ok_def e_def)
      moreover have "PAGE_VALID < 2 ^ 10" by (simp add: PAGE_VALID_def)
      ultimately have tb: "is_table (load64 (fst s) e)" and pp: "PTE2PPN (load64 (fst s) e) = q'"
        using levels_path_in_tree [OF ok q']
        by (simp_all only: is_table_PPN2PTE_valid PTE2PPN_PPN2PTE)
      define F1 where "F1 = F \<union> page_set (subtree tab (p @ [l]))"
      have "\<exists>s1. dealloc_table s q' 0 = Some (Inr s1) \<and> buddy_inv R s1 F1 \<and>
          same_outside F1 (fst s) (fst s1)"
        unfolding F1_def
        by (rule less.hyps [OF _ inv lv q']) (use child in auto)
      then obtain m b where s1: "dealloc_table s q' 0 = Some (Inr (m, b))" "buddy_inv R (m, b) F1"
        "same_outside F1 (fst s) m" by auto
      define tab1 where "tab1 = cut tab (p @ [l])"
      note cc = cut_child [OF inv lv p _ l s1(2,3) [unfolded F1_def], folded F1_def tab1_def e_def]
      have lp: "length p < 2" using child by simp
      note cc = cc [OF lp]
      have eq: "dealloc_table s q i = dealloc_table (store64 m e 0, b) q (i + 1)"
        using unfold tb pp s1(1) by simp
      have j: "i + 1 \<le> unat j" if "tab1 (p @ j # zs) \<noteq> None" for j zs
      proof -
        from that have "j \<noteq> l" "tab (p @ j # zs) \<noteq> None"
          by (auto simp: tab1_def cut_apply split: if_splits)
        with less.prems(5) ul show ?thesis by (metis Suc_eq_plus1 Suc_leI le_neq_implies_less word_unat_eq_iff)
      qed
      have "\<exists>s'. dealloc_table (store64 m e 0, b) q (i + 1) = Some (Inr s') \<and>
          buddy_inv R s' (F1 \<union> page_set (subtree tab1 p)) \<and>
          same_outside (F1 \<union> page_set (subtree tab1 p)) (store64 m e 0) (fst s')"
        using less.hyps [of p "i + 1" "(store64 m e 0, b)" F1 tab1 q] cc j True by simp
      then obtain s' where s': "dealloc_table (store64 m e 0, b) q (i + 1) = Some (Inr s')"
        "buddy_inv R s' (F1 \<union> page_set (subtree tab1 p))"
        "same_outside (F1 \<union> page_set (subtree tab1 p)) (store64 m e 0) (fst s')" by blast
      have F12: "F1 \<union> page_set (subtree tab1 p) = F \<union> page_set (subtree tab p)"
      proof -
        have "subtree tab p = subtree tab (p @ [l]) \<union> subtree tab1 p"
        proof (rule set_eqI, rule iffI)
          fix x assume "x \<in> subtree tab p"
          then obtain zs where zs: "tab (p @ zs) = Some x" by (auto simp: subtree_def)
          show "x \<in> subtree tab (p @ [l]) \<union> subtree tab1 p"
          proof (cases "prefix (p @ [l]) (p @ zs)")
            case True
            then obtain ys where "p @ zs = (p @ [l]) @ ys" by (auto simp: prefix_def)
            with zs show ?thesis by (auto simp: subtree_def)
          next
            case False
            with zs show ?thesis by (auto simp: subtree_def tab1_def cut_apply)
          qed
        next
          fix x assume "x \<in> subtree tab (p @ [l]) \<union> subtree tab1 p"
          then show "x \<in> subtree tab p"
            by (auto simp: subtree_def tab1_def cut_apply split: if_splits)
        qed
        then show ?thesis by (simp add: F1_def page_set_Un Un_assoc)
      qed
      have "blk 12 (page_va q) \<subseteq> page_set (subtree tab p)"
        using p by (intro page_in_set) (auto simp: subtree_def intro: exI [of _ "[]"])
      then have "same_outside (F \<union> page_set (subtree tab p)) (fst s) (store64 m e 0)"
        using F12 by (intro same_outside_mono [OF cc(4)]) blast
      with s' show ?thesis unfolding eq F12 by (blast intro: same_outside_trans)
    qed
  qed
qed

lemma dealloc_pagetable_spec:
  assumes "pt_inv R s F tab" and "tab [] = Some root" and "\<And>v. \<not> is_table (leaf (fst s) tab v)"
  shows "\<exists>s'. dealloc_pagetable s root = Inr s' \<and> buddy_inv R s' (F \<union> page_set (ran tab)) \<and>
    same_outside (F \<union> page_set (ran tab)) (fst s) (fst s')"
proof -
  have "subtree tab [] = ran tab" by (auto simp: subtree_def ran_def)
  moreover have "leaves_ok (fst s) tab"
    by (rule leaves_okI) (use assms in \<open>simp_all add: pt_inv_def\<close>)
  ultimately show ?thesis
    using dealloc_table_spec [OF assms(1) _ assms(2), of 0] by (auto simp: dealloc_pagetable_def)
qed


section \<open>A fresh address space\<close>

lemma fresh_root:
  assumes inv: "buddy_inv R s F" and win: "in_window R" and al: "alloc_frame s = Inr (root, s')"
  shows "pt_inv R s' (F - blk 12 (page_va root)) [[] \<mapsto> root]"
    and "leaf (fst s') [[] \<mapsto> root] v = 0"
    and "page_set (ran [[] \<mapsto> root]) = blk 12 (page_va root)"
    and "blk 12 (page_va root) \<subseteq> F" and "same_outside F (fst s) (fst s')"
proof -
  note fr = frames.frame_fresh [OF inv al]
  show "blk 12 (page_va root) \<subseteq> F" "same_outside F (fst s) (fst s')" using fr by auto
  have zero: "load64 (fst s') (entry_addr (page_va root) i) = 0" if "i < 512" for i
  proof -
    have "load64 (fst s') (entry_addr (page_va root) i) = load64 (\<lambda>_. 0) (entry_addr (page_va root) i)"
    proof (rule load_bytes_cong)
      fix x assume "x \<in> bytes_at (entry_addr (page_va root) i) 8"
      then have "x \<in> blk 12 (page_va root)"
        using entry_addr_blk [of "page_va root" i] that by (auto simp: bytes8_blk)
      then show "fst s' x = 0" using fr by blast
    qed simp
    also have "\<dots> = 0" by (rule bit_word_eqI) (simp add: bit_load_bytes)
    finally show ?thesis .
  qed
  show pages: "page_set (ran [[] \<mapsto> root]) = blk 12 (page_va root)" by (simp add: page_set_def)
  have "tree_ok (fst s') [[] \<mapsto> root]"
    using zero alloc_frame_number [OF inv win al] by (auto simp: tree_ok_def split: if_splits)
  moreover have "blk 12 (page_va root) \<subseteq> R" using fr frames.frame_region [OF inv] by blast
  ultimately show "pt_inv R s' (F - blk 12 (page_va root)) [[] \<mapsto> root]"
    using fr win by (auto simp: pt_inv_def pages)
  show "leaf (fst s') [[] \<mapsto> root] v = 0" by (simp add: leaf_def levels_path_def)
qed

end
