(* ===== verification/Paging_Properties.thy ===== *)
theory Paging_Properties
  imports Page_Free Memory_Properties
begin

text \<open>
  The properties of page tables: \<^verbatim>\<open>kernel/mapping.h\<close> and the first half of \<^verbatim>\<open>kernel/mapping.c\<close>.
  The instances are on the small heap of four pages.
\<close>

lemma heap_window: "in_window heap"
proof -
  have "a \<noteq> 0 \<and> pa_of a < 2 ^ 56" if "a \<in> heap" for a
  proof -
    have a: "0xffffffff87ffc000 \<le> unat a" "unat a < 0xffffffff88000000"
      using that by (simp_all add: heap_start_def heap_end_def word_le_nat_alt word_less_nat_alt)
    then have "unat (pa_of a) = unat a - 0xffffffff00000000"
      by (simp add: pa_of_def KERNEL_MAP_OFFSET_def unat_sub word_le_nat_alt)
    with a show ?thesis by (auto simp: word_less_nat_alt)
  qed
  then show ?thesis by (simp add: in_window_def)
qed

text \<open>The small heap has four pages.\<close>

lemma heap_pages: "pages_free heap 4"
proof -
  define P :: "u64 set" where "P = {0x87ffc, 0x87ffd, 0x87ffe, 0x87fff}"
  have "blk 12 (page_va p) \<subseteq> heap" if "p \<in> P" for p
  proof -
    have "unat (page_va p) + 2 ^ 12 \<le> unat heap_end \<and> heap_start \<le> page_va p"
      using that by (auto simp: P_def va_of_def KERNEL_MAP_OFFSET_def push_bit_eq_mult heap_end_def
          heap_start_def word_le_nat_alt)
    then have "blk 12 (page_va p) = {page_va p..<page_va p + 2 ^ 12}"
      "page_va p + 2 ^ 12 \<le> heap_end" "heap_start \<le> page_va p"
      using blk_interval [OF aligned_page_va, of p heap_end] by (simp_all add: word_le_nat_alt)
    then show ?thesis by auto
  qed
  moreover have "card P = 4" "finite P" "\<forall>p \<in> P. p < 2 ^ 44" by (simp_all add: P_def)
  ultimately show ?thesis unfolding pages_free_def by (intro exI [of _ P]) (auto simp: page_set_def)
qed

text \<open>An empty address space on the small heap.\<close>

lemma small_space:
  "\<exists>root s. alloc_frame small_heap = Inr (root, s) \<and>
     pt_inv heap s (heap - blk 12 (page_va root)) [[] \<mapsto> root] \<and>
     (\<forall>v. leaf (fst s) [[] \<mapsto> root] v = 0) \<and>
     pages_free (heap - blk 12 (page_va root)) 3"
proof -
  obtain root s where al: "alloc_frame small_heap = Inr (root, s)"
    using frames.frame_available [OF small_heap_inv heap_page(1)] by blast
  with fresh_root [OF small_heap_inv heap_window al]
    pages_free_take [of heap 3 root] heap_pages alloc_frame_number [OF small_heap_inv heap_window al]
  show ?thesis by auto
qed

section \<open>Entries\<close>

text \<open>
  The macros for page table entries are inverse to each other: a page number below
  \<open>2 ^ 44\<close> packed with flags is read back by \<^verbatim>\<open>PTE2PPN\<close>, and \<^verbatim>\<open>PTE2PA\<close> yields its address.
\<close>

theorem pte_roundtrip:
  assumes "ppn < 2 ^ 44" and "flags < 2 ^ 10"
  shows "PTE2PPN (PPN2PTE ppn flags) = ppn \<and> PTE2PA (PPN2PTE ppn flags) = push_bit 12 ppn"
  using PTE2PPN_PPN2PTE [OF assms] PTE2PA_PPN2PTE [OF assms] by simp

theorem pte_roundtrip_witness:
  "PTE2PPN (PPN2PTE 0x87ffc 0xcf) = 0x87ffc \<and> PTE2PA (PPN2PTE 0x87ffc 0xcf) = push_bit 12 0x87ffc"
  by (rule pte_roundtrip) simp_all

section \<open>The walk\<close>



section \<open>Mapping\<close>

text \<open>
  C30: \<^verbatim>\<open>map_pages\<close> gives the pages of the range consecutive page numbers with the flags, keeps
  every other translation, and writes only to free memory and to tables; the one way to fail is
  to run out of memory for tables, with fewer than two pages free per page to map.
\<close>

theorem map_pages_correct:
  assumes "pt_inv R s F tab" and "tab [] = Some root"
    and "length (va_range start (start + scast sz)) \<le> 2 ^ 27"
  defines "vpns \<equiv> va_range start (start + scast (sz :: 32 word))"
  shows "case map_pages s root start start_pa sz flags of
      Inl e \<Rightarrow> e = Panic ''Not enough memory!'' \<and> \<not> pages_free F (2 * length vpns)
    | Inr s' \<Rightarrow> same_outside (F \<union> page_set (ran tab)) (fst s) (fst s') \<and>
        (\<exists>F' tab'. pt_inv R s' F' tab' \<and>
          (\<forall>i < length vpns. leaf (fst s') tab' (vpns ! i) =
             PPN2PTE (drop_bit 12 start_pa + of_nat i) flags) \<and>
          (\<forall>v. take_bit 27 v \<notin> take_bit 27 ` set vpns \<longrightarrow> leaf (fst s') tab' v = leaf (fst s) tab v))"
proof -
  have dist: "distinct (map (take_bit 27) vpns)"
    unfolding vpns_def by (rule va_range_distinct) (rule assms(3))
  note sp = map_pages_loop_spec [OF assms(1,2) dist, of "drop_bit 12 start_pa" flags]
  have eq: "map_pages s root start start_pa sz flags =
      map_pages_loop s root vpns (drop_bit 12 start_pa) flags" by (simp add: map_pages_def vpns_def)
  show ?thesis
  proof (cases "map_pages_loop s root vpns (drop_bit 12 start_pa) flags")
    case (Inl e)
    with sp eq show ?thesis by simp
  next
    case (Inr s')
    then obtain F' tab' where ev: "evolved R s F tab s' F' tab' {}"
      and mp: "mapped (leaf (fst s) tab) vpns
        (map (\<lambda>i. PPN2PTE (drop_bit 12 start_pa + of_nat i) flags) [0..<length vpns]) (leaf (fst s') tab')"
      using sp by auto
    have "leaf (fst s') tab' (vpns ! i) = PPN2PTE (drop_bit 12 start_pa + of_nat i) flags"
      if "i < length vpns" for i
      using mapped_nth [OF mp dist that] that by simp
    with mapped_other [OF mp] evolvedD(1,8) [OF ev] show ?thesis
      unfolding eq Inr sum.case by blast
  qed
qed

theorem map_pages_correct_witness:
  "\<exists>root s s' F' tab'. alloc_frame small_heap = Inr (root, s) \<and>
    map_pages s root 0x1000 0x80000000 4096 0xcf = Inr s' \<and> pt_inv heap s' F' tab' \<and>
    leaf (fst s') tab' 1 = PPN2PTE 0x80000 0xcf"
proof -
  obtain root s where s: "alloc_frame small_heap = Inr (root, s)"
    "pt_inv heap s (heap - blk 12 (page_va root)) [[] \<mapsto> root]"
    "pages_free (heap - blk 12 (page_va root)) 3" using small_space by blast
  have vr: "va_range 0x1000 (0x1000 + scast (4096 :: 32 word)) = [1]"
    by (simp add: va_range_def upt_rec)
  have root: "[[] \<mapsto> root] [] = Some root" by simp
  have two: "pages_free (heap - blk 12 (page_va root)) 2" using s(3) by (rule pages_free_less) simp
  note mp = map_pages_correct [OF s(2) root, where start = "0x1000" and sz = 4096
    and start_pa = "0x80000000" and flags = "0xcf", unfolded vr]
  show ?thesis
  proof (cases "map_pages s root 0x1000 0x80000000 4096 0xcf")
    case (Inl e)
    with mp two show ?thesis by simp
  next
    case (Inr s')
    with mp obtain F' tab' where "pt_inv heap s' F' tab'"
      "leaf (fst s') tab' 1 = PPN2PTE 0x80000 0xcf" by auto
    with Inr s(1) show ?thesis by blast
  qed
qed

text \<open>
  C17: \<^verbatim>\<open>map_segment\<close> of a framed segment that returns has mapped every page of its range to a
  frame of its own, taken from the free memory and holding the next piece of the data followed
  by zeros; no page was mapped before, every other translation and all memory outside is kept.
  It fails only with fewer than three pages free per page to map, or because a page of the range was already mapped.
\<close>

theorem map_segment_correct:
  assumes "pt_inv R s F tab" and "tab [] = Some root" and "seg_type seg = Framed"
    and "length (va_range (start_va seg) (end_va seg)) \<le> 2 ^ 27"
    and "data_ok data len (F \<union> page_set (ran tab))"
  defines "vpns \<equiv> va_range (start_va seg) (end_va seg)"
  shows "case map_segment s root seg data len of
      Inl e \<Rightarrow> e = Panic ''Not enough memory!'' \<and> \<not> pages_free F (3 * length vpns) \<or>
        e = already_mapped \<and> (\<exists>v \<in> set vpns. leaf (fst s) tab v \<noteq> 0)
    | Inr s' \<Rightarrow> (\<forall>v \<in> set vpns. leaf (fst s) tab v = 0) \<and>
        same_outside (F \<union> page_set (ran tab)) (fst s) (fst s') \<and>
        (\<exists>F' tab' ps. pt_inv R s' F' tab' \<and> distinct ps \<and> length ps = length vpns \<and>
          page_set (set ps) \<subseteq> F - F' \<and>
          (\<forall>i < length vpns. leaf (fst s') tab' (vpns ! i) = PPN2PTE (ps ! i) (seg_flags seg)) \<and>
          (\<forall>v. take_bit 27 v \<notin> take_bit 27 ` set vpns \<longrightarrow> leaf (fst s') tab' v = leaf (fst s) tab v) \<and>
          pages_hold (fst s') ps (seg_byte (fst s) data len))"
proof -
  have dist: "distinct (map (take_bit 27) vpns)"
    unfolding vpns_def by (rule va_range_distinct) (rule assms(4))
  have eq: "map_segment s root seg data len = map_segment_loop s root seg vpns data len"
    by (simp add: map_segment_def vpns_def)
  note sp = map_segment_loop_framed [OF assms(3,1,2) dist assms(5)]
  show ?thesis
  proof (cases "map_segment_loop s root seg vpns data len")
    case (Inl e)
    with sp eq show ?thesis by simp
  next
    case (Inr s')
    then obtain F' tab' ps where ps: "distinct ps" "evolved R s F tab s' F' tab' (set ps)"
      and mp: "mapped (leaf (fst s) tab) vpns (map (\<lambda>p. PPN2PTE p (seg_flags seg)) ps) (leaf (fst s') tab')"
      and hold: "pages_hold (fst s') ps (seg_byte (fst s) data len)"
      and none: "\<forall>v \<in> set vpns. leaf (fst s) tab v = 0"
      using sp by auto
    have len: "length ps = length vpns" using mp by (simp add: mapped_def)
    have "leaf (fst s') tab' (vpns ! i) = PPN2PTE (ps ! i) (seg_flags seg)" if "i < length vpns" for i
      using mapped_nth [OF mp dist that] that len by simp
    moreover have "page_set (set ps) \<subseteq> F - F'" using evolvedD(3,5) [OF ps(2)] by blast
    ultimately show ?thesis
      unfolding eq Inr sum.case
      using none evolvedD(1,8) [OF ps(2)] ps(1) len mapped_other [OF mp] hold by blast
  qed
qed

definition demo_segment :: segment where
  "demo_segment = \<lparr>start_va = 0x10000, end_va = 0x10100, seg_flags = 0x1f, seg_type = Framed\<rparr>"

lemma demo_range: "va_range (start_va demo_segment) (end_va demo_segment) = [0x10]"
  by (simp add: va_range_def demo_segment_def)

text \<open>Data below the heap, and the first root table on the small heap.\<close>

lemma demo_data: "F \<subseteq> heap \<Longrightarrow> data_ok 0x1000 0x100 F"
proof -
  have "unat x < 0x1100" if "x \<in> bytes_at 0x1000 0x100" for x :: addr
  proof -
    have "unat (x - 0x1000) < 0x100" using that by (simp add: bytes_at_def)
    then have "unat (x - 0x1000 + 0x1000) < 0x1100" by (simp only: unat_plus_if') simp
    then show ?thesis by simp
  qed
  then have "bytes_at 0x1000 0x100 \<inter> heap = {}"
    by (fastforce simp: heap_start_def word_le_nat_alt)
  then show "F \<subseteq> heap \<Longrightarrow> data_ok 0x1000 0x100 F" by (auto simp: data_ok_def)
qed

theorem map_segment_correct_witness:
  "\<exists>root s s' F' tab' p. alloc_frame small_heap = Inr (root, s) \<and>
    map_segment s root demo_segment 0x1000 0x100 = Inr s' \<and> pt_inv heap s' F' tab' \<and>
    leaf (fst s') tab' 0x10 = PPN2PTE p 0x1f \<and>
    pages_hold (fst s') [p] (seg_byte (fst s) 0x1000 0x100)"
proof -
  obtain root s where s: "alloc_frame small_heap = Inr (root, s)"
    "pt_inv heap s (heap - blk 12 (page_va root)) [[] \<mapsto> root]"
    "\<forall>v. leaf (fst s) [[] \<mapsto> root] v = 0" "pages_free (heap - blk 12 (page_va root)) 3"
    using small_space by blast
  have root: "[[] \<mapsto> root] [] = Some root" by simp
  have "page_set (ran [[] \<mapsto> root]) \<subseteq> heap" using s(2) by (auto simp: pt_inv_def)
  then have "data_ok 0x1000 0x100 (heap - blk 12 (page_va root) \<union> page_set (ran [[] \<mapsto> root]))"
    by (intro demo_data) blast
  note mc = map_segment_correct [OF s(2) root _ _ this, of demo_segment, unfolded demo_range]
  have mc: "case map_segment s root demo_segment 0x1000 0x100 of
      Inl e \<Rightarrow> False
    | Inr s' \<Rightarrow> \<exists>F' tab' ps. pt_inv heap s' F' tab' \<and> length ps = 1 \<and>
        leaf (fst s') tab' 0x10 = PPN2PTE (ps ! 0) 0x1f \<and>
        pages_hold (fst s') ps (seg_byte (fst s) 0x1000 0x100)"
    using mc s(3,4) by (fastforce simp: demo_segment_def split: sum.splits)
  show ?thesis
  proof (cases "map_segment s root demo_segment 0x1000 0x100")
    case (Inr s')
    with mc obtain F' tab' ps where ps: "pt_inv heap s' F' tab'" "length ps = 1"
      "leaf (fst s') tab' 0x10 = PPN2PTE (ps ! 0) 0x1f"
      "pages_hold (fst s') ps (seg_byte (fst s) 0x1000 0x100)" by auto
    then obtain p where "ps = [p]" by (auto simp: length_Suc_conv)
    with ps have "pages_hold (fst s') [p] (seg_byte (fst s) 0x1000 0x100)"
      "leaf (fst s') tab' 0x10 = PPN2PTE p 0x1f" by simp_all
    with ps(1) Inr s(1) show ?thesis by blast
  qed (use mc in simp)
qed

text \<open>
  C37: \<^verbatim>\<open>map_segment\<close> of a linear segment maps every page of the range to the physical page at
  the fixed offset, keeps every other translation, and refuses a page that is already mapped.
\<close>

theorem map_linear_correct:
  assumes "pt_inv R s F tab" and "tab [] = Some root" and "seg_type seg = Linear"
    and "length (va_range (start_va seg) (end_va seg)) \<le> 2 ^ 27"
  defines "vpns \<equiv> va_range (start_va seg) (end_va seg)"
  shows "case map_segment s root seg 0 0 of
      Inl e \<Rightarrow> e = Panic ''Not enough memory!'' \<and> \<not> pages_free F (2 * length vpns) \<or>
        e = already_mapped \<and> (\<exists>v \<in> set vpns. leaf (fst s) tab v \<noteq> 0)
    | Inr s' \<Rightarrow> (\<forall>v \<in> set vpns. leaf (fst s) tab v = 0) \<and>
        (\<exists>F' tab'. pt_inv R s' F' tab' \<and>
          (\<forall>i < length vpns. leaf (fst s') tab' (vpns ! i) =
             PPN2PTE (ppn_of (vpns ! i)) (seg_flags seg)) \<and>
          (\<forall>v. take_bit 27 v \<notin> take_bit 27 ` set vpns \<longrightarrow> leaf (fst s') tab' v = leaf (fst s) tab v))"
proof -
  have dist: "distinct (map (take_bit 27) vpns)"
    unfolding vpns_def by (rule va_range_distinct) (rule assms(4))
  have eq: "map_segment s root seg 0 0 = map_segment_loop s root seg vpns 0 0"
    by (simp add: map_segment_def vpns_def)
  note sp = map_segment_loop_linear [OF assms(3,1,2) dist, of 0]
  show ?thesis
  proof (cases "map_segment_loop s root seg vpns 0 0")
    case (Inl e)
    with sp eq show ?thesis by simp
  next
    case (Inr s')
    then obtain F' tab' where ev: "evolved R s F tab s' F' tab' {}"
      and mp: "mapped (leaf (fst s) tab) vpns (map (\<lambda>v. PPN2PTE (ppn_of v) (seg_flags seg)) vpns)
        (leaf (fst s') tab')"
      and none: "\<forall>v \<in> set vpns. leaf (fst s) tab v = 0"
      using sp by auto
    have "leaf (fst s') tab' (vpns ! i) = PPN2PTE (ppn_of (vpns ! i)) (seg_flags seg)"
      if "i < length vpns" for i
      using mapped_nth [OF mp dist that] that by simp
    with none evolvedD(1) [OF ev] mapped_other [OF mp] show ?thesis
      unfolding eq Inr sum.case by blast
  qed
qed

theorem map_linear_correct_witness:
  "\<exists>root s s' F' tab'. alloc_frame small_heap = Inr (root, s) \<and>
    map_segment s root (demo_segment\<lparr>seg_type := Linear\<rparr>) 0 0 = Inr s' \<and> pt_inv heap s' F' tab' \<and>
    leaf (fst s') tab' 0x10 = PPN2PTE (ppn_of 0x10) 0x1f"
proof -
  obtain root s where s: "alloc_frame small_heap = Inr (root, s)"
    "pt_inv heap s (heap - blk 12 (page_va root)) [[] \<mapsto> root]"
    "\<forall>v. leaf (fst s) [[] \<mapsto> root] v = 0" "pages_free (heap - blk 12 (page_va root)) 3"
    using small_space by blast
  have root: "[[] \<mapsto> root] [] = Some root" by simp
  have two: "pages_free (heap - blk 12 (page_va root)) 2" using s(4) by (rule pages_free_less) simp
  define seg where "seg = demo_segment\<lparr>seg_type := Linear\<rparr>"
  have vr: "va_range (start_va seg) (end_va seg) = [0x10]" using demo_range by (simp add: seg_def)
  note mc = map_linear_correct [OF s(2) root, of seg, unfolded vr]
  have "case map_segment s root seg 0 0 of
      Inl e \<Rightarrow> False
    | Inr s' \<Rightarrow> \<exists>F' tab'. pt_inv heap s' F' tab' \<and> leaf (fst s') tab' 0x10 = PPN2PTE (ppn_of 0x10) 0x1f"
    using mc s(3) two by (fastforce simp: seg_def demo_segment_def split: sum.splits)
  then obtain s' F' tab' where "map_segment s root seg 0 0 = Inr s'" "pt_inv heap s' F' tab'"
      "leaf (fst s') tab' 0x10 = PPN2PTE (ppn_of 0x10) 0x1f"
    by (cases "map_segment s root seg 0 0") auto
  with s(1) show ?thesis unfolding seg_def by blast
qed

section \<open>Unmapping\<close>

text \<open>
  C19: \<^verbatim>\<open>dealloc_pagetable\<close> returns, though its recursion follows whatever the entries say, and
  gives back exactly the pages of the table tree, as long as no entry of a mapped page looks
  like a table, that is, every one has a permission bit.
\<close>

theorem dealloc_pagetable_correct:
  assumes "pt_inv R s F tab" and "tab [] = Some root" and "\<And>v. \<not> is_table (leaf (fst s) tab v)"
  shows "\<exists>s'. dealloc_pagetable s root = Inr s' \<and> buddy_inv R s' (F \<union> page_set (ran tab)) \<and>
    same_outside (F \<union> page_set (ran tab)) (fst s) (fst s')"
  using dealloc_pagetable_spec [OF assms] .

theorem dealloc_pagetable_correct_witness:
  "\<exists>root s s'. alloc_frame small_heap = Inr (root, s) \<and> dealloc_pagetable s root = Inr s' \<and>
     buddy_inv heap s' heap"
proof -
  obtain root s where s: "alloc_frame small_heap = Inr (root, s)"
    "pt_inv heap s (heap - blk 12 (page_va root)) [[] \<mapsto> root]"
    "\<forall>v. leaf (fst s) [[] \<mapsto> root] v = 0" using small_space by blast
  have "heap - blk 12 (page_va root) \<union> page_set (ran [[] \<mapsto> root]) = heap"
    using fresh_root(3,4) [OF small_heap_inv heap_window s(1)] by blast
  with dealloc_pagetable_correct [OF s(2)] s show ?thesis by fastforce
qed

text \<open>
  C14: the life of an address space loses no memory: a new root table, a framed segment mapped
  with its data, unmapped again and the tables freed leave the free memory as it was, and change
  no byte outside it.
\<close>

theorem segment_lifecycle:
  assumes inv: "buddy_inv R s F" and win: "in_window R" and al: "alloc_frame s = Inr (root, s1)"
    and fr: "seg_type seg = Framed" and len: "length (va_range (start_va seg) (end_va seg)) \<le> 2 ^ 27"
    and flags: "seg_flags seg < 2 ^ 10" "seg_flags seg AND (PAGE_READ OR PAGE_WRITE OR PAGE_EXEC) \<noteq> 0"
    and data: "data_ok data dlen F" and map: "map_segment s1 root seg data dlen = Inr s2"
  shows "\<exists>s3 s4. unmap_segment s2 root seg = Inr s3 \<and> dealloc_pagetable s3 root = Inr s4 \<and>
    buddy_inv R s4 F \<and> same_outside F (fst s) (fst s4)"
proof -
  define vpns where "vpns = va_range (start_va seg) (end_va seg)"
  define F1 where "F1 = F - blk 12 (page_va root)"
  define t1 :: tree where "t1 = [[] \<mapsto> root]"
  note f = fresh_root [OF inv win al, folded F1_def t1_def]
  have cover: "F1 \<union> page_set (ran t1) = F" using f(3,4) unfolding F1_def t1_def by blast
  have dist: "distinct (map (take_bit 27) vpns)" unfolding vpns_def by (rule va_range_distinct) (rule len)
  have r1: "t1 [] = Some root" by (simp add: t1_def)
  obtain F2 t2 ps where ev: "evolved R s1 F1 t1 s2 F2 t2 (set ps)" and dps: "distinct ps"
    and mp: "mapped (leaf (fst s1) t1) vpns (map (\<lambda>p. PPN2PTE p (seg_flags seg)) ps) (leaf (fst s2) t2)"
    using map_segment_loop_framed [OF fr f(1) r1 dist, of data dlen] data cover map
    by (auto simp: map_segment_def vpns_def)
  note e = evolvedD [OF ev]
  have lps: "length ps = length vpns" using mp by (simp add: mapped_def)
  have leaf2: "leaf (fst s2) t2 (vpns ! i) = PPN2PTE (ps ! i) (seg_flags seg)" if "i < length vpns" for i
    using mapped_nth [OF mp dist that] that lps by simp
  have nt: "\<not> is_table (leaf (fst s2) t2 v)" for v
  proof (cases "take_bit 27 v \<in> take_bit 27 ` set vpns")
    case True
    then obtain i where i: "i < length vpns" "take_bit 27 v = take_bit 27 (vpns ! i)"
      by (auto simp: in_set_conv_nth)
    then have "leaf (fst s2) t2 v = leaf (fst s2) t2 (vpns ! i)"
      using levels_eq_iff [of v "vpns ! i"] by (simp add: leaf_def cong: option.case_cong)
    then show ?thesis using leaf2 [OF i(1)] leaf_not_table [OF flags(2)] by simp
  next
    case False
    then show ?thesis using mapped_other [OF mp False] f(2) by simp
  qed
  have pR: "page_set (set ps) \<subseteq> R - F2 - page_set (ran t2)"
    using e(3,5,6) f(1) buddy.inv_region [OF inv] by (auto simp: F1_def)
  have root2: "t2 [] = Some root" by (rule pt_root [OF r1 e(2)])
  have "PPN2PTE p (seg_flags seg) \<noteq> 0" for p
  proof
    assume "PPN2PTE p (seg_flags seg) = 0"
    then have "\<not> bit (PPN2PTE p (seg_flags seg)) n" for n by simp
    then have "seg_flags seg = 0" by (auto simp: bit_PPN2PTE intro: bit_word_eqI)
    with flags(2) show False by simp
  qed
  then have la: "list_all2 (\<lambda>v p. PTE2PPN (leaf (fst s2) t2 v) = p \<and> leaf (fst s2) t2 v \<noteq> 0) vpns ps"
    unfolding list_all2_conv_all_nth using lps leaf2 e(7) flags(1)
    by (auto simp: PTE2PPN_PPN2PTE)
  obtain s3 where s3: "unmap_segment_loop s2 root vpns = Inr s3"
    "pt_inv R s3 (F2 \<union> page_set (set ps)) t2" "same_outside (F2 \<union> page_set (set ps)) (fst s2) (fst s3)"
    "\<forall>v. leaf (fst s3) t2 v = leaf (fst s2) t2 v"
    using unmap_segment_loop_spec [OF e(1) root2 la dps e(7) pR] by blast
  have "unmap_segment s2 root seg = Inr s3" using s3(1) fr by (simp add: unmap_segment_def vpns_def)
  moreover obtain s4 where s4: "dealloc_pagetable s3 root = Inr s4"
    "buddy_inv R s4 (F2 \<union> page_set (set ps) \<union> page_set (ran t2))"
    "same_outside (F2 \<union> page_set (set ps) \<union> page_set (ran t2)) (fst s3) (fst s4)"
    using dealloc_pagetable_spec [OF s3(2) root2] nt s3(4) by auto
  moreover have all: "F2 \<union> page_set (set ps) \<union> page_set (ran t2) = F"
    using e(3,4,5) cover map_le_page_set [OF e(2)] by blast
  moreover have "same_outside F (fst s) (fst s4)"
  proof -
    have "same_outside F (fst s1) (fst s2)" using e(8) cover by simp
    moreover have "same_outside F (fst s2) (fst s3)" by (rule same_outside_mono [OF s3(3)]) (use all in blast)
    moreover have "same_outside F (fst s3) (fst s4)" using s4(3) all by simp
    ultimately show ?thesis using f(5) by (blast intro: same_outside_trans)
  qed
  moreover have "buddy_inv R s4 F" using s4(2) all by simp
  ultimately show ?thesis using s4(1) by blast
qed


text \<open>The pages of the small heap are just enough for one mapped page.\<close>

theorem segment_lifecycle_witness:
  "\<exists>root s1 s2 s3 s4. alloc_frame small_heap = Inr (root, s1) \<and>
    map_segment s1 root demo_segment 0x1000 0x100 = Inr s2 \<and>
    unmap_segment s2 root demo_segment = Inr s3 \<and> dealloc_pagetable s3 root = Inr s4 \<and>
    buddy_inv heap s4 heap"
proof -
  obtain root s where s: "alloc_frame small_heap = Inr (root, s)"
    "pt_inv heap s (heap - blk 12 (page_va root)) [[] \<mapsto> root]"
    "\<forall>v. leaf (fst s) [[] \<mapsto> root] v = 0" "pages_free (heap - blk 12 (page_va root)) 3"
    using small_space by blast
  have root: "[[] \<mapsto> root] [] = Some root" by simp
  have "page_set (ran [[] \<mapsto> root]) \<subseteq> heap" using s(2) by (auto simp: pt_inv_def)
  then have d: "data_ok 0x1000 0x100 (heap - blk 12 (page_va root) \<union> page_set (ran [[] \<mapsto> root]))"
    by (intro demo_data) blast
  have fr: "seg_type demo_segment = Framed" by (simp add: demo_segment_def)
  have "distinct (map (take_bit 27) [0x10 :: u64])" by simp
  from map_segment_loop_framed [OF fr s(2) root this d] s(3,4)
  obtain s2 where s2: "map_segment s root demo_segment 0x1000 0x100 = Inr s2"
    unfolding map_segment_def demo_range by (auto split: sum.splits)
  have "seg_flags demo_segment AND (PAGE_READ OR PAGE_WRITE OR PAGE_EXEC) \<noteq> 0"
    "seg_flags demo_segment < 2 ^ 10"
    by (simp_all add: demo_segment_def PAGE_READ_def PAGE_WRITE_def PAGE_EXEC_def)
  with segment_lifecycle [OF small_heap_inv heap_window s(1) fr _ _ _ demo_data s2] demo_range s(1) s2
  show ?thesis by fastforce
qed

end
