(* ===== verification/Dlist_Heap.thy ===== *)
theory Dlist_Heap
  imports Lilac_Prelude
begin

text \<open>
  The circular doubly linked lists of \<^verbatim>\<open>kernel/list.h\<close>. A \<^verbatim>\<open>struct list_head\<close> is embedded in the
  objects it links, so a link is named by the address of that member, and the links of all
  objects form a store of their own: the \<^verbatim>\<open>next\<close> and \<^verbatim>\<open>prev\<close> fields as maps from addresses.
\<close>

section \<open>The operations\<close>

record links =
  next_of :: "addr \<Rightarrow> addr"
  prev_of :: "addr \<Rightarrow> addr"

definition INIT_LIST_HEAD :: "links \<Rightarrow> addr \<Rightarrow> links" where
  "INIT_LIST_HEAD l p =
     (let l = l\<lparr>next_of := (next_of l)(p := p)\<rparr>
      in l\<lparr>prev_of := (prev_of l)(p := p)\<rparr>)"

definition list_add_between :: "links \<Rightarrow> addr \<Rightarrow> addr \<Rightarrow> addr \<Rightarrow> links" where
  "list_add_between l new prev nxt =
     (let l = l\<lparr>prev_of := (prev_of l)(nxt := new)\<rparr>;
          l = l\<lparr>next_of := (next_of l)(new := nxt)\<rparr>;
          l = l\<lparr>prev_of := (prev_of l)(new := prev)\<rparr>
      in l\<lparr>next_of := (next_of l)(prev := new)\<rparr>)"

definition list_add :: "links \<Rightarrow> addr \<Rightarrow> addr \<Rightarrow> links" where
  "list_add l new head = list_add_between l new head (next_of l head)"

definition list_add_tail :: "links \<Rightarrow> addr \<Rightarrow> addr \<Rightarrow> links" where
  "list_add_tail l new head = list_add_between l new (prev_of l head) head"

definition list_del :: "links \<Rightarrow> addr \<Rightarrow> links" where
  "list_del l entry =
     (let l = l\<lparr>prev_of := (prev_of l)(next_of l entry := prev_of l entry)\<rparr>;
          l = l\<lparr>next_of := (next_of l)(prev_of l entry := next_of l entry)\<rparr>
      in INIT_LIST_HEAD l entry)"

definition list_empty :: "links \<Rightarrow> addr \<Rightarrow> bool" where
  "list_empty l head \<longleftrightarrow> next_of l head = head"

text \<open>
  The order in which \<^verbatim>\<open>list_for_each_entry\<close> visits the members of a list it does not change:
  from the successor of the head to the node before the head comes up again. A list whose
  links do not lead back to the head is never left.
\<close>

partial_function (option) visit_from :: "links \<Rightarrow> addr \<Rightarrow> addr \<Rightarrow> addr list option" where
  "visit_from l head pos =
     (if pos = head then Some []
      else Option.bind (visit_from l head (next_of l pos)) (\<lambda>xs. Some (pos # xs)))"

declare visit_from.simps [code]

definition list_for_each :: "links \<Rightarrow> addr \<Rightarrow> addr list option" where
  "list_for_each l head = visit_from l head (next_of l head)"

section \<open>Circular lists\<close>

text \<open>The segment from \<open>a\<close> through \<open>xs\<close> to \<open>b\<close>, and the list with head \<open>h\<close> and members \<open>xs\<close>.\<close>

primrec dseg :: "links \<Rightarrow> addr \<Rightarrow> addr list \<Rightarrow> addr \<Rightarrow> bool" where
  "dseg l a [] b = (next_of l a = b \<and> prev_of l b = a)"
| "dseg l a (x # xs) b = (next_of l a = x \<and> prev_of l x = a \<and> dseg l x xs b)"

definition clist :: "links \<Rightarrow> addr \<Rightarrow> addr list \<Rightarrow> bool" where
  "clist l h xs \<longleftrightarrow> dseg l h xs h \<and> distinct (h # xs)"

definition links_same_outside :: "addr set \<Rightarrow> links \<Rightarrow> links \<Rightarrow> bool" where
  "links_same_outside S l l' \<longleftrightarrow>
     (\<forall>p. p \<notin> S \<longrightarrow> next_of l' p = next_of l p \<and> prev_of l' p = prev_of l p)"

lemma links_same_refl [simp]: "links_same_outside S l l"
  by (simp add: links_same_outside_def)

lemma links_same_trans:
  "links_same_outside S l l' \<Longrightarrow> links_same_outside S l' l'' \<Longrightarrow> links_same_outside S l l''"
  by (simp add: links_same_outside_def)

lemma links_same_mono: "links_same_outside S l l' \<Longrightarrow> S \<subseteq> T \<Longrightarrow> links_same_outside T l l'"
  by (auto simp: links_same_outside_def)

lemma dseg_append: "dseg l a (xs @ y # ys) b \<longleftrightarrow> dseg l a xs y \<and> dseg l y ys b"
  by (induction xs arbitrary: a) auto

lemma dseg_frame:
  "links_same_outside S l l' \<Longrightarrow> (insert a (set xs) \<union> {b}) \<inter> S = {} \<Longrightarrow> dseg l' a xs b = dseg l a xs b"
  by (induction xs arbitrary: a) (auto simp: links_same_outside_def)

text \<open>The links a segment reads: \<open>next\<close> from its start on, \<open>prev\<close> after its start.\<close>

lemma dseg_cong:
  assumes "\<forall>p \<in> insert a (set xs). next_of l' p = next_of l p"
    and "\<forall>p \<in> insert b (set xs). prev_of l' p = prev_of l p"
  shows "dseg l' a xs b = dseg l a xs b"
  using assms by (induction xs arbitrary: a) auto

lemma clist_frame:
  "links_same_outside S l l' \<Longrightarrow> set (h # xs) \<inter> S = {} \<Longrightarrow> clist l' h xs = clist l h xs"
  by (simp add: clist_def dseg_frame)

lemma clist_init [simp]: "clist (INIT_LIST_HEAD l p) p []"
  by (simp add: clist_def INIT_LIST_HEAD_def)

lemma init_same: "links_same_outside {p} l (INIT_LIST_HEAD l p)"
  by (simp add: links_same_outside_def INIT_LIST_HEAD_def)

lemma list_empty_iff: "clist l h xs \<Longrightarrow> list_empty l h \<longleftrightarrow> xs = []"
  by (cases xs) (auto simp: clist_def list_empty_def)

lemma clist_next: "clist l h (x # xs) \<Longrightarrow> next_of l h = x"
  by (simp add: clist_def)

text \<open>Insertion between two neighbours, from which both ends follow.\<close>

lemma add_between:
  assumes "clist l h (xs @ ys)" and "n \<notin> set (h # xs @ ys)"
    and "prev = last (h # xs)" and "nxt = hd (ys @ [h])"
  shows "clist (list_add_between l n prev nxt) h (xs @ n # ys)"
    and "links_same_outside (set (n # h # xs @ ys)) l (list_add_between l n prev nxt)"
proof -
  define l' where "l' = list_add_between l n prev nxt"
  have nx: "next_of l' = (next_of l)(n := nxt, prev := n)"
    and pv: "prev_of l' = (prev_of l)(nxt := n, n := prev)"
    by (simp_all add: l'_def list_add_between_def Let_def)
  have ends: "prev \<in> set (h # xs)" "nxt \<in> set (h # ys)"
    using assms(3,4) by (simp, cases ys, auto)
  show "links_same_outside (set (n # h # xs @ ys)) l (list_add_between l n prev nxt)"
    using ends by (auto simp: links_same_outside_def l'_def [symmetric] nx pv)
  have dist: "distinct (h # xs @ ys)" and seg: "dseg l h (xs @ ys) h"
    using assms(1) by (simp_all add: clist_def)
  have left: "dseg l' a xs' n"
    if "dseg l a (xs' @ ys) h" "distinct (a # xs')" "set (a # xs') \<inter> set ys = {}"
      "prev = last (a # xs')" "n \<notin> set (a # xs')" "nxt \<notin> set xs'" for a xs'
    using that
  proof (induction xs' arbitrary: a)
    case Nil
    then show ?case by (auto simp: nx pv)
  next
    case (Cons x xs')
    have "prev \<noteq> a" using Cons.prems(2,4) by (metis distinct.simps(2) last_ConsR last_in_set list.distinct(1))
    with Cons show ?case by (auto simp: nx pv)
  qed
  have "dseg l' h xs n"
    using seg dist assms ends by (intro left) auto
  moreover have "dseg l' n ys h"
  proof (cases ys)
    case Nil
    then show ?thesis using assms(2-4) by (auto simp: nx pv)
  next
    case (Cons y zs)
    have "dseg l y zs h" using seg unfolding Cons dseg_append by simp
    moreover have "dseg l' y zs h = dseg l y zs h"
      by (rule dseg_cong) (use dist assms ends Cons in \<open>auto simp: nx pv\<close>)
    ultimately show ?thesis using assms(2-4) Cons by (auto simp: nx pv)
  qed
  ultimately show "clist (list_add_between l n prev nxt) h (xs @ n # ys)"
    using dist assms(2) by (auto simp: clist_def dseg_append l'_def)
qed

lemma clist_add:
  assumes "clist l h xs" and "n \<notin> set (h # xs)"
  shows "clist (list_add l n h) h (n # xs)"
    and "links_same_outside (set (n # h # xs)) l (list_add l n h)"
proof -
  have "next_of l h = hd (xs @ [h])" using assms(1) by (cases xs) (auto simp: clist_def)
  with add_between [of l h "[]" xs n h "next_of l h"] assms
  show "clist (list_add l n h) h (n # xs)"
    "links_same_outside (set (n # h # xs)) l (list_add l n h)"
    by (simp_all add: list_add_def)
qed

lemma clist_prev: "clist l h xs \<Longrightarrow> prev_of l h = last (h # xs)"
proof -
  have "dseg l a xs b \<Longrightarrow> prev_of l b = last (a # xs)" for a b
    by (induction xs arbitrary: a) auto
  then show "clist l h xs \<Longrightarrow> prev_of l h = last (h # xs)" by (simp add: clist_def)
qed

lemma clist_add_tail:
  assumes "clist l h xs" and "n \<notin> set (h # xs)"
  shows "clist (list_add_tail l n h) h (xs @ [n])"
    and "links_same_outside (set (n # h # xs)) l (list_add_tail l n h)"
  using add_between [of l h xs "[]" n "prev_of l h" h] assms clist_prev [OF assms(1)]
  by (simp_all add: list_add_tail_def)

lemma clist_del:
  assumes "clist l h (xs @ n # ys)"
  shows "clist (list_del l n) h (xs @ ys)" and "clist (list_del l n) n []"
    and "links_same_outside (set (h # xs @ n # ys)) l (list_del l n)"
proof -
  define p where "p = last (h # xs)"
  define q where "q = hd (ys @ [h])"
  define l' where "l' = list_del l n"
  have dist: "distinct (h # xs @ n # ys)" and seg: "dseg l h xs n" "dseg l n ys h"
    using assms by (auto simp: clist_def dseg_append)
  have "prev_of l n = p"
  proof -
    have "dseg l a xs n \<Longrightarrow> prev_of l n = last (a # xs)" for a by (induction xs arbitrary: a) auto
    with seg(1) show ?thesis by (simp add: p_def)
  qed
  moreover have "next_of l n = q" using seg(2) by (cases ys) (auto simp: q_def)
  moreover have pq: "p \<in> set (h # xs)" "q \<in> set (h # ys)" "p \<noteq> n" "q \<noteq> n"
    using dist by (simp add: p_def, simp add: q_def, cases ys, auto simp: p_def q_def hd_append)
  ultimately have nx: "next_of l' = (next_of l)(p := q, n := n)"
    and pv: "prev_of l' = (prev_of l)(q := p, n := n)"
    by (auto simp: l'_def list_del_def INIT_LIST_HEAD_def Let_def)
  show "clist (list_del l n) n []" by (simp add: clist_def l'_def [symmetric] nx pv)
  show "links_same_outside (set (h # xs @ n # ys)) l (list_del l n)"
    using pq by (auto simp: links_same_outside_def l'_def [symmetric] nx pv)
  have "dseg l' h (xs @ ys) h"
  proof (cases ys)
    case Nil
    have "dseg l' a xs' h" if "dseg l a xs' n" "p = last (a # xs')" "distinct (a # xs')"
      "n \<notin> set (a # xs')" "h \<notin> set xs'" "h \<noteq> n" for a xs'
      using that
    proof (induction xs' arbitrary: a)
      case Nil
      then show ?case using \<open>ys = []\<close> by (auto simp: nx pv q_def)
    next
      case (Cons x xs')
      have "p \<noteq> a" using Cons.prems(2,3) by (metis distinct.simps(2) last_ConsR last_in_set list.distinct(1))
      with Cons \<open>ys = []\<close> show ?case by (auto simp: nx pv q_def)
    qed
    from this [OF seg(1)] dist Nil show ?thesis by (auto simp: p_def)
  next
    case (Cons y zs)
    have q: "q = y" by (simp add: q_def Cons)
    have "dseg l' a xs' y" if "dseg l a xs' n" "p = last (a # xs')" "distinct (a # xs')"
      "n \<notin> set (a # xs')" "y \<notin> set xs'" for a xs'
      using that
    proof (induction xs' arbitrary: a)
      case Nil
      then show ?case using dist Cons by (auto simp: nx pv q)
    next
      case (Cons x xs')
      have "p \<noteq> a" using Cons.prems(2,3) by (metis distinct.simps(2) last_ConsR last_in_set list.distinct(1))
      with Cons show ?case by (auto simp: nx pv q)
    qed
    from this [OF seg(1)] dist Cons have "dseg l' h xs y" by (auto simp: p_def)
    moreover have "dseg l y zs h" using seg(2) Cons by simp
    then have "dseg l' y zs h"
      by (subst dseg_cong [where l = l]) (use dist pq Cons q in \<open>auto simp: nx pv\<close>)
    ultimately show ?thesis unfolding Cons dseg_append by simp
  qed
  with dist show "clist (list_del l n) h (xs @ ys)" by (simp add: clist_def l'_def)
qed

lemma list_for_each_clist: "clist l h xs \<Longrightarrow> list_for_each l h = Some xs"
proof -
  have "dseg l a xs h \<Longrightarrow> h \<notin> set xs \<Longrightarrow> visit_from l h (next_of l a) = Some xs" for a
    by (induction xs arbitrary: a) (auto simp: visit_from.simps)
  then show "clist l h xs \<Longrightarrow> list_for_each l h = Some xs"
    by (simp add: clist_def list_for_each_def)
qed

text \<open>Along the links \<^verbatim>\<open>prev\<close> a circular list is its own reverse.\<close>

definition reversed :: "links \<Rightarrow> links" where
  "reversed l = l\<lparr>next_of := prev_of l, prev_of := next_of l\<rparr>"

lemma dseg_reversed: "dseg (reversed l) b (rev xs) a \<longleftrightarrow> dseg l a xs b"
  by (induction xs arbitrary: a) (auto simp: reversed_def dseg_append)

lemma list_for_each_reversed: "clist l h xs \<Longrightarrow> list_for_each (reversed l) h = Some (rev xs)"
  by (rule list_for_each_clist) (simp add: clist_def dseg_reversed)

section \<open>The contract of a queue\<close>

text \<open>
  What the scheduler and the address spaces rely on: a head holds a sequence; adding at either
  end, removing any member and testing for emptiness act on the sequence, and leave every
  list that shares no node with it alone.
\<close>

locale sequence_store =
  fixes push_front :: "'s \<Rightarrow> addr \<Rightarrow> addr \<Rightarrow> 's"
    and push_back :: "'s \<Rightarrow> addr \<Rightarrow> addr \<Rightarrow> 's"
    and unlink :: "'s \<Rightarrow> addr \<Rightarrow> 's"
    and is_empty :: "'s \<Rightarrow> addr \<Rightarrow> bool"
    and first :: "'s \<Rightarrow> addr \<Rightarrow> addr"
    and holds :: "'s \<Rightarrow> addr \<Rightarrow> addr list \<Rightarrow> bool"
  assumes holds_front: "holds s h xs \<Longrightarrow> n \<notin> set (h # xs) \<Longrightarrow> holds (push_front s n h) h (n # xs)"
    and holds_back: "holds s h xs \<Longrightarrow> n \<notin> set (h # xs) \<Longrightarrow> holds (push_back s n h) h (xs @ [n])"
    and holds_unlink: "holds s h (xs @ n # ys) \<Longrightarrow> holds (unlink s n) h (xs @ ys)"
    and holds_empty: "holds s h xs \<Longrightarrow> is_empty s h \<longleftrightarrow> xs = []"
    and holds_first: "holds s h (x # xs) \<Longrightarrow> first s h = x"
    and holds_distinct: "holds s h xs \<Longrightarrow> distinct (h # xs)"
begin

text \<open>First in, first out: what is added at the back comes out after all that was there.\<close>

definition take_first :: "'s \<Rightarrow> addr \<Rightarrow> addr \<times> 's" where
  "take_first s h = (first s h, unlink s (first s h))"

lemma take_first_holds:
  "holds s h (x # xs) \<Longrightarrow> fst (take_first s h) = x \<and> holds (snd (take_first s h)) h xs"
  using holds_first [of s h x xs] holds_unlink [of s h "[]" x xs] by (simp add: take_first_def)

lemma fifo:
  assumes "holds s h xs" and "n \<notin> set (h # xs)"
  shows "holds (((\<lambda>s. snd (take_first s h)) ^^ length xs) (push_back s n h)) h [n]"
proof -
  have "holds s' h (ys @ [n]) \<Longrightarrow> holds (((\<lambda>s. snd (take_first s h)) ^^ length ys) s') h [n]" for s' ys
  proof (induction ys arbitrary: s')
    case (Cons y ys)
    then have "holds (snd (take_first s' h)) h (ys @ [n])" using take_first_holds by auto
    then show ?case using Cons.IH by (simp only: length_Cons funpow_Suc_right comp_apply)
  qed simp
  with holds_back [OF assms] show ?thesis by blast
qed

lemma rotate:
  assumes "holds s h (x # xs)"
  shows "holds (push_back (unlink s x) x h) h (xs @ [x])"
  using holds_unlink [of s h "[]" x xs] holds_distinct [OF assms] assms
  by (intro holds_back) auto

end

interpretation lists: sequence_store list_add list_add_tail list_del list_empty next_of clist
proof unfold_locales
  show "clist (list_add s n h) h (n # xs)" if "clist s h xs" "n \<notin> set (h # xs)" for s h xs n
    using clist_add(1) that .
  show "clist (list_add_tail s n h) h (xs @ [n])" if "clist s h xs" "n \<notin> set (h # xs)" for s h xs n
    using clist_add_tail(1) that .
  show "clist (list_del s n) h (xs @ ys)" if "clist s h (xs @ n # ys)" for s h xs n ys
    using clist_del(1) that .
  show "list_empty s h \<longleftrightarrow> xs = []" if "clist s h xs" for s h xs
    by (rule list_empty_iff [OF that])
  show "next_of s h = x" if "clist s h (x # xs)" for s h x xs
    by (rule clist_next [OF that])
  show "distinct (h # xs)" if "clist s h xs" for s h xs
    using that by (simp only: clist_def)
qed

end
