(* ===== verification/Address_Space.thy ===== *)
theory Address_Space
  imports Page_Free Dlist_Heap
begin

text \<open>
  Address spaces: \<^verbatim>\<open>struct MemoryMap\<close> with its list of segments, and the functions of
  \<^verbatim>\<open>kernel/mapping.c\<close> that build, copy and destroy them. Page tables and pages are bytes in
  memory; the structs are kept in stores of their own, keyed by the address \<^verbatim>\<open>alloc\<close> gave them,
  and their \<^verbatim>\<open>list_head\<close> members in the store of links. A struct that is not in its store
  (a wild or null pointer) is \<open>Undefined\<close>.
\<close>

section \<open>State\<close>

record vm =
  kheap :: bstate
  klinks :: links
  segs :: "addr \<Rightarrow> segment option"
  mms :: "addr \<Rightarrow> usize option"
  satp :: u64

text \<open>Sizes of the structs and offsets of their \<^verbatim>\<open>list_head\<close> members on RV64.\<close>

definition sizeof_segment :: usize where
  "sizeof_segment = 48"

definition sizeof_memory_map :: usize where
  "sizeof_memory_map = 24"

definition seg_list :: "addr \<Rightarrow> addr" where
  "seg_list seg = seg + 32"

definition seg_entry :: "addr \<Rightarrow> addr" where
  "seg_entry ptr = ptr - 32"

definition mm_segments :: "addr \<Rightarrow> addr" where
  "mm_segments mm = mm + 8"

text \<open>Following a pointer into a store.\<close>

definition deref :: "(addr \<Rightarrow> 'a option) \<Rightarrow> addr \<Rightarrow> 'a outcome" where
  "deref store p = (case store p of None \<Rightarrow> Inl Undefined | Some x \<Rightarrow> Inr x)"

lemma deref_Inr_iff [simp]: "deref st p = Inr x \<longleftrightarrow> st p = Some x"
  by (auto simp: deref_def split: option.splits)

section \<open>Operations\<close>

definition new_memory_map :: "'a vm_scheme \<Rightarrow> (addr \<times> 'a vm_scheme) outcome" where
  "new_memory_map s =
     bindE (alloc (kheap s) sizeof_memory_map) (\<lambda>(res, h).
     bindE (alloc_frame h) (\<lambda>(root, h).
     Inr (res, s\<lparr>kheap := h, mms := (mms s)(res \<mapsto> root),
                 klinks := INIT_LIST_HEAD (klinks s) (mm_segments res)\<rparr>)))"

definition new_segment ::
  "'a vm_scheme \<Rightarrow> usize \<Rightarrow> usize \<Rightarrow> usize \<Rightarrow> segment_type \<Rightarrow> (addr \<times> 'a vm_scheme) outcome" where
  "new_segment s start end flags type =
     bindE (alloc (kheap s) sizeof_segment) (\<lambda>(res, h).
     Inr (res, s\<lparr>kheap := h,
                 segs := (segs s)(res \<mapsto> \<lparr>start_va = start, end_va = end,
                                          seg_flags = flags, seg_type = type\<rparr>),
                 klinks := INIT_LIST_HEAD (klinks s) (seg_list res)\<rparr>))"

text \<open>\<^verbatim>\<open>map_segment\<close> and \<^verbatim>\<open>unmap_segment\<close> of a segment in the store.\<close>

definition map_segment_at ::
  "'a vm_scheme \<Rightarrow> usize \<Rightarrow> addr \<Rightarrow> addr \<Rightarrow> usize \<Rightarrow> 'a vm_scheme outcome" where
  "map_segment_at s root_ppn seg data len =
     bindE (deref (segs s) seg) (\<lambda>sg.
     bindE (map_segment (kheap s) root_ppn sg data len) (\<lambda>h. Inr (s\<lparr>kheap := h\<rparr>)))"

definition unmap_segment_at :: "'a vm_scheme \<Rightarrow> usize \<Rightarrow> addr \<Rightarrow> 'a vm_scheme outcome" where
  "unmap_segment_at s root_ppn seg =
     bindE (deref (segs s) seg) (\<lambda>sg.
     bindE (unmap_segment (kheap s) root_ppn sg) (\<lambda>h. Inr (s\<lparr>kheap := h\<rparr>)))"

definition activate_pagetable :: "'a vm_scheme \<Rightarrow> usize \<Rightarrow> 'a vm_scheme" where
  "activate_pagetable s root_ppn = s\<lparr>satp := satp_of root_ppn\<rparr>"

subsection \<open>Destroying an address space\<close>

text \<open>The outer loop; the inner one always breaks after its first segment.\<close>

partial_function (option) dealloc_segments ::
  "'a vm_scheme \<Rightarrow> addr \<Rightarrow> 'a vm_scheme outcome option" where
  "dealloc_segments s mm =
     (if list_empty (klinks s) (mm_segments mm) then Some (Inr s)
      else
        (let seg = seg_entry (next_of (klinks s) (mm_segments mm));
             s1 = s\<lparr>klinks := list_del (klinks s) (seg_list seg)\<rparr>
         in case bindE (deref (mms s1) mm) (\<lambda>root. unmap_segment_at s1 root seg) of
              Inl e \<Rightarrow> Some (Inl e)
            | Inr s2 \<Rightarrow> dealloc_segments s2 mm))"

declare dealloc_segments.simps [code]

definition dealloc_memory_map :: "'a vm_scheme \<Rightarrow> addr \<Rightarrow> 'a vm_scheme outcome" where
  "dealloc_memory_map s mm =
     bindE (bindE (returns (dealloc_segments s mm)) id) (\<lambda>s.
     bindE (deref (mms s) mm) (\<lambda>root.
     bindE (dealloc_pagetable (kheap s) root) (\<lambda>h. Inr (s\<lparr>kheap := h\<rparr>))))"

subsection \<open>Copying an address space\<close>

fun copy_pages :: "bstate \<Rightarrow> usize \<Rightarrow> usize \<Rightarrow> u64 list \<Rightarrow> bstate outcome" where
  "copy_pages h src_root dst_root [] = Inr h"
| "copy_pages h src_root dst_root (vpn # vpns) =
     bindE (find_entry h src_root vpn False) (\<lambda>(src_pte, h).
     if src_pte = 0 then Inl Undefined else
     let src_page = va_of (PTE2PA (load64 (fst h) src_pte)) in
     bindE (find_entry h dst_root vpn False) (\<lambda>(dst_pte, m, b).
     if dst_pte = 0 then Inl Undefined else
     let dst_page = va_of (PTE2PA (load64 m dst_pte)) in
     copy_pages (copy_bytes 4096 m dst_page src_page, b) src_root dst_root vpns))"

text \<open>One round of the loop over the source's segments.\<close>

definition copy_segment :: "'a vm_scheme \<Rightarrow> addr \<Rightarrow> addr \<Rightarrow> addr \<Rightarrow> 'a vm_scheme outcome" where
  "copy_segment s src dst src_seg =
     bindE (deref (segs s) src_seg) (\<lambda>sg.
     bindE (new_segment s (start_va sg) (end_va sg) (seg_flags sg) (seg_type sg)) (\<lambda>(dst_seg, s).
     bindE (deref (mms s) dst) (\<lambda>dst_root.
     bindE (map_segment_at s dst_root dst_seg 0 0) (\<lambda>s.
     if seg_type sg = Linear then Inr s else
     bindE (deref (mms s) src) (\<lambda>src_root.
     bindE (copy_pages (kheap s) src_root dst_root (va_range (start_va sg) (end_va sg))) (\<lambda>h.
     Inr (s\<lparr>kheap := h, klinks := list_add_tail (klinks s) (seg_list dst_seg) (mm_segments dst)\<rparr>)))))))"

partial_function (option) copy_segments ::
  "'a vm_scheme \<Rightarrow> addr \<Rightarrow> addr \<Rightarrow> addr \<Rightarrow> 'a vm_scheme outcome option" where
  "copy_segments s src dst pos =
     (if pos = mm_segments src then Some (Inr s)
      else case copy_segment s src dst (seg_entry pos) of
             Inl e \<Rightarrow> Some (Inl e)
           | Inr s \<Rightarrow> copy_segments s src dst (next_of (klinks s) pos))"

declare copy_segments.simps [code]

definition copy_mm :: "'a vm_scheme \<Rightarrow> addr \<Rightarrow> (addr \<times> 'a vm_scheme) outcome" where
  "copy_mm s src =
     bindE (new_memory_map s) (\<lambda>(dst, s).
     bindE (returns (copy_segments s src dst (next_of (klinks s) (mm_segments src)))) (\<lambda>r.
     bindE r (\<lambda>s. Inr (dst, s))))"

subsection \<open>The kernel's address space\<close>

text \<open>
  The linker script's symbols and the addresses of the file system image, of the static
  \<^verbatim>\<open>ROOT_INODE\<close> and of the assembly routine \<^verbatim>\<open>__restore\<close>: a parameter of the model.
\<close>

record image =
  stext :: addr
  etext :: addr
  srodata :: addr
  erodata :: addr
  sdata :: addr
  edata :: addr
  sbss_with_stack :: addr
  ebss :: addr
  ekernel :: addr
  fs_img_start :: addr
  ROOT_INODE :: addr
  restore_entry :: addr

text \<open>A new linear segment, mapped without data.\<close>

definition linear_segment ::
  "'a vm_scheme \<Rightarrow> addr \<Rightarrow> usize \<Rightarrow> usize \<Rightarrow> usize \<Rightarrow> (addr \<times> 'a vm_scheme) outcome" where
  "linear_segment s mm start end flags =
     bindE (new_segment s start end flags Linear) (\<lambda>(seg, s).
     bindE (deref (mms s) mm) (\<lambda>root.
     bindE (map_segment_at s root seg 0 0) (\<lambda>s. Inr (seg, s))))"

definition new_kernel_memory_map :: "image \<Rightarrow> 'a vm_scheme \<Rightarrow> (addr \<times> 'a vm_scheme) outcome" where
  "new_kernel_memory_map img s =
     bindE (new_memory_map s) (\<lambda>(mm, s).
     bindE (linear_segment s mm (stext img) (etext img)
              (PAGE_VALID OR PAGE_READ OR PAGE_EXEC)) (\<lambda>(text, s).
     bindE (linear_segment s mm (srodata img) (erodata img)
              (PAGE_VALID OR PAGE_READ)) (\<lambda>(rodata, s).
     bindE (linear_segment s mm (sdata img) (edata img)
              (PAGE_VALID OR PAGE_READ OR PAGE_WRITE)) (\<lambda>(data, s).
     bindE (linear_segment s mm (sbss_with_stack img) (ebss img)
              (PAGE_VALID OR PAGE_READ OR PAGE_WRITE)) (\<lambda>(bss, s).
     bindE (linear_segment s mm (ekernel img) (va_of MEMORY_END)
              (PAGE_VALID OR PAGE_READ OR PAGE_WRITE)) (\<lambda>(other, s).
     let l = klinks s;
         l = list_add l (seg_list other) (mm_segments mm);
         l = list_add l (seg_list bss) (mm_segments mm);
         l = list_add l (seg_list data) (mm_segments mm);
         l = list_add l (seg_list rodata) (mm_segments mm);
         l = list_add l (seg_list text) (mm_segments mm)
     in Inr (mm, s\<lparr>klinks := l\<rparr>)))))))"

text \<open>The line it prints is put out by its caller.\<close>

definition remap_kernel :: "image \<Rightarrow> 'a vm_scheme \<Rightarrow> (addr \<times> 'a vm_scheme) outcome" where
  "remap_kernel img s =
     bindE (new_kernel_memory_map img s) (\<lambda>(mm, s).
     bindE (deref (mms s) mm) (\<lambda>root. Inr (mm, activate_pagetable s root)))"

section \<open>Programs in the ELF format\<close>

text \<open>
  \<^verbatim>\<open>kernel/elf.c\<close>: the fields of the headers of \<^verbatim>\<open>kernel/elf.h\<close> at their offsets in the file,
  read from the buffer that holds it.
\<close>

definition e_entry :: "mem \<Rightarrow> addr \<Rightarrow> u64" where "e_entry m elf = load64 m (elf + 24)"
definition e_phoff :: "mem \<Rightarrow> addr \<Rightarrow> u64" where "e_phoff m elf = load64 m (elf + 32)"
definition e_phnum :: "mem \<Rightarrow> addr \<Rightarrow> u16" where "e_phnum m elf = load16 m (elf + 56)"

record prog_header =
  p_type :: u32
  p_flags :: u32
  p_offset :: u64
  p_vaddr :: u64
  p_paddr :: u64
  p_filesz :: u64
  p_memsz :: u64
  p_align :: u64

definition sizeof_prog_header :: u64 where
  "sizeof_prog_header = 56"

definition prog_header_at :: "mem \<Rightarrow> addr \<Rightarrow> prog_header" where
  "prog_header_at m p =
     \<lparr>p_type = load32 m p, p_flags = load32 m (p + 4), p_offset = load64 m (p + 8),
      p_vaddr = load64 m (p + 16), p_paddr = load64 m (p + 24), p_filesz = load64 m (p + 32),
      p_memsz = load64 m (p + 40), p_align = load64 m (p + 48)\<rparr>"

definition ELF_PROG_LOAD :: u32 where "ELF_PROG_LOAD = 1"
definition ELF_PROG_FLAG_EXEC :: u32 where "ELF_PROG_FLAG_EXEC = 1"
definition ELF_PROG_FLAG_WRITE :: u32 where "ELF_PROG_FLAG_WRITE = 2"
definition ELF_PROG_FLAG_READ :: u32 where "ELF_PROG_FLAG_READ = 4"

definition convert_flags :: "u32 \<Rightarrow> usize" where
  "convert_flags flags =
     (let res = PAGE_VALID OR PAGE_USER;
          res = (if flags AND ELF_PROG_FLAG_EXEC \<noteq> 0 then res OR PAGE_EXEC else res);
          res = (if flags AND ELF_PROG_FLAG_WRITE \<noteq> 0 then res OR PAGE_WRITE else res);
          res = (if flags AND ELF_PROG_FLAG_READ \<noteq> 0 then res OR PAGE_READ else res)
      in res)"

definition elf_magic :: "mem \<Rightarrow> addr \<Rightarrow> bool" where
  "elf_magic m elf \<longleftrightarrow> m elf = 0x7f \<and> m (elf + 1) = 0x45 \<and> m (elf + 2) = 0x4c \<and> m (elf + 3) = 0x46"

text \<open>
  The loop over the program headers; their number, the headers and the data are read from the
  memory as it is when the loop comes to them.
\<close>

function load_segments :: "'a vm_scheme \<Rightarrow> addr \<Rightarrow> addr \<Rightarrow> addr \<Rightarrow> nat \<Rightarrow> 'a vm_scheme outcome" where
  "load_segments s res elf p i =
     (if i < unat (e_phnum (fst (kheap s)) elf) then
        (let ph = prog_header_at (fst (kheap s)) p;
             flags = convert_flags (p_flags ph);
             start = p_vaddr ph;
             end = start + p_memsz ph in
         if p_type ph \<noteq> ELF_PROG_LOAD \<or> start = end
         then load_segments s res elf (p + sizeof_prog_header) (i + 1)
         else
           bindE (new_segment s start end flags Framed) (\<lambda>(segment, s).
           let data = elf + p_offset ph in
           bindE (deref (mms s) res) (\<lambda>root.
           bindE (map_segment_at s root segment data (p_memsz ph)) (\<lambda>s.
           load_segments (s\<lparr>klinks := list_add (klinks s) (seg_list segment) (mm_segments res)\<rparr>)
             res elf (p + sizeof_prog_header) (i + 1)))))
      else Inr s)"
  by pat_completeness auto
termination
proof (relation "measure (\<lambda>(s, res, elf, p, i). 65536 - i)", goal_cases)
  case 1
  then show ?case by simp
next
  case (2 s res elf p i)
  then show ?case using unsigned_less [of "e_phnum (fst (kheap s)) elf", where ?'a = nat] by simp
next
  case (3 s res elf p i)
  then show ?case using unsigned_less [of "e_phnum (fst (kheap s)) elf", where ?'a = nat] by simp
qed

declare load_segments.simps [simp del]

definition from_elf :: "image \<Rightarrow> 'a vm_scheme \<Rightarrow> addr \<Rightarrow> (addr \<times> 'a vm_scheme) outcome" where
  "from_elf img s elf =
     bindE (new_kernel_memory_map img s) (\<lambda>(res, s).
     let m = fst (kheap s) in
     if \<not> elf_magic m elf then Inl (Panic ''Unknown file type!'')
     else bindE (load_segments s res elf (elf + e_phoff m elf) 0) (\<lambda>s.
          Inr (res, s)))"

end
