(* ===== verification/Space_Life.thy ===== *)
theory Space_Life
  imports Address_Space
begin

text \<open>
  The life of an address space: what \<^verbatim>\<open>dealloc_memory_map\<close> and \<^verbatim>\<open>copy_mm\<close> of \<^verbatim>\<open>kernel/mapping.c\<close> do
  to an address space whose list of segments, page tables and frames belong together.
\<close>

section \<open>A whole address space\<close>

text \<open>A segment at its address, with the frames that back it when it is framed.\<close>

type_synonym piece = "addr \<times> segment \<times> u64 list"

abbreviation seg_vpns :: "segment \<Rightarrow> u64 list" where
  "seg_vpns sg \<equiv> va_range (start_va sg) (end_va sg)"

definition maps_segment :: "mem \<Rightarrow> tree \<Rightarrow> segment \<Rightarrow> u64 list \<Rightarrow> bool" where
  "maps_segment m tab sg ps \<longleftrightarrow>
     seg_flags sg < 2 ^ 10 \<and> seg_flags sg AND (PAGE_READ OR PAGE_WRITE OR PAGE_EXEC) \<noteq> 0 \<and>
     (case seg_type sg of
        Framed \<Rightarrow> list_all2 (\<lambda>v p. leaf m tab v = PPN2PTE p (seg_flags sg)) (seg_vpns sg) ps
      | Linear \<Rightarrow> ps = [] \<and> (\<forall>v \<in> set (seg_vpns sg). leaf m tab v = PPN2PTE (ppn_of v) (seg_flags sg)))"

lemma maps_segment_cong:
  "(\<And>v. leaf m' tab' v = leaf m tab v) \<Longrightarrow> maps_segment m' tab' sg ps = maps_segment m tab sg ps"
  by (cases "seg_type sg") (simp_all add: maps_segment_def)

definition seg_nodes :: "piece list \<Rightarrow> addr list" where
  "seg_nodes sl = map (\<lambda>(a, _). seg_list a) sl"

definition frames_of :: "piece list \<Rightarrow> u64 list" where
  "frames_of sl = concat (map (\<lambda>(_, _, ps). ps) sl)"

definition vpns_of :: "piece list \<Rightarrow> u64 list" where
  "vpns_of sl = concat (map (\<lambda>(_, sg, _). seg_vpns sg) sl)"

lemma piece_simps [simp]:
  "seg_nodes [] = []" "seg_nodes ((a, sg, ps) # sl) = seg_list a # seg_nodes sl"
  "frames_of [] = []" "frames_of ((a, sg, ps) # sl) = ps @ frames_of sl"
  "vpns_of [] = []" "vpns_of ((a, sg, ps) # sl) = seg_vpns sg @ vpns_of sl"
  "seg_nodes (sl @ sl') = seg_nodes sl @ seg_nodes sl'" "frames_of (sl @ sl') = frames_of sl @ frames_of sl'"
  "vpns_of (sl @ sl') = vpns_of sl @ vpns_of sl'"
  by (simp_all add: seg_nodes_def frames_of_def vpns_of_def)

text \<open>
  The segments of the list are mapped by the tables, no two of them overlap, and every frame has one
  owner. The structs are in blocks that are not free.
\<close>

definition space ::
  "addr set \<Rightarrow> addr set \<Rightarrow> 'a vm_scheme \<Rightarrow> addr \<Rightarrow> usize \<Rightarrow> tree \<Rightarrow> piece list \<Rightarrow> bool" where
  "space R F s mm root tab sl \<longleftrightarrow>
     pt_inv R (kheap s) F tab \<and> mms s mm = Some root \<and> tab [] = Some root \<and>
     clist (klinks s) (mm_segments mm) (seg_nodes sl) \<and>
     (\<forall>(a, sg, ps) \<in> set sl. segs s a = Some sg \<and> maps_segment (fst (kheap s)) tab sg ps \<and>
        aligned 6 a \<and> blk 6 a \<subseteq> R - F) \<and>
     aligned 5 mm \<and> blk 5 mm \<subseteq> R - F \<and>
     distinct (map (take_bit 27) (vpns_of sl)) \<and>
     distinct (frames_of sl) \<and> (\<forall>p \<in> set (frames_of sl). p < 2 ^ 44) \<and>
     page_set (set (frames_of sl)) \<subseteq> R - F - page_set (ran tab) \<and>
     (\<forall>v. \<not> is_table (leaf (fst (kheap s)) tab v))"

lemma spaceD:
  assumes "space R F s mm root tab sl"
  shows "pt_inv R (kheap s) F tab" and "mms s mm = Some root" and "tab [] = Some root"
    and "clist (klinks s) (mm_segments mm) (seg_nodes sl)"
    and "(a, sg, ps) \<in> set sl \<Longrightarrow> segs s a = Some sg \<and> maps_segment (fst (kheap s)) tab sg ps \<and>
      aligned 6 a \<and> blk 6 a \<subseteq> R - F"
    and "aligned 5 mm" and "blk 5 mm \<subseteq> R - F" and "distinct (map (take_bit 27) (vpns_of sl))"
    and "distinct (frames_of sl)" and "\<forall>p \<in> set (frames_of sl). p < 2 ^ 44"
    and "page_set (set (frames_of sl)) \<subseteq> R - F - page_set (ran tab)"
    and "\<not> is_table (leaf (fst (kheap s)) tab v)"
  using assms unfolding space_def by blast+

section \<open>Destroying\<close>

lemma flags_nonzero:
  assumes "flags AND (PAGE_READ OR PAGE_WRITE OR PAGE_EXEC) \<noteq> 0"
  shows "PPN2PTE p flags \<noteq> 0"
proof
  assume "PPN2PTE p flags = 0"
  then have "\<not> bit (PPN2PTE p flags) n" for n by simp
  then have "flags = 0" by (auto simp: bit_PPN2PTE intro: bit_word_eqI)
  with assms show False by simp
qed

text \<open>Unmapping one segment gives back its frames.\<close>

lemma unmap_segment_spec:
  assumes inv: "pt_inv R h F tab" and root: "tab [] = Some root" and seg: "maps_segment (fst h) tab sg ps"
    and ps: "distinct ps" "\<forall>p \<in> set ps. p < 2 ^ 44" "page_set (set ps) \<subseteq> R - F - page_set (ran tab)"
  obtains h' where "unmap_segment h root sg = Inr h'" and "pt_inv R h' (F \<union> page_set (set ps)) tab"
    and "same_outside (F \<union> page_set (set ps)) (fst h) (fst h')"
    and "\<forall>v. leaf (fst h') tab v = leaf (fst h) tab v"
proof (cases "seg_type sg")
  case Linear
  with seg have "ps = []" by (simp add: maps_segment_def)
  with Linear inv that [of h] show thesis by (simp add: unmap_segment_def)
next
  case Framed
  with seg have fl: "seg_flags sg < 2 ^ 10" "seg_flags sg AND (PAGE_READ OR PAGE_WRITE OR PAGE_EXEC) \<noteq> 0"
    and la: "list_all2 (\<lambda>v p. leaf (fst h) tab v = PPN2PTE p (seg_flags sg)) (seg_vpns sg) ps"
    by (simp_all add: maps_segment_def)
  have "list_all2 (\<lambda>v p. PTE2PPN (leaf (fst h) tab v) = p \<and> leaf (fst h) tab v \<noteq> 0) (seg_vpns sg) ps"
    using la ps(2) fl(1) flags_nonzero [OF fl(2)]
    by (auto simp: list_all2_conv_all_nth PTE2PPN_PPN2PTE)
  from unmap_segment_loop_spec [OF inv root this ps] Framed that show thesis
    by (auto simp: unmap_segment_def)
qed

lemma dealloc_segments_spec:
  assumes "pt_inv R (kheap s) F tab" and "mms s mm = Some root" and "tab [] = Some root"
    and "clist (klinks s) (mm_segments mm) (seg_nodes sl)"
    and "\<forall>(a, sg, ps) \<in> set sl. segs s a = Some sg \<and> maps_segment (fst (kheap s)) tab sg ps"
    and "distinct (frames_of sl)" and "\<forall>p \<in> set (frames_of sl). p < 2 ^ 44"
    and "page_set (set (frames_of sl)) \<subseteq> R - F - page_set (ran tab)"
  shows "\<exists>h l. dealloc_segments s mm = Some (Inr (s\<lparr>kheap := h, klinks := l\<rparr>)) \<and>
    pt_inv R h (F \<union> page_set (set (frames_of sl))) tab \<and>
    same_outside (F \<union> page_set (set (frames_of sl))) (fst (kheap s)) (fst h) \<and>
    (\<forall>v. leaf (fst h) tab v = leaf (fst (kheap s)) tab v) \<and> clist l (mm_segments mm) [] \<and>
    links_same_outside (set (mm_segments mm # seg_nodes sl)) (klinks s) l"
  using assms
proof (induction sl arbitrary: s F)
  case Nil
  then have "dealloc_segments s mm = Some (Inr s)"
    by (subst dealloc_segments.simps) (simp add: list_empty_iff)
  with Nil show ?case by (intro exI [of _ "kheap s"] exI [of _ "klinks s"]) simp
next
  case (Cons x sl)
  obtain a sg ps where x: "x = (a, sg, ps)" by (cases x)
  note c = Cons.prems(4) [unfolded x piece_simps]
  let ?l1 = "list_del (klinks s) (seg_list a)"
  have del: "clist ?l1 (mm_segments mm) (seg_nodes sl)"
    "links_same_outside (set (mm_segments mm # seg_list a # seg_nodes sl)) (klinks s) ?l1"
    using clist_del(1,3) [of "klinks s" "mm_segments mm" "[]" "seg_list a" "seg_nodes sl"] c by simp_all
  have seg: "segs s a = Some sg" "maps_segment (fst (kheap s)) tab sg ps" using Cons.prems(5) by (simp_all add: x)
  have ps: "distinct ps" "\<forall>p \<in> set ps. p < 2 ^ 44" "page_set (set ps) \<subseteq> R - F - page_set (ran tab)"
    using Cons.prems(6-8) by (auto simp: x page_set_Un)
  obtain h1 where h1: "unmap_segment (kheap s) root sg = Inr h1" "pt_inv R h1 (F \<union> page_set (set ps)) tab"
    "same_outside (F \<union> page_set (set ps)) (fst (kheap s)) (fst h1)"
    "\<forall>v. leaf (fst h1) tab v = leaf (fst (kheap s)) tab v"
    by (rule unmap_segment_spec [OF Cons.prems(1,3) seg(2) ps])
  let ?s1 = "s\<lparr>klinks := ?l1, kheap := h1\<rparr>"
  have eq: "dealloc_segments s mm = dealloc_segments ?s1 mm"
    using c seg(1) h1(1) Cons.prems(2) clist_next [OF c]
    by (subst dealloc_segments.simps)
      (simp add: list_empty_iff [OF c] seg_entry_def seg_list_def unmap_segment_at_def deref_def Let_def)
  have "maps_segment (fst h1) tab sg' ps'" if "maps_segment (fst (kheap s)) tab sg' ps'" for sg' ps'
    using that maps_segment_cong [of "fst h1" tab "fst (kheap s)" tab] h1(4) by blast
  then have segs1: "\<forall>(a, sg, ps) \<in> set sl. segs ?s1 a = Some sg \<and> maps_segment (fst (kheap ?s1)) tab sg ps"
    using Cons.prems(5) by (auto simp: x)
  have dis: "page_set (set ps) \<inter> page_set (set (frames_of sl)) = {}"
  proof -
    have "blk 12 (page_va p) \<inter> blk 12 (page_va q) = {}" if "p \<in> set ps" "q \<in> set (frames_of sl)" for p q
      by (rule pages_disjoint) (use that Cons.prems(6,7) in \<open>auto simp: x\<close>)
    then show ?thesis by (fastforce simp: page_set_def)
  qed
  have fr1: "distinct (frames_of sl)" "\<forall>p \<in> set (frames_of sl). p < 2 ^ 44"
    "page_set (set (frames_of sl)) \<subseteq> R - (F \<union> page_set (set ps)) - page_set (ran tab)"
    using Cons.prems(6-8) dis by (auto simp: x page_set_Un)
  have p1: "pt_inv R (kheap ?s1) (F \<union> page_set (set ps)) tab" "mms ?s1 mm = Some root"
    "clist (klinks ?s1) (mm_segments mm) (seg_nodes sl)" using h1(2) Cons.prems(2) del(1) by simp_all
  from Cons.IH [OF p1(1,2) Cons.prems(3) p1(3) segs1 fr1] obtain h l where
    2: "dealloc_segments ?s1 mm = Some (Inr (?s1\<lparr>kheap := h, klinks := l\<rparr>))"
    "pt_inv R h (F \<union> page_set (set ps) \<union> page_set (set (frames_of sl))) tab"
    "same_outside (F \<union> page_set (set ps) \<union> page_set (set (frames_of sl))) (fst h1) (fst h)"
    "\<forall>v. leaf (fst h) tab v = leaf (fst h1) tab v" "clist l (mm_segments mm) []"
    "links_same_outside (set (mm_segments mm # seg_nodes sl)) ?l1 l" by auto
  have U: "F \<union> page_set (set ps) \<union> page_set (set (frames_of sl)) = F \<union> page_set (set (frames_of (x # sl)))"
    by (simp add: x page_set_Un Un_assoc)
  have "same_outside (F \<union> page_set (set (frames_of (x # sl)))) (fst (kheap s)) (fst h)"
    by (rule same_outside_trans [OF same_outside_mono [OF h1(3)] 2(3) [unfolded U]]) (use U in blast)
  moreover have "links_same_outside (set (mm_segments mm # seg_nodes (x # sl))) (klinks s) l"
    by (rule links_same_trans [OF links_same_mono [OF del(2)] links_same_mono [OF 2(6)]]) (auto simp: x)
  ultimately show ?case
    using 2(1,2,4,5) h1(4) unfolding eq U by (intro exI [of _ h] exI [of _ l]) simp
qed

lemma dealloc_memory_map_spec:
  assumes sp: "space R F s mm root tab sl"
  obtains h l where "dealloc_memory_map s mm = Inr (s\<lparr>kheap := h, klinks := l\<rparr>)"
    and "buddy_inv R h (F \<union> page_set (set (frames_of sl)) \<union> page_set (ran tab))"
    and "same_outside (F \<union> page_set (set (frames_of sl)) \<union> page_set (ran tab)) (fst (kheap s)) (fst h)"
    and "clist l (mm_segments mm) []" and "links_same_outside (set (mm_segments mm # seg_nodes sl)) (klinks s) l"
proof -
  note d = spaceD [OF sp]
  have seg: "\<forall>(a, sg, ps) \<in> set sl. segs s a = Some sg \<and> maps_segment (fst (kheap s)) tab sg ps"
    using d(5) by blast
  let ?F = "F \<union> page_set (set (frames_of sl))"
  obtain h1 l where 1: "dealloc_segments s mm = Some (Inr (s\<lparr>kheap := h1, klinks := l\<rparr>))" "pt_inv R h1 ?F tab"
    "same_outside ?F (fst (kheap s)) (fst h1)" "\<forall>v. leaf (fst h1) tab v = leaf (fst (kheap s)) tab v"
    "clist l (mm_segments mm) []" "links_same_outside (set (mm_segments mm # seg_nodes sl)) (klinks s) l"
    using dealloc_segments_spec [OF d(1-4) seg d(9-11)] by blast
  have "\<not> is_table (leaf (fst h1) tab v)" for v using 1(4) d(12) by simp
  with dealloc_pagetable_spec [OF 1(2) d(3)] obtain h where 2: "dealloc_pagetable h1 root = Inr h"
    "buddy_inv R h (?F \<union> page_set (ran tab))" "same_outside (?F \<union> page_set (ran tab)) (fst h1) (fst h)" by blast
  have "dealloc_memory_map s mm = Inr (s\<lparr>kheap := h, klinks := l\<rparr>)"
    using 1(1) 2(1) d(2) by (simp add: dealloc_memory_map_def returns_def deref_def)
  moreover have "same_outside (?F \<union> page_set (ran tab)) (fst (kheap s)) (fst h)"
    by (rule same_outside_trans [OF same_outside_mono [OF 1(3)] 2(3)]) blast
  ultimately show thesis using that 2(2) 1(5,6) by blast
qed

end
