(* ===== verification/Kstring.thy ===== *)
theory Kstring
  imports Lilac_Prelude "HOL-Library.Char_ord"
begin

text \<open>
  \<^verbatim>\<open>kernel/string.h\<close>: the string functions on bytes in memory. \<^verbatim>\<open>char\<close> is unsigned on RISC-V.
  A walk over a string without a terminator never ends in the model, whose memory is the whole
  address space, so each loop may diverge. A string is read through a function from offsets to
  bytes, so that a literal can stand beside a string in memory.
\<close>

type_synonym cstring = "nat \<Rightarrow> u8"

definition string_at :: "mem \<Rightarrow> addr \<Rightarrow> cstring" where
  "string_at m p = (\<lambda>i. m (p + of_nat i))"

definition literal :: "string \<Rightarrow> cstring" where
  "literal s = (\<lambda>i. if i < length s then of_char (s ! i) else 0)"

partial_function (option) strlen_loop :: "cstring \<Rightarrow> nat \<Rightarrow> nat option" where
  "strlen_loop str len = (if str len \<noteq> 0 then strlen_loop str (len + 1) else Some len)"

declare strlen_loop.simps [code]

definition strlen :: "cstring \<Rightarrow> nat outcome" where
  "strlen str = returns (strlen_loop str 0)"

partial_function (option) strcmp_loop :: "cstring \<Rightarrow> cstring \<Rightarrow> nat \<Rightarrow> int option" where
  "strcmp_loop str1 str2 i =
     (if str1 i \<noteq> 0 \<and> str2 i \<noteq> 0 then
        (if str1 i < str2 i then Some (-1)
         else if str1 i > str2 i then Some 1
         else strcmp_loop str1 str2 (i + 1))
      else if str1 i = 0 \<and> str2 i = 0 then Some 0
      else if str1 i = 0 then Some (-1)
      else Some 1)"

declare strcmp_loop.simps [code]

definition strcmp :: "cstring \<Rightarrow> cstring \<Rightarrow> int outcome" where
  "strcmp str1 str2 = returns (strcmp_loop str1 str2 0)"

partial_function (option) strcpy_loop :: "mem \<Rightarrow> addr \<Rightarrow> addr \<Rightarrow> mem option" where
  "strcpy_loop m dest src =
     (if m src \<noteq> 0 then strcpy_loop (m(dest := m src)) (dest + 1) (src + 1)
      else Some (m(dest := 0)))"

declare strcpy_loop.simps [code]

definition strcpy :: "mem \<Rightarrow> addr \<Rightarrow> addr \<Rightarrow> mem outcome" where
  "strcpy m dest src = returns (strcpy_loop m dest src)"

section \<open>Strings\<close>

text \<open>A byte sequence without a zero, and what follows its terminator left open.\<close>

definition is_cstring :: "cstring \<Rightarrow> u8 list \<Rightarrow> bool" where
  "is_cstring f bs \<longleftrightarrow> (\<forall>i < length bs. f i = bs ! i \<and> bs ! i \<noteq> 0) \<and> f (length bs) = 0"

lemma is_cstring_Nil: "is_cstring f [] \<longleftrightarrow> f 0 = 0"
  by (simp add: is_cstring_def)

lemma is_cstring_Cons: "is_cstring f (b # bs) \<longleftrightarrow> f 0 = b \<and> b \<noteq> 0 \<and> is_cstring (\<lambda>i. f (i + 1)) bs"
  by (auto simp: is_cstring_def All_less_Suc2 less_Suc_eq_0_disj)

lemma strlen_loop_spec: "is_cstring (\<lambda>i. f (i + k)) bs \<Longrightarrow> strlen_loop f k = Some (k + length bs)"
proof (induction bs arbitrary: k)
  case Nil
  then show ?case by (subst strlen_loop.simps) (simp add: is_cstring_Nil)
next
  case (Cons b bs)
  have "is_cstring (\<lambda>i. f (i + Suc k)) bs" "f k \<noteq> 0"
    using Cons.prems by (simp_all add: is_cstring_Cons)
  with Cons.IH [of "Suc k"] show ?case by (subst strlen_loop.simps) simp
qed

text \<open>Bytes compare as in a dictionary.\<close>

fun dictionary :: "u8 list \<Rightarrow> u8 list \<Rightarrow> int" where
  "dictionary [] [] = 0"
| "dictionary [] (b # bs) = -1"
| "dictionary (a # as) [] = 1"
| "dictionary (a # as) (b # bs) = (if a < b then -1 else if b < a then 1 else dictionary as bs)"

lemma dictionary_0_iff: "dictionary as bs = 0 \<longleftrightarrow> as = bs"
  by (induction as bs rule: dictionary.induct) auto

lemma dictionary_less_iff: "dictionary as bs = -1 \<longleftrightarrow> (as, bs) \<in> lexord {(a, b). a < b}"
  by (induction as bs rule: dictionary.induct) (auto simp: lexord_Nil_left)

lemma dictionary_swap: "dictionary bs as = - dictionary as bs"
  by (induction as bs rule: dictionary.induct) auto

lemma strcmp_loop_spec:
  "is_cstring (\<lambda>i. f (i + k)) as \<Longrightarrow> is_cstring (\<lambda>i. g (i + k)) bs \<Longrightarrow>
     strcmp_loop f g k = Some (dictionary as bs)"
proof (induction as bs arbitrary: k rule: dictionary.induct)
  case (4 a as b bs)
  have "is_cstring (\<lambda>i. f (i + Suc k)) as" "is_cstring (\<lambda>i. g (i + Suc k)) bs"
    "f k = a" "a \<noteq> 0" "g k = b" "b \<noteq> 0"
    using "4.prems" by (simp_all add: is_cstring_Cons)
  with "4.IH" [of "Suc k"] show ?case by (subst strcmp_loop.simps) auto
qed (subst strcmp_loop.simps; simp add: is_cstring_Nil is_cstring_Cons)+

lemma strcmp_spec: "is_cstring f as \<Longrightarrow> is_cstring g bs \<Longrightarrow> strcmp f g = Inr (dictionary as bs)"
  using strcmp_loop_spec [of f 0 as g bs] by (simp add: strcmp_def)

text \<open>The copy: the bytes of the source and a terminator, nothing else.\<close>

lemma strcpy_loop_spec:
  assumes "is_cstring (string_at m src) bs" and "length bs < 2 ^ 64"
    and "bytes_at src (length bs + 1) \<inter> bytes_at dest (length bs + 1) = {}"
  shows "\<exists>m'. strcpy_loop m dest src = Some m' \<and> is_cstring (string_at m' dest) bs \<and>
    same_outside (bytes_at dest (length bs + 1)) m m'"
  using assms
proof (induction bs arbitrary: m src dest)
  case Nil
  then show ?case
    by (subst strcpy_loop.simps)
      (auto simp: is_cstring_Nil string_at_def same_outside_def bytes_at_def unat_eq_0)
next
  case (Cons b bs)
  let ?n = "length bs + 1"
  have src: "m src = b" "b \<noteq> 0" "is_cstring (string_at m (src + 1)) bs"
    using Cons.prems(1) by (simp_all add: is_cstring_Cons string_at_def algebra_simps)
  have shift: "bytes_at (p + 1) ?n \<subseteq> bytes_at p (?n + 1)" "p \<in> bytes_at p (?n + 1)"
    "p \<notin> bytes_at (p + 1) ?n" for p
  proof -
    have n: "?n < 2 ^ 64" using Cons.prems(2) by simp
    show "bytes_at (p + 1) ?n \<subseteq> bytes_at p (?n + 1)"
    proof
      fix x assume "x \<in> bytes_at (p + 1) ?n"
      then have lt: "unat (x - (p + 1)) < ?n" by (simp add: bytes_at_def)
      then have "unat (x - (p + 1) + 1) = unat (x - (p + 1)) + 1"
        using n by (simp only: unat_plus_if') simp
      with lt show "x \<in> bytes_at p (?n + 1)" by (simp add: bytes_at_def)
    qed
    show "p \<in> bytes_at p (?n + 1)" by (simp add: bytes_at_def)
    have "unat (p - (p + 1)) = 2 ^ 64 - 1" by (simp only: diff_add_eq_diff_diff_swap) (simp add: unsigned_minus_1_eq_mask mask_eq_exp_minus_1)
    then show "p \<notin> bytes_at (p + 1) ?n" using n by (simp add: bytes_at_def)
  qed
  define m1 where "m1 = m(dest := b)"
  have dis: "bytes_at src (?n + 1) \<inter> bytes_at dest (?n + 1) = {}" using Cons.prems(3) by simp
  have "is_cstring (string_at m1 (src + 1)) bs"
  proof -
    have "m1 (src + 1 + of_nat i) = m (src + 1 + of_nat i)" if "i \<le> length bs" for i
    proof -
      have "src + 1 + of_nat i \<in> bytes_at (src + 1) ?n"
        using that Cons.prems(2) by (simp add: bytes_at_def unat_of_nat)
      then have "src + 1 + of_nat i \<noteq> dest" using shift dis by blast
      then show ?thesis by (simp add: m1_def)
    qed
    with src(3) show ?thesis by (simp add: is_cstring_def string_at_def)
  qed
  moreover have "bytes_at (src + 1) ?n \<inter> bytes_at (dest + 1) ?n = {}" using shift dis by blast
  ultimately obtain m' where m': "strcpy_loop m1 (dest + 1) (src + 1) = Some m'"
    "is_cstring (string_at m' (dest + 1)) bs" "same_outside (bytes_at (dest + 1) ?n) m1 m'"
    using Cons.IH [of m1 "src + 1" "dest + 1"] Cons.prems(2) by auto
  have "m' dest = b" using m'(3) shift(3) by (auto simp: same_outside_def m1_def)
  with m'(2) src(2) have "is_cstring (string_at m' dest) (b # bs)"
    by (simp add: is_cstring_Cons string_at_def algebra_simps)
  moreover have "same_outside (bytes_at dest (length (b # bs) + 1)) m m'"
    using m'(3) shift(1,2) [of dest] by (auto simp: same_outside_def m1_def)
  moreover have "strcpy_loop m dest src = Some m'"
    using src m'(1) by (subst strcpy_loop.simps) (simp add: m1_def)
  ultimately show ?case by blast
qed

end
