(* ===== verification/Fs.thy ===== *)
theory Fs
  imports Page_Map Kstring
begin

text \<open>
  The file system of \<^verbatim>\<open>kernel/fs.c\<close> on the bytes of its image: block and inode allocation, lookup,
  reading and writing the data of an inode. The image starts at an address that is a parameter;
  block 0 is the superblock, block 1 the bitmap, block 2 the table of inode numbers. \<^verbatim>\<open>int\<close>
  values that are results or block numbers are integers; the counts the code mixes with unsigned
  fields keep their width. An index past an array is \<open>Undefined\<close>.
\<close>

section \<open>Layout\<close>

definition BLOCK_SIZE :: nat where "BLOCK_SIZE = 512"
definition BLOCK_NUM :: nat where "BLOCK_NUM = 2048"
definition O_CREATE :: "32 word" where "O_CREATE = 0x200"

text \<open>Number of \<^verbatim>\<open>uint16\<close> and of \<^verbatim>\<open>uint32\<close> in a block.\<close>

definition FAT_LEN :: nat where "FAT_LEN = 256"
definition INDIRECT_LEN :: nat where "INDIRECT_LEN = 128"

definition get_block :: "addr \<Rightarrow> int \<Rightarrow> addr" where
  "get_block img block = img + word_of_int (block * 512)"

definition get_inode :: "addr \<Rightarrow> int \<Rightarrow> addr" where
  "get_inode img idx = get_block img idx"

text \<open>\<^verbatim>\<open>struct SuperBlock\<close> and \<^verbatim>\<open>struct Inode\<close>: addresses of the fields.\<close>

definition sb_unused :: "addr \<Rightarrow> addr" where "sb_unused img = get_block img 0 + 6"
definition freemap :: "addr \<Rightarrow> nat \<Rightarrow> addr" where "freemap img i = get_block img 1 + 4 * of_nat i"
definition fat :: "addr \<Rightarrow> nat \<Rightarrow> addr" where "fat img i = get_block img 2 + 2 * of_nat i"

definition i_size :: "addr \<Rightarrow> addr" where "i_size inode = inode"
definition i_filename :: "addr \<Rightarrow> addr" where "i_filename inode = inode + 4"
definition i_blocks :: "addr \<Rightarrow> addr" where "i_blocks inode = inode + 36"
definition i_direct :: "addr \<Rightarrow> nat \<Rightarrow> addr" where "i_direct inode i = inode + 38 + 2 * of_nat i"
definition i_indirect :: "addr \<Rightarrow> addr" where "i_indirect inode = inode + 62"

section \<open>Allocation\<close>

function scan_freemap :: "addr \<Rightarrow> mem \<Rightarrow> nat \<Rightarrow> int \<times> mem" where
  "scan_freemap img m i =
     (if i < BLOCK_NUM then
        (let p = freemap img (i div 32);
             w = load32 m p in
         if w AND push_bit (i mod 32) 1 = 0
         then (int i, store32 m p (w OR push_bit (i mod 32) 1))
         else scan_freemap img m (i + 1))
      else (-1, m))"
  by pat_completeness auto
termination
  by (relation "measure (\<lambda>(img, m, i). BLOCK_NUM - i)") auto

declare scan_freemap.simps [simp del]

definition alloc_free_block :: "addr \<Rightarrow> mem \<Rightarrow> int \<times> mem" where
  "alloc_free_block img m =
     (let unused = load16 m (sb_unused img) in
      if unused \<noteq> 0 then scan_freemap img (store16 m (sb_unused img) (unused - 1)) 0
      else (-1, m))"

function scan_fat :: "addr \<Rightarrow> mem \<Rightarrow> nat \<Rightarrow> int \<times> mem" where
  "scan_fat img m i =
     (if i < FAT_LEN then
        (if load16 m (fat img i) = 0 then
           (let (inode, m) = alloc_free_block img m in
            if inode \<noteq> -1 then (inode, store16 m (fat img i) (word_of_int inode))
            else (inode, m))
         else scan_fat img m (i + 1))
      else (-1, m))"
  by pat_completeness auto
termination
  by (relation "measure (\<lambda>(img, m, i). FAT_LEN - i)") auto

declare scan_fat.simps [simp del]

definition alloc_inode :: "addr \<Rightarrow> mem \<Rightarrow> int \<times> mem" where
  "alloc_inode img m = scan_fat img m 0"

section \<open>Lookup and creation\<close>

text \<open>The result is the address of the inode, 0 when there is no such file.\<close>

function lookup_from :: "addr \<Rightarrow> mem \<Rightarrow> cstring \<Rightarrow> nat \<Rightarrow> addr outcome" where
  "lookup_from img m name i =
     (if i < FAT_LEN then
        (if load16 m (fat img i) \<noteq> 0 then
           (let inode = get_inode img (uint (load16 m (fat img i))) in
            bindE (strcmp (string_at m (i_filename inode)) name) (\<lambda>c.
            if c = 0 then Inr inode else lookup_from img m name (i + 1)))
         else lookup_from img m name (i + 1))
      else Inr 0)"
  by pat_completeness auto
termination
  by (relation "measure (\<lambda>(img, m, name, i). FAT_LEN - i)") auto

declare lookup_from.simps [simp del]

definition lookup :: "addr \<Rightarrow> mem \<Rightarrow> cstring \<Rightarrow> addr outcome" where
  "lookup img m name = lookup_from img m name 0"

definition clear_direct :: "mem \<Rightarrow> addr \<Rightarrow> mem" where
  "clear_direct m inode = fold (\<lambda>i m. store16 m (i_direct inode i) 0) [0..<12] m"

text \<open>The name is copied from memory; the number of the inode is not checked.\<close>

definition create :: "addr \<Rightarrow> mem \<Rightarrow> addr \<Rightarrow> (addr \<times> mem) outcome" where
  "create img m name =
     (let (idx, m) = alloc_inode img m;
          inode = get_inode img idx;
          m = store16 m (i_blocks inode) 0;
          m = store32 m (i_size inode) 0 in
      bindE (strcpy m (i_filename inode) name) (\<lambda>m.
      let m = clear_direct m inode;
          m = store16 m (i_indirect inode) 0
      in Inr (inode, m)))"

section \<open>Data blocks\<close>

text \<open>The block with index \<open>i\<close> of an inode; the indirect block was located before the loop.\<close>

definition data_block :: "addr \<Rightarrow> mem \<Rightarrow> addr \<Rightarrow> addr \<Rightarrow> nat \<Rightarrow> addr" where
  "data_block img m inode indirect i =
     (if i < 12 then get_block img (uint (load16 m (i_direct inode i)))
      else get_block img (sint (load32 m (indirect + 4 * of_nat (i - 12)))))"

function read_loop ::
  "addr \<Rightarrow> mem \<Rightarrow> addr \<Rightarrow> addr \<Rightarrow> nat \<Rightarrow> nat \<Rightarrow> addr \<Rightarrow> nat \<Rightarrow> nat \<Rightarrow> (nat \<times> mem) outcome" where
  "read_loop img m inode indirect i block_off buf num max_size =
     (if num < max_size then
        (if 12 + INDIRECT_LEN \<le> i then Inl Undefined
         else
           (let src = data_block img m inode indirect i + of_nat block_off;
                len = min (max_size - num) (BLOCK_SIZE - block_off)
            in read_loop img (copy_bytes len m buf src) inode indirect (i + 1) 0
                 (buf + of_nat len) (num + len) max_size))
      else Inr (num, m))"
  by pat_completeness auto
termination
  by (relation "measure (\<lambda>(img, m, inode, indirect, i, b, buf, num, mx). 12 + INDIRECT_LEN - i)") auto

declare read_loop.simps [simp del]

text \<open>
  \<^verbatim>\<open>inode->size - off\<close> is unsigned, and so is its comparison with \<^verbatim>\<open>count\<close>; the minimum becomes
  an \<^verbatim>\<open>int\<close>. A negative offset that passes the test indexes before the arrays.
\<close>

definition read_from_inode ::
  "addr \<Rightarrow> mem \<Rightarrow> addr \<Rightarrow> 32 word \<Rightarrow> addr \<Rightarrow> 32 word \<Rightarrow> (int \<times> mem) outcome" where
  "read_from_inode img m inode off buf count =
     (let rest = load32 m (i_size inode) - off;
          max_size = (if rest < count then rest else count) in
      if sint max_size \<le> 0 then Inr (0, m)
      else if sint off < 0 then Inl Undefined
      else
        (let indirect = get_block img (uint (load16 m (i_indirect inode))) in
         bindE (read_loop img m inode indirect (unat off div 512) (unat off mod 512) buf 0
                  (unat max_size)) (\<lambda>(num, m). Inr (int num, m))))"

definition readall :: "addr \<Rightarrow> mem \<Rightarrow> addr \<Rightarrow> addr \<Rightarrow> (int \<times> mem) outcome" where
  "readall img m inode buf = read_from_inode img m inode 0 buf (load32 m (i_size inode))"

section \<open>Growing and writing\<close>

fun grow_direct :: "addr \<Rightarrow> mem \<Rightarrow> addr \<Rightarrow> nat list \<Rightarrow> nat \<Rightarrow> nat \<times> mem" where
  "grow_direct img m inode [] num = (num, m)"
| "grow_direct img m inode (i # is) num =
     (if num = 0 then (num, m)
      else if load16 m (i_direct inode i) = 0 then
        (let (block, m) = alloc_free_block img m
         in grow_direct img (store16 m (i_direct inode i) (word_of_int block)) inode is (num - 1))
      else grow_direct img m inode is num)"

fun grow_indirect :: "addr \<Rightarrow> mem \<Rightarrow> addr \<Rightarrow> nat list \<Rightarrow> nat \<Rightarrow> mem" where
  "grow_indirect img m indirect [] num = m"
| "grow_indirect img m indirect (i # is) num =
     (if num = 0 then m
      else if load32 m (indirect + 4 * of_nat i) = 0 then
        (let (block, m) = alloc_free_block img m
         in grow_indirect img (store32 m (indirect + 4 * of_nat i) (word_of_int block)) indirect is
              (num - 1))
      else grow_indirect img m indirect is num)"

text \<open>
  The sizes are those of \<^verbatim>\<open>int\<close> arithmetic as long as \<open>new_size + 511\<close> does not overflow.
\<close>

definition increase_size :: "addr \<Rightarrow> mem \<Rightarrow> addr \<Rightarrow> 32 word \<Rightarrow> mem" where
  "increase_size img m inode new_size =
     (let blocks = load16 m (i_blocks inode) in
      if sint new_size \<le> uint blocks * 512 then m
      else
        (let num = (unat new_size + BLOCK_SIZE - 1) div BLOCK_SIZE - unat blocks;
             m = store16 m (i_blocks inode) (blocks + of_nat num);
             (num, m) = grow_direct img m inode [0..<12] num in
         if num = 0 then m
         else
           (let m = (if load16 m (i_indirect inode) = 0 then
                       (let (block, m) = alloc_free_block img m
                        in store16 m (i_indirect inode) (word_of_int block))
                     else m);
                indirect = get_block img (uint (load16 m (i_indirect inode)))
            in grow_indirect img m indirect [0..<INDIRECT_LEN] num)))"

function write_loop ::
  "addr \<Rightarrow> mem \<Rightarrow> addr \<Rightarrow> addr \<Rightarrow> nat \<Rightarrow> nat \<Rightarrow> addr \<Rightarrow> nat \<Rightarrow> nat \<Rightarrow> (nat \<times> mem) outcome" where
  "write_loop img m inode indirect i block_off buf num count =
     (if num < count then
        (if 12 + INDIRECT_LEN \<le> i then Inl Undefined
         else
           (let dst = data_block img m inode indirect i + of_nat block_off;
                len = min (count - num) (BLOCK_SIZE - block_off)
            in write_loop img (copy_bytes len m dst buf) inode indirect (i + 1) 0
                 (buf + of_nat len) (num + len) count))
      else Inr (num, m))"
  by pat_completeness auto
termination
  by (relation "measure (\<lambda>(img, m, inode, indirect, i, b, buf, num, c). 12 + INDIRECT_LEN - i)") auto

declare write_loop.simps [simp del]

text \<open>
  The file branch of \<^verbatim>\<open>sys_write\<close> for the inode and the offset of the open file: the number of
  bytes written and the new offset.
\<close>

definition write_to_inode ::
  "addr \<Rightarrow> mem \<Rightarrow> addr \<Rightarrow> 32 word \<Rightarrow> addr \<Rightarrow> 32 word \<Rightarrow> (nat \<times> 32 word \<times> mem) outcome" where
  "write_to_inode img m inode off buf count =
     (let m = increase_size img m inode (off + count) in
      if sint off < 0 \<and> 0 < sint count then Inl Undefined
      else
        (let indirect = get_block img (uint (load16 m (i_indirect inode))) in
         bindE (write_loop img m inode indirect (unat off div 512) (unat off mod 512) buf 0
                  (nat (sint count))) (\<lambda>(num, m).
         let off = off + of_nat num;
             m = (if load32 m (i_size inode) < off then store32 m (i_size inode) off else m)
         in Inr (num, off, m))))"

end
