(* ===== verification/Kprintf.thy ===== *)
theory Kprintf
  imports Kstring
begin

text \<open>
  \<^verbatim>\<open>kernel/printf.c\<close>: the formatter, as a function from the format string and its arguments to
  the characters it puts on the console. A conversion without an argument left, or with one of the wrong type, is undefined
  in C and \<open>Undefined\<close> here.
\<close>

definition digits :: string where
  "digits = ''0123456789abcdef''"

text \<open>The digits of \<open>x\<close>, least significant first: the loop that fills \<^verbatim>\<open>buf\<close>.\<close>

function digit_loop :: "u32 \<Rightarrow> u32 \<Rightarrow> string" where
  "digit_loop base x =
     (if base \<le> 1 then []
      else digits ! unat (x mod base) #
        (if x div base \<noteq> 0 then digit_loop base (x div base) else []))"
  by pat_completeness auto
termination
proof (relation "measure (\<lambda>(base, x). unat x)")
  fix base x :: u32
  assume a: "\<not> base \<le> 1" "x div base \<noteq> 0"
  then have "1 < unat base" by (simp add: word_le_nat_alt)
  moreover have "0 < unat x" using a(2) by (cases "x = 0") (simp_all add: unat_gt_0)
  ultimately show "((base, x div base), (base, x)) \<in> measure (\<lambda>(base, x). unat x)"
    by (simp add: unat_div)
qed simp

declare digit_loop.simps [simp del]

definition printint :: "32 word \<Rightarrow> u32 \<Rightarrow> bool \<Rightarrow> string" where
  "printint xx base sign =
     (let neg = sign \<and> sint xx < 0;
          x = (if neg then - xx else xx)
      in (if neg then ''-'' else []) @ rev (digit_loop base x))"

text \<open>Sixteen nibbles, most significant first.\<close>

definition printptr :: "u64 \<Rightarrow> string" where
  "printptr x = ''0x'' @ map (\<lambda>i. digits ! unat (drop_bit 60 (push_bit (4 * i) x))) [0..<16]"

datatype arg = IntArg "32 word" | PtrArg u64 | StrArg "string option"

fun format :: "string \<Rightarrow> arg list \<Rightarrow> string outcome" where
  "format [] args = Inr []"
| "format (c # cs) args =
     (if c \<noteq> CHR 0x25 then bindE (format cs args) (\<lambda>out. Inr (c # out))
      else
        (case cs of
           [] \<Rightarrow> Inr []
         | d # ds \<Rightarrow>
             if d = CHR ''d'' \<or> d = CHR ''x'' then
               (case args of
                  IntArg n # rest \<Rightarrow>
                    bindE (format ds rest) (\<lambda>out.
                    Inr (printint n (if d = CHR ''d'' then 10 else 16) True @ out))
                | _ \<Rightarrow> Inl Undefined)
             else if d = CHR ''p'' then
               (case args of
                  PtrArg p # rest \<Rightarrow> bindE (format ds rest) (\<lambda>out. Inr (printptr p @ out))
                | _ \<Rightarrow> Inl Undefined)
             else if d = CHR ''s'' then
               (case args of
                  StrArg s # rest \<Rightarrow>
                    bindE (format ds rest) (\<lambda>out.
                    Inr ((case s of None \<Rightarrow> ''(null)'' | Some t \<Rightarrow> t) @ out))
                | _ \<Rightarrow> Inl Undefined)
             else if d = CHR 0x25 then bindE (format ds args) (\<lambda>out. Inr (CHR 0x25 # out))
             else bindE (format ds args) (\<lambda>out. Inr (CHR 0x25 # d # out))))"

text \<open>\<^verbatim>\<open>printf\<close> panics on a null format; \<^verbatim>\<open>panic\<close> prints what it can and shuts down.\<close>

definition printf :: "string option \<Rightarrow> arg list \<Rightarrow> string outcome" where
  "printf fmt args =
     (case fmt of None \<Rightarrow> Inl (Panic ''[printf] null fmt'') | Some f \<Rightarrow> format f args)"

definition panic :: "string option \<Rightarrow> arg list \<Rightarrow> 'a outcome" where
  "panic fmt args =
     (case fmt of
        None \<Rightarrow> Inl (Panic [])
      | Some f \<Rightarrow> bindE (format f args) (\<lambda>out. Inl (Panic out)))"

section \<open>Reading a number back\<close>

definition digit_value :: "char \<Rightarrow> nat" where
  "digit_value c = (if of_char c < (58 :: nat) then of_char c - 48 else of_char c - 87)"

definition value_of :: "nat \<Rightarrow> string \<Rightarrow> nat" where
  "value_of base cs = foldl (\<lambda>v c. base * v + digit_value c) 0 cs"

lemma value_of_snoc: "value_of b (cs @ [c]) = b * value_of b cs + digit_value c"
  by (simp add: value_of_def)

lemma digit_value_digits: "i < 16 \<Longrightarrow> digit_value (digits ! i) = i"
proof -
  have "\<forall>i \<in> {..<16}. digit_value (digits ! i) = i"
    by (simp add: digit_value_def digits_def lessThan_nat_numeral lessThan_Suc)
  then show "i < 16 \<Longrightarrow> digit_value (digits ! i) = i" by simp
qed

lemma digit_loop_value:
  assumes "1 < base" and "base \<le> 16"
  shows "value_of (unat base) (rev (digit_loop base x)) = unat x"
  using assms
proof (induction base x rule: digit_loop.induct)
  case (1 base x)
  have b: "1 < unat base" "unat base \<le> 16"
    using "1.prems" by (simp_all add: word_less_nat_alt word_le_nat_alt)
  have "unat x mod unat base < unat base" using b by (intro mod_less_divisor) simp
  then have "unat (x mod base) < 16" using b(2) unfolding unat_mod by (rule less_le_trans)
  then have d: "digit_value (digits ! unat (x mod base)) = unat x mod unat base"
    by (simp add: digit_value_digits unat_mod)
  have nb: "\<not> base \<le> 1" using "1.prems"(1) by simp
  show ?case
  proof (cases "x div base = 0")
    case True
    then have "unat x div unat base = 0" by (metis unat_0 unat_div)
    then have "unat x mod unat base = unat x" by (auto simp: div_eq_0_iff)
    moreover have "digit_loop base x = [digits ! unat (x mod base)]"
      using nb True by (subst digit_loop.simps) simp
    ultimately show ?thesis using d by (simp add: value_of_def)
  next
    case False
    have "digit_loop base x = digits ! unat (x mod base) # digit_loop base (x div base)"
      using nb False by (subst digit_loop.simps) simp
    then show ?thesis
      using "1.IH" [OF nb False "1.prems"] d by (simp add: value_of_snoc unat_div)
  qed
qed

text \<open>The buffer of sixteen characters is large enough for any number in base ten or more.\<close>

lemma digit_loop_length:
  assumes "10 \<le> base" and "unat x < 10 ^ n" and "0 < n"
  shows "length (digit_loop base x) \<le> n"
  using assms
proof (induction base x arbitrary: n rule: digit_loop.induct)
  case (1 base x)
  have b: "10 \<le> unat base" using "1.prems"(1) by (simp add: word_le_nat_alt)
  have nb: "\<not> base \<le> 1" using b by (simp add: word_le_nat_alt)
  show ?case
  proof (cases "x div base = 0")
    case True
    then show ?thesis using nb "1.prems"(3) by (subst digit_loop.simps) simp
  next
    case False
    obtain n' where n': "n = Suc n'" using "1.prems"(3) by (cases n) auto
    have "unat (x div base) \<le> unat x div 10"
      using b by (simp add: unat_div div_le_mono2)
    also have "\<dots> < 10 ^ n'" using "1.prems"(2) n' by (simp add: less_mult_imp_div_less)
    finally have lt: "unat (x div base) < 10 ^ n'" .
    have "0 < n'"
    proof (rule ccontr)
      assume "\<not> 0 < n'"
      with lt have "unat (x div base) = 0" by simp
      with False show False by (simp add: unat_eq_0)
    qed
    then have "length (digit_loop base (x div base)) \<le> n'"
      using "1.IH" [OF nb False "1.prems"(1) lt] by simp
    then show ?thesis using nb False n' by (subst digit_loop.simps) simp
  qed
qed

lemma printint_length: "10 \<le> base \<Longrightarrow> length (printint xx base sign) \<le> 16"
proof -
  assume b: "10 \<le> base"
  have "unat x < 10 ^ 10" for x :: u32 using unsigned_less [of x, where ?'a = nat] by simp
  then have "length (digit_loop base x) \<le> 10" for x
    using digit_loop_length [OF b, of x 10] by simp
  from this [of xx] this [of "- xx"] show ?thesis by (auto simp: printint_def Let_def)
qed

end
