(* ===== verification/Kernel_State.thy ===== *)
theory Kernel_State
  imports Address_Space Fs Kprintf
begin

text \<open>
  The state of the kernel and what every handler uses of it: the process control blocks of
  \<^verbatim>\<open>kernel/process.h\<close>, the open files of \<^verbatim>\<open>kernel/fs.h\<close>, the bitmap of process numbers, the
  queue of processes and the console. A fresh struct has the contents of the block \<^verbatim>\<open>alloc\<close>
  returned until its fields are set.
\<close>

section \<open>Process control blocks and files\<close>

datatype proc_state = Ready | Running | Exited

record process_context =
  ra :: usize
  sp :: usize
  s_regs :: "usize list"
  cx_satp :: usize

record trap_context =
  x_regs :: "usize list"
  sstatus :: usize
  sepc :: usize
  kernel_sp :: usize

record pcb =
  pid :: int
  state :: proc_state
  process_cx :: process_context
  trap_cx :: trap_context
  kstack :: usize
  ustack :: usize
  mm :: addr
  parent :: addr
  files :: "addr list"

record open_file =
  f_type :: u16
  f_count :: "32 word"
  f_off :: "32 word"
  f_inode :: addr

definition NR_OPEN :: nat where "NR_OPEN = 16"
definition FILE_STDIO :: u16 where "FILE_STDIO = 1"

text \<open>Sizes and the offsets of the \<^verbatim>\<open>list_head\<close> members.\<close>

definition sizeof_pcb :: usize where "sizeof_pcb = 616"
definition sizeof_file :: usize where "sizeof_file = 24"
definition run_node :: "addr \<Rightarrow> addr" where "run_node p = p + 440"
definition run_entry :: "addr \<Rightarrow> addr" where "run_entry ptr = ptr - 440"
definition children_head :: "addr \<Rightarrow> addr" where "children_head p = p + 456"
definition sibling_node :: "addr \<Rightarrow> addr" where "sibling_node p = p + 472"
definition sibling_entry :: "addr \<Rightarrow> addr" where "sibling_entry ptr = ptr - 472"

text \<open>The contents of a block read as a struct.\<close>

definition words_at :: "mem \<Rightarrow> addr \<Rightarrow> nat \<Rightarrow> usize list" where
  "words_at m p n = map (\<lambda>i. load64 m (p + 8 * of_nat i)) [0..<n]"

definition proc_state_of :: "32 word \<Rightarrow> proc_state" where
  "proc_state_of w = (if w = 0 then Ready else if w = 1 then Running else Exited)"

definition pcb_at :: "mem \<Rightarrow> addr \<Rightarrow> pcb" where
  "pcb_at m p =
     \<lparr>pid = sint (load32 m p), state = proc_state_of (load32 m (p + 4)),
      process_cx = \<lparr>ra = load64 m (p + 8), sp = load64 m (p + 16),
                    s_regs = words_at m (p + 24) 12, cx_satp = load64 m (p + 120)\<rparr>,
      trap_cx = \<lparr>x_regs = words_at m (p + 128) 32, sstatus = load64 m (p + 384),
                 sepc = load64 m (p + 392), kernel_sp = load64 m (p + 400)\<rparr>,
      kstack = load64 m (p + 408), ustack = load64 m (p + 416), mm = load64 m (p + 424),
      parent = load64 m (p + 432), files = words_at m (p + 488) NR_OPEN\<rparr>"

definition file_at :: "mem \<Rightarrow> addr \<Rightarrow> open_file" where
  "file_at m p =
     \<lparr>f_type = load16 m p, f_count = load32 m (p + 4), f_off = load32 m (p + 8),
      f_inode = load64 m (p + 16)\<rparr>"

section \<open>The kernel\<close>

record kernel = vm +
  pcbs :: "addr \<Rightarrow> pcb option"
  file_table :: "addr \<Rightarrow> open_file option"
  pids :: "u32 list"
  current :: addr
  idle :: addr
  init_proc :: addr
  console :: "u8 list"
  next_timeout :: u64

abbreviation kmem :: "kernel \<Rightarrow> mem" where
  "kmem s \<equiv> fst (kheap s)"

definition set_kmem :: "kernel \<Rightarrow> mem \<Rightarrow> kernel" where
  "set_kmem s m = s\<lparr>kheap := (m, snd (kheap s))\<rparr>"

definition get_pcb :: "kernel \<Rightarrow> addr \<Rightarrow> pcb outcome" where
  "get_pcb s p = deref (pcbs s) p"

definition set_pcb :: "kernel \<Rightarrow> addr \<Rightarrow> pcb \<Rightarrow> kernel" where
  "set_pcb s p b = s\<lparr>pcbs := (pcbs s)(p \<mapsto> b)\<rparr>"

definition update_pcb :: "kernel \<Rightarrow> addr \<Rightarrow> (pcb \<Rightarrow> pcb) \<Rightarrow> kernel outcome" where
  "update_pcb s p f = bindE (get_pcb s p) (\<lambda>b. Inr (set_pcb s p (f b)))"

definition set_file :: "kernel \<Rightarrow> addr \<Rightarrow> open_file \<Rightarrow> kernel" where
  "set_file s p f = s\<lparr>file_table := (file_table s)(p \<mapsto> f)\<rparr>"

text \<open>A line of a constant text that is put out.\<close>

definition put_line :: "string \<Rightarrow> kernel \<Rightarrow> kernel" where
  "put_line msg s = s\<lparr>console := console s @ map of_char (msg @ [CHR 0x0A])\<rparr>"

text \<open>\<^verbatim>\<open>alloc\<close> and \<^verbatim>\<open>dealloc\<close> on the kernel's state.\<close>

definition kalloc :: "kernel \<Rightarrow> usize \<Rightarrow> (addr \<times> kernel) outcome" where
  "kalloc s sz = bindE (alloc (kheap s) sz) (\<lambda>(p, h). Inr (p, s\<lparr>kheap := h\<rparr>))"

definition kdealloc :: "kernel \<Rightarrow> addr \<Rightarrow> usize \<Rightarrow> kernel outcome" where
  "kdealloc s p sz = bindE (dealloc (kheap s) p sz) (\<lambda>h. Inr (s\<lparr>kheap := h\<rparr>))"

definition kmap_pages :: "kernel \<Rightarrow> usize \<Rightarrow> usize \<Rightarrow> usize \<Rightarrow> usize \<Rightarrow> usize \<Rightarrow> kernel outcome" where
  "kmap_pages s root start start_pa sz flags =
     bindE (map_pages (kheap s) root start start_pa (ucast sz) flags) (\<lambda>h. Inr (s\<lparr>kheap := h\<rparr>))"

definition new_pcb :: "kernel \<Rightarrow> (addr \<times> kernel) outcome" where
  "new_pcb s = bindE (kalloc s sizeof_pcb) (\<lambda>(p, s). Inr (p, set_pcb s p (pcb_at (kmem s) p)))"

definition new_file :: "kernel \<Rightarrow> (addr \<times> kernel) outcome" where
  "new_file s = bindE (kalloc s sizeof_file) (\<lambda>(p, s). Inr (p, set_file s p (file_at (kmem s) p)))"

definition init_pcb_lists :: "kernel \<Rightarrow> addr \<Rightarrow> kernel" where
  "init_pcb_lists s p =
     s\<lparr>klinks := INIT_LIST_HEAD (INIT_LIST_HEAD (INIT_LIST_HEAD (klinks s) (run_node p))
                  (children_head p)) (sibling_node p)\<rparr>"

section \<open>Process numbers\<close>

definition MAX_PID :: nat where "MAX_PID = 1024"

function alloc_pid_from :: "u32 list \<Rightarrow> nat \<Rightarrow> (int \<times> u32 list) outcome" where
  "alloc_pid_from ps i =
     (if i < MAX_PID div 32 then
        (if length ps \<le> i then Inl Undefined
         else if ps ! i \<noteq> 0xFFFFFFFF then
           (case find (\<lambda>j. ps ! i AND push_bit j 1 = 0) [0..<32] of
              Some j \<Rightarrow> Inr (int (i * 32 + j), ps[i := ps ! i OR push_bit j 1])
            | None \<Rightarrow> alloc_pid_from ps (i + 1))
         else alloc_pid_from ps (i + 1))
      else Inr (-1, ps))"
  by pat_completeness auto
termination
  by (relation "measure (\<lambda>(ps, i). MAX_PID - i)") (auto simp: MAX_PID_def)

declare alloc_pid_from.simps [simp del]

definition alloc_pid :: "u32 list \<Rightarrow> (int \<times> u32 list) outcome" where
  "alloc_pid ps = alloc_pid_from ps 0"

definition dealloc_pid :: "u32 list \<Rightarrow> int \<Rightarrow> u32 list outcome" where
  "dealloc_pid ps n =
     (if 0 \<le> n \<and> n < int MAX_PID then
        (let index = nat n div 32; offset = nat n mod 32 in
         if length ps \<le> index then Inl Undefined
         else Inr (ps[index := ps ! index AND NOT (push_bit offset 1)]))
      else panic (Some (''Invalid PID: %d'' @ [CHR 0x0A])) [IntArg (word_of_int n)])"

definition kalloc_pid :: "kernel \<Rightarrow> (int \<times> kernel) outcome" where
  "kalloc_pid s = bindE (alloc_pid (pids s)) (\<lambda>(n, ps). Inr (n, s\<lparr>pids := ps\<rparr>))"

section \<open>Contexts\<close>

definition goto_trap_restore :: "image \<Rightarrow> process_context \<Rightarrow> usize \<Rightarrow> process_context" where
  "goto_trap_restore img cx ksp = cx\<lparr>ra := restore_entry img, sp := ksp, s_regs := replicate 12 0\<rparr>"

definition SSTATUS_SIE :: usize where "SSTATUS_SIE = 0x2"
definition SSTATUS_SPIE :: usize where "SSTATUS_SPIE = 0x20"
definition SSTATUS_SPP :: usize where "SSTATUS_SPP = 0x100"

text \<open>The value of \<^verbatim>\<open>sstatus\<close> that is read is a parameter.\<close>

definition goto_app :: "usize \<Rightarrow> trap_context \<Rightarrow> usize \<Rightarrow> usize \<Rightarrow> usize \<Rightarrow> trap_context" where
  "goto_app r_sstatus cx entry user_sp ksp =
     (let st = r_sstatus AND NOT SSTATUS_SPP;
          st = st OR SSTATUS_SPIE;
          st = st AND NOT SSTATUS_SIE
      in cx\<lparr>x_regs := (replicate 32 0)[2 := user_sp], sstatus := st, sepc := entry,
            kernel_sp := ksp\<rparr>)"

section \<open>The queue of processes\<close>

definition add_process :: "kernel \<Rightarrow> addr \<Rightarrow> kernel" where
  "add_process s p = s\<lparr>klinks := list_add_tail (klinks s) (run_node p) (run_node (idle s))\<rparr>"

text \<open>\<^verbatim>\<open>yield\<close> up to the switch of contexts, which goes to the scheduler.\<close>

definition yield_current :: "kernel \<Rightarrow> kernel outcome" where
  "yield_current s =
     bindE (update_pcb s (current s) (\<lambda>b. b\<lparr>state := Ready\<rparr>)) (\<lambda>s.
     Inr (add_process s (current s)))"

section \<open>Handlers and the scheduler\<close>

text \<open>
  A handler returns to its caller or switches to the scheduler. A process that is switched to
  later goes on where it left: on its way back to user mode, in the loop of \<^verbatim>\<open>sys_wait\<close>, in the
  loop of \<^verbatim>\<open>sys_read\<close> that waits for input, or never, when it has exited.
\<close>

datatype resume = To_user | In_wait | In_read addr | Never

datatype 'r reply = Returned 'r kernel | Switched resume kernel

end
