(* ===== verification/Kernel_Heap.thy ===== *)
theory Kernel_Heap
  imports Kernel_State
begin

text \<open>
  The heap as the handlers use it: what \<^verbatim>\<open>alloc\<close> and \<^verbatim>\<open>dealloc\<close> do to the state of the kernel, and
  what a block contains when it has just been handed out.
\<close>

section \<open>Steps that change the heap and the console\<close>

text \<open>Only the heap and the console change, and of the memory only what was free.\<close>

definition heap_step :: "addr set \<Rightarrow> kernel \<Rightarrow> kernel \<Rightarrow> bool" where
  "heap_step F s s' \<longleftrightarrow> (\<exists>h out. s' = s\<lparr>kheap := h, console := console s @ out\<rparr>) \<and> same_outside F (kmem s) (kmem s')"

lemma heap_stepI:
  "same_outside F (kmem s) (fst h) \<Longrightarrow> heap_step F s (s\<lparr>kheap := h, console := console s @ out\<rparr>)"
  unfolding heap_step_def by fastforce

lemma heap_step_trans: "heap_step F s s1 \<Longrightarrow> heap_step F s1 s2 \<Longrightarrow> heap_step F s s2"
proof -
  assume a: "heap_step F s s1" "heap_step F s1 s2"
  obtain h1 o1 where s1: "s1 = s\<lparr>kheap := h1, console := console s @ o1\<rparr>" "same_outside F (kmem s) (kmem s1)"
    using a(1) unfolding heap_step_def by blast
  obtain h2 o2 where s2: "s2 = s1\<lparr>kheap := h2, console := console s1 @ o2\<rparr>" "same_outside F (kmem s1) (kmem s2)"
    using a(2) unfolding heap_step_def by blast
  have "s2 = s\<lparr>kheap := h2, console := console s @ (o1 @ o2)\<rparr>" using s1(1) s2(1) by simp
  then show "heap_step F s s2" unfolding heap_step_def using same_outside_trans [OF s1(2) s2(2)] by blast
qed

lemma heap_step_put_line: "heap_step F s (put_line msg s)"
  using heap_stepI [of F s "kheap s"] by (simp add: put_line_def)

lemma heap_step_mono: "heap_step F s s' \<Longrightarrow> F \<subseteq> G \<Longrightarrow> heap_step G s s'"
  unfolding heap_step_def by (auto intro: same_outside_mono)

lemma kdealloc_spec:
  assumes "buddy_inv R (kheap s) G" and "size_order sz = k" and "aligned k a" and "a \<noteq> 0" and "blk k a \<subseteq> R - G"
  obtains s' where "kdealloc s a sz = Inr s'" and "buddy_inv R (kheap s') (G \<union> blk k a)" and "heap_step (G \<union> blk k a) s s'"
proof -
  obtain h where h: "dealloc (kheap s) a sz = Inr h" "buddy_inv R h (G \<union> blk k a)" "same_outside (G \<union> blk k a) (kmem s) (fst h)"
    using buddy.dealloc_block [OF assms(1), of sz a] assms(2-5) by (auto simp: dealloc_def)
  have "kdealloc s a sz = Inr (s\<lparr>kheap := h\<rparr>)" using h(1) by (simp add: kdealloc_def)
  with h that heap_stepI [OF h(3), of "[]"] show thesis by simp
qed

section \<open>Orders of small requests\<close>

lemma req_order_eq:
  assumes "3 \<le> k" and "n \<le> 2 ^ k" and "2 ^ (k - 1) < n \<or> k = 3"
  shows "req_order n = k"
proof (rule antisym)
  show "req_order n \<le> k" by (rule req_order_least) (use assms in auto)
  have "n \<le> 2 ^ req_order n" "3 \<le> req_order n" using req_order_props [of n] by auto
  show "k \<le> req_order n"
  proof (rule ccontr)
    assume "\<not> k \<le> req_order n"
    then have "req_order n \<le> k - 1" "k \<noteq> 3" using \<open>3 \<le> req_order n\<close> by auto
    then have "(2::nat) ^ req_order n \<le> 2 ^ (k - 1)" by simp
    with \<open>n \<le> 2 ^ req_order n\<close> have "n \<le> 2 ^ (k - 1)" by (rule order_trans)
    with assms(3) \<open>k \<noteq> 3\<close> show False by simp
  qed
qed

lemma small_orders: "size_order 1 = 3" "size_order 24 = 5" "size_order 30 = 5" "size_order 60 = 6" "size_order 100 = 7"
  using req_order_eq [of 3 1] req_order_eq [of 5 24] req_order_eq [of 5 30] req_order_eq [of 6 60] req_order_eq [of 7 100]
  by (simp_all add: size_order_req)

section \<open>A fresh block\<close>

text \<open>The first word of a block that was just taken is still the link it had in its list.\<close>

lemma POP_link:
  assumes "POP s order = Inr (a, s')" and "length (free_list (snd s')) = MAX_ORDER"
  shows "load64 (fst s') a = free_list (snd s') ! order" and "order < MAX_ORDER"
  using assms by (auto simp: POP_def Let_def split: prod.splits if_splits)

lemma alloc_scan_link:
  assumes "alloc_scan s asize order i = Inr (a, s')" and "a \<noteq> 0" and "length (free_list (snd s')) = MAX_ORDER"
  shows "load64 (fst s') a = free_list (snd s') ! order \<and> order < MAX_ORDER"
  using assms
proof (induction s asize order i rule: alloc_scan.induct)
  case (1 s asize order i)
  have i: "i < MAX_ORDER" using "1.prems"(1,2) by (simp add: alloc_scan.simps [of s _ _ i] split: if_splits)
  show ?case
  proof (cases "free_list (snd s) ! i = 0")
    case True
    then show ?thesis using i "1.IH" "1.prems" by (simp add: alloc_scan.simps [of s _ _ i])
  next
    case False
    then obtain m b where "POP (m, b\<lparr>allocated := allocated b + asize\<rparr>) order = Inr (a, s')"
      using i "1.prems"(1) by (auto simp: alloc_scan.simps [of s _ _ i] bindE_Inr_iff)
    then show ?thesis using POP_link "1.prems"(3) by blast
  qed
qed

lemma fresh_link:
  assumes "buddy_inv R s F" and "alloc s sz = Inr (a, s')"
  shows "aligned 3 (load64 (fst s') a)"
proof -
  have al: "buddy_alloc s sz = Inr (a, s')" "a \<noteq> 0"
    using assms(2) by (auto simp: alloc_def bindE_Inr_iff split: if_splits)
  have "buddy_inv R s' (F - blk (size_order sz) a)" using alloc_spec [OF assms(1), of sz] assms(2) by simp
  then obtain fs where fs: "reps s' fs" "wf_lists fs" by (auto simp: buddy_inv_def)
  have len: "length (free_list (snd s')) = MAX_ORDER" using fs(1) by (simp add: reps_def)
  have "alloc_scan s (adjust_size sz) (get_order (adjust_size sz)) (get_order (adjust_size sz)) = Inr (a, s')"
    using al(1) by (simp add: buddy_alloc_def Let_def)
  from alloc_scan_link [OF this al(2) len]
  have l: "load64 (fst s') a = free_list (snd s') ! get_order (adjust_size sz)" "get_order (adjust_size sz) < MAX_ORDER" by auto
  let ?k = "get_order (adjust_size sz)" and ?p = "load64 (fst s') a"
  have ch: "chain (fst s') ?p (fs ?k)" using fs(1) l unfolding reps_def by simp
  show ?thesis
  proof (cases "?p = 0")
    case False
    then have "?p \<in> set (fs ?k)" using ch chain_nonzero [OF False] by auto
    then show ?thesis using wf_listsD(4) [OF fs(2) l(2)] by simp
  qed (simp add: aligned_def)
qed

lemma load16_link: "aligned 3 (load64 m a) \<Longrightarrow> load16 m a \<noteq> 1"
proof
  assume al: "aligned 3 (load64 m a)" and one: "load16 m a = 1"
  have "bit (load64 m a) 0 \<longleftrightarrow> bit (load16 m a) 0" by (simp only: bit_load_bytes) simp
  then have "bit (load64 m a) 0" using one by simp
  moreover have "\<not> bit (load64 m a) 0" using al by (simp add: aligned_bit)
  ultimately show False by contradiction
qed

end
