(* ===== verification/Space_Copy.thy ===== *)
theory Space_Copy
  imports Space_Life Kernel_Heap
begin

text \<open>
  \<^verbatim>\<open>copy_mm\<close> of \<^verbatim>\<open>kernel/mapping.c\<close>: from an address space to a second one with frames and tables of
  its own.
\<close>

section \<open>Structs and frames beside an address space\<close>

lemma in_block: "aligned k a \<Longrightarrow> n < 2 ^ k \<Longrightarrow> k < 64 \<Longrightarrow> a + of_nat n \<in> blk k a"
proof -
  assume a: "aligned k a" and n: "n < 2 ^ k" and k: "k < 64"
  have "(2 :: nat) ^ k < 2 ^ 64" using k by (rule power_strict_increasing) simp
  then have "unat (of_nat n :: u64) = n" using n by (simp add: unat_of_nat)
  then have "a + of_nat n \<in> bytes_at a (2 ^ k)" using n by (simp add: bytes_at_def)
  then show ?thesis using bytes_at_blk [OF a] k by simp
qed

lemma node_in_block: "aligned 6 a \<Longrightarrow> seg_list a \<in> blk 6 a" "aligned 5 mp \<Longrightarrow> mm_segments mp \<in> blk 5 mp"
  using in_block [of 6 a 32] in_block [of 5 mp 8] by (simp_all add: seg_list_def mm_segments_def)

lemma space_nodes:
  assumes "space R F s mp root tab sl"
  shows "set (mm_segments mp # seg_nodes sl) \<subseteq> R - F"
proof -
  note d = spaceD [OF assms]
  have "seg_list a \<in> R - F" if "(a, sg, ps) \<in> set sl" for a sg ps
    using d(5) [OF that] node_in_block(1) [of a] by blast
  then show ?thesis using node_in_block(2) [OF d(6)] d(7) by (auto simp: seg_nodes_def)
qed

text \<open>An address space is not affected by what happens outside its tables, nodes and structs.\<close>

lemma space_frame:
  assumes sp: "space R F s mp root tab sl" and inv: "buddy_inv R (kheap s') F'" and F: "F' \<subseteq> F"
    and same: "same_outside S (fst (kheap s)) (fst (kheap s'))" "page_set (ran tab) \<inter> S = {}"
    and links: "links_same_outside T (klinks s) (klinks s')" "set (mm_segments mp # seg_nodes sl) \<inter> T = {}"
    and stores: "mms s' mp = mms s mp" "\<forall>(a, sg, ps) \<in> set sl. segs s' a = segs s a"
  shows "space R F' s' mp root tab sl"
proof -
  note d = spaceD [OF sp]
  have ok: "tree_ok (fst (kheap s)) tab" "in_window R" "page_set (ran tab) \<subseteq> R - F"
    using d(1) by (simp_all add: pt_inv_def)
  note fr = tree_frame [OF ok(1) same]
  have "pt_inv R (kheap s') F' tab" using inv ok(2,3) fr(1) F by (auto simp: pt_inv_def)
  moreover have "clist (klinks s') (mm_segments mp) (seg_nodes sl)" using clist_frame [OF links] d(4) by simp
  moreover have "segs s' a = Some sg \<and> maps_segment (fst (kheap s')) tab sg ps \<and> aligned 6 a \<and> blk 6 a \<subseteq> R - F'"
    if "(a, sg, ps) \<in> set sl" for a sg ps
    using d(5) [OF that] stores(2) that maps_segment_cong [of "fst (kheap s')" tab "fst (kheap s)" tab] fr(2) F by auto
  ultimately show ?thesis using d stores(1) F fr(2) unfolding space_def by auto
qed

text \<open>
  An address space depends only on the memory it owns: it can be seen in another region, with other
  free memory, as long as these leave alone what it owns.
\<close>

lemma space_elsewhere:
  assumes sp: "space R0 F0 s mp root tab sl" and inv: "buddy_inv R (kheap s') F" "in_window R"
    and own: "R0 - F0 \<subseteq> R" "(R0 - F0) \<inter> F = {}"
    and same: "same_outside S (fst (kheap s)) (fst (kheap s'))" "(R0 - F0) \<inter> S = {}"
    and links: "links_same_outside T (klinks s) (klinks s')" "(R0 - F0) \<inter> T = {}"
    and stores: "\<forall>a \<in> R0 - F0. segs s' a = segs s a \<and> mms s' a = mms s a"
  shows "space R F s' mp root tab sl"
proof -
  note d = spaceD [OF sp]
  have ok: "tree_ok (fst (kheap s)) tab" "page_set (ran tab) \<subseteq> R0 - F0" using d(1) by (auto simp: pt_inv_def)
  have "page_set (ran tab) \<inter> S = {}" using ok(2) same(2) by blast
  note fr = tree_frame [OF ok(1) same(1) this]
  have "set (mm_segments mp # seg_nodes sl) \<inter> T = {}" using space_nodes [OF sp] links(2) by blast
  then have l: "clist (klinks s') (mm_segments mp) (seg_nodes sl)" using clist_frame [OF links(1)] d(4) by simp
  have pt: "pt_inv R (kheap s') F tab" using inv ok(2) own fr(1) by (auto simp: pt_inv_def)
  have "segs s' a = Some sg \<and> maps_segment (fst (kheap s')) tab sg ps \<and> aligned 6 a \<and> blk 6 a \<subseteq> R - F"
    if x: "(a, sg, ps) \<in> set sl" for a sg ps
  proof -
    have a: "blk 6 a \<subseteq> R0 - F0" using d(5) [OF x] by simp
    then have "segs s' a = segs s a" using stores self_in_blk by blast
    then show ?thesis using d(5) [OF x] a own fr(2) maps_segment_cong [of "fst (kheap s')" tab "fst (kheap s)" tab] by auto
  qed
  moreover have "mp \<in> R0 - F0" using d(7) self_in_blk by blast
  then have "mms s' mp = Some root" using stores d(2) by simp
  moreover have "blk 5 mp \<subseteq> R - F" "page_set (set (frames_of sl)) \<subseteq> R - F - page_set (ran tab)" using d(7,11) own by blast+
  ultimately show ?thesis using d(3,6,8-10,12) l pt fr(2) unfolding space_def by auto
qed

text \<open>Taking a block for a struct.\<close>

lemma pages_free_block:
  assumes "pages_free F (Suc n)" and k: "k \<le> 12"
  shows "pages_free (F - blk k b) n"
proof -
  obtain P where P: "finite P" "card P = Suc n" "\<forall>q \<in> P. q < 2 ^ 44" "page_set P \<subseteq> F"
    using assms(1) by (auto simp: pages_free_def)
  define Q where "Q = {q \<in> P. blk 12 (page_va q) \<inter> blk k b = {}}"
  have meets: "blk 12 (page_va q) \<inter> blk k b \<noteq> {}" if "q \<in> P - Q" for q using that by (simp add: Q_def)
  have one: "q = r" if qr: "q \<in> P - Q" "r \<in> P - Q" for q r
  proof (rule ccontr)
    assume "q \<noteq> r"
    then have d: "blk 12 (page_va q) \<inter> blk 12 (page_va r) = {}" using that P(3) by (intro pages_disjoint) (auto simp: Q_def)
    obtain x y where x: "x \<in> blk 12 (page_va q)" "x \<in> blk k b" and y: "y \<in> blk 12 (page_va r)" "y \<in> blk k b"
      using meets [OF qr(1)] meets [OF qr(2)] by blast
    have "blk k b \<subseteq> blk 12 b" using blk_mono [OF k] .
    then have "x \<in> blk 12 b" "y \<in> blk 12 b" using x y by blast+
    then have "blk 12 (page_va q) = blk 12 (page_va r)" using blk_eq x(1) y(1) by metis
    with d show False using x(1) by blast
  qed
  have "card (P - Q) \<le> 1"
  proof (cases "P - Q = {}")
    case False
    then obtain q where "q \<in> P - Q" by blast
    then have "P - Q = {q}" using one by blast
    then show ?thesis by simp
  next
    case True
    then show ?thesis by (simp only: card.empty)
  qed
  moreover have "card (P - Q) = card P - card Q" using P(1) by (intro card_Diff_subset) (auto simp: Q_def)
  moreover have "card Q \<le> card P" using P(1) by (intro card_mono) (auto simp: Q_def)
  ultimately have "n \<le> card Q" using P(2) by simp
  moreover have "page_set Q \<subseteq> F - blk k b" using P(4) by (auto simp: page_set_def Q_def)
  ultimately have "pages_free (F - blk k b) (card Q)" using P(1,3) unfolding pages_free_def
    by (intro exI [of _ Q]) (auto simp: Q_def)
  then show ?thesis by (rule pages_free_less) fact
qed

lemma block_available:
  assumes "pages_free F (Suc n)" and "k \<le> 12"
  shows "\<exists>b. blk k b \<subseteq> F"
proof -
  obtain P where P: "card P = Suc n" "page_set P \<subseteq> F" using assms(1) by (auto simp: pages_free_def)
  then obtain q where "q \<in> P" by fastforce
  then have "blk k (page_va q) \<subseteq> F" using page_in_set P(2) blk_mono [OF assms(2)] by blast
  then show ?thesis ..
qed


lemma struct_orders: "size_order sizeof_segment = 6" "size_order sizeof_memory_map = 5"
  using req_order_eq [of 6 48] small_orders(2)
  by (simp_all add: size_order_req sizeof_segment_def sizeof_memory_map_def)

text \<open>The struct of a segment, with the node in it.\<close>

lemma new_segment_spec:
  assumes inv: "buddy_inv R (kheap s) F"
  shows "case new_segment s (start_va sg) (end_va sg) (seg_flags sg) (seg_type sg) of
      Inl e \<Rightarrow> e = Panic ''Not enough memory!'' \<and> \<not> pages_free F 1
    | Inr (b, s') \<Rightarrow> aligned 6 b \<and> blk 6 b \<subseteq> F \<and> buddy_inv R (kheap s') (F - blk 6 b) \<and>
        same_outside F (fst (kheap s)) (fst (kheap s')) \<and> s' = s\<lparr>kheap := kheap s', segs := (segs s)(b \<mapsto> sg),
          klinks := INIT_LIST_HEAD (klinks s) (seg_list b)\<rparr>"
proof -
  have "\<exists>b. blk 6 b \<subseteq> F" if "pages_free F 1" using block_available [of F 0 6] that by simp
  moreover have eq: "\<lparr>start_va = start_va sg, end_va = end_va sg, seg_flags = seg_flags sg, seg_type = seg_type sg\<rparr> = sg"
    by (cases sg) simp
  ultimately show ?thesis
    using alloc_spec [OF inv, of sizeof_segment] struct_orders(1)
    unfolding new_segment_def eq by (auto split: sum.splits)
qed

section \<open>Mapping the copy of a segment\<close>

lemma data_ok_0: "data_ok 0 0 S"
  by (simp add: data_ok_def)

lemma data_ok_mono: "data_ok data len S \<Longrightarrow> S' \<subseteq> S \<Longrightarrow> data_ok data len S'"
  by (auto simp: data_ok_def)

lemma seg_byte_same: "data_ok data len S \<Longrightarrow> same_outside S m m' \<Longrightarrow> seg_byte m' data len = seg_byte m data len"
proof (rule ext)
  fix k assume d: "data_ok data len S" and m: "same_outside S m m'"
  have "data + of_nat k \<notin> S" if "data \<noteq> 0" "k < unat len"
  proof -
    have "unat (of_nat k :: u64) = k" using that(2) unsigned_less [of len, where ?'a = nat] by (simp add: unat_of_nat)
    then have "data + of_nat k \<in> bytes_at data (unat len)" using that(2) by (simp add: bytes_at_def)
    then show ?thesis using d that(1) by (auto simp: data_ok_def)
  qed
  then show "seg_byte m' data len k = seg_byte m data len k" using m by (simp add: seg_byte_def same_outside_def)
qed

lemma map_piece:
  assumes inv: "pt_inv R h F tab" and root: "tab [] = Some root"
    and dist: "distinct (map (take_bit 27) (seg_vpns sg))"
    and flags: "seg_flags sg < 2 ^ 10" "seg_flags sg AND (PAGE_READ OR PAGE_WRITE OR PAGE_EXEC) \<noteq> 0"
    and data: "data_ok data len (F \<union> page_set (ran tab))" "data = 0 \<or> seg_type sg = Framed"
  shows "case map_segment h root sg data len of
      Inl e \<Rightarrow> e = Panic ''Not enough memory!'' \<and> \<not> pages_free F (3 * length (seg_vpns sg)) \<or>
        e = already_mapped \<and> (\<exists>v \<in> set (seg_vpns sg). leaf (fst h) tab v \<noteq> 0)
    | Inr h' \<Rightarrow> \<exists>F' tab' qs. evolved R h F tab h' F' tab' (set qs) \<and> distinct qs \<and>
        maps_segment (fst h') tab' sg qs \<and> pages_hold (fst h') qs (seg_byte (fst h) data len) \<and>
        (\<forall>v. take_bit 27 v \<notin> take_bit 27 ` set (seg_vpns sg) \<longrightarrow> leaf (fst h') tab' v = leaf (fst h) tab v) \<and>
        (\<forall>v. take_bit 27 v \<in> take_bit 27 ` set (seg_vpns sg) \<longrightarrow> \<not> is_table (leaf (fst h') tab' v)) \<and>
        (\<forall>n. pages_free F (3 * length (seg_vpns sg) + n) \<longrightarrow> pages_free F' n)"
proof -
  have fewer: "pages_free F (2 * length (seg_vpns sg) + n)" if "pages_free F (3 * length (seg_vpns sg) + n)" for n
    by (rule pages_free_less [OF that]) simp
  have table: "\<not> is_table (leaf m t v)"
    if all: "\<forall>w \<in> set (seg_vpns sg). \<exists>p. leaf m t w = PPN2PTE p (seg_flags sg)" and v: "take_bit 27 v \<in> take_bit 27 ` set (seg_vpns sg)"
    for m t v
  proof -
    obtain w where w: "w \<in> set (seg_vpns sg)" "take_bit 27 v = take_bit 27 w" using v by blast
    then have "leaf m t v = leaf m t w" using levels_eq_iff [of v w] by (simp add: leaf_def cong: option.case_cong)
    with all w(1) leaf_not_table [OF flags(2)] show ?thesis by metis
  qed
  show ?thesis
  proof (cases "seg_type sg")
    case Framed
    note sp = map_segment_loop_framed [OF Framed inv root dist data(1)]
    show ?thesis
    proof (cases "map_segment h root sg data len")
      case (Inl e)
      with sp show ?thesis by (auto simp: map_segment_def)
    next
      case (Inr h')
      then obtain F' tab' qs where q: "distinct qs" "evolved R h F tab h' F' tab' (set qs)"
        "mapped (leaf (fst h) tab) (seg_vpns sg) (map (\<lambda>p. PPN2PTE p (seg_flags sg)) qs) (leaf (fst h') tab')"
        "\<forall>n. pages_free F (3 * length (seg_vpns sg) + n) \<longrightarrow> pages_free F' n"
        "pages_hold (fst h') qs (seg_byte (fst h) data len)"
        using sp unfolding map_segment_def by auto
      have len: "length qs = length (seg_vpns sg)" using q(3) by (simp add: mapped_def)
      have lf: "leaf (fst h') tab' (seg_vpns sg ! i) = PPN2PTE (qs ! i) (seg_flags sg)" if "i < length (seg_vpns sg)" for i
        using mapped_nth [OF q(3) dist that] that len by simp
      then have la: "list_all2 (\<lambda>v p. leaf (fst h') tab' v = PPN2PTE p (seg_flags sg)) (seg_vpns sg) qs"
        using len by (simp add: list_all2_conv_all_nth)
      have ex: "\<forall>w \<in> set (seg_vpns sg). \<exists>p. leaf (fst h') tab' w = PPN2PTE p (seg_flags sg)"
        using lf by (metis in_set_conv_nth)
      have "maps_segment (fst h') tab' sg qs" using la Framed flags by (simp add: maps_segment_def)
      then show ?thesis using q(1,2,4,5) mapped_other [OF q(3)] table [OF ex] unfolding Inr sum.case by blast
    qed
  next
    case Linear
    then have d0: "data = 0" using data(2) by simp
    note sp = map_segment_loop_linear [OF Linear inv root dist, of len]
    show ?thesis
    proof (cases "map_segment h root sg data len")
      case (Inl e)
      with sp fewer [of 0] d0 show ?thesis by (auto simp: map_segment_def)
    next
      case (Inr h')
      then have m: "map_segment_loop h root sg (seg_vpns sg) 0 len = Inr h'" using d0 by (simp add: map_segment_def)
      obtain F' tab' where q: "evolved R h F tab h' F' tab' {}"
        "mapped (leaf (fst h) tab) (seg_vpns sg) (map (\<lambda>v. PPN2PTE (ppn_of v) (seg_flags sg)) (seg_vpns sg))
          (leaf (fst h') tab')"
        "\<forall>n. pages_free F (2 * length (seg_vpns sg) + n) \<longrightarrow> pages_free F' n"
        using sp unfolding m sum.case by blast
      have lf: "leaf (fst h') tab' w = PPN2PTE (ppn_of w) (seg_flags sg)" if "w \<in> set (seg_vpns sg)" for w
      proof -
        obtain i where i: "i < length (seg_vpns sg)" "seg_vpns sg ! i = w" using \<open>w \<in> _\<close> by (auto simp: in_set_conv_nth)
        from mapped_nth [OF q(2) dist i(1)] i show ?thesis by simp
      qed
      then have ex: "\<forall>w \<in> set (seg_vpns sg). \<exists>p. leaf (fst h') tab' w = PPN2PTE p (seg_flags sg)" by blast
      have "maps_segment (fst h') tab' sg []" using lf Linear flags by (simp add: maps_segment_def)
      moreover have "\<forall>n. pages_free F (3 * length (seg_vpns sg) + n) \<longrightarrow> pages_free F' n" using q(3) fewer by blast
      moreover have "evolved R h F tab h' F' tab' (set [])" "distinct ([] :: u64 list)"
        "pages_hold (fst h') [] (seg_byte (fst h) data len)" using q(1) by (simp_all add: pages_hold_def)
      ultimately show ?thesis using mapped_other [OF q(2)] table [OF ex] unfolding Inr sum.case by blast
    qed
  qed
qed

section \<open>Copying the pages\<close>

definition same_page :: "mem \<Rightarrow> mem \<Rightarrow> u64 \<Rightarrow> u64 \<Rightarrow> bool" where
  "same_page m m' p q \<longleftrightarrow> (\<forall>x \<in> blk 12 (page_va q). m' x = m (page_va p + (x - page_va q)))"

lemma page_offset:
  assumes "x \<in> blk 12 (page_va q)"
  shows "page_va p + (x - page_va q) \<in> blk 12 (page_va p)"
proof -
  have "x \<in> bytes_at (page_va q) (2 ^ 12)" using assms bytes_at_blk [of 12 "page_va q"] by simp
  then have "unat (x - page_va q) < 2 ^ 12" by (simp add: bytes_at_def)
  then have "page_va p + of_nat (unat (x - page_va q)) \<in> blk 12 (page_va p)" by (intro in_block) simp_all
  then show ?thesis by simp
qed

lemma copy_page:
  assumes "blk 12 (page_va p) \<inter> blk 12 (page_va q) = {}"
  shows "same_page m (copy_bytes 4096 m (page_va q) (page_va p)) p q"
    and "same_outside (blk 12 (page_va q)) m (copy_bytes 4096 m (page_va q) (page_va p))"
proof -
  have b: "bytes_at (page_va r) 4096 = blk 12 (page_va r)" for r using bytes_at_blk [of 12 "page_va r"] by simp
  show "same_page m (copy_bytes 4096 m (page_va q) (page_va p)) p q"
    using assms copy_bytes_apply [of 4096 "page_va p" "page_va q" m] by (simp add: same_page_def b)
  show "same_outside (blk 12 (page_va q)) m (copy_bytes 4096 m (page_va q) (page_va p))"
    using copy_bytes_same [of 4096 "page_va q" m "page_va p"] by (simp add: b)
qed

lemma lookup_leaf:
  assumes "tree_ok m tab" and "tab [] = Some root" and "leaf m tab v = PPN2PTE p fl" and "p < 2 ^ 44" and "fl < 2 ^ 10"
    and "fl AND (PAGE_READ OR PAGE_WRITE OR PAGE_EXEC) \<noteq> 0" and "in_window R" and "page_set (ran tab) \<subseteq> R"
  obtains e where "find_entry (m, b) root v False = Inr (e, m, b)" and "e \<noteq> 0" and "va_of (PTE2PA (load64 m e)) = page_va p"
proof -
  have nz: "leaf m tab v \<noteq> 0" using flags_nonzero [OF assms(6)] assms(3) by simp
  then obtain q where q: "tab (levels_path v) = Some q" by (auto simp: leaf_def split: option.splits)
  let ?e = "entry_addr (page_va q) (get_vpn_levels v ! 0)"
  have "q \<in> ran tab" using q by (rule ranI)
  then have "blk 12 (page_va q) \<subseteq> R" using page_in_set assms(8) by blast
  then have "?e \<noteq> 0" using nonnull_page(2) [OF assms(7)] level_less [of 0 v] by simp
  moreover have "load64 m ?e = PPN2PTE p fl" using q assms(3) by (simp add: leaf_def)
  moreover have "find_entry (m, b) root v False = Inr (?e, m, b)"
    using find_entry_lookup [of "(m, b)" tab root v] assms(1,2) q by simp
  ultimately show thesis using that PTE2PA_PPN2PTE [OF assms(4,5)] by simp
qed

lemma same_page_frame:
  assumes "same_page m m' p q" and "\<forall>x \<in> blk 12 (page_va p). m1 x = m x" and "\<forall>x \<in> blk 12 (page_va q). m2 x = m' x"
  shows "same_page m1 m2 p q"
  using assms page_offset by (simp add: same_page_def)

lemma copy_pages_spec:
  assumes "tree_ok (fst h) stab" and "tree_ok (fst h) dtab"
    and roots: "stab [] = Some sroot" "dtab [] = Some droot"
    and win: "in_window R" "page_set (ran stab) \<subseteq> R" "page_set (ran dtab) \<subseteq> R"
    and fl: "fl < 2 ^ 10" "fl AND (PAGE_READ OR PAGE_WRITE OR PAGE_EXEC) \<noteq> 0"
    and "list_all2 (\<lambda>v p. leaf (fst h) stab v = PPN2PTE p fl) vpns ps"
    and "list_all2 (\<lambda>v q. leaf (fst h) dtab v = PPN2PTE q fl) vpns qs"
    and "\<forall>p \<in> set ps. p < 2 ^ 44" and "\<forall>q \<in> set qs. q < 2 ^ 44" and "distinct qs"
    and "page_set (set qs) \<inter> (page_set (set ps) \<union> page_set (ran stab) \<union> page_set (ran dtab)) = {}"
  shows "\<exists>m'. copy_pages h sroot droot vpns = Inr (m', snd h) \<and>
    same_outside (page_set (set qs)) (fst h) m' \<and> list_all2 (same_page (fst h) m') ps qs"
  using assms(1,2,10-)
proof (induction vpns arbitrary: h ps qs)
  case Nil
  then show ?case by (cases h) simp
next
  case (Cons v vpns)
  obtain p ps' q qs' where eq: "ps = p # ps'" "qs = q # qs'" using Cons.prems(3,4) by (auto simp: list_all2_Cons1)
  obtain m b where h: "h = (m, b)" by (cases h)
  have lv: "leaf m stab v = PPN2PTE p fl" "leaf m dtab v = PPN2PTE q fl" "p < 2 ^ 44" "q < 2 ^ 44"
    using Cons.prems(3-6) by (simp_all add: eq h)
  have trees: "tree_ok m stab" "tree_ok m dtab" using Cons.prems(1,2) by (simp_all add: h)
  obtain e1 where e1: "find_entry (m, b) sroot v False = Inr (e1, m, b)" "e1 \<noteq> 0" "va_of (PTE2PA (load64 m e1)) = page_va p"
    by (rule lookup_leaf [OF trees(1) roots(1) lv(1,3) fl win(1,2)])
  obtain e2 where e2: "find_entry (m, b) droot v False = Inr (e2, m, b)" "e2 \<noteq> 0" "va_of (PTE2PA (load64 m e2)) = page_va q"
    by (rule lookup_leaf [OF trees(2) roots(2) lv(2,4) fl win(1,3)])
  let ?m1 = "copy_bytes 4096 m (page_va q) (page_va p)"
  have run: "copy_pages h sroot droot (v # vpns) = copy_pages (?m1, b) sroot droot vpns"
    using e1 e2 by (simp add: h Let_def)
  have ap: "blk 12 (page_va q) \<inter> (page_set (set ps) \<union> page_set (ran stab) \<union> page_set (ran dtab)) = {}"
    "page_set (set qs') \<inter> (page_set (set ps) \<union> page_set (ran stab) \<union> page_set (ran dtab)) = {}"
    using Cons.prems(8) by (auto simp: eq)
  have pq: "blk 12 (page_va p) \<inter> blk 12 (page_va q) = {}" using ap(1) by (auto simp: eq)
  note cp = copy_page [OF pq, of m]
  note fs = tree_frame [OF trees(1) cp(2)] and fd = tree_frame [OF trees(2) cp(2)]
  have t1: "tree_ok ?m1 stab" "tree_ok ?m1 dtab" and l1: "leaf ?m1 stab w = leaf m stab w" "leaf ?m1 dtab w = leaf m dtab w" for w
    using fs fd ap(1) by blast+
  have la: "list_all2 (\<lambda>v p. leaf ?m1 stab v = PPN2PTE p fl) vpns ps'" "list_all2 (\<lambda>v q. leaf ?m1 dtab v = PPN2PTE q fl) vpns qs'"
    using Cons.prems(3,4) l1 by (simp_all add: eq h)
  have rest: "\<forall>p \<in> set ps'. p < 2 ^ 44" "\<forall>q \<in> set qs'. q < 2 ^ 44" "distinct qs'"
    "page_set (set qs') \<inter> (page_set (set ps') \<union> page_set (ran stab) \<union> page_set (ran dtab)) = {}"
    using Cons.prems(5-7) ap(2) by (auto simp: eq)
  from Cons.IH [of "(?m1, b)" ps' qs'] t1 la rest
  obtain m' where m': "copy_pages (?m1, b) sroot droot vpns = Inr (m', b)" "same_outside (page_set (set qs')) ?m1 m'"
    "list_all2 (same_page ?m1 m') ps' qs'" by auto
  have qq: "blk 12 (page_va q) \<inter> page_set (set qs') = {}"
  proof -
    have "blk 12 (page_va q) \<inter> blk 12 (page_va r) = {}" if "r \<in> set qs'" for r
      by (rule pages_disjoint) (use that Cons.prems(6,7) in \<open>auto simp: eq\<close>)
    then show ?thesis by (auto simp: page_set_def)
  qed
  have "same_page m m' p q"
    by (rule same_page_frame [OF cp(1)]) (use m'(2) qq in \<open>auto simp: same_outside_def\<close>)
  moreover have "list_all2 (same_page m m') ps' qs'"
  proof (rule list.rel_mono_strong [OF m'(3)])
    fix r t assume r: "r \<in> set ps'" "same_page ?m1 m' r t"
    have "blk 12 (page_va r) \<inter> blk 12 (page_va q) = {}" using ap(1) page_in_set [of r "set ps"] r(1) by (auto simp: eq)
    then have "\<forall>x \<in> blk 12 (page_va r). m x = ?m1 x" using cp(2) by (auto simp: same_outside_def)
    with r(2) show "same_page m m' r t" by (rule same_page_frame) simp
  qed
  moreover have "same_outside (page_set (set qs)) m m'"
    by (rule same_outside_trans [OF same_outside_mono [OF cp(2)] same_outside_mono [OF m'(2)]]) (auto simp: eq)
  ultimately show ?case using m'(1) unfolding run by (simp add: eq h)
qed

section \<open>What a copy leaves alone\<close>

text \<open>
  Only the memory in \<open>F\<close>, the nodes and the structs with an address in \<open>F\<close> have changed: every address
  space that is there when \<open>F\<close> is free is still there.
\<close>

definition vm_kept :: "addr set \<Rightarrow> 'a vm_scheme \<Rightarrow> 'a vm_scheme \<Rightarrow> bool" where
  "vm_kept F s s' \<longleftrightarrow> same_outside F (fst (kheap s)) (fst (kheap s')) \<and> links_same_outside F (klinks s) (klinks s') \<and>
     (\<forall>a. a \<notin> F \<longrightarrow> segs s' a = segs s a \<and> mms s' a = mms s a)"

text \<open>Nothing but heap, links, segments and maps has changed at all.\<close>

definition kept :: "addr set \<Rightarrow> 'a vm_scheme \<Rightarrow> 'a vm_scheme \<Rightarrow> bool" where
  "kept F s s' \<longleftrightarrow> same_outside F (fst (kheap s)) (fst (kheap s')) \<and> links_same_outside F (klinks s) (klinks s') \<and>
     (\<forall>a. a \<notin> F \<longrightarrow> segs s' a = segs s a \<and> mms s' a = mms s a) \<and>
     s' = s\<lparr>kheap := kheap s', klinks := klinks s', segs := segs s', mms := mms s'\<rparr>"

lemma kept_refl [simp]: "kept F s s"
  by (simp add: kept_def)

lemma kept_trans:
  assumes "kept F s s1" and "kept F s1 s2"
  shows "kept F s s2"
proof -
  have "s2 = (s\<lparr>kheap := kheap s1, klinks := klinks s1, segs := segs s1, mms := mms s1\<rparr>)
      \<lparr>kheap := kheap s2, klinks := klinks s2, segs := segs s2, mms := mms s2\<rparr>"
    using assms unfolding kept_def by metis
  also have "\<dots> = s\<lparr>kheap := kheap s2, klinks := klinks s2, segs := segs s2, mms := mms s2\<rparr>" by simp
  finally have eq: "s2 = \<dots>" .
  have "same_outside F (fst (kheap s)) (fst (kheap s2))" "links_same_outside F (klinks s) (klinks s2)"
    using assms same_outside_trans links_same_trans unfolding kept_def by blast+
  moreover have "\<forall>a. a \<notin> F \<longrightarrow> segs s2 a = segs s a \<and> mms s2 a = mms s a"
    using assms unfolding kept_def by metis
  ultimately show ?thesis using eq unfolding kept_def by blast
qed

lemma kept_mono: "kept F s s' \<Longrightarrow> F \<subseteq> G \<Longrightarrow> kept G s s'"
  unfolding kept_def using same_outside_mono links_same_mono by blast

lemma space_vm_kept:
  assumes sp: "space R F s mp root tab sl" and k: "vm_kept F s s'" and inv: "buddy_inv R (kheap s') F'" "F' \<subseteq> F"
  shows "space R F' s' mp root tab sl"
proof (rule space_frame [OF sp inv])
  note d = spaceD [OF sp]
  show "same_outside F (fst (kheap s)) (fst (kheap s'))" "links_same_outside F (klinks s) (klinks s')"
    using k by (simp_all add: vm_kept_def)
  show "page_set (ran tab) \<inter> F = {}" using d(1) by (auto simp: pt_inv_def)
  show "set (mm_segments mp # seg_nodes sl) \<inter> F = {}" using space_nodes [OF sp] by blast
  have "mp \<notin> F" using d(7) self_in_blk [of mp 5] by blast
  then show "mms s' mp = mms s mp" using k by (simp add: vm_kept_def)
  have "a \<notin> F" if "(a, sg, ps) \<in> set sl" for a sg ps using d(5) [OF that] self_in_blk [of a 6] by blast
  then show "\<forall>(a, sg, ps) \<in> set sl. segs s' a = segs s a" using k by (auto simp: vm_kept_def)
qed

lemma kept_vm: "kept F s s' \<Longrightarrow> vm_kept F s s'"
  by (simp add: kept_def vm_kept_def)

lemma space_kept:
  assumes "space R F s mp root tab sl" and "kept F s s'" and "buddy_inv R (kheap s') F'" and "F' \<subseteq> F"
  shows "space R F' s' mp root tab sl"
  by (rule space_vm_kept [OF assms(1) kept_vm [OF assms(2)] assms(3,4)])

lemma vm_kept_refl [simp]: "vm_kept F s s"
  by (simp add: vm_kept_def)

lemma vm_kept_trans: "vm_kept F s s1 \<Longrightarrow> vm_kept F s1 s2 \<Longrightarrow> vm_kept F s s2"
  unfolding vm_kept_def using same_outside_trans links_same_trans by (metis (no_types, lifting))

lemma vm_kept_mono: "vm_kept F s s' \<Longrightarrow> F \<subseteq> G \<Longrightarrow> vm_kept G s s'"
  unfolding vm_kept_def using same_outside_mono links_same_mono by blast

section \<open>Adding a segment to an address space\<close>

lemma maps_segment_same:
  assumes "maps_segment m tab sg ps" and "\<forall>v \<in> set (seg_vpns sg). leaf m' tab' v = leaf m tab v"
  shows "maps_segment m' tab' sg ps"
proof (cases "seg_type sg")
  case Framed
  then show ?thesis using assms by (auto simp: maps_segment_def list_all2_conv_all_nth)
next
  case Linear
  then show ?thesis using assms by (auto simp: maps_segment_def)
qed

text \<open>The tables grow and new pages are mapped.\<close>

lemma space_extend:
  assumes sp: "space R F s mp root tab sl" and ev: "evolved R (kheap s) F tab h F' tab' N"
    and new: "\<forall>v. take_bit 27 v \<notin> V \<longrightarrow> leaf (fst h) tab' v = leaf (fst (kheap s)) tab v"
      "\<forall>v. take_bit 27 v \<in> V \<longrightarrow> \<not> is_table (leaf (fst h) tab' v)"
    and apart: "take_bit 27 ` set (vpns_of sl) \<inter> V = {}"
  shows "space R F' (s\<lparr>kheap := h\<rparr>) mp root tab' sl"
proof -
  note d = spaceD [OF sp] and e = evolvedD [OF ev]
  have F: "F' \<subseteq> F" using e(3) by blast
  have pieces: "maps_segment (fst h) tab' sg ps" if x: "(a, sg, ps) \<in> set sl" for a sg ps
  proof (rule maps_segment_same)
    show "maps_segment (fst (kheap s)) tab sg ps" using d(5) [OF x] by simp
    show "\<forall>v \<in> set (seg_vpns sg). leaf (fst h) tab' v = leaf (fst (kheap s)) tab v"
    proof
      fix v assume "v \<in> set (seg_vpns sg)"
      then have "v \<in> set (vpns_of sl)" using x by (force simp: vpns_of_def)
      then show "leaf (fst h) tab' v = leaf (fst (kheap s)) tab v" using new(1) apart by blast
    qed
  qed
  have "segs s a = Some sg \<and> maps_segment (fst h) tab' sg ps \<and> aligned 6 a \<and> blk 6 a \<subseteq> R - F'"
    if x: "(a, sg, ps) \<in> set sl" for a sg ps
    using d(5) [OF x] pieces [OF x] F by blast
  moreover have "blk 5 mp \<subseteq> R - F'" using d(7) F by blast
  moreover have "page_set (set (frames_of sl)) \<subseteq> R - F' - page_set (ran tab')" using d(11) e(4) F by blast
  moreover have "\<not> is_table (leaf (fst h) tab' v)" for v using new d(12) by (cases "take_bit 27 v \<in> V") simp_all
  ultimately show ?thesis
    using d(2-4,6,8-10) e(1) pt_root [OF d(3) e(2)] unfolding space_def by auto
qed

text \<open>A mapped segment enters the list.\<close>

lemma space_insert:
  assumes sp: "space R F s mp root tab sl" and seg: "segs s b = Some sg" "maps_segment (fst (kheap s)) tab sg qs"
    and b: "aligned 6 b" "blk 6 b \<subseteq> R - F" "seg_list b \<notin> set (mm_segments mp # seg_nodes sl)"
    and vpns: "distinct (map (take_bit 27) (vpns_of sl @ seg_vpns sg))"
    and qs: "distinct (frames_of sl @ qs)" "\<forall>q \<in> set qs. q < 2 ^ 44" "page_set (set qs) \<subseteq> R - F - page_set (ran tab)"
  shows "space R F (s\<lparr>klinks := list_add_tail (klinks s) (seg_list b) (mm_segments mp)\<rparr>) mp root tab (sl @ [(b, sg, qs)])"
    and "space R F (s\<lparr>klinks := list_add (klinks s) (seg_list b) (mm_segments mp)\<rparr>) mp root tab ((b, sg, qs) # sl)"
proof -
  note d = spaceD [OF sp]
  show "space R F (s\<lparr>klinks := list_add_tail (klinks s) (seg_list b) (mm_segments mp)\<rparr>) mp root tab (sl @ [(b, sg, qs)])"
    using clist_add_tail(1) [OF d(4) b(3)] d seg b vpns qs unfolding space_def by (auto simp: page_set_Un)
  show "space R F (s\<lparr>klinks := list_add (klinks s) (seg_list b) (mm_segments mp)\<rparr>) mp root tab ((b, sg, qs) # sl)"
    using clist_add(1) [OF d(4) b(3)] d seg b vpns qs unfolding space_def by (auto simp: page_set_Un)
qed

section \<open>Copying one segment\<close>

text \<open>
  On the way from \<open>s0\<close>, where \<open>F0\<close> was free, to \<open>s\<close>: the memory taken since is in the tables and frames of
  the new address space, and in \<open>St\<close>, the blocks of its structs.
\<close>

definition copying ::
  "addr set \<Rightarrow> addr set \<Rightarrow> 'a vm_scheme \<Rightarrow> addr \<Rightarrow> usize \<Rightarrow> addr set \<Rightarrow> 'a vm_scheme \<Rightarrow> tree \<Rightarrow> piece list \<Rightarrow> addr set \<Rightarrow> bool"
  where
  "copying R F0 s0 dst droot F s dtab dl St \<longleftrightarrow>
     space R F s dst droot dtab dl \<and> kept F0 s0 s \<and>
     F \<union> page_set (ran dtab) \<union> page_set (set (frames_of dl)) \<union> St = F0 \<and>
     St \<inter> (F \<union> page_set (ran dtab) \<union> page_set (set (frames_of dl))) = {} \<and>
     set (mm_segments dst # seg_nodes dl) \<subseteq> St"

lemma copyingD:
  assumes "copying R F0 s0 dst droot F s dtab dl St"
  shows "space R F s dst droot dtab dl" and "kept F0 s0 s"
    and "F \<union> page_set (ran dtab) \<union> page_set (set (frames_of dl)) \<union> St = F0"
    and "St \<inter> (F \<union> page_set (ran dtab) \<union> page_set (set (frames_of dl))) = {}"
    and "set (mm_segments dst # seg_nodes dl) \<subseteq> St" and "buddy_inv R (kheap s) F" and "F \<subseteq> F0"
  using assms spaceD(1) [of R F s dst droot dtab dl] unfolding copying_def pt_inv_def by blast+

lemma new_struct:
  assumes inv: "buddy_inv R (kheap s) F" and new: "new_segment s (start_va sg) (end_va sg) (seg_flags sg) (seg_type sg) = Inr (b, s1)"
  shows "kept F s s1" and "buddy_inv R (kheap s1) (F - blk 6 b)" and "aligned 6 b" and "blk 6 b \<subseteq> F"
    and "segs s1 = (segs s)(b \<mapsto> sg)" and "mms s1 = mms s" and "seg_list b \<in> blk 6 b"
proof -
  have n: "aligned 6 b" "blk 6 b \<subseteq> F" "buddy_inv R (kheap s1) (F - blk 6 b)"
    "same_outside F (fst (kheap s)) (fst (kheap s1))"
    and s1: "s1 = s\<lparr>kheap := kheap s1, segs := (segs s)(b \<mapsto> sg), klinks := INIT_LIST_HEAD (klinks s) (seg_list b)\<rparr>"
    using new_segment_spec [OF inv, of sg] new by auto
  show node: "seg_list b \<in> blk 6 b" by (rule node_in_block(1) [OF n(1)])
  have sel: "segs s1 = (segs s)(b \<mapsto> sg)" "klinks s1 = INIT_LIST_HEAD (klinks s) (seg_list b)" "mms s1 = mms s"
    by (subst s1, simp)+
  have eq: "s1 = s\<lparr>kheap := kheap s1, klinks := klinks s1, segs := segs s1, mms := mms s1\<rparr>"
    unfolding sel by (subst s1) simp
  have "links_same_outside F (klinks s) (klinks s1)"
    unfolding sel by (rule links_same_mono [OF init_same]) (use node n(2) in blast)
  moreover have "b \<in> F" using n(2) self_in_blk by blast
  then have "\<forall>a. a \<notin> F \<longrightarrow> segs s1 a = segs s a \<and> mms s1 a = mms s a" using sel by auto
  ultimately show "kept F s s1" using n(4) eq unfolding kept_def by blast
  show "buddy_inv R (kheap s1) (F - blk 6 b)" "aligned 6 b" "blk 6 b \<subseteq> F" "segs s1 = (segs s)(b \<mapsto> sg)"
    "mms s1 = mms s" using n sel by simp_all
qed

lemma kept_kheap: "same_outside F (fst (kheap s)) (fst h) \<Longrightarrow> kept F s (s\<lparr>kheap := h\<rparr>)"
  by (simp add: kept_def)

lemma kept_klinks: "links_same_outside F (klinks s) l \<Longrightarrow> kept F s (s\<lparr>klinks := l\<rparr>)"
  by (simp add: kept_def)

text \<open>The struct of the copy is made and its pages are mapped.\<close>

lemma copy_struct:
  assumes c: "copying R F0 s0 dst droot F s dtab dl St"
    and flags: "seg_flags sg < 2 ^ 10" "seg_flags sg AND (PAGE_READ OR PAGE_WRITE OR PAGE_EXEC) \<noteq> 0"
    and new: "\<forall>v \<in> set (seg_vpns sg). leaf (fst (kheap s)) dtab v = 0"
    and dist: "distinct (map (take_bit 27) (seg_vpns sg))"
    and data: "data_ok data len (F \<union> page_set (ran dtab))" "data = 0 \<or> seg_type sg = Framed"
  shows "case bindE (new_segment s (start_va sg) (end_va sg) (seg_flags sg) (seg_type sg)) (\<lambda>(b, s).
        bindE (map_segment_at s droot b data len) (\<lambda>s. Inr (b, s))) of
      Inl e \<Rightarrow> e = Panic ''Not enough memory!'' \<and> \<not> pages_free F (Suc (3 * length (seg_vpns sg)))
    | Inr (b, s2) \<Rightarrow> aligned 6 b \<and> blk 6 b \<subseteq> F \<and> (\<exists>s1 F2 dtab2 qs. space R (F - blk 6 b) s1 dst droot dtab dl \<and> s2 = s1\<lparr>kheap := kheap s2\<rparr> \<and>
        kept F s s1 \<and> segs s1 = (segs s)(b \<mapsto> sg) \<and> mms s1 = mms s \<and>
        evolved R (kheap s1) (F - blk 6 b) dtab (kheap s2) F2 dtab2 (set qs) \<and> distinct qs \<and>
        maps_segment (fst (kheap s2)) dtab2 sg qs \<and> pages_hold (fst (kheap s2)) qs (seg_byte (fst (kheap s)) data len) \<and>
        (\<forall>v. take_bit 27 v \<notin> take_bit 27 ` set (seg_vpns sg) \<longrightarrow>
           leaf (fst (kheap s2)) dtab2 v = leaf (fst (kheap s)) dtab v \<and> leaf (fst (kheap s1)) dtab v = leaf (fst (kheap s)) dtab v) \<and>
        (\<forall>v. take_bit 27 v \<in> take_bit 27 ` set (seg_vpns sg) \<longrightarrow> \<not> is_table (leaf (fst (kheap s2)) dtab2 v)) \<and>
        (\<forall>n. pages_free F (Suc (3 * length (seg_vpns sg)) + n) \<longrightarrow> pages_free F2 n))"
proof (cases "new_segment s (start_va sg) (end_va sg) (seg_flags sg) (seg_type sg)")
  case (Inl e)
  then show ?thesis
    using new_segment_spec [OF copyingD(6) [OF c], of sg] pages_free_less [of F "Suc (3 * length (seg_vpns sg))" 1] by auto
next
  case (Inr r)
  obtain b s1 where r: "new_segment s (start_va sg) (end_va sg) (seg_flags sg) (seg_type sg) = Inr (b, s1)"
    using Inr by (cases r) auto
  note n = new_struct [OF copyingD(6) [OF c] r]
  let ?F1 = "F - blk 6 b"
  have d1: "space R ?F1 s1 dst droot dtab dl" by (rule space_kept [OF copyingD(1) [OF c] n(1,2)]) blast
  note pt1 = spaceD(1,3) [OF d1]
  have pt: "pt_inv R (kheap s) F dtab" by (rule spaceD(1) [OF copyingD(1) [OF c]])
  then have "page_set (ran dtab) \<inter> F = {}" "tree_ok (fst (kheap s)) dtab" by (auto simp: pt_inv_def)
  then have l1: "leaf (fst (kheap s1)) dtab v = leaf (fst (kheap s)) dtab v" for v
    using tree_frame(2) n(1) unfolding kept_def by blast
  have d1': "data_ok data len (?F1 \<union> page_set (ran dtab))" by (rule data_ok_mono [OF data(1)]) blast
  have "data_ok data len F" by (rule data_ok_mono [OF data(1)]) blast
  moreover have "same_outside F (fst (kheap s)) (fst (kheap s1))" using n(1) by (simp add: kept_def)
  ultimately have byte: "seg_byte (fst (kheap s1)) data len = seg_byte (fst (kheap s)) data len" by (rule seg_byte_same)
  have less: "pages_free ?F1 n" if "pages_free F (Suc n)" for n by (rule pages_free_block [OF that]) simp
  note mp = map_piece [OF pt1 dist flags d1' data(2)]
  show ?thesis
  proof (cases "map_segment (kheap s1) droot sg data len")
    case (Inl e)
    with mp new l1 have "e = Panic ''Not enough memory!''" "\<not> pages_free ?F1 (3 * length (seg_vpns sg))" by auto
    with Inl less show ?thesis using n(5) by (auto simp: r map_segment_at_def deref_def)
  next
    case (Inr h2)
    let ?s2 = "s1\<lparr>kheap := h2\<rparr>"
    obtain F2 dtab2 qs where q: "evolved R (kheap s1) ?F1 dtab h2 F2 dtab2 (set qs)" "distinct qs" "maps_segment (fst h2) dtab2 sg qs"
      "\<forall>v. take_bit 27 v \<notin> take_bit 27 ` set (seg_vpns sg) \<longrightarrow> leaf (fst h2) dtab2 v = leaf (fst (kheap s1)) dtab v"
      "\<forall>v. take_bit 27 v \<in> take_bit 27 ` set (seg_vpns sg) \<longrightarrow> \<not> is_table (leaf (fst h2) dtab2 v)"
      "\<forall>n. pages_free ?F1 (3 * length (seg_vpns sg) + n) \<longrightarrow> pages_free F2 n"
      "pages_hold (fst h2) qs (seg_byte (fst (kheap s)) data len)"
      using mp unfolding Inr byte sum.case by blast
    have "bindE (new_segment s (start_va sg) (end_va sg) (seg_flags sg) (seg_type sg)) (\<lambda>(b, s).
        bindE (map_segment_at s droot b data len) (\<lambda>s. Inr (b, s))) = Inr (b, ?s2)"
      using Inr n(5) by (simp add: r map_segment_at_def deref_def)
    moreover have "\<forall>n. pages_free F (Suc (3 * length (seg_vpns sg)) + n) \<longrightarrow> pages_free F2 n" using q(6) less by simp
    moreover have "\<exists>s1' F2' dtab2' qs'. space R ?F1 s1' dst droot dtab dl \<and> ?s2 = s1'\<lparr>kheap := kheap ?s2\<rparr> \<and>
        kept F s s1' \<and> segs s1' = (segs s)(b \<mapsto> sg) \<and> mms s1' = mms s \<and>
        evolved R (kheap s1') ?F1 dtab (kheap ?s2) F2' dtab2' (set qs') \<and> distinct qs' \<and>
        maps_segment (fst (kheap ?s2)) dtab2' sg qs' \<and> pages_hold (fst (kheap ?s2)) qs' (seg_byte (fst (kheap s)) data len) \<and>
        (\<forall>v. take_bit 27 v \<notin> take_bit 27 ` set (seg_vpns sg) \<longrightarrow>
           leaf (fst (kheap ?s2)) dtab2' v = leaf (fst (kheap s)) dtab v \<and> leaf (fst (kheap s1')) dtab v = leaf (fst (kheap s)) dtab v) \<and>
        (\<forall>v. take_bit 27 v \<in> take_bit 27 ` set (seg_vpns sg) \<longrightarrow> \<not> is_table (leaf (fst (kheap ?s2)) dtab2' v)) \<and>
        (\<forall>n. pages_free F (Suc (3 * length (seg_vpns sg)) + n) \<longrightarrow> pages_free F2' n)"
      using d1 n(1,5,6) q(1-5,7) l1 calculation(2)
      by (intro exI [of _ s1] exI [of _ F2] exI [of _ dtab2] exI [of _ qs]) simp
    ultimately show ?thesis using n(3,4) by simp
  qed
qed

text \<open>The rest of \<^verbatim>\<open>copy_segment\<close>: the pages are copied and a framed segment enters the list.\<close>

lemma copy_segment_split:
  assumes seg: "segs s a = Some sg" and dst: "mms s dst = Some droot"
    and stores: "\<And>b s1. new_segment s (start_va sg) (end_va sg) (seg_flags sg) (seg_type sg) = Inr (b, s1) \<Longrightarrow> mms s1 = mms s"
  shows "copy_segment s src dst a =
    bindE (bindE (new_segment s (start_va sg) (end_va sg) (seg_flags sg) (seg_type sg)) (\<lambda>(b, s).
        bindE (map_segment_at s droot b 0 0) (\<lambda>s. Inr (b, s)))) (\<lambda>(b, s).
     if seg_type sg = Linear then Inr s else
     bindE (deref (mms s) src) (\<lambda>sroot.
     bindE (copy_pages (kheap s) sroot droot (seg_vpns sg)) (\<lambda>h.
     Inr (s\<lparr>kheap := h, klinks := list_add_tail (klinks s) (seg_list b) (mm_segments dst)\<rparr>))))"
proof (cases "new_segment s (start_va sg) (end_va sg) (seg_flags sg) (seg_type sg)")
  case (Inl e)
  then show ?thesis using seg by (simp add: copy_segment_def deref_def)
next
  case (Inr r)
  obtain b s1 where r: "r = (b, s1)" by (cases r)
  have "mms s1 dst = Some droot" using stores Inr r dst by simp
  then show ?thesis
    using seg Inr r by (cases "map_segment_at s1 droot b 0 0") (simp_all add: copy_segment_def deref_def)
qed

lemma copying_mapped:
  assumes c: "copying R F0 s0 dst droot F s dtab dl St" and b: "aligned 6 b" "blk 6 b \<subseteq> F"
    and sp: "space R (F - blk 6 b) s1 dst droot dtab dl" and k: "kept F s s1"
    and ev: "evolved R (kheap s1) (F - blk 6 b) dtab h F2 dtab2 (set qs)"
    and new: "\<forall>v. take_bit 27 v \<notin> V \<longrightarrow> leaf (fst h) dtab2 v = leaf (fst (kheap s1)) dtab v"
      "\<forall>v. take_bit 27 v \<in> V \<longrightarrow> \<not> is_table (leaf (fst h) dtab2 v)" "take_bit 27 ` set (vpns_of dl) \<inter> V = {}"
  defines "s2 \<equiv> s1\<lparr>kheap := h\<rparr>"
  shows "space R F2 s2 dst droot dtab2 dl" and "kept F0 s0 s2"
    and "F2 \<union> page_set (ran dtab2) \<union> (page_set (set (frames_of dl)) \<union> page_set (set qs)) \<union> (St \<union> blk 6 b) = F0"
    and "(St \<union> blk 6 b) \<inter> (F2 \<union> page_set (ran dtab2) \<union> (page_set (set (frames_of dl)) \<union> page_set (set qs))) = {}"
    and "page_set (set qs) \<subseteq> F" and "page_set (set qs) \<inter> page_set (set (frames_of dl)) = {}"
    and "\<forall>x \<in> page_set (set (frames_of dl)). fst h x = fst (kheap s) x"
proof -
  note cd = copyingD [OF c] and e = evolvedD [OF ev]
  show "space R F2 s2 dst droot dtab2 dl" unfolding s2_def by (rule space_extend [OF sp ev new])
  have tab: "page_set (ran dtab) \<subseteq> F0" "page_set (ran dtab) \<inter> F = {}"
    "page_set (set (frames_of dl)) \<inter> (F \<union> page_set (ran dtab)) = {}"
    using cd(3) spaceD(1,11) [OF cd(1)] by (auto simp: pt_inv_def)
  have "kept F0 s1 s2" unfolding s2_def
    by (rule kept_kheap, rule same_outside_mono [OF e(8)]) (use tab(1) cd(7) in blast)
  then show "kept F0 s0 s2" using kept_trans [OF cd(2) kept_trans [OF kept_mono [OF k cd(7)]]] by blast
  have le: "page_set (ran dtab) \<subseteq> page_set (ran dtab2)" by (rule map_le_page_set [OF e(2)])
  show qF: "page_set (set qs) \<subseteq> F" using e(5) by blast
  show "page_set (set qs) \<inter> page_set (set (frames_of dl)) = {}" using qF tab(3) by blast
  show "F2 \<union> page_set (ran dtab2) \<union> (page_set (set (frames_of dl)) \<union> page_set (set qs)) \<union> (St \<union> blk 6 b) = F0"
    using e(3-5) cd(3) b(2) le by blast
  have "St \<inter> F = {}" using cd(4) by blast
  moreover have "blk 6 b \<inter> page_set (ran dtab2) = {}" using e(4) b(2) tab(2) by blast
  ultimately show "(St \<union> blk 6 b) \<inter> (F2 \<union> page_set (ran dtab2) \<union> (page_set (set (frames_of dl)) \<union> page_set (set qs))) = {}"
    using e(3-5) cd(4) b(2) tab(3) by blast
  show "\<forall>x \<in> page_set (set (frames_of dl)). fst h x = fst (kheap s) x"
  proof
    fix x assume "x \<in> page_set (set (frames_of dl))"
    then have "x \<notin> F" "x \<notin> page_set (ran dtab)" using tab(3) by blast+
    then show "fst h x = fst (kheap s) x" using e(8) k by (simp add: kept_def same_outside_def)
  qed
qed

text \<open>The mapped copy of a framed segment enters the list, at its end or at its front.\<close>

lemma copying_listed:
  assumes c: "copying R F0 s0 dst droot F s dtab dl St" and b: "aligned 6 b" "blk 6 b \<subseteq> F"
    and k: "kept F0 s0 (s1\<lparr>kheap := h\<rparr>)" and sp: "space R F2 (s1\<lparr>kheap := h, klinks := l\<rparr>) dst droot dtab2 dl'"
    and links: "links_same_outside (set (seg_list b # mm_segments dst # seg_nodes dl)) (klinks s1) l"
    and parts: "F2 \<union> page_set (ran dtab2) \<union> (page_set (set (frames_of dl)) \<union> page_set (set qs)) \<union> (St \<union> blk 6 b) = F0"
      "(St \<union> blk 6 b) \<inter> (F2 \<union> page_set (ran dtab2) \<union> (page_set (set (frames_of dl)) \<union> page_set (set qs))) = {}"
    and dl': "set (frames_of dl') = set (frames_of dl) \<union> set qs" "set (seg_nodes dl') = insert (seg_list b) (set (seg_nodes dl))"
  shows "copying R F0 s0 dst droot F2 (s1\<lparr>kheap := h, klinks := l\<rparr>) dtab2 dl' (St \<union> blk 6 b)"
proof -
  note cd = copyingD [OF c]
  have node: "seg_list b \<in> blk 6 b" by (rule node_in_block(1) [OF b(1)])
  have "links_same_outside F0 (klinks s1) l"
    by (rule links_same_mono [OF links]) (use node b(2) cd(3,5,7) in auto)
  then have "kept F0 (s1\<lparr>kheap := h\<rparr>) (s1\<lparr>kheap := h, klinks := l\<rparr>)" using kept_klinks [of F0 "s1\<lparr>kheap := h\<rparr>" l] by simp
  note k3 = kept_trans [OF k this]
  have "set (mm_segments dst # seg_nodes dl') \<subseteq> St \<union> blk 6 b" using cd(5) node dl'(2) by auto
  then show ?thesis using sp k3 parts unfolding copying_def dl'(1) page_set_Un by blast
qed

lemma copying_entered:
  assumes c: "copying R F0 s0 dst droot F s dtab dl St" and b: "aligned 6 b" "blk 6 b \<subseteq> F"
    and sp: "space R (F - blk 6 b) s1 dst droot dtab dl" and k: "kept F s s1" and segb: "segs s1 b = Some sg"
    and ev: "evolved R (kheap s1) (F - blk 6 b) dtab h F2 dtab2 (set qs)" "distinct qs" "maps_segment (fst h) dtab2 sg qs"
    and new: "\<forall>v. take_bit 27 v \<notin> take_bit 27 ` set (seg_vpns sg) \<longrightarrow> leaf (fst h) dtab2 v = leaf (fst (kheap s1)) dtab v"
      "\<forall>v. take_bit 27 v \<in> take_bit 27 ` set (seg_vpns sg) \<longrightarrow> \<not> is_table (leaf (fst h) dtab2 v)"
    and dist: "distinct (map (take_bit 27) (vpns_of dl @ seg_vpns sg))"
  shows "copying R F0 s0 dst droot F2
      (s1\<lparr>kheap := h, klinks := list_add_tail (klinks s1) (seg_list b) (mm_segments dst)\<rparr>) dtab2 (dl @ [(b, sg, qs)]) (St \<union> blk 6 b)"
    and "copying R F0 s0 dst droot F2
      (s1\<lparr>kheap := h, klinks := list_add (klinks s1) (seg_list b) (mm_segments dst)\<rparr>) dtab2 ((b, sg, qs) # dl) (St \<union> blk 6 b)"
proof -
  note cd = copyingD [OF c] and e = evolvedD [OF ev(1)]
  have "take_bit 27 ` set (vpns_of dl) \<inter> take_bit 27 ` set (seg_vpns sg) = {}" using dist by auto
  note cm = copying_mapped [OF c b sp k ev(1) new this]
  let ?s2 = "s1\<lparr>kheap := h\<rparr>"
  have nnew: "seg_list b \<notin> set (mm_segments dst # seg_nodes dl)" using node_in_block(1) [OF b(1)] b(2) cd(4,5) by blast
  have bR: "blk 6 b \<subseteq> R - F2" using b(2) e(3) buddy.inv_region [OF cd(6)] by blast
  have qR: "page_set (set qs) \<subseteq> R - F2 - page_set (ran dtab2)" using cm(5) e(3,6) buddy.inv_region [OF cd(6)] by blast
  have "set qs \<inter> set (frames_of dl) = {}"
    using cm(6) page_in_set [of _ "set qs"] page_in_set [of _ "set (frames_of dl)"] self_in_blk by blast
  then have dq: "distinct (frames_of dl @ qs)" using ev(2) spaceD(9) [OF cd(1)] by auto
  have sg: "segs ?s2 b = Some sg" "maps_segment (fst (kheap ?s2)) dtab2 sg qs" using segb ev(3) by simp_all
  note ins = space_insert [OF cm(1) sg b(1) bR nnew dist dq e(7) qR]
  note listed = copying_listed [OF c b cm(2) _ _ cm(3,4)]
  show "copying R F0 s0 dst droot F2
      (s1\<lparr>kheap := h, klinks := list_add_tail (klinks s1) (seg_list b) (mm_segments dst)\<rparr>) dtab2 (dl @ [(b, sg, qs)]) (St \<union> blk 6 b)"
    by (rule listed) (use ins(1) clist_add_tail(2) [OF spaceD(4) [OF sp] nnew] in auto)
  show "copying R F0 s0 dst droot F2
      (s1\<lparr>kheap := h, klinks := list_add (klinks s1) (seg_list b) (mm_segments dst)\<rparr>) dtab2 ((b, sg, qs) # dl) (St \<union> blk 6 b)"
    by (rule listed) (use ins(2) clist_add(2) [OF spaceD(4) [OF sp] nnew] in auto)
qed

lemma copy_segment_spec:
  assumes src: "space R F0 s0 src sroot stab sl" and x: "(a, sg, ps) \<in> set sl"
    and c: "copying R F0 s0 dst droot F s dtab dl St"
    and new: "\<forall>v \<in> set (seg_vpns sg). leaf (fst (kheap s)) dtab v = 0"
    and dist: "distinct (map (take_bit 27) (vpns_of dl @ seg_vpns sg))"
  shows "case copy_segment s src dst a of
      Inl e \<Rightarrow> e = Panic ''Not enough memory!'' \<and> \<not> pages_free F (Suc (3 * length (seg_vpns sg)))
    | Inr s' \<Rightarrow> \<exists>F' dtab' b qs.
        copying R F0 s0 dst droot F' s' dtab' (if seg_type sg = Framed then dl @ [(b, sg, qs)] else dl) (St \<union> blk 6 b) \<and>
        aligned 6 b \<and> blk 6 b \<inter> St = {} \<and> maps_segment (fst (kheap s')) dtab' sg qs \<and>
        list_all2 (same_page (fst (kheap s0)) (fst (kheap s'))) ps qs \<and>
        (\<forall>v. take_bit 27 v \<notin> take_bit 27 ` set (seg_vpns sg) \<longrightarrow> leaf (fst (kheap s')) dtab' v = leaf (fst (kheap s)) dtab v) \<and>
        (\<forall>x \<in> page_set (set (frames_of dl)). fst (kheap s') x = fst (kheap s) x) \<and>
        (\<forall>n. pages_free F (Suc (3 * length (seg_vpns sg)) + n) \<longrightarrow> pages_free F' n)"
proof -
  note cd = copyingD [OF c]
  let ?V = "take_bit 27 ` set (seg_vpns sg)"
  have S: "space R F s src sroot stab sl" by (rule space_kept [OF src cd(2,6,7)])
  note sd = spaceD(5) [OF S x]
  then have seg: "segs s a = Some sg" and smap: "maps_segment (fst (kheap s)) stab sg ps" by simp_all
  have flags: "seg_flags sg < 2 ^ 10" "seg_flags sg AND (PAGE_READ OR PAGE_WRITE OR PAGE_EXEC) \<noteq> 0"
    using smap by (simp_all add: maps_segment_def)
  let ?new = "new_segment s (start_va sg) (end_va sg) (seg_flags sg) (seg_type sg)"
  have stores: "mms s1 = mms s" if "?new = Inr (b, s1)" for b s1 by (rule new_struct(6) [OF cd(6) that])
  have "distinct (map (take_bit 27) (seg_vpns sg))" using dist by simp
  note st = copy_struct [OF c flags new this data_ok_0 disjI1 [OF refl]]
  let ?made = "bindE ?new (\<lambda>(b, s). bindE (map_segment_at s droot b 0 0) (\<lambda>s. Inr (b, s)))"
  have split: "copy_segment s src dst a = bindE ?made (\<lambda>(b, s). if seg_type sg = Linear then Inr s else
     bindE (deref (mms s) src) (\<lambda>sroot. bindE (copy_pages (kheap s) sroot droot (seg_vpns sg)) (\<lambda>h.
     Inr (s\<lparr>kheap := h, klinks := list_add_tail (klinks s) (seg_list b) (mm_segments dst)\<rparr>))))"
    by (rule copy_segment_split [OF seg spaceD(2) [OF cd(1)]]) (rule stores)
  have ap: "take_bit 27 ` set (vpns_of dl) \<inter> ?V = {}" using dist by auto
  show ?thesis
  proof (cases ?made)
    case (Inl e)
    with st show ?thesis unfolding split by simp
  next
    case (Inr r)
    obtain b s2 where r: "?made = Inr (b, s2)" using Inr by (cases r) auto
    obtain s1 F2 dtab2 qs where b: "aligned 6 b" "blk 6 b \<subseteq> F"
      and s1: "space R (F - blk 6 b) s1 dst droot dtab dl" "s2 = s1\<lparr>kheap := kheap s2\<rparr>" "kept F s s1"
        "segs s1 = (segs s)(b \<mapsto> sg)" "mms s1 = mms s"
      and ev: "evolved R (kheap s1) (F - blk 6 b) dtab (kheap s2) F2 dtab2 (set qs)" "distinct qs"
        "maps_segment (fst (kheap s2)) dtab2 sg qs"
      and lf: "\<forall>v. take_bit 27 v \<notin> ?V \<longrightarrow> leaf (fst (kheap s2)) dtab2 v = leaf (fst (kheap s)) dtab v \<and>
           leaf (fst (kheap s1)) dtab v = leaf (fst (kheap s)) dtab v"
        "\<forall>v. take_bit 27 v \<in> ?V \<longrightarrow> \<not> is_table (leaf (fst (kheap s2)) dtab2 v)"
      and pf: "\<forall>n. pages_free F (Suc (3 * length (seg_vpns sg)) + n) \<longrightarrow> pages_free F2 n"
      using st unfolding r sum.case prod.case by blast
    have bSt: "blk 6 b \<inter> St = {}" using b(2) cd(4) by blast
    have lf1: "\<forall>v. take_bit 27 v \<notin> ?V \<longrightarrow> leaf (fst (kheap s2)) dtab2 v = leaf (fst (kheap s1)) dtab v" using lf(1) by simp
    note cm = copying_mapped [OF c b s1(1,3) ev(1) lf1 lf(2) ap, folded s1(2)]
    show ?thesis
    proof (cases "seg_type sg")
      case Linear
      then have nil: "ps = []" "qs = []" using smap ev(3) by (simp_all add: maps_segment_def)
      have run: "copy_segment s src dst a = Inr s2" unfolding split r using Linear by simp
      have "copying R F0 s0 dst droot F2 s2 dtab2 dl (St \<union> blk 6 b)"
        using cm(1-4) cd(5) nil unfolding copying_def by auto
      then show ?thesis
        using b(1) bSt ev(3) lf cm(7) pf nil Linear unfolding run sum.case
        by (intro exI [of _ F2] exI [of _ dtab2] exI [of _ b] exI [of _ qs]) simp
    next
      case Framed
      define h where "h = kheap s2"
      have la: "list_all2 (\<lambda>v p. leaf (fst (kheap s)) stab v = PPN2PTE p (seg_flags sg)) (seg_vpns sg) ps"
        "list_all2 (\<lambda>v p. leaf (fst h) dtab2 v = PPN2PTE p (seg_flags sg)) (seg_vpns sg) qs"
        using smap ev(3) Framed by (simp_all add: maps_segment_def h_def)
      note e = evolvedD [OF ev(1)]
      have inv2: "buddy_inv R (kheap s2) F2" "F2 \<subseteq> F0" using e(1) cm(3) unfolding pt_inv_def by blast+
      have S2: "space R F2 s2 src sroot stab sl" by (rule space_kept [OF src cm(2) inv2])
      have lf2: "list_all2 (\<lambda>v p. leaf (fst h) stab v = PPN2PTE p (seg_flags sg)) (seg_vpns sg) ps"
        using spaceD(5) [OF S2 x] Framed by (simp add: maps_segment_def h_def)
      note s2d = spaceD [OF S2] and d2d = spaceD [OF cm(1)]
      have src0: "page_set (ran stab) \<inter> F0 = {}" "page_set (set (frames_of sl)) \<inter> F0 = {}"
        using spaceD(1,11) [OF src] by (auto simp: pt_inv_def)
      have psl: "set ps \<subseteq> set (frames_of sl)" using x by (force simp: frames_of_def)
      have p44: "\<forall>p \<in> set ps. p < 2 ^ 44" using spaceD(10) [OF src] psl by blast
      have apart: "page_set (set qs) \<inter> (page_set (set ps) \<union> page_set (ran stab) \<union> page_set (ran dtab2)) = {}"
        using cm(5) cd(7) src0 page_set_mono [OF psl] e(6) by blast
      have trees: "tree_ok (fst h) stab" "tree_ok (fst h) dtab2" "in_window R" "page_set (ran stab) \<subseteq> R" "page_set (ran dtab2) \<subseteq> R"
        using s2d(1) d2d(1) by (auto simp: pt_inv_def h_def)
      obtain m3 where m3: "copy_pages h sroot droot (seg_vpns sg) = Inr (m3, snd h)" "same_outside (page_set (set qs)) (fst h) m3"
        "list_all2 (same_page (fst h) m3) ps qs"
        using copy_pages_spec [OF trees(1,2) s2d(3) d2d(3) trees(3-5) flags lf2 la(2) p44 e(7) ev(2) apart] by blast
      let ?l = "list_add_tail (klinks s2) (seg_list b) (mm_segments dst)"
      let ?s3 = "s2\<lparr>kheap := (m3, snd h), klinks := ?l\<rparr>"
      have run: "copy_segment s src dst a = Inr ?s3"
        unfolding split r using Framed m3(1) s2d(2) by (simp add: h_def deref_def)
      have ev': "evolved R (kheap s1) (F - blk 6 b) dtab (fst h, snd h) F2 dtab2 (set qs)" using ev(1) by (simp add: h_def)
      note ew = evolved_write [OF ev' m3(2)]
      have lf3: "leaf m3 dtab2 v = leaf (fst (kheap s2)) dtab2 v" for v using ew(2) by (simp add: h_def)
      have lf1': "\<forall>v. take_bit 27 v \<notin> ?V \<longrightarrow> leaf (fst (m3, snd h)) dtab2 v = leaf (fst (kheap s1)) dtab v"
        "\<forall>v. take_bit 27 v \<in> ?V \<longrightarrow> \<not> is_table (leaf (fst (m3, snd h)) dtab2 v)"
        using lf1 lf(2) lf3 by simp_all
      note cm3 = copying_mapped [OF c b s1(1,3) ew(1) lf1' ap]
      have segb: "segs s1 b = Some sg" by (simp add: s1(4))
      have mapb: "maps_segment (fst (m3, snd h)) dtab2 sg qs" using maps_segment_same [OF ev(3)] lf3 by simp
      have "klinks s2 = klinks s1" "s2\<lparr>kheap := (m3, snd h)\<rparr> = s1\<lparr>kheap := (m3, snd h)\<rparr>" by (subst s1(2), simp)+
      then have "copying R F0 s0 dst droot F2 ?s3 dtab2 (dl @ [(b, sg, qs)]) (St \<union> blk 6 b)"
        using copying_entered(1) [OF c b s1(1,3) segb ew(1) ev(2) mapb lf1' dist] by simp
      moreover have "list_all2 (same_page (fst (kheap s0)) m3) ps qs"
      proof (rule list.rel_mono_strong [OF m3(3)])
        fix p q assume p: "p \<in> set ps" "same_page (fst h) m3 p q"
        have "blk 12 (page_va p) \<inter> F0 = {}" using page_in_set [of p "set (frames_of sl)"] psl p(1) src0(2) by blast
        then have "\<forall>x \<in> blk 12 (page_va p). fst (kheap s0) x = fst h x" using cm(2) by (auto simp: kept_def same_outside_def h_def)
        with p(2) show "same_page (fst (kheap s0)) m3 p q" by (rule same_page_frame) simp
      qed
      moreover have "\<forall>v. take_bit 27 v \<notin> ?V \<longrightarrow> leaf m3 dtab2 v = leaf (fst (kheap s)) dtab v" using lf(1) lf3 by simp
      ultimately show ?thesis
        using b(1) bSt mapb cm3(7) pf Framed unfolding run sum.case
        by (intro exI [of _ F2] exI [of _ dtab2] exI [of _ b] exI [of _ qs]) simp
    qed
  qed
qed

section \<open>Copying all segments\<close>

text \<open>
  The framed segments of the list \<open>done\<close> are in the list \<open>dl\<close>, page by page the same, and the linear ones
  are mapped.
\<close>

definition same_contents :: "mem \<Rightarrow> mem \<Rightarrow> tree \<Rightarrow> piece list \<Rightarrow> piece list \<Rightarrow> bool" where
  "same_contents m0 m dtab done dl \<longleftrightarrow>
     list_all2 (\<lambda>(_, sg, ps) (_, sg', qs). sg' = sg \<and> list_all2 (same_page m0 m) ps qs)
       (filter (\<lambda>(_, sg, _). seg_type sg = Framed) done) dl \<and>
     (\<forall>(_, sg, _) \<in> set done. seg_type sg = Linear \<longrightarrow> maps_segment m dtab sg [])"

text \<open>The segments \<open>done\<close> have been copied, and nothing else is mapped.\<close>

definition copied :: "mem \<Rightarrow> mem \<Rightarrow> tree \<Rightarrow> piece list \<Rightarrow> piece list \<Rightarrow> bool" where
  "copied m0 m dtab done dl \<longleftrightarrow>
     (\<forall>v. take_bit 27 v \<notin> take_bit 27 ` set (vpns_of done) \<longrightarrow> leaf m dtab v = 0) \<and>
     same_contents m0 m dtab done dl"

lemma copied_framed:
  assumes "copied m0 m dtab done dl"
  shows "set (vpns_of dl) = set (vpns_of (filter (\<lambda>(_, sg, _). seg_type sg = Framed) done))"
proof -
  have "list_all2 (\<lambda>(_, sg, ps) (_, sg', qs). sg' = sg \<and> list_all2 (same_page m0 m) ps qs) xs dl \<Longrightarrow>
      set (vpns_of dl) = set (vpns_of xs)" for xs
    by (induction xs dl rule: list_all2_induct) auto
  then show ?thesis using assms unfolding copied_def same_contents_def by blast
qed

lemma copied_vpns: "copied m0 m dtab done dl \<Longrightarrow> set (vpns_of dl) \<subseteq> set (vpns_of done)"
  unfolding copied_framed by (auto simp: vpns_of_def)

lemma same_contents_keep:
  assumes c: "same_contents m0 m dtab done dl"
    and lf: "\<forall>v \<in> set (vpns_of done). leaf m' dtab' v = leaf m dtab v"
    and same: "\<forall>x \<in> page_set (set (frames_of dl)). m' x = m x"
    and base: "\<forall>x \<in> page_set (set (frames_of done)). m1 x = m0 x"
  shows "same_contents m1 m' dtab' done dl"
proof -
  let ?R = "\<lambda>m0 m (_, sg, ps) (_, sg', qs). sg' = sg \<and> list_all2 (same_page m0 m) ps qs"
  have "list_all2 (?R m1 m') (filter (\<lambda>(_, sg, _). seg_type sg = Framed) done) dl"
  proof (rule list.rel_mono_strong)
    show "list_all2 (?R m0 m) (filter (\<lambda>(_, sg, _). seg_type sg = Framed) done) dl" using c by (simp add: same_contents_def)
    fix x y assume x: "x \<in> set (filter (\<lambda>(_, sg, _). seg_type sg = Framed) done)" and y: "y \<in> set dl" and xy: "?R m0 m x y"
    obtain a1 sg1 ps1 b1 qs1 where eq: "x = (a1, sg1, ps1)" "y = (b1, sg1, qs1)" using xy by (cases x, cases y) auto
    have "list_all2 (same_page m1 m') ps1 qs1"
    proof (rule list.rel_mono_strong)
      show "list_all2 (same_page m0 m) ps1 qs1" using xy by (simp add: eq)
      fix p q assume p: "p \<in> set ps1" and q: "q \<in> set qs1" and pq: "same_page m0 m p q"
      have "p \<in> set (frames_of done)" "q \<in> set (frames_of dl)" using p q x y by (force simp: eq frames_of_def)+
      then have "\<forall>x \<in> blk 12 (page_va p). m1 x = m0 x" "\<forall>x \<in> blk 12 (page_va q). m' x = m x"
        using base same page_in_set by blast+
      then show "same_page m1 m' p q" by (rule same_page_frame [OF pq])
    qed
    then show "?R m1 m' x y" by (simp add: eq)
  qed
  moreover have "maps_segment m' dtab' sg []" if x: "(a, sg, ps) \<in> set done" "seg_type sg = Linear" for a sg ps
  proof (rule maps_segment_same)
    show "maps_segment m dtab sg []" using c x by (auto simp: same_contents_def)
    show "\<forall>v \<in> set (seg_vpns sg). leaf m' dtab' v = leaf m dtab v" using lf x(1) by (force simp: vpns_of_def)
  qed
  then have "\<forall>(_, sg, _) \<in> set done. seg_type sg = Linear \<longrightarrow> maps_segment m' dtab' sg []" by blast
  ultimately show ?thesis unfolding same_contents_def by (rule conjI)
qed

lemma copied_step:
  assumes c: "copied m0 m dtab done dl" and dist: "distinct (map (take_bit 27) (vpns_of (done @ [(a, sg, ps)])))"
    and seg: "maps_segment m' dtab' sg qs" "list_all2 (same_page m0 m') ps qs"
    and lf: "\<forall>v. take_bit 27 v \<notin> take_bit 27 ` set (seg_vpns sg) \<longrightarrow> leaf m' dtab' v = leaf m dtab v"
    and same: "\<forall>x \<in> page_set (set (frames_of dl)). m' x = m x"
  shows "copied m0 m' dtab' (done @ [(a, sg, ps)]) (if seg_type sg = Framed then dl @ [(b, sg, qs)] else dl)"
proof -
  have lf': "\<forall>v \<in> set (vpns_of done). leaf m' dtab' v = leaf m dtab v"
  proof
    fix v assume "v \<in> set (vpns_of done)"
    then have "take_bit 27 v \<notin> take_bit 27 ` set (seg_vpns sg)" using dist by auto
    then show "leaf m' dtab' v = leaf m dtab v" using lf by blast
  qed
  have "same_contents m0 m dtab done dl" using c by (simp add: copied_def)
  from same_contents_keep [OF this lf' same] have "same_contents m0 m' dtab' done dl" by simp
  moreover have "qs = []" if "seg_type sg = Linear" using seg(1) that by (simp add: maps_segment_def)
  moreover have "leaf m' dtab' v = 0" if "take_bit 27 v \<notin> take_bit 27 ` set (vpns_of (done @ [(a, sg, ps)]))" for v
  proof -
    have "take_bit 27 v \<notin> take_bit 27 ` set (vpns_of done)" "take_bit 27 v \<notin> take_bit 27 ` set (seg_vpns sg)"
      using that by (simp_all add: image_Un)
    with lf c show ?thesis by (simp add: copied_def)
  qed
  ultimately show ?thesis using seg unfolding copied_def same_contents_def
    by (cases "seg_type sg") (auto intro!: list_all2_appendI)
qed

lemma clist_after: "clist l h (xs @ n # ys) \<Longrightarrow> next_of l n = hd (ys @ [h])"
  by (cases ys) (simp_all add: clist_def dseg_append)

definition copy_cost :: "piece list \<Rightarrow> nat" where
  "copy_cost sl = sum_list (map (\<lambda>(_, sg, _). Suc (3 * length (seg_vpns sg))) sl)"

lemma copy_cost_simps [simp]:
  "copy_cost [] = 0" "copy_cost ((a, sg, ps) # sl) = Suc (3 * length (seg_vpns sg)) + copy_cost sl"
  by (simp_all add: copy_cost_def)

lemma copy_segments_spec:
  assumes src: "space R F0 s0 src sroot stab sl" and "sl = done @ rest"
    and "copying R F0 s0 dst droot F s dtab dl St" and "copied (fst (kheap s0)) (fst (kheap s)) dtab done dl"
    and "card St = 32 + 64 * length done"
  shows "case copy_segments s src dst (hd (seg_nodes rest @ [mm_segments src])) of
      None \<Rightarrow> False
    | Some (Inl e) \<Rightarrow> e = Panic ''Not enough memory!'' \<and> \<not> pages_free F (copy_cost rest)
    | Some (Inr s') \<Rightarrow> \<exists>F' dtab' dl' St'. copying R F0 s0 dst droot F' s' dtab' dl' St' \<and>
        copied (fst (kheap s0)) (fst (kheap s')) dtab' sl dl' \<and> card St' = 32 + 64 * length sl \<and>
        (\<forall>n. pages_free F (copy_cost rest + n) \<longrightarrow> pages_free F' n)"
  using assms(2-5)
proof (induction rest arbitrary: F s dtab dl St "done")
  case Nil
  then show ?case by (subst copy_segments.simps) auto
next
  case (Cons x rest)
  obtain a sg ps where x: "x = (a, sg, ps)" by (cases x)
  note c = Cons.prems(2) and cd = copyingD [OF Cons.prems(2)]
  have xin: "(a, sg, ps) \<in> set sl" using Cons.prems(1) by (simp add: x)
  have S: "space R F s src sroot stab sl" by (rule space_kept [OF src cd(2,6,7)])
  have cl: "clist (klinks s) (mm_segments src) (seg_nodes done @ seg_list a # seg_nodes rest)"
    using spaceD(4) [OF S] Cons.prems(1) by (simp add: x)
  then have ne: "seg_list a \<noteq> mm_segments src" by (auto simp: clist_def)
  have dist: "distinct (map (take_bit 27) (vpns_of done @ seg_vpns sg @ vpns_of rest))"
    using spaceD(8) [OF src] Cons.prems(1) by (simp add: x)
  have apart: "take_bit 27 v \<notin> take_bit 27 ` set (vpns_of done)" if "v \<in> set (seg_vpns sg)" for v
    using dist that by auto
  then have new: "\<forall>v \<in> set (seg_vpns sg). leaf (fst (kheap s)) dtab v = 0"
    using Cons.prems(3) unfolding copied_def same_contents_def by blast
  have dl: "distinct (map (take_bit 27) (vpns_of dl @ seg_vpns sg))"
  proof -
    have "x \<notin> take_bit 27 ` set (vpns_of dl)" if "x \<in> take_bit 27 ` set (seg_vpns sg)" for x
    proof -
      obtain w where w: "w \<in> set (seg_vpns sg)" "x = take_bit 27 w" using \<open>x \<in> _\<close> by blast
      have "x \<notin> take_bit 27 ` set (vpns_of done)" unfolding w(2) by (rule apart [OF w(1)])
      then show ?thesis using image_mono [OF copied_vpns [OF Cons.prems(3)], of "take_bit 27"] by blast
    qed
    then have "take_bit 27 ` set (vpns_of dl) \<inter> take_bit 27 ` set (seg_vpns sg) = {}" by blast
    moreover have "distinct (map (take_bit 27) (seg_vpns sg))" using dist by simp
    ultimately show ?thesis using spaceD(8) [OF cd(1)] by simp
  qed
  note st = copy_segment_spec [OF src xin c new dl]
  let ?step = "copy_segment s src dst a"
  have run: "copy_segments s src dst (hd (seg_nodes (x # rest) @ [mm_segments src])) =
      (case ?step of Inl e \<Rightarrow> Some (Inl e) | Inr s \<Rightarrow> copy_segments s src dst (next_of (klinks s) (seg_list a)))"
    using ne by (subst copy_segments.simps) (simp add: x seg_entry_def seg_list_def split: sum.splits)
  show ?case
  proof (cases ?step)
    case (Inl e)
    with st pages_free_less [of F "copy_cost (x # rest)"] show ?thesis unfolding run by (auto simp: x)
  next
    case (Inr s1)
    obtain F1 dtab1 b qs where q:
      "copying R F0 s0 dst droot F1 s1 dtab1 (if seg_type sg = Framed then dl @ [(b, sg, qs)] else dl) (St \<union> blk 6 b)"
      "aligned 6 b" "blk 6 b \<inter> St = {}" "maps_segment (fst (kheap s1)) dtab1 sg qs"
      "list_all2 (same_page (fst (kheap s0)) (fst (kheap s1))) ps qs"
      "\<forall>v. take_bit 27 v \<notin> take_bit 27 ` set (seg_vpns sg) \<longrightarrow> leaf (fst (kheap s1)) dtab1 v = leaf (fst (kheap s)) dtab v"
      "\<forall>x \<in> page_set (set (frames_of dl)). fst (kheap s1) x = fst (kheap s) x"
      "\<forall>n. pages_free F (Suc (3 * length (seg_vpns sg)) + n) \<longrightarrow> pages_free F1 n"
      using st unfolding Inr sum.case by blast
    have dist1: "distinct (map (take_bit 27) (vpns_of (done @ [(a, sg, ps)])))" using dist by (simp add: Int_Un_distrib)
    note cp = copied_step [OF Cons.prems(3) dist1 q(4-7), where b = b]
    have card1: "card (St \<union> blk 6 b) = 32 + 64 * length (done @ [x])"
      using Cons.prems(4) q(3) card_blk [OF q(2)] finite_addr by (subst card_Un_disjoint) auto
    have S1: "space R F1 s1 src sroot stab sl" by (rule space_kept [OF src copyingD(2,6,7) [OF q(1)]])
    have "clist (klinks s1) (mm_segments src) (seg_nodes done @ seg_list a # seg_nodes rest)"
      using spaceD(4) [OF S1] Cons.prems(1) by (simp add: x)
    note nx = clist_after [OF this]
    have eq: "copy_segments s src dst (hd (seg_nodes (x # rest) @ [mm_segments src])) =
        copy_segments s1 src dst (hd (seg_nodes rest @ [mm_segments src]))"
      unfolding run Inr sum.case nx ..
    have "sl = (done @ [x]) @ rest" using Cons.prems(1) by simp
    from Cons.IH [OF this q(1) cp [folded x] card1]
    have IH: "case copy_segments s1 src dst (hd (seg_nodes rest @ [mm_segments src])) of
      None \<Rightarrow> False
    | Some (Inl e) \<Rightarrow> e = Panic ''Not enough memory!'' \<and> \<not> pages_free F1 (copy_cost rest)
    | Some (Inr s') \<Rightarrow> \<exists>F' dtab' dl' St'. copying R F0 s0 dst droot F' s' dtab' dl' St' \<and>
        copied (fst (kheap s0)) (fst (kheap s')) dtab' sl dl' \<and> card St' = 32 + 64 * length sl \<and>
        (\<forall>n. pages_free F1 (copy_cost rest + n) \<longrightarrow> pages_free F' n)" .
    have cost: "pages_free F1 (copy_cost rest + n)" if "pages_free F (copy_cost (x # rest) + n)" for n
      using that q(8) [rule_format, of "copy_cost rest + n"] by (simp add: x add.assoc)
    have "pages_free F1 (copy_cost rest)" if "pages_free F (copy_cost (x # rest))" using cost [of 0] that by simp
    with IH cost show ?thesis unfolding eq by (fastforce split: option.splits sum.splits)
  qed
qed

end
