(* ===== verification/Space_Clone.thy ===== *)
theory Space_Clone
  imports Space_Copy
begin

text \<open>
  \<^verbatim>\<open>new_memory_map\<close> and \<^verbatim>\<open>copy_mm\<close> of \<^verbatim>\<open>kernel/mapping.c\<close> as a whole, and what is left of the memory when
  the copy is destroyed.
\<close>

section \<open>The empty address space\<close>

lemma new_memory_map_spec:
  assumes inv: "buddy_inv R (kheap s) F" and win: "in_window R"
  shows "case new_memory_map s of
      Inl e \<Rightarrow> e = Panic ''Not enough memory!'' \<and> \<not> pages_free F 2
    | Inr (dst, s') \<Rightarrow> \<exists>root F'. copying R F s dst root F' s' [[] \<mapsto> root] [] (blk 5 dst) \<and> card (blk 5 dst) = 32 \<and>
        aligned 5 dst \<and> (\<forall>v. leaf (fst (kheap s')) [[] \<mapsto> root] v = 0) \<and> (\<forall>n. pages_free F (2 + n) \<longrightarrow> pages_free F' n)"
proof (cases "alloc (kheap s) sizeof_memory_map")
  case (Inl e)
  moreover have "\<exists>b. blk 5 b \<subseteq> F" if "pages_free F 2" using block_available [of F 1 5] that by (simp add: numeral_2_eq_2)
  ultimately show ?thesis using alloc_spec [OF inv, of sizeof_memory_map] struct_orders(2) by (auto simp: new_memory_map_def)
next
  case (Inr r)
  obtain dst h1 where r: "alloc (kheap s) sizeof_memory_map = Inr (dst, h1)" using Inr by (cases r) auto
  let ?S = "blk 5 dst"
  have a: "aligned 5 dst" "?S \<subseteq> F" "buddy_inv R h1 (F - ?S)" "same_outside F (fst (kheap s)) (fst h1)"
    using alloc_spec [OF inv, of sizeof_memory_map] struct_orders(2) r by auto
  have less: "pages_free (F - ?S) n" if "pages_free F (Suc n)" for n by (rule pages_free_block [OF that]) simp
  show ?thesis
  proof (cases "alloc_frame h1")
    case (Inl e)
    moreover have "\<exists>b. blk 12 b \<subseteq> F - ?S" if "pages_free F 2"
      using block_available [of "F - ?S" 0 12] less [of 1] that by (simp add: numeral_2_eq_2)
    ultimately show ?thesis using alloc_frame_spec [OF a(3)] r by (auto simp: new_memory_map_def)
  next
    case (Inr t)
    obtain root h2 where t: "alloc_frame h1 = Inr (root, h2)" using Inr by (cases t) auto
    note f = fresh_root [OF a(3) win t]
    let ?B = "blk 12 (page_va root)"
    let ?s = "s\<lparr>kheap := h2, mms := (mms s)(dst \<mapsto> root), klinks := INIT_LIST_HEAD (klinks s) (mm_segments dst)\<rparr>"
    have run: "new_memory_map s = Inr (dst, ?s)" by (simp add: new_memory_map_def r t)
    have FR: "F \<subseteq> R" by (rule buddy.inv_region [OF inv])
    have node: "mm_segments dst \<in> ?S" by (rule node_in_block(2) [OF a(1)])
    have tab: "is_table 0 = False" by (simp add: is_table_def)
    have sp: "space R (F - ?S - ?B) ?s dst root [[] \<mapsto> root] []"
      using f(1,2) a(1,2) FR tab unfolding space_def by (auto simp: page_set_def)
    have "same_outside F (fst (kheap s)) (fst h2)"
      by (rule same_outside_trans [OF a(4) same_outside_mono [OF f(5)]]) blast
    moreover have "links_same_outside F (klinks s) (klinks ?s)"
      using links_same_mono [OF init_same, of "mm_segments dst" F] node a(2) by auto
    moreover have "dst \<in> F" using a(2) self_in_blk by blast
    ultimately have k: "kept F s ?s" by (auto simp: kept_def)
    have "copying R F s dst root (F - ?S - ?B) ?s [[] \<mapsto> root] [] ?S"
      using sp k f(3,4) a(2) node by (auto simp: copying_def page_set_def)
    moreover have "pages_free (F - ?S - ?B) n" if "pages_free F (2 + n)" for n
      using pages_free_take [OF less alloc_frame_number [OF a(3) win t], of n] that by simp
    ultimately show ?thesis using card_blk [OF a(1)] a(1) f(2) unfolding run sum.case prod.case
      by (intro exI [of _ root] exI [of _ "F - ?S - ?B"]) simp
  qed
qed

section \<open>The copy\<close>

lemma clist_head: "clist l h xs \<Longrightarrow> next_of l h = hd (xs @ [h])"
  by (cases xs) (simp_all add: clist_def)

lemma copied_nothing: "\<forall>v. leaf m tab v = 0 \<Longrightarrow> copied m0 m tab [] []"
  by (simp add: copied_def same_contents_def)

lemma copy_mm_spec:
  assumes src: "space R F s src sroot stab sl"
  shows "case copy_mm s src of
      Inl e \<Rightarrow> e = Panic ''Not enough memory!'' \<and> \<not> pages_free F (2 + copy_cost sl)
    | Inr (dst, s') \<Rightarrow> \<exists>droot F' dtab dl St. copying R F s dst droot F' s' dtab dl St \<and>
        copied (fst (kheap s)) (fst (kheap s')) dtab sl dl \<and> card St = 32 + 64 * length sl \<and>
        (\<forall>n. pages_free F (2 + copy_cost sl + n) \<longrightarrow> pages_free F' n)"
proof -
  have "buddy_inv R (kheap s) F" "in_window R" using spaceD(1) [OF src] by (simp_all add: pt_inv_def)
  note new = new_memory_map_spec [OF this]
  show ?thesis
  proof (cases "new_memory_map s")
    case (Inl e)
    then show ?thesis using new pages_free_less [of F "2 + copy_cost sl" 2] by (auto simp: copy_mm_def)
  next
    case (Inr r)
    obtain dst s1 where r: "new_memory_map s = Inr (dst, s1)" using Inr by (cases r) auto
    obtain droot F1 where n: "copying R F s dst droot F1 s1 [[] \<mapsto> droot] [] (blk 5 dst)" "card (blk 5 dst) = 32"
      "\<forall>v. leaf (fst (kheap s1)) [[] \<mapsto> droot] v = 0" "\<forall>n. pages_free F (2 + n) \<longrightarrow> pages_free F1 n"
      using new unfolding r sum.case prod.case by blast
    have "space R F1 s1 src sroot stab sl" by (rule space_kept [OF src copyingD(2,6,7) [OF n(1)]])
    note start = clist_head [OF spaceD(4) [OF this]]
    have "card (blk 5 dst) = 32 + 64 * length ([] :: piece list)" using n(2) by simp
    note seg = copy_segments_spec [OF src append_Nil [symmetric] n(1) copied_nothing [OF n(3)] this]
    let ?r = "copy_segments s1 src dst (hd (seg_nodes sl @ [mm_segments src]))"
    have run: "copy_mm s src = bindE (bindE (returns ?r) id) (\<lambda>s. Inr (dst, s))"
      by (cases ?r) (simp_all add: copy_mm_def r start returns_def)
    show ?thesis
    proof (cases ?r)
      case None
      with seg show ?thesis by simp
    next
      case (Some x)
      show ?thesis
      proof (cases x)
        case (Inl e)
        with seg n(4) Some show ?thesis unfolding run by (simp add: returns_def) blast
      next
        case (Inr s')
        with seg Some n(4) show ?thesis unfolding run by (simp add: returns_def) blast
      qed
    qed
  qed
qed

section \<open>Destroying a copy\<close>

lemma copying_destroyed:
  assumes c: "copying R F0 s0 dst droot F s dtab dl St"
  shows "\<exists>h l. dealloc_memory_map s dst = Inr (s\<lparr>kheap := h, klinks := l\<rparr>) \<and> buddy_inv R h (F0 - St) \<and>
    kept F0 s0 (s\<lparr>kheap := h, klinks := l\<rparr>)"
proof -
  note cd = copyingD [OF c]
  let ?T = "F \<union> page_set (set (frames_of dl)) \<union> page_set (ran dtab)"
  obtain h l where d: "dealloc_memory_map s dst = Inr (s\<lparr>kheap := h, klinks := l\<rparr>)" "buddy_inv R h ?T"
    "same_outside ?T (fst (kheap s)) (fst h)" "links_same_outside (set (mm_segments dst # seg_nodes dl)) (klinks s) l"
    by (rule dealloc_memory_map_spec [OF cd(1)])
  have T: "?T = F0 - St" using cd(3,4) by blast
  have "same_outside F0 (fst (kheap s)) (fst h)" by (rule same_outside_mono [OF d(3)]) (use T in blast)
  moreover have "links_same_outside F0 (klinks s) l" by (rule links_same_mono [OF d(4)]) (use cd(3,5) in blast)
  ultimately have "kept F0 s (s\<lparr>kheap := h, klinks := l\<rparr>)" by (simp add: kept_def)
  with d(1,2) cd(2) show ?thesis unfolding T using kept_trans by blast
qed

end
