(* ===== verification/Space_Properties.thy ===== *)
theory Space_Properties
  imports Space_Clone Paging_Properties
begin

text \<open>
  The properties of whole address spaces: \<^verbatim>\<open>copy_mm\<close> and \<^verbatim>\<open>dealloc_memory_map\<close> of \<^verbatim>\<open>kernel/mapping.c\<close>,
  with an instance on a heap of sixteen pages at the end of the memory.
\<close>

section \<open>An address space with one segment\<close>

definition room_start :: addr where
  "room_start = 0xffffffff87ff0000"

abbreviation room :: "addr set" where
  "room \<equiv> {room_start..<heap_end}"

lemma room_init:
  "\<exists>h. init_allocator room_start (m, b) = Inr h \<and> buddy_inv room h room \<and> same_outside room m (fst h)"
proof -
  have "room_start \<le> heap_end" "room_start \<noteq> 0" "unat heap_end - unat room_start < 2 ^ MAX_ORDER"
    "aligned 3 room_start"
    by (simp_all add: heap_end_def room_start_def MAX_ORDER_def aligned_nat_dvd)
  from init_region_spec [OF this heap_bounds(5), of m b]
  show ?thesis by (auto simp: init_allocator_def heap_bounds(6))
qed

definition room_heap :: bstate where
  "room_heap = projr (init_allocator room_start (\<lambda>_. 0, \<lparr>free_list = [], total = 7, allocated = 7\<rparr>))"

lemma room_inv: "buddy_inv room room_heap room"
  using room_init [of "\<lambda>_. 0" "\<lparr>free_list = [], total = 7, allocated = 7\<rparr>"] by (auto simp: room_heap_def)

lemma room_window: "in_window room"
proof -
  have "a \<noteq> 0 \<and> pa_of a < 2 ^ 56" if "a \<in> room" for a
  proof -
    have a: "0xffffffff87ff0000 \<le> unat a" "unat a < 0xffffffff88000000"
      using that by (simp_all add: room_start_def heap_end_def word_le_nat_alt word_less_nat_alt)
    then have "unat (pa_of a) = unat a - 0xffffffff00000000"
      by (simp add: pa_of_def KERNEL_MAP_OFFSET_def unat_sub word_le_nat_alt)
    with a show ?thesis by (auto simp: word_less_nat_alt)
  qed
  then show ?thesis by (simp add: in_window_def)
qed

lemma room_pages: "pages_free room 16"
proof -
  define P :: "u64 set" where "P = {0x87ff0, 0x87ff1, 0x87ff2, 0x87ff3, 0x87ff4, 0x87ff5, 0x87ff6, 0x87ff7,
    0x87ff8, 0x87ff9, 0x87ffa, 0x87ffb, 0x87ffc, 0x87ffd, 0x87ffe, 0x87fff}"
  have "blk 12 (page_va p) \<subseteq> room" if "p \<in> P" for p
  proof -
    have "unat (page_va p) + 2 ^ 12 \<le> unat heap_end \<and> room_start \<le> page_va p"
      using that by (auto simp: P_def va_of_def KERNEL_MAP_OFFSET_def push_bit_eq_mult heap_end_def
          room_start_def word_le_nat_alt)
    then have "blk 12 (page_va p) = {page_va p..<page_va p + 2 ^ 12}"
      "page_va p + 2 ^ 12 \<le> heap_end" "room_start \<le> page_va p"
      using blk_interval [OF aligned_page_va, of p heap_end] by (simp_all add: word_le_nat_alt)
    then show ?thesis by auto
  qed
  moreover have "card P = 16" "finite P" "\<forall>p \<in> P. p < 2 ^ 44" by (simp_all add: P_def)
  ultimately show ?thesis unfolding pages_free_def by (intro exI [of _ P]) (auto simp: page_set_def)
qed

definition room_vm :: vm where
  "room_vm = \<lparr>kheap = room_heap, klinks = \<lparr>next_of = (\<lambda>_. 0), prev_of = (\<lambda>_. 0)\<rparr>, segs = Map.empty, mms = Map.empty, satp = 0\<rparr>"

text \<open>The segment is made, mapped and linked as the loader does it.\<close>

definition demo_map :: "segment_type \<Rightarrow> (addr \<times> vm) outcome" where
  "demo_map ty =
     bindE (new_memory_map room_vm) (\<lambda>(mp, s).
     bindE (new_segment s 0x10000 0x10100 0x1f ty) (\<lambda>(sg, s).
     bindE (deref (mms s) mp) (\<lambda>root.
     bindE (map_segment_at s root sg 0 0) (\<lambda>s.
     Inr (mp, s\<lparr>klinks := list_add_tail (klinks s) (seg_list sg) (mm_segments mp)\<rparr>)))))"

lemma demo_map_space:
  "\<exists>mp s F root tab sl. demo_map ty = Inr (mp, s) \<and> space room F s mp root tab sl \<and>
     (\<exists>a ps. sl = [(a, demo_segment\<lparr>seg_type := ty\<rparr>, ps)] \<and> (ty = Framed \<longrightarrow> (\<exists>p. ps = [p]))) \<and> length sl = 1 \<and> copy_cost sl = 4 \<and> pages_free F 10"
proof -
  have inv: "buddy_inv room (kheap room_vm) room" using room_inv by (simp add: room_vm_def)
  note new = new_memory_map_spec [OF inv room_window]
  have "pages_free room 2" "pages_free room (2 + 14)" using pages_free_less [OF room_pages, of 2] room_pages by simp_all
  then obtain r0 where "new_memory_map room_vm = Inr r0" using new by (cases "new_memory_map room_vm") auto
  then obtain mp s1 where mp: "new_memory_map room_vm = Inr (mp, s1)" by (cases r0) auto
  obtain root F1 where n: "new_memory_map room_vm = Inr (mp, s1)"
    "copying room room room_vm mp root F1 s1 [[] \<mapsto> root] [] (blk 5 mp)"
    "\<forall>v. leaf (fst (kheap s1)) [[] \<mapsto> root] v = 0" "pages_free F1 14"
    using new mp \<open>pages_free room (2 + 14)\<close> unfolding mp sum.case prod.case by blast
  let ?tab = "[[] \<mapsto> root]" and ?sg = "demo_segment\<lparr>seg_type := ty\<rparr>"
  have flags: "seg_flags ?sg < 2 ^ 10" "seg_flags ?sg AND (PAGE_READ OR PAGE_WRITE OR PAGE_EXEC) \<noteq> 0"
    by (simp_all add: demo_segment_def PAGE_READ_def PAGE_WRITE_def PAGE_EXEC_def)
  have range: "seg_vpns ?sg = [0x10]" using demo_range by simp
  have zero: "\<forall>v \<in> set (seg_vpns ?sg). leaf (fst (kheap s1)) ?tab v = 0" using n(3) by blast
  have dist: "distinct (map (take_bit 27) (vpns_of [] @ seg_vpns ?sg))" unfolding range by simp
  let ?made = "bindE (new_segment s1 (start_va ?sg) (end_va ?sg) (seg_flags ?sg) (seg_type ?sg)) (\<lambda>(b, s).
        bindE (map_segment_at s root b 0 0) (\<lambda>s. Inr (b, s)))"
  have len: "length (seg_vpns ?sg) = 1" unfolding range by simp
  have "distinct (map (take_bit 27) (seg_vpns ?sg))" unfolding range by simp
  note st = copy_struct [OF n(2) flags zero this data_ok_0 disjI1 [OF refl], unfolded len]
  have "pages_free F1 (Suc (3 * 1))" using pages_free_less [OF n(4), of 4] by simp
  then obtain r where "?made = Inr r" using st by (cases ?made) auto
  then obtain b s2 where r: "?made = Inr (b, s2)" by (cases r) auto
  obtain s' F2 tab2 qs where q: "aligned 6 b" "blk 6 b \<subseteq> F1" "space room (F1 - blk 6 b) s' mp root ?tab []"
      "s2 = s'\<lparr>kheap := kheap s2\<rparr>" "kept F1 s1 s'" "segs s' = (segs s1)(b \<mapsto> ?sg)" "mms s' = mms s1"
      "evolved room (kheap s') (F1 - blk 6 b) ?tab (kheap s2) F2 tab2 (set qs)" "distinct qs"
      "maps_segment (fst (kheap s2)) tab2 ?sg qs"
      "\<forall>v. take_bit 27 v \<notin> take_bit 27 ` set (seg_vpns ?sg) \<longrightarrow>
         leaf (fst (kheap s2)) tab2 v = leaf (fst (kheap s1)) ?tab v \<and>
         leaf (fst (kheap s')) ?tab v = leaf (fst (kheap s1)) ?tab v"
      "\<forall>v. take_bit 27 v \<in> take_bit 27 ` set (seg_vpns ?sg) \<longrightarrow> \<not> is_table (leaf (fst (kheap s2)) tab2 v)"
      "\<forall>n. pages_free F1 (Suc (3 * 1) + n) \<longrightarrow> pages_free F2 n"
    using st unfolding r sum.case prod.case by blast
  have segb: "segs s' b = Some ?sg" by (simp add: q(6))
  have eq: "\<forall>v. take_bit 27 v \<notin> take_bit 27 ` set (seg_vpns ?sg) \<longrightarrow>
      leaf (fst (kheap s2)) tab2 v = leaf (fst (kheap s')) ?tab v" using q(11) by simp
  note en = copying_entered(1) [OF n(2) q(1-3,5) segb q(8-10) eq q(12) dist]
  have "s'\<lparr>kheap := kheap s2, klinks := list_add_tail (klinks s') (seg_list b) (mm_segments mp)\<rparr> =
      s2\<lparr>klinks := list_add_tail (klinks s2) (seg_list b) (mm_segments mp)\<rparr>" by (subst (2 3) q(4)) simp
  with copyingD(1) [OF en] have sp: "space room F2 (s2\<lparr>klinks := list_add_tail (klinks s2) (seg_list b) (mm_segments mp)\<rparr>)
      mp root tab2 [(b, ?sg, qs)]" by simp
  have "mms s1 mp = Some root" by (rule spaceD(2) [OF copyingD(1) [OF n(2)]])
  moreover have "mms t = mms s1" if "new_segment s1 st en fl ty = Inr (b', t)" for st en fl ty b' t
    using that by (auto simp: new_segment_def bindE_Inr_iff)
  ultimately have "demo_map ty = Inr (mp, s2\<lparr>klinks := list_add_tail (klinks s2) (seg_list b) (mm_segments mp)\<rparr>)"
    using r n(1) by (auto simp: demo_map_def demo_segment_def bindE_Inr_iff)
  moreover have "pages_free F2 10" using q(13) n(4) by simp
  moreover have "\<exists>q. qs = [q]" if "ty = Framed"
    using q(10) that unfolding maps_segment_def range by (auto simp: list_all2_Cons1)
  moreover have "copy_cost [(b, ?sg, qs)] = 4" using len by simp
  ultimately show ?thesis using sp
    by (intro exI [of _ mp] exI [of _ "s2\<lparr>klinks := list_add_tail (klinks s2) (seg_list b) (mm_segments mp)\<rparr>"]
        exI [of _ F2] exI [of _ root] exI [of _ tab2] exI [of _ "[(b, ?sg, qs)]"]) simp
qed

lemma framed: "demo_segment\<lparr>seg_type := Framed\<rparr> = demo_segment"
  by (simp add: demo_segment_def)

section \<open>Copying an address space\<close>

text \<open>
  C6: \<^verbatim>\<open>copy_mm\<close> of an address space returns and either panics, which needs a free memory of fewer
  pages than the count given, or yields a second address space. Its framed segments are those of the
  source, page by page with the same bytes and in frames of its own, its linear segments are mapped to
  the same physical pages, it maps nothing else, its tables and frames are taken from the free memory,
  and everything outside the memory that was free is as before: the source and every other address space
  are unchanged.
\<close>

theorem copy_mm_correct:
  assumes "space R F s src sroot stab sl"
  shows "case copy_mm s src of
      Inl e \<Rightarrow> e = Panic ''Not enough memory!'' \<and> \<not> pages_free F (2 + copy_cost sl)
    | Inr (dst, s') \<Rightarrow> (\<exists>droot F' dtab dl. space R F' s' dst droot dtab dl \<and>
        copied (fst (kheap s)) (fst (kheap s')) dtab sl dl \<and>
        page_set (ran dtab) \<union> page_set (set (frames_of dl)) \<subseteq> F - F' \<and>
        same_outside F (fst (kheap s)) (fst (kheap s')) \<and>
        (\<forall>m root tab tl. space R F s m root tab tl \<longrightarrow> space R F' s' m root tab tl))"
proof (cases "copy_mm s src")
  case (Inl e)
  with copy_mm_spec [OF assms] show ?thesis by simp
next
  case (Inr r)
  obtain dst s' where r: "r = (dst, s')" by (cases r)
  obtain droot F' dtab dl St where c: "copying R F s dst droot F' s' dtab dl St"
    "copied (fst (kheap s)) (fst (kheap s')) dtab sl dl"
    using copy_mm_spec [OF assms] unfolding Inr r by auto
  note cd = copyingD [OF c(1)]
  have "page_set (ran dtab) \<union> page_set (set (frames_of dl)) \<subseteq> F - F'"
    using cd(3) spaceD(1,11) [OF cd(1)] by (auto simp: pt_inv_def)
  moreover have "same_outside F (fst (kheap s)) (fst (kheap s'))" using cd(2) by (simp add: kept_def)
  moreover have "space R F' s' m root tab tl" if "space R F s m root tab tl" for m root tab tl
    by (rule space_kept [OF that cd(2,6,7)])
  ultimately show ?thesis using cd(1) c(2) unfolding Inr r sum.case prod.case by blast
qed

theorem copy_mm_correct_witness:
  "\<exists>src s dst s' F' droot dtab b q. demo_map Framed = Inr (src, s) \<and> copy_mm s src = Inr (dst, s') \<and>
     space room F' s' dst droot dtab [(b, demo_segment, [q])]"
proof -
  obtain src s F root tab sl where d: "demo_map Framed = Inr (src, s)" "space room F s src root tab sl"
    "\<exists>a p. sl = [(a, demo_segment, [p])]" "copy_cost sl = 4" "pages_free F 10"
    using demo_map_space [of Framed] framed by auto
  have "pages_free F (2 + copy_cost sl)" using pages_free_less [OF d(5), of 6] d(4) by simp
  with copy_mm_correct [OF d(2)] obtain r where "copy_mm s src = Inr r" by (cases "copy_mm s src") auto
  then obtain dst s' where r: "copy_mm s src = Inr (dst, s')" by (cases r) auto
  obtain droot F' dtab dl where c: "space room F' s' dst droot dtab dl"
    "copied (fst (kheap s)) (fst (kheap s')) dtab sl dl"
    using copy_mm_correct [OF d(2)] unfolding r by auto
  from d(3) c(2) obtain b q where "dl = [(b, demo_segment, [q])]"
    by (auto simp: copied_def same_contents_def list_all2_Cons1 demo_segment_def)
  with d(1) r c(1) show ?thesis by blast
qed

section \<open>Destroying an address space\<close>

text \<open>
  C18: \<^verbatim>\<open>dealloc_memory_map\<close> of an address space returns and gives back its page tables and the frames of
  its segments, no other memory, and leaves its list of segments empty. The blocks of the structs
  themselves stay allocated.
\<close>

theorem dealloc_memory_map_correct:
  assumes "space R F s mp root tab sl"
  shows "\<exists>h l. dealloc_memory_map s mp = Inr (s\<lparr>kheap := h, klinks := l\<rparr>) \<and>
    buddy_inv R h (F \<union> page_set (set (frames_of sl)) \<union> page_set (ran tab)) \<and>
    same_outside (F \<union> page_set (set (frames_of sl)) \<union> page_set (ran tab)) (fst (kheap s)) (fst h) \<and>
    clist l (mm_segments mp) []"
  by (rule dealloc_memory_map_spec [OF assms]) blast

theorem dealloc_memory_map_correct_witness:
  "\<exists>mp s h l. demo_map Framed = Inr (mp, s) \<and> dealloc_memory_map s mp = Inr (s\<lparr>kheap := h, klinks := l\<rparr>) \<and>
     clist l (mm_segments mp) []"
proof -
  obtain mp s F root tab sl where d: "demo_map Framed = Inr (mp, s)" "space room F s mp root tab sl"
    using demo_map_space [of Framed] framed by auto
  from dealloc_memory_map_correct [OF d(2)] d(1) show ?thesis by blast
qed

text \<open>
  C12: a copy that is destroyed does not give back all it took: of the memory that was free before
  \<^verbatim>\<open>copy_mm\<close>, the 32 bytes of the map's block and 64 bytes for every segment of the source, framed or
  linear, are lost after \<^verbatim>\<open>dealloc_memory_map\<close>.
\<close>

theorem copy_destroyed_leaks:
  assumes "space R F s src sroot stab sl" and "copy_mm s src = Inr (dst, s')"
  shows "\<exists>s'' St. dealloc_memory_map s' dst = Inr s'' \<and> St \<subseteq> F \<and> card St = 32 + 64 * length sl \<and>
    buddy_inv R (kheap s'') (F - St) \<and> space R (F - St) s'' src sroot stab sl"
proof -
  obtain droot F' dtab dl St where c: "copying R F s dst droot F' s' dtab dl St" "card St = 32 + 64 * length sl"
    using copy_mm_spec [OF assms(1)] unfolding assms(2) by auto
  obtain h l where d: "dealloc_memory_map s' dst = Inr (s'\<lparr>kheap := h, klinks := l\<rparr>)" "buddy_inv R h (F - St)"
    "kept F s (s'\<lparr>kheap := h, klinks := l\<rparr>)"
    using copying_destroyed [OF c(1)] by blast
  have "buddy_inv R (kheap (s'\<lparr>kheap := h, klinks := l\<rparr>)) (F - St)" using d(2) by simp
  from this space_kept [OF assms(1) d(3) this] show ?thesis using d(1) c(2) copyingD(3) [OF c(1)] by blast
qed

theorem copy_destroyed_leaks_witness:
  "\<exists>src s dst s' s'' F St. demo_map Framed = Inr (src, s) \<and> copy_mm s src = Inr (dst, s') \<and>
     dealloc_memory_map s' dst = Inr s'' \<and> St \<subseteq> F \<and> card St = 96 \<and> buddy_inv room (kheap s'') (F - St)"
proof -
  obtain src s F root tab sl where d: "demo_map Framed = Inr (src, s)" "space room F s src root tab sl"
    "length sl = 1" "copy_cost sl = 4" "pages_free F 10"
    using demo_map_space [of Framed] by auto
  have "pages_free F (2 + copy_cost sl)" using pages_free_less [OF d(5), of 6] d(4) by simp
  with copy_mm_spec [OF d(2)] obtain r where "copy_mm s src = Inr r" by (cases "copy_mm s src") auto
  then obtain dst s' where r: "copy_mm s src = Inr (dst, s')" by (cases r) auto
  obtain s'' St where "dealloc_memory_map s' dst = Inr s''" "St \<subseteq> F" "card St = 96" "buddy_inv room (kheap s'') (F - St)"
    using copy_destroyed_leaks [OF d(2) r] d(3) by auto
  with d(1) r show ?thesis by blast
qed

section \<open>A copy of a copy\<close>

lemma linear_apart:
  assumes "distinct (map (take_bit 27) (vpns_of sl))" and "(a, sg, ps) \<in> set sl" and "seg_type sg = Linear"
    and "v \<in> set (seg_vpns sg)"
  shows "take_bit 27 v \<notin> take_bit 27 ` set (vpns_of (filter (\<lambda>(_, sg, _). seg_type sg = Framed) sl))"
proof -
  obtain xs ys where sl: "sl = xs @ (a, sg, ps) # ys" using assms(2) by (auto dest: split_list)
  have "take_bit 27 v \<notin> take_bit 27 ` set (vpns_of (xs @ ys))" using assms(1,4) by (auto simp: sl)
  moreover have "set (vpns_of (filter (\<lambda>(_, sg, _). seg_type sg = Framed) sl)) \<subseteq> set (vpns_of (xs @ ys))"
    using assms(3) by (auto simp: sl vpns_of_def)
  ultimately show ?thesis by blast
qed

text \<open>
  C13: the copy of a copy is not one of the first address space: a page of a linear segment is mapped in
  the copy, by the entry it has in the source, but in the second copy its entry is 0. (The first copy does
  not have the segment in its list.) For the kernel's own segments this means that the child of a child
  has no kernel to trap into.
\<close>

theorem second_copy_unmapped:
  assumes src: "space R F s src sroot stab sl" and copies: "copy_mm s src = Inr (dst, s1)" "copy_mm s1 dst = Inr (dst2, s2)"
    and x: "(a, sg, ps) \<in> set sl" "seg_type sg = Linear" and v: "v \<in> set (seg_vpns sg)"
  shows "\<exists>F2 r1 t1 l1 r2 t2 l2. space R F2 s2 dst r1 t1 l1 \<and> space R F2 s2 dst2 r2 t2 l2 \<and>
    leaf (fst (kheap s)) stab v = PPN2PTE (ppn_of v) (seg_flags sg) \<and>
    leaf (fst (kheap s2)) t1 v = PPN2PTE (ppn_of v) (seg_flags sg) \<and> leaf (fst (kheap s2)) t2 v = 0"
proof -
  obtain r1 F1 t1 l1 St where c1: "copying R F s dst r1 F1 s1 t1 l1 St" "copied (fst (kheap s)) (fst (kheap s1)) t1 sl l1"
    using copy_mm_spec [OF src] unfolding copies by auto
  note sp1 = copyingD(1) [OF c1(1)]
  obtain r2 F2 t2 l2 St2 where c2: "copying R F1 s1 dst2 r2 F2 s2 t2 l2 St2"
    "copied (fst (kheap s1)) (fst (kheap s2)) t2 l1 l2"
    using copy_mm_spec [OF sp1] unfolding copies by auto
  note cd = copyingD [OF c2(1)]
  have "maps_segment (fst (kheap s1)) t1 sg []" using c1(2) x unfolding copied_def same_contents_def by blast
  then have l1: "leaf (fst (kheap s1)) t1 v = PPN2PTE (ppn_of v) (seg_flags sg)" using x(2) v by (simp add: maps_segment_def)
  have t1: "tree_ok (fst (kheap s1)) t1" "page_set (ran t1) \<inter> F1 = {}" using spaceD(1) [OF sp1] by (auto simp: pt_inv_def)
  have "same_outside F1 (fst (kheap s1)) (fst (kheap s2))" using cd(2) by (simp add: kept_def)
  then have "leaf (fst (kheap s2)) t1 v = leaf (fst (kheap s1)) t1 v" using tree_frame(2) [OF t1(1)] t1(2) by blast
  moreover have "maps_segment (fst (kheap s)) stab sg ps" using spaceD(5) [OF src x(1)] by simp
  then have "leaf (fst (kheap s)) stab v = PPN2PTE (ppn_of v) (seg_flags sg)" using x(2) v by (simp add: maps_segment_def)
  moreover have "take_bit 27 v \<notin> take_bit 27 ` set (vpns_of l1)"
    using linear_apart [OF spaceD(8) [OF src] x v] copied_framed [OF c1(2)] by simp
  then have "leaf (fst (kheap s2)) t2 v = 0" using c2(2) by (simp add: copied_def same_contents_def)
  moreover note l1 cd(1) space_kept [OF sp1 cd(2,6,7)]
  ultimately show ?thesis by metis
qed

theorem second_copy_unmapped_witness:
  "\<exists>src s dst s1 dst2 s2 F2 r1 t1 l1 r2 t2 l2. demo_map Linear = Inr (src, s) \<and> copy_mm s src = Inr (dst, s1) \<and>
     copy_mm s1 dst = Inr (dst2, s2) \<and> space room F2 s2 dst r1 t1 l1 \<and> space room F2 s2 dst2 r2 t2 l2 \<and>
     leaf (fst (kheap s2)) t1 0x10 = PPN2PTE (ppn_of 0x10) 0x1f \<and> leaf (fst (kheap s2)) t2 0x10 = 0"
proof -
  let ?sg = "demo_segment\<lparr>seg_type := Linear\<rparr>"
  obtain src s F root tab sl a ps where d: "demo_map Linear = Inr (src, s)" "space room F s src root tab sl"
    "sl = [(a, ?sg, ps)]" "copy_cost sl = 4" "pages_free F 10"
    using demo_map_space [of Linear] by blast
  have F: "pages_free F (2 + copy_cost sl + 4)" "pages_free F (2 + copy_cost sl)"
    using pages_free_less [OF d(5), of 6] d(4,5) by simp_all
  with copy_mm_spec [OF d(2)] obtain r where "copy_mm s src = Inr r" by (cases "copy_mm s src") auto
  then obtain dst s1 where r: "copy_mm s src = Inr (dst, s1)" by (cases r) auto
  obtain r1 F1 t1 l1 St where c1: "copying room F s dst r1 F1 s1 t1 l1 St" "copied (fst (kheap s)) (fst (kheap s1)) t1 sl l1"
    "pages_free F1 4"
    using copy_mm_spec [OF d(2)] F(1) unfolding r by auto
  have "l1 = []" using c1(2) by (simp add: copied_def same_contents_def d(3))
  then have "pages_free F1 (2 + copy_cost l1)" using pages_free_less [OF c1(3), of 2] by simp
  with copy_mm_spec [OF copyingD(1) [OF c1(1)]] obtain t where "copy_mm s1 dst = Inr t" by (cases "copy_mm s1 dst") auto
  then obtain dst2 s2 where t: "copy_mm s1 dst = Inr (dst2, s2)" by (cases t) auto
  have v: "(0x10 :: u64) \<in> set (seg_vpns ?sg)" using demo_range by simp
  have "(a, ?sg, ps) \<in> set sl" by (simp add: d(3))
  note sc = second_copy_unmapped [OF d(2) r t this _ v]
  have "seg_flags ?sg = 0x1f" by (simp add: demo_segment_def)
  with sc d(1) r t show ?thesis by auto blast
qed

end
