(* ===== verification/Elf_Load.thy ===== *)
theory Elf_Load
  imports Space_Clone
begin

text \<open>
  The address spaces that are built from nothing: the kernel's own segments, by \<^verbatim>\<open>new_kernel_memory_map\<close> of
  \<^verbatim>\<open>kernel/mapping.c\<close>, and a program on top of them, by \<^verbatim>\<open>from_elf\<close> of \<^verbatim>\<open>kernel/elf.c\<close>.
\<close>

section \<open>The kernel's segments\<close>

definition kernel_segments :: "image \<Rightarrow> segment list" where
  "kernel_segments img =
     [\<lparr>start_va = stext img, end_va = etext img, seg_flags = PAGE_VALID OR PAGE_READ OR PAGE_EXEC, seg_type = Linear\<rparr>,
      \<lparr>start_va = srodata img, end_va = erodata img, seg_flags = PAGE_VALID OR PAGE_READ, seg_type = Linear\<rparr>,
      \<lparr>start_va = sdata img, end_va = edata img, seg_flags = PAGE_VALID OR PAGE_READ OR PAGE_WRITE, seg_type = Linear\<rparr>,
      \<lparr>start_va = sbss_with_stack img, end_va = ebss img, seg_flags = PAGE_VALID OR PAGE_READ OR PAGE_WRITE, seg_type = Linear\<rparr>,
      \<lparr>start_va = ekernel img, end_va = va_of MEMORY_END, seg_flags = PAGE_VALID OR PAGE_READ OR PAGE_WRITE, seg_type = Linear\<rparr>]"

lemma kernel_segments_ok:
  "\<forall>sg \<in> set (kernel_segments img). seg_type sg = Linear \<and> seg_flags sg < 2 ^ 10 \<and>
     seg_flags sg AND (PAGE_READ OR PAGE_WRITE OR PAGE_EXEC) \<noteq> 0"
  by (simp add: kernel_segments_def PAGE_VALID_def PAGE_READ_def PAGE_WRITE_def PAGE_EXEC_def)

text \<open>The calls of the code as one loop over the segments.\<close>

fun linear_segments :: "'a vm_scheme \<Rightarrow> addr \<Rightarrow> segment list \<Rightarrow> (addr list \<times> 'a vm_scheme) outcome" where
  "linear_segments s mp [] = Inr ([], s)"
| "linear_segments s mp (sg # sgs) =
     bindE (linear_segment s mp (start_va sg) (end_va sg) (seg_flags sg)) (\<lambda>(b, s).
     bindE (linear_segments s mp sgs) (\<lambda>(bs, s). Inr (b # bs, s)))"

definition list_segments :: "addr \<Rightarrow> addr list \<Rightarrow> links \<Rightarrow> links" where
  "list_segments mp bs l = foldr (\<lambda>b l. list_add l (seg_list b) (mm_segments mp)) bs l"

lemma new_kernel_memory_map_loop:
  "new_kernel_memory_map img s =
     bindE (new_memory_map s) (\<lambda>(mp, s).
     bindE (linear_segments s mp (kernel_segments img)) (\<lambda>(bs, s).
     Inr (mp, s\<lparr>klinks := list_segments mp bs (klinks s)\<rparr>)))"
  by (simp add: new_kernel_memory_map_def kernel_segments_def list_segments_def bindE_assoc case_prod_unfold Let_def)

text \<open>One linear segment: mapped, and not yet in the list.\<close>

lemma linear_segment_spec:
  assumes c: "copying R F0 s0 dst droot F s dtab dl St" and lin: "seg_type sg = Linear"
    and flags: "seg_flags sg < 2 ^ 10" "seg_flags sg AND (PAGE_READ OR PAGE_WRITE OR PAGE_EXEC) \<noteq> 0"
    and new: "\<forall>v \<in> set (seg_vpns sg). leaf (fst (kheap s)) dtab v = 0"
    and dist: "distinct (map (take_bit 27) (seg_vpns sg))"
    and apart: "take_bit 27 ` set (vpns_of dl) \<inter> take_bit 27 ` set (seg_vpns sg) = {}"
  shows "case linear_segment s dst (start_va sg) (end_va sg) (seg_flags sg) of
      Inl e \<Rightarrow> e = Panic ''Not enough memory!'' \<and> \<not> pages_free F (Suc (3 * length (seg_vpns sg)))
    | Inr (b, s') \<Rightarrow> \<exists>F' dtab'. copying R F0 s0 dst droot F' s' dtab' dl (St \<union> blk 6 b) \<and> aligned 6 b \<and>
        blk 6 b \<subseteq> F \<and> F' \<subseteq> F - blk 6 b \<and> kept F s (s'\<lparr>kheap := kheap s\<rparr>) \<and> segs s' b = Some sg \<and>
        maps_segment (fst (kheap s')) dtab' sg [] \<and>
        (\<forall>v. take_bit 27 v \<notin> take_bit 27 ` set (seg_vpns sg) \<longrightarrow> leaf (fst (kheap s')) dtab' v = leaf (fst (kheap s)) dtab v) \<and>
        (\<forall>n. pages_free F (Suc (3 * length (seg_vpns sg)) + n) \<longrightarrow> pages_free F' n)"
proof -
  note st = copy_struct [OF c flags new dist data_ok_0 disjI1 [OF refl]]
  let ?made = "bindE (new_segment s (start_va sg) (end_va sg) (seg_flags sg) (seg_type sg)) (\<lambda>(b, s).
      bindE (map_segment_at s droot b 0 0) (\<lambda>s. Inr (b, s)))"
  have stores: "mms s1 = mms s" if "new_segment s (start_va sg) (end_va sg) (seg_flags sg) (seg_type sg) = Inr (b, s1)" for b s1
    by (rule new_struct(6) [OF copyingD(6) [OF c] that])
  have root: "mms s dst = Some droot" by (rule spaceD(2) [OF copyingD(1) [OF c]])
  have run: "linear_segment s dst (start_va sg) (end_va sg) (seg_flags sg) = ?made"
    using stores root lin
    by (cases "new_segment s (start_va sg) (end_va sg) (seg_flags sg) (seg_type sg)")
      (auto simp: linear_segment_def deref_def split: prod.splits)
  show ?thesis
  proof (cases ?made)
    case (Inl e)
    with st show ?thesis unfolding run by simp
  next
    case (Inr r)
    obtain b s2 where r: "?made = Inr (b, s2)" using Inr by (cases r) auto
    obtain s1 F2 dtab2 qs where q: "aligned 6 b" "blk 6 b \<subseteq> F" "space R (F - blk 6 b) s1 dst droot dtab dl"
      "s2 = s1\<lparr>kheap := kheap s2\<rparr>" "kept F s s1" "segs s1 = (segs s)(b \<mapsto> sg)"
      "evolved R (kheap s1) (F - blk 6 b) dtab (kheap s2) F2 dtab2 (set qs)" "maps_segment (fst (kheap s2)) dtab2 sg qs"
      and lf: "\<forall>v. take_bit 27 v \<notin> take_bit 27 ` set (seg_vpns sg) \<longrightarrow> leaf (fst (kheap s2)) dtab2 v = leaf (fst (kheap s)) dtab v \<and>
           leaf (fst (kheap s1)) dtab v = leaf (fst (kheap s)) dtab v"
        "\<forall>v. take_bit 27 v \<in> take_bit 27 ` set (seg_vpns sg) \<longrightarrow> \<not> is_table (leaf (fst (kheap s2)) dtab2 v)"
      and pf: "\<forall>n. pages_free F (Suc (3 * length (seg_vpns sg)) + n) \<longrightarrow> pages_free F2 n"
      using st unfolding r sum.case prod.case by blast
    have nil: "qs = []" using q(8) lin by (simp add: maps_segment_def)
    have lf1: "\<forall>v. take_bit 27 v \<notin> take_bit 27 ` set (seg_vpns sg) \<longrightarrow> leaf (fst (kheap s2)) dtab2 v = leaf (fst (kheap s1)) dtab v"
      using lf(1) by simp
    note cm = copying_mapped [OF c q(1-3,5,7) lf1 lf(2) apart, folded q(4)]
    have "copying R F0 s0 dst droot F2 s2 dtab2 dl (St \<union> blk 6 b)"
      using cm(1-4) copyingD(5) [OF c] nil unfolding copying_def by auto
    moreover have "segs s2 b = Some sg" by (subst q(4)) (simp add: q(6))
    moreover have "kept F s (s2\<lparr>kheap := kheap s\<rparr>)"
    proof -
      have "s2\<lparr>kheap := kheap s\<rparr> = s1\<lparr>kheap := kheap s\<rparr>" by (subst q(4)) simp
      moreover have "kept F s1 (s1\<lparr>kheap := kheap s\<rparr>)"
        by (rule kept_kheap) (use q(5) in \<open>simp add: kept_def same_outside_def\<close>)
      ultimately show ?thesis using kept_trans [OF q(5)] by simp
    qed
    moreover have "F2 \<subseteq> F - blk 6 b" using evolvedD(3) [OF q(7)] by blast
    ultimately show ?thesis using q(1,2,8) nil lf(1) pf unfolding run r sum.case prod.case
      by (intro exI [of _ F2] exI [of _ dtab2]) simp
  qed
qed

definition segs_cost :: "segment list \<Rightarrow> nat" where
  "segs_cost sgs = sum_list (map (\<lambda>sg. Suc (3 * length (seg_vpns sg))) sgs)"

lemma segs_cost_simps [simp]:
  "segs_cost [] = 0" "segs_cost (sg # sgs) = Suc (3 * length (seg_vpns sg)) + segs_cost sgs"
  by (simp_all add: segs_cost_def)

abbreviation all_vpns :: "segment list \<Rightarrow> u64 list" where
  "all_vpns sgs \<equiv> concat (map seg_vpns sgs)"

text \<open>Structs in the store, mapped by the tables.\<close>

definition made :: "addr set \<Rightarrow> 'a vm_scheme \<Rightarrow> tree \<Rightarrow> addr \<times> segment \<Rightarrow> bool" where
  "made S s tab = (\<lambda>(b, sg). aligned 6 b \<and> blk 6 b \<subseteq> S \<and> segs s b = Some sg \<and> maps_segment (fst (kheap s)) tab sg [])"

text \<open>The memory of the structs of an address space: of the \<^verbatim>\<open>struct MemoryMap\<close> and of each \<^verbatim>\<open>struct Segment\<close>.\<close>

definition structs :: "addr \<Rightarrow> piece list \<Rightarrow> addr set" where
  "structs mp sl = blk 5 mp \<union> (\<Union>x \<in> set sl. blk 6 (fst x))"

lemma structs_append: "structs mp (xs @ ys) = structs mp ys \<union> (\<Union>x \<in> set xs. blk 6 (fst x))"
  by (auto simp: structs_def)

lemma linear_segments_spec:
  assumes "copying R F0 s0 dst droot F s dtab dl St"
    and "\<forall>sg \<in> set sgs. seg_type sg = Linear \<and> seg_flags sg < 2 ^ 10 \<and>
      seg_flags sg AND (PAGE_READ OR PAGE_WRITE OR PAGE_EXEC) \<noteq> 0"
    and "\<forall>v \<in> set (all_vpns sgs). leaf (fst (kheap s)) dtab v = 0"
    and "distinct (map (take_bit 27) (all_vpns sgs))"
    and "take_bit 27 ` set (vpns_of dl) \<inter> take_bit 27 ` set (all_vpns sgs) = {}"
  shows "case linear_segments s dst sgs of
      Inl e \<Rightarrow> e = Panic ''Not enough memory!'' \<and> \<not> pages_free F (segs_cost sgs)
    | Inr (bs, s') \<Rightarrow> \<exists>F' dtab' St'. copying R F0 s0 dst droot F' s' dtab' dl St' \<and> St' = St \<union> (\<Union>b \<in> set bs. blk 6 b) \<and> F' \<subseteq> F \<and>
        kept F s (s'\<lparr>kheap := kheap s\<rparr>) \<and> length bs = length sgs \<and> distinct bs \<and>
        (\<forall>x \<in> set (zip bs sgs). made (F \<inter> St') s' dtab' x) \<and>
        (\<forall>v. take_bit 27 v \<notin> take_bit 27 ` set (all_vpns sgs) \<longrightarrow> leaf (fst (kheap s')) dtab' v = leaf (fst (kheap s)) dtab v) \<and>
        (\<forall>n. pages_free F (segs_cost sgs + n) \<longrightarrow> pages_free F' n)"
  using assms
proof (induction sgs arbitrary: s F dtab St)
  case Nil
  have "kept F s (s\<lparr>kheap := kheap s\<rparr>)" by simp
  with Nil show ?case unfolding linear_segments.simps sum.case prod.case
    by (intro exI [of _ F] exI [of _ dtab] exI [of _ St]) simp
next
  case (Cons sg sgs)
  have sg: "seg_type sg = Linear" "seg_flags sg < 2 ^ 10" "seg_flags sg AND (PAGE_READ OR PAGE_WRITE OR PAGE_EXEC) \<noteq> 0"
    "\<forall>v \<in> set (seg_vpns sg). leaf (fst (kheap s)) dtab v = 0" "distinct (map (take_bit 27) (seg_vpns sg))"
    "take_bit 27 ` set (vpns_of dl) \<inter> take_bit 27 ` set (seg_vpns sg) = {}"
    using Cons.prems(2-5) by auto
  have apart: "take_bit 27 v \<notin> take_bit 27 ` set (seg_vpns sg)" if "v \<in> set (all_vpns sgs)" for v
    using Cons.prems(4) that by auto
  note one = linear_segment_spec [OF Cons.prems(1) sg]
  show ?case
  proof (cases "linear_segment s dst (start_va sg) (end_va sg) (seg_flags sg)")
    case (Inl e)
    with one pages_free_less [of F "segs_cost (sg # sgs)"] show ?thesis by auto
  next
    case (Inr r)
    obtain b s1 where r: "linear_segment s dst (start_va sg) (end_va sg) (seg_flags sg) = Inr (b, s1)" using Inr by (cases r) auto
    obtain F1 dtab1 where q: "copying R F0 s0 dst droot F1 s1 dtab1 dl (St \<union> blk 6 b)" "aligned 6 b" "blk 6 b \<subseteq> F"
      "F1 \<subseteq> F - blk 6 b" "kept F s (s1\<lparr>kheap := kheap s\<rparr>)" "segs s1 b = Some sg" "maps_segment (fst (kheap s1)) dtab1 sg []"
      "\<forall>v. take_bit 27 v \<notin> take_bit 27 ` set (seg_vpns sg) \<longrightarrow> leaf (fst (kheap s1)) dtab1 v = leaf (fst (kheap s)) dtab v"
      "\<forall>n. pages_free F (Suc (3 * length (seg_vpns sg)) + n) \<longrightarrow> pages_free F1 n"
      using one unfolding r sum.case prod.case by blast
    have zero1: "\<forall>v \<in> set (all_vpns sgs). leaf (fst (kheap s1)) dtab1 v = 0"
    proof
      fix v assume v: "v \<in> set (all_vpns sgs)"
      then have "leaf (fst (kheap s)) dtab v = 0" using Cons.prems(3) by auto
      then show "leaf (fst (kheap s1)) dtab1 v = 0" using q(8) apart [OF v] by simp
    qed
    have rest: "\<forall>sg \<in> set sgs. seg_type sg = Linear \<and> seg_flags sg < 2 ^ 10 \<and> seg_flags sg AND (PAGE_READ OR PAGE_WRITE OR PAGE_EXEC) \<noteq> 0"
      "distinct (map (take_bit 27) (all_vpns sgs))" "take_bit 27 ` set (vpns_of dl) \<inter> take_bit 27 ` set (all_vpns sgs) = {}"
      using Cons.prems(2,4,5) by auto
    note IH = Cons.IH [OF q(1) rest(1) zero1 rest(2,3)]
    show ?thesis
    proof (cases "linear_segments s1 dst sgs")
      case (Inl e)
      with IH q(9) [rule_format, of "segs_cost sgs"] show ?thesis by (auto simp: r)
    next
      case (Inr t)
      obtain bs s2 where t: "linear_segments s1 dst sgs = Inr (bs, s2)" using Inr by (cases t) auto
      obtain F2 dtab2 St2 where u: "copying R F0 s0 dst droot F2 s2 dtab2 dl St2" "St2 = St \<union> blk 6 b \<union> (\<Union>b \<in> set bs. blk 6 b)" "F2 \<subseteq> F1"
        "kept F1 s1 (s2\<lparr>kheap := kheap s1\<rparr>)" "length bs = length sgs" "distinct bs"
        "\<forall>x \<in> set (zip bs sgs). made (F1 \<inter> St2) s2 dtab2 x"
        "\<forall>v. take_bit 27 v \<notin> take_bit 27 ` set (all_vpns sgs) \<longrightarrow> leaf (fst (kheap s2)) dtab2 v = leaf (fst (kheap s1)) dtab1 v"
        "\<forall>n. pages_free F1 (segs_cost sgs + n) \<longrightarrow> pages_free F2 n"
        using IH unfolding t sum.case prod.case by blast
      have bF1: "b \<notin> F1" using q(4) self_in_blk [of b 6] by blast
      have segb: "segs s2 b = Some sg" using u(4) bF1 q(6) by (simp add: kept_def)
      have mapb: "maps_segment (fst (kheap s2)) dtab2 sg []"
      proof (rule maps_segment_same [OF q(7)], rule ballI)
        fix v assume "v \<in> set (seg_vpns sg)"
        then have "take_bit 27 v \<notin> take_bit 27 ` set (all_vpns sgs)" using Cons.prems(4) by auto
        then show "leaf (fst (kheap s2)) dtab2 v = leaf (fst (kheap s1)) dtab1 v" using u(8) by blast
      qed
      have "blk 6 b \<subseteq> St2" using u(2) by blast
      then have first: "made (F \<inter> St2) s2 dtab2 (b, sg)" using q(2,3) segb mapb by (simp add: made_def)
      have others: "made (F \<inter> St2) s2 dtab2 x" if "x \<in> set (zip bs sgs)" for x
        using u(7) that q(4) unfolding made_def by blast
      have "b \<notin> set bs"
      proof
        assume "b \<in> set bs"
        then obtain sg' where "(b, sg') \<in> set (zip bs sgs)" using u(5) by (metis in_set_impl_in_set_zip1)
        then have "blk 6 b \<subseteq> F1" using u(7) unfolding made_def by blast
        then show False using bF1 self_in_blk by blast
      qed
      moreover have "kept F s (s2\<lparr>kheap := kheap s\<rparr>)"
      proof -
        have "kept F (s1\<lparr>kheap := kheap s\<rparr>) (s2\<lparr>kheap := kheap s\<rparr>)"
        proof -
          have "kept F s1 (s2\<lparr>kheap := kheap s1\<rparr>)" by (rule kept_mono [OF u(4)]) (use q(4) in blast)
          then have "vm_kept F (s1\<lparr>kheap := kheap s\<rparr>) (s2\<lparr>kheap := kheap s\<rparr>)" by (simp add: kept_def vm_kept_def)
          moreover have "s2\<lparr>kheap := kheap s1\<rparr> = s1\<lparr>klinks := klinks s2, segs := segs s2, mms := mms s2\<rparr>"
            using u(4) by (simp add: kept_def)
          then have "(s2\<lparr>kheap := kheap s1\<rparr>)\<lparr>kheap := kheap s\<rparr> =
              (s1\<lparr>klinks := klinks s2, segs := segs s2, mms := mms s2\<rparr>)\<lparr>kheap := kheap s\<rparr>" by (rule arg_cong)
          then have "s2\<lparr>kheap := kheap s\<rparr> = s1\<lparr>kheap := kheap s, klinks := klinks s2, segs := segs s2, mms := mms s2\<rparr>" by simp
          ultimately show ?thesis by (simp add: kept_def vm_kept_def)
        qed
        with q(5) show ?thesis by (rule kept_trans)
      qed
      moreover have "leaf (fst (kheap s2)) dtab2 v = leaf (fst (kheap s)) dtab v"
        if "take_bit 27 v \<notin> take_bit 27 ` set (all_vpns (sg # sgs))" for v
        using u(8) q(8) that by (simp add: image_Un)
      moreover have "pages_free F2 n" if "pages_free F (segs_cost (sg # sgs) + n)" for n
        using u(9) q(9) that by (simp add: add.assoc)
      moreover have "F2 \<subseteq> F" using u(3) q(4) by blast
      moreover have "St2 = St \<union> (\<Union>b \<in> set (b # bs). blk 6 b)" using u(2) by auto
      moreover have "\<forall>x \<in> set (zip (b # bs) (sg # sgs)). made (F \<inter> St2) s2 dtab2 x" using first others by simp
      ultimately show ?thesis using u(1,5,6) by (simp add: r t) blast
    qed
  qed
qed

text \<open>The segments enter the list.\<close>

lemma copying_link:
  assumes c: "copying R F0 s0 dst droot F s dtab dl St" and R: "St \<subseteq> R" and m: "made St s dtab (b, sg)"
    and node: "seg_list b \<notin> set (mm_segments dst # seg_nodes dl)"
    and dist: "distinct (map (take_bit 27) (vpns_of dl @ seg_vpns sg))"
  shows "copying R F0 s0 dst droot F (s\<lparr>klinks := list_add (klinks s) (seg_list b) (mm_segments dst)\<rparr>) dtab ((b, sg, []) # dl) St"
proof -
  note cd = copyingD [OF c]
  let ?l = "list_add (klinks s) (seg_list b) (mm_segments dst)"
  have b: "segs s b = Some sg" "maps_segment (fst (kheap s)) dtab sg []" "aligned 6 b" "blk 6 b \<subseteq> St" using m by (simp_all add: made_def)
  have bR: "blk 6 b \<subseteq> R - F" using b(4) R cd(4) by blast
  have nb: "seg_list b \<in> St" using node_in_block(1) [OF b(3)] b(4) by blast
  have fr: "distinct (frames_of dl @ [])" "\<forall>q \<in> set ([] :: u64 list). q < 2 ^ 44" "page_set (set []) \<subseteq> R - F - page_set (ran dtab)"
    using spaceD(9) [OF cd(1)] by (simp_all add: page_set_def)
  note sp = space_insert(2) [OF cd(1) b(1-3) bR node dist fr]
  have "links_same_outside F0 (klinks s) ?l"
    by (rule links_same_mono [OF clist_add(2) [OF spaceD(4) [OF cd(1)] node]]) (use nb cd(3,5) in auto)
  note k = kept_trans [OF cd(2) kept_klinks [OF this]]
  show ?thesis using sp k cd(3-5) nb unfolding copying_def by simp
qed

lemma list_segments_spec:
  assumes "length bs = length sgs" and c: "copying R F0 s0 dst droot F s dtab dl St" and R: "St \<subseteq> R"
    and "distinct bs" and "\<forall>x \<in> set (zip bs sgs). made St s dtab x"
    and "\<forall>b \<in> set bs. seg_list b \<notin> set (mm_segments dst # seg_nodes dl)"
    and "distinct (map (take_bit 27) (vpns_of dl @ all_vpns sgs))"
  shows "copying R F0 s0 dst droot F (s\<lparr>klinks := list_segments dst bs (klinks s)\<rparr>) dtab
    (map2 (\<lambda>b sg. (b, sg, [])) bs sgs @ dl) St"
  using assms(1,4-)
proof (induction bs sgs rule: list_induct2)
  case Nil
  then show ?case using c by (simp add: list_segments_def)
next
  case (Cons b bs sg sgs)
  let ?s = "s\<lparr>klinks := list_segments dst bs (klinks s)\<rparr>" and ?dl = "map2 (\<lambda>b sg. (b, sg, [])) bs sgs @ dl"
  have IH: "copying R F0 s0 dst droot F ?s dtab ?dl St" using Cons by (auto simp: Int_Un_distrib)
  have m: "made St ?s dtab (b, sg)" using Cons.prems(2) by (simp add: made_def)
  have nodes: "seg_nodes (map2 (\<lambda>b sg. (b, sg, [])) bs sgs) = map seg_list bs" if "length bs = length sgs" for bs :: "addr list" and sgs
    using that by (induction bs sgs rule: list_induct2) simp_all
  have inj: "seg_list x = seg_list y \<longleftrightarrow> x = y" for x y by (simp add: seg_list_def)
  have node: "seg_list b \<notin> set (mm_segments dst # seg_nodes ?dl)"
    using Cons.prems(1,3) nodes [OF Cons.hyps] inj by auto
  have vpns: "vpns_of (map2 (\<lambda>b sg. (b, sg, [])) bs sgs) = all_vpns sgs" if "length bs = length sgs" for bs :: "addr list" and sgs
    using that by (induction bs sgs rule: list_induct2) simp_all
  have gen: "distinct (xs @ ys @ zs) \<Longrightarrow> distinct ((zs @ xs) @ ys)" for xs ys zs :: "u64 list" by auto
  have "distinct (map (take_bit 27) (vpns_of dl) @ map (take_bit 27) (seg_vpns sg) @ map (take_bit 27) (all_vpns sgs))"
    using Cons.prems(4) by simp
  from gen [OF this] have "distinct (map (take_bit 27) (vpns_of ?dl @ seg_vpns sg))"
    by (simp only: map_append piece_simps vpns [OF Cons.hyps])
  from copying_link [OF IH R m node this] show ?case by (simp add: list_segments_def)
qed

text \<open>The address space of the kernel has the five segments and nothing else.\<close>

definition only_listed :: "mem \<Rightarrow> tree \<Rightarrow> piece list \<Rightarrow> bool" where
  "only_listed m tab sl \<longleftrightarrow> (\<forall>v. take_bit 27 v \<notin> take_bit 27 ` set (vpns_of sl) \<longrightarrow> leaf m tab v = 0)"

lemma new_kernel_memory_map_spec:
  assumes inv: "buddy_inv R (kheap s) F" and win: "in_window R"
    and dist: "distinct (map (take_bit 27) (all_vpns (kernel_segments img)))"
  shows "case new_kernel_memory_map img s of
      Inl e \<Rightarrow> e = Panic ''Not enough memory!'' \<and> \<not> pages_free F (2 + segs_cost (kernel_segments img))
    | Inr (mp, s') \<Rightarrow> \<exists>root F' tab sl St. copying R F s mp root F' s' tab sl St \<and> St = structs mp sl \<and>
        map (\<lambda>(_, sg, ps). (sg, ps)) sl = map (\<lambda>sg. (sg, [])) (kernel_segments img) \<and> only_listed (fst (kheap s')) tab sl \<and>
        (\<forall>n. pages_free F (2 + segs_cost (kernel_segments img) + n) \<longrightarrow> pages_free F' n)"
proof (cases "new_memory_map s")
  let ?sgs = "kernel_segments img"
  case (Inl e)
  then show ?thesis using new_memory_map_spec [OF inv win] pages_free_less [of F "2 + segs_cost ?sgs" 2]
    by (auto simp: new_kernel_memory_map_loop)
next
  let ?sgs = "kernel_segments img"
  case (Inr r)
  obtain mp s1 where r: "new_memory_map s = Inr (mp, s1)" using Inr by (cases r) auto
  obtain root F1 where n: "copying R F s mp root F1 s1 [[] \<mapsto> root] [] (blk 5 mp)"
    "\<forall>v. leaf (fst (kheap s1)) [[] \<mapsto> root] v = 0" "\<forall>n. pages_free F (2 + n) \<longrightarrow> pages_free F1 n" "aligned 5 mp"
    using new_memory_map_spec [OF inv win] unfolding r sum.case prod.case by blast
  have zero: "\<forall>v \<in> set (all_vpns ?sgs). leaf (fst (kheap s1)) [[] \<mapsto> root] v = 0" using n(2) by blast
  have none: "take_bit 27 ` set (vpns_of []) \<inter> take_bit 27 ` set (all_vpns ?sgs) = {}" by simp
  note ls = linear_segments_spec [OF n(1) kernel_segments_ok zero dist none]
  show ?thesis
  proof (cases "linear_segments s1 mp ?sgs")
    case (Inl e)
    with ls n(3) [rule_format, of "segs_cost ?sgs"] show ?thesis by (auto simp: new_kernel_memory_map_loop r)
  next
    case (Inr t)
    obtain bs s2 where t: "linear_segments s1 mp ?sgs = Inr (bs, s2)" using Inr by (cases t) auto
    obtain F2 tab St where u: "copying R F s mp root F2 s2 tab [] St" "length bs = length ?sgs" "distinct bs"
      "\<forall>x \<in> set (zip bs ?sgs). made (F1 \<inter> St) s2 tab x" "St = blk 5 mp \<union> (\<Union>b \<in> set bs. blk 6 b)"
      "\<forall>v. take_bit 27 v \<notin> take_bit 27 ` set (all_vpns ?sgs) \<longrightarrow> leaf (fst (kheap s2)) tab v = leaf (fst (kheap s1)) [[] \<mapsto> root] v"
      "\<forall>n. pages_free F1 (segs_cost ?sgs + n) \<longrightarrow> pages_free F2 n"
      using ls unfolding t sum.case prod.case by blast
    let ?sl = "map2 (\<lambda>b sg. (b, sg, [])) bs ?sgs :: piece list"
    have StR: "St \<subseteq> R" using copyingD(3) [OF u(1)] buddy.inv_region [OF inv] by blast
    have made: "\<forall>x \<in> set (zip bs ?sgs). made St s2 tab x" using u(4) unfolding made_def by blast
    have nodes: "\<forall>b \<in> set bs. seg_list b \<notin> set (mm_segments mp # seg_nodes [])"
    proof
      fix b assume "b \<in> set bs"
      then obtain sg where "(b, sg) \<in> set (zip bs ?sgs)" using u(2) by (metis in_set_impl_in_set_zip1)
      then have "aligned 6 b" "blk 6 b \<subseteq> F1" using u(4) unfolding made_def by blast+
      then have "seg_list b \<in> F1" using node_in_block(1) by blast
      then show "seg_list b \<notin> set (mm_segments mp # seg_nodes [])"
        using node_in_block(2) [OF n(4)] copyingD(4) [OF n(1)] by auto
    qed
    have "distinct (map (take_bit 27) (vpns_of [] @ all_vpns ?sgs))" using dist by simp
    from list_segments_spec [OF u(2,1) StR u(3) made nodes this]
    have c: "copying R F s mp root F2 (s2\<lparr>klinks := list_segments mp bs (klinks s2)\<rparr>) tab ?sl St" by simp
    have vpns: "vpns_of (map2 (\<lambda>b sg. (b, sg, [])) bs sgs) = all_vpns sgs \<and>
        map (\<lambda>(_, sg, ps). (sg, ps)) (map2 (\<lambda>b sg. (b, sg, [] :: u64 list)) bs sgs) = map (\<lambda>sg. (sg, [])) sgs \<and>
        fst ` set (map2 (\<lambda>b sg. (b, sg, [] :: u64 list)) bs sgs) = set bs"
      if "length bs = length sgs" for bs :: "addr list" and sgs
      using that by (induction bs sgs rule: list_induct2) simp_all
    have "vpns_of ?sl = all_vpns ?sgs" using vpns [OF u(2)] by (rule conjunct1)
    then have "only_listed (fst (kheap s2)) tab ?sl" unfolding only_listed_def using u(6) n(2) by simp
    moreover have "pages_free F2 m" if "pages_free F (2 + segs_cost ?sgs + m)" for m
      using u(7) n(3) that by (simp add: add.assoc)
    moreover have "St = structs mp ?sl"
    proof -
      have heads: "fst ` set ?sl = set bs" using vpns [OF u(2)] by blast
      have "(\<Union>x \<in> set ?sl. blk 6 (fst x)) = (\<Union>b \<in> fst ` set ?sl. blk 6 b)" by simp
      then show ?thesis unfolding structs_def u(5) heads by simp
    qed
    ultimately have "copying R F s mp root F2 (s2\<lparr>klinks := list_segments mp bs (klinks s2)\<rparr>) tab ?sl St \<and> St = structs mp ?sl \<and>
        map (\<lambda>(_, sg, ps). (sg, ps)) ?sl = map (\<lambda>sg. (sg, [])) ?sgs \<and>
        only_listed (fst (kheap (s2\<lparr>klinks := list_segments mp bs (klinks s2)\<rparr>))) tab ?sl \<and>
        (\<forall>n. pages_free F (2 + segs_cost ?sgs + n) \<longrightarrow> pages_free F2 n)"
      using c vpns [OF u(2)] by simp
    then show ?thesis unfolding new_kernel_memory_map_loop r t bindE_simps prod.case sum.case by blast
  qed
qed

section \<open>A framed segment with data\<close>

definition add_segment :: "'a vm_scheme \<Rightarrow> addr \<Rightarrow> segment \<Rightarrow> addr \<Rightarrow> usize \<Rightarrow> 'a vm_scheme outcome" where
  "add_segment s mp sg data len =
     bindE (new_segment s (start_va sg) (end_va sg) (seg_flags sg) Framed) (\<lambda>(b, s).
     bindE (deref (mms s) mp) (\<lambda>root.
     bindE (map_segment_at s root b data len) (\<lambda>s.
     Inr (s\<lparr>klinks := list_add (klinks s) (seg_list b) (mm_segments mp)\<rparr>))))"

lemma pages_hold_same: "pages_hold m ps f \<Longrightarrow> \<forall>x \<in> page_set (set ps). m' x = m x \<Longrightarrow> pages_hold m' ps f"
  unfolding pages_hold_def
proof (intro allI impI ballI)
  fix i x assume h: "\<forall>i < length ps. \<forall>x \<in> blk 12 (page_va (ps ! i)). m x = f (4096 * i + unat (x - page_va (ps ! i)))"
    and same: "\<forall>x \<in> page_set (set ps). m' x = m x" and i: "i < length ps" and x: "x \<in> blk 12 (page_va (ps ! i))"
  have "x \<in> page_set (set ps)" using x page_in_set [OF nth_mem [OF i]] by blast
  then have "m' x = m x" using same by blast
  with h i x show "m' x = f (4096 * i + unat (x - page_va (ps ! i)))" by simp
qed

lemma add_segment_spec:
  assumes c: "copying R F0 s0 dst droot F s dtab dl St" and framed: "seg_type sg = Framed"
    and flags: "seg_flags sg < 2 ^ 10" "seg_flags sg AND (PAGE_READ OR PAGE_WRITE OR PAGE_EXEC) \<noteq> 0"
    and only: "only_listed (fst (kheap s)) dtab dl"
    and dist: "distinct (map (take_bit 27) (vpns_of dl @ seg_vpns sg))" and data: "data_ok data len F0"
  shows "case add_segment s dst sg data len of
      Inl e \<Rightarrow> e = Panic ''Not enough memory!'' \<and> \<not> pages_free F (Suc (3 * length (seg_vpns sg)))
    | Inr s' \<Rightarrow> \<exists>F' dtab' b qs. copying R F0 s0 dst droot F' s' dtab' ((b, sg, qs) # dl) (St \<union> blk 6 b) \<and>
        only_listed (fst (kheap s')) dtab' ((b, sg, qs) # dl) \<and>
        pages_hold (fst (kheap s')) qs (seg_byte (fst (kheap s0)) data len) \<and>
        (\<forall>x \<in> page_set (set (frames_of dl)). fst (kheap s') x = fst (kheap s) x) \<and>
        (\<forall>n. pages_free F (Suc (3 * length (seg_vpns sg)) + n) \<longrightarrow> pages_free F' n)"
proof -
  note cd = copyingD [OF c]
  let ?V = "take_bit 27 ` set (seg_vpns sg)"
  have apart: "take_bit 27 v \<notin> take_bit 27 ` set (vpns_of dl)" if "v \<in> set (seg_vpns sg)" for v using dist that by auto
  then have zero: "\<forall>v \<in> set (seg_vpns sg). leaf (fst (kheap s)) dtab v = 0" using only unfolding only_listed_def by blast
  have d1: "distinct (map (take_bit 27) (seg_vpns sg))" "take_bit 27 ` set (vpns_of dl) \<inter> ?V = {}" using dist by auto
  have dt: "data_ok data len (F \<union> page_set (ran dtab))" by (rule data_ok_mono [OF data]) (use cd(3) in blast)
  have byte: "seg_byte (fst (kheap s)) data len = seg_byte (fst (kheap s0)) data len"
    by (rule seg_byte_same [OF data]) (use cd(2) in \<open>simp add: kept_def\<close>)
  note st = copy_struct [OF c flags zero d1(1) dt disjI2 [OF framed], unfolded byte]
  let ?made = "bindE (new_segment s (start_va sg) (end_va sg) (seg_flags sg) (seg_type sg)) (\<lambda>(b, s).
      bindE (map_segment_at s droot b data len) (\<lambda>s. Inr (b, s)))"
  have stores: "mms s1 = mms s" if "new_segment s (start_va sg) (end_va sg) (seg_flags sg) (seg_type sg) = Inr (b, s1)" for b s1
    by (rule new_struct(6) [OF cd(6) that])
  have root: "mms s dst = Some droot" by (rule spaceD(2) [OF cd(1)])
  have run: "add_segment s dst sg data len =
      bindE ?made (\<lambda>(b, s). Inr (s\<lparr>klinks := list_add (klinks s) (seg_list b) (mm_segments dst)\<rparr>))"
    using stores root framed
    by (cases "new_segment s (start_va sg) (end_va sg) (seg_flags sg) (seg_type sg)")
      (auto simp: add_segment_def deref_def bindE_assoc split: prod.splits)
  show ?thesis
  proof (cases ?made)
    case (Inl e)
    with st show ?thesis unfolding run by simp
  next
    case (Inr r)
    obtain b s2 where r: "?made = Inr (b, s2)" using Inr by (cases r) auto
    obtain s1 F2 dtab2 qs where q: "aligned 6 b" "blk 6 b \<subseteq> F" "space R (F - blk 6 b) s1 dst droot dtab dl"
      "s2 = s1\<lparr>kheap := kheap s2\<rparr>" "kept F s s1" "segs s1 = (segs s)(b \<mapsto> sg)"
      "evolved R (kheap s1) (F - blk 6 b) dtab (kheap s2) F2 dtab2 (set qs)" "distinct qs" "maps_segment (fst (kheap s2)) dtab2 sg qs"
      "pages_hold (fst (kheap s2)) qs (seg_byte (fst (kheap s0)) data len)"
      and lf: "\<forall>v. take_bit 27 v \<notin> ?V \<longrightarrow> leaf (fst (kheap s2)) dtab2 v = leaf (fst (kheap s)) dtab v \<and>
           leaf (fst (kheap s1)) dtab v = leaf (fst (kheap s)) dtab v"
        "\<forall>v. take_bit 27 v \<in> ?V \<longrightarrow> \<not> is_table (leaf (fst (kheap s2)) dtab2 v)"
      and pf: "\<forall>n. pages_free F (Suc (3 * length (seg_vpns sg)) + n) \<longrightarrow> pages_free F2 n"
      using st unfolding r sum.case prod.case by blast
    have lf1: "\<forall>v. take_bit 27 v \<notin> ?V \<longrightarrow> leaf (fst (kheap s2)) dtab2 v = leaf (fst (kheap s1)) dtab v" using lf(1) by simp
    have segb: "segs s1 b = Some sg" by (simp add: q(6))
    note en = copying_entered(2) [OF c q(1-3,5) segb q(7-9) lf1 lf(2) dist]
    note old = copying_mapped(7) [OF c q(1-3,5,7) lf1 lf(2) d1(2)]
    have "s1\<lparr>kheap := kheap s2, klinks := list_add (klinks s1) (seg_list b) (mm_segments dst)\<rparr> =
        s2\<lparr>klinks := list_add (klinks s2) (seg_list b) (mm_segments dst)\<rparr>" by (subst (2 3) q(4)) simp
    note en' = en [unfolded this]
    have "only_listed (fst (kheap s2)) dtab2 ((b, sg, qs) # dl)"
      using only lf(1) by (auto simp: only_listed_def image_Un)
    then show ?thesis using en' q(10) old pf unfolding run r bindE_simps prod.case sum.case
      by (intro exI [of _ F2] exI [of _ dtab2] exI [of _ b] exI [of _ qs]) simp
  qed
qed

section \<open>The headers of the file\<close>

definition elf_segment :: "prog_header \<Rightarrow> segment" where
  "elf_segment ph = \<lparr>start_va = p_vaddr ph, end_va = p_vaddr ph + p_memsz ph, seg_flags = convert_flags (p_flags ph), seg_type = Framed\<rparr>"

text \<open>The headers the loop does not skip.\<close>

definition loadable :: "prog_header \<Rightarrow> bool" where
  "loadable ph \<longleftrightarrow> p_type ph = ELF_PROG_LOAD \<and> p_memsz ph \<noteq> 0"

fun headers :: "mem \<Rightarrow> addr \<Rightarrow> nat \<Rightarrow> prog_header list" where
  "headers m p 0 = []"
| "headers m p (Suc n) = prog_header_at m p # headers m (p + sizeof_prog_header) n"

lemma convert_flags_less: "convert_flags f < 2 ^ 10"
  by (simp add: convert_flags_def Let_def PAGE_VALID_def PAGE_USER_def PAGE_EXEC_def PAGE_WRITE_def PAGE_READ_def)

lemma convert_flags_rwx:
  assumes "f AND 7 \<noteq> 0"
  shows "convert_flags f AND (PAGE_READ OR PAGE_WRITE OR PAGE_EXEC) \<noteq> 0"
proof -
  have "f AND (1 OR 2 OR 4) = (f AND 1) OR (f AND 2) OR (f AND 4)" by (simp only: bit.conj_disj_distrib or.assoc)
  moreover have "(1 OR 2 OR 4 :: u32) = 7" by simp
  ultimately have "f AND 7 = (f AND 1) OR (f AND 2) OR (f AND 4)" by (simp only:)
  then have "f AND 1 \<noteq> 0 \<or> f AND 2 \<noteq> 0 \<or> f AND 4 \<noteq> 0" using assms by auto
  then show ?thesis
    by (auto simp: convert_flags_def Let_def PAGE_VALID_def PAGE_USER_def PAGE_EXEC_def PAGE_WRITE_def PAGE_READ_def
        ELF_PROG_FLAG_EXEC_def ELF_PROG_FLAG_WRITE_def ELF_PROG_FLAG_READ_def)
qed

lemma bytes_at_sub:
  assumes "d + k \<le> n" and "n \<le> 2 ^ 64" and "0 < k"
  shows "bytes_at (p + of_nat d) k \<subseteq> bytes_at p n"
proof
  fix x assume "x \<in> bytes_at (p + of_nat d) k"
  then have x: "unat (x - (p + of_nat d)) < k" by (simp add: bytes_at_def)
  define y where "y = x - (p + of_nat d)"
  have d: "unat (of_nat d :: u64) = d" using assms by (simp add: unat_of_nat)
  have "unat y + d < 2 ^ 64" using x assms(1,2) unfolding y_def by linarith
  then have "unat (y + of_nat d) = unat y + d" using d by (simp add: unat_plus_if')
  moreover have "y + of_nat d = x - p" by (simp add: y_def)
  ultimately have "unat (x - p) < n" using x assms(1) unfolding y_def by simp
  then show "x \<in> bytes_at p n" by (simp add: bytes_at_def)
qed

lemma load_kept:
  assumes "same_outside F m m'" and "bytes_at p n \<inter> F = {}" and "d + k \<le> n" and "n \<le> 2 ^ 64" and "0 < k"
  shows "load_bytes k m' (p + of_nat d) = load_bytes k m (p + of_nat d)"
proof (rule load_bytes_cong)
  show "m' x = m x" if "x \<in> bytes_at (p + of_nat d) k" for x
    using that bytes_at_sub [OF assms(3-5), of p] assms(1,2) by (auto simp: same_outside_def)
qed (use assms in linarith)

lemma prog_header_kept:
  assumes "same_outside F m m'" and "bytes_at p 56 \<inter> F = {}"
  shows "prog_header_at m' p = prog_header_at m p"
  using load_kept [OF assms, of 0 4, where ?'a = 32] load_kept [OF assms, of 4 4, where ?'a = 32]
    load_kept [OF assms, of 8 8, where ?'a = 64] load_kept [OF assms, of 16 8, where ?'a = 64]
    load_kept [OF assms, of 24 8, where ?'a = 64] load_kept [OF assms, of 32 8, where ?'a = 64]
    load_kept [OF assms, of 40 8, where ?'a = 64] load_kept [OF assms, of 48 8, where ?'a = 64]
  by (simp add: prog_header_at_def)

section \<open>The loop over the headers\<close>

lemma load_segments_step:
  "load_segments s res elf p i =
     (if i < unat (e_phnum (fst (kheap s)) elf) then
        (let ph = prog_header_at (fst (kheap s)) p in
         if \<not> loadable ph then load_segments s res elf (p + sizeof_prog_header) (i + 1)
         else bindE (add_segment s res (elf_segment ph) (elf + p_offset ph) (p_memsz ph)) (\<lambda>s.
              load_segments s res elf (p + sizeof_prog_header) (i + 1)))
      else Inr s)"
  by (subst load_segments.simps)
    (simp add: loadable_def elf_segment_def add_segment_def bindE_assoc case_prod_unfold Let_def)

text \<open>What a header asks for and what the loop must find outside the free memory.\<close>

definition header_ok :: "addr \<Rightarrow> addr set \<Rightarrow> prog_header \<Rightarrow> bool" where
  "header_ok elf F ph \<longleftrightarrow> p_flags ph AND 7 \<noteq> 0 \<and> data_ok (elf + p_offset ph) (p_memsz ph) F"

definition elf_segments :: "prog_header list \<Rightarrow> segment list" where
  "elf_segments phs = map elf_segment (filter loadable phs)"

lemma elf_segments_simps [simp]:
  "elf_segments [] = []" "elf_segments (ph # phs) = (if loadable ph then elf_segment ph # elf_segments phs else elf_segments phs)"
  by (simp_all add: elf_segments_def)

text \<open>A piece of the address space is a segment of the file with the bytes of the file.\<close>

definition loaded :: "mem \<Rightarrow> mem \<Rightarrow> addr \<Rightarrow> prog_header \<Rightarrow> piece \<Rightarrow> bool" where
  "loaded m0 m elf ph = (\<lambda>(b, sg, ps). sg = elf_segment ph \<and> pages_hold m ps (seg_byte m0 (elf + p_offset ph) (p_memsz ph)))"

lemma headers_apart:
  assumes "bytes_at p (56 * Suc k) \<inter> F = {}" and "56 * Suc k \<le> 2 ^ 64"
  shows "bytes_at p 56 \<inter> F = {}" and "bytes_at (p + sizeof_prog_header) (56 * k) \<inter> F = {}"
proof -
  have "bytes_at (p + of_nat 0) 56 \<subseteq> bytes_at p (56 * Suc k)" by (rule bytes_at_sub) (use assms(2) in simp_all)
  then show "bytes_at p 56 \<inter> F = {}" using assms(1) by auto
  show "bytes_at (p + sizeof_prog_header) (56 * k) \<inter> F = {}"
  proof (cases "k = 0")
    case False
    then have "bytes_at (p + of_nat 56) (56 * k) \<subseteq> bytes_at p (56 * Suc k)" by (intro bytes_at_sub) (use assms(2) in simp_all)
    then show ?thesis using assms(1) by (auto simp: sizeof_prog_header_def)
  qed (simp add: bytes_at_def)
qed

lemma load_segments_spec:
  assumes "copying R F0 s0 dst droot F s dtab dl St" and "only_listed (fst (kheap s)) dtab dl"
    and num: "bytes_at elf 64 \<inter> F0 = {}" and "unat (e_phnum (fst (kheap s0)) elf) = i + k"
    and "bytes_at p (56 * k) \<inter> F0 = {}" and "56 * k \<le> 2 ^ 64" and "phs = headers (fst (kheap s0)) p k"
    and "\<forall>ph \<in> set phs. loadable ph \<longrightarrow> header_ok elf F0 ph"
    and "distinct (map (take_bit 27) (vpns_of dl @ all_vpns (elf_segments phs)))"
  shows "case load_segments s dst elf p i of
      Inl e \<Rightarrow> e = Panic ''Not enough memory!'' \<and> \<not> pages_free F (segs_cost (elf_segments phs))
    | Inr s' \<Rightarrow> \<exists>F' dtab' front St'. copying R F0 s0 dst droot F' s' dtab' (front @ dl) St' \<and> St' = St \<union> (\<Union>x \<in> set front. blk 6 (fst x)) \<and>
        only_listed (fst (kheap s')) dtab' (front @ dl) \<and>
        list_all2 (loaded (fst (kheap s0)) (fst (kheap s')) elf) (rev (filter loadable phs)) front \<and>
        (\<forall>x \<in> page_set (set (frames_of dl)). fst (kheap s') x = fst (kheap s) x) \<and>
        (\<forall>n. pages_free F (segs_cost (elf_segments phs) + n) \<longrightarrow> pages_free F' n)"
  using assms(1,2,4-)
proof (induction k arbitrary: s F dtab dl St p i phs)
  case 0
  have same: "same_outside F0 (fst (kheap s0)) (fst (kheap s))" using copyingD(2) [OF 0(1)] by (simp add: kept_def)
  have "e_phnum (fst (kheap s)) elf = e_phnum (fst (kheap s0)) elf"
    using load_kept [OF same num, of 56 2, where ?'a = 16] by (simp add: e_phnum_def)
  then have "load_segments s dst elf p i = Inr s" using 0 by (subst load_segments_step) simp
  then show ?case using 0(1,2,6) by (simp, intro exI [of _ F] exI [of _ dtab] exI [of _ "[]"]) auto
next
  case (Suc k)
  let ?orig = "fst (kheap s0)" and ?m = "fst (kheap s)"
  have same: "same_outside F0 ?orig ?m" using copyingD(2) [OF Suc.prems(1)] by (simp add: kept_def)
  note ha = headers_apart [OF Suc.prems(4,5)]
  have phnum: "e_phnum ?m elf = e_phnum ?orig elf"
    using load_kept [OF same num, of 56 2, where ?'a = 16] by (simp add: e_phnum_def)
  let ?ph = "prog_header_at ?orig p" and ?p = "p + sizeof_prog_header"
  have ph: "prog_header_at ?m p = ?ph" by (rule prog_header_kept [OF same ha(1)])
  define rest where "rest = headers ?orig ?p k"
  have phs: "phs = ?ph # rest" using Suc.prems(6) by (simp add: rest_def)
  have n: "unat (e_phnum ?orig elf) = (i + 1) + k" "56 * k \<le> 2 ^ 64" using Suc.prems(3,5) by simp_all
  have ok: "\<forall>ph \<in> set rest. loadable ph \<longrightarrow> header_ok elf F0 ph" using Suc.prems(7) by (simp add: phs)
  show ?case
  proof (cases "loadable ?ph")
    case False
    have "load_segments s dst elf p i = load_segments s dst elf ?p (i + 1)"
      using False n(1) by (subst load_segments_step) (simp add: phnum ph Let_def)
    moreover have "distinct (map (take_bit 27) (vpns_of dl @ all_vpns (elf_segments rest)))" using Suc.prems(8) False by (simp add: phs)
    moreover have "elf_segments phs = elf_segments rest" "filter loadable phs = filter loadable rest"
      using False by (simp_all add: phs)
    ultimately show ?thesis using Suc.IH [OF Suc.prems(1,2) n(1) ha(2) n(2) rest_def ok] by (simp only:)
  next
    case True
    let ?sg = "elf_segment ?ph"
    have h: "header_ok elf F0 ?ph" using Suc.prems(7) True by (simp add: phs)
    have sg: "seg_type ?sg = Framed" "seg_flags ?sg < 2 ^ 10" "seg_flags ?sg AND (PAGE_READ OR PAGE_WRITE OR PAGE_EXEC) \<noteq> 0"
      using convert_flags_less convert_flags_rwx h by (simp_all add: elf_segment_def header_ok_def)
    have data: "data_ok (elf + p_offset ?ph) (p_memsz ?ph) F0" using h by (simp add: header_ok_def)
    have dist: "distinct (map (take_bit 27) (vpns_of dl @ seg_vpns ?sg))" using Suc.prems(8) True by (auto simp: phs)
    have run: "load_segments s dst elf p i = bindE (add_segment s dst ?sg (elf + p_offset ?ph) (p_memsz ?ph)) (\<lambda>s.
        load_segments s dst elf ?p (i + 1))"
      using True n(1) by (subst load_segments_step) (simp add: phnum ph Let_def)
    note ad = add_segment_spec [OF Suc.prems(1) sg Suc.prems(2) dist data]
    show ?thesis
    proof (cases "add_segment s dst ?sg (elf + p_offset ?ph) (p_memsz ?ph)")
      case (Inl e)
      with ad pages_free_less [of F "segs_cost (elf_segments phs)" "Suc (3 * length (seg_vpns ?sg))"] True
      show ?thesis unfolding run by (auto simp: phs)
    next
      case (Inr s1)
      obtain F1 dtab1 b qs where q: "copying R F0 s0 dst droot F1 s1 dtab1 ((b, ?sg, qs) # dl) (St \<union> blk 6 b)"
        "only_listed (fst (kheap s1)) dtab1 ((b, ?sg, qs) # dl)"
        "pages_hold (fst (kheap s1)) qs (seg_byte ?orig (elf + p_offset ?ph) (p_memsz ?ph))"
        "\<forall>x \<in> page_set (set (frames_of dl)). fst (kheap s1) x = ?m x"
        "\<forall>n. pages_free F (Suc (3 * length (seg_vpns ?sg)) + n) \<longrightarrow> pages_free F1 n"
        using ad unfolding Inr sum.case by blast
      let ?x = "(b, ?sg, qs)"
      have gen: "distinct (xs @ ys @ zs) \<Longrightarrow> distinct ((ys @ xs) @ zs)" for xs ys zs :: "u64 list" by auto
      have "distinct (map (take_bit 27) (vpns_of dl) @ map (take_bit 27) (seg_vpns ?sg) @ map (take_bit 27) (all_vpns (elf_segments rest)))"
        using Suc.prems(8) True by (simp add: phs)
      from gen [OF this] have "distinct (map (take_bit 27) (vpns_of (?x # dl) @ all_vpns (elf_segments rest)))" by simp
      note IH = Suc.IH [OF q(1,2) n(1) ha(2) n(2) rest_def ok this]
      have run1: "load_segments s dst elf p i = load_segments s1 dst elf ?p (i + 1)" unfolding run Inr by simp
      show ?thesis
      proof (cases "load_segments s1 dst elf ?p (i + 1)")
        case (Inl e)
        with IH q(5) [rule_format, of "segs_cost (elf_segments rest)"] True show ?thesis unfolding run1 by (auto simp: phs)
      next
        case (Inr s2)
        obtain F2 dtab2 front St2 where u: "copying R F0 s0 dst droot F2 s2 dtab2 (front @ ?x # dl) St2"
          "only_listed (fst (kheap s2)) dtab2 (front @ ?x # dl)"
          "list_all2 (loaded ?orig (fst (kheap s2)) elf) (rev (filter loadable rest)) front"
          "\<forall>x \<in> page_set (set (frames_of (?x # dl))). fst (kheap s2) x = fst (kheap s1) x"
          "\<forall>n. pages_free F1 (segs_cost (elf_segments rest) + n) \<longrightarrow> pages_free F2 n"
          "St2 = St \<union> blk 6 b \<union> (\<Union>x \<in> set front. blk 6 (fst x))"
          using IH unfolding Inr sum.case by blast
        have "\<forall>x \<in> page_set (set qs). fst (kheap s2) x = fst (kheap s1) x"
          "\<forall>x \<in> page_set (set (frames_of dl)). fst (kheap s2) x = fst (kheap s1) x"
          using u(4) by (auto simp: page_set_Un)
        then have hold: "pages_hold (fst (kheap s2)) qs (seg_byte ?orig (elf + p_offset ?ph) (p_memsz ?ph))"
          and old: "\<forall>x \<in> page_set (set (frames_of dl)). fst (kheap s2) x = ?m x"
          using pages_hold_same [OF q(3)] q(4) by simp_all
        have "loaded ?orig (fst (kheap s2)) elf ?ph ?x" using hold by (simp add: loaded_def)
        then have all: "list_all2 (loaded ?orig (fst (kheap s2)) elf) (rev (filter loadable phs)) (front @ [?x])"
          using u(3) True by (simp add: phs list_all2_appendI)
        have "pages_free F2 m" if "pages_free F (segs_cost (elf_segments phs) + m)" for m
          using u(5) q(5) that True by (simp add: phs add.assoc)
        moreover have "St2 = St \<union> (\<Union>x \<in> set (front @ [?x]). blk 6 (fst x))" using u(6) by auto
        ultimately have "copying R F0 s0 dst droot F2 s2 dtab2 ((front @ [?x]) @ dl) St2 \<and> St2 = St \<union> (\<Union>x \<in> set (front @ [?x]). blk 6 (fst x)) \<and>
            only_listed (fst (kheap s2)) dtab2 ((front @ [?x]) @ dl) \<and>
            list_all2 (loaded ?orig (fst (kheap s2)) elf) (rev (filter loadable phs)) (front @ [?x]) \<and>
            (\<forall>x \<in> page_set (set (frames_of dl)). fst (kheap s2) x = ?m x) \<and>
            (\<forall>n. pages_free F (segs_cost (elf_segments phs) + n) \<longrightarrow> pages_free F2 n)"
          using u(1,2) all old by simp
        then show ?thesis unfolding run1 Inr sum.case by blast
      qed
    qed
  qed
qed

section \<open>The whole file\<close>

lemma segs_cost_append: "segs_cost (xs @ ys) = segs_cost xs + segs_cost ys"
  by (simp add: segs_cost_def)

lemma all_vpns_pieces: "map (\<lambda>(_, sg, ps). (sg, ps)) sl = map (\<lambda>sg. (sg, [])) sgs \<Longrightarrow> vpns_of sl = all_vpns sgs"
  by (induction sl arbitrary: sgs) (auto simp: Cons_eq_map_conv)

lemma from_elf_spec:
  assumes inv: "buddy_inv R (kheap s) F" and win: "in_window R" and hdr: "bytes_at elf 64 \<inter> F = {}"
    and table: "bytes_at (elf + e_phoff (fst (kheap s)) elf) (56 * unat (e_phnum (fst (kheap s)) elf)) \<inter> F = {}"
    and phs: "phs = headers (fst (kheap s)) (elf + e_phoff (fst (kheap s)) elf) (unat (e_phnum (fst (kheap s)) elf))"
    and ok: "\<forall>ph \<in> set phs. loadable ph \<longrightarrow> header_ok elf F ph"
    and dist: "distinct (map (take_bit 27) (all_vpns (kernel_segments img @ elf_segments phs)))"
  shows "case from_elf img s elf of
      Inl e \<Rightarrow> e = Panic ''Not enough memory!'' \<and> \<not> pages_free F (2 + segs_cost (kernel_segments img @ elf_segments phs)) \<or>
        e = Panic ''Unknown file type!'' \<and> \<not> elf_magic (fst (kheap s)) elf
    | Inr (mp, s') \<Rightarrow> elf_magic (fst (kheap s)) elf \<and> (\<exists>root F' tab prog kern St.
        copying R F s mp root F' s' tab (prog @ kern) St \<and> St = structs mp (prog @ kern) \<and>
        list_all2 (loaded (fst (kheap s)) (fst (kheap s')) elf) (rev (filter loadable phs)) prog \<and>
        map (\<lambda>(_, sg, ps). (sg, ps)) kern = map (\<lambda>sg. (sg, [])) (kernel_segments img) \<and>
        only_listed (fst (kheap s')) tab (prog @ kern) \<and>
        (\<forall>n. pages_free F (2 + segs_cost (kernel_segments img @ elf_segments phs) + n) \<longrightarrow> pages_free F' n))"
proof -
  let ?m = "fst (kheap s)" and ?k = "kernel_segments img" and ?e = "elf_segments phs"
  have dk: "distinct (map (take_bit 27) (all_vpns ?k))" using dist by simp
  have cost: "segs_cost (?k @ ?e) = segs_cost ?k + segs_cost ?e" by (rule segs_cost_append)
  note nk = new_kernel_memory_map_spec [OF inv win dk]
  show ?thesis
  proof (cases "new_kernel_memory_map img s")
    case (Inl e)
    with nk pages_free_less [of F "2 + segs_cost (?k @ ?e)" "2 + segs_cost ?k"] show ?thesis
      by (auto simp: from_elf_def cost)
  next
    case (Inr r)
    obtain mp s1 where r: "new_kernel_memory_map img s = Inr (mp, s1)" using Inr by (cases r) auto
    obtain root F1 tab1 kern St where n: "copying R F s mp root F1 s1 tab1 kern St"
      "map (\<lambda>(_, sg, ps). (sg, ps)) kern = map (\<lambda>sg. (sg, [])) ?k" "only_listed (fst (kheap s1)) tab1 kern"
      "\<forall>n. pages_free F (2 + segs_cost ?k + n) \<longrightarrow> pages_free F1 n" "St = structs mp kern"
      using nk unfolding r sum.case prod.case by blast
    have same: "same_outside F ?m (fst (kheap s1))" using copyingD(2) [OF n(1)] by (simp add: kept_def)
    have "elf + of_nat i \<notin> F" if "i < 4" for i
    proof -
      have "elf + of_nat i \<in> bytes_at elf 64" using that by (simp add: bytes_at_def unat_of_nat)
      then show ?thesis using hdr by blast
    qed
    from this [of 0] this [of 1] this [of 2] this [of 3]
    have magic: "elf_magic (fst (kheap s1)) elf = elf_magic ?m elf" using same by (simp add: elf_magic_def same_outside_def)
    have "e_phoff (fst (kheap s1)) elf = e_phoff ?m elf"
      using load_kept [OF same hdr, of 32 8, where ?'a = 64] by (simp add: e_phoff_def)
    then have run: "from_elf img s elf = (if \<not> elf_magic ?m elf then Inl (Panic ''Unknown file type!'')
        else bindE (load_segments s1 mp elf (elf + e_phoff ?m elf) 0) (\<lambda>s. Inr (mp, s)))"
      by (simp add: from_elf_def r magic Let_def)
    show ?thesis
    proof (cases "elf_magic ?m elf")
      case False
      then show ?thesis by (simp add: run)
    next
      case True
      have "unat (e_phnum ?m elf) < 65536" using unsigned_less [of "e_phnum ?m elf", where ?'a = nat] by simp
      then have num: "unat (e_phnum ?m elf) = 0 + unat (e_phnum ?m elf)" "56 * unat (e_phnum ?m elf) \<le> 2 ^ 64" by simp_all
      have dl: "distinct (map (take_bit 27) (vpns_of kern @ all_vpns ?e))" using dist all_vpns_pieces [OF n(2)] by simp
      note ls = load_segments_spec [OF n(1,3) hdr num(1) table num(2) phs ok dl]
      show ?thesis
      proof (cases "load_segments s1 mp elf (elf + e_phoff ?m elf) 0")
        case (Inl e)
        with ls n(4) [rule_format, of "segs_cost ?e"] True show ?thesis by (auto simp: run cost add.assoc)
      next
        case (Inr s2)
        obtain F2 tab prog St2 where u: "copying R F s mp root F2 s2 tab (prog @ kern) St2"
          "only_listed (fst (kheap s2)) tab (prog @ kern)"
          "list_all2 (loaded ?m (fst (kheap s2)) elf) (rev (filter loadable phs)) prog"
          "\<forall>n. pages_free F1 (segs_cost ?e + n) \<longrightarrow> pages_free F2 n" "St2 = St \<union> (\<Union>x \<in> set prog. blk 6 (fst x))"
          using ls unfolding Inr sum.case by blast
        have "pages_free F2 n" if "pages_free F (2 + segs_cost (?k @ ?e) + n)" for n
          using u(4) n(4) that by (simp add: cost add.assoc)
        moreover have "St2 = structs mp (prog @ kern)" using u(5) n(5) by (simp add: structs_append)
        moreover have "from_elf img s elf = Inr (mp, s2)" using True Inr by (simp add: run)
        ultimately show ?thesis using u(1-3) n(2) True by auto blast
      qed
    qed
  qed
qed

end
