(* ===== verification/File_Calls.thy ===== *)
theory File_Calls
  imports Kernel_State
begin

text \<open>
  The system calls on files of \<^verbatim>\<open>kernel/fs.c\<close>, over the open files of the current process. Names
  and buffers are addresses, which the kernel reads through the page table of the process.
  What \<^verbatim>\<open>console_getchar\<close> returns is an argument of the calls that read it.
\<close>

text \<open>A file descriptor that is open: the address of its \<^verbatim>\<open>struct File\<close>.\<close>

definition open_fd :: "pcb \<Rightarrow> int \<Rightarrow> addr option" where
  "open_fd b fd =
     (if 0 \<le> fd \<and> fd < int NR_OPEN \<and> nat fd < length (files b) \<and> files b ! nat fd \<noteq> 0
      then Some (files b ! nat fd) else None)"

text \<open>\<^verbatim>\<open>--count\<close>, and the end of the file when no descriptor refers to it any more.\<close>

definition release_file :: "kernel \<Rightarrow> addr \<Rightarrow> kernel outcome" where
  "release_file s f =
     bindE (deref (file_table s) f) (\<lambda>fl.
     let fl = fl\<lparr>f_count := f_count fl - 1\<rparr> in
     if f_count fl = 0
     then bindE (kdealloc s f sizeof_file) (\<lambda>s. Inr (s\<lparr>file_table := (file_table s)(f := None)\<rparr>))
     else Inr (set_file s f fl))"

definition set_fd :: "kernel \<Rightarrow> addr \<Rightarrow> nat \<Rightarrow> addr \<Rightarrow> kernel outcome" where
  "set_fd s p i f = update_pcb s p (\<lambda>b. b\<lparr>files := (files b)[i := f]\<rparr>)"

definition open_inode :: "kernel \<Rightarrow> nat \<Rightarrow> addr \<Rightarrow> (int \<times> kernel) outcome" where
  "open_inode s i inode =
     bindE (new_file s) (\<lambda>(f, s).
     bindE (deref (file_table s) f) (\<lambda>fl.
     let s = set_file s f (fl\<lparr>f_count := 1, f_off := 0, f_inode := inode\<rparr>) in
     bindE (set_fd s (current s) i f) (\<lambda>s. Inr (int i, s))))"

definition sys_open :: "image \<Rightarrow> kernel \<Rightarrow> addr \<Rightarrow> 32 word \<Rightarrow> (int \<times> kernel) outcome" where
  "sys_open img s name flags =
     bindE (get_pcb s (current s)) (\<lambda>cur.
     case find (\<lambda>i. files cur ! i = 0) [0..<NR_OPEN] of
       None \<Rightarrow> Inr (-1, s)
     | Some i \<Rightarrow>
         bindE (strcmp (literal ''/'') (string_at (kmem s) name)) (\<lambda>c.
         if c = 0 then open_inode s i (ROOT_INODE img)
         else
           bindE (lookup (fs_img_start img) (kmem s) (string_at (kmem s) name)) (\<lambda>inode.
           if inode = 0 then
             if flags AND O_CREATE \<noteq> 0 then
               bindE (create (fs_img_start img) (kmem s) name) (\<lambda>(inode, m).
               open_inode (set_kmem s m) i inode)
             else Inr (-1, s)
           else open_inode s i inode)))"

definition sys_close :: "kernel \<Rightarrow> int \<Rightarrow> (int \<times> kernel) outcome" where
  "sys_close s fd =
     bindE (get_pcb s (current s)) (\<lambda>cur.
     case open_fd cur fd of
       None \<Rightarrow> Inr (0, s)
     | Some f \<Rightarrow>
         bindE (release_file s f) (\<lambda>s.
         bindE (set_fd s (current s) (nat fd) 0) (\<lambda>s. Inr (0, s))))"

section \<open>Reading\<close>

definition sizeof_inode :: nat where "sizeof_inode = 64"

text \<open>The root directory: the inode the next entry in use of the table points to.\<close>

definition read_root :: "image \<Rightarrow> kernel \<Rightarrow> addr \<Rightarrow> addr \<Rightarrow> int \<Rightarrow> (int \<times> kernel) outcome" where
  "read_root img s f buf count =
     bindE (deref (file_table s) f) (\<lambda>fl.
     if count < int sizeof_inode then
       Inr (-1, s\<lparr>console := console s @ map of_char ''[sys_read] cannt read a file inode!''\<rparr>)
     else if sint (f_off fl) \<le> - int sizeof_inode then Inr (0, s)
     else
       let fs = fs_img_start img;
           idx = nat (sint (f_off fl)) div sizeof_inode in
       (case find (\<lambda>i. load16 (kmem s) (fat fs i) \<noteq> 0) [idx..<FAT_LEN] of
          None \<Rightarrow> Inr (0, s)
        | Some i \<Rightarrow>
            let inode = get_inode fs (uint (load16 (kmem s) (fat fs i)));
                s = set_kmem s (copy_bytes sizeof_inode (kmem s) buf inode)
            in Inr (int sizeof_inode, set_file s f (fl\<lparr>f_off := f_off fl + of_nat sizeof_inode\<rparr>))))"

text \<open>One poll of the console: the character goes into the buffer, or the process waits.\<close>

definition read_stdin :: "kernel \<Rightarrow> addr \<Rightarrow> u64 \<Rightarrow> int reply outcome" where
  "read_stdin s buf getchar =
     (let c = (ucast getchar :: u8) in
      if c = -1 then bindE (yield_current s) (\<lambda>s. Inr (Switched (In_read buf) s))
      else Inr (Returned 1 (set_kmem s ((kmem s)(buf := c)))))"

definition sys_read :: "image \<Rightarrow> u64 \<Rightarrow> kernel \<Rightarrow> int \<Rightarrow> addr \<Rightarrow> 32 word \<Rightarrow> int reply outcome" where
  "sys_read img getchar s fd buf count =
     (if count = 0 then Inr (Returned 0 s)
      else
        bindE (get_pcb s (current s)) (\<lambda>cur.
        case open_fd cur fd of
          None \<Rightarrow> Inr (Returned (-1) s)
        | Some f \<Rightarrow>
            bindE (deref (file_table s) f) (\<lambda>fl.
            if f_inode fl = ROOT_INODE img then
              bindE (read_root img s f buf (sint count)) (\<lambda>(n, s). Inr (Returned n s))
            else if f_type fl = FILE_STDIO then read_stdin s buf getchar
            else
              bindE (read_from_inode (fs_img_start img) (kmem s) (f_inode fl) (f_off fl) buf count)
                (\<lambda>(num, m).
              Inr (Returned num
                (set_file (set_kmem s m) f (fl\<lparr>f_off := f_off fl + word_of_int num\<rparr>)))))))"

section \<open>Writing\<close>

definition sys_write :: "image \<Rightarrow> kernel \<Rightarrow> int \<Rightarrow> addr \<Rightarrow> 32 word \<Rightarrow> (int \<times> kernel) outcome" where
  "sys_write img s fd buf count =
     bindE (get_pcb s (current s)) (\<lambda>cur.
     case open_fd cur fd of
       None \<Rightarrow> Inr (-1, s)
     | Some f \<Rightarrow>
         bindE (deref (file_table s) f) (\<lambda>fl.
         if f_type fl = FILE_STDIO then
           Inr (sint count,
             s\<lparr>console := console s @ map (\<lambda>i. kmem s (buf + of_nat i)) [0..<nat (sint count)]\<rparr>)
         else
           bindE (write_to_inode (fs_img_start img) (kmem s) (f_inode fl) (f_off fl) buf count)
             (\<lambda>(num, off, m).
           Inr (int num, set_file (set_kmem s m) f (fl\<lparr>f_off := off\<rparr>)))))"

section \<open>Closing all files of a process\<close>

fun dealloc_files_loop :: "kernel \<Rightarrow> addr \<Rightarrow> nat list \<Rightarrow> kernel outcome" where
  "dealloc_files_loop s p [] = Inr s"
| "dealloc_files_loop s p (i # is) =
     bindE (get_pcb s p) (\<lambda>b.
     if files b ! i = 0 then dealloc_files_loop s p is
     else
       bindE (release_file s (files b ! i)) (\<lambda>s.
       bindE (set_fd s p i 0) (\<lambda>s. dealloc_files_loop s p is)))"

definition dealloc_files :: "kernel \<Rightarrow> addr \<Rightarrow> kernel outcome" where
  "dealloc_files s p = dealloc_files_loop s p [0..<NR_OPEN]"

end
