(* ===== verification/Process.thy ===== *)
theory Process
  imports File_Calls
begin

text \<open>
  Processes: \<^verbatim>\<open>kernel/process.c\<close>. Creation from an ELF file, fork, wait, exec, exit and the choice
  of the scheduler. A call of \<^verbatim>\<open>__switch\<close> ends a handler (\<open>Switched\<close>); what runs between two
  switches is one function here.
\<close>

section \<open>Creation\<close>

text \<open>One of the three files a process starts with.\<close>

definition open_stdio :: "kernel \<Rightarrow> addr \<Rightarrow> nat \<Rightarrow> kernel outcome" where
  "open_stdio s p i =
     bindE (new_file s) (\<lambda>(f, s).
     bindE (deref (file_table s) f) (\<lambda>fl.
     set_fd (set_file s f (fl\<lparr>f_type := FILE_STDIO, f_count := 1, f_inode := 0\<rparr>)) p i f))"

definition open_stdios :: "kernel \<Rightarrow> addr \<Rightarrow> kernel outcome" where
  "open_stdios s p =
     bindE (open_stdio s p 0) (\<lambda>s. bindE (open_stdio s p 1) (\<lambda>s. open_stdio s p 2))"

definition user_stack_flags :: usize where
  "user_stack_flags = PAGE_VALID OR PAGE_USER OR PAGE_READ OR PAGE_WRITE"

text \<open>The user stack is one block of the kernel's memory, mapped at a fixed address.\<close>

definition map_user_stack :: "kernel \<Rightarrow> usize \<Rightarrow> usize \<Rightarrow> kernel outcome" where
  "map_user_stack s root stack =
     kmap_pages s root USER_STACK (pa_of stack) USER_STACK_SIZE user_stack_flags"

definition new_process :: "image \<Rightarrow> usize \<Rightarrow> kernel \<Rightarrow> addr \<Rightarrow> (addr \<times> kernel) outcome" where
  "new_process img r_sstatus s elf =
     bindE (new_pcb s) (\<lambda>(res, s).
     bindE (kalloc_pid s) (\<lambda>(n, s).
     bindE (update_pcb s res (\<lambda>b. b\<lparr>pid := n, state := Ready\<rparr>)) (\<lambda>s.
     bindE (from_elf img s elf) (\<lambda>(mem_map, s).
     bindE (deref (mms s) mem_map) (\<lambda>root.
     bindE (update_pcb s res (\<lambda>b. b\<lparr>process_cx := (process_cx b)\<lparr>cx_satp := satp_of root\<rparr>,
                                     mm := mem_map\<rparr>)) (\<lambda>s.
     bindE (kalloc s KERNEL_STACK_SIZE) (\<lambda>(ks, s).
     bindE (kalloc s USER_STACK_SIZE) (\<lambda>(us, s).
     bindE (map_user_stack s root us) (\<lambda>s.
     bindE (update_pcb s res (\<lambda>b. b\<lparr>kstack := ks, ustack := us,
              process_cx := goto_trap_restore img (process_cx b) (ks + KERNEL_STACK_SIZE),
              trap_cx := goto_app r_sstatus (trap_cx b) (e_entry (kmem s) elf)
                           (USER_STACK + USER_STACK_SIZE) (ks + KERNEL_STACK_SIZE)\<rparr>)) (\<lambda>s.
     let s = init_pcb_lists s res in
     bindE (open_stdios s res) (\<lambda>s.
     bindE (update_pcb s res (\<lambda>b. b\<lparr>files := take 3 (files b) @ replicate (NR_OPEN - 3) 0\<rparr>))
       (\<lambda>s. Inr (res, s)))))))))))))"

section \<open>The scheduler\<close>

text \<open>
  The loop of \<^verbatim>\<open>schedule\<close> from a position in the queue: the first process that is ready; at the
  end of the queue the outer loop starts again.
\<close>

partial_function (option) schedule_scan :: "kernel \<Rightarrow> addr \<Rightarrow> addr outcome option" where
  "schedule_scan s pos =
     (if pos = run_node (idle s) then
        (if list_empty (klinks s) (run_node (idle s)) then Some (Inr 0)
         else schedule_scan s (next_of (klinks s) (run_node (idle s))))
      else case get_pcb s (run_entry pos) of
             Inl e \<Rightarrow> Some (Inl e)
           | Inr b \<Rightarrow> if state b = Ready then Some (Inr (run_entry pos))
                     else schedule_scan s (next_of (klinks s) pos))"

declare schedule_scan.simps [code]

text \<open>The process that runs next; \<open>None\<close> when the queue is empty and \<^verbatim>\<open>schedule\<close> returns.\<close>

definition schedule_pick :: "kernel \<Rightarrow> addr option outcome" where
  "schedule_pick s =
     (if list_empty (klinks s) (run_node (idle s)) then Inr None
      else bindE (bindE (returns (schedule_scan s (next_of (klinks s) (run_node (idle s))))) id)
             (\<lambda>p. Inr (Some p)))"

text \<open>What \<^verbatim>\<open>schedule\<close> does before it switches to a process, and after the switch back.\<close>

definition dispatch :: "kernel \<Rightarrow> addr \<Rightarrow> kernel outcome" where
  "dispatch s p =
     (let s = s\<lparr>klinks := list_del (klinks s) (run_node p)\<rparr> in
      bindE (update_pcb s p (\<lambda>b. b\<lparr>state := Running\<rparr>)) (\<lambda>s.
      bindE (update_pcb s (idle s) (\<lambda>b. b\<lparr>state := Ready\<rparr>)) (\<lambda>s.
      Inr (s\<lparr>current := p\<rparr>))))"

definition back_to_idle :: "kernel \<Rightarrow> kernel outcome" where
  "back_to_idle s =
     (let s = s\<lparr>current := idle s\<rparr>
      in update_pcb s (idle s) (\<lambda>b. b\<lparr>state := Running\<rparr>))"

section \<open>fork\<close>

text \<open>The open files are shared: each gets one more reference.\<close>

fun share_files :: "kernel \<Rightarrow> addr list \<Rightarrow> kernel outcome" where
  "share_files s [] = Inr s"
| "share_files s (f # fs) =
     (if f = 0 then share_files s fs
      else bindE (deref (file_table s) f) (\<lambda>fl.
           share_files (set_file s f (fl\<lparr>f_count := f_count fl + 1\<rparr>)) fs))"

definition sys_fork :: "image \<Rightarrow> kernel \<Rightarrow> (int \<times> kernel) outcome" where
  "sys_fork img s =
     bindE (new_pcb s) (\<lambda>(child, s).
     bindE (kalloc_pid s) (\<lambda>(n, s).
     bindE (kalloc s KERNEL_STACK_SIZE) (\<lambda>(ks, s).
     bindE (kalloc s USER_STACK_SIZE) (\<lambda>(us, s).
     bindE (update_pcb s child (\<lambda>b. b\<lparr>pid := n, state := Ready, kstack := ks, ustack := us,
              parent := current s\<rparr>)) (\<lambda>s.
     let s = init_pcb_lists s child;
         ksp = ks + KERNEL_STACK_SIZE in
     bindE (get_pcb s (current s)) (\<lambda>cur.
     bindE (copy_mm s (mm cur)) (\<lambda>(child_mm, s).
     bindE (deref (mms s) child_mm) (\<lambda>root.
     bindE (map_user_stack s root us) (\<lambda>s.
     let s = set_kmem s (copy_bytes (unat USER_STACK_SIZE) (kmem s) us (ustack cur)) in
     bindE (update_pcb s child (\<lambda>b. b\<lparr>
              process_cx := (goto_trap_restore img (process_cx b) ksp)\<lparr>cx_satp := satp_of root\<rparr>,
              mm := child_mm,
              trap_cx := (trap_cx cur)\<lparr>kernel_sp := ksp, x_regs := (x_regs (trap_cx cur))[10 := 0]\<rparr>,
              files := files cur\<rparr>)) (\<lambda>s.
     bindE (share_files s (files cur)) (\<lambda>s.
     let s = s\<lparr>klinks := list_add (klinks s) (sibling_node child) (children_head (current s))\<rparr>
     in Inr (n, add_process s child))))))))))))"

section \<open>wait\<close>

text \<open>
  The inner loop of \<^verbatim>\<open>sys_wait\<close>: the first child that has exited, or none and whether there is
  a child at all.
\<close>

partial_function (option) wait_scan ::
  "kernel \<Rightarrow> addr \<Rightarrow> addr \<Rightarrow> bool \<Rightarrow> (addr option \<times> bool) outcome option" where
  "wait_scan s head pos flag =
     (if pos = head then Some (Inr (None, flag))
      else case get_pcb s (sibling_entry pos) of
             Inl e \<Rightarrow> Some (Inl e)
           | Inr b \<Rightarrow> if state b = Exited then Some (Inr (Some (sibling_entry pos), flag))
                     else wait_scan s head (next_of (klinks s) pos) True)"

declare wait_scan.simps [code]

definition reap :: "kernel \<Rightarrow> addr \<Rightarrow> (int \<times> kernel) outcome" where
  "reap s child =
     (let s = s\<lparr>klinks := list_del (klinks s) (sibling_node child)\<rparr> in
      bindE (get_pcb s child) (\<lambda>b.
      bindE (dealloc_pid (pids s) (pid b)) (\<lambda>ps.
      bindE (dealloc_files (s\<lparr>pids := ps\<rparr>) child) (\<lambda>s.
      bindE (kdealloc s (ustack b) USER_STACK_SIZE) (\<lambda>s.
      bindE (kdealloc s (kstack b) KERNEL_STACK_SIZE) (\<lambda>s.
      bindE (dealloc_memory_map s (mm b)) (\<lambda>s.
      bindE (kdealloc s child sizeof_pcb) (\<lambda>s.
      Inr (pid b, s\<lparr>pcbs := (pcbs s)(child := None)\<rparr>)))))))))"

text \<open>One round of the outer loop, entered with the flag of the rounds before.\<close>

definition sys_wait_round :: "kernel \<Rightarrow> bool \<Rightarrow> int reply outcome" where
  "sys_wait_round s flag =
     (let head = children_head (current s) in
      bindE (bindE (returns (wait_scan s head (next_of (klinks s) head) flag)) id) (\<lambda>(found, flag).
      case found of
        Some child \<Rightarrow> bindE (reap s child) (\<lambda>(n, s). Inr (Returned n s))
      | None \<Rightarrow>
          if flag then bindE (yield_current s) (\<lambda>s. Inr (Switched In_wait s))
          else Inr (Returned (-1) s)))"

definition sys_wait :: "kernel \<Rightarrow> int reply outcome" where
  "sys_wait s = sys_wait_round s False"

section \<open>exec\<close>

definition sys_exec :: "image \<Rightarrow> usize \<Rightarrow> kernel \<Rightarrow> addr \<Rightarrow> (int \<times> kernel) outcome" where
  "sys_exec img r_sstatus s name =
     bindE (lookup (fs_img_start img) (kmem s) (string_at (kmem s) name)) (\<lambda>inode.
     if inode = 0 then Inr (-1, s)
     else
       bindE (kalloc s (ucast (load32 (kmem s) (i_size inode)))) (\<lambda>(buf, s).
       bindE (readall (fs_img_start img) (kmem s) inode buf) (\<lambda>(_, m).
       bindE (from_elf img (set_kmem s m) buf) (\<lambda>(new_mm, s).
       bindE (deref (mms s) new_mm) (\<lambda>root.
       let s = activate_pagetable s root in
       bindE (get_pcb s (current s)) (\<lambda>cur.
       bindE (update_pcb s (current s) (\<lambda>b. b\<lparr>mm := new_mm\<rparr>)) (\<lambda>s.
       bindE (dealloc_memory_map s (mm cur)) (\<lambda>s.
       bindE (update_pcb s (current s)
                (\<lambda>b. b\<lparr>process_cx := (process_cx b)\<lparr>cx_satp := satp_of root\<rparr>\<rparr>)) (\<lambda>s.
       bindE (kdealloc s (ustack cur) USER_STACK_SIZE) (\<lambda>s.
       bindE (kalloc s USER_STACK_SIZE) (\<lambda>(us, s).
       bindE (update_pcb s (current s) (\<lambda>b. b\<lparr>ustack := us\<rparr>)) (\<lambda>s.
       bindE (map_user_stack s root us) (\<lambda>s.
       bindE (dealloc_files s (current s)) (\<lambda>s.
       bindE (open_stdios s (current s)) (\<lambda>s.
       bindE (update_pcb s (current s) (\<lambda>b. b\<lparr>trap_cx := goto_app r_sstatus (trap_cx b)
                (e_entry (kmem s) buf) (USER_STACK + USER_STACK_SIZE) (kstack b + KERNEL_STACK_SIZE)\<rparr>)) (\<lambda>s.
       bindE (kdealloc s buf (ucast (load32 (kmem s) (i_size inode)))) (\<lambda>s.
       Inr (0, s))))))))))))))))))"

section \<open>exit\<close>

text \<open>
  The loops that move the children to the process \<^verbatim>\<open>init\<close>. The inner one goes on from the node
  it has just moved, as \<^verbatim>\<open>list_for_each_entry\<close> does.
\<close>

partial_function (option) reparent_each :: "links \<Rightarrow> addr \<Rightarrow> addr \<Rightarrow> addr \<Rightarrow> links option" where
  "reparent_each l head init_head pos =
     (if pos = head then Some l
      else (let l = list_del l pos;
                l = list_add l pos init_head
            in reparent_each l head init_head (next_of l pos)))"

declare reparent_each.simps [code]

partial_function (option) reparent :: "links \<Rightarrow> addr \<Rightarrow> addr \<Rightarrow> links option" where
  "reparent l head init_head =
     (if list_empty l head then Some l
      else Option.bind (reparent_each l head init_head (next_of l head)) (\<lambda>l.
           reparent l head init_head))"

declare reparent.simps [code]

definition exit_current :: "kernel \<Rightarrow> int reply outcome" where
  "exit_current s =
     bindE (update_pcb s (current s) (\<lambda>b. b\<lparr>state := Exited\<rparr>)) (\<lambda>s.
     bindE (if current s \<noteq> init_proc s
            then bindE (returns (reparent (klinks s) (children_head (current s))
                                   (children_head (init_proc s)))) (\<lambda>l. Inr (s\<lparr>klinks := l\<rparr>))
            else Inr s) (\<lambda>s.
     Inr (Switched Never s)))"

section \<open>The first processes\<close>

text \<open>\<^verbatim>\<open>init_process\<close> up to its call of \<^verbatim>\<open>schedule\<close>.\<close>

definition init_process :: "image \<Rightarrow> usize \<Rightarrow> kernel \<Rightarrow> kernel outcome" where
  "init_process img r_sstatus s =
     bindE (new_pcb s) (\<lambda>(p, s).
     bindE (kalloc_pid (s\<lparr>idle := p\<rparr>)) (\<lambda>(n, s).
     bindE (update_pcb s p (\<lambda>b. b\<lparr>pid := n, state := Running\<rparr>)) (\<lambda>s.
     bindE (remap_kernel img (init_pcb_lists s p)) (\<lambda>(kmm, s).
     bindE (update_pcb (put_line ''***** Remap Kernel *****'' s) p (\<lambda>b. b\<lparr>mm := kmm\<rparr>)) (\<lambda>s.
     bindE (lookup (fs_img_start img) (kmem s) (literal ''init'')) (\<lambda>inode.
     if inode = 0 then Inl Undefined
     else
       bindE (kalloc s (ucast (load32 (kmem s) (i_size inode)))) (\<lambda>(buf, s).
       bindE (readall (fs_img_start img) (kmem s) inode buf) (\<lambda>(_, m).
       bindE (new_process img r_sstatus (set_kmem s m) buf) (\<lambda>(ip, s).
       let s = add_process (s\<lparr>init_proc := ip\<rparr>) ip in
       bindE (kdealloc s buf (ucast (load32 (kmem s) (i_size inode)))) (\<lambda>s.
       Inr (put_line ''***** Init Task *****'' s)))))))))))"

end
