(* ===== verification/Traps.thy ===== *)
theory Traps
  imports Process Kprintf
begin

text \<open>
  System calls and traps: \<^verbatim>\<open>kernel/syscall.c\<close> and \<^verbatim>\<open>kernel/trap.c\<close>. A trap works on the context of
  the current process; what the hardware and the firmware supply (\<^verbatim>\<open>sstatus\<close>, the time, a
  character of the console) is a parameter. The numbers of the calls are those of
  \<^verbatim>\<open>kernel/syscall.h\<close>, the causes those of \<^verbatim>\<open>kernel/trap.h\<close>.
\<close>

section \<open>What the environment supplies\<close>

record environment =
  r_sstatus :: usize
  r_time :: usize
  getchar :: u64

definition SYS_exit :: usize where "SYS_exit = 0"
definition SYS_putchar :: usize where "SYS_putchar = 1"
definition SYS_getpid :: usize where "SYS_getpid = 2"
definition SYS_fork :: usize where "SYS_fork = 3"
definition SYS_wait :: usize where "SYS_wait = 4"
definition SYS_exec :: usize where "SYS_exec = 5"
definition SYS_open :: usize where "SYS_open = 6"
definition SYS_close :: usize where "SYS_close = 7"
definition SYS_read :: usize where "SYS_read = 8"
definition SYS_write :: usize where "SYS_write = 9"

definition BREAKPOINT :: usize where "BREAKPOINT = 3"
definition USER_ENV_CALL :: usize where "USER_ENV_CALL = 8"
definition SUPERVISOR_TIMER :: usize where "SUPERVISOR_TIMER = 5 OR push_bit 63 1"

definition CLOCK_FREQ :: usize where "CLOCK_FREQ = 10000000"
definition TICKS_PER_SEC :: usize where "TICKS_PER_SEC = 100"

definition set_next_timeout :: "environment \<Rightarrow> kernel \<Rightarrow> kernel" where
  "set_next_timeout env s = s\<lparr>next_timeout := r_time env + CLOCK_FREQ div TICKS_PER_SEC\<rparr>"

definition console_putchar :: "kernel \<Rightarrow> usize \<Rightarrow> kernel" where
  "console_putchar s c = s\<lparr>console := console s @ [ucast c]\<rparr>"

section \<open>System calls\<close>

text \<open>The value of a call that returns at once, as a register holds it.\<close>

definition returned :: "(int \<times> kernel) outcome \<Rightarrow> usize reply outcome" where
  "returned r = bindE r (\<lambda>(n, s). Inr (Returned (word_of_int n) s))"

definition as_register :: "int reply outcome \<Rightarrow> usize reply outcome" where
  "as_register r =
     bindE r (\<lambda>r. Inr (case r of Returned n s \<Rightarrow> Returned (word_of_int n) s | Switched k s \<Rightarrow> Switched k s))"

text \<open>
  An argument register read as an \<^verbatim>\<open>int\<close>. The case of \<^verbatim>\<open>SYS_exit\<close> has no \<^verbatim>\<open>break\<close>, but the call
  never comes back.
\<close>

definition int_arg :: "usize \<Rightarrow> 32 word" where
  "int_arg w = ucast w"

definition syscall :: "image \<Rightarrow> environment \<Rightarrow> kernel \<Rightarrow> usize \<Rightarrow> usize \<Rightarrow> usize \<Rightarrow> usize \<Rightarrow> usize reply outcome" where
  "syscall img env s num a0 a1 a2 =
     (if num = SYS_exit then as_register (exit_current s)
      else if num = SYS_putchar then Inr (Returned 0 (console_putchar s a0))
      else if num = SYS_getpid then bindE (get_pcb s (current s)) (\<lambda>b. returned (Inr (pid b, s)))
      else if num = SYS_fork then returned (sys_fork img s)
      else if num = SYS_wait then as_register (sys_wait s)
      else if num = SYS_exec then returned (sys_exec img (r_sstatus env) s a0)
      else if num = SYS_open then returned (sys_open img s a0 (int_arg a1))
      else if num = SYS_close then returned (sys_close s (sint (int_arg a0)))
      else if num = SYS_read then as_register (sys_read img (getchar env) s (sint (int_arg a0)) a1 (int_arg a2))
      else if num = SYS_write then returned (sys_write img s (sint (int_arg a0)) a1 (int_arg a2))
      else panic (Some (''[syscall] Unknown syscall id %d'' @ [CHR 0x0A])) [IntArg (int_arg num)])"

section \<open>Traps\<close>

definition breakpoint :: "kernel \<Rightarrow> kernel outcome" where
  "breakpoint s =
     bindE (get_pcb s (current s)) (\<lambda>b.
     bindE (format (''Breakpoint at %p'' @ [CHR 0x0A]) [PtrArg (sepc (trap_cx b))]) (\<lambda>out.
     update_pcb (s\<lparr>console := console s @ map of_char out\<rparr>) (current s)
       (\<lambda>b. b\<lparr>trap_cx := (trap_cx b)\<lparr>sepc := sepc (trap_cx b) + 2\<rparr>\<rparr>)))"

text \<open>The end of \<^verbatim>\<open>syscall_handle\<close>: the result goes into the context of the current process.\<close>

definition finish_syscall :: "kernel \<Rightarrow> usize \<Rightarrow> kernel outcome" where
  "finish_syscall s ret =
     update_pcb s (current s)
       (\<lambda>b. b\<lparr>trap_cx := (trap_cx b)\<lparr>x_regs := (x_regs (trap_cx b))[10 := ret]\<rparr>\<rparr>)"

definition syscall_handle :: "image \<Rightarrow> environment \<Rightarrow> kernel \<Rightarrow> unit reply outcome" where
  "syscall_handle img env s =
     bindE (update_pcb s (current s)
              (\<lambda>b. b\<lparr>trap_cx := (trap_cx b)\<lparr>sepc := sepc (trap_cx b) + 4\<rparr>\<rparr>)) (\<lambda>s.
     bindE (get_pcb s (current s)) (\<lambda>b.
     let x = x_regs (trap_cx b) in
     bindE (syscall img env s (x ! 17) (x ! 10) (x ! 11) (x ! 12)) (\<lambda>r.
     case r of
       Returned ret s \<Rightarrow> bindE (finish_syscall s ret) (\<lambda>s. Inr (Returned () s))
     | Switched k s \<Rightarrow> Inr (Switched k s))))"

definition supervisor_timer :: "environment \<Rightarrow> kernel \<Rightarrow> unit reply outcome" where
  "supervisor_timer env s =
     bindE (yield_current (set_next_timeout env s)) (\<lambda>s. Inr (Switched To_user s))"

definition unhandled_trap :: "kernel \<Rightarrow> usize \<Rightarrow> usize \<Rightarrow> unit reply outcome" where
  "unhandled_trap s scause stval =
     bindE (get_pcb s (current s)) (\<lambda>b.
     panic (Some (''Unhandled trap!'' @ [CHR 0x0A] @ ''scause'' @ [CHR 0x09] @ ''= %p'' @ [CHR 0x0A] @
                  ''sepc'' @ [CHR 0x09] @ ''= %p'' @ [CHR 0x0A] @ ''stval'' @ [CHR 0x09] @ ''= %p'' @ [CHR 0x0A]))
       [PtrArg scause, PtrArg (sepc (trap_cx b)), PtrArg stval])"

definition trap_handle :: "image \<Rightarrow> environment \<Rightarrow> kernel \<Rightarrow> usize \<Rightarrow> usize \<Rightarrow> unit reply outcome" where
  "trap_handle img env s scause stval =
     (if scause = BREAKPOINT then bindE (breakpoint s) (\<lambda>s. Inr (Returned () s))
      else if scause = USER_ENV_CALL then syscall_handle img env s
      else if scause = SUPERVISOR_TIMER then supervisor_timer env s
      else unhandled_trap s scause stval)"

text \<open>What a process does when it is switched to again.\<close>

definition resume_process :: "environment \<Rightarrow> kernel \<Rightarrow> resume \<Rightarrow> unit reply outcome" where
  "resume_process env s k =
     (case k of
        To_user \<Rightarrow> Inr (Returned () s)
      | Never \<Rightarrow> Inl Undefined
      | In_wait \<Rightarrow>
          bindE (as_register (sys_wait_round s True)) (\<lambda>r.
          case r of
            Returned ret s \<Rightarrow> bindE (finish_syscall s ret) (\<lambda>s. Inr (Returned () s))
          | Switched k s \<Rightarrow> Inr (Switched k s))
      | In_read buf \<Rightarrow>
          bindE (as_register (read_stdin s buf (getchar env))) (\<lambda>r.
          case r of
            Returned ret s \<Rightarrow> bindE (finish_syscall s ret) (\<lambda>s. Inr (Returned () s))
          | Switched k s \<Rightarrow> Inr (Switched k s)))"

end
