(* ===== verification/Sched.thy ===== *)
theory Sched
  imports Traps
begin

text \<open>
  Lemmas on the process numbers and the queue of processes: the numbers in use as a set, the
  queue as a list of processes, and what the scheduler, \<^verbatim>\<open>yield\<close>, the loops of \<^verbatim>\<open>sys_wait\<close> and
  of \<^verbatim>\<open>exit_current\<close> do to them.
\<close>

section \<open>Process numbers\<close>

definition pid_used :: "u32 list \<Rightarrow> nat \<Rightarrow> bool" where
  "pid_used ps n \<longleftrightarrow> bit (ps ! (n div 32)) (n mod 32)"

text \<open>\<open>1 << j\<close> as a power of two, which is its normal form for \<open>simp\<close>.\<close>

lemma bit_pow2: "bit (2 ^ j :: 'a::len word) n \<longleftrightarrow> n = j \<and> j < LENGTH('a)"
  by (auto simp: bit_simps)

lemma and_pow2_0_iff: "(w :: 'a::len word) AND 2 ^ j = 0 \<longleftrightarrow> \<not> bit w j"
proof
  assume "w AND 2 ^ j = 0"
  then have "\<not> bit (w AND 2 ^ j) j" by simp
  then show "\<not> bit w j" by (auto simp: bit_and_iff bit_pow2 dest: bit_imp_le_length)
qed (auto simp: bit_and_iff bit_pow2 intro!: bit_word_eqI)

lemma bit_or_pow2: "bit ((w :: 'a::len word) OR 2 ^ j) n \<longleftrightarrow> bit w n \<or> n = j \<and> j < LENGTH('a)"
  by (auto simp: bit_or_iff bit_pow2)

lemma all_ones_iff: "(w :: u32) = 0xFFFFFFFF \<longleftrightarrow> (\<forall>j < 32. bit w j)"
proof -
  have ones: "(0xFFFFFFFF :: u32) = mask 32" by (simp add: mask_eq_exp_minus_1)
  show ?thesis unfolding ones by (auto simp: bit_simps intro!: bit_word_eqI)
qed

lemma alloc_pid_from_spec:
  assumes "length ps = 32" and "i \<le> 32" and "\<forall>k < 32 * i. pid_used ps k"
  shows "(alloc_pid_from ps i = Inr (-1, ps) \<and> (\<forall>k < MAX_PID. pid_used ps k)) \<or>
    (\<exists>n ps'. alloc_pid_from ps i = Inr (int n, ps') \<and> n < MAX_PID \<and> \<not> pid_used ps n \<and>
       (\<forall>k < n. pid_used ps k) \<and>
       ps' = ps[n div 32 := ps ! (n div 32) OR push_bit (n mod 32) 1])"
  using assms
proof (induction "32 - i" arbitrary: i)
  case 0
  then have "i = 32" by simp
  with 0 show ?case by (subst alloc_pid_from.simps) (simp add: MAX_PID_def)
next
  case (Suc d)
  then have i: "i < 32" "i < MAX_PID div 32" by (simp_all add: MAX_PID_def)
  have next_i: "?case" if full: "\<forall>j < 32. bit (ps ! i) j"
    and step: "alloc_pid_from ps i = alloc_pid_from ps (i + 1)"
  proof -
    have "pid_used ps k" if "k < 32 * (i + 1)" for k
    proof (cases "k < 32 * i")
      case False
      with that have "k div 32 = i" by (intro div_nat_eqI) auto
      then show ?thesis using full by (simp add: pid_used_def)
    qed (use Suc.prems in simp)
    with step Suc.hyps(1) [of "i + 1"] Suc.hyps(2) Suc.prems(1) i show ?thesis by simp
  qed
  show ?case
  proof (cases "find (\<lambda>j. ps ! i AND push_bit j 1 = 0) [0..<32]")
    case None
    have "bit (ps ! i) j" if "j < 32" for j
      using None that by (auto simp: find_None_iff and_pow2_0_iff)
    moreover from this have "alloc_pid_from ps i = alloc_pid_from ps (i + 1)"
      using i Suc.prems(1) None by (subst alloc_pid_from.simps) simp
    ultimately show ?thesis using next_i by blast
  next
    case (Some j)
    then obtain ix where "ix < 32" "ps ! i AND push_bit ix 1 = 0"
      "\<forall>k < ix. ps ! i AND push_bit k 1 \<noteq> 0" "j = ix"
      by (auto simp: find_Some_iff)
    then have j: "j < 32" "\<not> bit (ps ! i) j" "\<forall>k < j. bit (ps ! i) k"
      by (auto simp: and_pow2_0_iff)
    then have "ps ! i \<noteq> 0xFFFFFFFF" by (auto simp: all_ones_iff)
    then have "alloc_pid_from ps i = Inr (int (i * 32 + j), ps[i := ps ! i OR push_bit j 1])"
      using i Suc.prems(1) Some by (subst alloc_pid_from.simps) simp
    moreover have "(i * 32 + j) div 32 = i" "(i * 32 + j) mod 32 = j" using j(1) by simp_all
    moreover have "pid_used ps k" if "k < i * 32 + j" for k
    proof (cases "k < 32 * i")
      case False
      with that j(1) have di: "k div 32 = i" by (intro div_nat_eqI) auto
      then have "k mod 32 < j" using minus_div_mult_eq_mod [of k 32] that j(1) False by linarith
      then show ?thesis using j(3) di by (simp add: pid_used_def)
    qed (use Suc.prems in simp)
    moreover have "i * 32 + j < MAX_PID" using i(1) j(1) by (simp add: MAX_PID_def)
    ultimately show ?thesis using j(2) unfolding pid_used_def by (metis (no_types, lifting))
  qed
qed

lemma pid_used_set:
  assumes "length ps = 32" and "n < MAX_PID" and "k < MAX_PID"
  shows "pid_used (ps[n div 32 := ps ! (n div 32) OR push_bit (n mod 32) 1]) k \<longleftrightarrow>
    k = n \<or> pid_used ps k"
proof -
  have "n div 32 < 32" "k div 32 < 32" using assms by (auto simp: MAX_PID_def)
  moreover have "k = n" if "k div 32 = n div 32" "k mod 32 = n mod 32"
    using that by (metis div_mod_decomp)
  ultimately show ?thesis
    using assms(1) by (auto simp: pid_used_def nth_list_update bit_or_pow2)
qed

lemma clear_set_bit:
  "\<not> bit (w :: 'a::len word) j \<Longrightarrow> (w OR 2 ^ j) AND NOT (2 ^ j) = w"
  by (auto simp: bit_and_iff bit_or_iff bit_not_iff bit_pow2 dest: bit_imp_le_length intro!: bit_word_eqI)

section \<open>The state\<close>

lemma update_pcb_Some: "pcbs s p = Some b \<Longrightarrow> update_pcb s p f = Inr (set_pcb s p (f b))"
  by (simp add: update_pcb_def get_pcb_def deref_def)

lemma get_pcb_Some: "pcbs s p = Some b \<Longrightarrow> get_pcb s p = Inr b"
  by (simp add: get_pcb_def deref_def)

lemma set_pcb_simps [simp]:
  "pcbs (set_pcb s p b) = (pcbs s)(p \<mapsto> b)" "klinks (set_pcb s p b) = klinks s"
  "idle (set_pcb s p b) = idle s" "current (set_pcb s p b) = current s"
  "init_proc (set_pcb s p b) = init_proc s" "kheap (set_pcb s p b) = kheap s"
  "pids (set_pcb s p b) = pids s" "file_table (set_pcb s p b) = file_table s"
  "console (set_pcb s p b) = console s" "next_timeout (set_pcb s p b) = next_timeout s"
  by (simp_all add: set_pcb_def)

lemma run_entry_node [simp]: "run_entry (run_node p) = p"
  by (simp add: run_entry_def run_node_def)

lemma sibling_entry_node [simp]: "sibling_entry (sibling_node p) = p"
  by (simp add: sibling_entry_def sibling_node_def)

lemma node_inj [simp]:
  "run_node p = run_node q \<longleftrightarrow> p = q" "sibling_node p = sibling_node q \<longleftrightarrow> p = q"
  "children_head p = children_head q \<longleftrightarrow> p = q"
  by (simp_all add: run_node_def sibling_node_def children_head_def)

section \<open>The queue\<close>

definition run_queue :: "kernel \<Rightarrow> addr list \<Rightarrow> bool" where
  "run_queue s q \<longleftrightarrow> clist (klinks s) (run_node (idle s)) (map run_node q)"

definition has_state :: "kernel \<Rightarrow> addr \<Rightarrow> proc_state \<Rightarrow> bool" where
  "has_state s p st \<longleftrightarrow> (\<exists>b. pcbs s p = Some b \<and> state b = st)"

text \<open>
  What holds whenever a process or the scheduler runs: exactly the current process is running,
  and exactly the members of the queue are ready, and the idle process when it is not current.
\<close>

definition sched_inv :: "kernel \<Rightarrow> addr list \<Rightarrow> bool" where
  "sched_inv s q \<longleftrightarrow> run_queue s q \<and> (\<forall>p. has_state s p Running \<longleftrightarrow> p = current s) \<and>
     (\<forall>p. has_state s p Ready \<longleftrightarrow> p \<in> set q \<or> p = idle s \<and> current s \<noteq> idle s)"

lemma has_state_unique: "has_state s p st \<Longrightarrow> has_state s p st' \<Longrightarrow> st = st'"
  by (auto simp: has_state_def)

lemma sched_invD:
  assumes "sched_inv s q"
  shows "run_queue s q" and "p \<in> set q \<Longrightarrow> has_state s p Ready" and "current s \<notin> set q"
    and "has_state s (current s) Running" and "current s \<noteq> idle s \<Longrightarrow> has_state s (idle s) Ready"
proof -
  show "run_queue s q" "p \<in> set q \<Longrightarrow> has_state s p Ready" "has_state s (current s) Running"
    "current s \<noteq> idle s \<Longrightarrow> has_state s (idle s) Ready" using assms by (auto simp: sched_inv_def)
  show "current s \<notin> set q"
    using assms has_state_unique [of s "current s" Running Ready] by (auto simp: sched_inv_def)
qed

lemma queue_distinct: "run_queue s q \<Longrightarrow> distinct q \<and> idle s \<notin> set q"
  by (auto simp: run_queue_def clist_def distinct_map)

lemma scan_spec:
  assumes "dseg (klinks s) a (map run_node (ps @ p # qs)) (run_node (idle s))"
    and "idle s \<notin> set (ps @ p # qs)" and "\<forall>x \<in> set ps. \<exists>b. pcbs s x = Some b \<and> state b \<noteq> Ready"
    and "has_state s p Ready"
  shows "schedule_scan s (next_of (klinks s) a) = Some (Inr p)"
  using assms
proof (induction ps arbitrary: a)
  case Nil
  then show ?case
    by (subst schedule_scan.simps) (auto simp: has_state_def get_pcb_Some)
next
  case (Cons x ps)
  then obtain b where "pcbs s x = Some b" "state b \<noteq> Ready" by auto
  moreover have "schedule_scan s (next_of (klinks s) (run_node x)) = Some (Inr p)"
    using Cons by simp
  ultimately show ?case using Cons.prems(1,2) by (subst schedule_scan.simps) (auto simp: get_pcb_Some)
qed

lemma schedule_pick_first:
  assumes "run_queue s (ps @ p # qs)" and "\<forall>x \<in> set ps. \<exists>b. pcbs s x = Some b \<and> state b \<noteq> Ready"
    and "has_state s p Ready"
  shows "schedule_pick s = Inr (Some p)"
proof -
  have "\<not> list_empty (klinks s) (run_node (idle s))"
    using list_empty_iff assms(1) unfolding run_queue_def by fastforce
  moreover have "schedule_scan s (next_of (klinks s) (run_node (idle s))) = Some (Inr p)"
    using assms queue_distinct [OF assms(1)] by (intro scan_spec) (auto simp: run_queue_def clist_def)
  ultimately show ?thesis by (simp add: schedule_pick_def)
qed

lemma schedule_pick_empty: "run_queue s [] \<Longrightarrow> schedule_pick s = Inr None"
  using list_empty_iff [of "klinks s" "run_node (idle s)" "[]"] by (simp add: schedule_pick_def run_queue_def)

text \<open>The scheduler takes the first process of the queue and runs it.\<close>

lemma dispatch_spec:
  assumes "sched_inv s (p # q)" and "current s = idle s"
  shows "\<exists>s'. schedule_pick s = Inr (Some p) \<and> dispatch s p = Inr s' \<and> sched_inv s' q \<and>
    current s' = p \<and> idle s' = idle s \<and> init_proc s' = init_proc s \<and> kheap s' = kheap s \<and>
    file_table s' = file_table s"
proof -
  note i = sched_invD [OF assms(1)]
  note d = queue_distinct [OF i(1)]
  obtain b bi where b: "pcbs s p = Some b" and bi: "pcbs s (idle s) = Some bi"
    using i(2) [of p] i(4) assms(2) by (auto simp: has_state_def)
  have "clist (list_del (klinks s) (run_node p)) (run_node (idle s)) (map run_node q)"
    using lists.holds_unlink [of "klinks s" "run_node (idle s)" "[]"] i(1) by (simp add: run_queue_def)
  then have "sched_inv s' q" if "s' = (set_pcb (set_pcb (s\<lparr>klinks := list_del (klinks s) (run_node p)\<rparr>) p
      (b\<lparr>state := Running\<rparr>)) (idle s) (bi\<lparr>state := Ready\<rparr>))\<lparr>current := p\<rparr>" for s'
    using assms d unfolding that sched_inv_def run_queue_def has_state_def by (auto split: if_splits)
  moreover have "schedule_pick s = Inr (Some p)" using schedule_pick_first [of s "[]"] i(1,2) by simp
  ultimately show ?thesis using b bi d
    by (simp add: dispatch_def update_pcb_Some Let_def)
qed

text \<open>The switch back, after the process that ran has left the running state.\<close>

lemma back_to_idle_spec:
  assumes "run_queue s q" and "current s \<noteq> idle s"
    and "\<And>p. \<not> has_state s p Running" and "\<And>p. has_state s p Ready \<longleftrightarrow> p \<in> set q \<or> p = idle s"
  shows "\<exists>s'. back_to_idle s = Inr s' \<and> sched_inv s' q \<and> current s' = idle s \<and> idle s' = idle s \<and>
    init_proc s' = init_proc s \<and> kheap s' = kheap s \<and> file_table s' = file_table s \<and>
    (\<forall>p. p \<noteq> idle s \<longrightarrow> pcbs s' p = pcbs s p) \<and> klinks s' = klinks s"
proof -
  obtain bi where bi: "pcbs s (idle s) = Some bi" using assms(4) [of "idle s"] by (auto simp: has_state_def)
  have "sched_inv (set_pcb (s\<lparr>current := idle s\<rparr>) (idle s) (bi\<lparr>state := Running\<rparr>)) q"
    using assms queue_distinct [OF assms(1)]
    unfolding sched_inv_def run_queue_def has_state_def by (auto split: if_splits)
  with bi show ?thesis by (auto simp: back_to_idle_def update_pcb_Some Let_def)
qed

text \<open>\<^verbatim>\<open>yield\<close> puts the running process at the end of the queue.\<close>

lemma yield_spec:
  assumes "sched_inv s q" and "current s \<noteq> idle s"
  shows "\<exists>s1 s2. yield_current s = Inr s1 \<and> back_to_idle s1 = Inr s2 \<and> sched_inv s2 (q @ [current s]) \<and>
    current s2 = idle s \<and> idle s2 = idle s \<and> init_proc s2 = init_proc s \<and> kheap s2 = kheap s \<and>
    file_table s2 = file_table s"
proof -
  note i = sched_invD [OF assms(1)]
  obtain b where b: "pcbs s (current s) = Some b" using i(4) by (auto simp: has_state_def)
  define s1 where "s1 = add_process (set_pcb s (current s) (b\<lparr>state := Ready\<rparr>)) (current s)"
  have "clist (list_add_tail (klinks s) (run_node (current s)) (run_node (idle s)))
      (run_node (idle s)) (map run_node q @ [run_node (current s)])"
    by (rule lists.holds_back) (use i(1,3) assms(2) in \<open>auto simp: run_queue_def\<close>)
  then have rq: "run_queue s1 (q @ [current s])"
    by (simp add: s1_def run_queue_def add_process_def)
  have st: "\<not> has_state s1 p Running" "has_state s1 p Ready \<longleftrightarrow> p \<in> set (q @ [current s]) \<or> p = idle s1" for p
    using assms unfolding sched_inv_def has_state_def s1_def add_process_def by (auto split: if_splits)
  have "yield_current s = Inr s1" using b by (simp add: yield_current_def s1_def update_pcb_Some)
  moreover have "current s1 = current s" "idle s1 = idle s" "init_proc s1 = init_proc s"
    "kheap s1 = kheap s" "file_table s1 = file_table s" by (simp_all add: s1_def add_process_def)
  ultimately show ?thesis using back_to_idle_spec [OF rq _ st] assms(2) by auto
qed

section \<open>The loops over the children\<close>

lemma wait_scan_spec:
  assumes "dseg (klinks s) a (map sibling_node cs) h" and "h \<notin> sibling_node ` set cs"
    and "\<forall>c \<in> set cs. pcbs s c \<noteq> None"
  shows "wait_scan s h (next_of (klinks s) a) flag =
    (case find (\<lambda>c. has_state s c Exited) cs of
       None \<Rightarrow> Some (Inr (None, flag \<or> cs \<noteq> []))
     | Some c \<Rightarrow> Some (Inr (Some c, flag \<or> hd cs \<noteq> c)))"
  using assms
proof (induction cs arbitrary: a flag)
  case Nil
  then show ?case by (subst wait_scan.simps) simp
next
  case (Cons c cs)
  then obtain b where b: "pcbs s c = Some b" by auto
  have nx: "next_of (klinks s) a = sibling_node c" using Cons.prems(1) by simp
  show ?case
  proof (cases "state b = Exited")
    case True
    then show ?thesis using Cons.prems(2) b nx
      by (subst wait_scan.simps) (auto simp: has_state_def get_pcb_Some)
  next
    case False
    have "wait_scan s h (sibling_node c) flag = wait_scan s h (next_of (klinks s) (sibling_node c)) True"
      using False Cons.prems(2) b by (subst wait_scan.simps) (auto simp: get_pcb_Some)
    moreover have "hd (c # cs) \<noteq> d" if "find (\<lambda>c. has_state s c Exited) cs = Some d" for d
      using that False b by (auto simp: find_Some_iff has_state_def)
    ultimately show ?thesis using Cons.IH [of "sibling_node c" True] Cons.prems False b nx
      by (auto simp: has_state_def split: option.splits)
  qed
qed

text \<open>
  The inner loop of \<^verbatim>\<open>exit_current\<close> never leaves a set of nodes that is closed under the links
  once it has the head of \<^verbatim>\<open>init\<close> and not its own.
\<close>

definition closed_nodes :: "links \<Rightarrow> addr set \<Rightarrow> bool" where
  "closed_nodes l S \<longleftrightarrow> (\<forall>x \<in> S. next_of l x \<in> S \<and> prev_of l x \<in> S)"

lemma closed_step:
  assumes "closed_nodes l S" and "p \<in> S" and "h \<in> S"
  shows "closed_nodes (list_add (list_del l p) p h) S"
  using assms
  by (auto simp: closed_nodes_def list_add_def list_add_between_def list_del_def INIT_LIST_HEAD_def Let_def)

lemma reparent_each_trapped:
  assumes "closed_nodes l S" and "init_head \<in> S" and "head \<notin> S" and "pos \<in> S"
  shows "reparent_each l head init_head pos = None"
proof -
  define P where "P = (\<lambda>l head ih pos (l' :: links).
    \<not> (closed_nodes l S \<and> ih \<in> S \<and> head \<notin> S \<and> pos \<in> S))"
  have "P l head init_head pos l'" if "reparent_each l head init_head pos = Some l'" for l'
  proof (rule reparent_each.raw_induct [OF _ that])
    fix f l head ih pos l'
    assume IH: "\<And>l head ih pos l'. f l head ih pos = Some l' \<Longrightarrow> P l head ih pos l'"
      and ret: "(if pos = head then Some l
        else let l = list_del l pos; l = list_add l pos ih in f l head ih (next_of l pos)) = Some l'"
    show "P l head ih pos l'"
      unfolding P_def
    proof
      assume asm: "closed_nodes l S \<and> ih \<in> S \<and> head \<notin> S \<and> pos \<in> S"
      define k where "k = list_add (list_del l pos) pos ih"
      have "closed_nodes k S" using asm closed_step unfolding k_def by blast
      moreover from this have "next_of k pos \<in> S" using asm by (simp add: closed_nodes_def)
      moreover have "f k head ih (next_of k pos) = Some l'"
        using ret asm by (auto simp: k_def Let_def split: if_splits)
      ultimately show False using IH [of k head ih "next_of k pos" l'] asm by (simp add: P_def)
    qed
  qed
  with assms show ?thesis unfolding P_def by (cases "reparent_each l head init_head pos") auto
qed

lemma reparent_diverges:
  assumes "clist l head (c # cs)" and "clist l init_head ys"
    and "set (init_head # ys) \<inter> set (head # c # cs) = {}"
  shows "reparent l head init_head = None"
proof -
  define k where "k = list_add (list_del l c) c init_head"
  have fr: "links_same_outside (set (head # [] @ c # cs)) l (list_del l c)"
    by (rule clist_del(3)) (use assms(1) in simp)
  have "clist (list_del l c) init_head ys"
    using clist_frame [OF fr, of init_head ys] assms(2,3) by auto
  then have k: "clist k init_head (c # ys)"
    using clist_add(1) [of "list_del l c" init_head ys c] assms(3) by (auto simp: k_def)
  have ring: "dseg k a xs b \<Longrightarrow> (\<forall>x \<in> insert a (set xs). next_of k x \<in> insert b (set xs)) \<and>
      (\<forall>x \<in> insert b (set xs). prev_of k x \<in> insert a (set xs))" for a xs b
    by (induction xs arbitrary: a) auto
  have "closed_nodes k (set (init_head # c # ys))"
    using ring [of init_head "c # ys" init_head] k by (auto simp: closed_nodes_def clist_def)
  moreover from this have "next_of k c \<in> set (init_head # c # ys)" by (auto simp: closed_nodes_def)
  moreover have "head \<noteq> c" "head \<notin> set (init_head # c # ys)" using assms by (auto simp: clist_def)
  ultimately have "reparent_each k head init_head (next_of k c) = None"
    by (intro reparent_each_trapped) auto
  then have "reparent_each l head init_head c = None"
    using \<open>head \<noteq> c\<close> by (subst reparent_each.simps) (simp add: k_def Let_def)
  moreover have "next_of l head = c" "\<not> list_empty l head"
    using clist_next [OF assms(1)] list_empty_iff [OF assms(1)] by simp_all
  ultimately show ?thesis by (subst reparent.simps) simp
qed

end
