(* ===== verification/Sched_Steps.thy ===== *)
theory Sched_Steps
  imports Sched
begin

text \<open>
  The steps of the scheduled system: the scheduler runs a process, a trap switches back to the
  scheduler, or a trap is served and the process goes on. The step relation leaves out the calls
  that create or destroy processes and address spaces; every handler in it keeps \<open>sched_inv\<close>.
\<close>

section \<open>What the scheduler sees of a state\<close>

definition same_sched :: "kernel \<Rightarrow> kernel \<Rightarrow> bool" where
  "same_sched s s' \<longleftrightarrow> klinks s' = klinks s \<and> idle s' = idle s \<and> current s' = current s \<and>
     (\<forall>p st. has_state s' p st \<longleftrightarrow> has_state s p st)"


lemma same_sched_refl [simp]: "same_sched s s"
  by (simp add: same_sched_def)

lemma same_sched_trans [trans]: "same_sched s s' \<Longrightarrow> same_sched s' s'' \<Longrightarrow> same_sched s s''"
  by (simp add: same_sched_def)

lemma same_sched_inv: "same_sched s s' \<Longrightarrow> sched_inv s q \<Longrightarrow> sched_inv s' q"
  by (simp add: same_sched_def sched_inv_def run_queue_def)

lemma same_sched_simps [simp]:
  "same_sched s (set_kmem s m)" "same_sched s (set_file s f fl)" "same_sched s (s\<lparr>console := c\<rparr>)"
  "same_sched s (s\<lparr>kheap := h\<rparr>)" "same_sched s (s\<lparr>file_table := t\<rparr>)" "same_sched s (s\<lparr>next_timeout := n\<rparr>)"
  by (simp_all add: same_sched_def has_state_def set_kmem_def set_file_def)

lemma update_pcb_sched:
  assumes "update_pcb s p f = Inr s'" and "\<And>b. state (f b) = state b"
  shows "same_sched s s'"
  using assms
  by (fastforce simp: update_pcb_def get_pcb_def bindE_Inr_iff same_sched_def has_state_def split: if_splits)

lemma kalloc_sched: "kalloc s sz = Inr (p, s') \<Longrightarrow> same_sched s s'"
  by (auto simp: kalloc_def bindE_Inr_iff)

lemma kdealloc_sched: "kdealloc s p sz = Inr s' \<Longrightarrow> same_sched s s'"
  by (auto simp: kdealloc_def bindE_Inr_iff)

lemma set_fd_sched: "set_fd s p i f = Inr s' \<Longrightarrow> same_sched s s'"
  unfolding set_fd_def by (erule update_pcb_sched) simp

lemma new_file_sched: "new_file s = Inr (f, s') \<Longrightarrow> same_sched s s'"
  by (auto simp: new_file_def bindE_Inr_iff intro: same_sched_trans [OF kalloc_sched])

lemma release_file_sched: "release_file s f = Inr s' \<Longrightarrow> same_sched s s'"
  by (auto simp: release_file_def bindE_Inr_iff Let_def split: if_splits
      intro: same_sched_trans [OF kdealloc_sched])

lemma open_inode_sched:
  assumes "open_inode s i inode = Inr (n, s')"
  shows "same_sched s s'"
proof -
  obtain f s1 fl s2 where 1: "new_file s = Inr (f, s1)"
    and 2: "set_fd (set_file s1 f fl) (current (set_file s1 f fl)) i f = Inr s2" and 3: "s' = s2"
    using assms by (auto simp: open_inode_def Let_def elim!: bindE_InrE)
  from new_file_sched [OF 1] same_sched_simps(2) [of s1 f fl] set_fd_sched [OF 2] 3
  show ?thesis by (blast intro: same_sched_trans)
qed

lemma sys_open_sched: "sys_open img s name flags = Inr (n, s') \<Longrightarrow> same_sched s s'"
proof -
  assume "sys_open img s name flags = Inr (n, s')"
  then consider "s' = s" | i inode where "open_inode s i inode = Inr (n, s')"
    | i inode m where "open_inode (set_kmem s m) i inode = Inr (n, s')"
    by (auto simp: sys_open_def split: option.splits if_splits elim!: bindE_InrE)
  then show ?thesis
    by cases (auto dest: open_inode_sched intro: same_sched_trans [OF same_sched_simps(1)])
qed

lemma sys_close_sched: "sys_close s fd = Inr (n, s') \<Longrightarrow> same_sched s s'"
  by (auto simp: sys_close_def bindE_Inr_iff split: option.splits
      intro: same_sched_trans [OF release_file_sched set_fd_sched])

lemma read_root_sched: "read_root img s f buf c = Inr (n, s') \<Longrightarrow> same_sched s s'"
  by (auto simp: read_root_def bindE_Inr_iff Let_def split: option.splits if_splits
      intro: same_sched_trans [OF same_sched_simps(1) same_sched_simps(2)])

lemma sys_read_returned: "sys_read img g s fd buf c = Inr (Returned n s') \<Longrightarrow> same_sched s s'"
  by (auto simp: sys_read_def read_stdin_def bindE_Inr_iff Let_def split: option.splits if_splits
      dest: read_root_sched intro: same_sched_trans [OF same_sched_simps(1) same_sched_simps(2)])

lemma sys_write_sched: "sys_write img s fd buf c = Inr (n, s') \<Longrightarrow> same_sched s s'"
  by (auto simp: sys_write_def bindE_Inr_iff split: option.splits if_splits
      intro: same_sched_trans [OF same_sched_simps(1) same_sched_simps(2)])

section \<open>Handlers that switch\<close>

text \<open>A handler that has switched to the scheduler: what the switch back finds.\<close>

definition switched_ok :: "kernel \<Rightarrow> kernel \<Rightarrow> bool" where
  "switched_ok s s1 \<longleftrightarrow> (\<forall>q. sched_inv s q \<longrightarrow> current s \<noteq> idle s \<longrightarrow>
     (\<exists>s2 q2. back_to_idle s1 = Inr s2 \<and> sched_inv s2 q2 \<and> current s2 = idle s2 \<and>
        set q2 \<subseteq> insert (current s) (set q)))"

lemma yield_switched: "yield_current s = Inr s1 \<Longrightarrow> switched_ok s s1"
  using yield_spec [of s] unfolding switched_ok_def by fastforce

lemma same_sched_switched: "same_sched s s0 \<Longrightarrow> switched_ok s0 s1 \<Longrightarrow> switched_ok s s1"
  using same_sched_inv [of s s0] unfolding switched_ok_def by (simp add: same_sched_def)

lemma sys_read_switched:
  assumes "sys_read img g s fd buf c = Inr (Switched k s1)"
  shows "yield_current s = Inr s1"
  using assms
  by (auto simp: sys_read_def read_stdin_def Let_def split: option.splits if_splits elim!: bindE_InrE)

lemma sys_wait_switched:
  assumes "sys_wait_round s flag = Inr (Switched k s1)"
  shows "yield_current s = Inr s1"
proof -
  obtain found flag' where f: "(case found of
        Some child \<Rightarrow> bindE (reap s child) (\<lambda>(n, s). Inr (Returned n s))
      | None \<Rightarrow> if flag' then bindE (yield_current s) (\<lambda>s. Inr (Switched In_wait s))
                else Inr (Returned (-1) s)) = Inr (Switched k s1)"
    using assms unfolding sys_wait_round_def Let_def by (elim bindE_InrE) (auto split: prod.splits)
  show ?thesis
  proof (cases found)
    case None
    with f show ?thesis by (auto split: if_splits elim!: bindE_InrE)
  next
    case (Some c)
    with f show ?thesis by (auto elim!: bindE_InrE)
  qed
qed

text \<open>Only links of children change when the process that exits has none.\<close>

lemma exit_switched:
  assumes "exit_current s = Inr (Switched k s1)" and "current s = init_proc s \<or> list_empty (klinks s) (children_head (current s))"
  shows "switched_ok s s1"
  unfolding switched_ok_def
proof (intro allI impI)
  fix q assume inv: "sched_inv s q" and ni: "current s \<noteq> idle s"
  note i = sched_invD [OF inv]
  obtain b where b: "pcbs s (current s) = Some b" using i(4) by (auto simp: has_state_def)
  have s1: "s1 = set_pcb s (current s) (b\<lparr>state := Exited\<rparr>)"
    using assms b by (auto simp: exit_current_def update_pcb_Some bindE_Inr_iff reparent.simps split: if_splits)
  have rq: "run_queue s1 q" using i(1) by (simp add: s1 run_queue_def)
  have st: "\<not> has_state s1 p Running" "has_state s1 p Ready \<longleftrightarrow> p \<in> set q \<or> p = idle s1" for p
    using inv ni i(3) unfolding sched_inv_def has_state_def s1 by (auto split: if_splits)
  have "current s1 \<noteq> idle s1" using ni by (simp add: s1)
  from back_to_idle_spec [OF rq this st] obtain s2 where "back_to_idle s1 = Inr s2" "sched_inv s2 q"
    "current s2 = idle s2" by auto
  then show "\<exists>s2 q2. back_to_idle s1 = Inr s2 \<and> sched_inv s2 q2 \<and> current s2 = idle s2 \<and>
      set q2 \<subseteq> insert (current s) (set q)" by blast
qed

section \<open>Traps\<close>

text \<open>The number of the system call the current process asks for.\<close>

definition call_number :: "kernel \<Rightarrow> usize" where
  "call_number s = (case pcbs s (current s) of None \<Rightarrow> 0 | Some b \<Rightarrow> x_regs (trap_cx b) ! 17)"

text \<open>
  The traps that neither create nor destroy a process or an address space; an exit with children
  is left out too, as it does not return.
\<close>

definition light_trap :: "kernel \<Rightarrow> usize \<Rightarrow> bool" where
  "light_trap s scause \<longleftrightarrow> scause = USER_ENV_CALL \<longrightarrow>
     call_number s \<notin> {SYS_fork, SYS_exec} \<and>
     (call_number s = SYS_exit \<longrightarrow>
        current s = init_proc s \<or> list_empty (klinks s) (children_head (current s)))"

lemma returned_Inr: "returned r = Inr (Returned w s') \<Longrightarrow> \<exists>n. r = Inr (n, s')"
  by (auto simp: returned_def elim!: bindE_InrE)

lemma returned_not_switched: "returned r \<noteq> Inr (Switched k s')"
  by (auto simp: returned_def elim!: bindE_InrE)

lemma as_register_Inr:
  "as_register r = Inr (Returned w s') \<Longrightarrow> \<exists>n. r = Inr (Returned n s')"
  "as_register r = Inr (Switched k s') \<Longrightarrow> r = Inr (Switched k s')"
  by (auto simp: as_register_def split: reply.splits elim!: bindE_InrE)

lemma exit_not_returned: "exit_current s \<noteq> Inr (Returned n s')"
  by (auto simp: exit_current_def elim!: bindE_InrE)

lemma syscall_returned:
  assumes "syscall img env s num a0 a1 a2 = Inr (Returned r s')" and "num \<notin> {SYS_fork, SYS_wait, SYS_exec}"
  shows "same_sched s s'"
proof -
  consider "num = SYS_exit" | "num = SYS_putchar" | "num = SYS_getpid" | "num = SYS_open" | "num = SYS_close"
    | "num = SYS_read" | "num = SYS_write" | "num \<notin> {SYS_exit, SYS_putchar, SYS_getpid, SYS_open, SYS_close, SYS_read, SYS_write}"
    by blast
  then show ?thesis
  proof cases
    case 1
    with assms(1) show ?thesis using as_register_Inr(1) exit_not_returned by (fastforce simp: syscall_def)
  next
    case 2
    with assms(1) show ?thesis by (auto simp: syscall_def console_putchar_def SYS_putchar_def SYS_exit_def)
  next
    case 3
    with assms(1) show ?thesis
      by (auto simp: syscall_def SYS_putchar_def SYS_exit_def SYS_getpid_def returned_def elim!: bindE_InrE)
  next
    case 4
    with assms have "returned (sys_open img s a0 (int_arg a1)) = Inr (Returned r s')"
      by (simp add: syscall_def SYS_putchar_def SYS_exit_def SYS_getpid_def SYS_open_def SYS_fork_def
          SYS_wait_def SYS_exec_def)
    then show ?thesis using returned_Inr sys_open_sched by blast
  next
    case 5
    with assms have "returned (sys_close s (sint (int_arg a0))) = Inr (Returned r s')"
      by (simp add: syscall_def SYS_putchar_def SYS_exit_def SYS_getpid_def SYS_open_def SYS_fork_def
          SYS_wait_def SYS_exec_def SYS_close_def)
    then show ?thesis using returned_Inr sys_close_sched by blast
  next
    case 6
    with assms have "as_register (sys_read img (getchar env) s (sint (int_arg a0)) a1 (int_arg a2)) =
        Inr (Returned r s')"
      by (simp add: syscall_def SYS_putchar_def SYS_exit_def SYS_getpid_def SYS_open_def SYS_fork_def
          SYS_wait_def SYS_exec_def SYS_close_def SYS_read_def)
    then show ?thesis using as_register_Inr(1) sys_read_returned by blast
  next
    case 7
    with assms have "returned (sys_write img s (sint (int_arg a0)) a1 (int_arg a2)) = Inr (Returned r s')"
      by (simp add: syscall_def SYS_putchar_def SYS_exit_def SYS_getpid_def SYS_open_def SYS_fork_def
          SYS_wait_def SYS_exec_def SYS_close_def SYS_read_def SYS_write_def)
    then show ?thesis using returned_Inr sys_write_sched by blast
  next
    case 8
    with assms show ?thesis by (auto simp: syscall_def panic_def elim!: bindE_InrE)
  qed
qed

lemma syscall_switched:
  assumes "syscall img env s num a0 a1 a2 = Inr (Switched k s1)"
    and "num = SYS_exit \<longrightarrow> current s = init_proc s \<or> list_empty (klinks s) (children_head (current s))"
  shows "switched_ok s s1"
proof -
  consider "num = SYS_exit" | "num = SYS_wait" | "num = SYS_read" | "num \<notin> {SYS_exit, SYS_wait, SYS_read}"
    by blast
  then show ?thesis
  proof cases
    case 1
    with assms show ?thesis using as_register_Inr(2) exit_switched by (fastforce simp: syscall_def)
  next
    case 2
    with assms have "as_register (sys_wait s) = Inr (Switched k s1)"
      by (simp add: syscall_def SYS_putchar_def SYS_exit_def SYS_getpid_def SYS_fork_def SYS_wait_def)
    then show ?thesis using as_register_Inr(2) sys_wait_switched yield_switched unfolding sys_wait_def by blast
  next
    case 3
    with assms have "as_register (sys_read img (getchar env) s (sint (int_arg a0)) a1 (int_arg a2)) =
        Inr (Switched k s1)"
      by (simp add: syscall_def SYS_putchar_def SYS_exit_def SYS_getpid_def SYS_open_def SYS_fork_def
          SYS_wait_def SYS_exec_def SYS_close_def SYS_read_def)
    then show ?thesis using as_register_Inr(2) sys_read_switched yield_switched by blast
  next
    case 4
    with assms(1) have False
      by (auto simp: syscall_def panic_def returned_not_switched split: if_splits elim!: bindE_InrE)
    then show ?thesis ..
  qed
qed

lemma finish_syscall_sched: "finish_syscall s ret = Inr s' \<Longrightarrow> same_sched s s'"
  unfolding finish_syscall_def by (erule update_pcb_sched) simp

lemma breakpoint_sched: "breakpoint s = Inr s' \<Longrightarrow> same_sched s s'"
proof -
  assume "breakpoint s = Inr s'"
  then obtain c p where "update_pcb (s\<lparr>console := c\<rparr>) p
      (\<lambda>b. b\<lparr>trap_cx := (trap_cx b)\<lparr>sepc := sepc (trap_cx b) + 2\<rparr>\<rparr>) = Inr s'"
    by (auto simp: breakpoint_def elim!: bindE_InrE)
  then have "same_sched (s\<lparr>console := c\<rparr>) s'" by (rule update_pcb_sched) simp
  with same_sched_simps(3) show ?thesis by (rule same_sched_trans)
qed

text \<open>What \<^verbatim>\<open>syscall_handle\<close> calls, and on which state.\<close>

lemma syscall_handle_calls:
  assumes "syscall_handle img env s = Inr r"
  obtains b s0 where "pcbs s (current s) = Some b" and "same_sched s s0" and "init_proc s0 = init_proc s"
    and "bindE (syscall img env s0 (x_regs (trap_cx b) ! 17) (x_regs (trap_cx b) ! 10)
          (x_regs (trap_cx b) ! 11) (x_regs (trap_cx b) ! 12)) (\<lambda>r. case r of
            Returned ret s \<Rightarrow> bindE (finish_syscall s ret) (\<lambda>s. Inr (Returned () s))
          | Switched k s \<Rightarrow> Inr (Switched k s)) = Inr r"
proof -
  define adv :: "pcb \<Rightarrow> pcb" where "adv = (\<lambda>b. b\<lparr>trap_cx := (trap_cx b)\<lparr>sepc := sepc (trap_cx b) + 4\<rparr>\<rparr>)"
  obtain s0 where s0: "update_pcb s (current s) adv = Inr s0"
    using assms by (auto simp: syscall_handle_def adv_def elim!: bindE_InrE)
  then obtain b where b: "pcbs s (current s) = Some b" "s0 = set_pcb s (current s) (adv b)"
    by (auto simp: update_pcb_def get_pcb_def elim!: bindE_InrE)
  have "get_pcb s0 (current s0) = Inr (adv b)" by (simp add: b(2) get_pcb_Some)
  then show ?thesis
    using that [of b s0] assms b update_pcb_sched [OF s0] s0
    by (simp add: syscall_handle_def adv_def [symmetric]) (simp add: adv_def Let_def)
qed

lemma trap_returned:
  assumes "trap_handle img env s scause stval = Inr (Returned () s')"
    and "scause = USER_ENV_CALL \<longrightarrow> call_number s \<notin> {SYS_fork, SYS_wait, SYS_exec}"
  shows "same_sched s s'"
proof -
  consider "scause = BREAKPOINT" | "scause = USER_ENV_CALL" "scause \<noteq> BREAKPOINT"
    using assms(1) by (auto simp: trap_handle_def supervisor_timer_def unhandled_trap_def panic_def
        split: if_splits elim!: bindE_InrE)
  then show ?thesis
  proof cases
    case 1
    with assms(1) show ?thesis by (auto simp: trap_handle_def dest: breakpoint_sched elim!: bindE_InrE)
  next
    case 2
    then have "syscall_handle img env s = Inr (Returned () s')" using assms(1) by (simp add: trap_handle_def)
    then obtain b s0 ret s1 where b: "pcbs s (current s) = Some b" "same_sched s s0"
      "syscall img env s0 (x_regs (trap_cx b) ! 17) (x_regs (trap_cx b) ! 10)
          (x_regs (trap_cx b) ! 11) (x_regs (trap_cx b) ! 12) = Inr (Returned ret s1)"
      "finish_syscall s1 ret = Inr s'"
      by (rule syscall_handle_calls) (auto split: reply.splits elim!: bindE_InrE)
    moreover have "call_number s = x_regs (trap_cx b) ! 17" using b(1) by (simp add: call_number_def)
    ultimately show ?thesis
      using syscall_returned [OF b(3)] finish_syscall_sched assms(2) 2 same_sched_trans by metis
  qed
qed

lemma trap_switched:
  assumes "trap_handle img env s scause stval = Inr (Switched k s1)" and "light_trap s scause"
  shows "switched_ok s s1"
proof -
  consider "scause = SUPERVISOR_TIMER" | "scause = USER_ENV_CALL" "scause \<noteq> BREAKPOINT"
    using assms(1) by (auto simp: trap_handle_def unhandled_trap_def panic_def
        split: if_splits elim!: bindE_InrE)
  then show ?thesis
  proof cases
    case 1
    then have "yield_current (set_next_timeout env s) = Inr s1"
      using assms(1) by (auto simp: trap_handle_def supervisor_timer_def SUPERVISOR_TIMER_def BREAKPOINT_def
          USER_ENV_CALL_def elim!: bindE_InrE)
    then show ?thesis
      using same_sched_switched [of s "set_next_timeout env s"] yield_switched by (simp add: set_next_timeout_def)
  next
    case 2
    then have "syscall_handle img env s = Inr (Switched k s1)" using assms(1) by (simp add: trap_handle_def)
    then obtain b s0 where b: "pcbs s (current s) = Some b" "same_sched s s0" "init_proc s0 = init_proc s"
      "syscall img env s0 (x_regs (trap_cx b) ! 17) (x_regs (trap_cx b) ! 10)
          (x_regs (trap_cx b) ! 11) (x_regs (trap_cx b) ! 12) = Inr (Switched k s1)"
      by (rule syscall_handle_calls) (auto split: reply.splits elim!: bindE_InrE)
    have "call_number s = x_regs (trap_cx b) ! 17" using b(1) by (simp add: call_number_def)
    then have "switched_ok s0 s1"
      using assms(2) 2 b(2,3) by (intro syscall_switched [OF b(4)]) (auto simp: light_trap_def same_sched_def)
    with b(2) show ?thesis by (rule same_sched_switched)
  qed
qed

section \<open>The step relation\<close>

inductive sched_step :: "image \<Rightarrow> kernel \<Rightarrow> kernel \<Rightarrow> bool" for img where
  run: "\<lbrakk>current s = idle s; schedule_pick s = Inr (Some p); dispatch s p = Inr s'\<rbrakk> \<Longrightarrow> sched_step img s s'"
| switch: "\<lbrakk>current s \<noteq> idle s; light_trap s scause;
    trap_handle img env s scause stval = Inr (Switched k s1); back_to_idle s1 = Inr s'\<rbrakk> \<Longrightarrow> sched_step img s s'"
| served: "\<lbrakk>current s \<noteq> idle s; light_trap s scause; scause = USER_ENV_CALL \<longrightarrow> call_number s \<noteq> SYS_wait;
    trap_handle img env s scause stval = Inr (Returned () s')\<rbrakk> \<Longrightarrow> sched_step img s s'"
| wait_again: "\<lbrakk>current s \<noteq> idle s; resume_process env s k = Inr (Switched k' s1); back_to_idle s1 = Inr s'\<rbrakk>
    \<Longrightarrow> sched_step img s s'"
| read_done: "\<lbrakk>current s \<noteq> idle s; resume_process env s (In_read buf) = Inr (Returned () s')\<rbrakk> \<Longrightarrow> sched_step img s s'"

lemma resume_switched: "resume_process env s k = Inr (Switched k' s1) \<Longrightarrow> switched_ok s s1"
proof (cases k)
  case In_wait
  assume "resume_process env s k = Inr (Switched k' s1)"
  with In_wait have "as_register (sys_wait_round s True) = Inr (Switched k' s1)"
    by (auto simp: resume_process_def split: reply.splits elim!: bindE_InrE)
  then show ?thesis using as_register_Inr(2) sys_wait_switched yield_switched by blast
next
  case (In_read buf)
  assume "resume_process env s k = Inr (Switched k' s1)"
  with In_read have "as_register (read_stdin s buf (getchar env)) = Inr (Switched k' s1)"
    by (auto simp: resume_process_def split: reply.splits elim!: bindE_InrE)
  then have "yield_current s = Inr s1"
    using as_register_Inr(2) by (fastforce simp: read_stdin_def Let_def split: if_splits elim!: bindE_InrE)
  then show ?thesis by (rule yield_switched)
qed (simp_all add: resume_process_def)

lemma read_resumed: "resume_process env s (In_read buf) = Inr (Returned () s') \<Longrightarrow> same_sched s s'"
proof -
  assume "resume_process env s (In_read buf) = Inr (Returned () s')"
  then obtain ret s1 where "as_register (read_stdin s buf (getchar env)) = Inr (Returned ret s1)"
    "finish_syscall s1 ret = Inr s'"
    by (auto simp: resume_process_def split: reply.splits elim!: bindE_InrE)
  then have "same_sched s s1" "same_sched s1 s'"
    using as_register_Inr(1) finish_syscall_sched
    by (auto simp: read_stdin_def Let_def as_register_def split: if_splits reply.splits elim!: bindE_InrE)
  then show ?thesis by (rule same_sched_trans)
qed

lemma sched_step_inv:
  assumes "sched_step img s s'" and "sched_inv s q"
  shows "\<exists>q'. sched_inv s' q'"
  using assms
proof (cases rule: sched_step.cases)
  case (run p)
  have "q \<noteq> []"
    using schedule_pick_empty [of s] sched_invD(1) [OF assms(2)] run(2) by auto
  then obtain p' q' where q: "q = p' # q'" by (cases q) auto
  with dispatch_spec [of s p' q'] assms(2) run show ?thesis by fastforce
next
  case (switch scause env stval k s1)
  with trap_switched [OF switch(3,2)] assms(2) show ?thesis by (fastforce simp: switched_ok_def)
next
  case (served scause env stval)
  then have "scause = USER_ENV_CALL \<longrightarrow> call_number s \<notin> {SYS_fork, SYS_wait, SYS_exec}"
    by (auto simp: light_trap_def)
  with trap_returned [OF served(4)] assms(2) show ?thesis by (blast intro: same_sched_inv)
next
  case (wait_again env k k' s1)
  with resume_switched [OF wait_again(2)] assms(2) show ?thesis by (fastforce simp: switched_ok_def)
next
  case (read_done env buf)
  with read_resumed assms(2) show ?thesis by (blast intro: same_sched_inv)
qed

section \<open>Time slices\<close>

text \<open>The scheduler runs a process until the timer interrupts it.\<close>

definition time_slice :: "image \<Rightarrow> environment \<Rightarrow> kernel \<Rightarrow> kernel outcome" where
  "time_slice img env s =
     bindE (schedule_pick s) (\<lambda>p. case p of
       None \<Rightarrow> Inr s
     | Some p \<Rightarrow>
         bindE (dispatch s p) (\<lambda>s.
         bindE (trap_handle img env s SUPERVISOR_TIMER 0) (\<lambda>r. case r of
           Returned _ s \<Rightarrow> Inr s
         | Switched _ s \<Rightarrow> back_to_idle s)))"

fun time_slices :: "image \<Rightarrow> environment \<Rightarrow> nat \<Rightarrow> kernel \<Rightarrow> kernel outcome" where
  "time_slices img env 0 s = Inr s"
| "time_slices img env (Suc n) s = bindE (time_slice img env s) (time_slices img env n)"

lemma time_slice_rotates:
  assumes "sched_inv s q" and "current s = idle s"
  shows "\<exists>s'. time_slice img env s = Inr s' \<and> sched_inv s' (rotate1 q) \<and> current s' = idle s' \<and>
    schedule_pick s = Inr (if q = [] then None else Some (hd q))"
proof (cases q)
  case Nil
  then have "schedule_pick s = Inr None" using schedule_pick_empty sched_invD(1) [OF assms(1)] by simp
  with Nil assms show ?thesis by (simp add: time_slice_def)
next
  case (Cons p q')
  obtain s1 where s1: "schedule_pick s = Inr (Some p)" "dispatch s p = Inr s1" "sched_inv s1 q'"
    "current s1 = p" "idle s1 = idle s" using dispatch_spec [of s p q'] assms Cons by auto
  have "p \<noteq> idle s" using queue_distinct [OF sched_invD(1) [OF assms(1)]] Cons by auto
  define s2 where "s2 = set_next_timeout env s1"
  have same: "same_sched s1 s2" by (simp add: s2_def set_next_timeout_def)
  have "sched_inv s2 q'" using same_sched_inv [OF same s1(3)] .
  moreover have "current s2 = p" "idle s2 = idle s" using same s1(4,5) by (simp_all add: same_sched_def)
  ultimately have "sched_inv s2 q'" "current s2 = p" "idle s2 = idle s" by simp_all
  with yield_spec [of s2 q'] \<open>p \<noteq> idle s\<close> obtain s3 s4 where "yield_current s2 = Inr s3"
    "back_to_idle s3 = Inr s4" "sched_inv s4 (q' @ [p])" "current s4 = idle s4" by auto
  then show ?thesis using s1 Cons
    by (simp add: time_slice_def trap_handle_def supervisor_timer_def s2_def BREAKPOINT_def
        USER_ENV_CALL_def SUPERVISOR_TIMER_def)
qed

lemma time_slices_rotate:
  assumes "sched_inv s q" and "current s = idle s"
  shows "\<exists>s'. time_slices img env n s = Inr s' \<and> sched_inv s' (rotate n q) \<and> current s' = idle s'"
  using assms
proof (induction n arbitrary: s q)
  case (Suc n)
  obtain s1 where "time_slice img env s = Inr s1" "sched_inv s1 (rotate1 q)" "current s1 = idle s1"
    using time_slice_rotates [OF Suc.prems] by blast
  with Suc.IH [of s1 "rotate1 q"] show ?case by (simp add: rotate1_rotate_swap)
qed simp

end
