(* ===== verification/Process_Properties.thy ===== *)
theory Process_Properties
  imports Sched_Steps
begin

text \<open>
  The properties of processes: their numbers, the turns of the scheduler, and exiting, each with an
  instance on a kernel with two processes besides the idle one.
\<close>

section \<open>Two processes\<close>

definition demo_pcb :: "int \<Rightarrow> proc_state \<Rightarrow> pcb" where
  "demo_pcb n st =
     \<lparr>pid = n, state = st,
      process_cx = \<lparr>ra = 0, sp = 0, s_regs = replicate 12 0, cx_satp = 0\<rparr>,
      trap_cx = \<lparr>x_regs = replicate 32 0, sstatus = 0, sepc = 0, kernel_sp = 0\<rparr>,
      kstack = 0, ustack = 0, mm = 0, parent = 0, files = replicate 16 0\<rparr>"

definition demo_links :: links where
  "demo_links =
     (let l = fold (\<lambda>p l. INIT_LIST_HEAD (INIT_LIST_HEAD (INIT_LIST_HEAD l (run_node p)) (children_head p))
                (sibling_node p)) [0x1000, 0x2000, 0x3000] \<lparr>next_of = (\<lambda>_. 0), prev_of = (\<lambda>_. 0)\<rparr>;
          l = list_add l (sibling_node 0x3000) (children_head 0x2000)
      in list_add_tail (list_add_tail l (run_node 0x2000) (run_node 0x1000)) (run_node 0x3000) (run_node 0x1000))"

definition demo_kernel :: kernel where
  "demo_kernel =
     \<lparr>kheap = (\<lambda>_. 0, \<lparr>free_list = [], total = 0, allocated = 0\<rparr>), klinks = demo_links,
      segs = Map.empty, mms = Map.empty, satp = 0,
      pcbs = [0x1000 \<mapsto> demo_pcb 0 Running, 0x2000 \<mapsto> demo_pcb 1 Ready, 0x3000 \<mapsto> demo_pcb 2 Ready],
      file_table = Map.empty, pids = replicate 32 0,
      current = 0x1000, idle = 0x1000, init_proc = 0x2000, console = [], next_timeout = 0\<rparr>"

lemma demo_lists:
  "clist demo_links (run_node 0x1000) [run_node 0x2000, run_node 0x3000]"
  "clist demo_links (children_head 0x2000) [sibling_node 0x3000]"
  "clist demo_links (children_head 0x3000) []"
  by (simp_all add: demo_links_def clist_def list_add_def list_add_tail_def list_add_between_def
      INIT_LIST_HEAD_def run_node_def children_head_def sibling_node_def Let_def)

lemma demo_inv: "sched_inv demo_kernel [0x2000, 0x3000]" "current demo_kernel = idle demo_kernel"
  using demo_lists(1)
  by (auto simp: sched_inv_def run_queue_def demo_kernel_def has_state_def demo_pcb_def)

definition demo_image :: image where
  "demo_image =
     \<lparr>stext = 0, etext = 0, srodata = 0, erodata = 0, sdata = 0, edata = 0, sbss_with_stack = 0,
      ebss = 0, ekernel = 0, fs_img_start = 0x100000, ROOT_INODE = 0x10, restore_entry = 0\<rparr>"

definition demo_env :: environment where
  "demo_env = \<lparr>r_sstatus = 0, r_time = 0, getchar = 0\<rparr>"

section \<open>Process numbers\<close>

text \<open>
  \<^verbatim>\<open>alloc_pid\<close> returns the least number that is not in use and marks exactly it, or -1, and
  then all 1024 are in use and nothing changes.
\<close>

theorem alloc_pid_correct:
  assumes "length ps = 32"
  shows "\<exists>n ps'. alloc_pid ps = Inr (n, ps') \<and> length ps' = 32 \<and>
    (if n = -1 then ps' = ps \<and> (\<forall>k < MAX_PID. pid_used ps k)
     else 0 \<le> n \<and> nat n < MAX_PID \<and> \<not> pid_used ps (nat n) \<and> (\<forall>k < nat n. pid_used ps k) \<and>
       (\<forall>k < MAX_PID. pid_used ps' k \<longleftrightarrow> k = nat n \<or> pid_used ps k))"
proof -
  consider "alloc_pid ps = Inr (-1, ps)" "\<forall>k < MAX_PID. pid_used ps k"
    | n where "alloc_pid ps = Inr (int n, ps[n div 32 := ps ! (n div 32) OR push_bit (n mod 32) 1])"
      "n < MAX_PID" "\<not> pid_used ps n" "\<forall>k < n. pid_used ps k"
    using alloc_pid_from_spec [of ps 0] assms by (auto simp: alloc_pid_def)
  then show ?thesis
  proof cases
    case 1
    with assms show ?thesis by auto
  next
    case (2 n)
    with assms pid_used_set [OF assms 2(2)] show ?thesis
      by (intro exI [of _ "int n"] exI [of _ "ps[n div 32 := ps ! (n div 32) OR push_bit (n mod 32) 1]"]) auto
  qed
qed

theorem alloc_pid_correct_witness:
  "\<exists>ps'. alloc_pid (replicate 32 0) = Inr (0, ps') \<and> pid_used ps' 0 \<and> \<not> pid_used ps' 1"
proof -
  have none: "\<not> pid_used (replicate 32 0) k" if "k < MAX_PID" for k
    using that by (simp add: pid_used_def MAX_PID_def)
  obtain n ps' where a: "alloc_pid (replicate 32 0) = Inr (n, ps')"
    "if n = -1 then ps' = replicate 32 0 \<and> (\<forall>k < MAX_PID. pid_used (replicate 32 0) k)
     else 0 \<le> n \<and> nat n < MAX_PID \<and> \<not> pid_used (replicate 32 0) (nat n) \<and>
       (\<forall>k < nat n. pid_used (replicate 32 0) k) \<and>
       (\<forall>k < MAX_PID. pid_used ps' k \<longleftrightarrow> k = nat n \<or> pid_used (replicate 32 0) k)"
    using alloc_pid_correct [of "replicate 32 0"] by auto
  have "n \<noteq> -1" using a(2) none [of 0] by (auto simp: MAX_PID_def)
  moreover from this have "nat n = 0" using a(2) none [of 0]
    by (cases "nat n = 0") (auto simp: MAX_PID_def simp del: nat_0_iff)
  ultimately show ?thesis using a none [of 1] by (auto simp: MAX_PID_def)
qed

text \<open>
  Giving back the number just allocated restores the bitmap, and a number that never came from
  \<^verbatim>\<open>alloc_pid\<close>, as the -1 of a failed allocation, makes \<^verbatim>\<open>dealloc_pid\<close> panic.
\<close>

theorem pid_roundtrip:
  assumes "length ps = 32" and "alloc_pid ps = Inr (n, ps')"
  shows "dealloc_pid ps' n =
    (if n = -1 then Inl (Panic (''Invalid PID: -1'' @ [CHR 0x0A])) else Inr ps)"
proof (cases "n = -1")
  case True
  have "printint (-1) 10 True = ''-1''" by code_simp
  then show ?thesis using True
    by (simp add: dealloc_pid_def panic_def)
next
  case False
  then obtain k where k: "n = int k" "k < MAX_PID" "\<not> pid_used ps k"
    "ps' = ps[k div 32 := ps ! (k div 32) OR push_bit (k mod 32) 1]"
    using alloc_pid_from_spec [of ps 0] assms by (auto simp: alloc_pid_def)
  then have "k div 32 < 32" by (auto simp: MAX_PID_def)
  with k assms(1) False show ?thesis
    by (simp add: dealloc_pid_def pid_used_def clear_set_bit Let_def)
qed

theorem pid_roundtrip_witness:
  "\<exists>n ps'. alloc_pid (replicate 32 0) = Inr (n, ps') \<and> n \<noteq> -1 \<and> dealloc_pid ps' n = Inr (replicate 32 0)"
proof -
  have "\<not> pid_used (replicate 32 0) 0" by (simp add: pid_used_def)
  then obtain n ps' where a: "alloc_pid (replicate 32 0) = Inr (n, ps')" "n \<noteq> -1"
    using alloc_pid_from_spec [of "replicate 32 0" 0] by (auto simp: alloc_pid_def MAX_PID_def)
  with pid_roundtrip [of "replicate 32 0" n ps'] show ?thesis by auto
qed

section \<open>The scheduler\<close>

text \<open>
  C15: the scheduler is fair. When every process runs until the timer interrupts it, \<open>n\<close> time slices
  always succeed and rotate the queue \<open>n\<close> times, so the process at position \<open>k\<close> of the queue is the
  one picked after \<open>k\<close> slices, and again after every further round.
\<close>

theorem round_robin:
  assumes "sched_inv s q" and "current s = idle s" and "k < length q"
  shows "\<exists>s'. time_slices img env (k + m * length q) s = Inr s' \<and> schedule_pick s' = Inr (Some (q ! k)) \<and>
    sched_inv s' (rotate k q)"
proof -
  let ?n = "k + m * length q"
  obtain s' where s': "time_slices img env ?n s = Inr s'" "sched_inv s' (rotate ?n q)" "current s' = idle s'"
    using time_slices_rotate [OF assms(1,2)] by blast
  have rot: "rotate ?n q = rotate k q"
    using assms(3) rotate_conv_mod [of ?n q] by simp
  have "hd (rotate k q) = q ! k" using assms(3) by (subst hd_rotate_conv_nth) auto
  then show ?thesis
    using time_slice_rotates [OF s'(2,3)] s' rot assms(3) by fastforce
qed

theorem round_robin_witness:
  "\<exists>s'. time_slices demo_image demo_env 5 demo_kernel = Inr s' \<and> schedule_pick s' = Inr (Some 0x3000)"
  using round_robin [OF demo_inv, of 1 demo_image demo_env 2] by auto

section \<open>Exiting\<close>

text \<open>
  C35: a process without children, or \<^verbatim>\<open>init\<close>, exits: its state becomes exited, it is not put back
  into the queue, and nothing else changes. The scheduler goes on with the processes that were ready.
\<close>

theorem exit_correct:
  assumes "sched_inv s q" and "current s \<noteq> idle s" and "pcbs s (current s) = Some b"
    and "current s = init_proc s \<or> list_empty (klinks s) (children_head (current s))"
  shows "\<exists>s1 s2. exit_current s = Inr (Switched Never s1) \<and>
    s1 = s\<lparr>pcbs := (pcbs s)(current s \<mapsto> b\<lparr>state := Exited\<rparr>)\<rparr> \<and>
    back_to_idle s1 = Inr s2 \<and> current s2 = idle s \<and> sched_inv s2 q \<and> has_state s2 (current s) Exited"
proof -
  define s1 where "s1 = set_pcb s (current s) (b\<lparr>state := Exited\<rparr>)"
  have ex: "exit_current s = Inr (Switched Never s1)"
    using assms(3,4) by (auto simp: exit_current_def update_pcb_Some reparent.simps s1_def)
  note i = sched_invD [OF assms(1)]
  have rq: "run_queue s1 q" using i(1) by (simp add: s1_def run_queue_def)
  have st: "\<not> has_state s1 p Running" "has_state s1 p Ready \<longleftrightarrow> p \<in> set q \<or> p = idle s1" for p
    using assms(1,2) i(3) unfolding sched_inv_def has_state_def s1_def by (auto split: if_splits)
  have "current s1 \<noteq> idle s1" using assms(2) by (simp add: s1_def)
  from back_to_idle_spec [OF rq this st] obtain s2 where s2: "back_to_idle s1 = Inr s2" "sched_inv s2 q"
    "current s2 = idle s1" "\<forall>p. p \<noteq> idle s1 \<longrightarrow> pcbs s2 p = pcbs s1 p" by auto
  have "has_state s2 (current s) Exited" using s2(4) assms(2) by (simp add: s1_def has_state_def)
  then show ?thesis using ex s2 by (auto simp: s1_def set_pcb_def)
qed

definition running_kernel :: "addr \<Rightarrow> kernel" where
  "running_kernel p = projr (dispatch demo_kernel p)"

lemma running_kernel:
  "sched_inv (running_kernel 0x2000) [0x3000]" "current (running_kernel 0x2000) = 0x2000"
  "idle (running_kernel 0x2000) = 0x1000" "init_proc (running_kernel 0x2000) = 0x2000"
  using dispatch_spec [OF demo_inv] by (auto simp: running_kernel_def) (simp_all add: demo_kernel_def)

theorem exit_correct_witness:
  "\<exists>s1 s2. exit_current (running_kernel 0x2000) = Inr (Switched Never s1) \<and>
     back_to_idle s1 = Inr s2 \<and> has_state s2 0x2000 Exited \<and> sched_inv s2 [0x3000]"
proof -
  obtain b where "pcbs (running_kernel 0x2000) (current (running_kernel 0x2000)) = Some b"
    using sched_invD(4) [OF running_kernel(1)] by (auto simp: has_state_def)
  from exit_correct [OF running_kernel(1) _ this] running_kernel(2-4) show ?thesis by auto
qed

text \<open>
  C26: when a process other than \<^verbatim>\<open>init\<close> exits with at least one child, \<^verbatim>\<open>exit_current\<close> never returns:
  the inner loop follows the links of the child it has just moved, and goes round the children of
  \<^verbatim>\<open>init\<close> for ever.
\<close>

theorem exit_with_children_diverges:
  assumes "pcbs s (current s) \<noteq> None" and "current s \<noteq> init_proc s"
    and "clist (klinks s) (children_head (current s)) (c # cs)"
    and "clist (klinks s) (children_head (init_proc s)) ys"
    and "set (children_head (init_proc s) # ys) \<inter> set (children_head (current s) # c # cs) = {}"
  shows "exit_current s = Inl Diverges"
  using reparent_diverges [OF assms(3-5)] assms(1,2)
  by (auto simp: exit_current_def update_pcb_Some)

theorem exit_with_children_diverges_witness:
  "exit_current (demo_kernel\<lparr>current := 0x2000, init_proc := 0x3000\<rparr>) = Inl Diverges"
  by (rule exit_with_children_diverges [of _ "sibling_node 0x3000" "[]" "[]"])
    (use demo_lists in \<open>simp_all add: demo_kernel_def children_head_def sibling_node_def\<close>)

end
