(* ===== verification/Elf_Properties.thy ===== *)
theory Elf_Properties
  imports Elf_Load Space_Properties Process_Properties
begin

text \<open>
  The property of the loader, \<^verbatim>\<open>from_elf\<close> of \<^verbatim>\<open>kernel/elf.c\<close>, with an instance: a file with one segment.
\<close>

text \<open>
  C5: \<^verbatim>\<open>from_elf\<close> returns. It panics if memory is short, with a bound on what was free, or if the file does
  not start with the four bytes of the format; otherwise it yields a well-formed address space that
  consists of the segments of the kernel, mapped to themselves, and one segment for every loadable header
  of the file, last header first, at the address and with the permissions the header asks for. Each page of
  these holds its part of the file, for as many bytes as the segment has in memory, not only those it has in
  the file. Nothing else is mapped, tables and frames are taken from the free memory, and all other memory
  and every other address space are as before.
\<close>

theorem from_elf_correct:
  assumes inv: "buddy_inv R (kheap s) F" and win: "in_window R" and hdr: "bytes_at elf 64 \<inter> F = {}"
    and table: "bytes_at (elf + e_phoff (fst (kheap s)) elf) (56 * unat (e_phnum (fst (kheap s)) elf)) \<inter> F = {}"
    and phs: "phs = headers (fst (kheap s)) (elf + e_phoff (fst (kheap s)) elf) (unat (e_phnum (fst (kheap s)) elf))"
    and ok: "\<forall>ph \<in> set phs. loadable ph \<longrightarrow> header_ok elf F ph"
    and dist: "distinct (map (take_bit 27) (all_vpns (kernel_segments img @ elf_segments phs)))"
  shows "case from_elf img s elf of
      Inl e \<Rightarrow> e = Panic ''Not enough memory!'' \<and> \<not> pages_free F (2 + segs_cost (kernel_segments img @ elf_segments phs)) \<or>
        e = Panic ''Unknown file type!'' \<and> \<not> elf_magic (fst (kheap s)) elf
    | Inr (mp, s') \<Rightarrow> elf_magic (fst (kheap s)) elf \<and> (\<exists>root F' tab prog kern.
        space R F' s' mp root tab (prog @ kern) \<and>
        list_all2 (loaded (fst (kheap s)) (fst (kheap s')) elf) (rev (filter loadable phs)) prog \<and>
        map (\<lambda>(_, sg, ps). (sg, ps)) kern = map (\<lambda>sg. (sg, [])) (kernel_segments img) \<and>
        only_listed (fst (kheap s')) tab (prog @ kern) \<and>
        page_set (ran tab) \<union> page_set (set (frames_of prog)) \<subseteq> F - F' \<and>
        same_outside F (fst (kheap s)) (fst (kheap s')) \<and>
        (\<forall>m r t sl. space R F s m r t sl \<longrightarrow> space R F' s' m r t sl))"
proof (cases "from_elf img s elf")
  case (Inl e)
  then show ?thesis using from_elf_spec [OF assms] by simp
next
  case (Inr r)
  obtain mp s' where r: "from_elf img s elf = Inr (mp, s')" using Inr by (cases r) auto
  obtain root F' tab prog kern St where u: "copying R F s mp root F' s' tab (prog @ kern) St"
    "list_all2 (loaded (fst (kheap s)) (fst (kheap s')) elf) (rev (filter loadable phs)) prog"
    "map (\<lambda>(_, sg, ps). (sg, ps)) kern = map (\<lambda>sg. (sg, [])) (kernel_segments img)"
    "only_listed (fst (kheap s')) tab (prog @ kern)" and magic: "elf_magic (fst (kheap s)) elf"
    using from_elf_spec [OF assms] unfolding r sum.case prod.case by blast
  note cd = copyingD [OF u(1)]
  have "page_set (ran tab) \<union> page_set (set (frames_of prog)) \<subseteq> F - F'"
    using cd(3) spaceD(1,11) [OF cd(1)] by (auto simp: pt_inv_def page_set_Un)
  moreover have "same_outside F (fst (kheap s)) (fst (kheap s'))" using cd(2) by (simp add: kept_def)
  moreover have "\<forall>m r t sl. space R F s m r t sl \<longrightarrow> space R F' s' m r t sl" using space_kept [OF _ cd(2,6,7)] by blast
  ultimately show ?thesis using cd(1) u(2-4) magic unfolding r sum.case prod.case by blast
qed

section \<open>A file with one segment\<close>

text \<open>At 0x1000: a header table at offset 64 with one entry for 256 bytes from offset 120 at 0x10000, where the program
  starts.\<close>

definition elf_mem :: mem where
  "elf_mem = (\<lambda>_. 0)(0x1000 := 0x7f, 0x1001 := 0x45, 0x1002 := 0x4c, 0x1003 := 0x46, 0x101a := 1, 0x1020 := 64, 0x1038 := 1,
     0x1040 := 1, 0x1044 := 5, 0x1048 := 120, 0x1052 := 1, 0x1060 := 16, 0x1069 := 1, 0x1078 := 0x13)"

definition elf_vm :: vm where
  "elf_vm = room_vm\<lparr>kheap := projr (init_allocator room_start (elf_mem, \<lparr>free_list = [], total = 7, allocated = 7\<rparr>))\<rparr>"

definition elf_image :: image where
  "elf_image = demo_image\<lparr>stext := 0xffffffff80200000, etext := 0xffffffff80201000, srodata := 0xffffffff80201000,
     erodata := 0xffffffff80201000, sdata := 0xffffffff80201000, edata := 0xffffffff80201000,
     sbss_with_stack := 0xffffffff80201000, ebss := 0xffffffff80201000, ekernel := heap_end\<rparr>"

lemma elf_fields:
  "elf_magic elf_mem 0x1000" "e_phoff elf_mem 0x1000 = 64" "e_phnum elf_mem 0x1000 = 1"
  "prog_header_at elf_mem 0x1040 =
     \<lparr>p_type = 1, p_flags = 5, p_offset = 120, p_vaddr = 0x10000, p_paddr = 0, p_filesz = 16, p_memsz = 256, p_align = 0\<rparr>"
  by (simp_all add: elf_magic_def e_phoff_def e_phnum_def prog_header_at_def elf_mem_def load_bytes_def upt_rec)

lemma elf_vm: "buddy_inv room (kheap elf_vm) room" "same_outside room elf_mem (fst (kheap elf_vm))"
  using room_init [of elf_mem "\<lparr>free_list = [], total = 7, allocated = 7\<rparr>"] by (auto simp: elf_vm_def)

lemma elf_apart: "unat a + n \<le> 2 ^ 32 \<Longrightarrow> bytes_at a n \<inter> room = {}"
proof -
  assume n: "unat a + n \<le> 2 ^ 32"
  have "x \<notin> room" if "x \<in> bytes_at a n" for x
  proof -
    have "unat (x - a) < n" using that by (simp add: bytes_at_def)
    moreover have "unat x = unat (a + (x - a))" by simp
    ultimately have "unat x < 2 ^ 32" using n unat_plus_if' [of a "x - a"] by (auto split: if_splits)
    then show ?thesis by (simp add: room_start_def word_le_nat_alt)
  qed
  then show ?thesis by auto
qed

lemma elf_kept:
  "elf_magic (fst (kheap elf_vm)) 0x1000" "e_phoff (fst (kheap elf_vm)) 0x1000 = 64" "e_phnum (fst (kheap elf_vm)) 0x1000 = 1"
  "prog_header_at (fst (kheap elf_vm)) 0x1040 = prog_header_at elf_mem 0x1040"
  "fst (kheap elf_vm) 0x1078 = 0x13"
proof -
  have same: "fst (kheap elf_vm) x = elf_mem x" if "unat x < 2 ^ 31" for x
    using elf_vm(2) that by (simp add: same_outside_def room_start_def word_le_nat_alt)
  show "elf_magic (fst (kheap elf_vm)) 0x1000" using elf_fields(1) by (simp add: elf_magic_def same)
  show "fst (kheap elf_vm) 0x1078 = 0x13" by (simp add: same) (simp add: elf_mem_def)
  have "bytes_at 0x1000 64 \<inter> room = {}" by (rule elf_apart) simp
  note head = load_kept [OF elf_vm(2) this]
  show "e_phoff (fst (kheap elf_vm)) 0x1000 = 64"
    using head [of 32 8, where ?'a = 64] elf_fields(2) by (simp add: e_phoff_def)
  show "e_phnum (fst (kheap elf_vm)) 0x1000 = 1"
    using head [of 56 2, where ?'a = 16] elf_fields(3) by (simp add: e_phnum_def)
  show "prog_header_at (fst (kheap elf_vm)) 0x1040 = prog_header_at elf_mem 0x1040"
    by (rule prog_header_kept [OF elf_vm(2) elf_apart]) simp
qed

lemma elf_vpns:
  "all_vpns (kernel_segments elf_image) = [0xffffffff80200]"
  "segs_cost (kernel_segments elf_image) = 8"
  "seg_vpns (elf_segment (prog_header_at elf_mem 0x1040)) = [0x10]"
  by (simp_all add: kernel_segments_def elf_image_def va_range_def heap_bounds(6) elf_segment_def elf_fields heap_end_def)

theorem from_elf_correct_witness:
  "\<exists>mp s' root F' tab b q kern. from_elf elf_image elf_vm 0x1000 = Inr (mp, s') \<and>
     space room F' s' mp root tab
       ((b, \<lparr>start_va = 0x10000, end_va = 0x10100, seg_flags = 0x1b, seg_type = Framed\<rparr>, [q]) # kern) \<and>
     length kern = 5 \<and> fst (kheap s') (page_va q) = 0x13"
proof -
  let ?m = "fst (kheap elf_vm)" and ?ph = "prog_header_at elf_mem 0x1040"
  have phs: "[?ph] = headers ?m (0x1000 + e_phoff ?m 0x1000) (unat (e_phnum ?m 0x1000))" by (simp add: elf_kept)
  have fields: "p_flags ?ph = 5" "p_offset ?ph = 120" "p_memsz ?ph = 256" and load: "loadable ?ph"
    by (simp_all add: elf_fields loadable_def ELF_PROG_LOAD_def)
  have sg: "elf_segment ?ph = \<lparr>start_va = 0x10000, end_va = 0x10100, seg_flags = 0x1b, seg_type = Framed\<rparr>"
    by (simp add: elf_fields elf_segment_def convert_flags_def Let_def PAGE_VALID_def PAGE_USER_def PAGE_EXEC_def
        PAGE_READ_def ELF_PROG_FLAG_EXEC_def ELF_PROG_FLAG_WRITE_def ELF_PROG_FLAG_READ_def)
  have ok: "\<forall>ph \<in> set [?ph]. loadable ph \<longrightarrow> header_ok 0x1000 room ph"
    using elf_apart [of "0x1078" 256] by (simp add: header_ok_def fields data_ok_def)
  have low: "bytes_at 0x1000 64 \<inter> room = {}" by (rule elf_apart) simp
  have table: "bytes_at (0x1000 + e_phoff ?m 0x1000) (56 * unat (e_phnum ?m 0x1000)) \<inter> room = {}"
    unfolding elf_kept by (rule elf_apart) simp
  have dist: "distinct (map (take_bit 27) (all_vpns (kernel_segments elf_image @ elf_segments [?ph])))"
    using elf_vpns(1,3) load by (simp add: take_bit_eq_mod)
  have cost: "segs_cost (kernel_segments elf_image @ elf_segments [?ph]) = 12"
    using elf_vpns(2,3) load by (simp add: segs_cost_append)
  note fe = from_elf_correct [OF elf_vm(1) room_window low table phs ok dist, unfolded cost]
  have "pages_free room (2 + 12)" using pages_free_less [OF room_pages, of 14] by simp
  then obtain r where "from_elf elf_image elf_vm 0x1000 = Inr r" using fe elf_kept(1) by (cases "from_elf elf_image elf_vm 0x1000") auto
  then obtain mp s' where r: "from_elf elf_image elf_vm 0x1000 = Inr (mp, s')" by (cases r) auto
  obtain root F' tab prog kern where q: "space room F' s' mp root tab (prog @ kern)"
    "list_all2 (loaded ?m (fst (kheap s')) 0x1000) (rev (filter loadable [?ph])) prog"
    "map (\<lambda>(_, sg, ps). (sg, ps)) kern = map (\<lambda>sg. (sg, [])) (kernel_segments elf_image)"
    using fe unfolding r sum.case prod.case by blast
  obtain b ps where prog: "prog = [(b, elf_segment ?ph, ps)]"
    and hold: "pages_hold (fst (kheap s')) ps (seg_byte ?m 0x1078 256)"
    using q(2) load by (auto simp: list_all2_Cons1 loaded_def fields)
  have "maps_segment (fst (kheap s')) tab (elf_segment ?ph) ps"
    by (rule conjunct1 [OF conjunct2 [OF spaceD(5) [OF q(1), of b]]]) (simp add: prog)
  then have "length ps = 1" using elf_vpns(3) by (auto simp: maps_segment_def sg dest!: list_all2_lengthD)
  then obtain q where ps: "ps = [q]" by (auto simp: length_Suc_conv)
  have "fst (kheap s') (page_va q) = seg_byte ?m 0x1078 256 0"
    using hold self_in_blk [of "page_va q" 12] by (auto simp: pages_hold_def ps)
  then have "fst (kheap s') (page_va q) = 0x13" using elf_kept(5) by (simp add: seg_byte_def)
  moreover have "length kern = 5" using arg_cong [OF q(3), of length] by (simp add: kernel_segments_def)
  moreover have "space room F' s' mp root tab
       ((b, \<lparr>start_va = 0x10000, end_va = 0x10100, seg_flags = 0x1b, seg_type = Framed\<rparr>, [q]) # kern)"
    using q(1) by (simp add: prog ps sg)
  ultimately show ?thesis using r by blast
qed

end
