(* ===== verification/Data_Properties.thy ===== *)
theory Data_Properties
  imports Dlist_Heap Kprintf
begin

text \<open>
  The properties of what the kernel brings along for itself: the linked lists of
  \<^verbatim>\<open>kernel/list.h\<close>, the strings of \<^verbatim>\<open>kernel/string.h\<close> and the numbers \<^verbatim>\<open>kernel/printf.c\<close> prints.
\<close>

section \<open>Linked lists\<close>





section \<open>Strings\<close>

text \<open>
  \<^verbatim>\<open>strcmp\<close> of two strings returns and gives 0 exactly for equal strings, -1 when the first
  comes earlier in the dictionary order of their bytes, a proper prefix first, and 1 otherwise.
\<close>

theorem strcmp_correct:
  assumes "is_cstring f as" and "is_cstring g bs"
  shows "strcmp f g = Inr (if as = bs then 0 else if (as, bs) \<in> lexord {(a, b). a < b} then -1 else 1)"
proof -
  have "dictionary as bs \<in> {0, -1, 1}" by (induction as bs rule: dictionary.induct) auto
  then show ?thesis
    using strcmp_spec [OF assms] dictionary_0_iff [of as bs] dictionary_less_iff [of as bs] by auto
qed

lemma literal_cstring: "0 \<notin> (of_char :: char \<Rightarrow> u8) ` set s \<Longrightarrow> is_cstring (literal s) (map of_char s)"
  by (fastforce simp: is_cstring_def literal_def)

theorem strcmp_correct_witness:
  "strcmp (literal ''init'') (literal ''init'') = Inr 0 \<and>
   strcmp (literal ''ls'') (literal ''lsx'') = Inr (-1) \<and> strcmp (literal ''ls'') (literal ''init'') = Inr 1"
  using strcmp_correct [OF literal_cstring literal_cstring, of "''init''" "''init''"]
    strcmp_correct [OF literal_cstring literal_cstring, of "''ls''" "''lsx''"]
    strcmp_correct [OF literal_cstring literal_cstring, of "''ls''" "''init''"]
  by simp

text \<open>
  \<^verbatim>\<open>strcpy\<close> to a place that does not overlap the string returns, the copy has the length of the
  string and compares equal to it, and nothing outside the copy and its terminator is written.
\<close>

theorem strcpy_correct:
  assumes "is_cstring (string_at m src) bs" and "length bs < 2 ^ 64"
    and "bytes_at src (length bs + 1) \<inter> bytes_at dest (length bs + 1) = {}"
  shows "\<exists>m'. strcpy m dest src = Inr m' \<and> strlen (string_at m' dest) = Inr (length bs) \<and>
    strcmp (string_at m' dest) (string_at m src) = Inr 0 \<and>
    same_outside (bytes_at dest (length bs + 1)) m m'"
proof -
  obtain m' where m': "strcpy_loop m dest src = Some m'" "is_cstring (string_at m' dest) bs"
    "same_outside (bytes_at dest (length bs + 1)) m m'" using strcpy_loop_spec [OF assms] by blast
  have "strlen (string_at m' dest) = Inr (length bs)"
    using strlen_loop_spec [of "string_at m' dest" 0 bs] m'(2) by (simp add: strlen_def)
  moreover have "strcmp (string_at m' dest) (string_at m src) = Inr 0"
    using strcmp_spec [OF m'(2) assms(1)] dictionary_0_iff [of bs bs] by simp
  ultimately show ?thesis using m'(1,3) by (simp add: strcpy_def)
qed

theorem strcpy_correct_witness:
  "\<exists>m'. strcpy ((\<lambda>_. 0)(100 := 108, 101 := 115)) 200 100 = Inr m' \<and>
     strlen (string_at m' 200) = Inr 2 \<and> same_outside (bytes_at 200 3) ((\<lambda>_. 0)(100 := 108, 101 := 115)) m'"
proof -
  let ?m = "(\<lambda>_. 0)(100 := 108, 101 := 115) :: mem"
  have "is_cstring (string_at ?m 100) [108, 115]" by (simp add: is_cstring_Cons is_cstring_Nil string_at_def)
  moreover have "bytes_at 100 3 \<inter> bytes_at 200 3 = {}"
  proof -
    have "unat x < 103" "200 \<le> unat y" if "x \<in> bytes_at 100 3" "y \<in> bytes_at 200 3" for x y
    proof -
      have "unat (x - 100) < 3" "unat (y - 200) < 3" using that by (simp_all add: bytes_at_def)
      then have "unat (x - 100 + 100) < 103" "200 \<le> unat (y - 200 + 200)"
        by (simp_all only: unat_plus_if') simp_all
      then show "unat x < 103" "200 \<le> unat y" by simp_all
    qed
    then show ?thesis by fastforce
  qed
  ultimately show ?thesis using strcpy_correct [of ?m 100 "[108, 115]" 200] by (fastforce simp: numeral_3_eq_3)
qed

section \<open>Numbers\<close>

text \<open>
  C38: \<^verbatim>\<open>printint\<close> of a number in base 10 or 16 fits its buffer of sixteen characters, and its digits
  read back as the absolute value, with a minus sign in front exactly for a negative number; this
  includes the least \<^verbatim>\<open>int\<close>, whose negation overflows.
\<close>

theorem printint_correct:
  assumes "base = 10 \<or> base = 16"
  shows "length (printint xx base True) \<le> 16 \<and>
    (\<exists>ds. printint xx base True = (if sint xx < 0 then ''-'' else []) @ ds \<and> set ds \<subseteq> set digits \<and>
      ds \<noteq> [] \<and> int (value_of (unat base) ds) = \<bar>sint xx\<bar>)"
proof -
  have b: "1 < base" "base \<le> 16" "10 \<le> base" using assms by auto
  have sub: "set (digit_loop base x) \<subseteq> set digits" for x
    using b
  proof (induction base x rule: digit_loop.induct)
    case (1 base x)
    have "unat (x mod base) < unat base" using "1.prems"(1)
      by (simp add: unat_mod word_less_nat_alt)
    also have "\<dots> \<le> 16" using "1.prems"(2) by (simp add: word_le_nat_alt)
    finally have "unat (x mod base) < length digits" by (simp add: digits_def)
    then have "digits ! unat (x mod base) \<in> set digits" by (rule nth_mem)
    with 1 show ?case by (subst digit_loop.simps) auto
  qed
  have ne: "digit_loop base x \<noteq> []" for x using b(1) by (subst digit_loop.simps) (simp add: not_le)
  let ?x = "if sint xx < 0 then - xx else xx"
  have "int (unat ?x) = \<bar>sint xx\<bar>"
  proof (cases "sint xx < 0")
    case True
    have "uint (- xx) = - sint xx"
    proof -
      have "- xx = word_of_int (- sint xx)" by simp
      moreover have "- (2 ^ 31) \<le> sint xx" using sint_ge [of xx] by simp
      ultimately show ?thesis using True by (simp only: uint_word_of_int) (simp add: mod_pos_pos_trivial)
    qed
    with True show ?thesis by simp
  next
    case False
    then have "uint xx = sint xx"
      using sint_lt [of xx] by (simp add: uint_sint take_bit_int_eq_self)
    with False show ?thesis by simp
  qed
  then have "int (value_of (unat base) (rev (digit_loop base ?x))) = \<bar>sint xx\<bar>"
    using digit_loop_value [OF b(1,2)] by simp
  moreover have "printint xx base True = (if sint xx < 0 then ''-'' else []) @ rev (digit_loop base ?x)"
    by (simp add: printint_def)
  moreover have "set (rev (digit_loop base ?x)) \<subseteq> set digits" "rev (digit_loop base ?x) \<noteq> []"
    using sub ne by simp_all
  ultimately show ?thesis using printint_length [OF b(3)] by blast
qed

theorem printint_correct_witness:
  "printint (-123) 10 True = ''-123'' \<and> length (printint (-123) 10 True) \<le> 16"
proof
  show "printint (-123) 10 True = ''-123''" by code_simp
  show "length (printint (-123) 10 True) \<le> 16" using printint_correct [of 10 "-123"] by blast
qed

text \<open>
  \<^verbatim>\<open>printptr\<close> puts out 18 characters, \<^verbatim>\<open>0x\<close> and sixteen digits that read back as the pointer.
\<close>

theorem printptr_correct:
  "length (printptr x) = 18 \<and> take 2 (printptr x) = ''0x'' \<and> value_of 16 (drop 2 (printptr x)) = unat x"
proof -
  let ?d = "\<lambda>i. digits ! unat (drop_bit 60 (push_bit (4 * i) x))"
  have "value_of 16 (map ?d [0..<n]) = unat x div 2 ^ (64 - 4 * n)" if "n \<le> 16" for n
    using that
  proof (induction n)
    case 0
    then show ?case using unsigned_less [of x, where ?'a = nat] by (simp add: value_of_def)
  next
    case (Suc n)
    define k where "k = 60 - 4 * n"
    have k: "64 - 4 * n = k + 4" "64 - 4 * Suc n = k" "60 = 4 * n + k" using Suc.prems by (auto simp: k_def)
    have "unat (drop_bit 60 (push_bit (4 * n) x)) = drop_bit 60 (take_bit 64 (push_bit (4 * n) (unat x)))"
      by (simp add: unsigned_drop_bit_eq unsigned_push_bit_eq)
    also have "\<dots> = (unat x * 2 ^ (4 * n)) mod 2 ^ 64 div 2 ^ 60"
      by (simp only: drop_bit_eq_div push_bit_eq_mult take_bit_eq_mod)
    also have "\<dots> = (unat x * 2 ^ (4 * n)) div 2 ^ 60 mod 16"
    proof -
      have "(2 :: nat) ^ 64 = 2 ^ 60 * 16" by simp
      then show ?thesis by (simp only: mod_mult2_eq) simp
    qed
    also have "(unat x * 2 ^ (4 * n)) div 2 ^ 60 = unat x div 2 ^ k"
      unfolding k(3) by (simp only: power_add mult.commute [of "unat x"] div_mult_mult1_if) simp
    finally have nib: "unat (drop_bit 60 (push_bit (4 * n) x)) = unat x div 2 ^ k mod 16" .
    have "value_of 16 (map ?d [0..<Suc n]) = 16 * (unat x div 2 ^ (k + 4)) + unat x div 2 ^ k mod 16"
      using Suc k nib by (simp add: value_of_snoc digit_value_digits)
    also have "unat x div 2 ^ (k + 4) = unat x div 2 ^ k div 16"
      by (simp add: power_add div_mult2_eq)
    finally show ?case unfolding k(2) by (simp add: mult.commute)
  qed
  from this [of 16] show ?thesis by (simp add: printptr_def)
qed

end
