(* ===== verification/Fork.thy ===== *)
theory Fork
  imports Space_Clone Sched
begin

text \<open>
  \<^verbatim>\<open>sys_fork\<close> of \<^verbatim>\<open>kernel/process.c\<close>, step by step: the blocks of the child, its address space, its stack,
  the references to the open files and the lists it enters.
\<close>

section \<open>Free blocks of one size\<close>

definition blocks_free :: "nat \<Rightarrow> addr set \<Rightarrow> nat \<Rightarrow> bool" where
  "blocks_free k F n \<longleftrightarrow> (\<exists>B. finite B \<and> card B = n \<and> B \<subseteq> range (blk k) \<and> \<Union>B \<subseteq> F)"

lemma blocks_free_less:
  assumes "blocks_free k F n" and "m \<le> n"
  shows "blocks_free k F m"
proof -
  obtain B where B: "finite B" "card B = n" "B \<subseteq> range (blk k)" "\<Union>B \<subseteq> F" using assms(1) by (auto simp: blocks_free_def)
  obtain C where C: "C \<subseteq> B" "card C = m" using obtain_subset_with_card_n [of m B] B(2) assms(2) by auto
  have "finite C" using C(1) B(1) finite_subset by blast
  moreover have "C \<subseteq> range (blk k)" "\<Union>C \<subseteq> F" using B(3,4) C(1) by blast+
  ultimately show ?thesis using C(2) unfolding blocks_free_def by (intro exI [of _ C]) simp
qed

lemma blocks_free_take:
  assumes "blocks_free k F (Suc n)" and "j \<le> k"
  shows "blocks_free k (F - blk j b) n"
proof -
  obtain B where B: "finite B" "card B = Suc n" "B \<subseteq> range (blk k)" "\<Union>B \<subseteq> F" using assms(1) by (auto simp: blocks_free_def)
  let ?B = "B - {blk k b}"
  have "blk k p \<subseteq> F - blk j b" if X: "blk k p \<in> B" "blk k p \<noteq> blk k b" for p
  proof -
    have "x \<notin> blk k p" if "x \<in> blk k b" for x using blk_eq [of x k p] blk_eq [OF that] X(2) by metis
    then show ?thesis using X(1) B(4) blk_mono [OF assms(2), of b] by blast
  qed
  then have "\<Union>?B \<subseteq> F - blk j b" using B(3) by fastforce
  then have "blocks_free k (F - blk j b) (card ?B)"
    using B(1,3) unfolding blocks_free_def by (intro exI [of _ ?B]) auto
  moreover have "n \<le> card ?B" using B(1,2) by (simp add: card_Diff_singleton_if)
  ultimately show ?thesis by (rule blocks_free_less)
qed

lemma blocks_free_some:
  assumes "blocks_free k F (Suc n)" and "j \<le> k"
  shows "\<exists>b. blk j b \<subseteq> F"
proof -
  obtain B where B: "card B = Suc n" "B \<subseteq> range (blk k)" "\<Union>B \<subseteq> F" using assms(1) by (auto simp: blocks_free_def)
  then have "B \<noteq> {}" by auto
  then obtain p where "blk k p \<in> B" using B(2) by blast
  then have "blk j p \<subseteq> F" using B(3) blk_mono [OF assms(2), of p] by blast
  then show ?thesis ..
qed

lemma blocks_free_pages:
  assumes "blocks_free k F n" and k: "12 \<le> k" and win: "in_window R" "F \<subseteq> R"
  shows "pages_free F n"
proof -
  obtain B where B: "finite B" "card B = n" "B \<subseteq> range (blk k)" "\<Union>B \<subseteq> F" using assms(1) by (auto simp: blocks_free_def)
  have "\<exists>q. q < 2 ^ 44 \<and> blk 12 (page_va q) \<subseteq> blk k p" if X: "blk k p \<subseteq> F" for p
  proof -
    define q where "q = drop_bit 12 (pa_of (push_bit 12 (drop_bit 12 p)))"
    have va: "page_va q = push_bit 12 (drop_bit 12 p)" unfolding q_def by (rule page_va_pa) simp
    have "push_bit 12 (drop_bit 12 p) \<in> blk 12 p" by (auto simp: blk_bit bit_push_bit_iff bit_drop_bit_eq dest: bit_imp_le_length)
    then have "blk 12 (page_va q) = blk 12 p" using blk_eq va by metis
    then have sub: "blk 12 (page_va q) \<subseteq> blk k p" using blk_mono [OF k, of p] by simp
    then have "page_va q \<in> R" using self_in_blk [of "page_va q" 12] X win(2) by blast
    then have "pa_of (page_va q) < 2 ^ 56" using win(1) unfolding in_window_def by blast
    from page_number_less [OF this q_def] sub show ?thesis by blast
  qed
  note page = this
  have "\<exists>q. q < 2 ^ 44 \<and> blk 12 (page_va q) \<subseteq> X" if X: "X \<in> B" for X
  proof -
    obtain p where p: "X = blk k p" using B(3) X by blast
    have "blk k p \<subseteq> F" using B(4) X p by blast
    from page [OF this] show ?thesis by (simp only: p)
  qed
  then obtain f where f: "\<And>X. X \<in> B \<Longrightarrow> f X < (2 :: u64) ^ 44 \<and> blk 12 (page_va (f X)) \<subseteq> X" by metis
  have "X = Y" if xy: "X \<in> B" "Y \<in> B" "f X = f Y" for X Y
  proof -
    obtain p q where pq: "X = blk k p" "Y = blk k q" using B(3) xy(1,2) by blast
    have "page_va (f X) \<in> X" using f [OF xy(1)] self_in_blk [of "page_va (f X)" 12] by blast
    moreover have "page_va (f X) \<in> Y" using f [OF xy(2)] self_in_blk [of "page_va (f X)" 12] xy(3) by auto
    ultimately show ?thesis using blk_eq unfolding pq by metis
  qed
  then have "inj_on f B" by (rule inj_onI)
  then have c: "card (f ` B) = n" using card_image B(2) by blast
  have "page_set (f ` B) \<subseteq> F"
  proof
    fix x assume "x \<in> page_set (f ` B)"
    then obtain X where "X \<in> B" "x \<in> blk 12 (page_va (f X))" by (auto simp: page_set_def)
    then show "x \<in> F" using f [of X] B(4) by blast
  qed
  moreover have "\<forall>q \<in> f ` B. q < 2 ^ 44" using f by simp
  ultimately show ?thesis using B(1) c unfolding pages_free_def by (intro exI [of _ "f ` B"]) simp
qed

section \<open>The blocks of the child\<close>

lemma stack_orders: "size_order sizeof_pcb = 10" "size_order KERNEL_STACK_SIZE = 13" "size_order USER_STACK_SIZE = 14"
  using req_order_eq [of 10 616] req_order_eq [of 13 8192] req_order_eq [of 14 16384]
  by (simp_all add: size_order_req sizeof_pcb_def KERNEL_STACK_SIZE_def USER_STACK_SIZE_def PAGE_SIZE_def)

lemma kalloc_block:
  assumes inv: "buddy_inv R (kheap s) F" and k: "size_order sz = k" "k \<le> 14"
  shows "case kalloc s sz of
      Inl e \<Rightarrow> e = Panic ''Not enough memory!'' \<and> \<not> blocks_free 14 F 1
    | Inr (b, s') \<Rightarrow> aligned k b \<and> blk k b \<subseteq> F \<and> buddy_inv R (kheap s') (F - blk k b) \<and> same_outside F (kmem s) (kmem s') \<and>
        s' = s\<lparr>kheap := kheap s'\<rparr> \<and> (\<forall>n. blocks_free 14 F (Suc n) \<longrightarrow> blocks_free 14 (F - blk k b) n)"
proof -
  have "\<exists>b. blk k b \<subseteq> F" if "blocks_free 14 F 1" using blocks_free_some [of 14 F 0 k] that k(2) by simp
  moreover have "\<forall>n. blocks_free 14 F (Suc n) \<longrightarrow> blocks_free 14 (F - blk k b) n" for b using blocks_free_take k(2) by blast
  ultimately show ?thesis using alloc_spec [OF inv, of sz] k(1) unfolding kalloc_def by (auto split: sum.splits)
qed

lemma kalloc_pid_total:
  assumes "length (pids s) = 32"
  obtains n ps where "alloc_pid (pids s) = Inr (n, ps)" and "kalloc_pid s = Inr (n, s\<lparr>pids := ps\<rparr>)"
proof -
  obtain n ps where "alloc_pid (pids s) = Inr (n, ps)"
    using alloc_pid_from_spec [of "pids s" 0] assms by (auto simp: alloc_pid_def)
  with that show thesis by (simp add: kalloc_pid_def)
qed

definition fork_blocks :: "kernel \<Rightarrow> (addr \<times> int \<times> addr \<times> addr \<times> kernel) outcome" where
  "fork_blocks s =
     bindE (new_pcb s) (\<lambda>(child, s).
     bindE (kalloc_pid s) (\<lambda>(n, s).
     bindE (kalloc s KERNEL_STACK_SIZE) (\<lambda>(ks, s).
     bindE (kalloc s USER_STACK_SIZE) (\<lambda>(us, s). Inr (child, n, ks, us, s)))))"

lemma fork_blocks_spec:
  assumes inv: "buddy_inv R (kheap s) F" and len: "length (pids s) = 32"
  shows "case fork_blocks s of
      Inl e \<Rightarrow> e = Panic ''Not enough memory!'' \<and> \<not> blocks_free 14 F 3
    | Inr (child, n, ks, us, s') \<Rightarrow> aligned 10 child \<and> blk 10 child \<subseteq> F \<and> blk 13 ks \<subseteq> F - blk 10 child \<and>
        aligned 14 us \<and> blk 14 us \<subseteq> F - blk 10 child - blk 13 ks \<and>
        buddy_inv R (kheap s') (F - blk 10 child - blk 13 ks - blk 14 us) \<and> same_outside F (kmem s) (kmem s') \<and>
        (\<exists>b ps. s' = s\<lparr>kheap := kheap s', pcbs := (pcbs s)(child \<mapsto> b), pids := ps\<rparr> \<and> alloc_pid (pids s) = Inr (n, ps)) \<and>
        (\<forall>n. blocks_free 14 F (3 + n) \<longrightarrow> blocks_free 14 (F - blk 10 child - blk 13 ks - blk 14 us) n)"
proof (cases "kalloc s sizeof_pcb")
  case (Inl e)
  then show ?thesis using kalloc_block [OF inv stack_orders(1)] blocks_free_less [of 14 F 3 1] by (auto simp: fork_blocks_def new_pcb_def)
next
  case (Inr r1)
  obtain child s1 where r1: "kalloc s sizeof_pcb = Inr (child, s1)" using Inr by (cases r1) auto
  let ?F1 = "F - blk 10 child"
  have a1: "aligned 10 child" "blk 10 child \<subseteq> F" "buddy_inv R (kheap s1) ?F1" "same_outside F (kmem s) (kmem s1)"
    "s1 = s\<lparr>kheap := kheap s1\<rparr>" "\<forall>n. blocks_free 14 F (Suc n) \<longrightarrow> blocks_free 14 ?F1 n"
    using kalloc_block [OF inv stack_orders(1)] r1 by simp_all
  let ?s1 = "set_pcb s1 child (pcb_at (kmem s1) child)"
  have "pids s1 = pids s" by (subst a1(5)) simp
  then have len1: "length (pids ?s1) = 32" using len by simp
  obtain n ps where p: "alloc_pid (pids s) = Inr (n, ps)" "kalloc_pid ?s1 = Inr (n, ?s1\<lparr>pids := ps\<rparr>)"
    using kalloc_pid_total [OF len1] \<open>pids s1 = pids s\<close> by auto
  let ?s2 = "?s1\<lparr>pids := ps\<rparr>"
  have inv1: "buddy_inv R (kheap ?s2) ?F1" using a1(3) by simp
  have run1: "fork_blocks s = bindE (kalloc ?s2 KERNEL_STACK_SIZE) (\<lambda>(ks, s).
     bindE (kalloc s USER_STACK_SIZE) (\<lambda>(us, s). Inr (child, n, ks, us, s)))"
    using r1 p(2) by (simp add: fork_blocks_def new_pcb_def)
  show ?thesis
  proof (cases "kalloc ?s2 KERNEL_STACK_SIZE")
    case (Inl e)
    then show ?thesis using kalloc_block [OF inv1 stack_orders(2)] a1(6) blocks_free_less [of 14 F 3 2]
      by (auto simp: run1 numeral_2_eq_2)
  next
    case (Inr r2)
    obtain ks s3 where r2: "kalloc ?s2 KERNEL_STACK_SIZE = Inr (ks, s3)" using Inr by (cases r2) auto
    let ?F2 = "?F1 - blk 13 ks"
    have a2: "blk 13 ks \<subseteq> ?F1" "buddy_inv R (kheap s3) ?F2" "same_outside ?F1 (kmem ?s2) (kmem s3)"
      "s3 = ?s2\<lparr>kheap := kheap s3\<rparr>" "\<forall>n. blocks_free 14 ?F1 (Suc n) \<longrightarrow> blocks_free 14 ?F2 n"
      using kalloc_block [OF inv1 stack_orders(2)] r2 by simp_all
    note k3 = kalloc_block [OF a2(2) stack_orders(3)]
    show ?thesis
    proof (cases "kalloc s3 USER_STACK_SIZE")
      case (Inl e)
      then show ?thesis using k3 r2 a1(6) a2(5) by (auto simp: run1 numeral_3_eq_3)
    next
      case (Inr r3)
      obtain us s4 where r3: "kalloc s3 USER_STACK_SIZE = Inr (us, s4)" using Inr by (cases r3) auto
      have a3: "aligned 14 us" "blk 14 us \<subseteq> ?F2" "buddy_inv R (kheap s4) (?F2 - blk 14 us)" "same_outside ?F2 (kmem s3) (kmem s4)"
        "s4 = s3\<lparr>kheap := kheap s4\<rparr>" "\<forall>n. blocks_free 14 ?F2 (Suc n) \<longrightarrow> blocks_free 14 (?F2 - blk 14 us) n"
        using k3 r3 by simp_all
      have m: "same_outside F (kmem s) (kmem s3)"
        using same_outside_trans [OF a1(4) same_outside_mono [of ?F1 "kmem s1" "kmem s3" F]] a2(3) by simp
      have "same_outside F (kmem s) (kmem s4)"
        by (rule same_outside_trans [OF m same_outside_mono [OF a3(4)]]) blast
      moreover have "s4 = s\<lparr>kheap := kheap s4, pcbs := (pcbs s)(child \<mapsto> pcb_at (kmem s1) child), pids := ps\<rparr>"
        by (subst a3(5), subst a2(4), subst (1 2) a1(5)) (simp add: set_pcb_def)
      ultimately show ?thesis
        using a1(1,2,6) a2(1,5) a3(1-3,6) p(1) r2 r3 by (auto simp: run1 numeral_3_eq_3)
    qed
  qed
qed

section \<open>The address space of the child\<close>

definition stack_vpns :: "u64 list" where
  "stack_vpns = [0xffffffff00000, 0xffffffff00001, 0xffffffff00002, 0xffffffff00003]"

lemma stack_range: "va_range USER_STACK (USER_STACK + scast (ucast USER_STACK_SIZE :: 32 word)) = stack_vpns"
  by (simp add: va_range_def USER_STACK_def USER_STACK_SIZE_def PAGE_SIZE_def stack_vpns_def upt_rec)

lemma stack_vpns_simps: "length stack_vpns = 4" "distinct (map (take_bit 27) stack_vpns)"
  by (simp_all add: stack_vpns_def)

lemma user_stack_flags_rwx: "user_stack_flags AND (PAGE_READ OR PAGE_WRITE OR PAGE_EXEC) \<noteq> 0"
  by (simp add: user_stack_flags_def PAGE_VALID_def PAGE_USER_def PAGE_READ_def PAGE_WRITE_def PAGE_EXEC_def)

text \<open>The stack is mapped in an address space that does not use its pages.\<close>

definition stack_mapped :: "mem \<Rightarrow> tree \<Rightarrow> addr \<Rightarrow> bool" where
  "stack_mapped m tab us \<longleftrightarrow>
     (\<forall>i < 4. leaf m tab (stack_vpns ! i) = PPN2PTE (drop_bit 12 (pa_of us) + of_nat i) user_stack_flags)"

lemma map_user_stack_spec:
  assumes sp: "space R F s mp root tab sl" and apart: "take_bit 27 ` set (vpns_of sl) \<inter> take_bit 27 ` set stack_vpns = {}"
  shows "case map_user_stack s root us of
      Inl e \<Rightarrow> e = Panic ''Not enough memory!'' \<and> \<not> pages_free F 8
    | Inr s' \<Rightarrow> \<exists>F' tab'. s' = s\<lparr>kheap := kheap s'\<rparr> \<and> space R F' s' mp root tab' sl \<and>
        evolved R (kheap s) F tab (kheap s') F' tab' {} \<and> stack_mapped (kmem s') tab' us \<and>
        (\<forall>v. take_bit 27 v \<notin> take_bit 27 ` set stack_vpns \<longrightarrow> leaf (kmem s') tab' v = leaf (kmem s) tab v) \<and>
        (\<forall>n. pages_free F (8 + n) \<longrightarrow> pages_free F' n)"
proof -
  note d = spaceD [OF sp]
  let ?ppn = "drop_bit 12 (pa_of us)"
  note ml = map_pages_loop_spec [OF d(1,3) stack_vpns_simps(2), of ?ppn user_stack_flags]
  have run: "map_user_stack s root us =
      bindE (map_pages_loop (kheap s) root stack_vpns ?ppn user_stack_flags) (\<lambda>h. Inr (s\<lparr>kheap := h\<rparr>))"
    by (simp add: map_user_stack_def kmap_pages_def map_pages_def stack_range)
  show ?thesis
  proof (cases "map_pages_loop (kheap s) root stack_vpns ?ppn user_stack_flags")
    case (Inl e)
    with ml show ?thesis unfolding run by (simp add: stack_vpns_simps)
  next
    case (Inr h)
    obtain F' tab' where ev: "evolved R (kheap s) F tab h F' tab' {}"
      and mp: "mapped (leaf (kmem s) tab) stack_vpns
        (map (\<lambda>i. PPN2PTE (?ppn + of_nat i) user_stack_flags) [0..<4]) (leaf (fst h) tab')"
      and pf: "\<forall>n. pages_free F (8 + n) \<longrightarrow> pages_free F' n"
      using ml unfolding Inr sum.case stack_vpns_simps(1) by auto
    note nth = mapped_nth [OF mp stack_vpns_simps(2)]
    have st: "stack_mapped (fst h) tab' us" using nth by (simp add: stack_mapped_def stack_vpns_simps(1))
    have other: "\<forall>v. take_bit 27 v \<notin> take_bit 27 ` set stack_vpns \<longrightarrow> leaf (fst h) tab' v = leaf (kmem s) tab v"
      using mapped_other [OF mp] by blast
    have table: "\<forall>v. take_bit 27 v \<in> take_bit 27 ` set stack_vpns \<longrightarrow> \<not> is_table (leaf (fst h) tab' v)"
    proof (intro allI impI)
      fix v assume "take_bit 27 v \<in> take_bit 27 ` set stack_vpns"
      then obtain w where w: "w \<in> set stack_vpns" "take_bit 27 v = take_bit 27 w" by blast
      then have "leaf (fst h) tab' v = leaf (fst h) tab' w"
        using levels_eq_iff [of v w] by (simp add: leaf_def cong: option.case_cong)
      moreover obtain i where "i < 4" "stack_vpns ! i = w" using w(1) by (metis in_set_conv_nth stack_vpns_simps(1))
      ultimately show "\<not> is_table (leaf (fst h) tab' v)"
        using st leaf_not_table [OF user_stack_flags_rwx] by (auto simp: stack_mapped_def)
    qed
    have "space R F' (s\<lparr>kheap := h\<rparr>) mp root tab' sl" by (rule space_extend [OF sp ev other table apart])
    then show ?thesis using ev st other pf unfolding run Inr bindE_simps sum.case
      by (intro exI [of _ F'] exI [of _ tab']) simp
  qed
qed

text \<open>\<^verbatim>\<open>copy_mm\<close>, the mapping of the stack and the copy of its bytes.\<close>

definition fork_space :: "kernel \<Rightarrow> addr \<Rightarrow> addr \<Rightarrow> addr \<Rightarrow> (addr \<times> usize \<times> kernel) outcome" where
  "fork_space s src us old =
     bindE (copy_mm s src) (\<lambda>(dst, s).
     bindE (deref (mms s) dst) (\<lambda>root.
     bindE (map_user_stack s root us) (\<lambda>s.
     Inr (dst, root, set_kmem s (copy_bytes (unat USER_STACK_SIZE) (kmem s) us old)))))"

lemma copy_stack:
  assumes "aligned 14 us" and "aligned 14 old" and "blk 14 us \<inter> blk 14 old = {}"
  shows "same_outside (blk 14 us) m (copy_bytes (unat USER_STACK_SIZE) m us old)"
    and "\<forall>x \<in> blk 14 us. copy_bytes (unat USER_STACK_SIZE) m us old x = m (old + (x - us))"
proof -
  have n: "unat USER_STACK_SIZE = 16384" by (simp add: USER_STACK_SIZE_def PAGE_SIZE_def)
  have b: "bytes_at us 16384 = blk 14 us" "bytes_at old 16384 = blk 14 old" using bytes_at_blk [OF assms(1)] bytes_at_blk [OF assms(2)] by simp_all
  show "same_outside (blk 14 us) m (copy_bytes (unat USER_STACK_SIZE) m us old)"
    using copy_bytes_same [of 16384 us m old] by (simp add: n b)
  show "\<forall>x \<in> blk 14 us. copy_bytes (unat USER_STACK_SIZE) m us old x = m (old + (x - us))"
    using copy_bytes_apply [of 16384 old us m] assms(3) by (simp add: n b Int_commute)
qed

lemma block_offset:
  assumes "aligned k a" and "aligned k b" and "k < 64" and "x \<in> blk k a"
  shows "b + (x - a) \<in> blk k b"
proof -
  have "unat (x - a) < 2 ^ k" using bytes_at_blk [OF assms(1)] assms(4) by (auto simp: bytes_at_def)
  then have "b + of_nat (unat (x - a)) \<in> blk k b" by (rule in_block [OF assms(2) _ assms(3)])
  then show ?thesis by simp
qed

lemma fork_space_spec:
  assumes src: "space R F s src sroot stab sl"
    and us: "aligned 14 us" "blk 14 us \<inter> F = {}" and old: "aligned 14 old" "blk 14 old \<inter> (F \<union> blk 14 us) = {}"
    and apart: "take_bit 27 ` set (vpns_of sl) \<inter> take_bit 27 ` set stack_vpns = {}"
  shows "case fork_space s src us old of
      Inl e \<Rightarrow> e = Panic ''Not enough memory!'' \<and> \<not> pages_free F (10 + copy_cost sl)
    | Inr (dst, root, s') \<Rightarrow> \<exists>F' tab dl St. space R F' s' dst root tab dl \<and> F' \<subseteq> F \<and> kept (F \<union> blk 14 us) s s' \<and>
        F' = F - (page_set (ran tab) \<union> page_set (set (frames_of dl)) \<union> St) \<and> St \<subseteq> F \<and> card St = 32 + 64 * length sl \<and>
        set (mm_segments dst # seg_nodes dl) \<subseteq> F \<and> page_set (ran tab) \<union> page_set (set (frames_of dl)) \<subseteq> F - F' \<and>
        same_contents (kmem s) (kmem s') tab sl dl \<and> stack_mapped (kmem s') tab us \<and>
        (\<forall>v. take_bit 27 v \<notin> take_bit 27 ` set (vpns_of sl @ stack_vpns) \<longrightarrow> leaf (kmem s') tab v = 0) \<and>
        (\<forall>x \<in> blk 14 us. kmem s' x = kmem s (old + (x - us)))"
proof (cases "copy_mm s src")
  case (Inl e)
  then show ?thesis using copy_mm_spec [OF src] pages_free_less [of F "10 + copy_cost sl" "2 + copy_cost sl"]
    by (auto simp: fork_space_def)
next
  case (Inr r)
  obtain dst s1 where r: "copy_mm s src = Inr (dst, s1)" using Inr by (cases r) auto
  obtain root F1 dtab dl St where c: "copying R F s dst root F1 s1 dtab dl St" "copied (kmem s) (kmem s1) dtab sl dl"
    "\<forall>n. pages_free F (2 + copy_cost sl + n) \<longrightarrow> pages_free F1 n" "card St = 32 + 64 * length sl"
    using copy_mm_spec [OF src] unfolding r sum.case prod.case by blast
  note cd = copyingD [OF c(1)] and d1 = spaceD [OF copyingD(1) [OF c(1)]]
  have apart1: "take_bit 27 ` set (vpns_of dl) \<inter> take_bit 27 ` set stack_vpns = {}"
    using image_mono [OF copied_vpns [OF c(2)], of "take_bit 27"] apart by blast
  note ms = map_user_stack_spec [OF cd(1) apart1, of us]
  have run: "fork_space s src us old = bindE (map_user_stack s1 root us) (\<lambda>s.
      Inr (dst, root, set_kmem s (copy_bytes (unat USER_STACK_SIZE) (kmem s) us old)))"
    using d1(2) by (simp add: fork_space_def r deref_def)
  show ?thesis
  proof (cases "map_user_stack s1 root us")
    case (Inl e)
    with ms c(3) [rule_format, of 8] show ?thesis unfolding run by (auto simp: add.commute)
  next
    case (Inr s2)
    obtain F2 tab where s2: "s2 = s1\<lparr>kheap := kheap s2\<rparr>" "space R F2 s2 dst root tab dl"
      "evolved R (kheap s1) F1 dtab (kheap s2) F2 tab {}" "stack_mapped (kmem s2) tab us"
      "\<forall>v. take_bit 27 v \<notin> take_bit 27 ` set stack_vpns \<longrightarrow> leaf (kmem s2) tab v = leaf (kmem s1) dtab v"
      using ms unfolding Inr sum.case by blast
    note e = evolvedD [OF s2(3)] and d2 = spaceD [OF s2(2)]
    define m3 where "m3 = copy_bytes (unat USER_STACK_SIZE) (kmem s2) us old"
    let ?s3 = "set_kmem s2 m3"
    have "blk 14 us \<inter> blk 14 old = {}" using old(2) by blast
    note cs = copy_stack [OF us(1) old(1) this, of "kmem s2", folded m3_def]
    have F: "F2 \<subseteq> F1" "F1 \<subseteq> F" "page_set (ran dtab) \<subseteq> F" "page_set (set (frames_of dl)) \<subseteq> F"
      using e(3) cd(3) by blast+
    have t: "page_set (ran tab) \<subseteq> F" using e(4) F(2,3) by blast
    have tt: "page_set (ran tab) \<inter> blk 14 us = {}" using t us(2) by blast
    have "buddy_inv R (kheap s2) F2" "tree_ok (kmem s2) tab" using d2(1) by (simp_all add: pt_inv_def)
    have inv3: "buddy_inv R (kheap ?s3) F2"
      using buddy_inv_same_free [of R "kmem s2" "snd (kheap s2)" F2 m3] \<open>buddy_inv R (kheap s2) F2\<close>
        same_outside_mono [OF cs(1), of "- F2"] us(2) F(1,2) by (auto simp: set_kmem_def)
    have lf: "leaf m3 tab v = leaf (kmem s2) tab v" for v
      by (rule tree_frame(2) [OF \<open>tree_ok (kmem s2) tab\<close> cs(1) tt])
    have k: "kept F s1 s2" by (subst s2(1), rule kept_kheap, rule same_outside_mono [OF e(8)]) (use F in blast)
    have k3: "kept (F \<union> blk 14 us) s2 ?s3"
      unfolding set_kmem_def by (rule kept_kheap) (use same_outside_mono [OF cs(1)] in simp)
    have kept: "kept (F \<union> blk 14 us) s ?s3"
      by (rule kept_trans [OF kept_mono [OF kept_trans [OF cd(2) k]] k3]) blast
    have sp3: "space R F2 ?s3 dst root tab dl"
      by (rule space_frame [OF s2(2) inv3 subset_refl, of "blk 14 us" "{}"])
        (use cs(1) tt in \<open>simp_all add: set_kmem_def split_beta\<close>)
    have "same_contents (kmem s) (kmem s1) dtab sl dl" using c(2) by (simp add: copied_def)
    moreover have "\<forall>v \<in> set (vpns_of sl). leaf m3 tab v = leaf (kmem s1) dtab v"
    proof
      fix v assume "v \<in> set (vpns_of sl)"
      then have "take_bit 27 v \<notin> take_bit 27 ` set stack_vpns" using apart by blast
      then show "leaf m3 tab v = leaf (kmem s1) dtab v" using s2(5) lf by simp
    qed
    moreover have "\<forall>x \<in> page_set (set (frames_of dl)). m3 x = kmem s1 x"
    proof
      fix x assume x: "x \<in> page_set (set (frames_of dl))"
      then have "x \<notin> F1 \<union> page_set (ran dtab)" "x \<notin> blk 14 us" using d1(11) F(4) us(2) by blast+
      then show "m3 x = kmem s1 x" using e(8) cs(1) by (simp add: same_outside_def)
    qed
    ultimately have sc: "same_contents (kmem s) m3 tab sl dl" by (rule same_contents_keep) simp
    have rest: "leaf m3 tab v = 0" if v: "take_bit 27 v \<notin> take_bit 27 ` set (vpns_of sl @ stack_vpns)" for v
    proof -
      have "take_bit 27 v \<notin> take_bit 27 ` set (vpns_of sl)" "take_bit 27 v \<notin> take_bit 27 ` set stack_vpns" using v by auto
      then show ?thesis using s2(5) lf c(2) by (simp add: copied_def)
    qed
    have stack: "m3 x = kmem s (old + (x - us))" if x: "x \<in> blk 14 us" for x
    proof -
      have "old + (x - us) \<in> blk 14 old" by (rule block_offset [OF us(1) old(1) _ x]) simp
      then have "old + (x - us) \<notin> F" using old(2) by blast
      then have "kmem s2 (old + (x - us)) = kmem s (old + (x - us))"
        using kept_trans [OF cd(2) k] by (simp add: kept_def same_outside_def)
      then show ?thesis using cs(2) x by simp
    qed
    have sm: "stack_mapped m3 tab us" using s2(4) by (simp add: stack_mapped_def lf)
    have nodes: "set (mm_segments dst # seg_nodes dl) \<subseteq> F" using cd(3,5) by blast
    have "page_set (ran tab) \<union> page_set (set (frames_of dl)) \<subseteq> F - F2" using t F(4) d2(1,11) unfolding pt_inv_def by blast
    moreover have "F2 = F - (page_set (ran tab) \<union> page_set (set (frames_of dl)) \<union> St)"
    proof -
      have "page_set (ran dtab) \<inter> F1 = {}" "page_set (set (frames_of dl)) \<inter> F1 = {}" using d1(1,11) unfolding pt_inv_def by blast+
      then have "F1 = F - (page_set (ran dtab) \<union> page_set (set (frames_of dl)) \<union> St)" using cd(3,4) by blast
      moreover have "F2 = F1 - page_set (ran tab)" using e(3) by (simp add: page_set_def)
      ultimately show ?thesis using map_le_page_set [OF e(2)] by blast
    qed
    moreover have "St \<subseteq> F" using cd(3) by blast
    ultimately show ?thesis using sp3 F kept nodes sc sm rest stack c(4)
      unfolding run Inr bindE_simps sum.case prod.case m3_def [symmetric]
      by (intro exI [of _ F2] exI [of _ tab] exI [of _ dl] exI [of _ St]) (simp add: set_kmem_def)
  qed
qed

section \<open>The references to the open files\<close>

text \<open>Every descriptor of the child counts: a file open twice gets two more references.\<close>

definition referenced :: "addr list \<Rightarrow> (addr \<Rightarrow> open_file option) \<Rightarrow> addr \<Rightarrow> open_file option" where
  "referenced fs t f =
     map_option (\<lambda>fl. fl\<lparr>f_count := f_count fl + of_nat (count_list (filter (\<lambda>f. f \<noteq> 0) fs) f)\<rparr>) (t f)"

lemma share_files_spec:
  "\<forall>f \<in> set fs. f \<noteq> 0 \<longrightarrow> file_table s f \<noteq> None \<Longrightarrow>
     share_files s fs = Inr (s\<lparr>file_table := referenced fs (file_table s)\<rparr>)"
proof (induction fs arbitrary: s)
  case Nil
  have "referenced [] t = t" for t by (rule ext) (auto simp: referenced_def option.map_ident)
  then show ?case by simp
next
  case (Cons f fs)
  show ?case
  proof (cases "f = 0")
    case True
    then have "referenced (f # fs) t = referenced fs t" for t by (simp add: referenced_def fun_eq_iff)
    with True Cons show ?thesis by simp
  next
    case False
    then obtain fl where fl: "file_table s f = Some fl" using Cons.prems by auto
    let ?s = "set_file s f (fl\<lparr>f_count := f_count fl + 1\<rparr>)"
    have "\<forall>f \<in> set fs. f \<noteq> 0 \<longrightarrow> file_table ?s f \<noteq> None" using Cons.prems by (simp add: set_file_def)
    from Cons.IH [OF this] have "share_files s (f # fs) = Inr (?s\<lparr>file_table := referenced fs (file_table ?s)\<rparr>)"
      using False fl by (simp add: deref_def)
    moreover have "referenced fs (file_table ?s) = referenced (f # fs) (file_table s)"
      using False fl by (auto simp: referenced_def set_file_def fun_eq_iff add.assoc)
    ultimately show ?thesis by (simp add: set_file_def)
  qed
qed

section \<open>The nodes of the processes\<close>

definition procs_apart :: "addr set \<Rightarrow> addr set \<Rightarrow> kernel \<Rightarrow> bool" where
  "procs_apart R F s \<longleftrightarrow> (\<forall>p. pcbs s p \<noteq> None \<longrightarrow> aligned 10 p \<and> blk 10 p \<subseteq> R - F)"

definition proc_nodes :: "kernel \<Rightarrow> addr set" where
  "proc_nodes s = (\<Union>p \<in> dom (pcbs s). {run_node p, children_head p, sibling_node p})"

lemma nodes_in_block:
  assumes "aligned 10 p"
  shows "run_node p \<in> blk 10 p" and "children_head p \<in> blk 10 p" and "sibling_node p \<in> blk 10 p"
  using in_block [OF assms, of 440] in_block [OF assms, of 456] in_block [OF assms, of 472]
  by (simp_all add: run_node_def children_head_def sibling_node_def)

lemma nodes_differ:
  assumes "aligned 10 p" and "aligned 10 q"
  shows "run_node p \<noteq> children_head q" and "run_node p \<noteq> sibling_node q" and "children_head p \<noteq> sibling_node q"
proof -
  have same: "p = q" if "x \<in> blk 10 p" "x \<in> blk 10 q" for x :: addr
  proof -
    have "blk 10 p = blk 10 q" using blk_eq [OF that(1)] blk_eq [OF that(2)] by (rule trans [OF sym])
    then have "p \<in> blk 10 q" using self_in_blk by blast
    then show ?thesis by (rule aligned_blk_unique [OF assms])
  qed
  show "run_node p \<noteq> children_head q"
  proof
    assume "run_node p = children_head q"
    with same nodes_in_block [OF assms(1)] nodes_in_block [OF assms(2)] have "p = q" by fastforce
    with \<open>run_node p = children_head q\<close> show False by (simp add: run_node_def children_head_def)
  qed
  show "run_node p \<noteq> sibling_node q"
  proof
    assume "run_node p = sibling_node q"
    with same nodes_in_block [OF assms(1)] nodes_in_block [OF assms(2)] have "p = q" by fastforce
    with \<open>run_node p = sibling_node q\<close> show False by (simp add: run_node_def sibling_node_def)
  qed
  show "children_head p \<noteq> sibling_node q"
  proof
    assume "children_head p = sibling_node q"
    with same nodes_in_block [OF assms(1)] nodes_in_block [OF assms(2)] have "p = q" by fastforce
    with \<open>children_head p = sibling_node q\<close> show False by (simp add: children_head_def sibling_node_def)
  qed
qed

lemma procs_apartD:
  assumes "procs_apart R F s" and "pcbs s p = Some b"
  shows "aligned 10 p" and "p \<notin> F" and "run_node p \<notin> F" and "children_head p \<notin> F" and "sibling_node p \<notin> F"
proof -
  have "aligned 10 p" "blk 10 p \<subseteq> R - F" using assms unfolding procs_apart_def by simp_all
  then show "aligned 10 p" "p \<notin> F" "run_node p \<notin> F" "children_head p \<notin> F" "sibling_node p \<notin> F"
    using nodes_in_block [of p] self_in_blk [of p 10] by blast+
qed

lemma proc_nodes_free: "procs_apart R F s \<Longrightarrow> proc_nodes s \<inter> F = {}"
  using procs_apartD [of R F s] by (auto simp: proc_nodes_def)

lemma proc_nodesI:
  "pcbs s p = Some b \<Longrightarrow> run_node p \<in> proc_nodes s \<and> children_head p \<in> proc_nodes s \<and> sibling_node p \<in> proc_nodes s"
  by (auto simp: proc_nodes_def)

lemma not_in_other: "X \<inter> Y = {} \<Longrightarrow> A \<subseteq> X \<Longrightarrow> y \<in> Y \<Longrightarrow> y \<notin> A"
  by blast

lemma disjoint_parts: "A \<inter> B = {} \<Longrightarrow> A \<inter> C = {} \<Longrightarrow> X \<subseteq> A \<Longrightarrow> Y \<subseteq> B \<union> C \<Longrightarrow> X \<inter> Y = {} \<and> Y \<inter> X = {}"
  by blast

text \<open>The child enters the list of its parent's children and the queue.\<close>

lemma child_enters:
  fixes c p i :: addr
  assumes al: "\<forall>x \<in> {c, p, i} \<union> set q \<union> set cs. aligned 10 x"
    and queue: "clist l (run_node i) (map run_node q)" and kids: "clist l (children_head p) (map sibling_node cs)"
    and own: "clist l (children_head c) []" and new: "c \<notin> set q" "c \<noteq> i" "c \<noteq> p" "c \<notin> set cs"
  defines "l1 \<equiv> list_add l (sibling_node c) (children_head p)"
  defines "l2 \<equiv> list_add_tail l1 (run_node c) (run_node i)"
  shows "clist l2 (run_node i) (map run_node (q @ [c]))" and "clist l2 (children_head p) (map sibling_node (c # cs))"
    and "clist l2 (children_head c) []"
    and "links_same_outside (run_node ` ({c, i} \<union> set q) \<union> {children_head p} \<union> sibling_node ` ({c} \<union> set cs)) l l2"
proof -
  let ?T1 = "set (sibling_node c # children_head p # map sibling_node cs)"
  let ?T2 = "set (run_node c # run_node i # map run_node q)"
  define D where "D = {c, p, i} \<union> set q \<union> set cs"
  have D: "aligned 10 x" if "x \<in> D" for x using al that unfolding D_def by blast
  have apart: "run_node ` D \<inter> children_head ` D = {}" "run_node ` D \<inter> sibling_node ` D = {}"
    "children_head ` D \<inter> sibling_node ` D = {}"
    using nodes_differ [OF D D] by blast+
  have sub: "set (run_node i # map run_node q) \<subseteq> run_node ` D" "?T2 \<subseteq> run_node ` D"
    "?T1 \<subseteq> children_head ` D \<union> sibling_node ` D" "sibling_node ` set cs \<subseteq> sibling_node ` D"
    "children_head p \<in> children_head ` D" "children_head c \<in> children_head ` D" by (auto simp: D_def)
  have "c \<in> D" "p \<in> D" by (simp_all add: D_def)
  then have "sibling_node c \<noteq> children_head p" using apart(3) by (metis IntI empty_iff imageI)
  then have "sibling_node c \<notin> set (children_head p # map sibling_node cs)" using new(4) by auto
  note a1 = clist_add [OF kids this, folded l1_def]
  have "set (run_node i # map run_node q) \<inter> ?T1 = {}"
    by (rule conjunct1 [OF disjoint_parts [OF apart(1,2) sub(1,3)]])
  then have q1: "clist l1 (run_node i) (map run_node q)" using clist_frame [OF a1(2)] queue by simp
  have "run_node c \<notin> set (run_node i # map run_node q)" using new(1,2) by auto
  note a2 = clist_add_tail [OF q1 this, folded l2_def]
  show "clist l2 (run_node i) (map run_node (q @ [c]))" using a2(1) by simp
  have "set (children_head p # sibling_node c # map sibling_node cs) \<subseteq> children_head ` D \<union> sibling_node ` D" by (auto simp: D_def)
  then have "set (children_head p # sibling_node c # map sibling_node cs) \<inter> ?T2 = {}"
    by (rule conjunct2 [OF disjoint_parts [OF apart(1,2) sub(2)]])
  then show "clist l2 (children_head p) (map sibling_node (c # cs))" using clist_frame [OF a2(2)] a1(1) by simp
  have "set [children_head c] \<subseteq> children_head ` D" using sub(6) by simp
  then have "set [children_head c] \<subseteq> children_head ` D \<union> sibling_node ` D" by (rule le_supI1)
  then have "set [children_head c] \<inter> ?T2 = {}" by (rule conjunct2 [OF disjoint_parts [OF apart(1,2) sub(2)]])
  moreover have "set (sibling_node c # map sibling_node cs) \<subseteq> sibling_node ` D" by (auto simp: D_def)
  then have "children_head c \<notin> set (sibling_node c # map sibling_node cs)" using apart(3) sub(6) by (meson disjoint_iff subsetD)
  then have "set [children_head c] \<inter> ?T1 = {}" using new(3) by auto
  ultimately have "set [children_head c] \<inter> ?T1 = {}" "set [children_head c] \<inter> ?T2 = {}" by simp_all
  then show "clist l2 (children_head c) []" using clist_frame [OF a1(2)] clist_frame [OF a2(2)] own by simp
  show "links_same_outside (run_node ` ({c, i} \<union> set q) \<union> {children_head p} \<union> sibling_node ` ({c} \<union> set cs)) l l2"
    by (rule links_same_trans [OF links_same_mono [OF a1(2)] links_same_mono [OF a2(2)]]) auto
qed

text \<open>The state of the child's lists before.\<close>

lemma init_pcb_lists_links:
  assumes al: "aligned 10 c" and F: "blk 10 c \<subseteq> F"
  shows "links_same_outside F (klinks s) (klinks (init_pcb_lists s c))"
    and "clist (klinks (init_pcb_lists s c)) (children_head c) []"
proof -
  note n = nodes_in_block [OF al]
  have one: "links_same_outside F l (INIT_LIST_HEAD l x)" if "x \<in> blk 10 c" for x l
    by (rule links_same_mono [OF init_same]) (use that F in blast)
  show "links_same_outside F (klinks s) (klinks (init_pcb_lists s c))"
    using links_same_trans [OF links_same_trans [OF one [OF n(1)] one [OF n(2)]] one [OF n(3)]] by (simp add: init_pcb_lists_def)
  have "set [children_head c] \<inter> {sibling_node c} = {}" using nodes_differ(3) [OF al al] by simp
  then show "clist (klinks (init_pcb_lists s c)) (children_head c) []"
    using clist_frame [OF init_same] by (simp add: init_pcb_lists_def)
qed

section \<open>The call\<close>

lemma sys_fork_split:
  "sys_fork img s =
     bindE (fork_blocks s) (\<lambda>(child, n, ks, us, s).
     bindE (update_pcb s child (\<lambda>b. b\<lparr>pid := n, state := Ready, kstack := ks, ustack := us, parent := current s\<rparr>)) (\<lambda>s.
     let s = init_pcb_lists s child; ksp = ks + KERNEL_STACK_SIZE in
     bindE (get_pcb s (current s)) (\<lambda>cur.
     bindE (fork_space s (mm cur) us (ustack cur)) (\<lambda>(dst, root, s).
     bindE (update_pcb s child (\<lambda>b. b\<lparr>
              process_cx := (goto_trap_restore img (process_cx b) ksp)\<lparr>cx_satp := satp_of root\<rparr>, mm := dst,
              trap_cx := (trap_cx cur)\<lparr>kernel_sp := ksp, x_regs := (x_regs (trap_cx cur))[10 := 0]\<rparr>,
              files := files cur\<rparr>)) (\<lambda>s.
     bindE (share_files s (files cur)) (\<lambda>s.
     let s = s\<lparr>klinks := list_add (klinks s) (sibling_node child) (children_head (current s))\<rparr>
     in Inr (n, add_process s child)))))))"
  by (simp add: sys_fork_def fork_blocks_def fork_space_def bindE_assoc Let_def case_prod_unfold)

text \<open>The child's struct and lists before the address space is copied.\<close>

lemma fork_prepared:
  assumes inv: "buddy_inv R (kheap s) F" and len: "length (pids s) = 32" and blocks: "fork_blocks s = Inr (child, n, ks, us, s1)"
  defines "F1 \<equiv> F - blk 10 child - blk 13 ks - blk 14 us"
  obtains b s3 where "update_pcb s1 child f = Inr (set_pcb s1 child (f b))"
    and "init_pcb_lists (set_pcb s1 child (f b)) child = s3"
    and "buddy_inv R (kheap s3) F1" and "vm_kept F s s3" and "alloc_pid (pids s) = Inr (n, pids s3)"
    and "pcbs s3 = (pcbs s)(child \<mapsto> f b)" and "file_table s3 = file_table s" and "current s3 = current s"
    and "idle s3 = idle s" and "init_proc s3 = init_proc s" and "clist (klinks s3) (children_head child) []"
    and "current s1 = current s" and "satp s3 = satp s" and "console s3 = console s" and "next_timeout s3 = next_timeout s"
proof -
  obtain b ps where a: "aligned 10 child" "blk 10 child \<subseteq> F" "buddy_inv R (kheap s1) F1" "same_outside F (kmem s) (kmem s1)"
    "s1 = s\<lparr>kheap := kheap s1, pcbs := (pcbs s)(child \<mapsto> b), pids := ps\<rparr>" "alloc_pid (pids s) = Inr (n, ps)"
    using fork_blocks_spec [OF inv len] blocks by (auto simp: F1_def)
  have sel: "pcbs s1 = (pcbs s)(child \<mapsto> b)" "pids s1 = ps" "current s1 = current s" "idle s1 = idle s"
    "init_proc s1 = init_proc s" "file_table s1 = file_table s" "segs s1 = segs s" "mms s1 = mms s" "klinks s1 = klinks s"
    by (subst a(5), simp)+
  define s3 where "s3 = init_pcb_lists (set_pcb s1 child (f b)) child"
  note l = init_pcb_lists_links [OF a(1,2), of "set_pcb s1 child (f b)", folded s3_def]
  have sel3: "pcbs s3 = (pcbs s)(child \<mapsto> f b)" "pids s3 = ps" "current s3 = current s" "idle s3 = idle s"
    "init_proc s3 = init_proc s" "file_table s3 = file_table s" "segs s3 = segs s" "mms s3 = mms s" "kheap s3 = kheap s1"
    by (simp_all add: s3_def init_pcb_lists_def set_pcb_def sel)
  have "vm_kept F s s3" using a(4) l(1) by (simp add: vm_kept_def sel3 sel)
  moreover have "update_pcb s1 child f = Inr (set_pcb s1 child (f b))" by (rule update_pcb_Some) (simp add: sel)
  moreover have "satp s1 = satp s" "console s1 = console s" "next_timeout s1 = next_timeout s" by (subst a(5), simp)+
  then have "satp s3 = satp s" "console s3 = console s" "next_timeout s3 = next_timeout s"
    by (simp_all add: s3_def init_pcb_lists_def set_pcb_def)
  ultimately show thesis using that [of b s3] s3_def a(3,6) sel3(1-6,9) l(2) sel(3) by simp
qed

text \<open>What the steps after the copy keep, and what they enter.\<close>

text \<open>The nodes of the queue and of the list of children of the current process.\<close>

definition list_nodes :: "kernel \<Rightarrow> addr list \<Rightarrow> addr list \<Rightarrow> addr set" where
  "list_nodes s q cs = run_node ` insert (idle s) (set q) \<union> {children_head (current s)} \<union> sibling_node ` set cs"

lemma forked_lists:
  assumes sched: "sched_inv s q" and user: "current s \<noteq> idle s" and cur: "pcbs s (current s) = Some cur"
    and procs: "procs_apart R F s" and child: "aligned 10 child" "blk 10 child \<subseteq> F"
    and kids: "clist (klinks s) (children_head (current s)) (map sibling_node cs)" "set cs \<subseteq> dom (pcbs s)"
    and links: "links_same_outside F (klinks s) l" and own: "clist l (children_head child) []"
  defines "l' \<equiv> list_add_tail (list_add l (sibling_node child) (children_head (current s))) (run_node child) (run_node (idle s))"
  shows "clist l' (run_node (idle s)) (map run_node (q @ [child]))"
    and "clist l' (children_head (current s)) (map sibling_node (child # cs))" and "clist l' (children_head child) []"
    and "links_same_outside (proc_nodes s \<union> blk 10 child) l l'"
    and "pcbs s child = None" and "child \<notin> set q" and "child \<noteq> current s"
    and "links_same_outside (blk 10 child \<union> list_nodes s q cs) l l'"
    and "pcbs s p \<noteq> None \<Longrightarrow> p \<noteq> current s \<Longrightarrow> set zs \<subseteq> dom (pcbs s) \<Longrightarrow> set zs \<inter> set cs = {} \<Longrightarrow>
      set (children_head p # map sibling_node zs) \<inter> (F \<union> list_nodes s q cs) = {}"
proof -
  let ?X = "insert (current s) (insert (idle s) (set q \<union> set cs))"
  note i = sched_invD [OF sched]
  have live: "pcbs s x \<noteq> None" if "x \<in> ?X" for x
    using that i(2) [of x] i(5) user cur kids(2) by (auto simp: has_state_def)
  have apart: "aligned 10 x \<and> run_node x \<notin> F \<and> children_head x \<notin> F \<and> sibling_node x \<notin> F" if "x \<in> ?X" for x
    using procs_apartD [OF procs, of x] live [OF that] by blast
  have "child \<in> F" using child(2) self_in_blk by blast
  then show new: "pcbs s child = None" using procs_apartD(2) [OF procs, of child] by (cases "pcbs s child") auto
  have nin: "child \<notin> set q" "child \<noteq> idle s" "child \<noteq> current s" "child \<notin> set cs" using live new by blast+
  then show "child \<notin> set q" "child \<noteq> current s" by simp_all
  have al: "\<forall>x \<in> {child, current s, idle s} \<union> set q \<union> set cs. aligned 10 x" using apart child(1) by blast
  have "set (run_node (idle s) # map run_node q) \<inter> F = {}" using apart by auto
  then have queue: "clist l (run_node (idle s)) (map run_node q)" using clist_frame [OF links] i(1) by (simp add: run_queue_def)
  have "set (children_head (current s) # map sibling_node cs) \<inter> F = {}" using apart by auto
  then have children: "clist l (children_head (current s)) (map sibling_node cs)" using clist_frame [OF links] kids(1) by simp
  note ce = child_enters [OF al queue children own nin, folded l'_def]
  show "clist l' (run_node (idle s)) (map run_node (q @ [child]))"
    "clist l' (children_head (current s)) (map sibling_node (child # cs))" "clist l' (children_head child) []" by (fact ce(1-3))+
  show "links_same_outside (proc_nodes s \<union> blk 10 child) l l'"
    by (rule links_same_mono [OF ce(4)]) (use live proc_nodesI [of s] nodes_in_block [OF child(1)] in auto)
  show "links_same_outside (blk 10 child \<union> list_nodes s q cs) l l'"
    by (rule links_same_mono [OF ce(4)]) (use nodes_in_block [OF child(1)] in \<open>auto simp: list_nodes_def\<close>)
  assume p: "pcbs s p \<noteq> None" "p \<noteq> current s" "set zs \<subseteq> dom (pcbs s)" "set zs \<inter> set cs = {}"
  have zs: "aligned 10 x \<and> children_head x \<notin> F \<and> sibling_node x \<notin> F" if "x \<in> insert p (set zs)" for x
    using procs_apartD [OF procs, of x] p(1,3) that by blast
  have inj: "children_head x = children_head y \<longleftrightarrow> x = y" "sibling_node x = sibling_node y \<longleftrightarrow> x = y" for x y
    by (simp_all add: children_head_def sibling_node_def)
  define D where "D = ?X \<union> insert p (set zs)"
  have D: "aligned 10 x" if "x \<in> D" for x using that apart zs unfolding D_def by blast
  have img: "run_node ` D \<inter> children_head ` D = {}" "run_node ` D \<inter> sibling_node ` D = {}" "children_head ` D \<inter> sibling_node ` D = {}"
    using nodes_differ [OF D D] by blast+
  have Q: "run_node ` insert (idle s) (set q) \<subseteq> run_node ` D" "sibling_node ` set cs \<subseteq> sibling_node ` D"
    "children_head (current s) \<in> children_head ` D" "children_head p \<in> children_head ` D" "sibling_node ` set zs \<subseteq> sibling_node ` D"
    by (auto simp: D_def)
  have img': "sibling_node ` D \<inter> children_head ` D = {}" using img(3) by (rule trans [OF Int_commute])
  have "children_head p \<notin> run_node ` insert (idle s) (set q)" by (rule not_in_other [OF img(1) Q(1,4)])
  moreover have "children_head p \<notin> sibling_node ` set cs" by (rule not_in_other [OF img' Q(2,4)])
  ultimately have one: "children_head p \<notin> list_nodes s q cs" using inj(1) p(2) by (simp add: list_nodes_def)
  have "sibling_node ` set zs \<inter> run_node ` insert (idle s) (set q) = {}"
    by (rule conjunct2 [OF disjoint_parts [OF img(2) img(2) Q(1)]]) (use Q(5) in simp)
  moreover have "children_head (current s) \<notin> sibling_node ` set zs" by (rule not_in_other [OF img' Q(5,3)])
  moreover have "sibling_node ` set zs \<inter> sibling_node ` set cs = {}" using p(4) inj(2) by auto
  ultimately have two: "sibling_node ` set zs \<inter> list_nodes s q cs = {}" unfolding list_nodes_def by (simp add: Int_Un_distrib)
  have out: "set (children_head p # map sibling_node zs) \<inter> list_nodes s q cs = {}" using one two by simp
  show "set (children_head p # map sibling_node zs) \<inter> (F \<union> list_nodes s q cs) = {}"
    using zs out by auto
qed

lemma forked_space:
  assumes o: "space R F s m r tb pl" "set (mm_segments m # seg_nodes pl) \<inter> proc_nodes s = {}"
    and t: "buddy_inv R (kheap t) F'" "F' \<subseteq> F" "same_outside F (kmem s) (kmem t)"
      "links_same_outside (F \<union> proc_nodes s) (klinks s) (klinks t)" "\<forall>a. a \<notin> F \<longrightarrow> segs t a = segs s a \<and> mms t a = mms s a"
  shows "space R F' t m r tb pl"
proof (rule space_frame [OF o(1) t(1-3) _ t(4)])
  note d = spaceD [OF o(1)]
  show "page_set (ran tb) \<inter> F = {}" using d(1) by (auto simp: pt_inv_def)
  show "set (mm_segments m # seg_nodes pl) \<inter> (F \<union> proc_nodes s) = {}" using o(2) space_nodes [OF o(1)] by blast
  have "m \<notin> F" using d(7) self_in_blk [of m 5] by blast
  then show "mms t m = mms s m" using t(5) by simp
  have "x \<notin> F" if "(x, sg, ps) \<in> set pl" for x sg ps using d(5) [OF that] self_in_blk [of x 6] by blast
  then show "\<forall>(x, sg, ps) \<in> set pl. segs t x = segs s x" using t(5) by auto
qed

lemma forked_procs:
  assumes "procs_apart R F s" and "aligned 10 c" and "blk 10 c \<subseteq> F" and "F \<subseteq> R" and "F' \<subseteq> F - blk 10 c"
    and "pcbs t = (pcbs s)(c \<mapsto> b)"
  shows "procs_apart R F' t"
proof -
  have "aligned 10 x \<and> blk 10 x \<subseteq> R - F'" if "pcbs t x \<noteq> None" for x
  proof (cases "x = c")
    case True
    then show ?thesis using assms(2-5) by blast
  next
    case False
    then have "pcbs s x \<noteq> None" using that assms(6) by simp
    then show ?thesis using assms(1,5) unfolding procs_apart_def by blast
  qed
  then show ?thesis unfolding procs_apart_def by blast
qed

lemma forked_sched:
  assumes sched: "sched_inv s q" and new: "pcbs s c = None" "c \<notin> set q" "c \<noteq> current s"
    and t: "pcbs t = (pcbs s)(c \<mapsto> b)" "state b = Ready" "current t = current s" "idle t = idle s"
    and queue: "clist (klinks t) (run_node (idle s)) (map run_node (q @ [c]))"
  shows "sched_inv t (q @ [c])"
proof -
  have st: "has_state t x st \<longleftrightarrow> (if x = c then Ready = st else has_state s x st)" for x st
    using t(1,2) by (simp add: has_state_def)
  have "run_queue t (q @ [c])" using queue t(4) by (simp add: run_queue_def)
  then show ?thesis using sched new t(3,4) unfolding sched_inv_def st by simp
qed

lemma copied_elsewhere:
  assumes "same_contents m1 m2 tab sl dl" and "same_outside F m m1" and "page_set (set (frames_of sl)) \<inter> F = {}"
  shows "same_contents m m2 tab sl dl"
proof (rule same_contents_keep [OF assms(1)])
  show "\<forall>x \<in> page_set (set (frames_of sl)). m x = m1 x" using assms(2,3) by (auto simp: same_outside_def)
qed simp_all

lemma stack_elsewhere:
  assumes "\<forall>x \<in> blk 14 us. m2 x = m1 (u + (x - us))" and "same_outside F m m1"
    and "aligned 14 us" "aligned 14 u" "blk 14 u \<inter> F = {}" and x: "x \<in> blk 14 us"
  shows "m2 x = m (u + (x - us))"
proof -
  have "u + (x - us) \<in> blk 14 u" by (rule block_offset [OF assms(3,4) _ x]) simp
  then have "u + (x - us) \<notin> F" using assms(5) by blast
  then show ?thesis using assms(1,2) x by (simp add: same_outside_def)
qed

section \<open>The call as a whole\<close>

text \<open>A state that agrees with another in everything but what a handler works on.\<close>

lemma kernel_frame:
  "satp t = satp s \<Longrightarrow> current t = current s \<Longrightarrow> idle t = idle s \<Longrightarrow> init_proc t = init_proc s \<Longrightarrow> console t = console s \<Longrightarrow>
   next_timeout t = next_timeout s \<Longrightarrow>
   t = (s :: kernel)\<lparr>kheap := kheap t, klinks := klinks t, segs := segs t, mms := mms t, pcbs := pcbs t,
     file_table := file_table t, pids := pids t\<rparr>"
  by simp

lemma sys_fork_spec:
  assumes sched: "sched_inv s q" and user: "current s \<noteq> idle s" and cur: "pcbs s (current s) = Some cur"
    and procs: "procs_apart R F s" and len: "length (pids s) = 32"
    and src: "space R F s (mm cur) sroot stab sl" and nodes: "set (mm_segments (mm cur) # seg_nodes sl) \<inter> proc_nodes s = {}"
    and stack: "aligned 14 (ustack cur)" "blk 14 (ustack cur) \<subseteq> R - F"
    and vpns: "take_bit 27 ` set (vpns_of sl) \<inter> take_bit 27 ` set stack_vpns = {}"
    and files: "\<forall>f \<in> set (files cur). f \<noteq> 0 \<longrightarrow> file_table s f \<noteq> None"
    and kids: "clist (klinks s) (children_head (current s)) (map sibling_node cs)" "set cs \<subseteq> dom (pcbs s)"
  shows "case sys_fork img s of
      Inl e \<Rightarrow> e = Panic ''Not enough memory!'' \<and> \<not> blocks_free 14 F (13 + copy_cost sl)
    | Inr (n, s') \<Rightarrow> (\<exists>child b F' root tab dl St.
        pcbs s child = None \<and> pcbs s' = (pcbs s)(child \<mapsto> b) \<and> state b = Ready \<and> parent b = current s \<and>
        alloc_pid (pids s) = Inr (n, pids s') \<and> pid b = n \<and>
        trap_cx b = (trap_cx cur)\<lparr>kernel_sp := kstack b + KERNEL_STACK_SIZE, x_regs := (x_regs (trap_cx cur))[10 := 0]\<rparr> \<and>
        cx_satp (process_cx b) = satp_of root \<and> ra (process_cx b) = restore_entry img \<and>
        sp (process_cx b) = kstack b + KERNEL_STACK_SIZE \<and>
        files b = files cur \<and> file_table s' = referenced (files cur) (file_table s) \<and>
        space R F' s' (mm b) root tab dl \<and> same_contents (kmem s) (kmem s') tab sl dl \<and>
        stack_mapped (kmem s') tab (ustack b) \<and>
        (\<forall>x \<in> blk 14 (ustack b). kmem s' x = kmem s (ustack cur + (x - ustack b))) \<and>
        (\<forall>v. take_bit 27 v \<notin> take_bit 27 ` set (vpns_of sl @ stack_vpns) \<longrightarrow> leaf (kmem s') tab v = 0) \<and>
        page_set (ran tab) \<union> page_set (set (frames_of dl)) \<union> blk 10 child \<union> blk 13 (kstack b) \<union> blk 14 (ustack b) \<union> St \<subseteq> F \<and>
        F' = F - (page_set (ran tab) \<union> page_set (set (frames_of dl)) \<union> blk 10 child \<union> blk 13 (kstack b) \<union> blk 14 (ustack b) \<union> St) \<and>
        card St = 32 + 64 * length sl \<and>
        same_outside F (kmem s) (kmem s') \<and> procs_apart R F' s' \<and>
        (\<forall>m root tab tl. space R F s m root tab tl \<and> set (mm_segments m # seg_nodes tl) \<inter> proc_nodes s = {} \<longrightarrow>
           space R F' s' m root tab tl) \<and>
        sched_inv s' (q @ [child]) \<and>
        clist (klinks s') (children_head (current s)) (map sibling_node (child # cs)) \<and>
        clist (klinks s') (children_head child) [] \<and>
        (\<forall>p zs. pcbs s p \<noteq> None \<and> p \<noteq> current s \<and> set zs \<subseteq> dom (pcbs s) \<and> set zs \<inter> set cs = {} \<and>
           clist (klinks s) (children_head p) (map sibling_node zs) \<longrightarrow>
           clist (klinks s') (children_head p) (map sibling_node zs)) \<and>
        links_same_outside (F \<union> list_nodes s q cs) (klinks s) (klinks s') \<and>
        (\<forall>a. a \<notin> F \<longrightarrow> segs s' a = segs s a \<and> mms s' a = mms s a) \<and>
        s' = s\<lparr>kheap := kheap s', klinks := klinks s', segs := segs s', mms := mms s', pcbs := pcbs s',
          file_table := file_table s', pids := pids s'\<rparr>)"
proof -
  have inv: "buddy_inv R (kheap s) F" "in_window R" using spaceD(1) [OF src] by (simp_all add: pt_inv_def)
  note fb = fork_blocks_spec [OF inv(1) len]
  show ?thesis
  proof (cases "fork_blocks s")
    case (Inl e)
    with fb blocks_free_less [of 14 F "13 + copy_cost sl" 3] show ?thesis by (auto simp: sys_fork_split)
  next
    case (Inr r)
    then obtain child n ks us s1 where blocks: "fork_blocks s = Inr (child, n, ks, us, s1)" by (cases r) auto
    let ?F1 = "F - blk 10 child - blk 13 ks - blk 14 us" and ?ksp = "ks + KERNEL_STACK_SIZE"
    let ?f = "\<lambda>b. b\<lparr>pid := n, state := Ready, kstack := ks, ustack := us, parent := current s\<rparr>"
    have a: "aligned 10 child" "blk 10 child \<subseteq> F" "blk 13 ks \<subseteq> F - blk 10 child" "aligned 14 us"
      "blk 14 us \<subseteq> F - blk 10 child - blk 13 ks" "\<forall>n. blocks_free 14 F (3 + n) \<longrightarrow> blocks_free 14 ?F1 n"
      using fb blocks by simp_all
    obtain b s3 where p: "update_pcb s1 child ?f = Inr (set_pcb s1 child (?f b))"
      "init_pcb_lists (set_pcb s1 child (?f b)) child = s3" "buddy_inv R (kheap s3) ?F1" "vm_kept F s s3"
      "alloc_pid (pids s) = Inr (n, pids s3)" "pcbs s3 = (pcbs s)(child \<mapsto> ?f b)" "file_table s3 = file_table s"
      "current s3 = current s" "idle s3 = idle s" "init_proc s3 = init_proc s" "clist (klinks s3) (children_head child) []"
      "current s1 = current s"
      "satp s3 = satp s" "console s3 = console s" "next_timeout s3 = next_timeout s"
      by (rule fork_prepared [OF inv(1) len blocks])
    have neq: "child \<noteq> current s" using procs_apartD(2) [OF procs cur] a(2) self_in_blk by blast
    have src3: "space R ?F1 s3 (mm cur) sroot stab sl" by (rule space_vm_kept [OF src p(4,3)]) blast
    have us: "blk 14 us \<inter> ?F1 = {}" "blk 14 (ustack cur) \<inter> (?F1 \<union> blk 14 us) = {}" using a(5) stack(2) by blast+
    note fs = fork_space_spec [OF src3 a(4) us(1) stack(1) us(2) vpns]
    let ?g = "\<lambda>dst root b. b\<lparr>process_cx := (goto_trap_restore img (process_cx b) ?ksp)\<lparr>cx_satp := satp_of root\<rparr>, mm := dst,
                trap_cx := (trap_cx cur)\<lparr>kernel_sp := ?ksp, x_regs := (x_regs (trap_cx cur))[10 := 0]\<rparr>, files := files cur\<rparr>"
    have run: "sys_fork img s = bindE (fork_space s3 (mm cur) us (ustack cur)) (\<lambda>(dst, root, s).
       bindE (update_pcb s child (?g dst root)) (\<lambda>s. bindE (share_files s (files cur)) (\<lambda>s.
       let s = s\<lparr>klinks := list_add (klinks s) (sibling_node child) (children_head (current s))\<rparr>
       in Inr (n, add_process s child))))"
      using p(1,2,6,8,12) cur neq by (simp add: sys_fork_split blocks get_pcb_Some Let_def)
    show ?thesis
    proof (cases "fork_space s3 (mm cur) us (ustack cur)")
      case (Inl e)
      have "pages_free ?F1 (10 + copy_cost sl)" if "blocks_free 14 F (13 + copy_cost sl)"
      proof (rule blocks_free_pages [of 14 _ _ R])
        show "blocks_free 14 ?F1 (10 + copy_cost sl)" using a(6) that by simp
        show "?F1 \<subseteq> R" using buddy.inv_region [OF inv(1)] by blast
      qed (use inv(2) in simp_all)
      with Inl fs show ?thesis unfolding run by auto
    next
      case (Inr t)
      obtain dst root s4 where t: "fork_space s3 (mm cur) us (ustack cur) = Inr (dst, root, s4)" using Inr by (cases t) auto
      obtain F' tab dl St where f: "space R F' s4 dst root tab dl" "F' \<subseteq> ?F1" "kept (?F1 \<union> blk 14 us) s3 s4"
        "set (mm_segments dst # seg_nodes dl) \<subseteq> ?F1" "page_set (ran tab) \<union> page_set (set (frames_of dl)) \<subseteq> ?F1 - F'"
        "same_contents (kmem s3) (kmem s4) tab sl dl" "stack_mapped (kmem s4) tab us"
        "\<forall>v. take_bit 27 v \<notin> take_bit 27 ` set (vpns_of sl @ stack_vpns) \<longrightarrow> leaf (kmem s4) tab v = 0"
        "\<forall>x \<in> blk 14 us. kmem s4 x = kmem s3 (ustack cur + (x - us))"
        "F' = ?F1 - (page_set (ran tab) \<union> page_set (set (frames_of dl)) \<union> St)" "St \<subseteq> ?F1" "card St = 32 + 64 * length sl"
        using fs unfolding t sum.case prod.case by blast
      have UF: "?F1 \<union> blk 14 us \<subseteq> F" using a(5) by blast
      have s4: "s4 = s3\<lparr>kheap := kheap s4, klinks := klinks s4, segs := segs s4, mms := mms s4\<rparr>" using f(3) by (simp add: kept_def)
      have sel: "pcbs s4 = (pcbs s)(child \<mapsto> ?f b)" "pids s4 = pids s3" "file_table s4 = file_table s" "current s4 = current s"
        "idle s4 = idle s" "init_proc s4 = init_proc s" by (subst s4, simp add: p(6-10))+
      let ?b = "?g dst root (?f b)"
      let ?s5 = "set_pcb s4 child ?b"
      let ?s6 = "?s5\<lparr>file_table := referenced (files cur) (file_table s)\<rparr>"
      let ?l = "list_add_tail (list_add (klinks s4) (sibling_node child) (children_head (current s))) (run_node child) (run_node (idle s))"
      let ?s8 = "?s6\<lparr>klinks := ?l\<rparr>"
      have "update_pcb s4 child (?g dst root) = Inr ?s5" by (rule update_pcb_Some) (simp add: sel(1))
      moreover have "share_files ?s5 (files cur) = Inr ?s6"
        using share_files_spec [of "files cur" ?s5] files by (simp add: sel(3))
      ultimately have run4: "sys_fork img s = Inr (n, ?s8)" unfolding run t by (simp add: add_process_def sel(4,5))
      have kept: "vm_kept F s s4" by (rule vm_kept_trans [OF p(4) vm_kept_mono [OF kept_vm [OF f(3)] UF]])
      then have links: "links_same_outside F (klinks s) (klinks s4)" and mem: "same_outside F (kmem s) (kmem s4)"
        and stores: "\<forall>a. a \<notin> F \<longrightarrow> segs s4 a = segs s a \<and> mms s4 a = mms s a" by (simp_all add: vm_kept_def)
      have "set [children_head child] \<inter> (?F1 \<union> blk 14 us) = {}" using nodes_in_block(2) [OF a(1)] a(5) by auto
      then have own: "clist (klinks s4) (children_head child) []"
        using clist_frame [of "?F1 \<union> blk 14 us" "klinks s3" "klinks s4"] f(3) p(11) by (simp add: kept_def)
      note fl = forked_lists [OF sched user cur procs a(1,2) kids links own]
      have kh: "kheap ?s8 = kheap s4" "segs ?s8 = segs s4" "mms ?s8 = mms s4" by (simp_all add: set_pcb_def)
      have inv8: "buddy_inv R (kheap ?s8) F'" using spaceD(1) [OF f(1)] by (simp add: pt_inv_def kh)
      have child_space: "space R F' ?s8 dst root tab dl"
      proof (rule space_frame [OF f(1) inv8 subset_refl])
        show "same_outside {} (fst (kheap s4)) (fst (kheap ?s8))" by (simp only: kh same_outside_refl)
        show "links_same_outside (proc_nodes s \<union> blk 10 child) (klinks s4) (klinks ?s8)" using fl(4) by simp
        show "set (mm_segments dst # seg_nodes dl) \<inter> (proc_nodes s \<union> blk 10 child) = {}"
          using f(4) proc_nodes_free [OF procs] by blast
      qed (simp_all add: set_pcb_def)
      have "links_same_outside (F \<union> proc_nodes s) (klinks s) ?l"
        by (rule links_same_trans [OF links_same_mono [OF links] links_same_mono [OF fl(4)]]) (use a(2) in blast)+
      then have links8: "links_same_outside (F \<union> proc_nodes s) (klinks s) (klinks ?s8)" by simp
      have mem8: "same_outside F (kmem s) (kmem ?s8)" using mem by (simp only: kh)
      have stores8: "\<forall>a. a \<notin> F \<longrightarrow> segs ?s8 a = segs s a \<and> mms ?s8 a = mms s a" using stores by (simp only: kh)
      have others: "space R F' ?s8 m r tb pl"
        if "space R F s m r tb pl" "set (mm_segments m # seg_nodes pl) \<inter> proc_nodes s = {}" for m r tb pl
        by (rule forked_space [OF that inv8 _ mem8 links8 stores8]) (use f(2) in blast)
      have mem3: "same_outside F (kmem s) (kmem s3)" using p(4) by (simp add: vm_kept_def)
      have contents: "same_contents (kmem s) (kmem s4) tab sl dl"
        by (rule copied_elsewhere [OF f(6) mem3]) (use spaceD(11) [OF src] in blast)
      have copied_stack: "kmem s4 x = kmem s (ustack cur + (x - us))" if "x \<in> blk 14 us" for x
        by (rule stack_elsewhere [OF f(9) mem3 a(4) stack(1) _ that]) (use stack(2) in blast)
      have pcb8: "pcbs ?s8 = (pcbs s)(child \<mapsto> ?b)" by (simp add: sel(1))
      have procs8: "procs_apart R F' ?s8"
        by (rule forked_procs [OF procs a(1,2) _ _ pcb8]) (use f(2) buddy.inv_region [OF inv(1)] in blast)+
      have sched8: "sched_inv ?s8 (q @ [child])"
        by (rule forked_sched [OF sched fl(5-7) pcb8]) (use fl(1) in \<open>simp_all add: sel(4,5)\<close>)
      let ?taken = "page_set (ran tab) \<union> page_set (set (frames_of dl)) \<union> blk 10 child \<union> blk 13 ks \<union> blk 14 us \<union> St"
      have sub: "?taken \<subseteq> F" "F' = F - ?taken" using f(5,10,11) a(2,3,5) by blast+
      have fine: "links_same_outside (F \<union> list_nodes s q cs) (klinks s) (klinks ?s8)"
        using links_same_trans [OF links_same_mono [OF links] links_same_mono [OF fl(8)]] a(2) by simp blast
      have kids8: "clist (klinks ?s8) (children_head p) (map sibling_node zs)"
        if "pcbs s p \<noteq> None" "p \<noteq> current s" "set zs \<subseteq> dom (pcbs s)" "set zs \<inter> set cs = {}"
          "clist (klinks s) (children_head p) (map sibling_node zs)" for p zs
        using clist_frame [OF fine fl(9) [OF that(1-4)]] that(5) by simp
      have eq8: "?s8 = s\<lparr>kheap := kheap ?s8, klinks := klinks ?s8, segs := segs ?s8, mms := mms ?s8, pcbs := pcbs ?s8,
          file_table := file_table ?s8, pids := pids ?s8\<rparr>"
      proof (rule kernel_frame)
        have "satp s4 = satp s" "console s4 = console s" "next_timeout s4 = next_timeout s" by (subst s4, simp add: p(13-15))+
        then show "satp ?s8 = satp s" "console ?s8 = console s" "next_timeout ?s8 = next_timeout s" by (simp_all add: set_pcb_def)
      qed (simp_all add: set_pcb_def sel)
      show ?thesis unfolding run4 sum.case prod.case
      proof (intro exI conjI)
        show "pcbs s child = None" by (rule fl(5))
        show "pcbs ?s8 = (pcbs s)(child \<mapsto> ?b)" by (rule pcb8)
        show "alloc_pid (pids s) = Inr (n, pids ?s8)" using p(5) by (simp add: sel(2))
        show "space R F' ?s8 (mm ?b) root tab dl" using child_space by simp
        show "links_same_outside (F \<union> list_nodes s q cs) (klinks s) (klinks ?s8)" by (rule fine)
        show "?s8 = s\<lparr>kheap := kheap ?s8, klinks := klinks ?s8, segs := segs ?s8, mms := mms ?s8, pcbs := pcbs ?s8,
          file_table := file_table ?s8, pids := pids ?s8\<rparr>" by (rule eq8)
        show "\<forall>p zs. pcbs s p \<noteq> None \<and> p \<noteq> current s \<and> set zs \<subseteq> dom (pcbs s) \<and> set zs \<inter> set cs = {} \<and>
           clist (klinks s) (children_head p) (map sibling_node zs) \<longrightarrow>
           clist (klinks ?s8) (children_head p) (map sibling_node zs)" using kids8 by blast
        show "F' = F - (page_set (ran tab) \<union> page_set (set (frames_of dl)) \<union> blk 10 child \<union> blk 13 (kstack ?b) \<union> blk 14 (ustack ?b) \<union> St)"
          "page_set (ran tab) \<union> page_set (set (frames_of dl)) \<union> blk 10 child \<union> blk 13 (kstack ?b) \<union> blk 14 (ustack ?b) \<union> St \<subseteq> F"
          using sub by simp_all
        show "card St = 32 + 64 * length sl" by (rule f(12))
      qed (use contents f(7,8) copied_stack mem procs8 sched8 fl(2,3) others stores8 in
        \<open>simp_all add: goto_trap_restore_def sel kh set_pcb_def\<close>)
    qed
  qed
qed

end
