(* ===== verification/Fork_Properties.thy ===== *)
theory Fork_Properties
  imports Fork Process_Properties Space_Properties
begin

text \<open>
  The property of \<^verbatim>\<open>sys_fork\<close>: process, address space, stack, open files and lists of the child in one
  statement, with an instance.
\<close>

text \<open>
  C1: \<^verbatim>\<open>sys_fork\<close> returns, and either panics, for which fewer than the given number of blocks of 16 KB
  were free, or makes a process that differs from its parent in its number, its stacks and the 0 it
  returns. The number is the one \<^verbatim>\<open>alloc_pid\<close> gives, and is returned to the parent. The child has the
  parent's registers and open files, each with one more reference for every descriptor, and an address
  space of its own with the same contents, the user stack included. The memory it is made of was free, and
  everything else that was free still is. It is last in the queue and first among the children of its
  parent, has none itself, and is ready. The other processes keep their structs and their lists of children:
  no link changes but in free memory, in the queue and in the list of children of the parent. No other byte
  and no other address space changes, and no other part of the state of the kernel.
\<close>

theorem fork_correct:
  assumes sched: "sched_inv s q" and user: "current s \<noteq> idle s" and cur: "pcbs s (current s) = Some cur"
    and procs: "procs_apart R F s" and len: "length (pids s) = 32"
    and src: "space R F s (mm cur) sroot stab sl" and nodes: "set (mm_segments (mm cur) # seg_nodes sl) \<inter> proc_nodes s = {}"
    and stack: "aligned 14 (ustack cur)" "blk 14 (ustack cur) \<subseteq> R - F"
    and vpns: "take_bit 27 ` set (vpns_of sl) \<inter> take_bit 27 ` set stack_vpns = {}"
    and files: "\<forall>f \<in> set (files cur). f \<noteq> 0 \<longrightarrow> file_table s f \<noteq> None"
    and kids: "clist (klinks s) (children_head (current s)) (map sibling_node cs)" "set cs \<subseteq> dom (pcbs s)"
  shows "case sys_fork img s of
      Inl e \<Rightarrow> e = Panic ''Not enough memory!'' \<and> \<not> blocks_free 14 F (13 + copy_cost sl)
    | Inr (n, s') \<Rightarrow> (\<exists>child b F' root tab dl St.
        pcbs s child = None \<and> pcbs s' = (pcbs s)(child \<mapsto> b) \<and> state b = Ready \<and> parent b = current s \<and>
        alloc_pid (pids s) = Inr (n, pids s') \<and> pid b = n \<and>
        trap_cx b = (trap_cx cur)\<lparr>kernel_sp := kstack b + KERNEL_STACK_SIZE, x_regs := (x_regs (trap_cx cur))[10 := 0]\<rparr> \<and>
        cx_satp (process_cx b) = satp_of root \<and> ra (process_cx b) = restore_entry img \<and>
        sp (process_cx b) = kstack b + KERNEL_STACK_SIZE \<and>
        files b = files cur \<and> file_table s' = referenced (files cur) (file_table s) \<and>
        space R F' s' (mm b) root tab dl \<and> same_contents (kmem s) (kmem s') tab sl dl \<and>
        stack_mapped (kmem s') tab (ustack b) \<and>
        (\<forall>x \<in> blk 14 (ustack b). kmem s' x = kmem s (ustack cur + (x - ustack b))) \<and>
        (\<forall>v. take_bit 27 v \<notin> take_bit 27 ` set (vpns_of sl @ stack_vpns) \<longrightarrow> leaf (kmem s') tab v = 0) \<and>
        page_set (ran tab) \<union> page_set (set (frames_of dl)) \<union> blk 10 child \<union> blk 13 (kstack b) \<union> blk 14 (ustack b) \<union> St \<subseteq> F \<and>
        F' = F - (page_set (ran tab) \<union> page_set (set (frames_of dl)) \<union> blk 10 child \<union> blk 13 (kstack b) \<union> blk 14 (ustack b) \<union> St) \<and>
        card St = 32 + 64 * length sl \<and>
        same_outside F (kmem s) (kmem s') \<and> procs_apart R F' s' \<and>
        (\<forall>m root tab tl. space R F s m root tab tl \<and> set (mm_segments m # seg_nodes tl) \<inter> proc_nodes s = {} \<longrightarrow>
           space R F' s' m root tab tl) \<and>
        sched_inv s' (q @ [child]) \<and>
        clist (klinks s') (children_head (current s)) (map sibling_node (child # cs)) \<and>
        clist (klinks s') (children_head child) [] \<and>
        (\<forall>p zs. pcbs s p \<noteq> None \<and> p \<noteq> current s \<and> set zs \<subseteq> dom (pcbs s) \<and> set zs \<inter> set cs = {} \<and>
           clist (klinks s) (children_head p) (map sibling_node zs) \<longrightarrow>
           clist (klinks s') (children_head p) (map sibling_node zs)) \<and>
        links_same_outside (F \<union> list_nodes s q cs) (klinks s) (klinks s') \<and>
        (\<forall>a. a \<notin> F \<longrightarrow> segs s' a = segs s a \<and> mms s' a = mms s a) \<and>
        s' = s\<lparr>kheap := kheap s', klinks := klinks s', segs := segs s', mms := mms s', pcbs := pcbs s',
          file_table := file_table s', pids := pids s'\<rparr>)"
  by (rule sys_fork_spec [OF assms])

section \<open>A process that forks\<close>

text \<open>
  A megabyte at the end of the memory: two processes and a stack at its start, 32 free blocks of 16 KB,
  and at its end the heap with the address space of \<^verbatim>\<open>demo_map\<close>.
\<close>

definition fork_start :: addr where
  "fork_start = 0xffffffff87f00000"

definition free_start :: addr where
  "free_start = 0xffffffff87f40000"

definition free_end :: addr where
  "free_end = 0xffffffff87fc0000"

abbreviation fork_region :: "addr set" where
  "fork_region \<equiv> {fork_start..<heap_end}"

abbreviation fork_free :: "addr set" where
  "fork_free \<equiv> {free_start..<free_end}"

definition fork_kernel :: "addr \<Rightarrow> vm \<Rightarrow> kernel" where
  "fork_kernel mp s =
     \<lparr>kheap = projr (add_to_buddy (fst (kheap s), init_buddy (snd (kheap s))) free_start free_end),
      klinks = INIT_LIST_HEAD (INIT_LIST_HEAD (klinks s) (run_node fork_start)) (children_head 0xffffffff87f00400),
      segs = segs s, mms = mms s, satp = 0,
      pcbs = [fork_start \<mapsto> demo_pcb 0 Ready,
        0xffffffff87f00400 \<mapsto> (demo_pcb 1 Running)\<lparr>mm := mp, ustack := 0xffffffff87f04000, files := 0xffffffff87f00800 # replicate 15 0\<rparr>],
      file_table = [0xffffffff87f00800 \<mapsto> \<lparr>f_type = FILE_STDIO, f_count = 1, f_off = 0, f_inode = 0\<rparr>],
      pids = 3 # replicate 31 0, current = 0xffffffff87f00400, idle = fork_start, init_proc = 0xffffffff87f00400,
      console = [], next_timeout = 0\<rparr>"

lemma fork_regions: "fork_free \<subseteq> fork_region" "room \<subseteq> fork_region" "room \<inter> fork_free = {}"
  by (auto simp: fork_start_def free_start_def free_end_def room_start_def heap_end_def)

lemma fork_below: "{fork_start..<free_start} \<subseteq> fork_region - fork_free"
  by (auto simp: word_le_nat_alt word_less_nat_alt fork_start_def free_start_def heap_end_def)

lemma fork_window: "in_window fork_region"
proof -
  have "a \<noteq> 0 \<and> pa_of a < 2 ^ 56" if "a \<in> fork_region" for a
  proof -
    have a: "0xffffffff87f00000 \<le> unat a" "unat a < 0xffffffff88000000"
      using that by (simp_all add: fork_start_def heap_end_def word_le_nat_alt word_less_nat_alt)
    then have "unat (pa_of a) = unat a - 0xffffffff00000000"
      by (simp add: pa_of_def KERNEL_MAP_OFFSET_def unat_sub word_le_nat_alt)
    with a show ?thesis by (auto simp: word_less_nat_alt)
  qed
  then show ?thesis by (simp add: in_window_def)
qed

lemma block_interval: "aligned k a \<Longrightarrow> unat l \<le> unat a \<Longrightarrow> unat a + 2 ^ k \<le> unat h \<Longrightarrow> blk k a \<subseteq> {l..<h}"
  using blk_interval [of k a h] by (auto simp: word_le_nat_alt word_less_nat_alt)

lemma fork_blocks_free: "blocks_free 14 fork_free 32"
proof -
  define a :: "nat \<Rightarrow> u64" where "a i = 0xffffffff87f40000 + 0x4000 * of_nat i" for i
  have una: "unat (a i) = 0xffffffff87f40000 + 0x4000 * i" if "i < 32" for i
    using that by (simp add: a_def unat_word_ariths unat_of_nat)
  have al: "aligned 14 (a i)" if "i < 32" for i
    unfolding aligned_nat_dvd una [OF that] by (intro dvd_add) simp_all
  have inj: "inj_on (\<lambda>i. blk 14 (a i)) {..<32}"
  proof (rule inj_onI)
    fix i j assume "i \<in> {..<32 :: nat}" "j \<in> {..<32 :: nat}" and ij: "blk 14 (a i) = blk 14 (a j)"
    then have n: "i < 32" "j < 32" by (simp_all only: lessThan_iff)
    have "a i \<in> blk 14 (a i)" by (rule self_in_blk)
    then have "a i \<in> blk 14 (a j)" unfolding ij .
    with al [OF n(1)] al [OF n(2)] have "a i = a j" by (rule aligned_blk_unique)
    then have "unat (a i) = unat (a j)" by (rule arg_cong)
    then show "i = j" unfolding una [OF n(1)] una [OF n(2)] by linarith
  qed
  have "blk 14 (a i) \<subseteq> fork_free" if "i < 32" for i
    using al [OF that] una [OF that] that by (intro block_interval) (simp_all add: free_start_def free_end_def)
  then show ?thesis using card_image [OF inj] unfolding blocks_free_def
    by (intro exI [of _ "(\<lambda>i. blk 14 (a i)) ` {..<32}"]) auto
qed

text \<open>An address space does not change when the free memory is elsewhere.\<close>

lemma space_moved:
  assumes sp: "space R0 F0 s mp root tab sl" and inv: "buddy_inv R (kheap s') F" "in_window R"
    and R: "R0 \<subseteq> R" "R0 \<inter> F = {}" and same: "same_outside F (fst (kheap s)) (fst (kheap s'))"
    and links: "links_same_outside T (klinks s) (klinks s')" "R0 \<inter> T = {}" and stores: "segs s' = segs s" "mms s' = mms s"
  shows "space R F s' mp root tab sl"
  by (rule space_elsewhere [OF sp inv _ _ same _ links(1)]) (use R links(2) stores in auto)

lemma fork_heap:
  "buddy_inv fork_region (kheap (fork_kernel mp v)) fork_free"
  "same_outside fork_free (fst (kheap v)) (kmem (fork_kernel mp v))"
proof -
  have "free_start \<le> free_end" "free_start \<noteq> 0" "unat free_end - unat free_start < 2 ^ MAX_ORDER"
    "aligned 3 free_start" "aligned 3 free_end"
    by (simp_all add: free_start_def free_end_def MAX_ORDER_def aligned_nat_dvd)
  from init_region_spec [OF this, of "fst (kheap v)" "snd (kheap v)"]
  obtain h where h: "add_to_buddy (fst (kheap v), init_buddy (snd (kheap v))) free_start free_end = Inr h"
    "buddy_inv fork_free h fork_free" "same_outside fork_free (fst (kheap v)) (fst h)" by auto
  have "fits fork_region" by (rule fits_interval) (simp add: fork_start_def heap_end_def MAX_ORDER_def)
  then show "buddy_inv fork_region (kheap (fork_kernel mp v)) fork_free"
    using h(2) fork_regions(1) by (simp add: fork_kernel_def h(1) buddy_inv_def)
  show "same_outside fork_free (fst (kheap v)) (kmem (fork_kernel mp v))" using h(3) by (simp add: fork_kernel_def h(1))
qed

lemma fork_kernel_space:
  assumes "space room F0 v mp root tab sl"
  shows "space fork_region fork_free (fork_kernel mp v) mp root tab sl"
    and "set (mm_segments mp # seg_nodes sl) \<inter> proc_nodes (fork_kernel mp v) = {}"
proof -
  have out: "run_node p \<notin> room \<and> children_head p \<notin> room \<and> sibling_node p \<notin> room"
    if "p = fork_start \<or> p = 0xffffffff87f00400" for p
    using that by (auto simp: run_node_def children_head_def sibling_node_def fork_start_def room_start_def)
  show "space fork_region fork_free (fork_kernel mp v) mp root tab sl"
  proof (rule space_moved [OF assms fork_heap(1) fork_window fork_regions(2,3) fork_heap(2)])
    show "links_same_outside {run_node fork_start, children_head 0xffffffff87f00400} (klinks v) (klinks (fork_kernel mp v))"
      by (simp add: fork_kernel_def links_same_outside_def INIT_LIST_HEAD_def)
    show "room \<inter> {run_node fork_start, children_head 0xffffffff87f00400} = {}" using out by auto
  qed (simp_all add: fork_kernel_def)
  have "proc_nodes (fork_kernel mp v) \<inter> room = {}" using out by (auto simp: proc_nodes_def fork_kernel_def)
  then show "set (mm_segments mp # seg_nodes sl) \<inter> proc_nodes (fork_kernel mp v) = {}" using space_nodes [OF assms] by blast
qed

lemma fork_kernel_ready:
  "sched_inv (fork_kernel mp v) []" "current (fork_kernel mp v) \<noteq> idle (fork_kernel mp v)"
  "procs_apart fork_region fork_free (fork_kernel mp v)" "length (pids (fork_kernel mp v)) = 32"
  "clist (klinks (fork_kernel mp v)) (children_head (current (fork_kernel mp v))) (map sibling_node [])"
proof -
  have "run_node fork_start \<noteq> children_head 0xffffffff87f00400"
    by (simp add: run_node_def children_head_def fork_start_def)
  then show "sched_inv (fork_kernel mp v) []"
    by (auto simp: sched_inv_def run_queue_def fork_kernel_def has_state_def demo_pcb_def clist_def INIT_LIST_HEAD_def
        fork_start_def)
  show "current (fork_kernel mp v) \<noteq> idle (fork_kernel mp v)" by (simp add: fork_kernel_def fork_start_def)
  have "aligned 10 p \<and> blk 10 p \<subseteq> fork_region - fork_free" if "p = fork_start \<or> p = 0xffffffff87f00400" for p
  proof -
    have "aligned 10 p" "unat fork_start \<le> unat p" "unat p + 2 ^ 10 \<le> unat free_start"
      using that by (auto simp: fork_start_def free_start_def aligned_nat_dvd)
    then have "blk 10 p \<subseteq> {fork_start..<free_start}" by (rule block_interval)
    with fork_below show ?thesis using \<open>aligned 10 p\<close> by blast
  qed
  then show "procs_apart fork_region fork_free (fork_kernel mp v)"
    by (auto simp: procs_apart_def fork_kernel_def split: if_splits)
  show "length (pids (fork_kernel mp v)) = 32" by (simp add: fork_kernel_def)
  show "clist (klinks (fork_kernel mp v)) (children_head (current (fork_kernel mp v))) (map sibling_node [])"
    by (simp add: fork_kernel_def)
qed

theorem fork_correct_witness:
  "\<exists>mp v s' child b. demo_map Framed = Inr (mp, v) \<and> sys_fork demo_image (fork_kernel mp v) = Inr (2, s') \<and>
     sched_inv s' [child] \<and> pcbs s' child = Some b \<and> pid b = 2 \<and> x_regs (trap_cx b) ! 10 = 0 \<and>
     file_table s' 0xffffffff87f00800 = Some \<lparr>f_type = FILE_STDIO, f_count = 2, f_off = 0, f_inode = 0\<rparr> \<and>
     clist (klinks s') (children_head 0xffffffff87f00400) [sibling_node child]"
proof -
  obtain mp v F0 root tab sl where d: "demo_map Framed = Inr (mp, v)" "space room F0 v mp root tab sl"
    "\<exists>a p. sl = [(a, demo_segment, [p])]" "copy_cost sl = 4"
    using demo_map_space [of Framed] framed by auto
  let ?s = "fork_kernel mp v" and ?p = "0xffffffff87f00400 :: addr"
  let ?cur = "(demo_pcb 1 Running)\<lparr>mm := mp, ustack := 0xffffffff87f04000, files := 0xffffffff87f00800 # replicate 15 0\<rparr>"
  have cur: "pcbs ?s (current ?s) = Some ?cur" by (simp add: fork_kernel_def)
  have sp: "space fork_region fork_free ?s (mm ?cur) root tab sl"
    "set (mm_segments (mm ?cur) # seg_nodes sl) \<inter> proc_nodes ?s = {}" using fork_kernel_space [OF d(2)] by simp_all
  have stack: "aligned 14 (ustack ?cur)" "blk 14 (ustack ?cur) \<subseteq> fork_region - fork_free"
  proof -
    show al: "aligned 14 (ustack ?cur)" by (simp add: aligned_nat_dvd)
    have "blk 14 (ustack ?cur) \<subseteq> {fork_start..<free_start}"
      using al by (intro block_interval) (simp_all add: fork_start_def free_start_def)
    with fork_below show "blk 14 (ustack ?cur) \<subseteq> fork_region - fork_free" by blast
  qed
  have "vpns_of sl = [0x10]" using d(3) demo_range by auto
  then have vpns: "take_bit 27 ` set (vpns_of sl) \<inter> take_bit 27 ` set stack_vpns = {}" by (simp add: stack_vpns_def)
  have files: "\<forall>f \<in> set (files ?cur). f \<noteq> 0 \<longrightarrow> file_table ?s f \<noteq> None" by (simp add: fork_kernel_def)
  have "set ([] :: addr list) \<subseteq> dom (pcbs ?s)" by simp
  note fc = fork_correct [OF fork_kernel_ready(1,2) cur fork_kernel_ready(3,4) sp stack vpns files fork_kernel_ready(5) this,
      of demo_image]
  have "blocks_free 14 fork_free (13 + copy_cost sl)" using blocks_free_less [OF fork_blocks_free, of 17] d(4) by simp
  with fc obtain r where "sys_fork demo_image ?s = Inr r" by (cases "sys_fork demo_image ?s") auto
  then obtain n s' where r: "sys_fork demo_image ?s = Inr (n, s')" by (cases r) auto
  obtain child b where c: "pcbs s' = (pcbs ?s)(child \<mapsto> b)" "alloc_pid (pids ?s) = Inr (n, pids s')" "pid b = n"
    "trap_cx b = (trap_cx ?cur)\<lparr>kernel_sp := kstack b + KERNEL_STACK_SIZE, x_regs := (x_regs (trap_cx ?cur))[10 := 0]\<rparr>"
    "file_table s' = referenced (files ?cur) (file_table ?s)" "sched_inv s' ([] @ [child])"
    "clist (klinks s') (children_head (current ?s)) (map sibling_node [child])"
    using fc unfolding r sum.case prod.case by blast
  have "alloc_pid (pids ?s) = Inr (2, 7 # replicate 31 0)"
    unfolding alloc_pid_def by (subst alloc_pid_from.simps) (simp add: fork_kernel_def MAX_PID_def upt_rec)
  then have n: "n = 2" using c(2) by simp
  have "count_list (filter (\<lambda>f. f \<noteq> 0) (files ?cur)) 0xffffffff87f00800 = 1" by simp
  then have "file_table s' 0xffffffff87f00800 = Some \<lparr>f_type = FILE_STDIO, f_count = 2, f_off = 0, f_inode = 0\<rparr>"
    unfolding c(5) referenced_def by (simp add: fork_kernel_def)
  moreover have "x_regs (trap_cx b) ! 10 = 0" by (simp add: c(4) demo_pcb_def)
  moreover have "current ?s = ?p" by (simp add: fork_kernel_def)
  ultimately show ?thesis using d(1) r c(1,3,6,7) n by (intro exI [of _ mp] exI [of _ v] exI [of _ s'] exI [of _ child] exI [of _ b]) simp
qed

end
