(* ===== verification/Mkfs.thy ===== *)
theory Mkfs
  imports Fs
begin

text \<open>
  \<^verbatim>\<open>tool/mkfs.c\<close>: the program that packs a directory into the image the kernel is linked with.
  What \<^verbatim>\<open>readdir\<close>, \<^verbatim>\<open>stat\<close> and \<^verbatim>\<open>fread\<close> supply is the listing of the directory: names, whether
  an entry is a regular file, and the bytes of the file, whose number is the size \<^verbatim>\<open>stat\<close>
  gives. The memory of the program is a map from addresses to bytes, and \<^verbatim>\<open>Image\<close> is an address
  in it. Files have less than two gigabytes.
\<close>

record dir_entry =
  d_name :: "u8 list"
  is_regular :: bool
  file_data :: "u8 list"

text \<open>The image being built and the variable \<^verbatim>\<open>unused_blocks\<close>.\<close>

record maker =
  image_mem :: mem
  unused :: int

definition MAGIC_NUM :: u32 where "MAGIC_NUM = 0x4D534653"
definition IMG_SIZE :: nat where "IMG_SIZE = BLOCK_SIZE * BLOCK_NUM"

definition image_block :: "addr \<Rightarrow> int \<Rightarrow> addr" where
  "image_block img block = img + word_of_int (block * int BLOCK_SIZE)"

definition image_inode :: "addr \<Rightarrow> int \<Rightarrow> addr" where
  "image_inode img idx = image_block img idx"

section \<open>Allocation\<close>

function take_block_from :: "addr \<Rightarrow> maker \<Rightarrow> nat \<Rightarrow> int \<times> maker" where
  "take_block_from img st i =
     (if i < BLOCK_NUM then
        (let p = image_block img 1 + 4 * of_nat (i div 32);
             w = load32 (image_mem st) p in
         if w AND push_bit (i mod 32) 1 = 0
         then (int i, st\<lparr>image_mem := store32 (image_mem st) p (w OR push_bit (i mod 32) 1),
                         unused := unused st - 1\<rparr>)
         else take_block_from img st (i + 1))
      else (-1, st))"
  by pat_completeness auto
termination
  by (relation "measure (\<lambda>(img, st, i). BLOCK_NUM - i)") auto

declare take_block_from.simps [simp del]

definition make_block :: "addr \<Rightarrow> maker \<Rightarrow> int \<times> maker" where
  "make_block img st = take_block_from img st 0"

function make_inode_from :: "addr \<Rightarrow> maker \<Rightarrow> nat \<Rightarrow> int \<times> maker" where
  "make_inode_from img st i =
     (if i < FAT_LEN then
        (let p = image_block img 2 + 2 * of_nat i in
         if load16 (image_mem st) p = 0 then
           (let (inode, st) = make_block img st in
            if inode \<noteq> -1
            then (inode, st\<lparr>image_mem := store16 (image_mem st) p (word_of_int inode)\<rparr>)
            else (inode, st))
         else make_inode_from img st (i + 1))
      else (-1, st))"
  by pat_completeness auto
termination
  by (relation "measure (\<lambda>(img, st, i). FAT_LEN - i)") auto

declare make_inode_from.simps [simp del]

definition make_inode :: "addr \<Rightarrow> maker \<Rightarrow> int \<times> maker" where
  "make_inode img st = make_inode_from img st 0"

section \<open>Entering a block into an inode\<close>

text \<open>The first place that is zero, in the inode and then in the indirect block.\<close>

definition put_direct :: "mem \<Rightarrow> addr \<Rightarrow> int \<Rightarrow> mem option" where
  "put_direct m inode block =
     (case find (\<lambda>i. load16 m (i_direct inode i) = 0) [0..<12] of
        Some i \<Rightarrow> Some (store16 m (i_direct inode i) (word_of_int block))
      | None \<Rightarrow> None)"

definition put_indirect :: "mem \<Rightarrow> addr \<Rightarrow> int \<Rightarrow> mem" where
  "put_indirect m indirect block =
     (case find (\<lambda>i. load32 m (indirect + 4 * of_nat i) = 0) [0..<INDIRECT_LEN] of
        Some i \<Rightarrow> store32 m (indirect + 4 * of_nat i) (word_of_int block)
      | None \<Rightarrow> m)"

definition put_block :: "addr \<Rightarrow> maker \<Rightarrow> int \<Rightarrow> addr \<Rightarrow> maker" where
  "put_block img st block inode =
     (case put_direct (image_mem st) inode block of
        Some m \<Rightarrow> st\<lparr>image_mem := m\<rparr>
      | None \<Rightarrow>
          (let st = (if load16 (image_mem st) (i_indirect inode) = 0 then
                       (let (b, st) = make_block img st
                        in st\<lparr>image_mem := store16 (image_mem st) (i_indirect inode) (word_of_int b)\<rparr>)
                     else st);
               indirect = image_block img (uint (load16 (image_mem st) (i_indirect inode)))
           in st\<lparr>image_mem := put_indirect (image_mem st) indirect block\<rparr>))"

section \<open>Packing the directory\<close>

text \<open>Bytes stored at an address: a \<^verbatim>\<open>strcpy\<close> of a name, or a \<^verbatim>\<open>fread\<close>.\<close>

definition write_bytes :: "mem \<Rightarrow> addr \<Rightarrow> u8 list \<Rightarrow> mem" where
  "write_bytes m a bs = (\<lambda>x. if unat (x - a) < length bs then bs ! unat (x - a) else m x)"

function pack_data :: "addr \<Rightarrow> maker \<Rightarrow> addr \<Rightarrow> u8 list \<Rightarrow> nat \<Rightarrow> maker" where
  "pack_data img st inode data n =
     (if n < length data then
        (let (block, st) = make_block img st;
             len = min (length data - n) BLOCK_SIZE;
             st = st\<lparr>image_mem := write_bytes (image_mem st) (image_block img block) (take len (drop n data))\<rparr>
         in pack_data img (put_block img st block inode) inode data (n + len))
      else st)"
  by pat_completeness auto
termination
  by (relation "measure (\<lambda>(img, st, inode, data, n). length data - n)") (auto simp: BLOCK_SIZE_def)

declare pack_data.simps [simp del]

text \<open>
  One regular file: its inode, name and sizes, and its data. The number of blocks is computed with
  unsigned arithmetic, so that it wraps for an empty file.
\<close>

definition pack_file :: "addr \<Rightarrow> maker \<Rightarrow> dir_entry \<Rightarrow> maker" where
  "pack_file img st entry =
     (let (idx, st) = make_inode img st;
          inode = image_inode img idx;
          m = write_bytes (image_mem st) (i_filename inode) (d_name entry @ [0]);
          m = store32 m (i_size inode) (of_nat (length (file_data entry)));
          m = store16 m (i_blocks inode) (ucast ((load32 m (i_size inode) - 1) div of_nat BLOCK_SIZE + 1))
      in pack_data img (st\<lparr>image_mem := m\<rparr>) inode (file_data entry) 0)"

definition dot_names :: "u8 list list" where
  "dot_names = [map of_char ''.'', map of_char ''..'']"

fun pack_directory :: "addr \<Rightarrow> maker \<Rightarrow> dir_entry list \<Rightarrow> maker" where
  "pack_directory img st [] = st"
| "pack_directory img st (entry # es) =
     (if d_name entry \<in> set dot_names then pack_directory img st es
      else if is_regular entry then pack_directory img (pack_file img st entry) es
      else pack_directory img st es)"

section \<open>The program\<close>

text \<open>The image before the directory is read: three blocks are taken, or the program stops.\<close>

definition reserve_blocks :: "addr \<Rightarrow> maker \<Rightarrow> maker option" where
  "reserve_blocks img st =
     (let (a, st) = make_block img st in
      if a \<noteq> 0 then None
      else let (b, st) = make_block img st in
      if b \<noteq> 1 then None
      else let (c, st) = make_block img st in
      if c \<noteq> 2 then None else Some st)"

definition fill_superblock :: "addr \<Rightarrow> maker \<Rightarrow> mem" where
  "fill_superblock img st =
     (let sb = image_block img 0;
          m = store32 (image_mem st) sb MAGIC_NUM;
          m = store16 m (sb + 4) (of_nat BLOCK_NUM)
      in store16 m (sb + 6) (word_of_int (unused st)))"

definition mkfs :: "addr \<Rightarrow> mem \<Rightarrow> dir_entry list \<Rightarrow> mem option" where
  "mkfs img m rootfs =
     (let m = (\<lambda>x. if unat (x - img) < IMG_SIZE then 0 else m x) in
      case reserve_blocks img \<lparr>image_mem = m, unused = int BLOCK_NUM\<rparr> of
        None \<Rightarrow> None
      | Some st \<Rightarrow> Some (fill_superblock img (pack_directory img st rootfs)))"

end
