(* ===== verification/Fs_Layout.thy ===== *)
theory Fs_Layout
  imports Fs
begin

text \<open>
  The image of the file system as a range of offsets: every field and block at its offset from the
  start of the image, which is anywhere in memory, and the values of the fields as natural numbers.
\<close>

section \<open>Ranges of the image\<close>

definition span :: "addr \<Rightarrow> nat \<Rightarrow> nat \<Rightarrow> addr set" where
  "span img n k = {x. n \<le> unat (x - img) \<and> unat (x - img) < n + k}"

definition IMAGE_SIZE :: nat where
  "IMAGE_SIZE = BLOCK_SIZE * BLOCK_NUM"

abbreviation image_span :: "addr \<Rightarrow> addr set" where
  "image_span img \<equiv> span img 0 (2 ^ 20)"

lemma span_disjoint: "a + k \<le> b \<or> b + l \<le> a \<Longrightarrow> span img a k \<inter> span img b l = {}"
  by (auto simp: span_def)

lemma span_subset: "b \<le> a \<Longrightarrow> a + k \<le> b + l \<Longrightarrow> span img a k \<subseteq> span img b l"
  by (auto simp: span_def)

lemma unat_diff_offset:
  assumes "n < 2 ^ 64"
  shows "unat (x - (p + of_nat n :: u64)) =
    (if n \<le> unat (x - p) then unat (x - p) - n else unat (x - p) + 2 ^ 64 - n)"
proof -
  define y where "y = x - p"
  have xy: "x - (p + of_nat n) = y - of_nat n" by (simp add: y_def)
  have "unat (of_nat n :: u64) = n" using assms by (simp add: unat_of_nat)
  then show ?thesis unfolding xy y_def [symmetric] by (simp add: unat_sub_if')
qed

lemma unat_less_64 [simp]: "unat (x :: u64) < 2 ^ 64"
  using unsigned_less [of x, where ?'a = nat] by simp

lemma bytes_at_span:
  assumes "n + k \<le> 2 ^ 64" and "0 < k"
  shows "bytes_at (img + of_nat n) k = span img n k"
proof (rule set_eqI)
  fix x
  define y where "y = unat (x - img)"
  have "y < 2 ^ 64" by (simp only: y_def unat_less_64)
  then show "x \<in> bytes_at (img + of_nat n) k \<longleftrightarrow> x \<in> span img n k"
    using assms unat_diff_offset [of n x img, folded y_def]
    by (auto simp: bytes_at_def span_def y_def [symmetric])
qed

lemma bytes_at_split:
  assumes "a + b \<le> 2 ^ 64"
  shows "bytes_at p (a + b) = bytes_at p a \<union> bytes_at (p + of_nat a) b"
proof (cases "a = 2 ^ 64")
  case True
  with assms show ?thesis by (simp add: bytes_at_def)
next
  case False
  show ?thesis
  proof (rule set_eqI)
    fix x
    define y where "y = unat (x - p)"
    have "y < 2 ^ 64" by (simp only: y_def unat_less_64)
    then show "x \<in> bytes_at p (a + b) \<longleftrightarrow> x \<in> bytes_at p a \<union> bytes_at (p + of_nat a) b"
      using assms False unat_diff_offset [of a x p, folded y_def]
      by (auto simp: bytes_at_def y_def [symmetric])
  qed
qed

lemma offset_in_span: "n + i < 2 ^ 64 \<Longrightarrow> i < k \<Longrightarrow> img + of_nat (n + i) \<in> span img n k"
proof -
  assume "n + i < 2 ^ 64" "i < k"
  then have "unat (of_nat (n + i) :: u64) = n + i" by (simp only: unat_of_nat) simp
  with \<open>i < k\<close> show ?thesis by (simp add: span_def del: of_nat_add)
qed

lemma load_frame_span:
  assumes "same_outside S m m'" and "span img n k \<inter> S = {}" and "n + k \<le> 2 ^ 64"
  shows "load_bytes k m' (img + of_nat n) = load_bytes k m (img + of_nat n)"
proof (cases "k = 0")
  case False
  with assms show ?thesis by (intro load_bytes_frame [OF assms(1)]) (simp_all add: bytes_at_span)
qed (simp add: load_bytes_def)

lemma same_outside_store_span:
  "n + k \<le> 2 ^ 64 \<Longrightarrow> 0 < k \<Longrightarrow> same_outside (span img n k) m (store_bytes k m (img + of_nat n) v)"
  using same_outside_store [of "img + of_nat n" k m v] by (simp add: bytes_at_span)

section \<open>Fields\<close>

lemma get_block_nat: "get_block img (int b) = img + of_nat (512 * b)"
  by (simp add: get_block_def mult.commute)

lemma field_offsets:
  "sb_unused img = img + of_nat 6"
  "freemap img i = img + of_nat (512 + 4 * i)"
  "fat img i = img + of_nat (1024 + 2 * i)"
  "i_size (get_inode img (int n)) = img + of_nat (512 * n)"
  "i_blocks (get_inode img (int n)) = img + of_nat (512 * n + 36)"
  "i_direct (get_inode img (int n)) i = img + of_nat (512 * n + 38 + 2 * i)"
  "i_indirect (get_inode img (int n)) = img + of_nat (512 * n + 62)"
  "i_filename (get_inode img (int n)) = img + of_nat (512 * n + 4)"
  using get_block_nat [of img 0] get_block_nat [of img 1] get_block_nat [of img 2] get_block_nat [of img n]
  by (simp_all add: sb_unused_def freemap_def fat_def i_size_def i_blocks_def i_direct_def i_indirect_def
      i_filename_def get_inode_def)

text \<open>The values of the fields.\<close>

definition unused_blocks :: "addr \<Rightarrow> mem \<Rightarrow> nat" where
  "unused_blocks img m = unat (load16 m (sb_unused img))"

definition block_used :: "addr \<Rightarrow> mem \<Rightarrow> nat \<Rightarrow> bool" where
  "block_used img m b \<longleftrightarrow> bit (load32 m (freemap img (b div 32))) (b mod 32)"

definition fat_entry :: "addr \<Rightarrow> mem \<Rightarrow> nat \<Rightarrow> nat" where
  "fat_entry img m i = unat (load16 m (fat img i))"

definition file_size :: "addr \<Rightarrow> mem \<Rightarrow> nat \<Rightarrow> nat" where
  "file_size img m n = unat (load32 m (i_size (get_inode img (int n))))"

definition file_blocks :: "addr \<Rightarrow> mem \<Rightarrow> nat \<Rightarrow> nat" where
  "file_blocks img m n = unat (load16 m (i_blocks (get_inode img (int n))))"

definition direct_entry :: "addr \<Rightarrow> mem \<Rightarrow> nat \<Rightarrow> nat \<Rightarrow> nat" where
  "direct_entry img m n i = unat (load16 m (i_direct (get_inode img (int n)) i))"

definition indirect_block :: "addr \<Rightarrow> mem \<Rightarrow> nat \<Rightarrow> nat" where
  "indirect_block img m n = unat (load16 m (i_indirect (get_inode img (int n))))"

definition table_entry :: "addr \<Rightarrow> mem \<Rightarrow> nat \<Rightarrow> nat \<Rightarrow> nat" where
  "table_entry img m b i = unat (load32 m (get_block img (int b) + 4 * of_nat i))"

lemma table_offset: "get_block img (int b) + 4 * of_nat i = img + of_nat (512 * b + 4 * i)"
  by (simp add: get_block_nat)

text \<open>A change outside the place of a field leaves it alone.\<close>

lemma field_frame:
  assumes "same_outside S m m'"
  shows "span img 6 2 \<inter> S = {} \<Longrightarrow> unused_blocks img m' = unused_blocks img m"
    and "b < BLOCK_NUM \<Longrightarrow> span img 512 256 \<inter> S = {} \<Longrightarrow> block_used img m' b = block_used img m b"
    and "i < FAT_LEN \<Longrightarrow> span img 1024 512 \<inter> S = {} \<Longrightarrow> fat_entry img m' i = fat_entry img m i"
    and "n < BLOCK_NUM \<Longrightarrow> span img (512 * n) 4 \<inter> S = {} \<Longrightarrow> file_size img m' n = file_size img m n"
    and "n < BLOCK_NUM \<Longrightarrow> span img (512 * n + 36) 2 \<inter> S = {} \<Longrightarrow> file_blocks img m' n = file_blocks img m n"
    and "n < BLOCK_NUM \<Longrightarrow> i < 12 \<Longrightarrow> span img (512 * n + 38 + 2 * i) 2 \<inter> S = {} \<Longrightarrow>
      direct_entry img m' n i = direct_entry img m n i"
    and "n < BLOCK_NUM \<Longrightarrow> span img (512 * n + 62) 2 \<inter> S = {} \<Longrightarrow>
      indirect_block img m' n = indirect_block img m n"
    and "b < BLOCK_NUM \<Longrightarrow> i < 128 \<Longrightarrow> span img (512 * b + 4 * i) 4 \<inter> S = {} \<Longrightarrow>
      table_entry img m' b i = table_entry img m b i"
proof -
  note lf = load_frame_span [OF assms]
  show "span img 6 2 \<inter> S = {} \<Longrightarrow> unused_blocks img m' = unused_blocks img m"
    by (simp only: unused_blocks_def field_offsets) (simp add: lf [of img 6 2, simplified])
  show "block_used img m' b = block_used img m b" if "b < BLOCK_NUM" "span img 512 256 \<inter> S = {}"
  proof -
    have "span img (512 + 4 * (b div 32)) 4 \<subseteq> span img 512 256"
      using that(1) by (intro span_subset) (auto simp: BLOCK_NUM_def)
    with that show ?thesis
      by (simp only: block_used_def field_offsets) (subst lf, auto simp: BLOCK_NUM_def)
  qed
  show "fat_entry img m' i = fat_entry img m i" if "i < FAT_LEN" "span img 1024 512 \<inter> S = {}"
  proof -
    have "span img (1024 + 2 * i) 2 \<subseteq> span img 1024 512"
      using that(1) by (intro span_subset) (auto simp: FAT_LEN_def)
    with that show ?thesis
      by (simp only: fat_entry_def field_offsets) (subst lf, auto simp: FAT_LEN_def)
  qed
  show "n < BLOCK_NUM \<Longrightarrow> span img (512 * n) 4 \<inter> S = {} \<Longrightarrow> file_size img m' n = file_size img m n"
    by (simp only: file_size_def field_offsets) (subst lf, auto simp: BLOCK_NUM_def)
  show "n < BLOCK_NUM \<Longrightarrow> span img (512 * n + 36) 2 \<inter> S = {} \<Longrightarrow> file_blocks img m' n = file_blocks img m n"
    by (simp only: file_blocks_def field_offsets) (subst lf, auto simp: BLOCK_NUM_def)
  show "n < BLOCK_NUM \<Longrightarrow> i < 12 \<Longrightarrow> span img (512 * n + 38 + 2 * i) 2 \<inter> S = {} \<Longrightarrow>
      direct_entry img m' n i = direct_entry img m n i"
    by (simp only: direct_entry_def field_offsets) (subst lf, auto simp: BLOCK_NUM_def)
  show "n < BLOCK_NUM \<Longrightarrow> span img (512 * n + 62) 2 \<inter> S = {} \<Longrightarrow>
      indirect_block img m' n = indirect_block img m n"
    by (simp only: indirect_block_def field_offsets) (subst lf, auto simp: BLOCK_NUM_def)
  show "b < BLOCK_NUM \<Longrightarrow> i < 128 \<Longrightarrow> span img (512 * b + 4 * i) 4 \<inter> S = {} \<Longrightarrow>
      table_entry img m' b i = table_entry img m b i"
    by (simp only: table_entry_def table_offset) (subst lf, auto simp: BLOCK_NUM_def)
qed

end
