(* ===== verification/Fs_Alloc.thy ===== *)
theory Fs_Alloc
  imports Fs_Layout
begin

text \<open>
  Blocks and inodes are taken in the order of the bitmap and of the table: what \<^verbatim>\<open>alloc_free_block\<close>
  and \<^verbatim>\<open>alloc_inode\<close> return, and what they leave alone.
\<close>

section \<open>The bitmap\<close>

definition mark_block :: "addr \<Rightarrow> mem \<Rightarrow> nat \<Rightarrow> mem" where
  "mark_block img m b =
     store32 m (freemap img (b div 32)) (load32 m (freemap img (b div 32)) OR push_bit (b mod 32) 1)"

text \<open>The places \<^verbatim>\<open>alloc_free_block\<close> writes.\<close>

definition alloc_span :: "addr \<Rightarrow> addr set" where
  "alloc_span img = span img 6 2 \<union> span img 512 256"

definition free_blocks :: "addr \<Rightarrow> mem \<Rightarrow> nat set" where
  "free_blocks img m = {b. b < BLOCK_NUM \<and> \<not> block_used img m b}"

text \<open>The superblock counts the free blocks of the bitmap.\<close>

definition bitmap_ok :: "addr \<Rightarrow> mem \<Rightarrow> bool" where
  "bitmap_ok img m \<longleftrightarrow> unused_blocks img m = card (free_blocks img m)"

lemma finite_free_blocks [simp]: "finite (free_blocks img m)"
  by (simp add: free_blocks_def)

lemma word_bit_0_iff: "(w :: 'a::len word) AND push_bit j 1 = 0 \<longleftrightarrow> \<not> bit w j"
proof
  assume "w AND push_bit j 1 = 0"
  then have "\<not> bit (w AND push_bit j 1) j" by simp
  then show "\<not> bit w j" by (auto simp: bit_simps dest: bit_imp_le_length)
qed (auto simp: bit_simps intro!: bit_word_eqI)

lemma scan_freemap_find:
  "scan_freemap img m i =
     (case find (\<lambda>b. \<not> block_used img m b) [i..<BLOCK_NUM] of
        None \<Rightarrow> (-1, m) | Some b \<Rightarrow> (int b, mark_block img m b))"
proof (induction "BLOCK_NUM - i" arbitrary: i)
  case 0
  then show ?case by (subst scan_freemap.simps) simp
next
  case (Suc d)
  then have i: "i < BLOCK_NUM" by simp
  have used: "load32 m (freemap img (i div 32)) AND push_bit (i mod 32) 1 = 0 \<longleftrightarrow> \<not> block_used img m i"
    by (simp add: block_used_def word_bit_0_iff del: push_bit_of_1)
  show ?case
  proof (cases "block_used img m i")
    case True
    then have "scan_freemap img m i = scan_freemap img m (i + 1)"
      using i used by (subst scan_freemap.simps) (simp add: Let_def del: push_bit_of_1)
    with True Suc.hyps(1) [of "i + 1"] Suc.hyps(2) i show ?thesis by (simp add: upt_rec)
  next
    case False
    then show ?thesis
      using i used by (subst scan_freemap.simps) (simp add: Let_def upt_rec mark_block_def del: push_bit_of_1)
  qed
qed

lemma mark_block_same:
  assumes "b < BLOCK_NUM"
  shows "same_outside (span img 512 256) m (mark_block img m b)"
proof -
  have "b div 32 < 64" using assms by (auto simp: BLOCK_NUM_def)
  then have "span img (512 + 4 * (b div 32)) 4 \<subseteq> span img 512 256" by (intro span_subset) auto
  moreover have "same_outside (span img (512 + 4 * (b div 32)) 4) m (mark_block img m b)"
    unfolding mark_block_def field_offsets
    by (rule same_outside_store_span) (use \<open>b div 32 < 64\<close> in simp_all)
  ultimately show ?thesis by (blast intro: same_outside_mono)
qed

lemma mark_block_used:
  assumes "b < BLOCK_NUM" and "c < BLOCK_NUM"
  shows "block_used img (mark_block img m b) c \<longleftrightarrow> c = b \<or> block_used img m c"
proof (cases "c div 32 = b div 32")
  case True
  then have "c mod 32 = b mod 32 \<longleftrightarrow> c = b" by (metis div_mod_decomp)
  then show ?thesis
    using True by (auto simp: block_used_def mark_block_def bit_simps)
next
  case False
  have "span img (512 + 4 * (c div 32)) 4 \<inter> span img (512 + 4 * (b div 32)) 4 = {}"
    using False by (intro span_disjoint) auto
  then have "load32 (mark_block img m b) (freemap img (c div 32)) = load32 m (freemap img (c div 32))"
    using assms unfolding mark_block_def field_offsets
    by (intro load_frame_span [OF same_outside_store_span]) (auto simp: BLOCK_NUM_def)
  with False show ?thesis by (auto simp: block_used_def)
qed

lemma free_blocks_mark: "b < BLOCK_NUM \<Longrightarrow> free_blocks img (mark_block img m b) = free_blocks img m - {b}"
  by (auto simp: free_blocks_def mark_block_used)

lemma find_upt:
  "find P [0..<n] = (if \<exists>k < n. P k then Some (LEAST k. P k) else None)"
proof (cases "find P [0..<n]")
  case None
  then show ?thesis by (auto simp: find_None_iff)
next
  case (Some k)
  then have k: "k < n" "P k" "\<forall>j < k. \<not> P j"
    by (auto simp: find_Some_iff)
  then have "(LEAST k. P k) = k" by (metis Least_equality linorder_not_less)
  with Some k show ?thesis by auto
qed

lemma alloc_free_block_spec:
  assumes "bitmap_ok img m"
  shows "if free_blocks img m = {} then alloc_free_block img m = (-1, m)
    else \<exists>m'. alloc_free_block img m = (int (Min (free_blocks img m)), m') \<and> bitmap_ok img m' \<and>
      free_blocks img m' = free_blocks img m - {Min (free_blocks img m)} \<and> same_outside (alloc_span img) m m'"
proof (cases "free_blocks img m = {}")
  case True
  then have "unused_blocks img m = 0" using assms by (simp add: bitmap_ok_def)
  with True show ?thesis by (simp add: alloc_free_block_def unused_blocks_def unat_eq_0)
next
  case False
  define b where "b = Min (free_blocks img m)"
  define m1 where "m1 = store16 m (sb_unused img) (load16 m (sb_unused img) - 1)"
  have b: "b \<in> free_blocks img m" "\<forall>c \<in> free_blocks img m. b \<le> c" using False by (simp_all add: b_def)
  have un: "0 < unused_blocks img m" using assms False by (simp add: bitmap_ok_def card_gt_0_iff)
  have s1: "same_outside (span img 6 2) m m1"
    unfolding m1_def field_offsets by (rule same_outside_store_span) simp_all
  have "span img 512 256 \<inter> span img 6 2 = {}" by (rule span_disjoint) simp
  then have used1: "block_used img m1 c = block_used img m c" if "c < BLOCK_NUM" for c
    using field_frame(2) [OF s1 that] by simp
  then have fr1: "free_blocks img m1 = free_blocks img m" by (auto simp: free_blocks_def)
  have bn: "b < BLOCK_NUM" using b(1) by (simp add: free_blocks_def)
  have "(LEAST k. \<not> block_used img m1 k) = b"
  proof (rule Least_equality)
    show "\<not> block_used img m1 b" using b(1) fr1 by (auto simp: free_blocks_def)
    show "b \<le> c" if "\<not> block_used img m1 c" for c
      using b(2) that bn fr1 by (cases "c < BLOCK_NUM") (auto simp: free_blocks_def)
  qed
  then have "find (\<lambda>c. \<not> block_used img m1 c) [0..<BLOCK_NUM] = Some b"
    using b(1) fr1 by (auto simp: find_upt free_blocks_def)
  then have r: "alloc_free_block img m = (int b, mark_block img m1 b)"
    using un by (simp add: alloc_free_block_def m1_def [symmetric] scan_freemap_find unused_blocks_def Let_def)
      (auto simp: unat_eq_0)
  have s2: "same_outside (span img 512 256) m1 (mark_block img m1 b)" by (rule mark_block_same [OF bn])
  have fr: "free_blocks img (mark_block img m1 b) = free_blocks img m - {b}"
    using free_blocks_mark [OF bn] fr1 by simp
  have "span img 6 2 \<inter> span img 512 256 = {}" by (rule span_disjoint) simp
  then have "unused_blocks img (mark_block img m1 b) = unused_blocks img m1" by (rule field_frame(1) [OF s2])
  also have "\<dots> = unused_blocks img m - 1"
    using un by (simp add: unused_blocks_def m1_def unat_minus_one unat_eq_0 unat_gt_0)
  also have "\<dots> = card (free_blocks img m - {b})" using assms b(1) by (simp add: bitmap_ok_def)
  finally have ok: "bitmap_ok img (mark_block img m1 b)" by (simp add: bitmap_ok_def fr)
  have "same_outside (alloc_span img) m (mark_block img m1 b)"
    using same_outside_mono [OF s1, of "alloc_span img"] same_outside_mono [OF s2, of "alloc_span img"]
    by (auto simp: alloc_span_def intro: same_outside_trans)
  with False r ok fr show ?thesis by (simp add: b_def [symmetric])
qed

section \<open>The contract of block allocation\<close>

text \<open>
  An allocator that hands out the least free block. Its client sees the free blocks of a state and
  an invariant; the kernel provides it here, \<^verbatim>\<open>tool/mkfs.c\<close> provides it too.
\<close>

fun grab_many :: "('s \<Rightarrow> int \<times> 's) \<Rightarrow> nat \<Rightarrow> 's \<Rightarrow> int list \<times> 's" where
  "grab_many grab 0 s = ([], s)"
| "grab_many grab (Suc n) s =
     (let (b, s) = grab s; (bs, s) = grab_many grab n s in (b # bs, s))"

locale first_fit =
  fixes grab :: "'s \<Rightarrow> int \<times> 's"
    and free :: "'s \<Rightarrow> nat set"
    and ok :: "'s \<Rightarrow> bool"
  assumes free_finite: "ok s \<Longrightarrow> finite (free s)"
    and grab_full: "ok s \<Longrightarrow> free s = {} \<Longrightarrow> grab s = (-1, s)"
    and grab_least: "ok s \<Longrightarrow> free s \<noteq> {} \<Longrightarrow>
      \<exists>s'. grab s = (int (Min (free s)), s') \<and> ok s' \<and> free s' = free s - {Min (free s)}"
begin

text \<open>Several allocations in a row yield the least free blocks in increasing order.\<close>

lemma grab_many_sorted:
  "ok s \<Longrightarrow> n \<le> card (free s) \<Longrightarrow>
    \<exists>s'. grab_many grab n s = (map int (take n (sorted_list_of_set (free s))), s') \<and> ok s' \<and>
      free s' = free s - set (take n (sorted_list_of_set (free s)))"
proof (induction n arbitrary: s)
  case 0
  then show ?case by simp
next
  case (Suc n)
  have fin: "finite (free s)" and ne: "free s \<noteq> {}" using free_finite [OF Suc.prems(1)] Suc.prems(2) by auto
  let ?b = "Min (free s)"
  obtain s1 where s1: "grab s = (int ?b, s1)" "ok s1" "free s1 = free s - {?b}"
    using grab_least [OF Suc.prems(1) ne] by blast
  have sl: "sorted_list_of_set (free s) = ?b # sorted_list_of_set (free s1)"
    unfolding s1(3) using sorted_list_of_set_nonempty [OF fin ne] by simp
  have "card (free s1) = card (free s) - 1" using fin ne s1(3) by simp
  then have "n \<le> card (free s1)" using Suc.prems(2) by simp
  then obtain s2 where s2: "grab_many grab n s1 = (map int (take n (sorted_list_of_set (free s1))), s2)" "ok s2"
    "free s2 = free s1 - set (take n (sorted_list_of_set (free s1)))"
    using Suc.IH [OF s1(2)] by blast
  then show ?case using s1 by (auto simp: sl)
qed

lemma grab_exhausted:
  assumes "ok s" and "grab_many grab (card (free s)) s = (bs, s')"
  shows "grab s' = (-1, s')"
proof -
  obtain s'' where "grab_many grab (card (free s)) s = (map int (take (card (free s)) (sorted_list_of_set (free s))), s'')"
    "ok s''" "free s'' = free s - set (take (card (free s)) (sorted_list_of_set (free s)))"
    using grab_many_sorted [OF assms(1) order_refl] by blast
  moreover have "set (take (card (free s)) (sorted_list_of_set (free s))) = free s"
    using free_finite [OF assms(1)] by (simp add: sorted_list_of_set.set_sorted_key_list_of_set)
  ultimately show ?thesis using assms(2) grab_full by auto
qed

end

interpretation kblocks: first_fit "alloc_free_block img" "free_blocks img" "bitmap_ok img" for img
proof unfold_locales
  fix m assume ok: "bitmap_ok img m"
  show "finite (free_blocks img m)" by simp
  show "alloc_free_block img m = (-1, m)" if "free_blocks img m = {}"
    using alloc_free_block_spec [OF ok] that by simp
  show "\<exists>m'. alloc_free_block img m = (int (Min (free_blocks img m)), m') \<and> bitmap_ok img m' \<and>
      free_blocks img m' = free_blocks img m - {Min (free_blocks img m)}" if "free_blocks img m \<noteq> {}"
    using alloc_free_block_spec [OF ok] that by auto
qed

section \<open>The table of inodes\<close>

lemma scan_fat_find:
  "scan_fat img m i =
     (case find (\<lambda>j. fat_entry img m j = 0) [i..<FAT_LEN] of
        None \<Rightarrow> (-1, m)
      | Some j \<Rightarrow> (case alloc_free_block img m of
          (n, m') \<Rightarrow> if n = -1 then (-1, m') else (n, store16 m' (fat img j) (word_of_int n))))"
proof (induction "FAT_LEN - i" arbitrary: i)
  case 0
  then show ?case by (subst scan_fat.simps) simp
next
  case (Suc d)
  then have i: "i < FAT_LEN" by simp
  have zero: "load16 m (fat img i) = 0 \<longleftrightarrow> fat_entry img m i = 0" by (simp add: fat_entry_def unat_eq_0)
  show ?case
  proof (cases "fat_entry img m i = 0")
    case True
    then show ?thesis
      using i zero by (subst scan_fat.simps) (auto simp: upt_rec Let_def split: prod.splits)
  next
    case False
    then have "scan_fat img m i = scan_fat img m (i + 1)"
      using i zero by (subst scan_fat.simps) simp
    with False Suc.hyps(1) [of "i + 1"] Suc.hyps(2) i show ?thesis by (simp add: upt_rec)
  qed
qed

text \<open>Of a table with a free place and an image with a free block.\<close>

lemma alloc_inode_spec:
  assumes "bitmap_ok img m" and "free_blocks img m \<noteq> {}" and "\<exists>i < FAT_LEN. fat_entry img m i = 0"
  defines "b \<equiv> Min (free_blocks img m)"
  obtains i m' where "alloc_inode img m = (int b, m')" and "i < FAT_LEN" and "fat_entry img m i = 0"
    and "\<forall>j < FAT_LEN. fat_entry img m' j = (if j = i then b else fat_entry img m j)"
    and "bitmap_ok img m'" and "free_blocks img m' = free_blocks img m - {b}"
    and "same_outside (alloc_span img \<union> span img 1024 512) m m'" and "\<forall>j < i. fat_entry img m j \<noteq> 0"
proof -
  obtain i where i: "find (\<lambda>j. fat_entry img m j = 0) [0..<FAT_LEN] = Some i" "i < FAT_LEN" "fat_entry img m i = 0"
    using assms(3) by (cases "find (\<lambda>j. fat_entry img m j = 0) [0..<FAT_LEN]")
      (auto simp: find_None_iff find_Some_iff)
  have first: "\<forall>j < i. fat_entry img m j \<noteq> 0" using i(1) by (auto simp: find_Some_iff)
  obtain m1 where m1: "alloc_free_block img m = (int b, m1)" "bitmap_ok img m1"
    "free_blocks img m1 = free_blocks img m - {b}" "same_outside (alloc_span img) m m1"
    using alloc_free_block_spec [OF assms(1)] assms(2) by (auto simp: b_def)
  define m2 where "m2 = store16 m1 (fat img i) (word_of_int (int b))"
  have "b < BLOCK_NUM" using Min_in [OF finite_free_blocks assms(2)] by (simp add: b_def free_blocks_def)
  have r: "alloc_inode img m = (int b, m2)"
    using i(1) m1(1) by (simp add: alloc_inode_def scan_fat_find m2_def)
  have s2: "same_outside (span img (1024 + 2 * i) 2) m1 m2"
    unfolding m2_def field_offsets by (rule same_outside_store_span) (use i(2) in \<open>simp_all add: FAT_LEN_def\<close>)
  have s2': "same_outside (span img 1024 512) m1 m2"
    by (rule same_outside_mono [OF s2 span_subset]) (use i(2) in \<open>simp_all add: FAT_LEN_def\<close>)
  have d: "span img 1024 512 \<inter> alloc_span img = {}"
    unfolding alloc_span_def Int_Un_distrib by (simp add: span_disjoint)
  have fat: "fat_entry img m2 j = (if j = i then b else fat_entry img m j)" if "j < FAT_LEN" for j
  proof (cases "j = i")
    case True
    have "unat (word_of_int (int b) :: 16 word) = b"
      using \<open>b < BLOCK_NUM\<close> by (simp add: BLOCK_NUM_def unat_of_nat)
    then show ?thesis using True by (simp add: m2_def fat_entry_def)
  next
    case False
    have "span img (1024 + 2 * j) 2 \<inter> span img (1024 + 2 * i) 2 = {}"
      using False by (intro span_disjoint) auto
    then have "fat_entry img m2 j = fat_entry img m1 j"
      unfolding fat_entry_def field_offsets
      by (subst load_frame_span [OF s2]) (use that in \<open>simp_all add: FAT_LEN_def\<close>)
    also have "\<dots> = fat_entry img m j" by (rule field_frame(3) [OF m1(4) that d])
    finally show ?thesis using False by simp
  qed
  have d6: "span img 6 2 \<inter> span img 1024 512 = {}" "span img 512 256 \<inter> span img 1024 512 = {}"
    by (simp_all add: span_disjoint)
  have used: "block_used img m2 c = block_used img m1 c" if "c < BLOCK_NUM" for c
    by (rule field_frame(2) [OF s2' that d6(2)])
  then have fr: "free_blocks img m2 = free_blocks img m1" by (auto simp: free_blocks_def)
  have "bitmap_ok img m2"
    using m1(2) field_frame(1) [OF s2' d6(1)] by (simp add: bitmap_ok_def fr)
  moreover have "same_outside (alloc_span img \<union> span img 1024 512) m m2"
  proof (rule same_outside_trans)
    show "same_outside (alloc_span img \<union> span img 1024 512) m m1"
      by (rule same_outside_mono [OF m1(4)]) simp
    show "same_outside (alloc_span img \<union> span img 1024 512) m1 m2"
      by (rule same_outside_mono [OF s2']) simp
  qed
  ultimately show thesis using that [OF r i(2,3)] fat fr m1(3) first by simp
qed

end
