(* ===== verification/Fs_Data.thy ===== *)
theory Fs_Data
  imports Fs_Alloc
begin

text \<open>
  The bytes of a file: where the pointers of its inode put them, and what the loops that read and
  write them do. The blocks of a file are given by a function from the index of a block in the file
  to its number in the image.
\<close>

section \<open>Pointers\<close>

text \<open>The number of the block with an index, from the inode or from the indirect block.\<close>

definition block_number :: "addr \<Rightarrow> mem \<Rightarrow> nat \<Rightarrow> nat \<Rightarrow> nat \<Rightarrow> nat" where
  "block_number img m n ib i =
     (if i < 12 then direct_entry img m n i else table_entry img m ib (i - 12))"

definition maps_blocks :: "addr \<Rightarrow> mem \<Rightarrow> nat \<Rightarrow> nat \<Rightarrow> (nat \<Rightarrow> nat) \<Rightarrow> nat \<Rightarrow> bool" where
  "maps_blocks img m n ib bm nb \<longleftrightarrow> n < BLOCK_NUM \<and> ib < BLOCK_NUM \<and> nb \<le> 140 \<and>
     (\<forall>j < nb. block_number img m n ib j = bm j \<and> bm j < BLOCK_NUM)"

text \<open>The address of the byte at an offset of the file.\<close>

definition byte_addr :: "addr \<Rightarrow> (nat \<Rightarrow> nat) \<Rightarrow> nat \<Rightarrow> addr" where
  "byte_addr img bm k = img + of_nat (512 * bm (k div 512) + k mod 512)"

definition file_bytes :: "addr \<Rightarrow> mem \<Rightarrow> (nat \<Rightarrow> nat) \<Rightarrow> nat \<Rightarrow> u8 list" where
  "file_bytes img m bm len = map (\<lambda>k. m (byte_addr img bm k)) [0..<len]"

lemma data_block_maps:
  assumes "maps_blocks img m n ib bm nb" and "j < nb"
  shows "data_block img m (get_inode img (int n)) (get_block img (int ib)) j = get_block img (int (bm j))"
proof -
  have b: "block_number img m n ib j = bm j" "bm j < 2048"
    using assms by (auto simp: maps_blocks_def BLOCK_NUM_def)
  show ?thesis
  proof (cases "j < 12")
    case True
    have "uint w = int (unat w)" for w :: u16 by simp
    with True b show ?thesis
      by (simp only: data_block_def block_number_def direct_entry_def if_True)
  next
    case False
    define w where "w = load32 m (get_block img (int ib) + 4 * of_nat (j - 12))"
    have "unat w = bm j" using b(1) False by (simp add: block_number_def table_entry_def w_def)
    then have "uint w = int (bm j)" by (simp flip: \<open>unat w = bm j\<close>)
    then have "sint w = int (bm j)"
      using b(2) by (simp only: sint_uint) (simp add: signed_take_bit_int_eq_self)
    then show ?thesis using False by (simp only: data_block_def w_def [symmetric] if_False)
  qed
qed

lemma byte_addr_block: "byte_addr img bm (512 * i + bo) = get_block img (int (bm i)) + of_nat bo"
  if "bo < 512" for bo
  using that by (simp add: byte_addr_def get_block_nat)

lemma block_bytes:
  assumes "b < BLOCK_NUM" and "bo + len \<le> 512" and "0 < len"
  shows "bytes_at (get_block img (int b) + of_nat bo) len = span img (512 * b + bo) len"
proof -
  have "get_block img (int (b)) + of_nat bo = img + of_nat (512 * b + bo)"
    by (simp add: get_block_nat add.assoc)
  moreover have "512 * b + bo + len \<le> 2 ^ 64" using assms by (simp add: BLOCK_NUM_def)
  ultimately show ?thesis using bytes_at_span [of "512 * b + bo" len img] assms(3) by (simp only:)
qed

lemma span_image: "b < BLOCK_NUM \<Longrightarrow> bo + len \<le> 512 \<Longrightarrow> span img (512 * b + bo) len \<subseteq> image_span img"
  by (intro span_subset) (auto simp: BLOCK_NUM_def)

lemma byte_addr_span:
  "bm (k div 512) < BLOCK_NUM \<Longrightarrow> byte_addr img bm k \<in> span img (512 * bm (k div 512)) 512"
  unfolding byte_addr_def by (rule offset_in_span) (auto simp: BLOCK_NUM_def less_trans)

lemma byte_addr_image: "bm (k div 512) < BLOCK_NUM \<Longrightarrow> byte_addr img bm k \<in> image_span img"
  using byte_addr_span [of bm k img] span_image [of "bm (k div 512)" 0 512 img] by auto

text \<open>The pointers stay when the inode and the indirect block are not written.\<close>

lemma maps_frame:
  assumes "same_outside S m m'" and "span img (512 * n) 512 \<inter> S = {}"
    and "12 < nb \<Longrightarrow> span img (512 * ib) 512 \<inter> S = {}"
  shows "maps_blocks img m' n ib bm nb = maps_blocks img m n ib bm nb"
proof -
  have "block_number img m' n ib j = block_number img m n ib j"
    if nb: "n < BLOCK_NUM" "ib < BLOCK_NUM" "nb \<le> 140" "j < nb" for j
  proof (cases "j < 12")
    case True
    have "span img (512 * n + 38 + 2 * j) 2 \<subseteq> span img (512 * n) 512"
      using True by (intro span_subset) auto
    with assms(2) have "span img (512 * n + 38 + 2 * j) 2 \<inter> S = {}" by blast
    then show ?thesis using field_frame(6) [OF assms(1) nb(1) True] True by (simp add: block_number_def)
  next
    case False
    then have j: "j - 12 < 128" using nb by auto
    have "span img (512 * ib + 4 * (j - 12)) 4 \<subseteq> span img (512 * ib) 512"
      using j by (intro span_subset) auto
    with assms(3) False nb(4) have "span img (512 * ib + 4 * (j - 12)) 4 \<inter> S = {}" by auto
    then show ?thesis using field_frame(8) [OF assms(1) nb(2) j] False by (simp add: block_number_def)
  qed
  then show ?thesis by (auto simp: maps_blocks_def)
qed

section \<open>Reading\<close>

lemma read_loop_spec:
  assumes "maps_blocks img m n ib bm nb" and "num \<le> mx" and "bo < 512"
    and "512 * i + bo + (mx - num) \<le> 512 * nb" and "bytes_at buf (mx - num) \<inter> image_span img = {}"
  shows "\<exists>m'. read_loop img m (get_inode img (int n)) (get_block img (int ib)) i bo buf num mx = Inr (mx, m') \<and>
    (\<forall>k < mx - num. m' (buf + of_nat k) = m (byte_addr img bm (512 * i + bo + k))) \<and>
    same_outside (bytes_at buf (mx - num)) m m'"
  using assms
proof (induction "mx - num" arbitrary: i bo buf num m rule: less_induct)
  case less
  show ?case
  proof (cases "num = mx")
    case True
    then show ?thesis by (subst read_loop.simps) simp
  next
    case False
    define len where "len = min (mx - num) (512 - bo)"
    define src where "src = get_block img (int (bm i)) + of_nat bo"
    define m1 where "m1 = copy_bytes len m buf src"
    have nb: "nb \<le> 140" using less.prems(1) by (simp add: maps_blocks_def)
    have len: "0 < len" "bo + len \<le> 512" "len \<le> mx - num" using False less.prems(2,3) by (auto simp: len_def)
    have i: "i < nb" using less.prems(4) False less.prems(2) by auto
    have bi: "bm i < BLOCK_NUM" using less.prems(1) i by (simp add: maps_blocks_def)
    have small: "mx - num \<le> 2 ^ 64" using less.prems(4) nb by simp
    have split: "bytes_at buf (mx - num) = bytes_at buf len \<union> bytes_at (buf + of_nat len) (mx - num - len)"
      using bytes_at_split [of len "mx - num - len" buf] len(3) small by (simp del: diff_diff_left)
    have src: "bytes_at src len = span img (512 * bm i + bo) len"
      unfolding src_def by (rule block_bytes [OF bi len(2,1)])
    have "bytes_at src len \<inter> bytes_at buf len = {}"
      using src span_image [OF bi len(2)] less.prems(5) split by blast
    moreover have "len \<le> 2 ^ 64" using len small by simp
    ultimately have m1: "m1 x = (if x \<in> bytes_at buf len then m (src + (x - buf)) else m x)" for x
      unfolding m1_def by (intro copy_bytes_apply) auto
    then have s1: "same_outside (bytes_at buf len) m m1" by (simp add: same_outside_def)
    have step: "read_loop img m (get_inode img (int n)) (get_block img (int ib)) i bo buf num mx =
        read_loop img m1 (get_inode img (int n)) (get_block img (int ib)) (i + 1) 0 (buf + of_nat len) (num + len) mx"
      using data_block_maps [OF less.prems(1) i] False less.prems(2) i nb
      by (subst read_loop.simps)
        (simp add: Let_def m1_def src_def len_def INDIRECT_LEN_def BLOCK_SIZE_def)
    have img: "span img (512 * b) 512 \<inter> bytes_at buf len = {}" if "b < BLOCK_NUM" for b
      using span_image [of b 0 512 img] that less.prems(5) split by auto
    have mp: "maps_blocks img m1 n ib bm nb"
      using less.prems(1) maps_frame [OF s1, of img n nb ib bm] img by (auto simp: maps_blocks_def)
    have rest: "mx - (num + len) = mx - num - len" "mx - (num + len) < mx - num" "num + len \<le> mx"
      using len less.prems(2) by auto
    have fits: "512 * (i + 1) + 0 + (mx - (num + len)) \<le> 512 * nb \<or> num + len = mx"
    proof (cases "mx - num \<le> 512 - bo")
      case True
      then show ?thesis using less.prems(2) by (simp add: len_def)
    next
      case False
      then have "len = 512 - bo" by (simp add: len_def)
      then show ?thesis using less.prems(2-4) False by auto
    qed
    have apart: "bytes_at (buf + of_nat len) (mx - (num + len)) \<inter> image_span img = {}"
      using less.prems(5) split unfolding rest(1) by blast
    from fits obtain m' where m': "read_loop img m1 (get_inode img (int n)) (get_block img (int ib)) (i + 1) 0
        (buf + of_nat len) (num + len) mx = Inr (mx, m')"
      "\<forall>k < mx - (num + len). m' (buf + of_nat len + of_nat k) = m1 (byte_addr img bm (512 * (i + 1) + 0 + k))"
      "same_outside (bytes_at (buf + of_nat len) (mx - (num + len))) m1 m'"
    proof (elim disjE)
      assume "num + len = mx"
      moreover have "read_loop img m1 (get_inode img (int n)) (get_block img (int ib)) (i + 1) 0
          (buf + of_nat len) mx mx = Inr (mx, m1)" by (subst read_loop.simps) simp
      ultimately show thesis using that [of m1] by simp
    next
      assume "512 * (i + 1) + 0 + (mx - (num + len)) \<le> 512 * nb"
      from less.hyps [OF rest(2) mp rest(3) _ this apart] show thesis using that by fastforce
    qed
    have "m' (buf + of_nat k) = m (byte_addr img bm (512 * i + bo + k))" if k: "k < mx - num" for k
    proof (cases "k < len")
      case True
      have in1: "buf + of_nat k \<in> bytes_at buf len"
        using True small len by (simp add: bytes_at_def unat_of_nat)
      have "buf + of_nat k \<notin> bytes_at (buf + of_nat len) (mx - (num + len))"
      proof -
        have "unat (of_nat k - of_nat len :: u64) \<ge> mx - (num + len)"
          using True small len by (simp add: unat_sub_if' unat_of_nat)
        then show ?thesis by (simp add: bytes_at_def)
      qed
      then have "m' (buf + of_nat k) = m1 (buf + of_nat k)" using m'(3) by (simp add: same_outside_def)
      also have "\<dots> = m (src + of_nat k)" using m1 in1 by simp
      also have "src + of_nat k = byte_addr img bm (512 * i + (bo + k))"
        using True len by (subst byte_addr_block) (auto simp: src_def)
      finally show ?thesis by (simp add: add.assoc)
    next
      case False
      then have bo: "bo + len = 512" using k less.prems(3) by (auto simp: len_def)
      have "m' (buf + of_nat k) = m1 (byte_addr img bm (512 * (i + 1) + 0 + (k - len)))"
        using m'(2) [rule_format, of "k - len"] False k by (simp add: of_nat_diff)
      also have "512 * (i + 1) + 0 + (k - len) = 512 * i + bo + k" using bo False by simp
      also have "m1 (byte_addr img bm (512 * i + bo + k)) = m (byte_addr img bm (512 * i + bo + k))"
      proof -
        have "(512 * i + bo + k) div 512 < nb" using less.prems(4) k by (intro div_less_iff_less_mult [THEN iffD2]) auto
        then have "bm ((512 * i + bo + k) div 512) < BLOCK_NUM" using less.prems(1) by (simp add: maps_blocks_def)
        then have "byte_addr img bm (512 * i + bo + k) \<in> image_span img" by (rule byte_addr_image)
        then have "byte_addr img bm (512 * i + bo + k) \<notin> bytes_at buf len"
          using less.prems(5) split by blast
        then show ?thesis using s1 by (simp add: same_outside_def)
      qed
      finally show ?thesis .
    qed
    moreover have "same_outside (bytes_at buf (mx - num)) m m'"
      using same_outside_mono [OF s1] same_outside_mono [OF m'(3)] split
      by (auto intro: same_outside_trans)
    ultimately show ?thesis using step m'(1) by auto
  qed
qed

section \<open>Writing\<close>

lemma span_byte_addr:
  assumes "bm i < BLOCK_NUM" and "bo + len \<le> 512"
  shows "span img (512 * bm i + bo) len = byte_addr img bm ` {512 * i + bo..<512 * i + bo + len}"
proof (rule set_eqI, rule iffI)
  fix x assume x: "x \<in> span img (512 * bm i + bo) len"
  define y where "y = unat (x - img) - 512 * bm i"
  have y: "unat (x - img) = 512 * bm i + y" "bo \<le> y" "y < bo + len" using x by (auto simp: span_def y_def)
  have "x = img + of_nat (unat (x - img))" by simp
  also have "\<dots> = byte_addr img bm (512 * i + y)" unfolding y(1) using y assms by (simp add: byte_addr_def)
  finally show "x \<in> byte_addr img bm ` {512 * i + bo..<512 * i + bo + len}" using y by auto
next
  fix x assume "x \<in> byte_addr img bm ` {512 * i + bo..<512 * i + bo + len}"
  then obtain k where k: "x = byte_addr img bm k" "512 * i + bo \<le> k" "k < 512 * i + bo + len" by auto
  define y where "y = k - 512 * i"
  have y: "k = 512 * i + y" "bo \<le> y" "y < bo + len" using k by (auto simp: y_def)
  have "x = img + of_nat (512 * bm i + y)" using y assms by (simp add: k(1) byte_addr_def)
  moreover have "512 * bm i + y < 2 ^ 64" using y assms by (simp add: BLOCK_NUM_def)
  then have "unat (of_nat (512 * bm i + y) :: u64) = 512 * bm i + y" by (simp only: unat_of_nat) simp
  ultimately show "x \<in> span img (512 * bm i + bo) len" using y by (simp add: span_def)
qed

lemma byte_addr_inj:
  assumes "inj_on bm {..<nb}" and "\<forall>j < nb. bm j < BLOCK_NUM" and "j < 512 * nb" and "k < 512 * nb"
    and "byte_addr img bm j = byte_addr img bm k"
  shows "j = k"
proof -
  have lt: "j div 512 < nb" "k div 512 < nb" using assms(3,4) by auto
  have un: "unat (byte_addr img bm l - img) = 512 * bm (l div 512) + l mod 512" if "l div 512 < nb" for l
  proof -
    have "bm (l div 512) < 2048" using that assms(2) by (simp add: BLOCK_NUM_def)
    then have "512 * bm (l div 512) + l mod 512 < 2 ^ 64" by (simp add: less_trans [of _ "512 * 2048"])
    then show ?thesis unfolding byte_addr_def by (simp only: add_diff_cancel_left' unat_of_nat) simp
  qed
  then have "512 * bm (j div 512) + j mod 512 = 512 * bm (k div 512) + k mod 512"
    using lt assms(5) by metis
  moreover have "a = c \<and> b = d" if "512 * a + b = 512 * c + d" "b < 512" "d < 512" for a b c d :: nat
  proof -
    have "(512 * a + b) div 512 = a" "(512 * c + d) div 512 = c" using that by simp_all
    with that(1) show ?thesis by simp
  qed
  ultimately have "bm (j div 512) = bm (k div 512)" "j mod 512 = k mod 512"
    using mod_less_divisor [of 512 j] mod_less_divisor [of 512 k] by (meson zero_less_numeral)+
  then have "j div 512 = k div 512" using assms(1) lt by (simp add: inj_on_eq_iff)
  with \<open>j mod 512 = k mod 512\<close> show ?thesis by (metis div_mult_mod_eq)
qed

definition separate :: "nat \<Rightarrow> nat \<Rightarrow> (nat \<Rightarrow> nat) \<Rightarrow> nat \<Rightarrow> bool" where
  "separate n ib bm nb \<longleftrightarrow> inj_on bm {..<nb} \<and> (\<forall>j < nb. bm j \<noteq> n \<and> (12 < nb \<longrightarrow> bm j \<noteq> ib))"

lemma maps_write:
  assumes "maps_blocks img m n ib bm nb" and "separate n ib bm nb" and "K \<subseteq> {..<512 * nb}"
    and "same_outside (byte_addr img bm ` K) m m'"
  shows "maps_blocks img m' n ib bm nb"
proof -
  have "span img (512 * b) 512 \<inter> byte_addr img bm ` K = {}" if b: "b < BLOCK_NUM" "\<forall>j < nb. bm j \<noteq> b" for b
  proof -
    have "byte_addr img bm k \<notin> span img (512 * b) 512" if "k \<in> K" for k
    proof -
      have k: "k div 512 < nb" using that assms(3) by auto
      then have "byte_addr img bm k \<in> span img (512 * bm (k div 512)) 512"
        using assms(1) by (intro byte_addr_span) (simp add: maps_blocks_def)
      moreover have "bm (k div 512) \<noteq> b" using k b(2) by simp
      then have "span img (512 * bm (k div 512)) 512 \<inter> span img (512 * b) 512 = {}"
        by (intro span_disjoint) linarith
      ultimately show ?thesis by blast
    qed
    then show ?thesis by blast
  qed
  then show ?thesis
    using maps_frame [OF assms(4), of img n nb ib bm] assms(1,2) by (auto simp: maps_blocks_def separate_def)
qed

lemma write_loop_spec:
  assumes "maps_blocks img m n ib bm nb" and "num \<le> c" and "bo < 512"
    and "512 * i + bo + (c - num) \<le> 512 * nb" and "bytes_at buf (c - num) \<inter> image_span img = {}"
    and "separate n ib bm nb"
  shows "\<exists>m'. write_loop img m (get_inode img (int n)) (get_block img (int ib)) i bo buf num c = Inr (c, m') \<and>
    (\<forall>k < c - num. m' (byte_addr img bm (512 * i + bo + k)) = m (buf + of_nat k)) \<and>
    same_outside (byte_addr img bm ` {512 * i + bo..<512 * i + bo + (c - num)}) m m'"
  using assms(1-5)
proof (induction "c - num" arbitrary: i bo buf num m rule: less_induct)
  case less
  show ?case
  proof (cases "num = c")
    case True
    then show ?thesis by (subst write_loop.simps) simp
  next
    case False
    define p where "p = 512 * i + bo"
    define len where "len = min (c - num) (512 - bo)"
    define dst where "dst = get_block img (int (bm i)) + of_nat bo"
    define m1 where "m1 = copy_bytes len m dst buf"
    have nb: "nb \<le> 140" "\<forall>j < nb. bm j < BLOCK_NUM" using less.prems(1) by (auto simp: maps_blocks_def)
    have len: "0 < len" "bo + len \<le> 512" "len \<le> c - num" using False less.prems(2,3) by (auto simp: len_def)
    have i: "i < nb" using less.prems(4) False less.prems(2) by auto
    have bi: "bm i < BLOCK_NUM" using nb(2) i by simp
    have small: "c - num \<le> 2 ^ 64" using less.prems(4) nb by simp
    have rest: "c - (num + len) = c - num - len" "c - (num + len) < c - num" "num + len \<le> c"
      using len less.prems(2) by auto
    have split: "bytes_at buf (c - num) = bytes_at buf len \<union> bytes_at (buf + of_nat len) (c - num - len)"
      using bytes_at_split [of len "c - num - len" buf] len(3) small by (simp del: diff_diff_left)
    have dst: "bytes_at dst len = byte_addr img bm ` {p..<p + len}"
      unfolding dst_def p_def block_bytes [OF bi len(2,1)] using bi len(2) by (rule span_byte_addr)
    have dimg: "byte_addr img bm ` {p..<p + l} \<subseteq> image_span img" if "p + l \<le> 512 * nb" for l
    proof
      fix x assume "x \<in> byte_addr img bm ` {p..<p + l}"
      then obtain k where k: "x = byte_addr img bm k" "k < p + l" by auto
      then have "k div 512 < nb" using that by auto
      then show "x \<in> image_span img" unfolding k(1) using nb(2) by (intro byte_addr_image) simp
    qed
    have plen: "p + len \<le> 512 * nb" using less.prems(4) len by (simp add: p_def)
    have apart1: "bytes_at buf len \<inter> bytes_at dst len = {}"
      using dst dimg [OF plen] less.prems(5) split by blast
    moreover have "len \<le> 2 ^ 64" using len small by simp
    ultimately have m1: "m1 x = (if x \<in> bytes_at dst len then m (buf + (x - dst)) else m x)" for x
      unfolding m1_def by (intro copy_bytes_apply) auto
    then have s1: "same_outside (byte_addr img bm ` {p..<p + len}) m m1" by (simp add: same_outside_def dst)
    have step: "write_loop img m (get_inode img (int n)) (get_block img (int ib)) i bo buf num c =
        write_loop img m1 (get_inode img (int n)) (get_block img (int ib)) (i + 1) 0 (buf + of_nat len) (num + len) c"
      using data_block_maps [OF less.prems(1) i] False less.prems(2) i nb
      by (subst write_loop.simps)
        (simp add: Let_def m1_def dst_def len_def INDIRECT_LEN_def BLOCK_SIZE_def)
    have mp: "maps_blocks img m1 n ib bm nb"
      by (rule maps_write [OF less.prems(1) assms(6) _ s1]) (use plen in auto)
    have apart: "bytes_at (buf + of_nat len) (c - (num + len)) \<inter> image_span img = {}"
      using less.prems(5) split unfolding rest(1) by blast
    have fits: "num + len = c \<or> bo + len = 512 \<and> 512 * (i + 1) + 0 + (c - (num + len)) \<le> 512 * nb"
    proof (cases "c - num \<le> 512 - bo")
      case True
      then show ?thesis using less.prems(2) by (simp add: len_def)
    next
      case False
      then have "len = 512 - bo" by (simp add: len_def)
      then show ?thesis using less.prems(2-4) False by auto
    qed
    then have next_p: "512 * (i + 1) + 0 = p + len \<or> num + len = c" by (auto simp: p_def)
    from fits obtain m' where m': "write_loop img m1 (get_inode img (int n)) (get_block img (int ib)) (i + 1) 0
        (buf + of_nat len) (num + len) c = Inr (c, m')"
      "\<forall>k < c - (num + len). m' (byte_addr img bm (p + len + k)) = m1 (buf + of_nat len + of_nat k)"
      "same_outside (byte_addr img bm ` {p + len..<p + (c - num)}) m1 m'"
    proof (elim disjE conjE)
      assume "num + len = c"
      moreover have "write_loop img m1 (get_inode img (int n)) (get_block img (int ib)) (i + 1) 0
          (buf + of_nat len) c c = Inr (c, m1)" by (subst write_loop.simps) simp
      ultimately show thesis using that [of m1] by simp
    next
      assume f: "bo + len = 512" "512 * (i + 1) + 0 + (c - (num + len)) \<le> 512 * nb"
      have pl: "p + len = 512 * (i + 1) + 0" using f(1) by (simp add: p_def)
      have "p + len + (c - (num + len)) = p + (c - num)" using rest by simp
      moreover from less.hyps [OF rest(2) mp rest(3) _ f(2) apart] obtain m' where
        "write_loop img m1 (get_inode img (int n)) (get_block img (int ib)) (i + 1) 0
          (buf + of_nat len) (num + len) c = Inr (c, m')"
        "\<forall>k < c - (num + len). m' (byte_addr img bm (p + len + k)) = m1 (buf + of_nat len + of_nat k)"
        "same_outside (byte_addr img bm ` {p + len..<p + len + (c - (num + len))}) m1 m'"
        unfolding pl by fastforce
      ultimately show thesis using that by (simp only:)
    qed
    have "m' (byte_addr img bm (p + k)) = m (buf + of_nat k)" if k: "k < c - num" for k
    proof (cases "k < len")
      case True
      have "byte_addr img bm (p + k) \<notin> byte_addr img bm ` {p + len..<p + (c - num)}"
      proof
        assume "byte_addr img bm (p + k) \<in> byte_addr img bm ` {p + len..<p + (c - num)}"
        then obtain k' where "p + len \<le> k'" "k' < p + (c - num)" "byte_addr img bm (p + k) = byte_addr img bm k'"
          by auto
        moreover have "p + (c - num) \<le> 512 * nb" using less.prems(4) by (simp add: p_def)
        ultimately have "p + k = k'"
          using assms(6) nb(2) k by (intro byte_addr_inj [of bm nb]) (auto simp: separate_def)
        with True \<open>p + len \<le> k'\<close> show False by simp
      qed
      then have "m' (byte_addr img bm (p + k)) = m1 (byte_addr img bm (p + k))"
        using m'(3) by (simp add: same_outside_def)
      moreover have "byte_addr img bm (p + k) = dst + of_nat k"
        using True len by (simp add: p_def dst_def add.assoc byte_addr_block flip: of_nat_add)
      moreover have "dst + of_nat k \<in> bytes_at dst len"
        using True len small by (simp add: bytes_at_def unat_of_nat)
      ultimately show ?thesis using m1 by simp
    next
      case False
      then have "m' (byte_addr img bm (p + k)) = m1 (buf + of_nat len + of_nat (k - len))"
        using m'(2) [rule_format, of "k - len"] k by simp
      also have "buf + of_nat len + of_nat (k - len) = buf + of_nat k" using False by (simp add: of_nat_diff)
      also have "m1 (buf + of_nat k) = m (buf + of_nat k)"
      proof -
        have "unat (of_nat k :: u64) = k" using k small by (simp add: unat_of_nat)
        then have "buf + of_nat k \<in> bytes_at buf (c - num)" using k by (simp add: bytes_at_def)
        then have "buf + of_nat k \<notin> bytes_at dst len"
          using less.prems(5) dst dimg [OF plen] by blast
        then show ?thesis using m1 by simp
      qed
      finally show ?thesis .
    qed
    moreover have "same_outside (byte_addr img bm ` {p..<p + (c - num)}) m m'"
    proof (rule same_outside_trans)
      show "same_outside (byte_addr img bm ` {p..<p + (c - num)}) m m1"
        by (rule same_outside_mono [OF s1]) (use len in auto)
      show "same_outside (byte_addr img bm ` {p..<p + (c - num)}) m1 m'"
        by (rule same_outside_mono [OF m'(3)]) auto
    qed
    ultimately show ?thesis using step m'(1) by (auto simp: p_def)
  qed
qed

end
