(* ===== verification/Fs_Files.thy ===== *)
theory Fs_Files
  imports Fs_Data
begin

text \<open>
  A whole file system: each file owns its inode, its data blocks and its indirect block, no block
  has two owners, every owned block is marked in the bitmap, and a free block is all zeros. Taking a
  block and entering it into an inode keeps this.
\<close>

section \<open>Blocks\<close>

definition block_span :: "addr \<Rightarrow> nat \<Rightarrow> addr set" where
  "block_span img b = span img (512 * b) 512"

definition blocks_span :: "addr \<Rightarrow> nat set \<Rightarrow> addr set" where
  "blocks_span img B = (\<Union>b \<in> B. block_span img b)"

definition same_block :: "addr \<Rightarrow> mem \<Rightarrow> mem \<Rightarrow> nat \<Rightarrow> bool" where
  "same_block img m m' b \<longleftrightarrow> (\<forall>x \<in> block_span img b. m' x = m x)"

lemma block_span_disjoint: "b \<noteq> c \<Longrightarrow> block_span img b \<inter> block_span img c = {}"
  unfolding block_span_def by (rule span_disjoint) linarith

lemma same_block_outside: "same_outside (blocks_span img B) m m' \<Longrightarrow> b \<notin> B \<Longrightarrow> same_block img m m' b"
proof -
  assume "same_outside (blocks_span img B) m m'" "b \<notin> B"
  moreover from this(2) have "block_span img b \<inter> blocks_span img B = {}"
    using block_span_disjoint [of b] unfolding blocks_span_def by fastforce
  ultimately show ?thesis by (auto simp: same_block_def same_outside_def)
qed

lemma same_block_iff: "same_block img m m' b \<longleftrightarrow> same_outside (- block_span img b) m m'"
  by (auto simp: same_block_def same_outside_def)

lemma blocks_span_mono: "B \<subseteq> C \<Longrightarrow> blocks_span img B \<subseteq> blocks_span img C"
  by (auto simp: blocks_span_def)

lemma span_in_block: "bo + len \<le> 512 \<Longrightarrow> span img (512 * b + bo) len \<subseteq> block_span img b"
  unfolding block_span_def by (rule span_subset) auto

lemma alloc_span_blocks: "alloc_span img \<subseteq> blocks_span img {0, 1}"
proof -
  have "span img 6 2 \<subseteq> block_span img 0" "span img 512 256 \<subseteq> block_span img 1"
    unfolding block_span_def by (simp_all add: span_subset)
  then show ?thesis by (auto simp: alloc_span_def blocks_span_def)
qed

lemma same_block_fields:
  assumes "same_block img m m' n" and "n < BLOCK_NUM"
  shows "file_size img m' n = file_size img m n" and "file_blocks img m' n = file_blocks img m n"
    and "indirect_block img m' n = indirect_block img m n"
    and "i < 12 \<Longrightarrow> direct_entry img m' n i = direct_entry img m n i"
    and "j < 128 \<Longrightarrow> table_entry img m' n j = table_entry img m n j"
proof -
  have s: "same_outside (- block_span img n) m m'" using assms(1) by (simp add: same_block_iff)
  have d: "span img (512 * n + bo) len \<inter> - block_span img n = {}" if "bo + len \<le> 512" for bo len
    using span_in_block [OF that] by blast
  show "file_size img m' n = file_size img m n"
    using field_frame(4) [OF s assms(2)] d [of 0 4] by simp
  show "file_blocks img m' n = file_blocks img m n" "indirect_block img m' n = indirect_block img m n"
    using field_frame(5,7) [OF s assms(2)] d by simp_all
  show "direct_entry img m' n i = direct_entry img m n i" if "i < 12"
    using field_frame(6) [OF s assms(2) that] d [of "38 + 2 * i" 2] that by (simp add: add.assoc)
  show "table_entry img m' n j = table_entry img m n j" if "j < 128"
    using field_frame(8) [OF s assms(2) that] d [of "4 * j" 4] that by simp
qed

lemma same_blocks_alloc:
  assumes "same_outside (blocks_span img B) m m'"
  shows "0 \<notin> B \<Longrightarrow> unused_blocks img m' = unused_blocks img m"
    and "1 \<notin> B \<Longrightarrow> b < BLOCK_NUM \<Longrightarrow> block_used img m' b = block_used img m b"
    and "2 \<notin> B \<Longrightarrow> i < FAT_LEN \<Longrightarrow> fat_entry img m' i = fat_entry img m i"
proof -
  have sub: "S \<inter> blocks_span img B = {}" if "S \<subseteq> block_span img c" "c \<notin> B" for S c
  proof -
    have "block_span img c \<inter> blocks_span img B = {}"
      using that(2) block_span_disjoint [of c] unfolding blocks_span_def by fastforce
    with that(1) show ?thesis by blast
  qed
  have "span img 6 2 \<subseteq> block_span img 0" "span img 512 256 \<subseteq> block_span img 1" "span img 1024 512 \<subseteq> block_span img 2"
    unfolding block_span_def by (simp_all add: span_subset)
  then show "0 \<notin> B \<Longrightarrow> unused_blocks img m' = unused_blocks img m"
    "1 \<notin> B \<Longrightarrow> b < BLOCK_NUM \<Longrightarrow> block_used img m' b = block_used img m b"
    "2 \<notin> B \<Longrightarrow> i < FAT_LEN \<Longrightarrow> fat_entry img m' i = fat_entry img m i"
    using field_frame(1-3) [OF assms] sub by blast+
qed

section \<open>Files\<close>

text \<open>Where a file is: its indirect block, 0 for none, and its data blocks in order.\<close>

type_synonym layout = "nat \<times> nat list"

fun owned :: "nat \<Rightarrow> layout \<Rightarrow> nat set" where
  "owned n (ib, bl) = insert n (set bl \<union> (if ib = 0 then {} else {ib}))"

fun ptrs_ok :: "addr \<Rightarrow> mem \<Rightarrow> nat \<Rightarrow> layout \<Rightarrow> bool" where
  "ptrs_ok img m n (ib, bl) \<longleftrightarrow>
     length bl \<le> 140 \<and> distinct (n # bl) \<and> ib \<notin> set (n # bl) \<and> (ib = 0 \<longrightarrow> length bl \<le> 12) \<and>
     indirect_block img m n = ib \<and>
     (\<forall>j < 12. direct_entry img m n j = (if j < length bl then bl ! j else 0)) \<and>
     (ib \<noteq> 0 \<longrightarrow> (\<forall>j < 128. table_entry img m ib j = (if 12 + j < length bl then bl ! (12 + j) else 0)))"

declare owned.simps [simp del] ptrs_ok.simps [simp del]

text \<open>The table of inodes lists each file once.\<close>

definition fat_ok :: "addr \<Rightarrow> mem \<Rightarrow> nat set \<Rightarrow> bool" where
  "fat_ok img m N \<longleftrightarrow>
     (\<forall>i < FAT_LEN. fat_entry img m i \<noteq> 0 \<longrightarrow> fat_entry img m i \<in> N) \<and>
     (\<forall>n \<in> N. \<exists>i < FAT_LEN. fat_entry img m i = n) \<and>
     (\<forall>i < FAT_LEN. \<forall>j < FAT_LEN. fat_entry img m i = fat_entry img m j \<longrightarrow> fat_entry img m i = 0 \<or> i = j) \<and>
     (\<forall>i < FAT_LEN. \<forall>j < FAT_LEN. j < i \<longrightarrow> fat_entry img m i \<noteq> 0 \<longrightarrow> fat_entry img m j \<noteq> 0)"

lemma fat_ok_cong: "(\<And>i. i < FAT_LEN \<Longrightarrow> fat_entry img m' i = fat_entry img m i) \<Longrightarrow> fat_ok img m' N = fat_ok img m N"
  unfolding fat_ok_def by (simp cong: conj_cong)

definition disk_ok :: "addr \<Rightarrow> mem \<Rightarrow> (nat \<Rightarrow> layout option) \<Rightarrow> bool" where
  "disk_ok img m L \<longleftrightarrow> bitmap_ok img m \<and> (\<forall>b < 3. block_used img m b) \<and>
     (\<forall>n l. L n = Some l \<longrightarrow> ptrs_ok img m n l \<and> (\<forall>b \<in> owned n l. 3 \<le> b \<and> b < BLOCK_NUM \<and> block_used img m b)) \<and>
     (\<forall>n n' l l'. n \<noteq> n' \<longrightarrow> L n = Some l \<longrightarrow> L n' = Some l' \<longrightarrow> owned n l \<inter> owned n' l' = {}) \<and>
     (\<forall>b \<in> free_blocks img m. \<forall>x \<in> block_span img b. m x = 0) \<and>
     fat_ok img m (dom L)"

definition sizes_ok :: "addr \<Rightarrow> mem \<Rightarrow> (nat \<Rightarrow> layout option) \<Rightarrow> bool" where
  "sizes_ok img m L \<longleftrightarrow> (\<forall>n ib bl. L n = Some (ib, bl) \<longrightarrow>
     file_blocks img m n = length bl \<and> file_size img m n \<le> 512 * length bl)"

definition fs_ok :: "addr \<Rightarrow> mem \<Rightarrow> (nat \<Rightarrow> layout option) \<Rightarrow> bool" where
  "fs_ok img m L \<longleftrightarrow> disk_ok img m L \<and> sizes_ok img m L"

text \<open>The contents of a file.\<close>

definition content :: "addr \<Rightarrow> mem \<Rightarrow> nat \<Rightarrow> nat list \<Rightarrow> u8 list" where
  "content img m n bl = file_bytes img m (\<lambda>i. bl ! i) (file_size img m n)"

lemma disk_okD:
  assumes "disk_ok img m L"
  shows "bitmap_ok img m" and "b < 3 \<Longrightarrow> block_used img m b"
    and "L n = Some l \<Longrightarrow> ptrs_ok img m n l"
    and "L n = Some l \<Longrightarrow> b \<in> owned n l \<Longrightarrow> 3 \<le> b \<and> b < BLOCK_NUM \<and> block_used img m b"
    and "n \<noteq> n' \<Longrightarrow> L n = Some l \<Longrightarrow> L n' = Some l' \<Longrightarrow> owned n l \<inter> owned n' l' = {}"
    and "b \<in> free_blocks img m \<Longrightarrow> x \<in> block_span img b \<Longrightarrow> m x = 0"
    and "fat_ok img m (dom L)"
  using assms unfolding disk_ok_def by blast+

lemma inode_owned [simp]: "n \<in> owned n l"
  by (cases l) (simp add: owned.simps)

text \<open>The pointers of a file stay when neither its inode nor its indirect block is written.\<close>

lemma ptrs_frame:
  assumes "ptrs_ok img m n (ib, bl)" and "n < BLOCK_NUM" and "ib < BLOCK_NUM"
    and "same_block img m m' n" and "ib \<noteq> 0 \<Longrightarrow> same_block img m m' ib"
  shows "ptrs_ok img m' n (ib, bl)"
  using assms same_block_fields [OF assms(4,2)] same_block_fields(5) [OF assms(5,3)]
  by (auto simp: ptrs_ok.simps)

text \<open>The loops of the file system see the blocks of a file.\<close>

lemma ptrs_maps:
  assumes "ptrs_ok img m n (ib, bl)" and "n < BLOCK_NUM" and "ib < BLOCK_NUM"
    and "\<forall>b \<in> set bl. b < BLOCK_NUM"
  shows "maps_blocks img m n ib (\<lambda>i. bl ! i) (length bl)" and "separate n ib (\<lambda>i. bl ! i) (length bl)"
proof -
  have "block_number img m n ib j = bl ! j" if "j < length bl" for j
    using assms(1) that by (cases "j < 12") (auto simp: block_number_def ptrs_ok.simps)
  with assms show "maps_blocks img m n ib (\<lambda>i. bl ! i) (length bl)" by (auto simp: maps_blocks_def ptrs_ok.simps)
  have "inj_on ((!) bl) {..<length bl}" using assms(1) by (auto simp: inj_on_def nth_eq_iff_index_eq ptrs_ok.simps)
  moreover have "bl ! j \<noteq> n \<and> bl ! j \<noteq> ib" if "j < length bl" for j
    using assms(1) nth_mem [OF that] by (auto simp: ptrs_ok.simps)
  ultimately show "separate n ib (\<lambda>i. bl ! i) (length bl)" by (simp add: separate_def)
qed

section \<open>A block more\<close>

text \<open>Taking a block: it had no owner, it is zero, and nothing but the bitmap and its counter changes.\<close>

lemma take_block:
  assumes "disk_ok img m L" and "free_blocks img m \<noteq> {}"
  obtains b m' where "alloc_free_block img m = (int b, m')" and "b \<in> free_blocks img m" and "disk_ok img m' L"
    and "free_blocks img m' = free_blocks img m - {b}" and "same_outside (blocks_span img {0, 1}) m m'"
    and "3 \<le> b" and "b < BLOCK_NUM" and "block_used img m' b" and "\<forall>n l. L n = Some l \<longrightarrow> b \<notin> owned n l"
    and "\<forall>x \<in> block_span img b. m' x = 0"
proof -
  note d = disk_okD [OF assms(1)]
  define b where "b = Min (free_blocks img m)"
  have b: "b \<in> free_blocks img m" using assms(2) by (simp add: b_def)
  then have bn: "b < BLOCK_NUM" "\<not> block_used img m b" by (auto simp: free_blocks_def)
  obtain m' where m': "alloc_free_block img m = (int b, m')" "bitmap_ok img m'"
    "free_blocks img m' = free_blocks img m - {b}" "same_outside (alloc_span img) m m'"
    using alloc_free_block_spec [OF d(1)] assms(2) by (auto simp: b_def)
  have s: "same_outside (blocks_span img {0, 1}) m m'" by (rule same_outside_mono [OF m'(4) alloc_span_blocks])
  have b3: "3 \<le> b" using d(2) [of b] bn(2) by (cases "b < 3") auto
  have fresh: "b \<notin> owned n l" if "L n = Some l" for n l using d(4) [OF that] bn(2) by blast
  have same: "same_block img m m' c" if "3 \<le> c" for c
    using same_block_outside [OF s, of c] that by simp
  have used: "block_used img m' c \<longleftrightarrow> c = b \<or> block_used img m c" if "c < BLOCK_NUM" for c
    using m'(3) that b by (auto simp: free_blocks_def)
  have ptrs: "ptrs_ok img m' n l" if l: "L n = Some l" for n l
  proof -
    obtain ib bl where eq: "l = (ib, bl)" by (cases l)
    have o: "3 \<le> c \<and> c < BLOCK_NUM" if "c \<in> owned n l" for c using d(4) [OF l that] by simp
    have n: "3 \<le> n" "n < BLOCK_NUM" using o [of n] by simp_all
    have ib: "3 \<le> ib \<and> ib < BLOCK_NUM" if "ib \<noteq> 0" using o [of ib] that by (simp add: eq owned.simps)
    have "ib < BLOCK_NUM" using ib by (cases "ib = 0") (auto simp: BLOCK_NUM_def)
    then show ?thesis
      using ptrs_frame [of img m n ib bl m'] d(3) [OF l] n ib same by (auto simp: eq)
  qed
  have zero: "m' x = 0" if "c \<in> free_blocks img m" "x \<in> block_span img c" for c x
  proof -
    have "3 \<le> c" using d(2) [of c] that(1) by (cases "c < 3") (auto simp: free_blocks_def)
    then show ?thesis using same [of c] d(6) [OF that] that(2) by (simp add: same_block_def)
  qed
  have fat: "fat_entry img m' i = fat_entry img m i" if "i < FAT_LEN" for i
    using same_blocks_alloc(3) [OF s _ that] by simp
  have "disk_ok img m' L"
    unfolding disk_ok_def
  proof (intro conjI)
    show "bitmap_ok img m'" by fact
    show "\<forall>b < 3. block_used img m' b" using used d(2) by (auto simp: BLOCK_NUM_def)
    show "\<forall>n l. L n = Some l \<longrightarrow> ptrs_ok img m' n l \<and>
        (\<forall>b \<in> owned n l. 3 \<le> b \<and> b < BLOCK_NUM \<and> block_used img m' b)"
      using ptrs d(4) used by blast
    show "\<forall>n n' l l'. n \<noteq> n' \<longrightarrow> L n = Some l \<longrightarrow> L n' = Some l' \<longrightarrow> owned n l \<inter> owned n' l' = {}"
      using d(5) by blast
    show "\<forall>b \<in> free_blocks img m'. \<forall>x \<in> block_span img b. m' x = 0" using zero m'(3) by blast
    show "fat_ok img m' (dom L)" using d(7) fat_ok_cong [of img m' m] fat by blast
  qed
  moreover have "\<forall>x \<in> block_span img b. m' x = 0" using zero b by blast
  ultimately show thesis using that [OF m'(1) b _ m'(3) s b3 bn(1)] used bn(1) fresh by blast
qed

text \<open>
  A file is given a new layout: its own blocks are written and one that nobody else owns, and at
  most that block is added.
\<close>

lemma disk_update_more:
  assumes ok: "disk_ok img m L" and l: "L n = Some l" and same: "same_outside (blocks_span img C) m m'"
    and C: "C \<subseteq> insert b (owned n l)" and ptrs: "ptrs_ok img m' n l'" and own: "owned n l' \<subseteq> insert b (owned n l)"
    and b: "3 \<le> b" "b < BLOCK_NUM" "block_used img m b" "\<forall>n' l'. L n' = Some l' \<longrightarrow> n' \<noteq> n \<longrightarrow> b \<notin> owned n' l'"
  shows "disk_ok img m' (L(n \<mapsto> l'))" and "free_blocks img m' = free_blocks img m"
proof -
  note d = disk_okD [OF ok]
  have C3: "3 \<le> c \<and> block_used img m c" if "c \<in> C" for c using d(4) [OF l] b(1,3) C that by blast
  then have low: "0 \<notin> C" "1 \<notin> C" "2 \<notin> C" by fastforce+
  have used: "block_used img m' c = block_used img m c" if "c < BLOCK_NUM" for c
    by (rule same_blocks_alloc(2) [OF same low(2) that])
  show fr: "free_blocks img m' = free_blocks img m" using used by (auto simp: free_blocks_def)
  have bitmap: "bitmap_ok img m'"
    using d(1) same_blocks_alloc(1) [OF same low(1)] by (simp add: bitmap_ok_def fr)
  have others: "ptrs_ok img m' n2 l2" if l2: "L n2 = Some l2" "n2 \<noteq> n" for n2 l2
  proof -
    obtain ib bl where eq: "l2 = (ib, bl)" by (cases l2)
    have o: "3 \<le> c \<and> c < BLOCK_NUM" if "c \<in> owned n2 l2" for c using d(4) [OF l2(1) that] by simp
    have s: "same_block img m m' c" if "c \<in> owned n2 l2" for c
      using same_block_outside [OF same] C d(5) [OF l2(2) l2(1) l] b(4) l2 that by blast
    have "ib < BLOCK_NUM" using o [of ib] by (cases "ib = 0") (auto simp: eq owned.simps BLOCK_NUM_def)
    moreover have "same_block img m m' ib" if "ib \<noteq> 0" using s [of ib] that by (simp add: eq owned.simps)
    ultimately show ?thesis
      using ptrs_frame [of img m n2 ib bl m'] d(3) [OF l2(1)] o [of n2] s [of n2] by (simp add: eq)
  qed
  have zero: "m' x = 0" if "c \<in> free_blocks img m" "x \<in> block_span img c" for c x
  proof -
    have "c \<notin> C" using C3 that(1) by (auto simp: free_blocks_def)
    from same_block_outside [OF same this] show ?thesis using d(6) [OF that] that(2) by (simp add: same_block_def)
  qed
  have own': "3 \<le> c \<and> c < BLOCK_NUM \<and> block_used img m' c" if "c \<in> owned n l'" for c
    using that own b(1-3) d(4) [OF l] used by blast
  have disj: "owned n l' \<inter> owned n2 l2 = {}" if "L n2 = Some l2" "n2 \<noteq> n" for n2 l2
    using own d(5) [OF that(2) that(1) l] b(4) that by blast
  show "disk_ok img m' (L(n \<mapsto> l'))"
    unfolding disk_ok_def
  proof (intro conjI)
    show "bitmap_ok img m'" by fact
    show "\<forall>b < 3. block_used img m' b" using used d(2) by (auto simp: BLOCK_NUM_def)
    show "\<forall>n2 l2. (L(n \<mapsto> l')) n2 = Some l2 \<longrightarrow> ptrs_ok img m' n2 l2 \<and>
        (\<forall>b \<in> owned n2 l2. 3 \<le> b \<and> b < BLOCK_NUM \<and> block_used img m' b)"
      using ptrs own' others d(4) used by (metis fun_upd_apply option.inject)
    show "\<forall>n1 n2 l1 l2. n1 \<noteq> n2 \<longrightarrow> (L(n \<mapsto> l')) n1 = Some l1 \<longrightarrow> (L(n \<mapsto> l')) n2 = Some l2 \<longrightarrow>
        owned n1 l1 \<inter> owned n2 l2 = {}"
      using disj d(5) by (auto split: if_splits)
    show "\<forall>b \<in> free_blocks img m'. \<forall>x \<in> block_span img b. m' x = 0" using zero fr by blast
    have "dom (L(n \<mapsto> l')) = dom L" using l by auto
    moreover have "fat_ok img m' (dom L)"
      using d(7) fat_ok_cong [of img m' m] same_blocks_alloc(3) [OF same low(3)] by blast
    ultimately show "fat_ok img m' (dom (L(n \<mapsto> l')))" by simp
  qed
qed

lemma disk_update:
  assumes "disk_ok img m L" and "L n = Some l" and "same_outside (blocks_span img C) m m'"
    and "C \<subseteq> owned n l" and "ptrs_ok img m' n l'" and "owned n l' \<subseteq> insert b (owned n l)"
    and "3 \<le> b" "b < BLOCK_NUM" "block_used img m b" "\<forall>n' l'. L n' = Some l' \<longrightarrow> n' \<noteq> n \<longrightarrow> b \<notin> owned n' l'"
  shows "disk_ok img m' (L(n \<mapsto> l'))" and "free_blocks img m' = free_blocks img m"
  using disk_update_more [OF assms(1-3) subset_insertI2 [OF assms(4)] assms(5-)] by simp_all

lemma unat_block: "b < BLOCK_NUM \<Longrightarrow> unat (word_of_int (int b) :: u16) = b"
    and unat_block32: "b < BLOCK_NUM \<Longrightarrow> unat (word_of_int (int b) :: u32) = b"
  by (simp_all add: BLOCK_NUM_def unat_of_nat)

lemma store_field_block:
  assumes "bo + k \<le> 512" and "0 < k" and "n < BLOCK_NUM"
  shows "same_outside (span img (512 * n + bo) k) m (store_bytes k m (img + of_nat (512 * n + bo)) v)"
    and "same_outside (blocks_span img {n}) m (store_bytes k m (img + of_nat (512 * n + bo)) v)"
proof -
  show s: "same_outside (span img (512 * n + bo) k) m (store_bytes k m (img + of_nat (512 * n + bo)) v)"
    using assms by (intro same_outside_store_span) (auto simp: BLOCK_NUM_def)
  show "same_outside (blocks_span img {n}) m (store_bytes k m (img + of_nat (512 * n + bo)) v)"
    by (rule same_outside_mono [OF s]) (use span_in_block [OF assms(1)] in \<open>simp add: blocks_span_def\<close>)
qed

text \<open>Size, name and number of blocks stand before the pointers.\<close>

definition same_header :: "addr \<Rightarrow> nat \<Rightarrow> mem \<Rightarrow> mem \<Rightarrow> bool" where
  "same_header img n m m' \<longleftrightarrow> (\<forall>x \<in> span img (512 * n) 38. m' x = m x)"

lemma same_header_refl [simp]: "same_header img n m m"
  by (simp add: same_header_def)

lemma same_header_trans: "same_header img n m m' \<Longrightarrow> same_header img n m' m'' \<Longrightarrow> same_header img n m m''"
  by (simp add: same_header_def)

lemma same_header_outside: "same_outside S m m' \<Longrightarrow> span img (512 * n) 38 \<inter> S = {} \<Longrightarrow> same_header img n m m'"
  by (auto simp: same_header_def same_outside_def)

lemma same_header_fields:
  assumes "same_header img n m m'" and "n < BLOCK_NUM"
  shows "file_size img m' n = file_size img m n" and "file_blocks img m' n = file_blocks img m n"
proof -
  have s: "same_outside (- span img (512 * n) 38) m m'" using assms(1) by (auto simp: same_header_def same_outside_def)
  have "span img (512 * n) 4 \<subseteq> span img (512 * n) 38" "span img (512 * n + 36) 2 \<subseteq> span img (512 * n) 38"
    by (simp_all add: span_subset)
  then show "file_size img m' n = file_size img m n" "file_blocks img m' n = file_blocks img m n"
    using field_frame(4,5) [OF s assms(2)] by blast+
qed

lemma ptrs_add_direct:
  assumes "ptrs_ok img m n (ib, bl)" and "length bl < 12" and "n < BLOCK_NUM" and "ib < BLOCK_NUM"
    and "b < BLOCK_NUM" and "b \<notin> set (ib # n # bl)"
  defines "m' \<equiv> store16 m (i_direct (get_inode img (int n)) (length bl)) (word_of_int (int b))"
  shows "ptrs_ok img m' n (ib, bl @ [b])" and "same_outside (blocks_span img {n}) m m'"
    and "same_header img n m m'"
proof -
  define j where "j = length bl"
  have eq: "m' = store16 m (img + of_nat (512 * n + (38 + 2 * j))) (word_of_int (int b))"
    by (simp add: m'_def field_offsets j_def add.assoc)
  have s: "same_outside (span img (512 * n + (38 + 2 * j)) 2) m m'" "same_outside (blocks_span img {n}) m m'"
    unfolding eq using assms(2,3) by (intro store_field_block; simp add: j_def)+
  show "same_outside (blocks_span img {n}) m m'" by fact
  show "same_header img n m m'" by (rule same_header_outside [OF s(1) span_disjoint]) simp
  have "direct_entry img m' n j = b"
    using unat_block [OF assms(5)]
    by (simp only: direct_entry_def m'_def j_def [symmetric]) (simp del: of_int_of_nat_eq)
  moreover have "direct_entry img m' n i = direct_entry img m n i" if "i < 12" "i \<noteq> j" for i
    by (rule field_frame(6) [OF s(1) assms(3) that(1) span_disjoint]) (use that(2) in linarith)
  ultimately have d: "direct_entry img m' n i = (if i = j then b else direct_entry img m n i)" if "i < 12" for i
    using that by simp
  have i: "indirect_block img m' n = indirect_block img m n"
    by (rule field_frame(7) [OF s(1) assms(3) span_disjoint]) (use assms(2) in \<open>simp add: j_def\<close>)
  have "ib \<noteq> n" using assms(1) by (simp add: ptrs_ok.simps)
  then have t: "table_entry img m' ib i = table_entry img m ib i" if "i < 128" for i
    using same_block_fields(5) [OF same_block_outside [OF s(2), of ib] assms(4) that] by simp
  show "ptrs_ok img m' n (ib, bl @ [b])"
    using assms(1,2,6) d i t by (auto simp: ptrs_ok.simps j_def nth_append)
qed

lemma ptrs_add_indirect:
  assumes "ptrs_ok img m n (0, bl)" and "n < BLOCK_NUM" and "0 < b" and "b < BLOCK_NUM" and "b \<notin> set (n # bl)"
    and "\<forall>x \<in> block_span img b. m x = 0"
  defines "m' \<equiv> store16 m (i_indirect (get_inode img (int n))) (word_of_int (int b))"
  shows "ptrs_ok img m' n (b, bl)" and "same_outside (blocks_span img {n}) m m'"
    and "same_header img n m m'"
proof -
  have eq: "m' = store16 m (img + of_nat (512 * n + 62)) (word_of_int (int b))"
    by (simp add: m'_def field_offsets)
  have s: "same_outside (span img (512 * n + 62) 2) m m'" "same_outside (blocks_span img {n}) m m'"
    unfolding eq using assms(2) by (intro store_field_block; simp)+
  show "same_outside (blocks_span img {n}) m m'" by fact
  show "same_header img n m m'" by (rule same_header_outside [OF s(1) span_disjoint]) simp
  have i: "indirect_block img m' n = b"
    using unat_block [OF assms(4)] by (simp only: indirect_block_def m'_def) (simp del: of_int_of_nat_eq)
  have d: "direct_entry img m' n j = direct_entry img m n j" if "j < 12" for j
    by (rule field_frame(6) [OF s(1) assms(2) that span_disjoint]) (use that in linarith)
  have t: "table_entry img m' b j = 0" if "j < 128" for j
  proof -
    have "table_entry img m' b j = table_entry img m b j"
      using same_block_fields(5) [OF same_block_outside [OF s(2), of b] assms(4) that] assms(5) by simp
    moreover have "load32 m (img + of_nat (512 * b + 4 * j)) = load32 (\<lambda>_. 0) (img + of_nat (512 * b + 4 * j))"
    proof (rule load_bytes_cong)
      fix x assume "x \<in> bytes_at (img + of_nat (512 * b + 4 * j)) 4"
      moreover have "bytes_at (img + of_nat (512 * b + 4 * j)) 4 = span img (512 * b + 4 * j) 4"
        using assms(4) that by (intro bytes_at_span) (simp_all add: BLOCK_NUM_def)
      ultimately show "m x = 0" using assms(6) span_in_block [of "4 * j" 4 img b] that by auto
    qed simp
    moreover have "load32 (\<lambda>_. 0) p = 0" for p by (rule bit_word_eqI) (simp add: bit_load_bytes)
    ultimately show ?thesis by (simp add: table_entry_def table_offset)
  qed
  show "ptrs_ok img m' n (b, bl)"
    using assms(1,3,5) d i t by (auto simp: ptrs_ok.simps)
qed

lemma ptrs_add_table:
  assumes "ptrs_ok img m n (ib, bl)" and "ib \<noteq> 0" and "12 \<le> length bl" and "length bl < 140"
    and "n < BLOCK_NUM" and "ib < BLOCK_NUM" and "b < BLOCK_NUM" and "b \<notin> set (ib # n # bl)"
  defines "m' \<equiv> store32 m (get_block img (int ib) + 4 * of_nat (length bl - 12)) (word_of_int (int b))"
  shows "ptrs_ok img m' n (ib, bl @ [b])" and "same_outside (blocks_span img {ib}) m m'"
    and "same_header img n m m'"
proof -
  define j where "j = length bl - 12"
  have j: "j < 128" "length bl = j + 12" using assms(3,4) by (auto simp: j_def)
  have eq: "m' = store32 m (img + of_nat (512 * ib + 4 * j)) (word_of_int (int b))"
    by (simp add: m'_def table_offset j_def [symmetric])
  have s: "same_outside (span img (512 * ib + 4 * j) 4) m m'" "same_outside (blocks_span img {ib}) m m'"
    unfolding eq using assms(6) j by (intro store_field_block; simp)+
  show "same_outside (blocks_span img {ib}) m m'" by fact
  have "ib \<noteq> n" using assms(1) by (simp add: ptrs_ok.simps)
  then show "same_header img n m m'"
    using j by (intro same_header_outside [OF s(1) span_disjoint]) linarith
  have "table_entry img m' ib j = b"
    using unat_block32 [OF assms(7)]
    by (simp only: table_entry_def m'_def j_def [symmetric]) (simp del: of_int_of_nat_eq)
  moreover have "table_entry img m' ib i = table_entry img m ib i" if "i < 128" "i \<noteq> j" for i
    by (rule field_frame(8) [OF s(1) assms(6) that(1) span_disjoint]) (use that(2) in linarith)
  ultimately have t: "table_entry img m' ib i = (if i = j then b else table_entry img m ib i)" if "i < 128" for i
    using that by simp
  have "ib \<noteq> n" using assms(1) by (simp add: ptrs_ok.simps)
  then have "same_block img m m' n" by (intro same_block_outside [OF s(2)]) simp
  note f = same_block_fields [OF this assms(5)]
  show "ptrs_ok img m' n (ib, bl @ [b])"
    using assms(1-4,8) t f(3,4) j by (auto simp: ptrs_ok.simps nth_append)
qed

end
