(* ===== verification/Fs_Grow.thy ===== *)
theory Fs_Grow
  imports Fs_Files
begin

text \<open>
  \<^verbatim>\<open>increase_size\<close>: a file gets the blocks it needs from the free blocks, in the order of its
  pointers, and the file system stays well formed.
\<close>

section \<open>One block\<close>

lemma layout_bounds:
  assumes "disk_ok img m L" and "L n = Some (ib, bl)"
  shows "3 \<le> n" and "n < BLOCK_NUM" and "ib < BLOCK_NUM" and "ib \<noteq> 0 \<Longrightarrow> 3 \<le> ib"
    and "c \<in> set bl \<Longrightarrow> 3 \<le> c \<and> c < BLOCK_NUM" and "length bl \<le> 140" and "ib \<noteq> n"
    and "ib = 0 \<Longrightarrow> length bl \<le> 12"
proof -
  note d = disk_okD [OF assms(1)]
  have o: "3 \<le> c \<and> c < BLOCK_NUM" if "c \<in> owned n (ib, bl)" for c using d(4) [OF assms(2) that] by simp
  show "3 \<le> n" "n < BLOCK_NUM" using o [of n] by simp_all
  show "ib < BLOCK_NUM" using o [of ib] by (cases "ib = 0") (auto simp: owned.simps BLOCK_NUM_def)
  show "ib \<noteq> 0 \<Longrightarrow> 3 \<le> ib" using o [of ib] by (simp add: owned.simps)
  show "c \<in> set bl \<Longrightarrow> 3 \<le> c \<and> c < BLOCK_NUM" using o [of c] by (simp add: owned.simps)
  show "length bl \<le> 140" "ib \<noteq> n" "ib = 0 \<Longrightarrow> length bl \<le> 12"
    using d(3) [OF assms(2)] by (auto simp: ptrs_ok.simps)
qed

text \<open>What a step of the growth does to the disk, with the blocks it has written besides the bitmap.\<close>

definition grows ::
  "addr \<Rightarrow> mem \<Rightarrow> (nat \<Rightarrow> layout option) \<Rightarrow> nat \<Rightarrow> layout \<Rightarrow> nat set \<Rightarrow> nat set \<Rightarrow> mem \<Rightarrow> bool" where
  "grows img m L n l' W N m' \<longleftrightarrow> disk_ok img m' (L(n \<mapsto> l')) \<and> N \<subseteq> free_blocks img m \<and>
     free_blocks img m' = free_blocks img m - N \<and> same_header img n m m' \<and>
     same_outside (blocks_span img ({0, 1} \<union> W)) m m'"

lemma grows_refl: "disk_ok img m L \<Longrightarrow> L n = Some l \<Longrightarrow> grows img m L n l W {} m"
  by (simp add: grows_def fun_upd_idem)

lemma grows_trans:
  assumes "grows img m L n l1 W N m1" and "grows img m1 (L(n \<mapsto> l1)) n l2 W' N' m2"
  shows "grows img m L n l2 (W \<union> W') (N \<union> N') m2"
proof -
  have "same_outside (blocks_span img ({0, 1} \<union> (W \<union> W'))) m m1"
    "same_outside (blocks_span img ({0, 1} \<union> (W \<union> W'))) m1 m2"
    using assms unfolding grows_def
    by (auto intro: same_outside_mono [OF _ blocks_span_mono])
  moreover have "N \<inter> N' = {}" "N' \<subseteq> free_blocks img m" using assms unfolding grows_def by auto
  ultimately show ?thesis using assms unfolding grows_def
    by (auto intro: same_outside_trans same_header_trans)
qed

lemma grows_mono: "grows img m L n l W N m' \<Longrightarrow> W \<subseteq> W' \<Longrightarrow> grows img m L n l W' N m'"
  unfolding grows_def by (auto intro: same_outside_mono [OF _ blocks_span_mono])

text \<open>A block is taken and written into the file's own blocks.\<close>

lemma grows_step:
  assumes ok: "disk_ok img m L" and l: "L n = Some l" and free: "free_blocks img m \<noteq> {}"
    and upd: "\<And>b m1. \<lbrakk>3 \<le> b; b < BLOCK_NUM; b \<notin> owned n l; ptrs_ok img m1 n l; \<forall>x \<in> block_span img b. m1 x = 0\<rbrakk> \<Longrightarrow>
      ptrs_ok img (f m1 b) n (l' b) \<and> owned n (l' b) \<subseteq> insert b (owned n l) \<and> same_header img n m1 (f m1 b) \<and>
      same_outside (blocks_span img C) m1 (f m1 b)"
    and C: "C \<subseteq> owned n l"
  obtains b m1 where "alloc_free_block img m = (int b, m1)" and "b \<in> free_blocks img m"
    and "grows img m L n (l' b) C {b} (f m1 b)"
proof -
  obtain b m1 where b: "alloc_free_block img m = (int b, m1)" "b \<in> free_blocks img m" "disk_ok img m1 L"
    "free_blocks img m1 = free_blocks img m - {b}" "same_outside (blocks_span img {0, 1}) m m1"
    "3 \<le> b" "b < BLOCK_NUM" "block_used img m1 b" "\<forall>n l. L n = Some l \<longrightarrow> b \<notin> owned n l"
    "\<forall>x \<in> block_span img b. m1 x = 0"
    using take_block [OF ok free] by blast
  have p: "ptrs_ok img m1 n l" using disk_okD(3) [OF b(3) l] .
  have bo: "b \<notin> owned n l" using b(9) l by blast
  note u = upd [OF b(6,7) bo p b(10)]
  have d: "disk_ok img (f m1 b) (L(n \<mapsto> l' b))" "free_blocks img (f m1 b) = free_blocks img m1"
    using disk_update [OF b(3) l _ C _ _ b(6,7,8), of "f m1 b" "l' b"] u b(9) by blast+
  have "same_outside (blocks_span img ({0, 1} \<union> C)) m (f m1 b)"
  proof (rule same_outside_trans)
    show "same_outside (blocks_span img ({0, 1} \<union> C)) m m1"
      by (rule same_outside_mono [OF b(5) blocks_span_mono]) simp
    show "same_outside (blocks_span img ({0, 1} \<union> C)) m1 (f m1 b)"
      by (rule same_outside_mono [OF _ blocks_span_mono]) (use u in auto)
  qed
  moreover have "same_header img n m m1"
  proof -
    have "3 \<le> n" using disk_okD(4) [OF ok l, of n] by simp
    then have "same_block img m m1 n" using same_block_outside [OF b(5), of n] by simp
    moreover have "span img (512 * n) 38 \<subseteq> block_span img n" using span_in_block [of 0 38 img n] by simp
    ultimately show ?thesis by (auto simp: same_block_def same_header_def)
  qed
  ultimately have "grows img m L n (l' b) C {b} (f m1 b)"
    using d b(2,4) u by (auto simp: grows_def intro: same_header_trans)
  with that [OF b(1,2)] show thesis .
qed

lemma step_direct:
  assumes "disk_ok img m L" and "L n = Some (ib, bl)" and "free_blocks img m \<noteq> {}" and "length bl < 12"
  obtains b m1 where "alloc_free_block img m = (int b, m1)" and "b \<in> free_blocks img m"
    and "grows img m L n (ib, bl @ [b]) {n} {b}
      (store16 m1 (i_direct (get_inode img (int n)) (length bl)) (word_of_int (int b)))"
proof -
  note lb = layout_bounds [OF assms(1,2)]
  show thesis
  proof (rule grows_step [OF assms(1-3), where C = "{n}" and l' = "\<lambda>b. (ib, bl @ [b])" and
      f = "\<lambda>m b. store16 m (i_direct (get_inode img (int n)) (length bl)) (word_of_int (int b))"])
    fix b m1
    assume b: "3 \<le> b" "b < BLOCK_NUM" "b \<notin> owned n (ib, bl)" "ptrs_ok img m1 n (ib, bl)"
    have "b \<notin> set (ib # n # bl)" using b(1,3) by (auto simp: owned.simps split: if_splits)
    from ptrs_add_direct [OF b(4) assms(4) lb(2,3) b(2) this]
    show "ptrs_ok img (store16 m1 (i_direct (get_inode img (int n)) (length bl)) (word_of_int (int b))) n
        (ib, bl @ [b]) \<and> owned n (ib, bl @ [b]) \<subseteq> insert b (owned n (ib, bl)) \<and>
      same_header img n m1 (store16 m1 (i_direct (get_inode img (int n)) (length bl)) (word_of_int (int b))) \<and>
      same_outside (blocks_span img {n}) m1
        (store16 m1 (i_direct (get_inode img (int n)) (length bl)) (word_of_int (int b)))"
      by (auto simp: owned.simps)
  qed (use that in auto)
qed

lemma step_indirect:
  assumes "disk_ok img m L" and "L n = Some (0, bl)" and "free_blocks img m \<noteq> {}"
  obtains b m1 where "alloc_free_block img m = (int b, m1)" and "b \<in> free_blocks img m"
    and "grows img m L n (b, bl) {n} {b} (store16 m1 (i_indirect (get_inode img (int n))) (word_of_int (int b)))"
proof -
  note lb = layout_bounds [OF assms(1,2)]
  show thesis
  proof (rule grows_step [OF assms, where C = "{n}" and l' = "\<lambda>b. (b, bl)" and
      f = "\<lambda>m b. store16 m (i_indirect (get_inode img (int n))) (word_of_int (int b))"])
    fix b m1
    assume b: "3 \<le> b" "b < BLOCK_NUM" "b \<notin> owned n (0, bl)" "ptrs_ok img m1 n (0, bl)"
      "\<forall>x \<in> block_span img b. m1 x = 0"
    have "b \<notin> set (n # bl)" "0 < b" using b(1,3) by (auto simp: owned.simps)
    from ptrs_add_indirect [OF b(4) lb(2) this(2) b(2) this(1) b(5)]
    show "ptrs_ok img (store16 m1 (i_indirect (get_inode img (int n))) (word_of_int (int b))) n (b, bl) \<and>
      owned n (b, bl) \<subseteq> insert b (owned n (0, bl)) \<and>
      same_header img n m1 (store16 m1 (i_indirect (get_inode img (int n))) (word_of_int (int b))) \<and>
      same_outside (blocks_span img {n}) m1 (store16 m1 (i_indirect (get_inode img (int n))) (word_of_int (int b)))"
      by (auto simp: owned.simps)
  qed (use that in auto)
qed

lemma step_table:
  assumes "disk_ok img m L" and "L n = Some (ib, bl)" and "free_blocks img m \<noteq> {}"
    and "ib \<noteq> 0" and "12 \<le> length bl" and "length bl < 140"
  obtains b m1 where "alloc_free_block img m = (int b, m1)" and "b \<in> free_blocks img m"
    and "grows img m L n (ib, bl @ [b]) {ib} {b}
      (store32 m1 (get_block img (int ib) + 4 * of_nat (length bl - 12)) (word_of_int (int b)))"
proof -
  note lb = layout_bounds [OF assms(1,2)]
  show thesis
  proof (rule grows_step [OF assms(1-3), where C = "{ib}" and l' = "\<lambda>b. (ib, bl @ [b])" and
      f = "\<lambda>m b. store32 m (get_block img (int ib) + 4 * of_nat (length bl - 12)) (word_of_int (int b))"])
    fix b m1
    assume b: "3 \<le> b" "b < BLOCK_NUM" "b \<notin> owned n (ib, bl)" "ptrs_ok img m1 n (ib, bl)"
    have "b \<notin> set (ib # n # bl)" using b(1,3) by (auto simp: owned.simps split: if_splits)
    from ptrs_add_table [OF b(4) assms(4-6) lb(2,3) b(2) this]
    show "ptrs_ok img (store32 m1 (get_block img (int ib) + 4 * of_nat (length bl - 12)) (word_of_int (int b))) n
        (ib, bl @ [b]) \<and> owned n (ib, bl @ [b]) \<subseteq> insert b (owned n (ib, bl)) \<and>
      same_header img n m1 (store32 m1 (get_block img (int ib) + 4 * of_nat (length bl - 12)) (word_of_int (int b))) \<and>
      same_outside (blocks_span img {ib}) m1
        (store32 m1 (get_block img (int ib) + 4 * of_nat (length bl - 12)) (word_of_int (int b)))"
      by (auto simp: owned.simps)
  next
    show "{ib} \<subseteq> owned n (ib, bl)" using assms(4) by (simp add: owned.simps)
  qed (use that assms(4) in \<open>auto simp: owned.simps\<close>)
qed

section \<open>The loops\<close>

lemma grow_direct_spec:
  assumes "disk_ok img m L" and "L n = Some (ib, bl)" and "j \<le> 12" and "j \<le> length bl"
    and "num \<le> card (free_blocks img m)"
  shows "\<exists>m' new. grow_direct img m (get_inode img (int n)) [j..<12] num = (num - (12 - length bl), m') \<and>
    length new = min num (12 - length bl) \<and> grows img m L n (ib, bl @ new) {n} (set new) m' \<and> distinct new"
  using assms
proof (induction "12 - j" arbitrary: j m L bl num)
  case 0
  then have "j = 12" "12 - length bl = 0" by simp_all
  with 0 grows_refl show ?case by (auto intro!: exI [of _ "[]"])
next
  case (Suc d)
  note lb = layout_bounds [OF Suc.prems(1,2)]
  have j: "j < 12" "[j..<12] = j # [Suc j..<12]" "d = 12 - Suc j" using Suc.hyps(2) by (auto simp: upt_rec)
  have entry: "direct_entry img m n j = (if j < length bl then bl ! j else 0)"
    using disk_okD(3) [OF Suc.prems(1,2)] j(1) by (simp add: ptrs_ok.simps)
  have zero: "load16 m (i_direct (get_inode img (int n)) j) = 0 \<longleftrightarrow> direct_entry img m n j = 0"
    by (simp add: direct_entry_def unat_eq_0)
  consider "num = 0" | "0 < num" "j < length bl" | "0 < num" "j = length bl"
    using Suc.prems(4) by linarith
  then show ?case
  proof cases
    case 1
    then show ?thesis
      using grows_refl [OF Suc.prems(1,2)] by (auto simp: j(2) intro!: exI [of _ "[]"])
  next
    case 2
    then have "direct_entry img m n j \<noteq> 0" using entry lb(5) [of "bl ! j"] by auto
    then have "grow_direct img m (get_inode img (int n)) [j..<12] num =
        grow_direct img m (get_inode img (int n)) [Suc j..<12] num"
      using 2 zero by (simp add: j(2))
    with Suc.hyps(1) [of "Suc j" m L bl num] Suc.hyps(2) Suc.prems 2 j(1) show ?thesis by simp
  next
    case 3
    then have "free_blocks img m \<noteq> {}" using Suc.prems(5) by auto
    then obtain b m1 where b: "alloc_free_block img m = (int b, m1)" "b \<in> free_blocks img m"
      and g: "grows img m L n (ib, bl @ [b]) {n} {b}
        (store16 m1 (i_direct (get_inode img (int n)) (length bl)) (word_of_int (int b)))"
      using step_direct [OF Suc.prems(1,2)] 3(2) j(1) by (metis (no_types, lifting))
    define m2 where "m2 = store16 m1 (i_direct (get_inode img (int n)) (length bl)) (word_of_int (int b))"
    have step: "grow_direct img m (get_inode img (int n)) [j..<12] num =
        grow_direct img m2 (get_inode img (int n)) [Suc j..<12] (num - 1)"
      unfolding j(2) using 3 zero entry b(1) by (simp add: m2_def)
    have ok2: "disk_ok img m2 (L(n \<mapsto> (ib, bl @ [b])))" "free_blocks img m2 = free_blocks img m - {b}"
      using g by (simp_all add: grows_def m2_def)
    then have "num - 1 \<le> card (free_blocks img m2)" using Suc.prems(5) b(2) by simp
    then obtain m' new where r: "grow_direct img m2 (get_inode img (int n)) [Suc j..<12] (num - 1) =
        (num - 1 - (12 - length (bl @ [b])), m')" "length new = min (num - 1) (12 - length (bl @ [b]))"
      "grows img m2 (L(n \<mapsto> (ib, bl @ [b]))) n (ib, (bl @ [b]) @ new) {n} (set new) m'" "distinct new"
      using Suc.hyps(1) [of "Suc j" m2 "L(n \<mapsto> (ib, bl @ [b]))" "bl @ [b]" "num - 1"] ok2(1) j(1,3) 3(2)
      by auto
    have "b \<notin> set new" using r(3) ok2(2) by (auto simp: grows_def)
    moreover have "grows img m L n (ib, bl @ b # new) {n} (set (b # new)) m'"
      using grows_trans [OF g [folded m2_def] r(3)] by simp
    ultimately show ?thesis
      using step r 3 j(1) by (intro exI [of _ m'] exI [of _ "b # new"]) auto
  qed
qed

lemma grow_indirect_spec:
  assumes "disk_ok img m L" and "L n = Some (ib, bl)" and "ib \<noteq> 0" and "j \<le> 128" and "12 + j \<le> length bl"
    and "num \<le> card (free_blocks img m)" and "length bl + num \<le> 140"
  shows "\<exists>m' new. grow_indirect img m (get_block img (int ib)) [j..<128] num = m' \<and>
    length new = num \<and> grows img m L n (ib, bl @ new) {ib} (set new) m' \<and> distinct new"
  using assms
proof (induction "128 - j" arbitrary: j m L bl num)
  case 0
  then have "j = 128" "num = 0" by simp_all
  with 0 grows_refl show ?case by (auto intro!: exI [of _ "[]"])
next
  case (Suc d)
  note lb = layout_bounds [OF Suc.prems(1,2)]
  have j: "j < 128" "[j..<128] = j # [Suc j..<128]" "d = 128 - Suc j" using Suc.hyps(2) by (auto simp: upt_rec)
  have entry: "table_entry img m ib j = (if 12 + j < length bl then bl ! (12 + j) else 0)"
    using disk_okD(3) [OF Suc.prems(1,2)] j(1) Suc.prems(3) by (simp add: ptrs_ok.simps)
  have zero: "load32 m (get_block img (int ib) + 4 * of_nat j) = 0 \<longleftrightarrow> table_entry img m ib j = 0"
    by (simp add: table_entry_def unat_eq_0)
  consider "num = 0" | "0 < num" "12 + j < length bl" | "0 < num" "12 + j = length bl"
    using Suc.prems(5) by linarith
  then show ?case
  proof cases
    case 1
    then show ?thesis
      using grows_refl [OF Suc.prems(1,2)] by (auto simp: j(2) intro!: exI [of _ "[]"])
  next
    case 2
    then have "table_entry img m ib j \<noteq> 0" using entry lb(5) [of "bl ! (12 + j)"] by auto
    then have "grow_indirect img m (get_block img (int ib)) [j..<128] num =
        grow_indirect img m (get_block img (int ib)) [Suc j..<128] num"
      using 2 zero by (simp add: j(2))
    with Suc.hyps(1) [of "Suc j" m L bl num] Suc.hyps(2) Suc.prems 2 j(1) show ?thesis by simp
  next
    case 3
    then have "free_blocks img m \<noteq> {}" "12 \<le> length bl" "length bl < 140" "length bl - 12 = j"
      using Suc.prems(6,7) by auto
    then obtain b m1 where b: "alloc_free_block img m = (int b, m1)" "b \<in> free_blocks img m"
      and g: "grows img m L n (ib, bl @ [b]) {ib} {b}
        (store32 m1 (get_block img (int ib) + 4 * of_nat j) (word_of_int (int b)))"
      using step_table [OF Suc.prems(1,2) _ Suc.prems(3)] by (metis (no_types, lifting))
    define m2 where "m2 = store32 m1 (get_block img (int ib) + 4 * of_nat j) (word_of_int (int b))"
    have step: "grow_indirect img m (get_block img (int ib)) [j..<128] num =
        grow_indirect img m2 (get_block img (int ib)) [Suc j..<128] (num - 1)"
      unfolding j(2) using 3 zero entry b(1) by (simp add: m2_def)
    have ok2: "disk_ok img m2 (L(n \<mapsto> (ib, bl @ [b])))" "free_blocks img m2 = free_blocks img m - {b}"
      using g by (simp_all add: grows_def m2_def)
    then have "num - 1 \<le> card (free_blocks img m2)" using Suc.prems(6) b(2) by simp
    then obtain m' new where r: "grow_indirect img m2 (get_block img (int ib)) [Suc j..<128] (num - 1) = m'"
      "length new = num - 1"
      "grows img m2 (L(n \<mapsto> (ib, bl @ [b]))) n (ib, (bl @ [b]) @ new) {ib} (set new) m'" "distinct new"
      using Suc.hyps(1) [of "Suc j" m2 "L(n \<mapsto> (ib, bl @ [b]))" "bl @ [b]" "num - 1"] j(1,3) ok2(1) 3
        Suc.prems(3,7) by auto
    have "b \<notin> set new" using r(3) ok2(2) by (auto simp: grows_def)
    moreover have "grows img m L n (ib, bl @ b # new) {ib} (set (b # new)) m'"
      using grows_trans [OF g [folded m2_def] r(3)] by simp
    ultimately show ?thesis
      using step r 3 by (intro exI [of _ m'] exI [of _ "b # new"]) auto
  qed
qed

end
