(* ===== verification/Fs_Write.thy ===== *)
theory Fs_Write
  imports Fs_Grow
begin

text \<open>
  \<^verbatim>\<open>increase_size\<close>, \<^verbatim>\<open>read_from_inode\<close> and the file branch of \<^verbatim>\<open>sys_write\<close> on a well-formed file
  system.
\<close>

section \<open>Writing to the header of an inode\<close>

lemma disk_header:
  assumes "disk_ok img m L" and "L n = Some (ib, bl)" and "same_outside (span img (512 * n) 38) m m'"
  shows "disk_ok img m' L" and "free_blocks img m' = free_blocks img m" and "same_outside (blocks_span img {n}) m m'"
proof -
  note lb = layout_bounds [OF assms(1,2)]
  have sub: "span img (512 * n) 38 \<subseteq> blocks_span img {n}"
    using span_in_block [of 0 38 img n] by (simp add: blocks_span_def)
  show same: "same_outside (blocks_span img {n}) m m'" by (rule same_outside_mono [OF assms(3) sub])
  have "direct_entry img m' n j = direct_entry img m n j" if "j < 12" for j
    by (rule field_frame(6) [OF assms(3) lb(2) that span_disjoint]) simp
  moreover have "indirect_block img m' n = indirect_block img m n"
    by (rule field_frame(7) [OF assms(3) lb(2) span_disjoint]) simp
  moreover have "table_entry img m' ib j = table_entry img m ib j" if "j < 128" for j
    using same_block_fields(5) [OF same_block_outside [OF same, of ib] lb(3) that] lb(7) by simp
  ultimately have ptrs: "ptrs_ok img m' n (ib, bl)"
    using disk_okD(3) [OF assms(1,2)] by (auto simp: ptrs_ok.simps)
  have "n \<notin> owned n' l'" if "L n' = Some l'" "n' \<noteq> n" for n' l'
    using disk_okD(5) [OF assms(1) that(2) that(1) assms(2)] by auto
  then have n: "3 \<le> n" "n < BLOCK_NUM" "block_used img m n"
    "\<forall>n' l'. L n' = Some l' \<longrightarrow> n' \<noteq> n \<longrightarrow> n \<notin> owned n' l'"
    using disk_okD(4) [OF assms(1,2), of n] by simp_all
  have "disk_ok img m' (L(n \<mapsto> (ib, bl)))"
    by (rule disk_update(1) [OF assms(1,2) same _ ptrs _ n]) auto
  then show "disk_ok img m' L" using assms(2) by (simp add: fun_upd_idem)
  show "free_blocks img m' = free_blocks img m"
    by (rule disk_update(2) [OF assms(1,2) same _ ptrs _ n]) auto
qed

section \<open>Growing\<close>

lemma sint_small:
  fixes w :: "32 word"
  assumes "unat w < 2 ^ 31"
  shows "sint w = int (unat w)"
proof -
  obtain k where k: "unat w = k" by simp
  then have "uint w = int k" by (metis uint_nat)
  moreover have "k < 2 ^ 31" using assms k by simp
  ultimately show ?thesis unfolding sint_uint k by (simp add: signed_take_bit_int_eq_self)
qed

definition blocks_for :: "nat \<Rightarrow> nat" where
  "blocks_for k = (k + 511) div 512"

text \<open>The free blocks an inode needs to hold \<open>k\<close> blocks.\<close>

fun blocks_needed :: "layout \<Rightarrow> nat \<Rightarrow> nat" where
  "blocks_needed (ib, bl) k = (k - length bl) + (if ib = 0 \<and> 12 < k then 1 else 0)"

lemma blocks_for_le: "blocks_for k \<le> b \<longleftrightarrow> k \<le> 512 * b"
  unfolding blocks_for_def by linarith

text \<open>The indirect block is there before the loop that fills it.\<close>

definition with_indirect :: "addr \<Rightarrow> mem \<Rightarrow> addr \<Rightarrow> mem" where
  "with_indirect img m inode =
     (if load16 m (i_indirect inode) = 0
      then (let (block, m) = alloc_free_block img m in store16 m (i_indirect inode) (word_of_int block))
      else m)"

lemma with_indirect_spec:
  assumes "disk_ok img m L" and "L n = Some (ib, bl)" and "ib = 0 \<longrightarrow> free_blocks img m \<noteq> {}"
  obtains ib' N where "ib' \<noteq> 0" and "N = (if ib = 0 then {ib'} else {})" and "ib \<noteq> 0 \<longrightarrow> ib' = ib"
    and "grows img m L n (ib', bl) {n} N (with_indirect img m (get_inode img (int n)))"
proof (cases "ib = 0")
  case True
  have z: "load16 m (i_indirect (get_inode img (int n))) = 0"
    using disk_okD(3) [OF assms(1,2)] True by (simp add: ptrs_ok.simps indirect_block_def unat_eq_0)
  obtain b m1 where b: "alloc_free_block img m = (int b, m1)" "b \<in> free_blocks img m"
    "grows img m L n (b, bl) {n} {b} (store16 m1 (i_indirect (get_inode img (int n))) (word_of_int (int b)))"
    using step_indirect [OF assms(1)] assms(2,3) True by blast
  have "b \<noteq> 0" using b(2) disk_okD(2) [OF assms(1), of 0] by (auto simp: free_blocks_def intro: ccontr)
  with that [of b "{b}"] b z True show thesis by (simp add: with_indirect_def)
next
  case False
  then have "load16 m (i_indirect (get_inode img (int n))) \<noteq> 0"
    using disk_okD(3) [OF assms(1,2)] by (auto simp: ptrs_ok.simps indirect_block_def)
  with that [of ib "{}"] grows_refl [OF assms(1,2)] False show thesis by (simp add: with_indirect_def)
qed

lemma increase_size_alt:
  "increase_size img m inode w =
     (let blocks = load16 m (i_blocks inode) in
      if sint w \<le> uint blocks * 512 then m
      else
        (let num = blocks_for (unat w) - unat blocks;
             (num, m) = grow_direct img (store16 m (i_blocks inode) (blocks + of_nat num)) inode [0..<12] num
         in if num = 0 then m
            else let m = with_indirect img m inode
                 in grow_indirect img m (get_block img (uint (load16 m (i_indirect inode)))) [0..<128] num))"
proof -
  have "unat w + BLOCK_SIZE - 1 = unat w + 511" by (simp add: BLOCK_SIZE_def)
  then show ?thesis
    unfolding increase_size_def with_indirect_def blocks_for_def INDIRECT_LEN_def Let_def
    by (simp only: BLOCK_SIZE_def)
qed

text \<open>The growth proper, for a file that has too few blocks.\<close>

lemma grow_spec:
  assumes ok: "disk_ok img m L" and l: "L n = Some (ib, bl)" and N: "length bl + num \<le> 140"
    and free: "num + (if ib = 0 \<and> 12 < length bl + num then 1 else 0) \<le> card (free_blocks img m)"
  shows "\<exists>m' ib' new T.
    (case grow_direct img m (get_inode img (int n)) [0..<12] num of
       (num, m) \<Rightarrow> if num = 0 then m
         else let m = with_indirect img m (get_inode img (int n))
              in grow_indirect img m (get_block img (uint (load16 m (i_indirect (get_inode img (int n))))))
                   [0..<128] num) = m' \<and>
    length new = num \<and> set new \<subseteq> T \<and> grows img m L n (ib', bl @ new) {n, ib'} T m' \<and>
    (ib' = ib \<or> ib' \<in> T)"
proof -
  obtain m2 new where g: "grow_direct img m (get_inode img (int n)) [0..<12] num = (num - (12 - length bl), m2)"
    "length new = min num (12 - length bl)" "grows img m L n (ib, bl @ new) {n} (set new) m2" "distinct new"
    using grow_direct_spec [OF ok l, of 0 num] free by auto
  define rest where "rest = num - (12 - length bl)"
  have g3: "grows img m L n (ib, bl @ new) {n, ib} (set new) m2" by (rule grows_mono [OF g(3)]) simp
  show ?thesis
  proof (cases "rest = 0")
    case True
    then show ?thesis using g g3
      by (intro exI [of _ m2] exI [of _ ib] exI [of _ new] exI [of _ "set new"]) (auto simp: rest_def)
  next
    case False
    let ?L2 = "L(n \<mapsto> (ib, bl @ new))"
    have fin: "disk_ok img m2 ?L2" "free_blocks img m2 = free_blocks img m - set new" "set new \<subseteq> free_blocks img m"
      using g(3) by (simp_all add: grows_def)
    have len: "length new + rest = num" "12 \<le> length (bl @ new)" "12 < length bl + num"
      using g(2) False by (auto simp: rest_def)
    have "card (free_blocks img m2) = card (free_blocks img m) - length new"
      using fin g(4) by (simp add: card_Diff_subset distinct_card)
    then have card2: "rest + (if ib = 0 then 1 else 0) \<le> card (free_blocks img m2)"
      using free len by (auto split: if_splits)
    then have "ib = 0 \<longrightarrow> free_blocks img m2 \<noteq> {}" by auto
    then obtain ib' N where i: "ib' \<noteq> 0" "N = (if ib = 0 then {ib'} else {})" "ib \<noteq> 0 \<longrightarrow> ib' = ib"
      "grows img m2 ?L2 n (ib', bl @ new) {n} N (with_indirect img m2 (get_inode img (int n)))"
      using with_indirect_spec [OF fin(1)] by (metis fun_upd_same)
    define m3 where "m3 = with_indirect img m2 (get_inode img (int n))"
    let ?L3 = "?L2(n \<mapsto> (ib', bl @ new))"
    have ok3: "disk_ok img m3 ?L3" "free_blocks img m3 = free_blocks img m2 - N" "N \<subseteq> free_blocks img m2"
      using i(4) by (simp_all add: grows_def m3_def)
    have "indirect_block img m3 n = ib'" using disk_okD(3) [OF ok3(1), of n "(ib', bl @ new)"] by (simp add: ptrs_ok.simps)
    then have ui: "uint (load16 m3 (i_indirect (get_inode img (int n)))) = int ib'"
      by (auto simp: indirect_block_def)
    have card3: "rest \<le> card (free_blocks img m3)" using card2 i(2) ok3 by (auto simp: card_Diff_subset)
    obtain m4 more where r: "grow_indirect img m3 (get_block img (int ib')) [0..<128] rest = m4"
      "length more = rest" "grows img m3 ?L3 n (ib', (bl @ new) @ more) {ib'} (set more) m4"
      using grow_indirect_spec [OF ok3(1) _ i(1), of n "bl @ new" 0 rest] len N card3 by auto
    have "grows img m L n (ib', (bl @ new) @ more) ({n} \<union> {n} \<union> {ib'}) (set new \<union> N \<union> set more) m4"
      by (rule grows_trans [OF grows_trans [OF g(3) i(4) [folded m3_def]]]) (use r(3) in simp)
    then have "grows img m L n (ib', bl @ (new @ more)) {n, ib'} (set new \<union> N \<union> set more) m4"
      by (simp add: insert_commute)
    moreover have "length (new @ more) = num" using len r(2) by simp
    ultimately show ?thesis
      using g(1) False r(1) ui i(1-3)
      by (intro exI [of _ m4] exI [of _ ib'] exI [of _ "new @ more"] exI [of _ "set new \<union> N \<union> set more"])
        (auto simp: rest_def [symmetric] m3_def [symmetric] Let_def)
  qed
qed

text \<open>The blocks of a file that hold no data.\<close>

fun meta_blocks :: "nat \<Rightarrow> layout \<Rightarrow> nat set" where
  "meta_blocks n (ib, bl) = insert n (if ib = 0 then {} else {ib})"

text \<open>The bytes of the name of a file.\<close>

definition same_name :: "addr \<Rightarrow> nat \<Rightarrow> mem \<Rightarrow> mem \<Rightarrow> bool" where
  "same_name img n m m' \<longleftrightarrow> (\<forall>x \<in> span img (512 * n + 4) 32. m' x = m x)"

lemma same_name_refl [simp]: "same_name img n m m"
  by (simp add: same_name_def)

lemma same_name_trans: "same_name img n m m' \<Longrightarrow> same_name img n m' m'' \<Longrightarrow> same_name img n m m''"
  by (simp add: same_name_def)

lemma same_name_outside: "same_outside S m m' \<Longrightarrow> span img (512 * n + 4) 32 \<inter> S = {} \<Longrightarrow> same_name img n m m'"
  by (auto simp: same_name_def same_outside_def)

lemma same_name_header: "same_header img n m m' \<Longrightarrow> same_name img n m m'"
  using span_subset [of "512 * n" "512 * n + 4" 32 38 img] by (auto simp: same_name_def same_header_def)

lemma same_name_block: "same_block img m m' n \<Longrightarrow> same_name img n m m'"
  using span_in_block [of 4 32 img n] by (auto simp: same_name_def same_block_def)

lemma increase_size_spec:
  assumes ok: "disk_ok img m L" and l: "L n = Some (ib, bl)" and fb: "file_blocks img m n = length bl"
    and w: "unat w < 2 ^ 31" and N: "blocks_for (unat w) \<le> 140"
    and free: "blocks_needed (ib, bl) (blocks_for (unat w)) \<le> card (free_blocks img m)"
  shows "\<exists>m' ib' new. increase_size img m (get_inode img (int n)) w = m' \<and>
    disk_ok img m' (L(n \<mapsto> (ib', bl @ new))) \<and> length (bl @ new) = max (length bl) (blocks_for (unat w)) \<and>
    file_blocks img m' n = length (bl @ new) \<and> file_size img m' n = file_size img m n \<and>
    owned n (ib', bl @ new) \<subseteq> owned n (ib, bl) \<union> free_blocks img m \<and> set new \<subseteq> free_blocks img m \<and>
    same_outside (blocks_span img ({0, 1} \<union> meta_blocks n (ib', bl @ new))) m m' \<and> same_name img n m m'"
proof -
  note lb = layout_bounds [OF ok l]
  have sint: "sint w = int (unat w)" by (rule sint_small [OF w])
  have un: "unat (load16 m (i_blocks (get_inode img (int n)))) = length bl" using fb by (simp add: file_blocks_def)
  then have ub: "uint (load16 m (i_blocks (get_inode img (int n)))) = int (length bl)" by (metis uint_nat)
  have cond: "sint w \<le> uint (load16 m (i_blocks (get_inode img (int n)))) * 512 \<longleftrightarrow>
      blocks_for (unat w) \<le> length bl"
    using of_nat_le_iff [of "unat w" "512 * length bl", where ?'a = int]
    by (simp only: sint ub blocks_for_le of_nat_mult of_nat_numeral mult.commute)
  show ?thesis
  proof (cases "blocks_for (unat w) \<le> length bl")
    case True
    then have "increase_size img m (get_inode img (int n)) w = m"
      using cond by (simp add: increase_size_alt Let_def)
    moreover have "L(n \<mapsto> (ib, bl @ [])) = L" using l by (simp add: fun_upd_idem)
    ultimately show ?thesis using True ok fb by (intro exI [of _ m] exI [of _ ib] exI [of _ "[]"]) auto
  next
    case False
    define num where "num = blocks_for (unat w) - length bl"
    define m1 where "m1 = store16 m (i_blocks (get_inode img (int n)))
      (load16 m (i_blocks (get_inode img (int n))) + of_nat num)"
    have num: "length bl + num = blocks_for (unat w)" using False by (simp add: num_def)
    have s1: "same_outside (span img (512 * n + 36) 2) m m1"
      unfolding m1_def field_offsets by (rule store_field_block) (use lb(2) in simp_all)
    have s1h: "same_outside (span img (512 * n) 38) m m1"
      by (rule same_outside_mono [OF s1 span_subset]) simp_all
    note h1 = disk_header [OF ok l s1h]
    have "unat (load16 m (i_blocks (get_inode img (int n))) + of_nat num) = length bl + num"
      using num N un by (simp add: unat_word_ariths unat_of_nat)
    then have fb1: "file_blocks img m1 n = length bl + num" by (simp add: file_blocks_def m1_def)
    have fs1: "file_size img m1 n = file_size img m n"
      by (rule field_frame(4) [OF s1 lb(2) span_disjoint]) simp
    have "num + (if ib = 0 \<and> 12 < length bl + num then 1 else 0) \<le> card (free_blocks img m1)"
      using free h1(2) num by (simp add: num_def)
    then obtain m' ib' new T where g:
      "increase_size img m (get_inode img (int n)) w = m'"
      "length new = num" "set new \<subseteq> T" "grows img m1 L n (ib', bl @ new) {n, ib'} T m'"
      "ib' = ib \<or> ib' \<in> T"
      using grow_spec [OF h1(1) l, of num] num N False cond un
      by (simp add: increase_size_alt Let_def m1_def [symmetric] num_def [symmetric]) blast
    have ok': "disk_ok img m' (L(n \<mapsto> (ib', bl @ new)))" and T: "T \<subseteq> free_blocks img m"
      and hd: "same_header img n m1 m'" and s2: "same_outside (blocks_span img ({0, 1} \<union> {n, ib'})) m1 m'"
      using g(4) h1(2) by (simp_all add: grows_def)
    have sub: "{n} \<subseteq> {0, 1} \<union> meta_blocks n (ib', bl @ new)"
      "{0, 1} \<union> {n, ib'} \<subseteq> {0, 1} \<union> meta_blocks n (ib', bl @ new)" by auto
    have same: "same_outside (blocks_span img ({0, 1} \<union> meta_blocks n (ib', bl @ new))) m m'"
      by (rule same_outside_trans [OF same_outside_mono [OF h1(3) blocks_span_mono [OF sub(1)]]
            same_outside_mono [OF s2 blocks_span_mono [OF sub(2)]]])
    have "ib' = ib \<or> ib' \<in> free_blocks img m" using g(5) T by blast
    then have own: "owned n (ib', bl @ new) \<subseteq> owned n (ib, bl) \<union> free_blocks img m"
      using g(3) T by (auto simp: owned.simps split: if_splits)
    have nm: "same_name img n m m'"
      by (rule same_name_trans [OF same_name_outside [OF s1 span_disjoint] same_name_header [OF hd]]) simp
    have len: "length (bl @ new) = length bl + num" using g(2) by simp
    moreover have "length bl + num = max (length bl) (blocks_for (unat w))" using num False by simp
    moreover have "file_blocks img m' n = length bl + num" "file_size img m' n = file_size img m n"
      using same_header_fields [OF hd lb(2)] fb1 fs1 by simp_all
    ultimately show ?thesis
      using g(1,3) ok' own T same nm by (intro exI [of _ m'] exI [of _ ib'] exI [of _ new]) (simp only: len, blast)
  qed
qed

section \<open>The bytes of a file\<close>

lemma byte_addr_in_block:
  assumes "k < 512 * length bl" and "\<forall>b \<in> set bl. b < BLOCK_NUM"
  shows "byte_addr img ((!) bl) k \<in> block_span img (bl ! (k div 512))" and "bl ! (k div 512) \<in> set bl"
proof -
  have i: "k div 512 < length bl" using assms(1) by auto
  then show b: "bl ! (k div 512) \<in> set bl" by simp
  then show "byte_addr img ((!) bl) k \<in> block_span img (bl ! (k div 512))"
    unfolding block_span_def using assms(2) by (intro byte_addr_span) simp
qed

lemma content_length [simp]: "length (content img m n bl) = file_size img m n"
  by (simp add: content_def file_bytes_def)

lemma content_nth: "k < file_size img m n \<Longrightarrow> content img m n bl ! k = m (byte_addr img ((!) bl) k)"
  by (simp add: content_def file_bytes_def)

text \<open>A file whose blocks are not written keeps its size, its number of blocks and its contents.\<close>

lemma file_frame:
  assumes "disk_ok img m L" and "L n = Some (ib, bl)" and "same_outside (blocks_span img W) m m'"
    and "n \<notin> W" and "file_size img m n \<le> 512 * length bl"
  shows "file_size img m' n = file_size img m n" and "file_blocks img m' n = file_blocks img m n"
    and "W \<inter> set bl = {} \<Longrightarrow> content img m' n bl = content img m n bl"
proof -
  note lb = layout_bounds [OF assms(1,2)]
  have sb: "same_block img m m' n" by (rule same_block_outside [OF assms(3,4)])
  show sz: "file_size img m' n = file_size img m n" and "file_blocks img m' n = file_blocks img m n"
    using same_block_fields(1,2) [OF sb lb(2)] by simp_all
  show "content img m' n bl = content img m n bl" if W: "W \<inter> set bl = {}"
  proof (rule nth_equalityI)
    fix k assume "k < length (content img m' n bl)"
    then have k: "k < file_size img m n" using sz by simp
    with assms(5) lb(5) have b: "byte_addr img ((!) bl) k \<in> block_span img (bl ! (k div 512))" "bl ! (k div 512) \<in> set bl"
      using byte_addr_in_block(1) [of k bl img] byte_addr_in_block(2) [of k bl] by auto
    with W have "same_block img m m' (bl ! (k div 512))" by (intro same_block_outside [OF assms(3)]) auto
    with b show "content img m' n bl ! k = content img m n bl ! k" using k sz by (simp add: content_nth same_block_def)
  qed (simp add: sz)
qed

lemma fs_okD:
  assumes "fs_ok img m L"
  shows "disk_ok img m L" and "L n = Some (ib, bl) \<Longrightarrow> file_blocks img m n = length bl"
    and "L n = Some (ib, bl) \<Longrightarrow> file_size img m n \<le> 512 * length bl"
  using assms by (auto simp: fs_ok_def sizes_ok_def)

lemma inode_indirect:
  assumes "disk_ok img m L" and "L n = Some (ib, bl)"
  shows "get_block img (uint (load16 m (i_indirect (get_inode img (int n))))) = get_block img (int ib)"
proof -
  have "unat (load16 m (i_indirect (get_inode img (int n)))) = ib"
    using disk_okD(3) [OF assms] by (simp add: ptrs_ok.simps indirect_block_def)
  then show ?thesis by (metis uint_nat)
qed

section \<open>Reading\<close>

lemma read_from_inode_spec:
  assumes fs: "fs_ok img m L" and l: "L n = Some (ib, bl)" and off: "unat off \<le> file_size img m n"
    and k: "k = min (unat count) (file_size img m n - unat off)"
    and apart: "bytes_at buf k \<inter> image_span img = {}"
  shows "\<exists>m'. read_from_inode img m (get_inode img (int n)) off buf count = Inr (int k, m') \<and>
    map (\<lambda>i. m' (buf + of_nat i)) [0..<k] = take k (drop (unat off) (content img m n bl)) \<and>
    same_outside (bytes_at buf k) m m'"
proof -
  note ok = fs_okD(1) [OF fs] and sz = fs_okD(3) [OF fs l]
  note lb = layout_bounds [OF ok l]
  let ?inode = "get_inode img (int n)"
  define rest where "rest = load32 m (i_size ?inode) - off"
  define mx where "mx = (if rest < count then rest else count)"
  have szb: "file_size img m n \<le> 71680" using sz lb(6) by simp
  have ur: "unat rest = file_size img m n - unat off"
    using off by (simp add: rest_def file_size_def unat_sub word_le_nat_alt)
  have um: "unat mx = k" using k ur by (auto simp: mx_def word_less_nat_alt)
  have kb: "k \<le> 71680" using k szb by simp
  have sm: "sint mx = int k" using sint_small [of mx] um kb by simp
  have so: "\<not> sint off < 0" using sint_small [of off] off szb by simp
  show ?thesis
  proof (cases "k = 0")
    case True
    then have "read_from_inode img m ?inode off buf count = Inr (0, m)"
      using sm by (simp add: read_from_inode_def Let_def rest_def [symmetric] mx_def [symmetric])
    with True show ?thesis by simp
  next
    case False
    have "unat off div 512 * 512 + unat off mod 512 = unat off" by simp
    then have p: "512 * (unat off div 512) + unat off mod 512 + (k - 0) \<le> 512 * length bl"
      using k sz off by linarith
    have blk: "\<forall>b \<in> set bl. b < BLOCK_NUM" using lb(5) by blast
    have maps: "maps_blocks img m n ib ((!) bl) (length bl)"
      using ptrs_maps(1) [OF disk_okD(3) [OF ok l] lb(2,3) blk] by simp
    have apart': "bytes_at buf (k - 0) \<inter> image_span img = {}" using apart by simp
    obtain m' where m': "read_loop img m ?inode (get_block img (int ib)) (unat off div 512) (unat off mod 512) buf 0 k
        = Inr (k, m')"
      "\<forall>i < k. m' (buf + of_nat i) = m (byte_addr img ((!) bl) (512 * (unat off div 512) + unat off mod 512 + i))"
      "same_outside (bytes_at buf k) m m'"
      using read_loop_spec [OF maps _ _ p apart'] by auto
    have "read_from_inode img m ?inode off buf count = Inr (int k, m')"
      using False sm so um m'(1) inode_indirect [OF ok l]
      by (simp add: read_from_inode_def Let_def rest_def [symmetric] mx_def [symmetric])
    moreover have "map (\<lambda>i. m' (buf + of_nat i)) [0..<k] = take k (drop (unat off) (content img m n bl))"
      using m'(2) k by (intro nth_equalityI) (auto simp: content_nth mult.commute)
    ultimately show ?thesis using m'(3) by blast
  qed
qed

end
