(* ===== verification/Fs_Store.thy ===== *)
theory Fs_Store
  imports Fs_Write
begin

text \<open>
  The file branch of \<^verbatim>\<open>sys_write\<close> on a well-formed file system: the file grows as far as needed,
  the bytes of the buffer stand at the offset, and no other file changes.
\<close>

lemma file_size_store:
  assumes "n < BLOCK_NUM"
  shows "file_size img (store32 m (i_size (get_inode img (int n))) w) n = unat w"
    and "same_outside (span img (512 * n) 4) m (store32 m (i_size (get_inode img (int n))) w)"
proof -
  show "file_size img (store32 m (i_size (get_inode img (int n))) w) n = unat w" by (simp add: file_size_def)
  show "same_outside (span img (512 * n) 4) m (store32 m (i_size (get_inode img (int n))) w)"
    unfolding field_offsets using store_field_block(1) [of 0 4 n] assms by simp
qed

text \<open>Data blocks are written: the pointers and headers stay.\<close>

lemma disk_data:
  assumes "disk_ok img m L" and "L n = Some (ib, bl)" and "same_outside (blocks_span img (set bl)) m m'"
  shows "disk_ok img m' L" and "file_size img m' n = file_size img m n"
    and "file_blocks img m' n = file_blocks img m n" and "free_blocks img m' = free_blocks img m"
proof -
  note lb = layout_bounds [OF assms(1,2)]
  have p: "ptrs_ok img m n (ib, bl)" by (rule disk_okD(3) [OF assms(1,2)])
  then have nb: "n \<notin> set bl" "ib \<notin> set bl" by (auto simp: ptrs_ok.simps)
  have s: "same_block img m m' n" "same_block img m m' ib"
    using same_block_outside [OF assms(3)] nb by blast+
  show "file_size img m' n = file_size img m n" "file_blocks img m' n = file_blocks img m n"
    using same_block_fields(1,2) [OF s(1) lb(2)] by simp_all
  have ptrs: "ptrs_ok img m' n (ib, bl)" by (rule ptrs_frame [OF p lb(2,3) s])
  have other: "n \<notin> owned n' l'" if "L n' = Some l'" "n' \<noteq> n" for n' l'
    using disk_okD(5) [OF assms(1) that(2) that(1) assms(2)] by auto
  have own: "set bl \<subseteq> owned n (ib, bl)" by (auto simp: owned.simps)
  have used: "block_used img m n" using disk_okD(4) [OF assms(1,2), of n] by simp
  have "disk_ok img m' (L(n \<mapsto> (ib, bl)))"
    by (rule disk_update(1) [OF assms(1,2,3) own ptrs _ lb(1,2) used]) (use other in auto)
  then show "disk_ok img m' L" using assms(2) by (simp add: fun_upd_idem)
  show "free_blocks img m' = free_blocks img m"
    by (rule disk_update(2) [OF assms(1,2,3) own ptrs _ lb(1,2) used]) (use other in auto)
qed

lemma byte_addrs_blocks:
  assumes "K \<subseteq> {..<512 * length bl}" and "\<forall>b \<in> set bl. b < BLOCK_NUM"
  shows "byte_addr img ((!) bl) ` K \<subseteq> blocks_span img (set bl)"
  using byte_addr_in_block [OF _ assms(2)] assms(1) by (fastforce simp: blocks_span_def)

text \<open>What the write loop does to a file whose blocks suffice.\<close>

lemma write_data_spec:
  assumes ok: "disk_ok img m L" and l: "L n = Some (ib, bl)" and fits: "off + c \<le> 512 * length bl"
    and apart: "bytes_at buf c \<inter> image_span img = {}"
  shows "\<exists>m'. write_loop img m (get_inode img (int n)) (get_block img (int ib)) (off div 512) (off mod 512) buf 0 c =
      Inr (c, m') \<and> same_outside (blocks_span img (set bl)) m m' \<and>
    (\<forall>k < 512 * length bl. m' (byte_addr img ((!) bl) k) =
      (if off \<le> k \<and> k < off + c then m (buf + of_nat (k - off)) else m (byte_addr img ((!) bl) k)))"
proof -
  note lb = layout_bounds [OF ok l]
  have blk: "\<forall>b \<in> set bl. b < BLOCK_NUM" using lb(5) by blast
  note maps = ptrs_maps [OF disk_okD(3) [OF ok l] lb(2,3) blk]
  have p: "512 * (off div 512) + off mod 512 = off" by simp
  have fits': "512 * (off div 512) + off mod 512 + (c - 0) \<le> 512 * length bl" using fits by simp
  have apart': "bytes_at buf (c - 0) \<inter> image_span img = {}" using apart by simp
  obtain m' where m': "write_loop img m (get_inode img (int n)) (get_block img (int ib)) (off div 512) (off mod 512) buf 0 c
      = Inr (c, m')"
    "\<forall>k < c. m' (byte_addr img ((!) bl) (off + k)) = m (buf + of_nat k)"
    "same_outside (byte_addr img ((!) bl) ` {off..<off + c}) m m'"
    using write_loop_spec [OF maps(1) _ _ fits' apart' maps(2)] unfolding p by auto
  have "same_outside (blocks_span img (set bl)) m m'"
    by (rule same_outside_mono [OF m'(3) byte_addrs_blocks [OF _ blk]]) (use fits in auto)
  moreover have "m' (byte_addr img ((!) bl) k) =
      (if off \<le> k \<and> k < off + c then m (buf + of_nat (k - off)) else m (byte_addr img ((!) bl) k))"
    if k: "k < 512 * length bl" for k
  proof (cases "off \<le> k \<and> k < off + c")
    case True
    then have "k - off < c" by auto
    with True show ?thesis using m'(2) [rule_format, of "k - off"] by simp
  next
    case False
    have "byte_addr img ((!) bl) k \<notin> byte_addr img ((!) bl) ` {off..<off + c}"
    proof
      assume "byte_addr img ((!) bl) k \<in> byte_addr img ((!) bl) ` {off..<off + c}"
      then obtain j where j: "off \<le> j" "j < off + c" "byte_addr img ((!) bl) k = byte_addr img ((!) bl) j" by auto
      have "k = j"
        by (rule byte_addr_inj [OF _ _ k _ j(3)]) (use maps fits j in \<open>auto simp: separate_def maps_blocks_def\<close>)
      with j False show False by simp
    qed
    then have "m' (byte_addr img ((!) bl) k) = m (byte_addr img ((!) bl) k)"
      using m'(3) by (simp add: same_outside_def)
    then show ?thesis using False by (simp only: if_False)
  qed
  ultimately show ?thesis using m'(1) by blast
qed

text \<open>The bytes \<open>data\<close> written into \<open>old\<close> at an offset that is not past its end.\<close>

definition overwrite :: "'a list \<Rightarrow> nat \<Rightarrow> 'a list \<Rightarrow> 'a list" where
  "overwrite old off data = take off old @ data @ drop (off + length data) old"

lemma overwrite_nth:
  assumes "off \<le> length old" and "k < max (length old) (off + length data)"
  shows "overwrite old off data ! k = (if off \<le> k \<and> k < off + length data then data ! (k - off) else old ! k)"
proof -
  have "length (take off old) = off" using assms(1) by simp
  then show ?thesis using assms by (auto simp: overwrite_def nth_append min_def)
qed

lemma overwrite_length: "off \<le> length old \<Longrightarrow> length (overwrite old off data) = max (length old) (off + length data)"
  by (auto simp: overwrite_def)

section \<open>The whole write\<close>

lemma meta_disjoint:
  assumes "disk_ok img m L" and "L n = Some (ib, bl)"
  shows "({0, 1} \<union> meta_blocks n (ib, bl)) \<inter> set bl = {}"
proof -
  have "0 \<notin> set bl" "1 \<notin> set bl" using layout_bounds(5) [OF assms] by fastforce+
  moreover have "n \<notin> set bl" "ib \<notin> set bl" using disk_okD(3) [OF assms] by (auto simp: ptrs_ok.simps)
  ultimately show ?thesis by auto
qed

lemma owned_split: "owned n (ib, bl) = meta_blocks n (ib, bl) \<union> set bl"
  by (auto simp: owned.simps)

lemma blocks_in_image: "B \<subseteq> {..<BLOCK_NUM} \<Longrightarrow> blocks_span img B \<subseteq> image_span img"
  unfolding blocks_span_def block_span_def using span_image [of _ 0 512 img] by fastforce

lemma byte_addr_append: "k < 512 * length bl \<Longrightarrow> byte_addr img ((!) (bl @ new)) k = byte_addr img ((!) bl) k"
proof -
  assume "k < 512 * length bl"
  then have "k div 512 < length bl" by auto
  then show ?thesis by (simp add: byte_addr_def nth_append)
qed

lemma write_to_inode_spec:
  assumes fs: "fs_ok img m L" and l: "L n = Some (ib, bl)" and off: "unat off \<le> file_size img m n"
    and c: "unat count < 2 ^ 31" "unat off + unat count \<le> 71680"
    and free: "blocks_needed (ib, bl) (blocks_for (unat off + unat count)) \<le> card (free_blocks img m)"
    and apart: "bytes_at buf (unat count) \<inter> image_span img = {}"
  shows "\<exists>m' ib' new. write_to_inode img m (get_inode img (int n)) off buf count =
      Inr (unat count, off + count, m') \<and> fs_ok img m' (L(n \<mapsto> (ib', bl @ new))) \<and>
    content img m' n (bl @ new) =
      overwrite (content img m n bl) (unat off) (map (\<lambda>i. m (buf + of_nat i)) [0..<unat count]) \<and>
    (\<forall>n2 ib2 bl2. n2 \<noteq> n \<longrightarrow> L n2 = Some (ib2, bl2) \<longrightarrow> content img m' n2 bl2 = content img m n2 bl2) \<and>
    (\<forall>n2 \<in> dom L. same_name img n2 m m') \<and> same_outside (image_span img) m m'"
proof -
  note ok = fs_okD(1) [OF fs] and szb = fs_okD(3) [OF fs l]
  let ?inode = "get_inode img (int n)"
  define cc where "cc = unat count"
  define C where "C = content img m n bl"
  have uoc: "unat (off + count) = unat off + cc" using c by (simp add: unat_word_ariths cc_def)
  then have w31: "unat (off + count) < 2 ^ 31" using c by (simp add: cc_def)
  have "blocks_for (unat (off + count)) \<le> 140" unfolding uoc blocks_for_le using c by (simp add: cc_def)
  then obtain m1 ib' new where i: "increase_size img m ?inode (off + count) = m1"
    "disk_ok img m1 (L(n \<mapsto> (ib', bl @ new)))"
    "length (bl @ new) = max (length bl) (blocks_for (unat off + cc))"
    "file_blocks img m1 n = length (bl @ new)" "file_size img m1 n = file_size img m n"
    "owned n (ib', bl @ new) \<subseteq> owned n (ib, bl) \<union> free_blocks img m" "set new \<subseteq> free_blocks img m"
    "same_outside (blocks_span img ({0, 1} \<union> meta_blocks n (ib', bl @ new))) m m1" "same_name img n m m1"
    using increase_size_spec [OF ok l fs_okD(2) [OF fs l] w31] free uoc by (auto simp: cc_def)
  let ?L' = "L(n \<mapsto> (ib', bl @ new))" and ?bl = "bl @ new"
  have l': "?L' n = Some (ib', ?bl)" by simp
  note lb = layout_bounds [OF i(2) l']
  have fits: "unat off + cc \<le> 512 * length ?bl" using i(3) by (simp add: flip: blocks_for_le)
  have apart': "bytes_at buf cc \<inter> image_span img = {}" using apart by (simp add: cc_def)
  obtain m2 where w: "write_loop img m1 ?inode (get_block img (int ib')) (unat off div 512) (unat off mod 512) buf 0 cc = Inr (cc, m2)"
    "same_outside (blocks_span img (set ?bl)) m1 m2"
    "\<forall>k < 512 * length ?bl. m2 (byte_addr img ((!) ?bl) k) =
      (if unat off \<le> k \<and> k < unat off + cc then m1 (buf + of_nat (k - unat off)) else m1 (byte_addr img ((!) ?bl) k))"
    using write_data_spec [OF i(2) l' fits apart'] by blast
  note d2 = disk_data [OF i(2) l' w(2)]
  define m3 where "m3 = (if load32 m2 (i_size ?inode) < off + count then store32 m2 (i_size ?inode) (off + count) else m2)"
  have s3: "same_outside (span img (512 * n) 4) m2 m3"
    using file_size_store(2) [OF lb(2)] by (simp add: m3_def)
  have s3h: "same_outside (span img (512 * n) 38) m2 m3" by (rule same_outside_mono [OF s3 span_subset]) simp_all
  note h3 = disk_header [OF d2(1) l' s3h]
  have fsz2: "file_size img m2 n = file_size img m n" using d2(2) i(5) by simp
  have fsz3: "file_size img m3 n = max (file_size img m n) (unat off + cc)"
    using fsz2 file_size_store(1) [OF lb(2)] uoc
    by (auto simp: m3_def word_less_nat_alt file_size_def [of img m2, symmetric])
  have fb3: "file_blocks img m3 n = length ?bl"
    using field_frame(5) [OF s3 lb(2) span_disjoint] d2(3) i(4) by simp
  have so: "\<not> sint off < 0" using sint_small [of off] off c by simp
  have sc: "nat (sint count) = cc" using sint_small [OF c(1)] by (simp add: cc_def)
  have cnt: "of_nat cc = count" by (simp add: cc_def)
  have run: "write_to_inode img m ?inode off buf count = Inr (cc, off + count, m3)"
    using w(1) so sc cnt inode_indirect [OF i(2) l']
    by (simp add: write_to_inode_def Let_def i(1) m3_def)
  have meta: "({0, 1} \<union> meta_blocks n (ib', ?bl)) \<inter> set ?bl = {}" by (rule meta_disjoint [OF i(2) l'])
  have blk: "\<forall>b \<in> set ?bl. b < BLOCK_NUM" using lb(5) by blast
  define W where "W = {0, 1} \<union> owned n (ib', ?bl)"
  have W: "{0, 1} \<union> meta_blocks n (ib', ?bl) \<subseteq> W" "set ?bl \<subseteq> W" "{n} \<subseteq> W" unfolding W_def owned_split by auto
  have frame: "same_outside (blocks_span img W) m m3"
    by (rule same_outside_trans [OF same_outside_trans [OF same_outside_mono [OF i(8) blocks_span_mono [OF W(1)]]
            same_outside_mono [OF w(2) blocks_span_mono [OF W(2)]]] same_outside_mono [OF h3(3) blocks_span_mono [OF W(3)]]])
  have "c < BLOCK_NUM" if "c \<in> owned n (ib', ?bl)" for c using disk_okD(4) [OF i(2) l' that] by simp
  then have "W \<subseteq> {..<BLOCK_NUM}" by (auto simp: W_def BLOCK_NUM_def)
  then have Wimg: "blocks_span img W \<subseteq> image_span img" by (rule blocks_in_image)
  have img1: "same_outside (image_span img) m m1"
    by (rule same_outside_mono [OF i(8) subset_trans [OF blocks_span_mono [OF W(1)] Wimg]])
  have img01: "same_outside (image_span img) m m3" by (rule same_outside_mono [OF frame Wimg])
  have content: "content img m3 n ?bl = overwrite C (unat off) (map (\<lambda>i. m (buf + of_nat i)) [0..<cc])"
    (is "_ = overwrite C _ ?data")
  proof (rule nth_equalityI)
    show "length (content img m3 n ?bl) = length (overwrite C (unat off) ?data)"
      using off by (simp add: C_def fsz3 overwrite_length)
    fix k assume "k < length (content img m3 n ?bl)"
    then have k: "k < max (file_size img m n) (unat off + cc)" by (simp add: fsz3)
    then have kb: "k < 512 * length ?bl" using fits szb by auto
    let ?a = "byte_addr img ((!) ?bl) k"
    have a: "?a \<in> block_span img (?bl ! (k div 512))" "?bl ! (k div 512) \<in> set ?bl"
      using byte_addr_in_block(1) [OF kb blk] byte_addr_in_block(2) [OF kb blk] by auto
    have stay: "v ?a = u ?a" if "same_outside (blocks_span img B) u v" "B \<inter> set ?bl = {}" for B u v
    proof -
      have "same_block img u v (?bl ! (k div 512))" using that a(2) by (intro same_block_outside [OF that(1)]) blast
      with a(1) show ?thesis by (simp add: same_block_def)
    qed
    have "m3 ?a = m2 ?a" by (rule stay [OF h3(3)]) (use meta in auto)
    moreover have "m1 ?a = m ?a" by (rule stay [OF i(8) meta])
    moreover have "m1 (buf + of_nat (k - unat off)) = m (buf + of_nat (k - unat off))"
      if "unat off \<le> k \<and> k < unat off + cc"
    proof -
      have "unat (of_nat (k - unat off) :: u64) = k - unat off"
        using kb lb(6) by (simp add: unat_of_nat)
      then have "buf + of_nat (k - unat off) \<in> bytes_at buf cc"
        using that by (auto simp: bytes_at_def)
      then show ?thesis using apart' img1 by (auto simp: same_outside_def)
    qed
    ultimately have "m3 ?a = (if unat off \<le> k \<and> k < unat off + cc then m (buf + of_nat (k - unat off)) else m ?a)"
      using w(3) kb by simp
    moreover have "C ! k = m ?a" if "k < file_size img m n"
      using that szb by (simp add: C_def content_nth byte_addr_append)
    ultimately show "content img m3 n ?bl ! k = overwrite C (unat off) ?data ! k"
      using k off fsz3 by (subst overwrite_nth) (auto simp: content_nth C_def)
  qed
  have apart_n: "W \<inter> owned n2 l2 = {}" if n2: "n2 \<noteq> n" "L n2 = Some l2" for n2 l2
  proof -
    have "3 \<le> c" if "c \<in> owned n2 l2" for c using disk_okD(4) [OF ok n2(2) that] by simp
    moreover have "owned n2 l2 \<inter> owned n (ib', ?bl) = {}"
      using disk_okD(5) [OF i(2) n2(1) _ l'] n2 by simp
    ultimately show ?thesis unfolding W_def by fastforce
  qed
  have names: "same_name img n2 m m3" if "n2 \<in> dom L" for n2
  proof (cases "n2 = n")
    case True
    have "n \<notin> set ?bl" using meta by auto
    then have "same_name img n m1 m2" by (rule same_name_block [OF same_block_outside [OF w(2)]])
    moreover have "same_name img n m2 m3" by (rule same_name_outside [OF s3 span_disjoint]) simp
    ultimately show ?thesis unfolding True using same_name_trans i(9) by blast
  next
    case False
    obtain ib2 bl2 where l2: "L n2 = Some (ib2, bl2)" using \<open>n2 \<in> dom L\<close> by fastforce
    then have "n2 \<notin> W" using apart_n [OF False l2] by (auto simp: owned.simps)
    then show ?thesis by (rule same_name_block [OF same_block_outside [OF frame]])
  qed
  have others: "file_size img m3 n2 = file_size img m n2 \<and> file_blocks img m3 n2 = file_blocks img m n2 \<and>
      content img m3 n2 bl2 = content img m n2 bl2" if n2: "n2 \<noteq> n" "L n2 = Some (ib2, bl2)" for n2 ib2 bl2
  proof -
    have "W \<inter> owned n2 (ib2, bl2) = {}" by (rule apart_n [OF n2])
    then have "n2 \<notin> W" "W \<inter> set bl2 = {}" by (auto simp: owned.simps)
    then show ?thesis using file_frame [OF ok n2(2) frame _ fs_okD(3) [OF fs n2(2)]] by simp
  qed
  have "sizes_ok img m3 ?L'"
    unfolding sizes_ok_def using others fs_okD(2,3) [OF fs] fb3 fsz3 fits szb by (auto simp: nth_append)
  then have fs3: "fs_ok img m3 ?L'" using h3(1) unfolding fs_ok_def by blast
  show ?thesis using run content others fs3 img01 names unfolding cc_def C_def by blast
qed

end
