(* ===== verification/Fs_Names.thy ===== *)
theory Fs_Names
  imports Fs_Store
begin

text \<open>
  Files by name: what \<^verbatim>\<open>lookup\<close> finds in a well-formed file system, and the file \<^verbatim>\<open>create\<close> adds.
\<close>

section \<open>An inode of zeros\<close>

lemma load_zero:
  assumes "\<forall>x \<in> block_span img b. m x = 0" and "bo + k \<le> 512" and "b < BLOCK_NUM"
  shows "load_bytes k m (img + of_nat (512 * b + bo)) = (0 :: 'a::len word)"
proof (cases "k = 0")
  case False
  have "load_bytes k m (img + of_nat (512 * b + bo)) = (load_bytes k (\<lambda>_. 0) (img + of_nat (512 * b + bo)) :: 'a word)"
  proof (rule load_bytes_cong)
    fix x assume "x \<in> bytes_at (img + of_nat (512 * b + bo)) k"
    moreover have "bytes_at (img + of_nat (512 * b + bo)) k = span img (512 * b + bo) k"
      using assms(2,3) False by (intro bytes_at_span) (simp_all add: BLOCK_NUM_def)
    ultimately show "m x = 0" using assms(1) span_in_block [OF assms(2), of img b] by auto
  qed (use assms(2) in simp)
  moreover have "load_bytes k (\<lambda>_. 0) p = (0 :: 'a word)" for p
    by (rule bit_word_eqI) (simp add: bit_load_bytes)
  ultimately show ?thesis by simp
qed (simp add: load_bytes_def)

lemma zero_inode:
  assumes "\<forall>x \<in> block_span img b. m x = 0" and "b < BLOCK_NUM"
  shows "0 < b \<Longrightarrow> ptrs_ok img m b (0, [])" and "file_size img m b = 0" and "file_blocks img m b = 0"
proof -
  have z16: "load16 m (img + of_nat (512 * b + bo)) = 0" if "bo + 2 \<le> 512" for bo
    by (rule load_zero [OF assms(1) that assms(2)])
  have z32: "load32 m (img + of_nat (512 * b + 0)) = 0" by (rule load_zero [OF assms(1) _ assms(2)]) simp
  show "file_size img m b = 0" "file_blocks img m b = 0"
    unfolding file_size_def file_blocks_def field_offsets using z32 z16 [of 36] by simp_all
  have "indirect_block img m b = 0" unfolding indirect_block_def field_offsets using z16 [of 62] by simp
  moreover have "direct_entry img m b i = 0" if "i < 12" for i
    unfolding direct_entry_def field_offsets using z16 [of "38 + 2 * i"] that by (simp add: add.assoc)
  ultimately show "0 < b \<Longrightarrow> ptrs_ok img m b (0, [])" by (simp add: ptrs_ok.simps)
qed

text \<open>Taking an inode adds an empty file.\<close>

lemma take_inode:
  assumes ok: "disk_ok img m L" and free: "free_blocks img m \<noteq> {}" and slot: "\<exists>i < FAT_LEN. fat_entry img m i = 0"
  obtains b m' where "alloc_inode img m = (int b, m')" and "b \<in> free_blocks img m" and "L b = None"
    and "disk_ok img m' (L(b \<mapsto> (0, [])))" and "free_blocks img m' = free_blocks img m - {b}"
    and "same_outside (blocks_span img {0, 1, 2}) m m'" and "\<forall>x \<in> block_span img b. m' x = 0"
    and "3 \<le> b" and "b < BLOCK_NUM"
    and "card {i. i < FAT_LEN \<and> fat_entry img m i = 0} = Suc (card {i. i < FAT_LEN \<and> fat_entry img m' i = 0})"
proof -
  note d = disk_okD [OF ok]
  define b where "b = Min (free_blocks img m)"
  have b: "b \<in> free_blocks img m" using free by (simp add: b_def)
  then have bn: "b < BLOCK_NUM" "\<not> block_used img m b" by (auto simp: free_blocks_def)
  have b3: "3 \<le> b" using d(2) [of b] bn(2) by (cases "b < 3") auto
  have unowned: "b \<notin> owned n l" if "L n = Some l" for n l using d(4) [OF that] bn(2) by blast
  have none: "L b = None" using unowned [of b] by (cases "L b") auto
  obtain i m' where i: "alloc_inode img m = (int b, m')" "i < FAT_LEN" "fat_entry img m i = 0"
    "\<forall>j < FAT_LEN. fat_entry img m' j = (if j = i then b else fat_entry img m j)" "bitmap_ok img m'"
    "free_blocks img m' = free_blocks img m - {b}" "same_outside (alloc_span img \<union> span img 1024 512) m m'"
    "\<forall>j < i. fat_entry img m j \<noteq> 0"
    by (rule alloc_inode_spec [OF d(1) free slot, folded b_def]) (rule that; assumption)
  have "span img 1024 512 = block_span img 2" by (simp add: block_span_def)
  then have "alloc_span img \<union> span img 1024 512 \<subseteq> blocks_span img {0, 1, 2}"
    using alloc_span_blocks [of img] by (auto simp: blocks_span_def)
  with i(7) have s: "same_outside (blocks_span img {0, 1, 2}) m m'" by (rule same_outside_mono)
  have same: "same_block img m m' c" if "3 \<le> c" for c using same_block_outside [OF s, of c] that by simp
  have zero: "m' x = 0" if "c \<in> free_blocks img m" "x \<in> block_span img c" for c x
  proof -
    have "3 \<le> c" using d(2) [of c] that(1) by (cases "c < 3") (auto simp: free_blocks_def)
    then show ?thesis using same [of c] d(6) [OF that] that(2) by (simp add: same_block_def)
  qed
  have used: "block_used img m' c \<longleftrightarrow> c = b \<or> block_used img m c" if "c < BLOCK_NUM" for c
    using i(6) that b by (auto simp: free_blocks_def)
  have ptrs: "ptrs_ok img m' n l" if l: "L n = Some l" for n l
  proof -
    obtain ib bl where eq: "l = (ib, bl)" by (cases l)
    note lb = layout_bounds [OF ok l [unfolded eq]]
    show ?thesis unfolding eq
      by (rule ptrs_frame [OF d(3) [OF l, unfolded eq] lb(2,3)]) (use same lb in auto)
  qed
  let ?L = "L(b \<mapsto> (0, []))"
  have own0: "owned b (0, []) = {b}" by (simp add: owned.simps)
  have "disk_ok img m' ?L"
    unfolding disk_ok_def
  proof (intro conjI)
    show "bitmap_ok img m'" by fact
    show "\<forall>b < 3. block_used img m' b" using used d(2) by (auto simp: BLOCK_NUM_def)
    show "\<forall>n l. ?L n = Some l \<longrightarrow> ptrs_ok img m' n l \<and>
        (\<forall>b \<in> owned n l. 3 \<le> b \<and> b < BLOCK_NUM \<and> block_used img m' b)"
    proof (intro allI impI)
      fix n l assume l: "?L n = Some l"
      show "ptrs_ok img m' n l \<and> (\<forall>b \<in> owned n l. 3 \<le> b \<and> b < BLOCK_NUM \<and> block_used img m' b)"
      proof (cases "n = b")
        case True
        have "ptrs_ok img m' b (0, [])" by (rule zero_inode(1) [OF _ bn(1)]) (use zero b b3 in auto)
        then show ?thesis using l True own0 b3 bn(1) used [OF bn(1)] by auto
      next
        case False
        then have "L n = Some l" using l by simp
        then show ?thesis using ptrs d(4) used by blast
      qed
    qed
    show "\<forall>n n' l l'. n \<noteq> n' \<longrightarrow> ?L n = Some l \<longrightarrow> ?L n' = Some l' \<longrightarrow> owned n l \<inter> owned n' l' = {}"
      using d(5) unowned own0 by (auto split: if_splits)
    show "\<forall>b \<in> free_blocks img m'. \<forall>x \<in> block_span img b. m' x = 0" using zero i(6) by blast
    show "fat_ok img m' (dom ?L)"
      unfolding fat_ok_def
    proof (intro conjI ballI allI impI)
      have f: "fat_ok img m (dom L)" by (rule d(7))
      then have uniq: "\<forall>j < FAT_LEN. \<forall>k < FAT_LEN. fat_entry img m j = fat_entry img m k \<longrightarrow> fat_entry img m j = 0 \<or> j = k"
        and prefix: "\<forall>j < FAT_LEN. \<forall>k < FAT_LEN. k < j \<longrightarrow> fat_entry img m j \<noteq> 0 \<longrightarrow> fat_entry img m k \<noteq> 0"
        unfolding fat_ok_def by blast+
      have nb: "fat_entry img m j \<noteq> b" if "j < FAT_LEN" for j
        using f that none b3 unfolding fat_ok_def by (metis domIff not_numeral_le_zero)
      show "fat_entry img m' j \<in> dom ?L" if "j < FAT_LEN" "fat_entry img m' j \<noteq> 0" for j
        using f that i(4) unfolding fat_ok_def by auto
      show "\<exists>j < FAT_LEN. fat_entry img m' j = n" if n: "n \<in> dom ?L" for n
      proof (cases "n = b")
        case True
        then show ?thesis using i(2,4) by auto
      next
        case False
        then have "n \<in> dom L" using n by (auto split: if_splits)
        then obtain j where j: "j < FAT_LEN" "fat_entry img m j = n" using f unfolding fat_ok_def by blast
        moreover have "n \<noteq> 0" using n False layout_bounds(1) [OF ok, of n] by force
        ultimately have "fat_entry img m' j = n" using i(3,4) by auto
        with j(1) show ?thesis by blast
      qed
      show "fat_entry img m' j = 0 \<or> j = k"
        if "j < FAT_LEN" "k < FAT_LEN" "fat_entry img m' j = fat_entry img m' k" for j k
        using uniq that i(4) nb [of j] nb [of k] by (auto split: if_splits)
      show "fat_entry img m' k \<noteq> 0"
        if "j < FAT_LEN" "k < FAT_LEN" "k < j" "fat_entry img m' j \<noteq> 0" for j k
      proof (cases "j = i")
        case True
        then show ?thesis using that(2,3) i(4,8) b3 by auto
      next
        case False
        then have "fat_entry img m j \<noteq> 0" using that(1,4) i(4) by simp
        then have "fat_entry img m k \<noteq> 0" using prefix that(1-3) by blast
        then show ?thesis using that(2) i(4) b3 by auto
      qed
    qed
  qed
  moreover have "{j. j < FAT_LEN \<and> fat_entry img m j = 0} = insert i {j. j < FAT_LEN \<and> fat_entry img m' j = 0}"
    "i \<notin> {j. j < FAT_LEN \<and> fat_entry img m' j = 0}"
    using i(2,3,4) b3 by (auto split: if_splits)
  then have "card {j. j < FAT_LEN \<and> fat_entry img m j = 0} = Suc (card {j. j < FAT_LEN \<and> fat_entry img m' j = 0})"
    by simp
  moreover have "\<forall>x \<in> block_span img b. m' x = 0" using zero b by blast
  ultimately show thesis using that [OF i(1) b none _ i(6) s _ b3 bn(1)] by blast
qed

section \<open>Names\<close>

definition file_name :: "addr \<Rightarrow> mem \<Rightarrow> nat \<Rightarrow> u8 list \<Rightarrow> bool" where
  "file_name img m n bs \<longleftrightarrow> length bs < 32 \<and> is_cstring (string_at m (i_filename (get_inode img (int n)))) bs"

lemma is_cstring_unique: "is_cstring f as \<Longrightarrow> is_cstring f bs \<Longrightarrow> as = bs"
proof (induction as arbitrary: f bs)
  case Nil
  then show ?case by (cases bs) (auto simp: is_cstring_Nil is_cstring_Cons)
next
  case (Cons a as)
  then show ?case by (cases bs) (auto simp: is_cstring_Nil is_cstring_Cons)
qed

lemma filename_byte: "i < 32 \<Longrightarrow> n < BLOCK_NUM \<Longrightarrow>
    i_filename (get_inode img (int n)) + of_nat i \<in> span img (512 * n + 4) 32"
proof -
  assume "i < 32" "n < BLOCK_NUM"
  then show ?thesis
    using offset_in_span [of "512 * n + 4" i 32 img] by (simp add: field_offsets add.assoc BLOCK_NUM_def)
qed

lemma file_name_frame:
  assumes "same_outside S m m'" and "span img (512 * n + 4) 32 \<inter> S = {}" and "n < BLOCK_NUM"
  shows "file_name img m' n bs = file_name img m n bs"
proof -
  have "m' (i_filename (get_inode img (int n)) + of_nat i) = m (i_filename (get_inode img (int n)) + of_nat i)"
    if "i < 32" for i
    using filename_byte [OF that assms(3), of img] assms(1,2) by (auto simp: same_outside_def)
  then show ?thesis by (auto simp: file_name_def is_cstring_def string_at_def)
qed

lemma file_name_block: "same_block img m m' n \<Longrightarrow> n < BLOCK_NUM \<Longrightarrow> file_name img m' n bs = file_name img m n bs"
  by (rule file_name_frame [of "- block_span img n"])
    (use span_in_block [of 4 32 img n] in \<open>auto simp: same_block_iff\<close>)

lemma file_name_same: "same_name img n m m' \<Longrightarrow> n < BLOCK_NUM \<Longrightarrow> file_name img m' n bs = file_name img m n bs"
  by (rule file_name_frame [of "- span img (512 * n + 4) 32"]) (auto simp: same_name_def same_outside_def)

section \<open>Lookup\<close>

text \<open>With terminated names the search visits the files in the order of the table.\<close>

lemma lookup_from_spec:
  assumes "fat_ok img m (dom L)" and "\<forall>n \<in> dom L. file_name img m n (nm n)" and "is_cstring name bs"
  shows "lookup_from img m name i =
    Inr (case find (\<lambda>j. fat_entry img m j \<noteq> 0 \<and> nm (fat_entry img m j) = bs) [i..<FAT_LEN] of
           None \<Rightarrow> 0 | Some j \<Rightarrow> get_inode img (int (fat_entry img m j)))"
proof (induction "FAT_LEN - i" arbitrary: i)
  case 0
  then show ?case by (subst lookup_from.simps) simp
next
  case (Suc d)
  then have i: "i < FAT_LEN" by simp
  then have upt: "[i..<FAT_LEN] = i # [i + 1..<FAT_LEN]" by (simp add: upt_rec)
  have IH: "lookup_from img m name (i + 1) =
    Inr (case find (\<lambda>j. fat_entry img m j \<noteq> 0 \<and> nm (fat_entry img m j) = bs) [i + 1..<FAT_LEN] of
           None \<Rightarrow> 0 | Some j \<Rightarrow> get_inode img (int (fat_entry img m j)))"
    using Suc by simp
  have zero: "load16 m (fat img i) = 0 \<longleftrightarrow> fat_entry img m i = 0" by (simp add: fat_entry_def unat_eq_0)
  show ?case
  proof (cases "fat_entry img m i = 0")
    case True
    then show ?thesis using i zero IH by (subst lookup_from.simps) (simp add: upt)
  next
    case False
    then have "fat_entry img m i \<in> dom L" using assms(1) i by (simp add: fat_ok_def)
    then have "is_cstring (string_at m (i_filename (get_inode img (int (fat_entry img m i))))) (nm (fat_entry img m i))"
      using assms(2) by (simp add: file_name_def)
    from strcmp_spec [OF this assms(3)]
    have cmp: "strcmp (string_at m (i_filename (get_inode img (int (fat_entry img m i))))) name =
        Inr (dictionary (nm (fat_entry img m i)) bs)" .
    have "uint (load16 m (fat img i)) = int (fat_entry img m i)" by (simp add: fat_entry_def)
    then have "lookup_from img m name i =
        (if dictionary (nm (fat_entry img m i)) bs = 0 then Inr (get_inode img (int (fat_entry img m i)))
         else lookup_from img m name (i + 1))"
      using i zero False cmp by (subst lookup_from.simps) (simp add: Let_def)
    then show ?thesis using IH False by (simp add: upt dictionary_0_iff)
  qed
qed

lemma lookup_spec:
  assumes "fat_ok img m (dom L)" and "\<forall>n \<in> dom L. file_name img m n (nm n)" and "is_cstring name bs"
    and "inj_on nm (dom L)" and "0 \<notin> dom L"
  shows "n \<in> dom L \<Longrightarrow> nm n = bs \<Longrightarrow> lookup img m name = Inr (get_inode img (int n))"
    and "bs \<notin> nm ` dom L \<Longrightarrow> lookup img m name = Inr 0"
proof -
  let ?P = "\<lambda>j. fat_entry img m j \<noteq> 0 \<and> nm (fat_entry img m j) = bs"
  have in_dom: "fat_entry img m j \<in> dom L" if "j < FAT_LEN" "fat_entry img m j \<noteq> 0" for j
    using assms(1) that by (simp add: fat_ok_def)
  show "lookup img m name = Inr (get_inode img (int n))" if n: "n \<in> dom L" "nm n = bs"
  proof -
    obtain j where j: "j < FAT_LEN" "fat_entry img m j = n" using assms(1) n(1) unfolding fat_ok_def by blast
    have "n \<noteq> 0" using n(1) assms(5) by metis
    then have Pj: "?P j" using j n by simp
    have "find ?P [0..<FAT_LEN] \<noteq> None" using j(1) Pj by (auto simp: find_None_iff)
    then obtain k where k: "find ?P [0..<FAT_LEN] = Some k" by blast
    then have "k < FAT_LEN" "?P k" by (auto simp: find_Some_iff)
    then have "fat_entry img m k = n" using in_dom assms(4) n by (auto simp: inj_on_def)
    then show ?thesis using k by (simp add: lookup_def lookup_from_spec [OF assms(1-3)])
  qed
  show "lookup img m name = Inr 0" if "bs \<notin> nm ` dom L"
  proof -
    have "find ?P [0..<FAT_LEN] = None" using that in_dom by (auto simp: find_None_iff)
    then show ?thesis by (simp add: lookup_def lookup_from_spec [OF assms(1-3)])
  qed
qed

section \<open>Creation\<close>

lemma store_zero:
  assumes "\<And>x. x \<in> bytes_at a k \<Longrightarrow> m x = 0"
  shows "store_bytes k m a 0 = m"
  using assms by (auto simp: store_bytes_def bytes_at_def)

lemma store_zero_block:
  assumes "\<forall>x \<in> span img (512 * n + bo) k. m x = 0" and "bo + k \<le> 512" and "n < BLOCK_NUM" and "0 < k"
  shows "store_bytes k m (img + of_nat (512 * n + bo)) 0 = m"
proof (rule store_zero)
  have "bytes_at (img + of_nat (512 * n + bo)) k = span img (512 * n + bo) k"
    using assms(2-4) by (intro bytes_at_span) (simp_all add: BLOCK_NUM_def)
  then show "m x = 0" if "x \<in> bytes_at (img + of_nat (512 * n + bo)) k" for x using assms(1) that by simp
qed

lemma clear_direct_zero:
  assumes "\<forall>x \<in> span img (512 * n + 38) 24. m x = 0" and "n < BLOCK_NUM"
  shows "clear_direct m (get_inode img (int n)) = m"
proof -
  have "store16 m (i_direct (get_inode img (int n)) i) 0 = m" if "i < 12" for i
  proof -
    have "span img (512 * n + (38 + 2 * i)) 2 \<subseteq> span img (512 * n + 38) 24"
      using that by (intro span_subset) auto
    then have z: "\<forall>x \<in> span img (512 * n + (38 + 2 * i)) 2. m x = 0" using assms(1) by blast
    show ?thesis
      unfolding field_offsets add.assoc by (rule store_zero_block [OF z _ assms(2)]) (use that in simp_all)
  qed
  then have "fold (\<lambda>i m. store16 m (i_direct (get_inode img (int n)) i) 0) is m = m" if "set is \<subseteq> {..<12}" for "is"
    using that by (induction "is") auto
  then show ?thesis by (simp add: clear_direct_def atLeast0LessThan)
qed

text \<open>The files that were there stay as they were.\<close>

definition same_files :: "addr \<Rightarrow> mem \<Rightarrow> mem \<Rightarrow> (nat \<Rightarrow> layout option) \<Rightarrow> bool" where
  "same_files img m m' L \<longleftrightarrow> (\<forall>n ib bl. L n = Some (ib, bl) \<longrightarrow>
     file_size img m' n = file_size img m n \<and> file_blocks img m' n = file_blocks img m n \<and>
     content img m' n bl = content img m n bl \<and> (\<forall>bs. file_name img m' n bs = file_name img m n bs))"

lemma same_filesI:
  assumes "disk_ok img m L" and "sizes_ok img m L" and "same_outside (blocks_span img W) m m'"
    and "\<forall>n l. L n = Some l \<longrightarrow> W \<inter> owned n l = {}"
  shows "same_files img m m' L"
  unfolding same_files_def
proof (intro allI impI)
  fix n ib bl assume l: "L n = Some (ib, bl)"
  have W: "n \<notin> W" "W \<inter> set bl = {}" using assms(4) l by (auto simp: owned.simps)
  have "file_size img m n \<le> 512 * length bl" using assms(2) l by (simp add: sizes_ok_def)
  note f = file_frame [OF assms(1) l assms(3) W(1) this]
  have "file_name img m' n bs = file_name img m n bs" for bs
    by (rule file_name_block [OF same_block_outside [OF assms(3) W(1)] layout_bounds(2) [OF assms(1) l]])
  then show "file_size img m' n = file_size img m n \<and> file_blocks img m' n = file_blocks img m n \<and>
      content img m' n bl = content img m n bl \<and> (\<forall>bs. file_name img m' n bs = file_name img m n bs)"
    using f W(2) by blast
qed

lemma create_spec:
  assumes fs: "fs_ok img m L" and free: "free_blocks img m \<noteq> {}" and slot: "\<exists>i < FAT_LEN. fat_entry img m i = 0"
    and nm: "is_cstring (string_at m name) bs" "length bs < 32"
    and apart: "bytes_at name (length bs + 1) \<inter> image_span img = {}"
  shows "\<exists>n m'. create img m name = Inr (get_inode img (int n), m') \<and> n \<in> free_blocks img m \<and> L n = None \<and>
    fs_ok img m' (L(n \<mapsto> (0, []))) \<and> file_name img m' n bs \<and> file_size img m' n = 0 \<and>
    same_files img m m' L \<and> free_blocks img m' = free_blocks img m - {n} \<and>
    same_outside (image_span img) m m'"
proof -
  note ok = fs_okD(1) [OF fs]
  obtain n m1 where n: "alloc_inode img m = (int n, m1)" "n \<in> free_blocks img m" "L n = None"
    "disk_ok img m1 (L(n \<mapsto> (0, [])))" "free_blocks img m1 = free_blocks img m - {n}"
    "same_outside (blocks_span img {0, 1, 2}) m m1" "\<forall>x \<in> block_span img n. m1 x = 0" "3 \<le> n" "n < BLOCK_NUM"
    by (rule take_inode [OF ok free slot])
  let ?L = "L(n \<mapsto> (0, []))" and ?inode = "get_inode img (int n)"
  have l: "?L n = Some (0, [])" by simp
  have zero: "\<forall>x \<in> span img (512 * n + bo) k. m1 x = 0" if "bo + k \<le> 512" for bo k
    using n(7) span_in_block [OF that, of img n] by blast
  have e1: "store16 m1 (i_blocks ?inode) 0 = m1"
    unfolding field_offsets by (rule store_zero_block [OF zero _ n(9)]) simp_all
  have e2: "store32 m1 (i_size ?inode) 0 = m1"
    using store_zero_block [OF zero [of 0 4] _ n(9)] by (simp add: field_offsets)
  have low: "blocks_span img {0, 1, 2} \<subseteq> image_span img" by (rule blocks_in_image) (auto simp: BLOCK_NUM_def)
  have m1n: "m1 x = m x" if "x \<in> bytes_at name (length bs + 1)" for x
    using n(6) low apart that unfolding same_outside_def by blast
  have nm1: "is_cstring (string_at m1 name) bs"
  proof -
    have "m1 (name + of_nat i) = m (name + of_nat i)" if "i \<le> length bs" for i
      by (rule m1n) (use that nm(2) in \<open>simp add: bytes_at_def unat_of_nat\<close>)
    then show ?thesis using nm(1) by (simp add: is_cstring_def string_at_def)
  qed
  have fb: "bytes_at (i_filename ?inode) (length bs + 1) = span img (512 * n + 4) (length bs + 1)"
    unfolding field_offsets by (rule bytes_at_span) (use n(9) nm(2) in \<open>simp_all add: BLOCK_NUM_def\<close>)
  have sub: "span img (512 * n + 4) (length bs + 1) \<subseteq> span img (512 * n) 38" by (rule span_subset) (use nm(2) in simp_all)
  have inb: "span img (512 * n) 38 \<subseteq> block_span img n" using span_in_block [of 0 38 img n] by simp
  have bimg: "block_span img n \<subseteq> image_span img"
    using blocks_in_image [of "{n}" img] n(9) by (auto simp: blocks_span_def)
  have "bytes_at name (length bs + 1) \<inter> bytes_at (i_filename ?inode) (length bs + 1) = {}"
    using apart fb sub inb bimg by blast
  with strcpy_loop_spec [OF nm1] nm(2) obtain m2 where m2: "strcpy m1 (i_filename ?inode) name = Inr m2"
    "is_cstring (string_at m2 (i_filename ?inode)) bs" "same_outside (bytes_at (i_filename ?inode) (length bs + 1)) m1 m2"
    by (auto simp: strcpy_def)
  have s2: "same_outside (span img (512 * n) 38) m1 m2" using m2(3) sub unfolding fb by (rule same_outside_mono)
  have zero2: "\<forall>x \<in> span img (512 * n + bo) k. m2 x = 0" if "bo + k \<le> 512" "38 \<le> bo" for bo k
  proof -
    have "span img (512 * n + bo) k \<inter> span img (512 * n) 38 = {}" by (rule span_disjoint) (use that(2) in linarith)
    then show ?thesis using zero [OF that(1)] s2 unfolding same_outside_def by (metis disjoint_iff)
  qed
  have "clear_direct m2 ?inode = m2" by (rule clear_direct_zero [OF zero2 n(9)]) simp_all
  moreover have "store16 m2 (i_indirect ?inode) 0 = m2"
    unfolding field_offsets by (rule store_zero_block [OF zero2 _ n(9)]) simp_all
  ultimately have run: "create img m name = Inr (?inode, m2)"
    by (simp add: create_def n(1) e1 e2 m2(1) Let_def)
  note h = disk_header [OF n(4) l s2]
  have "file_size img m1 n = 0" "file_blocks img m1 n = 0" using zero_inode [OF n(7,9)] by simp_all
  then have sz: "file_size img m2 n = 0" "file_blocks img m2 n = 0"
  proof -
    have d: "span img (512 * n) 4 \<inter> span img (512 * n + 4) (length bs + 1) = {}"
      "span img (512 * n + 36) 2 \<inter> span img (512 * n + 4) (length bs + 1) = {}"
      using nm(2) by (intro span_disjoint; simp)+
    show "file_size img m2 n = 0" "file_blocks img m2 n = 0"
      using field_frame(4,5) [OF m2(3) n(9)] d zero_inode(2,3) [OF n(7,9)] unfolding fb by simp_all
  qed
  have W: "same_outside (blocks_span img {0, 1, 2, n}) m m2"
    by (rule same_outside_trans [OF same_outside_mono [OF n(6) blocks_span_mono] same_outside_mono [OF h(3) blocks_span_mono]]) auto
  have same: "same_files img m m2 L"
  proof (rule same_filesI [OF ok _ W])
    show "sizes_ok img m L" using fs by (simp add: fs_ok_def)
    show "\<forall>n' l'. L n' = Some l' \<longrightarrow> {0, 1, 2, n} \<inter> owned n' l' = {}"
      using disk_okD(4) [OF ok] n(2) by (fastforce simp: free_blocks_def)
  qed
  then have "sizes_ok img m2 ?L" using fs sz by (auto simp: sizes_ok_def fs_ok_def same_files_def)
  then have "fs_ok img m2 ?L" using h(1) unfolding fs_ok_def by blast
  moreover have "same_outside (image_span img) m m2"
    by (rule same_outside_mono [OF W blocks_in_image]) (use n(9) in \<open>auto simp: BLOCK_NUM_def\<close>)
  ultimately show ?thesis
    using run n(2,3,5) sz same h(2) m2(2) nm(2) unfolding file_name_def by blast
qed

end
