(* ===== verification/Mkfs_Blocks.thy ===== *)
theory Mkfs_Blocks
  imports Mkfs Fs_Names
begin

text \<open>
  The two programs that write the image agree: with the counter of \<^verbatim>\<open>tool/mkfs.c\<close> stored in the
  superblock, its allocation of blocks and inodes is that of \<^verbatim>\<open>kernel/fs.c\<close>. So the lemmas about
  the kernel's file system serve for the image while it is being built.
\<close>

section \<open>The counter in the superblock\<close>

definition seal :: "addr \<Rightarrow> maker \<Rightarrow> mem" where
  "seal img st = store16 (image_mem st) (sb_unused img) (word_of_int (unused st))"

lemma image_block_eq [simp]: "image_block = get_block" "image_inode = get_inode"
  by (simp_all add: fun_eq_iff image_block_def image_inode_def get_block_def get_inode_def BLOCK_SIZE_def)

lemma store_commute:
  "bytes_at a k \<inter> bytes_at b l = {} \<Longrightarrow>
    store_bytes k (store_bytes l m b w) a v = store_bytes l (store_bytes k m a v) b w"
  by (auto simp: store_bytes_def bytes_at_def fun_eq_iff disjoint_iff)

lemma store_twice: "store_bytes k (store_bytes k m a v) a w = store_bytes k m a w"
  by (auto simp: store_bytes_def fun_eq_iff)

lemma sb_bytes: "bytes_at (sb_unused img) 2 = span img 6 2"
  unfolding field_offsets by (rule bytes_at_span) simp_all

lemma seal_outside: "same_outside (span img 6 2) (image_mem st) (seal img st)"
  using same_outside_store [of "sb_unused img" 2] by (simp add: seal_def sb_bytes)

text \<open>Fields other than the counter are the same in both memories.\<close>

lemma load_seal:
  assumes "n + k \<le> 6 \<or> 8 \<le> n" and "n + k \<le> 2 ^ 64"
  shows "load_bytes k (seal img st) (img + of_nat n) = load_bytes k (image_mem st) (img + of_nat n)"
  by (rule load_frame_span [OF seal_outside span_disjoint assms(2)]) (use assms(1) in auto)

lemma store_seal:
  assumes "n + k \<le> 6 \<or> 8 \<le> n" and "n + k \<le> 2 ^ 64"
  shows "seal img (st\<lparr>image_mem := store_bytes k (image_mem st) (img + of_nat n) v\<rparr>) =
    store_bytes k (seal img st) (img + of_nat n) v"
proof (cases "k = 0")
  case False
  then have "span img 6 2 \<inter> bytes_at (img + of_nat n) k = {}"
    using assms by (subst bytes_at_span) (auto intro!: span_disjoint)
  then show ?thesis by (simp add: seal_def sb_bytes store_commute)
qed (simp add: seal_def store_bytes_def)

section \<open>Blocks\<close>

lemma take_block_scan:
  "take_block_from img st i =
     (case scan_freemap img (image_mem st) i of
        (n, m) \<Rightarrow> (n, st\<lparr>image_mem := m, unused := (if n = -1 then unused st else unused st - 1)\<rparr>))"
proof (induction "BLOCK_NUM - i" arbitrary: i)
  case 0
  then show ?case by (subst take_block_from.simps, subst scan_freemap.simps) simp
next
  case (Suc d)
  then have i: "i < BLOCK_NUM" by simp
  show ?case
  proof (cases "load32 (image_mem st) (freemap img (i div 32)) AND push_bit (i mod 32) 1 = 0")
    case True
    then show ?thesis
      using i by (subst take_block_from.simps, subst scan_freemap.simps)
        (simp add: Let_def freemap_def del: push_bit_of_1)
  next
    case False
    then have "take_block_from img st i = take_block_from img st (i + 1)"
      "scan_freemap img (image_mem st) i = scan_freemap img (image_mem st) (i + 1)"
      using i by (subst take_block_from.simps scan_freemap.simps; simp add: Let_def freemap_def del: push_bit_of_1)+
    with Suc show ?thesis by simp
  qed
qed

lemma mark_block_seal:
  assumes "b < BLOCK_NUM"
  shows "mark_block img (store16 m (sb_unused img) w) b = store16 (mark_block img m b) (sb_unused img) w"
proof -
  have b: "b div 32 < 64" using assms by (auto simp: BLOCK_NUM_def)
  have "bytes_at (freemap img (b div 32)) 4 = span img (512 + 4 * (b div 32)) 4"
    unfolding field_offsets by (rule bytes_at_span) (use b in simp_all)
  then have d: "bytes_at (freemap img (b div 32)) 4 \<inter> bytes_at (sb_unused img) 2 = {}"
    unfolding sb_bytes by (simp add: span_disjoint)
  then have "load32 (store16 m (sb_unused img) w) (freemap img (b div 32)) = load32 m (freemap img (b div 32))"
    by (intro load_store_apart) auto
  then show ?thesis unfolding mark_block_def using store_commute [OF d] by simp
qed

lemma find_cong: "(\<And>x. x \<in> set xs \<Longrightarrow> P x = Q x) \<Longrightarrow> find P xs = find Q xs"
  by (induction xs) auto

lemma scan_freemap_seal:
  "scan_freemap img (store16 m (sb_unused img) w) 0 =
     (case scan_freemap img m 0 of (n, m) \<Rightarrow> (n, store16 m (sb_unused img) w))"
proof -
  have s: "same_outside (span img 6 2) m (store16 m (sb_unused img) w)"
    using same_outside_store [of "sb_unused img" 2] by (simp add: sb_bytes)
  have "block_used img (store16 m (sb_unused img) w) b = block_used img m b" if "b < BLOCK_NUM" for b
    by (rule field_frame(2) [OF s that span_disjoint]) simp
  then have eq: "find (\<lambda>b. \<not> block_used img (store16 m (sb_unused img) w) b) [0..<BLOCK_NUM] =
      find (\<lambda>b. \<not> block_used img m b) [0..<BLOCK_NUM]"
    by (intro find_cong) simp
  show ?thesis
  proof (cases "find (\<lambda>b. \<not> block_used img m b) [0..<BLOCK_NUM]")
    case None
    then show ?thesis by (simp add: scan_freemap_find eq)
  next
    case (Some b)
    then have "b < BLOCK_NUM" by (auto simp: find_Some_iff)
    with Some show ?thesis by (simp add: scan_freemap_find eq mark_block_seal)
  qed
qed

lemma free_seal: "free_blocks img (seal img st) = free_blocks img (image_mem st)"
proof -
  have "block_used img (seal img st) b = block_used img (image_mem st) b" if "b < BLOCK_NUM" for b
    by (rule field_frame(2) [OF seal_outside that span_disjoint]) simp
  then show ?thesis by (auto simp: free_blocks_def)
qed

text \<open>The counter counts.\<close>

definition counted :: "addr \<Rightarrow> maker \<Rightarrow> bool" where
  "counted img st \<longleftrightarrow> unused st = int (card (free_blocks img (image_mem st)))"

lemma counted_bounds: "counted img st \<Longrightarrow> 0 \<le> unused st \<and> unused st \<le> 2048"
proof -
  have "card (free_blocks img (image_mem st)) \<le> card {..<BLOCK_NUM}"
    by (rule card_mono) (auto simp: free_blocks_def)
  then show "counted img st \<Longrightarrow> ?thesis" by (simp add: counted_def BLOCK_NUM_def)
qed

lemma counted_bitmap: "counted img st \<Longrightarrow> bitmap_ok img (seal img st)"
proof -
  assume c: "counted img st"
  then obtain k where k: "unused st = int k" "k \<le> 2048" using counted_bounds [OF c] by (metis nonneg_int_cases of_nat_le_iff of_nat_numeral)
  then have "unat (word_of_int (unused st) :: u16) = k" by (simp add: unat_of_nat)
  then show ?thesis
    using c k(1) unfolding bitmap_ok_def free_seal by (simp add: unused_blocks_def seal_def counted_def)
qed

lemma make_block_seal:
  assumes "counted img st" and "make_block img st = (n, st')"
  shows "alloc_free_block img (seal img st) = (n, seal img st')" and "counted img st'"
proof -
  let ?m = "image_mem st" and ?u = "word_of_int (unused st) :: u16"
  have ub: "0 \<le> unused st" "unused st \<le> 2048" using counted_bounds [OF assms(1)] by simp_all
  obtain k where k: "unused st = int k" using ub(1) by (metis nonneg_int_cases)
  have u0: "?u = 0 \<longleftrightarrow> unused st = 0"
  proof -
    have "unat ?u = k" using k ub by (simp add: unat_of_nat)
    then show ?thesis using k by (metis of_nat_0_eq_iff unat_eq_0)
  qed
  obtain a m' where a: "scan_freemap img ?m 0 = (a, m')" by (cases "scan_freemap img ?m 0")
  have st': "n = a" "st' = st\<lparr>image_mem := m', unused := (if a = -1 then unused st else unused st - 1)\<rparr>"
    using assms(2) a by (auto simp: make_block_def take_block_scan)
  have ld: "load16 (seal img st) (sb_unused img) = ?u" by (simp add: seal_def)
  have find: "a = (case find (\<lambda>b. \<not> block_used img ?m b) [0..<BLOCK_NUM] of None \<Rightarrow> -1 | Some b \<Rightarrow> int b)"
    "m' = (case find (\<lambda>b. \<not> block_used img ?m b) [0..<BLOCK_NUM] of None \<Rightarrow> ?m | Some b \<Rightarrow> mark_block img ?m b)"
    using a by (auto simp: scan_freemap_find split: option.splits)
  have empty: "unused st = 0 \<longleftrightarrow> find (\<lambda>b. \<not> block_used img ?m b) [0..<BLOCK_NUM] = None"
    using assms(1) by (auto simp: counted_def find_None_iff free_blocks_def)
  show "alloc_free_block img (seal img st) = (n, seal img st')"
  proof (cases "unused st = 0")
    case True
    then have "a = -1" "m' = ?m" using find empty by simp_all
    then show ?thesis using True st' ld by (simp add: alloc_free_block_def seal_def)
  next
    case False
    then have an: "a \<noteq> -1" using find(1) empty by (auto split: option.splits)
    have "store16 (seal img st) (sb_unused img) (?u - 1) = store16 ?m (sb_unused img) (word_of_int (unused st - 1))"
      by (simp add: seal_def store_twice)
    then show ?thesis
      using False an u0 ld a st' by (simp add: alloc_free_block_def scan_freemap_seal seal_def)
  qed
  show "counted img st'"
  proof (cases "find (\<lambda>b. \<not> block_used img ?m b) [0..<BLOCK_NUM]")
    case None
    then have "a = -1" "m' = ?m" using find by simp_all
    then show ?thesis using assms(1) st' by (simp add: counted_def)
  next
    case (Some b)
    then have b: "b < BLOCK_NUM" "\<not> block_used img ?m b" by (auto simp: find_Some_iff)
    then have bf: "b \<in> free_blocks img ?m" by (simp add: free_blocks_def)
    have "0 < card (free_blocks img ?m)" using bf by (auto simp: card_gt_0_iff)
    then have "int (card (free_blocks img ?m - {b})) = int (card (free_blocks img ?m)) - 1"
      using bf by (simp add: of_nat_diff)
    then show ?thesis
      using Some find st' b assms(1) by (simp add: counted_def free_blocks_mark)
  qed
qed

text \<open>So \<^verbatim>\<open>tool/mkfs.c\<close> hands out the least free block as well.\<close>

interpretation mblocks: first_fit "make_block img" "\<lambda>st. free_blocks img (image_mem st)" "counted img" for img
proof unfold_locales
  fix st assume c: "counted img st"
  obtain a st' where a: "make_block img st = (a, st')" by (cases "make_block img st")
  note al = make_block_seal [OF c a] and spec = alloc_free_block_spec [OF counted_bitmap [OF c]]
  show "finite (free_blocks img (image_mem st))" by simp
  show "make_block img st = (-1, st)" if e: "free_blocks img (image_mem st) = {}"
  proof -
    have "\<not> (\<exists>b < BLOCK_NUM. \<not> block_used img (image_mem st) b)" using e by (auto simp: free_blocks_def)
    then show ?thesis by (simp add: make_block_def take_block_scan scan_freemap_find find_upt)
  qed
  show "\<exists>st'. make_block img st = (int (Min (free_blocks img (image_mem st))), st') \<and> counted img st' \<and>
      free_blocks img (image_mem st') = free_blocks img (image_mem st) - {Min (free_blocks img (image_mem st))}"
    if "free_blocks img (image_mem st) \<noteq> {}"
    using spec al a that by (auto simp: free_seal)
qed

section \<open>Inodes\<close>

lemma fat_entry_seal: "i < FAT_LEN \<Longrightarrow> fat_entry img (seal img st) i = fat_entry img (image_mem st) i"
  unfolding fat_entry_def field_offsets by (subst load_seal) (simp_all add: FAT_LEN_def)

lemma make_inode_find:
  "make_inode_from img st i =
     (case find (\<lambda>j. fat_entry img (image_mem st) j = 0) [i..<FAT_LEN] of
        None \<Rightarrow> (-1, st)
      | Some j \<Rightarrow> (case make_block img st of
          (n, st) \<Rightarrow> if n = -1 then (-1, st)
            else (n, st\<lparr>image_mem := store16 (image_mem st) (fat img j) (word_of_int n)\<rparr>)))"
proof (induction "FAT_LEN - i" arbitrary: i)
  case 0
  then show ?case by (subst make_inode_from.simps) simp
next
  case (Suc d)
  then have i: "i < FAT_LEN" by simp
  have zero: "load16 (image_mem st) (fat img i) = 0 \<longleftrightarrow> fat_entry img (image_mem st) i = 0"
    by (simp add: fat_entry_def unat_eq_0)
  show ?case
  proof (cases "fat_entry img (image_mem st) i = 0")
    case True
    then show ?thesis
      using i zero by (subst make_inode_from.simps) (auto simp: upt_rec Let_def fat_def split: prod.splits)
  next
    case False
    then have "make_inode_from img st i = make_inode_from img st (i + 1)"
      using i zero by (subst make_inode_from.simps) (simp add: fat_def)
    with False Suc.hyps(1) [of "i + 1"] Suc.hyps(2) i show ?thesis by (simp add: upt_rec)
  qed
qed

text \<open>A change of the image away from the bitmap.\<close>

lemma counted_same:
  "counted img st \<Longrightarrow> unused st' = unused st \<Longrightarrow>
    free_blocks img (image_mem st') = free_blocks img (image_mem st) \<Longrightarrow> counted img st'"
  by (simp add: counted_def)

lemma make_inode_seal:
  assumes "counted img st" and "make_inode img st = (n, st')"
  shows "alloc_inode img (seal img st) = (n, seal img st')" and "counted img st'"
proof -
  let ?P = "\<lambda>j. fat_entry img (image_mem st) j = 0"
  obtain b st1 where b: "make_block img st = (b, st1)" by (cases "make_block img st")
  note al = make_block_seal [OF assms(1) b]
  have find: "find (\<lambda>j. fat_entry img (seal img st) j = 0) [0..<FAT_LEN] = find ?P [0..<FAT_LEN]"
    by (rule find_cong) (simp add: fat_entry_seal)
  have "alloc_inode img (seal img st) = (n, seal img st') \<and> counted img st'"
  proof (cases "find ?P [0..<FAT_LEN]")
    case None
    then have "n = -1 \<and> st' = st" using assms(2) by (auto simp: make_inode_def make_inode_find)
    moreover have "alloc_inode img (seal img st) = (-1, seal img st)"
      using None by (simp add: alloc_inode_def scan_fat_find find)
    ultimately show ?thesis using assms(1) by simp
  next
    case (Some j)
    then have j: "j < FAT_LEN" by (auto simp: find_Some_iff)
    show ?thesis
    proof (cases "b = -1")
      case True
      then have "n = -1 \<and> st' = st1" using Some b assms(2) by (auto simp: make_inode_def make_inode_find)
      moreover have "alloc_inode img (seal img st) = (-1, seal img st1)"
        using Some True al(1) by (simp add: alloc_inode_def scan_fat_find find)
      ultimately show ?thesis using al(2) by simp
    next
      case False
      then have st': "n = b" "st' = st1\<lparr>image_mem := store16 (image_mem st1) (fat img j) (word_of_int b)\<rparr>"
        using Some b assms(2) by (auto simp: make_inode_def make_inode_find)
      have "seal img st' = store16 (seal img st1) (fat img j) (word_of_int b)"
        unfolding st' field_offsets by (rule store_seal) (use j in \<open>simp_all add: FAT_LEN_def\<close>)
      moreover have "same_outside (span img (1024 + 2 * j) 2) (image_mem st1)
          (store16 (image_mem st1) (img + of_nat (1024 + 2 * j)) (word_of_int b))"
        by (rule same_outside_store_span) (use j in \<open>simp_all add: FAT_LEN_def\<close>)
      then have "same_outside (span img (1024 + 2 * j) 2) (image_mem st1) (image_mem st')"
        unfolding st' field_offsets by simp
      then have "block_used img (image_mem st') c = block_used img (image_mem st1) c" if "c < BLOCK_NUM" for c
        by (rule field_frame(2) [OF _ that span_disjoint]) simp
      then have "free_blocks img (image_mem st') = free_blocks img (image_mem st1)" by (auto simp: free_blocks_def)
      then have "counted img st'" using counted_same [OF al(2)] st'(2) by simp
      ultimately show ?thesis
        using Some False al(1) st'(1) by (simp add: alloc_inode_def scan_fat_find find)
    qed
  qed
  then show "alloc_inode img (seal img st) = (n, seal img st')" "counted img st'" by simp_all
qed

end
