(* ===== verification/Mkfs_Pack.thy ===== *)
theory Mkfs_Pack
  imports Mkfs_Blocks
begin

text \<open>
  Packing one file: a block is taken, filled and entered into the inode, until the data are
  stored. Each step is described on the image with the counter in the superblock.
\<close>

section \<open>A block that belongs to no file yet\<close>

definition spare :: "addr \<Rightarrow> mem \<Rightarrow> (nat \<Rightarrow> layout option) \<Rightarrow> nat \<Rightarrow> bool" where
  "spare img m L b \<longleftrightarrow> 3 \<le> b \<and> b < BLOCK_NUM \<and> block_used img m b \<and> (\<forall>n l. L n = Some l \<longrightarrow> b \<notin> owned n l)"

lemma spareD:
  assumes "spare img m L b"
  shows "3 \<le> b" and "b < BLOCK_NUM" and "block_used img m b" and "L n = Some l \<Longrightarrow> b \<notin> owned n l"
    and "\<forall>n' l'. L n' = Some l' \<longrightarrow> n' \<noteq> n \<longrightarrow> b \<notin> owned n' l'"
  using assms unfolding spare_def by blast+

lemma spare_new:
  assumes "spare img m L b" and "L n = Some (ib, bl)"
  shows "b \<notin> set (ib # n # bl)"
  using spareD(1) [OF assms(1)] spareD(4) [OF assms] by (auto simp: owned.simps split: if_splits)

lemma same_headerI:
  assumes "same_outside (blocks_span img B) m m'" and "n \<notin> B"
  shows "same_header img n m m'"
proof -
  have "span img (512 * n) 38 \<subseteq> block_span img n" using span_in_block [of 0 38 img n] by simp
  then show ?thesis using same_block_outside [OF assms] by (auto simp: same_block_def same_header_def)
qed

lemma alloc_grows:
  assumes "disk_ok img m L" and "L n = Some l" and "free_blocks img m \<noteq> {}"
  obtains b m' where "alloc_free_block img m = (int b, m')" and "spare img m' L b" and "b \<in> free_blocks img m"
    and "grows img m L n l {} {b} m'"
proof -
  obtain b m' where b: "alloc_free_block img m = (int b, m')" "b \<in> free_blocks img m" "disk_ok img m' L"
    "free_blocks img m' = free_blocks img m - {b}" "same_outside (blocks_span img {0, 1}) m m'"
    "3 \<le> b" "b < BLOCK_NUM" "block_used img m' b" "\<forall>n l. L n = Some l \<longrightarrow> b \<notin> owned n l"
    by (rule take_block [OF assms(1,3)])
  have "3 \<le> n" using disk_okD(4) [OF assms(1,2), of n] by simp
  then have "same_header img n m m'" by (intro same_headerI [OF b(5)]) auto
  then have "grows img m L n l {} {b} m'" using b assms(2) by (simp add: grows_def fun_upd_idem)
  moreover have "spare img m' L b" unfolding spare_def using b(6-9) by blast
  ultimately show thesis using that [OF b(1) _ b(2)] by blast
qed

lemma data_grows:
  assumes ok: "disk_ok img m L" and l: "L n = Some l" and b: "spare img m L b" and s: "same_outside (blocks_span img {b}) m m'"
  shows "grows img m L n l {b} {} m'" and "spare img m' L b"
proof -
  obtain ib bl where eq: "l = (ib, bl)" by (cases l)
  note lb = layout_bounds [OF ok l [unfolded eq]]
  note bs = spareD(1-3) [OF b]
  have nb: "n \<noteq> b" "ib \<noteq> 0 \<longrightarrow> ib \<noteq> b" using spareD(4) [OF b l] by (auto simp: eq owned.simps)
  have ptrs: "ptrs_ok img m' n l"
    unfolding eq by (rule ptrs_frame [OF disk_okD(3) [OF ok l, unfolded eq] lb(2,3)])
      (use same_block_outside [OF s] nb in auto)
  have C: "{b} \<subseteq> insert b (owned n l)" by simp
  note u = disk_update_more [OF ok l s C ptrs subset_insertI bs spareD(5) [OF b]]
  have hd: "same_header img n m m'" by (rule same_headerI [OF s]) (use nb in simp)
  have s': "same_outside (blocks_span img ({0, 1} \<union> {b})) m m'" by (rule same_outside_mono [OF s blocks_span_mono]) simp
  show "grows img m L n l {b} {} m'" using u hd s' by (simp add: grows_def)
  have "block_used img m' b" using u(2) bs(2,3) by (auto simp: free_blocks_def)
  then show "spare img m' L b" using b by (simp add: spare_def)
qed

lemma direct_grows:
  assumes ok: "disk_ok img m L" and l: "L n = Some (ib, bl)" and b: "spare img m L b" and len: "length bl < 12"
  shows "grows img m L n (ib, bl @ [b]) {n} {}
    (store16 m (i_direct (get_inode img (int n)) (length bl)) (word_of_int (int b)))" (is "grows _ _ _ _ _ _ _ ?m'")
proof -
  note lb = layout_bounds [OF ok l]
  note bs = spareD(1-3) [OF b]
  note p = ptrs_add_direct [OF disk_okD(3) [OF ok l] len lb(2,3) bs(2) spare_new [OF b l]]
  have own: "owned n (ib, bl @ [b]) \<subseteq> insert b (owned n (ib, bl))" by (auto simp: owned.simps)
  have C: "{n} \<subseteq> owned n (ib, bl)" by simp
  have s': "same_outside (blocks_span img ({0, 1} \<union> {n})) m ?m'" by (rule same_outside_mono [OF p(2) blocks_span_mono]) simp
  show ?thesis
    using disk_update [OF ok l p(2) C p(1) own bs spareD(5) [OF b]] p(3) s' unfolding grows_def by simp
qed

lemma table_grows:
  assumes ok: "disk_ok img m L" and l: "L n = Some (ib, bl)" and b: "spare img m L b" and ib: "ib \<noteq> 0"
    and len: "12 \<le> length bl" "length bl < 140"
  shows "grows img m L n (ib, bl @ [b]) {ib} {}
    (store32 m (get_block img (int ib) + 4 * of_nat (length bl - 12)) (word_of_int (int b)))"
    (is "grows _ _ _ _ _ _ _ ?m'")
proof -
  note lb = layout_bounds [OF ok l]
  note bs = spareD(1-3) [OF b]
  note p = ptrs_add_table [OF disk_okD(3) [OF ok l] ib len lb(2,3) bs(2) spare_new [OF b l]]
  have own: "owned n (ib, bl @ [b]) \<subseteq> insert b (owned n (ib, bl))" by (auto simp: owned.simps)
  have C: "{ib} \<subseteq> owned n (ib, bl)" using ib by (simp add: owned.simps)
  have s': "same_outside (blocks_span img ({0, 1} \<union> {ib})) m ?m'" by (rule same_outside_mono [OF p(2) blocks_span_mono]) simp
  show ?thesis
    using disk_update [OF ok l p(2) C p(1) own bs spareD(5) [OF b]] p(3) s' unfolding grows_def by simp
qed

lemma spare_grows:
  assumes "spare img m L b" and "b \<notin> free_blocks img m" and "grows img m L n l' W N m'" and "b \<notin> owned n l'"
  shows "spare img m' (L(n \<mapsto> l')) b"
proof -
  have "b \<notin> free_blocks img m'" using assms(2,3) by (auto simp: grows_def)
  then show ?thesis using assms(1,4) by (auto simp: spare_def free_blocks_def)
qed

section \<open>Entering a block\<close>

lemma find_first: "P k \<Longrightarrow> k < n \<Longrightarrow> (\<And>i. i < k \<Longrightarrow> \<not> P i) \<Longrightarrow> find P [0..<n] = Some k"
proof -
  assume a: "P k" "k < n" "\<And>i. i < k \<Longrightarrow> \<not> P i"
  then have "(LEAST i. P i) = k" by (metis Least_equality linorder_not_less)
  with a show "find P [0..<n] = Some k" by (auto simp: find_upt)
qed

text \<open>A store in a block of data or in an inode.\<close>

lemma store_block:
  assumes "3 \<le> c" and "c < BLOCK_NUM" and "bo + k \<le> 512" and "0 < k"
  shows "load_bytes k (seal img st) (img + of_nat (512 * c + bo)) = load_bytes k (image_mem st) (img + of_nat (512 * c + bo))"
    and "seal img (st\<lparr>image_mem := store_bytes k (image_mem st) (img + of_nat (512 * c + bo)) v\<rparr>) =
      store_bytes k (seal img st) (img + of_nat (512 * c + bo)) v"
    and "counted img st \<Longrightarrow> counted img (st\<lparr>image_mem := store_bytes k (image_mem st) (img + of_nat (512 * c + bo)) v\<rparr>)"
proof -
  have r: "512 * c + bo + k \<le> 6 \<or> 8 \<le> 512 * c + bo" "512 * c + bo + k \<le> 2 ^ 64"
    using assms by (auto simp: BLOCK_NUM_def)
  show "load_bytes k (seal img st) (img + of_nat (512 * c + bo)) = load_bytes k (image_mem st) (img + of_nat (512 * c + bo))"
    by (rule load_seal [OF r])
  show "seal img (st\<lparr>image_mem := store_bytes k (image_mem st) (img + of_nat (512 * c + bo)) v\<rparr>) =
      store_bytes k (seal img st) (img + of_nat (512 * c + bo)) v"
    by (rule store_seal [OF r])
  let ?m = "store_bytes k (image_mem st) (img + of_nat (512 * c + bo)) v"
  have "same_outside (blocks_span img {c}) (image_mem st) ?m" by (rule store_field_block(2) [OF assms(3,4,2)])
  then have "block_used img ?m b = block_used img (image_mem st) b" if "b < BLOCK_NUM" for b
    using same_blocks_alloc(2) [OF _ _ that] assms(1) by auto
  then have "free_blocks img ?m = free_blocks img (image_mem st)" by (auto simp: free_blocks_def)
  then show "counted img st \<Longrightarrow> counted img (st\<lparr>image_mem := ?m\<rparr>)" by (simp add: counted_def)
qed

text \<open>The pointers.\<close>

lemma seal_direct:
  assumes "3 \<le> n" and "n < BLOCK_NUM" and "i < 12"
  shows "load16 (seal img st) (i_direct (get_inode img (int n)) i) = load16 (image_mem st) (i_direct (get_inode img (int n)) i)"
    and "seal img (st\<lparr>image_mem := store16 (image_mem st) (i_direct (get_inode img (int n)) i) v\<rparr>) =
      store16 (seal img st) (i_direct (get_inode img (int n)) i) v"
    and "counted img st \<Longrightarrow> counted img (st\<lparr>image_mem := store16 (image_mem st) (i_direct (get_inode img (int n)) i) v\<rparr>)"
  unfolding field_offsets add.assoc using assms(3)
  by (intro store_block [OF assms(1,2)]; simp)+

lemma seal_indirect:
  assumes "3 \<le> n" and "n < BLOCK_NUM"
  shows "load16 (seal img st) (i_indirect (get_inode img (int n))) = load16 (image_mem st) (i_indirect (get_inode img (int n)))"
    and "seal img (st\<lparr>image_mem := store16 (image_mem st) (i_indirect (get_inode img (int n))) v\<rparr>) =
      store16 (seal img st) (i_indirect (get_inode img (int n))) v"
    and "counted img st \<Longrightarrow> counted img (st\<lparr>image_mem := store16 (image_mem st) (i_indirect (get_inode img (int n))) v\<rparr>)"
  unfolding field_offsets by (intro store_block [OF assms]; simp)+

lemma seal_table:
  assumes "3 \<le> b" and "b < BLOCK_NUM" and "i < 128"
  shows "load32 (seal img st) (get_block img (int b) + 4 * of_nat i) = load32 (image_mem st) (get_block img (int b) + 4 * of_nat i)"
    and "seal img (st\<lparr>image_mem := store32 (image_mem st) (get_block img (int b) + 4 * of_nat i) v\<rparr>) =
      store32 (seal img st) (get_block img (int b) + 4 * of_nat i) v"
    and "counted img st \<Longrightarrow> counted img (st\<lparr>image_mem := store32 (image_mem st) (get_block img (int b) + 4 * of_nat i) v\<rparr>)"
  unfolding table_offset using assms(3) by (intro store_block [OF assms(1,2)]; simp)+

lemma put_direct_find:
  assumes "disk_ok img (seal img st) L" and "L n = Some (ib, bl)"
  shows "put_direct (image_mem st) (get_inode img (int n)) block =
    (if length bl < 12
     then Some (store16 (image_mem st) (i_direct (get_inode img (int n)) (length bl)) (word_of_int block)) else None)"
proof -
  note lb = layout_bounds [OF assms]
  have p: "ptrs_ok img (seal img st) n (ib, bl)" by (rule disk_okD(3) [OF assms])
  have z: "load16 (image_mem st) (i_direct (get_inode img (int n)) i) = 0 \<longleftrightarrow> length bl \<le> i" if "i < 12" for i
  proof -
    have "load16 (image_mem st) (i_direct (get_inode img (int n)) i) = 0 \<longleftrightarrow> direct_entry img (seal img st) n i = 0"
      using seal_direct(1) [OF lb(1,2) that, of img st] by (simp add: direct_entry_def unat_eq_0)
    moreover have "bl ! i \<noteq> 0" if "i < length bl" using lb(5) [of "bl ! i"] that by fastforce
    ultimately show ?thesis using p that by (auto simp: ptrs_ok.simps)
  qed
  show ?thesis
  proof (cases "length bl < 12")
    case True
    then have "find (\<lambda>i. load16 (image_mem st) (i_direct (get_inode img (int n)) i) = 0) [0..<12] = Some (length bl)"
      using z by (intro find_first) auto
    with True show ?thesis by (simp add: put_direct_def)
  next
    case False
    then have "find (\<lambda>i. load16 (image_mem st) (i_direct (get_inode img (int n)) i) = 0) [0..<12] = None"
      using z by (auto simp: find_None_iff)
    with False show ?thesis by (simp add: put_direct_def)
  qed
qed

lemma put_indirect_find:
  assumes "disk_ok img (seal img st) L" and "L n = Some (ib, bl)" and "ib \<noteq> 0" and "12 \<le> length bl" and "length bl < 140"
  shows "put_indirect (image_mem st) (get_block img (int ib)) block =
    store32 (image_mem st) (get_block img (int ib) + 4 * of_nat (length bl - 12)) (word_of_int block)"
proof -
  note lb = layout_bounds [OF assms(1,2)]
  have p: "ptrs_ok img (seal img st) n (ib, bl)" by (rule disk_okD(3) [OF assms(1,2)])
  have z: "load32 (image_mem st) (get_block img (int ib) + 4 * of_nat i) = 0 \<longleftrightarrow> length bl \<le> 12 + i" if "i < 128" for i
  proof -
    have "load32 (image_mem st) (get_block img (int ib) + 4 * of_nat i) = 0 \<longleftrightarrow> table_entry img (seal img st) ib i = 0"
      using seal_table(1) [OF lb(4) [OF assms(3)] lb(3) that, of img st] by (simp add: table_entry_def unat_eq_0)
    moreover have "bl ! (12 + i) \<noteq> 0" if "12 + i < length bl" using lb(5) [of "bl ! (12 + i)"] that by fastforce
    ultimately show ?thesis using p assms(3) that by (auto simp: ptrs_ok.simps)
  qed
  have "find (\<lambda>i. load32 (image_mem st) (get_block img (int ib) + 4 * of_nat i) = 0) [0..<INDIRECT_LEN] = Some (length bl - 12)"
  proof (rule find_first)
    show "load32 (image_mem st) (get_block img (int ib) + 4 * of_nat (length bl - 12)) = 0"
      by (subst z) (use assms(4,5) in simp_all)
    show "length bl - 12 < INDIRECT_LEN" using assms(4,5) by (simp add: INDIRECT_LEN_def)
    show "load32 (image_mem st) (get_block img (int ib) + 4 * of_nat i) \<noteq> 0" if "i < length bl - 12" for i
      by (subst z) (use that assms(5) in simp_all)
  qed
  then show ?thesis by (simp add: put_indirect_def)
qed

text \<open>The indirect block is made when it is first needed.\<close>

definition make_indirect :: "addr \<Rightarrow> maker \<Rightarrow> addr \<Rightarrow> maker" where
  "make_indirect img st inode =
     (if load16 (image_mem st) (i_indirect inode) = 0 then
        (let (b, st) = make_block img st
         in st\<lparr>image_mem := store16 (image_mem st) (i_indirect inode) (word_of_int b)\<rparr>)
      else st)"

lemma make_indirect_seal:
  assumes "counted img st" and "3 \<le> n" and "n < BLOCK_NUM"
  shows "seal img (make_indirect img st (get_inode img (int n))) = with_indirect img (seal img st) (get_inode img (int n))"
    and "counted img (make_indirect img st (get_inode img (int n)))"
proof -
  note sb = seal_indirect [OF assms(2,3)]
  obtain b st1 where b: "make_block img st = (b, st1)" by (cases "make_block img st")
  note al = make_block_seal [OF assms(1) b]
  show "seal img (make_indirect img st (get_inode img (int n))) = with_indirect img (seal img st) (get_inode img (int n))"
    using al(1) b sb(1) [of img st] sb(2) [of img st1] by (simp add: make_indirect_def with_indirect_def)
  show "counted img (make_indirect img st (get_inode img (int n)))"
    using al(2) b sb(3) [of img st1] assms(1) by (simp add: make_indirect_def)
qed

lemma put_block_spec:
  assumes c: "counted img st" and ok: "disk_ok img (seal img st) L" and l: "L n = Some (ib, bl)"
    and b: "spare img (seal img st) L b" and len: "length bl < 140"
    and free: "ib = 0 \<and> 12 \<le> length bl \<longrightarrow> free_blocks img (seal img st) \<noteq> {}"
  shows "\<exists>ib' N. counted img (put_block img st (int b) (get_inode img (int n))) \<and>
    grows img (seal img st) L n (ib', bl @ [b]) {n, ib'} N (seal img (put_block img st (int b) (get_inode img (int n)))) \<and>
    card N = (if ib = 0 \<and> 12 \<le> length bl then 1 else 0) \<and> (ib' = 0 \<longleftrightarrow> ib = 0 \<and> length bl < 12) \<and>
    (ib \<noteq> 0 \<longrightarrow> ib' = ib)"
proof -
  note lb = layout_bounds [OF ok l]
  let ?inode = "get_inode img (int n)"
  show ?thesis
  proof (cases "length bl < 12")
    case True
    note sb = seal_direct [OF lb(1,2) True, of img st]
    have "put_block img st (int b) ?inode =
        st\<lparr>image_mem := store16 (image_mem st) (i_direct ?inode (length bl)) (word_of_int (int b))\<rparr>" (is "_ = ?st'")
      using True by (simp add: put_block_def put_direct_find [OF ok l])
    moreover have "counted img ?st'" using sb(3) c True by simp
    moreover have "grows img (seal img st) L n (ib, bl @ [b]) {n} {} (seal img ?st')"
      using direct_grows [OF ok l b True] sb(2) True by simp
    then have "grows img (seal img st) L n (ib, bl @ [b]) {n, ib} {} (seal img ?st')" by (rule grows_mono) simp
    ultimately show ?thesis using True by (intro exI [of _ ib] exI [of _ "{}"]) simp
  next
    case False
    then have "ib = 0 \<longrightarrow> free_blocks img (seal img st) \<noteq> {}" using free by simp
    then obtain ib' N where i: "ib' \<noteq> 0" "N = (if ib = 0 then {ib'} else {})" "ib \<noteq> 0 \<longrightarrow> ib' = ib"
      "grows img (seal img st) L n (ib', bl) {n} N (with_indirect img (seal img st) ?inode)"
      by (rule with_indirect_spec [OF ok l])
    define st1 where "st1 = make_indirect img st ?inode"
    note mi = make_indirect_seal [OF c lb(1,2), folded st1_def]
    let ?L = "L(n \<mapsto> (ib', bl))"
    have ok1: "disk_ok img (seal img st1) ?L" using i(4) mi(1) by (simp add: grows_def)
    have l1: "?L n = Some (ib', bl)" by simp
    note lb1 = layout_bounds [OF ok1 l1]
    have nf: "b \<notin> free_blocks img (seal img st)" using spareD(3) [OF b] by (auto simp: free_blocks_def)
    have no: "b \<notin> owned n (ib', bl)"
    proof -
      have "b \<noteq> ib'" using i nf by (auto simp: grows_def owned.simps) (use spareD(4) [OF b l] in \<open>auto simp: owned.simps\<close>)
      then show ?thesis using spareD(4) [OF b l] by (auto simp: owned.simps)
    qed
    have b1: "spare img (seal img st1) ?L b" using spare_grows [OF b nf i(4) no] mi(1) by simp
    have ind: "image_block img (uint (load16 (image_mem st1) (i_indirect ?inode))) = get_block img (int ib')"
      using inode_indirect [OF ok1 l1] seal_indirect(1) [OF lb(1,2), of img st1] by simp
    define st2 where "st2 = st1\<lparr>image_mem := store32 (image_mem st1)
      (get_block img (int ib') + 4 * of_nat (length bl - 12)) (word_of_int (int b))\<rparr>"
    have put: "put_block img st (int b) ?inode = st2"
    proof -
      have "put_direct (image_mem st) ?inode (int b) = None" using False by (simp add: put_direct_find [OF ok l])
      then have "put_block img st (int b) ?inode = st1\<lparr>image_mem := put_indirect (image_mem st1)
          (image_block img (uint (load16 (image_mem st1) (i_indirect ?inode)))) (int b)\<rparr>"
        by (simp add: put_block_def st1_def make_indirect_def Let_def)
      then show ?thesis using put_indirect_find [OF ok1 l1 i(1) _ len] False unfolding ind by (simp add: st2_def)
    qed
    have small: "length bl - 12 < 128" using len by simp
    note sb = seal_table [OF lb1(4) [OF i(1)] lb1(3) small, of img st1]
    have "counted img st2" using sb(3) mi(2) by (simp add: st2_def)
    moreover have "grows img (seal img st1) ?L n (ib', bl @ [b]) {ib'} {} (seal img st2)"
      using table_grows [OF ok1 l1 b1 i(1) _ len] False sb(2) by (simp add: st2_def)
    then have "grows img (seal img st) L n (ib', bl @ [b]) ({n} \<union> {ib'}) (N \<union> {}) (seal img st2)"
      by (rule grows_trans [OF i(4) [folded mi(1)]])
    ultimately show ?thesis
      using put False i(1-3) by (intro exI [of _ ib'] exI [of _ N]) (simp add: insert_commute)
  qed
qed

end
