(* ===== verification/Mkfs_Image.thy ===== *)
theory Mkfs_Image
  imports Mkfs_Pack
begin

text \<open>
  The image \<^verbatim>\<open>tool/mkfs.c\<close> writes: a well-formed file system that holds the regular files of the
  directory.
\<close>

section \<open>Data\<close>

lemma write_bytes_seal:
  assumes "3 \<le> b" and "b < BLOCK_NUM" and "length bs \<le> 512"
  shows "seal img (st\<lparr>image_mem := write_bytes (image_mem st) (get_block img (int b)) bs\<rparr>) =
      write_bytes (seal img st) (get_block img (int b)) bs"
    and "same_outside (blocks_span img {b}) m (write_bytes m (get_block img (int b)) bs)"
    and "counted img st \<Longrightarrow> counted img (st\<lparr>image_mem := write_bytes (image_mem st) (get_block img (int b)) bs\<rparr>)"
proof -
  let ?a = "get_block img (int b)"
  have in_block: "x \<in> block_span img b" if "unat (x - ?a) < length bs" for x
  proof -
    have "x \<in> bytes_at (?a + of_nat 0) 512" using that assms(3) by (simp add: bytes_at_def)
    then show ?thesis using block_bytes [OF assms(2), of 0 512 img] by (simp add: block_span_def)
  qed
  show s: "same_outside (blocks_span img {b}) m (write_bytes m ?a bs)" for m
    using in_block by (auto simp: same_outside_def write_bytes_def blocks_span_def)
  have "x \<notin> block_span img b" if "x \<in> bytes_at (sb_unused img) 2" for x
  proof -
    have "span img 6 2 \<inter> block_span img b = {}"
      unfolding block_span_def by (rule span_disjoint) (use assms(1) in simp)
    then show ?thesis using that sb_bytes [of img] by blast
  qed
  then show "seal img (st\<lparr>image_mem := write_bytes (image_mem st) ?a bs\<rparr>) = write_bytes (seal img st) ?a bs"
    using in_block by (auto simp: seal_def write_bytes_def store_bytes_def bytes_at_def fun_eq_iff)
  let ?m = "write_bytes (image_mem st) ?a bs"
  have "block_used img ?m c = block_used img (image_mem st) c" if "c < BLOCK_NUM" for c
    by (rule same_blocks_alloc(2) [OF s _ that]) (use assms(1) in simp)
  then have "free_blocks img ?m = free_blocks img (image_mem st)" by (auto simp: free_blocks_def)
  then show "counted img st \<Longrightarrow> counted img (st\<lparr>image_mem := ?m\<rparr>)" by (simp add: counted_def)
qed

text \<open>The blocks a step takes: the data block, and the indirect block when it is needed for it.\<close>

definition step_blocks :: "nat \<Rightarrow> nat \<Rightarrow> nat" where
  "step_blocks ib k = 1 + (if ib = 0 \<and> 12 \<le> k then 1 else 0)"

lemma pack_step:
  assumes c: "counted img st" and ok: "disk_ok img (seal img st) L" and l: "L n = Some (ib, bl)"
    and len: "length bl < 140" "length chunk \<le> 512"
    and free: "step_blocks ib (length bl) \<le> card (free_blocks img (seal img st))"
  obtains b st1 st2 ib' N where "make_block img st = (int b, st1)"
    and "put_block img (st1\<lparr>image_mem := write_bytes (image_mem st1) (get_block img (int b)) chunk\<rparr>) (int b)
      (get_inode img (int n)) = st2"
    and "counted img st2" and "grows img (seal img st) L n (ib', bl @ [b]) {n, ib', b} N (seal img st2)"
    and "card N = step_blocks ib (length bl)" and "ib' = 0 \<longleftrightarrow> ib = 0 \<and> length bl < 12" and "ib \<noteq> 0 \<longrightarrow> ib' = ib"
    and "\<forall>i < length chunk. seal img st2 (byte_addr img ((!) (bl @ [b])) (512 * length bl + i)) = chunk ! i"
proof -
  let ?inode = "get_inode img (int n)"
  have "free_blocks img (seal img st) \<noteq> {}" using free by (auto simp: step_blocks_def)
  then obtain b M1 where b: "alloc_free_block img (seal img st) = (int b, M1)" "spare img M1 L b"
    "b \<in> free_blocks img (seal img st)" "grows img (seal img st) L n (ib, bl) {} {b} M1"
    by (rule alloc_grows [OF ok l])
  obtain a st1 where "make_block img st = (a, st1)" by (cases "make_block img st")
  with make_block_seal [OF c this] b(1) have mk: "make_block img st = (int b, st1)" "seal img st1 = M1" "counted img st1"
    by auto
  have Lid: "L(n \<mapsto> (ib, bl)) = L" using l by (simp add: fun_upd_idem)
  have ok1: "disk_ok img (seal img st1) L" using b(4) mk(2) Lid by (simp add: grows_def)
  note bs = spareD(1,2) [OF b(2)]
  define st1' where "st1' = st1\<lparr>image_mem := write_bytes (image_mem st1) (get_block img (int b)) chunk\<rparr>"
  note wr = write_bytes_seal [OF bs len(2)]
  have c1: "counted img st1'" using wr(3) [OF mk(3)] by (simp add: st1'_def)
  have sw: "same_outside (blocks_span img {b}) (seal img st1) (seal img st1')"
    using wr(1) [of img st1] wr(2) by (simp add: st1'_def)
  note dg = data_grows [OF ok1 l b(2) [folded mk(2)] sw]
  have g1: "grows img (seal img st) L n (ib, bl) {b} {b} (seal img st1')"
    using grows_trans [OF b(4) [folded mk(2)], unfolded Lid, OF dg(1)] by simp
  have ok2: "disk_ok img (seal img st1') L" using g1 Lid by (simp add: grows_def)
  have fr: "free_blocks img (seal img st1') = free_blocks img (seal img st) - {b}" using g1 by (simp add: grows_def)
  have "ib = 0 \<and> 12 \<le> length bl \<longrightarrow> free_blocks img (seal img st1') \<noteq> {}"
  proof
    assume "ib = 0 \<and> 12 \<le> length bl"
    then have "2 \<le> card (free_blocks img (seal img st))" using free by (simp add: step_blocks_def)
    then have "0 < card (free_blocks img (seal img st1'))" using fr b(3) by simp
    then show "free_blocks img (seal img st1') \<noteq> {}" by auto
  qed
  then obtain ib' N where p: "counted img (put_block img st1' (int b) ?inode)"
    "grows img (seal img st1') L n (ib', bl @ [b]) {n, ib'} N (seal img (put_block img st1' (int b) ?inode))"
    "card N = (if ib = 0 \<and> 12 \<le> length bl then 1 else 0)" "ib' = 0 \<longleftrightarrow> ib = 0 \<and> length bl < 12" "ib \<noteq> 0 \<longrightarrow> ib' = ib"
    using put_block_spec [OF c1 ok2 l dg(2) len(1)] by blast
  define st2 where "st2 = put_block img st1' (int b) ?inode"
  have "grows img (seal img st) L n (ib', bl @ [b]) ({b} \<union> {n, ib'}) ({b} \<union> N) (seal img st2)"
    unfolding st2_def by (rule grows_trans [OF g1, unfolded Lid, OF p(2)])
  then have g: "grows img (seal img st) L n (ib', bl @ [b]) {n, ib', b} ({b} \<union> N) (seal img st2)"
    by (simp add: insert_commute)
  have N: "N \<subseteq> free_blocks img (seal img st) - {b}" using p(2) fr by (simp add: grows_def)
  then have bN: "b \<notin> N" "finite N" using finite_subset [OF N] by auto
  have cN: "card ({b} \<union> N) = step_blocks ib (length bl)" using bN p(3) by (simp add: step_blocks_def)
  have val: "seal img st2 (byte_addr img ((!) (bl @ [b])) (512 * length bl + i)) = chunk ! i" if i: "i < length chunk" for i
  proof -
    let ?x = "byte_addr img ((!) (bl @ [b])) (512 * length bl + i)"
    have x: "?x = get_block img (int b) + of_nat i" using i len(2) by (simp add: byte_addr_block)
    have nb: "b \<noteq> n" "b \<noteq> ib'"
    proof -
      have "disk_ok img (seal img st2) (L(n \<mapsto> (ib', bl @ [b])))" using g by (simp add: grows_def)
      from disk_okD(3) [OF this, of n "(ib', bl @ [b])"] show "b \<noteq> n" "b \<noteq> ib'" by (auto simp: ptrs_ok.simps)
    qed
    have "same_block img (seal img st1') (seal img st2) b"
      using p(2) bs(1) nb unfolding grows_def st2_def by (intro same_block_outside) auto
    moreover have "?x \<in> block_span img b"
      using byte_addr_span [of "(!) (bl @ [b])" "512 * length bl + i" img] i len(2) bs(2)
      by (simp add: block_span_def nth_append)
    ultimately have "seal img st2 ?x = seal img st1' ?x" by (simp add: same_block_def)
    also have "\<dots> = chunk ! i"
    proof -
      have "unat (of_nat i :: u64) = i" using i len(2) by (simp add: unat_of_nat)
      then show ?thesis unfolding st1'_def wr(1) x using i by (simp add: write_bytes_def)
    qed
    finally show ?thesis .
  qed
  show thesis
    by (rule that [OF mk(1) _ _ g cN p(4)]) (use p(1,5) val in \<open>simp_all add: st2_def st1'_def\<close>)
qed

text \<open>The bytes stored so far stay when the next block is entered.\<close>

lemma grows_keeps:
  assumes "grows img m L n (ib', bl @ [b]) {n, ib', b} N m'" and "k < 512 * length bl"
  shows "m' (byte_addr img ((!) (bl @ [b])) k) = m (byte_addr img ((!) bl) k)"
proof -
  let ?L = "L(n \<mapsto> (ib', bl @ [b]))"
  have ok: "disk_ok img m' ?L" and s: "same_outside (blocks_span img ({0, 1} \<union> {n, ib', b})) m m'"
    using assms(1) by (simp_all add: grows_def)
  have l: "?L n = Some (ib', bl @ [b])" by simp
  note lb = layout_bounds [OF ok l]
  have "\<forall>c \<in> set bl. c < BLOCK_NUM" using lb(5) by simp
  from byte_addr_in_block(1) [OF assms(2) this] byte_addr_in_block(2) [OF assms(2) this]
  have x: "byte_addr img ((!) bl) k \<in> block_span img (bl ! (k div 512))" "bl ! (k div 512) \<in> set bl" by auto
  have "c \<notin> {0, 1} \<union> {n, ib', b}" if "c \<in> set bl" for c
    using disk_okD(3) [OF ok l] lb(5) [of c] that by (auto simp: ptrs_ok.simps)
  then have "same_block img m m' (bl ! (k div 512))" using x(2) by (intro same_block_outside [OF s]) blast
  with x(1) assms(2) show ?thesis by (simp add: same_block_def byte_addr_append)
qed

lemma pack_data_spec:
  assumes "counted img st" and "disk_ok img (seal img st) L" and "L n = Some (ib, bl)"
    and "p = 512 * length bl" and "p \<le> length data" and "length data \<le> 71680"
    and "blocks_needed (ib, bl) (blocks_for (length data)) \<le> card (free_blocks img (seal img st))"
    and "\<forall>k < p. seal img st (byte_addr img ((!) bl) k) = data ! k"
  shows "\<exists>st' ib' new N. pack_data img st (get_inode img (int n)) data p = st' \<and> counted img st' \<and>
    grows img (seal img st) L n (ib', bl @ new) (owned n (ib', bl @ new)) N (seal img st') \<and>
    card N = blocks_needed (ib, bl) (blocks_for (length data)) \<and> length (bl @ new) = blocks_for (length data) \<and>
    (\<forall>k < length data. seal img st' (byte_addr img ((!) (bl @ new)) k) = data ! k) \<and> (ib \<noteq> 0 \<longrightarrow> ib' = ib)"
  using assms
proof (induction "length data - p" arbitrary: st L ib bl p rule: less_induct)
  case less
  note lb = layout_bounds [OF less.prems(2,3)]
  show ?case
  proof (cases "p = length data")
    case True
    then have "blocks_for (length data) = length bl" using less.prems(4) by (simp add: blocks_for_def)
    moreover have "pack_data img st (get_inode img (int n)) data p = st"
      using True by (subst pack_data.simps) simp
    moreover have "blocks_needed (ib, bl) (length bl) = 0" using lb(8) by auto
    ultimately show ?thesis
      using less.prems True grows_refl [OF less.prems(2,3)]
      by (intro exI [of _ st] exI [of _ ib] exI [of _ "[]"] exI [of _ "{}"]) simp
  next
    case False
    define K where "K = blocks_for (length data)"
    define len where "len = min (length data - p) 512"
    define chunk where "chunk = take len (drop p data)"
    have len: "0 < len" "len \<le> 512" "p + len \<le> length data" "length chunk = len"
      using False less.prems(5) by (auto simp: len_def chunk_def)
    have bK: "length bl < K" "K \<le> 140"
      using False less.prems(4-6) by (auto simp: K_def blocks_for_def)
    have "step_blocks ib (length bl) \<le> blocks_needed (ib, bl) K"
      using bK lb(8) by (auto simp: step_blocks_def)
    then have fr: "step_blocks ib (length bl) \<le> card (free_blocks img (seal img st))"
      using less.prems(7) by (simp add: K_def)
    have bl: "length bl < 140" using bK by simp
    have cl: "length chunk \<le> 512" using len by simp
    obtain b st1 st2 ib' N where st: "make_block img st = (int b, st1)"
      "put_block img (st1\<lparr>image_mem := write_bytes (image_mem st1) (get_block img (int b)) chunk\<rparr>) (int b)
        (get_inode img (int n)) = st2"
      "counted img st2" and g: "grows img (seal img st) L n (ib', bl @ [b]) {n, ib', b} N (seal img st2)"
      and N: "card N = step_blocks ib (length bl)" "ib' = 0 \<longleftrightarrow> ib = 0 \<and> length bl < 12" "ib \<noteq> 0 \<longrightarrow> ib' = ib"
      and val: "\<forall>i < length chunk. seal img st2 (byte_addr img ((!) (bl @ [b])) (512 * length bl + i)) = chunk ! i"
      by (rule pack_step [OF less.prems(1-3) bl cl fr])
    let ?L = "L(n \<mapsto> (ib', bl @ [b]))"
    have step: "pack_data img st (get_inode img (int n)) data p = pack_data img st2 (get_inode img (int n)) data (p + len)"
      using False less.prems(5) st(1,2)
      by (subst pack_data.simps) (simp add: Let_def len_def chunk_def BLOCK_SIZE_def)
    have ok2: "disk_ok img (seal img st2) ?L" using g by (simp add: grows_def)
    have l2: "?L n = Some (ib', bl @ [b])" by simp
    have bytes: "seal img st2 (byte_addr img ((!) (bl @ [b])) k) = data ! k" if k: "k < p + len" for k
    proof (cases "k < p")
      case True
      then show ?thesis using grows_keeps [OF g] less.prems(4,8) by simp
    next
      case False
      then show ?thesis
        using val [rule_format, of "k - p"] k len less.prems(4,5) by (simp add: chunk_def)
    qed
    have W: "{n, ib', b} \<subseteq> {0, 1} \<union> owned n (ib', bl @ b # new)" for new by (auto simp: owned.simps)
    show ?thesis
    proof (cases "p + len = length data")
      case True
      then have "pack_data img st2 (get_inode img (int n)) data (p + len) = st2" by (subst pack_data.simps) simp
      moreover have K1: "K = length bl + 1"
        using True len less.prems(4) bK by (auto simp: K_def blocks_for_def)
      moreover have "blocks_needed (ib, bl) K = step_blocks ib (length bl)"
        using K1 by (auto simp: step_blocks_def)
      moreover have "grows img (seal img st) L n (ib', bl @ [b]) (owned n (ib', bl @ [b])) N (seal img st2)"
        using g W [of "[]"] unfolding grows_def by (auto intro: same_outside_mono [OF _ blocks_span_mono])
      ultimately show ?thesis
        using step st(3) N(1,3) bytes True unfolding K_def [symmetric]
        by (intro exI [of _ st2] exI [of _ ib'] exI [of _ "[b]"] exI [of _ N]) simp
    next
      case more: False
      then have "len = 512" using len(3) by (auto simp: len_def)
      then have p2: "p + len = 512 * length (bl @ [b])" using less.prems(4) by simp
      have "K \<noteq> length bl + 1" using more len(3) p2 by (auto simp: K_def blocks_for_def)
      then have need: "blocks_needed (ib, bl) K = step_blocks ib (length bl) + blocks_needed (ib', bl @ [b]) K"
        using bK lb(8) N(2) by (auto simp: step_blocks_def)
      have Nf: "N \<subseteq> free_blocks img (seal img st)" "free_blocks img (seal img st2) = free_blocks img (seal img st) - N"
        using g by (simp_all add: grows_def)
      then have "card (free_blocks img (seal img st2)) = card (free_blocks img (seal img st)) - card N"
        using finite_subset [OF Nf(1)] by (simp add: card_Diff_subset)
      then have need2: "blocks_needed (ib', bl @ [b]) (blocks_for (length data)) \<le> card (free_blocks img (seal img st2))"
        using need less.prems(7) N(1) by (simp add: K_def)
      have m: "length data - (p + len) < length data - p" using len(1,3) by linarith
      have bytes': "\<forall>k < p + len. seal img st2 (byte_addr img ((!) (bl @ [b])) k) = data ! k" using bytes by blast
      obtain st' ib2 new N2 where r: "pack_data img st2 (get_inode img (int n)) data (p + len) = st'" "counted img st'"
        "grows img (seal img st2) ?L n (ib2, (bl @ [b]) @ new) (owned n (ib2, (bl @ [b]) @ new)) N2 (seal img st')"
        "card N2 = blocks_needed (ib', bl @ [b]) K" "length ((bl @ [b]) @ new) = K"
        "\<forall>k < length data. seal img st' (byte_addr img ((!) ((bl @ [b]) @ new)) k) = data ! k" "ib' \<noteq> 0 \<longrightarrow> ib2 = ib'"
        using less.hyps [OF m st(3) ok2 l2 p2 len(3) less.prems(6) need2 bytes'] unfolding K_def by blast
      have g12: "grows img (seal img st) L n (ib2, (bl @ [b]) @ new)
          ({n, ib', b} \<union> owned n (ib2, (bl @ [b]) @ new)) (N \<union> N2) (seal img st')"
        by (rule grows_trans [OF g r(3)])
      have ib2: "ib \<noteq> 0 \<longrightarrow> ib2 = ib" using r(7) N(2,3) by auto
      have "{n, ib', b} \<subseteq> {0, 1} \<union> owned n (ib2, bl @ b # new)" using r(7) by (auto simp: owned.simps)
      then have "grows img (seal img st) L n (ib2, bl @ b # new) (owned n (ib2, bl @ b # new)) (N \<union> N2) (seal img st')"
        using g12 unfolding grows_def by (auto intro: same_outside_mono [OF _ blocks_span_mono])
      moreover have "card (N \<union> N2) = blocks_needed (ib, bl) K"
      proof -
        have N2: "N2 \<subseteq> free_blocks img (seal img st) - N" using r(3) Nf(2) by (simp add: grows_def)
        then have "N \<inter> N2 = {}" by blast
        moreover have "finite N2" by (rule finite_subset [OF N2]) simp
        moreover note finite_subset [OF Nf(1)]
        ultimately show ?thesis using N(1) r(4) need by (simp add: card_Un_disjoint)
      qed
      ultimately show ?thesis
        using step r(1,2,5,6) ib2 unfolding K_def [symmetric]
        by (intro exI [of _ st'] exI [of _ ib2] exI [of _ "b # new"] exI [of _ "N \<union> N2"]) simp
    qed
  qed
qed

section \<open>The header of an inode\<close>

lemma seal_same:
  assumes "same_outside S (image_mem st) (image_mem st')" and "unused st' = unused st"
  shows "same_outside S (seal img st) (seal img st')"
  using assms by (simp add: same_outside_def seal_def store_bytes_def)

text \<open>The number of blocks, which wraps twice for an empty file, is that of the data.\<close>

lemma blocks_word:
  assumes "k \<le> 71680"
  shows "unat (ucast ((of_nat k - 1) div 512 + 1 :: u32) :: u16) = blocks_for k"
proof (cases "k = 0")
  case True
  have "ucast ((0 - 1) div 512 + 1 :: u32) = (0 :: u16)" by simp
  then show ?thesis using True by (simp add: blocks_for_def)
next
  case False
  then have "(of_nat k - 1 :: u32) = of_nat (k - 1)" by (simp add: of_nat_diff)
  moreover have "unat (of_nat (k - 1) :: u32) = k - 1" using assms by (simp add: unat_of_nat del: of_nat_diff)
  ultimately have "unat (of_nat k - 1 :: u32) = k - 1" by simp
  then have "unat ((of_nat k - 1) div 512 :: u32) = (k - 1) div 512" by (simp add: unat_div)
  moreover have "(k - 1) div 512 \<le> 140" using assms by auto
  ultimately have "unat ((of_nat k - 1) div 512 + 1 :: u32) = (k - 1) div 512 + 1"
    by (simp add: unat_word_ariths)
  moreover have "(k - 1) div 512 + 1 = blocks_for k" using False by (simp add: blocks_for_def)
  ultimately show ?thesis using \<open>(k - 1) div 512 \<le> 140\<close>
    by (simp add: unsigned_ucast_eq take_bit_nat_eq_self)
qed

definition pack_header :: "addr \<Rightarrow> mem \<Rightarrow> int \<Rightarrow> dir_entry \<Rightarrow> mem" where
  "pack_header img m idx entry =
     (let inode = image_inode img idx;
          m = write_bytes m (i_filename inode) (d_name entry @ [0]);
          m = store32 m (i_size inode) (of_nat (length (file_data entry)))
      in store16 m (i_blocks inode) (ucast ((load32 m (i_size inode) - 1) div of_nat BLOCK_SIZE + 1)))"

lemma pack_file_header:
  "pack_file img st entry =
     (case make_inode img st of (idx, st) \<Rightarrow>
        pack_data img (st\<lparr>image_mem := pack_header img (image_mem st) idx entry\<rparr>) (image_inode img idx) (file_data entry) 0)"
  by (simp add: pack_file_def pack_header_def Let_def)

text \<open>A regular file the image can hold.\<close>

definition packable :: "dir_entry \<Rightarrow> bool" where
  "packable e \<longleftrightarrow> length (d_name e) < 32 \<and> 0 \<notin> set (d_name e) \<and> length (file_data e) \<le> 71680"

lemma pack_header_spec:
  assumes n: "3 \<le> n" "n < BLOCK_NUM" and e: "packable e"
    and mdef: "m' = pack_header img m (int n) e"
  shows "same_outside (span img (512 * n) 38) m m'" and "file_size img m' n = length (file_data e)"
    and "file_blocks img m' n = blocks_for (length (file_data e))" and "file_name img m' n (d_name e)"
proof -
  let ?inode = "get_inode img (int n)" and ?nm = "d_name e @ [0]"
  define m1 where "m1 = write_bytes m (i_filename ?inode) ?nm"
  define m2 where "m2 = store32 m1 (i_size ?inode) (of_nat (length (file_data e)))"
  have len: "length ?nm \<le> 32" "length (file_data e) \<le> 71680" using e by (simp_all add: packable_def)
  have "load32 m2 (i_size ?inode) = of_nat (length (file_data e))" by (simp add: m2_def)
  then have m': "m' = store16 m2 (i_blocks ?inode) (ucast ((of_nat (length (file_data e)) - 1) div 512 + 1 :: u32))"
    by (simp add: mdef pack_header_def m2_def m1_def BLOCK_SIZE_def Let_def)
  have s1: "same_outside (span img (512 * n + 4) 32) m m1"
  proof -
    have "bytes_at (i_filename ?inode) (length ?nm) = span img (512 * n + 4) (length ?nm)"
      unfolding field_offsets by (rule bytes_at_span) (use n len in \<open>simp_all add: BLOCK_NUM_def\<close>)
    moreover have "same_outside (bytes_at (i_filename ?inode) (length ?nm)) m m1"
      by (simp add: m1_def same_outside_def bytes_at_def write_bytes_def)
    moreover have "span img (512 * n + 4) (length ?nm) \<subseteq> span img (512 * n + 4) 32" by (rule span_subset) (use len in auto)
    ultimately show ?thesis by (metis same_outside_mono)
  qed
  have s2: "same_outside (span img (512 * n) 4) m1 m2"
    unfolding m2_def by (rule file_size_store(2) [OF n(2)])
  have s3: "same_outside (span img (512 * n + 36) 2) m2 m'"
    unfolding m' field_offsets by (rule store_field_block(1)) (use n in simp_all)
  have sub: "span img (512 * n + 4) 32 \<subseteq> span img (512 * n) 38" "span img (512 * n) 4 \<subseteq> span img (512 * n) 38"
    "span img (512 * n + 36) 2 \<subseteq> span img (512 * n) 38" by (simp_all add: span_subset)
  show "same_outside (span img (512 * n) 38) m m'"
    by (rule same_outside_trans [OF same_outside_trans [OF same_outside_mono [OF s1 sub(1)]
            same_outside_mono [OF s2 sub(2)]] same_outside_mono [OF s3 sub(3)]])
  have "file_size img m2 n = length (file_data e)"
    using file_size_store(1) [OF n(2)] len(2) by (simp add: m2_def unat_of_nat)
  then show "file_size img m' n = length (file_data e)"
    using field_frame(4) [OF s3 n(2) span_disjoint] by simp
  show "file_blocks img m' n = blocks_for (length (file_data e))"
    using blocks_word [OF len(2)] by (simp add: file_blocks_def m')
  have "file_name img m1 n (d_name e)"
  proof -
    have "m1 (i_filename ?inode + of_nat i) = ?nm ! i" if "i < length ?nm" for i
      using that len(1) by (simp add: m1_def write_bytes_def unat_of_nat)
    moreover have "?nm ! i = d_name e ! i" "d_name e ! i \<noteq> 0" if "i < length (d_name e)" for i
    proof -
      show "?nm ! i = d_name e ! i" using that by (simp add: nth_append)
      show "d_name e ! i \<noteq> 0" using e nth_mem [OF that] unfolding packable_def by metis
    qed
    ultimately show ?thesis using e by (simp add: file_name_def is_cstring_def string_at_def packable_def)
  qed
  then have "file_name img m2 n (d_name e)" using file_name_frame [OF s2 span_disjoint n(2)] by simp
  then show "file_name img m' n (d_name e)" using file_name_frame [OF s3 span_disjoint n(2)] by simp
qed

section \<open>One file\<close>

definition slots :: "addr \<Rightarrow> mem \<Rightarrow> nat" where
  "slots img m = card {i. i < FAT_LEN \<and> fat_entry img m i = 0}"

lemma slots_cong: "(\<And>i. i < FAT_LEN \<Longrightarrow> fat_entry img m' i = fat_entry img m i) \<Longrightarrow> slots img m' = slots img m"
  unfolding slots_def by (rule arg_cong [where f = card]) auto

text \<open>The blocks of the image a file takes: its inode, its data and its indirect block.\<close>

definition file_cost :: "dir_entry \<Rightarrow> nat" where
  "file_cost e = 1 + blocks_needed (0, []) (blocks_for (length (file_data e)))"

lemma pack_file_spec:
  assumes c: "counted img st" and fs: "fs_ok img (seal img st) L" and e: "packable e"
    and slot: "0 < slots img (seal img st)" and cost: "file_cost e \<le> card (free_blocks img (seal img st))"
  shows "\<exists>st' n ib bl. pack_file img st e = st' \<and> counted img st' \<and> L n = None \<and>
    fs_ok img (seal img st') (L(n \<mapsto> (ib, bl))) \<and> file_name img (seal img st') n (d_name e) \<and>
    content img (seal img st') n bl = file_data e \<and> same_files img (seal img st) (seal img st') L \<and>
    card (free_blocks img (seal img st)) = card (free_blocks img (seal img st')) + file_cost e \<and>
    slots img (seal img st) = Suc (slots img (seal img st'))"
proof -
  let ?M = "seal img st" and ?data = "file_data e"
  note ok = fs_okD(1) [OF fs]
  have free: "free_blocks img ?M \<noteq> {}" using cost by (auto simp: file_cost_def)
  have slot': "\<exists>i < FAT_LEN. fat_entry img ?M i = 0" using slot by (auto simp: slots_def card_gt_0_iff)
  obtain n M1 where n: "alloc_inode img ?M = (int n, M1)" "n \<in> free_blocks img ?M" "L n = None"
    "disk_ok img M1 (L(n \<mapsto> (0, [])))" "free_blocks img M1 = free_blocks img ?M - {n}"
    "same_outside (blocks_span img {0, 1, 2}) ?M M1" "3 \<le> n" "n < BLOCK_NUM"
    "slots img ?M = Suc (slots img M1)"
    unfolding slots_def by (rule take_inode [OF ok free slot'])
  obtain a st1 where "make_inode img st = (a, st1)" by (cases "make_inode img st")
  with make_inode_seal [OF c this] n(1) have mk: "make_inode img st = (int n, st1)" "seal img st1 = M1" "counted img st1"
    by auto
  define st2 where "st2 = st1\<lparr>image_mem := pack_header img (image_mem st1) (int n) e\<rparr>"
  have im2: "image_mem st2 = pack_header img (image_mem st1) (int n) e" by (simp add: st2_def)
  note h = pack_header_spec [OF n(7,8) e im2]
  have s12: "same_outside (span img (512 * n) 38) M1 (seal img st2)"
    using seal_same [of _ st1 st2 img] h(1) mk(2) by (simp add: st2_def)
  let ?L = "L(n \<mapsto> (0, []))"
  have l: "?L n = Some (0, [])" by simp
  note hd = disk_header [OF n(4) l s12]
  have out: "span img 6 2 \<inter> span img (512 * n + bo) k = {}" for bo k
    by (rule span_disjoint) (use n(7) in simp)
  have sz: "file_size img (seal img st2) n = length ?data" "file_blocks img (seal img st2) n = blocks_for (length ?data)"
    "file_name img (seal img st2) n (d_name e)"
    using field_frame(4,5) [OF seal_outside n(8)] file_name_frame [OF seal_outside _ n(8)] out [of 0] out h(2-4)
    by (simp_all add: Int_commute)
  have c2: "counted img st2"
  proof -
    have "free_blocks img (image_mem st2) = free_blocks img (image_mem st1)"
      using hd(2) mk(2) free_seal [of img st2] free_seal [of img st1] by simp
    then show ?thesis using mk(3) by (simp add: counted_def st2_def)
  qed
  have nf: "n \<in> free_blocks img ?M" by (rule n(2))
  then have "Suc (card (free_blocks img ?M - {n})) = card (free_blocks img ?M)" by (intro card_Suc_Diff1) simp_all
  then have cf: "card (free_blocks img (seal img st2)) + 1 = card (free_blocks img ?M)"
    using hd(2) n(5) by simp
  then have need: "blocks_needed (0, []) (blocks_for (length ?data)) \<le> card (free_blocks img (seal img st2))"
    using cost by (simp add: file_cost_def)
  have len: "length ?data \<le> 71680" using e by (simp add: packable_def)
  have p: "0 = 512 * length ([] :: nat list)" "0 \<le> length ?data"
    "\<forall>k < 0. seal img st2 (byte_addr img ((!) []) k) = ?data ! k" by simp_all
  obtain st' ib bl N where r: "pack_data img st2 (get_inode img (int n)) ?data 0 = st'" "counted img st'"
    "grows img (seal img st2) ?L n (ib, bl) (owned n (ib, bl)) N (seal img st')"
    "card N = blocks_needed (0, []) (blocks_for (length ?data))" "length bl = blocks_for (length ?data)"
    "\<forall>k < length ?data. seal img st' (byte_addr img ((!) bl) k) = ?data ! k"
    using pack_data_spec [OF c2 hd(1) l p(1,2) len need p(3), unfolded append_Nil] by blast
  let ?L' = "L(n \<mapsto> (ib, bl))" and ?M' = "seal img st'"
  have run: "pack_file img st e = st'" using mk(1) r(1) by (simp add: pack_file_header st2_def)
  have ok': "disk_ok img ?M' ?L'" and N: "N \<subseteq> free_blocks img (seal img st2)"
    "free_blocks img ?M' = free_blocks img (seal img st2) - N"
    and hdr: "same_header img n (seal img st2) ?M'"
    and s2': "same_outside (blocks_span img ({0, 1} \<union> owned n (ib, bl))) (seal img st2) ?M'"
    using r(3) by (simp_all add: grows_def)
  have l': "?L' n = Some (ib, bl)" by simp
  note fields = same_header_fields [OF hdr n(8)]
  have szn: "file_size img ?M' n = length ?data" "file_blocks img ?M' n = length bl"
    using fields sz(1,2) r(5) by simp_all
  have nm: "file_name img ?M' n (d_name e)"
  proof -
    have "same_outside (- span img (512 * n) 38) (seal img st2) ?M'" using hdr by (auto simp: same_header_def same_outside_def)
    moreover have "span img (512 * n + 4) 32 \<subseteq> span img (512 * n) 38" by (simp add: span_subset)
    ultimately show ?thesis using file_name_frame [OF _ _ n(8)] sz(3) by blast
  qed
  have content: "content img ?M' n bl = ?data"
    by (rule nth_equalityI) (use szn r(6) in \<open>simp_all add: content_nth\<close>)
  have W: "same_outside (blocks_span img ({0, 1, 2} \<union> owned n (ib, bl))) ?M ?M'"
    by (rule same_outside_trans [OF same_outside_mono [OF n(6) blocks_span_mono]
          same_outside_trans [OF same_outside_mono [OF hd(3) blocks_span_mono]
            same_outside_mono [OF s2' blocks_span_mono]]]) auto
  have same: "same_files img ?M ?M' L"
  proof (rule same_filesI [OF ok _ W])
    show "sizes_ok img ?M L" using fs by (simp add: fs_ok_def)
    show "\<forall>n' l'. L n' = Some l' \<longrightarrow> ({0, 1, 2} \<union> owned n (ib, bl)) \<inter> owned n' l' = {}"
    proof (intro allI impI)
      fix n' l' assume l2: "L n' = Some l'"
      then have nn: "n' \<noteq> n" using n(3) by auto
      have "owned n (ib, bl) \<inter> owned n' l' = {}" using disk_okD(5) [OF ok' nn [symmetric] l'] l2 nn by simp
      moreover have "{0, 1, 2} \<inter> owned n' l' = {}" using disk_okD(4) [OF ok l2] by fastforce
      ultimately show "({0, 1, 2} \<union> owned n (ib, bl)) \<inter> owned n' l' = {}" by blast
    qed
  qed
  have "length ?data \<le> 512 * length bl" using blocks_for_le [of "length ?data" "length bl"] r(5) by simp
  then have "sizes_ok img ?M' ?L'"
    using fs same szn by (auto simp: sizes_ok_def fs_ok_def same_files_def)
  then have fs': "fs_ok img ?M' ?L'" using ok' by (simp add: fs_ok_def)
  have fN: "finite N" by (rule finite_subset [OF N(1)]) simp
  then have "card (free_blocks img ?M') + card N = card (free_blocks img (seal img st2))"
    using N card_mono [OF finite_free_blocks N(1)] by (simp add: card_Diff_subset)
  then have cost': "card (free_blocks img ?M) = card (free_blocks img ?M') + file_cost e"
    using cf r(4) by (simp add: file_cost_def)
  have fat: "fat_entry img ?M' i = fat_entry img M1 i" if "i < FAT_LEN" for i
  proof -
    have "fat_entry img (seal img st2) i = fat_entry img M1 i"
      by (rule same_blocks_alloc(3) [OF hd(3) _ that]) (use n(7) in simp)
    moreover have "2 \<notin> {0, 1} \<union> owned n (ib, bl)" using disk_okD(4) [OF ok' l', of 2] by auto
    then have "fat_entry img ?M' i = fat_entry img (seal img st2) i"
      by (rule same_blocks_alloc(3) [OF s2' _ that])
    ultimately show ?thesis by simp
  qed
  have "slots img ?M = Suc (slots img ?M')" using n(9) slots_cong [OF fat] by simp
  with run r(2) n(3) fs' nm content same cost' show ?thesis by blast
qed

end
