(* ===== verification/Mkfs_Readback.thy ===== *)
theory Mkfs_Readback
  imports Mkfs_Image
begin

text \<open>
  The whole of \<^verbatim>\<open>tool/mkfs.c\<close>: the directory is packed file by file into an image of zeros with
  three reserved blocks, and the kernel's lookup and read find every file in the result.
\<close>

section \<open>The directory\<close>

definition regular_files :: "dir_entry list \<Rightarrow> dir_entry list" where
  "regular_files es = filter (\<lambda>e. d_name e \<notin> set dot_names \<and> is_regular e) es"

text \<open>The file system holds these files, each at the inode of the same position of a list.\<close>

definition holds :: "addr \<Rightarrow> mem \<Rightarrow> (nat \<Rightarrow> layout option) \<Rightarrow> dir_entry list \<Rightarrow> nat list \<Rightarrow> bool" where
  "holds img m L fs ns \<longleftrightarrow> length ns = length fs \<and> distinct ns \<and> dom L = set ns \<and>
     (\<forall>i < length fs. \<exists>ib bl. L (ns ! i) = Some (ib, bl) \<and> file_name img m (ns ! i) (d_name (fs ! i)) \<and>
        content img m (ns ! i) bl = file_data (fs ! i))"

lemma holds_snoc:
  assumes h: "holds img m L fs ns" and n: "L n = None" and same: "same_files img m m' L"
    and new: "file_name img m' n (d_name e)" "content img m' n bl = file_data e"
  shows "holds img m' (L(n \<mapsto> (ib, bl))) (fs @ [e]) (ns @ [n])"
  unfolding holds_def
proof (intro conjI allI impI)
  have len: "length ns = length fs" "distinct ns" "dom L = set ns" using h by (simp_all add: holds_def)
  have nn: "n \<notin> set ns" using n len(3) by (metis domIff)
  show "length (ns @ [n]) = length (fs @ [e])" "distinct (ns @ [n])" using len nn by simp_all
  show "dom (L(n \<mapsto> (ib, bl))) = set (ns @ [n])" using len(3) by simp
  fix i assume i: "i < length (fs @ [e])"
  show "\<exists>ib' bl'. (L(n \<mapsto> (ib, bl))) ((ns @ [n]) ! i) = Some (ib', bl') \<and>
      file_name img m' ((ns @ [n]) ! i) (d_name ((fs @ [e]) ! i)) \<and>
      content img m' ((ns @ [n]) ! i) bl' = file_data ((fs @ [e]) ! i)"
  proof (cases "i < length fs")
    case True
    then obtain ib' bl' where l: "L (ns ! i) = Some (ib', bl')" "file_name img m (ns ! i) (d_name (fs ! i))"
      "content img m (ns ! i) bl' = file_data (fs ! i)" using h unfolding holds_def by blast
    moreover have "ns ! i \<noteq> n" using n l(1) by auto
    moreover have "content img m' (ns ! i) bl' = content img m (ns ! i) bl'"
      "file_name img m' (ns ! i) bs = file_name img m (ns ! i) bs" for bs
      using same l(1) unfolding same_files_def by blast+
    ultimately show ?thesis using True len(1) by (simp add: nth_append)
  next
    case False
    then have "i = length fs" using i by simp
    then show ?thesis using len(1) new by (simp add: nth_append)
  qed
qed

lemma pack_directory_spec:
  assumes "counted img st" and "fs_ok img (seal img st) L" and "holds img (seal img st) L fs ns"
    and "\<forall>e \<in> set (regular_files es). packable e" and "length (regular_files es) \<le> slots img (seal img st)"
    and "sum_list (map file_cost (regular_files es)) \<le> card (free_blocks img (seal img st))"
  shows "\<exists>st' L' ns'. pack_directory img st es = st' \<and> fs_ok img (seal img st') L' \<and>
    holds img (seal img st') L' (fs @ regular_files es) ns' \<and>
    card (free_blocks img (seal img st)) = card (free_blocks img (seal img st')) + sum_list (map file_cost (regular_files es)) \<and>
    slots img (seal img st) = slots img (seal img st') + length (regular_files es)"
  using assms
proof (induction es arbitrary: st L fs ns)
  case Nil
  then show ?case by (auto simp: regular_files_def)
next
  case (Cons e es)
  show ?case
  proof (cases "d_name e \<notin> set dot_names \<and> is_regular e")
    case False
    then have "regular_files (e # es) = regular_files es" "pack_directory img st (e # es) = pack_directory img st es"
      by (auto simp: regular_files_def)
    with Cons show ?thesis by simp
  next
    case True
    then have r: "regular_files (e # es) = e # regular_files es"
      "pack_directory img st (e # es) = pack_directory img (pack_file img st e) es"
      by (auto simp: regular_files_def)
    have p: "packable e" "0 < slots img (seal img st)" "file_cost e \<le> card (free_blocks img (seal img st))"
      using Cons.prems(4-6) by (simp_all add: r(1))
    obtain st1 n ib bl where f: "pack_file img st e = st1" "counted img st1" "L n = None"
      "fs_ok img (seal img st1) (L(n \<mapsto> (ib, bl)))" "file_name img (seal img st1) n (d_name e)"
      "content img (seal img st1) n bl = file_data e" "same_files img (seal img st) (seal img st1) L"
      "card (free_blocks img (seal img st)) = card (free_blocks img (seal img st1)) + file_cost e"
      "slots img (seal img st) = Suc (slots img (seal img st1))"
      using pack_file_spec [OF Cons.prems(1,2) p] by blast
    have h: "holds img (seal img st1) (L(n \<mapsto> (ib, bl))) (fs @ [e]) (ns @ [n])"
      by (rule holds_snoc [OF Cons.prems(3) f(3,7,5,6)])
    have rest: "\<forall>e \<in> set (regular_files es). packable e" "length (regular_files es) \<le> slots img (seal img st1)"
      "sum_list (map file_cost (regular_files es)) \<le> card (free_blocks img (seal img st1))"
      using Cons.prems(4-6) f(8,9) by (simp_all add: r(1))
    have "fs @ regular_files (e # es) = (fs @ [e]) @ regular_files es" by (simp add: r(1))
    then show ?thesis unfolding r(2) f(1) using Cons.IH [OF f(2,4) h rest] f(8,9) by (fastforce simp: r(1))
  qed
qed

section \<open>The empty image\<close>

lemma make_next_block:
  assumes "counted img st" and "free_blocks img (seal img st) = {k..<BLOCK_NUM}" and "k < BLOCK_NUM"
  shows "\<exists>st'. make_block img st = (int k, st') \<and> counted img st' \<and>
    free_blocks img (seal img st') = {k + 1..<BLOCK_NUM} \<and> same_outside (blocks_span img {0, 1}) (seal img st) (seal img st')"
proof -
  obtain a st' where a: "make_block img st = (a, st')" by (cases "make_block img st")
  have ne: "{k..<BLOCK_NUM} \<noteq> {}" and mn: "Min {k..<BLOCK_NUM} = k" using assms(3) by (auto intro: Min_eqI)
  have "alloc_free_block img (seal img st) = (int k, seal img st')" "free_blocks img (seal img st') = {k..<BLOCK_NUM} - {k}"
    "same_outside (alloc_span img) (seal img st) (seal img st')"
    using make_block_seal(1) [OF assms(1) a] alloc_free_block_spec [OF counted_bitmap [OF assms(1)]] ne mn
    by (auto simp: assms(2))
  moreover have "{k..<BLOCK_NUM} - {k} = {k + 1..<BLOCK_NUM}" by auto
  ultimately show ?thesis
    using a make_block_seal [OF assms(1) a] same_outside_mono [OF _ alloc_span_blocks] by auto
qed

lemma reserve_blocks_spec:
  assumes zero: "\<forall>x \<in> image_span img. m x = 0"
  defines "st0 \<equiv> \<lparr>image_mem = m, unused = int BLOCK_NUM\<rparr>"
  shows "\<exists>st. reserve_blocks img st0 = Some st \<and> counted img st \<and> fs_ok img (seal img st) Map.empty \<and>
    card (free_blocks img (seal img st)) = 2045 \<and> slots img (seal img st) = 256"
proof -
  have img: "block_span img b \<subseteq> image_span img" if "b < BLOCK_NUM" for b
    using blocks_in_image [of "{b}" img] that by (auto simp: blocks_span_def)
  have zb: "\<forall>x \<in> block_span img b. m x = 0" if "b < BLOCK_NUM" for b using zero img [OF that] by blast
  have used0: "\<not> block_used img m b" if "b < BLOCK_NUM" for b
  proof -
    have "b div 32 < 64" using that by (auto simp: BLOCK_NUM_def)
    then have "load32 m (img + of_nat (512 * 1 + 4 * (b div 32))) = 0"
      by (intro load_zero [OF zb]) (simp_all add: BLOCK_NUM_def)
    then show ?thesis unfolding block_used_def field_offsets by simp
  qed
  then have "free_blocks img m = {0..<BLOCK_NUM}" by (auto simp: free_blocks_def)
  then have f0: "free_blocks img (seal img st0) = {0..<BLOCK_NUM}" and c0: "counted img st0"
    by (simp_all add: free_seal st0_def counted_def)
  obtain st1 where s1: "make_block img st0 = (int 0, st1)" "counted img st1" "free_blocks img (seal img st1) = {0 + 1..<BLOCK_NUM}"
    "same_outside (blocks_span img {0, 1}) (seal img st0) (seal img st1)"
    using make_next_block [OF c0 f0] by (auto simp: BLOCK_NUM_def)
  obtain st2 where s2: "make_block img st1 = (int (0 + 1), st2)" "counted img st2" "free_blocks img (seal img st2) = {0 + 1 + 1..<BLOCK_NUM}"
    "same_outside (blocks_span img {0, 1}) (seal img st1) (seal img st2)"
    using make_next_block [OF s1(2,3)] by (auto simp: BLOCK_NUM_def)
  obtain st3 where s3: "make_block img st2 = (int (0 + 1 + 1), st3)" "counted img st3"
    "free_blocks img (seal img st3) = {0 + 1 + 1 + 1..<BLOCK_NUM}"
    "same_outside (blocks_span img {0, 1}) (seal img st2) (seal img st3)"
    using make_next_block [OF s2(2,3)] by (auto simp: BLOCK_NUM_def)
  let ?M = "seal img st3"
  have r: "reserve_blocks img st0 = Some st3" using s1(1) s2(1) s3(1) by (simp add: reserve_blocks_def)
  have "span img 6 2 \<subseteq> blocks_span img {0, 1}"
    using span_in_block [of 6 2 img 0] by (auto simp: blocks_span_def)
  with seal_outside [of img st0] have "same_outside (blocks_span img {0, 1}) m (seal img st0)"
    unfolding st0_def by (auto intro: same_outside_mono)
  then have s: "same_outside (blocks_span img {0, 1}) m ?M"
    using s1(4) s2(4) s3(4) by (meson same_outside_trans)
  have fr: "free_blocks img ?M = {3..<BLOCK_NUM}" using s3(3) by (simp add: numeral_3_eq_3)
  have fat0: "fat_entry img ?M i = 0" if "i < FAT_LEN" for i
  proof -
    have "load16 m (img + of_nat (512 * 2 + 2 * i)) = 0"
      using that by (intro load_zero [OF zb]) (simp_all add: BLOCK_NUM_def FAT_LEN_def)
    then have "fat_entry img m i = 0" unfolding fat_entry_def field_offsets by simp
    then show ?thesis using same_blocks_alloc(3) [OF s _ that] by simp
  qed
  have "disk_ok img ?M Map.empty"
    unfolding disk_ok_def
  proof (intro conjI)
    show "bitmap_ok img ?M" by (rule counted_bitmap [OF s3(2)])
    show "\<forall>b < 3. block_used img ?M b"
    proof (intro allI impI)
      fix b :: nat assume "b < 3"
      then have "b \<notin> free_blocks img ?M" "b < BLOCK_NUM" using fr by (auto simp: BLOCK_NUM_def)
      then show "block_used img ?M b" by (simp add: free_blocks_def)
    qed
    show "\<forall>b \<in> free_blocks img ?M. \<forall>x \<in> block_span img b. ?M x = 0"
    proof (intro ballI)
      fix b x assume b: "b \<in> free_blocks img ?M" "x \<in> block_span img b"
      then have "3 \<le> b" "b < BLOCK_NUM" using fr by auto
      moreover from this have "same_block img m ?M b" by (intro same_block_outside [OF s]) auto
      ultimately show "?M x = 0" using b(2) zb by (simp add: same_block_def)
    qed
    show "fat_ok img ?M (dom Map.empty)" using fat0 by (simp add: fat_ok_def)
  qed simp_all
  then have "fs_ok img ?M Map.empty" by (simp add: fs_ok_def sizes_ok_def)
  moreover have "slots img ?M = 256"
  proof -
    have "{i. i < FAT_LEN \<and> fat_entry img ?M i = 0} = {..<256}" using fat0 by (auto simp: FAT_LEN_def)
    then show ?thesis by (simp add: slots_def)
  qed
  moreover have "card (free_blocks img ?M) = 2045" using fr by (simp add: BLOCK_NUM_def)
  ultimately show ?thesis using r s3(2) by blast
qed

section \<open>The superblock\<close>

text \<open>
  The magic number and the number of blocks stand before the counter. They and the memory outside
  the image do not matter to the files.
\<close>

lemma fs_ok_superblock:
  assumes "fs_ok img m L" and s: "same_outside (span img 0 6 \<union> - image_span img) m m'"
  shows "fs_ok img m' L" and "holds img m L fs ns \<Longrightarrow> holds img m' L fs ns"
    and "free_blocks img m' = free_blocks img m" and "slots img m' = slots img m" and "same_files img m m' L"
proof -
  note ok = fs_okD(1) [OF assms(1)] and d = disk_okD [OF fs_okD(1) [OF assms(1)]]
  let ?W = "insert 0 {BLOCK_NUM..}"
  have "span img 0 6 \<union> - image_span img \<subseteq> blocks_span img ?W"
  proof
    fix x assume x: "x \<in> span img 0 6 \<union> - image_span img"
    define b where "b = unat (x - img) div 512"
    have "unat (x - img) < 6 \<or> 2 ^ 20 \<le> unat (x - img)" using x by (auto simp: span_def)
    then have "b \<in> ?W" by (auto simp: b_def BLOCK_NUM_def)
    moreover have "x \<in> block_span img b"
      unfolding block_span_def span_def b_def by simp
    ultimately show "x \<in> blocks_span img ?W" by (auto simp: blocks_span_def)
  qed
  with s have B: "same_outside (blocks_span img ?W) m m'" by (rule same_outside_mono)
  have low: "\<forall>n l. L n = Some l \<longrightarrow> ?W \<inter> owned n l = {}" using d(4) by fastforce
  have same: "same_files img m m' L"
    by (rule same_filesI [OF ok _ B low]) (use assms(1) in \<open>simp add: fs_ok_def\<close>)
  then show "same_files img m m' L" .
  have used: "block_used img m' b = block_used img m b" if "b < BLOCK_NUM" for b
    by (rule same_blocks_alloc(2) [OF B _ that]) (simp add: BLOCK_NUM_def)
  then have fr: "free_blocks img m' = free_blocks img m" by (auto simp: free_blocks_def)
  show "free_blocks img m' = free_blocks img m" by (rule fr)
  show "slots img m' = slots img m" by (rule slots_cong, rule same_blocks_alloc(3) [OF B]) (simp_all add: BLOCK_NUM_def)
  have un: "unused_blocks img m' = unused_blocks img m" by (rule field_frame(1) [OF s]) (auto simp: span_def)
  have "disk_ok img m' L"
    unfolding disk_ok_def
  proof (intro conjI)
    show "bitmap_ok img m'" using d(1) by (simp add: bitmap_ok_def fr un)
    show "\<forall>b < 3. block_used img m' b" using d(2) used by (auto simp: BLOCK_NUM_def)
    show "\<forall>n l. L n = Some l \<longrightarrow> ptrs_ok img m' n l \<and>
        (\<forall>b \<in> owned n l. 3 \<le> b \<and> b < BLOCK_NUM \<and> block_used img m' b)"
    proof (intro allI impI)
      fix n l assume l: "L n = Some l"
      obtain ib bl where eq: "l = (ib, bl)" by (cases l)
      note lb = layout_bounds [OF ok l [unfolded eq]]
      have "ptrs_ok img m' n l"
        unfolding eq by (rule ptrs_frame [OF d(3) [OF l, unfolded eq] lb(2,3)])
          (use same_block_outside [OF B] lb(1-4) in auto)
      moreover have "\<forall>b \<in> owned n l. 3 \<le> b \<and> b < BLOCK_NUM \<and> block_used img m' b"
        using d(4) [OF l] used by blast
      ultimately show "ptrs_ok img m' n l \<and> (\<forall>b \<in> owned n l. 3 \<le> b \<and> b < BLOCK_NUM \<and> block_used img m' b)" by blast
    qed
    show "\<forall>n n' l l'. n \<noteq> n' \<longrightarrow> L n = Some l \<longrightarrow> L n' = Some l' \<longrightarrow> owned n l \<inter> owned n' l' = {}" using d(5) by blast
    show "\<forall>b \<in> free_blocks img m'. \<forall>x \<in> block_span img b. m' x = 0"
    proof (intro ballI)
      fix b x assume b: "b \<in> free_blocks img m'" "x \<in> block_span img b"
      then have "b \<in> free_blocks img m" using fr by simp
      then have "b \<noteq> 0" using d(2) [of 0] unfolding free_blocks_def by (intro notI) simp
      then have "same_block img m m' b"
        using b(1) by (intro same_block_outside [OF B]) (simp add: free_blocks_def)
      then show "m' x = 0" using b d(6) by (simp add: fr same_block_def)
    qed
    show "fat_ok img m' (dom L)"
      using d(7) fat_ok_cong [of img m' m] same_blocks_alloc(3) [OF B] by (simp add: BLOCK_NUM_def)
  qed
  moreover have "sizes_ok img m' L" using assms(1) same by (auto simp: sizes_ok_def fs_ok_def same_files_def)
  ultimately show "fs_ok img m' L" by (simp add: fs_ok_def)
  show "holds img m' L fs ns" if h: "holds img m L fs ns"
    unfolding holds_def
  proof (intro conjI allI impI)
    show "length ns = length fs" "distinct ns" "dom L = set ns" using h by (simp_all add: holds_def)
    fix i assume "i < length fs"
    then obtain ib bl where l: "L (ns ! i) = Some (ib, bl)" "file_name img m (ns ! i) (d_name (fs ! i))"
      "content img m (ns ! i) bl = file_data (fs ! i)" using h unfolding holds_def by blast
    then have "file_name img m' (ns ! i) (d_name (fs ! i))" "content img m' (ns ! i) bl = file_data (fs ! i)"
      using same unfolding same_files_def by fastforce+
    with l(1) show "\<exists>ib bl. L (ns ! i) = Some (ib, bl) \<and> file_name img m' (ns ! i) (d_name (fs ! i)) \<and>
        content img m' (ns ! i) bl = file_data (fs ! i)" by blast
  qed
qed

lemma fill_superblock_seal: "same_outside (span img 0 6 \<union> - image_span img) (seal img st) (fill_superblock img st)"
proof -
  let ?sb = "get_block img 0"
  have sb: "?sb = img + of_nat 0" "?sb + 4 = img + of_nat 4" "?sb + 6 = sb_unused img"
    using get_block_nat [of img 0] by (simp_all add: sb_unused_def)
  define m1 where "m1 = store32 (image_mem st) ?sb MAGIC_NUM"
  define m2 where "m2 = store16 m1 (?sb + 4) (of_nat BLOCK_NUM)"
  have "same_outside (span img 0 4) (image_mem st) m1"
    unfolding m1_def sb(1) by (rule same_outside_store_span) simp_all
  moreover have "same_outside (span img 4 2) m1 m2"
    unfolding m2_def sb(2) by (rule same_outside_store_span) simp_all
  moreover have "span img 0 4 \<subseteq> span img 0 6" "span img 4 2 \<subseteq> span img 0 6" by (simp_all add: span_subset)
  ultimately have s: "same_outside (span img 0 6) (image_mem st) m2"
    by (blast intro: same_outside_trans same_outside_mono)
  have "same_outside (span img 0 6) (seal img st) (seal img (st\<lparr>image_mem := m2\<rparr>))"
    by (rule seal_same) (use s in simp_all)
  moreover have "fill_superblock img st = seal img (st\<lparr>image_mem := m2\<rparr>)"
    by (simp add: fill_superblock_def seal_def m1_def m2_def sb(3) Let_def)
  ultimately have "same_outside (span img 0 6) (seal img st) (fill_superblock img st)" by simp
  then show ?thesis by (rule same_outside_mono) simp
qed

section \<open>The program\<close>

lemma mkfs_spec:
  assumes "\<forall>e \<in> set (regular_files es). packable e" and "length (regular_files es) \<le> 256"
    and "sum_list (map file_cost (regular_files es)) \<le> 2045"
  shows "\<exists>m' L ns. mkfs img m es = Some m' \<and> fs_ok img m' L \<and> holds img m' L (regular_files es) ns \<and>
    card (free_blocks img m') + sum_list (map file_cost (regular_files es)) = 2045 \<and>
    slots img m' + length (regular_files es) = 256"
proof -
  define m0 where "m0 = (\<lambda>x. if unat (x - img) < IMG_SIZE then 0 else m x)"
  have "\<forall>x \<in> image_span img. m0 x = 0" by (simp add: m0_def span_def IMG_SIZE_def BLOCK_SIZE_def BLOCK_NUM_def)
  then obtain st where st: "reserve_blocks img \<lparr>image_mem = m0, unused = int BLOCK_NUM\<rparr> = Some st" "counted img st"
    "fs_ok img (seal img st) Map.empty" "card (free_blocks img (seal img st)) = 2045" "slots img (seal img st) = 256"
    using reserve_blocks_spec by blast
  have h: "holds img (seal img st) Map.empty [] []" by (simp add: holds_def)
  have lim: "length (regular_files es) \<le> slots img (seal img st)"
    "sum_list (map file_cost (regular_files es)) \<le> card (free_blocks img (seal img st))"
    using assms(2,3) st(4,5) by simp_all
  obtain st' L ns where r: "pack_directory img st es = st'" "fs_ok img (seal img st') L"
    "holds img (seal img st') L (regular_files es) ns"
    "card (free_blocks img (seal img st')) + sum_list (map file_cost (regular_files es)) = 2045"
    "slots img (seal img st') + length (regular_files es) = 256"
    using st(4,5) pack_directory_spec [OF st(2,3) h assms(1) lim] by auto
  have "mkfs img m es = Some (fill_superblock img st')"
    using st(1) r(1) by (simp add: mkfs_def m0_def [symmetric])
  with fs_ok_superblock [OF r(2) fill_superblock_seal] r(3-5) show ?thesis by metis
qed

text \<open>What the kernel finds in a file system that holds files of different names.\<close>

lemma holds_lookup:
  assumes fs: "fs_ok img m L" and h: "holds img m L fs ns" and d: "distinct (map d_name fs)"
    and name: "is_cstring name bs"
  shows "i < length fs \<Longrightarrow> bs = d_name (fs ! i) \<Longrightarrow> lookup img m name = Inr (get_inode img (int (ns ! i)))"
    and "bs \<notin> d_name ` set fs \<Longrightarrow> lookup img m name = Inr 0"
proof -
  have len: "length ns = length fs" "distinct ns" "dom L = set ns" using h by (simp_all add: holds_def)
  define pos where "pos n = (THE i. i < length ns \<and> ns ! i = n)" for n
  have pos: "pos (ns ! i) = i" if "i < length ns" for i
    unfolding pos_def using that len(2) by (intro the_equality) (auto simp: nth_eq_iff_index_eq)
  define nm where "nm n = d_name (fs ! pos n)" for n
  have names: "\<forall>n \<in> dom L. file_name img m n (nm n)"
  proof
    fix n assume "n \<in> dom L"
    then obtain i where i: "i < length ns" "n = ns ! i" using len(3) by (auto simp: in_set_conv_nth)
    then show "file_name img m n (nm n)" using h pos [OF i(1)] len(1) unfolding holds_def nm_def by auto
  qed
  have nmi: "nm (ns ! i) = d_name (fs ! i)" if "i < length fs" for i using that pos len(1) by (simp add: nm_def)
  have inj: "inj_on nm (dom L)"
  proof (rule inj_onI)
    fix x y assume "x \<in> dom L" "y \<in> dom L" "nm x = nm y"
    then obtain i j where i: "i < length fs" "x = ns ! i" and j: "j < length fs" "y = ns ! j"
      using len by (auto simp: in_set_conv_nth)
    have "map d_name fs ! i = map d_name fs ! j" using i j nmi \<open>nm x = nm y\<close> by simp
    then have "i = j" using nth_eq_iff_index_eq [OF d, of i j] i(1) j(1) by simp
    then show "x = y" using i j by simp
  qed
  have "0 \<notin> dom L" using layout_bounds(1) [OF fs_okD(1) [OF fs], of 0] by force
  note look = lookup_spec [OF disk_okD(7) [OF fs_okD(1) [OF fs]] names name inj this]
  show "lookup img m name = Inr (get_inode img (int (ns ! i)))" if "i < length fs" "bs = d_name (fs ! i)"
    using that look(1) [of "ns ! i"] nmi len by simp
  have "nm ` dom L \<subseteq> d_name ` set fs"
  proof
    fix b assume "b \<in> nm ` dom L"
    then obtain i where "i < length fs" "b = nm (ns ! i)" using len by (auto simp: in_set_conv_nth)
    then show "b \<in> d_name ` set fs" using nmi by simp
  qed
  then show "lookup img m name = Inr 0" if "bs \<notin> d_name ` set fs" using that look(2) by blast
qed

end
