(* ===== verification/File_Session.thy ===== *)
theory File_Session
  imports File_Calls Kernel_Heap Mkfs_Readback
begin

text \<open>
  The system calls on files, where the heap, the file system and the table of open files meet: what
  each call returns and how it changes the kernel, for a file that is named in the image. A call
  keeps the invariant \<open>file_heap\<close>, in which the allocator and the file system own disjoint memory.
\<close>

section \<open>The heap and the image\<close>

definition well_placed :: "image \<Rightarrow> addr set \<Rightarrow> bool" where
  "well_placed img R \<longleftrightarrow> R \<inter> image_span (fs_img_start img) = {} \<and>
     0 \<notin> image_span (fs_img_start img) \<and> ROOT_INODE img \<notin> image_span (fs_img_start img)"

text \<open>\<open>nm\<close> gives the names of the files.\<close>

definition file_heap ::
  "image \<Rightarrow> addr set \<Rightarrow> addr set \<Rightarrow> (nat \<Rightarrow> layout option) \<Rightarrow> (nat \<Rightarrow> u8 list) \<Rightarrow> bstate \<Rightarrow> bool" where
  "file_heap img R F L nm h \<longleftrightarrow> well_placed img R \<and> buddy_inv R h F \<and> fs_ok (fs_img_start img) (fst h) L \<and>
     (\<forall>n \<in> dom L. file_name (fs_img_start img) (fst h) n (nm n)) \<and> inj_on nm (dom L)"

lemma file_heapD:
  assumes "file_heap img R F L nm h"
  shows "well_placed img R" and "buddy_inv R h F" and "fs_ok (fs_img_start img) (fst h) L"
    and "\<forall>n \<in> dom L. file_name (fs_img_start img) (fst h) n (nm n)" and "inj_on nm (dom L)"
    and "F \<inter> image_span (fs_img_start img) = {}" and "F \<subseteq> R"
    and "R \<inter> image_span (fs_img_start img) = {}"
proof -
  show "well_placed img R" "buddy_inv R h F" "fs_ok (fs_img_start img) (fst h) L"
    "\<forall>n \<in> dom L. file_name (fs_img_start img) (fst h) n (nm n)" "inj_on nm (dom L)"
    using assms by (simp_all add: file_heap_def)
  show "F \<subseteq> R" by (rule buddy.inv_region [OF \<open>buddy_inv R h F\<close>])
  then show "F \<inter> image_span (fs_img_start img) = {}" "R \<inter> image_span (fs_img_start img) = {}"
    using \<open>well_placed img R\<close> unfolding well_placed_def by blast+
qed

text \<open>Writes outside the image leave every file as it is.\<close>

lemma files_outside:
  assumes "file_heap img R F L nm h" and "same_outside (- image_span (fs_img_start img)) (fst h) (fst h')"
    and "buddy_inv R h' F'"
  shows "file_heap img R F' L nm h'" and "same_files (fs_img_start img) (fst h) (fst h') L"
    and "free_blocks (fs_img_start img) (fst h') = free_blocks (fs_img_start img) (fst h)"
    and "slots (fs_img_start img) (fst h') = slots (fs_img_start img) (fst h)"
proof -
  note d = file_heapD [OF assms(1)]
  have "same_outside (span (fs_img_start img) 0 6 \<union> - image_span (fs_img_start img)) (fst h) (fst h')"
    by (rule same_outside_mono [OF assms(2)]) blast
  note o = fs_ok_superblock [OF d(3) this]
  have "\<forall>n \<in> dom L. file_name (fs_img_start img) (fst h') n (nm n)"
    using d(4) o(5) unfolding same_files_def by fastforce
  then show "file_heap img R F' L nm h'" using d(1,5) assms(3) o(1) by (simp add: file_heap_def)
  show "same_files (fs_img_start img) (fst h) (fst h') L"
    "free_blocks (fs_img_start img) (fst h') = free_blocks (fs_img_start img) (fst h)"
    "slots (fs_img_start img) (fst h') = slots (fs_img_start img) (fst h)" by (fact o)+
qed

text \<open>Writes to the image leave the heap as it is.\<close>

lemma heap_outside:
  assumes "file_heap img R F L nm (m, b)" and "same_outside (image_span (fs_img_start img)) m m'"
  shows "buddy_inv R (m', b) F"
  using file_heapD [OF assms(1)] by (intro buddy_inv_same_free [OF _ same_outside_mono [OF assms(2)]]) auto

text \<open>Writes to a buffer of a program leave both.\<close>

lemma user_write:
  assumes h: "file_heap img R F L nm (m, b)" and s: "same_outside U m m'"
    and U: "U \<inter> F = {}" "U \<inter> image_span (fs_img_start img) = {}"
  shows "file_heap img R F L nm (m', b)" and "same_files (fs_img_start img) m m' L"
    and "free_blocks (fs_img_start img) m' = free_blocks (fs_img_start img) m"
    and "slots (fs_img_start img) m' = slots (fs_img_start img) m"
proof -
  have "buddy_inv R (m', b) F"
    by (rule buddy_inv_same_free [OF file_heapD(2) [OF h] same_outside_mono [OF s]]) (use U in auto)
  moreover have "same_outside (- image_span (fs_img_start img)) m m'" by (rule same_outside_mono [OF s]) (use U in auto)
  ultimately show "file_heap img R F L nm (m', b)" "same_files (fs_img_start img) m m' L"
    "free_blocks (fs_img_start img) m' = free_blocks (fs_img_start img) m"
    "slots (fs_img_start img) m' = slots (fs_img_start img) m"
    using files_outside [OF h, of "(m', b)"] by simp_all
qed

lemma inode_in_image: "n < BLOCK_NUM \<Longrightarrow> get_inode img (int n) \<in> image_span img"
proof -
  assume n: "n < BLOCK_NUM"
  have "get_inode img (int n) = img + of_nat (512 * n)" using field_offsets(4) by (simp add: i_size_def)
  then show ?thesis using n offset_in_span [of 0 "512 * n" "2 ^ 20" img] by (simp add: BLOCK_NUM_def)
qed

section \<open>Opening\<close>

lemma open_inode_spec:
  assumes h: "file_heap img R F L nm (kheap s)" and room: "blk 5 c \<subseteq> F" and b: "pcbs s (current s) = Some b"
  obtains f h' t where "open_inode s i inode = Inr (int i,
      s\<lparr>kheap := h', pcbs := (pcbs s)(current s \<mapsto> b\<lparr>files := (files b)[i := f]\<rparr>),
        file_table := (file_table s)(f \<mapsto> \<lparr>f_type = t, f_count = 1, f_off = 0, f_inode = inode\<rparr>)\<rparr>)"
    and "f \<noteq> 0" and "aligned 5 f" and "blk 5 f \<subseteq> F" and "t \<noteq> FILE_STDIO"
    and "file_heap img R (F - blk 5 f) L nm h'" and "same_outside F (kmem s) (fst h')"
proof -
  note d = file_heapD [OF h]
  have o: "size_order sizeof_file = 5" using small_orders(2) by (simp add: sizeof_file_def)
  obtain f h' where f: "alloc (kheap s) sizeof_file = Inr (f, h')" "aligned 5 f" "f \<noteq> 0" "blk 5 f \<subseteq> F"
    "buddy_inv R h' (F - blk 5 f)" "same_outside F (kmem s) (fst h')"
    using alloc_spec [OF d(2), of sizeof_file] o room by (cases "alloc (kheap s) sizeof_file") auto
  define t where "t = load16 (fst h') f"
  have "t \<noteq> FILE_STDIO" unfolding t_def FILE_STDIO_def by (rule load16_link [OF fresh_link [OF d(2) f(1)]])
  moreover have "same_outside (- image_span (fs_img_start img)) (fst (kheap s)) (fst h')"
    by (rule same_outside_mono [OF f(6)]) (use d(6) in blast)
  note fo = files_outside(1) [OF h this f(5)]
  moreover have "open_inode s i inode = Inr (int i,
      s\<lparr>kheap := h', pcbs := (pcbs s)(current s \<mapsto> b\<lparr>files := (files b)[i := f]\<rparr>),
        file_table := (file_table s)(f \<mapsto> \<lparr>f_type = t, f_count = 1, f_off = 0, f_inode = inode\<rparr>)\<rparr>)"
    using f(1) b by (simp add: open_inode_def new_file_def kalloc_def set_file_def file_at_def set_fd_def
        update_pcb_def get_pcb_def set_pcb_def deref_def t_def)
  ultimately show thesis using that f by blast
qed

abbreviation opened :: "kernel \<Rightarrow> pcb \<Rightarrow> nat \<Rightarrow> addr \<Rightarrow> u16 \<Rightarrow> addr \<Rightarrow> bstate \<Rightarrow> kernel" where
  "opened s b i f t inode h \<equiv>
     s\<lparr>kheap := h, pcbs := (pcbs s)(current s \<mapsto> b\<lparr>files := (files b)[i := f]\<rparr>),
       file_table := (file_table s)(f \<mapsto> \<lparr>f_type = t, f_count = 1, f_off = 0, f_inode = inode\<rparr>)\<rparr>"

definition free_slot :: "pcb \<Rightarrow> nat option" where
  "free_slot b = find (\<lambda>i. files b ! i = 0) [0..<NR_OPEN]"

abbreviation slash :: "u8 list" where "slash \<equiv> [of_char CHR ''/'']"

lemma slash_compare:
  assumes "is_cstring name bs" and "bs \<noteq> slash"
  shows "\<exists>c. strcmp (literal ''/'') name = Inr c \<and> c \<noteq> 0"
proof -
  have "is_cstring (literal ''/'') slash" by (simp add: is_cstring_def literal_def)
  from strcmp_spec [OF this assms(1)] assms(2) show ?thesis by (auto simp: dictionary_0_iff)
qed

text \<open>The search for the name.\<close>

lemma lookup_named:
  assumes h: "file_heap img R F L nm h" and name: "is_cstring name bs"
  shows "n \<in> dom L \<Longrightarrow> nm n = bs \<Longrightarrow>
      lookup (fs_img_start img) (fst h) name = Inr (get_inode (fs_img_start img) (int n)) \<and>
      get_inode (fs_img_start img) (int n) \<noteq> 0"
    and "bs \<notin> nm ` dom L \<Longrightarrow> lookup (fs_img_start img) (fst h) name = Inr 0"
proof -
  note d = file_heapD [OF h]
  note ok = disk_okD [OF fs_okD(1) [OF d(3)]]
  have "3 \<le> n \<and> n < BLOCK_NUM" if "n \<in> dom L" for n using that layout_bounds(1,2) [OF fs_okD(1) [OF d(3)]] by fastforce
  then have "0 \<notin> dom L" and bound: "n \<in> dom L \<Longrightarrow> n < BLOCK_NUM" for n by force+
  note l = lookup_spec [OF ok(7) d(4) name d(5) \<open>0 \<notin> dom L\<close>]
  show "bs \<notin> nm ` dom L \<Longrightarrow> lookup (fs_img_start img) (fst h) name = Inr 0" by (rule l(2))
  assume n: "n \<in> dom L" "nm n = bs"
  have "get_inode (fs_img_start img) (int n) \<noteq> 0"
    using inode_in_image [OF bound [OF n(1)]] d(1) unfolding well_placed_def by metis
  with l(1) [OF n] show "lookup (fs_img_start img) (fst h) name = Inr (get_inode (fs_img_start img) (int n)) \<and>
      get_inode (fs_img_start img) (int n) \<noteq> 0" by blast
qed

lemma sys_open_existing:
  assumes h: "file_heap img R F L nm (kheap s)" and room: "blk 5 c \<subseteq> F" and b: "pcbs s (current s) = Some b"
    and i: "free_slot b = Some i" and name: "is_cstring (string_at (kmem s) name) bs" "bs \<noteq> slash"
    and n: "n \<in> dom L" "nm n = bs"
  obtains f h' t where "sys_open img s name flags = Inr (int i, opened s b i f t (get_inode (fs_img_start img) (int n)) h')"
    and "f \<noteq> 0" and "aligned 5 f" and "blk 5 f \<subseteq> F" and "t \<noteq> FILE_STDIO"
    and "file_heap img R (F - blk 5 f) L nm h'" and "same_outside F (kmem s) (fst h')"
proof -
  note l = lookup_named(1) [OF h name(1) n]
  obtain c where c: "strcmp (literal ''/'') (string_at (kmem s) name) = Inr c" "c \<noteq> 0"
    using slash_compare [OF name] by blast
  have "sys_open img s name flags = open_inode s i (get_inode (fs_img_start img) (int n))"
    using b i c l by (simp add: sys_open_def free_slot_def get_pcb_def deref_def)
  with that show thesis using open_inode_spec [OF h room b, of i "get_inode (fs_img_start img) (int n)"] by metis
qed

lemma sys_open_new:
  assumes h: "file_heap img R F L nm (kheap s)" and room: "blk 5 c \<subseteq> F" and b: "pcbs s (current s) = Some b"
    and i: "free_slot b = Some i" and name: "is_cstring (string_at (kmem s) name) bs" "bs \<noteq> slash" "length bs < 32"
    and new: "bs \<notin> nm ` dom L" "flags AND O_CREATE \<noteq> 0"
    and free: "free_blocks (fs_img_start img) (kmem s) \<noteq> {}" "0 < slots (fs_img_start img) (kmem s)"
    and apart: "bytes_at name (length bs + 1) \<inter> image_span (fs_img_start img) = {}"
  obtains n f h' t where "sys_open img s name flags = Inr (int i, opened s b i f t (get_inode (fs_img_start img) (int n)) h')"
    and "f \<noteq> 0" and "aligned 5 f" and "blk 5 f \<subseteq> F" and "t \<noteq> FILE_STDIO" and "L n = None"
    and "file_heap img R (F - blk 5 f) (L(n \<mapsto> (0, []))) (nm(n := bs)) h'"
    and "n \<in> free_blocks (fs_img_start img) (kmem s)" and "file_size (fs_img_start img) (fst h') n = 0"
    and "free_blocks (fs_img_start img) (fst h') = free_blocks (fs_img_start img) (kmem s) - {n}"
    and "same_files (fs_img_start img) (kmem s) (fst h') L"
    and "same_outside (F \<union> image_span (fs_img_start img)) (kmem s) (fst h')"
proof -
  let ?fs = "fs_img_start img"
  note d = file_heapD [OF h]
  have l: "lookup ?fs (kmem s) (string_at (kmem s) name) = Inr 0" by (rule lookup_named(2) [OF h name(1) new(1)])
  obtain c where c: "strcmp (literal ''/'') (string_at (kmem s) name) = Inr c" "c \<noteq> 0"
    using slash_compare [OF name(1,2)] by blast
  have "\<exists>i < FAT_LEN. fat_entry ?fs (kmem s) i = 0" using free(2) by (auto simp: slots_def card_gt_0_iff)
  then obtain n m' where n: "create ?fs (kmem s) name = Inr (get_inode ?fs (int n), m')" "n \<in> free_blocks ?fs (kmem s)"
    "L n = None" "fs_ok ?fs m' (L(n \<mapsto> (0, [])))" "file_name ?fs m' n bs" "file_size ?fs m' n = 0"
    "same_files ?fs (kmem s) m' L" "free_blocks ?fs m' = free_blocks ?fs (kmem s) - {n}"
    "same_outside (image_span ?fs) (kmem s) m'"
    using create_spec [OF d(3) free(1) _ name(1,3) apart] by blast
  let ?L = "L(n \<mapsto> (0, []))" and ?nm = "nm(n := bs)"
  have "\<forall>k \<in> dom L. file_name ?fs m' k (nm k)" using d(4) n(7) unfolding same_files_def by fastforce
  then have "\<forall>k \<in> dom ?L. file_name ?fs m' k (?nm k)" using n(3,5) by auto
  moreover have "inj_on ?nm (dom ?L)" using d(5) new(1) n(3) by (auto simp: inj_on_def)
  moreover have "buddy_inv R (m', snd (kheap s)) F"
    using heap_outside [of img R F L nm "kmem s" "snd (kheap s)" m'] h n(9) by simp
  ultimately have h1: "file_heap img R F ?L ?nm (kheap (set_kmem s m'))"
    using d(1) n(4) by (simp add: file_heap_def set_kmem_def)
  have b1: "pcbs (set_kmem s m') (current (set_kmem s m')) = Some b" using b by (simp add: set_kmem_def)
  obtain f h' t where o: "open_inode (set_kmem s m') i (get_inode ?fs (int n)) =
      Inr (int i, opened (set_kmem s m') b i f t (get_inode ?fs (int n)) h')"
    and f: "f \<noteq> 0" "aligned 5 f" "blk 5 f \<subseteq> F" "t \<noteq> FILE_STDIO"
    and h': "file_heap img R (F - blk 5 f) ?L ?nm h'" "same_outside F (kmem (set_kmem s m')) (fst h')"
    by (rule open_inode_spec [OF h1 room b1])
  have so: "same_outside F m' (fst h')" using h'(2) by (simp add: set_kmem_def)
  have "same_outside (- image_span ?fs) (fst (kheap (set_kmem s m'))) (fst h')"
    by (rule same_outside_mono [OF h'(2)]) (use d(6) in blast)
  note fo = files_outside [OF h1 this file_heapD(2) [OF h'(1)]]
  have m1: "kmem (set_kmem s m') = m'" by (simp add: set_kmem_def)
  have "L k = Some l \<Longrightarrow> ?L k = Some l" for k l using n(3) by auto
  then have sf: "same_files ?fs (kmem s) (fst h') L" using n(7) fo(2) unfolding m1 same_files_def by simp
  have sz: "file_size ?fs (fst h') n = 0" using fo(2) n(6) unfolding m1 same_files_def by simp
  have so2: "same_outside (F \<union> image_span ?fs) (kmem s) (fst h')"
    by (rule same_outside_trans [OF same_outside_mono [OF n(9)] same_outside_mono [OF so]]) auto
  have fb: "free_blocks ?fs (fst h') = free_blocks ?fs (kmem s) - {n}" using fo(3) n(8) unfolding m1 by simp
  have run: "sys_open img s name flags = Inr (int i, opened s b i f t (get_inode ?fs (int n)) h')"
    using b i c l n(1) new(2) o by (simp add: sys_open_def free_slot_def get_pcb_def deref_def set_kmem_def)
  show thesis by (rule that [OF run f n(3) h'(1) n(2) sz fb sf so2])
qed

text \<open>The calls that fail leave the kernel as it is.\<close>

lemma sys_open_fails:
  assumes "pcbs s (current s) = Some b"
  shows "free_slot b = None \<Longrightarrow> sys_open img s name flags = Inr (-1, s)"
    and "file_heap img R F L nm (kheap s) \<Longrightarrow> is_cstring (string_at (kmem s) name) bs \<Longrightarrow> bs \<noteq> slash \<Longrightarrow>
      bs \<notin> nm ` dom L \<Longrightarrow> flags AND O_CREATE = 0 \<Longrightarrow> sys_open img s name flags = Inr (-1, s)"
proof -
  show "free_slot b = None \<Longrightarrow> sys_open img s name flags = Inr (-1, s)"
    using assms by (simp add: sys_open_def free_slot_def get_pcb_def deref_def)
  assume h: "file_heap img R F L nm (kheap s)" and name: "is_cstring (string_at (kmem s) name) bs" "bs \<noteq> slash"
    and no: "bs \<notin> nm ` dom L" "flags AND O_CREATE = 0"
  obtain c where "strcmp (literal ''/'') (string_at (kmem s) name) = Inr c" "c \<noteq> 0" using slash_compare [OF name] by blast
  with lookup_named(2) [OF h name(1) no(1)] assms no(2) show "sys_open img s name flags = Inr (-1, s)"
    by (simp add: sys_open_def get_pcb_def deref_def split: option.split)
qed

section \<open>Closing\<close>

lemma sys_close_last:
  assumes h: "file_heap img R F L nm (kheap s)" and b: "pcbs s (current s) = Some b" and fd: "open_fd b fd = Some f"
    and fl: "file_table s f = Some fl" "f_count fl = 1" and f: "aligned 5 f" "f \<noteq> 0" "blk 5 f \<subseteq> R - F"
  obtains h' where "sys_close s fd = Inr (0, s\<lparr>kheap := h',
      pcbs := (pcbs s)(current s \<mapsto> b\<lparr>files := (files b)[nat fd := 0]\<rparr>), file_table := (file_table s)(f := None)\<rparr>)"
    and "file_heap img R (F \<union> blk 5 f) L nm h'" and "same_outside (F \<union> blk 5 f) (kmem s) (fst h')"
proof -
  note d = file_heapD [OF h]
  have o: "size_order sizeof_file = 5" using small_orders(2) by (simp add: sizeof_file_def)
  obtain h' where h': "dealloc (kheap s) f sizeof_file = Inr h'" "buddy_inv R h' (F \<union> blk 5 f)"
    "same_outside (F \<union> blk 5 f) (kmem s) (fst h')"
    using buddy.dealloc_block [OF d(2), of sizeof_file f] o f by (auto simp: dealloc_def)
  have "same_outside (- image_span (fs_img_start img)) (fst (kheap s)) (fst h')"
    by (rule same_outside_mono [OF h'(3)]) (use d(6,8) f(3) in blast)
  note fo = files_outside(1) [OF h this h'(2)]
  have "sys_close s fd = Inr (0, s\<lparr>kheap := h',
      pcbs := (pcbs s)(current s \<mapsto> b\<lparr>files := (files b)[nat fd := 0]\<rparr>), file_table := (file_table s)(f := None)\<rparr>)"
    using b fd fl h'(1) by (simp add: sys_close_def release_file_def kdealloc_def set_fd_def update_pcb_def
        get_pcb_def set_pcb_def deref_def Let_def)
  with that fo h'(3) show thesis by blast
qed

text \<open>A file that another descriptor refers to stays open.\<close>

lemma sys_close_shared:
  assumes "pcbs s (current s) = Some b" and "open_fd b fd = Some f" and "file_table s f = Some fl" and "f_count fl \<noteq> 1"
  shows "sys_close s fd = Inr (0, s\<lparr>pcbs := (pcbs s)(current s \<mapsto> b\<lparr>files := (files b)[nat fd := 0]\<rparr>),
    file_table := (file_table s)(f \<mapsto> fl\<lparr>f_count := f_count fl - 1\<rparr>)\<rparr>)"
  using assms by (simp add: sys_close_def release_file_def set_file_def set_fd_def update_pcb_def
      get_pcb_def set_pcb_def deref_def Let_def)

lemma bad_descriptor:
  assumes "pcbs s (current s) = Some b" and "open_fd b fd = None"
  shows "sys_close s fd = Inr (0, s)" and "count \<noteq> 0 \<Longrightarrow> sys_read img ch s fd buf count = Inr (Returned (-1) s)"
    and "sys_write img s fd buf count = Inr (-1, s)"
  using assms by (simp_all add: sys_close_def sys_read_def sys_write_def get_pcb_def deref_def)

section \<open>Reading and writing\<close>

text \<open>An open file that is one of the image.\<close>

definition file_open :: "image \<Rightarrow> kernel \<Rightarrow> pcb \<Rightarrow> int \<Rightarrow> addr \<Rightarrow> open_file \<Rightarrow> nat \<Rightarrow> bool" where
  "file_open img s b fd f fl n \<longleftrightarrow> pcbs s (current s) = Some b \<and> open_fd b fd = Some f \<and> file_table s f = Some fl \<and>
     f_type fl \<noteq> FILE_STDIO \<and> f_inode fl = get_inode (fs_img_start img) (int n)"

lemma not_root:
  assumes "file_heap img R F L nm h" and "n \<in> dom L"
  shows "get_inode (fs_img_start img) (int n) \<noteq> ROOT_INODE img"
proof -
  note d = file_heapD [OF assms(1)]
  have "n < BLOCK_NUM" using assms(2) layout_bounds(2) [OF fs_okD(1) [OF d(3)]] by fastforce
  then show ?thesis using inode_in_image d(1) unfolding well_placed_def by metis
qed

lemma sys_read_file:
  assumes h: "file_heap img R F L nm (kheap s)" and o: "file_open img s b fd f fl n" and l: "L n = Some (ib, bl)"
    and off: "unat (f_off fl) \<le> file_size (fs_img_start img) (kmem s) n" and c: "count \<noteq> 0"
    and k: "k = min (unat count) (file_size (fs_img_start img) (kmem s) n - unat (f_off fl))"
    and apart: "bytes_at buf k \<inter> (F \<union> image_span (fs_img_start img)) = {}"
  obtains m' where "sys_read img ch s fd buf count = Inr (Returned (int k) (s\<lparr>kheap := (m', snd (kheap s)),
      file_table := (file_table s)(f \<mapsto> fl\<lparr>f_off := f_off fl + of_nat k\<rparr>)\<rparr>))"
    and "map (\<lambda>i. m' (buf + of_nat i)) [0..<k] =
      List.take k (drop (unat (f_off fl)) (content (fs_img_start img) (kmem s) n bl))"
    and "file_heap img R F L nm (m', snd (kheap s))" and "same_outside (bytes_at buf k) (kmem s) m'"
proof -
  note d = file_heapD [OF h]
  have "bytes_at buf k \<inter> image_span (fs_img_start img) = {}" using apart by blast
  from read_from_inode_spec [OF d(3) l off k this] obtain m' where
    m': "read_from_inode (fs_img_start img) (kmem s) (get_inode (fs_img_start img) (int n)) (f_off fl) buf count = Inr (int k, m')"
    "map (\<lambda>i. m' (buf + of_nat i)) [0..<k] =
      List.take k (drop (unat (f_off fl)) (content (fs_img_start img) (kmem s) n bl))"
    "same_outside (bytes_at buf k) (kmem s) m'" by blast
  have "n \<in> dom L" using l by blast
  note nr = not_root [OF h this]
  have "sys_read img ch s fd buf count = Inr (Returned (int k) (s\<lparr>kheap := (m', snd (kheap s)),
      file_table := (file_table s)(f \<mapsto> fl\<lparr>f_off := f_off fl + of_nat k\<rparr>)\<rparr>))"
    using o c nr m'(1) by (simp add: sys_read_def file_open_def get_pcb_def deref_def set_file_def set_kmem_def)
  moreover have h2: "file_heap img R F L nm (kmem s, snd (kheap s))" using h by simp
  have "file_heap img R F L nm (m', snd (kheap s))"
    by (rule user_write(1) [OF h2 m'(3)]) (use apart in blast)+
  ultimately show thesis using that m'(2,3) by blast
qed

lemma sys_write_file:
  assumes h: "file_heap img R F L nm (kheap s)" and o: "file_open img s b fd f fl n" and l: "L n = Some (ib, bl)"
    and off: "unat (f_off fl) \<le> file_size (fs_img_start img) (kmem s) n"
    and c: "unat count < 2 ^ 31" "unat (f_off fl) + unat count \<le> 71680"
    and free: "blocks_needed (ib, bl) (blocks_for (unat (f_off fl) + unat count)) \<le>
      card (free_blocks (fs_img_start img) (kmem s))"
    and apart: "bytes_at buf (unat count) \<inter> image_span (fs_img_start img) = {}"
  obtains m' ib' new where "sys_write img s fd buf count = Inr (int (unat count), s\<lparr>kheap := (m', snd (kheap s)),
      file_table := (file_table s)(f \<mapsto> fl\<lparr>f_off := f_off fl + count\<rparr>)\<rparr>)"
    and "content (fs_img_start img) m' n (bl @ new) =
      overwrite (content (fs_img_start img) (kmem s) n bl) (unat (f_off fl))
        (map (\<lambda>i. kmem s (buf + of_nat i)) [0..<unat count])"
    and "file_heap img R F (L(n \<mapsto> (ib', bl @ new))) nm (m', snd (kheap s))"
    and "\<forall>n2 ib2 bl2. n2 \<noteq> n \<longrightarrow> L n2 = Some (ib2, bl2) \<longrightarrow>
      content (fs_img_start img) m' n2 bl2 = content (fs_img_start img) (kmem s) n2 bl2"
    and "same_outside (image_span (fs_img_start img)) (kmem s) m'"
proof -
  let ?fs = "fs_img_start img"
  note d = file_heapD [OF h]
  obtain m' ib' new where w: "write_to_inode ?fs (kmem s) (get_inode ?fs (int n)) (f_off fl) buf count =
      Inr (unat count, f_off fl + count, m')" "fs_ok ?fs m' (L(n \<mapsto> (ib', bl @ new)))"
    "content ?fs m' n (bl @ new) = overwrite (content ?fs (kmem s) n bl) (unat (f_off fl))
        (map (\<lambda>i. kmem s (buf + of_nat i)) [0..<unat count])"
    "\<forall>n2 ib2 bl2. n2 \<noteq> n \<longrightarrow> L n2 = Some (ib2, bl2) \<longrightarrow> content ?fs m' n2 bl2 = content ?fs (kmem s) n2 bl2"
    "\<forall>n2 \<in> dom L. same_name ?fs n2 (kmem s) m'" "same_outside (image_span ?fs) (kmem s) m'"
    using write_to_inode_spec [OF d(3) l off c free apart] by blast
  have dom: "dom (L(n \<mapsto> (ib', bl @ new))) = dom L" using l by auto
  have "file_name ?fs m' k (nm k)" if "k \<in> dom L" for k
  proof -
    have "k < BLOCK_NUM" using that layout_bounds(2) [OF fs_okD(1) [OF d(3)]] by fastforce
    then show ?thesis using file_name_same w(5) d(4) that by blast
  qed
  moreover have "buddy_inv R (m', snd (kheap s)) F"
    using heap_outside [of img R F L nm "kmem s" "snd (kheap s)" m'] h w(6) by simp
  ultimately have h': "file_heap img R F (L(n \<mapsto> (ib', bl @ new))) nm (m', snd (kheap s))"
    unfolding file_heap_def dom using d(1,5) w(2) by simp
  have "sys_write img s fd buf count = Inr (int (unat count), s\<lparr>kheap := (m', snd (kheap s)),
      file_table := (file_table s)(f \<mapsto> fl\<lparr>f_off := f_off fl + count\<rparr>)\<rparr>)"
    using o w(1) by (simp add: sys_write_def file_open_def get_pcb_def deref_def set_file_def set_kmem_def)
  with that w(3,4,6) h' show thesis by blast
qed

end
