(* ===== verification/Exec.thy ===== *)
theory Exec
  imports Fork Elf_Load File_Session
begin

text \<open>
  \<^verbatim>\<open>sys_exec\<close> of \<^verbatim>\<open>kernel/process.c\<close>, step by step: the file is read into a buffer, the new address space
  is built from it, the old one with its stack is given back, and the open files are replaced.
\<close>

section \<open>Regions\<close>

lemma buddy_within: "buddy_inv R h F \<Longrightarrow> F \<subseteq> R' \<Longrightarrow> R' \<subseteq> R \<Longrightarrow> buddy_inv R' h F"
proof -
  assume a: "buddy_inv R h F" "F \<subseteq> R'" "R' \<subseteq> R"
  then have "fits R'" unfolding buddy_inv_def fits_def by blast
  then show "buddy_inv R' h F" using a(1,2) by (simp add: buddy_inv_def)
qed

lemma buddy_around: "buddy_inv R' h F \<Longrightarrow> F \<subseteq> R \<Longrightarrow> buddy_inv R g G \<Longrightarrow> buddy_inv R h F"
  by (auto simp: buddy_inv_def)

lemma window_within: "in_window R \<Longrightarrow> R' \<subseteq> R \<Longrightarrow> in_window R'"
  by (auto simp: in_window_def)

section \<open>The bytes of a file\<close>

text \<open>A file as a memory that holds it at address 0, and a buffer that holds it.\<close>

definition file_mem :: "u8 list \<Rightarrow> mem" where
  "file_mem d = (\<lambda>a. if unat a < length d then d ! unat a else 0)"

definition buffer_holds :: "mem \<Rightarrow> addr \<Rightarrow> u8 list \<Rightarrow> bool" where
  "buffer_holds m buf d \<longleftrightarrow> length d < 2 ^ 32 \<and> (\<forall>i < length d. m (buf + of_nat i) = d ! i)"

lemma unat_small: "x < 2 ^ 32 \<Longrightarrow> unat (of_nat x :: u64) = x"
  by (simp add: unat_of_nat)

lemma unat_add_small: "unat a + i < 2 ^ 32 \<Longrightarrow> unat ((a :: u64) + of_nat i) = unat a + i"
proof -
  assume i: "unat a + i < 2 ^ 32"
  have "a + of_nat i = of_nat (unat a + i)" by simp
  then show ?thesis using unat_small [OF i] by (rule trans [OF arg_cong])
qed

lemma buffer_load:
  assumes b: "buffer_holds m buf d" and k: "unat a + k \<le> length d"
  shows "load_bytes k m (buf + a) = load_bytes k (file_mem d) a"
proof -
  have "m (buf + a + of_nat i) = file_mem d (a + of_nat i)" if "i < k" for i
  proof -
    have lt: "unat a + i < length d" "length d < 2 ^ 32" using that k b by (simp_all add: buffer_holds_def)
    have u: "unat (a + of_nat i) = unat a + i" using lt by (intro unat_add_small) simp
    have "m (buf + of_nat (unat a + i)) = d ! (unat a + i)" using b lt(1) unfolding buffer_holds_def by blast
    then have "m (buf + a + of_nat i) = d ! (unat a + i)" by (simp add: add.assoc)
    then show ?thesis using lt(1) u by (simp add: file_mem_def)
  qed
  then have "map (\<lambda>i. m (buf + a + of_nat i)) [0..<k] = map (\<lambda>i. file_mem d (a + of_nat i)) [0..<k]" by simp
  then show ?thesis by (simp only: load_bytes_def)
qed

lemma buffer_load_at:
  assumes b: "buffer_holds m buf d" and k: "unat a + (j + k) \<le> length d"
  shows "load_bytes k m (buf + a + of_nat j) = load_bytes k (file_mem d) (a + of_nat j)"
proof -
  have "unat (a + of_nat j) = unat a + j" using k b by (intro unat_add_small) (simp add: buffer_holds_def)
  then show ?thesis using buffer_load [OF b, of "a + of_nat j" k] k by (simp add: add.assoc)
qed

lemma buffer_header:
  assumes b: "buffer_holds m buf d" and a: "unat a + 56 \<le> length d"
  shows "prog_header_at m (buf + a) = prog_header_at (file_mem d) a" and "unat (a + sizeof_prog_header) = unat a + 56"
proof -
  have d: "length d < 2 ^ 32" using b by (simp add: buffer_holds_def)
  note l = buffer_load_at [OF b, of a]
  show "prog_header_at m (buf + a) = prog_header_at (file_mem d) a"
    using l [of 0 4, where ?'a = 32] l [of 4 4, where ?'a = 32] l [of 8 8, where ?'a = 64] l [of 16 8, where ?'a = 64]
      l [of 24 8, where ?'a = 64] l [of 32 8, where ?'a = 64] l [of 40 8, where ?'a = 64] l [of 48 8, where ?'a = 64]
    a by (simp add: prog_header_at_def)
  show "unat (a + sizeof_prog_header) = unat a + 56" using unat_add_small [of a 56] a d by (simp add: sizeof_prog_header_def)
qed

lemma buffer_headers:
  "buffer_holds m buf d \<Longrightarrow> unat a + 56 * n \<le> length d \<Longrightarrow> headers m (buf + a) n = headers (file_mem d) a n"
proof (induction n arbitrary: a)
  case (Suc n)
  have a: "unat a + 56 \<le> length d" using Suc.prems(2) by simp
  note h = buffer_header [OF Suc.prems(1) a]
  have "headers m (buf + (a + sizeof_prog_header)) n = headers (file_mem d) (a + sizeof_prog_header) n"
    by (rule Suc.IH [OF Suc.prems(1)]) (use Suc.prems(2) h(2) in simp)
  then show ?case using h(1) by (simp add: add.assoc)
qed simp

lemma buffer_fields:
  assumes b: "buffer_holds m buf d" and len: "64 \<le> length d"
  shows "elf_magic m buf = elf_magic (file_mem d) 0" and "e_phoff m buf = e_phoff (file_mem d) 0"
    and "e_phnum m buf = e_phnum (file_mem d) 0" and "e_entry m buf = e_entry (file_mem d) 0"
proof -
  have "m (buf + of_nat i) = file_mem d (of_nat i)" if "i < 4" for i
    using b that len unfolding buffer_holds_def file_mem_def by (simp add: unat_of_nat)
  from this [of 0] this [of 1] this [of 2] this [of 3]
  show "elf_magic m buf = elf_magic (file_mem d) 0" by (simp add: elf_magic_def)
  show "e_phoff m buf = e_phoff (file_mem d) 0" "e_phnum m buf = e_phnum (file_mem d) 0" "e_entry m buf = e_entry (file_mem d) 0"
    using buffer_load [OF b, of 32 8, where ?'a = 64] buffer_load [OF b, of 56 2, where ?'a = 16]
      buffer_load [OF b, of 24 8, where ?'a = 64] len by (simp_all add: e_phoff_def e_phnum_def e_entry_def)
qed

section \<open>A program\<close>

text \<open>
  A file the loader can take: a header, a table and segments within the file, with pages that do not
  meet those of the kernel, of the stack, or one another.
\<close>

definition program :: "image \<Rightarrow> u8 list \<Rightarrow> prog_header list \<Rightarrow> bool" where
  "program img d phs \<longleftrightarrow>
     64 \<le> length d \<and> length d < 2 ^ 32 \<and> elf_magic (file_mem d) 0 \<and>
     unat (e_phoff (file_mem d) 0) + 56 * unat (e_phnum (file_mem d) 0) \<le> length d \<and>
     phs = headers (file_mem d) (e_phoff (file_mem d) 0) (unat (e_phnum (file_mem d) 0)) \<and>
     (\<forall>ph \<in> set phs. loadable ph \<longrightarrow> p_flags ph AND 7 \<noteq> 0 \<and> unat (p_offset ph) + unat (p_memsz ph) \<le> length d) \<and>
     distinct (map (take_bit 27) (all_vpns (kernel_segments img @ elf_segments phs) @ stack_vpns))"

lemma programD:
  assumes "program img d phs"
  shows "64 \<le> length d" and "length d < 2 ^ 32" and "elf_magic (file_mem d) 0"
    and "unat (e_phoff (file_mem d) 0) + 56 * unat (e_phnum (file_mem d) 0) \<le> length d"
    and "phs = headers (file_mem d) (e_phoff (file_mem d) 0) (unat (e_phnum (file_mem d) 0))"
    and "ph \<in> set phs \<Longrightarrow> loadable ph \<Longrightarrow> p_flags ph AND 7 \<noteq> 0 \<and> unat (p_offset ph) + unat (p_memsz ph) \<le> length d"
    and "distinct (map (take_bit 27) (all_vpns (kernel_segments img @ elf_segments phs) @ stack_vpns))"
  using assms unfolding program_def by blast+

text \<open>A segment of the program, with its part of the file in its pages.\<close>

definition program_piece :: "u8 list \<Rightarrow> mem \<Rightarrow> prog_header \<Rightarrow> piece \<Rightarrow> bool" where
  "program_piece d m ph = (\<lambda>(b, sg, ps). sg = elf_segment ph \<and>
     pages_hold m ps (\<lambda>k. if k < unat (p_memsz ph) then d ! (unat (p_offset ph) + k) else 0))"

lemma loaded_piece:
  assumes b: "buffer_holds m0 buf d" and buf: "buf \<noteq> 0" "unat buf + length d \<le> 2 ^ 64"
    and ph: "unat (p_offset ph) + unat (p_memsz ph) \<le> length d" and l: "loaded m0 m buf ph x"
  shows "program_piece d m ph x"
proof -
  have "seg_byte m0 (buf + p_offset ph) (p_memsz ph) k = (if k < unat (p_memsz ph) then d ! (unat (p_offset ph) + k) else 0)" for k
  proof (cases "k < unat (p_memsz ph)")
    case True
    then have lt: "unat (p_offset ph) + k < length d" using ph by simp
    have "unat (buf + p_offset ph) = unat buf + unat (p_offset ph)" using lt buf(2) by (simp add: unat_plus_if')
    then have "buf + p_offset ph \<noteq> 0" using buf(1) by (metis add_is_0 unat_eq_zero)
    moreover have "m0 (buf + of_nat (unat (p_offset ph) + k)) = d ! (unat (p_offset ph) + k)"
      using b lt unfolding buffer_holds_def by blast
    ultimately show ?thesis using True by (simp add: seg_byte_def add.assoc)
  qed (simp add: seg_byte_def)
  then have "seg_byte m0 (buf + p_offset ph) (p_memsz ph) = (\<lambda>k. if k < unat (p_memsz ph) then d ! (unat (p_offset ph) + k) else 0)" ..
  then show ?thesis using l by (simp add: loaded_def program_piece_def split_beta)
qed

lemma program_loaded:
  assumes inv: "buddy_inv R (kheap s) F" and win: "in_window R" and p: "program img d phs"
    and b: "buffer_holds (fst (kheap s)) buf d" and buf: "buf \<noteq> 0" "unat buf + length d \<le> 2 ^ 64"
    and apart: "bytes_at buf (length d) \<inter> F = {}"
    and room: "pages_free F (2 + segs_cost (kernel_segments img @ elf_segments phs) + n)"
  obtains mp s' root F' tab prog kern where "from_elf img s buf = Inr (mp, s')"
    and "space F F' s' mp root tab (prog @ kern)" and "F' \<subseteq> F" and "kept F s s'" and "buddy_inv R (kheap s') F'"
    and "list_all2 (program_piece d (fst (kheap s'))) (rev (filter loadable phs)) prog"
    and "map (\<lambda>(_, sg, ps). (sg, ps)) kern = map (\<lambda>sg. (sg, [])) (kernel_segments img)"
    and "only_listed (fst (kheap s')) tab (prog @ kern)" and "pages_free F' n"
    and "F' = F - page_set (ran tab) - page_set (set (frames_of (prog @ kern))) - structs mp (prog @ kern)"
    and "page_set (set (frames_of (prog @ kern))) \<union> structs mp (prog @ kern) \<subseteq> F"
proof -
  let ?m = "fst (kheap s)"
  note pd = programD [OF p] and bf = buffer_fields [OF b programD(1) [OF p]]
  have FR: "F \<subseteq> R" by (rule buddy.inv_region [OF inv])
  have invF: "buddy_inv F (kheap s) F" by (rule buddy_within [OF inv subset_refl FR])
  have sub: "bytes_at (buf + of_nat x) k \<inter> F = {}" if "x + k \<le> length d" "0 < k" for x k
    using bytes_at_sub [OF that(1) _ that(2), of buf] pd(2) apart by fastforce
  have low: "bytes_at buf 64 \<inter> F = {}" using sub [of 0 64] pd(1) by simp
  have table: "bytes_at (buf + e_phoff ?m buf) (56 * unat (e_phnum ?m buf)) \<inter> F = {}"
  proof (cases "unat (e_phnum ?m buf) = 0")
    case False
    then show ?thesis using sub [of "unat (e_phoff ?m buf)" "56 * unat (e_phnum ?m buf)"] pd(4) bf by simp
  qed (simp add: bytes_at_def)
  have phs: "phs = headers ?m (buf + e_phoff ?m buf) (unat (e_phnum ?m buf))"
    using pd(5) buffer_headers [OF b pd(4)] bf by simp
  have ok: "\<forall>ph \<in> set phs. loadable ph \<longrightarrow> header_ok buf F ph"
  proof (intro ballI impI)
    fix ph assume ph: "ph \<in> set phs" "loadable ph"
    note h = pd(6) [OF ph]
    have "0 < unat (p_memsz ph)" using ph(2) by (simp add: loadable_def unat_gt_0)
    then have "bytes_at (buf + of_nat (unat (p_offset ph))) (unat (p_memsz ph)) \<inter> F = {}" using h by (intro sub) simp_all
    then have "bytes_at (buf + p_offset ph) (unat (p_memsz ph)) \<inter> F = {}" by simp
    moreover have "unat (buf + p_offset ph) = unat buf + unat (p_offset ph)"
      using h buf(2) \<open>0 < unat (p_memsz ph)\<close> by (simp add: unat_plus_if')
    ultimately show "header_ok buf F ph" using h buf(2) by (simp add: header_ok_def data_ok_def)
  qed
  have dist: "distinct (map (take_bit 27) (all_vpns (kernel_segments img @ elf_segments phs)))"
    using pd(7) by (simp only: map_append distinct_append)
  note fe = from_elf_spec [OF invF window_within [OF win FR] low table phs ok dist]
  have "elf_magic ?m buf" using pd(3) bf(1) by simp
  moreover have "pages_free F (2 + segs_cost (kernel_segments img @ elf_segments phs))" by (rule pages_free_less [OF room]) simp
  ultimately obtain r where "from_elf img s buf = Inr r" using fe by (cases "from_elf img s buf") auto
  then obtain mp s' where r: "from_elf img s buf = Inr (mp, s')" by (cases r) auto
  obtain root F' tab prog kern where u: "copying F F s mp root F' s' tab (prog @ kern) (structs mp (prog @ kern))"
    "list_all2 (loaded ?m (fst (kheap s')) buf) (rev (filter loadable phs)) prog"
    "map (\<lambda>(_, sg, ps). (sg, ps)) kern = map (\<lambda>sg. (sg, [])) (kernel_segments img)"
    "only_listed (fst (kheap s')) tab (prog @ kern)"
    "\<forall>n. pages_free F (2 + segs_cost (kernel_segments img @ elf_segments phs) + n) \<longrightarrow> pages_free F' n"
    using fe unfolding r sum.case prod.case by blast
  note cd = copyingD [OF u(1)]
  have "list_all2 (program_piece d (fst (kheap s'))) (rev (filter loadable phs)) prog"
    by (rule list.rel_mono_strong [OF u(2)]) (use loaded_piece [OF b buf] pd(6) in auto)
  moreover have "buddy_inv R (kheap s') F'" by (rule buddy_around [OF cd(6) _ inv]) (use cd(7) FR in blast)
  moreover have "page_set (ran tab) \<inter> F' = {}" "page_set (set (frames_of (prog @ kern))) \<inter> F' = {}"
    using spaceD(1,11) [OF cd(1)] by (auto simp: pt_inv_def)
  then have "F' = F - page_set (ran tab) - page_set (set (frames_of (prog @ kern))) - structs mp (prog @ kern)"
    "page_set (set (frames_of (prog @ kern))) \<union> structs mp (prog @ kern) \<subseteq> F" using cd(3,4) by blast+
  ultimately show thesis using that [OF r cd(1,7,2) _ _ u(3,4)] u(5) room by blast
qed

section \<open>Reading the file\<close>

lemma block_end: "aligned k a \<Longrightarrow> k \<le> 32 \<Longrightarrow> unat (a :: u64) + 2 ^ k \<le> 2 ^ 64"
proof -
  assume a: "aligned k a" and k: "k \<le> 32"
  then obtain q where q: "unat a = q * 2 ^ k" by (metis aligned_nat_dvd dvd_def mult.commute)
  have p: "(2 :: nat) ^ 64 = 2 ^ (64 - k) * 2 ^ k" using k by (simp flip: power_add)
  have "q * 2 ^ k < 2 ^ (64 - k) * 2 ^ k" using unsigned_less [of a, where ?'a = nat] q p by simp
  then have "Suc q \<le> 2 ^ (64 - k)" by simp
  then have "Suc q * 2 ^ k \<le> 2 ^ (64 - k) * 2 ^ k" by (rule mult_le_mono1)
  then show ?thesis using q p by simp
qed

lemma file_read:
  assumes h: "file_heap img R F L nm (kheap s)" and name: "is_cstring (string_at (kmem s) name) (nm n)"
    and l: "L n = Some (ib, bl)" and d: "d = content (fs_img_start img) (kmem s) n bl" and len: "0 < length d" "length d < 2 ^ 32"
    and room: "blk (size_order (of_nat (length d))) c \<subseteq> F"
  obtains inode buf s1 m where "lookup (fs_img_start img) (kmem s) (string_at (kmem s) name) = Inr inode" and "inode \<noteq> 0"
    and "inode = get_inode (fs_img_start img) (int n)"
    and "ucast (load32 (kmem s) (i_size inode)) = (of_nat (length d) :: u64)"
    and "kalloc s (of_nat (length d)) = Inr (buf, s1)" and "readall (fs_img_start img) (kmem s1) inode buf = Inr (int (length d), m)"
    and "set_kmem s1 m = s\<lparr>kheap := kheap (set_kmem s1 m)\<rparr>"
    and "file_heap img R (F - blk (size_order (of_nat (length d))) buf) L nm (kheap (set_kmem s1 m))"
    and "aligned (size_order (of_nat (length d))) buf" and "buf \<noteq> 0" and "blk (size_order (of_nat (length d))) buf \<subseteq> F"
    and "buffer_holds m buf d" and "same_outside F (kmem s) m"
    and "bytes_at buf (length d) \<subseteq> blk (size_order (of_nat (length d))) buf" and "unat buf + length d \<le> 2 ^ 64"
    and "same_files (fs_img_start img) (kmem s) m L"
proof -
  let ?fs = "fs_img_start img" and ?sz = "of_nat (length d) :: u64"
  let ?j = "size_order ?sz"
  note hd = file_heapD [OF h]
  have usz: "unat ?sz = length d" using len(2) by (simp add: unat_of_nat)
  have j: "?j = req_order (length d)" using size_order_req [of ?sz] usz len by simp
  then have "length d \<le> 2 ^ ?j" "?j \<le> 32" using req_order_props [of "length d"] req_order_least [of 32 "length d"] len by simp_all
  have nd: "n \<in> dom L" using l by blast
  note lk = lookup_named(1) [OF h name nd refl]
  have fsz: "file_size ?fs (kmem s) n = length d" by (simp add: d)
  have size: "ucast (load32 (kmem s) (i_size (get_inode ?fs (int n)))) = ?sz"
  proof -
    have "ucast w = (of_nat (unat w) :: u64)" for w :: u32 by transfer (simp add: take_bit_int_eq_self)
    then show ?thesis using fsz unfolding file_size_def by (simp only:)
  qed
  obtain buf h1 where a: "alloc (kheap s) ?sz = Inr (buf, h1)" "aligned ?j buf" "buf \<noteq> 0" "blk ?j buf \<subseteq> F"
    "buddy_inv R h1 (F - blk ?j buf)" "same_outside F (kmem s) (fst h1)"
    using alloc_spec [OF hd(2), of ?sz] room by (cases "alloc (kheap s) ?sz") auto
  let ?s1 = "s\<lparr>kheap := h1\<rparr>"
  have out: "same_outside (- image_span ?fs) (fst (kheap s)) (fst h1)"
    by (rule same_outside_mono [OF a(6)]) (use hd(6) in blast)
  note fo = files_outside [OF h out a(5)]
  have b: "bytes_at buf (2 ^ ?j) = blk ?j buf" by (rule bytes_at_blk [OF a(2)])
  have sub: "bytes_at buf (length d) \<subseteq> blk ?j buf" unfolding b [symmetric] using \<open>length d \<le> 2 ^ ?j\<close> by (auto simp: bytes_at_def)
  have sz1: "file_size ?fs (fst h1) n = length d" "content ?fs (fst h1) n bl = d" using fo(2) l fsz d by (simp_all add: same_files_def)
  have k: "length d = min (unat (load32 (fst h1) (i_size (get_inode ?fs (int n))))) (file_size ?fs (fst h1) n - unat (0 :: 32 word))"
    using sz1(1) by (simp add: file_size_def)
  have "bytes_at buf (length d) \<inter> image_span ?fs = {}" using sub a(4) hd(6) by blast
  from read_from_inode_spec [OF file_heapD(3) [OF fo(1)] l _ k this] obtain m where
    m: "read_from_inode ?fs (fst h1) (get_inode ?fs (int n)) 0 buf (load32 (fst h1) (i_size (get_inode ?fs (int n)))) = Inr (int (length d), m)"
    "map (\<lambda>i. m (buf + of_nat i)) [0..<length d] = d" "same_outside (bytes_at buf (length d)) (fst h1) m"
    using sz1(2) by auto
  have h1: "file_heap img R (F - blk ?j buf) L nm (fst h1, snd h1)" using fo(1) by simp
  have mb: "same_outside (blk ?j buf) (fst h1) m" by (rule same_outside_mono [OF m(3) sub])
  have U: "blk ?j buf \<inter> (F - blk ?j buf) = {}" "blk ?j buf \<inter> image_span ?fs = {}" using a(4) hd(6) by blast+
  note uw = user_write [OF h1 mb U]
  have "same_files ?fs (kmem s) m L" using fo(2) uw(2) unfolding same_files_def by simp
  moreover have "same_outside F (kmem s) m" by (rule same_outside_trans [OF a(6) same_outside_mono [OF mb a(4)]])
  moreover have "buffer_holds m buf d"
    unfolding buffer_holds_def using len(2) arg_cong [OF m(2), of "\<lambda>xs. xs ! i" for i] by (metis (no_types, lifting) add_0 length_map length_upt nth_map nth_upt diff_zero)
  moreover have "unat buf + length d \<le> 2 ^ 64"
    using block_end [OF a(2)] \<open>length d \<le> 2 ^ ?j\<close> \<open>?j \<le> 32\<close> by simp
  ultimately show thesis using that [of "get_inode ?fs (int n)" buf ?s1 m] lk size a m(1) uw(1) sub
    by (simp add: kalloc_def readall_def set_kmem_def)
qed

section \<open>The open files are replaced\<close>

text \<open>
  A file counts at least the descriptors of the list that refer to it. Those it counts no others for are
  closed with them.
\<close>

definition files_owned :: "addr set \<Rightarrow> (addr \<Rightarrow> open_file option) \<Rightarrow> addr list \<Rightarrow> bool" where
  "files_owned S t fs \<longleftrightarrow> (\<forall>f \<in> set fs. f \<noteq> 0 \<longrightarrow> aligned 5 f \<and> blk 5 f \<subseteq> S \<and>
     (\<exists>fl. t f = Some fl \<and> count_list fs f \<le> unat (f_count fl)))"

definition last_closed :: "(addr \<Rightarrow> open_file option) \<Rightarrow> addr list \<Rightarrow> addr set" where
  "last_closed t fs = {f \<in> set fs. f \<noteq> 0 \<and> (\<exists>fl. t f = Some fl \<and> unat (f_count fl) = count_list fs f)}"

definition released :: "addr list \<Rightarrow> (addr \<Rightarrow> open_file option) \<Rightarrow> addr \<Rightarrow> open_file option" where
  "released fs t f =
     (if f = 0 \<or> f \<notin> set fs then t f
      else if f \<in> last_closed t fs then None
      else map_option (\<lambda>fl. fl\<lparr>f_count := f_count fl - of_nat (count_list fs f)\<rparr>) (t f))"

abbreviation file_memory :: "addr set \<Rightarrow> addr set" where
  "file_memory fs \<equiv> \<Union>(blk 5 ` fs)"

lemma released_zero: "released (0 # fs) t = released fs t" "last_closed t (0 # fs) = last_closed t fs"
proof -
  show l: "last_closed t (0 # fs) = last_closed t fs" by (auto simp: last_closed_def)
  show "released (0 # fs) t = released fs t" by (rule ext) (simp add: released_def l)
qed

lemma released_last:
  assumes "t f = Some fl" and "f_count fl = 1" and "f \<noteq> 0" and "f \<notin> set fs"
  shows "last_closed t (f # fs) = insert f (last_closed (t(f := None)) fs)"
    and "released (f # fs) t = released fs (t(f := None))"
proof -
  show l: "last_closed t (f # fs) = insert f (last_closed (t(f := None)) fs)" using assms by (auto simp: last_closed_def)
  show "released (f # fs) t = released fs (t(f := None))"
    by (rule ext) (use assms in \<open>auto simp: released_def l\<close>)
qed

lemma released_shared:
  assumes t: "t f = Some fl" and f: "f \<noteq> 0" and c: "f_count fl \<noteq> 1" "count_list (f # fs) f \<le> unat (f_count fl)"
  defines "t' \<equiv> t(f \<mapsto> fl\<lparr>f_count := f_count fl - 1\<rparr>)"
  shows "last_closed t (f # fs) = last_closed t' fs" and "released (f # fs) t = released fs t'"
    and "unat (f_count fl - 1) = unat (f_count fl) - 1"
proof -
  have pos: "0 < unat (f_count fl)" using c(2) by simp
  then have "f_count fl \<noteq> 0" by auto
  then show u: "unat (f_count fl - 1) = unat (f_count fl) - 1" by (rule unat_minus_one)
  have one: "unat (f_count fl) \<noteq> 1" using c(1) by (metis unat_1 word_unat_eq_iff)
  have zero: "count_list fs f = 0 \<longleftrightarrow> f \<notin> set fs" by (simp add: count_list_0_iff)
  have at: "f \<in> last_closed t (f # fs) \<longleftrightarrow> f \<in> last_closed t' fs"
    using t f u one pos zero by (auto simp: last_closed_def t'_def)
  have other: "g \<in> last_closed t (f # fs) \<longleftrightarrow> g \<in> last_closed t' fs" if "g \<noteq> f" for g
    using that by (auto simp: last_closed_def t'_def)
  show l: "last_closed t (f # fs) = last_closed t' fs"
  proof (rule set_eqI)
    show "g \<in> last_closed t (f # fs) \<longleftrightarrow> g \<in> last_closed t' fs" for g using at other by (cases "g = f") simp_all
  qed
  show "released (f # fs) t = released fs t'"
  proof (rule ext)
    fix g
    show "released (f # fs) t g = released fs t' g"
    proof (cases "g = f")
      case True
      show ?thesis
      proof (cases "f \<in> set fs")
        case True
        then show ?thesis using t f \<open>g = f\<close> by (simp add: released_def l t'_def algebra_simps)
      next
        case False
        then have "f \<notin> last_closed t' fs" by (simp add: last_closed_def)
        then show ?thesis using t f False zero \<open>g = f\<close> by (simp add: released_def l t'_def)
      qed
    next
      case False
      then show ?thesis by (simp add: released_def l t'_def)
    qed
  qed
qed

lemma file_table_pcbs: "s\<lparr>file_table := t, pcbs := q\<rparr> = (s :: kernel)\<lparr>pcbs := q, file_table := t\<rparr>"
  by simp

lemma dealloc_files_loop_spec:
  assumes "buddy_inv R (kheap s) F" and "in_window R" and "pcbs s p = Some b" and "distinct is" and "\<forall>i \<in> set is. i < length (files b)"
    and "fs = map ((!) (files b)) is" and "files_owned (R - F) (file_table s) fs"
  shows "\<exists>h. dealloc_files_loop s p is = Inr (s\<lparr>kheap := h,
        pcbs := (pcbs s)(p \<mapsto> b\<lparr>files := fold (\<lambda>i l. l[i := 0]) is (files b)\<rparr>), file_table := released fs (file_table s)\<rparr>) \<and>
      buddy_inv R h (F \<union> file_memory (last_closed (file_table s) fs)) \<and>
      same_outside (F \<union> file_memory (last_closed (file_table s) fs)) (kmem s) (fst h)"
  using assms
proof (induction "is" arbitrary: s F b fs)
  case Nil
  have "released [] t = t" "last_closed t [] = {}" for t by (auto simp: released_def last_closed_def)
  moreover have "(pcbs s)(p \<mapsto> b) = pcbs s" using Nil(3) by (simp add: fun_upd_idem)
  ultimately show ?case using Nil by (intro exI [of _ "kheap s"]) simp
next
  case (Cons i "is")
  let ?f = "files b ! i" and ?t = "file_table s" and ?rest = "map ((!) (files b)) is"
  have fs: "fs = ?f # ?rest" using Cons.prems(6) by simp
  have i: "i \<notin> set is" "distinct is" "i < length (files b)" "\<forall>i \<in> set is. i < length (files b)" using Cons.prems(4,5) by simp_all
  show ?case
  proof (cases "?f = 0")
    case True
    have "(files b)[i := 0] = files b" using True by (metis list_update_id)
    moreover have "files_owned (R - F) ?t ?rest" using Cons.prems(7) True by (auto simp: fs files_owned_def)
    ultimately show ?thesis
      using Cons.IH [OF Cons.prems(1-3) i(2,4) refl] Cons.prems(3) True by (simp add: fs released_zero get_pcb_Some)
  next
    case False
    obtain fl where fl: "?t ?f = Some fl" "count_list (?f # ?rest) ?f \<le> unat (f_count fl)" "aligned 5 ?f" "blk 5 ?f \<subseteq> R - F"
      using Cons.prems(7) False by (auto simp: fs files_owned_def)
    let ?b = "b\<lparr>files := (files b)[i := 0]\<rparr>"
    have rest: "?rest = map ((!) (files ?b)) is" 
    proof (rule map_cong [OF refl])
      fix x assume "x \<in> set is"
      then have "i \<noteq> x" using i(1) by blast
      then show "files b ! x = files ?b ! x" by simp
    qed
    have b: "\<forall>i \<in> set is. i < length (files ?b)" using i(4) by simp
    have run: "dealloc_files_loop s p (i # is) = bindE (release_file s ?f) (\<lambda>s. bindE (set_fd s p i 0) (\<lambda>s. dealloc_files_loop s p is))"
      using Cons.prems(3) False by (simp add: get_pcb_Some)
    have owned: "g \<in> set ?rest \<Longrightarrow> g \<noteq> 0 \<Longrightarrow> aligned 5 g \<and> blk 5 g \<subseteq> R - F \<and>
        (\<exists>fl. ?t g = Some fl \<and> (if g = ?f then 1 else 0) + count_list ?rest g \<le> unat (f_count fl))" for g
      using Cons.prems(7) by (auto simp: fs files_owned_def)
    show ?thesis
    proof (cases "f_count fl = 1")
      case True
      have notin: "?f \<notin> set ?rest" using fl(2) True by (simp add: count_list_0_iff)
      have o: "size_order sizeof_file = 5" using small_orders(2) by (simp add: sizeof_file_def)
      obtain h1 where h1: "dealloc (kheap s) ?f sizeof_file = Inr h1" "buddy_inv R h1 (F \<union> blk 5 ?f)"
        "same_outside (F \<union> blk 5 ?f) (kmem s) (fst h1)"
        using buddy.dealloc_block [OF Cons.prems(1), of sizeof_file ?f] o fl(3,4) False by (auto simp: dealloc_def)
      let ?s = "s\<lparr>kheap := h1, pcbs := (pcbs s)(p \<mapsto> ?b), file_table := ?t(?f := None)\<rparr>"
      have step: "dealloc_files_loop s p (i # is) = dealloc_files_loop ?s p is"
        unfolding run using fl(1) True h1(1) Cons.prems(3)
        by (simp add: release_file_def deref_def kdealloc_def set_fd_def update_pcb_def get_pcb_Some set_pcb_def file_table_pcbs)
      have p1: "buddy_inv R (kheap ?s) (F \<union> blk 5 ?f)" and p2: "pcbs ?s p = Some ?b" using h1(2) by simp_all
      have own: "files_owned (R - (F \<union> blk 5 ?f)) (file_table ?s) ?rest"
        unfolding files_owned_def
      proof (intro ballI impI)
        fix g assume g: "g \<in> set ?rest" "g \<noteq> 0"
        then have "g \<noteq> ?f" using notin by blast
        moreover have "blk 5 g \<inter> blk 5 ?f = {}" using owned [OF g] fl(3) \<open>g \<noteq> ?f\<close> by (intro aligned_blk_disjoint) auto
        ultimately show "aligned 5 g \<and> blk 5 g \<subseteq> R - (F \<union> blk 5 ?f) \<and>
            (\<exists>fl. file_table ?s g = Some fl \<and> count_list ?rest g \<le> unat (f_count fl))"
          using owned [OF g] by auto
      qed
      obtain h where h: "dealloc_files_loop ?s p is = Inr (?s\<lparr>kheap := h,
          pcbs := (pcbs ?s)(p \<mapsto> ?b\<lparr>files := fold (\<lambda>i l. l[i := 0]) is (files ?b)\<rparr>), file_table := released ?rest (file_table ?s)\<rparr>)"
        "buddy_inv R h (F \<union> blk 5 ?f \<union> file_memory (last_closed (file_table ?s) ?rest))"
        "same_outside (F \<union> blk 5 ?f \<union> file_memory (last_closed (file_table ?s) ?rest)) (kmem ?s) (fst h)"
        using Cons.IH [OF p1 Cons.prems(2) p2 i(2) b rest own] by blast
      note rl = released_last [of ?t ?f fl ?rest, OF fl(1) True False notin]
      have m1: "same_outside (F \<union> blk 5 ?f \<union> file_memory (last_closed (file_table ?s) ?rest)) (fst h1) (fst h)"
        using h(3) by simp
      have m2: "same_outside (F \<union> blk 5 ?f \<union> file_memory (last_closed (file_table ?s) ?rest)) (kmem s) (fst h)"
        by (rule same_outside_trans [OF same_outside_mono [OF h1(3)] m1]) blast
      have run2: "dealloc_files_loop s p (i # is) = Inr (s\<lparr>kheap := h,
          pcbs := (pcbs s)(p \<mapsto> b\<lparr>files := fold (\<lambda>i l. l[i := 0]) (i # is) (files b)\<rparr>), file_table := released fs ?t\<rparr>)"
        unfolding step h(1) fs rl(2) by simp
      have set: "F \<union> file_memory (last_closed ?t fs) = F \<union> blk 5 ?f \<union> file_memory (last_closed (file_table ?s) ?rest)"
        unfolding fs rl(1) by auto
      show ?thesis unfolding set using run2 h(2) m2 by blast
    next
      case shared: False
      note rs = released_shared [of ?t ?f fl ?rest, OF fl(1) False shared fl(2)]
      let ?fl = "fl\<lparr>f_count := f_count fl - 1\<rparr>"
      let ?s = "s\<lparr>pcbs := (pcbs s)(p \<mapsto> ?b), file_table := ?t(?f \<mapsto> ?fl)\<rparr>"
      have "f_count fl - 1 \<noteq> 0" using shared by simp
      then have step: "dealloc_files_loop s p (i # is) = dealloc_files_loop ?s p is"
        unfolding run using fl(1) Cons.prems(3)
        by (simp add: release_file_def deref_def set_file_def set_fd_def update_pcb_def get_pcb_Some set_pcb_def file_table_pcbs)
      have p1: "buddy_inv R (kheap ?s) F" and p2: "pcbs ?s p = Some ?b" using Cons.prems(1) by simp_all
      have own: "files_owned (R - F) (file_table ?s) ?rest"
        unfolding files_owned_def
      proof (intro ballI impI)
        fix g assume g: "g \<in> set ?rest" "g \<noteq> 0"
        show "aligned 5 g \<and> blk 5 g \<subseteq> R - F \<and> (\<exists>fl. file_table ?s g = Some fl \<and> count_list ?rest g \<le> unat (f_count fl))"
          using owned [OF g] fl(1) rs(3) by (cases "g = ?f") auto
      qed
      obtain h where h: "dealloc_files_loop ?s p is = Inr (?s\<lparr>kheap := h,
          pcbs := (pcbs ?s)(p \<mapsto> ?b\<lparr>files := fold (\<lambda>i l. l[i := 0]) is (files ?b)\<rparr>), file_table := released ?rest (file_table ?s)\<rparr>)"
        "buddy_inv R h (F \<union> file_memory (last_closed (file_table ?s) ?rest))"
        "same_outside (F \<union> file_memory (last_closed (file_table ?s) ?rest)) (kmem ?s) (fst h)"
        using Cons.IH [OF p1 Cons.prems(2) p2 i(2) b rest own] by blast
      have run2: "dealloc_files_loop s p (i # is) = Inr (s\<lparr>kheap := h,
          pcbs := (pcbs s)(p \<mapsto> b\<lparr>files := fold (\<lambda>i l. l[i := 0]) (i # is) (files b)\<rparr>), file_table := released fs ?t\<rparr>)"
        unfolding step h(1) fs rs(2) by simp
      have "last_closed ?t fs = last_closed (file_table ?s) ?rest" unfolding fs rs(1) by simp
      moreover have "kmem ?s = kmem s" by simp
      ultimately show ?thesis using run2 h(2,3) by (simp only:) blast
    qed
  qed
qed

lemma dealloc_files_spec:
  assumes "buddy_inv R (kheap s) F" and "in_window R" and "pcbs s p = Some b" and len: "length (files b) = NR_OPEN"
    and "files_owned (R - F) (file_table s) (files b)"
  defines "D \<equiv> file_memory (last_closed (file_table s) (files b))"
  shows "\<exists>h. dealloc_files s p = Inr (s\<lparr>kheap := h, pcbs := (pcbs s)(p \<mapsto> b\<lparr>files := replicate NR_OPEN 0\<rparr>),
        file_table := released (files b) (file_table s)\<rparr>) \<and>
      buddy_inv R h (F \<union> D) \<and> same_outside (F \<union> D) (kmem s) (fst h)"
proof -
  have cleared: "fold (\<lambda>i l. l[i := 0]) [0..<k] l = replicate k 0 @ drop k l" if "k \<le> length l" for k and l :: "addr list"
    using that
  proof (induction k)
    case (Suc k)
    have "(replicate k 0 @ drop k l)[k := 0] = replicate k 0 @ (drop k l)[0 := 0]" by (simp add: list_update_append)
    also have "(drop k l)[0 := 0] = 0 # drop (Suc k) l" using Suc.prems Cons_nth_drop_Suc [of k l] by (metis Suc_le_eq list_update_code(2))
    finally show ?case using Suc by (simp add: replicate_append_same flip: replicate_Suc)
  qed simp
  have all: "files b = map ((!) (files b)) [0..<NR_OPEN]" using len map_nth [of "files b"] by simp
  have "fold (\<lambda>i l. l[i := 0]) [0..<NR_OPEN] (files b) = replicate NR_OPEN 0" using cleared [of NR_OPEN "files b"] len by simp
  then show ?thesis using dealloc_files_loop_spec [OF assms(1-3) distinct_upt _ all assms(5)] len
    unfolding dealloc_files_def D_def by simp
qed

abbreviation stdio :: "u32 \<Rightarrow> open_file" where
  "stdio off \<equiv> \<lparr>f_type = FILE_STDIO, f_count = 1, f_off = off, f_inode = 0\<rparr>"

lemma open_stdio_spec:
  assumes inv: "buddy_inv R (kheap s) F" and room: "pages_free F (Suc n)" and b: "pcbs s p = Some b"
  obtains f h off where "open_stdio s p i = Inr (s\<lparr>kheap := h, pcbs := (pcbs s)(p \<mapsto> b\<lparr>files := (files b)[i := f]\<rparr>),
        file_table := (file_table s)(f \<mapsto> stdio off)\<rparr>)"
    and "f \<noteq> 0" and "aligned 5 f" and "blk 5 f \<subseteq> F" and "buddy_inv R h (F - blk 5 f)" and "same_outside F (kmem s) (fst h)"
    and "pages_free (F - blk 5 f) n"
proof -
  have o: "size_order sizeof_file = 5" using small_orders(2) by (simp add: sizeof_file_def)
  have "\<exists>b. blk 5 b \<subseteq> F" using block_available [OF room] by simp
  then obtain f h where f: "alloc (kheap s) sizeof_file = Inr (f, h)" "aligned 5 f" "f \<noteq> 0" "blk 5 f \<subseteq> F"
    "buddy_inv R h (F - blk 5 f)" "same_outside F (kmem s) (fst h)"
    using alloc_spec [OF inv, of sizeof_file] o by (cases "alloc (kheap s) sizeof_file") auto
  have "open_stdio s p i = Inr (s\<lparr>kheap := h, pcbs := (pcbs s)(p \<mapsto> b\<lparr>files := (files b)[i := f]\<rparr>),
        file_table := (file_table s)(f \<mapsto> stdio (f_off (file_at (fst h) f)))\<rparr>)"
    using f(1) b by (simp add: open_stdio_def new_file_def kalloc_def set_file_def file_at_def set_fd_def
        update_pcb_def get_pcb_Some set_pcb_def deref_def)
  with that f(2-) pages_free_block [OF room, of 5 f] show thesis by simp
qed

lemma open_stdios_spec:
  assumes inv: "buddy_inv R (kheap s) F" and room: "pages_free F 3" and b: "pcbs s p = Some b"
    and files: "files b = replicate NR_OPEN 0"
  obtains f0 f1 f2 h o0 o1 o2 where "open_stdios s p = Inr (s\<lparr>kheap := h,
        pcbs := (pcbs s)(p \<mapsto> b\<lparr>files := [f0, f1, f2] @ replicate (NR_OPEN - 3) 0\<rparr>),
        file_table := (file_table s)(f0 \<mapsto> stdio o0, f1 \<mapsto> stdio o1, f2 \<mapsto> stdio o2)\<rparr>)"
    and "0 \<notin> {f0, f1, f2}" and "distinct [f0, f1, f2]" and "file_memory {f0, f1, f2} \<subseteq> F"
    and "buddy_inv R h (F - file_memory {f0, f1, f2})" and "same_outside F (kmem s) (fst h)"
proof -
  have three: "pages_free F (Suc (Suc (Suc 0)))" using room by (simp add: numeral_3_eq_3)
  obtain f0 h0 o0 where f0: "open_stdio s p 0 = Inr (s\<lparr>kheap := h0, pcbs := (pcbs s)(p \<mapsto> b\<lparr>files := (files b)[0 := f0]\<rparr>),
        file_table := (file_table s)(f0 \<mapsto> stdio o0)\<rparr>)" (is "_ = Inr ?s0")
    "f0 \<noteq> 0" "aligned 5 f0" "blk 5 f0 \<subseteq> F" "buddy_inv R h0 (F - blk 5 f0)" "same_outside F (kmem s) (fst h0)"
    "pages_free (F - blk 5 f0) (Suc (Suc 0))"
    by (rule open_stdio_spec [OF inv three b])
  let ?F1 = "F - blk 5 f0"
  have i1: "buddy_inv R (kheap ?s0) ?F1" "pcbs ?s0 p = Some (b\<lparr>files := (files b)[0 := f0]\<rparr>)" using f0(5) by simp_all
  obtain f1 h1 o1 where f1: "open_stdio ?s0 p 1 = Inr (?s0\<lparr>kheap := h1,
        pcbs := (pcbs ?s0)(p \<mapsto> b\<lparr>files := (files b)[0 := f0]\<rparr>\<lparr>files := (files (b\<lparr>files := (files b)[0 := f0]\<rparr>))[1 := f1]\<rparr>),
        file_table := (file_table ?s0)(f1 \<mapsto> stdio o1)\<rparr>)" (is "_ = Inr ?s1")
    "f1 \<noteq> 0" "blk 5 f1 \<subseteq> ?F1" "buddy_inv R h1 (?F1 - blk 5 f1)" "same_outside ?F1 (kmem ?s0) (fst h1)"
    "pages_free (?F1 - blk 5 f1) (Suc 0)"
    by (rule open_stdio_spec [OF i1(1) f0(7) i1(2)])
  let ?F2 = "?F1 - blk 5 f1" and ?b2 = "b\<lparr>files := (files b)[0 := f0, 1 := f1]\<rparr>"
  have i2: "buddy_inv R (kheap ?s1) ?F2" "pcbs ?s1 p = Some ?b2" using f1(4) by simp_all
  obtain f2 h2 o2 where f2: "open_stdio ?s1 p 2 = Inr (?s1\<lparr>kheap := h2,
        pcbs := (pcbs ?s1)(p \<mapsto> ?b2\<lparr>files := (files ?b2)[2 := f2]\<rparr>), file_table := (file_table ?s1)(f2 \<mapsto> stdio o2)\<rparr>)"
    "f2 \<noteq> 0" "blk 5 f2 \<subseteq> ?F2" "buddy_inv R h2 (?F2 - blk 5 f2)" "same_outside ?F2 (kmem ?s1) (fst h2)"
    by (rule open_stdio_spec [OF i2(1) f1(6) i2(2)])
  have "(replicate NR_OPEN (0 :: addr))[0 := f0, 1 := f1, 2 := f2] = [f0, f1, f2] @ replicate (NR_OPEN - 3) 0"
    by (simp add: NR_OPEN_def numeral_eq_Suc)
  then have run: "open_stdios s p = Inr (s\<lparr>kheap := h2,
        pcbs := (pcbs s)(p \<mapsto> b\<lparr>files := [f0, f1, f2] @ replicate (NR_OPEN - 3) 0\<rparr>),
        file_table := (file_table s)(f0 \<mapsto> stdio o0, f1 \<mapsto> stdio o1, f2 \<mapsto> stdio o2)\<rparr>)"
    using f0(1) f1(1) f2(1) files by (simp add: open_stdios_def)
  have ne: "f1 \<noteq> f0" "f2 \<noteq> f0" "f2 \<noteq> f1"
    using f1(3) f2(3) self_in_blk [of f1 5] self_in_blk [of f2 5] self_in_blk [of f0 5] by blast+
  have "same_outside F (kmem s) (fst h1)"
    by (rule same_outside_trans [OF f0(6) same_outside_mono [OF f1(5) [simplified]]]) blast
  then have mem: "same_outside F (kmem s) (fst h2)"
    by (rule same_outside_trans [OF _ same_outside_mono [OF f2(5) [simplified]]]) blast
  have eq: "F - file_memory {f0, f1, f2} = ?F2 - blk 5 f2" by blast
  have "buddy_inv R h2 (F - file_memory {f0, f1, f2})" unfolding eq by (rule f2(4))
  moreover have "file_memory {f0, f1, f2} \<subseteq> F" using f0(4) f1(3) f2(3) by auto
  ultimately show thesis using that [OF run] ne f0(2) f1(2) f2(2) mem by simp
qed

section \<open>The address space is replaced\<close>

definition exec_swap :: "kernel \<Rightarrow> addr \<Rightarrow> kernel outcome" where
  "exec_swap s new_mm =
     bindE (deref (mms s) new_mm) (\<lambda>root.
     let s = activate_pagetable s root in
     bindE (get_pcb s (current s)) (\<lambda>cur.
     bindE (update_pcb s (current s) (\<lambda>b. b\<lparr>mm := new_mm\<rparr>)) (\<lambda>s.
     bindE (dealloc_memory_map s (mm cur)) (\<lambda>s.
     bindE (update_pcb s (current s) (\<lambda>b. b\<lparr>process_cx := (process_cx b)\<lparr>cx_satp := satp_of root\<rparr>\<rparr>)) (\<lambda>s.
     bindE (kdealloc s (ustack cur) USER_STACK_SIZE) (\<lambda>s.
     bindE (kalloc s USER_STACK_SIZE) (\<lambda>(us, s).
     bindE (update_pcb s (current s) (\<lambda>b. b\<lparr>ustack := us\<rparr>)) (\<lambda>s.
     map_user_stack s root us))))))))"

lemma pages_free_stack: "pages_free F (4 + n) \<Longrightarrow> pages_free (F - blk 14 b) n"
proof -
  assume "pages_free F (4 + n)"
  then have p: "pages_free F (Suc (Suc (Suc (Suc n))))" by (simp add: numeral_eq_Suc)
  let ?c = "b XOR 2 ^ 13"
  have "blk 14 b = blk 13 b \<union> blk 13 ?c" using blk_Suc [of 13 b] by simp
  moreover have "blk 13 x = blk 12 x \<union> blk 12 (x XOR 2 ^ 12)" for x using blk_Suc [of 12 x] by simp
  ultimately have eq: "F - blk 14 b = F - blk 12 b - blk 12 (b XOR 2 ^ 12) - blk 12 ?c - blk 12 (?c XOR 2 ^ 12)" by auto
  show ?thesis unfolding eq by (rule pages_free_block [OF pages_free_block [OF pages_free_block [OF pages_free_block [OF p]]]]) simp_all
qed

lemma pages_free_mono: "pages_free F n \<Longrightarrow> F \<subseteq> G \<Longrightarrow> pages_free G n"
proof -
  assume "pages_free F n" "F \<subseteq> G"
  then obtain P where "finite P" "card P = n" "\<forall>p \<in> P. p < 2 ^ 44" "page_set P \<subseteq> G" by (auto simp: pages_free_def)
  then show ?thesis unfolding pages_free_def by blast
qed

lemma exec_swap_spec:
  assumes new: "space N0 F s mp root tab pl" and inv: "buddy_inv R (kheap s) F" "in_window R" and N0: "N0 \<subseteq> R"
    and old: "space R F s (mm cur) sroot stab sl" and cur: "pcbs s (current s) = Some cur"
    and stack: "aligned 14 (ustack cur)" "blk 14 (ustack cur) \<subseteq> R - F - (page_set (ran stab) \<union> page_set (set (frames_of sl)))"
    and apart: "(N0 - F) \<inter> (page_set (ran stab) \<union> page_set (set (frames_of sl)) \<union> blk 14 (ustack cur) \<union>
      set (mm_segments (mm cur) # seg_nodes sl)) = {}"
    and vpns: "take_bit 27 ` set (vpns_of pl) \<inter> take_bit 27 ` set stack_vpns = {}" and room: "pages_free F (12 + n)"
  defines "G \<equiv> F \<union> (page_set (ran stab) \<union> page_set (set (frames_of sl))) \<union> blk 14 (ustack cur)"
  obtains us s' F' tab' where "exec_swap s mp = Inr s'"
    and "s' = s\<lparr>kheap := kheap s', klinks := klinks s', satp := satp_of root,
        pcbs := (pcbs s)(current s \<mapsto> cur\<lparr>mm := mp, process_cx := (process_cx cur)\<lparr>cx_satp := satp_of root\<rparr>, ustack := us\<rparr>)\<rparr>"
    and "space (N0 - F \<union> (G - blk 14 us)) F' s' mp root tab' pl" and "F' \<subseteq> G - blk 14 us" and "buddy_inv R (kheap s') F'"
    and "same_outside (G \<union> page_set (ran tab)) (kmem s) (kmem s')"
    and "links_same_outside (set (mm_segments (mm cur) # seg_nodes sl)) (klinks s) (klinks s')"
    and "aligned 14 us" and "blk 14 us \<subseteq> G" and "stack_mapped (kmem s') tab' us"
    and "\<forall>v. take_bit 27 v \<notin> take_bit 27 ` set stack_vpns \<longrightarrow> leaf (kmem s') tab' v = leaf (kmem s) tab v"
    and "pages_free F' n" and "F' = G - blk 14 us - page_set (ran tab')" and "page_set (ran tab) \<subseteq> page_set (ran tab')"
proof -
  let ?P = "page_set (ran stab) \<union> page_set (set (frames_of sl))" and ?U = "blk 14 (ustack cur)"
  note dn = spaceD [OF new] and od = spaceD [OF old]
  define q1 where "q1 = (pcbs s)(current s \<mapsto> cur\<lparr>mm := mp\<rparr>)"
  define s1 where "s1 = s\<lparr>satp := satp_of root, pcbs := q1\<rparr>"
  have "space R F s1 (mm cur) sroot stab sl" using old unfolding space_def s1_def by simp
  from dealloc_memory_map_spec [OF this] obtain h l where d: "dealloc_memory_map s1 (mm cur) = Inr (s1\<lparr>kheap := h, klinks := l\<rparr>)"
    "buddy_inv R h (F \<union> page_set (set (frames_of sl)) \<union> page_set (ran stab))"
    "same_outside (F \<union> page_set (set (frames_of sl)) \<union> page_set (ran stab)) (kmem s1) (fst h)"
    "links_same_outside (set (mm_segments (mm cur) # seg_nodes sl)) (klinks s1) l" by metis
  have FP: "F \<union> page_set (set (frames_of sl)) \<union> page_set (ran stab) = F \<union> ?P" by blast
  define q2 where "q2 = (pcbs s)(current s \<mapsto> cur\<lparr>mm := mp, process_cx := (process_cx cur)\<lparr>cx_satp := satp_of root\<rparr>\<rparr>)"
  define s2 where "s2 = s\<lparr>satp := satp_of root, kheap := h, klinks := l, pcbs := q2\<rparr>"
  have U0: "ustack cur \<noteq> 0"
  proof -
    have "ustack cur \<in> R" using stack(2) self_in_blk by blast
    then show ?thesis using inv(2) by (auto simp: in_window_def)
  qed
  have i2: "buddy_inv R (kheap s2) (F \<union> ?P)" using d(2) by (simp only: s2_def FP) simp
  have UU: "?U \<subseteq> R - (F \<union> ?P)" using stack(2) by blast
  obtain s3 where s3: "kdealloc s2 (ustack cur) USER_STACK_SIZE = Inr s3" "buddy_inv R (kheap s3) (F \<union> ?P \<union> ?U)"
    "heap_step (F \<union> ?P \<union> ?U) s2 s3" by (rule kdealloc_spec [OF i2 stack_orders(3) stack(1) U0 UU])
  have G: "F \<union> ?P \<union> ?U = G" by (simp add: G_def)
  obtain us h4 where a: "alloc (kheap s3) USER_STACK_SIZE = Inr (us, h4)" "aligned 14 us" "blk 14 us \<subseteq> G"
    "buddy_inv R h4 (G - blk 14 us)" "same_outside G (kmem s3) (fst h4)"
    using alloc_spec [OF s3(2), of USER_STACK_SIZE] G stack_orders(3) by (cases "alloc (kheap s3) USER_STACK_SIZE") auto
  have s3h: "s3 = s2\<lparr>kheap := kheap s3\<rparr>" using s3(1) by (auto simp: kdealloc_def bindE_Inr_iff)
  have s3m: "same_outside G (kmem s2) (kmem s3)" using s3(3) by (simp add: heap_step_def G)
  define q5 where "q5 = (pcbs s)(current s \<mapsto> cur\<lparr>mm := mp, process_cx := (process_cx cur)\<lparr>cx_satp := satp_of root\<rparr>, ustack := us\<rparr>)"
  define s5 where "s5 = s\<lparr>satp := satp_of root, klinks := l, kheap := h4, pcbs := q5\<rparr>"
  have run: "exec_swap s mp = map_user_stack s5 root us"
  proof -
    have "s3\<lparr>kheap := h4\<rparr> = s2\<lparr>kheap := h4\<rparr>" by (subst s3h) simp
    then have "kalloc s3 USER_STACK_SIZE = Inr (us, s2\<lparr>kheap := h4\<rparr>)" using a(1) by (simp add: kalloc_def)
    then show ?thesis using dn(2) cur d(1) s3(1)
      by (simp add: exec_swap_def deref_def activate_pagetable_def get_pcb_Some update_pcb_Some set_pcb_def s1_def s2_def s5_def
          q1_def q2_def q5_def Let_def)
  qed
  have GR: "G \<subseteq> R" using buddy.inv_region [OF s3(2)] G by simp
  have mem5: "same_outside G (kmem s) (fst h4)"
  proof -
    have "same_outside (F \<union> page_set (set (frames_of sl)) \<union> page_set (ran stab)) (kmem s) (kmem s2)"
      using d(3) by (simp add: s1_def s2_def)
    then have "same_outside G (kmem s) (kmem s2)" by (rule same_outside_mono) (use FP in \<open>auto simp: G_def\<close>)
    then show ?thesis using s3m a(5) by (simp add: same_outside_def)
  qed
  let ?M = "N0 - F \<union> (G - blk 14 us)"
  have MR: "?M \<subseteq> R" using N0 GR by blast
  have i5: "buddy_inv ?M (kheap s5) (G - blk 14 us)" using buddy_within [OF a(4) _ MR] by (simp add: s5_def)
  have NG: "(N0 - F) \<inter> G = {}" using apart unfolding G_def by blast
  have sp5: "space ?M (G - blk 14 us) s5 mp root tab pl"
  proof (rule space_elsewhere [OF new i5 window_within [OF inv(2) MR]])
    show "same_outside G (fst (kheap s)) (fst (kheap s5))" using mem5 by (simp add: s5_def)
    show "links_same_outside (set (mm_segments (mm cur) # seg_nodes sl)) (klinks s) (klinks s5)" using d(4) by (simp add: s1_def s5_def)
  qed (use NG apart in \<open>auto simp: s5_def\<close>)
  have pf: "pages_free (G - blk 14 us) (8 + n)"
  proof (rule pages_free_stack, rule pages_free_mono)
    show "pages_free F (4 + (8 + n))" using room by (rule pages_free_less) simp
    show "F \<subseteq> G" unfolding G_def by blast
  qed
  note ms = map_user_stack_spec [OF sp5 vpns, of us]
  with pf obtain s' where s': "map_user_stack s5 root us = Inr s'"
    using pages_free_less [of _ "8 + n" 8] by (cases "map_user_stack s5 root us") auto
  obtain F' tab' where f: "s' = s5\<lparr>kheap := kheap s'\<rparr>" "space ?M F' s' mp root tab' pl"
    "evolved ?M (kheap s5) (G - blk 14 us) tab (kheap s') F' tab' {}" "stack_mapped (kmem s') tab' us"
    "\<forall>v. take_bit 27 v \<notin> take_bit 27 ` set stack_vpns \<longrightarrow> leaf (kmem s') tab' v = leaf (kmem s5) tab v"
    "\<forall>n. pages_free (G - blk 14 us) (8 + n) \<longrightarrow> pages_free F' n"
    using ms unfolding s' sum.case by blast
  note e = evolvedD [OF f(3)]
  have eq: "s' = s\<lparr>kheap := kheap s', klinks := klinks s', satp := satp_of root, pcbs := q5\<rparr>"
    by (subst f(1), subst (2) f(1)) (simp add: s5_def)
  have F': "F' \<subseteq> G - blk 14 us" using e(3) by blast
  have "buddy_inv ?M (kheap s') F'" using e(1) by (simp add: pt_inv_def)
  then have inv': "buddy_inv R (kheap s') F'" by (rule buddy_around [OF _ _ a(4)]) (use F' GR in blast)
  have "same_outside (G \<union> page_set (ran tab)) (fst h4) (kmem s')"
    by (rule same_outside_mono [OF e(8) [unfolded s5_def, simplified]]) blast
  then have mem': "same_outside (G \<union> page_set (ran tab)) (kmem s) (kmem s')"
    by (rule same_outside_trans [OF same_outside_mono [OF mem5], rotated]) blast
  have lf: "leaf (kmem s5) tab v = leaf (kmem s) tab v" for v
  proof (rule tree_frame(2) [of "kmem s" tab G])
    show "tree_ok (kmem s) tab" "same_outside G (kmem s) (kmem s5)" using dn(1) mem5 by (simp_all add: pt_inv_def s5_def)
    show "page_set (ran tab) \<inter> G = {}" using dn(1) NG by (auto simp: pt_inv_def)
  qed
  have "klinks s' = l" by (subst f(1)) (simp add: s5_def)
  then have links: "links_same_outside (set (mm_segments (mm cur) # seg_nodes sl)) (klinks s) (klinks s')" using d(4) by (simp add: s1_def)
  have pf': "pages_free F' n" using f(6) pf by blast
  have free: "F' = G - blk 14 us - page_set (ran tab')" "page_set (ran tab) \<subseteq> page_set (ran tab')"
    using e(3) map_le_page_set [OF e(2)] by (simp_all add: page_set_def)
  show thesis
    by (rule that [OF _ eq [unfolded q5_def] f(2) F' inv' mem' links a(2,3) f(4) _ pf' free])
      (use run s' f(5) lf in simp_all)
qed

section \<open>The end of the call\<close>

definition exec_finish :: "usize \<Rightarrow> kernel \<Rightarrow> addr \<Rightarrow> addr \<Rightarrow> (int \<times> kernel) outcome" where
  "exec_finish sst s inode buf =
     bindE (dealloc_files s (current s)) (\<lambda>s.
     bindE (open_stdios s (current s)) (\<lambda>s.
     bindE (update_pcb s (current s) (\<lambda>b. b\<lparr>trap_cx := goto_app sst (trap_cx b)
              (e_entry (kmem s) buf) (USER_STACK + USER_STACK_SIZE) (kstack b + KERNEL_STACK_SIZE)\<rparr>)) (\<lambda>s.
     bindE (kdealloc s buf (ucast (load32 (kmem s) (i_size inode)))) (\<lambda>s. Inr (0, s)))))"

lemma sys_exec_split:
  "sys_exec img sst s name =
     bindE (lookup (fs_img_start img) (kmem s) (string_at (kmem s) name)) (\<lambda>inode.
     if inode = 0 then Inr (-1, s)
     else
       bindE (kalloc s (ucast (load32 (kmem s) (i_size inode)))) (\<lambda>(buf, s).
       bindE (readall (fs_img_start img) (kmem s) inode buf) (\<lambda>(_, m).
       bindE (from_elf img (set_kmem s m) buf) (\<lambda>(new_mm, s).
       bindE (exec_swap s new_mm) (\<lambda>s. exec_finish sst s inode buf)))))"
  unfolding sys_exec_def exec_swap_def exec_finish_def bindE_assoc Let_def case_prod_unfold by (rule refl)

lemma buffer_kept:
  assumes "buffer_holds m buf d" and "same_outside S m m'" and "bytes_at buf (length d) \<inter> S = {}"
  shows "buffer_holds m' buf d"
proof -
  have "m' (buf + of_nat i) = m (buf + of_nat i)" if "i < length d" for i
  proof -
    have "length d < 2 ^ 32" using assms(1) by (simp add: buffer_holds_def)
    then have "buf + of_nat i \<in> bytes_at buf (length d)" using that by (simp add: bytes_at_def unat_of_nat)
    then show ?thesis using assms(2,3) unfolding same_outside_def by blast
  qed
  then show ?thesis using assms(1) by (simp add: buffer_holds_def)
qed

lemma exec_finish_spec:
  assumes inv: "buddy_inv R (kheap s) F" "in_window R" and b: "pcbs s (current s) = Some b" "length (files b) = NR_OPEN"
    and room: "pages_free F 3" and buf: "buffer_holds (kmem s) buf d" "64 \<le> length d" "bytes_at buf (length d) \<subseteq> B" "buf \<noteq> 0"
    and B: "B = blk j buf" "j = size_order (of_nat (length d))" "aligned j buf" "B \<subseteq> R - F"
    and files: "files_owned (R - F - B) (file_table s) (files b)"
    and size: "\<forall>m. same_outside (R - B) (kmem s) m \<longrightarrow> ucast (load32 m (i_size inode)) = (of_nat (length d) :: u64)"
  defines "D \<equiv> file_memory (last_closed (file_table s) (files b))"
  obtains f0 f1 f2 o0 o1 o2 s' where "exec_finish st s inode buf = Inr (0, s')"
    and "s' = s\<lparr>kheap := kheap s', pcbs := (pcbs s)(current s \<mapsto> b\<lparr>files := [f0, f1, f2] @ replicate (NR_OPEN - 3) 0,
        trap_cx := goto_app st (trap_cx b) (e_entry (file_mem d) 0) (USER_STACK + USER_STACK_SIZE) (kstack b + KERNEL_STACK_SIZE)\<rparr>),
        file_table := (released (files b) (file_table s))(f0 \<mapsto> stdio o0, f1 \<mapsto> stdio o1, f2 \<mapsto> stdio o2)\<rparr>"
    and "0 \<notin> {f0, f1, f2}" and "distinct [f0, f1, f2]" and "file_memory {f0, f1, f2} \<subseteq> F \<union> D"
    and "buddy_inv R (kheap s') (F \<union> D - file_memory {f0, f1, f2} \<union> B)" and "same_outside (F \<union> D \<union> B) (kmem s) (kmem s')"
    and "D \<subseteq> R - F - B"
proof -
  have DB: "D \<subseteq> R - F - B" using files by (auto simp: D_def last_closed_def files_owned_def)
  have "files_owned (R - F) (file_table s) (files b)" using files by (auto simp: files_owned_def)
  from dealloc_files_spec [OF inv b this, folded D_def] obtain h1 where
    h1: "dealloc_files s (current s) = Inr (s\<lparr>kheap := h1, pcbs := (pcbs s)(current s \<mapsto> b\<lparr>files := replicate NR_OPEN 0\<rparr>),
        file_table := released (files b) (file_table s)\<rparr>)" (is "_ = Inr ?s1")
    "buddy_inv R h1 (F \<union> D)" "same_outside (F \<union> D) (kmem s) (fst h1)" by blast
  let ?b1 = "b\<lparr>files := replicate NR_OPEN 0\<rparr>"
  have s1: "buddy_inv R (kheap ?s1) (F \<union> D)" "pages_free (F \<union> D) 3" "pcbs ?s1 (current s) = Some ?b1" "files ?b1 = replicate NR_OPEN 0"
    using h1(2) pages_free_mono [OF room] by auto
  obtain f0 f1 f2 h2 o0 o1 o2 where f: "open_stdios ?s1 (current s) = Inr (?s1\<lparr>kheap := h2,
        pcbs := (pcbs ?s1)(current s \<mapsto> ?b1\<lparr>files := [f0, f1, f2] @ replicate (NR_OPEN - 3) 0\<rparr>),
        file_table := (file_table ?s1)(f0 \<mapsto> stdio o0, f1 \<mapsto> stdio o1, f2 \<mapsto> stdio o2)\<rparr>)"
    "0 \<notin> {f0, f1, f2}" "distinct [f0, f1, f2]" "file_memory {f0, f1, f2} \<subseteq> F \<union> D"
    "buddy_inv R h2 (F \<union> D - file_memory {f0, f1, f2})" "same_outside (F \<union> D) (kmem ?s1) (fst h2)"
    by (rule open_stdios_spec [OF s1])
  let ?F2 = "F \<union> D - file_memory {f0, f1, f2}"
  let ?t = "(released (files b) (file_table s))(f0 \<mapsto> stdio o0, f1 \<mapsto> stdio o1, f2 \<mapsto> stdio o2)"
  define b2 where "b2 = b\<lparr>files := [f0, f1, f2] @ replicate (NR_OPEN - 3) 0,
      trap_cx := goto_app st (trap_cx b) (e_entry (fst h2) buf) (USER_STACK + USER_STACK_SIZE) (kstack b + KERNEL_STACK_SIZE)\<rparr>"
  define s2 where "s2 = s\<lparr>kheap := h2, file_table := ?t, pcbs := (pcbs s)(current s \<mapsto> b2)\<rparr>"
  have mem2: "same_outside (F \<union> D) (kmem s) (fst h2)" using h1(3) f(6) by (simp add: same_outside_def)
  have FD: "F \<union> D \<subseteq> R - B" using DB B(4) buddy.inv_region [OF inv(1)] by blast
  have "same_outside (R - B) (kmem s) (fst h2)" by (rule same_outside_mono [OF mem2 FD])
  with size have sz: "ucast (load32 (kmem s2) (i_size inode)) = (of_nat (length d) :: u64)" by (simp add: s2_def)
  have hold: "buffer_holds (fst h2) buf d" by (rule buffer_kept [OF buf(1) mem2]) (use buf(3) FD in blast)
  have entry: "e_entry (fst h2) buf = e_entry (file_mem d) 0" by (rule buffer_fields(4) [OF hold buf(2)])
  have inv2: "buddy_inv R (kheap s2) ?F2" using f(5) by (simp add: s2_def)
  have BR: "blk j buf \<subseteq> R - ?F2" using B FD by blast
  obtain s' where s': "kdealloc s2 buf (of_nat (length d)) = Inr s'" "buddy_inv R (kheap s') (?F2 \<union> blk j buf)"
    "heap_step (?F2 \<union> blk j buf) s2 s'" by (rule kdealloc_spec [OF inv2 B(2) [symmetric] B(3) buf(4) BR])
  have "exec_finish st s inode buf = bindE (kdealloc s2 buf (ucast (load32 (kmem s2) (i_size inode)))) (\<lambda>s. Inr (0, s))"
    using h1(1) f(1) by (simp add: exec_finish_def update_pcb_Some set_pcb_def s2_def b2_def file_table_pcbs)
  then have run: "exec_finish st s inode buf = Inr (0, s')" using s'(1) sz by simp
  obtain h3 where h3: "s' = s2\<lparr>kheap := h3\<rparr>" using s'(1) by (auto simp: kdealloc_def bindE_Inr_iff)
  have "same_outside (?F2 \<union> blk j buf) (fst h2) (kmem s')" using s'(3) by (simp add: heap_step_def s2_def)
  then have "same_outside (F \<union> D \<union> B) (fst h2) (kmem s')" by (rule same_outside_mono) (use B(1) in blast)
  then have mem': "same_outside (F \<union> D \<union> B) (kmem s) (kmem s')"
    by (rule same_outside_trans [OF same_outside_mono [OF mem2], rotated]) blast
  have "s' = s\<lparr>kheap := kheap s', pcbs := (pcbs s)(current s \<mapsto> b2), file_table := ?t\<rparr>" by (simp add: h3 s2_def file_table_pcbs)
  with that [OF run _ f(2-4) _ mem' DB] s'(2) B(1) show thesis by (simp add: b2_def entry)
qed

section \<open>What the steps keep\<close>

lemma pieces_vpns: "list_all2 (program_piece d m) phs pl \<Longrightarrow> vpns_of pl = all_vpns (map elf_segment phs)"
  by (induction phs pl rule: list_all2_induct) (auto simp: program_piece_def)

lemma pieces_kept:
  "list_all2 (program_piece d m) phs pl \<Longrightarrow> \<forall>x \<in> page_set (set (frames_of pl)). m' x = m x \<Longrightarrow>
     list_all2 (program_piece d m') phs pl"
proof (induction phs pl rule: list_all2_induct)
  case (Cons ph phs x pl)
  obtain b sg ps where x: "x = (b, sg, ps)" by (cases x) auto
  have "pages_hold m ps f \<Longrightarrow> pages_hold m' ps f" for f
    by (erule pages_hold_same) (use Cons.prems in \<open>simp add: x page_set_Un\<close>)
  then show ?case using Cons by (simp add: x program_piece_def page_set_Un)
qed simp

lemma program_vpns:
  assumes "program img d phs" and "list_all2 (program_piece d m) (rev (filter loadable phs)) pl"
    and "map (\<lambda>(_, sg, ps). (sg, ps)) kern = map (\<lambda>sg. (sg, [])) (kernel_segments img)"
  shows "take_bit 27 ` set (vpns_of (pl @ kern)) \<inter> take_bit 27 ` set stack_vpns = {}"
proof -
  have "set (vpns_of (pl @ kern)) = set (all_vpns (kernel_segments img @ elf_segments phs))"
    using pieces_vpns [OF assms(2)] all_vpns_pieces [OF assms(3)] by (auto simp: elf_segments_def)
  moreover have "distinct (map (take_bit 27) (all_vpns (kernel_segments img @ elf_segments phs)) @ map (take_bit 27) stack_vpns)"
    using programD(7) [OF assms(1)] by (simp only: map_append)
  then have "take_bit 27 ` set (all_vpns (kernel_segments img @ elf_segments phs)) \<inter> take_bit 27 ` set stack_vpns = {}"
    by (simp only: distinct_append set_map)
  ultimately show ?thesis by (simp only:)
qed

text \<open>The queue is not affected by a change of its running process that keeps its state.\<close>

lemma sched_kept:
  assumes sched: "sched_inv s q" and procs: "procs_apart R F s" and b: "pcbs s (current s) = Some b0" "state b = state b0"
    and t: "pcbs t = (pcbs s)(current s \<mapsto> b)" "current t = current s" "idle t = idle s"
    and links: "links_same_outside (F \<union> N) (klinks s) (klinks t)" "N \<inter> proc_nodes s = {}"
  shows "sched_inv t q"
proof -
  note i = sched_invD [OF sched]
  have st: "has_state t x st \<longleftrightarrow> has_state s x st" for x st using b by (simp add: has_state_def t(1))
  have "run_node x \<notin> F \<union> N" if "x \<in> insert (idle s) (set q)" for x
  proof -
    have "pcbs s x \<noteq> None"
    proof (cases "x = idle s")
      case True
      then show ?thesis using i(5) b(1) by (cases "current s = idle s") (auto simp: has_state_def)
    next
      case False
      then show ?thesis using that i(2) [of x] by (auto simp: has_state_def)
    qed
    then obtain c where "pcbs s x = Some c" by blast
    then show ?thesis using procs_apartD(3) [OF procs] proc_nodesI links(2) by blast
  qed
  then have "set (run_node (idle s) # map run_node q) \<inter> (F \<union> N) = {}" by auto
  then have "run_queue t q" using clist_frame [OF links(1)] i(1) by (simp add: run_queue_def t(3))
  then show ?thesis using sched t(2,3) unfolding sched_inv_def st by simp
qed

section \<open>The first half of the call\<close>

text \<open>The memory the new address space takes, from what was free and what the old one gives back.\<close>

lemma space_taken:
  assumes "F3 = F1 - T3 - Fr - S" and "F6 = G - us - T" and "G = F3 \<union> P \<union> U" and "T3 \<subseteq> T" and "Fr \<union> S \<subseteq> F1"
    and "F1 \<inter> (P \<union> U) = {}" and "F3 \<subseteq> F1" and "us \<subseteq> G" and "T \<subseteq> (F1 - F3 \<union> (G - us)) - F6"
  shows "F6 = (F1 \<union> P \<union> U) - (T \<union> Fr \<union> S \<union> us)" and "T \<union> Fr \<union> S \<subseteq> (F1 - F3 \<union> (G - us)) - F6"
    and "(F1 - F3 \<union> (G - us)) \<inter> us = {}"
proof -
  have FS: "Fr \<union> S \<subseteq> F1 - F3" "(Fr \<union> S) \<inter> G = {}" using assms(1,3,5,6) by blast+
  show "F6 = (F1 \<union> P \<union> U) - (T \<union> Fr \<union> S \<union> us)" using assms(1,2,3,4) FS(2) by blast
  show "T \<union> Fr \<union> S \<subseteq> (F1 - F3 \<union> (G - us)) - F6" using FS assms(2,9) by blast
  show "(F1 - F3 \<union> (G - us)) \<inter> us = {}" using assms(3,6,8) by blast
qed

lemma exec_replaced:
  assumes fs: "file_heap img R F L nm (kheap s)" and win: "in_window R"
    and name: "is_cstring (string_at (kmem s) name) (nm n)" and n: "L n = Some (ib, bl)"
    and d: "d = content (fs_img_start img) (kmem s) n bl" and prog: "program img d phs"
    and cur: "pcbs s (current s) = Some cur" and old: "space R F s (mm cur) sroot stab sl"
  defines "P \<equiv> page_set (ran stab) \<union> page_set (set (frames_of sl))" and "U \<equiv> blk 14 (ustack cur)"
  assumes stack: "aligned 14 (ustack cur)" "U \<subseteq> R - F - P"
    and room: "size_order (of_nat (length d)) \<le> k" "12 \<le> k"
      "blocks_free k F (18 + segs_cost (kernel_segments img @ elf_segments phs))"
  obtains inode buf B s6 mp root M F6 tab pl kern us where "sys_exec img sst s name = exec_finish sst s6 inode buf"
    and "s6 = s\<lparr>kheap := kheap s6, klinks := klinks s6, segs := segs s6, mms := mms s6, satp := satp_of root,
        pcbs := (pcbs s)(current s \<mapsto> cur\<lparr>mm := mp, process_cx := (process_cx cur)\<lparr>cx_satp := satp_of root\<rparr>, ustack := us\<rparr>)\<rparr>"
    and "space M F6 s6 mp root tab (pl @ kern)" and "M \<subseteq> F - B \<union> P \<union> U" and "F6 \<subseteq> F - B \<union> P \<union> U"
    and "buddy_inv R (kheap s6) F6" and "pages_free F6 3"
    and "list_all2 (program_piece d (kmem s6)) (rev (filter loadable phs)) pl"
    and "map (\<lambda>(_, sg, ps). (sg, ps)) kern = map (\<lambda>sg. (sg, [])) (kernel_segments img)"
    and "\<forall>v. take_bit 27 v \<notin> take_bit 27 ` set (vpns_of (pl @ kern) @ stack_vpns) \<longrightarrow> leaf (kmem s6) tab v = 0"
    and "stack_mapped (kmem s6) tab us" and "blk 14 us \<subseteq> F - B \<union> P \<union> U - F6"
    and "same_outside (F \<union> P \<union> U) (kmem s) (kmem s6)"
    and "links_same_outside (F \<union> set (mm_segments (mm cur) # seg_nodes sl)) (klinks s) (klinks s6)"
    and "buffer_holds (kmem s6) buf d" and "bytes_at buf (length d) \<subseteq> B" and "buf \<noteq> 0" and "aligned (size_order (of_nat (length d))) buf"
    and "B = blk (size_order (of_nat (length d))) buf" and "B \<subseteq> F"
    and "\<forall>m. same_outside R (kmem s) m \<longrightarrow> ucast (load32 m (i_size inode)) = (of_nat (length d) :: u64)"
    and "F6 = (F - B \<union> P \<union> U) - (page_set (ran tab) \<union> page_set (set (frames_of (pl @ kern))) \<union> structs mp (pl @ kern) \<union> blk 14 us)"
    and "page_set (ran tab) \<union> page_set (set (frames_of (pl @ kern))) \<union> structs mp (pl @ kern) \<subseteq> M - F6" and "M \<inter> blk 14 us = {}"
    and "\<forall>a. a \<notin> F \<longrightarrow> segs s6 a = segs s a \<and> mms s6 a = mms s a"
proof -
  let ?fs = "fs_img_start img" and ?cost = "segs_cost (kernel_segments img @ elf_segments phs)"
  let ?j = "size_order (of_nat (length d))"
  note hd = file_heapD [OF fs] and pd = programD [OF prog] and od = spaceD [OF old]
  have len: "0 < length d" "length d < 2 ^ 32" using pd(1,2) by linarith+
  obtain c where c: "blk ?j c \<subseteq> F" using blocks_free_some [of k F "17 + ?cost" ?j] room by auto
  obtain inode buf s1 m where r: "lookup ?fs (kmem s) (string_at (kmem s) name) = Inr inode" "inode \<noteq> 0"
    "inode = get_inode ?fs (int n)" "ucast (load32 (kmem s) (i_size inode)) = (of_nat (length d) :: u64)"
    "kalloc s (of_nat (length d)) = Inr (buf, s1)" "readall ?fs (kmem s1) inode buf = Inr (int (length d), m)"
    "set_kmem s1 m = s\<lparr>kheap := kheap (set_kmem s1 m)\<rparr>" "file_heap img R (F - blk ?j buf) L nm (kheap (set_kmem s1 m))"
    "aligned ?j buf" "buf \<noteq> 0" "blk ?j buf \<subseteq> F" "buffer_holds m buf d" "same_outside F (kmem s) m"
    "bytes_at buf (length d) \<subseteq> blk ?j buf" "unat buf + length d \<le> 2 ^ 64" "same_files ?fs (kmem s) m L"
    by (rule file_read [OF fs name n d len c])
  define s2 where "s2 = set_kmem s1 m"
  define B where "B = blk ?j buf"
  define F1 where "F1 = F - B"
  have s2: "s2 = s\<lparr>kheap := kheap s2\<rparr>" using r(7) by (simp only: s2_def)
  have m2: "kmem s2 = m" by (simp add: s2_def set_kmem_def)
  have inv2: "buddy_inv R (kheap s2) F1" using file_heapD(2) [OF r(8)] by (simp add: F1_def B_def s2_def)
  have F1R: "F1 \<subseteq> R" by (rule buddy.inv_region [OF inv2])
  have pages: "pages_free F1 (2 + ?cost + 15)"
  proof (rule blocks_free_pages [OF _ room(2) win F1R])
    have "blocks_free k F (Suc (17 + ?cost))" using room(3) by simp
    from blocks_free_take [OF this room(1)] show "blocks_free k F1 (2 + ?cost + 15)" by (simp add: F1_def B_def add.commute)
  qed
  have apart: "bytes_at buf (length d) \<inter> F1 = {}" using r(14) by (auto simp: F1_def B_def)
  obtain mp s3 root F3 tab3 pl kern where l: "from_elf img s2 buf = Inr (mp, s3)" "space F1 F3 s3 mp root tab3 (pl @ kern)" "F3 \<subseteq> F1"
    "kept F1 s2 s3" "buddy_inv R (kheap s3) F3" "list_all2 (program_piece d (kmem s3)) (rev (filter loadable phs)) pl"
    "map (\<lambda>(_, sg, ps). (sg, ps)) kern = map (\<lambda>sg. (sg, [])) (kernel_segments img)"
    "only_listed (kmem s3) tab3 (pl @ kern)" "pages_free F3 15"
    "F3 = F1 - page_set (ran tab3) - page_set (set (frames_of (pl @ kern))) - structs mp (pl @ kern)"
    "page_set (set (frames_of (pl @ kern))) \<union> structs mp (pl @ kern) \<subseteq> F1"
    by (rule program_loaded [OF inv2 win prog _ r(10,15) apart pages]) (use r(12) m2 in simp)
  have s3: "s3 = s\<lparr>kheap := kheap s3, klinks := klinks s3, segs := segs s3, mms := mms s3\<rparr>"
  proof -
    have "s3 = s2\<lparr>kheap := kheap s3, klinks := klinks s3, segs := segs s3, mms := mms s3\<rparr>" using l(4) by (simp add: kept_def)
    also have "\<dots> = s\<lparr>kheap := kheap s3, klinks := klinks s3, segs := segs s3, mms := mms s3\<rparr>" by (subst s2) simp
    finally show ?thesis .
  qed
  have sel: "pcbs s3 = pcbs s" "current s3 = current s" "idle s3 = idle s" "file_table s3 = file_table s" by (subst s3, simp)+
  have F: "F1 \<subseteq> F" "F3 \<subseteq> F" using l(3) by (auto simp: F1_def)
  have PR: "P \<subseteq> R - F" using od(1,11) by (auto simp: P_def pt_inv_def)
  have nodes: "set (mm_segments (mm cur) # seg_nodes sl) \<subseteq> R - F" by (rule space_nodes [OF old])
  have old2: "space R F1 s2 (mm cur) sroot stab sl"
  proof (rule space_vm_kept [OF old _ inv2 F(1)])
    have "klinks s2 = klinks s" "segs s2 = segs s" "mms s2 = mms s" by (subst s2, simp)+
    then show "vm_kept F s s2" using r(13) m2 by (simp add: vm_kept_def)
  qed
  have old3: "space R F3 s3 (mm cur) sroot stab sl" by (rule space_kept [OF old2 l(4,5,3)])
  have cur3: "pcbs s3 (current s3) = Some cur" using cur(1) by (simp add: sel)
  have stack3: "blk 14 (ustack cur) \<subseteq> R - F3 - (page_set (ran stab) \<union> page_set (set (frames_of sl)))"
    using stack(2) F(2) unfolding U_def P_def by blast
  have apart3: "(F1 - F3) \<inter> (page_set (ran stab) \<union> page_set (set (frames_of sl)) \<union> blk 14 (ustack cur) \<union>
      set (mm_segments (mm cur) # seg_nodes sl)) = {}"
    using PR stack(2) nodes F(1) unfolding P_def U_def by blast
  have room3: "pages_free F3 (12 + 3)" using l(9) by simp
  define G where "G = F3 \<union> P \<union> U"
  obtain us s6 F6 tab where w: "exec_swap s3 mp = Inr s6"
    "s6 = s3\<lparr>kheap := kheap s6, klinks := klinks s6, satp := satp_of root,
        pcbs := (pcbs s3)(current s3 \<mapsto> cur\<lparr>mm := mp, process_cx := (process_cx cur)\<lparr>cx_satp := satp_of root\<rparr>, ustack := us\<rparr>)\<rparr>"
    "space (F1 - F3 \<union> (G - blk 14 us)) F6 s6 mp root tab (pl @ kern)" "F6 \<subseteq> G - blk 14 us" "buddy_inv R (kheap s6) F6"
    "same_outside (G \<union> page_set (ran tab3)) (kmem s3) (kmem s6)"
    "links_same_outside (set (mm_segments (mm cur) # seg_nodes sl)) (klinks s3) (klinks s6)"
    "aligned 14 us" "blk 14 us \<subseteq> G" "stack_mapped (kmem s6) tab us"
    "\<forall>v. take_bit 27 v \<notin> take_bit 27 ` set stack_vpns \<longrightarrow> leaf (kmem s6) tab v = leaf (kmem s3) tab3 v" "pages_free F6 3"
    "F6 = G - blk 14 us - page_set (ran tab)" "page_set (ran tab3) \<subseteq> page_set (ran tab)"
    by (rule exec_swap_spec [OF l(2,5) win F1R old3 cur3 stack(1) stack3 apart3 program_vpns [OF prog l(6,7)] room3,
          folded P_def U_def G_def])
  let ?b6 = "cur\<lparr>mm := mp, process_cx := (process_cx cur)\<lparr>cx_satp := satp_of root\<rparr>, ustack := us\<rparr>"
  have sel6: "pcbs s6 = (pcbs s)(current s \<mapsto> ?b6)" "current s6 = current s" "idle s6 = idle s" "file_table s6 = file_table s"
    "satp s6 = satp_of root" "segs s6 = segs s3" "mms s6 = mms s3"
    by (subst w(2), simp add: sel)+
  have BF: "B \<subseteq> F" "B \<inter> F1 = {}" using r(11) by (auto simp: B_def F1_def)
  have t3: "page_set (ran tab3) \<subseteq> F1 - F3" using spaceD(1) [OF l(2)] by (simp add: pt_inv_def)
  have GW: "G \<subseteq> F1 \<union> P \<union> U" using l(3) by (auto simp: G_def)
  have mem3: "same_outside F1 (kmem s2) (kmem s3)" using l(4) by (simp add: kept_def)
  have mem6: "same_outside (F1 \<union> P \<union> U) (kmem s2) (kmem s6)"
    by (rule same_outside_trans [OF same_outside_mono [OF mem3] same_outside_mono [OF w(6)]]) (use GW t3 in blast)+
  have UR: "U \<subseteq> R - F - P" using stack(2) .
  have hold6: "buffer_holds (kmem s6) buf d"
    by (rule buffer_kept [OF _ mem6]) (use r(12,14) m2 BF PR UR in \<open>auto simp: B_def\<close>)
  have size: "ucast (load32 m' (i_size inode)) = (of_nat (length d) :: u64)" if m': "same_outside R (kmem s) m'" for m'
  proof -
    have "same_outside (span ?fs 0 6 \<union> - image_span ?fs) (kmem s) m'" by (rule same_outside_mono [OF m']) (use hd(8) in blast)
    from fs_ok_superblock(5) [OF hd(3) this] have "file_size ?fs m' n = file_size ?fs (kmem s) n" using n by (simp add: same_files_def)
    then have "load32 m' (i_size inode) = load32 (kmem s) (i_size inode)" unfolding r(3) file_size_def by (rule unsigned_word_eqI)
    then show ?thesis using r(4) by simp
  qed
  have run: "sys_exec img sst s name = exec_finish sst s6 inode buf"
    using r(1,2,4-6) l(1) w(1) by (simp add: sys_exec_split s2_def)
  let ?M = "F1 - F3 \<union> (G - blk 14 us)" and ?W = "F - B \<union> P \<union> U"
  have MW: "?M \<subseteq> ?W" "F6 \<subseteq> ?W" "blk 14 us \<subseteq> ?W - F6" using GW w(4,9) unfolding F1_def by blast+
  have fp: "page_set (set (frames_of pl)) \<subseteq> F1 - F3 - page_set (ran tab3)" using spaceD(11) [OF l(2)] by (simp add: page_set_Un)
  have pieces: "list_all2 (program_piece d (kmem s6)) (rev (filter loadable phs)) pl"
  proof (rule pieces_kept [OF l(6)], rule ballI)
    fix x assume "x \<in> page_set (set (frames_of pl))"
    then have x: "x \<in> F1 - F3 - page_set (ran tab3)" using fp by blast
    then have "x \<notin> G \<union> page_set (ran tab3)" using PR UR F(1) unfolding G_def by blast
    then show "kmem s6 x = kmem s3 x" using w(6) by (simp add: same_outside_def)
  qed
  have zero: "leaf (kmem s6) tab v = 0" if "take_bit 27 v \<notin> take_bit 27 ` set (vpns_of (pl @ kern) @ stack_vpns)" for v
    using that l(8) w(11) by (simp add: only_listed_def image_Un)
  have "same_outside (F \<union> P \<union> U) (kmem s) (kmem s2)" unfolding m2 by (rule same_outside_mono [OF r(13)]) blast
  moreover have "same_outside (F \<union> P \<union> U) (kmem s2) (kmem s6)" by (rule same_outside_mono [OF mem6]) (use F(1) in blast)
  ultimately have mem: "same_outside (F \<union> P \<union> U) (kmem s) (kmem s6)" by (rule same_outside_trans)
  have "klinks s2 = klinks s" by (subst s2) simp
  then have "links_same_outside F1 (klinks s) (klinks s3)" using l(4) by (simp add: kept_def)
  then have links: "links_same_outside (F \<union> set (mm_segments (mm cur) # seg_nodes sl)) (klinks s) (klinks s6)"
    by (rule links_same_trans [OF links_same_mono links_same_mono [OF w(7)]]) (use F(1) in blast)+
  have g: "s3\<lparr>kheap := h, klinks := k, satp := c, pcbs := b\<rparr> = s\<lparr>kheap := h, klinks := k, segs := segs s3, mms := mms s3, satp := c, pcbs := b\<rparr>"
    for h k c b by (subst (1) s3) simp
  have eq: "s6 = s\<lparr>kheap := kheap s6, klinks := klinks s6, segs := segs s6, mms := mms s6, satp := satp_of root,
        pcbs := (pcbs s)(current s \<mapsto> cur\<lparr>mm := mp, process_cx := (process_cx cur)\<lparr>cx_satp := satp_of root\<rparr>, ustack := us\<rparr>)\<rparr>"
    by (rule trans [OF w(2)]) (simp only: g sel(1,2) sel6(6,7))
  have stores: "\<forall>a. a \<notin> F \<longrightarrow> segs s6 a = segs s a \<and> mms s6 a = mms s a"
  proof -
    have "segs s2 = segs s" "mms s2 = mms s" by (subst s2, simp)+
    then show ?thesis using l(4) F(1) unfolding kept_def sel6(6,7) by auto
  qed
  have T: "page_set (ran tab) \<subseteq> ?M - F6" using spaceD(1) [OF w(3)] by (simp add: pt_inv_def)
  have PU: "F1 \<inter> (P \<union> U) = {}" using PR UR F(1) by blast
  note free = space_taken [OF l(10) w(13) G_def w(14) l(11) PU l(3) w(9) T]
  show thesis
    by (rule that [OF run eq w(3) MW(1,2) w(5,12) pieces l(7) _ w(10) MW(3) mem links hold6 r(14) [folded B_def] r(10,9) B_def BF(1)])
      (use zero size free stores in \<open>simp_all add: F1_def\<close>)
qed

section \<open>The program after the files\<close>

text \<open>What is written outside the new address space leaves its pages, entries and pieces as they are.\<close>

lemma program_elsewhere:
  assumes sp: "space M F6 s6 mp root tab (pl @ kern)" and inv: "buddy_inv R (kheap s') F'" "in_window R"
    and own: "M - F6 \<subseteq> R" "(M - F6) \<inter> F' = {}" "(M - F6) \<inter> S = {}" and same: "same_outside S (kmem s6) (kmem s')"
    and stores: "klinks s' = klinks s6" "segs s' = segs s6" "mms s' = mms s6"
  shows "space R F' s' mp root tab (pl @ kern)" and "leaf (kmem s') tab v = leaf (kmem s6) tab v"
    and "list_all2 (program_piece d (kmem s6)) phs pl \<Longrightarrow> list_all2 (program_piece d (kmem s')) phs pl"
    and "page_set (ran tab) \<subseteq> M - F6" and "page_set (set (frames_of pl)) \<subseteq> M - F6"
proof -
  show tp: "page_set (ran tab) \<subseteq> M - F6" and fp: "page_set (set (frames_of pl)) \<subseteq> M - F6"
    using spaceD(1,11) [OF sp] by (auto simp: pt_inv_def page_set_Un)
  show "space R F' s' mp root tab (pl @ kern)"
  proof (rule space_elsewhere [OF sp inv own(1,2) same own(3)])
    show "links_same_outside {} (klinks s6) (klinks s')" by (simp add: stores)
  qed (simp_all add: stores)
  show "leaf (kmem s') tab v = leaf (kmem s6) tab v"
  proof (rule tree_frame(2) [OF _ same])
    show "tree_ok (kmem s6) tab" using spaceD(1) [OF sp] by (simp add: pt_inv_def)
    show "page_set (ran tab) \<inter> S = {}" using tp own(3) by blast
  qed
  assume "list_all2 (program_piece d (kmem s6)) phs pl"
  then show "list_all2 (program_piece d (kmem s')) phs pl"
  proof (rule pieces_kept, intro ballI)
    fix a assume "a \<in> page_set (set (frames_of pl))"
    then have "a \<notin> S" using fp own(3) by blast
    then show "kmem s' a = kmem s6 a" using same by (simp add: same_outside_def)
  qed
qed

lemma files_owned_mono: "files_owned S t fs \<Longrightarrow> S \<subseteq> S' \<Longrightarrow> files_owned S' t fs"
  unfolding files_owned_def by fastforce

section \<open>The call as a whole\<close>

text \<open>What is left free: of all that was free or is given back, what the new space, stack and files do not take.\<close>

lemma memory_left:
  assumes free: "F6 = W - (Y \<union> us)" and own: "Y \<subseteq> M - F6" and apart: "M \<inter> us = {}" and M: "M \<subseteq> W" and us: "us \<subseteq> W - F6"
    and W: "W \<inter> (B \<union> D) = {}" and fm: "fm \<subseteq> F6 \<union> D" and D: "D \<inter> B = {}" and B: "B \<subseteq> F"
    and eq: "W = F - B \<union> P \<union> U"
  shows "Y \<inter> (us \<union> fm) = {}" and "us \<inter> fm = {}" and "Y \<union> us \<union> fm \<subseteq> F \<union> P \<union> U \<union> D"
    and "F6 \<union> D - fm \<union> B = F \<union> P \<union> U \<union> D - (Y \<union> us \<union> fm)"
proof -
  have y: "Y \<subseteq> W" "Y \<inter> F6 = {}" "Y \<inter> D = {}" "Y \<inter> B = {}" and u: "us \<inter> F6 = {}" "us \<inter> D = {}" "us \<inter> B = {}" "us \<subseteq> W"
    using own M us W by blast+
  have f: "fm \<subseteq> W \<union> D" "fm \<inter> B = {}" using fm free W D by blast+
  show "Y \<inter> (us \<union> fm) = {}" using own apart fm y(2,3) by blast
  show "us \<inter> fm = {}" using fm u by blast
  have WF: "W \<subseteq> F \<union> P \<union> U" using eq by blast
  show "Y \<union> us \<union> fm \<subseteq> F \<union> P \<union> U \<union> D" using y(1) u(4) f(1) WF by blast
  have all: "F \<union> P \<union> U \<union> D = W \<union> D \<union> B" using eq B by blast
  show "F6 \<union> D - fm \<union> B = F \<union> P \<union> U \<union> D - (Y \<union> us \<union> fm)" unfolding all using free y(3,4) u(2,3) f(2) by blast
qed

lemma sys_exec_spec:
  assumes fs: "file_heap img R F L nm (kheap s)" and win: "in_window R"
    and name: "is_cstring (string_at (kmem s) name) (nm n)" and n: "L n = Some (ib, bl)"
    and prog: "program img (content (fs_img_start img) (kmem s) n bl) phs"
    and cur: "pcbs s (current s) = Some cur" "length (files cur) = NR_OPEN"
    and old: "space R F s (mm cur) sroot stab sl"
  defines "d \<equiv> content (fs_img_start img) (kmem s) n bl" and "P \<equiv> page_set (ran stab) \<union> page_set (set (frames_of sl))"
    and "U \<equiv> blk 14 (ustack cur)" and "D \<equiv> file_memory (last_closed (file_table s) (files cur))"
  assumes stack: "aligned 14 (ustack cur)" "U \<subseteq> R - F - P"
    and files: "files_owned (R - F - P - U) (file_table s) (files cur)"
    and sched: "sched_inv s q" "procs_apart R F s" "set (mm_segments (mm cur) # seg_nodes sl) \<inter> proc_nodes s = {}"
    and room: "size_order (of_nat (length d)) \<le> k" "12 \<le> k"
      "blocks_free k F (18 + segs_cost (kernel_segments img @ elf_segments phs))"
  shows "\<exists>s' b root F' tab pl kern f0 f1 f2 o0 o1 o2 Y. sys_exec img sst s name = Inr (0, s') \<and>
    pcbs s' = (pcbs s)(current s \<mapsto> b) \<and> current s' = current s \<and> satp s' = satp_of root \<and>
    b = cur\<lparr>mm := mm b, ustack := ustack b, process_cx := (process_cx cur)\<lparr>cx_satp := satp_of root\<rparr>,
      trap_cx := goto_app sst (trap_cx cur) (e_entry (file_mem d) 0) (USER_STACK + USER_STACK_SIZE) (kstack cur + KERNEL_STACK_SIZE),
      files := [f0, f1, f2] @ replicate (NR_OPEN - 3) 0\<rparr> \<and>
    distinct [f0, f1, f2] \<and> 0 \<notin> {f0, f1, f2} \<and>
    file_table s' = (released (files cur) (file_table s))(f0 \<mapsto> stdio o0, f1 \<mapsto> stdio o1, f2 \<mapsto> stdio o2) \<and>
    space R F' s' (mm b) root tab (pl @ kern) \<and>
    list_all2 (program_piece d (kmem s')) (rev (filter loadable phs)) pl \<and>
    map (\<lambda>(_, sg, ps). (sg, ps)) kern = map (\<lambda>sg. (sg, [])) (kernel_segments img) \<and>
    stack_mapped (kmem s') tab (ustack b) \<and>
    (\<forall>v. take_bit 27 v \<notin> take_bit 27 ` set (vpns_of (pl @ kern) @ stack_vpns) \<longrightarrow> leaf (kmem s') tab v = 0) \<and>
    Y = page_set (ran tab) \<union> page_set (set (frames_of (pl @ kern))) \<union> structs (mm b) (pl @ kern) \<and>
    Y \<inter> (blk 14 (ustack b) \<union> file_memory {f0, f1, f2}) = {} \<and> blk 14 (ustack b) \<inter> file_memory {f0, f1, f2} = {} \<and>
    Y \<union> blk 14 (ustack b) \<union> file_memory {f0, f1, f2} \<subseteq> F \<union> P \<union> U \<union> D \<and>
    F' = F \<union> P \<union> U \<union> D - (Y \<union> blk 14 (ustack b) \<union> file_memory {f0, f1, f2}) \<and>
    file_heap img R F' L nm (kheap s') \<and> same_files (fs_img_start img) (kmem s) (kmem s') L \<and>
    same_outside (F \<union> P \<union> U \<union> D) (kmem s) (kmem s') \<and>
    links_same_outside (F \<union> set (mm_segments (mm cur) # seg_nodes sl)) (klinks s) (klinks s') \<and>
    (\<forall>a. a \<notin> F \<longrightarrow> segs s' a = segs s a \<and> mms s' a = mms s a) \<and>
    s' = s\<lparr>kheap := kheap s', klinks := klinks s', segs := segs s', mms := mms s', satp := satp s', pcbs := pcbs s',
      file_table := file_table s'\<rparr> \<and> sched_inv s' q"
proof -
  let ?fs = "fs_img_start img" and ?j = "size_order (of_nat (length d))"
  note hd = file_heapD [OF fs] and pd = programD [OF prog, folded d_def] and od = spaceD [OF old]
  obtain inode buf B s6 mp root M F6 tab pl kern us where e: "sys_exec img sst s name = exec_finish sst s6 inode buf"
    and s6: "s6 = s\<lparr>kheap := kheap s6, klinks := klinks s6, segs := segs s6, mms := mms s6, satp := satp_of root,
        pcbs := (pcbs s)(current s \<mapsto> cur\<lparr>mm := mp, process_cx := (process_cx cur)\<lparr>cx_satp := satp_of root\<rparr>, ustack := us\<rparr>)\<rparr>"
    and sp6: "space M F6 s6 mp root tab (pl @ kern)" and M: "M \<subseteq> F - B \<union> P \<union> U" "F6 \<subseteq> F - B \<union> P \<union> U"
    and inv6: "buddy_inv R (kheap s6) F6" and room6: "pages_free F6 3"
    and pieces6: "list_all2 (program_piece d (kmem s6)) (rev (filter loadable phs)) pl"
    and kern: "map (\<lambda>(_, sg, ps). (sg, ps)) kern = map (\<lambda>sg. (sg, [])) (kernel_segments img)"
    and zero6: "\<forall>v. take_bit 27 v \<notin> take_bit 27 ` set (vpns_of (pl @ kern) @ stack_vpns) \<longrightarrow> leaf (kmem s6) tab v = 0"
    and stack6: "stack_mapped (kmem s6) tab us" "blk 14 us \<subseteq> F - B \<union> P \<union> U - F6"
    and mem6: "same_outside (F \<union> P \<union> U) (kmem s) (kmem s6)"
    and links6: "links_same_outside (F \<union> set (mm_segments (mm cur) # seg_nodes sl)) (klinks s) (klinks s6)"
    and buf: "buffer_holds (kmem s6) buf d" "bytes_at buf (length d) \<subseteq> B" "buf \<noteq> 0" "aligned ?j buf" "B = blk ?j buf" "B \<subseteq> F"
    and size: "\<forall>m. same_outside R (kmem s) m \<longrightarrow> ucast (load32 m (i_size inode)) = (of_nat (length d) :: u64)"
    and free6: "F6 = (F - B \<union> P \<union> U) - (page_set (ran tab) \<union> page_set (set (frames_of (pl @ kern))) \<union> structs mp (pl @ kern) \<union> blk 14 us)"
    and own6: "page_set (ran tab) \<union> page_set (set (frames_of (pl @ kern))) \<union> structs mp (pl @ kern) \<subseteq> M - F6" and us6: "M \<inter> blk 14 us = {}"
    and stores6: "\<forall>a. a \<notin> F \<longrightarrow> segs s6 a = segs s a \<and> mms s6 a = mms s a"
    by (rule exec_replaced [OF fs win name n d_def [THEN meta_eq_to_obj_eq] prog [folded d_def] cur(1) old stack(1) _ room,
          folded P_def U_def]) (rule stack(2))
  let ?b6 = "cur\<lparr>mm := mp, process_cx := (process_cx cur)\<lparr>cx_satp := satp_of root\<rparr>, ustack := us\<rparr>"
  have sel6: "pcbs s6 = (pcbs s)(current s \<mapsto> ?b6)" "current s6 = current s" "idle s6 = idle s" "file_table s6 = file_table s"
    "satp s6 = satp_of root" by (subst s6, simp)+
  have PR: "P \<subseteq> R - F" using od(1,11) by (auto simp: P_def pt_inv_def)
  have W: "F - B \<union> P \<union> U \<subseteq> R - B" using hd(7) PR stack(2) buf(6) by blast
  have B6: "B \<subseteq> R - F6" using M(2) W buf(6) hd(7) by blast
  have "R - F - P - U \<subseteq> R - F6 - B" using M(2) buf(6) by blast
  then have files6: "files_owned (R - F6 - B) (file_table s6) (files ?b6)" using files_owned_mono [OF files] by (simp add: sel6)
  have FR: "F \<union> P \<union> U \<subseteq> R" using hd(7) PR stack(2) by blast
  have size6: "\<forall>m. same_outside (R - B) (kmem s6) m \<longrightarrow> ucast (load32 m (i_size inode)) = (of_nat (length d) :: u64)"
    using size same_outside_trans [OF same_outside_mono [OF mem6 FR] same_outside_mono [OF _ Diff_subset]] by blast
  have pcb6: "pcbs s6 (current s6) = Some ?b6" "length (files ?b6) = NR_OPEN" using cur(2) by (simp_all add: sel6)
  have D6: "file_memory (last_closed (file_table s6) (files ?b6)) = D" by (simp add: sel6(4) D_def)
  obtain f0 f1 f2 o0 o1 o2 s' where x: "exec_finish sst s6 inode buf = Inr (0, s')"
    "s' = s6\<lparr>kheap := kheap s', pcbs := (pcbs s6)(current s6 \<mapsto> ?b6\<lparr>files := [f0, f1, f2] @ replicate (NR_OPEN - 3) 0,
        trap_cx := goto_app sst (trap_cx ?b6) (e_entry (file_mem d) 0) (USER_STACK + USER_STACK_SIZE) (kstack ?b6 + KERNEL_STACK_SIZE)\<rparr>),
        file_table := (released (files ?b6) (file_table s6))(f0 \<mapsto> stdio o0, f1 \<mapsto> stdio o1, f2 \<mapsto> stdio o2)\<rparr>"
    "0 \<notin> {f0, f1, f2}" "distinct [f0, f1, f2]" "file_memory {f0, f1, f2} \<subseteq> F6 \<union> D"
    "buddy_inv R (kheap s') (F6 \<union> D - file_memory {f0, f1, f2} \<union> B)" "same_outside (F6 \<union> D \<union> B) (kmem s6) (kmem s')"
    by (rule exec_finish_spec [OF inv6 win pcb6 room6 buf(1) pd(1) buf(2,3,5) refl buf(4) B6 files6 size6, unfolded D6])
  let ?b = "?b6\<lparr>files := [f0, f1, f2] @ replicate (NR_OPEN - 3) 0,
      trap_cx := goto_app sst (trap_cx cur) (e_entry (file_mem d) 0) (USER_STACK + USER_STACK_SIZE) (kstack cur + KERNEL_STACK_SIZE)\<rparr>"
  let ?F = "F6 \<union> D - file_memory {f0, f1, f2} \<union> B"
  have sel': "pcbs s' = (pcbs s)(current s \<mapsto> ?b)" "current s' = current s" "idle s' = idle s" "satp s' = satp_of root"
    "file_table s' = (released (files cur) (file_table s))(f0 \<mapsto> stdio o0, f1 \<mapsto> stdio o1, f2 \<mapsto> stdio o2)"
    "klinks s' = klinks s6" "segs s' = segs s6" "mms s' = mms s6"
    by (subst x(2), simp add: sel6)+
  have DR: "D \<subseteq> R - F - P - U" using files by (auto simp: D_def last_closed_def files_owned_def)
  have DB: "D \<inter> B = {}" "F6 \<inter> B = {}" using DR W M(2) buf(6) by blast+
  have own: "M - F6 \<subseteq> R" "(M - F6) \<inter> (F6 \<union> D \<union> B) = {}" using M(1) W DR by blast+
  have "(M - F6) \<inter> ?F = {}" using own(2) by blast
  note pe = program_elsewhere [OF sp6 x(6) win own(1) this own(2) x(7) sel'(6-8)]
  let ?Y = "page_set (ran tab) \<union> page_set (set (frames_of (pl @ kern))) \<union> structs mp (pl @ kern)"
  have "F6 \<union> D \<union> B \<subseteq> F \<union> P \<union> U \<union> D" using M(2) buf(6) by blast
  then have mem: "same_outside (F \<union> P \<union> U \<union> D) (kmem s) (kmem s')"
    using same_outside_trans [OF same_outside_mono [OF mem6] same_outside_mono [OF x(7)]] by blast
  have WD: "(F - B \<union> P \<union> U) \<inter> (B \<union> D) = {}" using W DR by blast
  note rest = memory_left [OF free6 own6 us6 M(1) stack6(2) WD x(5) DB(1) buf(6)]
  have eq: "s' = s\<lparr>kheap := kheap s', klinks := klinks s', segs := segs s', mms := mms s', satp := satp s', pcbs := pcbs s',
      file_table := file_table s'\<rparr>"
  proof -
    have g: "s6\<lparr>kheap := h, pcbs := p, file_table := t\<rparr> = s\<lparr>kheap := h, klinks := klinks s6, segs := segs s6, mms := mms s6,
        satp := satp_of root, pcbs := p, file_table := t\<rparr>" for h p t by (subst (1) s6) simp
    show ?thesis unfolding sel'(4,6-8) by (subst (1) x(2), unfold g, subst (2 3) x(2)) simp
  qed
  have "F \<union> P \<union> U \<union> D \<subseteq> R" using FR DR by blast
  then have "F \<union> P \<union> U \<union> D \<subseteq> - image_span ?fs" using hd(8) by blast
  note out = same_outside_mono [OF mem this]
  note fo = files_outside(1,2) [OF fs out x(6)]
  have sch: "sched_inv s' q"
    by (rule sched_kept [OF sched(1,2) cur(1) _ sel'(1-3) _ sched(3)]) (use links6 in \<open>simp_all add: sel'(6)\<close>)
  show ?thesis
  proof (intro exI conjI)
    show "sys_exec img sst s name = Inr (0, s')" using e x(1) by simp
    show "pcbs s' = (pcbs s)(current s \<mapsto> ?b)" by (rule sel'(1))
    show "space R ?F s' (mm ?b) root tab (pl @ kern)" using pe(1) by simp
    show "file_table s' = (released (files cur) (file_table s))(f0 \<mapsto> stdio o0, f1 \<mapsto> stdio o1, f2 \<mapsto> stdio o2)" by (rule sel'(5))
    show "?Y = page_set (ran tab) \<union> page_set (set (frames_of (pl @ kern))) \<union> structs (mm ?b) (pl @ kern)" by simp
    show "?Y \<inter> (blk 14 (ustack ?b) \<union> file_memory {f0, f1, f2}) = {}" "blk 14 (ustack ?b) \<inter> file_memory {f0, f1, f2} = {}"
      "?Y \<union> blk 14 (ustack ?b) \<union> file_memory {f0, f1, f2} \<subseteq> F \<union> P \<union> U \<union> D"
      "?F = F \<union> P \<union> U \<union> D - (?Y \<union> blk 14 (ustack ?b) \<union> file_memory {f0, f1, f2})" using rest by simp_all
    show "s' = s\<lparr>kheap := kheap s', klinks := klinks s', segs := segs s', mms := mms s', satp := satp s', pcbs := pcbs s',
      file_table := file_table s'\<rparr>" by (rule eq)
    show "links_same_outside (F \<union> set (mm_segments (mm cur) # seg_nodes sl)) (klinks s) (klinks s')" using links6 by (simp add: sel'(6))
    show "\<forall>a. a \<notin> F \<longrightarrow> segs s' a = segs s a \<and> mms s' a = mms s a" using stores6 by (simp add: sel'(7,8))
  qed (use sel'(2,4) x(3,4) pe(3) [OF pieces6] kern stack6(1) zero6 fo mem sch in \<open>simp_all add: pe(2) stack_mapped_def\<close>)
qed

end
