(* ===== verification/Exec_Properties.thy ===== *)
theory Exec_Properties
  imports Exec Elf_Properties Fork_Properties Mkfs_Readback
begin

text \<open>
  The property of \<^verbatim>\<open>sys_exec\<close>, from the name of the file to the registers and pages of the program, with
  an instance.
\<close>

text \<open>
  C2: \<^verbatim>\<open>sys_exec\<close> of the name of a program in the image returns 0, if enough memory is free. The process keeps its
  number, kernel stack and place among the processes. It has a well-formed address space of its own, which
  consists of the segments of the kernel and those of the program, each with its bytes of the file, and has
  a new user stack mapped at its place. It starts at the entry of the program on top of that stack, with
  three new files for the console; the files it had open are released, and closed if it was the last to hold
  them. What is free afterwards is given exactly: all that was free, the tables and frames of the old space,
  the old stack and the files closed, less the tables, frames and structs of the new space, the new stack and
  the new files; so the buffer for the file is given back too, and the structs of the old space are not, which
  \<^verbatim>\<open>dealloc_memory_map\<close> never frees. Nothing else in memory is written, no list but those of the old and
  new space changes, and every file of the image is as before.
\<close>

theorem exec_correct:
  assumes fs: "file_heap img R F L nm (kheap s)" and win: "in_window R"
    and name: "is_cstring (string_at (kmem s) name) (nm n)" and n: "L n = Some (ib, bl)"
    and prog: "program img (content (fs_img_start img) (kmem s) n bl) phs"
    and cur: "pcbs s (current s) = Some cur" "length (files cur) = NR_OPEN"
    and old: "space R F s (mm cur) sroot stab sl"
  defines "d \<equiv> content (fs_img_start img) (kmem s) n bl" and "P \<equiv> page_set (ran stab) \<union> page_set (set (frames_of sl))"
    and "U \<equiv> blk 14 (ustack cur)" and "D \<equiv> file_memory (last_closed (file_table s) (files cur))"
  assumes stack: "aligned 14 (ustack cur)" "U \<subseteq> R - F - P"
    and files: "files_owned (R - F - P - U) (file_table s) (files cur)"
    and sched: "sched_inv s q" "procs_apart R F s" "set (mm_segments (mm cur) # seg_nodes sl) \<inter> proc_nodes s = {}"
    and room: "size_order (of_nat (length d)) \<le> k" "12 \<le> k"
      "blocks_free k F (18 + segs_cost (kernel_segments img @ elf_segments phs))"
  shows "\<exists>s' b root F' tab pl kern f0 f1 f2 o0 o1 o2 Y. sys_exec img sst s name = Inr (0, s') \<and>
    pcbs s' = (pcbs s)(current s \<mapsto> b) \<and> current s' = current s \<and> satp s' = satp_of root \<and>
    b = cur\<lparr>mm := mm b, ustack := ustack b, process_cx := (process_cx cur)\<lparr>cx_satp := satp_of root\<rparr>,
      trap_cx := goto_app sst (trap_cx cur) (e_entry (file_mem d) 0) (USER_STACK + USER_STACK_SIZE) (kstack cur + KERNEL_STACK_SIZE),
      files := [f0, f1, f2] @ replicate (NR_OPEN - 3) 0\<rparr> \<and>
    distinct [f0, f1, f2] \<and> 0 \<notin> {f0, f1, f2} \<and>
    file_table s' = (released (files cur) (file_table s))(f0 \<mapsto> stdio o0, f1 \<mapsto> stdio o1, f2 \<mapsto> stdio o2) \<and>
    space R F' s' (mm b) root tab (pl @ kern) \<and>
    list_all2 (program_piece d (kmem s')) (rev (filter loadable phs)) pl \<and>
    map (\<lambda>(_, sg, ps). (sg, ps)) kern = map (\<lambda>sg. (sg, [])) (kernel_segments img) \<and>
    stack_mapped (kmem s') tab (ustack b) \<and>
    (\<forall>v. take_bit 27 v \<notin> take_bit 27 ` set (vpns_of (pl @ kern) @ stack_vpns) \<longrightarrow> leaf (kmem s') tab v = 0) \<and>
    Y = page_set (ran tab) \<union> page_set (set (frames_of (pl @ kern))) \<union> structs (mm b) (pl @ kern) \<and>
    Y \<inter> (blk 14 (ustack b) \<union> file_memory {f0, f1, f2}) = {} \<and> blk 14 (ustack b) \<inter> file_memory {f0, f1, f2} = {} \<and>
    Y \<union> blk 14 (ustack b) \<union> file_memory {f0, f1, f2} \<subseteq> F \<union> P \<union> U \<union> D \<and>
    F' = F \<union> P \<union> U \<union> D - (Y \<union> blk 14 (ustack b) \<union> file_memory {f0, f1, f2}) \<and>
    file_heap img R F' L nm (kheap s') \<and> same_files (fs_img_start img) (kmem s) (kmem s') L \<and>
    same_outside (F \<union> P \<union> U \<union> D) (kmem s) (kmem s') \<and>
    links_same_outside (F \<union> set (mm_segments (mm cur) # seg_nodes sl)) (klinks s) (klinks s') \<and>
    (\<forall>a. a \<notin> F \<longrightarrow> segs s' a = segs s a \<and> mms s' a = mms s a) \<and>
    s' = s\<lparr>kheap := kheap s', klinks := klinks s', segs := segs s', mms := mms s', satp := satp s', pcbs := pcbs s',
      file_table := file_table s'\<rparr> \<and> sched_inv s' q"
  unfolding d_def P_def U_def D_def
  by (rule sys_exec_spec [OF fs win name n prog cur old stack [unfolded U_def P_def] files [unfolded U_def P_def] sched
        room [unfolded d_def]])

section \<open>A process that runs another program\<close>

text \<open>
  The process of \<open>fork_kernel\<close>, an image with the file of \<open>elf_mem\<close> under the name \<^verbatim>\<open>p\<close>, and the name at 0x4000.
\<close>

definition exec_file :: dir_entry where
  "exec_file = \<lparr>d_name = [0x70], is_regular = True, file_data = map (\<lambda>i. elf_mem (0x1000 + of_nat i)) [0..<376]\<rparr>"

definition exec_memory :: "mem \<Rightarrow> mem \<Rightarrow> mem" where
  "exec_memory disk m =
     (\<lambda>x. if x \<in> image_span 0x100000 then disk x else if x = 0x4000 then 0x70 else if x = 0x4001 then 0 else m x)"

definition exec_kernel :: "mem \<Rightarrow> addr \<Rightarrow> vm \<Rightarrow> kernel" where
  "exec_kernel disk mp v =
     (fork_kernel mp v)\<lparr>kheap := (exec_memory disk (kmem (fork_kernel mp v)), snd (kheap (fork_kernel mp v)))\<rparr>"

lemma exec_file_program: "program elf_image (file_data exec_file) [prog_header_at elf_mem 0x1040]"
  "e_entry (file_mem (file_data exec_file)) 0 = 0x10000" "file_data exec_file ! 120 = 0x13"
proof -
  let ?d = "file_data exec_file" and ?ph = "prog_header_at elf_mem 0x1040"
  have len: "length ?d = 376" by (simp add: exec_file_def)
  have "?d ! i = elf_mem (0x1000 + of_nat i)" if "i < 376" for i using that by (simp add: exec_file_def)
  then have b: "buffer_holds elf_mem 0x1000 ?d" by (simp add: buffer_holds_def len)
  note bf = buffer_fields [OF b, unfolded len, simplified] and hd = buffer_headers [OF b, of 64 1, unfolded len, simplified]
  have f: "e_phoff (file_mem ?d) 0 = 64" "e_phnum (file_mem ?d) 0 = 1" "elf_magic (file_mem ?d) 0"
    using bf elf_fields(1-3) by simp_all
  have "distinct (map (take_bit 27) (all_vpns (kernel_segments elf_image @ elf_segments [?ph]) @ stack_vpns))"
    using elf_vpns(1,3) elf_fields(4) by (simp add: loadable_def ELF_PROG_LOAD_def stack_vpns_def take_bit_eq_mod)
  moreover have "[?ph] = headers (file_mem ?d) (e_phoff (file_mem ?d) 0) (unat (e_phnum (file_mem ?d) 0))"
    using hd by (simp add: f)
  moreover have "p_flags ?ph AND 7 \<noteq> 0 \<and> unat (p_offset ?ph) + unat (p_memsz ?ph) \<le> length ?d" by (simp add: elf_fields(4) len)
  ultimately show "program elf_image ?d [?ph]"
    unfolding program_def using f len by (intro conjI) auto
  show "e_entry (file_mem ?d) 0 = 0x10000"
    using bf by (simp add: e_entry_def elf_mem_def load_bytes_def upt_rec)
  show "?d ! 120 = 0x13" by (simp add: exec_file_def elf_mem_def)
qed

lemma exec_placed: "well_placed elf_image fork_region" "fs_img_start elf_image = 0x100000"
proof -
  have "x \<notin> image_span 0x100000" if "x \<in> fork_region" for x
  proof -
    have x: "unat fork_start \<le> unat x" using that by (simp add: word_le_nat_alt)
    then have "unat (x - 0x100000) = unat x - 0x100000" by (simp add: unat_sub_if' fork_start_def)
    then show ?thesis using x by (simp add: span_def fork_start_def)
  qed
  moreover have "0 \<notin> image_span 0x100000" "(0x10 :: addr) \<notin> image_span 0x100000" by (simp_all add: span_def)
  ultimately show "well_placed elf_image fork_region" "fs_img_start elf_image = 0x100000"
    by (auto simp: well_placed_def elf_image_def demo_image_def)
qed

lemma exec_same: "same_outside (- fork_region) (kmem (fork_kernel mp v)) (kmem (exec_kernel disk mp v))"
proof -
  have "x \<notin> image_span 0x100000 \<and> x \<noteq> 0x4000 \<and> x \<noteq> 0x4001" if "x \<in> fork_region" for x
    using exec_placed that by (auto simp: well_placed_def fork_start_def)
  then show ?thesis by (auto simp: same_outside_def exec_kernel_def exec_memory_def)
qed

lemma exec_files:
  obtains disk L n ib bl where "mkfs 0x100000 (\<lambda>_. 0) [exec_file] = Some disk" and "L n = Some (ib, bl)"
    and "\<And>mp v. file_heap elf_image fork_region fork_free L (\<lambda>_. [0x70]) (kheap (exec_kernel disk mp v))"
    and "\<And>mp v. content 0x100000 (kmem (exec_kernel disk mp v)) n bl = file_data exec_file"
proof -
  have reg: "regular_files [exec_file] = [exec_file]" by (simp add: regular_files_def exec_file_def dot_names_def)
  have "packable exec_file" "file_cost exec_file = 2" by (simp_all add: packable_def exec_file_def file_cost_def blocks_for_def)
  then obtain m L ns where m: "mkfs 0x100000 (\<lambda>_. 0) [exec_file] = Some m" "fs_ok 0x100000 m L" "holds 0x100000 m L [exec_file] ns"
    using mkfs_spec [of "[exec_file]" "0x100000" "\<lambda>_. 0"] by (auto simp: reg)
  have ns: "ns = [ns ! 0]" using m(3) by (cases ns) (auto simp: holds_def)
  obtain ib bl where l: "L (ns ! 0) = Some (ib, bl)" "content 0x100000 m (ns ! 0) bl = file_data exec_file"
    "file_name 0x100000 m (ns ! 0) [0x70]" using m(3) by (auto simp: holds_def exec_file_def)
  have d: "dom L = {ns ! 0}" using m(3) ns by (metis holds_def list.set)
  have same: "same_outside (span 0x100000 0 6 \<union> - image_span 0x100000) m (kmem (exec_kernel m mp v))" for mp v
    by (simp add: same_outside_def exec_kernel_def exec_memory_def)
  note o = fs_ok_superblock [OF m(2) same]
  have names: "\<forall>n \<in> dom L. file_name 0x100000 (kmem (exec_kernel m mp v)) n [0x70]" for mp v
    using o(5) [of mp v] l(1,3) d unfolding same_files_def by fastforce
  have "same_outside (- fork_free) (kmem (fork_kernel mp v)) (kmem (exec_kernel m mp v))" for mp v
    by (rule same_outside_mono [OF exec_same]) (use fork_regions(1) in blast)
  then have "buddy_inv fork_region (kheap (exec_kernel m mp v)) fork_free" for mp v
    using buddy_inv_same_free [of fork_region "kmem (fork_kernel mp v)" "snd (kheap (fork_kernel mp v))"] fork_heap(1) [of mp v]
    by (simp add: exec_kernel_def)
  then have "file_heap elf_image fork_region fork_free L (\<lambda>_. [0x70]) (kheap (exec_kernel m mp v))" for mp v
    using exec_placed o(1) [of mp v] names [of mp v] d by (simp add: file_heap_def)
  moreover have "content 0x100000 (kmem (exec_kernel m mp v)) (ns ! 0) bl = file_data exec_file" for mp v
    using o(5) [of mp v] l(1,2) unfolding same_files_def by fastforce
  ultimately show thesis by (rule that [OF m(1), of L "ns ! 0" ib bl, OF l(1)])
qed

theorem exec_correct_witness:
  "\<exists>disk mp v s' b root F' tab q pl kern. mkfs 0x100000 (\<lambda>_. 0) [exec_file] = Some disk \<and> demo_map Framed = Inr (mp, v) \<and>
     sys_exec elf_image 0 (exec_kernel disk mp v) 0x4000 = Inr (0, s') \<and> pcbs s' 0xffffffff87f00400 = Some b \<and>
     pid b = 1 \<and> sepc (trap_cx b) = 0x10000 \<and> x_regs (trap_cx b) ! 2 = USER_STACK + USER_STACK_SIZE \<and>
     space fork_region F' s' (mm b) root tab (pl @ kern) \<and> frames_of pl = [q] \<and> kmem s' (page_va q) = 0x13"
proof -
  obtain mp v F0 root tab sl where d: "demo_map Framed = Inr (mp, v)" "space room F0 v mp root tab sl"
    using demo_map_space [of Framed] by auto
  obtain disk L n ib bl where k: "mkfs 0x100000 (\<lambda>_. 0) [exec_file] = Some disk" "L n = Some (ib, bl)"
    "\<And>mp v. file_heap elf_image fork_region fork_free L (\<lambda>_. [0x70]) (kheap (exec_kernel disk mp v))"
    "\<And>mp v. content 0x100000 (kmem (exec_kernel disk mp v)) n bl = file_data exec_file"
    using exec_files by blast
  let ?fk = "fork_kernel mp v" and ?s = "exec_kernel disk mp v" and ?p = "0xffffffff87f00400 :: addr"
  let ?cur = "(demo_pcb 1 Running)\<lparr>mm := mp, ustack := 0xffffffff87f04000, files := 0xffffffff87f00800 # replicate 15 0\<rparr>"
  let ?ph = "prog_header_at elf_mem 0x1040"
  have sel: "pcbs ?s = pcbs ?fk" "current ?s = ?p" "klinks ?s = klinks ?fk" "segs ?s = segs ?fk" "mms ?s = mms ?fk" "idle ?s = idle ?fk"
    "file_table ?s = file_table ?fk" "current ?s = current ?fk" by (simp_all add: exec_kernel_def fork_kernel_def)
  have "pcbs ?fk ?p = Some ?cur" by (simp add: fork_kernel_def)
  then have cur: "pcbs ?s (current ?s) = Some ?cur" "length (files ?cur) = NR_OPEN" by (simp_all only: sel) (simp add: NR_OPEN_def)
  have name: "is_cstring (string_at (kmem ?s) 0x4000) [0x70]"
    by (simp add: is_cstring_def string_at_def exec_kernel_def exec_memory_def span_def)
  note sp0 = fork_kernel_space [OF d(2)] and hd = file_heapD [OF k(3) [of mp v]]
  have sp: "space fork_region fork_free ?s (mm ?cur) root tab sl"
  proof -
    have "space fork_region fork_free ?s mp root tab sl"
    proof (rule space_elsewhere [OF sp0(1) hd(2) fork_window _ _ exec_same])
      show "links_same_outside {} (klinks ?fk) (klinks ?s)" by (simp add: sel)
    qed (auto simp: sel)
    then show ?thesis by simp
  qed
  let ?P = "page_set (ran tab) \<union> page_set (set (frames_of sl))" and ?U = "blk 14 (ustack ?cur)"
  have low: "?U \<subseteq> {fork_start..<free_start}" "blk 5 0xffffffff87f00800 \<subseteq> {fork_start..<free_start}"
    by (intro block_interval; simp add: aligned_nat_dvd fork_start_def free_start_def)+
  have "{fork_start..<free_start} \<inter> room = {}" by (auto simp: free_start_def room_start_def)
  moreover have "?P \<subseteq> room" using spaceD(1,11) [OF d(2)] unfolding pt_inv_def by blast
  ultimately have room: "?P \<inter> {fork_start..<free_start} = {}" by blast
  have al: "aligned 14 (ustack ?cur)" by (simp add: aligned_nat_dvd)
  have U: "?U \<subseteq> fork_region - fork_free - ?P" using low(1) fork_below room by blast
  have "blk 5 0xffffffff87f00800 \<subseteq> {fork_start..<ustack ?cur}" "?U \<subseteq> {ustack ?cur..<free_start}"
    by (intro block_interval; simp add: aligned_nat_dvd fork_start_def free_start_def)+
  then have apart: "blk 5 0xffffffff87f00800 \<inter> ?U = {}" by fastforce
  have files: "files_owned (fork_region - fork_free - ?P - ?U) (file_table ?s) (files ?cur)"
  proof -
    have "blk 5 0xffffffff87f00800 \<subseteq> fork_region - fork_free - ?P - ?U" using low(2) fork_below room apart by blast
    then show ?thesis unfolding files_owned_def by (simp add: sel) (simp add: fork_kernel_def aligned_nat_dvd)
  qed
  have prog: "program elf_image (content (fs_img_start elf_image) (kmem ?s) n bl) [?ph]"
    using exec_file_program(1) k(4) by (simp add: exec_placed(2))
  have sched: "sched_inv ?s []" "procs_apart fork_region fork_free ?s" "set (mm_segments (mm ?cur) # seg_nodes sl) \<inter> proc_nodes ?s = {}"
    using fork_kernel_ready(1,3) [of mp v] sp0(2)
    by (simp_all add: sched_inv_def run_queue_def has_state_def procs_apart_def proc_nodes_def sel(1,3,6,8))
  have load: "loadable ?ph" and fields: "p_offset ?ph = 120" "p_memsz ?ph = 256"
    by (simp_all add: elf_fields loadable_def ELF_PROG_LOAD_def)
  have cost: "segs_cost (kernel_segments elf_image @ elf_segments [?ph]) = 12"
    using elf_vpns(2,3) load by (simp add: segs_cost_append)
  have rm: "size_order (of_nat (length (content (fs_img_start elf_image) (kmem ?s) n bl))) \<le> 14" "(12 :: nat) \<le> 14"
    "blocks_free 14 fork_free (18 + segs_cost (kernel_segments elf_image @ elf_segments [?ph]))"
    using blocks_free_less [OF fork_blocks_free, of 30] size_order_req [of 376] req_order_eq [of 9 376]
    unfolding cost by (simp_all add: k(4) exec_placed(2) exec_file_def)
  have img: "content (fs_img_start elf_image) (kmem ?s) n bl = file_data exec_file" by (simp add: exec_placed(2) k(4))
  obtain s' b root' F' tab' pl kern fs where e: "sys_exec elf_image 0 ?s 0x4000 = Inr (0, s')"
    "pcbs s' = (pcbs ?s)(current ?s \<mapsto> b)" "b = ?cur\<lparr>mm := mm b, ustack := ustack b,
      process_cx := (process_cx ?cur)\<lparr>cx_satp := satp_of root'\<rparr>,
      trap_cx := goto_app 0 (trap_cx ?cur) 0x10000 (USER_STACK + USER_STACK_SIZE) (kstack ?cur + KERNEL_STACK_SIZE), files := fs\<rparr>"
    "space fork_region F' s' (mm b) root' tab' (pl @ kern)"
    "list_all2 (program_piece (file_data exec_file) (kmem s')) (rev (filter loadable [?ph])) pl"
    using exec_correct [OF k(3) fork_window name k(2) prog cur sp al U files sched rm, of 0, unfolded img exec_file_program(2)]
    by (elim exE conjE) (rule that; assumption)
  obtain a ps where pl: "pl = [(a, elf_segment ?ph, ps)]"
    and hold: "pages_hold (kmem s') ps (\<lambda>k. if k < 256 then file_data exec_file ! (120 + k) else 0)"
    using e(5) load by (auto simp: list_all2_Cons1 program_piece_def fields cong: if_cong)
  have "maps_segment (kmem s') tab' (elf_segment ?ph) ps"
    by (rule conjunct1 [OF conjunct2 [OF spaceD(5) [OF e(4), of a]]]) (simp add: pl)
  then have "length ps = 1" using elf_vpns(3) by (auto simp: maps_segment_def elf_segment_def elf_fields dest!: list_all2_lengthD)
  then obtain q where ps: "ps = [q]" by (auto simp: length_Suc_conv)
  have "kmem s' (page_va q) = 0x13"
    using hold self_in_blk [of "page_va q" 12] exec_file_program(3) by (auto simp: pages_hold_def ps)
  moreover have "pid b = 1" "sepc (trap_cx b) = 0x10000" "x_regs (trap_cx b) ! 2 = USER_STACK + USER_STACK_SIZE"
    by (subst e(3), simp add: goto_app_def Let_def demo_pcb_def)+
  moreover have "pcbs s' ?p = Some b" using e(2) sel(2) by simp
  moreover have "frames_of pl = [q]" by (simp add: pl ps)
  ultimately show ?thesis using k(1) d(1) e(1,4) by blast
qed

end
