(* ===== verification/Wait.thy ===== *)
theory Wait
  imports Exec
begin

text \<open>
  The end of a process in \<^verbatim>\<open>sys_wait\<close> of \<^verbatim>\<open>kernel/process.c\<close>: what a child that has exited still holds, and how
  it is given back.
\<close>

section \<open>An address space and other free memory\<close>

abbreviation space_memory :: "addr \<Rightarrow> tree \<Rightarrow> piece list \<Rightarrow> addr set" where
  "space_memory mp tab sl \<equiv> page_set (ran tab) \<union> page_set (set (frames_of sl)) \<union> structs mp sl"

lemma space_memory_owned: "space R F s mp root tab sl \<Longrightarrow> space_memory mp tab sl \<subseteq> R - F"
proof -
  assume sp: "space R F s mp root tab sl"
  note d = spaceD [OF sp]
  have "blk 6 (fst x) \<subseteq> R - F" if "x \<in> set sl" for x using d(5) [of "fst x"] that by (cases x) auto
  then have "structs mp sl \<subseteq> R - F" using d(7) unfolding structs_def by blast
  then show ?thesis using d(1,11) unfolding pt_inv_def by blast
qed

lemma space_within:
  assumes sp: "space R F s mp root tab sl" and R: "R' \<subseteq> R" "F \<subseteq> R'" "space_memory mp tab sl \<subseteq> R'"
  shows "space R' F s mp root tab sl"
proof -
  note d = spaceD [OF sp] and own = space_memory_owned [OF sp]
  have "pt_inv R' (kheap s) F tab"
    using d(1) buddy_within [of R "kheap s" F R'] window_within [OF _ R(1)] R own unfolding pt_inv_def by blast
  moreover have "blk 5 mp \<subseteq> R' - F" using R(3) own unfolding structs_def by blast
  moreover have "\<forall>(a, sg, ps) \<in> set sl. segs s a = Some sg \<and> maps_segment (fst (kheap s)) tab sg ps \<and> aligned 6 a \<and> blk 6 a \<subseteq> R' - F"
  proof (rule ballI, rule case_prodI2, rule case_prodI2)
    fix x a y sg ps assume "x \<in> set sl" "x = (a, y)" "y = (sg, ps)"
    then have x: "(a, sg, ps) \<in> set sl" by simp
    have "blk 6 a \<subseteq> structs mp sl" using x unfolding structs_def by force
    then show "segs s a = Some sg \<and> maps_segment (fst (kheap s)) tab sg ps \<and> aligned 6 a \<and> blk 6 a \<subseteq> R' - F"
      using d(5) [OF x] R(3) by blast
  qed
  moreover have "page_set (set (frames_of sl)) \<subseteq> R' - F - page_set (ran tab)" using d(11) R(3) by blast
  ultimately show ?thesis using d(2-4,6,8-10,12) unfolding space_def by blast
qed

lemma space_grown:
  assumes sp: "space R F s mp root tab sl" and inv: "buddy_inv R (kheap s') F'" and own: "space_memory mp tab sl \<inter> F' = {}"
    and same: "same_outside F' (kmem s) (kmem s')" and stores: "klinks s' = klinks s" "segs s' = segs s" "mms s' = mms s"
  shows "space R F' s' mp root tab sl"
proof -
  let ?O = "space_memory mp tab sl"
  note o = space_memory_owned [OF sp]
  have FR: "F \<subseteq> R" and win: "in_window R" using spaceD(1) [OF sp] buddy.inv_region unfolding pt_inv_def by blast+
  have "space (F \<union> ?O) F s mp root tab sl" by (rule space_within [OF sp]) (use FR o in blast)+
  then show ?thesis
  proof (rule space_elsewhere [OF _ inv win _ _ same])
    show "links_same_outside {} (klinks s) (klinks s')" by (simp add: stores)
    show "F \<union> ?O - F \<subseteq> R" "(F \<union> ?O - F) \<inter> F' = {}" "(F \<union> ?O - F) \<inter> F' = {}" using o own by blast+
  qed (simp_all add: stores)
qed

section \<open>What a process holds\<close>

text \<open>
  The struct of the process \<open>c\<close>, its stacks, address space and files, each in a part of the memory of its own,
  and none of it free.
\<close>

definition holds_all :: "addr set \<Rightarrow> addr set \<Rightarrow> kernel \<Rightarrow> addr \<Rightarrow> pcb \<Rightarrow> usize \<Rightarrow> tree \<Rightarrow> piece list \<Rightarrow> bool" where
  "holds_all R F s c b root tab sl \<longleftrightarrow> pcbs s c = Some b \<and> length (files b) = NR_OPEN \<and>
     space R F s (mm b) root tab sl \<and> set (mm_segments (mm b) # seg_nodes sl) \<inter> proc_nodes s = {} \<and>
     aligned 14 (ustack b) \<and> blk 14 (ustack b) \<subseteq> R - F - space_memory (mm b) tab sl \<and>
     aligned 13 (kstack b) \<and> blk 13 (kstack b) \<subseteq> R - F - space_memory (mm b) tab sl - blk 14 (ustack b) \<and>
     aligned 10 c \<and> blk 10 c \<subseteq> R - F - space_memory (mm b) tab sl - blk 14 (ustack b) - blk 13 (kstack b) \<and>
     files_owned (R - F - space_memory (mm b) tab sl - blk 14 (ustack b) - blk 13 (kstack b) - blk 10 c) (file_table s) (files b)"

text \<open>What is given back: everything but the structs of the address space.\<close>

definition reaped_memory :: "kernel \<Rightarrow> addr \<Rightarrow> pcb \<Rightarrow> tree \<Rightarrow> piece list \<Rightarrow> addr set" where
  "reaped_memory s c b tab sl = page_set (ran tab) \<union> page_set (set (frames_of sl)) \<union> blk 14 (ustack b) \<union> blk 13 (kstack b) \<union>
     blk 10 c \<union> file_memory (last_closed (file_table s) (files b))"

lemma holds_allD:
  assumes "holds_all R F s c b root tab sl"
  shows "pcbs s c = Some b" and "length (files b) = NR_OPEN" and "space R F s (mm b) root tab sl"
    and "set (mm_segments (mm b) # seg_nodes sl) \<inter> proc_nodes s = {}" and "aligned 14 (ustack b)" and "aligned 13 (kstack b)"
    and "aligned 10 c" and "blk 14 (ustack b) \<subseteq> R - F - space_memory (mm b) tab sl"
    and "blk 13 (kstack b) \<subseteq> R - F - space_memory (mm b) tab sl - blk 14 (ustack b)"
    and "blk 10 c \<subseteq> R - F - space_memory (mm b) tab sl - blk 14 (ustack b) - blk 13 (kstack b)"
    and "files_owned (R - F - space_memory (mm b) tab sl - blk 14 (ustack b) - blk 13 (kstack b) - blk 10 c) (file_table s) (files b)"
  using assms unfolding holds_all_def by blast+

lemma closed_within: "files_owned S t fs \<Longrightarrow> file_memory (last_closed t fs) \<subseteq> S"
  by (auto simp: files_owned_def last_closed_def)

section \<open>Process numbers\<close>

lemma dealloc_pid_spec:
  assumes "length ps = 32" and n: "0 \<le> n" "n < int MAX_PID"
  obtains ps' where "dealloc_pid ps n = Inr ps'" and "length ps' = 32"
    and "\<forall>k < MAX_PID. pid_used ps' k \<longleftrightarrow> pid_used ps k \<and> int k \<noteq> n"
proof -
  let ?i = "nat n div 32" and ?o = "nat n mod 32"
  let ?ps = "ps[?i := ps ! ?i AND NOT (push_bit ?o 1)]"
  have i: "?i < 32" using n by (simp add: MAX_PID_def)
  have "pid_used ?ps k \<longleftrightarrow> pid_used ps k \<and> int k \<noteq> n" if k: "k < MAX_PID" for k
  proof (cases "k div 32 = ?i")
    case True
    have "k mod 32 = ?o \<longleftrightarrow> int k = n"
    proof
      assume "k mod 32 = ?o"
      then have "k = nat n" using True by (metis mult_div_mod_eq)
      then show "int k = n" using n(1) by simp
    qed auto
    then show ?thesis using True i assms(1) by (auto simp: pid_used_def bit_and_iff bit_not_iff bit_pow2)
  next
    case False
    then have "int k \<noteq> n" by auto
    with False show ?thesis by (simp add: pid_used_def)
  qed
  then show thesis using that [of ?ps] assms n i by (simp add: dealloc_pid_def Let_def)
qed

section \<open>A child is given back\<close>

lemma kdealloc_block:
  assumes inv: "buddy_inv R (kheap s) G" and win: "in_window R" and a: "size_order sz = k" "aligned k a" "blk k a \<subseteq> R - G"
  obtains h where "kdealloc s a sz = Inr (s\<lparr>kheap := h\<rparr>)" and "buddy_inv R h (G \<union> blk k a)"
    and "same_outside (G \<union> blk k a) (kmem s) (fst h)"
proof -
  have "a \<in> R" using a(3) self_in_blk by blast
  then have "a \<noteq> 0" using win by (auto simp: in_window_def)
  then obtain s' where s': "kdealloc s a sz = Inr s'" "buddy_inv R (kheap s') (G \<union> blk k a)" "heap_step (G \<union> blk k a) s s'"
    by (rule kdealloc_spec [OF inv a(1,2) _ a(3)])
  moreover have "s' = s\<lparr>kheap := kheap s'\<rparr>" using s'(1) by (auto simp: kdealloc_def bindE_Inr_iff)
  ultimately show thesis using that [of "kheap s'"] by (simp add: heap_step_def)
qed

lemma reap_invalid:
  assumes "pcbs s c = Some b" and "\<not> (0 \<le> pid b \<and> pid b < int MAX_PID)"
  shows "\<exists>msg. reap s c = Inl (Panic msg)"
proof -
  have "dealloc_pid (pids s) (pid b) = panic (Some (''Invalid PID: %d'' @ [CHR 0x0A])) [IntArg (word_of_int (pid b))]"
    unfolding dealloc_pid_def by (rule if_not_P) (rule assms(2))
  moreover have "\<exists>msg. (panic (Some (''Invalid PID: %d'' @ [CHR 0x0A])) [IntArg n] :: u32 list outcome) = Inl (Panic msg)" for n
    by (simp add: panic_def)
  ultimately obtain msg where "dealloc_pid (pids s) (pid b) = Inl (Panic msg)" by metis
  then have "reap s c = Inl (Panic msg)" using assms(1) by (simp add: reap_def Let_def get_pcb_Some)
  then show ?thesis by blast
qed

lemma reap_spec:
  assumes h: "holds_all R F s c b root tab sl" and n: "0 \<le> pid b" "pid b < int MAX_PID" and len: "length (pids s) = 32"
    and kids: "clist (klinks s) (children_head p) (map sibling_node (xs @ c # ys))" "insert p (set (xs @ c # ys)) \<subseteq> dom (pcbs s)"
  defines "F' \<equiv> F \<union> reaped_memory s c b tab sl"
  obtains s' where "reap s c = Inr (pid b, s')" and "pcbs s' = (pcbs s)(c := None)"
    and "file_table s' = released (files b) (file_table s)" and "length (pids s') = 32"
    and "\<forall>k < MAX_PID. pid_used (pids s') k \<longleftrightarrow> pid_used (pids s) k \<and> int k \<noteq> pid b"
    and "buddy_inv R (kheap s') F'" and "same_outside F' (kmem s) (kmem s')"
    and "clist (klinks s') (children_head p) (map sibling_node (xs @ ys))"
    and "links_same_outside ({children_head p} \<union> sibling_node ` set (xs @ c # ys) \<union> set (mm_segments (mm b) # seg_nodes sl)) (klinks s) (klinks s')"
    and "s' = s\<lparr>kheap := kheap s', klinks := klinks s', pcbs := pcbs s', file_table := file_table s', pids := pids s'\<rparr>"
proof -
  note d = holds_allD [OF h]
  let ?O = "space_memory (mm b) tab sl" and ?U = "blk 14 (ustack b)" and ?K = "blk 13 (kstack b)" and ?C = "blk 10 c"
  let ?N = "set (children_head p # map sibling_node (xs @ c # ys))" and ?S = "set (mm_segments (mm b) # seg_nodes sl)"
  define D where "D = file_memory (last_closed (file_table s) (files b))"
  have win: "in_window R" and inv: "buddy_inv R (kheap s) F" using spaceD(1) [OF d(3)] by (simp_all add: pt_inv_def)
  have O: "?O \<subseteq> R - F" by (rule space_memory_owned [OF d(3)])
  have D: "D \<subseteq> R - F - ?O - ?U - ?K - ?C" using closed_within [OF d(11)] by (simp add: D_def)
  have kids': "clist (klinks s) (children_head p) (map sibling_node xs @ sibling_node c # map sibling_node ys)" using kids(1) by simp
  note del = clist_del [OF kids']
  have N: "?N \<subseteq> proc_nodes s" using kids(2) proc_nodesI [of s] by fastforce
  then have apart: "?S \<inter> ?N = {}" using d(4) by blast
  define s1 where "s1 = s\<lparr>klinks := list_del (klinks s) (sibling_node c)\<rparr>"
  have sel1: "kheap s1 = kheap s" "pcbs s1 = pcbs s" "file_table s1 = file_table s" "pids s1 = pids s" by (simp_all add: s1_def)
  have links1: "links_same_outside ?N (klinks s) (klinks s1)" using del(3) by (simp add: s1_def)
  have sp1: "space R F s1 (mm b) root tab sl"
  proof (rule space_frame [OF d(3) _ subset_refl _ _ links1 apart])
    show "same_outside {} (kmem s) (kmem s1)" by (simp add: s1_def)
  qed (use inv in \<open>simp_all add: s1_def split_beta\<close>)
  obtain ps where ps: "dealloc_pid (pids s) (pid b) = Inr ps" "length ps = 32"
    "\<forall>k < MAX_PID. pid_used ps k \<longleftrightarrow> pid_used (pids s) k \<and> int k \<noteq> pid b" by (rule dealloc_pid_spec [OF len n])
  let ?s2 = "s1\<lparr>pids := ps\<rparr>"
  have "files_owned (R - F) (file_table s) (files b)" by (rule files_owned_mono [OF d(11)]) blast
  then have own2: "files_owned (R - F) (file_table ?s2) (files b)" by (simp add: sel1)
  have inv2: "buddy_inv R (kheap ?s2) F" "pcbs ?s2 c = Some b" using inv d(1) by (simp_all add: sel1)
  obtain h3 where f: "dealloc_files ?s2 c = Inr (?s2\<lparr>kheap := h3, pcbs := (pcbs s)(c \<mapsto> b\<lparr>files := replicate NR_OPEN 0\<rparr>),
      file_table := released (files b) (file_table s)\<rparr>)" (is "_ = Inr ?s3")
    "buddy_inv R h3 (F \<union> D)" "same_outside (F \<union> D) (kmem s) (fst h3)"
    using dealloc_files_spec [OF inv2(1) win inv2(2) d(2) own2] by (auto simp: sel1 D_def)
  have U3: "?U \<subseteq> R - (F \<union> D)" and inv3: "buddy_inv R (kheap ?s3) (F \<union> D)" using d(8) D f(2) by auto
  obtain h4 where u: "kdealloc ?s3 (ustack b) USER_STACK_SIZE = Inr (?s3\<lparr>kheap := h4\<rparr>)" "buddy_inv R h4 (F \<union> D \<union> ?U)"
    "same_outside (F \<union> D \<union> ?U) (kmem ?s3) (fst h4)" by (rule kdealloc_block [OF inv3 win stack_orders(3) d(5) U3])
  let ?s4 = "?s3\<lparr>kheap := h4\<rparr>"
  have K4: "?K \<subseteq> R - (F \<union> D \<union> ?U)" and inv4: "buddy_inv R (kheap ?s4) (F \<union> D \<union> ?U)" using d(9) D u(2) by auto
  obtain h5 where k: "kdealloc ?s4 (kstack b) KERNEL_STACK_SIZE = Inr (?s4\<lparr>kheap := h5\<rparr>)" "buddy_inv R h5 (F \<union> D \<union> ?U \<union> ?K)"
    "same_outside (F \<union> D \<union> ?U \<union> ?K) (kmem ?s4) (fst h5)" by (rule kdealloc_block [OF inv4 win stack_orders(2) d(6) K4])
  let ?s5 = "?s4\<lparr>kheap := h5\<rparr>" and ?G = "F \<union> D \<union> ?U \<union> ?K"
  have mem5: "same_outside ?G (kmem s) (fst h5)"
    using f(3) u(3) k(3) by (simp add: same_outside_def)
  have sp5: "space R ?G ?s5 (mm b) root tab sl"
  proof (rule space_grown [OF sp1])
    show "?O \<inter> ?G = {}" using O D d(8,9) by blast
  qed (use k(2) mem5 in \<open>simp_all add: sel1\<close>)
  have P: "?G \<union> page_set (set (frames_of sl)) \<union> page_set (ran tab) = ?G \<union> (page_set (ran tab) \<union> page_set (set (frames_of sl)))" by blast
  obtain h6 l where m: "dealloc_memory_map ?s5 (mm b) = Inr (?s5\<lparr>kheap := h6, klinks := l\<rparr>)"
    "buddy_inv R h6 (?G \<union> (page_set (ran tab) \<union> page_set (set (frames_of sl))))"
    "same_outside (?G \<union> (page_set (ran tab) \<union> page_set (set (frames_of sl)))) (fst h5) (fst h6)"
    "links_same_outside ?S (klinks s1) l"
    by (rule dealloc_memory_map_spec [OF sp5]) (simp add: P s1_def)
  let ?s6 = "?s5\<lparr>kheap := h6, klinks := l\<rparr>" and ?H = "?G \<union> (page_set (ran tab) \<union> page_set (set (frames_of sl)))"
  have C6: "?C \<subseteq> R - ?H" and inv6: "buddy_inv R (kheap ?s6) ?H" using d(10) D m(2) by auto
  obtain h7 where e: "kdealloc ?s6 c sizeof_pcb = Inr (?s6\<lparr>kheap := h7\<rparr>)" "buddy_inv R h7 (?H \<union> ?C)"
    "same_outside (?H \<union> ?C) (kmem ?s6) (fst h7)" by (rule kdealloc_block [OF inv6 win stack_orders(1) d(7) C6])
  let ?s' = "s\<lparr>kheap := h7, klinks := l, pcbs := (pcbs s)(c := None), file_table := released (files b) (file_table s), pids := ps\<rparr>"
  have HC: "?H \<union> ?C = F'" by (auto simp: F'_def reaped_memory_def D_def)
  have run: "reap s c = Inr (pid b, ?s')"
    using f(1) u(1) k(1) m(1) e(1) d(1) ps(1) by (simp add: reap_def Let_def get_pcb_Some s1_def)
  have mem: "same_outside F' (kmem s) (fst h7)" using mem5 m(3) e(3) unfolding HC [symmetric] by (simp add: same_outside_def)
  have links: "links_same_outside (?N \<union> ?S) (klinks s) l"
    by (rule links_same_trans [OF links_same_mono [OF links1] links_same_mono [OF m(4)]]) blast+
  have "set (children_head p # map sibling_node xs @ map sibling_node ys) \<inter> ?S = {}" using apart by auto
  then have "clist l (children_head p) (map sibling_node xs @ map sibling_node ys)"
    using clist_frame [OF m(4)] del(1) by (simp add: s1_def)
  then have "clist (klinks ?s') (children_head p) (map sibling_node (xs @ ys))" by simp
  moreover have "{children_head p} \<union> sibling_node ` set (xs @ c # ys) \<union> ?S = ?N \<union> ?S" by auto
  ultimately show thesis using that [OF run] ps(2,3) e(2) mem links unfolding HC by simp
qed

text \<open>The queue does not notice: a process that has exited is not in it.\<close>

lemma reaped_sched:
  assumes sched: "sched_inv s q" and procs: "procs_apart R F s" and c: "has_state s c Exited"
    and kids: "insert p (set cs) \<subseteq> dom (pcbs s)" and S: "S \<inter> proc_nodes s = {}"
    and links: "links_same_outside ({children_head p} \<union> sibling_node ` set cs \<union> S) (klinks s) (klinks t)"
    and t: "pcbs t = (pcbs s)(c := None)" "current t = current s" "idle t = idle s"
  shows "sched_inv t q"
proof -
  note i = sched_invD [OF sched]
  have st: "has_state t x st \<longleftrightarrow> has_state s x st \<and> x \<noteq> c" for x st by (simp add: has_state_def t(1))
  have live: "pcbs s x \<noteq> None" if "x \<in> insert (idle s) (set q)" for x
    using that i(2) [of x] i(4,5) by (cases "current s = idle s") (auto simp: has_state_def)
  have al: "aligned 10 x" if "pcbs s x \<noteq> None" for x using procs that by (auto simp: procs_apart_def)
  define X where "X = {children_head p} \<union> sibling_node ` set cs \<union> S"
  have "run_node x \<notin> X" if x: "x \<in> insert (idle s) (set q)" for x
  proof -
    have "run_node x \<in> proc_nodes s" using live [OF x] by (auto simp: proc_nodes_def)
    moreover have "run_node x \<noteq> children_head p" using nodes_differ(1) [OF al [OF live [OF x]] al] kids by blast
    moreover have "run_node x \<noteq> sibling_node z" if "z \<in> set cs" for z
      using nodes_differ(2) [OF al [OF live [OF x]] al] kids that by blast
    ultimately show ?thesis using S unfolding X_def by blast
  qed
  then have "set (run_node (idle s) # map run_node q) \<inter> X = {}" by auto
  then have "run_queue t q" using clist_frame [OF links [folded X_def]] i(1) by (simp add: run_queue_def t(3))
  moreover have "\<not> has_state s c Running" "\<not> has_state s c Ready" using c by (auto simp: has_state_def)
  ultimately show ?thesis using sched t(2,3) unfolding sched_inv_def st by metis
qed

section \<open>The call\<close>

lemma sys_wait_round_split:
  assumes "clist (klinks s) (children_head (current s)) (map sibling_node cs)"
    and "\<forall>c \<in> set cs. pcbs s c \<noteq> None"
  shows "sys_wait_round s flag =
    (case find (\<lambda>c. has_state s c Exited) cs of
       Some c \<Rightarrow> bindE (reap s c) (\<lambda>(n, s). Inr (Returned n s))
     | None \<Rightarrow> if flag \<or> cs \<noteq> [] then bindE (yield_current s) (\<lambda>s. Inr (Switched In_wait s))
               else Inr (Returned (-1) s))"
proof -
  have "children_head (current s) \<notin> sibling_node ` set cs" using assms(1) by (auto simp: clist_def)
  moreover have "dseg (klinks s) (children_head (current s)) (map sibling_node cs) (children_head (current s))"
    using assms(1) by (simp add: clist_def)
  ultimately show ?thesis
    using wait_scan_spec [OF _ _ assms(2), of "children_head (current s)" "children_head (current s)" flag]
    by (auto simp: sys_wait_round_def Let_def split: option.splits)
qed

lemmas sys_wait_split = sys_wait_round_split [where flag = False, folded sys_wait_def]

text \<open>The state after a child is given back.\<close>

definition gave_back :: "addr set \<Rightarrow> addr set \<Rightarrow> kernel \<Rightarrow> addr list \<Rightarrow> addr \<Rightarrow> pcb \<Rightarrow> tree \<Rightarrow> piece list \<Rightarrow> kernel \<Rightarrow> bool" where
  "gave_back R F s cs c b tab sl s' \<longleftrightarrow> pcbs s' = (pcbs s)(c := None) \<and>
     file_table s' = released (files b) (file_table s) \<and>
     (\<forall>k < MAX_PID. pid_used (pids s') k \<longleftrightarrow> pid_used (pids s) k \<and> int k \<noteq> pid b) \<and>
     buddy_inv R (kheap s') (F \<union> reaped_memory s c b tab sl) \<and>
     same_outside (F \<union> reaped_memory s c b tab sl) (kmem s) (kmem s') \<and>
     clist (klinks s') (children_head (current s)) (map sibling_node (remove1 c cs)) \<and>
     links_same_outside ({children_head (current s)} \<union> sibling_node ` set cs \<union> set (mm_segments (mm b) # seg_nodes sl))
       (klinks s) (klinks s') \<and>
     s' = s\<lparr>kheap := kheap s', klinks := klinks s', pcbs := pcbs s', file_table := file_table s', pids := pids s'\<rparr>"

lemma reaped:
  assumes kids: "clist (klinks s) (children_head (current s)) (map sibling_node cs)" "insert (current s) (set cs) \<subseteq> dom (pcbs s)"
    and sched: "sched_inv s q" and procs: "procs_apart R F s" "length (pids s) = 32"
    and c: "find (\<lambda>c. has_state s c Exited) cs = Some c" and h: "holds_all R F s c b root tab sl"
    and n: "0 \<le> pid b" "pid b < int MAX_PID"
  obtains s' where "reap s c = Inr (pid b, s')" and "gave_back R F s cs c b tab sl s'" and "sched_inv s' q"
proof -
  have c': "c \<in> set cs" "has_state s c Exited" using c by (auto simp: find_Some_iff)
  obtain xs ys where cs: "cs = xs @ c # ys" "c \<notin> set xs" using split_list_first [OF c'(1)] by blast
  then have r: "remove1 c cs = xs @ ys" by (simp add: remove1_append)
  obtain s' where s': "reap s c = Inr (pid b, s')" "pcbs s' = (pcbs s)(c := None)"
    "file_table s' = released (files b) (file_table s)" "length (pids s') = 32"
    "\<forall>k < MAX_PID. pid_used (pids s') k \<longleftrightarrow> pid_used (pids s) k \<and> int k \<noteq> pid b"
    "buddy_inv R (kheap s') (F \<union> reaped_memory s c b tab sl)" "same_outside (F \<union> reaped_memory s c b tab sl) (kmem s) (kmem s')"
    "clist (klinks s') (children_head (current s)) (map sibling_node (remove1 c cs))"
    "links_same_outside ({children_head (current s)} \<union> sibling_node ` set cs \<union> set (mm_segments (mm b) # seg_nodes sl)) (klinks s) (klinks s')"
    "s' = s\<lparr>kheap := kheap s', klinks := klinks s', pcbs := pcbs s', file_table := file_table s', pids := pids s'\<rparr>"
    by (rule reap_spec [OF h n procs(2) kids [unfolded cs(1)], folded cs(1) r])
  have "current s' = current s" "idle s' = idle s" by (subst s'(10), simp)+
  then have "sched_inv s' q"
    using reaped_sched [OF sched procs(1) c'(2) kids(2) holds_allD(4) [OF h] s'(9,2)] by simp
  moreover have "gave_back R F s cs c b tab sl s'" using s'(2,3,5-10) unfolding gave_back_def by blast
  ultimately show thesis using that s'(1) by blast
qed

lemma sys_wait_spec:
  assumes kids: "clist (klinks s) (children_head (current s)) (map sibling_node cs)" "insert (current s) (set cs) \<subseteq> dom (pcbs s)"
    and sched: "sched_inv s q" "current s \<noteq> idle s" and procs: "procs_apart R F s" "length (pids s) = 32"
    and own: "\<forall>c. find (\<lambda>c. has_state s c Exited) cs = Some c \<longrightarrow> holds_all R F s c b root tab sl"
  shows "case find (\<lambda>c. has_state s c Exited) cs of
      None \<Rightarrow>
        if cs = [] then sys_wait s = Inr (Returned (-1) s)
        else \<exists>s1 s2. yield_current s = Inr s1 \<and> sys_wait s = Inr (Switched In_wait s1) \<and> back_to_idle s1 = Inr s2 \<and> current s2 = idle s \<and>
          sched_inv s2 (q @ [current s])
    | Some c \<Rightarrow>
        if 0 \<le> pid b \<and> pid b < int MAX_PID
        then \<exists>s'. sys_wait s = Inr (Returned (pid b) s') \<and> gave_back R F s cs c b tab sl s' \<and> sched_inv s' q
        else \<exists>msg. sys_wait s = Inl (Panic msg)"
proof -
  have "\<forall>c \<in> set cs. pcbs s c \<noteq> None" using kids(2) by auto
  note split = sys_wait_split [OF kids(1) this]
  show ?thesis
  proof (cases "find (\<lambda>c. has_state s c Exited) cs")
    case None
    then have "sys_wait s = (if cs = [] then Inr (Returned (-1) s) else bindE (yield_current s) (\<lambda>s. Inr (Switched In_wait s)))"
      using split by simp
    then show ?thesis using None yield_spec [OF sched] by (cases "cs = []") auto
  next
    case (Some c)
    have h: "holds_all R F s c b root tab sl" using own Some by blast
    show ?thesis
    proof (cases "0 \<le> pid b \<and> pid b < int MAX_PID")
      case False
      then show ?thesis using reap_invalid [OF holds_allD(1) [OF h]] split Some by auto
    next
      case True
      obtain s' where s': "reap s c = Inr (pid b, s')" "gave_back R F s cs c b tab sl s'" "sched_inv s' q"
        by (rule reaped [OF kids sched(1) procs Some h conjunct1 [OF True] conjunct2 [OF True]])
      then have "sys_wait s = Inr (Returned (pid b) s')" using split Some by simp
      then show ?thesis using True Some s'(2,3) by auto
    qed
  qed
qed

end
