(* ===== verification/System_Steps.thy ===== *)
theory System_Steps
  imports Wait Sched_Steps
begin

text \<open>
  The steps of the whole system: those of \<^verbatim>\<open>Sched_Steps\<close>, and the traps that create, replace or give back a
  process. These are taken from states in which the memory they work on is in order, as their
  specifications ask for.
\<close>

section \<open>States ready for a call\<close>

definition fork_ready :: "kernel \<Rightarrow> bool" where
  "fork_ready s \<longleftrightarrow> (\<exists>R F cur sroot stab sl cs. pcbs s (current s) = Some cur \<and> procs_apart R F s \<and> length (pids s) = 32 \<and>
     space R F s (mm cur) sroot stab sl \<and> set (mm_segments (mm cur) # seg_nodes sl) \<inter> proc_nodes s = {} \<and>
     aligned 14 (ustack cur) \<and> blk 14 (ustack cur) \<subseteq> R - F \<and>
     take_bit 27 ` set (vpns_of sl) \<inter> take_bit 27 ` set stack_vpns = {} \<and>
     (\<forall>f \<in> set (files cur). f \<noteq> 0 \<longrightarrow> file_table s f \<noteq> None) \<and>
     clist (klinks s) (children_head (current s)) (map sibling_node cs) \<and> set cs \<subseteq> dom (pcbs s))"

text \<open>The name may be that of no file; else it is that of a program, for which there is enough memory.\<close>

definition exec_ready :: "image \<Rightarrow> addr \<Rightarrow> kernel \<Rightarrow> bool" where
  "exec_ready img name s \<longleftrightarrow> lookup (fs_img_start img) (kmem s) (string_at (kmem s) name) = Inr 0 \<or>
     (\<exists>R F L nm n ib bl phs cur sroot stab sl k. file_heap img R F L nm (kheap s) \<and> in_window R \<and>
     is_cstring (string_at (kmem s) name) (nm n) \<and> L n = Some (ib, bl) \<and>
     program img (content (fs_img_start img) (kmem s) n bl) phs \<and> pcbs s (current s) = Some cur \<and> length (files cur) = NR_OPEN \<and>
     space R F s (mm cur) sroot stab sl \<and> aligned 14 (ustack cur) \<and>
     blk 14 (ustack cur) \<subseteq> R - F - (page_set (ran stab) \<union> page_set (set (frames_of sl))) \<and>
     files_owned (R - F - (page_set (ran stab) \<union> page_set (set (frames_of sl))) - blk 14 (ustack cur)) (file_table s) (files cur) \<and>
     procs_apart R F s \<and> set (mm_segments (mm cur) # seg_nodes sl) \<inter> proc_nodes s = {} \<and>
     size_order (of_nat (length (content (fs_img_start img) (kmem s) n bl))) \<le> k \<and> 12 \<le> k \<and>
     blocks_free k F (18 + segs_cost (kernel_segments img @ elf_segments phs)))"

definition wait_ready :: "kernel \<Rightarrow> bool" where
  "wait_ready s \<longleftrightarrow> (\<exists>R F cs b root tab sl. clist (klinks s) (children_head (current s)) (map sibling_node cs) \<and>
     insert (current s) (set cs) \<subseteq> dom (pcbs s) \<and> procs_apart R F s \<and> length (pids s) = 32 \<and>
     (\<forall>c. find (\<lambda>c. has_state s c Exited) cs = Some c \<longrightarrow> holds_all R F s c b root tab sl))"

section \<open>The calls keep the queue in order\<close>

lemma fork_keeps:
  assumes "fork_ready s" and "sched_inv s q" and "current s \<noteq> idle s" and "sys_fork img s = Inr (n, s')"
  shows "\<exists>q'. sched_inv s' q'"
proof -
  obtain R F cur sroot stab sl cs where r: "pcbs s (current s) = Some cur" "procs_apart R F s" "length (pids s) = 32"
    "space R F s (mm cur) sroot stab sl" "set (mm_segments (mm cur) # seg_nodes sl) \<inter> proc_nodes s = {}"
    "aligned 14 (ustack cur)" "blk 14 (ustack cur) \<subseteq> R - F" "take_bit 27 ` set (vpns_of sl) \<inter> take_bit 27 ` set stack_vpns = {}"
    "\<forall>f \<in> set (files cur). f \<noteq> 0 \<longrightarrow> file_table s f \<noteq> None"
    "clist (klinks s) (children_head (current s)) (map sibling_node cs)" "set cs \<subseteq> dom (pcbs s)"
    using assms(1) unfolding fork_ready_def by (elim exE conjE) (rule that; assumption)
  from sys_fork_spec [OF assms(2,3) r, of img] show ?thesis unfolding assms(4) sum.case prod.case by (elim exE conjE) blast
qed

lemma exec_keeps:
  assumes "exec_ready img name s" and "sched_inv s q" and "sys_exec img sst s name = Inr (n, s')"
  shows "\<exists>q'. sched_inv s' q'"
proof (cases "lookup (fs_img_start img) (kmem s) (string_at (kmem s) name) = Inr 0")
  case True
  then show ?thesis using assms(2,3) by (auto simp: sys_exec_def)
next
  case False
  with assms(1) obtain R F L nm k ib bl phs cur sroot stab sl j where r: "file_heap img R F L nm (kheap s)" "in_window R"
    "is_cstring (string_at (kmem s) name) (nm k)" "L k = Some (ib, bl)"
    "program img (content (fs_img_start img) (kmem s) k bl) phs" "pcbs s (current s) = Some cur" "length (files cur) = NR_OPEN"
    "space R F s (mm cur) sroot stab sl" "aligned 14 (ustack cur)"
    "blk 14 (ustack cur) \<subseteq> R - F - (page_set (ran stab) \<union> page_set (set (frames_of sl)))"
    "files_owned (R - F - (page_set (ran stab) \<union> page_set (set (frames_of sl))) - blk 14 (ustack cur)) (file_table s) (files cur)"
    "procs_apart R F s" "set (mm_segments (mm cur) # seg_nodes sl) \<inter> proc_nodes s = {}"
    "size_order (of_nat (length (content (fs_img_start img) (kmem s) k bl))) \<le> j" "12 \<le> j"
    "blocks_free j F (18 + segs_cost (kernel_segments img @ elf_segments phs))"
    unfolding exec_ready_def by (elim disjE exE conjE) (erule (1) notE, (rule that; assumption))
  from sys_exec_spec [OF r(1-11) assms(2) r(12-16), of sst]
  obtain t where "sys_exec img sst s name = Inr (0, t)" "sched_inv t q" by (elim exE conjE) (rule that; assumption)
  with assms(3) show ?thesis by auto
qed

lemma round_keeps:
  assumes "wait_ready s" and "sched_inv s q" and w: "sys_wait_round s flag = Inr (Returned n s')"
  shows "\<exists>q'. sched_inv s' q'"
proof -
  obtain R F cs b root tab sl where r: "clist (klinks s) (children_head (current s)) (map sibling_node cs)"
    "insert (current s) (set cs) \<subseteq> dom (pcbs s)" "procs_apart R F s" "length (pids s) = 32"
    "\<forall>c. find (\<lambda>c. has_state s c Exited) cs = Some c \<longrightarrow> holds_all R F s c b root tab sl"
    using assms(1) unfolding wait_ready_def by (elim exE conjE) (rule that; assumption)
  have "\<forall>c \<in> set cs. pcbs s c \<noteq> None" using r(2) by auto
  note split = sys_wait_round_split [OF r(1) this, of flag]
  show ?thesis
  proof (cases "find (\<lambda>c. has_state s c Exited) cs")
    case None
    then have "sys_wait_round s flag = (if flag \<or> cs \<noteq> [] then bindE (yield_current s) (\<lambda>s. Inr (Switched In_wait s))
        else Inr (Returned (-1) s))" using split by simp
    with w have "Inr (Returned n s') = (if flag \<or> cs \<noteq> [] then bindE (yield_current s) (\<lambda>s. Inr (Switched In_wait s))
        else Inr (Returned (-1) s))" by simp
    then have "s' = s" by (cases "yield_current s") (simp_all split: if_splits)
    then show ?thesis using assms(2) by blast
  next
    case (Some c)
    then have h: "holds_all R F s c b root tab sl" using r(5) by blast
    have re: "sys_wait_round s flag = bindE (reap s c) (\<lambda>(n, s). Inr (Returned n s))" using split Some by simp
    show ?thesis
    proof (cases "0 \<le> pid b \<and> pid b < int MAX_PID")
      case True
      obtain s1 where "reap s c = Inr (pid b, s1)" "sched_inv s1 q"
        by (rule reaped [OF r(1,2) assms(2) r(3,4) Some h conjunct1 [OF True] conjunct2 [OF True]])
      then show ?thesis using re w by auto
    next
      case False
      then show ?thesis using reap_invalid [OF holds_allD(1) [OF h]] re w by auto
    qed
  qed
qed

section \<open>The calls from a trap\<close>

text \<open>The state in which a system call is served: the process will go on after its \<^verbatim>\<open>ecall\<close>.\<close>

definition at_call :: "kernel \<Rightarrow> kernel" where
  "at_call s = (case pcbs s (current s) of None \<Rightarrow> s
     | Some b \<Rightarrow> set_pcb s (current s) (b\<lparr>trap_cx := (trap_cx b)\<lparr>sepc := sepc (trap_cx b) + 4\<rparr>\<rparr>))"

text \<open>The first argument of the system call: the name, for exec.\<close>

definition first_argument :: "kernel \<Rightarrow> addr" where
  "first_argument s = (case pcbs s (current s) of None \<Rightarrow> 0 | Some b \<Rightarrow> x_regs (trap_cx b) ! 10)"

lemma at_call_sched: "same_sched s (at_call s)"
  by (auto simp: at_call_def same_sched_def has_state_def split: option.splits)

lemma at_call_served:
  assumes "trap_handle img env s USER_ENV_CALL stval = Inr (Returned () s')"
  obtains a1 a2 ret s1 where "syscall img env (at_call s) (call_number s) (first_argument s) a1 a2 = Inr (Returned ret s1)"
    and "finish_syscall s1 ret = Inr s'"
proof -
  define adv :: "pcb \<Rightarrow> pcb" where "adv = (\<lambda>b. b\<lparr>trap_cx := (trap_cx b)\<lparr>sepc := sepc (trap_cx b) + 4\<rparr>\<rparr>)"
  have call: "syscall_handle img env s = Inr (Returned () s')"
    using assms by (simp add: trap_handle_def USER_ENV_CALL_def BREAKPOINT_def)
  then obtain s0 where s0: "update_pcb s (current s) adv = Inr s0"
    by (auto simp: syscall_handle_def adv_def elim!: bindE_InrE)
  then obtain b where b: "pcbs s (current s) = Some b" "s0 = set_pcb s (current s) (adv b)"
    by (auto simp: update_pcb_def get_pcb_def elim!: bindE_InrE)
  have at: "at_call s = s0" by (simp add: at_call_def b adv_def)
  have "get_pcb s0 (current s0) = Inr (adv b)" by (simp add: b(2) get_pcb_Some)
  then have "bindE (syscall img env s0 (x_regs (trap_cx b) ! 17) (x_regs (trap_cx b) ! 10)
          (x_regs (trap_cx b) ! 11) (x_regs (trap_cx b) ! 12)) (\<lambda>r. case r of
            Returned ret s \<Rightarrow> bindE (finish_syscall s ret) (\<lambda>s. Inr (Returned () s))
          | Switched k s \<Rightarrow> Inr (Switched k s)) = Inr (Returned () s')"
    using call s0 by (simp add: syscall_handle_def adv_def [symmetric]) (simp add: adv_def Let_def)
  then show thesis
    using that b(1) unfolding at call_number_def first_argument_def by (auto split: reply.splits elim!: bindE_InrE)
qed

lemma fork_trap_keeps:
  assumes t: "trap_handle img env s USER_ENV_CALL stval = Inr (Returned () s')" and "call_number s = SYS_fork"
    and r: "fork_ready (at_call s)" and inv: "sched_inv s q" and c: "current s \<noteq> idle s"
  shows "\<exists>q'. sched_inv s' q'"
proof -
  obtain a1 a2 ret s1 where "syscall img env (at_call s) SYS_fork (first_argument s) a1 a2 = Inr (Returned ret s1)"
    and fin: "finish_syscall s1 ret = Inr s'"
    using at_call_served [OF t] unfolding assms(2) by blast
  then have "returned (sys_fork img (at_call s)) = Inr (Returned ret s1)"
    by (simp add: syscall_def SYS_fork_def SYS_exit_def SYS_putchar_def SYS_getpid_def)
  then obtain n where f: "sys_fork img (at_call s) = Inr (n, s1)" using returned_Inr by blast
  have "current (at_call s) \<noteq> idle (at_call s)" using at_call_sched [of s] c by (simp add: same_sched_def)
  from fork_keeps [OF r same_sched_inv [OF at_call_sched inv] this f] finish_syscall_sched [OF fin]
  show ?thesis by (blast intro: same_sched_inv)
qed

lemma exec_trap_keeps:
  assumes t: "trap_handle img env s USER_ENV_CALL stval = Inr (Returned () s')" and "call_number s = SYS_exec"
    and r: "exec_ready img (first_argument s) (at_call s)" and inv: "sched_inv s q"
  shows "\<exists>q'. sched_inv s' q'"
proof -
  obtain a1 a2 ret s1 where "syscall img env (at_call s) SYS_exec (first_argument s) a1 a2 = Inr (Returned ret s1)"
    and fin: "finish_syscall s1 ret = Inr s'"
    using at_call_served [OF t] unfolding assms(2) by blast
  then have "returned (sys_exec img (r_sstatus env) (at_call s) (first_argument s)) = Inr (Returned ret s1)"
    by (simp add: syscall_def SYS_fork_def SYS_exit_def SYS_putchar_def SYS_getpid_def SYS_wait_def SYS_exec_def)
  then obtain n where f: "sys_exec img (r_sstatus env) (at_call s) (first_argument s) = Inr (n, s1)"
    using returned_Inr by blast
  from exec_keeps [OF r same_sched_inv [OF at_call_sched inv] f] finish_syscall_sched [OF fin]
  show ?thesis by (blast intro: same_sched_inv)
qed

lemma wait_trap_keeps:
  assumes t: "trap_handle img env s USER_ENV_CALL stval = Inr (Returned () s')" and "call_number s = SYS_wait"
    and r: "wait_ready (at_call s)" and inv: "sched_inv s q"
  shows "\<exists>q'. sched_inv s' q'"
proof -
  obtain a1 a2 ret s1 where "syscall img env (at_call s) SYS_wait (first_argument s) a1 a2 = Inr (Returned ret s1)"
    and fin: "finish_syscall s1 ret = Inr s'"
    using at_call_served [OF t] unfolding assms(2) by blast
  then have "as_register (sys_wait (at_call s)) = Inr (Returned ret s1)"
    by (simp add: syscall_def SYS_fork_def SYS_exit_def SYS_putchar_def SYS_getpid_def SYS_wait_def)
  then obtain n where w: "sys_wait_round (at_call s) False = Inr (Returned n s1)"
    using as_register_Inr(1) unfolding sys_wait_def by blast
  from round_keeps [OF r same_sched_inv [OF at_call_sched inv] w] finish_syscall_sched [OF fin]
  show ?thesis by (blast intro: same_sched_inv)
qed

lemma wait_resumed_keeps:
  assumes t: "resume_process env s In_wait = Inr (Returned () s')" and r: "wait_ready s" and inv: "sched_inv s q"
  shows "\<exists>q'. sched_inv s' q'"
proof -
  obtain ret s1 where "as_register (sys_wait_round s True) = Inr (Returned ret s1)" and fin: "finish_syscall s1 ret = Inr s'"
    using t by (auto simp: resume_process_def split: reply.splits elim!: bindE_InrE)
  then obtain n where "sys_wait_round s True = Inr (Returned n s1)" using as_register_Inr(1) by blast
  from round_keeps [OF r inv this] finish_syscall_sched [OF fin] show ?thesis by (blast intro: same_sched_inv)
qed

section \<open>The steps of the system\<close>

text \<open>
  A step of the scheduler, or a trap or a resumed call of a process that creates (fork), replaces (exec) or
  gives back (wait) a process. An exit of a process with children takes no step: it does not return.
\<close>

inductive system_step :: "image \<Rightarrow> kernel \<Rightarrow> kernel \<Rightarrow> bool" for img where
  scheduled: "sched_step img s s' \<Longrightarrow> system_step img s s'"
| forked: "\<lbrakk>current s \<noteq> idle s; call_number s = SYS_fork; fork_ready (at_call s);
    trap_handle img env s USER_ENV_CALL stval = Inr (Returned () s')\<rbrakk> \<Longrightarrow> system_step img s s'"
| execed: "\<lbrakk>current s \<noteq> idle s; call_number s = SYS_exec; exec_ready img (first_argument s) (at_call s);
    trap_handle img env s USER_ENV_CALL stval = Inr (Returned () s')\<rbrakk> \<Longrightarrow> system_step img s s'"
| waited: "\<lbrakk>current s \<noteq> idle s; call_number s = SYS_wait; wait_ready (at_call s);
    trap_handle img env s USER_ENV_CALL stval = Inr (Returned () s')\<rbrakk> \<Longrightarrow> system_step img s s'"
| wait_done: "\<lbrakk>current s \<noteq> idle s; wait_ready s; resume_process env s In_wait = Inr (Returned () s')\<rbrakk>
    \<Longrightarrow> system_step img s s'"

lemma system_step_inv:
  assumes "system_step img s s'" and "sched_inv s q"
  shows "\<exists>q'. sched_inv s' q'"
  using assms(1)
proof (cases rule: system_step.cases)
  case scheduled
  then show ?thesis using assms(2) by (rule sched_step_inv)
next
  case (forked env stval)
  then show ?thesis using fork_trap_keeps [OF forked(4,2,3) assms(2) forked(1)] by simp
next
  case (execed env stval)
  then show ?thesis using exec_trap_keeps [OF execed(4,2,3) assms(2)] by simp
next
  case (waited env stval)
  then show ?thesis using wait_trap_keeps [OF waited(4,2,3) assms(2)] by simp
next
  case (wait_done env)
  then show ?thesis using wait_resumed_keeps [OF wait_done(3,2) assms(2)] by simp
qed

lemma system_steps_inv: "(system_step img)\<^sup>*\<^sup>* s s' \<Longrightarrow> sched_inv s q \<Longrightarrow> \<exists>q'. sched_inv s' q'"
  by (induction rule: rtranclp_induct) (auto dest: system_step_inv)

end
