(* ===== verification/Wait_Properties.thy ===== *)
theory Wait_Properties
  imports Fork_Properties System_Steps
begin

text \<open>
  The properties of \<^verbatim>\<open>sys_wait\<close> and of the whole system of processes, with an instance of each on a parent
  whose child has exited.
\<close>

section \<open>A parent that waits\<close>

text \<open>
  The kernel of \<^verbatim>\<open>Fork_Properties\<close>, in which the process that runs has a child that has exited: it holds the
  address space, the stacks and the open file. The parent is about to call \<^verbatim>\<open>sys_wait\<close>.
\<close>

abbreviation waiting_parent :: addr where
  "waiting_parent \<equiv> 0xffffffff87f00400"

abbreviation exited_child :: addr where
  "exited_child \<equiv> 0xffffffff87f00c00"

definition parent_pcb :: "usize \<Rightarrow> pcb" where
  "parent_pcb pc = (demo_pcb 1 Running)\<lparr>trap_cx :=
     \<lparr>x_regs = (replicate 32 0)[17 := SYS_wait], sstatus = 0, sepc = pc, kernel_sp = 0\<rparr>\<rparr>"

definition child_pcb :: "addr \<Rightarrow> pcb" where
  "child_pcb mp = (demo_pcb 2 Exited)\<lparr>kstack := 0xffffffff87f02000, ustack := 0xffffffff87f04000, mm := mp,
     parent := waiting_parent, files := 0xffffffff87f00800 # replicate 15 0\<rparr>"

definition waiting_kernel :: "addr \<Rightarrow> vm \<Rightarrow> usize \<Rightarrow> kernel" where
  "waiting_kernel mp v pc =
     (fork_kernel mp v)\<lparr>klinks := list_add (klinks (fork_kernel mp v)) (sibling_node exited_child) (children_head waiting_parent),
      pcbs := [fork_start \<mapsto> demo_pcb 0 Ready, waiting_parent \<mapsto> parent_pcb pc, exited_child \<mapsto> child_pcb mp],
      pids := 7 # replicate 31 0\<rparr>"

lemma waiting_select:
  "kheap (waiting_kernel mp v pc) = kheap (fork_kernel mp v)" "segs (waiting_kernel mp v pc) = segs v"
  "mms (waiting_kernel mp v pc) = mms v" "current (waiting_kernel mp v pc) = waiting_parent"
  "idle (waiting_kernel mp v pc) = fork_start"
  "file_table (waiting_kernel mp v pc) = [0xffffffff87f00800 \<mapsto> \<lparr>f_type = FILE_STDIO, f_count = 1, f_off = 0, f_inode = 0\<rparr>]"
  "pids (waiting_kernel mp v pc) = 7 # replicate 31 0"
  "pcbs (waiting_kernel mp v pc) = [fork_start \<mapsto> demo_pcb 0 Ready, waiting_parent \<mapsto> parent_pcb pc, exited_child \<mapsto> child_pcb mp]"
  "klinks (waiting_kernel mp v pc) = list_add (INIT_LIST_HEAD (INIT_LIST_HEAD (klinks v) (run_node fork_start))
     (children_head waiting_parent)) (sibling_node exited_child) (children_head waiting_parent)"
  by (simp_all add: waiting_kernel_def fork_kernel_def)

lemma waiting_lists:
  "clist (klinks (waiting_kernel mp v pc)) (run_node fork_start) []"
  "clist (klinks (waiting_kernel mp v pc)) (children_head waiting_parent) [sibling_node exited_child]"
  "links_same_outside {run_node fork_start, children_head waiting_parent, sibling_node exited_child} (klinks v)
     (klinks (waiting_kernel mp v pc))"
  by (simp_all add: waiting_select clist_def list_add_def list_add_between_def INIT_LIST_HEAD_def run_node_def children_head_def
      sibling_node_def fork_start_def Let_def links_same_outside_def)

lemma waiting_space:
  assumes "space room F0 v mp root tab sl"
  shows "space fork_region fork_free (waiting_kernel mp v pc) mp root tab sl"
    and "set (mm_segments mp # seg_nodes sl) \<inter> proc_nodes (waiting_kernel mp v pc) = {}"
proof -
  have out: "run_node p \<notin> room \<and> children_head p \<notin> room \<and> sibling_node p \<notin> room"
    if "p = fork_start \<or> p = waiting_parent \<or> p = exited_child" for p
    using that by (auto simp: run_node_def children_head_def sibling_node_def fork_start_def room_start_def)
  show "space fork_region fork_free (waiting_kernel mp v pc) mp root tab sl"
  proof (rule space_moved [OF assms _ fork_window fork_regions(2,3) _ waiting_lists(3)])
    show "room \<inter> {run_node fork_start, children_head waiting_parent, sibling_node exited_child} = {}" using out by auto
  qed (use fork_heap in \<open>simp_all add: waiting_select\<close>)
  have "proc_nodes (waiting_kernel mp v pc) \<inter> room = {}" using out by (auto simp: proc_nodes_def waiting_select split: if_splits)
  then show "set (mm_segments mp # seg_nodes sl) \<inter> proc_nodes (waiting_kernel mp v pc) = {}" using space_nodes [OF assms] by blast
qed

lemma waiting_state:
  "sched_inv (waiting_kernel mp v pc) []" "current (waiting_kernel mp v pc) \<noteq> idle (waiting_kernel mp v pc)"
  "procs_apart fork_region fork_free (waiting_kernel mp v pc)" "length (pids (waiting_kernel mp v pc)) = 32"
  "clist (klinks (waiting_kernel mp v pc)) (children_head (current (waiting_kernel mp v pc))) (map sibling_node [exited_child])"
  "insert (current (waiting_kernel mp v pc)) (set [exited_child]) \<subseteq> dom (pcbs (waiting_kernel mp v pc))"
  "find (\<lambda>c. has_state (waiting_kernel mp v pc) c Exited) [exited_child] = Some exited_child"
proof -
  let ?s = "waiting_kernel mp v pc"
  show "sched_inv ?s []" using waiting_lists(1)
    by (auto simp: sched_inv_def run_queue_def waiting_select has_state_def demo_pcb_def parent_pcb_def child_pcb_def fork_start_def)
  show "current ?s \<noteq> idle ?s" by (simp add: waiting_select fork_start_def)
  have "aligned 10 p \<and> blk 10 p \<subseteq> fork_region - fork_free" if "p = fork_start \<or> p = waiting_parent \<or> p = exited_child" for p
  proof -
    have "aligned 10 p" "unat fork_start \<le> unat p" "unat p + 2 ^ 10 \<le> unat free_start"
      using that by (auto simp: fork_start_def free_start_def aligned_nat_dvd)
    then have "blk 10 p \<subseteq> {fork_start..<free_start}" by (rule block_interval)
    with fork_below show ?thesis using \<open>aligned 10 p\<close> by blast
  qed
  then show "procs_apart fork_region fork_free ?s"
    unfolding procs_apart_def waiting_select by (auto simp del: atLeastLessThan_iff split: if_splits)
  show "length (pids ?s) = 32" by (simp add: waiting_select)
  show "clist (klinks ?s) (children_head (current ?s)) (map sibling_node [exited_child])"
    using waiting_lists(2) by (simp add: waiting_select)
  show "insert (current ?s) (set [exited_child]) \<subseteq> dom (pcbs ?s)" by (simp add: waiting_select)
  show "find (\<lambda>c. has_state ?s c Exited) [exited_child] = Some exited_child"
    by (simp add: has_state_def waiting_select child_pcb_def demo_pcb_def)
qed

lemma waiting_holds:
  assumes sp: "space room F0 v mp root tab sl"
  shows "holds_all fork_region fork_free (waiting_kernel mp v pc) exited_child (child_pcb mp) root tab sl"
proof -
  let ?s = "waiting_kernel mp v pc" and ?b = "child_pcb mp" and ?f = "0xffffffff87f00800 :: addr"
  have "space_memory mp tab sl \<subseteq> room" using space_memory_owned [OF sp] by blast
  moreover have "{fork_start..<free_start} \<inter> room = {}" by (auto simp: free_start_def room_start_def)
  ultimately have low: "{fork_start..<free_start} \<subseteq> fork_region - fork_free - space_memory mp tab sl" using fork_below by blast
  have parts: "blk 14 (ustack ?b) \<subseteq> {ustack ?b..<free_start}" "blk 13 (kstack ?b) \<subseteq> {kstack ?b..<ustack ?b}"
    "blk 10 exited_child \<subseteq> {exited_child..<kstack ?b}" "blk 5 ?f \<subseteq> {?f..<exited_child}"
    by (intro block_interval; simp add: child_pcb_def aligned_nat_dvd fork_start_def free_start_def)+
  have order: "fork_start \<le> ?f" "?f \<le> exited_child" "exited_child \<le> kstack ?b" "kstack ?b \<le> ustack ?b" "ustack ?b \<le> free_start"
    by (simp_all add: child_pcb_def fork_start_def free_start_def)
  have U: "blk 14 (ustack ?b) \<subseteq> {fork_start..<free_start}" and K: "blk 13 (kstack ?b) \<subseteq> {fork_start..<free_start}"
    and C: "blk 10 exited_child \<subseteq> {fork_start..<free_start}" and D: "blk 5 ?f \<subseteq> {fork_start..<free_start}"
    by (intro block_interval; simp add: child_pcb_def aligned_nat_dvd fork_start_def free_start_def)+
  have d: "blk 13 (kstack ?b) \<inter> blk 14 (ustack ?b) = {}" "blk 10 exited_child \<inter> (blk 13 (kstack ?b) \<union> blk 14 (ustack ?b)) = {}"
    "blk 5 ?f \<inter> (blk 10 exited_child \<union> blk 13 (kstack ?b) \<union> blk 14 (ustack ?b)) = {}"
    using parts order by fastforce+
  have "files_owned (fork_region - fork_free - space_memory mp tab sl - blk 14 (ustack ?b) - blk 13 (kstack ?b) - blk 10 exited_child)
      (file_table ?s) (files ?b)"
  proof -
    have "blk 5 ?f \<subseteq> fork_region - fork_free - space_memory mp tab sl - blk 14 (ustack ?b) - blk 13 (kstack ?b) - blk 10 exited_child"
      using D low d(3) by blast
    then show ?thesis unfolding files_owned_def by (simp add: waiting_select) (simp add: child_pcb_def aligned_nat_dvd)
  qed
  moreover have "mm ?b = mp" "length (files ?b) = NR_OPEN" "pcbs ?s exited_child = Some ?b"
    by (simp_all add: child_pcb_def NR_OPEN_def waiting_select)
  moreover have "aligned 14 (ustack ?b)" "aligned 13 (kstack ?b)" "aligned 10 exited_child"
    by (simp_all add: child_pcb_def aligned_nat_dvd)
  moreover have "blk 14 (ustack ?b) \<subseteq> fork_region - fork_free - space_memory mp tab sl"
    "blk 13 (kstack ?b) \<subseteq> fork_region - fork_free - space_memory mp tab sl - blk 14 (ustack ?b)"
    "blk 10 exited_child \<subseteq> fork_region - fork_free - space_memory mp tab sl - blk 14 (ustack ?b) - blk 13 (kstack ?b)"
    using U K C low d(1,2) by blast+
  ultimately show ?thesis using waiting_space [OF sp, of pc] unfolding holds_all_def by simp
qed

lemma waiting_holds_all:
  "space room F0 v mp root tab sl \<Longrightarrow>
     \<forall>c. find (\<lambda>c. has_state (waiting_kernel mp v pc) c Exited) [exited_child] = Some c \<longrightarrow>
       holds_all fork_region fork_free (waiting_kernel mp v pc) c (child_pcb mp) root tab sl"
  using waiting_holds waiting_state(7) by simp

lemma waiting_advanced: "set_pcb (waiting_kernel mp v 0) waiting_parent (parent_pcb 4) = waiting_kernel mp v 4"
proof -
  have "(pcbs (waiting_kernel mp v 0))(waiting_parent \<mapsto> parent_pcb 4) = pcbs (waiting_kernel mp v 4)"
    by (rule ext) (simp add: waiting_select)
  then show ?thesis unfolding set_pcb_def by (simp add: waiting_kernel_def)
qed

lemma waiting_pcb: "pcbs (waiting_kernel mp v pc) waiting_parent = Some (parent_pcb pc)"
  by (simp add: waiting_select)

lemma waiting_at_call: "at_call (waiting_kernel mp v 0) = waiting_kernel mp v 4"
  using waiting_advanced [of mp v] by (simp add: at_call_def waiting_select(4) waiting_pcb) (simp add: parent_pcb_def)

section \<open>Waiting\<close>

text \<open>
  C34: \<^verbatim>\<open>sys_wait\<close> takes the first child that has exited and gives it back: it returns its number, which is
  free from then on, and the process is gone from the table and from the list of children of its parent. Its
  open files have one reference less for every descriptor, and those without any are closed. The free memory
  grows by exactly the page tables and frames of its address space, its two stacks, the block of its struct
  and the files closed, and no byte outside that memory changes. No link changes but in the list of children
  and of the segments of the space, the queue is as before, and nothing else in the state of the kernel
  changes: the structs of the space are not given back. A child without a valid number makes it panic.
  With no child it returns -1; with none that has exited it goes to the end of the queue and switches.
\<close>

theorem sys_wait_correct:
  assumes kids: "clist (klinks s) (children_head (current s)) (map sibling_node cs)" "insert (current s) (set cs) \<subseteq> dom (pcbs s)"
    and sched: "sched_inv s q" "current s \<noteq> idle s" and procs: "procs_apart R F s" "length (pids s) = 32"
    and own: "\<forall>c. find (\<lambda>c. has_state s c Exited) cs = Some c \<longrightarrow> holds_all R F s c b root tab sl"
  shows "case find (\<lambda>c. has_state s c Exited) cs of
      None \<Rightarrow>
        if cs = [] then sys_wait s = Inr (Returned (-1) s)
        else \<exists>s1 s2. yield_current s = Inr s1 \<and> sys_wait s = Inr (Switched In_wait s1) \<and> back_to_idle s1 = Inr s2 \<and>
          current s2 = idle s \<and> sched_inv s2 (q @ [current s])
    | Some c \<Rightarrow>
        if 0 \<le> pid b \<and> pid b < int MAX_PID
        then \<exists>s' F'. sys_wait s = Inr (Returned (pid b) s') \<and> pcbs s' = (pcbs s)(c := None) \<and>
          file_table s' = released (files b) (file_table s) \<and>
          (\<forall>k < MAX_PID. pid_used (pids s') k \<longleftrightarrow> pid_used (pids s) k \<and> int k \<noteq> pid b) \<and>
          F' = F \<union> (page_set (ran tab) \<union> page_set (set (frames_of sl)) \<union> blk 14 (ustack b) \<union> blk 13 (kstack b) \<union> blk 10 c \<union>
            file_memory (last_closed (file_table s) (files b))) \<and>
          buddy_inv R (kheap s') F' \<and> same_outside F' (kmem s) (kmem s') \<and>
          clist (klinks s') (children_head (current s)) (map sibling_node (remove1 c cs)) \<and>
          links_same_outside ({children_head (current s)} \<union> sibling_node ` set cs \<union> set (mm_segments (mm b) # seg_nodes sl))
            (klinks s) (klinks s') \<and>
          s' = s\<lparr>kheap := kheap s', klinks := klinks s', pcbs := pcbs s', file_table := file_table s', pids := pids s'\<rparr> \<and>
          sched_inv s' q
        else \<exists>msg. sys_wait s = Inl (Panic msg)"
proof -
  show ?thesis
  proof (cases "find (\<lambda>c. has_state s c Exited) cs")
    case None
    then show ?thesis using sys_wait_spec [OF assms] by simp
  next
    case (Some c)
    show ?thesis
    proof (cases "0 \<le> pid b \<and> pid b < int MAX_PID")
      case False
      show ?thesis using sys_wait_spec [OF assms] unfolding Some option.case if_not_P [OF False] .
    next
      case True
      show ?thesis using sys_wait_spec [OF assms] unfolding Some option.case if_P [OF True] gave_back_def reaped_memory_def
        by (elim exE conjE) (intro exI conjI, (assumption | rule refl)+)
    qed
  qed
qed

theorem sys_wait_correct_witness:
  "\<exists>mp v s' F' b. demo_map Framed = Inr (mp, v) \<and> pcbs (waiting_kernel mp v 0) exited_child = Some b \<and>
     sys_wait (waiting_kernel mp v 0) = Inr (Returned 2 s') \<and> pcbs s' exited_child = None \<and>
     file_table s' = Map.empty \<and> pid_used (pids s') 1 \<and> \<not> pid_used (pids s') 2 \<and>
     clist (klinks s') (children_head waiting_parent) [] \<and> sched_inv s' [] \<and> buddy_inv fork_region (kheap s') F' \<and>
     blk 10 exited_child \<union> blk 13 (kstack b) \<union> blk 14 (ustack b) \<union> blk 5 0xffffffff87f00800 \<subseteq> F' \<and>
     sys_wait (fork_kernel mp v) = Inr (Returned (-1) (fork_kernel mp v))"
proof -
  obtain mp v F0 root tab sl where d: "demo_map Framed = Inr (mp, v)" "space room F0 v mp root tab sl"
    using demo_map_space [of Framed] by auto
  let ?s = "waiting_kernel mp v 0" and ?b = "child_pcb mp" and ?fk = "fork_kernel mp v"
  note w = waiting_state [where mp = mp and v = v and pc = 0]
  have pid: "pid ?b = 2" "0 \<le> pid ?b \<and> pid ?b < int MAX_PID" by (simp_all add: child_pcb_def demo_pcb_def MAX_PID_def)
  obtain s' F' where s': "sys_wait ?s = Inr (Returned (pid ?b) s')" "pcbs s' = (pcbs ?s)(exited_child := None)"
    "file_table s' = released (files ?b) (file_table ?s)"
    "\<forall>k < MAX_PID. pid_used (pids s') k \<longleftrightarrow> pid_used (pids ?s) k \<and> int k \<noteq> pid ?b"
    "F' = fork_free \<union> (page_set (ran tab) \<union> page_set (set (frames_of sl)) \<union> blk 14 (ustack ?b) \<union> blk 13 (kstack ?b) \<union>
       blk 10 exited_child \<union> file_memory (last_closed (file_table ?s) (files ?b)))"
    "buddy_inv fork_region (kheap s') F'"
    "clist (klinks s') (children_head (current ?s)) (map sibling_node (remove1 exited_child [exited_child]))" "sched_inv s' []"
    using sys_wait_correct [OF w(5,6,1-4) waiting_holds_all [OF d(2)]]
    unfolding w(7) option.case if_P [OF pid(2)] by (elim exE conjE) (rule that; assumption)
  have "last_closed (file_table ?s) (files ?b) = {0xffffffff87f00800}"
    by (auto simp: last_closed_def waiting_select child_pcb_def)
  then have F': "blk 10 exited_child \<union> blk 13 (kstack ?b) \<union> blk 14 (ustack ?b) \<union> blk 5 0xffffffff87f00800 \<subseteq> F'"
    and ft: "file_table s' = Map.empty"
    unfolding s'(3,5) by (auto simp: released_def waiting_select child_pcb_def split: if_splits)
  have "pid_used (pids s') 1" "\<not> pid_used (pids s') 2" using spec [OF s'(4), of 1] spec [OF s'(4), of 2] pid(1)
    by (simp_all add: waiting_select pid_used_def MAX_PID_def)
  moreover have "sys_wait ?fk = Inr (Returned (-1) ?fk)"
  proof -
    have "insert (current ?fk) (set []) \<subseteq> dom (pcbs ?fk)" by (simp add: fork_kernel_def)
    from sys_wait_correct [OF fork_kernel_ready(5) this fork_kernel_ready(1-4)] show ?thesis by simp
  qed
  moreover have "clist (klinks s') (children_head waiting_parent) []" using s'(7) by (simp add: waiting_select)
  moreover have "pcbs s' exited_child = None" "pcbs ?s exited_child = Some ?b" using s'(2) by (simp_all add: waiting_select)
  ultimately show ?thesis using d(1) s'(1,6,8) F' ft pid(1) by (intro exI conjI) simp_all
qed

section \<open>The scheduled system\<close>

text \<open>
  C10: whatever traps the processes cause, forks, execs, waits and exits among them, exactly the current process
  is running afterwards, and the queue holds exactly the ready processes other than the idle one, each once: a
  process that has exited or was given back is never run again, one that is created gets into the queue, and
  none that is ready is lost. The steps are those of \<open>system_step\<close>: a fork, an exec and a wait that
  returns start in a state whose memory is in order, as the specifications of these calls ask for. A handler
  that panics makes no step, nor does an exit of a process other than \<^verbatim>\<open>init\<close> with children, which never returns.
\<close>

theorem scheduler_invariant:
  assumes "sched_inv s q" and "(system_step img)\<^sup>*\<^sup>* s s'"
  shows "\<exists>q'. list_for_each (klinks s') (run_node (idle s')) = Some (map run_node q') \<and> distinct q' \<and>
    (\<forall>p. has_state s' p Running \<longleftrightarrow> p = current s') \<and>
    (\<forall>p. has_state s' p Ready \<longleftrightarrow> p \<in> set q' \<or> p = idle s' \<and> current s' \<noteq> idle s')"
proof -
  obtain q' where "sched_inv s' q'" using system_steps_inv [OF assms(2,1)] by blast
  then show ?thesis
    using queue_distinct [of s' q'] list_for_each_clist
    unfolding sched_inv_def run_queue_def by blast
qed

text \<open>The parent traps to \<^verbatim>\<open>sys_wait\<close>, which gives back the child.\<close>

theorem scheduler_invariant_witness:
  "\<exists>mp v s' q'. demo_map Framed = Inr (mp, v) \<and> (system_step demo_image)\<^sup>*\<^sup>* (waiting_kernel mp v 0) s' \<and>
     pcbs s' exited_child = None \<and> current s' = waiting_parent \<and> has_state s' waiting_parent Running \<and>
     list_for_each (klinks s') (run_node (idle s')) = Some (map run_node q')"
proof -
  obtain mp v F0 root tab sl where d: "demo_map Framed = Inr (mp, v)" "space room F0 v mp root tab sl"
    using demo_map_space [of Framed] by auto
  let ?s = "waiting_kernel mp v 0" and ?a = "waiting_kernel mp v 4" and ?b = "child_pcb mp"
  note w = waiting_state [where mp = mp and v = v and pc = 4]
  have pid: "0 \<le> pid ?b" "pid ?b < int MAX_PID" by (simp_all add: child_pcb_def demo_pcb_def MAX_PID_def)
  obtain s1 where s1: "reap ?a exited_child = Inr (pid ?b, s1)"
    "gave_back fork_region fork_free ?a [exited_child] exited_child ?b tab sl s1" "sched_inv s1 []"
    by (rule reaped [OF w(5,6,1,3,4,7) waiting_holds [OF d(2)] pid])
  have "\<forall>c \<in> set [exited_child]. pcbs ?a c \<noteq> None" by (simp add: waiting_select)
  from sys_wait_split [OF w(5) this] have wait: "sys_wait ?a = Inr (Returned (pid ?b) s1)"
    by (simp only: w(7) option.case s1(1) bindE_simps prod.case)
  have g: "pcbs s1 = (pcbs ?a)(exited_child := None)" and s1': "s1 = ?a\<lparr>kheap := kheap s1, klinks := klinks s1, pcbs := pcbs s1,
      file_table := file_table s1, pids := pids s1\<rparr>" using s1(2) unfolding gave_back_def by blast+
  have c1: "current s1 = waiting_parent" by (subst s1') (simp add: waiting_select)
  have p1: "pcbs s1 waiting_parent = Some (parent_pcb 4)" by (simp add: g waiting_select)
  obtain s' where fin: "finish_syscall s1 (of_int (pid ?b)) = Inr s'" and s': "current s' = waiting_parent" "pcbs s' exited_child = None"
    using c1 p1 g by (simp add: finish_syscall_def update_pcb_Some)
  have call: "call_number ?s = SYS_wait" by (simp add: call_number_def waiting_select parent_pcb_def)
  have advance: "(parent_pcb 0)\<lparr>trap_cx := (trap_cx (parent_pcb 0))\<lparr>sepc := sepc (trap_cx (parent_pcb 0)) + 4\<rparr>\<rparr> = parent_pcb 4"
    and regs: "x_regs (trap_cx (parent_pcb 4)) ! 17 = SYS_wait" by (simp_all add: parent_pcb_def)
  have "syscall_handle demo_image demo_env ?s = Inr (Returned () s')"
    unfolding syscall_handle_def waiting_select(4) update_pcb_Some [OF waiting_pcb] advance waiting_advanced bindE_simps
      waiting_select(4) get_pcb_Some [OF waiting_pcb] Let_def regs
    by (simp add: syscall_def SYS_fork_def SYS_exit_def SYS_putchar_def SYS_getpid_def SYS_wait_def as_register_def wait fin)
  then have "trap_handle demo_image demo_env ?s USER_ENV_CALL 0 = Inr (Returned () s')"
    by (simp add: trap_handle_def USER_ENV_CALL_def BREAKPOINT_def)
  moreover have "wait_ready (at_call ?s)"
    using w(5,6,3,4) waiting_holds_all [OF d(2), of 4] unfolding waiting_at_call wait_ready_def by blast
  moreover have "current ?s \<noteq> idle ?s" by (rule waiting_state(2))
  ultimately have step: "(system_step demo_image)\<^sup>*\<^sup>* ?s s'" using call system_step.waited by blast
  from scheduler_invariant [OF waiting_state(1) step] obtain q' where
    "list_for_each (klinks s') (run_node (idle s')) = Some (map run_node q')" "\<forall>p. has_state s' p Running \<longleftrightarrow> p = current s'"
    by blast
  then show ?thesis using d(1) step s' by auto
qed

end
