(* ===== verification/Trap_Properties.thy ===== *)
theory Trap_Properties
  imports Process_Properties
begin

text \<open>
  The properties of traps and system calls, and of the contexts and page permissions a user
  program starts with.
\<close>

section \<open>Traps\<close>

text \<open>
  \<^verbatim>\<open>getpid\<close> as a whole trap: the process goes on after the \<^verbatim>\<open>ecall\<close> instruction with its number
  in the result register, sign-extended, and nothing else of the kernel changes.
\<close>

theorem getpid_trap:
  assumes "pcbs s (current s) = Some b" and "x_regs (trap_cx b) ! 17 = SYS_getpid"
  shows "trap_handle img env s USER_ENV_CALL stval =
    Inr (Returned () (s\<lparr>pcbs := (pcbs s)(current s \<mapsto>
      b\<lparr>trap_cx := (trap_cx b)\<lparr>sepc := sepc (trap_cx b) + 4,
                              x_regs := (x_regs (trap_cx b))[10 := word_of_int (pid b)]\<rparr>\<rparr>)\<rparr>))"
  using assms
  by (simp add: trap_handle_def syscall_handle_def syscall_def finish_syscall_def update_pcb_Some get_pcb_Some
      returned_def USER_ENV_CALL_def BREAKPOINT_def SYS_getpid_def SYS_exit_def SYS_putchar_def Let_def)
    (simp add: set_pcb_def)

definition calling_kernel :: "usize \<Rightarrow> kernel" where
  "calling_kernel num = (let s = running_kernel 0x2000 in
     set_pcb s 0x2000 ((demo_pcb 1 Running)\<lparr>trap_cx := (trap_cx (demo_pcb 1 Running))\<lparr>x_regs := (replicate 32 0)[17 := num]\<rparr>\<rparr>))"

lemma calling_kernel:
  "pcbs (calling_kernel num) (current (calling_kernel num)) =
     Some ((demo_pcb 1 Running)\<lparr>trap_cx := (trap_cx (demo_pcb 1 Running))\<lparr>x_regs := (replicate 32 0)[17 := num]\<rparr>\<rparr>)"
  by (simp add: calling_kernel_def running_kernel Let_def)

theorem getpid_trap_witness:
  "\<exists>s b. trap_handle demo_image demo_env (calling_kernel SYS_getpid) USER_ENV_CALL 0 = Inr (Returned () s) \<and>
     pcbs s 0x2000 = Some b \<and> x_regs (trap_cx b) ! 10 = 1 \<and> sepc (trap_cx b) = 4"
  using getpid_trap [OF calling_kernel [of SYS_getpid], of demo_image demo_env 0] running_kernel(2)
  by (simp add: demo_pcb_def calling_kernel_def Let_def)

text \<open>
  C39: a number that is no system call stops the kernel with a message that names it; so does a trap
  with any other cause, with the cause, the address of the instruction and the faulting address.
\<close>

theorem unknown_trap_panics:
  assumes "pcbs s (current s) = Some b"
  shows "(SYS_write < x_regs (trap_cx b) ! 17 \<longrightarrow> trap_handle img env s USER_ENV_CALL stval =
      Inl (Panic (''[syscall] Unknown syscall id '' @ printint (ucast (x_regs (trap_cx b) ! 17)) 10 True @ [CHR 0x0A]))) \<and>
    (scause \<notin> {BREAKPOINT, USER_ENV_CALL, SUPERVISOR_TIMER} \<longrightarrow> trap_handle img env s scause stval =
      Inl (Panic (''Unhandled trap!'' @ [CHR 0x0A] @ ''scause'' @ [CHR 0x09] @ ''= '' @ printptr scause @
        [CHR 0x0A] @ ''sepc'' @ [CHR 0x09] @ ''= '' @ printptr (sepc (trap_cx b)) @
        [CHR 0x0A] @ ''stval'' @ [CHR 0x09] @ ''= '' @ printptr stval @ [CHR 0x0A])))"
proof (intro conjI impI)
  let ?n = "x_regs (trap_cx b) ! 17"
  show "trap_handle img env s USER_ENV_CALL stval =
      Inl (Panic (''[syscall] Unknown syscall id '' @ printint (ucast ?n) 10 True @ [CHR 0x0A]))"
    if "SYS_write < ?n"
  proof -
    have "?n \<noteq> SYS_exit" "?n \<noteq> SYS_putchar" "?n \<noteq> SYS_getpid" "?n \<noteq> SYS_fork" "?n \<noteq> SYS_wait"
      "?n \<noteq> SYS_exec" "?n \<noteq> SYS_open" "?n \<noteq> SYS_close" "?n \<noteq> SYS_read" "?n \<noteq> SYS_write"
      using that by (auto simp: SYS_exit_def SYS_putchar_def SYS_getpid_def SYS_fork_def SYS_wait_def
          SYS_exec_def SYS_open_def SYS_close_def SYS_read_def SYS_write_def)
    then show ?thesis using assms
      by (simp add: trap_handle_def syscall_handle_def syscall_def update_pcb_Some get_pcb_Some panic_def
          int_arg_def USER_ENV_CALL_def BREAKPOINT_def Let_def)
  qed
  show "trap_handle img env s scause stval =
      Inl (Panic (''Unhandled trap!'' @ [CHR 0x0A] @ ''scause'' @ [CHR 0x09] @ ''= '' @ printptr scause @
        [CHR 0x0A] @ ''sepc'' @ [CHR 0x09] @ ''= '' @ printptr (sepc (trap_cx b)) @
        [CHR 0x0A] @ ''stval'' @ [CHR 0x09] @ ''= '' @ printptr stval @ [CHR 0x0A]))"
    if "scause \<notin> {BREAKPOINT, USER_ENV_CALL, SUPERVISOR_TIMER}"
    using that assms by (simp add: trap_handle_def unhandled_trap_def get_pcb_Some panic_def)
qed

theorem unknown_trap_panics_witness:
  "trap_handle demo_image demo_env (calling_kernel 10) USER_ENV_CALL 0 =
     Inl (Panic (''[syscall] Unknown syscall id 10'' @ [CHR 0x0A])) \<and>
   (\<exists>msg. trap_handle demo_image demo_env (calling_kernel 0) 13 0 = Inl (Panic msg))"
proof
  have "printint (ucast (10 :: u64)) 10 True = ''10''" by code_simp
  then show "trap_handle demo_image demo_env (calling_kernel 10) USER_ENV_CALL 0 =
     Inl (Panic (''[syscall] Unknown syscall id 10'' @ [CHR 0x0A]))"
    using unknown_trap_panics [OF calling_kernel [of 10], of demo_image demo_env 0 0] by (simp add: SYS_write_def)
  show "\<exists>msg. trap_handle demo_image demo_env (calling_kernel 0) 13 0 = Inl (Panic msg)"
    using unknown_trap_panics [OF calling_kernel [of 0], of demo_image demo_env 0 13]
    by (auto simp: BREAKPOINT_def USER_ENV_CALL_def SUPERVISOR_TIMER_def)
qed

text \<open>
  After a breakpoint the process goes on behind the two bytes of \<^verbatim>\<open>ebreak\<close>; the kernel has put
  out where it was.
\<close>

theorem breakpoint_trap:
  assumes "pcbs s (current s) = Some b"
  shows "trap_handle img env s BREAKPOINT stval = Inr (Returned ()
    (s\<lparr>console := console s @ map of_char (''Breakpoint at '' @ printptr (sepc (trap_cx b)) @ [CHR 0x0A]),
       pcbs := (pcbs s)(current s \<mapsto> b\<lparr>trap_cx := (trap_cx b)\<lparr>sepc := sepc (trap_cx b) + 2\<rparr>\<rparr>)\<rparr>))"
  using assms
  by (simp add: trap_handle_def breakpoint_def get_pcb_Some update_pcb_Some) (simp add: set_pcb_def)

theorem breakpoint_trap_witness:
  "\<exists>s b. trap_handle demo_image demo_env (calling_kernel 0) BREAKPOINT 0 = Inr (Returned () s) \<and>
     pcbs s 0x2000 = Some b \<and> sepc (trap_cx b) = 2"
  using breakpoint_trap [OF calling_kernel [of 0], of demo_image demo_env 0] running_kernel(2)
  by (simp add: demo_pcb_def calling_kernel_def Let_def)

section \<open>The start of a program\<close>

text \<open>
  The context a program starts with: every register is 0 but the stack pointer, the return goes
  to the entry point, in user mode (\<^verbatim>\<open>SPP\<close> clear) with interrupts off in the kernel and on after the
  return (\<^verbatim>\<open>SIE\<close> clear, \<^verbatim>\<open>SPIE\<close> set), and every other bit of \<^verbatim>\<open>sstatus\<close> as it was.
\<close>

theorem goto_app_user_mode:
  "x_regs (goto_app st old entry user_sp ksp) = map (\<lambda>i. if i = 2 then user_sp else 0) [0..<32] \<and>
   sepc (goto_app st old entry user_sp ksp) = entry \<and> kernel_sp (goto_app st old entry user_sp ksp) = ksp \<and>
   (\<forall>n. bit (sstatus (goto_app st old entry user_sp ksp)) n \<longleftrightarrow>
     (if n = 5 then True else if n = 1 \<or> n = 8 then False else bit st n))"
proof -
  have b: "bit (2 ^ k :: u64) n \<longleftrightarrow> n = k" if "k < 64" for k n
    using that by (auto simp: bit_pow2)
  have bits: "bit SSTATUS_SIE n \<longleftrightarrow> n = 1" "bit SSTATUS_SPIE n \<longleftrightarrow> n = 5" "bit SSTATUS_SPP n \<longleftrightarrow> n = 8" for n
    using b [of 1 n] b [of 5 n] b [of 8 n] by (simp_all add: SSTATUS_SIE_def SSTATUS_SPIE_def SSTATUS_SPP_def)
  have "bit (sstatus (goto_app st old entry user_sp ksp)) n \<longleftrightarrow>
      (if n = 5 then True else if n = 1 \<or> n = 8 then False else bit st n)" for n
    by (auto simp: goto_app_def Let_def bit_and_iff bit_or_iff bit_not_iff bits dest: bit_imp_le_length)
  then show ?thesis by (simp add: goto_app_def Let_def upt_rec numeral_eq_Suc)
qed

text \<open>
  The permissions of a program's pages: whatever the flags of an ELF segment are, its pages are
  valid and accessible from user mode, the permission bits are exactly the segment's, and no other
  bit of the entry is set.
\<close>

theorem convert_flags_bits:
  "bit (convert_flags flags) n \<longleftrightarrow>
     n = 0 \<or> n = 4 \<or> n = 1 \<and> bit flags 2 \<or> n = 2 \<and> bit flags 1 \<or> n = 3 \<and> bit flags 0"
proof -
  have b: "bit (2 ^ k :: u64) n \<longleftrightarrow> n = k" if "k < 64" for k
    using that by (auto simp: bit_pow2)
  have "bit PAGE_VALID n \<longleftrightarrow> n = 0" "bit PAGE_READ n \<longleftrightarrow> n = 1" "bit PAGE_WRITE n \<longleftrightarrow> n = 2"
    "bit PAGE_EXEC n \<longleftrightarrow> n = 3" "bit PAGE_USER n \<longleftrightarrow> n = 4"
    using b [of 0] b [of 1] b [of 2] b [of 3] b [of 4]
    by (simp_all add: PAGE_VALID_def PAGE_READ_def PAGE_WRITE_def PAGE_EXEC_def PAGE_USER_def)
  moreover have "flags AND ELF_PROG_FLAG_EXEC \<noteq> 0 \<longleftrightarrow> bit flags 0"
    "flags AND ELF_PROG_FLAG_WRITE \<noteq> 0 \<longleftrightarrow> bit flags 1" "flags AND ELF_PROG_FLAG_READ \<noteq> 0 \<longleftrightarrow> bit flags 2"
    using and_pow2_0_iff [of flags 0] and_pow2_0_iff [of flags 1] and_pow2_0_iff [of flags 2]
    by (simp_all add: ELF_PROG_FLAG_EXEC_def ELF_PROG_FLAG_WRITE_def ELF_PROG_FLAG_READ_def)
  ultimately show ?thesis by (auto simp: convert_flags_def Let_def bit_or_iff)
qed

end
