(* ===== verification/Fs_Properties.thy ===== *)
theory Fs_Properties
  imports Mkfs_Readback
begin

text \<open>
  The properties of the file system: \<^verbatim>\<open>kernel/fs.c\<close> on the image \<^verbatim>\<open>tool/mkfs.c\<close> writes. The
  instances are on the image of a directory with one file of three bytes, at address 0.
\<close>

section \<open>An image\<close>

definition demo_file :: dir_entry where
  "demo_file = \<lparr>d_name = map of_char ''a'', is_regular = True, file_data = [1, 2, 3]\<rparr>"

definition demo_directory :: "dir_entry list" where
  "demo_directory =
     [\<lparr>d_name = map of_char ''.'', is_regular = False, file_data = []\<rparr>, demo_file,
      \<lparr>d_name = map of_char ''sub'', is_regular = False, file_data = []\<rparr>]"

lemma demo_regular: "regular_files demo_directory = [demo_file]"
  by (simp add: regular_files_def demo_directory_def demo_file_def dot_names_def)

lemma demo_packable: "packable demo_file" "file_cost demo_file = 2"
  by (simp_all add: packable_def demo_file_def file_cost_def blocks_for_def)

lemma demo_image:
  obtains m L n ib bl where "mkfs 0 (\<lambda>_. 0) demo_directory = Some m" and "fs_ok 0 m L" and "L n = Some (ib, bl)"
    and "content 0 m n bl = [1, 2, 3]" and "file_size 0 m n = 3" and "card (free_blocks 0 m) = 2043"
    and "slots 0 m = 255"
proof -
  obtain m L ns where m: "mkfs 0 (\<lambda>_. 0) demo_directory = Some m" "fs_ok 0 m L" "holds 0 m L [demo_file] ns"
    "card (free_blocks 0 m) + 2 = 2045" "slots 0 m + 1 = 256"
    using mkfs_spec [of demo_directory 0 "\<lambda>_. 0"] by (auto simp: demo_regular demo_packable)
  from m(3) obtain ib bl where l: "L (ns ! 0) = Some (ib, bl)" "content 0 m (ns ! 0) bl = [1, 2, 3]"
    by (auto simp: holds_def demo_file_def)
  then have "file_size 0 m (ns ! 0) = 3" using content_length [of 0 m "ns ! 0" bl] by simp
  with that [OF m(1,2) l(1,2)] m(4,5) show thesis by simp
qed

section \<open>From the directory to the kernel\<close>

text \<open>
  C4: the kernel reads back what \<^verbatim>\<open>mkfs\<close> packed. For a directory whose regular files have different
  names of less than 32 bytes, at most 140 blocks each, and fit into the image, the program writes a
  well-formed image; in it \<^verbatim>\<open>lookup\<close> finds each file by its name, and no other name, and \<^verbatim>\<open>readall\<close>
  returns its length and stores its bytes in a buffer outside the image.
\<close>

theorem mkfs_readback:
  assumes "\<forall>e \<in> set (regular_files es). packable e" and "length (regular_files es) \<le> 256"
    and "sum_list (map file_cost (regular_files es)) \<le> 2045" and "distinct (map d_name (regular_files es))"
  shows "\<exists>m' L. mkfs img m es = Some m' \<and> fs_ok img m' L \<and>
    (\<forall>e \<in> set (regular_files es). \<forall>name buf. is_cstring name (d_name e) \<longrightarrow>
       bytes_at buf (length (file_data e)) \<inter> image_span img = {} \<longrightarrow>
       (\<exists>inode m''. lookup img m' name = Inr inode \<and> readall img m' inode buf = Inr (int (length (file_data e)), m'') \<and>
          map (\<lambda>i. m'' (buf + of_nat i)) [0..<length (file_data e)] = file_data e)) \<and>
    (\<forall>name bs. is_cstring name bs \<longrightarrow> bs \<notin> d_name ` set (regular_files es) \<longrightarrow> lookup img m' name = Inr 0)"
proof -
  obtain m' L ns where m': "mkfs img m es = Some m'" "fs_ok img m' L" "holds img m' L (regular_files es) ns"
    using mkfs_spec [OF assms(1-3)] by blast
  have "\<exists>inode m''. lookup img m' name = Inr inode \<and> readall img m' inode buf = Inr (int (length (file_data e)), m'') \<and>
      map (\<lambda>i. m'' (buf + of_nat i)) [0..<length (file_data e)] = file_data e"
    if e: "e \<in> set (regular_files es)" and name: "is_cstring name (d_name e)"
      and buf: "bytes_at buf (length (file_data e)) \<inter> image_span img = {}" for e name buf
  proof -
    obtain i where i: "i < length (regular_files es)" "e = regular_files es ! i" using e by (auto simp: in_set_conv_nth)
    let ?n = "ns ! i"
    obtain ib bl where l: "L ?n = Some (ib, bl)" "content img m' ?n bl = file_data e"
      using m'(3) i unfolding holds_def by blast
    have sz: "file_size img m' ?n = length (file_data e)" using l(2) content_length [of img m' ?n bl] by simp
    have "\<exists>m''. read_from_inode img m' (get_inode img (int ?n)) 0 buf (load32 m' (i_size (get_inode img (int ?n)))) =
        Inr (int (length (file_data e)), m'') \<and>
      map (\<lambda>i. m'' (buf + of_nat i)) [0..<length (file_data e)] =
        take (length (file_data e)) (drop (unat (0 :: 32 word)) (content img m' ?n bl)) \<and>
      same_outside (bytes_at buf (length (file_data e))) m' m''"
      by (rule read_from_inode_spec [OF m'(2) l(1) _ _ buf]) (simp_all add: sz flip: file_size_def)
    then show ?thesis
      using holds_lookup(1) [OF m'(2,3) assms(4) name i(1)] i(2) l(2) by (auto simp: readall_def)
  qed
  moreover have "lookup img m' name = Inr 0" if "is_cstring name bs" "bs \<notin> d_name ` set (regular_files es)" for name bs
    by (rule holds_lookup(2) [OF m'(2,3) assms(4) that])
  ultimately show ?thesis using m'(1,2) by blast
qed

theorem mkfs_readback_witness:
  "\<exists>m' inode m''. mkfs 0 (\<lambda>_. 0) demo_directory = Some m' \<and> lookup 0 m' (literal ''a'') = Inr inode \<and>
    readall 0 m' inode 0x200000 = Inr (3, m'') \<and> map (\<lambda>i. m'' (0x200000 + of_nat i)) [0..<3] = [1, 2, 3] \<and>
    lookup 0 m' (literal ''b'') = Inr 0"
proof -
  have lit: "is_cstring (literal ''a'') (d_name demo_file)" "is_cstring (literal ''b'') (map of_char ''b'')"
    by (simp_all add: is_cstring_def literal_def demo_file_def)
  have buf: "bytes_at 0x200000 (length (file_data demo_file)) \<inter> image_span 0 = {}"
    by (auto simp: bytes_at_def span_def demo_file_def unat_sub_if' split: if_splits)
  have no: "map of_char ''b'' \<notin> d_name ` set (regular_files demo_directory)"
    by (simp add: demo_regular demo_file_def)
  have prem: "\<forall>e \<in> set (regular_files demo_directory). packable e" "length (regular_files demo_directory) \<le> 256"
    "sum_list (map file_cost (regular_files demo_directory)) \<le> 2045"
    "distinct (map d_name (regular_files demo_directory))"
    by (simp_all add: demo_regular demo_packable)
  have mem: "demo_file \<in> set (regular_files demo_directory)" by (simp add: demo_regular)
  obtain m' L where m': "mkfs 0 (\<lambda>_. 0) demo_directory = Some m'"
    and files: "\<forall>e \<in> set (regular_files demo_directory). \<forall>name buf. is_cstring name (d_name e) \<longrightarrow>
       bytes_at buf (length (file_data e)) \<inter> image_span 0 = {} \<longrightarrow>
       (\<exists>inode m''. lookup 0 m' name = Inr inode \<and> readall 0 m' inode buf = Inr (int (length (file_data e)), m'') \<and>
          map (\<lambda>i. m'' (buf + of_nat i)) [0..<length (file_data e)] = file_data e)"
    and others: "\<forall>name bs. is_cstring name bs \<longrightarrow> bs \<notin> d_name ` set (regular_files demo_directory) \<longrightarrow>
       lookup 0 m' name = Inr 0"
    using mkfs_readback [OF prem, of 0 "\<lambda>_. 0"] by blast
  have "lookup 0 m' (literal ''b'') = Inr 0" using others lit(2) no by blast
  moreover obtain inode m'' where "lookup 0 m' (literal ''a'') = Inr inode"
    "readall 0 m' inode 0x200000 = Inr (int (length (file_data demo_file)), m'')"
    "map (\<lambda>i. m'' (0x200000 + of_nat i)) [0..<length (file_data demo_file)] = file_data demo_file"
    using files mem lit(1) buf by blast
  moreover have d: "length (file_data demo_file) = 3" "file_data demo_file = [1, 2, 3]" by (simp_all add: demo_file_def)
  ultimately show ?thesis using m' unfolding d(1) unfolding d(2) of_nat_numeral
    by (intro exI [of _ m'] exI [of _ inode] exI [of _ m''] conjI)
qed

text \<open>
  C25: the two programs that allocate on the image do the same. With the counter of \<^verbatim>\<open>mkfs\<close> stored
  in the superblock, its \<^verbatim>\<open>alloc_free_block\<close> and \<^verbatim>\<open>alloc_inode\<close> return what the kernel's return and
  leave the image the kernel's leave.
\<close>

theorem allocators_agree:
  assumes "counted img st"
  shows "alloc_free_block img (seal img st) = (fst (make_block img st), seal img (snd (make_block img st))) \<and>
    alloc_inode img (seal img st) = (fst (make_inode img st), seal img (snd (make_inode img st))) \<and>
    counted img (snd (make_block img st)) \<and> counted img (snd (make_inode img st))"
  using make_block_seal [OF assms] make_inode_seal [OF assms] by (metis prod.collapse)

theorem allocators_agree_witness:
  "counted 0 \<lparr>image_mem = (\<lambda>_. 0), unused = 2048\<rparr> \<and>
    alloc_inode 0 (seal 0 \<lparr>image_mem = (\<lambda>_. 0), unused = 2048\<rparr>) =
      (fst (make_inode 0 \<lparr>image_mem = (\<lambda>_. 0), unused = 2048\<rparr>),
       seal 0 (snd (make_inode 0 \<lparr>image_mem = (\<lambda>_. 0), unused = 2048\<rparr>)))"
proof -
  have "\<not> block_used 0 (\<lambda>_. 0) b" for b by (simp add: block_used_def bit_load_bytes)
  then have "free_blocks 0 (\<lambda>_. 0) = {..<2048}" by (auto simp: free_blocks_def BLOCK_NUM_def)
  then have "counted 0 \<lparr>image_mem = (\<lambda>_. 0), unused = 2048\<rparr>" by (simp add: counted_def)
  with allocators_agree [OF this] show ?thesis by blast
qed

text \<open>
  Blocks are handed out in increasing order, each once, by the kernel and by \<^verbatim>\<open>mkfs\<close>: \<open>n\<close>
  allocations yield the \<open>n\<close> least free blocks, and when all are gone the next one fails and changes
  nothing.
\<close>

theorem blocks_in_order:
  assumes "bitmap_ok img m" and "n \<le> card (free_blocks img m)"
    and "counted img st" and "k \<le> card (free_blocks img (image_mem st))"
  shows "fst (grab_many (alloc_free_block img) n m) = map int (take n (sorted_list_of_set (free_blocks img m))) \<and>
    fst (grab_many (make_block img) k st) = map int (take k (sorted_list_of_set (free_blocks img (image_mem st)))) \<and>
    (n = card (free_blocks img m) \<longrightarrow>
      (case grab_many (alloc_free_block img) n m of (bs, m') \<Rightarrow> alloc_free_block img m' = (-1, m')))"
  using kblocks.grab_many_sorted [OF assms(1,2)] mblocks.grab_many_sorted [OF assms(3,4)]
    kblocks.grab_exhausted [OF assms(1)] by (auto split: prod.split)

theorem blocks_in_order_witness:
  "\<exists>m. bitmap_ok 0 m \<and> fst (grab_many (alloc_free_block 0) 5 m) = map int (take 5 (sorted_list_of_set (free_blocks 0 m)))"
proof (rule demo_image)
  fix m L n ib bl
  assume "fs_ok 0 m L" and c: "card (free_blocks 0 m) = 2043"
  then have ok: "bitmap_ok 0 m" using disk_okD(1) [OF fs_okD(1)] by blast
  have "\<not> block_used 0 (\<lambda>_. 0) b" for b by (simp add: block_used_def bit_load_bytes)
  then have "free_blocks 0 (\<lambda>_. 0) = {..<2048}" by (auto simp: free_blocks_def BLOCK_NUM_def)
  then have "counted 0 \<lparr>image_mem = (\<lambda>_. 0), unused = 2048\<rparr>" by (simp add: counted_def)
  from blocks_in_order [OF ok _ this, of 5 0] c ok show ?thesis by auto
qed

section \<open>Reading and writing\<close>

text \<open>
  C29: \<^verbatim>\<open>read_from_inode\<close> returns as many bytes as were asked for and the file has from the offset
  on, and stores in the buffer exactly those bytes of the file, and nothing elsewhere.
\<close>

theorem read_correct:
  assumes "fs_ok img m L" and "L n = Some (ib, bl)" and "unat off \<le> file_size img m n"
    and "bytes_at buf (min (unat count) (file_size img m n - unat off)) \<inter> image_span img = {}"
  shows "\<exists>k m'. k = min (unat count) (file_size img m n - unat off) \<and>
    read_from_inode img m (get_inode img (int n)) off buf count = Inr (int k, m') \<and>
    map (\<lambda>i. m' (buf + of_nat i)) [0..<k] = take k (drop (unat off) (content img m n bl)) \<and>
    same_outside (bytes_at buf k) m m'"
  using read_from_inode_spec [OF assms(1-3) refl assms(4)] by blast

lemma far_buffer: "k \<le> 1048576 \<Longrightarrow> bytes_at 0x200000 k \<inter> span 0 0 1048576 = {}"
  by (auto simp: bytes_at_def span_def unat_sub_if' split: if_splits)

theorem read_correct_witness:
  "\<exists>m n m'. read_from_inode 0 m (get_inode 0 (int n)) 1 0x200000 100 = Inr (2, m') \<and>
    map (\<lambda>i. m' (0x200000 + of_nat i)) [0..<2] = [2, 3]"
proof (rule demo_image)
  fix m L n ib bl
  assume a: "fs_ok 0 m L" "L n = Some (ib, bl)" "content 0 m n bl = [1, 2, 3]" "file_size 0 m n = 3"
  have "\<exists>k m'. k = min (unat (100 :: 32 word)) (file_size 0 m n - unat (1 :: 32 word)) \<and>
    read_from_inode 0 m (get_inode 0 (int n)) 1 0x200000 100 = Inr (int k, m') \<and>
    map (\<lambda>i. m' (0x200000 + of_nat i)) [0..<k] = take k (drop (unat (1 :: 32 word)) (content 0 m n bl)) \<and>
    same_outside (bytes_at 0x200000 k) m m'"
    by (rule read_correct [OF a(1,2)]) (simp_all add: a(4) far_buffer)
  then obtain m' where "read_from_inode 0 m (get_inode 0 (int n)) 1 0x200000 100 = Inr (int 2, m')"
    "map (\<lambda>i. m' (0x200000 + of_nat i)) [0..<2] = take 2 (drop 1 [1, 2, 3 :: u8])"
    by (auto simp: a(3,4))
  moreover have "take 2 (drop 1 [1, 2, 3 :: u8]) = [2, 3]" by simp
  ultimately show ?thesis unfolding of_nat_numeral by metis
qed

text \<open>
  C11: a write to a file at an offset that is not past its end, for which the image has the blocks,
  writes every byte: the file gets the blocks it lacks and the new bytes replace or extend the old
  ones from the offset on; the file system stays well formed, the contents of every other file stay,
  and nothing outside the image changes.
\<close>

theorem write_correct:
  assumes "fs_ok img m L" and "L n = Some (ib, bl)" and "unat off \<le> file_size img m n"
    and "unat count < 2 ^ 31" and "unat off + unat count \<le> 71680"
    and "blocks_needed (ib, bl) (blocks_for (unat off + unat count)) \<le> card (free_blocks img m)"
    and "bytes_at buf (unat count) \<inter> image_span img = {}"
  shows "\<exists>m' ib' new. write_to_inode img m (get_inode img (int n)) off buf count =
      Inr (unat count, off + count, m') \<and> fs_ok img m' (L(n \<mapsto> (ib', bl @ new))) \<and>
    content img m' n (bl @ new) =
      overwrite (content img m n bl) (unat off) (map (\<lambda>i. m (buf + of_nat i)) [0..<unat count]) \<and>
    (\<forall>n2 ib2 bl2. n2 \<noteq> n \<longrightarrow> L n2 = Some (ib2, bl2) \<longrightarrow> content img m' n2 bl2 = content img m n2 bl2) \<and>
    same_outside (image_span img) m m'"
  using write_to_inode_spec [OF assms] by metis

theorem write_correct_witness:
  "\<exists>m L n ib bl m' ib' new. fs_ok 0 m L \<and> L n = Some (ib, bl) \<and> content 0 m n bl = [1, 2, 3] \<and>
    write_to_inode 0 m (get_inode 0 (int n)) 3 0x200000 70000 = Inr (70000, 70003, m') \<and>
    fs_ok 0 m' (L(n \<mapsto> (ib', bl @ new)))"
proof (rule demo_image)
  fix m L n ib bl
  assume a: "fs_ok 0 m L" "L n = Some (ib, bl)" "content 0 m n bl = [1, 2, 3]" "file_size 0 m n = 3"
    "card (free_blocks 0 m) = 2043"
  have "\<exists>m' ib' new. write_to_inode 0 m (get_inode 0 (int n)) 3 0x200000 70000 =
      Inr (unat (70000 :: 32 word), 3 + 70000, m') \<and> fs_ok 0 m' (L(n \<mapsto> (ib', bl @ new))) \<and>
    content 0 m' n (bl @ new) =
      overwrite (content 0 m n bl) (unat (3 :: 32 word)) (map (\<lambda>i. m (0x200000 + of_nat i)) [0..<unat (70000 :: 32 word)]) \<and>
    (\<forall>n2 ib2 bl2. n2 \<noteq> n \<longrightarrow> L n2 = Some (ib2, bl2) \<longrightarrow> content 0 m' n2 bl2 = content 0 m n2 bl2) \<and>
    same_outside (image_span 0) m m'"
    by (rule write_correct [OF a(1,2)]) (auto simp: a(4,5) far_buffer blocks_for_def)
  then obtain m' ib' new where "write_to_inode 0 m (get_inode 0 (int n)) 3 0x200000 70000 = Inr (70000, 70003, m')"
    "fs_ok 0 m' (L(n \<mapsto> (ib', bl @ new)))" by auto
  with a(1-3) show ?thesis by blast
qed

text \<open>
  C28: what is written is read back: after a successful write, reading as many bytes at the same
  offset into another buffer returns that number and the bytes that were written.
\<close>

theorem write_read_roundtrip:
  assumes "fs_ok img m L" and "L n = Some (ib, bl)" and "unat off \<le> file_size img m n"
    and "unat count < 2 ^ 31" and "unat off + unat count \<le> 71680"
    and "blocks_needed (ib, bl) (blocks_for (unat off + unat count)) \<le> card (free_blocks img m)"
    and "bytes_at buf (unat count) \<inter> image_span img = {}" and "bytes_at buf' (unat count) \<inter> image_span img = {}"
  shows "\<exists>m' m''. write_to_inode img m (get_inode img (int n)) off buf count = Inr (unat count, off + count, m') \<and>
    read_from_inode img m' (get_inode img (int n)) off buf' count = Inr (int (unat count), m'') \<and>
    map (\<lambda>i. m'' (buf' + of_nat i)) [0..<unat count] = map (\<lambda>i. m (buf + of_nat i)) [0..<unat count]"
proof -
  let ?data = "map (\<lambda>i. m (buf + of_nat i)) [0..<unat count]" and ?old = "content img m n bl"
  obtain m' ib' new where w: "write_to_inode img m (get_inode img (int n)) off buf count = Inr (unat count, off + count, m')"
    "fs_ok img m' (L(n \<mapsto> (ib', bl @ new)))" "content img m' n (bl @ new) = overwrite ?old (unat off) ?data"
    using write_to_inode_spec [OF assms(1-7)] by blast
  have l: "(L(n \<mapsto> (ib', bl @ new))) n = Some (ib', bl @ new)" by simp
  have "length (content img m' n (bl @ new)) = max (file_size img m n) (unat off + unat count)"
    unfolding w(3) using assms(3) by (simp add: overwrite_length)
  then have sz: "file_size img m' n = max (file_size img m n) (unat off + unat count)" by simp
  have off: "unat off \<le> file_size img m' n" and k: "unat count = min (unat count) (file_size img m' n - unat off)"
    using sz by auto
  obtain m'' where r: "read_from_inode img m' (get_inode img (int n)) off buf' count = Inr (int (unat count), m'')"
    "map (\<lambda>i. m'' (buf' + of_nat i)) [0..<unat count] =
      take (unat count) (drop (unat off) (content img m' n (bl @ new)))"
    using read_from_inode_spec [OF w(2) l off k assms(8)] by blast
  have "take (unat count) (drop (unat off) (overwrite ?old (unat off) ?data)) = ?data"
    using assms(3) by (simp add: overwrite_def)
  with w(1,3) r show ?thesis by auto
qed

theorem write_read_roundtrip_witness:
  "\<exists>m n m' m''. write_to_inode 0 m (get_inode 0 (int n)) 2 0x200000 5 = Inr (5, 7, m') \<and>
    read_from_inode 0 m' (get_inode 0 (int n)) 2 0x200000 5 = Inr (5, m'')"
proof (rule demo_image)
  fix m L n ib bl
  assume a: "fs_ok 0 m L" "L n = Some (ib, bl)" "file_size 0 m n = 3" "card (free_blocks 0 m) = 2043"
  have "\<exists>m' m''. write_to_inode 0 m (get_inode 0 (int n)) 2 0x200000 5 = Inr (unat (5 :: 32 word), 2 + 5, m') \<and>
    read_from_inode 0 m' (get_inode 0 (int n)) 2 0x200000 5 = Inr (int (unat (5 :: 32 word)), m'') \<and>
    map (\<lambda>i. m'' (0x200000 + of_nat i)) [0..<unat (5 :: 32 word)] = map (\<lambda>i. m (0x200000 + of_nat i)) [0..<unat (5 :: 32 word)]"
    by (rule write_read_roundtrip [OF a(1,2)]) (simp_all add: a(3,4) far_buffer blocks_for_def)
  then show ?thesis by auto
qed

section \<open>Creating a file\<close>

text \<open>
  C27: \<^verbatim>\<open>create\<close> with a name of less than 32 bytes, when the table and the image have room, returns
  the inode of a new empty file with that name; the file system stays well formed, every file that
  was there keeps its name, sizes and contents, and nothing outside the image changes.
\<close>

theorem create_correct:
  assumes "fs_ok img m L" and "free_blocks img m \<noteq> {}" and "\<exists>i < FAT_LEN. fat_entry img m i = 0"
    and "is_cstring (string_at m name) bs" and "length bs < 32"
    and "bytes_at name (length bs + 1) \<inter> image_span img = {}"
  shows "\<exists>n m'. create img m name = Inr (get_inode img (int n), m') \<and> n \<in> free_blocks img m \<and> L n = None \<and>
    fs_ok img m' (L(n \<mapsto> (0, []))) \<and> file_name img m' n bs \<and> file_size img m' n = 0 \<and>
    same_files img m m' L \<and> free_blocks img m' = free_blocks img m - {n} \<and>
    same_outside (image_span img) m m'"
  by (rule create_spec [OF assms])

theorem create_correct_witness:
  "\<exists>m L n m'. fs_ok 0 m L \<and> create 0 m 0x200000 = Inr (get_inode 0 (int n), m') \<and>
    fs_ok 0 m' (L(n \<mapsto> (0, []))) \<and> file_name 0 m' n []"
proof (rule demo_image)
  fix m L n ib bl
  assume a: "fs_ok 0 m L" "card (free_blocks 0 m) = 2043" "slots 0 m = 255"
  let ?m = "m(0x200000 := 0)"
  have "same_outside (span 0 0 6 \<union> - image_span 0) m ?m" by (auto simp: same_outside_def span_def)
  note e = fs_ok_superblock [OF a(1) this]
  have "0 < slots 0 ?m" using a(3) e(4) by simp
  then have "\<exists>i < FAT_LEN. fat_entry 0 ?m i = 0" by (auto simp: slots_def card_gt_0_iff)
  moreover have "free_blocks 0 ?m \<noteq> {}" using a(2) e(3) by auto
  moreover have "is_cstring (string_at ?m 0x200000) []" by (simp add: is_cstring_def string_at_def)
  moreover have "bytes_at 0x200000 (length ([] :: u8 list) + 1) \<inter> image_span 0 = {}"
    using far_buffer [of 1] by simp
  ultimately show ?thesis using create_correct [OF e(1)] e(1) by fastforce
qed

end
