(* ===== verification/Boot.thy ===== *)
theory Boot
  imports Traps
begin

text \<open>
  \<^verbatim>\<open>kernel/main.c\<close> and the \<^verbatim>\<open>init_\<close> functions it calls: the start of the kernel up to the call of
  \<^verbatim>\<open>schedule\<close>, with the test of the allocator that every boot runs. The writes of \<^verbatim>\<open>sstatus\<close>,
  \<^verbatim>\<open>stvec\<close> and \<^verbatim>\<open>sie\<close> have no counterpart in the state; \<^verbatim>\<open>shutdown\<close> is never reached.
\<close>

section \<open>Clearing the uninitialised data\<close>

text \<open>
  The loop over 64-bit words. The end of the address space is past the last pointer, so the loop
  may run for ever.
\<close>

partial_function (option) clear_bss_loop :: "mem \<Rightarrow> addr \<Rightarrow> addr \<Rightarrow> mem option" where
  "clear_bss_loop m p e = (if p < e then clear_bss_loop (store64 m p 0) (p + 8) e else Some m)"

declare clear_bss_loop.simps [code]

text \<open>The variables of the kernel that have fields of their own are among the data cleared.\<close>

definition clear_bss :: "addr \<Rightarrow> addr \<Rightarrow> kernel \<Rightarrow> kernel outcome" where
  "clear_bss start end s =
     bindE (returns (clear_bss_loop (kmem s) start end)) (\<lambda>m.
     Inr ((set_kmem s m)\<lparr>pids := replicate 32 0, current := 0, idle := 0, init_proc := 0\<rparr>))"

section \<open>The test of the allocator\<close>

definition kprintf :: "kernel \<Rightarrow> string \<Rightarrow> arg list \<Rightarrow> kernel outcome" where
  "kprintf s fmt args =
     bindE (printf (Some fmt) args) (\<lambda>out. Inr (s\<lparr>console := console s @ map of_char out\<rparr>))"

definition wrap_alloc :: "kernel \<Rightarrow> usize \<Rightarrow> (addr \<times> kernel) outcome" where
  "wrap_alloc s sz =
     (let adjusted = (if sz \<le> 8 then 8 else next_power_of_two sz) in
      bindE (kalloc s sz) (\<lambda>(tmp, s).
      bindE (kprintf s (''request %dB, actually alloc 0x%xB, start address: %p'' @ [CHR 0x0A])
               [IntArg (ucast sz), IntArg (ucast adjusted), PtrArg tmp]) (\<lambda>s.
      Inr (tmp, s))))"

text \<open>The two loops over \<^verbatim>\<open>blocks\<close>.\<close>

fun alloc_blocks :: "nat \<Rightarrow> usize \<Rightarrow> kernel \<Rightarrow> (addr list \<times> kernel) outcome" where
  "alloc_blocks 0 sz s = Inr ([], s)"
| "alloc_blocks (Suc n) sz s =
     bindE (wrap_alloc s sz) (\<lambda>(p, s).
     bindE (alloc_blocks n sz s) (\<lambda>(ps, s). Inr (p # ps, s)))"

fun dealloc_blocks :: "addr list \<Rightarrow> usize \<Rightarrow> kernel \<Rightarrow> kernel outcome" where
  "dealloc_blocks [] sz s = Inr s"
| "dealloc_blocks (p # ps) sz s = bindE (kdealloc s p sz) (dealloc_blocks ps sz)"

definition test_round :: "usize \<Rightarrow> kernel \<Rightarrow> kernel outcome" where
  "test_round sz s =
     bindE (alloc_blocks 10 sz s) (\<lambda>(blocks, s). dealloc_blocks blocks sz s)"

definition test_mixed :: "kernel \<Rightarrow> kernel outcome" where
  "test_mixed s =
     bindE (wrap_alloc s 100) (\<lambda>(b0, s).
     bindE (wrap_alloc s 60) (\<lambda>(b1, s).
     bindE (wrap_alloc s 100) (\<lambda>(b2, s).
     bindE (kdealloc s b0 100) (\<lambda>s.
     bindE (wrap_alloc s 30) (\<lambda>(b3, s).
     bindE (kdealloc s b1 60) (\<lambda>s.
     bindE (kdealloc s b3 30) (\<lambda>s.
     kdealloc s b2 100)))))))"

definition test_alloc :: "kernel \<Rightarrow> kernel outcome" where
  "test_alloc s =
     (let s = put_line ''Buddy test'' s;
          s = put_line ''step0'' s
      in bindE (test_round 1 s) (\<lambda>s.
         bindE (test_round 30 (put_line ''step1'' s)) (\<lambda>s.
         bindE (test_mixed (put_line ''step2'' s)) (\<lambda>s.
         Inr (put_line ''Buddy test passed!'' s)))))"

section \<open>Starting the parts\<close>

definition init_memory :: "image \<Rightarrow> kernel \<Rightarrow> kernel outcome" where
  "init_memory img s =
     bindE (init_allocator (ekernel img) (kheap s)) (\<lambda>h.
     Inr (put_line ''***** Init Memory *****'' (s\<lparr>kheap := h\<rparr>)))"

definition init_fs :: "kernel \<Rightarrow> kernel" where
  "init_fs s = put_line ''***** Init FS *****'' s"

definition init_timer :: "environment \<Rightarrow> kernel \<Rightarrow> kernel" where
  "init_timer env s = set_next_timeout env s"

definition init_trap :: "environment \<Rightarrow> kernel \<Rightarrow> kernel" where
  "init_trap env s = put_line ''***** Init Trap *****'' (init_timer env s)"

definition boot :: "image \<Rightarrow> addr \<Rightarrow> environment \<Rightarrow> kernel \<Rightarrow> kernel outcome" where
  "boot img sbss env s =
     bindE (clear_bss sbss (ebss img) s) (\<lambda>s.
     bindE (init_memory img s) (\<lambda>s.
     bindE (test_alloc s) (\<lambda>s.
     init_process img (r_sstatus env) (init_trap env (init_fs s)))))"

section \<open>What the loop clears\<close>

lemma clear_bss_loop_spec:
  assumes "aligned 3 p" and "aligned 3 e" and "p \<le> e"
  shows "clear_bss_loop m p e = Some (\<lambda>x. if p \<le> x \<and> x < e then 0 else m x)"
  using assms
proof (induction "unat e - unat p" arbitrary: p m rule: less_induct)
  case less
  show ?case
  proof (cases "p = e")
    case True
    then show ?thesis by (subst clear_bss_loop.simps) (auto simp: fun_eq_iff)
  next
    case False
    then have pe: "unat p < unat e" using less.prems(3) by (simp add: word_le_nat_alt word_unat_eq_iff)
    have d: "8 dvd unat p" "8 dvd unat e" using less.prems(1,2) by (simp_all add: aligned_nat_dvd)
    then have p8: "unat p + 8 \<le> unat e" using pe by (auto elim!: dvdE)
    moreover have "unat e < 2 ^ 64" using unsigned_less [of e, where ?'a = nat] by simp
    ultimately have up: "unat (p + 8) = unat p + 8" by (simp add: unat_word_ariths)
    have "aligned 3 (p + 8)" using d(1) up by (simp add: aligned_nat_dvd)
    moreover have "p + 8 \<le> e" using p8 up by (simp add: word_le_nat_alt)
    ultimately have "clear_bss_loop (store64 m p 0) (p + 8) e =
        Some (\<lambda>x. if p + 8 \<le> x \<and> x < e then 0 else store64 m p 0 x)"
      using up pe by (intro less.hyps less.prems) auto
    moreover have "(if p + 8 \<le> x \<and> x < e then 0 else store64 m p 0 x) = (if p \<le> x \<and> x < e then 0 else m x)" for x
    proof -
      have "unat (x - p) < 8 \<longleftrightarrow> p \<le> x \<and> x < p + 8"
      proof (cases "p \<le> x")
        case True
        then show ?thesis using up by (auto simp: unat_sub word_le_nat_alt word_less_nat_alt)
      next
        case F: False
        then have "unat (x - p) = unat x + 2 ^ 64 - unat p" by (simp add: unat_sub_if' word_le_nat_alt)
        then show ?thesis using F p8 \<open>unat e < 2 ^ 64\<close> by (simp add: word_le_nat_alt)
      qed
      then show ?thesis using p8 up
        by (auto simp: store_bytes_def word_le_nat_alt word_less_nat_alt)
    qed
    moreover have "p < e" using pe by (simp add: word_less_nat_alt)
    ultimately show ?thesis by (subst clear_bss_loop.simps) simp
  qed
qed

end
