(* ===== verification/Boot_Properties.thy ===== *)
theory Boot_Properties
  imports Boot Kernel_Heap Memory_Properties Process_Properties
begin

text \<open>
  The test of the allocator at every boot passes and leaves the heap as it was. The heap is described
  by its set of free addresses; that enough blocks of 128 bytes are free is enough for each request.
\<close>

section \<open>Room for small blocks\<close>

definition rooms :: "nat \<Rightarrow> addr set \<Rightarrow> bool" where
  "rooms n F \<longleftrightarrow> (\<exists>A. finite A \<and> n \<le> card A \<and> (\<forall>a \<in> A. aligned 7 a \<and> blk 7 a \<subseteq> F))"

lemma rooms_mono: "rooms n F \<Longrightarrow> F \<subseteq> G \<Longrightarrow> m \<le> n \<Longrightarrow> rooms m G"
  unfolding rooms_def by (meson order_trans)

text \<open>A block that is not larger meets one of the blocks at most.\<close>

lemma rooms_minus:
  assumes "rooms (Suc n) F" and "k \<le> 7"
  shows "rooms n (F - blk k a)"
proof -
  obtain A where A: "finite A" "Suc n \<le> card A" "\<forall>a \<in> A. aligned 7 a \<and> blk 7 a \<subseteq> F"
    using assms(1) by (auto simp: rooms_def)
  have meet: "a \<in> blk 7 c" if "blk 7 c \<inter> blk k a \<noteq> {}" for c
    using that blk_disjoint_iff [OF assms(2), of a c] by (simp add: Int_commute)
  have "c = d" if "c \<in> A" "d \<in> A" "blk 7 c \<inter> blk k a \<noteq> {}" "blk 7 d \<inter> blk k a \<noteq> {}" for c d
    using aligned_blk_disjoint [of 7 c d] A(3) that meet by blast
  then obtain e where e: "\<forall>c \<in> A - {e}. blk 7 c \<inter> blk k a = {}" by (cases "\<exists>c \<in> A. blk 7 c \<inter> blk k a \<noteq> {}") blast+
  have "n \<le> card (A - {e})" using A(1,2) by (cases "e \<in> A") auto
  moreover have "\<forall>c \<in> A - {e}. aligned 7 c \<and> blk 7 c \<subseteq> F - blk k a" using A(3) e by blast
  ultimately show ?thesis using A(1) by (auto simp: rooms_def intro!: exI [of _ "A - {e}"])
qed

lemma page_rooms:
  assumes "aligned 12 b" and "blk 12 b \<subseteq> F"
  shows "rooms 32 F"
proof -
  define f where "f i = b + 2 ^ 7 * (of_nat i :: u64)" for i
  have un: "unat (f i - b) = 128 * i" if "i < 32" for i
    using that by (simp add: f_def unat_word_ariths unat_of_nat)
  have "inj_on f {..<32}"
  proof (rule inj_onI)
    fix i j assume "i \<in> {..<32}" "j \<in> {..<32 :: nat}" "f i = f j"
    then have "128 * i = 128 * j" using un by (metis lessThan_iff)
    then show "i = j" by simp
  qed
  then have "card (f ` {..<32}) = 32" by (simp add: card_image)
  moreover have "aligned 7 (f i)" for i
    unfolding f_def
  proof (rule aligned_add)
    show "aligned 7 b" by (rule aligned_mono [OF assms(1)]) simp
    show "aligned 7 (2 ^ 7 * (of_nat i :: u64))" unfolding aligned_iff_ex by blast
  qed
  moreover have "blk 7 (f i) \<subseteq> F" if "i < 32" for i
  proof -
    have "f i \<in> bytes_at b (2 ^ 12)" using un [OF that] that by (simp add: bytes_at_def)
    then have "blk 12 (f i) = blk 12 b" using bytes_at_blk [OF assms(1)] by (intro blk_eq) simp
    then show ?thesis using blk_mono [of 7 12 "f i"] assms(2) by auto
  qed
  ultimately show ?thesis unfolding rooms_def by (intro exI [of _ "f ` {..<32}"]) auto
qed

section \<open>The steps of the test\<close>

lemma wrap_message:
  "\<exists>out. kprintf s (''request %dB, actually alloc 0x%xB, start address: %p'' @ [CHR 0x0A]) [IntArg a, IntArg b, PtrArg p] =
    Inr (s\<lparr>console := console s @ out\<rparr>)"
  by (auto simp: kprintf_def printf_def)

lemma wrap_alloc_spec:
  assumes inv: "buddy_inv R (kheap s) F" and r: "rooms (Suc n) F" and o: "size_order sz = k" "k \<le> 7"
  obtains a s' where "wrap_alloc s sz = Inr (a, s')" and "aligned k a" and "a \<noteq> 0" and "blk k a \<subseteq> F"
    and "buddy_inv R (kheap s') (F - blk k a)" and "rooms n (F - blk k a)" and "heap_step F s s'"
proof -
  obtain c where c: "blk 7 c \<subseteq> F" using r unfolding rooms_def by (metis card.empty ex_in_conv not_less_eq_eq zero_le)
  then have "blk k c \<subseteq> F" using blk_mono [OF o(2)] by blast
  with alloc_spec [OF inv, of sz] o(1) obtain a h where a: "alloc (kheap s) sz = Inr (a, h)" "aligned k a" "a \<noteq> 0"
    "blk k a \<subseteq> F" "buddy_inv R h (F - blk k a)" "same_outside F (kmem s) (fst h)"
    by (cases "alloc (kheap s) sz") auto
  obtain out where out: "kprintf (s\<lparr>kheap := h\<rparr>)
      (''request %dB, actually alloc 0x%xB, start address: %p'' @ [CHR 0x0A])
      [IntArg (ucast sz), IntArg (ucast (if sz \<le> 8 then 8 else next_power_of_two sz)), PtrArg a] =
      Inr (s\<lparr>kheap := h, console := console s @ out\<rparr>)"
    using wrap_message [of "s\<lparr>kheap := h\<rparr>" "ucast sz" "ucast (if sz \<le> 8 then 8 else next_power_of_two sz)" a]
    by auto
  have "wrap_alloc s sz = Inr (a, s\<lparr>kheap := h, console := console s @ out\<rparr>)"
    using a(1) out unfolding wrap_alloc_def kalloc_def Let_def by simp
  with a rooms_minus [OF r o(2)] heap_stepI [OF a(6)] show thesis using that by auto
qed

text \<open>The blocks that have been handed out, one after the other.\<close>

fun live :: "nat \<Rightarrow> addr list \<Rightarrow> addr set \<Rightarrow> bool" where
  "live k [] F \<longleftrightarrow> True"
| "live k (p # ps) F \<longleftrightarrow> aligned k p \<and> p \<noteq> 0 \<and> blk k p \<subseteq> F \<and> live k ps (F - blk k p)"

abbreviation left_of :: "nat \<Rightarrow> addr list \<Rightarrow> addr set \<Rightarrow> addr set" where
  "left_of k ps F \<equiv> F - (\<Union>p \<in> set ps. blk k p)"

lemma live_subset: "live k ps F \<Longrightarrow> (\<Union>p \<in> set ps. blk k p) \<subseteq> F"
proof (induction ps arbitrary: F)
  case (Cons p ps)
  then have "blk k p \<subseteq> F" "(\<Union>q \<in> set ps. blk k q) \<subseteq> F - blk k p" by simp_all
  then show ?case unfolding list.set UN_insert by blast
qed simp

lemma live_mono: "live k ps F \<Longrightarrow> F \<subseteq> G \<Longrightarrow> live k ps G"
proof (induction ps arbitrary: F G)
  case (Cons p ps)
  then have "live k ps (G - blk k p)" using Cons.IH [of "F - blk k p" "G - blk k p"] by auto
  with Cons.prems show ?case by auto
qed simp

lemma alloc_blocks_spec:
  assumes "buddy_inv R (kheap s) F" and "rooms n F" and "size_order sz = k" and "k \<le> 7"
  shows "\<exists>ps s'. alloc_blocks n sz s = Inr (ps, s') \<and> live k ps F \<and> buddy_inv R (kheap s') (left_of k ps F) \<and> heap_step F s s'"
  using assms(1,2)
proof (induction n arbitrary: s F)
  case 0
  then show ?case using heap_stepI [of F s "kheap s" "[]"] by simp
next
  case (Suc n)
  obtain a s1 where a: "wrap_alloc s sz = Inr (a, s1)" "aligned k a" "a \<noteq> 0" "blk k a \<subseteq> F"
    "buddy_inv R (kheap s1) (F - blk k a)" "rooms n (F - blk k a)" "heap_step F s s1"
    by (rule wrap_alloc_spec [OF Suc.prems assms(3,4)])
  obtain ps s2 where r: "alloc_blocks n sz s1 = Inr (ps, s2)" "live k ps (F - blk k a)"
    "buddy_inv R (kheap s2) (left_of k ps (F - blk k a))" "heap_step (F - blk k a) s1 s2"
    using Suc.IH [OF a(5,6)] by blast
  have "left_of k (a # ps) F = left_of k ps (F - blk k a)" by auto
  moreover have "heap_step F s s2" using heap_step_trans [OF a(7) heap_step_mono [OF r(4)]] by blast
  ultimately show ?case using a r by auto
qed

lemma dealloc_blocks_spec:
  assumes "live k ps F" and "buddy_inv R (kheap s) (left_of k ps F)" and "F \<subseteq> R" and "size_order sz = k"
  shows "\<exists>s'. dealloc_blocks ps sz s = Inr s' \<and> buddy_inv R (kheap s') F \<and> heap_step F s s'"
  using assms(1,2)
proof (induction ps arbitrary: s)
  case Nil
  then show ?case using heap_stepI [of F s "kheap s" "[]"] by simp
next
  case (Cons p ps)
  have l: "live k ps (F - blk k p)" "aligned k p" "p \<noteq> 0" "blk k p \<subseteq> F" using Cons.prems(1) by simp_all
  have "blk k p \<subseteq> R - left_of k (p # ps) F" using l(4) assms(3) by auto
  then obtain s1 where s1: "kdealloc s p sz = Inr s1" "buddy_inv R (kheap s1) (left_of k (p # ps) F \<union> blk k p)"
    "heap_step (left_of k (p # ps) F \<union> blk k p) s s1"
    by (rule kdealloc_spec [OF Cons.prems(2) assms(4) l(2,3)])
  have "left_of k (p # ps) F \<union> blk k p = left_of k ps F" using l(4) live_subset [OF l(1)] by auto
  with s1(2) have inv: "buddy_inv R (kheap s1) (left_of k ps F)" by simp
  have "live k ps F" using live_mono [OF l(1)] by blast
  from Cons.IH [OF this inv] obtain s2 where "dealloc_blocks ps sz s1 = Inr s2" "buddy_inv R (kheap s2) F" "heap_step F s1 s2"
    by blast
  moreover have "heap_step F s s1" by (rule heap_step_mono [OF s1(3)]) (use l(4) in auto)
  ultimately show ?case using s1(1) by (auto intro: heap_step_trans)
qed

lemma test_round_spec:
  assumes "buddy_inv R (kheap s) F" and "rooms 10 F" and "size_order sz = k" and "k \<le> 7"
  shows "\<exists>s'. test_round sz s = Inr s' \<and> buddy_inv R (kheap s') F \<and> heap_step F s s'"
proof -
  obtain ps s1 where a: "alloc_blocks 10 sz s = Inr (ps, s1)" "live k ps F" "buddy_inv R (kheap s1) (left_of k ps F)"
    "heap_step F s s1"
    using alloc_blocks_spec [OF assms] by blast
  obtain s2 where "dealloc_blocks ps sz s1 = Inr s2" "buddy_inv R (kheap s2) F" "heap_step F s1 s2"
    using dealloc_blocks_spec [OF a(2,3) buddy.inv_region [OF assms(1)] assms(3)] by blast
  with a(1,4) show ?thesis by (auto simp: test_round_def intro: heap_step_trans)
qed

lemma test_mixed_spec:
  assumes inv: "buddy_inv R (kheap s) F" and r: "rooms 10 F"
    and o: "size_order 100 = 7" "size_order 60 = 6" "size_order 30 = 5"
  shows "\<exists>s'. test_mixed s = Inr s' \<and> buddy_inv R (kheap s') F \<and> heap_step F s s'"
proof -
  have FR: "F \<subseteq> R" by (rule buddy.inv_region [OF inv])
  have r3: "rooms (Suc 3) F" by (rule rooms_mono [OF r]) simp_all
  obtain b0 s1 where 0: "wrap_alloc s 100 = Inr (b0, s1)" "aligned 7 b0" "b0 \<noteq> 0" "blk 7 b0 \<subseteq> F"
    "buddy_inv R (kheap s1) (F - blk 7 b0)" "rooms 3 (F - blk 7 b0)" "heap_step F s s1"
    by (rule wrap_alloc_spec [OF inv r3 o(1)]) simp
  let ?F1 = "F - blk 7 b0"
  have r1: "rooms (Suc 2) ?F1" using 0(6) by (simp add: numeral_3_eq_3)
  obtain b1 s2 where 1: "wrap_alloc s1 60 = Inr (b1, s2)" "aligned 6 b1" "b1 \<noteq> 0" "blk 6 b1 \<subseteq> ?F1"
    "buddy_inv R (kheap s2) (?F1 - blk 6 b1)" "rooms 2 (?F1 - blk 6 b1)" "heap_step ?F1 s1 s2"
    by (rule wrap_alloc_spec [OF 0(5) r1 o(2)]) simp
  let ?F2 = "?F1 - blk 6 b1"
  have r2: "rooms (Suc 1) ?F2" using 1(6) by (simp add: numeral_2_eq_2)
  obtain b2 s3 where 2: "wrap_alloc s2 100 = Inr (b2, s3)" "aligned 7 b2" "b2 \<noteq> 0" "blk 7 b2 \<subseteq> ?F2"
    "buddy_inv R (kheap s3) (?F2 - blk 7 b2)" "rooms 1 (?F2 - blk 7 b2)" "heap_step ?F2 s2 s3"
    by (rule wrap_alloc_spec [OF 1(5) r2 o(1)]) simp
  let ?F3 = "?F2 - blk 7 b2"
  have "blk 7 b0 \<subseteq> R - ?F3" using 0(4) FR by blast
  then obtain s4 where 3: "kdealloc s3 b0 100 = Inr s4" "buddy_inv R (kheap s4) (?F3 \<union> blk 7 b0)" "heap_step (?F3 \<union> blk 7 b0) s3 s4"
    by (rule kdealloc_spec [OF 2(5) o(1) 0(2,3)])
  let ?F4 = "?F3 \<union> blk 7 b0"
  have r4: "rooms (Suc 0) ?F4" by (rule rooms_mono [OF 2(6)]) auto
  obtain b3 s5 where 4: "wrap_alloc s4 30 = Inr (b3, s5)" "aligned 5 b3" "b3 \<noteq> 0" "blk 5 b3 \<subseteq> ?F4"
    "buddy_inv R (kheap s5) (?F4 - blk 5 b3)" "heap_step ?F4 s4 s5"
    by (rule wrap_alloc_spec [OF 3(2) r4 o(3)]) simp
  let ?F5 = "?F4 - blk 5 b3"
  have "blk 6 b1 \<subseteq> R - ?F5" using 0(4) 1(4) FR by blast
  then obtain s6 where 5: "kdealloc s5 b1 60 = Inr s6" "buddy_inv R (kheap s6) (?F5 \<union> blk 6 b1)" "heap_step (?F5 \<union> blk 6 b1) s5 s6"
    by (rule kdealloc_spec [OF 4(5) o(2) 1(2,3)])
  let ?F6 = "?F5 \<union> blk 6 b1"
  have "blk 5 b3 \<subseteq> R - ?F6" using 0(4) 1(4) 4(4) FR by blast
  then obtain s7 where 6: "kdealloc s6 b3 30 = Inr s7" "buddy_inv R (kheap s7) (?F6 \<union> blk 5 b3)" "heap_step (?F6 \<union> blk 5 b3) s6 s7"
    by (rule kdealloc_spec [OF 5(2) o(3) 4(2,3)])
  let ?F7 = "?F6 \<union> blk 5 b3"
  have "blk 7 b2 \<subseteq> R - ?F7" using 0(4) 1(4) 2(4) 4(4) FR by blast
  then obtain s8 where 7: "kdealloc s7 b2 100 = Inr s8" "buddy_inv R (kheap s8) (?F7 \<union> blk 7 b2)" "heap_step (?F7 \<union> blk 7 b2) s7 s8"
    by (rule kdealloc_spec [OF 6(2) o(1) 2(2,3)])
  have all: "?F7 \<union> blk 7 b2 = F" using 0(4) 1(4) 2(4) 4(4) by blast
  have sub: "?F1 \<subseteq> F" "?F2 \<subseteq> F" "?F4 \<subseteq> F" "?F6 \<subseteq> F" "?F7 \<subseteq> F" using 0(4) 1(4) 4(4) by blast+
  have "heap_step F s s4"
    using heap_step_trans [OF heap_step_trans [OF heap_step_trans [OF 0(7) heap_step_mono [OF 1(7) sub(1)]]
      heap_step_mono [OF 2(7) sub(2)]] heap_step_mono [OF 3(3) sub(3)]] .
  moreover have "heap_step F s4 s8"
    using heap_step_trans [OF heap_step_trans [OF heap_step_trans [OF heap_step_mono [OF 4(6) sub(3)]
      heap_step_mono [OF 5(3) sub(4)]] heap_step_mono [OF 6(3) sub(5)]] 7(3) [unfolded all]] .
  ultimately have "heap_step F s s8" by (rule heap_step_trans)
  moreover have "test_mixed s = Inr s8"
    by (simp add: test_mixed_def 0(1) 1(1) 2(1) 3(1) 4(1) 5(1) 6(1) 7(1))
  ultimately show ?thesis using 7(2) unfolding all by blast
qed

section \<open>The test\<close>

text \<open>
  C22: the test of the allocator at boot passes on every heap with a free page: each of its
  twenty-four requests is met, the last line it puts out says so, the heap is well formed and has the
  same free memory as before, and of the rest of the memory and of the kernel nothing has changed.
\<close>

theorem boot_test_passes:
  assumes "buddy_inv R (kheap s) F" and "aligned 12 b" and "blk 12 b \<subseteq> F"
  shows "\<exists>h out. test_alloc s =
      Inr (s\<lparr>kheap := h, console := console s @ out @ map of_char (''Buddy test passed!'' @ [CHR 0x0A])\<rparr>) \<and>
    buddy_inv R h F \<and> same_outside F (kmem s) (fst h)"
proof -
  have r: "rooms 10 F" using rooms_mono [OF page_rooms [OF assms(2,3)]] by simp
  define s0 where "s0 = put_line ''step0'' (put_line ''Buddy test'' s)"
  have 0: "heap_step F s s0" unfolding s0_def using heap_step_put_line heap_step_trans by blast
  have "buddy_inv R (kheap s0) F" using assms(1) by (simp add: s0_def put_line_def)
  from test_round_spec [OF this r small_orders(1)] obtain s1 where
    1: "test_round 1 s0 = Inr s1" "buddy_inv R (kheap s1) F" "heap_step F s0 s1" by auto
  have "buddy_inv R (kheap (put_line ''step1'' s1)) F" using 1(2) by (simp add: put_line_def)
  from test_round_spec [OF this r small_orders(3)] obtain s2 where
    2: "test_round 30 (put_line ''step1'' s1) = Inr s2" "buddy_inv R (kheap s2) F" "heap_step F (put_line ''step1'' s1) s2" by auto
  have "buddy_inv R (kheap (put_line ''step2'' s2)) F" using 2(2) by (simp add: put_line_def)
  from test_mixed_spec [OF this r small_orders(5,4,3)] obtain s3 where
    3: "test_mixed (put_line ''step2'' s2) = Inr s3" "buddy_inv R (kheap s3) F" "heap_step F (put_line ''step2'' s2) s3" by auto
  have "heap_step F s s3"
    using 0 1(3) 2(3) 3(3) heap_step_put_line heap_step_trans by meson
  then obtain h out where s3: "s3 = s\<lparr>kheap := h, console := console s @ out\<rparr>" "same_outside F (kmem s) (kmem s3)"
    unfolding heap_step_def by blast
  have "test_alloc s = Inr (put_line ''Buddy test passed!'' s3)"
    using 1(1) 2(1) 3(1) by (simp add: test_alloc_def s0_def Let_def)
  also have "put_line ''Buddy test passed!'' s3 =
      s\<lparr>kheap := h, console := console s @ out @ map of_char (''Buddy test passed!'' @ [CHR 0x0A])\<rparr>"
    by (simp add: s3(1) put_line_def)
  finally have run: "test_alloc s =
      Inr (s\<lparr>kheap := h, console := console s @ out @ map of_char (''Buddy test passed!'' @ [CHR 0x0A])\<rparr>)" .
  have "buddy_inv R h F" "same_outside F (kmem s) (fst h)" using 3(2) s3 by simp_all
  with run show ?thesis by blast
qed

theorem boot_test_passes_witness:
  "\<exists>h out. test_alloc (demo_kernel\<lparr>kheap := small_heap\<rparr>) = Inr (demo_kernel\<lparr>kheap := h, console := out\<rparr>) \<and>
    buddy_inv heap h heap"
proof -
  have "buddy_inv heap (kheap (demo_kernel\<lparr>kheap := small_heap\<rparr>)) heap" using small_heap_inv by simp
  from boot_test_passes [OF this heap_page(2,1)] show ?thesis by auto
qed

section \<open>Clearing the uninitialised data\<close>

text \<open>
  The loop over the uninitialised data returns and clears exactly the bytes between its bounds,
  when they are multiples of eight, as the linker script makes them.
\<close>

theorem clear_bss_correct:
  assumes "aligned 3 start" and "aligned 3 end" and "start \<le> end"
  shows "\<exists>s'. clear_bss start end s = Inr s' \<and>
    kmem s' = (\<lambda>x. if start \<le> x \<and> x < end then 0 else kmem s x) \<and> pids s' = replicate 32 0"
  using clear_bss_loop_spec [OF assms] by (simp add: clear_bss_def set_kmem_def)

theorem clear_bss_correct_witness:
  "\<exists>s'. clear_bss 0x1000 0x1008 (set_kmem demo_kernel (\<lambda>_. 1)) = Inr s' \<and>
    kmem s' = (\<lambda>x. if 0x1000 \<le> x \<and> x < 0x1008 then 0 else 1)"
proof -
  have a: "aligned 3 0x1000" "aligned 3 0x1008" by (simp_all add: aligned_nat_dvd)
  have le: "(0x1000 :: addr) \<le> 0x1008" by simp
  have ones: "kmem (set_kmem demo_kernel (\<lambda>_. 1)) = (\<lambda>_. 1)" by (simp add: set_kmem_def)
  show ?thesis
    using clear_bss_correct [OF a le, of "set_kmem demo_kernel (\<lambda>_. 1)"] unfolding ones by blast
qed

end
