(* ===== verification/Ulib.thy ===== *)
theory Ulib
  imports Kprintf Traps
begin

text \<open>
  The library of the user programs: the stubs of \<^verbatim>\<open>user/syscall.c\<close>, which load the registers of a
  system call, and \<^verbatim>\<open>user/printf.c\<close>, here with the buffer, the format and the strings as bytes in
  memory and the arguments as the 64-bit slots of a \<^verbatim>\<open>va_list\<close>. What is printed is the sequence
  of the bytes given to \<^verbatim>\<open>putchar\<close>.
\<close>

section \<open>System calls\<close>

text \<open>The call with its three arguments, as the registers hold it at the \<^verbatim>\<open>ecall\<close>.\<close>

record user_call =
  call_num :: usize
  call_a0 :: usize
  call_a1 :: usize
  call_a2 :: usize

definition sys_call :: "usize \<Rightarrow> usize \<Rightarrow> usize \<Rightarrow> usize \<Rightarrow> user_call" where
  "sys_call num a0 a1 a2 = \<lparr>call_num = num, call_a0 = a0, call_a1 = a1, call_a2 = a2\<rparr>"

text \<open>An \<^verbatim>\<open>int\<close> argument is sign-extended, a \<^verbatim>\<open>char\<close> is not.\<close>

definition u_exit :: user_call where "u_exit = sys_call SYS_exit 0 0 0"
definition u_putchar :: "u8 \<Rightarrow> user_call" where "u_putchar c = sys_call SYS_putchar (ucast c) 0 0"
definition u_getpid :: user_call where "u_getpid = sys_call SYS_getpid 0 0 0"
definition u_fork :: user_call where "u_fork = sys_call SYS_fork 0 0 0"
definition u_wait :: user_call where "u_wait = sys_call SYS_wait 0 0 0"
definition u_exec :: "addr \<Rightarrow> user_call" where "u_exec name = sys_call SYS_exec name 0 0"

definition u_open :: "addr \<Rightarrow> 32 word \<Rightarrow> user_call" where
  "u_open name flags = sys_call SYS_open name (scast flags) 0"

definition u_close :: "32 word \<Rightarrow> user_call" where
  "u_close fd = sys_call SYS_close (scast fd) 0 0"

definition u_read :: "32 word \<Rightarrow> addr \<Rightarrow> 32 word \<Rightarrow> user_call" where
  "u_read fd buf count = sys_call SYS_read (scast fd) buf (scast count)"

definition u_write :: "32 word \<Rightarrow> addr \<Rightarrow> 32 word \<Rightarrow> user_call" where
  "u_write fd buf count = sys_call SYS_write (scast fd) buf (scast count)"

definition u_getchar :: "addr \<Rightarrow> user_call" where
  "u_getchar c = u_read 0 c 1"

text \<open>The registers of the program at the call; the other registers keep what they hold.\<close>

definition load_call :: "user_call \<Rightarrow> usize list \<Rightarrow> usize list" where
  "load_call c x = x[10 := call_a0 c, 11 := call_a1 c, 12 := call_a2 c, 17 := call_num c]"

section \<open>Numbers\<close>

text \<open>\<^verbatim>\<open>digits\<close> as bytes. The loop fills \<^verbatim>\<open>buf\<close> from the front; a full buffer is an access outside it.\<close>

definition digit_bytes :: "u8 list" where
  "digit_bytes = map of_char ''0123456789abcdef''"

function fill_digits :: "u32 \<Rightarrow> u32 \<Rightarrow> u8 list \<Rightarrow> nat \<Rightarrow> (u8 list \<times> nat) outcome" where
  "fill_digits base x buf i =
     (if base = 0 \<or> length buf \<le> i then Inl Undefined
      else
        (let buf = buf[i := digit_bytes ! unat (x mod base)];
             x = x div base
         in if x \<noteq> 0 then fill_digits base x buf (i + 1) else Inr (buf, i + 1)))"
  by pat_completeness auto
termination
  by (relation "measure (\<lambda>(base, x, buf, i). length buf - i)") auto

declare fill_digits.simps [simp del]

text \<open>The loop that puts the buffer out from the back.\<close>

fun emit_buffer :: "u8 list \<Rightarrow> nat \<Rightarrow> u8 list" where
  "emit_buffer buf 0 = []"
| "emit_buffer buf (Suc i) = buf ! i # emit_buffer buf i"

definition u_printint :: "32 word \<Rightarrow> u32 \<Rightarrow> bool \<Rightarrow> u8 list outcome" where
  "u_printint xx base sign =
     (let sign = (sign \<and> sint xx < 0);
          x = (if sign then - xx else xx)
      in bindE (fill_digits base x (replicate 16 0) 0) (\<lambda>(buf, i).
         if sign then
           (if length buf \<le> i then Inl Undefined
            else Inr (emit_buffer (buf[i := of_char CHR ''-'']) (i + 1)))
         else Inr (emit_buffer buf i)))"

fun emit_nibbles :: "nat \<Rightarrow> u64 \<Rightarrow> u8 list" where
  "emit_nibbles 0 x = []"
| "emit_nibbles (Suc n) x = digit_bytes ! unat (drop_bit 60 x) # emit_nibbles n (push_bit 4 x)"

definition u_printptr :: "u64 \<Rightarrow> u8 list" where
  "u_printptr x = [of_char CHR ''0'', of_char CHR ''x''] @ emit_nibbles 16 x"

section \<open>The formatter\<close>

partial_function (option) put_string :: "mem \<Rightarrow> addr \<Rightarrow> u8 list \<Rightarrow> u8 list option" where
  "put_string m s out = (if m s \<noteq> 0 then put_string m (s + 1) (out @ [m s]) else Some out)"

declare put_string.simps [code]

text \<open>One conversion: what is printed, and the arguments that are left.\<close>

definition convert :: "mem \<Rightarrow> u8 \<Rightarrow> addr list \<Rightarrow> (u8 list \<times> addr list) outcome" where
  "convert m c ap =
     (if c = of_char CHR ''d'' then
        (case ap of [] \<Rightarrow> Inl Undefined
         | a # ap \<Rightarrow> bindE (u_printint (ucast a) 10 True) (\<lambda>out. Inr (out, ap)))
      else if c = of_char CHR ''x'' then
        (case ap of [] \<Rightarrow> Inl Undefined
         | a # ap \<Rightarrow> bindE (u_printint (ucast a) 16 True) (\<lambda>out. Inr (out, ap)))
      else if c = of_char CHR ''p'' then
        (case ap of [] \<Rightarrow> Inl Undefined | a # ap \<Rightarrow> Inr (u_printptr a, ap))
      else if c = of_char CHR ''s'' then
        (case ap of [] \<Rightarrow> Inl Undefined
         | a # ap \<Rightarrow>
             if a = 0 then Inr (map of_char ''(null)'', ap)
             else bindE (returns (put_string m a [])) (\<lambda>out. Inr (out, ap)))
      else if c = of_char CHR 0x25 then Inr ([of_char CHR 0x25], ap)
      else Inr ([of_char CHR 0x25, c], ap))"

partial_function (option) format_loop :: "mem \<Rightarrow> addr \<Rightarrow> addr list \<Rightarrow> u8 list \<Rightarrow> u8 list outcome option" where
  "format_loop m fmt ap out =
     (let c = m fmt in
      if c = 0 then Some (Inr out)
      else if c \<noteq> of_char CHR 0x25 then format_loop m (fmt + 1) ap (out @ [c])
      else
        (let c = m (fmt + 1) in
         if c = 0 then Some (Inr out)
         else
           (case convert m c ap of
              Inl e \<Rightarrow> Some (Inl e)
            | Inr r \<Rightarrow> format_loop m (fmt + 2) (snd r) (out @ fst r))))"

declare format_loop.simps [code]

text \<open>A program that panics prints what it can and exits.\<close>

definition u_format :: "mem \<Rightarrow> addr \<Rightarrow> addr list \<Rightarrow> u8 list outcome" where
  "u_format m fmt ap =
     (if fmt = 0 then Inl (Panic ''[printf] null fmt'')
      else bindE (returns (format_loop m fmt ap [])) id)"

definition u_printf :: "mem \<Rightarrow> addr \<Rightarrow> addr list \<Rightarrow> u8 list outcome" where
  "u_printf m fmt ap =
     (if fmt = 0 then Inl (Panic ''[printf] null fmt'') else u_format m fmt ap)"

definition u_panic :: "mem \<Rightarrow> addr \<Rightarrow> addr list \<Rightarrow> (u8 list \<times> user_call) outcome" where
  "u_panic m fmt ap =
     bindE (if fmt \<noteq> 0 then u_format m fmt ap else Inr []) (\<lambda>out. Inr (out, u_exit))"

end
