(* ===== verification/User_Calls.thy ===== *)
theory User_Calls
  imports Ulib File_Session
begin

text \<open>
  Programs over the kernel: a call of the user library is a trap, whose result is in \<^verbatim>\<open>a0\<close> when the
  kernel returns to the program. A program is followed while it is the one that runs: when the kernel
  switches to another process, that is its result. \<^verbatim>\<open>user/filetest.c\<close>, \<^verbatim>\<open>user/ls.c\<close> and
  \<^verbatim>\<open>user/entry.c\<close> are modelled here; their constant strings and their buffers are addresses.
\<close>

section \<open>A call from a program\<close>

definition and_then :: "'a reply outcome \<Rightarrow> ('a \<Rightarrow> kernel \<Rightarrow> 'b reply outcome) \<Rightarrow> 'b reply outcome" where
  "and_then r f =
     bindE r (\<lambda>r. case r of Returned x s \<Rightarrow> f x s | Switched k s \<Rightarrow> Inr (Switched k s))"

lemma and_then_Returned [simp]: "and_then (Inr (Returned x s)) f = f x s"
  by (simp add: and_then_def)

text \<open>The \<^verbatim>\<open>ecall\<close>: the registers are loaded, the kernel handles the trap, the result is read.\<close>

definition kernel_call :: "image \<Rightarrow> environment \<Rightarrow> kernel \<Rightarrow> user_call \<Rightarrow> usize reply outcome" where
  "kernel_call img env s c =
     bindE (update_pcb s (current s)
              (\<lambda>b. b\<lparr>trap_cx := (trap_cx b)\<lparr>x_regs := load_call c (x_regs (trap_cx b))\<rparr>\<rparr>)) (\<lambda>s.
     and_then (trap_handle img env s USER_ENV_CALL 0) (\<lambda>_ s.
     bindE (get_pcb s (current s)) (\<lambda>b. Inr (Returned (x_regs (trap_cx b) ! 10) s))))"

text \<open>The characters of a message, one call of \<^verbatim>\<open>putchar\<close> each.\<close>

fun user_put :: "image \<Rightarrow> environment \<Rightarrow> u8 list \<Rightarrow> kernel \<Rightarrow> unit reply outcome" where
  "user_put img env [] s = Inr (Returned () s)"
| "user_put img env (c # cs) s =
     and_then (kernel_call img env s (u_putchar c)) (\<lambda>_ s. user_put img env cs s)"

text \<open>
  \<^verbatim>\<open>printf\<close> of a constant format whose arguments are numbers. The formatter is the one on strings
  and lists of arguments; that the user library's own puts out the same is shown in \<^verbatim>\<open>Ulib_Properties\<close>.
\<close>

definition user_message :: "image \<Rightarrow> environment \<Rightarrow> string \<Rightarrow> arg list \<Rightarrow> kernel \<Rightarrow> unit reply outcome" where
  "user_message img env fmt args s =
     bindE (printf (Some fmt) args) (\<lambda>out. user_put img env (map of_char out) s)"

text \<open>\<^verbatim>\<open>exit\<close> does not come back.\<close>

definition user_exit :: "image \<Rightarrow> environment \<Rightarrow> kernel \<Rightarrow> unit reply outcome" where
  "user_exit img env s = and_then (kernel_call img env s u_exit) (\<lambda>_ s. Inl Undefined)"

text \<open>\<^verbatim>\<open>_start\<close> of \<^verbatim>\<open>user/entry.c\<close>.\<close>

definition user_start :: "image \<Rightarrow> environment \<Rightarrow> (kernel \<Rightarrow> unit reply outcome) \<Rightarrow> kernel \<Rightarrow> unit reply outcome" where
  "user_start img env main s = and_then (main s) (\<lambda>_ s. user_exit img env s)"

definition missing_main :: "image \<Rightarrow> environment \<Rightarrow> kernel \<Rightarrow> unit reply outcome" where
  "missing_main img env s =
     and_then (user_message img env (''No main linked!'' @ [CHR 0x0A]) [] s) (\<lambda>_ s. user_exit img env s)"

section \<open>filetest\<close>

text \<open>A message, and the end of the program.\<close>

definition give_up :: "image \<Rightarrow> environment \<Rightarrow> string \<Rightarrow> kernel \<Rightarrow> unit reply outcome" where
  "give_up img env msg s =
     and_then (user_message img env (msg @ [CHR 0x0A]) [] s) (\<lambda>_ s. user_exit img env s)"

text \<open>The first half creates the file and writes the string at \<open>data\<close>.\<close>

definition filetest_write :: "image \<Rightarrow> environment \<Rightarrow> addr \<Rightarrow> addr \<Rightarrow> kernel \<Rightarrow> unit reply outcome" where
  "filetest_write img env name data s =
     and_then (kernel_call img env s (u_open name O_CREATE)) (\<lambda>r s.
     let fd = int_arg r in
     if fd = -1 then give_up img env ''create file failed!'' s
     else
       and_then (user_message img env (''open file, fd = %d'' @ [CHR 0x0A]) [IntArg fd] s) (\<lambda>_ s.
       bindE (strlen (string_at (kmem s) data)) (\<lambda>n.
       and_then (kernel_call img env s (u_write fd data (of_nat n))) (\<lambda>r s.
       let written = int_arg r in
       if written = -1 then give_up img env ''write data failed!'' s
       else
         and_then (user_message img env (''write data: %d'' @ [CHR 0x0A]) [IntArg written] s) (\<lambda>_ s.
         and_then (kernel_call img env s (u_close fd)) (\<lambda>_ s. Inr (Returned () s)))))))"

text \<open>The second half reads it back into \<open>buffer\<close>, which has a hundred bytes.\<close>

definition filetest_read :: "image \<Rightarrow> environment \<Rightarrow> addr \<Rightarrow> addr \<Rightarrow> kernel \<Rightarrow> unit reply outcome" where
  "filetest_read img env name buffer s =
     and_then (kernel_call img env s (u_open name 0)) (\<lambda>r s.
     let fd = int_arg r in
     if fd = -1 then give_up img env ''open file failed!'' s
     else
       and_then (user_message img env (''open file, fd = %d'' @ [CHR 0x0A]) [IntArg fd] s) (\<lambda>_ s.
       and_then (kernel_call img env s (u_read fd buffer 99)) (\<lambda>r s.
       let got = int_arg r in
       if got = -1 then give_up img env ''read data failed!'' s
       else
         and_then (user_message img env (''read data: %d'' @ [CHR 0x0A]) [IntArg got] s) (\<lambda>_ s.
         let s = set_kmem s ((kmem s)(buffer + scast got := 0)) in
         bindE (returns (put_string (kmem s) buffer [])) (\<lambda>bs.
         and_then (user_put img env (map of_char ''read data: '' @ bs @ [0x0A]) s) (\<lambda>_ s.
         and_then (kernel_call img env s (u_close fd)) (\<lambda>_ s. Inr (Returned () s))))))))"

definition filetest :: "image \<Rightarrow> environment \<Rightarrow> addr \<Rightarrow> addr \<Rightarrow> addr \<Rightarrow> kernel \<Rightarrow> unit reply outcome" where
  "filetest img env name data buffer s =
     and_then (filetest_write img env name data s) (\<lambda>_ s.
     and_then (filetest_read img env name buffer s) (\<lambda>_ s.
     user_message img env (''File test passed!'' @ [CHR 0x0A]) [] s))"

section \<open>ls\<close>

text \<open>The loop over the entries of the directory: it ends when \<^verbatim>\<open>read\<close> returns 0.\<close>

partial_function (option) ls_loop ::
  "image \<Rightarrow> environment \<Rightarrow> 32 word \<Rightarrow> addr \<Rightarrow> kernel \<Rightarrow> unit reply outcome option" where
  "ls_loop img env fd inode s =
     (case kernel_call img env s (u_read fd inode (of_nat sizeof_inode)) of
        Inl e \<Rightarrow> Some (Inl e)
      | Inr (Switched k s) \<Rightarrow> Some (Inr (Switched k s))
      | Inr (Returned r s) \<Rightarrow>
          if int_arg r = 0 then Some (Inr (Returned () s))
          else
            (case put_string (kmem s) (i_filename inode) [] of
               None \<Rightarrow> None
             | Some bs \<Rightarrow>
                 (case user_put img env (bs @ [0x20]) s of
                    Inl e \<Rightarrow> Some (Inl e)
                  | Inr (Switched k s) \<Rightarrow> Some (Inr (Switched k s))
                  | Inr (Returned u s) \<Rightarrow> ls_loop img env fd inode s)))"

declare ls_loop.simps [code]

definition ls :: "image \<Rightarrow> environment \<Rightarrow> addr \<Rightarrow> addr \<Rightarrow> kernel \<Rightarrow> unit reply outcome" where
  "ls img env root inode s =
     and_then (kernel_call img env s (u_open root 0)) (\<lambda>r s.
     let fd = int_arg r in
     if fd = -1 then give_up img env ''open file failed!'' s
     else
       and_then (bindE (returns (ls_loop img env fd inode s)) id) (\<lambda>_ s.
       user_put img env [0x0A] s))"

end
