(* ===== verification/User_Session.thy ===== *)
theory User_Session
  imports User_Calls
begin

text \<open>
  What each call of a program returns to it, over the specifications of the system calls: the trap
  saves and restores the registers around the handler and the program goes on with the result.
\<close>

section \<open>The state a program runs in\<close>

text \<open>\<open>fds\<close> are the descriptors of the program and \<open>ft\<close> the open files they refer to.\<close>

definition running ::
  "image \<Rightarrow> addr set \<Rightarrow> addr set \<Rightarrow> (nat \<Rightarrow> layout option) \<Rightarrow> (nat \<Rightarrow> u8 list) \<Rightarrow> addr list \<Rightarrow>
    (addr \<Rightarrow> open_file option) \<Rightarrow> kernel \<Rightarrow> bool" where
  "running img R F L nm fds ft s \<longleftrightarrow> file_heap img R F L nm (kheap s) \<and> file_table s = ft \<and>
     (\<exists>b. pcbs s (current s) = Some b \<and> length (x_regs (trap_cx b)) = 32 \<and> files b = fds)"

lemma runningE:
  assumes "running img R F L nm fds ft s"
  obtains b where "file_heap img R F L nm (kheap s)" and "file_table s = ft" and "pcbs s (current s) = Some b"
    and "length (x_regs (trap_cx b)) = 32" and "files b = fds"
  using assms unfolding running_def by blast

lemma running_heap: "running img R F L nm fds ft s \<Longrightarrow> file_heap img R F L nm (kheap s)"
  by (simp add: running_def)

text \<open>The registers of the program at the call, and after it.\<close>

abbreviation at_call :: "kernel \<Rightarrow> pcb \<Rightarrow> user_call \<Rightarrow> pcb" where
  "at_call s b c \<equiv> b\<lparr>trap_cx := (trap_cx b)\<lparr>x_regs := load_call c (x_regs (trap_cx b)), sepc := sepc (trap_cx b) + 4\<rparr>\<rparr>"

lemma load_call_regs:
  assumes "length x = 32"
  shows "load_call c x ! 10 = call_a0 c" and "load_call c x ! 11 = call_a1 c" and "load_call c x ! 12 = call_a2 c"
    and "load_call c x ! 17 = call_num c" and "length (load_call c x) = 32"
  using assms by (simp_all add: load_call_def)

lemma kernel_call_returns:
  assumes b: "pcbs s (current s) = Some b" "length (x_regs (trap_cx b)) = 32"
    and sc: "syscall img env (s\<lparr>pcbs := (pcbs s)(current s \<mapsto> at_call s b c)\<rparr>) (call_num c) (call_a0 c) (call_a1 c) (call_a2 c) =
      Inr (Returned ret s')"
    and b': "pcbs s' (current s') = Some b'" "length (x_regs (trap_cx b')) = 32"
  shows "kernel_call img env s c = Inr (Returned ret (s'\<lparr>pcbs := (pcbs s')(current s' \<mapsto>
    b'\<lparr>trap_cx := (trap_cx b')\<lparr>x_regs := (x_regs (trap_cx b'))[10 := ret]\<rparr>\<rparr>)\<rparr>))"
proof -
  have cause: "USER_ENV_CALL \<noteq> BREAKPOINT" by (simp add: USER_ENV_CALL_def BREAKPOINT_def)
  show ?thesis
    using b b' sc load_call_regs [OF b(2), of c] cause
    by (simp add: kernel_call_def trap_handle_def syscall_handle_def update_pcb_def get_pcb_def set_pcb_def deref_def
        finish_syscall_def)
qed

lemma SYS_distinct:
  "SYS_putchar \<noteq> SYS_exit" "SYS_open \<noteq> SYS_exit" "SYS_open \<noteq> SYS_putchar" "SYS_open \<noteq> SYS_getpid" "SYS_open \<noteq> SYS_fork"
  "SYS_open \<noteq> SYS_wait" "SYS_open \<noteq> SYS_exec" "SYS_close \<noteq> SYS_exit" "SYS_close \<noteq> SYS_putchar" "SYS_close \<noteq> SYS_getpid"
  "SYS_close \<noteq> SYS_fork" "SYS_close \<noteq> SYS_wait" "SYS_close \<noteq> SYS_exec" "SYS_close \<noteq> SYS_open" "SYS_read \<noteq> SYS_exit"
  "SYS_read \<noteq> SYS_putchar" "SYS_read \<noteq> SYS_getpid" "SYS_read \<noteq> SYS_fork" "SYS_read \<noteq> SYS_wait" "SYS_read \<noteq> SYS_exec"
  "SYS_read \<noteq> SYS_open" "SYS_read \<noteq> SYS_close" "SYS_write \<noteq> SYS_exit" "SYS_write \<noteq> SYS_putchar" "SYS_write \<noteq> SYS_getpid"
  "SYS_write \<noteq> SYS_fork" "SYS_write \<noteq> SYS_wait" "SYS_write \<noteq> SYS_exec" "SYS_write \<noteq> SYS_open" "SYS_write \<noteq> SYS_close"
  "SYS_write \<noteq> SYS_read"
  by (simp_all add: SYS_exit_def SYS_putchar_def SYS_getpid_def SYS_fork_def SYS_wait_def SYS_exec_def SYS_open_def
      SYS_close_def SYS_read_def SYS_write_def)

lemma syscall_open: "syscall img env s SYS_open a0 a1 a2 = returned (sys_open img s a0 (int_arg a1))"
  and syscall_close: "syscall img env s SYS_close a0 a1 a2 = returned (sys_close s (sint (int_arg a0)))"
  and syscall_read: "syscall img env s SYS_read a0 a1 a2 =
    as_register (sys_read img (getchar env) s (sint (int_arg a0)) a1 (int_arg a2))"
  and syscall_write: "syscall img env s SYS_write a0 a1 a2 = returned (sys_write img s (sint (int_arg a0)) a1 (int_arg a2))"
  and syscall_putchar: "syscall img env s SYS_putchar a0 a1 a2 = Inr (Returned 0 (console_putchar s a0))"
  by (simp_all add: syscall_def SYS_distinct)

lemma int_arg_scast [simp]: "int_arg (scast (w :: 32 word)) = w"
proof (rule bit_word_eqI)
  fix n assume "n < LENGTH(32)"
  then have "n < 32" "31 \<le> n \<Longrightarrow> n = 31" by auto
  then show "bit (int_arg (scast w)) n = bit w n"
    by (cases "n = 31") (auto simp: int_arg_def bit_unsigned_iff bit_signed_iff min_def)
qed

lemma int_arg_of_int [simp]: "int_arg (word_of_int n) = word_of_int n"
  by (rule bit_word_eqI) (simp add: int_arg_def bit_unsigned_iff bit_word_of_int_iff)

lemma char_in_register [simp]: "(ucast (ucast (c :: u8) :: usize) :: u8) = c"
  by (rule bit_word_eqI) (simp add: bit_unsigned_iff)

section \<open>Printing\<close>

lemma call_putchar:
  assumes "running img R F L nm fds ft s"
  obtains s' where "kernel_call img env s (u_putchar c) = Inr (Returned 0 s')"
    and "running img R F L nm fds ft s'" and "console s' = console s @ [c]" and "kheap s' = kheap s"
proof -
  obtain b where r: "file_heap img R F L nm (kheap s)" "file_table s = ft" "pcbs s (current s) = Some b"
    "length (x_regs (trap_cx b)) = 32" "files b = fds" by (rule runningE [OF assms])
  let ?c = "u_putchar c"
  let ?s1 = "s\<lparr>pcbs := (pcbs s)(current s \<mapsto> at_call s b ?c), console := console s @ [c]\<rparr>"
  have "syscall img env (s\<lparr>pcbs := (pcbs s)(current s \<mapsto> at_call s b ?c)\<rparr>) (call_num ?c) (call_a0 ?c) (call_a1 ?c) (call_a2 ?c) =
      Inr (Returned 0 ?s1)"
    by (simp add: u_putchar_def sys_call_def syscall_putchar console_putchar_def)
  note k = kernel_call_returns [OF r(3,4) this, of "at_call s b ?c"]
  show thesis
    by (rule that [OF k]) (use r load_call_regs(5) [OF r(4)] in \<open>simp_all add: running_def\<close>)
qed

lemma user_put_spec:
  assumes "running img R F L nm fds ft s"
  obtains s' where "user_put img env cs s = Inr (Returned () s')"
    and "running img R F L nm fds ft s'" and "console s' = console s @ cs" and "kheap s' = kheap s"
proof -
  have "\<exists>s'. user_put img env cs s = Inr (Returned () s') \<and> running img R F L nm fds ft s' \<and>
      console s' = console s @ cs \<and> kheap s' = kheap s"
    using assms
  proof (induction cs arbitrary: s)
    case (Cons c cs)
    obtain s1 where s1: "kernel_call img env s (u_putchar c) = Inr (Returned 0 s1)" "running img R F L nm fds ft s1"
      "console s1 = console s @ [c]" "kheap s1 = kheap s" by (rule call_putchar [OF Cons.prems])
    with Cons.IH [OF s1(2)] show ?case by auto
  qed simp
  with that show thesis by blast
qed

lemma user_message_spec:
  assumes "running img R F L nm fds ft s" and "printf (Some fmt) args = Inr out"
  obtains s' where "user_message img env fmt args s = Inr (Returned () s')"
    and "running img R F L nm fds ft s'" and "console s' = console s @ map of_char out" and "kheap s' = kheap s"
  using user_put_spec [OF assms(1), of env "map of_char out"] assms(2) by (auto simp: user_message_def)

section \<open>Opening and closing\<close>

definition first_free :: "addr list \<Rightarrow> nat option" where
  "first_free fds = find (\<lambda>i. fds ! i = 0) [0..<NR_OPEN]"

lemma free_slot_files: "free_slot b = first_free (files b)"
  by (simp add: free_slot_def first_free_def)

abbreviation fresh_file :: "u16 \<Rightarrow> addr \<Rightarrow> open_file" where
  "fresh_file t inode \<equiv> \<lparr>f_type = t, f_count = 1, f_off = 0, f_inode = inode\<rparr>"

lemma call_open_existing:
  assumes r: "running img R F L nm fds ft s" and room: "blk 5 c \<subseteq> F" and i: "first_free fds = Some i"
    and name: "is_cstring (string_at (kmem s) name) bs" "bs \<noteq> slash" and n: "n \<in> dom L" "nm n = bs"
  obtains f t s' where "kernel_call img env s (u_open name flags) = Inr (Returned (of_nat i) s')"
    and "running img R (F - blk 5 f) L nm (fds[i := f]) (ft(f \<mapsto> fresh_file t (get_inode (fs_img_start img) (int n)))) s'"
    and "f \<noteq> 0" and "aligned 5 f" and "blk 5 f \<subseteq> F" and "t \<noteq> FILE_STDIO"
    and "console s' = console s" and "same_outside F (kmem s) (kmem s')"
proof -
  obtain b where b: "file_heap img R F L nm (kheap s)" "file_table s = ft" "pcbs s (current s) = Some b"
    "length (x_regs (trap_cx b)) = 32" "files b = fds" by (rule runningE [OF r])
  let ?c = "u_open name flags" and ?inode = "get_inode (fs_img_start img) (int n)"
  let ?s = "s\<lparr>pcbs := (pcbs s)(current s \<mapsto> at_call s b ?c)\<rparr>"
  have p: "file_heap img R F L nm (kheap ?s)" "pcbs ?s (current ?s) = Some (at_call s b ?c)"
    "free_slot (at_call s b ?c) = Some i" "is_cstring (string_at (kmem ?s) name) bs"
    using b i name(1) by (simp_all add: free_slot_files)
  obtain f h' t where o: "sys_open img ?s name flags = Inr (int i, opened ?s (at_call s b ?c) i f t ?inode h')"
    and f: "f \<noteq> 0" "aligned 5 f" "blk 5 f \<subseteq> F" "t \<noteq> FILE_STDIO"
    and h': "file_heap img R (F - blk 5 f) L nm h'" "same_outside F (kmem ?s) (fst h')"
    by (rule sys_open_existing [OF p(1) room p(2-4) name(2) n])
  have "syscall img env ?s (call_num ?c) (call_a0 ?c) (call_a1 ?c) (call_a2 ?c) =
      Inr (Returned (of_nat i) (opened ?s (at_call s b ?c) i f t ?inode h'))"
    using o by (simp add: u_open_def sys_call_def syscall_open returned_def)
  note k = kernel_call_returns [OF b(3,4) this, of "at_call s b ?c\<lparr>files := (files b)[i := f]\<rparr>"]
  show thesis
    by (rule that [OF k _ f]) (use b h' load_call_regs(5) [OF b(4)] in \<open>simp_all add: running_def\<close>)
qed

lemma call_open_new:
  assumes r: "running img R F L nm fds ft s" and room: "blk 5 c \<subseteq> F" and i: "first_free fds = Some i"
    and name: "is_cstring (string_at (kmem s) name) bs" "bs \<noteq> slash" "length bs < 32"
    and new: "bs \<notin> nm ` dom L"
    and free: "free_blocks (fs_img_start img) (kmem s) \<noteq> {}" "0 < slots (fs_img_start img) (kmem s)"
    and apart: "bytes_at name (length bs + 1) \<inter> image_span (fs_img_start img) = {}"
  obtains n f t s' where "kernel_call img env s (u_open name O_CREATE) = Inr (Returned (of_nat i) s')"
    and "running img R (F - blk 5 f) (L(n \<mapsto> (0, []))) (nm(n := bs)) (fds[i := f])
      (ft(f \<mapsto> fresh_file t (get_inode (fs_img_start img) (int n)))) s'"
    and "f \<noteq> 0" and "aligned 5 f" and "blk 5 f \<subseteq> F" and "t \<noteq> FILE_STDIO" and "L n = None"
    and "console s' = console s"
    and "n \<in> free_blocks (fs_img_start img) (kmem s)" and "file_size (fs_img_start img) (kmem s') n = 0"
    and "free_blocks (fs_img_start img) (kmem s') = free_blocks (fs_img_start img) (kmem s) - {n}"
    and "same_files (fs_img_start img) (kmem s) (kmem s') L"
    and "same_outside (F \<union> image_span (fs_img_start img)) (kmem s) (kmem s')"
proof -
  obtain b where b: "file_heap img R F L nm (kheap s)" "file_table s = ft" "pcbs s (current s) = Some b"
    "length (x_regs (trap_cx b)) = 32" "files b = fds" by (rule runningE [OF r])
  let ?c = "u_open name O_CREATE"
  let ?s = "s\<lparr>pcbs := (pcbs s)(current s \<mapsto> at_call s b ?c)\<rparr>"
  have p: "file_heap img R F L nm (kheap ?s)" "pcbs ?s (current ?s) = Some (at_call s b ?c)"
    "free_slot (at_call s b ?c) = Some i" "is_cstring (string_at (kmem ?s) name) bs"
    "free_blocks (fs_img_start img) (kmem ?s) \<noteq> {}" "0 < slots (fs_img_start img) (kmem ?s)"
    "O_CREATE AND O_CREATE \<noteq> 0"
    using b i name(1) free by (simp_all add: free_slot_files O_CREATE_def)
  obtain n f h' t where o: "sys_open img ?s name O_CREATE =
      Inr (int i, opened ?s (at_call s b ?c) i f t (get_inode (fs_img_start img) (int n)) h')"
    and f: "f \<noteq> 0" "aligned 5 f" "blk 5 f \<subseteq> F" "t \<noteq> FILE_STDIO" "L n = None"
    and h': "file_heap img R (F - blk 5 f) (L(n \<mapsto> (0, []))) (nm(n := bs)) h'"
    and n: "n \<in> free_blocks (fs_img_start img) (kmem ?s)" "file_size (fs_img_start img) (fst h') n = 0"
      "free_blocks (fs_img_start img) (fst h') = free_blocks (fs_img_start img) (kmem ?s) - {n}"
      "same_files (fs_img_start img) (kmem ?s) (fst h') L"
      "same_outside (F \<union> image_span (fs_img_start img)) (kmem ?s) (fst h')"
    by (rule sys_open_new [OF p(1) room p(2-4) name(2,3) new p(7,5,6) apart])
  let ?s' = "opened ?s (at_call s b ?c) i f t (get_inode (fs_img_start img) (int n)) h'"
  have "syscall img env ?s (call_num ?c) (call_a0 ?c) (call_a1 ?c) (call_a2 ?c) = Inr (Returned (of_nat i) ?s')"
    using o by (simp add: u_open_def sys_call_def syscall_open returned_def)
  note k = kernel_call_returns [OF b(3,4) this, of "at_call s b ?c\<lparr>files := (files b)[i := f]\<rparr>"]
  show thesis
    by (rule that [OF k _ f]) (use b h' n load_call_regs(5) [OF b(4)] in \<open>simp_all add: running_def\<close>)
qed

text \<open>Closing the only descriptor of a file.\<close>

lemma call_close_last:
  assumes r: "running img R F L nm fds ft s" and fd: "i < NR_OPEN" "length fds = NR_OPEN" "fds ! i = f" "f \<noteq> 0"
    and fl: "ft f = Some fl" "f_count fl = 1" and f: "aligned 5 f" "blk 5 f \<subseteq> R - F"
  obtains s' where "kernel_call img env s (u_close (of_nat i)) = Inr (Returned 0 s')"
    and "running img R (F \<union> blk 5 f) L nm (fds[i := 0]) (ft(f := None)) s'"
    and "console s' = console s" and "same_outside (F \<union> blk 5 f) (kmem s) (kmem s')"
proof -
  obtain b where b: "file_heap img R F L nm (kheap s)" "file_table s = ft" "pcbs s (current s) = Some b"
    "length (x_regs (trap_cx b)) = 32" "files b = fds" by (rule runningE [OF r])
  let ?c = "u_close (of_nat i)"
  let ?s = "s\<lparr>pcbs := (pcbs s)(current s \<mapsto> at_call s b ?c)\<rparr>"
  have p: "file_heap img R F L nm (kheap ?s)" "pcbs ?s (current ?s) = Some (at_call s b ?c)"
    "open_fd (at_call s b ?c) (int i) = Some f" "file_table ?s f = Some fl"
    using b fd fl by (simp_all add: open_fd_def)
  obtain h' where o: "sys_close ?s (int i) = Inr (0, ?s\<lparr>kheap := h',
      pcbs := (pcbs ?s)(current ?s \<mapsto> at_call s b ?c\<lparr>files := (files (at_call s b ?c))[nat (int i) := 0]\<rparr>),
      file_table := (file_table ?s)(f := None)\<rparr>)"
    and h': "file_heap img R (F \<union> blk 5 f) L nm h'" "same_outside (F \<union> blk 5 f) (kmem ?s) (fst h')"
    by (rule sys_close_last [OF p(1-4) fl(2) f(1) fd(4) f(2)])
  have "sint (of_nat i :: 32 word) = int i"
    using fd(1) sint_small [of "of_nat i"] by (simp add: NR_OPEN_def unat_of_nat)
  then have "syscall img env ?s (call_num ?c) (call_a0 ?c) (call_a1 ?c) (call_a2 ?c) = Inr (Returned 0 (?s\<lparr>kheap := h',
      pcbs := (pcbs ?s)(current ?s \<mapsto> at_call s b ?c\<lparr>files := (files (at_call s b ?c))[nat (int i) := 0]\<rparr>),
      file_table := (file_table ?s)(f := None)\<rparr>))"
    using o by (simp add: u_close_def sys_call_def syscall_close returned_def)
  note k = kernel_call_returns [OF b(3,4) this, of "at_call s b ?c\<lparr>files := (files b)[i := 0]\<rparr>"]
  show thesis
    by (rule that [OF k]) (use b h' load_call_regs(5) [OF b(4)] in \<open>simp_all add: running_def\<close>)
qed

section \<open>Reading and writing\<close>

text \<open>The descriptor \<open>i\<close> refers to the file \<open>n\<close> of the image.\<close>

definition refers :: "image \<Rightarrow> addr list \<Rightarrow> (addr \<Rightarrow> open_file option) \<Rightarrow> nat \<Rightarrow> addr \<Rightarrow> open_file \<Rightarrow> nat \<Rightarrow> bool" where
  "refers img fds ft i f fl n \<longleftrightarrow> i < NR_OPEN \<and> length fds = NR_OPEN \<and> fds ! i = f \<and> f \<noteq> 0 \<and> ft f = Some fl \<and>
     f_type fl \<noteq> FILE_STDIO \<and> f_inode fl = get_inode (fs_img_start img) (int n)"

lemma descriptor_int: "i < NR_OPEN \<Longrightarrow> sint (of_nat i :: 32 word) = int i"
  using sint_small [of "of_nat i"] by (simp add: NR_OPEN_def unat_of_nat)

lemma call_read:
  assumes r: "running img R F L nm fds ft s" and o: "refers img fds ft i f fl n" and l: "L n = Some (ib, bl)"
    and off: "unat (f_off fl) \<le> file_size (fs_img_start img) (kmem s) n" and c: "count \<noteq> 0"
    and k: "k = min (unat count) (file_size (fs_img_start img) (kmem s) n - unat (f_off fl))"
    and apart: "bytes_at buf k \<inter> (F \<union> image_span (fs_img_start img)) = {}"
  obtains s' where "kernel_call img env s (u_read (of_nat i) buf count) = Inr (Returned (of_nat k) s')"
    and "map (\<lambda>i. kmem s' (buf + of_nat i)) [0..<k] =
      List.take k (drop (unat (f_off fl)) (content (fs_img_start img) (kmem s) n bl))"
    and "running img R F L nm fds (ft(f \<mapsto> fl\<lparr>f_off := f_off fl + of_nat k\<rparr>)) s'"
    and "console s' = console s" and "same_outside (bytes_at buf k) (kmem s) (kmem s')"
proof -
  obtain b where b: "file_heap img R F L nm (kheap s)" "file_table s = ft" "pcbs s (current s) = Some b"
    "length (x_regs (trap_cx b)) = 32" "files b = fds" by (rule runningE [OF r])
  let ?c = "u_read (of_nat i) buf count"
  let ?s = "s\<lparr>pcbs := (pcbs s)(current s \<mapsto> at_call s b ?c)\<rparr>"
  have h: "file_heap img R F L nm (kheap ?s)" using b by simp
  have fo: "file_open img ?s (at_call s b ?c) (int i) f fl n"
    using b o by (simp add: file_open_def refers_def open_fd_def)
  have off': "unat (f_off fl) \<le> file_size (fs_img_start img) (kmem ?s) n"
    and k': "k = min (unat count) (file_size (fs_img_start img) (kmem ?s) n - unat (f_off fl))" using off k by simp_all
  obtain m' where m': "sys_read img (getchar env) ?s (int i) buf count = Inr (Returned (int k) (?s\<lparr>kheap := (m', snd (kheap ?s)),
      file_table := (file_table ?s)(f \<mapsto> fl\<lparr>f_off := f_off fl + of_nat k\<rparr>)\<rparr>))"
    "map (\<lambda>i. m' (buf + of_nat i)) [0..<k] =
      List.take k (drop (unat (f_off fl)) (content (fs_img_start img) (kmem ?s) n bl))"
    "file_heap img R F L nm (m', snd (kheap ?s))" "same_outside (bytes_at buf k) (kmem ?s) m'"
    by (rule sys_read_file [OF h fo l off' c k' apart])
  have si: "sint (of_nat i :: 32 word) = int i" using o descriptor_int by (simp add: refers_def)
  have "syscall img env ?s (call_num ?c) (call_a0 ?c) (call_a1 ?c) (call_a2 ?c) = Inr (Returned (of_nat k) (?s\<lparr>kheap := (m', snd (kheap ?s)),
      file_table := (file_table ?s)(f \<mapsto> fl\<lparr>f_off := f_off fl + of_nat k\<rparr>)\<rparr>))"
    using m'(1) si by (simp add: u_read_def sys_call_def syscall_read as_register_def)
  note kc = kernel_call_returns [OF b(3,4) this, of "at_call s b ?c"]
  show thesis
    by (rule that [OF kc]) (use b m'(2-4) load_call_regs(5) [OF b(4)] in \<open>simp_all add: running_def\<close>)
qed

lemma call_write:
  assumes r: "running img R F L nm fds ft s" and o: "refers img fds ft i f fl n" and l: "L n = Some (ib, bl)"
    and off: "unat (f_off fl) \<le> file_size (fs_img_start img) (kmem s) n"
    and c: "unat count < 2 ^ 31" "unat (f_off fl) + unat count \<le> 71680"
    and free: "blocks_needed (ib, bl) (blocks_for (unat (f_off fl) + unat count)) \<le>
      card (free_blocks (fs_img_start img) (kmem s))"
    and apart: "bytes_at buf (unat count) \<inter> image_span (fs_img_start img) = {}"
  obtains ib' new s' where "kernel_call img env s (u_write (of_nat i) buf count) = Inr (Returned (of_nat (unat count)) s')"
    and "content (fs_img_start img) (kmem s') n (bl @ new) =
      overwrite (content (fs_img_start img) (kmem s) n bl) (unat (f_off fl))
        (map (\<lambda>i. kmem s (buf + of_nat i)) [0..<unat count])"
    and "running img R F (L(n \<mapsto> (ib', bl @ new))) nm fds (ft(f \<mapsto> fl\<lparr>f_off := f_off fl + count\<rparr>)) s'"
    and "\<forall>n2 ib2 bl2. n2 \<noteq> n \<longrightarrow> L n2 = Some (ib2, bl2) \<longrightarrow>
      content (fs_img_start img) (kmem s') n2 bl2 = content (fs_img_start img) (kmem s) n2 bl2"
    and "console s' = console s" and "same_outside (image_span (fs_img_start img)) (kmem s) (kmem s')"
proof -
  obtain b where b: "file_heap img R F L nm (kheap s)" "file_table s = ft" "pcbs s (current s) = Some b"
    "length (x_regs (trap_cx b)) = 32" "files b = fds" by (rule runningE [OF r])
  let ?c = "u_write (of_nat i) buf count"
  let ?s = "s\<lparr>pcbs := (pcbs s)(current s \<mapsto> at_call s b ?c)\<rparr>"
  have ms: "kmem ?s = kmem s" by simp
  have h: "file_heap img R F L nm (kheap ?s)" using b by simp
  have fo: "file_open img ?s (at_call s b ?c) (int i) f fl n"
    using b o by (simp add: file_open_def refers_def open_fd_def)
  obtain m' ib' new where m': "sys_write img ?s (int i) buf count = Inr (int (unat count), ?s\<lparr>kheap := (m', snd (kheap ?s)),
      file_table := (file_table ?s)(f \<mapsto> fl\<lparr>f_off := f_off fl + count\<rparr>)\<rparr>)"
    "content (fs_img_start img) m' n (bl @ new) =
      overwrite (content (fs_img_start img) (kmem ?s) n bl) (unat (f_off fl))
        (map (\<lambda>i. kmem ?s (buf + of_nat i)) [0..<unat count])"
    "file_heap img R F (L(n \<mapsto> (ib', bl @ new))) nm (m', snd (kheap ?s))"
    "\<forall>n2 ib2 bl2. n2 \<noteq> n \<longrightarrow> L n2 = Some (ib2, bl2) \<longrightarrow>
      content (fs_img_start img) m' n2 bl2 = content (fs_img_start img) (kmem ?s) n2 bl2"
    "same_outside (image_span (fs_img_start img)) (kmem ?s) m'"
    by (rule sys_write_file [OF h fo l off [folded ms] c free [folded ms] apart])
  have si: "sint (of_nat i :: 32 word) = int i" using o descriptor_int by (simp add: refers_def)
  have "syscall img env ?s (call_num ?c) (call_a0 ?c) (call_a1 ?c) (call_a2 ?c) =
      Inr (Returned (of_nat (unat count)) (?s\<lparr>kheap := (m', snd (kheap ?s)),
      file_table := (file_table ?s)(f \<mapsto> fl\<lparr>f_off := f_off fl + count\<rparr>)\<rparr>))"
    using m'(1) si by (simp add: u_write_def sys_call_def syscall_write returned_def)
  note kc = kernel_call_returns [OF b(3,4) this, of "at_call s b ?c"]
  show thesis
    by (rule that [OF kc]) (use b m'(2-5) load_call_regs(5) [OF b(4)] in \<open>simp_all add: running_def\<close>)
qed

text \<open>A program writes to its own memory.\<close>

lemma program_store:
  assumes r: "running img R F L nm fds ft s" and a: "a \<notin> F" "a \<notin> image_span (fs_img_start img)"
  shows "running img R F L nm fds ft (set_kmem s ((kmem s)(a := v)))"
    and "same_files (fs_img_start img) (kmem s) ((kmem s)(a := v)) L"
proof -
  obtain b where b: "file_heap img R F L nm (kheap s)" "file_table s = ft" "pcbs s (current s) = Some b"
    "length (x_regs (trap_cx b)) = 32" "files b = fds" by (rule runningE [OF r])
  have h: "file_heap img R F L nm (kmem s, snd (kheap s))" using b(1) by simp
  have "same_outside {a} (kmem s) ((kmem s)(a := v))" by (simp add: same_outside_def)
  from user_write(1,2) [OF h this] a show "running img R F L nm fds ft (set_kmem s ((kmem s)(a := v)))"
    "same_files (fs_img_start img) (kmem s) ((kmem s)(a := v)) L"
    using b by (simp_all add: running_def set_kmem_def)
qed

end
