(* ===== verification/Ulib_Properties.thy ===== *)
theory Ulib_Properties
  imports Ulib
begin

text \<open>
  \<^verbatim>\<open>user/printf.c\<close> on bytes in memory puts out what the formatter of the kernel computes from the
  strings: the buffer of \<^verbatim>\<open>printint\<close>, the loop over the format and the walks over the arguments are
  eliminated one after the other.
\<close>

section \<open>Numbers\<close>

lemma digit_bytes_nth: "i < 16 \<Longrightarrow> digit_bytes ! i = of_char (digits ! i)"
  unfolding digit_bytes_def digits_def by (subst nth_map) simp_all

lemma emit_buffer_rev: "n \<le> length buf \<Longrightarrow> emit_buffer buf n = rev (take n buf)"
  by (induction n) (simp_all add: take_Suc_conv_app_nth)

lemma fill_digits_loop:
  assumes "1 < base" and "base \<le> 16" and "i + length (digit_loop base x) \<le> length buf"
  shows "\<exists>buf'. fill_digits base x buf i = Inr (buf', i + length (digit_loop base x)) \<and>
    take (i + length (digit_loop base x)) buf' = take i buf @ map of_char (digit_loop base x) \<and>
    length buf' = length buf"
  using assms
proof (induction base x arbitrary: i buf rule: digit_loop.induct)
  case (1 base x)
  let ?c = "digit_bytes ! unat (x mod base)"
  have nb: "\<not> base \<le> 1" "base \<noteq> 0" using "1.prems"(1) by auto
  have "unat (x mod base) < unat base" using "1.prems"(1) by (simp add: unat_mod word_less_nat_alt)
  also have "\<dots> \<le> 16" using "1.prems"(2) by (simp add: word_le_nat_alt)
  finally have c: "?c = of_char (digits ! unat (x mod base))" by (rule digit_bytes_nth)
  show ?case
  proof (cases "x div base = 0")
    case True
    have dl: "digit_loop base x = [digits ! unat (x mod base)]" using nb True by (subst digit_loop.simps) simp
    with "1.prems"(3) have i: "i < length buf" by simp
    have "fill_digits base x buf i = Inr (buf[i := ?c], i + 1)"
      using nb i True by (subst fill_digits.simps) simp
    then show ?thesis using dl i c by (simp add: take_Suc_conv_app_nth)
  next
    case False
    have dl: "digit_loop base x = digits ! unat (x mod base) # digit_loop base (x div base)"
      using nb False by (subst digit_loop.simps) simp
    with "1.prems"(3) have i: "i < length buf" by simp
    have "fill_digits base x buf i = fill_digits base (x div base) (buf[i := ?c]) (i + 1)"
      using nb i False by (subst fill_digits.simps) (simp add: not_le)
    moreover have "i + 1 + length (digit_loop base (x div base)) \<le> length (buf[i := ?c])" using "1.prems"(3) dl by simp
    ultimately show ?thesis
      using "1.IH" [OF nb(1) False "1.prems"(1,2), of "i + 1" "buf[i := ?c]"] dl c i
      by (auto simp: take_Suc_conv_app_nth)
  qed
qed

lemma u_printint_printint:
  assumes "base = 10 \<or> base = 16"
  shows "u_printint xx base True = Inr (map of_char (printint xx base True))"
proof -
  let ?x = "if sint xx < 0 then - xx else xx" and ?buf = "replicate 16 (0 :: u8)"
  let ?n = "length (digit_loop base ?x)"
  have b: "1 < base" "base \<le> 16" "10 \<le> base" using assms by auto
  have "unat ?x < 10 ^ 10" using unsigned_less [of ?x, where ?'a = nat] by simp
  then have n: "?n \<le> 10" by (rule digit_loop_length [OF b(3)]) simp
  then obtain buf where buf: "fill_digits base ?x ?buf 0 = Inr (buf, ?n)"
    "take ?n buf = map of_char (digit_loop base ?x)" "length buf = 16"
    using fill_digits_loop [OF b(1,2), of 0 ?x ?buf] by auto
  have "emit_buffer (buf[?n := c]) (?n + 1) = c # rev (take ?n buf)" for c
    using n buf(3) by (simp add: emit_buffer_rev take_Suc_conv_app_nth)
  moreover have "emit_buffer buf ?n = rev (take ?n buf)" using n buf(3) by (intro emit_buffer_rev) simp
  ultimately have "emit_buffer (buf[?n := of_char CHR ''-'']) (?n + 1) = of_char CHR ''-'' # rev (map of_char (digit_loop base ?x))"
    "emit_buffer buf ?n = rev (map of_char (digit_loop base ?x))" unfolding buf(2) by blast+
  with buf(1,3) n show ?thesis
    by (cases "sint xx < 0") (simp_all add: u_printint_def printint_def rev_map)
qed

lemma emit_nibbles_map:
  "emit_nibbles n x = map (\<lambda>i. of_char (digits ! unat (drop_bit 60 (push_bit (4 * i) x)))) [0..<n]"
proof (induction n arbitrary: x)
  case (Suc n)
  have "unat x div 2 ^ 60 < 16"
    by (rule less_mult_imp_div_less) (use unsigned_less [of x, where ?'a = nat] in simp)
  then have "unat (drop_bit 60 x) < 16" by (simp add: unsigned_drop_bit_eq drop_bit_eq_div unat_div)
  then have "digit_bytes ! unat (drop_bit 60 x) = of_char (digits ! unat (drop_bit 60 x))" by (rule digit_bytes_nth)
  moreover have "push_bit (4 * i) (push_bit 4 x) = push_bit (4 * Suc i) x" for i by (simp add: add.commute)
  ultimately show ?case by (simp add: Suc upt_conv_Cons map_Suc_upt [symmetric] del: upt_Suc mult_Suc_right)
qed simp

lemma u_printptr_printptr: "u_printptr x = map of_char (printptr x)"
  by (simp add: u_printptr_def printptr_def emit_nibbles_map del: upt_Suc)

section \<open>The formatter\<close>

text \<open>An argument of the formatter as a slot of the \<^verbatim>\<open>va_list\<close>: a string is its address.\<close>

fun in_slot :: "mem \<Rightarrow> arg \<Rightarrow> addr \<Rightarrow> bool" where
  "in_slot m (IntArg w) a \<longleftrightarrow> ucast a = w"
| "in_slot m (PtrArg p) a \<longleftrightarrow> a = p"
| "in_slot m (StrArg None) a \<longleftrightarrow> a = 0"
| "in_slot m (StrArg (Some t)) a \<longleftrightarrow> a \<noteq> 0 \<and> is_cstring (string_at m a) (map of_char t)"

lemma string_at_Cons:
  "is_cstring (string_at m a) (b # bs) \<longleftrightarrow> m a = b \<and> b \<noteq> 0 \<and> is_cstring (string_at m (a + 1)) bs"
  by (simp add: is_cstring_Cons string_at_def algebra_simps)

lemma string_at_Nil: "is_cstring (string_at m a) [] \<longleftrightarrow> m a = 0"
  by (simp add: is_cstring_Nil string_at_def)

lemma put_string_spec: "is_cstring (string_at m a) bs \<Longrightarrow> put_string m a out = Some (out @ bs)"
proof (induction bs arbitrary: a out)
  case Nil
  then show ?case by (subst put_string.simps) (simp add: string_at_Nil)
next
  case (Cons b bs)
  then show ?case by (subst put_string.simps) (simp add: string_at_Cons)
qed

lemma unat_of_char: "unat (of_char c :: u8) = of_char c"
proof -
  have "(of_char c :: u8) = of_nat (of_char c)" by (simp only: of_nat_of_char)
  then have "unat (of_char c :: u8) = of_char c mod 256" by (simp only: unat_of_nat) simp
  then show ?thesis by (simp only: of_char_mod_256)
qed

lemma of_char_eq: "(of_char c :: u8) = of_char d \<longleftrightarrow> c = d"
proof
  assume "(of_char c :: u8) = of_char d"
  then have "unat (of_char c :: u8) = unat (of_char d :: u8)" by (rule arg_cong)
  then show "c = d" by (simp only: unat_of_char of_char_eq_iff)
qed simp

lemma convert_of_char:
  "convert m (of_char c) ap =
     (if c = CHR ''d'' then
        (case ap of [] \<Rightarrow> Inl Undefined
         | a # ap \<Rightarrow> bindE (u_printint (ucast a) 10 True) (\<lambda>out. Inr (out, ap)))
      else if c = CHR ''x'' then
        (case ap of [] \<Rightarrow> Inl Undefined
         | a # ap \<Rightarrow> bindE (u_printint (ucast a) 16 True) (\<lambda>out. Inr (out, ap)))
      else if c = CHR ''p'' then
        (case ap of [] \<Rightarrow> Inl Undefined | a # ap \<Rightarrow> Inr (u_printptr a, ap))
      else if c = CHR ''s'' then
        (case ap of [] \<Rightarrow> Inl Undefined
         | a # ap \<Rightarrow>
             if a = 0 then Inr (map of_char ''(null)'', ap)
             else bindE (returns (put_string m a [])) (\<lambda>out. Inr (out, ap)))
      else if c = CHR 0x25 then Inr ([of_char CHR 0x25], ap)
      else Inr ([of_char CHR 0x25, of_char c], ap))"
  unfolding convert_def of_char_eq by (rule refl)

text \<open>One conversion, with the argument it takes.\<close>

lemma convert_spec:
  assumes "format (CHR 0x25 # d # ds) args = Inr out" and "list_all2 (in_slot m) args ap"
  shows "\<exists>args' ap' out1 out2. convert m (of_char d) ap = Inr (map of_char out1, ap') \<and>
    list_all2 (in_slot m) args' ap' \<and> format ds args' = Inr out2 \<and> out = out1 @ out2"
proof -
  consider (int) "d = CHR ''d'' \<or> d = CHR ''x''" | (ptr) "d = CHR ''p''" | (str) "d = CHR ''s''" | (pc) "d = CHR 0x25"
    | (other) "d \<noteq> CHR ''d''" "d \<noteq> CHR ''x''" "d \<noteq> CHR ''p''" "d \<noteq> CHR ''s''" "d \<noteq> CHR 0x25" by blast
  then show ?thesis
  proof cases
    case int
    then obtain n rest o2 where a: "args = IntArg n # rest" "format ds rest = Inr o2"
      "out = printint n (if d = CHR ''d'' then 10 else 16) True @ o2"
      using assms(1) by (auto simp: bindE_Inr_iff split: list.splits arg.splits)
    then obtain w ap' where ap: "ap = w # ap'" "ucast w = n" "list_all2 (in_slot m) rest ap'"
      using assms(2) by (auto simp: list_all2_Cons1)
    have "convert m (of_char d) ap = Inr (map of_char (printint n (if d = CHR ''d'' then 10 else 16) True), ap')"
      using int ap(2) unfolding convert_of_char ap(1) by (auto simp: u_printint_printint)
    with a(2,3) ap(3) show ?thesis by blast
  next
    case ptr
    then obtain q rest o2 where a: "args = PtrArg q # rest" "format ds rest = Inr o2" "out = printptr q @ o2"
      using assms(1) by (auto simp: bindE_Inr_iff split: list.splits arg.splits)
    then obtain ap' where ap: "ap = q # ap'" "list_all2 (in_slot m) rest ap'"
      using assms(2) by (auto simp: list_all2_Cons1)
    have "convert m (of_char d) ap = Inr (map of_char (printptr q), ap')"
      using ptr unfolding convert_of_char ap(1) by (simp add: u_printptr_printptr)
    with a(2,3) ap(2) show ?thesis by blast
  next
    case str
    then obtain t rest o2 where a: "args = StrArg t # rest" "format ds rest = Inr o2"
      "out = (case t of None \<Rightarrow> ''(null)'' | Some t \<Rightarrow> t) @ o2"
      using assms(1) by (auto simp: bindE_Inr_iff split: list.splits arg.splits)
    then obtain w ap' where ap: "ap = w # ap'" "in_slot m (StrArg t) w" "list_all2 (in_slot m) rest ap'"
      using assms(2) by (auto simp: list_all2_Cons1)
    have "convert m (of_char d) ap = Inr (map of_char (case t of None \<Rightarrow> ''(null)'' | Some t \<Rightarrow> t), ap')"
      using str ap(2) unfolding convert_of_char ap(1) by (cases t) (auto simp: put_string_spec)
    with a(2,3) ap(3) show ?thesis by blast
  next
    case pc
    then obtain o2 where a: "format ds args = Inr o2" "out = [CHR 0x25] @ o2"
      using assms(1) by (auto simp: bindE_Inr_iff)
    have "convert m (of_char d) ap = Inr (map of_char [CHR 0x25], ap)"
      using pc unfolding convert_of_char by simp
    with a assms(2) show ?thesis by blast
  next
    case other
    then obtain o2 where a: "format ds args = Inr o2" "out = [CHR 0x25, d] @ o2"
      using assms(1) by (auto simp: bindE_Inr_iff)
    have "convert m (of_char d) ap = Inr (map of_char [CHR 0x25, d], ap)"
      using other unfolding convert_of_char by simp
    with a assms(2) show ?thesis by blast
  qed
qed

lemma format_loop_spec:
  assumes "format f args = Inr out" and "is_cstring (string_at m fmt) (map of_char f)" and "list_all2 (in_slot m) args ap"
  shows "format_loop m fmt ap acc = Some (Inr (acc @ map of_char out))"
  using assms
proof (induction "length f" arbitrary: f args out fmt ap acc rule: less_induct)
  case less
  show ?case
  proof (cases f)
    case Nil
    then show ?thesis using less.prems by (subst format_loop.simps) (simp add: string_at_Nil)
  next
    case (Cons c cs)
    then have c: "m fmt = of_char c" "m fmt \<noteq> 0" "is_cstring (string_at m (fmt + 1)) (map of_char cs)"
      using less.prems(2) by (simp_all add: string_at_Cons)
    show ?thesis
    proof (cases "c = CHR 0x25")
      case False
      then obtain o2 where o2: "format cs args = Inr o2" "out = c # o2"
        using less.prems(1) Cons by (auto simp: bindE_Inr_iff)
      have "m fmt \<noteq> of_char CHR 0x25" unfolding c(1) of_char_eq by (rule False)
      then have "format_loop m fmt ap acc = format_loop m (fmt + 1) ap (acc @ [m fmt])"
        using c(2) by (subst format_loop.simps) simp
      with less.hyps [OF _ o2(1) c(3) less.prems(3), of "acc @ [m fmt]"] show ?thesis
        using Cons o2(2) c(1) by simp
    next
      case True
      show ?thesis
      proof (cases cs)
        case Nil
        then have "m (fmt + 1) = 0" "out = []" using c(3) less.prems(1) Cons True by (simp_all add: string_at_Nil)
        then show ?thesis using c(1,2) True by (subst format_loop.simps) simp
      next
        case d: (Cons d ds)
        have m1: "m (fmt + 1) = of_char d" "m (fmt + 1) \<noteq> 0" "is_cstring (string_at m (fmt + 2)) (map of_char ds)"
          using c(3) d by (simp_all add: string_at_Cons add.commute)
        have "format (CHR 0x25 # d # ds) args = Inr out" using less.prems(1) Cons True d by simp
        then obtain args' ap' out1 out2 where v: "convert m (of_char d) ap = Inr (map of_char out1, ap')"
          "list_all2 (in_slot m) args' ap'" "format ds args' = Inr out2" "out = out1 @ out2"
          using convert_spec [OF _ less.prems(3)] by blast
        have "m fmt = of_char CHR 0x25" using c(1) True by (simp only: of_char_eq)
        then have "format_loop m fmt ap acc = format_loop m (fmt + 2) ap' (acc @ map of_char out1)"
          using c(2) m1(2) v(1) [folded m1(1)] by (subst format_loop.simps) simp
        with less.hyps [OF _ v(3) m1(3) v(2), of "acc @ map of_char out1"] show ?thesis
          using Cons d v(4) by simp
      qed
    qed
  qed
qed

section \<open>Printing\<close>

text \<open>
  C23: \<^verbatim>\<open>printf\<close> of the user library, on a format and arguments in memory, puts out exactly what the
  formatter of the kernel computes from the strings they hold: the two programs agree on every
  conversion, and the loops over the format, the buffer and the string arguments end.
\<close>

theorem u_printf_agrees:
  assumes "fmt \<noteq> 0" and "is_cstring (string_at m fmt) (map of_char f)" and "list_all2 (in_slot m) args ap"
    and "printf (Some f) args = Inr out"
  shows "u_printf m fmt ap = Inr (map of_char out)"
proof -
  have "format f args = Inr out" using assms(4) by (simp add: printf_def)
  from format_loop_spec [OF this assms(2,3), of "[]"] assms(1) show ?thesis
    by (simp add: u_printf_def u_format_def returns_def)
qed

theorem u_printf_agrees_witness:
  "u_printf (\<lambda>x. if x < 0x1000 then 0 else literal ''fd = %d, %x'' (unat (x - 0x1000))) 0x1000 [3, 0xffffffff] =
    Inr (map of_char ''fd = 3, -1'')"
proof (rule u_printf_agrees)
  let ?m = "\<lambda>x :: addr. if x < 0x1000 then 0 else literal ''fd = %d, %x'' (unat (x - 0x1000))"
  have "string_at ?m 0x1000 i = literal ''fd = %d, %x'' i" if "i < 100" for i
    using that by (simp add: string_at_def unat_of_nat word_less_nat_alt unat_word_ariths)
  then show "is_cstring (string_at ?m 0x1000) (map of_char ''fd = %d, %x'')"
    by (simp add: is_cstring_def literal_def All_less_Suc)
  show "list_all2 (in_slot ?m) [IntArg 3, IntArg (- 1)] [3, 0xffffffff]" by simp
  show "printf (Some ''fd = %d, %x'') [IntArg 3, IntArg (- 1)] = Inr ''fd = 3, -1''" by code_simp
qed simp

end
