(* ===== verification/User_Properties.thy ===== *)
theory User_Properties
  imports User_Session Ulib_Properties Fs_Properties Memory_Properties Process_Properties
begin

text \<open>
  The properties of the programs that use the file system through the calls of the kernel.
\<close>

section \<open>Strings and numbers of a program\<close>

lemma cstring_frame:
  assumes "is_cstring (string_at m a) bs" and "same_outside S m m'" and "bytes_at a (length bs + 1) \<inter> S = {}"
    and "length bs < 2 ^ 32"
  shows "is_cstring (string_at m' a) bs"
proof -
  have "m' (a + of_nat i) = m (a + of_nat i)" if "i \<le> length bs" for i
  proof -
    have "unat (of_nat i :: u64) = i" using that assms(4) by (simp add: unat_of_nat)
    then have "a + of_nat i \<in> bytes_at a (length bs + 1)" using that by (simp add: bytes_at_def)
    then show ?thesis using assms(2,3) by (auto simp: same_outside_def)
  qed
  with assms(1) show ?thesis by (simp add: is_cstring_def string_at_def)
qed

lemma string_is_literal:
  assumes "\<And>k. k \<le> length t \<Longrightarrow> f k = literal t k" and "CHR 0x00 \<notin> set t"
  shows "is_cstring f (map of_char t)"
proof -
  have "(of_char (t ! k) :: u8) \<noteq> of_char CHR 0x00" if "k < length t" for k
    unfolding of_char_eq using assms(2) that nth_mem by metis
  then show ?thesis using assms(1) by (simp add: is_cstring_def literal_def)
qed

lemma bytes_at_less: "k \<le> l \<Longrightarrow> bytes_at a k \<subseteq> bytes_at a l"
  by (auto simp: bytes_at_def)

lemma cstring_bytes: "is_cstring (string_at m a) bs \<Longrightarrow> map (\<lambda>i. m (a + of_nat i)) [0..<length bs] = bs"
  by (rule nth_equalityI) (simp_all add: is_cstring_def string_at_def)

lemma int_arg_of_nat [simp]: "int_arg (of_nat k) = of_nat k"
  using int_arg_of_int [of "int k"] by simp

lemma small_not_error: "k < 2 ^ 31 \<Longrightarrow> (of_nat k :: 32 word) \<noteq> - 1"
proof
  assume k: "k < 2 ^ 31" and "(of_nat k :: 32 word) = - 1"
  then have "sint (of_nat k :: 32 word) = - 1" by simp
  moreover have "sint (of_nat k :: 32 word) = int k" using sint_small [of "of_nat k"] k by (simp add: unat_of_nat)
  ultimately show False by simp
qed

text \<open>A number as the programs print it.\<close>

definition decimal :: "nat \<Rightarrow> string" where
  "decimal k = printint (of_nat k) 10 True"

lemma number_messages:
  "printf (Some (''open file, fd = %d'' @ [CHR 0x0A])) [IntArg (of_nat k)] = Inr (''open file, fd = '' @ decimal k @ [CHR 0x0A])"
  "printf (Some (''write data: %d'' @ [CHR 0x0A])) [IntArg (of_nat k)] = Inr (''write data: '' @ decimal k @ [CHR 0x0A])"
  "printf (Some (''read data: %d'' @ [CHR 0x0A])) [IntArg (of_nat k)] = Inr (''read data: '' @ decimal k @ [CHR 0x0A])"
  "printf (Some (''File test passed!'' @ [CHR 0x0A])) [] = Inr (''File test passed!'' @ [CHR 0x0A])"
  by (simp_all add: printf_def decimal_def)

lemma first_free_slot:
  assumes "first_free fds = Some i"
  shows "i < NR_OPEN" and "fds ! i = 0"
  using assms by (auto simp: first_free_def find_Some_iff)

section \<open>filetest\<close>

lemma filetest_write_spec:
  assumes r: "running img R F L nm fds ft s" and room: "blk 5 c \<subseteq> F" and len: "length fds = NR_OPEN"
    and i: "first_free fds = Some i" and ft: "dom ft \<inter> F = {}"
    and name: "is_cstring (string_at (kmem s) name) bs" "bs \<noteq> slash" "length bs < 32" "bs \<notin> nm ` dom L"
    and data: "is_cstring (string_at (kmem s) data) ds" "length ds \<le> 512"
    and free: "2 \<le> card (free_blocks (fs_img_start img) (kmem s))" "0 < slots (fs_img_start img) (kmem s)"
    and apart: "bytes_at name (length bs + 1) \<inter> (F \<union> image_span (fs_img_start img)) = {}"
      "bytes_at data (length ds + 1) \<inter> (F \<union> image_span (fs_img_start img)) = {}"
  obtains n ib bl s' where "filetest_write img env name data s = Inr (Returned () s')" and "L n = None"
    and "running img R F (L(n \<mapsto> (ib, bl))) (nm(n := bs)) fds ft s'"
    and "content (fs_img_start img) (kmem s') n bl = ds"
    and "console s' = console s @ map of_char (''open file, fd = '' @ decimal i @ [CHR 0x0A] @
      ''write data: '' @ decimal (length ds) @ [CHR 0x0A])"
    and "same_outside (F \<union> image_span (fs_img_start img)) (kmem s) (kmem s')"
proof -
  let ?fs = "fs_img_start img"
  note slot = first_free_slot [OF i]
  note FR = file_heapD(7) [OF running_heap [OF r]]
  have ne: "free_blocks ?fs (kmem s) \<noteq> {}" using free(1) by auto
  have apart_name: "bytes_at name (length bs + 1) \<inter> image_span ?fs = {}" using apart(1) by blast
  obtain n f t s1 where 1: "kernel_call img env s (u_open name O_CREATE) = Inr (Returned (of_nat i) s1)"
    "running img R (F - blk 5 f) (L(n \<mapsto> (0, []))) (nm(n := bs)) (fds[i := f]) (ft(f \<mapsto> fresh_file t (get_inode ?fs (int n)))) s1"
    "f \<noteq> 0" "aligned 5 f" "blk 5 f \<subseteq> F" "t \<noteq> FILE_STDIO" "L n = None" "console s1 = console s"
    "n \<in> free_blocks ?fs (kmem s)" "file_size ?fs (kmem s1) n = 0"
    "free_blocks ?fs (kmem s1) = free_blocks ?fs (kmem s) - {n}" "same_files ?fs (kmem s) (kmem s1) L"
    "same_outside (F \<union> image_span ?fs) (kmem s) (kmem s1)"
    by (rule call_open_new [OF r room i name(1-4) ne free(2) apart_name])
  define fl where "fl = fresh_file t (get_inode ?fs (int n))"
  define fl' where "fl' = fl\<lparr>f_off := f_off fl + of_nat (length ds)\<rparr>"
  define L1 where "L1 = L(n \<mapsto> (0, []))"
  let ?F = "F - blk 5 f" and ?nm = "nm(n := bs)" and ?fds = "fds[i := f]"
  note r1 = 1(2) [folded fl_def L1_def]
  obtain s2 where 2: "user_message img env (''open file, fd = %d'' @ [CHR 0x0A]) [IntArg (of_nat i)] s1 = Inr (Returned () s2)"
    "running img R ?F L1 ?nm ?fds (ft(f \<mapsto> fl)) s2"
    "console s2 = console s1 @ map of_char (''open file, fd = '' @ decimal i @ [CHR 0x0A])" "kheap s2 = kheap s1"
    by (rule user_message_spec [OF r1 number_messages(1)])
  have d2: "is_cstring (string_at (kmem s2) data) ds"
    using cstring_frame [OF data(1) 1(13) apart(2)] data(2) 2(4) by simp
  have sl: "strlen (string_at (kmem s2) data) = Inr (length ds)"
    using strlen_loop_spec [of "string_at (kmem s2) data" 0 ds] d2 by (simp add: strlen_def returns_def)
  have un: "unat (of_nat (length ds) :: 32 word) = length ds" using data(2) by (simp add: unat_of_nat)
  have rf: "refers img ?fds (ft(f \<mapsto> fl)) i f fl n"
    using slot(1) len 1(3,6) by (simp add: refers_def fl_def)
  have off: "f_off fl = 0" by (simp add: fl_def)
  have card: "blocks_needed (0, []) (blocks_for (unat (f_off fl) + unat (of_nat (length ds) :: 32 word))) \<le>
      card (free_blocks ?fs (kmem s2))"
  proof -
    have "blocks_for (length ds) \<le> 1" unfolding blocks_for_le using data(2) by simp
    moreover have "1 \<le> card (free_blocks ?fs (kmem s2))" using free(1) 1(9,11) 2(4) by simp
    ultimately show ?thesis by (simp add: off un)
  qed
  have sz2: "file_size ?fs (kmem s2) n = 0" using 1(10) 2(4) by simp
  have l: "L1 n = Some (0, [])" by (simp add: L1_def)
  have apart_data: "bytes_at data (unat (of_nat (length ds) :: 32 word)) \<inter> image_span ?fs = {}"
    unfolding un using apart(2) bytes_at_less [of "length ds" "length ds + 1" data] by auto
  have bounds: "unat (f_off fl) \<le> file_size ?fs (kmem s2) n" "unat (of_nat (length ds) :: 32 word) < 2 ^ 31"
    "unat (f_off fl) + unat (of_nat (length ds) :: 32 word) \<le> 71680"
    unfolding un using data(2) by (simp_all add: off)
  obtain ib new s3 where 3: "kernel_call img env s2 (u_write (of_nat i) data (of_nat (length ds))) =
      Inr (Returned (of_nat (unat (of_nat (length ds) :: 32 word))) s3)"
    "content ?fs (kmem s3) n ([] @ new) = overwrite (content ?fs (kmem s2) n []) (unat (f_off fl))
      (map (\<lambda>i. kmem s2 (data + of_nat i)) [0..<unat (of_nat (length ds) :: 32 word)])"
    "running img R ?F (L1(n \<mapsto> (ib, [] @ new))) ?nm ?fds ((ft(f \<mapsto> fl))(f \<mapsto> fl\<lparr>f_off := f_off fl + of_nat (length ds)\<rparr>)) s3"
    "console s3 = console s2" "same_outside (image_span ?fs) (kmem s2) (kmem s3)"
    by (rule call_write [OF 2(2) rf l bounds card apart_data])
  have "content ?fs (kmem s2) n [] = []" using sz2 content_length [of ?fs "kmem s2" n "[]"] by (metis length_0_conv)
  then have c3: "content ?fs (kmem s3) n new = ds"
    using 3(2) cstring_bytes [OF d2] un by (simp add: overwrite_def off)
  have r3: "running img R ?F (L(n \<mapsto> (ib, new))) ?nm ?fds (ft(f \<mapsto> fl')) s3"
    using 3(3) by (simp add: L1_def fl'_def)
  obtain s4 where 4: "user_message img env (''write data: %d'' @ [CHR 0x0A]) [IntArg (of_nat (length ds))] s3 = Inr (Returned () s4)"
    "running img R ?F (L(n \<mapsto> (ib, new))) ?nm ?fds (ft(f \<mapsto> fl')) s4"
    "console s4 = console s3 @ map of_char (''write data: '' @ decimal (length ds) @ [CHR 0x0A])" "kheap s4 = kheap s3"
    by (rule user_message_spec [OF r3 number_messages(2)])
  have cl: "length ?fds = NR_OPEN" "?fds ! i = f" "(ft(f \<mapsto> fl')) f = Some fl'" "f_count fl' = 1" "blk 5 f \<subseteq> R - ?F"
    using slot len 1(5) FR by (auto simp: fl'_def fl_def)
  obtain s5 where 5: "kernel_call img env s4 (u_close (of_nat i)) = Inr (Returned 0 s5)"
    "running img R (?F \<union> blk 5 f) (L(n \<mapsto> (ib, new))) ?nm (?fds[i := 0]) ((ft(f \<mapsto> fl'))(f := None)) s5"
    "console s5 = console s4" "same_outside (?F \<union> blk 5 f) (kmem s4) (kmem s5)"
    by (rule call_close_last [OF 4(2) slot(1) cl(1,2) 1(3) cl(3,4) 1(4) cl(5)])
  have FF: "F - blk 5 f \<union> blk 5 f = F" using 1(5) by blast
  have "f \<in> F" using 1(5) by auto
  then have ftf: "ft f = None" using ft by blast
  have fds: "fds[i := f, i := 0] = fds" using slot len by (simp add: list_update_same_conv)
  have r5: "running img R F (L(n \<mapsto> (ib, new))) (nm(n := bs)) fds ft s5"
    using 5(2) fds FF ftf by (simp add: fun_upd_idem)
  have c5: "content ?fs (kmem s5) n new = ds"
  proof -
    note h4 = running_heap [OF 4(2)] and h5 = running_heap [OF r5]
    have "same_outside (- image_span ?fs) (kmem s4) (kmem s5)"
      by (rule same_outside_mono [OF 5(4) [unfolded FF]]) (use file_heapD(6) [OF h5] in blast)
    from files_outside(2) [OF h4 this file_heapD(2) [OF h5]] c3 4(4) show ?thesis by (simp add: same_files_def)
  qed
  have run: "filetest_write img env name data s = Inr (Returned () s5)"
    using 1(1) 2(1) sl 3(1) 4(1) 5(1) un slot(1) data(2)
    by (simp add: filetest_write_def small_not_error NR_OPEN_def Let_def)
  have con: "console s5 = console s @ map of_char (''open file, fd = '' @ decimal i @ [CHR 0x0A] @
      ''write data: '' @ decimal (length ds) @ [CHR 0x0A])"
    using 1(8) 2(3) 3(4) 4(3) 5(3) by simp
  have so: "same_outside (F \<union> image_span ?fs) (kmem s) (kmem s5)"
    using same_outside_trans [OF 1(13) same_outside_trans [OF same_outside_mono [OF 3(5) [unfolded 2(4)], of "F \<union> image_span ?fs"]
      same_outside_mono [OF 5(4) [unfolded 4(4) FF], of "F \<union> image_span ?fs"]]] by blast
  show thesis by (rule that [OF run 1(7) r5 c5 con so])
qed

lemma sint_of_nat: "k < 2 ^ 31 \<Longrightarrow> sint (of_nat k :: 32 word) = int k"
  using sint_small [of "of_nat k"] by (simp add: unat_of_nat)

lemma scast_of_nat: "k < 2 ^ 31 \<Longrightarrow> (scast (of_nat k :: 32 word) :: u64) = of_nat k"
  unfolding scast_eq by (simp only: sint_of_nat of_int_of_nat_eq)

text \<open>A string read into a buffer and terminated there.\<close>

lemma terminated_buffer:
  assumes "map (\<lambda>i. m (buf + of_nat i)) [0..<length ds] = ds" and "0 \<notin> set ds" and "length ds < 2 ^ 32"
  shows "is_cstring (string_at (m(buf + of_nat (length ds) := 0)) buf) ds"
proof -
  have "m (buf + of_nat i) = ds ! i" "ds ! i \<noteq> 0" if "i < length ds" for i
  proof -
    show "m (buf + of_nat i) = ds ! i" using arg_cong [OF assms(1), of "\<lambda>xs. xs ! i"] that by simp
    show "ds ! i \<noteq> 0" using assms(2) that nth_mem by metis
  qed
  moreover have "buf + of_nat i \<noteq> buf + of_nat (length ds)" if "i < length ds" for i :: nat
  proof
    assume "buf + of_nat i = buf + of_nat (length ds)"
    then have "unat (of_nat i :: u64) = unat (of_nat (length ds) :: u64)" by simp
    then show False using that assms(3) by (simp add: unat_of_nat)
  qed
  ultimately show ?thesis by (simp add: is_cstring_def string_at_def)
qed

lemma filetest_read_spec:
  assumes r: "running img R F L nm fds ft s" and room: "blk 5 c \<subseteq> F" and len: "length fds = NR_OPEN"
    and i: "first_free fds = Some i" and ft: "dom ft \<inter> F = {}"
    and name: "is_cstring (string_at (kmem s) name) bs" "bs \<noteq> slash"
    and n: "L n = Some (ib, bl)" "nm n = bs" "content (fs_img_start img) (kmem s) n bl = ds"
    and ds: "0 \<notin> set ds" "length ds \<le> 99"
    and apart: "bytes_at buffer 100 \<inter> (F \<union> image_span (fs_img_start img)) = {}"
  obtains s' where "filetest_read img env name buffer s = Inr (Returned () s')"
    and "running img R F L nm fds ft s'" and "content (fs_img_start img) (kmem s') n bl = ds"
    and "console s' = console s @ map of_char (''open file, fd = '' @ decimal i @ [CHR 0x0A] @
      ''read data: '' @ decimal (length ds) @ [CHR 0x0A] @ ''read data: '') @ ds @ [0x0A]"
proof -
  let ?fs = "fs_img_start img"
  note slot = first_free_slot [OF i]
  note FR = file_heapD(7) [OF running_heap [OF r]] and FI = file_heapD(6) [OF running_heap [OF r]]
  have nd: "n \<in> dom L" using n(1) by blast
  obtain f t s1 where 1: "kernel_call img env s (u_open name 0) = Inr (Returned (of_nat i) s1)"
    "running img R (F - blk 5 f) L nm (fds[i := f]) (ft(f \<mapsto> fresh_file t (get_inode ?fs (int n)))) s1"
    "f \<noteq> 0" "aligned 5 f" "blk 5 f \<subseteq> F" "t \<noteq> FILE_STDIO" "console s1 = console s"
    "same_outside F (kmem s) (kmem s1)"
    by (rule call_open_existing [OF r room i name nd n(2)])
  define fl where "fl = fresh_file t (get_inode ?fs (int n))"
  let ?F = "F - blk 5 f" and ?fds = "fds[i := f]"
  obtain s2 where 2: "user_message img env (''open file, fd = %d'' @ [CHR 0x0A]) [IntArg (of_nat i)] s1 = Inr (Returned () s2)"
    "running img R ?F L nm ?fds (ft(f \<mapsto> fl)) s2"
    "console s2 = console s1 @ map of_char (''open file, fd = '' @ decimal i @ [CHR 0x0A])" "kheap s2 = kheap s1"
    by (rule user_message_spec [OF 1(2) [folded fl_def] number_messages(1)])
  have stay: "content ?fs (kmem u') n bl = content ?fs (kmem u) n bl"
    if "running img R G L nm fds1 ft1 u" "running img R G' L nm fds2 ft2 u'"
      "same_outside (- image_span ?fs) (kmem u) (kmem u')" for u u' G G' fds1 fds2 ft1 ft2
    using files_outside(2) [OF running_heap [OF that(1)] that(3) file_heapD(2) [OF running_heap [OF that(2)]]] n(1)
    by (simp add: same_files_def)
  have "same_outside (- image_span ?fs) (kmem s) (kmem s2)"
    unfolding 2(4) by (rule same_outside_mono [OF 1(8)]) (use FI in blast)
  from stay [OF r 2(2) this] n(3) have c2: "content ?fs (kmem s2) n bl = ds" by simp
  then have sz: "file_size ?fs (kmem s2) n = length ds" using content_length [of ?fs "kmem s2" n bl] by simp
  have rf: "refers img ?fds (ft(f \<mapsto> fl)) i f fl n" using slot(1) len 1(3,6) by (simp add: refers_def fl_def)
  have off: "f_off fl = 0" by (simp add: fl_def)
  have k: "length ds = min (unat (99 :: 32 word)) (file_size ?fs (kmem s2) n - unat (f_off fl))"
    using ds(2) by (simp add: sz off)
  have ap: "bytes_at buffer (length ds) \<inter> (?F \<union> image_span ?fs) = {}"
    using apart bytes_at_less [of "length ds" 100 buffer] ds(2) by auto
  have o2: "unat (f_off fl) \<le> file_size ?fs (kmem s2) n" by (simp add: off)
  define fl' where "fl' = fl\<lparr>f_off := f_off fl + of_nat (length ds)\<rparr>"
  obtain s3 where 3: "kernel_call img env s2 (u_read (of_nat i) buffer 99) = Inr (Returned (of_nat (length ds)) s3)"
    "map (\<lambda>i. kmem s3 (buffer + of_nat i)) [0..<length ds] =
      List.take (length ds) (drop (unat (f_off fl)) (content ?fs (kmem s2) n bl))"
    "running img R ?F L nm ?fds (ft(f \<mapsto> fl, f \<mapsto> fl\<lparr>f_off := f_off fl + of_nat (length ds)\<rparr>)) s3"
    "console s3 = console s2" "same_outside (bytes_at buffer (length ds)) (kmem s2) (kmem s3)"
    by (rule call_read [OF 2(2) rf n(1) o2 _ k ap]) simp
  have r3: "running img R ?F L nm ?fds (ft(f \<mapsto> fl')) s3" using 3(3) by (simp add: fl'_def)
  obtain s4 where 4: "user_message img env (''read data: %d'' @ [CHR 0x0A]) [IntArg (of_nat (length ds))] s3 = Inr (Returned () s4)"
    "running img R ?F L nm ?fds (ft(f \<mapsto> fl')) s4"
    "console s4 = console s3 @ map of_char (''read data: '' @ decimal (length ds) @ [CHR 0x0A])" "kheap s4 = kheap s3"
    by (rule user_message_spec [OF r3 number_messages(3)])
  let ?a = "buffer + of_nat (length ds)"
  have "?a \<in> bytes_at buffer 100" using ds(2) by (simp add: bytes_at_def unat_of_nat)
  then have a: "?a \<notin> ?F" "?a \<notin> image_span ?fs" using apart by blast+
  define s5 where "s5 = set_kmem s4 ((kmem s4)(?a := 0))"
  have r5: "running img R ?F L nm ?fds (ft(f \<mapsto> fl')) s5" unfolding s5_def by (rule program_store(1) [OF 4(2) a])
  have m5: "kmem s5 = (kmem s4)(?a := 0)" "console s5 = console s4" by (simp_all add: s5_def set_kmem_def)
  have "map (\<lambda>i. kmem s4 (buffer + of_nat i)) [0..<length ds] = ds" using 3(2) c2 4(4) by (simp add: off)
  from terminated_buffer [OF this ds(1)] ds(2) have "is_cstring (string_at (kmem s5) buffer) ds" by (simp add: m5)
  then have ps: "put_string (kmem s5) buffer [] = Some ds" using put_string_spec [of "kmem s5" buffer ds "[]"] by simp
  obtain s6 where 6: "user_put img env (map of_char ''read data: '' @ ds @ [0x0A]) s5 = Inr (Returned () s6)"
    "running img R ?F L nm ?fds (ft(f \<mapsto> fl')) s6"
    "console s6 = console s5 @ map of_char ''read data: '' @ ds @ [0x0A]" "kheap s6 = kheap s5"
    by (rule user_put_spec [OF r5])
  have cl: "length ?fds = NR_OPEN" "?fds ! i = f" "(ft(f \<mapsto> fl')) f = Some fl'" "f_count fl' = 1" "blk 5 f \<subseteq> R - ?F"
    using slot len 1(5) FR by (auto simp: fl'_def fl_def)
  obtain s7 where 7: "kernel_call img env s6 (u_close (of_nat i)) = Inr (Returned 0 s7)"
    "running img R (?F \<union> blk 5 f) L nm (?fds[i := 0]) ((ft(f \<mapsto> fl'))(f := None)) s7"
    "console s7 = console s6" "same_outside (?F \<union> blk 5 f) (kmem s6) (kmem s7)"
    by (rule call_close_last [OF 6(2) slot(1) cl(1,2) 1(3) cl(3,4) 1(4) cl(5)])
  have FF: "?F \<union> blk 5 f = F" using 1(5) by blast
  have "f \<in> F" using 1(5) by auto
  then have "ft f = None" using ft by blast
  moreover have "fds[i := f, i := 0] = fds" using slot len by (simp add: list_update_same_conv)
  ultimately have r7: "running img R F L nm fds ft s7" using 7(2) FF by (simp add: fun_upd_idem)
  have "same_outside (- image_span ?fs) (kmem s2) (kmem s7)"
  proof -
    have "same_outside (- image_span ?fs) (kmem s2) (kmem s3)" by (rule same_outside_mono [OF 3(5)]) (use ap in blast)
    moreover have "same_outside (- image_span ?fs) (kmem s3) (kmem s6)"
      unfolding 6(4) m5(1) 4(4) using a(2) by (simp add: same_outside_def)
    moreover have "same_outside (- image_span ?fs) (kmem s6) (kmem s7)"
      by (rule same_outside_mono [OF 7(4) [unfolded FF]]) (use FI in blast)
    ultimately show ?thesis by (blast intro: same_outside_trans)
  qed
  from stay [OF 2(2) r7 this] c2 have c7: "content ?fs (kmem s7) n bl = ds" by simp
  have run: "filetest_read img env name buffer s = Inr (Returned () s7)"
    using 1(1) 2(1) 3(1) 4(1) ps 6(1) 7(1) slot(1) ds(2)
    by (simp add: filetest_read_def small_not_error NR_OPEN_def Let_def scast_of_nat returns_def s5_def [symmetric])
  have con: "console s7 = console s @ map of_char (''open file, fd = '' @ decimal i @ [CHR 0x0A] @
      ''read data: '' @ decimal (length ds) @ [CHR 0x0A] @ ''read data: '') @ ds @ [0x0A]"
    using 1(7) 2(3) 3(4) 4(3) m5(2) 6(3) 7(3) by simp
  show thesis by (rule that [OF run r7 c7 con])
qed

section \<open>A program with its kernel\<close>

text \<open>
  The small heap, the image of the demonstration directory at \<open>0x100000\<close>, and the constants of
  \<^verbatim>\<open>filetest\<close> in the memory of the program.
\<close>

definition demo_memory :: "mem \<Rightarrow> mem" where
  "demo_memory disk =
     (\<lambda>x. if x \<in> image_span 0x100000 then disk x
          else if unat (x - 0x1000) < 100 then literal ''test.txt'' (unat (x - 0x1000))
          else if unat (x - 0x2000) < 100 then literal ''Hello, file system!'' (unat (x - 0x2000))
          else fst small_heap x)"

definition demo_start :: "mem \<Rightarrow> kernel" where
  "demo_start disk = demo_kernel\<lparr>kheap := (demo_memory disk, snd small_heap)\<rparr>"

lemma low_apart:
  assumes "a \<le> 0x3000" and "k \<le> 100"
  shows "bytes_at a k \<inter> (heap \<union> image_span 0x100000) = {}"
proof -
  have "x < 0x100000" if "x \<in> bytes_at a k" for x
  proof -
    have d: "unat (x - a) < 100" using that assms(2) by (simp add: bytes_at_def)
    have ua: "unat a \<le> 12288" using assms(1) by (simp add: word_le_nat_alt)
    have "unat (a + (x - a)) = (unat a + unat (x - a)) mod 2 ^ 64" by (simp only: unat_word_ariths) simp
    also have "\<dots> = unat a + unat (x - a)" using d ua by (intro mod_less) simp
    finally have "unat x = unat a + unat (x - a)" by simp
    then show ?thesis using d ua by (simp add: word_less_nat_alt)
  qed
  moreover have "x \<notin> heap \<union> image_span 0x100000" if "x < 0x100000" for x
  proof -
    have x: "unat x < 0x100000" using that by (simp add: word_less_nat_alt)
    then have "unat (x - 0x100000) = unat x + 2 ^ 64 - 0x100000" by (simp add: unat_sub_if' word_less_nat_alt)
    then have "x \<notin> image_span 0x100000" by (simp add: span_def)
    moreover have "x \<notin> heap" using x by (auto simp: heap_start_def word_le_nat_alt)
    ultimately show ?thesis by blast
  qed
  ultimately show ?thesis by blast
qed

lemma demo_placed: "well_placed demo_image heap"
proof -
  have "x \<notin> image_span 0x100000" if "x \<in> heap" for x
  proof -
    have "unat heap_start \<le> unat x" using that by (simp add: word_le_nat_alt)
    then have "unat (x - 0x100000) = unat x - 0x100000" by (simp add: unat_sub_if' heap_start_def word_le_nat_alt)
    then show ?thesis using \<open>unat heap_start \<le> unat x\<close> by (simp add: span_def heap_start_def)
  qed
  moreover have "0 \<notin> image_span 0x100000" "(0x10 :: addr) \<notin> image_span 0x100000" by (simp_all add: span_def)
  ultimately show ?thesis by (auto simp: well_placed_def demo_image_def)
qed

lemma demo_session:
  obtains disk L where "mkfs 0x100000 (\<lambda>_. 0) demo_directory = Some disk"
    and "running demo_image heap heap L (\<lambda>_. map of_char ''a'') (replicate 16 0) Map.empty (demo_start disk)"
    and "2 \<le> card (free_blocks 0x100000 (kmem (demo_start disk)))" and "0 < slots 0x100000 (kmem (demo_start disk))"
    and "\<exists>n. dom L = {n}"
proof -
  obtain m L ns where m: "mkfs 0x100000 (\<lambda>_. 0) demo_directory = Some m" "fs_ok 0x100000 m L"
    "holds 0x100000 m L [demo_file] ns" "card (free_blocks 0x100000 m) + 2 = 2045" "slots 0x100000 m + 1 = 256"
    using mkfs_spec [of demo_directory "0x100000" "\<lambda>_. 0"] by (auto simp: demo_regular demo_packable)
  let ?m = "demo_memory m"
  have img: "fs_img_start demo_image = 0x100000" by (simp add: demo_image_def)
  have "same_outside (span 0x100000 0 6 \<union> - image_span 0x100000) m ?m"
    by (simp add: same_outside_def demo_memory_def)
  note o = fs_ok_superblock [OF m(2) this]
  have sh: "small_heap = (fst small_heap, snd small_heap)" by simp
  have "same_outside (- heap) (fst small_heap) ?m"
  proof -
    have "x \<notin> image_span 0x100000" if "x \<in> heap" for x
      using demo_placed that by (auto simp: well_placed_def img)
    moreover have "\<not> unat (x - 0x1000) < 100" "\<not> unat (x - 0x2000) < 100" if "x \<in> heap" for x
      using low_apart [of "0x1000" 100] low_apart [of "0x2000" 100] that by (auto simp: bytes_at_def)
    ultimately show ?thesis by (auto simp: same_outside_def demo_memory_def)
  qed
  then have "buddy_inv heap (?m, snd small_heap) heap"
    using buddy_inv_same_free [of heap "fst small_heap" "snd small_heap" heap] small_heap_inv by simp
  moreover have h: "length ns = 1" "dom L = set ns" "file_name 0x100000 m (ns ! 0) (map of_char ''a'')"
    using m(3) by (auto simp: holds_def demo_file_def)
  then have d: "dom L = {ns ! 0}" by (cases ns) auto
  moreover have "\<forall>n \<in> dom L. file_name 0x100000 ?m n (map of_char ''a'')" "inj_on (\<lambda>_. map of_char ''a'') (dom L)"
  proof -
    from d show "inj_on (\<lambda>_. map of_char ''a'') (dom L)" by simp
    show "\<forall>n \<in> dom L. file_name 0x100000 ?m n (map of_char ''a'')"
      using h(3) o(5) d unfolding same_files_def by fastforce
  qed
  ultimately have "file_heap demo_image heap heap L (\<lambda>_. map of_char ''a'') (?m, snd small_heap)"
    using demo_placed o(1) by (simp add: file_heap_def img)
  then have "running demo_image heap heap L (\<lambda>_. map of_char ''a'') (replicate 16 0) Map.empty (demo_start m)"
    by (simp add: running_def demo_start_def demo_kernel_def demo_pcb_def)
  with that m(1,4,5) o(3,4) d show thesis by (simp add: demo_start_def)
qed

section \<open>The kind of an opened file\<close>

lemma load16_low: "load16 m a = ucast (load64 m a)"
  by (rule bit_word_eqI) (auto simp: bit_load_bytes bit_ucast_iff)

lemma open_inode_kind:
  assumes inv: "buddy_inv R (kheap s) F" and b: "pcbs s (current s) = Some b" and i: "i < length (files b)" "i < NR_OPEN"
    and o: "open_inode s i inode = Inr (fd, s')"
  shows "\<exists>f fl b'. pcbs s' (current s') = Some b' \<and> open_fd b' fd = Some f \<and> file_table s' f = Some fl \<and>
    f_type fl = ucast (load64 (kmem s') f) \<and> aligned 3 (load64 (kmem s') f) \<and>
    f_type fl \<noteq> FILE_STDIO \<and> f_count fl = 1 \<and> f_off fl = 0 \<and> f_inode fl = inode \<and> aligned 5 f \<and> blk 5 f \<subseteq> F"
proof -
  have so: "size_order sizeof_file = 5" using small_orders(2) by (simp add: sizeof_file_def)
  obtain f h where f: "alloc (kheap s) sizeof_file = Inr (f, h)"
    using o by (cases "alloc (kheap s) sizeof_file") (auto simp: open_inode_def new_file_def kalloc_def)
  have a: "f \<noteq> 0" "aligned 5 f" "blk 5 f \<subseteq> F" using alloc_spec [OF inv, of sizeof_file] f so by auto
  note link = fresh_link [OF inv f]
  have t: "load16 (fst h) f \<noteq> FILE_STDIO" unfolding FILE_STDIO_def by (rule load16_link [OF link])
  let ?fl = "fresh_file (load16 (fst h) f) inode" and ?b = "b\<lparr>files := (files b)[i := f]\<rparr>"
  have s': "fd = int i" "pcbs s' (current s') = Some ?b" "file_table s' f = Some ?fl" "kheap s' = h"
    using o f b by (auto simp: open_inode_def new_file_def kalloc_def set_file_def file_at_def set_fd_def update_pcb_def
        get_pcb_def set_pcb_def deref_def)
  have "open_fd ?b fd = Some f" using i a(1) s'(1) by (simp add: open_fd_def)
  with s' t a(2,3) link show ?thesis by (intro exI [of _ f] exI [of _ ?fl] exI [of _ ?b]) (simp add: load16_low)
qed

text \<open>What \<^verbatim>\<open>sys_open\<close> may have to do before: \<^verbatim>\<open>create\<close>, which writes to the image only.\<close>

definition can_create :: "image \<Rightarrow> addr set \<Rightarrow> addr set \<Rightarrow> kernel \<Rightarrow> addr \<Rightarrow> bool" where
  "can_create img R F s name \<longleftrightarrow> (\<exists>L nm bs. file_heap img R F L nm (kheap s) \<and>
     free_blocks (fs_img_start img) (kmem s) \<noteq> {} \<and> 0 < slots (fs_img_start img) (kmem s) \<and>
     is_cstring (string_at (kmem s) name) bs \<and> length bs < 32 \<and>
     bytes_at name (length bs + 1) \<inter> image_span (fs_img_start img) = {})"

lemma created_heap:
  assumes "can_create img R F s name" and "create (fs_img_start img) (kmem s) name = Inr (inode, m)"
  shows "buddy_inv R (kheap (set_kmem s m)) F"
proof -
  obtain L nm bs where c: "file_heap img R F L nm (kheap s)" "free_blocks (fs_img_start img) (kmem s) \<noteq> {}"
    "0 < slots (fs_img_start img) (kmem s)" "is_cstring (string_at (kmem s) name) bs" "length bs < 32"
    "bytes_at name (length bs + 1) \<inter> image_span (fs_img_start img) = {}"
    using assms(1) by (auto simp: can_create_def)
  have "\<exists>i < FAT_LEN. fat_entry (fs_img_start img) (kmem s) i = 0" using c(3) by (auto simp: slots_def card_gt_0_iff)
  from create_spec [OF file_heapD(3) [OF c(1)] c(2) this c(4-6)] assms(2)
  have "same_outside (image_span (fs_img_start img)) (kmem s) m" by auto
  then show ?thesis using heap_outside [of img R F L nm "kmem s" "snd (kheap s)" m] c(1) by (simp add: set_kmem_def)
qed

text \<open>
  C32: \<^verbatim>\<open>sys_open\<close> never sets the kind of the file it opens, and yet \<^verbatim>\<open>sys_read\<close> and \<^verbatim>\<open>sys_write\<close>
  never take that file for the console: the two bytes of \<^verbatim>\<open>type\<close> are the low bytes of the link that the
  block had in its free list, and a link is a multiple of eight. The descriptor refers to the new
  \<^verbatim>\<open>struct File\<close>, which has one reference and starts at offset 0. This holds for every file that is there
  and for the root; with the flag \<^verbatim>\<open>O_CREATE\<close> also for one that is made, the image being well formed with a
  free block and a free entry, and the name a string of less than 32 bytes outside it.
\<close>

theorem opened_file_kind:
  assumes "buddy_inv R (kheap s) F" and "pcbs s (current s) = Some b" and "length (files b) = NR_OPEN"
    and "flags AND O_CREATE = 0 \<or> can_create img R F s name" and "sys_open img s name flags = Inr (fd, s')" and "fd \<noteq> -1"
  shows "\<exists>f fl b'. pcbs s' (current s') = Some b' \<and> open_fd b' fd = Some f \<and> file_table s' f = Some fl \<and>
    f_type fl = ucast (load64 (kmem s') f) \<and> aligned 3 (load64 (kmem s') f) \<and>
    f_type fl \<noteq> FILE_STDIO \<and> f_count fl = 1 \<and> f_off fl = 0 \<and> aligned 5 f \<and> blk 5 f \<subseteq> F"
proof -
  obtain i where i: "find (\<lambda>i. files b ! i = 0) [0..<NR_OPEN] = Some i"
    using assms(2,5,6) by (auto simp: sys_open_def get_pcb_def deref_def split: option.splits)
  then have len: "i < length (files b)" "i < NR_OPEN" using assms(3) by (auto simp: find_Some_iff)
  consider inode where "open_inode s i inode = Inr (fd, s')"
    | inode m where "create (fs_img_start img) (kmem s) name = Inr (inode, m)" "flags AND O_CREATE \<noteq> 0"
      "open_inode (set_kmem s m) i inode = Inr (fd, s')"
    using assms(2,5,6) i by (auto simp: sys_open_def get_pcb_def deref_def bindE_Inr_iff split: if_splits)
  then show ?thesis
  proof cases
    case 1
    from open_inode_kind [OF assms(1,2) len 1] show ?thesis by blast
  next
    case 2
    then have "buddy_inv R (kheap (set_kmem s m)) F" using created_heap assms(4) by blast
    moreover have "pcbs (set_kmem s m) (current (set_kmem s m)) = Some b" using assms(2) by (simp add: set_kmem_def)
    ultimately show ?thesis using open_inode_kind [OF _ _ len 2(3)] by blast
  qed
qed

text \<open>The root directory, opened by the idle process of the demonstration kernel.\<close>

theorem opened_file_kind_witness:
  "\<exists>s fd s' f fl b'. sys_open demo_image s 0x4000 0 = Inr (fd, s') \<and> fd \<noteq> -1 \<and>
    pcbs s' (current s') = Some b' \<and> open_fd b' fd = Some f \<and> file_table s' f = Some fl \<and> f_type fl \<noteq> FILE_STDIO"
proof -
  define m where "m = (fst small_heap)(0x4000 := of_char CHR ''/'', 0x4001 := 0)"
  define s where "s = demo_kernel\<lparr>kheap := (m, snd small_heap)\<rparr>"
  have "same_outside (- heap) (fst small_heap) m"
    by (auto simp: same_outside_def m_def heap_start_def word_le_nat_alt)
  then have inv: "buddy_inv heap (kheap s) heap"
    using buddy_inv_same_free [of heap "fst small_heap" "snd small_heap" heap] small_heap_inv by (simp add: s_def)
  have p: "pcbs s (current s) = Some (demo_pcb 0 Running)" "length (files (demo_pcb 0 Running)) = NR_OPEN"
    by (simp_all add: s_def demo_kernel_def demo_pcb_def NR_OPEN_def)
  have root: "is_cstring (string_at (kmem s) 0x4000) (map of_char ''/'')"
    by (simp add: s_def m_def is_cstring_def string_at_def)
  have lit: "is_cstring (literal ''/'') (map of_char ''/'')" by (rule string_is_literal) simp_all
  have c: "strcmp (literal ''/'') (string_at (kmem s) 0x4000) = Inr 0"
    unfolding strcmp_spec [OF lit root] by (simp add: dictionary_0_iff)
  have slot: "find (\<lambda>i. files (demo_pcb 0 Running) ! i = 0) [0..<NR_OPEN] = Some 0"
    by (simp add: demo_pcb_def NR_OPEN_def upt_conv_Cons)
  have o: "sys_open demo_image s 0x4000 0 = open_inode s 0 (ROOT_INODE demo_image)"
    using p c slot by (simp add: sys_open_def get_pcb_def deref_def)
  have so: "size_order sizeof_file = 5" using small_orders(2) by (simp add: sizeof_file_def)
  have room: "blk 5 (heap_start + 0x1000) \<subseteq> heap" using heap_page(1) blk_mono [of 5 12] by fastforce
  obtain f h where f: "alloc (kheap s) sizeof_file = Inr (f, h)"
    using alloc_spec [OF inv, of sizeof_file] so room by (cases "alloc (kheap s) sizeof_file") auto
  obtain s' where s': "sys_open demo_image s 0x4000 0 = Inr (0, s')"
    unfolding o using f p(1) by (simp add: open_inode_def new_file_def kalloc_def set_file_def set_fd_def update_pcb_def
        get_pcb_def set_pcb_def deref_def)
  from opened_file_kind [OF inv p _ s'] have "\<exists>f fl b'. pcbs s' (current s') = Some b' \<and> open_fd b' 0 = Some f \<and>
      file_table s' f = Some fl \<and> f_type fl \<noteq> FILE_STDIO" by auto
  moreover have "(0 :: int) \<noteq> -1" by simp
  ultimately show ?thesis using s' by blast
qed

section \<open>filetest passes\<close>

text \<open>
  C3: \<^verbatim>\<open>user/filetest.c\<close> passes, through traps, system calls, the file system and the heap. For a name
  that is not in the image, an image with two free blocks and a free entry, a heap with room for one
  \<^verbatim>\<open>struct File\<close>, a free descriptor, and a string of less than a hundred characters, \<^verbatim>\<open>main\<close> returns
  after putting out exactly the messages of success, with the string it has read back. The file is in
  the image with that content; the descriptors, the open files and the free memory are those it
  started with.
\<close>

theorem filetest_passes:
  assumes r: "running img R F L nm fds ft s" and room: "blk 5 c \<subseteq> F" and len: "length fds = NR_OPEN"
    and i: "first_free fds = Some i" and ft: "dom ft \<inter> F = {}"
    and name: "is_cstring (string_at (kmem s) name) bs" "bs \<noteq> slash" "length bs < 32" "bs \<notin> nm ` dom L"
    and data: "is_cstring (string_at (kmem s) data) ds" "length ds \<le> 99"
    and free: "2 \<le> card (free_blocks (fs_img_start img) (kmem s))" "0 < slots (fs_img_start img) (kmem s)"
    and apart: "bytes_at name (length bs + 1) \<inter> (F \<union> image_span (fs_img_start img)) = {}"
      "bytes_at data (length ds + 1) \<inter> (F \<union> image_span (fs_img_start img)) = {}"
      "bytes_at buffer 100 \<inter> (F \<union> image_span (fs_img_start img)) = {}"
  shows "\<exists>n ib bl s'. filetest img env name data buffer s = Inr (Returned () s') \<and> L n = None \<and>
    running img R F (L(n \<mapsto> (ib, bl))) (nm(n := bs)) fds ft s' \<and>
    content (fs_img_start img) (kmem s') n bl = ds \<and>
    console s' = console s @ map of_char (
      ''open file, fd = '' @ decimal i @ [CHR 0x0A] @ ''write data: '' @ decimal (length ds) @ [CHR 0x0A] @
      ''open file, fd = '' @ decimal i @ [CHR 0x0A] @ ''read data: '' @ decimal (length ds) @ [CHR 0x0A] @
      ''read data: '') @ ds @ map of_char ([CHR 0x0A] @ ''File test passed!'' @ [CHR 0x0A])"
proof -
  have l512: "length ds \<le> 512" using data(2) by simp
  obtain n ib bl s1 where 1: "filetest_write img env name data s = Inr (Returned () s1)" "L n = None"
    "running img R F (L(n \<mapsto> (ib, bl))) (nm(n := bs)) fds ft s1" "content (fs_img_start img) (kmem s1) n bl = ds"
    "console s1 = console s @ map of_char (''open file, fd = '' @ decimal i @ [CHR 0x0A] @
      ''write data: '' @ decimal (length ds) @ [CHR 0x0A])"
    "same_outside (F \<union> image_span (fs_img_start img)) (kmem s) (kmem s1)"
    by (rule filetest_write_spec [OF r room len i ft name data(1) l512 free apart(1,2)])
  have name1: "is_cstring (string_at (kmem s1) name) bs"
    using cstring_frame [OF name(1) 1(6) apart(1)] name(3) by simp
  have l: "(L(n \<mapsto> (ib, bl))) n = Some (ib, bl)" "(nm(n := bs)) n = bs" by simp_all
  have ds: "0 \<notin> set ds" using data(1) by (auto simp: is_cstring_def in_set_conv_nth)
  obtain s2 where 2: "filetest_read img env name buffer s1 = Inr (Returned () s2)"
    "running img R F (L(n \<mapsto> (ib, bl))) (nm(n := bs)) fds ft s2" "content (fs_img_start img) (kmem s2) n bl = ds"
    "console s2 = console s1 @ map of_char (''open file, fd = '' @ decimal i @ [CHR 0x0A] @
      ''read data: '' @ decimal (length ds) @ [CHR 0x0A] @ ''read data: '') @ ds @ [0x0A]"
    by (rule filetest_read_spec [OF 1(3) room len i ft name1 name(2) l 1(4) ds data(2) apart(3)])
  obtain s3 where 3: "user_message img env (''File test passed!'' @ [CHR 0x0A]) [] s2 = Inr (Returned () s3)"
    "running img R F (L(n \<mapsto> (ib, bl))) (nm(n := bs)) fds ft s3"
    "console s3 = console s2 @ map of_char (''File test passed!'' @ [CHR 0x0A])" "kheap s3 = kheap s2"
    by (rule user_message_spec [OF 2(2) number_messages(4)])
  have "filetest img env name data buffer s = Inr (Returned () s3)"
    using 1(1) 2(1) 3(1) by (simp add: filetest_def)
  moreover have "content (fs_img_start img) (kmem s3) n bl = ds" using 2(3) 3(4) by simp
  moreover have "console s3 = console s @ map of_char (
      ''open file, fd = '' @ decimal i @ [CHR 0x0A] @ ''write data: '' @ decimal (length ds) @ [CHR 0x0A] @
      ''open file, fd = '' @ decimal i @ [CHR 0x0A] @ ''read data: '' @ decimal (length ds) @ [CHR 0x0A] @
      ''read data: '') @ ds @ map of_char ([CHR 0x0A] @ ''File test passed!'' @ [CHR 0x0A])"
    unfolding 3(3) 2(4) 1(5) by simp
  ultimately show ?thesis using 1(2) 3(2) by blast
qed

theorem filetest_passes_witness:
  "\<exists>disk s'. mkfs 0x100000 (\<lambda>_. 0) demo_directory = Some disk \<and>
    filetest demo_image demo_env 0x1000 0x2000 0x3000 (demo_start disk) = Inr (Returned () s') \<and>
    console s' = map of_char (''open file, fd = 0'' @ [CHR 0x0A] @ ''write data: 19'' @ [CHR 0x0A] @
      ''open file, fd = 0'' @ [CHR 0x0A] @ ''read data: 19'' @ [CHR 0x0A] @
      ''read data: Hello, file system!'' @ [CHR 0x0A] @ ''File test passed!'' @ [CHR 0x0A])"
proof (rule demo_session)
  fix disk L
  assume d: "mkfs 0x100000 (\<lambda>_. 0) demo_directory = Some disk"
    "running demo_image heap heap L (\<lambda>_. map of_char ''a'') (replicate 16 0) Map.empty (demo_start disk)"
    "2 \<le> card (free_blocks 0x100000 (kmem (demo_start disk)))" "0 < slots 0x100000 (kmem (demo_start disk))"
  let ?name = "map of_char ''test.txt'' :: u8 list" and ?data = "map of_char ''Hello, file system!'' :: u8 list"
  have img: "fs_img_start demo_image = 0x100000" by (simp add: demo_image_def)
  have mem: "kmem (demo_start disk) = demo_memory disk" by (simp add: demo_start_def)
  have not_disk: "a + of_nat k \<notin> image_span 0x100000" if "a \<le> 0x3000" "k < 100" for a k
  proof -
    have "a + of_nat k \<in> bytes_at a 100" using that(2) by (simp add: bytes_at_def unat_of_nat)
    then show ?thesis using low_apart [OF that(1), of 100] by blast
  qed
  have nm: "is_cstring (string_at (kmem (demo_start disk)) 0x1000) ?name"
    unfolding mem by (rule string_is_literal) (use not_disk [of "0x1000"] in \<open>simp_all add: string_at_def demo_memory_def unat_of_nat\<close>)
  have dt: "is_cstring (string_at (kmem (demo_start disk)) 0x2000) ?data"
  proof -
    have "demo_memory disk (0x2000 + of_nat k) = literal ''Hello, file system!'' k" if k: "k < 100" for k
    proof -
      have "unat (0x1000 + of_nat k :: u64) = 4096 + k" using k by (simp add: unat_word_ariths unat_of_nat)
      then show ?thesis using not_disk [of "0x2000" k] k by (simp add: demo_memory_def unat_of_nat)
    qed
    then show ?thesis unfolding mem by (intro string_is_literal) (simp_all add: string_at_def)
  qed
  have room: "blk 5 (heap_start + 0x1000) \<subseteq> heap" using heap_page(1) blk_mono [of 5 12] by fastforce
  have fresh: "first_free (replicate 16 0) = Some 0" by (simp add: first_free_def NR_OPEN_def upt_conv_Cons)
  have apart: "bytes_at a k \<inter> (heap \<union> image_span (fs_img_start demo_image)) = {}" if "a \<le> 0x3000" "k \<le> 100" for a k
    unfolding img by (rule low_apart [OF that])
  have pre: "length (replicate 16 (0 :: addr)) = NR_OPEN" "dom Map.empty \<inter> heap = {}" "?name \<noteq> slash" "length ?name < 32"
    "?name \<notin> (\<lambda>_. map of_char ''a'') ` dom L" "length ?data \<le> 99"
    "2 \<le> card (free_blocks (fs_img_start demo_image) (kmem (demo_start disk)))"
    "0 < slots (fs_img_start demo_image) (kmem (demo_start disk))"
    using d(3,4) by (auto simp: NR_OPEN_def img)
  have ap: "bytes_at 0x1000 (length ?name + 1) \<inter> (heap \<union> image_span (fs_img_start demo_image)) = {}"
    "bytes_at 0x2000 (length ?data + 1) \<inter> (heap \<union> image_span (fs_img_start demo_image)) = {}"
    "bytes_at 0x3000 100 \<inter> (heap \<union> image_span (fs_img_start demo_image)) = {}"
    by (rule apart; simp)+
  obtain s' where s': "filetest demo_image demo_env 0x1000 0x2000 0x3000 (demo_start disk) = Inr (Returned () s')"
    "console s' = console (demo_start disk) @ map of_char (
      ''open file, fd = '' @ decimal 0 @ [CHR 0x0A] @ ''write data: '' @ decimal (length ?data) @ [CHR 0x0A] @
      ''open file, fd = '' @ decimal 0 @ [CHR 0x0A] @ ''read data: '' @ decimal (length ?data) @ [CHR 0x0A] @
      ''read data: '') @ ?data @ map of_char ([CHR 0x0A] @ ''File test passed!'' @ [CHR 0x0A])"
    using filetest_passes [OF d(2) room pre(1) fresh pre(2) nm pre(3-5) dt pre(6-8) ap, of demo_env] by blast
  have num: "decimal 0 = ''0''" "decimal (length ?data) = ''19''" by code_simp+
  have "console (demo_start disk) = []" by (simp add: demo_start_def demo_kernel_def)
  then show ?thesis using d(1) s'(1) s'(2) [unfolded num] by (intro exI [of _ disk] exI [of _ s']) simp
qed

end
