(* ===== verification/Ls_Properties.thy ===== *)
theory Ls_Properties
  imports User_Properties
begin

text \<open>
  \<^verbatim>\<open>user/ls.c\<close> over the kernel: reading the root directory entry by entry.
\<close>

section \<open>One entry of the root directory\<close>

lemma entry_offset:
  assumes "j \<le> FAT_LEN"
  shows "sint (of_nat (64 * j) :: 32 word) = int (64 * j)"
  by (rule sint_of_nat) (use assms in \<open>simp add: FAT_LEN_def\<close>)

lemma inode_copy:
  assumes h: "file_heap img R F L nm (m, b)" and n: "n \<in> dom L"
    and apart: "bytes_at buf 64 \<inter> image_span (fs_img_start img) = {}"
  shows "is_cstring (string_at (copy_bytes 64 m buf (get_inode (fs_img_start img) (int n))) (i_filename buf)) (nm n)"
proof -
  let ?inode = "get_inode (fs_img_start img) (int n)"
  note d = file_heapD [OF h]
  have nb: "n < BLOCK_NUM" using n layout_bounds(2) [OF fs_okD(1) [OF d(3)]] by fastforce
  have inode: "?inode = fs_img_start img + of_nat (512 * n)" using field_offsets(4) by (simp add: i_size_def)
  have "bytes_at ?inode 64 \<subseteq> image_span (fs_img_start img)"
  proof
    fix x assume "x \<in> bytes_at ?inode 64"
    then have lt: "unat (x - ?inode) < 64" by (simp add: bytes_at_def)
    have "x = fs_img_start img + of_nat (512 * n + unat (x - ?inode))" by (simp add: inode)
    also have "\<dots> \<in> span (fs_img_start img) (512 * n) 64"
      by (rule offset_in_span) (use lt nb in \<open>simp_all add: BLOCK_NUM_def\<close>)
    also have "\<dots> \<subseteq> image_span (fs_img_start img)" by (rule span_subset) (use nb in \<open>simp_all add: BLOCK_NUM_def\<close>)
    finally show "x \<in> image_span (fs_img_start img)" .
  qed
  then have dis: "bytes_at ?inode 64 \<inter> bytes_at buf 64 = {}" using apart by blast
  have byte: "copy_bytes 64 m buf ?inode (i_filename buf + of_nat k) = m (i_filename ?inode + of_nat k)" if k: "k < 32" for k
  proof -
    have "i_filename buf + of_nat k = buf + of_nat (4 + k)" by (simp add: i_filename_def)
    moreover have "unat (of_nat (4 + k) :: u64) = 4 + k" using k by (simp only: unat_of_nat) simp
    ultimately have "i_filename buf + of_nat k \<in> bytes_at buf 64" "i_filename buf + of_nat k - buf = 4 + of_nat k"
      using k by (simp_all add: bytes_at_def)
    then show ?thesis by (simp add: copy_bytes_apply [OF _ dis] i_filename_def algebra_simps)
  qed
  have "file_name (fs_img_start img) m n (nm n)" using d(4) n by simp
  then have "length (nm n) < 32" "is_cstring (string_at m (i_filename ?inode)) (nm n)" by (simp_all add: file_name_def)
  with byte show ?thesis by (simp add: is_cstring_def string_at_def)
qed

lemma sys_read_entry:
  assumes h: "file_heap img R F L nm (kheap s)" and b: "pcbs s (current s) = Some b" "open_fd b fd = Some f"
    and fl: "file_table s f = Some fl" "f_inode fl = ROOT_INODE img" "f_off fl = of_nat (64 * j)" "j \<le> FAT_LEN"
    and n: "j < FAT_LEN \<and> fat_entry (fs_img_start img) (kmem s) j \<noteq> 0"
    and apart: "bytes_at buf 64 \<inter> (F \<union> image_span (fs_img_start img)) = {}"
  obtains m' where "sys_read img ch s fd buf 64 = Inr (Returned 64 (s\<lparr>kheap := (m', snd (kheap s)),
      file_table := (file_table s)(f \<mapsto> fl\<lparr>f_off := of_nat (64 * Suc j)\<rparr>)\<rparr>))"
    and "is_cstring (string_at m' (i_filename buf)) (nm (fat_entry (fs_img_start img) (kmem s) j))"
    and "same_outside (bytes_at buf 64) (kmem s) m'" and "file_heap img R F L nm (m', snd (kheap s))"
proof -
  let ?fs = "fs_img_start img"
  let ?n = "fat_entry ?fs (kmem s) j"
  let ?m = "copy_bytes 64 (kmem s) buf (get_inode ?fs (int ?n))"
  have so: "sint (f_off fl) = int (64 * j)" unfolding fl(3) by (rule entry_offset [OF fl(4)])
  have l: "load16 (kmem s) (fat ?fs j) \<noteq> 0" using n by (auto simp: fat_entry_def)
  have u: "uint (load16 (kmem s) (fat ?fs j)) = int ?n" by (simp add: fat_entry_def)
  have fd: "find (\<lambda>i. load16 (kmem s) (fat ?fs i) \<noteq> 0) [j..<FAT_LEN] = Some j"
    using n l by (simp add: upt_conv_Cons)
  have h2: "file_heap img R F L nm (kmem s, snd (kheap s))" using h by simp
  have "?n \<in> dom L" using disk_okD(7) [OF fs_okD(1) [OF file_heapD(3) [OF h]]] n by (simp add: fat_ok_def)
  then have c: "is_cstring (string_at ?m (i_filename buf)) (nm ?n)" using inode_copy [OF h2] apart by blast
  have s: "same_outside (bytes_at buf 64) (kmem s) ?m" by (rule copy_bytes_same) simp
  have h': "file_heap img R F L nm (?m, snd (kheap s))" by (rule user_write(1) [OF h2 s]) (use apart in blast)+
  have idx: "nat (sint (f_off fl)) div sizeof_inode = j" by (simp add: so sizeof_inode_def)
  have nx: "f_off fl + of_nat sizeof_inode = of_nat (64 * Suc j)" by (simp add: fl(3) sizeof_inode_def algebra_simps)
  have s64: "sint (64 :: 32 word) = 64" using sint_of_nat [of 64] by simp
  have "read_root img s f buf 64 = Inr (64, s\<lparr>kheap := (?m, snd (kheap s)),
      file_table := (file_table s)(f \<mapsto> fl\<lparr>f_off := of_nat (64 * Suc j)\<rparr>)\<rparr>)"
    using fl(1) fd so idx u nx [symmetric]
    by (simp del: of_nat_mult of_nat_Suc add: read_root_def deref_def set_kmem_def set_file_def Let_def sizeof_inode_def
        add.commute [of 64])
  then have "sys_read img ch s fd buf 64 = Inr (Returned 64 (s\<lparr>kheap := (?m, snd (kheap s)),
      file_table := (file_table s)(f \<mapsto> fl\<lparr>f_off := of_nat (64 * Suc j)\<rparr>)\<rparr>))"
    using b fl(1,2) s64 by (simp add: sys_read_def get_pcb_def deref_def)
  from that [OF this c s h'] show thesis .
qed

lemma sys_read_root_end:
  assumes b: "pcbs s (current s) = Some b" "open_fd b fd = Some f"
    and fl: "file_table s f = Some fl" "f_inode fl = ROOT_INODE img" "f_off fl = of_nat (64 * j)" "j \<le> FAT_LEN"
    and z: "\<forall>i < FAT_LEN. j \<le> i \<longrightarrow> fat_entry (fs_img_start img) (kmem s) i = 0"
  shows "sys_read img ch s fd buf 64 = Inr (Returned 0 s)"
proof -
  have so: "sint (f_off fl) = int (64 * j)" unfolding fl(3) by (rule entry_offset [OF fl(4)])
  have fd: "find (\<lambda>i. load16 (kmem s) (fat (fs_img_start img) i) \<noteq> 0) [j..<FAT_LEN] = None"
    using z by (auto simp: find_None_iff fat_entry_def unat_eq_0)
  have s64: "sint (64 :: 32 word) = 64" using sint_of_nat [of 64] by simp
  have idx: "nat (sint (f_off fl)) div sizeof_inode = j" by (simp add: so sizeof_inode_def)
  have "read_root img s f buf 64 = Inr (0, s)"
    using fl(1) fd so idx by (simp add: read_root_def deref_def Let_def sizeof_inode_def)
  then show ?thesis using b fl(1,2) s64 by (simp add: sys_read_def get_pcb_def deref_def)
qed


section \<open>The calls\<close>

text \<open>Opening the root directory.\<close>

lemma call_open_root:
  assumes r: "running img R F L nm fds ft s" and room: "blk 5 c \<subseteq> F" and i: "first_free fds = Some i"
    and name: "is_cstring (string_at (kmem s) name) slash"
  obtains f t s' where "kernel_call img env s (u_open name flags) = Inr (Returned (of_nat i) s')"
    and "running img R (F - blk 5 f) L nm (fds[i := f]) (ft(f \<mapsto> fresh_file t (ROOT_INODE img))) s'"
    and "f \<noteq> 0" and "console s' = console s" and "same_outside F (kmem s) (kmem s')"
proof -
  obtain b where b: "file_heap img R F L nm (kheap s)" "file_table s = ft" "pcbs s (current s) = Some b"
    "length (x_regs (trap_cx b)) = 32" "files b = fds" by (rule runningE [OF r])
  let ?c = "u_open name flags"
  let ?s = "s\<lparr>pcbs := (pcbs s)(current s \<mapsto> at_call s b ?c)\<rparr>"
  have p: "file_heap img R F L nm (kheap ?s)" "pcbs ?s (current ?s) = Some (at_call s b ?c)" using b by simp_all
  obtain f h' t where o: "open_inode ?s i (ROOT_INODE img) = Inr (int i, opened ?s (at_call s b ?c) i f t (ROOT_INODE img) h')"
    and f: "f \<noteq> 0"
    and h': "file_heap img R (F - blk 5 f) L nm h'" "same_outside F (kmem ?s) (fst h')"
    by (rule open_inode_spec [OF p(1) room p(2)])
  have "is_cstring (literal ''/'') slash" by (simp add: is_cstring_def literal_def)
  from strcmp_spec [OF this name] have "strcmp (literal ''/'') (string_at (kmem s) name) = Inr 0"
    by (simp add: dictionary_0_iff)
  then have "sys_open img ?s name flags = open_inode ?s i (ROOT_INODE img)"
    using i b(5) by (simp add: sys_open_def get_pcb_def deref_def first_free_def)
  then have "syscall img env ?s (call_num ?c) (call_a0 ?c) (call_a1 ?c) (call_a2 ?c) =
      Inr (Returned (of_nat i) (opened ?s (at_call s b ?c) i f t (ROOT_INODE img) h'))"
    using o by (simp add: u_open_def sys_call_def syscall_open returned_def)
  note k = kernel_call_returns [OF b(3,4) this, of "at_call s b ?c\<lparr>files := (files b)[i := f]\<rparr>"]
  show thesis
    by (rule that [OF k _ f]) (use b h' load_call_regs(5) [OF b(4)] in \<open>simp_all add: running_def\<close>)
qed

lemma arg_64: "int_arg (64 :: usize) = 64"
  using int_arg_of_int [of 64] by simp

text \<open>The descriptor \<open>i\<close> refers to the root directory, of which \<open>j\<close> entries have been read.\<close>

definition at_entry :: "image \<Rightarrow> addr list \<Rightarrow> (addr \<Rightarrow> open_file option) \<Rightarrow> nat \<Rightarrow> addr \<Rightarrow> u16 \<Rightarrow> nat \<Rightarrow> bool" where
  "at_entry img fds ft i f t j \<longleftrightarrow> i < NR_OPEN \<and> length fds = NR_OPEN \<and> fds ! i = f \<and> f \<noteq> 0 \<and> j \<le> FAT_LEN \<and>
     ft f = Some \<lparr>f_type = t, f_count = 1, f_off = of_nat (64 * j), f_inode = ROOT_INODE img\<rparr>"

lemma call_read_entry:
  assumes r: "running img R F L nm fds ft s" and o: "at_entry img fds ft i f t j"
    and n: "j < FAT_LEN" "fat_entry (fs_img_start img) (kmem s) j \<noteq> 0"
    and apart: "bytes_at buf 64 \<inter> (F \<union> image_span (fs_img_start img)) = {}"
  obtains ft' s' where "kernel_call img env s (u_read (of_nat i) buf (of_nat sizeof_inode)) = Inr (Returned 64 s')"
    and "running img R F L nm fds ft' s'" and "at_entry img fds ft' i f t (Suc j)"
    and "is_cstring (string_at (kmem s') (i_filename buf)) (nm (fat_entry (fs_img_start img) (kmem s) j))"
    and "console s' = console s" and "same_outside (bytes_at buf 64) (kmem s) (kmem s')"
proof -
  obtain b where b: "file_heap img R F L nm (kheap s)" "file_table s = ft" "pcbs s (current s) = Some b"
    "length (x_regs (trap_cx b)) = 32" "files b = fds" by (rule runningE [OF r])
  let ?c = "u_read (of_nat i) buf (of_nat sizeof_inode)"
  let ?s = "s\<lparr>pcbs := (pcbs s)(current s \<mapsto> at_call s b ?c)\<rparr>"
  define fl where "fl = \<lparr>f_type = t, f_count = 1, f_off = of_nat (64 * j), f_inode = ROOT_INODE img\<rparr>"
  have p: "file_heap img R F L nm (kheap ?s)" "pcbs ?s (current ?s) = Some (at_call s b ?c)"
    "open_fd (at_call s b ?c) (int i) = Some f" "file_table ?s f = Some fl" "f_inode fl = ROOT_INODE img"
    "f_off fl = of_nat (64 * j)" "j \<le> FAT_LEN" "j < FAT_LEN \<and> fat_entry (fs_img_start img) (kmem ?s) j \<noteq> 0"
    using b o n by (simp_all add: at_entry_def open_fd_def fl_def)
  let ?ft = "ft(f \<mapsto> fl\<lparr>f_off := of_nat (64 * Suc j)\<rparr>)"
  obtain m' where m': "sys_read img (getchar env) ?s (int i) buf 64 = Inr (Returned 64 (?s\<lparr>kheap := (m', snd (kheap ?s)),
      file_table := (file_table ?s)(f \<mapsto> fl\<lparr>f_off := of_nat (64 * Suc j)\<rparr>)\<rparr>))"
    "is_cstring (string_at m' (i_filename buf)) (nm (fat_entry (fs_img_start img) (kmem ?s) j))"
    "same_outside (bytes_at buf 64) (kmem ?s) m'" "file_heap img R F L nm (m', snd (kheap ?s))"
    by (rule sys_read_entry [OF p apart])
  have si: "sint (of_nat i :: 32 word) = int i" using o descriptor_int by (simp add: at_entry_def)
  have "syscall img env ?s (call_num ?c) (call_a0 ?c) (call_a1 ?c) (call_a2 ?c) =
      Inr (Returned 64 (?s\<lparr>kheap := (m', snd (kheap ?s)), file_table := ?ft\<rparr>))"
    using m'(1) si b(2) by (simp add: u_read_def sys_call_def syscall_read as_register_def sizeof_inode_def arg_64)
  note kc = kernel_call_returns [OF b(3,4) this, of "at_call s b ?c"]
  show thesis
    by (rule that [OF kc, of ?ft])
      (use b m'(2-4) o n load_call_regs(5) [OF b(4)] in \<open>simp_all add: running_def at_entry_def fl_def\<close>)
qed

lemma call_read_end:
  assumes r: "running img R F L nm fds ft s" and o: "at_entry img fds ft i f t j"
    and z: "\<forall>i < FAT_LEN. j \<le> i \<longrightarrow> fat_entry (fs_img_start img) (kmem s) i = 0"
  obtains s' where "kernel_call img env s (u_read (of_nat i) buf (of_nat sizeof_inode)) = Inr (Returned 0 s')"
    and "running img R F L nm fds ft s'" and "console s' = console s" and "kheap s' = kheap s"
proof -
  obtain b where b: "file_heap img R F L nm (kheap s)" "file_table s = ft" "pcbs s (current s) = Some b"
    "length (x_regs (trap_cx b)) = 32" "files b = fds" by (rule runningE [OF r])
  let ?c = "u_read (of_nat i) buf (of_nat sizeof_inode)"
  let ?s = "s\<lparr>pcbs := (pcbs s)(current s \<mapsto> at_call s b ?c)\<rparr>"
  define fl where "fl = \<lparr>f_type = t, f_count = 1, f_off = of_nat (64 * j), f_inode = ROOT_INODE img\<rparr>"
  have p: "pcbs ?s (current ?s) = Some (at_call s b ?c)"
    "open_fd (at_call s b ?c) (int i) = Some f" "file_table ?s f = Some fl" "f_inode fl = ROOT_INODE img"
    "f_off fl = of_nat (64 * j)" "j \<le> FAT_LEN" "\<forall>i < FAT_LEN. j \<le> i \<longrightarrow> fat_entry (fs_img_start img) (kmem ?s) i = 0"
    using b o z by (simp_all add: at_entry_def open_fd_def fl_def)
  have si: "sint (of_nat i :: 32 word) = int i" using o descriptor_int by (simp add: at_entry_def)
  have "syscall img env ?s (call_num ?c) (call_a0 ?c) (call_a1 ?c) (call_a2 ?c) = Inr (Returned 0 ?s)"
    using sys_read_root_end [OF p] si
    by (simp add: u_read_def sys_call_def syscall_read as_register_def sizeof_inode_def arg_64)
  note kc = kernel_call_returns [OF b(3,4) this, of "at_call s b ?c"]
  show thesis
    by (rule that [OF kc]) (use b load_call_regs(5) [OF b(4)] in \<open>simp_all add: running_def\<close>)
qed

section \<open>The listing\<close>

definition listing :: "(nat \<Rightarrow> u8 list) \<Rightarrow> nat list \<Rightarrow> u8 list" where
  "listing nm ns = concat (map (\<lambda>n. nm n @ [0x20]) ns)"

lemma table_frame:
  assumes "same_outside S m m'" and "S \<inter> image_span img = {}" and "i < FAT_LEN"
  shows "fat_entry img m' i = fat_entry img m i"
proof -
  have "span img 1024 512 \<subseteq> image_span img" by (rule span_subset) simp_all
  then show ?thesis using field_frame(3) [OF assms(1,3)] assms(2) by blast
qed

text \<open>The files of an image, in the order of the table.\<close>

definition files_of :: "image \<Rightarrow> mem \<Rightarrow> nat list" where
  "files_of img m = filter (\<lambda>n. n \<noteq> 0) (map (fat_entry (fs_img_start img) m) [0..<FAT_LEN])"

lemma used_prefix:
  fixes f :: "nat \<Rightarrow> nat"
  assumes "\<forall>i < N. \<forall>j < N. j < i \<longrightarrow> f i \<noteq> 0 \<longrightarrow> f j \<noteq> (0 :: nat)"
  obtains k where "k \<le> N" and "\<forall>j < N. f j \<noteq> 0 \<longleftrightarrow> j < k"
proof (cases "\<exists>i < N. f i = 0")
  case True
  define k where "k = (LEAST i. f i = 0)"
  from True obtain i where i: "i < N" "f i = 0" by blast
  have z: "f k = 0" unfolding k_def using LeastI [of "\<lambda>i. f i = 0" i] i(2) by simp
  have kN: "k < N" using Least_le [of "\<lambda>i. f i = 0" i] i by (simp add: k_def)
  have "f j \<noteq> 0" if "j < k" for j using not_less_Least that unfolding k_def by blast
  moreover have "f j = 0" if "j < N" "\<not> j < k" for j
  proof (cases "j = k")
    case False
    then have kj: "k < j" using that(2) by simp
    show ?thesis
    proof (rule ccontr)
      assume "f j \<noteq> 0"
      from assms [rule_format, OF that(1) kN kj this] z show False by simp
    qed
  qed (simp add: z)
  ultimately have "\<forall>j < N. f j \<noteq> 0 \<longleftrightarrow> j < k" by metis
  then show thesis by (rule that [OF less_imp_le [OF kN]])
next
  case False
  then show thesis using that [of N] by auto
qed

lemma filter_prefix:
  assumes "\<forall>j < N. f j \<noteq> 0 \<longleftrightarrow> j < k" and "k \<le> N"
  shows "filter (\<lambda>n. n \<noteq> (0 :: nat)) (map f [0..<N]) = map f [0..<k]"
proof -
  have "[0..<N] = [0..<k] @ [k..<N]" using assms(2) upt_add_eq_append [of 0 k "N - k"] by simp
  moreover have "filter (\<lambda>n. n \<noteq> 0) (map f [0..<k]) = map f [0..<k]" "filter (\<lambda>n. n \<noteq> 0) (map f [k..<N]) = []"
    using assms by (auto simp: filter_id_conv filter_empty_conv)
  ultimately show ?thesis by simp
qed

lemma table_files:
  assumes fat: "fat_ok (fs_img_start img) m N" and nz: "0 \<notin> N"
  obtains k where "k \<le> FAT_LEN" and "\<forall>j < FAT_LEN. fat_entry (fs_img_start img) m j \<noteq> 0 \<longleftrightarrow> j < k"
    and "files_of img m = map (fat_entry (fs_img_start img) m) [0..<k]"
    and "distinct (files_of img m)" and "set (files_of img m) = N"
proof -
  let ?e = "fat_entry (fs_img_start img) m"
  have used: "\<forall>i < FAT_LEN. ?e i \<noteq> 0 \<longrightarrow> ?e i \<in> N" and all: "\<forall>n \<in> N. \<exists>i < FAT_LEN. ?e i = n"
    and uniq: "\<forall>i < FAT_LEN. \<forall>j < FAT_LEN. ?e i = ?e j \<longrightarrow> ?e i = 0 \<or> i = j"
    and prefix: "\<forall>i < FAT_LEN. \<forall>j < FAT_LEN. j < i \<longrightarrow> ?e i \<noteq> 0 \<longrightarrow> ?e j \<noteq> 0"
    using fat unfolding fat_ok_def by blast+
  obtain k where k: "k \<le> FAT_LEN" and tab: "\<forall>j < FAT_LEN. ?e j \<noteq> 0 \<longleftrightarrow> j < k"
    by (rule used_prefix [OF prefix])
  have lt: "j < FAT_LEN" if "j < k" for j using that k by simp
  have ns: "files_of img m = map ?e [0..<k]" unfolding files_of_def by (rule filter_prefix [OF tab k])
  have "distinct (map ?e [0..<k])"
    unfolding distinct_map
  proof (intro conjI inj_onI)
    fix x y assume xy: "x \<in> set [0..<k]" "y \<in> set [0..<k]" "?e x = ?e y"
    have l: "x < FAT_LEN" "y < FAT_LEN" using xy lt by simp_all
    moreover have "?e x \<noteq> 0" using tab l(1) xy(1) by simp
    moreover have "?e x = 0 \<or> x = y" using uniq l xy(3) by metis
    ultimately show "x = y" by simp
  qed simp
  moreover have "set (map ?e [0..<k]) = N"
  proof -
    have "?e j \<in> N" if "j < k" for j using used lt [OF that] tab that by simp
    then have "set (map ?e [0..<k]) \<subseteq> N" by (simp add: image_subset_iff)
    moreover have "n \<in> set (map ?e [0..<k])" if n: "n \<in> N" for n
    proof -
      obtain j where j: "j < FAT_LEN" "?e j = n" using all n by blast
      then have "j < k" using tab nz n by metis
      then have "j \<in> set [0..<k]" by simp
      then show ?thesis unfolding set_map by (rule rev_image_eqI) (simp add: j(2))
    qed
    ultimately show ?thesis by blast
  qed
  ultimately show thesis using that [OF k tab ns] ns by simp
qed

lemma ls_loop_spec:
  assumes "running img R F L nm fds ft s" and "at_entry img fds ft i f t j" and "j \<le> k"
    and "\<forall>i < FAT_LEN. fat_entry (fs_img_start img) (kmem s) i = tab i \<and> (tab i \<noteq> 0 \<longleftrightarrow> i < k)" and "k \<le> FAT_LEN"
    and apart: "bytes_at buf 64 \<inter> (F \<union> image_span (fs_img_start img)) = {}"
  shows "\<exists>ft' s'. ls_loop img env (of_nat i) buf s = Some (Inr (Returned () s')) \<and> running img R F L nm fds ft' s' \<and>
    console s' = console s @ listing nm (map tab [j..<k])"
  using assms(1-4)
proof (induction "k - j" arbitrary: j s ft)
  case 0
  have z: "\<forall>i < FAT_LEN. j \<le> i \<longrightarrow> fat_entry (fs_img_start img) (kmem s) i = 0" using 0 by auto
  obtain s' where s': "kernel_call img env s (u_read (of_nat i) buf (of_nat sizeof_inode)) = Inr (Returned 0 s')"
    "running img R F L nm fds ft s'" "console s' = console s"
    by (rule call_read_end [OF 0(2,3) z])
  then have "ls_loop img env (of_nat i) buf s = Some (Inr (Returned () s'))"
    by (subst ls_loop.simps) (simp add: int_arg_def)
  with s' 0 show ?case by (auto simp: listing_def)
next
  case (Suc d)
  have jk: "j < k" "j < FAT_LEN" using Suc.hyps(2) assms(5) by simp_all
  have n: "fat_entry (fs_img_start img) (kmem s) j = tab j" "fat_entry (fs_img_start img) (kmem s) j \<noteq> 0"
    using Suc.prems(4) jk by auto
  obtain ft1 s1 where 1: "kernel_call img env s (u_read (of_nat i) buf (of_nat sizeof_inode)) = Inr (Returned 64 s1)"
    "running img R F L nm fds ft1 s1" "at_entry img fds ft1 i f t (Suc j)"
    "is_cstring (string_at (kmem s1) (i_filename buf)) (nm (fat_entry (fs_img_start img) (kmem s) j))"
    "console s1 = console s" "same_outside (bytes_at buf 64) (kmem s) (kmem s1)"
    by (rule call_read_entry [OF Suc.prems(1,2) jk(2) n(2) apart])
  have ps: "put_string (kmem s1) (i_filename buf) [] = Some (nm (tab j))"
    using put_string_spec [OF 1(4), of "[]"] n(1) by simp
  obtain s2 where 2: "user_put img env (nm (tab j) @ [0x20]) s1 = Inr (Returned () s2)" "running img R F L nm fds ft1 s2"
    "console s2 = console s1 @ nm (tab j) @ [0x20]" "kheap s2 = kheap s1" by (rule user_put_spec [OF 1(2)])
  have tab: "\<forall>i < FAT_LEN. fat_entry (fs_img_start img) (kmem s2) i = tab i \<and> (tab i \<noteq> 0 \<longleftrightarrow> i < k)"
    using Suc.prems(4) table_frame [OF 1(6), of "fs_img_start img"] apart 2(4) by (simp add: Int_Un_distrib)
  have "d = k - Suc j" "Suc j \<le> k" using Suc.hyps(2) by simp_all
  from Suc.hyps(1) [OF this(1) 2(2) 1(3) this(2) tab] obtain ft' s' where 3:
    "ls_loop img env (of_nat i) buf s2 = Some (Inr (Returned () s'))" "running img R F L nm fds ft' s'"
    "console s' = console s2 @ listing nm (map tab [Suc j..<k])" by blast
  have "ls_loop img env (of_nat i) buf s = Some (Inr (Returned () s'))"
    using 1(1) ps 2(1) 3(1) by (subst ls_loop.simps) (simp add: int_arg_def)
  moreover have "listing nm (map tab [j..<k]) = nm (tab j) @ [0x20] @ listing nm (map tab [Suc j..<k])"
    using jk(1) by (simp add: listing_def upt_conv_Cons)
  ultimately show ?case using 3(2,3) 2(3) 1(5) by auto
qed

text \<open>The demonstration kernel with the string \<^verbatim>\<open>/\<close> in the memory of the program.\<close>

definition with_slash :: "kernel \<Rightarrow> kernel" where
  "with_slash s = set_kmem s ((kmem s)(0x3000 := of_char CHR ''/'', 0x3001 := 0))"

text \<open>
  C7: \<^verbatim>\<open>user/ls.c\<close>, through traps and system calls, prints the name of every file of the image
  exactly once, in the order of the table, each followed by a space, and then a newline: for every
  well-formed image, when a descriptor is free and the heap has room for one \<^verbatim>\<open>struct File\<close>.
\<close>

theorem ls_lists:
  assumes r: "running img R F L nm fds ft s" and room: "blk 5 c \<subseteq> F" and len: "length fds = NR_OPEN"
    and i: "first_free fds = Some i" and name: "is_cstring (string_at (kmem s) root) slash"
    and apart: "bytes_at buf 64 \<inter> (F \<union> image_span (fs_img_start img)) = {}"
  shows "\<exists>s'. ls img env root buf s = Inr (Returned () s') \<and> distinct (files_of img (kmem s)) \<and>
    set (files_of img (kmem s)) = dom L \<and> console s' = console s @ listing nm (files_of img (kmem s)) @ [0x0A]"
proof -
  let ?fs = "fs_img_start img"
  have slot: "i < NR_OPEN" using i by (auto simp: first_free_def find_Some_iff)
  note d = file_heapD [OF running_heap [OF r]]
  have nz: "0 \<notin> dom L" using layout_bounds(1) [OF fs_okD(1) [OF d(3)]] by fastforce
  obtain k where k: "k \<le> FAT_LEN" and tab: "\<forall>j < FAT_LEN. fat_entry ?fs (kmem s) j \<noteq> 0 \<longleftrightarrow> j < k"
    and ns: "files_of img (kmem s) = map (fat_entry ?fs (kmem s)) [0..<k]"
    and files: "distinct (files_of img (kmem s))" "set (files_of img (kmem s)) = dom L"
    by (rule table_files [OF disk_okD(7) [OF fs_okD(1) [OF d(3)]] nz])
  obtain f t s1 where 1: "kernel_call img env s (u_open root 0) = Inr (Returned (of_nat i) s1)"
    "running img R (F - blk 5 f) L nm (fds[i := f]) (ft(f \<mapsto> fresh_file t (ROOT_INODE img))) s1"
    "f \<noteq> 0" "console s1 = console s" "same_outside F (kmem s) (kmem s1)"
    by (rule call_open_root [OF r room i name])
  have o: "at_entry img (fds[i := f]) (ft(f \<mapsto> fresh_file t (ROOT_INODE img))) i f t 0"
    using slot len 1(3) by (simp add: at_entry_def)
  have F: "F \<inter> image_span ?fs = {}" using d(6) by blast
  have tab1: "\<forall>j < FAT_LEN. fat_entry ?fs (kmem s1) j = fat_entry ?fs (kmem s) j \<and> (fat_entry ?fs (kmem s) j \<noteq> 0 \<longleftrightarrow> j < k)"
    using tab table_frame [OF 1(5) F] by simp
  have ap: "bytes_at buf 64 \<inter> ((F - blk 5 f) \<union> image_span ?fs) = {}" using apart by blast
  let ?ns = "map (fat_entry ?fs (kmem s)) [0..<k]"
  obtain ft' s2 where 2: "ls_loop img env (of_nat i) buf s1 = Some (Inr (Returned () s2))"
    "running img R (F - blk 5 f) L nm (fds[i := f]) ft' s2" "console s2 = console s1 @ listing nm ?ns"
    using ls_loop_spec [OF 1(2) o _ tab1 k ap, of env] by blast
  obtain s3 where 3: "user_put img env [0x0A] s2 = Inr (Returned () s3)" "console s3 = console s2 @ [0x0A]"
    by (rule user_put_spec [OF 2(2)])
  have "int_arg (of_nat i :: usize) = of_nat i" using int_arg_of_int [of "int i"] by simp
  moreover have "(of_nat i :: 32 word) \<noteq> -1" using descriptor_int [OF slot] by auto
  ultimately have "ls img env root buf s = Inr (Returned () s3)"
    using 1(1) 2(1) 3(1) by (simp add: ls_def returns_def)
  then show ?thesis using 1(4) 2(3) 3(2) files ns by auto
qed

text \<open>The demonstration image, whose only file is \<^verbatim>\<open>a\<close>.\<close>

theorem ls_lists_witness:
  "\<exists>disk s'. mkfs 0x100000 (\<lambda>_. 0) demo_directory = Some disk \<and>
    ls demo_image demo_env 0x3000 0x2000 (with_slash (demo_start disk)) = Inr (Returned () s') \<and>
    console s' = map of_char (''a '' @ [CHR 0x0A])"
proof (rule demo_session)
  fix disk L
  assume d: "mkfs 0x100000 (\<lambda>_. 0) demo_directory = Some disk"
    "running demo_image heap heap L (\<lambda>_. map of_char ''a'') (replicate 16 0) Map.empty (demo_start disk)"
    "\<exists>n. dom L = {n}"
  let ?s = "with_slash (demo_start disk)" and ?nm = "\<lambda>_ :: nat. map of_char ''a'' :: u8 list"
  have img: "fs_img_start demo_image = 0x100000" by (simp add: demo_image_def)
  have "unat (0x3001 - 0x3000 :: u64) = 1" by simp
  then have so: "same_outside (bytes_at 0x3000 2) (kmem (demo_start disk)) (kmem ?s)"
    by (auto simp: same_outside_def with_slash_def set_kmem_def bytes_at_def)
  have low: "bytes_at 0x3000 2 \<inter> heap = {}" "bytes_at 0x3000 2 \<inter> image_span (fs_img_start demo_image) = {}"
    using low_apart [of "0x3000" 2] unfolding img by auto
  have h: "file_heap demo_image heap heap L ?nm (kmem (demo_start disk), snd (kheap (demo_start disk)))"
    using running_heap [OF d(2)] by simp
  have "running demo_image heap heap L ?nm (replicate 16 0) Map.empty ?s"
    using d(2) user_write(1) [OF h so low] by (simp add: running_def with_slash_def set_kmem_def)
  note r = this
  have room: "blk 5 (heap_start + 0x1000) \<subseteq> heap" using heap_page(1) blk_mono [of 5 12] by fastforce
  have fresh: "first_free (replicate 16 0) = Some 0" by (simp add: first_free_def NR_OPEN_def upt_conv_Cons)
  have len: "length (replicate 16 (0 :: addr)) = NR_OPEN" by (simp add: NR_OPEN_def)
  have name: "is_cstring (string_at (kmem ?s) 0x3000) slash"
    by (simp add: with_slash_def set_kmem_def is_cstring_def string_at_def)
  have buf: "bytes_at 0x2000 64 \<inter> (heap \<union> image_span (fs_img_start demo_image)) = {}"
    unfolding img by (rule low_apart) simp_all
  obtain s' where s': "ls demo_image demo_env 0x3000 0x2000 ?s = Inr (Returned () s')"
    "distinct (files_of demo_image (kmem ?s))" "set (files_of demo_image (kmem ?s)) = dom L"
    "console s' = console ?s @ listing ?nm (files_of demo_image (kmem ?s)) @ [0x0A]"
    using ls_lists [OF r room len fresh name buf, of demo_env] by blast
  obtain n where "dom L = {n}" using d(3) by blast
  then have "length (files_of demo_image (kmem ?s)) = 1" using s'(2,3) distinct_card [of "files_of demo_image (kmem ?s)"] by simp
  then obtain x where "files_of demo_image (kmem ?s) = [x]" by (auto simp: length_Suc_conv)
  moreover have "console ?s = []" by (simp add: with_slash_def set_kmem_def demo_start_def demo_kernel_def)
  ultimately have "console s' = map of_char (''a '' @ [CHR 0x0A])" using s'(4) by (simp add: listing_def)
  then show ?thesis using d(1) s'(1) by blast
qed

end
