(* ===== verification/Shell.thy ===== *)
theory Shell
  imports Kprintf
begin

text \<open>
  The programs \<^verbatim>\<open>user/shell.c\<close>, \<^verbatim>\<open>user/init.c\<close> and \<^verbatim>\<open>user/hello.c\<close>: what they do is the sequence of
  their calls, given what the calls return. The shell is the step it makes for one character.
\<close>

section \<open>Calls and their results\<close>

datatype effect =
    Put "u8 list"
  | Fork
  | Wait
  | Exec "u8 list"
  | Exit

text \<open>
  What the kernel answers: the number \<^verbatim>\<open>fork\<close> returns, 0 in the child; what \<^verbatim>\<open>exec\<close> returns, if it
  returns; and the results of the calls of \<^verbatim>\<open>wait\<close>, one after the other.
\<close>

record answers =
  forked :: int
  exec_result :: "int option"
  waited :: "nat \<Rightarrow> int"

definition message :: "string \<Rightarrow> arg list \<Rightarrow> effect outcome" where
  "message fmt args = bindE (printf (Some fmt) args) (\<lambda>out. Inr (Put (map of_char out)))"

section \<open>The shell\<close>

definition LINE_LEN :: nat where "LINE_LEN = 256"
definition LF :: u8 where "LF = 0x0a"
definition CR :: u8 where "CR = 0x0d"
definition BS :: u8 where "BS = 0x08"
definition DL :: u8 where "DL = 0x7f"

record shell =
  line :: "u8 list"
  len :: nat

definition is_empty :: "shell \<Rightarrow> bool" where
  "is_empty st \<longleftrightarrow> len st = 0"

definition clear_line :: "shell \<Rightarrow> shell" where
  "clear_line st = \<lparr>line = fold (\<lambda>i l. l[i := 0]) [0..<LINE_LEN] (line st), len = 0\<rparr>"

text \<open>The string in the buffer. Without a zero a reader runs past the end.\<close>

definition line_string :: "shell \<Rightarrow> u8 list outcome" where
  "line_string st =
     (if 0 \<in> set (line st) then Inr (takeWhile (\<lambda>c. c \<noteq> 0) (line st)) else Inl Undefined)"

text \<open>\<^verbatim>\<open>while (wait() == -1)\<close>: the number of calls, when the loop ends.\<close>

partial_function (option) wait_loop :: "(nat \<Rightarrow> int) \<Rightarrow> nat \<Rightarrow> nat option" where
  "wait_loop w i = (if w i = -1 then wait_loop w (i + 1) else Some (i + 1))"

declare wait_loop.simps [code]

text \<open>
  The child of a line that is not empty: what it does, and whether it has become the program or has
  exited.
\<close>

definition run_child :: "answers \<Rightarrow> shell \<Rightarrow> (effect list \<times> bool) outcome" where
  "run_child ans st =
     bindE (line_string st) (\<lambda>s.
     case exec_result ans of
       None \<Rightarrow> Inr ([Exec s], True)
     | Some r \<Rightarrow>
         if r = -1
         then Inr ([Exec s, Put (s @ map of_char ('': No such file'' @ [CHR 0x0A])), Exit], True)
         else Inr ([Exec s], False))"

definition run_line :: "answers \<Rightarrow> shell \<Rightarrow> (effect list \<times> shell option) outcome" where
  "run_line ans st =
     bindE (if forked ans = 0 then run_child ans st else Inr ([], False)) (\<lambda>(es, gone).
     if gone then Inr (Fork # es, None)
     else
       bindE (returns (wait_loop (waited ans) 0)) (\<lambda>n.
       Inr (Fork # es @ replicate n Wait, Some (clear_line st))))"

text \<open>One turn of the loop of \<^verbatim>\<open>main\<close>.\<close>

definition shell_key :: "answers \<Rightarrow> shell \<Rightarrow> u8 \<Rightarrow> (effect list \<times> shell option) outcome" where
  "shell_key ans st c =
     (if c = LF \<or> c = CR then
        bindE (if is_empty st then Inr ([], Some st) else run_line ans st) (\<lambda>(es, next).
        Inr (Put [LF] # es @ (if next = None then [] else [Put (map of_char ''$ '')]), next))
      else if c = BS \<or> c = DL then
        (if is_empty st then Inr ([], Some st)
         else Inr ([Put [BS], Put [of_char CHR 0x20], Put [BS]],
                   Some (st\<lparr>line := (line st)[len st - 1 := 0], len := len st - 1\<rparr>)))
      else if length (line st) \<le> len st then Inl Undefined
      else Inr ([Put [c]], Some (st\<lparr>line := (line st)[len st := c], len := len st + 1\<rparr>)))"

text \<open>The program on the characters it reads, each with the answers to the calls it leads to.\<close>

fun shell_keys :: "shell \<Rightarrow> (u8 \<times> answers) list \<Rightarrow> (effect list \<times> shell option) outcome" where
  "shell_keys st [] = Inr ([], Some st)"
| "shell_keys st ((c, ans) # keys) =
     bindE (shell_key ans st c) (\<lambda>(es, next).
     case next of
       None \<Rightarrow> Inr (es, None)
     | Some st \<Rightarrow> bindE (shell_keys st keys) (\<lambda>(es', next). Inr (es @ es', next)))"

definition shell_main :: "(u8 \<times> answers) list \<Rightarrow> (effect list \<times> shell option) outcome" where
  "shell_main keys =
     bindE (shell_keys (clear_line \<lparr>line = replicate LINE_LEN 0, len = 0\<rparr>) keys) (\<lambda>(es, next).
     Inr (Put (map of_char ''$ '') # es, next))"

section \<open>The other programs\<close>

definition child_message :: "int \<Rightarrow> effect outcome" where
  "child_message pid = message (''Child %d terminated!'' @ [CHR 0x0A]) [IntArg (word_of_int pid)]"

text \<open>\<^verbatim>\<open>while ((pid = wait()) != -1)\<close>\<close>

partial_function (option) reap_loop :: "(nat \<Rightarrow> int) \<Rightarrow> nat \<Rightarrow> effect list \<Rightarrow> effect list outcome option" where
  "reap_loop w i es =
     (if w i = -1 then Some (Inr (es @ [Wait]))
      else
        (case child_message (w i) of
           Inl e \<Rightarrow> Some (Inl e)
         | Inr e \<Rightarrow> reap_loop w (i + 1) (es @ [Wait, e])))"

declare reap_loop.simps [code]

definition init_second :: "answers \<Rightarrow> effect list outcome" where
  "init_second ans =
     (let child = (if forked ans = 0 then [Exec (map of_char ''shell'')] else []) in
      if forked ans = 0 \<and> exec_result ans = None then Inr (Fork # child)
      else bindE (bindE (returns (reap_loop (waited ans) 0 [])) id) (\<lambda>es. Inr (Fork # child @ es)))"

definition init_main :: "answers \<Rightarrow> answers \<Rightarrow> effect list outcome" where
  "init_main ans1 ans2 =
     (if forked ans1 = 0 then
        (if exec_result ans1 = None then Inr [Fork, Exec (map of_char ''filetest'')]
         else bindE (init_second ans2) (\<lambda>es. Inr ([Fork, Exec (map of_char ''filetest'')] @ es)))
      else
        bindE (child_message (waited ans1 0)) (\<lambda>e.
        bindE (init_second ans2) (\<lambda>es. Inr ([Fork, Wait, e] @ es))))"

text \<open>\<^verbatim>\<open>user/hello.c\<close> with the number \<^verbatim>\<open>getpid\<close> returns.\<close>

fun hello_loop :: "nat \<Rightarrow> int \<Rightarrow> effect list outcome" where
  "hello_loop 0 pid = Inr []"
| "hello_loop (Suc n) pid =
     bindE (message (''Hello world from user mode program, pid = %d'' @ [CHR 0x0A]) [IntArg (word_of_int pid)]) (\<lambda>e.
     bindE (hello_loop n pid) (\<lambda>es. Inr (e # es)))"

definition hello_main :: "int \<Rightarrow> effect list outcome" where
  "hello_main pid = hello_loop 5 pid"

end
