(* ===== verification/Shell_Properties.thy ===== *)
theory Shell_Properties
  imports Shell
begin

text \<open>
  The line editor of the shell implements the editing of a list of characters, as long as the line
  fits its buffer.
\<close>

section \<open>Editing\<close>

text \<open>What is on the line after some keys, and what the terminal is sent.\<close>

fun edit :: "u8 list \<Rightarrow> u8 list \<Rightarrow> u8 list" where
  "edit acc [] = acc"
| "edit acc (c # cs) = (if c = BS \<or> c = DL then edit (butlast acc) cs else edit (acc @ [c]) cs)"

fun echo :: "u8 list \<Rightarrow> u8 list \<Rightarrow> effect list" where
  "echo acc [] = []"
| "echo acc (c # cs) =
     (if c = BS \<or> c = DL
      then (if acc = [] then [] else [Put [BS], Put [of_char CHR 0x20], Put [BS]]) @ echo (butlast acc) cs
      else Put [c] # echo (acc @ [c]) cs)"

text \<open>The keys of a line that never gets longer than \<open>n\<close>.\<close>

fun fits_line :: "nat \<Rightarrow> u8 list \<Rightarrow> u8 list \<Rightarrow> bool" where
  "fits_line n acc [] \<longleftrightarrow> True"
| "fits_line n acc (c # cs) \<longleftrightarrow>
     (if c = BS \<or> c = DL then fits_line n (butlast acc) cs else length acc < n \<and> fits_line n (acc @ [c]) cs)"

definition shows_line :: "shell \<Rightarrow> u8 list \<Rightarrow> bool" where
  "shows_line st acc \<longleftrightarrow> len st = length acc \<and> length acc \<le> LINE_LEN \<and>
     line st = acc @ replicate (LINE_LEN - length acc) 0"

lemma shows_lineD: "shows_line st acc \<Longrightarrow> length (line st) = LINE_LEN"
  by (simp add: shows_line_def)

lemma clear_line_shows: "length (line st) = LINE_LEN \<Longrightarrow> shows_line (clear_line st) []"
proof -
  assume l: "length (line st) = LINE_LEN"
  have "fold (\<lambda>i l. l[i := 0]) [0..<n] xs = replicate n 0 @ drop n xs" if "n \<le> length xs" for n and xs :: "u8 list"
    using that
  proof (induction n)
    case (Suc n)
    then have "drop n xs = xs ! n # drop (Suc n) xs" by (simp add: Cons_nth_drop_Suc)
    with Suc show ?case by (simp add: list_update_append replicate_append_same flip: replicate_Suc)
  qed simp
  from this [of LINE_LEN "line st"] l show ?thesis by (simp add: clear_line_def shows_line_def)
qed

lemma plain_key:
  assumes "shows_line st acc" and "length acc < LINE_LEN" and "c \<noteq> LF" "c \<noteq> CR" "c \<noteq> BS" "c \<noteq> DL"
  shows "\<exists>st'. shell_key ans st c = Inr ([Put [c]], Some st') \<and> shows_line st' (acc @ [c])"
proof -
  let ?st = "st\<lparr>line := (line st)[len st := c], len := len st + 1\<rparr>"
  obtain k where k: "LINE_LEN - length acc = Suc k" using assms(2) by (cases "LINE_LEN - length acc") auto
  have "line ?st = acc @ [c] @ replicate (LINE_LEN - length (acc @ [c])) 0"
    using assms(1) k by (simp add: shows_line_def list_update_append)
  then have "shows_line ?st (acc @ [c])" using assms(1,2) by (simp add: shows_line_def)
  moreover have "shell_key ans st c = Inr ([Put [c]], Some ?st)"
    using assms by (simp add: shell_key_def shows_lineD shows_line_def)
  ultimately show ?thesis by blast
qed

lemma erase_key:
  assumes "shows_line st acc" and "c = BS \<or> c = DL"
  shows "\<exists>st'. shell_key ans st c =
      Inr (if acc = [] then [] else [Put [BS], Put [of_char CHR 0x20], Put [BS]], Some st') \<and> shows_line st' (butlast acc)"
proof -
  have ne: "c \<noteq> LF" "c \<noteq> CR" using assms(2) by (auto simp: BS_def DL_def LF_def CR_def)
  show ?thesis
  proof (cases acc rule: rev_cases)
    case Nil
    then show ?thesis using assms ne by (simp add: shell_key_def is_empty_def shows_line_def)
  next
    case (snoc ys y)
    let ?st = "st\<lparr>line := (line st)[len st - 1 := 0], len := len st - 1\<rparr>"
    have "length acc \<le> LINE_LEN" using assms(1) by (simp add: shows_line_def)
    then have "LINE_LEN - length ys = Suc (LINE_LEN - length acc)" using snoc by auto
    then have "shows_line ?st ys" using assms(1) snoc by (simp add: shows_line_def list_update_append)
    moreover have "shell_key ans st c = Inr ([Put [BS], Put [of_char CHR 0x20], Put [BS]], Some ?st)"
      using assms ne snoc by (simp add: shell_key_def is_empty_def shows_line_def)
    ultimately show ?thesis using snoc by auto
  qed
qed

lemma shell_edits:
  assumes "shows_line st acc" and "fits_line LINE_LEN acc (map fst keys)" and "\<forall>c \<in> fst ` set keys. c \<noteq> LF \<and> c \<noteq> CR"
  shows "\<exists>st'. shows_line st' (edit acc (map fst keys)) \<and>
    shell_keys st (keys @ rest) =
      bindE (shell_keys st' rest) (\<lambda>(es, next). Inr (echo acc (map fst keys) @ es, next))"
  using assms
proof (induction keys arbitrary: st acc)
  case Nil
  have "bindE r (\<lambda>(es, next). Inr ([] @ es, next)) = r" for r :: "(effect list \<times> shell option) outcome"
    by (cases r) auto
  with Nil show ?case by auto
next
  case (Cons key keys)
  obtain c ans where key: "key = (c, ans)" by (cases key)
  have app: "bindE (bindE r (\<lambda>(es, next). Inr (a @ es, next))) (\<lambda>(es, next). Inr (b @ es, next)) =
      bindE r (\<lambda>(es, next). Inr ((b @ a) @ es, next))" for r :: "(effect list \<times> shell option) outcome" and a b
    by (cases r) auto
  have c: "c \<noteq> LF" "c \<noteq> CR" using Cons.prems(3) key by auto
  show ?case
  proof (cases "c = BS \<or> c = DL")
    case True
    let ?out = "if acc = [] then [] else [Put [BS], Put [of_char CHR 0x20], Put [BS]]"
    obtain st1 where st1: "shell_key ans st c = Inr (?out, Some st1)" "shows_line st1 (butlast acc)"
      using erase_key [OF Cons.prems(1) True] by blast
    have f: "fits_line LINE_LEN (butlast acc) (map fst keys)" using Cons.prems(2) key True by simp
    obtain st' where st': "shows_line st' (edit (butlast acc) (map fst keys))"
      "shell_keys st1 (keys @ rest) =
        bindE (shell_keys st' rest) (\<lambda>(es, next). Inr (echo (butlast acc) (map fst keys) @ es, next))"
      using Cons.IH [OF st1(2) f] Cons.prems(3) by auto
    have "shell_keys st ((key # keys) @ rest) =
        bindE (shell_keys st' rest) (\<lambda>(es, next). Inr (echo acc (map fst (key # keys)) @ es, next))"
      using st1(1) st'(2) True by (simp add: key app)
    with st'(1) True show ?thesis by (auto simp: key)
  next
    case False
    then have f: "length acc < LINE_LEN" "fits_line LINE_LEN (acc @ [c]) (map fst keys)" using Cons.prems(2) key by auto
    obtain st1 where st1: "shell_key ans st c = Inr ([Put [c]], Some st1)" "shows_line st1 (acc @ [c])"
      using plain_key [OF Cons.prems(1) f(1) c] False by blast
    obtain st' where st': "shows_line st' (edit (acc @ [c]) (map fst keys))"
      "shell_keys st1 (keys @ rest) =
        bindE (shell_keys st' rest) (\<lambda>(es, next). Inr (echo (acc @ [c]) (map fst keys) @ es, next))"
      using Cons.IH [OF st1(2) f(2)] Cons.prems(3) by auto
    have "shell_keys st ((key # keys) @ rest) =
        bindE (shell_keys st' rest) (\<lambda>(es, next). Inr (echo acc (map fst (key # keys)) @ es, next))"
      using st1(1) st'(2) False app [of _ "echo (acc @ [c]) (map fst keys)" "[Put [c]]"] by (simp add: key)
    with st'(1) False show ?thesis by (auto simp: key)
  qed
qed

text \<open>The string in the buffer is the line, when a zero follows it.\<close>

lemma line_string_shows:
  assumes "shows_line st acc" and "length acc < LINE_LEN" and "0 \<notin> set acc"
  shows "line_string st = Inr acc"
proof -
  obtain k where k: "LINE_LEN - length acc = Suc k" using assms(2) by (cases "LINE_LEN - length acc") auto
  then have l: "line st = acc @ 0 # replicate k 0" using assms(1) by (simp add: shows_line_def)
  have "takeWhile (\<lambda>c. c \<noteq> 0) acc = acc" using assms(3) by (intro takeWhile_eq_all_conv [THEN iffD2]) auto
  then have "takeWhile (\<lambda>c. c \<noteq> 0) (line st) = acc" using assms(3) unfolding l by (subst takeWhile_append2) auto
  then show ?thesis unfolding line_string_def l by simp
qed

lemma edit_set: "set (edit acc cs) \<subseteq> set acc \<union> set cs"
proof (induction acc cs rule: edit.induct)
  case (2 acc c cs)
  then show ?case using in_set_butlastD by (fastforce split: if_splits)
qed simp

abbreviation prompt :: effect where "prompt \<equiv> Put (map of_char ''$ '')"

lemma start_shows: "shows_line (clear_line \<lparr>line = replicate LINE_LEN 0, len = 0\<rparr>) []"
  by (rule clear_line_shows) simp

lemma shell_main_edits:
  assumes "fits_line LINE_LEN [] (map fst keys)" and "\<forall>c \<in> fst ` set keys. c \<noteq> LF \<and> c \<noteq> CR"
  obtains st where "shows_line st (edit [] (map fst keys))"
    and "shell_main (keys @ rest) = bindE (shell_keys st rest) (\<lambda>(es, next). Inr (prompt # echo [] (map fst keys) @ es, next))"
proof -
  obtain st where st: "shows_line st (edit [] (map fst keys))"
    "shell_keys (clear_line \<lparr>line = replicate LINE_LEN 0, len = 0\<rparr>) (keys @ rest) =
      bindE (shell_keys st rest) (\<lambda>(es, next). Inr (echo [] (map fst keys) @ es, next))"
    using shell_edits [OF start_shows assms] by blast
  have "bindE (bindE r (\<lambda>(es, next). Inr (a @ es, next))) (\<lambda>(es, next). Inr (b # es, next)) =
      bindE r (\<lambda>(es, next). Inr (b # a @ es, next))" for r :: "(effect list \<times> shell option) outcome" and a b
    by (cases r) auto
  then have "shell_main (keys @ rest) =
      bindE (shell_keys st rest) (\<lambda>(es, next). Inr (prompt # echo [] (map fst keys) @ es, next))"
    unfolding shell_main_def st(2) by simp
  with that st(1) show thesis by blast
qed

section \<open>Running a line\<close>

text \<open>
  C24: the buffer of the shell implements the editing of a list: for keys that never make the line
  longer than its 256 bytes, \<^verbatim>\<open>main\<close> echoes each key, and at the end of the line the child executes
  exactly the edited line. If there is no such program, the child says so and exits; the parent waits
  for its child and reads the next line into an empty buffer.
\<close>

theorem shell_runs_line:
  assumes "fits_line LINE_LEN [] (map fst keys)" and "\<forall>c \<in> fst ` set keys. c \<noteq> LF \<and> c \<noteq> CR \<and> c \<noteq> 0"
    and "c = LF \<or> c = CR" and "edit [] (map fst keys) \<noteq> []" and "length (edit [] (map fst keys)) < LINE_LEN"
  shows "(forked ans = 0 \<longrightarrow> exec_result ans = None \<longrightarrow>
      shell_main (keys @ (c, ans) # rest) =
        Inr (prompt # echo [] (map fst keys) @ [Put [LF], Fork, Exec (edit [] (map fst keys))], None)) \<and>
    (forked ans = 0 \<longrightarrow> exec_result ans = Some (-1) \<longrightarrow>
      shell_main (keys @ (c, ans) # rest) =
        Inr (prompt # echo [] (map fst keys) @ [Put [LF], Fork, Exec (edit [] (map fst keys)),
          Put (edit [] (map fst keys) @ map of_char ('': No such file'' @ [CHR 0x0A])), Exit], None)) \<and>
    (forked ans \<noteq> 0 \<longrightarrow> waited ans 0 \<noteq> -1 \<longrightarrow>
      (\<exists>st. shows_line st [] \<and> shell_main (keys @ (c, ans) # rest) =
        bindE (shell_keys st rest) (\<lambda>(es, next).
          Inr (prompt # echo [] (map fst keys) @ [Put [LF], Fork, Wait, prompt] @ es, next))))"
proof -
  let ?line = "edit [] (map fst keys)"
  have k: "\<forall>c \<in> fst ` set keys. c \<noteq> LF \<and> c \<noteq> CR" using assms(2) by blast
  obtain st where st: "shows_line st ?line" "shell_main (keys @ (c, ans) # rest) =
      bindE (shell_keys st ((c, ans) # rest)) (\<lambda>(es, next). Inr (prompt # echo [] (map fst keys) @ es, next))"
    by (rule shell_main_edits [OF assms(1) k])
  have "0 \<notin> set ?line" using edit_set [of "[]" "map fst keys"] assms(2) by fastforce
  then have ls: "line_string st = Inr ?line" by (rule line_string_shows [OF st(1) assms(5)])
  have ne: "\<not> is_empty st" using st(1) assms(4) by (simp add: is_empty_def shows_line_def)
  have empty: "shows_line (clear_line st) []" by (rule clear_line_shows [OF shows_lineD [OF st(1)]])
  have w: "wait_loop (waited ans) 0 = Some 1" if "waited ans 0 \<noteq> -1" using that by (subst wait_loop.simps) simp
  have key: "shell_key ans st c = bindE (run_line ans st) (\<lambda>(es, next).
      Inr (Put [LF] # es @ (if next = None then [] else [prompt]), next))"
    using assms(3) ne by (simp add: shell_key_def)
  show ?thesis
  proof (intro conjI impI)
    assume "forked ans = 0" "exec_result ans = None"
    then show "shell_main (keys @ (c, ans) # rest) =
        Inr (prompt # echo [] (map fst keys) @ [Put [LF], Fork, Exec ?line], None)"
      unfolding st(2) by (simp add: key run_line_def run_child_def ls)
  next
    assume "forked ans = 0" "exec_result ans = Some (-1)"
    then show "shell_main (keys @ (c, ans) # rest) =
        Inr (prompt # echo [] (map fst keys) @ [Put [LF], Fork, Exec ?line,
          Put (?line @ map of_char ('': No such file'' @ [CHR 0x0A])), Exit], None)"
      unfolding st(2) by (simp add: key run_line_def run_child_def ls)
  next
    assume "forked ans \<noteq> 0" "waited ans 0 \<noteq> -1"
    then have "shell_key ans st c = Inr ([Put [LF], Fork, Wait, prompt], Some (clear_line st))"
      by (simp add: key run_line_def w returns_def)
    moreover have "bindE (bindE r (\<lambda>(es, next). Inr (a @ es, next))) (\<lambda>(es, next). Inr (p # b @ es, next)) =
        bindE r (\<lambda>(es, next). Inr (p # b @ a @ es, next))" for r :: "(effect list \<times> shell option) outcome" and a b p
      by (cases r) auto
    note this [of _ "[Put [LF], Fork, Wait, prompt]"]
    ultimately have "shell_main (keys @ (c, ans) # rest) = bindE (shell_keys (clear_line st) rest) (\<lambda>(es, next).
        Inr (prompt # echo [] (map fst keys) @ [Put [LF], Fork, Wait, prompt] @ es, next))"
      unfolding st(2) by simp
    with empty show "\<exists>st. shows_line st [] \<and> shell_main (keys @ (c, ans) # rest) = bindE (shell_keys st rest) (\<lambda>(es, next).
        Inr (prompt # echo [] (map fst keys) @ [Put [LF], Fork, Wait, prompt] @ es, next))" by blast
  qed
qed

text \<open>Typing \<^verbatim>\<open>lx\<close>, erasing the \<^verbatim>\<open>x\<close> and typing \<^verbatim>\<open>s\<close> executes \<^verbatim>\<open>ls\<close>.\<close>

theorem shell_runs_line_witness:
  "shell_main (map (\<lambda>c. (c, \<lparr>forked = 0, exec_result = None, waited = (\<lambda>_. 0)\<rparr>)) [0x6c, 0x78, DL, 0x73, CR]) =
    Inr ([prompt, Put [0x6c], Put [0x78], Put [BS], Put [0x20], Put [BS], Put [0x73], Put [LF], Fork, Exec [0x6c, 0x73]], None)"
proof -
  let ?ans = "\<lparr>forked = 0, exec_result = None, waited = (\<lambda>_. 0)\<rparr>"
  let ?keys = "map (\<lambda>c. (c, ?ans)) [0x6c, 0x78, DL, 0x73]"
  have c: "map fst ?keys = [0x6c, 0x78, DL, 0x73]" by simp
  have e: "edit [] [0x6c, 0x78, DL, 0x73] = [0x6c, 0x73]"
    "echo [] [0x6c, 0x78, DL, 0x73] = [Put [0x6c], Put [0x78], Put [BS], Put [0x20], Put [BS], Put [0x73]]"
    by (simp_all add: BS_def DL_def)
  have f: "fits_line LINE_LEN [] [0x6c, 0x78, DL, 0x73]" by (simp add: BS_def DL_def LINE_LEN_def)
  have k: "\<forall>c \<in> fst ` set ?keys. c \<noteq> LF \<and> c \<noteq> CR \<and> c \<noteq> 0" by (auto simp: LF_def CR_def DL_def)
  have "shell_main (?keys @ (CR, ?ans) # []) =
      Inr (prompt # echo [] (map fst ?keys) @ [Put [LF], Fork, Exec (edit [] (map fst ?keys))], None)"
    using shell_runs_line [of ?keys CR ?ans "[]"] k unfolding c e by (simp add: f LINE_LEN_def)
  then show ?thesis unfolding c e by simp
qed

section \<open>A line that is too long\<close>

text \<open>
  The buffer is not guarded: the 257th character of a line is stored past its end.
\<close>

theorem shell_overflow:
  assumes "length keys = 257" and "\<forall>c \<in> fst ` set keys. c \<noteq> LF \<and> c \<noteq> CR \<and> c \<noteq> BS \<and> c \<noteq> DL"
  shows "shell_main keys = Inl Undefined"
proof -
  obtain front c ans where keys: "keys = front @ [(c, ans)]" "length front = 256"
    using assms(1) by (cases keys rule: rev_cases) auto
  have f: "fits_line n acc cs \<and> edit acc cs = acc @ cs"
    if "length acc + length cs \<le> n" "\<forall>c \<in> set cs. c \<noteq> BS \<and> c \<noteq> DL" for n acc cs
    using that by (induction cs arbitrary: acc) auto
  have plain: "\<forall>c \<in> set (map fst front). c \<noteq> BS \<and> c \<noteq> DL" "\<forall>c \<in> fst ` set front. c \<noteq> LF \<and> c \<noteq> CR"
    "c \<noteq> LF" "c \<noteq> CR" "c \<noteq> BS" "c \<noteq> DL"
    using assms(2) keys(1) by auto
  have fl: "fits_line LINE_LEN [] (map fst front)" "edit [] (map fst front) = map fst front"
    using f [of "[]" "map fst front" LINE_LEN] plain(1) keys(2) by (simp_all add: LINE_LEN_def)
  obtain st where st: "shows_line st (map fst front)" "shell_main keys =
      bindE (shell_keys st [(c, ans)]) (\<lambda>(es, next). Inr (prompt # echo [] (map fst front) @ es, next))"
    using shell_main_edits [OF fl(1) plain(2), of "[(c, ans)]"] unfolding fl(2) keys(1) by blast
  have "shell_key ans st c = Inl Undefined"
    using plain(3-6) st(1) keys(2) by (simp add: shell_key_def shows_line_def LINE_LEN_def)
  with st(2) show ?thesis by simp
qed

end
