(* ===== verification/Spec2Isabelle.thy ===== *)
theory Spec2Isabelle
  imports Memory_Properties Paging_Properties Space_Properties Elf_Properties Data_Properties Process_Properties
    Fork_Properties Exec_Properties Wait_Properties Trap_Properties Fs_Properties Boot_Properties User_Properties Ls_Properties Ulib_Properties Shell_Properties
begin

text \<open>
  LilacOS: a small kernel for RISC-V, its user programs, and the tool that makes its disk image.

  \<^bold>\<open>The program.\<close> \<^verbatim>\<open>main\<close> (\<^verbatim>\<open>kernel/main.c\<close>) sets up the memory manager, the process table, the file system
  and the timer, and calls \<^verbatim>\<open>schedule\<close>. From then on the kernel runs in traps: \<^verbatim>\<open>trap_handle\<close>
  (\<^verbatim>\<open>kernel/trap.c\<close>) serves timer interrupts and system calls (\<^verbatim>\<open>kernel/syscall.c\<close>), which work on
  processes (\<^verbatim>\<open>kernel/process.c\<close>), address spaces (\<^verbatim>\<open>kernel/mapping.c\<close>, \<^verbatim>\<open>kernel/elf.c\<close>) and files
  (\<^verbatim>\<open>kernel/fs.c\<close>). All of these take their memory from the buddy allocator
  (\<^verbatim>\<open>kernel/buddy_system_allocator.c\<close>). The files are in an image that \<^verbatim>\<open>tool/mkfs.c\<close> builds and that is
  linked into the kernel. The programs under \<^verbatim>\<open>user/\<close> reach the kernel only through \<^verbatim>\<open>ecall\<close>.

  \<^bold>\<open>The model.\<close> Memory is a function from 64-bit addresses to bytes; machine integers are words and wrap
  as in the code. A result is \<open>Inr\<close> a value, or \<open>Inl\<close> a fault: a panic with its message, undefined
  behaviour (an index out of range, a null or dangling pointer), or divergence. Loops whose end is not
  plain are partial functions, whose \<open>None\<close> becomes divergence, so that a theorem with a result of \<open>Inr\<close>
  says that the code returns; the other loops end by their measures, and no fuel is used. Free lists, page
  tables, the image of the file system and strings are bytes in memory. \<^verbatim>\<open>struct Pcb\<close>, \<^verbatim>\<open>struct File\<close>,
  \<^verbatim>\<open>struct MemoryMap\<close> and \<^verbatim>\<open>struct Segment\<close> are records in stores keyed by the address the allocator
  returned, and the list heads in them are nodes of one store of links.

  \<^bold>\<open>Theories and code.\<close>
  \<^item> \<^verbatim>\<open>Lilac_Prelude\<close>, \<^verbatim>\<open>Addr\<close>: results, bytes and words in memory, aligned blocks; \<^verbatim>\<open>consts.h\<close> and the
    macros of \<^verbatim>\<open>mapping.h\<close>.
  \<^item> \<^verbatim>\<open>Buddy_Arith\<close>, \<^verbatim>\<open>Buddy\<close>: \<^verbatim>\<open>buddy_system_allocator.c\<close>. \<^verbatim>\<open>Buddy_Lists\<close> and \<^verbatim>\<open>Buddy_Refine\<close>: the same
    allocator on lists of addresses, and the proof that the code implements it. \<^verbatim>\<open>Buddy_Region\<close>: adding the
    region of the heap. \<^verbatim>\<open>Buddy_Spec\<close>: the locale of a block allocator over a set of free addresses, and its
    interpretation.
  \<^item> \<^verbatim>\<open>Kmem\<close>: \<^verbatim>\<open>memory.c\<close>, with the locale of a frame allocator. \<^verbatim>\<open>Page_Table\<close>, \<^verbatim>\<open>Page_Map\<close>, \<^verbatim>\<open>Page_Free\<close>:
    the walk, mapping and unmapping, and freeing of page tables in \<^verbatim>\<open>mapping.c\<close>; the abstraction of a table
    tree is a function from paths to page numbers. \<^verbatim>\<open>Address_Space\<close>: segments and address spaces of
    \<^verbatim>\<open>mapping.c\<close>, and \<^verbatim>\<open>elf.c\<close>. \<^verbatim>\<open>Space_Life\<close>: what makes segments, tables and frames one address
    space, and its end. \<^verbatim>\<open>Space_Copy\<close>, \<^verbatim>\<open>Space_Clone\<close>: its copy by \<^verbatim>\<open>copy_mm\<close>.
    \<^verbatim>\<open>Elf_Load\<close>: one built from the segments of the kernel and the headers of a program.
  \<^item> \<^verbatim>\<open>Dlist_Heap\<close>: \<^verbatim>\<open>list.h\<close>, with the locale of a store of sequences. \<^verbatim>\<open>Kstring\<close>: \<^verbatim>\<open>string.h\<close>.
    \<^verbatim>\<open>Kprintf\<close>: \<^verbatim>\<open>printf.c\<close>.
  \<^item> \<^verbatim>\<open>Fs\<close>: the file system of \<^verbatim>\<open>fs.c\<close> on the bytes of its image. \<^verbatim>\<open>Fs_Layout\<close> to \<^verbatim>\<open>Fs_Names\<close>: its
    invariant and what each operation does to it; \<^verbatim>\<open>Fs_Alloc\<close> has the locale of an allocator that takes the
    first free block.
  \<^item> \<^verbatim>\<open>Mkfs\<close>: \<^verbatim>\<open>tool/mkfs.c\<close>. \<^verbatim>\<open>Mkfs_Blocks\<close> to \<^verbatim>\<open>Mkfs_Readback\<close>: the image it builds; its allocator is a
    second interpretation of the locale of \<^verbatim>\<open>Fs_Alloc\<close>.
  \<^item> \<^verbatim>\<open>Kernel_State\<close>: the state of the kernel, \<^verbatim>\<open>process.h\<close> and the numbers and the queue of
    \<^verbatim>\<open>process.c\<close>, \<^verbatim>\<open>timer.c\<close>, the console. \<^verbatim>\<open>Kernel_Heap\<close>: the heap as the handlers use it.
    \<^verbatim>\<open>File_Calls\<close>: the system calls of \<^verbatim>\<open>fs.c\<close>. \<^verbatim>\<open>Process\<close>: the rest of \<^verbatim>\<open>process.c\<close>. \<^verbatim>\<open>Fork\<close>, \<^verbatim>\<open>Exec\<close>,
    \<^verbatim>\<open>Wait\<close>: the specifications of \<^verbatim>\<open>sys_fork\<close>, \<^verbatim>\<open>sys_exec\<close> and \<^verbatim>\<open>sys_wait\<close>, with every part of the memory
    they take and give back. \<^verbatim>\<open>Traps\<close>: \<^verbatim>\<open>syscall.c\<close> and \<^verbatim>\<open>trap.c\<close>. \<^verbatim>\<open>Boot\<close>: \<^verbatim>\<open>main.c\<close>.
  \<^item> \<^verbatim>\<open>Sched\<close>, \<^verbatim>\<open>Sched_Steps\<close>: the steps of the scheduled system as an inductive relation over the handlers,
    without the calls that create, replace or give back a process. \<^verbatim>\<open>System_Steps\<close> adds those, each from a state
    in which the memory it works on is in order.
  \<^item> \<^verbatim>\<open>Ulib\<close>: \<^verbatim>\<open>user/syscall.c\<close>, \<^verbatim>\<open>user/printf.c\<close>. \<^verbatim>\<open>Shell\<close>: \<^verbatim>\<open>user/shell.c\<close>, \<^verbatim>\<open>user/init.c\<close>,
    \<^verbatim>\<open>user/hello.c\<close>, as the calls they make. \<^verbatim>\<open>User_Calls\<close>: \<^verbatim>\<open>user/filetest.c\<close>, \<^verbatim>\<open>user/ls.c\<close>,
    \<^verbatim>\<open>user/entry.c\<close>, run over the kernel. \<^verbatim>\<open>File_Session\<close>, \<^verbatim>\<open>User_Session\<close>: what each call on files does to
    heap, image and open files together, and what it returns to the program.

  \<^bold>\<open>What is shown.\<close> \<^verbatim>\<open>Memory_Properties\<close>: allocation and release are correct and complete, live blocks never
  overlap, the free lists are merged as far as they can be, and the code refines the allocator on lists.
  \<^verbatim>\<open>Paging_Properties\<close>: the walk builds only what is missing, mapping gives exactly the translations asked
  for, and the life of a segment returns every frame. \<^verbatim>\<open>Space_Properties\<close>: a copied address space is
  the source in memory of its own, what destroying it gives back and what it does not, and that a copy of a
  copy lacks the linear segments. \<^verbatim>\<open>Elf_Properties\<close>: what \<^verbatim>\<open>from_elf\<close> makes of a file. \<^verbatim>\<open>Data_Properties\<close>: lists, strings, numbers.
  \<^verbatim>\<open>Process_Properties\<close> and \<^verbatim>\<open>Trap_Properties\<close>: every ready process gets its turn, exiting, traps and their errors.
  \<^verbatim>\<open>Wait_Properties\<close>: what \<^verbatim>\<open>sys_wait\<close> gives back, and that one process runs and the queue holds exactly the ready
  ones after any steps of the system, forks, execs and reaping included. A fork, an exec or a wait that returns
  is a step only from a state that meets the hypotheses of its specification, and the exit of a process with
  children, other than \<^verbatim>\<open>init\<close>, is none: it does not return.
  \<^verbatim>\<open>Fork_Properties\<close>: the child of \<^verbatim>\<open>sys_fork\<close>, from its registers to the bytes of its pages.
  \<^verbatim>\<open>Exec_Properties\<close>: \<^verbatim>\<open>sys_exec\<close>, from the name of a file in the image to the program in its pages.
  \<^verbatim>\<open>Fs_Properties\<close>: reading, writing and creating files, and that the kernel reads back what \<^verbatim>\<open>mkfs\<close> packed.
  \<^verbatim>\<open>Boot_Properties\<close>: the allocator test of every boot passes. \<^verbatim>\<open>Ulib_Properties\<close>, \<^verbatim>\<open>Shell_Properties\<close>: the
  user's formatter is the kernel's, and the shell is a line editor. \<^verbatim>\<open>User_Properties\<close> and
  \<^verbatim>\<open>Ls_Properties\<close> put the parts together: \<^verbatim>\<open>filetest\<close> and \<^verbatim>\<open>ls\<close> run through traps, system calls, the file
  system and the heap, and print what they should. Each theorem with hypotheses is applied to a concrete
  kernel, heap or image in the theorem that follows it.

  \<^bold>\<open>Bounds.\<close> The heap is the memory from \<^verbatim>\<open>ekernel\<close> to \<^verbatim>\<open>MEMORY_END\<close>, in blocks of at most 2^29 bytes; the image has 2048 blocks of 512 bytes, and a file at most 140
  blocks. The theorems on files ask for offsets and counts below those sizes; what the code does beyond
  them (it checks little) is in the definitions. There are 16 descriptors and 1024 process numbers.

  \<^bold>\<open>Not modelled.\<close> The assembly (\<^verbatim>\<open>entry.S\<close>, \<^verbatim>\<open>switch.S\<close>, \<^verbatim>\<open>kerneltrap.S\<close>, \<^verbatim>\<open>linkfs.S\<close>), the linker scripts,
  and the accessors of control registers and of SBI, whose effects are fields of the state (the console,
  the timer, \<^verbatim>\<open>satp\<close>); the flush of the TLB. Contexts are switched by ending a handler with the place where
  the process goes on. A user pointer is an address in the one memory: its translation by the page table of
  the process is not part of a system call here. The build for the D1 board is left out. \<^verbatim>\<open>mkfs\<close> is
  modelled from the listing of the directory and the bytes of its files to the bytes of the image, not the
  writing of the file \<^verbatim>\<open>fs.img\<close>. \<^verbatim>\<open>def.h\<close>, \<^verbatim>\<open>types.h\<close> and \<^verbatim>\<open>ulib.h\<close> are declarations.
\<close>

end
